(* ===== verification/Prelude.thy ===== *)
theory Prelude
  imports Main "HOL-Library.Word" "HOL-Library.Monad_Syntax" "HOL-Library.Sublist"
begin

unbundle bit_operations_syntax

text \<open>
  The vocabulary that every theory of the development shares: the machine types of the
  native port, the outcome of a kernel routine, and the small total-correctness calculus
  the component proofs are written in.

  A routine of the C code that can stop the program (a failed \<open>configASSERT\<close>, a NULL
  that is dereferenced) or that contains a loop whose end has to be argued for is a HOL
  function into \<open>'a option\<close>: \<open>None\<close> is the abort or the loop that does not end.
  \<open>ensures m Q\<close> says that \<open>m\<close> does produce a result and that the result satisfies
  \<open>Q\<close>, so every theorem in this form claims that no assertion fails and that every loop
  ends.
\<close>

section \<open>Machine types\<close>

text \<open>
  \<open>TickType_t\<close> is \<open>uint32_t\<close> in the POSIX port (portmacro.h), whatever the width of the
  host pointers; notification values are \<open>uint32_t\<close> as well. \<open>UBaseType_t\<close> is
  \<open>unsigned long\<close>, 64 bits on the Linux hosts the emulator runs on.
\<close>

type_synonym tick = "32 word"
type_synonym u32 = "32 word"
type_synonym ubase = "64 word"
type_synonym byte = "8 word"

definition portMAX_DELAY :: tick where
  "portMAX_DELAY = - 1"

lemma portMAX_DELAY_max [simp]: "w \<le> portMAX_DELAY"
  by (simp add: portMAX_DELAY_def)

lemma portMAX_DELAY_less [simp]: "\<not> portMAX_DELAY < w"
  by (simp add: not_less)

lemma portMAX_DELAY_le_iff [simp]: "portMAX_DELAY \<le> w \<longleftrightarrow> w = portMAX_DELAY"
  by (metis antisym portMAX_DELAY_max order_refl)

lemma unat_portMAX_DELAY: "unat portMAX_DELAY = 2 ^ 32 - 1"
  by (simp add: portMAX_DELAY_def unat_word_ariths unat_eq_nat_uint uint_word_ariths)

lemma tick_plus_one_zero: "(w :: tick) + 1 = 0 \<longleftrightarrow> w = portMAX_DELAY"
  by (simp only: portMAX_DELAY_def eq_neg_iff_add_eq_0)

lemma unat_tick_plus_one: "w \<noteq> portMAX_DELAY \<Longrightarrow> unat (w + 1 :: tick) = Suc (unat w)"
  using tick_plus_one_zero [of w] unatSuc [of w] by (simp add: add.commute)

lemma uint_eq_int_unat: "uint w = int (unat w)"
  by simp

lemma unat_tick_eq: "unat (w :: tick) = 2 ^ 32 - 1 \<Longrightarrow> uint w = 2 ^ 32 - 1"
  unfolding uint_eq_int_unat [of w] by (simp only: of_nat_numeral of_nat_power) simp

lemma uint_tick_bounds: "0 \<le> uint (w :: tick)" "uint (w :: tick) < 2 ^ 32"
  using uint_lt2p [of w] by simp_all

lemma unat_tick_bound: "unat (w :: tick) < 2 ^ 32"
  using unsigned_less [of w, where 'a = nat] by simp

lemma tick_less_plus_one: "w \<noteq> portMAX_DELAY \<Longrightarrow> (w :: tick) < w + 1"
  by (simp add: word_less_nat_alt unat_tick_plus_one)

lemma tick_less_imp_plus_one_le: "(v :: tick) < w \<Longrightarrow> v + 1 \<le> w"
  by (rule inc_le)

section \<open>Outcomes and total correctness\<close>

definition ensures :: "'a option \<Rightarrow> ('a \<Rightarrow> bool) \<Rightarrow> bool" where
  "ensures m Q = (case m of None \<Rightarrow> False | Some x \<Rightarrow> Q x)"

named_theorems ensures_intro \<open>rules that establish \<open>ensures\<close> for one routine\<close>

lemma ensures_None [simp]: "\<not> ensures None Q"
  by (simp add: ensures_def)

lemma ensures_Some [simp]: "ensures (Some x) Q \<longleftrightarrow> Q x"
  by (simp add: ensures_def)

lemma ensures_bind [simp]:
  "ensures (Option.bind m f) Q \<longleftrightarrow> ensures m (\<lambda>x. ensures (f x) Q)"
  by (cases m) simp_all

lemma ensures_map [simp]: "ensures (map_option f m) Q \<longleftrightarrow> ensures m (\<lambda>x. Q (f x))"
  by (cases m) simp_all

lemma bind_Some_map: "Option.bind m (\<lambda>x. Some (f x)) = map_option f m"
  by (cases m) simp_all

lemma ensures_iff: "ensures m Q \<longleftrightarrow> (\<exists>x. m = Some x \<and> Q x)"
  by (cases m) simp_all

lemma ensures_mono: "ensures m P \<Longrightarrow> (\<And>x. P x \<Longrightarrow> Q x) \<Longrightarrow> ensures m Q"
  by (cases m) simp_all

lemma ensures_conj: "ensures m P \<Longrightarrow> ensures m Q \<Longrightarrow> ensures m (\<lambda>x. P x \<and> Q x)"
  by (cases m) simp_all

lemma ensures_eq_Some: "ensures m Q \<Longrightarrow> m = Some x \<Longrightarrow> Q x"
  by simp

lemma ensures_SomeE: assumes "ensures m Q" obtains x where "m = Some x" and "Q x"
  using assms by (cases m) simp_all

text \<open>
  \<open>configASSERT\<close> prints the condition and calls \<open>abort()\<close>
  (frameworks/freertos_posix/FreeRTOSConfig.h).
\<close>

definition configASSERT :: "bool \<Rightarrow> unit option" where
  "configASSERT b = (if b then Some () else None)"

lemma configASSERT_True [simp]: "configASSERT True = Some ()"
  by (simp add: configASSERT_def)

lemma configASSERT_False [simp]: "configASSERT False = None"
  by (simp add: configASSERT_def)

lemma ensures_configASSERT [simp]: "ensures (configASSERT b) Q \<longleftrightarrow> b \<and> Q ()"
  by (cases b) simp_all

lemma configASSERT_eq_Some [simp]: "configASSERT b = Some u \<longleftrightarrow> b"
  by (cases b) simp_all

section \<open>Lists\<close>

text \<open>Inserting before the first element that fails a test keeps the rest in place.\<close>

definition insert_at_first :: "('a \<Rightarrow> bool) \<Rightarrow> 'a \<Rightarrow> 'a list \<Rightarrow> 'a list" where
  "insert_at_first P x xs = takeWhile P xs @ x # dropWhile P xs"

lemma insert_at_first_Nil [simp]: "insert_at_first P x [] = [x]"
  by (simp add: insert_at_first_def)

lemma insert_at_first_neq_Nil [simp]: "insert_at_first P x xs \<noteq> []"
  by (simp add: insert_at_first_def)

lemma length_insert_at_first [simp]: "length (insert_at_first P x xs) = Suc (length xs)"
  by (metis add_Suc_right insert_at_first_def length_Cons length_append
      takeWhile_dropWhile_id)

lemma set_insert_at_first [simp]: "set (insert_at_first P x xs) = insert x (set xs)"
proof -
  have "set (takeWhile P xs) \<union> set (dropWhile P xs) = set xs"
    by (metis set_append takeWhile_dropWhile_id)
  then show ?thesis by (auto simp: insert_at_first_def)
qed

lemma distinct_insert_middle: "distinct (ys @ x # zs) \<longleftrightarrow> distinct (x # ys @ zs)"
  by auto

lemma distinct_insert_at_first [simp]:
  "distinct (insert_at_first P x xs) \<longleftrightarrow> x \<notin> set xs \<and> distinct xs"
  unfolding insert_at_first_def distinct_insert_middle by (simp only: takeWhile_dropWhile_id distinct.simps)

lemma insert_at_first_all: "(\<And>y. y \<in> set xs \<Longrightarrow> P y) \<Longrightarrow> insert_at_first P x xs = xs @ [x]"
  by (simp add: insert_at_first_def dropWhile_eq_Nil_conv takeWhile_eq_all_conv)

lemma insert_at_first_remove1:
  assumes "x \<notin> set xs" shows "remove1 x (insert_at_first P x xs) = xs"
proof -
  have "x \<notin> set (takeWhile P xs)" using assms by (meson set_takeWhileD)
  then show ?thesis by (simp add: insert_at_first_def remove1_append)
qed

lemma takeWhile_True [simp]: "takeWhile (\<lambda>_. True) xs = xs"
  by (simp add: takeWhile_eq_all_conv)

lemma dropWhile_True [simp]: "dropWhile (\<lambda>_. True) xs = []"
  by (simp add: dropWhile_eq_Nil_conv)

text \<open>A list kept in ascending key order, and what insertion after the equal keys does to it.\<close>

definition sorted_key :: "('a \<Rightarrow> 'k::linorder) \<Rightarrow> 'a list \<Rightarrow> bool" where
  "sorted_key f xs = sorted (map f xs)"

lemma sorted_key_Nil [simp]: "sorted_key f []"
  by (simp add: sorted_key_def)

lemma sorted_key_Cons [simp]:
  "sorted_key f (x # xs) \<longleftrightarrow> (\<forall>y \<in> set xs. f x \<le> f y) \<and> sorted_key f xs"
  by (auto simp: sorted_key_def)

lemma sorted_key_append:
  "sorted_key f (xs @ ys) \<longleftrightarrow>
     sorted_key f xs \<and> sorted_key f ys \<and> (\<forall>x \<in> set xs. \<forall>y \<in> set ys. f x \<le> f y)"
  by (auto simp: sorted_key_def sorted_append)

lemma sorted_key_cong:
  "(\<And>x. x \<in> set xs \<Longrightarrow> f x = g x) \<Longrightarrow> sorted_key f xs = sorted_key g xs"
  by (induction xs) auto

lemma sorted_key_remove1: "sorted_key f xs \<Longrightarrow> sorted_key f (remove1 x xs)"
  unfolding sorted_key_def by (metis sorted_map_remove1)

lemma sorted_key_hd: "sorted_key f xs \<Longrightarrow> y \<in> set xs \<Longrightarrow> f (hd xs) \<le> f y"
  by (cases xs) auto

lemma sorted_key_dropWhile_gt:
  assumes "sorted_key f xs" and "y \<in> set (dropWhile (\<lambda>z. f z \<le> v) xs)"
  shows "v < f y"
  using assms
proof (induction xs)
  case Nil
  then show ?case by simp
next
  case (Cons x xs)
  then show ?case by (auto split: if_splits)
qed

lemma sorted_key_insert_middle:
  assumes "sorted_key f (ys @ zs)" and "\<And>y. y \<in> set ys \<Longrightarrow> f y \<le> f x"
    and "\<And>z. z \<in> set zs \<Longrightarrow> f x \<le> f z"
  shows "sorted_key f (ys @ x # zs)"
  using assms by (simp add: sorted_key_append)

lemma sorted_key_insert:
  assumes "sorted_key f xs"
  shows "sorted_key f (insert_at_first (\<lambda>y. f y \<le> f x) x xs)"
  unfolding insert_at_first_def
proof (rule sorted_key_insert_middle)
  show "sorted_key f (takeWhile (\<lambda>y. f y \<le> f x) xs @ dropWhile (\<lambda>y. f y \<le> f x) xs)"
    using assms by simp
next
  fix y assume "y \<in> set (takeWhile (\<lambda>y. f y \<le> f x) xs)"
  then show "f y \<le> f x" by (rule set_takeWhileD [THEN conjunct2])
next
  fix z assume "z \<in> set (dropWhile (\<lambda>y. f y \<le> f x) xs)"
  with assms show "f x \<le> f z" by (rule sorted_key_dropWhile_gt [THEN less_imp_le])
qed

text \<open>Neighbours in a list: the element before a given one.\<close>

fun pred_in :: "'a \<Rightarrow> 'a list \<Rightarrow> 'a option" where
  "pred_in x [] = None"
| "pred_in x [y] = None"
| "pred_in x (y # z # zs) = (if z = x then Some y else pred_in x (z # zs))"

lemma pred_in_member: "pred_in x xs = Some y \<Longrightarrow> y \<in> set xs"
  by (induction x xs rule: pred_in.induct) (auto split: if_splits)

lemma pred_in_append:
  "x \<notin> set xs \<Longrightarrow> pred_in x (xs @ x # ys) = (if xs = [] then pred_in x (x # ys) else Some (last xs))"
  by (induction x xs rule: pred_in.induct) auto

lemma pred_in_hd: "x \<notin> set ys \<Longrightarrow> pred_in x (x # ys) = None"
proof (induction ys arbitrary: )
  case Nil
  then show ?case by simp
next
  case (Cons y ys)
  have "pred_in x (y # ys) = None" if "x \<notin> set (y # ys)" for y ys
    using that by (induction ys arbitrary: y) auto
  with Cons.prems show ?case by auto
qed

lemma pred_in_neq:
  assumes "distinct xs" and "pred_in x xs = Some y" shows "y \<noteq> x"
  using assms by (induction x xs rule: pred_in.induct) (auto split: if_splits)

section \<open>Numbers as digits\<close>

lemma digits_sum: "(\<Sum>i<n. (h div b ^ i) mod b * b ^ i) = h mod b ^ n" for h b :: nat
proof (induction n)
  case (Suc n)
  have "h mod b ^ Suc n = b ^ n * (h div b ^ n mod b) + h mod b ^ n"
    by (simp add: mod_mult2_eq mult.commute [of b])
  with Suc show ?case by (simp add: algebra_simps)
qed simp

text \<open>A number as the bytes of a field of \<open>w\<close> bytes, least significant first, as the host has them.\<close>

definition le_bytes :: "nat \<Rightarrow> nat \<Rightarrow> byte list" where
  "le_bytes w n = map (\<lambda>i. of_nat (n div 256 ^ i)) [0..<w]"

definition of_le_bytes :: "byte list \<Rightarrow> nat" where
  "of_le_bytes bs = (\<Sum>i<length bs. unat (bs ! i) * 256 ^ i)"

lemma length_le_bytes [simp]: "length (le_bytes w n) = w"
  by (simp add: le_bytes_def)

lemma le_bytes_round:
  assumes "n < 256 ^ w" shows "of_le_bytes (le_bytes w n) = n"
proof -
  have "of_le_bytes (le_bytes w n) = (\<Sum>i<w. (n div 256 ^ i) mod 256 * 256 ^ i)"
    unfolding of_le_bytes_def le_bytes_def by (simp add: unat_of_nat)
  also have "\<dots> = n mod 256 ^ w" by (rule digits_sum)
  finally show ?thesis using assms by simp
qed

end
