(* ===== verification/List_Spec.thy ===== *)
theory List_Spec
  imports Prelude
begin

text \<open>
  The contract of the kernel's list component (list.c, include/list.h) at the level its
  clients use it: for every list header the sequence of its items from the head, the item
  the walking cursor \<open>pxIndex\<close> stands on (\<open>None\<close> for the end marker), and for every item
  its \<open>xItemValue\<close> and the list it is in. tasks.c, queue.c, event_groups.c and timers.c
  are modelled over this contract; theory List_C holds list.c itself, pointer by pointer,
  and shows that it meets the contract.

  All lists of a system share one store, because an item moves between lists and a list
  operation finds the list through the item. \<open>'l\<close> names list headers and \<open>'i\<close> items.
\<close>

record ('l, 'i) lists =
  items :: "'l \<Rightarrow> 'i list"
  cursor :: "'l \<Rightarrow> 'i option"
  item_value :: "'i \<Rightarrow> tick"
  container :: "'i \<Rightarrow> 'l option"

section \<open>Operations\<close>

definition list_init :: "'l \<Rightarrow> ('l, 'i) lists \<Rightarrow> ('l, 'i) lists" where
  "list_init l L = L\<lparr>items := (items L)(l := []), cursor := (cursor L)(l := None)\<rparr>"

definition list_item_init :: "'i \<Rightarrow> ('l, 'i) lists \<Rightarrow> ('l, 'i) lists" where
  "list_item_init i L = L\<lparr>container := (container L)(i := None)\<rparr>"

definition list_set_value :: "'i \<Rightarrow> tick \<Rightarrow> ('l, 'i) lists \<Rightarrow> ('l, 'i) lists" where
  "list_set_value i v L = L\<lparr>item_value := (item_value L)(i := v)\<rparr>"

text \<open>
  \<open>vListInsertEnd\<close> puts the item just before the cursor, so that it is the last one a
  walk with \<open>listGET_OWNER_OF_NEXT_ENTRY\<close> reaches; \<open>vListInsert\<close> puts it after the items
  whose value is not greater.
\<close>

definition insert_before :: "'i option \<Rightarrow> 'i \<Rightarrow> 'i list \<Rightarrow> 'i list" where
  "insert_before c i xs = (case c of None \<Rightarrow> xs @ [i] | Some j \<Rightarrow> insert_at_first (\<lambda>x. x \<noteq> j) i xs)"

definition list_insert_end :: "'l \<Rightarrow> 'i \<Rightarrow> ('l, 'i) lists \<Rightarrow> ('l, 'i) lists" where
  "list_insert_end l i L =
     L\<lparr>items := (items L)(l := insert_before (cursor L l) i (items L l)),
       container := (container L)(i \<mapsto> l)\<rparr>"

definition list_insert :: "'l \<Rightarrow> 'i \<Rightarrow> ('l, 'i) lists \<Rightarrow> ('l, 'i) lists" where
  "list_insert l i L =
     L\<lparr>items := (items L)(l := insert_at_first (\<lambda>j. item_value L j \<le> item_value L i) i (items L l)),
       container := (container L)(i \<mapsto> l)\<rparr>"

text \<open>
  \<open>uxListRemove\<close> follows the item's \<open>pxContainer\<close>; for an item that is in no list this is
  a NULL pointer, so the outcome is \<open>None\<close>. The number is the new length.
\<close>

definition list_remove :: "'i \<Rightarrow> ('l, 'i) lists \<Rightarrow> (('l, 'i) lists \<times> nat) option" where
  "list_remove i L = (case container L i of None \<Rightarrow> None
     | Some l \<Rightarrow> Some
        (L\<lparr>items := (items L)(l := remove1 i (items L l)),
           cursor := (if cursor L l = Some i then (cursor L)(l := pred_in i (items L l)) else cursor L),
           container := (container L)(i := None)\<rparr>,
         length (items L l) - 1))"

fun next_in :: "'i \<Rightarrow> 'i list \<Rightarrow> 'i option" where
  "next_in j [] = None"
| "next_in j (x # xs) = (if x = j then (case xs of [] \<Rightarrow> None | y # _ \<Rightarrow> Some y) else next_in j xs)"

definition advance :: "'i option \<Rightarrow> 'i list \<Rightarrow> 'i option" where
  "advance c xs = (case c of None \<Rightarrow> None | Some j \<Rightarrow> next_in j xs)"

text \<open>
  \<open>listGET_OWNER_OF_NEXT_ENTRY\<close>: step the cursor, skipping the end marker. On an empty
  list the macro reads the owner of the marker, which is not an item: \<open>None\<close>.
\<close>

definition list_next_entry :: "'l \<Rightarrow> ('l, 'i) lists \<Rightarrow> (('l, 'i) lists \<times> 'i) option" where
  "list_next_entry l L = (case items L l of [] \<Rightarrow> None
     | x # xs \<Rightarrow>
         let j = (case advance (cursor L l) (x # xs) of None \<Rightarrow> x | Some y \<Rightarrow> y)
         in Some (L\<lparr>cursor := (cursor L)(l := Some j)\<rparr>, j))"

definition list_head :: "'l \<Rightarrow> ('l, 'i) lists \<Rightarrow> 'i option" where
  "list_head l L = (case items L l of [] \<Rightarrow> None | x # _ \<Rightarrow> Some x)"

abbreviation list_empty :: "'l \<Rightarrow> ('l, 'i) lists \<Rightarrow> bool" where
  "list_empty l L \<equiv> items L l = []"

abbreviation list_length :: "'l \<Rightarrow> ('l, 'i) lists \<Rightarrow> nat" where
  "list_length l L \<equiv> length (items L l)"

section \<open>Well-formed stores\<close>

definition lists_wf :: "('l, 'i) lists \<Rightarrow> bool" where
  "lists_wf L \<longleftrightarrow>
     (\<forall>l. distinct (items L l)) \<and>
     (\<forall>i l. container L i = Some l \<longleftrightarrow> i \<in> set (items L l)) \<and>
     (\<forall>l j. cursor L l = Some j \<longrightarrow> j \<in> set (items L l))"

named_theorems list_frame \<open>what a list operation reads back\<close>

lemma lists_wf_distinct: "lists_wf L \<Longrightarrow> distinct (items L l)"
  by (simp add: lists_wf_def)

lemma lists_wf_container: "lists_wf L \<Longrightarrow> container L i = Some l \<longleftrightarrow> i \<in> set (items L l)"
  by (simp add: lists_wf_def)

lemma lists_wf_cursor: "lists_wf L \<Longrightarrow> cursor L l = Some j \<Longrightarrow> j \<in> set (items L l)"
  by (simp add: lists_wf_def)

lemma lists_wf_unique:
  "lists_wf L \<Longrightarrow> i \<in> set (items L l) \<Longrightarrow> i \<in> set (items L l') \<Longrightarrow> l = l'"
  by (metis lists_wf_container option.inject)

lemma lists_wf_not_in: "lists_wf L \<Longrightarrow> container L i = None \<Longrightarrow> i \<notin> set (items L l)"
  by (metis lists_wf_container option.distinct(1))

lemma set_insert_before [simp]: "set (insert_before c i xs) = insert i (set xs)"
  by (simp add: insert_before_def split: option.split)

lemma length_insert_before [simp]: "length (insert_before c i xs) = Suc (length xs)"
  by (simp add: insert_before_def split: option.split)

lemma distinct_insert_before [simp]:
  "distinct (insert_before c i xs) \<longleftrightarrow> i \<notin> set xs \<and> distinct xs"
  by (auto simp: insert_before_def split: option.split)

lemma insert_before_neq_Nil [simp]: "insert_before c i xs \<noteq> []"
  by (simp add: insert_before_def split: option.split)

lemma items_insert_end [list_frame]:
  "items (list_insert_end l i L) = (items L)(l := insert_before (cursor L l) i (items L l))"
  by (simp add: list_insert_end_def)

lemma items_insert [list_frame]:
  "items (list_insert l i L) =
     (items L)(l := insert_at_first (\<lambda>j. item_value L j \<le> item_value L i) i (items L l))"
  by (simp add: list_insert_def)

lemma insert_other_fields [list_frame]:
  "cursor (list_insert_end l i L) = cursor L" "cursor (list_insert l i L) = cursor L"
  "item_value (list_insert_end l i L) = item_value L" "item_value (list_insert l i L) = item_value L"
  "container (list_insert_end l i L) = (container L)(i \<mapsto> l)"
  "container (list_insert l i L) = (container L)(i \<mapsto> l)"
  by (simp_all add: list_insert_end_def list_insert_def)

lemma set_value_fields [list_frame]:
  "items (list_set_value i v L) = items L" "cursor (list_set_value i v L) = cursor L"
  "container (list_set_value i v L) = container L"
  "item_value (list_set_value i v L) = (item_value L)(i := v)"
  by (simp_all add: list_set_value_def)

lemma init_fields [list_frame]:
  "items (list_init l L) = (items L)(l := [])" "cursor (list_init l L) = (cursor L)(l := None)"
  "container (list_init l L) = container L" "item_value (list_init l L) = item_value L"
  "items (list_item_init i L) = items L" "cursor (list_item_init i L) = cursor L"
  "container (list_item_init i L) = (container L)(i := None)"
  "item_value (list_item_init i L) = item_value L"
  by (simp_all add: list_init_def list_item_init_def)

lemma lists_wf_set_value [simp]: "lists_wf (list_set_value i v L) = lists_wf L"
  by (simp add: lists_wf_def list_frame)

lemma lists_wf_insert_end:
  assumes "lists_wf L" and "container L i = None"
  shows "lists_wf (list_insert_end l i L)"
  using assms lists_wf_not_in [OF assms] unfolding lists_wf_def
  by (auto simp: list_frame)

lemma lists_wf_insert:
  assumes "lists_wf L" and "container L i = None"
  shows "lists_wf (list_insert l i L)"
  using assms lists_wf_not_in [OF assms] unfolding lists_wf_def
  by (auto simp: list_frame)

lemma lists_wf_item_init:
  assumes "lists_wf L" and "container L i = None" shows "lists_wf (list_item_init i L)"
proof -
  have "(container L)(i := None) = container L" using assms(2) by auto
  with assms(1) show ?thesis by (simp add: lists_wf_def list_frame)
qed

lemma lists_wf_init:
  assumes "lists_wf L" and "items L l = []" shows "lists_wf (list_init l L)"
proof -
  have "(items L)(l := []) = items L" using assms(2) by auto
  with assms(1) show ?thesis by (auto simp: lists_wf_def list_frame)
qed

section \<open>Removal\<close>

lemma list_remove_Some:
  assumes "lists_wf L" and "i \<in> set (items L l)"
  shows "list_remove i L = Some
     (L\<lparr>items := (items L)(l := remove1 i (items L l)),
        cursor := (if cursor L l = Some i then (cursor L)(l := pred_in i (items L l)) else cursor L),
        container := (container L)(i := None)\<rparr>, length (items L l) - 1)"
  using assms by (simp add: list_remove_def lists_wf_container [THEN iffD2])

lemma lists_wf_remove:
  assumes wf: "lists_wf L" and mem: "i \<in> set (items L l)"
  shows "lists_wf (fst (the (list_remove i L)))"
proof -
  have d: "distinct (items L l')" for l' using wf by (rule lists_wf_distinct)
  have cont: "container L j = Some l' \<longleftrightarrow> j \<in> set (items L l')" for j l'
    using wf by (rule lists_wf_container)
  have other: "i \<notin> set (items L l')" if "l' \<noteq> l" for l'
    using lists_wf_unique [OF wf mem] that by blast
  have cur: "j \<in> set (items L l')" if "cursor L l' = Some j" for l' j
    using wf that by (rule lists_wf_cursor)
  have pred: "j \<in> set (items L l) \<and> j \<noteq> i" if "pred_in i (items L l) = Some j" for j
    using pred_in_member [OF that] pred_in_neq [OF d that] by blast
  show ?thesis
    unfolding list_remove_Some [OF assms] lists_wf_def
    using d cont other cur pred by (auto split: if_splits)
qed

lemma list_remove_ensures:
  assumes "lists_wf L" and "i \<in> set (items L l)"
    and "\<And>L' n. \<lbrakk>lists_wf L'; n = length (items L l) - 1;
           items L' = (items L)(l := remove1 i (items L l));
           container L' = (container L)(i := None); item_value L' = item_value L;
           \<forall>l'. l' \<noteq> l \<longrightarrow> cursor L' l' = cursor L l';
           cursor L' l = (if cursor L l = Some i then pred_in i (items L l) else cursor L l)\<rbrakk> \<Longrightarrow> Q (L', n)"
  shows "ensures (list_remove i L) Q"
  using lists_wf_remove [OF assms(1,2)] assms(3) unfolding list_remove_Some [OF assms(1,2)]
  by simp

text \<open>Removal undoes insertion, up to the cursor's position, for both ways to insert.\<close>

lemma list_insert_remove:
  assumes "lists_wf L" and "container L i = None"
  shows "ensures (list_remove i (list_insert l i L))
           (\<lambda>(L', n). items L' = items L \<and> container L' = container L \<and> n = length (items L l))"
proof -
  have "i \<notin> set (items L l)" using assms by (rule lists_wf_not_in)
  then show ?thesis
    using assms(2) unfolding list_remove_def
    by (simp add: list_frame insert_at_first_remove1 fun_upd_idem)
qed

section \<open>Walking with the cursor\<close>

lemma next_in_member: "next_in j xs = Some y \<Longrightarrow> y \<in> set xs"
  by (induction j xs rule: next_in.induct) (auto split: if_splits list.splits)

lemma next_in_append:
  "j \<notin> set xs \<Longrightarrow> next_in j (xs @ j # ys) = (case ys of [] \<Rightarrow> None | y # _ \<Rightarrow> Some y)"
  by (induction xs) (auto split: list.split)

lemma list_next_entry_ensures:
  assumes "lists_wf L" and "items L l \<noteq> []"
    and "\<And>L' j. \<lbrakk>lists_wf L'; items L' = items L; container L' = container L;
            item_value L' = item_value L; cursor L' = (cursor L)(l := Some j);
            j \<in> set (items L l)\<rbrakk> \<Longrightarrow> Q (L', j)"
  shows "ensures (list_next_entry l L) Q"
proof -
  from assms(2) obtain x xs where xs: "items L l = x # xs" by (cases "items L l") auto
  define j where "j = (case advance (cursor L l) (x # xs) of None \<Rightarrow> x | Some y \<Rightarrow> y)"
  have j: "j \<in> set (items L l)"
  proof (cases "advance (cursor L l) (x # xs)")
    case (Some y)
    then have "y \<in> set (x # xs)"
      unfolding advance_def by (metis next_in_member option.case_eq_if option.distinct(1))
    with Some show ?thesis by (simp add: j_def xs)
  qed (simp add: j_def xs)
  have "lists_wf (L\<lparr>cursor := (cursor L)(l := Some j)\<rparr>)"
    using assms(1) j by (auto simp: lists_wf_def split: if_splits)
  with j assms(3) show ?thesis
    unfolding list_next_entry_def xs by (simp add: j_def [symmetric])
qed

text \<open>
  The order in which a walk reaches the items: from the one after the cursor, around the
  end marker, back to the cursor. The scheduler's round robin is a walk over a ready list,
  so this is the queue of equal-priority tasks as the scheduler serves it.
\<close>

definition visit_order :: "'i option \<Rightarrow> 'i list \<Rightarrow> 'i list" where
  "visit_order c xs = (case c of None \<Rightarrow> xs
     | Some j \<Rightarrow> tl (dropWhile (\<lambda>x. x \<noteq> j) xs) @ takeWhile (\<lambda>x. x \<noteq> j) xs @ [j])"

lemma visit_order_None [simp]: "visit_order None xs = xs"
  by (simp add: visit_order_def)

lemma takeWhile_neq_split: "j \<notin> set us \<Longrightarrow> takeWhile (\<lambda>x. x \<noteq> j) (us @ j # vs) = us"
  by (induction us) auto

lemma dropWhile_neq_split: "j \<notin> set us \<Longrightarrow> dropWhile (\<lambda>x. x \<noteq> j) (us @ j # vs) = j # vs"
  by (induction us) auto

lemma visit_order_Some: "j \<notin> set us \<Longrightarrow> visit_order (Some j) (us @ j # vs) = vs @ us @ [j]"
  by (simp add: visit_order_def takeWhile_neq_split dropWhile_neq_split)

text \<open>Every case below splits the list at the cursor.\<close>

lemma cursor_split:
  assumes "\<And>j. c = Some j \<Longrightarrow> j \<in> set xs" and "distinct xs"
  obtains "c = None" | us j vs where "c = Some j" "xs = us @ j # vs" "j \<notin> set us" "j \<notin> set vs"
proof (cases c)
  case None
  then show ?thesis by (rule that(1))
next
  case (Some j)
  then obtain us vs where "xs = us @ j # vs" using assms(1) by (metis split_list)
  with Some assms(2) show ?thesis using that(2) by auto
qed

lemma set_visit_order:
  assumes "\<And>j. c = Some j \<Longrightarrow> j \<in> set xs" and "distinct xs"
  shows "set (visit_order c xs) = set xs" "length (visit_order c xs) = length xs"
    "distinct (visit_order c xs)"
proof -
  have "set (visit_order c xs) = set xs \<and> length (visit_order c xs) = length xs \<and>
    distinct (visit_order c xs)"
  proof (rule cursor_split [OF assms])
    assume "c = None"
    with assms(2) show ?thesis by simp
  next
    fix us j vs assume c: "c = Some j" "xs = us @ j # vs" "j \<notin> set us" "j \<notin> set vs"
    then have "visit_order c xs = vs @ us @ [j]" by (simp add: visit_order_Some)
    with c assms(2) show ?thesis by auto
  qed
  then show "set (visit_order c xs) = set xs" "length (visit_order c xs) = length xs"
    "distinct (visit_order c xs)" by blast+
qed

lemma next_in_split_Some: "j \<notin> set us \<Longrightarrow> next_in j (us @ j # v # vs) = Some v"
  by (simp add: next_in_append)

text \<open>Each step of the walk serves the first of the queue and sends it to the back.\<close>

lemma advance_visit:
  assumes "\<And>j. c = Some j \<Longrightarrow> j \<in> set (x # xs)" and "distinct (x # xs)"
  defines "j \<equiv> case advance c (x # xs) of None \<Rightarrow> x | Some y \<Rightarrow> y"
  shows "visit_order c (x # xs) = j # tl (visit_order c (x # xs)) \<and>
    visit_order (Some j) (x # xs) = rotate1 (visit_order c (x # xs))"
proof (rule cursor_split [OF assms(1,2)])
  assume "c = None"
  then show ?thesis using visit_order_Some [of x "[]" xs] by (simp add: j_def advance_def)
next
  fix us k vs
  assume c: "c = Some k" and xs: "x # xs = us @ k # vs" and k: "k \<notin> set us" "k \<notin> set vs"
  show ?thesis
  proof (cases vs)
    case Nil
    then have adv: "advance c (x # xs) = None" using c k unfolding xs advance_def by (simp add: next_in_append)
    then have jx: "j = x" by (simp add: j_def)
    from Nil have vo: "visit_order c (x # xs) = x # xs" unfolding c xs using k by (simp add: visit_order_Some)
    have "visit_order (Some x) (x # xs) = xs @ [x]" using visit_order_Some [of x "[]" xs] by simp
    with jx vo show ?thesis by simp
  next
    case (Cons v ws)
    then have "advance c (x # xs) = Some v" using c k unfolding xs advance_def by (simp add: next_in_append)
    then have jv: "j = v" by (simp add: j_def)
    have d: "v \<notin> set (us @ [k])" using assms(2) unfolding xs Cons by auto
    have "visit_order (Some v) (x # xs) = ws @ (us @ [k]) @ [v]"
      using visit_order_Some [OF d, of ws] unfolding xs Cons by simp
    moreover have "visit_order c (x # xs) = v # ws @ us @ [k]"
      unfolding c xs Cons using visit_order_Some [OF k(1), of "v # ws"] by simp
    ultimately show ?thesis using jv by simp
  qed
qed

lemma list_next_entry_visit:
  assumes "lists_wf L" and "list_next_entry l L = Some (L', j)"
  shows "visit_order (cursor L l) (items L l) = j # tl (visit_order (cursor L l) (items L l))"
    "visit_order (cursor L' l) (items L' l) = rotate1 (visit_order (cursor L l) (items L l))"
proof -
  from assms(2) obtain x xs where xs: "items L l = x # xs"
    by (cases "items L l") (auto simp: list_next_entry_def)
  from assms(2) have j: "j = (case advance (cursor L l) (x # xs) of None \<Rightarrow> x | Some y \<Rightarrow> y)"
    and L': "L' = L\<lparr>cursor := (cursor L)(l := Some j)\<rparr>"
    by (auto simp: list_next_entry_def xs Let_def)
  have c: "\<And>j. cursor L l = Some j \<Longrightarrow> j \<in> set (x # xs)"
    using assms(1) xs by (metis lists_wf_cursor)
  have d: "distinct (x # xs)" using assms(1) xs by (metis lists_wf_distinct)
  from advance_visit [OF c d]
  show "visit_order (cursor L l) (items L l) = j # tl (visit_order (cursor L l) (items L l))"
    "visit_order (cursor L' l) (items L' l) = rotate1 (visit_order (cursor L l) (items L l))"
    unfolding xs by (simp_all add: L' xs j)
qed

text \<open>An item inserted at the end is served after every item but the one being served.\<close>

lemma visit_order_insert:
  assumes "\<And>j. c = Some j \<Longrightarrow> j \<in> set xs" and "distinct xs" and "i \<notin> set xs"
  shows "visit_order c (insert_before c i xs) =
    (case c of None \<Rightarrow> visit_order c xs @ [i] | Some j \<Rightarrow> butlast (visit_order c xs) @ [i, j])"
proof (rule cursor_split [OF assms(1,2)])
  assume "c = None"
  then show ?thesis by (simp add: insert_before_def)
next
  fix us j vs assume c: "c = Some j" and xs: "xs = us @ j # vs" and j: "j \<notin> set us" "j \<notin> set vs"
  have "insert_before c i xs = (us @ [i]) @ j # vs"
    using j by (simp add: c xs insert_before_def insert_at_first_def takeWhile_neq_split dropWhile_neq_split)
  moreover have "j \<notin> set (us @ [i])" using j assms(3) xs by auto
  ultimately have "visit_order c (insert_before c i xs) = vs @ (us @ [i]) @ [j]"
    unfolding c by (metis visit_order_Some)
  moreover have "visit_order c xs = (vs @ us) @ [j]" using j by (simp add: c xs visit_order_Some)
  ultimately show ?thesis by (simp add: c butlast_append)
qed

text \<open>Removing an item keeps the order of the others, also when it is the one being served.\<close>

lemma visit_order_remove:
  assumes "\<And>j. c = Some j \<Longrightarrow> j \<in> set xs" and "distinct xs" and "i \<in> set xs"
  shows "visit_order (if c = Some i then pred_in i xs else c) (remove1 i xs) = remove1 i (visit_order c xs)"
proof (rule cursor_split [OF assms(1,2)])
  assume "c = None"
  then show ?thesis by simp
next
  fix us j vs assume c: "c = Some j" and xs: "xs = us @ j # vs" and j: "j \<notin> set us" "j \<notin> set vs"
  have vo: "visit_order c xs = vs @ us @ [j]" using j by (simp add: c xs visit_order_Some)
  show ?thesis
  proof (cases "i = j")
    case True
    then have rem: "remove1 i xs = us @ vs" using j by (simp add: xs remove1_append)
    have vo': "remove1 i (visit_order c xs) = vs @ us" using True j vo by (simp add: remove1_append)
    show ?thesis
    proof (cases us rule: rev_cases)
      case Nil
      with True j c xs rem vo' show ?thesis by (simp add: pred_in_hd)
    next
      case (snoc ws w)
      then have "pred_in i xs = Some w" using True j pred_in_append [of j us vs] by (simp add: xs)
      moreover have "w \<notin> set ws" using assms(2) xs snoc by auto
      ultimately show ?thesis using True c rem vo' snoc visit_order_Some [of w ws vs] by simp
    qed
  next
    case False
    have "i \<notin> set us \<or> i \<notin> set vs" using assms(2) xs by auto
    have "remove1 i xs = remove1 i us @ j # remove1 i vs"
      using False \<open>i \<notin> set us \<or> i \<notin> set vs\<close> by (auto simp: xs remove1_append remove1_idem)
    moreover have "j \<notin> set (remove1 i us)" using j by (meson notin_set_remove1)
    ultimately have "visit_order c (remove1 i xs) = remove1 i vs @ remove1 i us @ [j]"
      unfolding c by (metis visit_order_Some)
    moreover have "remove1 i (visit_order c xs) = remove1 i vs @ remove1 i us @ [j]"
      unfolding vo using False \<open>i \<notin> set us \<or> i \<notin> set vs\<close> by (auto simp: remove1_append remove1_idem)
    ultimately show ?thesis using False c by simp
  qed
qed

section \<open>The interface\<close>

text \<open>
  What a client may rely on. \<open>rep h L\<close> reads the provider's representation \<open>h\<close> as a store;
  every operation is simulated by its counterpart above. The clients' lemmas about whole
  walks and about an item that is queued and taken out again are proved once here.
\<close>

fun walk :: "('h \<Rightarrow> ('h \<times> 'i) option) \<Rightarrow> nat \<Rightarrow> 'h \<Rightarrow> ('h \<times> 'i list) option" where
  "walk nxt 0 h = Some (h, [])"
| "walk nxt (Suc n) h = do { (h1, i) \<leftarrow> nxt h; (h2, is) \<leftarrow> walk nxt n h1; Some (h2, i # is) }"

locale list_api =
  fixes rep :: "'h \<Rightarrow> ('l, 'i) lists \<Rightarrow> bool"
    and insert :: "'l \<Rightarrow> 'i \<Rightarrow> 'h \<Rightarrow> 'h option"
    and insert_end :: "'l \<Rightarrow> 'i \<Rightarrow> 'h \<Rightarrow> 'h"
    and remove :: "'i \<Rightarrow> 'h \<Rightarrow> ('h \<times> nat) option"
    and next_entry :: "'l \<Rightarrow> 'h \<Rightarrow> ('h \<times> 'i) option"
  assumes rep_wf: "rep h L \<Longrightarrow> lists_wf L"
    and rep_insert: "rep h L \<Longrightarrow> container L i = None \<Longrightarrow>
          ensures (insert l i h) (\<lambda>h'. rep h' (list_insert l i L))"
    and rep_insert_end: "rep h L \<Longrightarrow> container L i = None \<Longrightarrow>
          rep (insert_end l i h) (list_insert_end l i L)"
    and rep_remove: "rep h L \<Longrightarrow> i \<in> set (items L l) \<Longrightarrow>
          ensures (remove i h) (\<lambda>(h', n). \<exists>L'. list_remove i L = Some (L', n) \<and> rep h' L')"
    and rep_next: "rep h L \<Longrightarrow> items L l \<noteq> [] \<Longrightarrow>
          ensures (next_entry l h) (\<lambda>(h', i). \<exists>L'. list_next_entry l L = Some (L', i) \<and> rep h' L')"
begin

lemma insert_then_remove:
  assumes r: "rep h L" and free: "container L i = None"
  shows "ensures (do { h' \<leftarrow> insert l i h; remove i h' })
    (\<lambda>(h', n). n = length (items L l) \<and> (\<exists>L'. rep h' L' \<and> items L' = items L \<and> container L' = container L))"
  unfolding ensures_bind
proof (rule ensures_mono [OF rep_insert [OF r free]])
  fix h1 assume h1: "rep h1 (list_insert l i L)"
  have "i \<in> set (items (list_insert l i L) l)" by (simp add: list_frame)
  from ensures_conj [OF rep_remove [OF h1 this] rep_remove [OF h1 this]]
  show "ensures (remove i h1) (\<lambda>(h', n). n = length (items L l) \<and>
      (\<exists>L'. rep h' L' \<and> items L' = items L \<and> container L' = container L))"
    using list_insert_remove [OF rep_wf [OF r] free, of l]
    by (elim ensures_mono) (auto simp: ensures_iff)
qed

lemma walk_visits:
  assumes "rep h L" and "items L l \<noteq> []" and "n \<le> length (items L l)"
  shows "ensures (walk (next_entry l) n h) (\<lambda>(h', is).
    is = take n (visit_order (cursor L l) (items L l)) \<and>
    (\<exists>L'. rep h' L' \<and> items L' = items L \<and>
       visit_order (cursor L' l) (items L l) = rotate n (visit_order (cursor L l) (items L l))))"
  using assms
proof (induction n arbitrary: h L)
  case 0
  then show ?case by auto
next
  case (Suc n)
  let ?vo = "visit_order (cursor L l) (items L l)"
  have wf: "lists_wf L" using Suc.prems(1) by (rule rep_wf)
  have len: "length ?vo = length (items L l)"
    using set_visit_order lists_wf_cursor [OF wf] lists_wf_distinct [OF wf] by metis
  from rep_next [OF Suc.prems(1,2)] show ?case
  proof (rule ensures_SomeE)
    fix r assume nx: "next_entry l h = Some r"
      and "(\<lambda>(h', i). \<exists>L'. list_next_entry l L = Some (L', i) \<and> rep h' L') r"
    then obtain h1 i L1 where r: "r = (h1, i)" and step: "list_next_entry l L = Some (L1, i)"
      and h1: "rep h1 L1" by (cases r) auto
    from list_next_entry_ensures [OF wf Suc.prems(2), of "\<lambda>(L', j). items L' = items L"] step
    have it: "items L1 = items L" by simp
    note vo = list_next_entry_visit [OF wf step]
    have IH: "ensures (walk (next_entry l) n h1) (\<lambda>(h', is).
      is = take n (rotate1 ?vo) \<and> (\<exists>L'. rep h' L' \<and> items L' = items L \<and>
        visit_order (cursor L' l) (items L l) = rotate n (rotate1 ?vo)))"
      using Suc.IH [OF h1] Suc.prems(2,3) vo(2) by (simp add: it)
    have "n \<le> length (tl ?vo)" using len Suc.prems(3) by simp
    then have "i # take n (rotate1 ?vo) = take (Suc n) ?vo"
      using vo(1) by (metis list.sel(3) rotate1.simps(2) take_Suc_Cons take_append take_0
          append_Nil2 diff_is_0_eq)
    moreover have "rotate n (rotate1 ?vo) = rotate (Suc n) ?vo"
      by (simp add: rotate_def funpow_swap1)
    ultimately show ?thesis
      unfolding walk.simps nx r using IH by (auto elim!: ensures_mono)
  qed
qed

text \<open>A full round serves every item exactly once and leaves the queue as it was.\<close>

lemma walk_round:
  assumes "rep h L" and "items L l \<noteq> []"
  shows "ensures (walk (next_entry l) (length (items L l)) h) (\<lambda>(h', is).
    distinct is \<and> set is = set (items L l) \<and> is = visit_order (cursor L l) (items L l) \<and>
    (\<exists>L'. rep h' L' \<and> items L' = items L \<and> visit_order (cursor L' l) (items L' l) = is))"
proof -
  have wf: "lists_wf L" using assms(1) by (rule rep_wf)
  note vo = set_visit_order [of "cursor L l" "items L l", OF lists_wf_cursor [OF wf] lists_wf_distinct [OF wf]]
  have full: "rotate (length (items L l)) (visit_order (cursor L l) (items L l))
      = visit_order (cursor L l) (items L l)"
    using vo(2) by (simp add: rotate_id)
  show ?thesis
    by (rule ensures_mono [OF walk_visits [OF assms order_refl]]) (use vo full in auto)
qed

end

text \<open>The store of this theory provides the interface.\<close>

definition store_rep :: "('l, 'i) lists \<Rightarrow> ('l, 'i) lists \<Rightarrow> bool" where
  "store_rep h L \<longleftrightarrow> lists_wf h \<and> L = h"

interpretation store: list_api store_rep "\<lambda>l i L. Some (list_insert l i L)" list_insert_end
  list_remove list_next_entry
proof
  fix h L :: "('l, 'i) lists" and i l
  show "store_rep h L \<Longrightarrow> lists_wf L" by (simp add: store_rep_def)
  show "store_rep h L \<Longrightarrow> container L i = None \<Longrightarrow>
      ensures (Some (list_insert l i h)) (\<lambda>h'. store_rep h' (list_insert l i L))"
    by (simp add: store_rep_def lists_wf_insert)
  show "store_rep h L \<Longrightarrow> container L i = None \<Longrightarrow>
      store_rep (list_insert_end l i h) (list_insert_end l i L)"
    by (simp add: store_rep_def lists_wf_insert_end)
  show "store_rep h L \<Longrightarrow> i \<in> set (items L l) \<Longrightarrow> ensures (list_remove i h)
      (\<lambda>(h', n). \<exists>L'. list_remove i L = Some (L', n) \<and> store_rep h' L')"
    using lists_wf_remove [of h i l] by (auto simp: store_rep_def list_remove_Some)
  show "store_rep h L \<Longrightarrow> items L l \<noteq> [] \<Longrightarrow> ensures (list_next_entry l h)
      (\<lambda>(h', i). \<exists>L'. list_next_entry l L = Some (L', i) \<and> store_rep h' L')"
    using list_next_entry_ensures [of h l "\<lambda>(L', i). lists_wf L'"]
    by (auto simp: store_rep_def ensures_iff)
qed

end
