(* ===== verification/Task_State.thy ===== *)
theory Task_State
  imports List_Spec
begin

text \<open>
  The state of tasks.c and the routines its API functions share: the task control blocks,
  the ready, delayed, suspended, pending-ready and termination lists, the tick counter and
  the scheduler's flags, as the native single-core configuration compiles them
  (frameworks/freertos_posix/FreeRTOSConfig.h: 8 priorities, 4 notification slots,
  preemption and time slicing on, port-optimised selection off).

  Handles are natural numbers; a NULL handle is an \<open>option\<close> where the code distinguishes it.
  \<open>UBaseType_t\<close> counters of tasks, nesting and held mutexes are naturals: they are bounded
  by the objects that exist, and every decrement in the code is guarded by a test or an
  assertion, which the model keeps. \<open>TickType_t\<close> stays a 32-bit word, because its
  wrap-around is part of the behaviour. \<open>xNumOfOverflows\<close> is only ever compared for
  equality.
\<close>

type_synonym task = nat

definition configMAX_PRIORITIES :: nat where "configMAX_PRIORITIES = 8"
definition configTASK_NOTIFICATION_ARRAY_ENTRIES :: nat where "configTASK_NOTIFICATION_ARRAY_ENTRIES = 4"
definition configMAX_TASK_NAME_LEN :: nat where "configMAX_TASK_NAME_LEN = 16"
definition tskIDLE_PRIORITY :: nat where "tskIDLE_PRIORITY = 0"

definition taskEVENT_LIST_ITEM_VALUE_IN_USE :: tick where
  "taskEVENT_LIST_ITEM_VALUE_IN_USE = 0x80000000"

text \<open>
  The list headers of the kernel. \<open>SendL\<close>/\<open>ReceiveL\<close> are the two event lists of a queue
  (queue.c), \<open>BitsL\<close> the one of an event group (event_groups.c). A task owns two items, one
  for the list that gives its state and one for the event list it waits in.
\<close>

datatype list_id = ReadyL nat | DelayedL1 | DelayedL2 | PendingReadyL | TerminationL
  | SuspendedL | SendL nat | ReceiveL nat | BitsL nat

datatype item_id = StateI task | EventI task

fun owner :: "item_id \<Rightarrow> task" where
  "owner (StateI t) = t"
| "owner (EventI t) = t"

datatype notify_state = taskNOT_WAITING_NOTIFICATION | taskWAITING_NOTIFICATION
  | taskNOTIFICATION_RECEIVED

datatype allocation = tskDYNAMICALLY_ALLOCATED_STACK_AND_TCB | tskSTATICALLY_ALLOCATED_STACK_ONLY
  | tskSTATICALLY_ALLOCATED_STACK_AND_TCB

record tcb =
  uxPriority :: nat
  pcTaskName :: string
  uxTCBNumber :: nat
  uxTaskNumberTrace :: nat
  uxBasePriority :: nat
  uxMutexesHeld :: nat
  pxTaskTag :: "nat option"
  ulNotifiedValue :: "u32 list"
  ucNotifyState :: "notify_state list"
  ucStaticallyAllocated :: allocation
  ucDelayAborted :: bool

record kernel =
  lists :: "(list_id, item_id) lists"
  tcbs :: "task \<Rightarrow> tcb"
  pxCurrentTCB :: "task option"
  pxDelayedTaskList :: list_id
  pxOverflowDelayedTaskList :: list_id
  uxDeletedTasksWaitingCleanUp :: nat
  uxCurrentNumberOfTasks :: nat
  xTickCount :: tick
  uxTopReadyPriority :: nat
  xSchedulerRunning :: bool
  xPendedTicks :: tick
  xYieldPending :: bool
  xNumOfOverflows :: int
  uxTaskNumber :: nat
  xNextTaskUnblockTime :: tick
  xIdleTaskHandle :: "task option"
  uxSchedulerSuspended :: nat

section \<open>Access to the lists and the control blocks\<close>

abbreviation state_list :: "kernel \<Rightarrow> task \<Rightarrow> list_id option" where
  "state_list k t \<equiv> container (lists k) (StateI t)"

abbreviation event_list :: "kernel \<Rightarrow> task \<Rightarrow> list_id option" where
  "event_list k t \<equiv> container (lists k) (EventI t)"

abbreviation wake_time :: "kernel \<Rightarrow> task \<Rightarrow> tick" where
  "wake_time k t \<equiv> item_value (lists k) (StateI t)"

abbreviation members :: "kernel \<Rightarrow> list_id \<Rightarrow> item_id list" where
  "members k l \<equiv> items (lists k) l"

abbreviation prio :: "kernel \<Rightarrow> task \<Rightarrow> nat" where
  "prio k t \<equiv> uxPriority (tcbs k t)"

abbreviation upd_tcb :: "task \<Rightarrow> (tcb \<Rightarrow> tcb) \<Rightarrow> kernel \<Rightarrow> kernel" where
  "upd_tcb t f k \<equiv> k\<lparr>tcbs := (tcbs k)(t := f (tcbs k t))\<rparr>"

text \<open>The list calls of the kernel act on its one store of lists.\<close>

abbreviation k_list_insert :: "list_id \<Rightarrow> item_id \<Rightarrow> kernel \<Rightarrow> kernel" where
  "k_list_insert l i k \<equiv> k\<lparr>lists := list_insert l i (lists k)\<rparr>"

abbreviation k_list_insert_end :: "list_id \<Rightarrow> item_id \<Rightarrow> kernel \<Rightarrow> kernel" where
  "k_list_insert_end l i k \<equiv> k\<lparr>lists := list_insert_end l i (lists k)\<rparr>"

definition k_list_remove :: "item_id \<Rightarrow> kernel \<Rightarrow> kernel option" where
  "k_list_remove i k = map_option (\<lambda>(L, n). k\<lparr>lists := L\<rparr>) (list_remove i (lists k))"

abbreviation k_set_value :: "item_id \<Rightarrow> tick \<Rightarrow> kernel \<Rightarrow> kernel" where
  "k_set_value i v k \<equiv> k\<lparr>lists := list_set_value i v (lists k)\<rparr>"

text \<open>Priorities are stored inverted in the event item, so that event lists sort by urgency.\<close>

definition priority_value :: "nat \<Rightarrow> tick" where
  "priority_value p = of_nat configMAX_PRIORITIES - of_nat p"

section \<open>The shared routines of tasks.c\<close>

definition taskRECORD_READY_PRIORITY :: "nat \<Rightarrow> kernel \<Rightarrow> kernel" where
  "taskRECORD_READY_PRIORITY p k =
     (if p > uxTopReadyPriority k then k\<lparr>uxTopReadyPriority := p\<rparr> else k)"

definition prvAddTaskToReadyList :: "task \<Rightarrow> kernel \<Rightarrow> kernel" where
  "prvAddTaskToReadyList t k =
     k_list_insert_end (ReadyL (prio k t)) (StateI t) (taskRECORD_READY_PRIORITY (prio k t) k)"

fun select_top :: "(list_id, item_id) lists \<Rightarrow> nat \<Rightarrow> nat option" where
  "select_top L 0 = (if list_empty (ReadyL 0) L then None else Some 0)"
| "select_top L (Suc p) = (if list_empty (ReadyL (Suc p)) L then select_top L p else Some (Suc p))"

definition taskSELECT_HIGHEST_PRIORITY_TASK :: "kernel \<Rightarrow> kernel option" where
  "taskSELECT_HIGHEST_PRIORITY_TASK k = do {
     top \<leftarrow> select_top (lists k) (uxTopReadyPriority k);
     (L, i) \<leftarrow> list_next_entry (ReadyL top) (lists k);
     Some (k\<lparr>lists := L, pxCurrentTCB := Some (owner i), uxTopReadyPriority := top\<rparr>) }"

definition vTaskSwitchContext :: "kernel \<Rightarrow> kernel option" where
  "vTaskSwitchContext k =
     (if uxSchedulerSuspended k \<noteq> 0 then Some (k\<lparr>xYieldPending := True\<rparr>)
      else taskSELECT_HIGHEST_PRIORITY_TASK (k\<lparr>xYieldPending := False\<rparr>))"

definition prvResetNextTaskUnblockTime :: "kernel \<Rightarrow> kernel" where
  "prvResetNextTaskUnblockTime k =
     (case members k (pxDelayedTaskList k) of
        [] \<Rightarrow> k\<lparr>xNextTaskUnblockTime := portMAX_DELAY\<rparr>
      | i # _ \<Rightarrow> k\<lparr>xNextTaskUnblockTime := item_value (lists k) i\<rparr>)"

definition taskSWITCH_DELAYED_LISTS :: "kernel \<Rightarrow> kernel option" where
  "taskSWITCH_DELAYED_LISTS k = do {
     configASSERT (members k (pxDelayedTaskList k) = []);
     Some (prvResetNextTaskUnblockTime
       (k\<lparr>pxDelayedTaskList := pxOverflowDelayedTaskList k,
          pxOverflowDelayedTaskList := pxDelayedTaskList k,
          xNumOfOverflows := xNumOfOverflows k + 1\<rparr>)) }"

definition prvAddCurrentTaskToDelayedList :: "tick \<Rightarrow> bool \<Rightarrow> kernel \<Rightarrow> kernel option" where
  "prvAddCurrentTaskToDelayedList xTicksToWait xCanBlockIndefinitely k = do {
     c \<leftarrow> pxCurrentTCB k;
     let k = upd_tcb c (\<lambda>b. b\<lparr>ucDelayAborted := False\<rparr>) k;
     k \<leftarrow> k_list_remove (StateI c) k;
     if xTicksToWait = portMAX_DELAY \<and> xCanBlockIndefinitely
     then Some (k_list_insert_end SuspendedL (StateI c) k)
     else do {
       let xTimeToWake = xTickCount k + xTicksToWait;
       let k = k_set_value (StateI c) xTimeToWake k;
       if xTimeToWake < xTickCount k
       then Some (k_list_insert (pxOverflowDelayedTaskList k) (StateI c) k)
       else do {
         let k = k_list_insert (pxDelayedTaskList k) (StateI c) k;
         Some (if xTimeToWake < xNextTaskUnblockTime k
               then k\<lparr>xNextTaskUnblockTime := xTimeToWake\<rparr> else k) } } }"

definition prvInitialiseTaskLists :: "kernel \<Rightarrow> kernel" where
  "prvInitialiseTaskLists k =
     (let L = fold (\<lambda>p. list_init (ReadyL p)) [0..<configMAX_PRIORITIES] (lists k);
          L = list_init DelayedL1 L; L = list_init DelayedL2 L; L = list_init PendingReadyL L;
          L = list_init TerminationL L; L = list_init SuspendedL L
      in k\<lparr>lists := L, pxDelayedTaskList := DelayedL1, pxOverflowDelayedTaskList := DelayedL2\<rparr>)"

text \<open>\<open>portYIELD\<close> of the native port runs \<open>vTaskSwitchContext\<close> and resumes the chosen thread.\<close>

abbreviation portYIELD :: "kernel \<Rightarrow> kernel option" where
  "portYIELD \<equiv> vTaskSwitchContext"

section \<open>The invariant\<close>

fun is_event_list :: "list_id \<Rightarrow> bool" where
  "is_event_list PendingReadyL = True"
| "is_event_list (SendL q) = True"
| "is_event_list (ReceiveL q) = True"
| "is_event_list (BitsL e) = True"
| "is_event_list _ = False"

definition delayed_lists :: "list_id set" where
  "delayed_lists = {DelayedL1, DelayedL2}"

text \<open>The lists are well formed and the two delayed lists are in wake-up order.\<close>

definition lists_inv :: "(list_id, item_id) lists \<Rightarrow> bool" where
  "lists_inv L \<longleftrightarrow> lists_wf L \<and> (\<forall>l \<in> delayed_lists. sorted_key (item_value L) (items L l))"

text \<open>
  What holds of one task: its items are in lists of their kind; a ready task is in the list
  of its current priority, at or below \<open>uxTopReadyPriority\<close>, and waits for no event; an event
  item is only in use while the task is in some state list and not deleted.
\<close>

definition task_ok :: "kernel \<Rightarrow> task \<Rightarrow> bool" where
  "task_ok k t \<longleftrightarrow>
     (\<forall>l. state_list k t = Some l \<longrightarrow> \<not> is_event_list l) \<and>
     (\<forall>l. event_list k t = Some l \<longrightarrow> is_event_list l) \<and>
     uxBasePriority (tcbs k t) \<le> prio k t \<and> prio k t < configMAX_PRIORITIES \<and>
     length (ulNotifiedValue (tcbs k t)) = configTASK_NOTIFICATION_ARRAY_ENTRIES \<and>
     length (ucNotifyState (tcbs k t)) = configTASK_NOTIFICATION_ARRAY_ENTRIES \<and>
     (\<forall>p. state_list k t = Some (ReadyL p) \<longrightarrow> p = prio k t \<and> p \<le> uxTopReadyPriority k \<and>
        (event_list k t = None \<or> event_list k t = Some PendingReadyL)) \<and>
     (event_list k t \<noteq> None \<longrightarrow> state_list k t \<noteq> None \<and> state_list k t \<noteq> Some TerminationL)"

text \<open>
  The wake-up times: a task in the delayed list wakes after the current tick and not before
  \<open>xNextTaskUnblockTime\<close>; one in the overflow list wakes after the tick counter has wrapped.
\<close>

definition wake_ok :: "kernel \<Rightarrow> task \<Rightarrow> bool" where
  "wake_ok k t \<longleftrightarrow>
     (state_list k t = Some (pxDelayedTaskList k) \<longrightarrow>
        xTickCount k < wake_time k t \<and> xNextTaskUnblockTime k \<le> wake_time k t) \<and>
     (state_list k t = Some (pxOverflowDelayedTaskList k) \<longrightarrow> wake_time k t < xTickCount k)"

text \<open>The pending-ready list is in use only while the scheduler is suspended.\<close>

definition pending_ok :: "kernel \<Rightarrow> bool" where
  "pending_ok k \<longleftrightarrow> (members k PendingReadyL \<noteq> [] \<longrightarrow> uxSchedulerSuspended k \<noteq> 0)"

text \<open>The next wake-up time is never in the past.\<close>

definition next_ok :: "kernel \<Rightarrow> bool" where
  "next_ok k \<longleftrightarrow> xTickCount k \<le> xNextTaskUnblockTime k"

definition live_tasks :: "kernel \<Rightarrow> task set" where
  "live_tasks k = {t. state_list k t \<noteq> None}"

definition dead_tasks :: "kernel \<Rightarrow> task set" where
  "dead_tasks k = {t. state_list k t = Some TerminationL}"

text \<open>
  Everything but the wake-up times and the pending-ready list; the tick handler and
  \<open>xTaskResumeAll\<close> work in states of this kind.
\<close>

definition kernel_core :: "kernel \<Rightarrow> bool" where
  "kernel_core k \<longleftrightarrow>
     lists_inv (lists k) \<and>
     (pxDelayedTaskList k, pxOverflowDelayedTaskList k)
       \<in> {(DelayedL1, DelayedL2), (DelayedL2, DelayedL1)} \<and>
     uxTopReadyPriority k < configMAX_PRIORITIES \<and>
     finite (live_tasks k) \<and> uxCurrentNumberOfTasks k = card (live_tasks k) \<and>
     uxDeletedTasksWaitingCleanUp k = card (dead_tasks k) \<and>
     (\<forall>t. task_ok k t)"

definition kernel_inv :: "kernel \<Rightarrow> bool" where
  "kernel_inv k \<longleftrightarrow> kernel_core k \<and> pending_ok k \<and> next_ok k \<and> (\<forall>t. wake_ok k t)"

text \<open>The running task is ready: the state between two kernel calls of a task.\<close>

definition running_inv :: "kernel \<Rightarrow> bool" where
  "running_inv k \<longleftrightarrow> (\<exists>c. pxCurrentTCB k = Some c \<and> state_list k c = Some (ReadyL (prio k c)))"

section \<open>List operations and the list invariant\<close>

lemma lists_inv_wf: "lists_inv L \<Longrightarrow> lists_wf L"
  by (simp add: lists_inv_def)

lemma lists_inv_sorted: "lists_inv L \<Longrightarrow> l \<in> delayed_lists \<Longrightarrow> sorted_key (item_value L) (items L l)"
  by (simp add: lists_inv_def)

lemma delayed_lists_mem [simp]:
  "DelayedL1 \<in> delayed_lists" "DelayedL2 \<in> delayed_lists" "ReadyL p \<notin> delayed_lists"
  "PendingReadyL \<notin> delayed_lists" "TerminationL \<notin> delayed_lists" "SuspendedL \<notin> delayed_lists"
  "SendL q \<notin> delayed_lists" "ReceiveL q \<notin> delayed_lists" "BitsL q \<notin> delayed_lists"
  by (simp_all add: delayed_lists_def)

lemma event_list_not_delayed: "is_event_list l \<Longrightarrow> l \<notin> delayed_lists"
  by (cases l) simp_all

lemma lists_inv_insert_end [simp]:
  "lists_inv L \<Longrightarrow> container L i = None \<Longrightarrow> l \<notin> delayed_lists \<Longrightarrow> lists_inv (list_insert_end l i L)"
  by (auto simp: lists_inv_def lists_wf_insert_end list_frame)

lemma lists_inv_insert [simp]:
  "lists_inv L \<Longrightarrow> container L i = None \<Longrightarrow> lists_inv (list_insert l i L)"
  using sorted_key_insert [of "item_value L" "items L l" i]
  by (auto simp: lists_inv_def lists_wf_insert list_frame)

lemma lists_inv_set_value [simp]:
  assumes "lists_inv L" and "\<And>l. l \<in> delayed_lists \<Longrightarrow> container L i \<noteq> Some l"
  shows "lists_inv (list_set_value i v L)"
proof -
  have "i \<notin> set (items L l)" if "l \<in> delayed_lists" for l
    using assms that lists_wf_container [OF lists_inv_wf [OF assms(1)]] by metis
  then have "sorted_key ((item_value L)(i := v)) (items L l) = sorted_key (item_value L) (items L l)"
    if "l \<in> delayed_lists" for l
    using that by (intro sorted_key_cong) auto
  with assms(1) show ?thesis by (simp add: lists_inv_def list_frame)
qed

text \<open>
  Removing an item that is in a list succeeds; afterwards it is in none. The numbers and the
  cursors are the only other things that change.
\<close>

lemma k_list_remove_ensures:
  assumes inv: "lists_inv (lists k)" and mem: "container (lists k) i \<noteq> None"
    and post: "\<And>L'. \<lbrakk>lists_inv L'; container L' = (container (lists k))(i := None);
       item_value L' = item_value (lists k); \<And>l. items L' l = remove1 i (items (lists k) l)\<rbrakk>
       \<Longrightarrow> Q (k\<lparr>lists := L'\<rparr>)"
  shows "ensures (k_list_remove i k) Q"
proof -
  have wf: "lists_wf (lists k)" using inv by (rule lists_inv_wf)
  from mem obtain l where "container (lists k) i = Some l" by auto
  then have l: "i \<in> set (items (lists k) l)" using lists_wf_container [OF wf] by blast
  have other: "i \<notin> set (items (lists k) l')" if "l' \<noteq> l" for l'
    using lists_wf_unique [OF wf l] that by blast
  show ?thesis
    unfolding k_list_remove_def ensures_map
  proof (rule list_remove_ensures [OF wf l], unfold prod.case)
    fix L' and n :: nat
    assume L': "lists_wf L'" "items L' = (items (lists k))(l := remove1 i (items (lists k) l))"
      "container L' = (container (lists k))(i := None)" "item_value L' = item_value (lists k)"
    have it: "items L' l' = remove1 i (items (lists k) l')" for l'
      using other L'(2) by (simp add: remove1_idem)
    have "lists_inv L'"
      using L'(1,4) inv by (simp add: lists_inv_def it sorted_key_remove1)
    then show "Q (k\<lparr>lists := L'\<rparr>)" using L'(3,4) it by (rule post)
  qed
qed

section \<open>Keeping the invariant\<close>

text \<open>
  An operation that touches one task only has to show \<open>task_ok\<close> for that task: for every
  other task all it depends on is unchanged, or moved in a direction that does no harm.
\<close>

definition same_task :: "kernel \<Rightarrow> kernel \<Rightarrow> task \<Rightarrow> bool" where
  "same_task k k' t \<longleftrightarrow> state_list k' t = state_list k t \<and> event_list k' t = event_list k t \<and>
     tcbs k' t = tcbs k t"

lemma task_ok_cong:
  assumes "task_ok k t" and "same_task k k' t" and "uxTopReadyPriority k \<le> uxTopReadyPriority k'"
  shows "task_ok k' t"
proof -
  have "container (lists k') (StateI t) = container (lists k) (StateI t)"
    "container (lists k') (EventI t) = container (lists k) (EventI t)" "tcbs k' t = tcbs k t"
    using assms(2) by (simp_all add: same_task_def)
  with assms(1,3) show ?thesis unfolding task_ok_def by (simp; force)
qed

lemma kernel_coreI:
  assumes core: "kernel_core k" and lists: "lists_inv (lists k')"
    and others: "\<And>t'. t' \<noteq> t \<Longrightarrow> same_task k k' t'"
    and task: "task_ok k' t"
    and live: "(state_list k' t = None) = (state_list k t = None)"
    and dead: "(state_list k' t = Some TerminationL) = (state_list k t = Some TerminationL)"
    and top: "uxTopReadyPriority k \<le> uxTopReadyPriority k'" "uxTopReadyPriority k' < configMAX_PRIORITIES"
    and ptrs: "pxDelayedTaskList k' = pxDelayedTaskList k"
      "pxOverflowDelayedTaskList k' = pxOverflowDelayedTaskList k"
    and counts: "uxDeletedTasksWaitingCleanUp k' = uxDeletedTasksWaitingCleanUp k"
      "uxCurrentNumberOfTasks k' = uxCurrentNumberOfTasks k"
  shows "kernel_core k'"
proof -
  have sl: "state_list k' t' = None \<longleftrightarrow> state_list k t' = None"
    "state_list k' t' = Some TerminationL \<longleftrightarrow> state_list k t' = Some TerminationL" for t'
    using others [of t'] live dead by (cases "t' = t"; simp add: same_task_def)+
  have "live_tasks k' = live_tasks k" "dead_tasks k' = dead_tasks k"
    unfolding live_tasks_def dead_tasks_def using sl by auto
  moreover have "task_ok k' t'" for t'
    using core task task_ok_cong [OF _ others top(1)]
    by (cases "t' = t") (auto simp: kernel_core_def)
  ultimately show ?thesis using core lists top ptrs counts by (simp add: kernel_core_def)
qed

text \<open>The other fields of the kernel play no part in the core invariant.\<close>

lemma task_ok_fields:
  assumes "lists k' = lists k" and "tcbs k' = tcbs k" and "uxTopReadyPriority k' = uxTopReadyPriority k"
  shows "task_ok k' t = task_ok k t"
  by (simp add: task_ok_def assms)

lemma kernel_core_fields:
  assumes "kernel_core k" and "lists k' = lists k" and "tcbs k' = tcbs k"
    and "uxTopReadyPriority k' = uxTopReadyPriority k"
    and "uxDeletedTasksWaitingCleanUp k' = uxDeletedTasksWaitingCleanUp k"
    and "uxCurrentNumberOfTasks k' = uxCurrentNumberOfTasks k"
    and "(pxDelayedTaskList k', pxOverflowDelayedTaskList k')
       \<in> {(pxDelayedTaskList k, pxOverflowDelayedTaskList k),
           (pxOverflowDelayedTaskList k, pxDelayedTaskList k)}"
  shows "kernel_core k'"
proof -
  have "live_tasks k' = live_tasks k" "dead_tasks k' = dead_tasks k"
    by (simp_all add: live_tasks_def dead_tasks_def assms(2))
  moreover have "task_ok k' t" for t
    using assms(1) task_ok_fields [OF assms(2-4)] by (simp add: kernel_core_def)
  ultimately show ?thesis
    using assms(1,7) by (auto simp: kernel_core_def assms(2-6))
qed

text \<open>Writing a control block without touching what the invariant reads.\<close>

definition same_shape :: "tcb \<Rightarrow> tcb \<Rightarrow> bool" where
  "same_shape b b' \<longleftrightarrow> uxPriority b' = uxPriority b \<and> uxBasePriority b' = uxBasePriority b \<and>
     length (ulNotifiedValue b') = length (ulNotifiedValue b) \<and>
     length (ucNotifyState b') = length (ucNotifyState b)"

lemma upd_tcb_core:
  assumes core: "kernel_core k" and f: "same_shape (tcbs k t) (f (tcbs k t))"
  shows "kernel_core (upd_tcb t f k)"
proof (rule kernel_coreI [OF core, where t = t])
  show "task_ok (upd_tcb t f k) t"
    using core f by (simp add: kernel_core_def task_ok_def same_shape_def)
qed (use core in \<open>simp_all add: same_task_def kernel_core_def\<close>)

lemma upd_tcb_inv:
  assumes inv: "kernel_inv k" and f: "same_shape (tcbs k t) (f (tcbs k t))"
  shows "kernel_inv (upd_tcb t f k)"
  using upd_tcb_core [where f = f, OF _ f] inv by (simp add: kernel_inv_def wake_ok_def pending_ok_def next_ok_def)

lemma wake_ok_cong:
  assumes "wake_ok k t" and "state_list k' t = state_list k t" and "wake_time k' t = wake_time k t"
    and "xNextTaskUnblockTime k' \<le> xNextTaskUnblockTime k" and "xTickCount k' = xTickCount k"
    and "pxDelayedTaskList k' = pxDelayedTaskList k"
    and "pxOverflowDelayedTaskList k' = pxOverflowDelayedTaskList k"
  shows "wake_ok k' t"
  using assms unfolding wake_ok_def by (metis order_trans)

lemma kernel_core_lists: "kernel_core k \<Longrightarrow> lists_inv (lists k)"
  by (simp add: kernel_core_def)

lemma kernel_core_task: "kernel_core k \<Longrightarrow> task_ok k t"
  by (simp add: kernel_core_def)

lemma kernel_core_delayed:
  "kernel_core k \<Longrightarrow> pxDelayedTaskList k \<in> delayed_lists"
  "kernel_core k \<Longrightarrow> pxOverflowDelayedTaskList k \<in> delayed_lists"
  "kernel_core k \<Longrightarrow> pxOverflowDelayedTaskList k \<noteq> pxDelayedTaskList k"
  by (auto simp: kernel_core_def)

lemma kernel_invD: "kernel_inv k \<Longrightarrow> kernel_core k" "kernel_inv k \<Longrightarrow> wake_ok k t" "kernel_inv k \<Longrightarrow> pending_ok k"
  "kernel_inv k \<Longrightarrow> next_ok k"
  by (simp_all add: kernel_inv_def)

lemma task_okD:
  assumes "task_ok k t"
  shows "state_list k t = Some l \<Longrightarrow> \<not> is_event_list l" "event_list k t = Some l \<Longrightarrow> is_event_list l"
    "uxBasePriority (tcbs k t) \<le> prio k t" "prio k t < configMAX_PRIORITIES"
    "state_list k t = Some (ReadyL p) \<Longrightarrow> p = prio k t"
    "state_list k t = Some (ReadyL p) \<Longrightarrow> p \<le> uxTopReadyPriority k"
    "state_list k t = Some (ReadyL p) \<Longrightarrow> event_list k t = None \<or> event_list k t = Some PendingReadyL"
    "event_list k t = Some l \<Longrightarrow> state_list k t \<noteq> None"
    "event_list k t = Some l \<Longrightarrow> state_list k t \<noteq> Some TerminationL"
  using assms unfolding task_ok_def by auto

lemma task_ok_ready:
  assumes "state_list k t = Some (ReadyL (prio k t))"
    and "event_list k t = None \<or> event_list k t = Some PendingReadyL"
    and "uxBasePriority (tcbs k t) \<le> prio k t" "prio k t < configMAX_PRIORITIES"
    and "length (ulNotifiedValue (tcbs k t)) = configTASK_NOTIFICATION_ARRAY_ENTRIES"
    and "length (ucNotifyState (tcbs k t)) = configTASK_NOTIFICATION_ARRAY_ENTRIES"
    and "prio k t \<le> uxTopReadyPriority k"
  shows "task_ok k t"
  using assms unfolding task_ok_def by auto

text \<open>Lists hold items of their kind only, so the owner of an item is known from the list.\<close>

lemma state_member:
  assumes "kernel_core k" and "i \<in> set (members k l)" and "\<not> is_event_list l"
  shows "i = StateI (owner i) \<and> state_list k (owner i) = Some l"
proof (cases i)
  case (StateI t)
  then show ?thesis
    using assms lists_wf_container [OF lists_inv_wf [OF kernel_core_lists [OF assms(1)]]] by auto
next
  case (EventI t)
  then have "event_list k t = Some l"
    using assms(2) lists_wf_container [OF lists_inv_wf [OF kernel_core_lists [OF assms(1)]]] by auto
  with assms show ?thesis
    using kernel_core_task [OF assms(1), of t] by (auto simp: task_ok_def)
qed

lemma event_member:
  assumes "kernel_core k" and "i \<in> set (members k l)" and "is_event_list l"
  shows "i = EventI (owner i) \<and> event_list k (owner i) = Some l"
proof (cases i)
  case (EventI t)
  then show ?thesis
    using assms lists_wf_container [OF lists_inv_wf [OF kernel_core_lists [OF assms(1)]]] by auto
next
  case (StateI t)
  then have "state_list k t = Some l"
    using assms(2) lists_wf_container [OF lists_inv_wf [OF kernel_core_lists [OF assms(1)]]] by auto
  with assms show ?thesis
    using kernel_core_task [OF assms(1), of t] by (auto simp: task_ok_def)
qed

lemma member_iff:
  assumes "kernel_core k"
  shows "StateI t \<in> set (members k l) \<longleftrightarrow> state_list k t = Some l"
    "EventI t \<in> set (members k l) \<longleftrightarrow> event_list k t = Some l"
  using lists_wf_container [OF lists_inv_wf [OF kernel_core_lists [OF assms]]] by simp_all

section \<open>Making a task ready\<close>

lemma add_to_ready:
  "prvAddTaskToReadyList t k =
     k\<lparr>lists := list_insert_end (ReadyL (prio k t)) (StateI t) (lists k),
       uxTopReadyPriority := max (uxTopReadyPriority k) (prio k t)\<rparr>"
  by (simp add: prvAddTaskToReadyList_def taskRECORD_READY_PRIORITY_def max_def)

text \<open>
  \<open>woken W k k'\<close>: the tasks of \<open>W\<close> have left their state and event lists for the ready
  lists of their priorities; every other list lost just their items; nothing else changed.
\<close>

fun is_ready_list :: "list_id \<Rightarrow> bool" where
  "is_ready_list (ReadyL p) = True"
| "is_ready_list _ = False"

definition woken :: "task set \<Rightarrow> kernel \<Rightarrow> kernel \<Rightarrow> bool" where
  "woken W k k' \<longleftrightarrow>
     (\<forall>t. state_list k' t = (if t \<in> W then Some (ReadyL (prio k t)) else state_list k t)) \<and>
     (\<forall>t. event_list k' t = (if t \<in> W then None else event_list k t)) \<and>
     (\<forall>l. \<not> is_ready_list l \<longrightarrow> members k' l = filter (\<lambda>i. owner i \<notin> W) (members k l)) \<and>
     item_value (lists k') = item_value (lists k) \<and>
     uxTopReadyPriority k \<le> uxTopReadyPriority k' \<and>
     (W = {} \<longrightarrow> lists k' = lists k) \<and>
     k' = k\<lparr>lists := lists k', uxTopReadyPriority := uxTopReadyPriority k'\<rparr>"

lemma woken_frame:
  assumes "woken W k k'"
  shows "tcbs k' = tcbs k" "pxCurrentTCB k' = pxCurrentTCB k" "pxDelayedTaskList k' = pxDelayedTaskList k"
    "pxOverflowDelayedTaskList k' = pxOverflowDelayedTaskList k" "xTickCount k' = xTickCount k"
    "uxSchedulerSuspended k' = uxSchedulerSuspended k" "xYieldPending k' = xYieldPending k"
    "xPendedTicks k' = xPendedTicks k" "xNextTaskUnblockTime k' = xNextTaskUnblockTime k"
    "xNumOfOverflows k' = xNumOfOverflows k" "item_value (lists k') = item_value (lists k)"
    "uxDeletedTasksWaitingCleanUp k' = uxDeletedTasksWaitingCleanUp k"
    "uxCurrentNumberOfTasks k' = uxCurrentNumberOfTasks k" "uxTaskNumber k' = uxTaskNumber k"
    "xSchedulerRunning k' = xSchedulerRunning k" "xIdleTaskHandle k' = xIdleTaskHandle k"
proof -
  from assms obtain L p where k': "k' = k\<lparr>lists := L, uxTopReadyPriority := p\<rparr>"
    unfolding woken_def by blast
  have "item_value (lists k') = item_value (lists k)" using assms by (simp add: woken_def)
  then show "item_value (lists k') = item_value (lists k)" .
  show "tcbs k' = tcbs k" "pxCurrentTCB k' = pxCurrentTCB k" "pxDelayedTaskList k' = pxDelayedTaskList k"
    "pxOverflowDelayedTaskList k' = pxOverflowDelayedTaskList k" "xTickCount k' = xTickCount k"
    "uxSchedulerSuspended k' = uxSchedulerSuspended k" "xYieldPending k' = xYieldPending k"
    "xPendedTicks k' = xPendedTicks k" "xNextTaskUnblockTime k' = xNextTaskUnblockTime k"
    "xNumOfOverflows k' = xNumOfOverflows k"
    "uxDeletedTasksWaitingCleanUp k' = uxDeletedTasksWaitingCleanUp k"
    "uxCurrentNumberOfTasks k' = uxCurrentNumberOfTasks k" "uxTaskNumber k' = uxTaskNumber k"
    "xSchedulerRunning k' = xSchedulerRunning k" "xIdleTaskHandle k' = xIdleTaskHandle k"
    by (simp_all add: k')
qed

lemma woken_lists:
  assumes "woken W k k'"
  shows "state_list k' t = (if t \<in> W then Some (ReadyL (prio k t)) else state_list k t)"
    "event_list k' t = (if t \<in> W then None else event_list k t)"
    "\<not> is_ready_list l \<Longrightarrow> members k' l = filter (\<lambda>i. owner i \<notin> W) (members k l)"
    "uxTopReadyPriority k \<le> uxTopReadyPriority k'"
    "W = {} \<Longrightarrow> lists k' = lists k"
  using assms unfolding woken_def by blast+

lemma woken_empty [simp]: "woken {} k k"
  by (simp add: woken_def)

lemma kernel_two_updates:
  "k1 = k\<lparr>lists := L, uxTopReadyPriority := p\<rparr> \<Longrightarrow>
   k2 = k1\<lparr>lists := L', uxTopReadyPriority := p'\<rparr> \<Longrightarrow> k2 = k\<lparr>lists := L', uxTopReadyPriority := p'\<rparr>"
  by simp

lemma woken_trans:
  assumes a: "woken W k k1" and b: "woken V k1 k2" shows "woken (W \<union> V) k k2"
proof -
  note f = woken_frame [OF a] woken_frame [OF b] and l = woken_lists [OF a] woken_lists [OF b]
  have "k1 = k\<lparr>lists := lists k1, uxTopReadyPriority := uxTopReadyPriority k1\<rparr>"
    "k2 = k1\<lparr>lists := lists k2, uxTopReadyPriority := uxTopReadyPriority k2\<rparr>"
    using a b unfolding woken_def by blast+
  then have "k2 = k\<lparr>lists := lists k2, uxTopReadyPriority := uxTopReadyPriority k2\<rparr>"
    by (rule kernel_two_updates)
  moreover have "uxTopReadyPriority k \<le> uxTopReadyPriority k2"
    using l(4,9) by simp
  ultimately show ?thesis using f l unfolding woken_def by auto
qed

lemma filter_neq_remove1: "distinct xs \<Longrightarrow> filter (\<lambda>y. y \<noteq> x) xs = remove1 x xs"
  by (simp add: distinct_remove1_removeAll removeAll_filter_not_eq eq_commute)

text \<open>
  Taking a blocked task out of its state list and, if it waits for an event, out of the event
  list, and putting it into the ready list of its priority.
\<close>

lemma make_ready_core:
  assumes core: "kernel_core k" and live: "state_list k t \<noteq> None" "state_list k t \<noteq> Some TerminationL"
    and lists: "lists_inv L'"
    and cont: "container L' = (container (lists k))(StateI t := None, EventI t := None)"
    and val: "item_value L' = item_value (lists k)"
  shows "kernel_core (prvAddTaskToReadyList t (k\<lparr>lists := L'\<rparr>))" (is "kernel_core ?k")
proof (rule kernel_coreI [OF core, where t = t])
  have t: "task_ok k t" using core by (rule kernel_core_task)
  show "lists_inv (lists ?k)"
    using lists cont by (simp add: add_to_ready)
  show "\<And>t'. t' \<noteq> t \<Longrightarrow> same_task k ?k t'"
    using cont by (simp add: same_task_def add_to_ready list_frame)
  show "task_ok ?k t"
    using t cont by (auto simp: task_ok_def add_to_ready list_frame)
qed (use core live cont kernel_core_task [OF core, of t] in
      \<open>auto simp: add_to_ready list_frame kernel_core_def task_ok_def\<close>)

lemma make_ready_woken:
  assumes core: "kernel_core k"
    and cont: "container L' = (container (lists k))(StateI t := None, EventI t := None)"
    and val: "item_value L' = item_value (lists k)"
    and it: "\<And>l. items L' l = remove1 (EventI t) (remove1 (StateI t) (items (lists k) l))"
  shows "woken {t} k (prvAddTaskToReadyList t (k\<lparr>lists := L'\<rparr>))"
proof -
  have d: "distinct (members k l)" for l
    using core by (simp add: kernel_core_def lists_inv_def lists_wf_distinct)
  have "remove1 (EventI t) (remove1 (StateI t) (members k l)) = filter (\<lambda>i. owner i \<noteq> t) (members k l)" for l
  proof -
    have o: "owner i \<noteq> t \<longleftrightarrow> i \<noteq> StateI t \<and> i \<noteq> EventI t" for i by (cases i) auto
    have "filter (\<lambda>i. owner i \<noteq> t) (members k l) =
        filter (\<lambda>i. i \<noteq> EventI t) (filter (\<lambda>i. i \<noteq> StateI t) (members k l))"
      unfolding filter_filter o by (simp add: conj_commute)
    also have "\<dots> = remove1 (EventI t) (remove1 (StateI t) (members k l))"
      using d by (simp add: filter_neq_remove1 distinct_remove1)
    finally show ?thesis by simp
  qed
  then show ?thesis
    using assms unfolding woken_def by (auto simp: add_to_ready list_frame)
qed

text \<open>
  Taking a task out of its state list and, if it waits, out of its event list: the sequence
  as the code has it, with whatever the caller continues with.
\<close>

definition detached :: "task \<Rightarrow> (list_id, item_id) lists \<Rightarrow> (list_id, item_id) lists \<Rightarrow> bool" where
  "detached t L L' \<longleftrightarrow> lists_inv L' \<and>
     container L' = (container L)(StateI t := None, EventI t := None) \<and> item_value L' = item_value L \<and>
     (\<forall>l. items L' l = remove1 (EventI t) (remove1 (StateI t) (items L l)))"

lemma detach_ensures:
  assumes li: "lists_inv (lists k)" and live: "state_list k t \<noteq> None"
    and post: "\<And>L'. detached t (lists k) L' \<Longrightarrow> ensures (f (k\<lparr>lists := L'\<rparr>)) Q"
  shows "ensures (do {
      k1 \<leftarrow> k_list_remove (StateI t) k;
      k2 \<leftarrow> (if event_list k1 t \<noteq> None then k_list_remove (EventI t) k1 else Some k1);
      f k2 }) Q"
  unfolding ensures_bind [of "k_list_remove (StateI t) k"]
proof (rule k_list_remove_ensures [OF li live])
  fix L1 assume L1: "lists_inv L1" "container L1 = (container (lists k))(StateI t := None)"
    "item_value L1 = item_value (lists k)" "\<And>l. items L1 l = remove1 (StateI t) (members k l)"
  let ?k1 = "k\<lparr>lists := L1\<rparr>"
  show "ensures (do {
      k2 \<leftarrow> (if event_list ?k1 t \<noteq> None then k_list_remove (EventI t) ?k1 else Some ?k1); f k2 }) Q"
  proof (cases "event_list ?k1 t = None")
    case True
    then have "EventI t \<notin> set (items L1 l)" for l
      using lists_wf_not_in [OF lists_inv_wf [OF L1(1)]] by simp
    then have "items L1 l = remove1 (EventI t) (remove1 (StateI t) (members k l))" for l
      using L1(4) by (metis remove1_idem)
    moreover have "container L1 = (container (lists k))(StateI t := None, EventI t := None)"
      using True L1(2) by (auto simp: fun_eq_iff)
    ultimately have "detached t (lists k) L1" using L1(1,3) by (simp add: detached_def)
    with True post show ?thesis by simp
  next
    case False
    have "ensures (k_list_remove (EventI t) ?k1) (\<lambda>k2. ensures (f k2) Q)"
    proof (rule k_list_remove_ensures)
      fix L2 assume L2: "lists_inv L2" "container L2 = (container (lists ?k1))(EventI t := None)"
        "item_value L2 = item_value (lists ?k1)" "\<And>l. items L2 l = remove1 (EventI t) (members ?k1 l)"
      then have "detached t (lists k) L2" using L1 by (simp add: detached_def)
      from post [OF this] show "ensures (f (?k1\<lparr>lists := L2\<rparr>)) Q" by simp
    qed (use L1 False in simp_all)
    with False show ?thesis by simp
  qed
qed

text \<open>The same, where the caller marks the task in the branch that takes it out of an event list.\<close>

lemma remove_state_event:
  "k_list_remove (StateI t) k = Some k1 \<Longrightarrow> event_list k1 t = event_list k t"
  by (auto simp: k_list_remove_def list_remove_def split: option.splits)

lemma detach_mark_ensures:
  assumes li: "lists_inv (lists k)" and live: "state_list k t \<noteq> None"
    and post: "\<And>L'. detached t (lists k) L' \<Longrightarrow>
      ensures (f (if event_list k t \<noteq> None then u (k\<lparr>lists := L'\<rparr>) else k\<lparr>lists := L'\<rparr>)) Q"
  shows "ensures (do {
      k1 \<leftarrow> k_list_remove (StateI t) k;
      k2 \<leftarrow> (if event_list k1 t \<noteq> None
             then do { k \<leftarrow> k_list_remove (EventI t) k1; Some (u k) } else Some k1);
      f k2 }) Q"
proof -
  have "ensures (do {
      k1 \<leftarrow> k_list_remove (StateI t) k;
      k2 \<leftarrow> (if event_list k1 t \<noteq> None then k_list_remove (EventI t) k1 else Some k1);
      f (if event_list k t \<noteq> None then u k2 else k2) }) Q"
    using post by (rule detach_ensures [OF li live])
  then show ?thesis
    using remove_state_event [of t k]
    by (cases "k_list_remove (StateI t) k") (auto split: if_splits)
qed

lemma detached_ready:
  assumes core: "kernel_core k" and live: "state_list k t \<noteq> None" "state_list k t \<noteq> Some TerminationL"
    and d: "detached t (lists k) L'"
  shows "kernel_core (prvAddTaskToReadyList t (k\<lparr>lists := L'\<rparr>))"
    "woken {t} k (prvAddTaskToReadyList t (k\<lparr>lists := L'\<rparr>))"
  using make_ready_core [OF core live] make_ready_woken [OF core] d by (simp_all add: detached_def)

lemma unblock_ensures:
  assumes core: "kernel_core k" and live: "state_list k t \<noteq> None" "state_list k t \<noteq> Some TerminationL"
    and post: "\<And>k'. kernel_core k' \<Longrightarrow> woken {t} k k' \<Longrightarrow> ensures (f k') Q"
  shows "ensures (do {
      k1 \<leftarrow> k_list_remove (StateI t) k;
      k2 \<leftarrow> (if event_list k1 t \<noteq> None then k_list_remove (EventI t) k1 else Some k1);
      let k3 = prvAddTaskToReadyList t k2;
      f k3 }) Q"
proof (rule detach_ensures [OF kernel_core_lists [OF core] live(1)])
  fix L' assume "detached t (lists k) L'"
  with post show "ensures (let k3 = prvAddTaskToReadyList t (k\<lparr>lists := L'\<rparr>) in f k3) Q"
    using detached_ready [OF core live] by simp
qed

text \<open>For a task that waits for no event, only the state item is moved.\<close>

lemma unblock_state_ensures:
  assumes core: "kernel_core k" and live: "state_list k t \<noteq> None" "state_list k t \<noteq> Some TerminationL"
    and ev: "event_list k t = None"
    and post: "\<And>k'. kernel_core k' \<Longrightarrow> woken {t} k k' \<Longrightarrow> ensures (f k') Q"
  shows "ensures (do {
      k1 \<leftarrow> k_list_remove (StateI t) k;
      let k3 = prvAddTaskToReadyList t k1;
      f k3 }) Q"
  unfolding ensures_bind
proof (rule k_list_remove_ensures [OF kernel_core_lists [OF core] live(1)])
  fix L1 assume L1: "lists_inv L1" "container L1 = (container (lists k))(StateI t := None)"
    "item_value L1 = item_value (lists k)" "\<And>l. items L1 l = remove1 (StateI t) (members k l)"
  have "EventI t \<notin> set (items L1 l)" for l
    using lists_wf_not_in [OF lists_inv_wf [OF L1(1)], of "EventI t"] ev L1(2) by simp
  then have "detached t (lists k) L1"
    using L1 ev by (auto simp: detached_def remove1_idem fun_eq_iff)
  with post show "ensures (let k3 = prvAddTaskToReadyList t (k\<lparr>lists := L1\<rparr>) in f k3) Q"
    using detached_ready [OF core live] by simp
qed

section \<open>Changing a priority\<close>

text \<open>
  \<open>reprio t b k k'\<close>: task \<open>t\<close> has the control block \<open>b\<close>, and if it was ready it is in the ready
  list of its new priority.
\<close>

definition reprio :: "task \<Rightarrow> tcb \<Rightarrow> kernel \<Rightarrow> kernel \<Rightarrow> bool" where
  "reprio t b k k' \<longleftrightarrow>
     (\<forall>x. state_list k' x = (if x = t \<and> state_list k t = Some (ReadyL (prio k t))
        then Some (ReadyL (uxPriority b)) else state_list k x)) \<and>
     (\<forall>x. event_list k' x = event_list k x) \<and> (\<forall>x. wake_time k' x = wake_time k x) \<and>
     (\<forall>l. \<not> is_ready_list l \<longrightarrow> members k' l = members k l) \<and>
     tcbs k' = (tcbs k)(t := b) \<and> uxTopReadyPriority k \<le> uxTopReadyPriority k' \<and>
     (uxPriority b = prio k t \<or> state_list k t = Some (ReadyL (prio k t)) \<longrightarrow>
        uxPriority b \<le> uxTopReadyPriority k' \<or> state_list k t \<noteq> Some (ReadyL (prio k t))) \<and>
     uxTopReadyPriority k' < configMAX_PRIORITIES \<and>
     k' = k\<lparr>lists := lists k', tcbs := tcbs k', uxTopReadyPriority := uxTopReadyPriority k'\<rparr>"

lemma reprio_frame:
  assumes "reprio t b k k'"
  shows "pxCurrentTCB k' = pxCurrentTCB k" "pxDelayedTaskList k' = pxDelayedTaskList k"
    "pxOverflowDelayedTaskList k' = pxOverflowDelayedTaskList k" "xTickCount k' = xTickCount k"
    "uxSchedulerSuspended k' = uxSchedulerSuspended k" "xYieldPending k' = xYieldPending k"
    "xPendedTicks k' = xPendedTicks k" "xNextTaskUnblockTime k' = xNextTaskUnblockTime k"
    "xNumOfOverflows k' = xNumOfOverflows k"
    "uxDeletedTasksWaitingCleanUp k' = uxDeletedTasksWaitingCleanUp k"
    "uxCurrentNumberOfTasks k' = uxCurrentNumberOfTasks k" "uxTaskNumber k' = uxTaskNumber k"
    "xSchedulerRunning k' = xSchedulerRunning k" "xIdleTaskHandle k' = xIdleTaskHandle k"
proof -
  from assms obtain L T p where k': "k' = k\<lparr>lists := L, tcbs := T, uxTopReadyPriority := p\<rparr>"
    unfolding reprio_def by blast
  show "pxCurrentTCB k' = pxCurrentTCB k" "pxDelayedTaskList k' = pxDelayedTaskList k"
    "pxOverflowDelayedTaskList k' = pxOverflowDelayedTaskList k" "xTickCount k' = xTickCount k"
    "uxSchedulerSuspended k' = uxSchedulerSuspended k" "xYieldPending k' = xYieldPending k"
    "xPendedTicks k' = xPendedTicks k" "xNextTaskUnblockTime k' = xNextTaskUnblockTime k"
    "xNumOfOverflows k' = xNumOfOverflows k"
    "uxDeletedTasksWaitingCleanUp k' = uxDeletedTasksWaitingCleanUp k"
    "uxCurrentNumberOfTasks k' = uxCurrentNumberOfTasks k" "uxTaskNumber k' = uxTaskNumber k"
    "xSchedulerRunning k' = xSchedulerRunning k" "xIdleTaskHandle k' = xIdleTaskHandle k"
    by (simp_all add: k')
qed

lemma reprio_lists:
  assumes "reprio t b k k'"
  shows "state_list k' x = (if x = t \<and> state_list k t = Some (ReadyL (prio k t))
        then Some (ReadyL (uxPriority b)) else state_list k x)"
    "event_list k' x = event_list k x" "wake_time k' x = wake_time k x"
    "\<not> is_ready_list l \<Longrightarrow> members k' l = members k l" "tcbs k' = (tcbs k)(t := b)"
    "uxTopReadyPriority k \<le> uxTopReadyPriority k'" "uxTopReadyPriority k' < configMAX_PRIORITIES"
    "state_list k t = Some (ReadyL (prio k t)) \<Longrightarrow> uxPriority b \<le> uxTopReadyPriority k'"
  using assms unfolding reprio_def by blast+

lemma reprio_inv:
  assumes inv: "kernel_inv k" and r: "reprio t b k k'" and li: "lists_inv (lists k')"
    and b: "uxBasePriority b \<le> uxPriority b" "uxPriority b < configMAX_PRIORITIES"
      "length (ulNotifiedValue b) = configTASK_NOTIFICATION_ARRAY_ENTRIES"
      "length (ucNotifyState b) = configTASK_NOTIFICATION_ARRAY_ENTRIES"
  shows "kernel_inv k'"
proof -
  note rl = reprio_lists [OF r] and rf = reprio_frame [OF r]
  have core: "kernel_core k" using inv by (rule kernel_invD)
  have tok: "task_ok k t" using core by (rule kernel_core_task)
  have "kernel_core k'"
  proof (rule kernel_coreI [OF core li, where t = t])
    show "same_task k k' x" if "x \<noteq> t" for x using that rl by (simp add: same_task_def)
    show "task_ok k' t"
    proof (cases "state_list k t = Some (ReadyL (prio k t))")
      case True
      show ?thesis
        by (rule task_ok_ready) (use True b rl(8) [OF True] task_okD(7) [OF tok True] in
            \<open>simp_all add: rl(1,2,5)\<close>)
    next
      case False
      then have "state_list k t \<noteq> Some (ReadyL p)" for p using task_okD(5) [OF tok] by auto
      with False b tok show ?thesis unfolding task_ok_def rl(1,2,5) by simp
    qed
  qed (use rf rl in auto)
  moreover have "wake_ok k' x" for x
    using kernel_invD(2) [OF inv, of x] core by (auto simp: wake_ok_def rl rf kernel_core_def split: if_splits)
  moreover have "pending_ok k'"
    using kernel_invD(3) [OF inv] by (simp add: pending_ok_def rl rf)
  moreover have "next_ok k'" using kernel_invD(4) [OF inv] by (simp add: next_ok_def rf)
  ultimately show ?thesis by (simp add: kernel_inv_def)
qed

end
