(* ===== verification/Task_Sched.thy ===== *)
theory Task_Sched
  imports Task_State
begin

text \<open>
  The tick and the scheduler lock of tasks.c: \<open>xTaskIncrementTick\<close>, \<open>vTaskSuspendAll\<close> and
  \<open>xTaskResumeAll\<close>, tickless stepping and catching up, and the time-out bookkeeping of the
  blocking calls. The theorems give the wake-up time of a blocked task exactly, across the
  wrap-around of the tick counter.
\<close>

section \<open>The tick\<close>

text \<open>
  The loop of \<open>xTaskIncrementTick\<close> over the head of the delayed list; \<open>sw\<close> is
  \<open>xSwitchRequired\<close>. \<open>xConstTickCount\<close> is the new tick count.
\<close>

partial_function (option) tick_loop :: "bool \<Rightarrow> kernel \<Rightarrow> (kernel \<times> bool) option" where
  "tick_loop sw k = (case members k (pxDelayedTaskList k) of
       [] \<Rightarrow> Some (k\<lparr>xNextTaskUnblockTime := portMAX_DELAY\<rparr>, sw)
     | i # _ \<Rightarrow>
         if xTickCount k < wake_time k (owner i)
         then Some (k\<lparr>xNextTaskUnblockTime := wake_time k (owner i)\<rparr>, sw)
         else do {
           k1 \<leftarrow> k_list_remove (StateI (owner i)) k;
           k2 \<leftarrow> (if event_list k1 (owner i) \<noteq> None then k_list_remove (EventI (owner i)) k1 else Some k1);
           let k3 = prvAddTaskToReadyList (owner i) k2;
           c \<leftarrow> pxCurrentTCB k3;
           tick_loop (sw \<or> prio k3 c < prio k3 (owner i)) k3 })"

definition xTaskIncrementTick :: "kernel \<Rightarrow> (kernel \<times> bool) option" where
  "xTaskIncrementTick k =
     (if uxSchedulerSuspended k = 0 then do {
        let k = k\<lparr>xTickCount := xTickCount k + 1\<rparr>;
        k \<leftarrow> (if xTickCount k = 0 then taskSWITCH_DELAYED_LISTS k else Some k);
        (k, sw) \<leftarrow> (if xTickCount k \<ge> xNextTaskUnblockTime k then tick_loop False k
                     else Some (k, False));
        c \<leftarrow> pxCurrentTCB k;
        let sw = (sw \<or> length (members k (ReadyL (prio k c))) > 1);
        let sw = (sw \<or> xYieldPending k);
        Some (k, sw) }
      else Some (k\<lparr>xPendedTicks := xPendedTicks k + 1\<rparr>, False))"

definition xTaskGetTickCount :: "kernel \<Rightarrow> tick" where
  "xTaskGetTickCount k = xTickCount k"

definition xTaskGetTickCountFromISR :: "kernel \<Rightarrow> tick" where
  "xTaskGetTickCountFromISR k = xTickCount k"

section \<open>The scheduler lock\<close>

definition vTaskSuspendAll :: "kernel \<Rightarrow> kernel" where
  "vTaskSuspendAll k = k\<lparr>uxSchedulerSuspended := uxSchedulerSuspended k + 1\<rparr>"

text \<open>The drain of the pending-ready list; the flag is \<open>pxTCB \<noteq> NULL\<close>, that is, a task was moved.\<close>

partial_function (option) pending_loop :: "bool \<Rightarrow> kernel \<Rightarrow> (kernel \<times> bool) option" where
  "pending_loop moved k = (case members k PendingReadyL of
       [] \<Rightarrow> Some (k, moved)
     | i # _ \<Rightarrow> do {
         k1 \<leftarrow> k_list_remove (EventI (owner i)) k;
         k2 \<leftarrow> k_list_remove (StateI (owner i)) k1;
         let k3 = prvAddTaskToReadyList (owner i) k2;
         c \<leftarrow> pxCurrentTCB k3;
         pending_loop True
           (if prio k3 c < prio k3 (owner i) then k3\<lparr>xYieldPending := True\<rparr> else k3) })"

partial_function (option) pended_ticks_loop :: "tick \<Rightarrow> kernel \<Rightarrow> kernel option" where
  "pended_ticks_loop n k = do {
     (k, sw) \<leftarrow> xTaskIncrementTick k;
     let k = (if sw then k\<lparr>xYieldPending := True\<rparr> else k);
     if n - 1 > 0 then pended_ticks_loop (n - 1) k else Some k }"

definition xTaskResumeAll :: "kernel \<Rightarrow> (kernel \<times> bool) option" where
  "xTaskResumeAll k = do {
     configASSERT (uxSchedulerSuspended k \<noteq> 0);
     let k = k\<lparr>uxSchedulerSuspended := uxSchedulerSuspended k - 1\<rparr>;
     if uxSchedulerSuspended k = 0 \<and> uxCurrentNumberOfTasks k > 0
     then do {
       (k, moved) \<leftarrow> pending_loop False k;
       let k = (if moved then prvResetNextTaskUnblockTime k else k);
       k \<leftarrow> (if xPendedTicks k > 0
             then map_option (\<lambda>k. k\<lparr>xPendedTicks := 0\<rparr>) (pended_ticks_loop (xPendedTicks k) k)
             else Some k);
       if xYieldPending k
       then do { k \<leftarrow> portYIELD k; Some (k, True) }
       else Some (k, False) }
     else Some (k, False) }"

definition vTaskMissedYield :: "kernel \<Rightarrow> kernel" where
  "vTaskMissedYield k = k\<lparr>xYieldPending := True\<rparr>"

section \<open>Tickless idle\<close>

definition prvGetExpectedIdleTime :: "kernel \<Rightarrow> tick option" where
  "prvGetExpectedIdleTime k = do {
     let xHigherPriorityReadyTasks = (uxTopReadyPriority k > tskIDLE_PRIORITY);
     c \<leftarrow> pxCurrentTCB k;
     Some (if prio k c > tskIDLE_PRIORITY then 0
           else if length (members k (ReadyL tskIDLE_PRIORITY)) > 1 then 0
           else if xHigherPriorityReadyTasks then 0
           else xNextTaskUnblockTime k - xTickCount k) }"

definition vTaskStepTick :: "tick \<Rightarrow> kernel \<Rightarrow> kernel option" where
  "vTaskStepTick xTicksToJump k = do {
     let xUpdatedTickCount = xTickCount k + xTicksToJump;
     configASSERT (xUpdatedTickCount \<le> xNextTaskUnblockTime k);
     if xUpdatedTickCount = xNextTaskUnblockTime k
     then do {
       configASSERT (uxSchedulerSuspended k \<noteq> 0);
       configASSERT (xTicksToJump \<noteq> 0);
       Some (k\<lparr>xPendedTicks := xPendedTicks k + 1, xTickCount := xTickCount k + (xTicksToJump - 1)\<rparr>) }
     else Some (k\<lparr>xTickCount := xTickCount k + xTicksToJump\<rparr>) }"

definition xTaskCatchUpTicks :: "tick \<Rightarrow> kernel \<Rightarrow> (kernel \<times> bool) option" where
  "xTaskCatchUpTicks xTicksToCatchUp k = do {
     configASSERT (uxSchedulerSuspended k = 0);
     let k = vTaskSuspendAll k;
     let k = k\<lparr>xPendedTicks := xPendedTicks k + xTicksToCatchUp\<rparr>;
     xTaskResumeAll k }"

datatype eSleepModeStatus = eAbortSleep | eStandardSleep | eNoTasksWaitingTimeout

section \<open>Time-outs of blocking calls\<close>

record TimeOut =
  xOverflowCount :: int
  xTimeOnEntering :: tick

definition vTaskInternalSetTimeOutState :: "kernel \<Rightarrow> TimeOut" where
  "vTaskInternalSetTimeOutState k = \<lparr>xOverflowCount = xNumOfOverflows k, xTimeOnEntering = xTickCount k\<rparr>"

definition vTaskSetTimeOutState :: "kernel \<Rightarrow> TimeOut" where
  "vTaskSetTimeOutState k = \<lparr>xOverflowCount = xNumOfOverflows k, xTimeOnEntering = xTickCount k\<rparr>"

text \<open>The results are the kernel, the two in-out parameters and the returned flag.\<close>

definition xTaskCheckForTimeOut ::
    "TimeOut \<Rightarrow> tick \<Rightarrow> kernel \<Rightarrow> (kernel \<times> TimeOut \<times> tick \<times> bool) option" where
  "xTaskCheckForTimeOut pxTimeOut xTicksToWait k = do {
     let xConstTickCount = xTickCount k;
     let xElapsedTime = xConstTickCount - xTimeOnEntering pxTimeOut;
     c \<leftarrow> pxCurrentTCB k;
     Some (if ucDelayAborted (tcbs k c)
           then (upd_tcb c (\<lambda>b. b\<lparr>ucDelayAborted := False\<rparr>) k, pxTimeOut, xTicksToWait, True)
           else if xTicksToWait = portMAX_DELAY then (k, pxTimeOut, xTicksToWait, False)
           else if xNumOfOverflows k \<noteq> xOverflowCount pxTimeOut
                   \<and> xConstTickCount \<ge> xTimeOnEntering pxTimeOut
           then (k, pxTimeOut, 0, True)
           else if xElapsedTime < xTicksToWait
           then (k, vTaskInternalSetTimeOutState k, xTicksToWait - xElapsedTime, False)
           else (k, pxTimeOut, 0, True)) }"

section \<open>The tick loop wakes the tasks whose time has come\<close>

lemma delayed_not_ready [simp]:
  "kernel_core k \<Longrightarrow> \<not> is_ready_list (pxDelayedTaskList k)"
  "kernel_core k \<Longrightarrow> \<not> is_ready_list (pxOverflowDelayedTaskList k)"
  "kernel_core k \<Longrightarrow> \<not> is_event_list (pxDelayedTaskList k)"
  "kernel_core k \<Longrightarrow> \<not> is_event_list (pxOverflowDelayedTaskList k)"
  by (auto simp: kernel_core_def)

lemma delayed_not_other [simp]:
  "kernel_core k \<Longrightarrow> pxDelayedTaskList k \<noteq> TerminationL"
  "kernel_core k \<Longrightarrow> pxDelayedTaskList k \<noteq> SuspendedL"
  "kernel_core k \<Longrightarrow> pxDelayedTaskList k \<noteq> PendingReadyL"
  "kernel_core k \<Longrightarrow> pxDelayedTaskList k \<noteq> ReadyL p"
  "kernel_core k \<Longrightarrow> pxOverflowDelayedTaskList k \<noteq> TerminationL"
  "kernel_core k \<Longrightarrow> pxOverflowDelayedTaskList k \<noteq> SuspendedL"
  "kernel_core k \<Longrightarrow> pxOverflowDelayedTaskList k \<noteq> PendingReadyL"
  "kernel_core k \<Longrightarrow> pxOverflowDelayedTaskList k \<noteq> ReadyL p"
  "kernel_core k \<Longrightarrow> TerminationL \<noteq> pxDelayedTaskList k"
  "kernel_core k \<Longrightarrow> TerminationL \<noteq> pxOverflowDelayedTaskList k"
  "kernel_core k \<Longrightarrow> SuspendedL \<noteq> pxDelayedTaskList k"
  "kernel_core k \<Longrightarrow> SuspendedL \<noteq> pxOverflowDelayedTaskList k"
  "kernel_core k \<Longrightarrow> ReadyL p \<noteq> pxDelayedTaskList k"
  "kernel_core k \<Longrightarrow> ReadyL p \<noteq> pxOverflowDelayedTaskList k"
  by (auto simp: kernel_core_def)

lemma delayed_head:
  assumes core: "kernel_core k" and xs: "members k (pxDelayedTaskList k) = i # xs"
  shows "i = StateI (owner i)" "state_list k (owner i) = Some (pxDelayedTaskList k)"
    "\<And>t. state_list k t = Some (pxDelayedTaskList k) \<Longrightarrow> wake_time k (owner i) \<le> wake_time k t"
proof -
  have "i \<in> set (members k (pxDelayedTaskList k))" using xs by simp
  note i' = state_member [OF core this delayed_not_ready(3) [OF core]]
  show i: "i = StateI (owner i)" and "state_list k (owner i) = Some (pxDelayedTaskList k)"
    using i' by blast+
  fix t assume t: "state_list k t = Some (pxDelayedTaskList k)"
  have "sorted_key (item_value (lists k)) (i # xs)"
    using lists_inv_sorted [OF kernel_core_lists [OF core] kernel_core_delayed(1) [OF core]] xs by simp
  moreover have "StateI t \<in> set (i # xs)" using member_iff(1) [OF core] t xs by metis
  ultimately show "wake_time k (owner i) \<le> wake_time k t" using i by (metis sorted_key_hd list.sel(1))
qed

text \<open>The tasks of the delayed list whose wake-up time is at or before the tick count.\<close>

definition due_tasks :: "kernel \<Rightarrow> task set" where
  "due_tasks k = {t. state_list k t = Some (pxDelayedTaskList k) \<and> wake_time k t \<le> xTickCount k}"

lemma due_tasks_woken:
  assumes core: "kernel_core k" and w: "woken {t} k k'" and t: "t \<in> due_tasks k"
  shows "due_tasks k = insert t (due_tasks k')"
  using t core woken_frame [OF w] woken_lists(1) [OF w] by (auto simp: due_tasks_def split: if_splits)

lemma tick_loop_ensures:
  assumes core: "kernel_core k" and cur: "pxCurrentTCB k = Some c"
    and post: "\<And>k1. \<lbrakk>kernel_core k1; woken (due_tasks k) k k1;
        \<And>t. state_list k1 t = Some (pxDelayedTaskList k1) \<Longrightarrow> xTickCount k1 < wake_time k1 t\<rbrakk>
        \<Longrightarrow> Q (prvResetNextTaskUnblockTime k1, sw \<or> (\<exists>t \<in> due_tasks k. prio k c < prio k t))"
  shows "ensures (tick_loop sw k) Q"
  using assms
proof (induction "members k (pxDelayedTaskList k)" arbitrary: k sw)
  case Nil
  have none: "state_list k t \<noteq> Some (pxDelayedTaskList k)" for t
    using member_iff(1) [OF Nil.prems(1), of t "pxDelayedTaskList k"] Nil.hyps by auto
  then have "due_tasks k = {}" by (simp add: due_tasks_def)
  then have "Q (prvResetNextTaskUnblockTime k, sw)"
    using Nil.prems(1) Nil.prems(3) [of k] none by simp
  then show ?case
    by (subst tick_loop.simps) (simp add: Nil.hyps [symmetric] prvResetNextTaskUnblockTime_def)
next
  case (Cons i xs)
  note xs = Cons.hyps(2) [symmetric]
  define t where "t = owner i"
  note head = delayed_head [OF Cons.prems(1) xs, folded t_def]
  show ?case
  proof (cases "xTickCount k < wake_time k t")
    case True
    then have later: "xTickCount k < wake_time k t'" if "state_list k t' = Some (pxDelayedTaskList k)" for t'
      using head(3) [OF that] by simp
    then have none: "due_tasks k = {}" by (auto simp: due_tasks_def dest: less_le_not_le [THEN iffD1])
    have "Q (prvResetNextTaskUnblockTime k, sw)"
      using Cons.prems(1) Cons.prems(3) [of k] none later by simp
    moreover have "prvResetNextTaskUnblockTime k = k\<lparr>xNextTaskUnblockTime := wake_time k t\<rparr>"
      using head(1) by (simp add: prvResetNextTaskUnblockTime_def xs)
    ultimately show ?thesis
      using True by (subst tick_loop.simps) (simp add: xs t_def [symmetric])
  next
    case False
    then have due: "t \<in> due_tasks k" using head(2) by (simp add: due_tasks_def)
    show ?thesis
    proof (subst tick_loop.simps, unfold xs list.case t_def [symmetric] if_not_P [OF False], rule unblock_ensures)
      show "kernel_core k" "state_list k t \<noteq> None" "state_list k t \<noteq> Some TerminationL"
        using Cons.prems(1) head(2) by simp_all
      fix k3 assume core3: "kernel_core k3" and w: "woken {t} k k3"
      note f = woken_frame [OF w]
      note dt = due_tasks_woken [OF Cons.prems(1) w due]
      have "StateI t \<notin> set xs"
        using lists_wf_distinct [OF lists_inv_wf [OF kernel_core_lists [OF Cons.prems(1)]], of "pxDelayedTaskList k"]
          xs head(1) by auto
      moreover have "i' = StateI (owner i')" if "i' \<in> set xs" for i'
        using state_member [OF Cons.prems(1), of i' "pxDelayedTaskList k"] that xs Cons.prems(1) by simp
      ultimately have "owner i' \<noteq> t" if "i' \<in> set xs" for i' using that by metis
      then have "filter (\<lambda>i. owner i \<noteq> t) xs = xs" by (simp add: filter_id_conv)
      then have mem3: "members k3 (pxDelayedTaskList k3) = xs"
        using woken_lists(3) [OF w, of "pxDelayedTaskList k"] Cons.prems(1) xs
        by (simp add: f t_def)
      show "ensures (do { c \<leftarrow> pxCurrentTCB k3; tick_loop (sw \<or> prio k3 c < prio k3 t) k3 }) Q"
        unfolding f(2) Cons.prems(2) Option.bind.bind_lunit
      proof (rule Cons.hyps(1) [OF mem3 [symmetric] core3])
        show "pxCurrentTCB k3 = Some c" using f Cons.prems(2) by simp
        fix k1 assume k1: "kernel_core k1" "woken (due_tasks k3) k3 k1"
          and later: "\<And>t'. state_list k1 t' = Some (pxDelayedTaskList k1) \<Longrightarrow> xTickCount k1 < wake_time k1 t'"
        have "woken (due_tasks k) k k1" using woken_trans [OF w k1(2)] unfolding dt by simp
        from Cons.prems(3) [OF k1(1) this later]
        show "Q (prvResetNextTaskUnblockTime k1, (sw \<or> prio k3 c < prio k3 t) \<or>
            (\<exists>t' \<in> due_tasks k3. prio k3 c < prio k3 t'))"
          unfolding dt f by simp
      qed
    qed
  qed
qed

section \<open>One tick\<close>

text \<open>A task is waiting for a time when it is in one of the two delayed lists.\<close>

definition timed :: "kernel \<Rightarrow> task \<Rightarrow> bool" where
  "timed k t \<longleftrightarrow> state_list k t = Some (pxDelayedTaskList k) \<or>
     state_list k t = Some (pxOverflowDelayedTaskList k)"

lemma timed_iff: "kernel_core k \<Longrightarrow> timed k t \<longleftrightarrow> state_list k t = Some DelayedL1 \<or> state_list k t = Some DelayedL2"
  by (auto simp: timed_def kernel_core_def)

definition waking :: "kernel \<Rightarrow> task set" where
  "waking k = {t. timed k t \<and> wake_time k t = xTickCount k + 1}"

text \<open>\<open>woken\<close>, up to the scheduler's own fields: the time, the lock and the pending work.\<close>

definition untime :: "kernel \<Rightarrow> kernel \<Rightarrow> kernel" where
  "untime k k' = k'\<lparr>xTickCount := xTickCount k, pxDelayedTaskList := pxDelayedTaskList k,
     pxOverflowDelayedTaskList := pxOverflowDelayedTaskList k, xNumOfOverflows := xNumOfOverflows k,
     xNextTaskUnblockTime := xNextTaskUnblockTime k, xYieldPending := xYieldPending k,
     xPendedTicks := xPendedTicks k, uxSchedulerSuspended := uxSchedulerSuspended k\<rparr>"

definition ticked :: "task set \<Rightarrow> kernel \<Rightarrow> kernel \<Rightarrow> bool" where
  "ticked W k k' \<longleftrightarrow> woken W k (untime k k')"

lemma untime_fields [simp]:
  "lists (untime k k') = lists k'" "tcbs (untime k k') = tcbs k'"
  "pxCurrentTCB (untime k k') = pxCurrentTCB k'" "uxTopReadyPriority (untime k k') = uxTopReadyPriority k'"
  "uxDeletedTasksWaitingCleanUp (untime k k') = uxDeletedTasksWaitingCleanUp k'"
  "uxCurrentNumberOfTasks (untime k k') = uxCurrentNumberOfTasks k'"
  "uxTaskNumber (untime k k') = uxTaskNumber k'" "xSchedulerRunning (untime k k') = xSchedulerRunning k'"
  "xIdleTaskHandle (untime k k') = xIdleTaskHandle k'"
  by (simp_all add: untime_def)

lemma ticked_frame:
  assumes "ticked W k k'"
  shows "tcbs k' = tcbs k" "pxCurrentTCB k' = pxCurrentTCB k"
    "item_value (lists k') = item_value (lists k)"
    "uxDeletedTasksWaitingCleanUp k' = uxDeletedTasksWaitingCleanUp k"
    "uxCurrentNumberOfTasks k' = uxCurrentNumberOfTasks k" "uxTaskNumber k' = uxTaskNumber k"
    "xSchedulerRunning k' = xSchedulerRunning k" "xIdleTaskHandle k' = xIdleTaskHandle k"
  using woken_frame [OF assms [unfolded ticked_def]] by simp_all

lemma ticked_lists:
  assumes "ticked W k k'"
  shows "state_list k' t = (if t \<in> W then Some (ReadyL (prio k t)) else state_list k t)"
    "event_list k' t = (if t \<in> W then None else event_list k t)"
    "\<not> is_ready_list l \<Longrightarrow> members k' l = filter (\<lambda>i. owner i \<notin> W) (members k l)"
    "uxTopReadyPriority k \<le> uxTopReadyPriority k'"
    "W = {} \<Longrightarrow> lists k' = lists k"
  using woken_lists [OF assms [unfolded ticked_def]] by simp_all

lemma untime_self [simp]: "untime k k = k"
  by (simp add: untime_def)

lemma untime_untime [simp]: "untime k (untime k1 k2) = untime k k2"
  by (simp add: untime_def)

lemma untime_lists [simp]:
  "untime k (k1\<lparr>lists := L, uxTopReadyPriority := p\<rparr>) = (untime k k1)\<lparr>lists := L, uxTopReadyPriority := p\<rparr>"
  by (simp add: untime_def)

lemma ticked_eq: "ticked W k k1 \<Longrightarrow> untime k k2 = untime k k1 \<Longrightarrow> ticked W k k2"
  by (simp add: ticked_def)

lemma ticked_of_woken: "woken W k k1 \<Longrightarrow> untime k k2 = untime k k1 \<Longrightarrow> ticked W k k2"
proof -
  assume w: "woken W k k1" and u: "untime k k2 = untime k k1"
  from w obtain L p where k1: "k1 = k\<lparr>lists := L, uxTopReadyPriority := p\<rparr>" unfolding woken_def by blast
  then have "untime k k1 = k1" by (simp add: untime_def)
  with w u show "ticked W k k2" by (simp add: ticked_def)
qed

lemma ticked_empty [simp]: "ticked {} k k"
  by (simp add: ticked_def)

lemma ticked_trans:
  assumes a: "ticked W k k1" and b: "ticked V k1 k2" shows "ticked (W \<union> V) k k2"
  unfolding ticked_def
proof (rule woken_trans [OF a [unfolded ticked_def]])
  from b obtain L p where e: "untime k1 k2 = k1\<lparr>lists := L, uxTopReadyPriority := p\<rparr>"
    unfolding ticked_def woken_def by blast
  have u: "untime k k2 = (untime k k1)\<lparr>lists := L, uxTopReadyPriority := p\<rparr>"
    using arg_cong [OF e, of "untime k"] by (simp only: untime_untime untime_lists)
  have L: "lists k2 = L" "uxTopReadyPriority k2 = p"
    using arg_cong [OF e, of lists] arg_cong [OF e, of uxTopReadyPriority] by simp_all
  show "woken V (untime k k1) (untime k k2)"
    using b unfolding woken_def ticked_def u by (simp add: L)
qed

text \<open>What the delayed lists say in a state of the invariant.\<close>

lemma waking_no_wrap:
  assumes inv: "kernel_inv k" and nw: "xTickCount k + 1 \<noteq> 0"
  shows "waking k = {t. state_list k t = Some (pxDelayedTaskList k) \<and> wake_time k t \<le> xTickCount k + 1}"
proof -
  have lt: "xTickCount k < xTickCount k + 1"
    using nw tick_plus_one_zero tick_less_plus_one by blast
  have "wake_time k t = xTickCount k + 1"
    if "state_list k t = Some (pxDelayedTaskList k)" "wake_time k t \<le> xTickCount k + 1" for t
    using kernel_invD(2) [OF inv, of t] that tick_less_imp_plus_one_le [of "xTickCount k"]
    by (auto simp: wake_ok_def intro: antisym)
  moreover have "wake_time k t \<noteq> xTickCount k + 1"
    if "state_list k t = Some (pxOverflowDelayedTaskList k)" for t
    using kernel_invD(2) [OF inv, of t] that lt by (auto simp: wake_ok_def)
  ultimately show ?thesis by (auto simp: waking_def timed_def)
qed

lemma no_delayed_before_wrap:
  assumes inv: "kernel_inv k" and w: "xTickCount k + 1 = 0"
  shows "members k (pxDelayedTaskList k) = []" "state_list k t \<noteq> Some (pxDelayedTaskList k)"
proof -
  have none: "state_list k t \<noteq> Some (pxDelayedTaskList k)" for t
    using kernel_invD(2) [OF inv, of t] w tick_plus_one_zero [of "xTickCount k"]
    by (auto simp: wake_ok_def)
  then show "state_list k t \<noteq> Some (pxDelayedTaskList k)" .
  show "members k (pxDelayedTaskList k) = []"
    using none delayed_head(2) [OF kernel_invD(1) [OF inv]]
    by (cases "members k (pxDelayedTaskList k)") auto
qed

lemma waking_wrap:
  assumes inv: "kernel_inv k" and w: "xTickCount k + 1 = 0"
  shows "waking k = {t. state_list k t = Some (pxOverflowDelayedTaskList k) \<and> wake_time k t \<le> 0}"
  using no_delayed_before_wrap(2) [OF inv w] by (auto simp: waking_def timed_def w)

text \<open>The state in which the loop starts: the tick is counted, the lists are swapped.\<close>

definition tick_start :: "kernel \<Rightarrow> kernel" where
  "tick_start k = (let k = k\<lparr>xTickCount := xTickCount k + 1\<rparr>
     in if xTickCount k = 0
        then prvResetNextTaskUnblockTime
          (k\<lparr>pxDelayedTaskList := pxOverflowDelayedTaskList k,
             pxOverflowDelayedTaskList := pxDelayedTaskList k,
             xNumOfOverflows := xNumOfOverflows k + 1\<rparr>)
        else k)"

lemma reset_next_frame [simp]:
  "lists (prvResetNextTaskUnblockTime k) = lists k" "tcbs (prvResetNextTaskUnblockTime k) = tcbs k"
  "uxTopReadyPriority (prvResetNextTaskUnblockTime k) = uxTopReadyPriority k"
  "uxDeletedTasksWaitingCleanUp (prvResetNextTaskUnblockTime k) = uxDeletedTasksWaitingCleanUp k"
  "uxCurrentNumberOfTasks (prvResetNextTaskUnblockTime k) = uxCurrentNumberOfTasks k"
  "pxDelayedTaskList (prvResetNextTaskUnblockTime k) = pxDelayedTaskList k"
  "pxOverflowDelayedTaskList (prvResetNextTaskUnblockTime k) = pxOverflowDelayedTaskList k"
  "xTickCount (prvResetNextTaskUnblockTime k) = xTickCount k"
  "pxCurrentTCB (prvResetNextTaskUnblockTime k) = pxCurrentTCB k"
  "uxSchedulerSuspended (prvResetNextTaskUnblockTime k) = uxSchedulerSuspended k"
  "xYieldPending (prvResetNextTaskUnblockTime k) = xYieldPending k"
  "xPendedTicks (prvResetNextTaskUnblockTime k) = xPendedTicks k"
  "xNumOfOverflows (prvResetNextTaskUnblockTime k) = xNumOfOverflows k"
  "xIdleTaskHandle (prvResetNextTaskUnblockTime k) = xIdleTaskHandle k"
  "xSchedulerRunning (prvResetNextTaskUnblockTime k) = xSchedulerRunning k"
  "uxTaskNumber (prvResetNextTaskUnblockTime k) = uxTaskNumber k"
  by (simp_all add: prvResetNextTaskUnblockTime_def split: list.splits)

lemma reset_next_core: "kernel_core k \<Longrightarrow> kernel_core (prvResetNextTaskUnblockTime k)"
  by (erule kernel_core_fields) simp_all

lemma reset_next_le:
  assumes core: "kernel_core k" and t: "state_list k t = Some (pxDelayedTaskList k)"
  shows "xNextTaskUnblockTime (prvResetNextTaskUnblockTime k) \<le> wake_time k t"
proof (cases "members k (pxDelayedTaskList k)")
  case Nil
  then show ?thesis using member_iff(1) [OF core, of t "pxDelayedTaskList k"] t by simp
next
  case (Cons i xs)
  then show ?thesis
    using delayed_head [OF core Cons] t by (simp add: prvResetNextTaskUnblockTime_def)
qed

lemma reset_next_ok:
  assumes core: "kernel_core k"
    and later: "\<And>t. state_list k t = Some (pxDelayedTaskList k) \<Longrightarrow> xTickCount k < wake_time k t"
  shows "next_ok (prvResetNextTaskUnblockTime k)"
proof (cases "members k (pxDelayedTaskList k)")
  case Nil
  then show ?thesis by (simp add: next_ok_def prvResetNextTaskUnblockTime_def)
next
  case (Cons i xs)
  from delayed_head(1,2) [OF core Cons] later [of "owner i"] have "xTickCount k < item_value (lists k) i" by simp
  then show ?thesis by (simp add: next_ok_def prvResetNextTaskUnblockTime_def Cons)
qed

lemma tick_start_core: "kernel_core k \<Longrightarrow> kernel_core (tick_start k)"
  unfolding tick_start_def Let_def
  by (auto intro!: reset_next_core elim!: kernel_core_fields)

lemma tick_start_fields [simp]:
  "lists (tick_start k) = lists k" "tcbs (tick_start k) = tcbs k" "pxCurrentTCB (tick_start k) = pxCurrentTCB k"
  "uxTopReadyPriority (tick_start k) = uxTopReadyPriority k" "xTickCount (tick_start k) = xTickCount k + 1"
  "uxSchedulerSuspended (tick_start k) = uxSchedulerSuspended k" "xYieldPending (tick_start k) = xYieldPending k"
  "xPendedTicks (tick_start k) = xPendedTicks k"
  by (simp_all add: tick_start_def Let_def)

lemma untime_tick_start: "untime k (tick_start k) = k"
  by (auto simp: untime_def tick_start_def Let_def prvResetNextTaskUnblockTime_def split: list.split)

lemma due_tick_start:
  assumes "kernel_inv k" shows "due_tasks (tick_start k) = waking k"
proof (cases "xTickCount k + 1 = 0")
  case True
  then show ?thesis unfolding due_tasks_def waking_wrap [OF assms True]
    by (simp add: tick_start_def Let_def)
next
  case False
  then show ?thesis unfolding due_tasks_def waking_no_wrap [OF assms False]
    by (simp add: tick_start_def Let_def)
qed

lemma ticked_tick_start:
  assumes w: "woken W (tick_start k) k1" shows "ticked W k (prvResetNextTaskUnblockTime k1)"
    "ticked W k k1"
proof -
  from w obtain L p where k1: "k1 = (tick_start k)\<lparr>lists := L, uxTopReadyPriority := p\<rparr>"
    unfolding woken_def by blast
  have "untime k k1 = (untime k (tick_start k))\<lparr>lists := L, uxTopReadyPriority := p\<rparr>"
    by (simp add: untime_def k1)
  then have u: "untime k k1 = k\<lparr>lists := L, uxTopReadyPriority := p\<rparr>"
    unfolding untime_tick_start .
  have "woken W k (untime k k1)"
    using w unfolding woken_def u by (simp add: k1)
  then show k1': "ticked W k k1" by (simp add: ticked_def)
  have "untime k (prvResetNextTaskUnblockTime k1) = untime k k1"
    by (simp add: untime_def prvResetNextTaskUnblockTime_def split: list.split)
  with k1' show "ticked W k (prvResetNextTaskUnblockTime k1)" by (simp add: ticked_def)
qed

lemma next_tick_start:
  assumes inv: "kernel_inv k" and t: "state_list k t = Some (pxDelayedTaskList (tick_start k))"
  shows "xNextTaskUnblockTime (tick_start k) \<le> wake_time k t"
proof (cases "xTickCount k + 1 = 0")
  case True
  define ka where "ka = k\<lparr>xTickCount := 0, pxDelayedTaskList := pxOverflowDelayedTaskList k,
    pxOverflowDelayedTaskList := pxDelayedTaskList k, xNumOfOverflows := xNumOfOverflows k + 1\<rparr>"
  have ts: "tick_start k = prvResetNextTaskUnblockTime ka"
    using True by (simp add: tick_start_def ka_def)
  have "kernel_core ka"
    using kernel_invD(1) [OF inv] by (rule kernel_core_fields) (simp_all add: ka_def)
  then have "xNextTaskUnblockTime (prvResetNextTaskUnblockTime ka) \<le> wake_time ka t"
    by (rule reset_next_le) (use t in \<open>simp add: ts, simp add: ka_def\<close>)
  then show ?thesis unfolding ts by (simp add: ka_def)
next
  case False
  then show ?thesis using t kernel_invD(2) [OF inv, of t] by (simp add: tick_start_def wake_ok_def)
qed

lemma wake_ok_tick_start:
  assumes inv: "kernel_inv k" and t: "t \<notin> waking k"
  shows "wake_ok (tick_start k) t"
proof (cases "xTickCount k + 1 = 0")
  case True
  have "wake_time k t \<noteq> 0" if "state_list k t = Some (pxOverflowDelayedTaskList k)"
    using that t True by (auto simp: waking_def timed_def)
  then show ?thesis
    using True no_delayed_before_wrap(2) [OF inv True, of t] next_tick_start [OF inv, of t]
    by (auto simp: wake_ok_def tick_start_def word_gt_0)
next
  case False
  have lt: "xTickCount k < xTickCount k + 1"
    using False tick_plus_one_zero tick_less_plus_one by blast
  have "xTickCount k + 1 < wake_time k t" if "state_list k t = Some (pxDelayedTaskList k)"
  proof -
    have "xTickCount k < wake_time k t" using kernel_invD(2) [OF inv, of t] that by (simp add: wake_ok_def)
    then have "xTickCount k + 1 \<le> wake_time k t" by (rule tick_less_imp_plus_one_le)
    moreover have "wake_time k t \<noteq> xTickCount k + 1" using t that by (auto simp: waking_def timed_def)
    ultimately show ?thesis by simp
  qed
  then show ?thesis
    using False kernel_invD(2) [OF inv, of t] less_trans [OF _ lt]
    by (simp add: wake_ok_def tick_start_def)
qed

text \<open>The time since the start of the system, without wrap-around.\<close>

definition abs_time :: "kernel \<Rightarrow> int" where
  "abs_time k = xNumOfOverflows k * 2 ^ 32 + uint (xTickCount k)"

lemma abs_time_cong:
  "xNumOfOverflows k' = xNumOfOverflows k \<Longrightarrow> xTickCount k' = xTickCount k \<Longrightarrow> abs_time k' = abs_time k"
  by (simp add: abs_time_def)

lemma abs_time_tick_start: "abs_time (tick_start k) = abs_time k + 1"
proof (cases "xTickCount k + 1 = 0")
  case True
  then have "xTickCount k = portMAX_DELAY" by (simp add: tick_plus_one_zero)
  then have "unat (xTickCount k) = 2 ^ 32 - 1" using unat_portMAX_DELAY by simp
  then have "uint (xTickCount k) = 2 ^ 32 - 1" by (rule unat_tick_eq)
  with True show ?thesis by (simp add: abs_time_def tick_start_def)
next
  case False
  then have "unat (xTickCount k + 1) = Suc (unat (xTickCount k))"
    using tick_plus_one_zero unat_tick_plus_one by blast
  then have "uint (xTickCount k + 1) = uint (xTickCount k) + 1"
    using uint_eq_int_unat [of "xTickCount k + 1"] uint_eq_int_unat [of "xTickCount k"] by linarith
  with False show ?thesis by (simp add: abs_time_def tick_start_def)
qed

definition same_lock :: "kernel \<Rightarrow> kernel \<Rightarrow> bool" where
  "same_lock k k' \<longleftrightarrow> uxSchedulerSuspended k' = uxSchedulerSuspended k \<and>
     xYieldPending k' = xYieldPending k \<and> xPendedTicks k' = xPendedTicks k"

text \<open>The body of \<open>xTaskIncrementTick\<close> up to the time-slicing tests, in one rule.\<close>

lemma tick_body:
  assumes inv: "kernel_inv k" and cur: "pxCurrentTCB k = Some c"
    and post: "\<And>k'. \<lbrakk>kernel_core k'; \<And>t. wake_ok k' t; ticked (waking k) k k'; xTickCount k' = xTickCount k + 1;
        same_lock k k'; abs_time k' = abs_time k + 1; next_ok k'\<rbrakk> \<Longrightarrow> Q (k', \<exists>t \<in> waking k. prio k c < prio k t)"
  shows "ensures (if xTickCount (tick_start k) \<ge> xNextTaskUnblockTime (tick_start k)
    then tick_loop False (tick_start k) else Some (tick_start k, False)) Q"
proof -
  let ?k = "tick_start k"
  have core: "kernel_core ?k" using inv by (simp add: kernel_invD tick_start_core)
  note due = due_tick_start [OF inv]
  show ?thesis
  proof (cases "xTickCount ?k \<ge> xNextTaskUnblockTime ?k")
    case True
    have "ensures (tick_loop False ?k) Q"
    proof (rule tick_loop_ensures [OF core])
      show "pxCurrentTCB ?k = Some c" using cur by simp
      fix k1 assume core1: "kernel_core k1" and w: "woken (due_tasks ?k) ?k k1"
        and later: "\<And>t. state_list k1 t = Some (pxDelayedTaskList k1) \<Longrightarrow> xTickCount k1 < wake_time k1 t"
      let ?k' = "prvResetNextTaskUnblockTime k1"
      note f = woken_frame [OF w] and l = woken_lists [OF w, unfolded due]
      have "wake_ok ?k' t" for t
      proof -
        have "wake_time k1 t < xTickCount k1"
          if s: "state_list k1 t = Some (pxOverflowDelayedTaskList k1)"
        proof -
          have n: "t \<notin> waking k" and "state_list k t = Some (pxOverflowDelayedTaskList ?k)"
            using s l(1) [of t] core by (auto simp: f(4) split: if_splits)
          with wake_ok_tick_start [OF inv n] show ?thesis by (simp add: wake_ok_def f)
        qed
        then show ?thesis
          using later reset_next_le [OF core1, of t] by (simp add: wake_ok_def)
      qed
      moreover have "ticked (waking k) k ?k'" using ticked_tick_start(1) w due by simp
      moreover have "next_ok ?k'" using reset_next_ok [OF core1 later] .
      moreover have "abs_time ?k' = abs_time k + 1"
        unfolding abs_time_tick_start [symmetric] by (rule abs_time_cong) (simp_all add: f)
      ultimately have "Q (?k', \<exists>t \<in> waking k. prio k c < prio k t)"
        using post [of ?k'] reset_next_core [OF core1] f by (simp add: same_lock_def)
      then show "Q (?k', False \<or> (\<exists>t \<in> due_tasks ?k. prio ?k c < prio ?k t))"
        by (simp add: due)
    qed
    with True show ?thesis by simp
  next
    case False
    have none: "waking k = {}"
    proof -
      have "t \<notin> due_tasks ?k" for t
        using next_tick_start [OF inv, of t] False by (auto simp: due_tasks_def)
      then show ?thesis using due by blast
    qed
    have "ticked (waking k) k ?k" using ticked_tick_start(2) [OF woken_empty] none by simp
    with False show ?thesis
      using post [of ?k] core wake_ok_tick_start [OF inv] none
      by (simp add: same_lock_def abs_time_tick_start next_ok_def)
  qed
qed

lemma pending_ok_ticked:
  assumes "pending_ok k" and "ticked W k k'" and "uxSchedulerSuspended k' = uxSchedulerSuspended k"
  shows "pending_ok k'"
  using assms(1,3) ticked_lists(3) [OF assms(2), of PendingReadyL]
  by (auto simp: pending_ok_def)

text \<open>
  The theorem on the tick handler: with the scheduler running, no assertion fails and the
  loop ends; exactly the tasks whose wake-up time is the new tick count become ready.
\<close>

lemma xTaskIncrementTick_ensures:
  assumes inv: "kernel_inv k" and cur: "pxCurrentTCB k = Some c" and run: "uxSchedulerSuspended k = 0"
    and post: "\<And>k'. \<lbrakk>kernel_inv k'; ticked (waking k) k k'; xTickCount k' = xTickCount k + 1; same_lock k k';
        abs_time k' = abs_time k + 1\<rbrakk>
      \<Longrightarrow> Q (k', (\<exists>t \<in> waking k. prio k c < prio k t) \<or>
              1 < length (members k' (ReadyL (prio k c))) \<or> xYieldPending k)"
  shows "ensures (xTaskIncrementTick k) Q"
proof -
  let ?k1 = "k\<lparr>xTickCount := xTickCount k + 1\<rparr>"
  have start: "(if xTickCount ?k1 = 0 then taskSWITCH_DELAYED_LISTS ?k1 else Some ?k1) = Some (tick_start k)"
    using no_delayed_before_wrap(1) [OF inv]
    by (simp add: taskSWITCH_DELAYED_LISTS_def tick_start_def Let_def)
  have body: "ensures (if xTickCount (tick_start k) \<ge> xNextTaskUnblockTime (tick_start k)
      then tick_loop False (tick_start k) else Some (tick_start k, False))
    (\<lambda>(k', sw). kernel_inv k' \<and> ticked (waking k) k k' \<and> xTickCount k' = xTickCount k + 1 \<and> same_lock k k' \<and>
       abs_time k' = abs_time k + 1 \<and> sw = (\<exists>t \<in> waking k. prio k c < prio k t))"
    using inv cur
  proof (rule tick_body)
    fix k' assume k': "kernel_core k'" "\<And>t. wake_ok k' t" "ticked (waking k) k k'" "xTickCount k' = xTickCount k + 1"
      and lock: "same_lock k k'" and abs: "abs_time k' = abs_time k + 1" and nok: "next_ok k'"
    have "pending_ok k'"
      using kernel_invD(3) [OF inv] k'(3) lock [unfolded same_lock_def] pending_ok_ticked by blast
    with k' lock abs nok show "case (k', \<exists>t \<in> waking k. prio k c < prio k t) of (k', sw) \<Rightarrow>
        kernel_inv k' \<and> ticked (waking k) k k' \<and> xTickCount k' = xTickCount k + 1 \<and> same_lock k k' \<and>
        abs_time k' = abs_time k + 1 \<and> sw = (\<exists>t \<in> waking k. prio k c < prio k t)"
      unfolding kernel_inv_def by auto
  qed
  show ?thesis
    unfolding xTaskIncrementTick_def Let_def start if_P [OF run] Option.bind.bind_lunit ensures_bind [of "if _ then tick_loop _ _ else _"]
  proof (rule ensures_mono [OF body])
    fix r assume "case r of (k', sw) \<Rightarrow> kernel_inv k' \<and> ticked (waking k) k k' \<and>
      xTickCount k' = xTickCount k + 1 \<and> same_lock k k' \<and> abs_time k' = abs_time k + 1 \<and>
      sw = (\<exists>t \<in> waking k. prio k c < prio k t)"
    then obtain k' where r: "r = (k', \<exists>t \<in> waking k. prio k c < prio k t)" and k': "kernel_inv k'"
      "ticked (waking k) k k'" "xTickCount k' = xTickCount k + 1" "same_lock k k'"
      "abs_time k' = abs_time k + 1" by auto
    show "ensures (case r of (k, sw) \<Rightarrow> do { c \<leftarrow> pxCurrentTCB k;
        Some (k, (sw \<or> 1 < length (members k (ReadyL (prio k c)))) \<or> xYieldPending k) }) Q"
      using post [OF k'] k'(4) ticked_frame [OF k'(2)] cur by (simp add: r same_lock_def)
  qed
qed

section \<open>Many ticks\<close>

fun ticks :: "nat \<Rightarrow> kernel \<Rightarrow> kernel option" where
  "ticks 0 k = Some k"
| "ticks (Suc n) k = do { (k, _) \<leftarrow> xTaskIncrementTick k; ticks n k }"

text \<open>The number of ticks until a task that waits for a time is woken, whichever list it is in.\<close>

definition ticks_left :: "kernel \<Rightarrow> task \<Rightarrow> nat" where
  "ticks_left k t = unat (wake_time k t - xTickCount k)"

lemma ticks_left_pos:
  assumes inv: "kernel_inv k" and t: "timed k t" shows "0 < ticks_left k t"
proof -
  have "wake_time k t \<noteq> xTickCount k"
    using kernel_invD(2) [OF inv, of t] t by (auto simp: timed_def wake_ok_def)
  then show ?thesis by (simp add: ticks_left_def unat_gt_0)
qed

lemma ticks_left_step:
  assumes "0 < unat (w - (tk :: tick))" shows "unat (w - tk) = Suc (unat (w - (tk + 1)))"
proof -
  have "w - tk \<noteq> 0" using assms by auto
  then have "unat (w - tk - 1) = unat (w - tk) - 1" by (rule unat_minus_one)
  moreover have "w - tk - 1 = w - (tk + 1)" by simp
  ultimately show ?thesis using assms by simp
qed

lemma waking_iff:
  assumes "kernel_inv k" shows "t \<in> waking k \<longleftrightarrow> timed k t \<and> ticks_left k t = 1"
proof -
  have "wake_time k t = xTickCount k + 1 \<longleftrightarrow> unat (wake_time k t - xTickCount k) = 1"
    by (metis add.commute diff_eq_eq unat_1 unsigned_word_eqI)
  then show ?thesis by (simp add: waking_def ticks_left_def)
qed

definition waking_by :: "nat \<Rightarrow> kernel \<Rightarrow> task set" where
  "waking_by n k = {t. timed k t \<and> ticks_left k t \<le> n}"

lemma timed_ticked:
  assumes "kernel_core k" "kernel_core k'" and w: "ticked W k k'"
  shows "timed k' t \<longleftrightarrow> timed k t \<and> t \<notin> W"
  using ticked_lists(1) [OF w] by (simp add: timed_iff assms)

lemma waking_by_Suc:
  assumes inv: "kernel_inv k" "kernel_inv k'" and w: "ticked (waking k) k k'"
    and tick: "xTickCount k' = xTickCount k + 1"
  shows "waking_by (Suc n) k = waking k \<union> waking_by n k'"
proof (rule set_eqI)
  fix t
  have tm: "timed k' t \<longleftrightarrow> timed k t \<and> t \<notin> waking k"
    using timed_ticked [OF kernel_invD(1) [OF inv(1)] kernel_invD(1) [OF inv(2)] w] .
  have "ticks_left k t = Suc (ticks_left k' t)" if "timed k t"
    using ticks_left_pos [OF inv(1) that] ticks_left_step ticked_frame(3) [OF w]
    by (simp add: ticks_left_def tick)
  then show "t \<in> waking_by (Suc n) k \<longleftrightarrow> t \<in> waking k \<union> waking_by n k'"
    using tm waking_iff [OF inv(1), of t] by (auto simp: waking_by_def)
qed

lemma waking_by_0: "kernel_inv k \<Longrightarrow> waking_by 0 k = {}"
  using ticks_left_pos by (force simp: waking_by_def)

lemma ticks_ensures:
  assumes "kernel_inv k" and "pxCurrentTCB k = Some c" and "uxSchedulerSuspended k = 0"
    and "\<And>k'. \<lbrakk>kernel_inv k'; ticked (waking_by n k) k k'; same_lock k k';
      xTickCount k' = xTickCount k + of_nat n; abs_time k' = abs_time k + int n\<rbrakk> \<Longrightarrow> Q k'"
  shows "ensures (ticks n k) Q"
  using assms
proof (induction n arbitrary: k)
  case 0
  have "Q k"
    by (rule 0(4) [OF 0(1)]) (simp_all add: waking_by_0 [OF 0(1)] same_lock_def)
  then show ?case by simp
next
  case (Suc n)
  show ?case
    unfolding ticks.simps ensures_bind
  proof (rule xTaskIncrementTick_ensures [OF Suc.prems(1-3)], unfold prod.case)
    fix k1 assume k1: "kernel_inv k1" "ticked (waking k) k k1" "xTickCount k1 = xTickCount k + 1"
      "same_lock k k1" "abs_time k1 = abs_time k + 1"
    show "ensures (ticks n k1) Q"
    proof (rule Suc.IH [OF k1(1)])
      show "pxCurrentTCB k1 = Some c" "uxSchedulerSuspended k1 = 0"
        using ticked_frame(2) [OF k1(2)] k1(4) Suc.prems(2,3) by (simp_all add: same_lock_def)
      fix k2 assume k2: "kernel_inv k2" "ticked (waking_by n k1) k1 k2" "same_lock k1 k2"
        "xTickCount k2 = xTickCount k1 + of_nat n" "abs_time k2 = abs_time k1 + int n"
      have "ticked (waking_by (Suc n) k) k k2"
        using ticked_trans [OF k1(2) k2(2)] waking_by_Suc [OF Suc.prems(1) k1(1-3)] by simp
      then show "Q k2"
        using Suc.prems(4) [OF k2(1)] k2(3-5) k1(3-5) by (simp add: same_lock_def add.assoc)
    qed
  qed
qed

section \<open>The context switch\<close>

definition ready :: "kernel \<Rightarrow> task \<Rightarrow> bool" where
  "ready k t \<longleftrightarrow> state_list k t = Some (ReadyL (prio k t))"

lemma ready_iff: "kernel_core k \<Longrightarrow> ready k t \<longleftrightarrow> (\<exists>p. state_list k t = Some (ReadyL p))"
  using kernel_core_task [of k t] by (auto simp: ready_def task_ok_def)

lemma ready_top: "kernel_core k \<Longrightarrow> ready k t \<Longrightarrow> prio k t \<le> uxTopReadyPriority k"
  using kernel_core_task [of k t] by (auto simp: ready_def task_ok_def)

lemma select_top_Some:
  "select_top L n = Some p \<longleftrightarrow> p \<le> n \<and> items L (ReadyL p) \<noteq> [] \<and> (\<forall>q. p < q \<and> q \<le> n \<longrightarrow> items L (ReadyL q) = [])"
proof (induction n)
  case 0
  then show ?case by (auto intro: gr0I)
next
  case (Suc n)
  then show ?case by (auto simp: le_Suc_eq)
qed

lemma select_top_exists:
  "p \<le> n \<Longrightarrow> items L (ReadyL p) \<noteq> [] \<Longrightarrow> \<exists>q. select_top L n = Some q"
  by (induction n) (auto simp: le_Suc_eq)

text \<open>
  The effect of a switch: the cursor of one ready list has moved to the chosen task, which
  is ready and of the highest priority of all ready tasks; and it was the first in the order
  in which that list is served.
\<close>

definition chosen :: "kernel \<Rightarrow> task \<Rightarrow> bool" where
  "chosen k t \<longleftrightarrow> ready k t \<and> (\<forall>t'. ready k t' \<longrightarrow> prio k t' \<le> prio k t) \<and>
     (let l = ReadyL (prio k t) in StateI t = hd (visit_order (cursor (lists k) l) (members k l)))"

definition switched :: "task \<Rightarrow> kernel \<Rightarrow> kernel \<Rightarrow> bool" where
  "switched t k k' \<longleftrightarrow> k' = k\<lparr>lists := (lists k)\<lparr>cursor := (cursor (lists k))(ReadyL (prio k t) := Some (StateI t))\<rparr>,
     pxCurrentTCB := Some t, uxTopReadyPriority := prio k t, xYieldPending := False\<rparr>"

lemma switched_core:
  assumes core: "kernel_core k" and t: "chosen k t" and s: "switched t k k'"
  shows "kernel_core k'"
proof -
  have mem: "StateI t \<in> set (members k (ReadyL (prio k t)))"
    using member_iff(1) [OF core] t by (simp add: chosen_def ready_def)
  have "lists_wf ((lists k)\<lparr>cursor := (cursor (lists k))(ReadyL (prio k t) := Some (StateI t))\<rparr>)"
    using lists_inv_wf [OF kernel_core_lists [OF core]] mem by (auto simp: lists_wf_def)
  then have li: "lists_inv (lists k')" using core s by (simp add: kernel_core_def lists_inv_def switched_def)
  have top: "p \<le> prio k t" if "state_list k t' = Some (ReadyL p)" for t' p
  proof -
    have "ready k t'" using that ready_iff [OF core] by blast
    then show ?thesis using t that by (auto simp: chosen_def ready_def)
  qed
  have "live_tasks k' = live_tasks k" "dead_tasks k' = dead_tasks k"
    using s by (simp_all add: live_tasks_def dead_tasks_def switched_def)
  moreover have "task_ok k' t'" for t'
    using kernel_core_task [OF core, of t'] s top [of t'] by (simp add: task_ok_def switched_def)
  moreover have "uxTopReadyPriority k' < configMAX_PRIORITIES"
    using s kernel_core_task [OF core, of t] by (simp add: task_ok_def switched_def)
  ultimately show ?thesis using core li s by (simp add: kernel_core_def switched_def)
qed

lemma switched_inv:
  assumes inv: "kernel_inv k" and t: "chosen k t" and s: "switched t k k'"
  shows "kernel_inv k'"
proof -
  have "wake_ok k' t'" for t'
    using kernel_invD(2) [OF inv, of t'] s by (simp add: wake_ok_def switched_def)
  moreover have "pending_ok k'" using kernel_invD(3) [OF inv] s by (simp add: pending_ok_def switched_def)
  moreover have "next_ok k'" using kernel_invD(4) [OF inv] s by (simp add: next_ok_def switched_def)
  ultimately show ?thesis
    using switched_core [OF kernel_invD(1) [OF inv] t s] by (simp add: kernel_inv_def)
qed

lemma vTaskSwitchContext_ensures:
  assumes core: "kernel_core k" and run: "uxSchedulerSuspended k = 0" and some: "ready k r"
    and post: "\<And>k' t. \<lbrakk>chosen k t; switched t k k'\<rbrakk> \<Longrightarrow> Q k'"
  shows "ensures (vTaskSwitchContext k) Q"
proof -
  let ?L = "lists k"
  have wf: "lists_wf ?L" using lists_inv_wf [OF kernel_core_lists [OF core]] .
  have "members k (ReadyL (prio k r)) \<noteq> []"
    using member_iff(1) [OF core, of r "ReadyL (prio k r)"] some by (auto simp: ready_def)
  then obtain p where p: "select_top ?L (uxTopReadyPriority k) = Some p"
    using select_top_exists ready_top [OF core some] by blast
  note ne = p [unfolded select_top_Some]
  obtain L' i where nx: "list_next_entry (ReadyL p) ?L = Some (L', i)"
    and L': "L' = ?L\<lparr>cursor := (cursor ?L)(ReadyL p := Some i)\<rparr>"
  proof -
    from ne obtain x xs where xs: "members k (ReadyL p) = x # xs" by (cases "members k (ReadyL p)") auto
    show ?thesis by (rule that) (simp_all add: list_next_entry_def xs Let_def)
  qed
  have i: "i = hd (visit_order (cursor ?L (ReadyL p)) (members k (ReadyL p)))"
    using list_next_entry_visit(1) [OF wf nx] by (metis list.sel(1))
  have "i \<in> set (members k (ReadyL p))"
  proof -
    have "visit_order (cursor ?L (ReadyL p)) (members k (ReadyL p)) \<noteq> []"
      using list_next_entry_visit(1) [OF wf nx] by (metis list.distinct(1))
    then have "i \<in> set (visit_order (cursor ?L (ReadyL p)) (members k (ReadyL p)))"
      using i hd_in_set by metis
    then show ?thesis
      using set_visit_order(1) [of "cursor ?L (ReadyL p)" "members k (ReadyL p)"]
        lists_wf_cursor [OF wf] lists_wf_distinct [OF wf] by blast
  qed
  from state_member [OF core this]
  have o: "i = StateI (owner i)" "state_list k (owner i) = Some (ReadyL p)"
    unfolding is_event_list.simps by blast+
  have pr: "prio k (owner i) = p" using kernel_core_task [OF core, of "owner i"] o(2) by (simp add: task_ok_def)
  have "prio k t' \<le> p" if "ready k t'" for t'
  proof (rule ccontr)
    assume "\<not> prio k t' \<le> p"
    then have "members k (ReadyL (prio k t')) = []" using ne ready_top [OF core that] by simp
    then show False using member_iff(1) [OF core, of t' "ReadyL (prio k t')"] that by (simp add: ready_def)
  qed
  then have c: "chosen k (owner i)" using o i pr by (simp add: chosen_def ready_def)
  let ?k' = "k\<lparr>lists := L', pxCurrentTCB := Some (owner i), uxTopReadyPriority := p, xYieldPending := False\<rparr>"
  have "switched (owner i) k ?k'" using o(1) pr by (simp add: switched_def L')
  from post [OF c this] have "Q ?k'" .
  moreover have "vTaskSwitchContext k = Some ?k'"
    using run p nx by (simp add: vTaskSwitchContext_def taskSELECT_HIGHEST_PRIORITY_TASK_def)
  ultimately show ?thesis by simp
qed

section \<open>Resuming the scheduler\<close>

lemma kernel_core_simple [simp]:
  "kernel_core (k\<lparr>xYieldPending := b\<rparr>) = kernel_core k"
  "kernel_core (k\<lparr>uxSchedulerSuspended := n\<rparr>) = kernel_core k"
  "kernel_core (k\<lparr>xPendedTicks := n'\<rparr>) = kernel_core k"
  "kernel_core (k\<lparr>pxCurrentTCB := c\<rparr>) = kernel_core k"
  by (rule iffI; erule kernel_core_fields; simp)+

lemma wake_ok_simple [simp]:
  "wake_ok (k\<lparr>xYieldPending := b\<rparr>) t = wake_ok k t"
  "wake_ok (k\<lparr>uxSchedulerSuspended := n\<rparr>) t = wake_ok k t"
  "wake_ok (k\<lparr>xPendedTicks := n'\<rparr>) t = wake_ok k t"
  "wake_ok (k\<lparr>pxCurrentTCB := c\<rparr>) t = wake_ok k t"
  by (simp_all add: wake_ok_def)

lemma pending_ok_simple [simp]:
  "pending_ok (k\<lparr>xYieldPending := b\<rparr>) = pending_ok k"
  "pending_ok (k\<lparr>xPendedTicks := n'\<rparr>) = pending_ok k"
  "pending_ok (k\<lparr>pxCurrentTCB := c\<rparr>) = pending_ok k"
  by (simp_all add: pending_ok_def)

lemma next_ok_simple [simp]:
  "next_ok (k\<lparr>xYieldPending := b\<rparr>) = next_ok k"
  "next_ok (k\<lparr>uxSchedulerSuspended := n\<rparr>) = next_ok k"
  "next_ok (k\<lparr>xPendedTicks := n'\<rparr>) = next_ok k"
  "next_ok (k\<lparr>pxCurrentTCB := c\<rparr>) = next_ok k"
  by (simp_all add: next_ok_def)

lemma kernel_inv_simple [simp]:
  "kernel_inv (k\<lparr>xYieldPending := b\<rparr>) = kernel_inv k"
  "kernel_inv (k\<lparr>xPendedTicks := n'\<rparr>) = kernel_inv k"
  "kernel_inv (k\<lparr>pxCurrentTCB := c\<rparr>) = kernel_inv k"
  by (simp_all add: kernel_inv_def)

lemma untime_simple [simp]:
  "untime k (k'\<lparr>xYieldPending := b\<rparr>) = untime k k'"
  "untime k (k'\<lparr>uxSchedulerSuspended := n\<rparr>) = untime k k'"
  "untime k (k'\<lparr>xPendedTicks := n'\<rparr>) = untime k k'"
  "untime k (k'\<lparr>xNextTaskUnblockTime := w\<rparr>) = untime k k'"
  "untime k (prvResetNextTaskUnblockTime k') = untime k k'"
  by (simp_all add: untime_def prvResetNextTaskUnblockTime_def split: list.split)

lemma ticked_simple [simp]:
  "ticked W k (k'\<lparr>xYieldPending := b\<rparr>) = ticked W k k'"
  "ticked W k (k'\<lparr>uxSchedulerSuspended := n\<rparr>) = ticked W k k'"
  "ticked W k (k'\<lparr>xPendedTicks := n'\<rparr>) = ticked W k k'"
  "ticked W k (k'\<lparr>xNextTaskUnblockTime := w\<rparr>) = ticked W k k'"
  "ticked W k (prvResetNextTaskUnblockTime k') = ticked W k k'"
  by (simp_all add: ticked_def)

definition pending_tasks :: "kernel \<Rightarrow> task set" where
  "pending_tasks k = {t. event_list k t = Some PendingReadyL}"

lemma event_unblock_ensures:
  assumes core: "kernel_core k" and ev: "event_list k t = Some l"
    and post: "\<And>k'. kernel_core k' \<Longrightarrow> woken {t} k k' \<Longrightarrow> ensures (f k') Q"
  shows "ensures (do {
      k1 \<leftarrow> k_list_remove (EventI t) k;
      k2 \<leftarrow> k_list_remove (StateI t) k1;
      let k3 = prvAddTaskToReadyList t k2;
      f k3 }) Q"
  unfolding ensures_bind
proof (rule k_list_remove_ensures [OF kernel_core_lists [OF core]])
  have st: "state_list k t \<noteq> None" and live: "state_list k t \<noteq> Some TerminationL"
    using kernel_core_task [OF core, of t] ev by (simp_all add: task_ok_def)
  show "event_list k t \<noteq> None" using ev by simp
  fix L1 assume L1: "lists_inv L1" "container L1 = (container (lists k))(EventI t := None)"
    "item_value L1 = item_value (lists k)" "\<And>l. items L1 l = remove1 (EventI t) (members k l)"
  let ?k1 = "k\<lparr>lists := L1\<rparr>"
  show "ensures (k_list_remove (StateI t) ?k1) (\<lambda>k2. ensures (let k3 = prvAddTaskToReadyList t k2 in f k3) Q)"
  proof (rule k_list_remove_ensures)
    fix L2 assume L2: "lists_inv L2" "container L2 = (container (lists ?k1))(StateI t := None)"
      "item_value L2 = item_value (lists ?k1)" "\<And>l. items L2 l = remove1 (StateI t) (members ?k1 l)"
    have L2': "container L2 = (container (lists k))(StateI t := None, EventI t := None)"
      "item_value L2 = item_value (lists k)"
      "\<And>l. items L2 l = remove1 (EventI t) (remove1 (StateI t) (members k l))"
      using L1 L2 by (simp_all add: fun_upd_twist remove1_commute)
    have "ensures (f (prvAddTaskToReadyList t (k\<lparr>lists := L2\<rparr>))) Q"
      by (rule post [OF make_ready_core [OF core st live L2(1) L2'(1,2)] make_ready_woken [OF core L2']])
    then show "ensures (let k3 = prvAddTaskToReadyList t (?k1\<lparr>lists := L2\<rparr>) in f k3) Q" by simp
  qed (use L1 st in simp_all)
qed

lemma pending_tasks_woken:
  assumes w: "woken {t} k k'" and t: "t \<in> pending_tasks k"
  shows "pending_tasks k = insert t (pending_tasks k')"
  using t woken_lists(2) [OF w] by (auto simp: pending_tasks_def split: if_splits)

lemma pending_tasks_empty:
  assumes core: "kernel_core k"
  shows "pending_tasks k = {} \<longleftrightarrow> members k PendingReadyL = []"
proof -
  have "t \<in> pending_tasks k \<longleftrightarrow> EventI t \<in> set (members k PendingReadyL)" for t
    using member_iff(2) [OF core, of t PendingReadyL] by (simp add: pending_tasks_def)
  moreover have "i = EventI (owner i)" if "i \<in> set (members k PendingReadyL)" for i
    using event_member [OF core that] by simp
  ultimately show ?thesis
    by (metis ex_in_conv list.set_intros(1) neq_Nil_conv set_empty)
qed

lemma pending_loop_ensures:
  assumes core: "kernel_core k" and cur: "pxCurrentTCB k = Some c"
    and post: "\<And>k1 y. \<lbrakk>kernel_core k1; woken (pending_tasks k) k k1; members k1 PendingReadyL = [];
        y = (xYieldPending k \<or> (\<exists>t \<in> pending_tasks k. prio k c < prio k t))\<rbrakk>
        \<Longrightarrow> Q (k1\<lparr>xYieldPending := y\<rparr>, moved \<or> pending_tasks k \<noteq> {})"
  shows "ensures (pending_loop moved k) Q"
  using assms
proof (induction "members k PendingReadyL" arbitrary: k moved)
  case Nil
  then have none: "pending_tasks k = {}" by (simp add: pending_tasks_empty)
  have "Q (k\<lparr>xYieldPending := xYieldPending k\<rparr>, moved)"
    using Nil.prems(1) Nil.prems(3) [of k "xYieldPending k"] Nil.hyps none by simp
  then show ?case by (subst pending_loop.simps) (simp add: Nil.hyps [symmetric])
next
  case (Cons i xs)
  note xs = Cons.hyps(2) [symmetric]
  define t where "t = owner i"
  have "i \<in> set (members k PendingReadyL)" using xs by simp
  from event_member [OF Cons.prems(1) this]
  have i: "i = EventI t" "event_list k t = Some PendingReadyL"
    unfolding t_def is_event_list.simps by blast+
  show ?case
  proof (subst pending_loop.simps, unfold xs list.case t_def [symmetric],
      rule event_unblock_ensures [OF Cons.prems(1) i(2)])
    fix k3 assume core3: "kernel_core k3" and w: "woken {t} k k3"
    note f = woken_frame [OF w]
    have "t \<in> pending_tasks k" using i(2) by (simp add: pending_tasks_def)
    note pt = pending_tasks_woken [OF w this]
    have d: "EventI t \<notin> set xs"
      using lists_wf_distinct [OF lists_inv_wf [OF kernel_core_lists [OF Cons.prems(1)]], of PendingReadyL]
        xs i(1) by simp
    have "i' = EventI (owner i')" if "i' \<in> set xs" for i'
      using event_member [OF Cons.prems(1), of i' PendingReadyL] that xs by simp
    with d have "owner i' \<noteq> t" if "i' \<in> set xs" for i' using that by metis
    then have mem3: "members k3 PendingReadyL = xs"
      using woken_lists(3) [OF w, of PendingReadyL] xs by (simp add: filter_id_conv t_def)
    let ?k4 = "if prio k3 c < prio k3 t then k3\<lparr>xYieldPending := True\<rparr> else k3"
    have k4: "kernel_core ?k4" "members ?k4 PendingReadyL = xs" "pxCurrentTCB ?k4 = Some c"
      "pending_tasks ?k4 = pending_tasks k3" "xYieldPending ?k4 = (xYieldPending k \<or> prio k c < prio k t)"
      "tcbs ?k4 = tcbs k"
      using core3 mem3 f Cons.prems(2) by (auto simp: pending_tasks_def)
    have "ensures (pending_loop True ?k4) Q"
    proof (rule Cons.hyps(1) [OF k4(2) [symmetric] k4(1,3)])
      fix k1 y assume core1: "kernel_core k1" and w1: "woken (pending_tasks ?k4) ?k4 k1"
        and e: "members k1 PendingReadyL = []"
        and y: "y = (xYieldPending ?k4 \<or> (\<exists>t \<in> pending_tasks ?k4. prio ?k4 c < prio ?k4 t))"
      let ?k1 = "k1\<lparr>xYieldPending := xYieldPending k3\<rparr>"
      from w1 obtain L p where e1: "k1 = ?k4\<lparr>lists := L, uxTopReadyPriority := p\<rparr>"
        unfolding woken_def by blast
      have "woken (pending_tasks k3) k3 ?k1"
        using w1 unfolding woken_def k4(4) by (cases "prio k3 c < prio k3 t") (simp_all add: e1)
      from woken_trans [OF w this] have w2: "woken (pending_tasks k) k ?k1" by (simp add: pt)
      have y': "y = (xYieldPending k \<or> (\<exists>t \<in> pending_tasks k. prio k c < prio k t))"
        unfolding y k4 pt by auto
      have "Q (?k1\<lparr>xYieldPending := y\<rparr>, moved \<or> pending_tasks k \<noteq> {})"
        using core1 e by (intro Cons.prems(3) w2 y') simp_all
      then show "Q (k1\<lparr>xYieldPending := y\<rparr>, True \<or> pending_tasks ?k4 \<noteq> {})"
        by (simp add: pt)
    qed
    then show "ensures (do { c \<leftarrow> pxCurrentTCB k3;
        pending_loop True (if prio k3 c < prio k3 t then k3\<lparr>xYieldPending := True\<rparr> else k3) }) Q"
      using f(2) Cons.prems(2) by simp
  qed
qed

text \<open>The pended ticks are counted one by one, as if they had come in while the scheduler ran.\<close>

lemma ready_list_grows:
  assumes core: "kernel_core k" "kernel_core k'" and w: "ticked W k k'"
  shows "length (members k (ReadyL p)) \<le> length (members k' (ReadyL p))"
proof -
  have "set (members k (ReadyL p)) \<subseteq> set (members k' (ReadyL p))"
  proof
    fix i assume "i \<in> set (members k (ReadyL p))"
    from state_member [OF core(1) this] have i: "i = StateI (owner i)" "state_list k (owner i) = Some (ReadyL p)"
      unfolding is_event_list.simps by blast+
    then have "state_list k' (owner i) = Some (ReadyL p)"
      using ticked_lists(1) [OF w, of "owner i"] kernel_core_task [OF core(1), of "owner i"] by (simp add: task_ok_def)
    then show "i \<in> set (members k' (ReadyL p))" using i(1) member_iff(1) [OF core(2)] by metis
  qed
  then have "card (set (members k (ReadyL p))) \<le> card (set (members k' (ReadyL p)))" by (intro card_mono) simp_all
  then show ?thesis
    using distinct_card [OF lists_wf_distinct [OF lists_inv_wf [OF kernel_core_lists [OF core(1)]], of "ReadyL p"]]
      distinct_card [OF lists_wf_distinct [OF lists_inv_wf [OF kernel_core_lists [OF core(2)]], of "ReadyL p"]]
    by simp
qed

lemma pended_ticks_ensures:
  assumes "kernel_inv k" and "pxCurrentTCB k = Some c" and "uxSchedulerSuspended k = 0" and "0 < n"
    and "\<And>k'. \<lbrakk>kernel_inv k'; ticked (waking_by (unat n) k) k k'; xTickCount k' = xTickCount k + n;
      uxSchedulerSuspended k' = 0;
      xYieldPending k' \<longleftrightarrow> xYieldPending k \<or> (\<exists>t \<in> waking_by (unat n) k. prio k c < prio k t) \<or>
        1 < length (members k' (ReadyL (prio k c)))\<rbrakk> \<Longrightarrow> Q k'"
  shows "ensures (pended_ticks_loop n k) Q"
  using assms
proof (induction "unat n" arbitrary: n k)
  case 0
  then show ?case by (simp add: unat_eq_0)
next
  case (Suc m)
  have m: "unat (n - 1) = m" using Suc.hyps(2) Suc.prems(4) by (simp add: unat_minus_one)
  have sm: "unat n = Suc m" using Suc.hyps(2) by simp
  show ?case
    apply (subst pended_ticks_loop.simps)
    unfolding ensures_bind
  proof (rule xTaskIncrementTick_ensures [OF Suc.prems(1-3)], unfold prod.case Let_def)
    fix k1 assume k1: "kernel_inv k1" "ticked (waking k) k k1" "xTickCount k1 = xTickCount k + 1"
      "same_lock k k1"
    let ?sw = "(\<exists>t \<in> waking k. prio k c < prio k t) \<or>
      1 < length (members k1 (ReadyL (prio k c))) \<or> xYieldPending k"
    let ?k2 = "if ?sw then k1\<lparr>xYieldPending := True\<rparr> else k1"
    have k2: "kernel_inv ?k2" "ticked (waking k) k ?k2" "xTickCount ?k2 = xTickCount k + 1"
      "uxSchedulerSuspended ?k2 = 0" "pxCurrentTCB ?k2 = Some c"
      using k1 Suc.prems(2,3) ticked_frame(2) [OF k1(2)] by (auto simp: same_lock_def)
    note wk = waking_by_Suc [OF Suc.prems(1) k2(1-3)]
    have y2: "xYieldPending ?k2 \<longleftrightarrow> xYieldPending k \<or> (\<exists>t \<in> waking k. prio k c < prio k t) \<or>
        1 < length (members ?k2 (ReadyL (prio k c)))"
      using k1(4) by (auto simp: same_lock_def)
    show "ensures (if n - 1 > 0 then pended_ticks_loop (n - 1) ?k2 else Some ?k2) Q"
    proof (cases "n - 1 > 0")
      case False
      then have "n = 1" and "m = 0" using m by (auto simp: word_gt_0)
      then have w1: "waking_by (unat n) k = waking k"
        using wk [of 0] waking_by_0 [OF k2(1)] by simp
      have "Q ?k2"
        by (rule Suc.prems(5) [unfolded w1, OF k2(1,2) _ k2(4) y2]) (use k2(3) \<open>n = 1\<close> in simp)
      with False show ?thesis by simp
    next
      case True
      have "ensures (pended_ticks_loop (n - 1) ?k2) Q"
      proof (rule Suc.hyps(1) [OF m [symmetric] k2(1,5,4) True])
        fix k3 assume k3: "kernel_inv k3" "ticked (waking_by (unat (n - 1)) ?k2) ?k2 k3"
          "xTickCount k3 = xTickCount ?k2 + (n - 1)" "uxSchedulerSuspended k3 = 0"
          "xYieldPending k3 \<longleftrightarrow> xYieldPending ?k2 \<or> (\<exists>t \<in> waking_by (unat (n - 1)) ?k2. prio ?k2 c < prio ?k2 t) \<or>
             1 < length (members k3 (ReadyL (prio ?k2 c)))"
        have W: "waking_by (unat n) k = waking k \<union> waking_by (unat (n - 1)) ?k2"
          using wk [of m] by (simp only: sm m)
        have "length (members ?k2 (ReadyL (prio k c))) \<le> length (members k3 (ReadyL (prio k c)))"
          by (rule ready_list_grows [OF kernel_invD(1) [OF k2(1)] kernel_invD(1) [OF k3(1)] k3(2)])
        then have y3: "xYieldPending k3 \<longleftrightarrow> xYieldPending k \<or> (\<exists>t \<in> waking_by (unat n) k. prio k c < prio k t) \<or>
            1 < length (members k3 (ReadyL (prio k c)))"
          unfolding W k3(5) y2 using ticked_frame(1) [OF k2(2)] by auto
        show "Q k3"
          by (rule Suc.prems(5) [OF k3(1) ticked_trans [OF k2(2) k3(2), folded W] _ k3(4) y3])
            (use k3(3) k2(3) in simp)
      qed
      with True show ?thesis by simp
    qed
  qed
qed

text \<open>
  \<open>xTaskResumeAll\<close>, leaving the outermost section: the tasks that became ready while the
  scheduler was locked and those whose time came in a pended tick are ready, the tick counter
  has caught up, and if a task of higher priority than the caller was woken the switch has
  been made. Leaving an inner section only counts down.
\<close>

lemma woken_wake_ok:
  assumes core: "kernel_core k" and w: "woken W k k'" and t: "wake_ok k t"
  shows "wake_ok k' t"
  using t woken_lists(1) [OF w, of t] core woken_frame [OF w] by (auto simp: wake_ok_def)

lemma drained:
  assumes inv: "kernel_core k" "\<And>t. wake_ok k t" "next_ok k" and cur: "pxCurrentTCB k = Some c"
    and run: "uxSchedulerSuspended k = 0"
    and post: "\<And>k1. \<lbrakk>kernel_inv k1; ticked (pending_tasks k) k k1; members k1 PendingReadyL = [];
        uxSchedulerSuspended k1 = 0; xPendedTicks k1 = xPendedTicks k; xTickCount k1 = xTickCount k;
        pxDelayedTaskList k1 = pxDelayedTaskList k;
        xYieldPending k1 = (xYieldPending k \<or> (\<exists>t \<in> pending_tasks k. prio k c < prio k t))\<rbrakk>
      \<Longrightarrow> ensures (f k1) Q"
  shows "ensures (do { (k1, moved) \<leftarrow> pending_loop False k;
      let k2 = (if moved then prvResetNextTaskUnblockTime k1 else k1); f k2 }) Q"
  unfolding ensures_bind
proof (rule pending_loop_ensures [OF inv(1) cur], unfold prod.case Let_def)
  fix k1 y assume core1: "kernel_core k1" and w: "woken (pending_tasks k) k k1"
    and e: "members k1 PendingReadyL = []"
    and y: "y = (xYieldPending k \<or> (\<exists>t \<in> pending_tasks k. prio k c < prio k t))"
  let ?m = "False \<or> pending_tasks k \<noteq> {}"
  let ?k1 = "k1\<lparr>xYieldPending := y\<rparr>"
  let ?k2 = "if ?m then prvResetNextTaskUnblockTime ?k1 else ?k1"
  note f = woken_frame [OF w]
  have wk: "wake_ok k1 t" for t using woken_wake_ok [OF inv(1) w inv(2)] .
  have "wake_ok (prvResetNextTaskUnblockTime ?k1) t" for t
    using wk [of t] reset_next_le [of ?k1 t] core1 by (simp add: wake_ok_def)
  moreover have "next_ok ?k1" using inv(3) by (simp add: next_ok_def f)
  moreover have "next_ok (prvResetNextTaskUnblockTime ?k1)"
    by (rule reset_next_ok) (use core1 wk in \<open>simp_all add: wake_ok_def\<close>)
  ultimately have "kernel_inv ?k2"
    using core1 wk e by (auto simp: kernel_inv_def pending_ok_def reset_next_core)
  moreover have "ticked (pending_tasks k) k ?k2"
    using ticked_of_woken [OF w, of ?k2] by simp
  moreover have "xYieldPending ?k2 = y" by simp
  ultimately show "ensures (f ?k2) Q"
    by (intro post) (use e f run y in simp_all)
qed

definition resume_set :: "kernel \<Rightarrow> task set" where
  "resume_set k = pending_tasks k \<union> waking_by (unat (xPendedTicks k)) k"

definition after_switch :: "(kernel \<Rightarrow> bool) \<Rightarrow> kernel \<times> bool \<Rightarrow> bool" where
  "after_switch P r \<longleftrightarrow> (case r of (k', y) \<Rightarrow>
     if y then \<exists>k1 t. P k1 \<and> xYieldPending k1 \<and> chosen k1 t \<and> switched t k1 k' else P k' \<and> \<not> xYieldPending k')"

lemma switch_ensures:
  assumes inv: "kernel_inv k" and run: "uxSchedulerSuspended k = 0" and some: "ready k r" and P: "P k"
  shows "ensures (if xYieldPending k then do { k \<leftarrow> portYIELD k; Some (k, True) } else Some (k, False))
    (\<lambda>(k', y). kernel_inv k' \<and> after_switch P (k', y))"
proof (cases "xYieldPending k")
  case True
  have "ensures (portYIELD k) (\<lambda>k'. kernel_inv k' \<and> after_switch P (k', True))"
  proof (rule vTaskSwitchContext_ensures [OF kernel_invD(1) [OF inv] run some])
    fix k' t assume c: "chosen k t" "switched t k k'"
    with True P show "kernel_inv k' \<and> after_switch P (k', True)"
      using switched_inv [OF inv] by (auto simp: after_switch_def)
  qed
  with True show ?thesis by simp
qed (use inv P in \<open>simp add: after_switch_def\<close>)

lemma waking_by_ticked:
  assumes core: "kernel_core k" "kernel_core k1" and w: "ticked W k k1" and tick: "xTickCount k1 = xTickCount k"
  shows "W \<union> waking_by n k1 = W \<union> waking_by n k"
  using timed_ticked [OF core w] ticked_frame(3) [OF w] by (auto simp: waking_by_def ticks_left_def tick)

definition resume_yields :: "kernel \<Rightarrow> task \<Rightarrow> kernel \<Rightarrow> bool" where
  "resume_yields k c k1 \<longleftrightarrow> xYieldPending k \<or> (\<exists>t \<in> resume_set k. prio k c < prio k t) \<or>
     (xPendedTicks k > 0 \<and> 1 < length (members k1 (ReadyL (prio k c))))"

lemma xTaskResumeAll_exactly:
  assumes inv: "kernel_inv k" and cur: "pxCurrentTCB k = Some c" and susp: "uxSchedulerSuspended k = 1"
    and some: "ready k r"
  shows "ensures (xTaskResumeAll k) (\<lambda>r. kernel_inv (fst r) \<and> after_switch (\<lambda>k1. kernel_inv k1 \<and>
      ticked (resume_set k) k k1 \<and> uxSchedulerSuspended k1 = 0 \<and> members k1 PendingReadyL = [] \<and>
      xTickCount k1 = xTickCount k + xPendedTicks k \<and> xPendedTicks k1 = 0 \<and>
      xYieldPending k1 = resume_yields k c k1) r)"
    (is "ensures _ (\<lambda>r. _ \<and> after_switch ?P r)")
proof -
  let ?k = "k\<lparr>uxSchedulerSuspended := uxSchedulerSuspended k - 1\<rparr>"
  have core: "kernel_core ?k" and wake: "\<And>t. wake_ok ?k t" and nok: "next_ok ?k"
    using inv by (simp_all add: kernel_inv_def)
  have "r \<in> live_tasks k" and fin: "finite (live_tasks k)" and n: "uxCurrentNumberOfTasks k = card (live_tasks k)"
    using some inv by (auto simp: ready_def live_tasks_def kernel_inv_def kernel_core_def)
  then have tasks: "uxCurrentNumberOfTasks ?k > 0" using card_gt_0_iff by auto
  have pt: "pending_tasks ?k = pending_tasks k" by (simp add: pending_tasks_def)
  have go: "(uxSchedulerSuspended ?k = 0 \<and> uxCurrentNumberOfTasks ?k > 0) = True"
    using susp tasks by simp
  have "ensures (do { (k1, moved) \<leftarrow> pending_loop False ?k;
      let k2 = (if moved then prvResetNextTaskUnblockTime k1 else k1);
      k3 \<leftarrow> (if xPendedTicks k2 > 0
             then map_option (\<lambda>k. k\<lparr>xPendedTicks := 0\<rparr>) (pended_ticks_loop (xPendedTicks k2) k2)
             else Some k2);
      if xYieldPending k3 then do { k \<leftarrow> portYIELD k3; Some (k, True) } else Some (k3, False) })
    (\<lambda>r. kernel_inv (fst r) \<and> after_switch ?P r)"
  proof (rule drained [OF core wake nok], unfold pt)
    show "pxCurrentTCB ?k = Some c" "uxSchedulerSuspended ?k = 0" using cur susp by simp_all
    fix k1 assume inv1: "kernel_inv k1" and w1': "ticked (pending_tasks k) ?k k1"
      and e1: "members k1 PendingReadyL = []" and run1: "uxSchedulerSuspended k1 = 0"
      and pend1: "xPendedTicks k1 = xPendedTicks ?k" and tick1: "xTickCount k1 = xTickCount ?k"
      and "pxDelayedTaskList k1 = pxDelayedTaskList ?k"
      and y1: "xYieldPending k1 = (xYieldPending ?k \<or> (\<exists>t \<in> pending_tasks k. prio ?k c < prio ?k t))"
    have "ticked {} k ?k" using ticked_empty [of k] by simp
    from ticked_trans [OF this w1'] have w1: "ticked (pending_tasks k) k k1" by simp
    note f1 = ticked_frame [OF w1]
    have rs: "resume_set k = pending_tasks k \<union> waking_by (unat (xPendedTicks k)) k1"
      unfolding resume_set_def
      using waking_by_ticked [OF kernel_invD(1) [OF inv] kernel_invD(1) [OF inv1] w1] tick1 by simp
    have final: "ensures (if xYieldPending k3 then do { k \<leftarrow> portYIELD k3; Some (k, True) } else Some (k3, False))
        (\<lambda>r. kernel_inv (fst r) \<and> after_switch ?P r)" if P3: "?P k3" for k3
    proof -
      have w3: "ticked (resume_set k) k k3" and inv3: "kernel_inv k3" and run3: "uxSchedulerSuspended k3 = 0"
        using P3 by blast+
      have "ready k3 r"
        using ticked_lists(1) [OF w3, of r] ticked_frame(1) [OF w3] some by (simp add: ready_def)
      from switch_ensures [where P = ?P, OF inv3 run3 this P3] show ?thesis
        by (rule ensures_mono) auto
    qed
    show "ensures (do {
        k3 \<leftarrow> (if xPendedTicks k1 > 0
               then map_option (\<lambda>k. k\<lparr>xPendedTicks := 0\<rparr>) (pended_ticks_loop (xPendedTicks k1) k1)
               else Some k1);
        if xYieldPending k3 then do { k \<leftarrow> portYIELD k3; Some (k, True) } else Some (k3, False) })
      (\<lambda>r. kernel_inv (fst r) \<and> after_switch ?P r)"
    proof (cases "xPendedTicks k1 > 0")
      case False
      then have z: "xPendedTicks k = 0" using pend1 by (auto simp: word_gt_0)
      then have "resume_set k = pending_tasks k" unfolding rs using waking_by_0 [OF inv1] by simp
      then have "?P k1" using inv1 w1 run1 e1 pend1 tick1 y1 z by (auto simp: resume_yields_def)
      from final [OF this] show ?thesis using False by simp
    next
      case True
      have "ensures (pended_ticks_loop (xPendedTicks k1) k1) (\<lambda>k2. ?P (k2\<lparr>xPendedTicks := 0\<rparr>))"
      proof (rule pended_ticks_ensures [OF inv1 _ run1 True])
        show "pxCurrentTCB k1 = Some c" using f1 cur by simp
        fix k2 assume k2: "kernel_inv k2" "ticked (waking_by (unat (xPendedTicks k1)) k1) k1 k2"
          "xTickCount k2 = xTickCount k1 + xPendedTicks k1" "uxSchedulerSuspended k2 = 0"
          "xYieldPending k2 \<longleftrightarrow> xYieldPending k1 \<or> (\<exists>t \<in> waking_by (unat (xPendedTicks k1)) k1. prio k1 c < prio k1 t) \<or>
             1 < length (members k2 (ReadyL (prio k1 c)))"
        have w2: "ticked (resume_set k) k k2"
          unfolding rs using ticked_trans [OF w1 k2(2)] pend1 by simp
        have "members k2 PendingReadyL = []" using ticked_lists(3) [OF k2(2), of PendingReadyL] e1 by simp
        moreover have "xYieldPending k2 = resume_yields k c k2"
          using True k2(5) y1 f1(1) pend1 unfolding resume_yields_def rs by auto
        ultimately show "?P (k2\<lparr>xPendedTicks := 0\<rparr>)"
          using k2(1,3,4) w2 pend1 tick1 by (simp add: resume_yields_def)
      qed
      then show ?thesis
        unfolding if_P [OF True] ensures_bind ensures_map by (rule ensures_mono) (rule final)
    qed
  qed
  then show ?thesis
    unfolding xTaskResumeAll_def Let_def using susp go by simp
qed

lemma after_switch_mono:
  assumes "after_switch P r" and "\<And>k. P k \<Longrightarrow> P' k"
  shows "after_switch P' r"
proof (cases r)
  case (Pair k' y)
  with assms show ?thesis by (cases y) (auto simp: after_switch_def)
qed

lemma xTaskResumeAll_ensures:
  assumes inv: "kernel_inv k" and cur: "pxCurrentTCB k = Some c" and susp: "uxSchedulerSuspended k = 1"
    and some: "ready k r"
  shows "ensures (xTaskResumeAll k) (\<lambda>r. kernel_inv (fst r) \<and> after_switch (\<lambda>k1. kernel_inv k1 \<and>
      ticked (resume_set k) k k1 \<and> uxSchedulerSuspended k1 = 0 \<and> members k1 PendingReadyL = [] \<and>
      xTickCount k1 = xTickCount k + xPendedTicks k \<and> xPendedTicks k1 = 0 \<and>
      (xYieldPending k \<or> (\<exists>t \<in> resume_set k. prio k c < prio k t) \<longrightarrow> xYieldPending k1)) r)"
proof (rule ensures_mono [OF xTaskResumeAll_exactly [OF assms]], elim conjE, intro conjI)
  fix x assume "after_switch (\<lambda>k1. kernel_inv k1 \<and> ticked (resume_set k) k k1 \<and> uxSchedulerSuspended k1 = 0 \<and>
      members k1 PendingReadyL = [] \<and> xTickCount k1 = xTickCount k + xPendedTicks k \<and> xPendedTicks k1 = 0 \<and>
      xYieldPending k1 = resume_yields k c k1) x"
  then show "after_switch (\<lambda>k1. kernel_inv k1 \<and> ticked (resume_set k) k k1 \<and> uxSchedulerSuspended k1 = 0 \<and>
      members k1 PendingReadyL = [] \<and> xTickCount k1 = xTickCount k + xPendedTicks k \<and> xPendedTicks k1 = 0 \<and>
      (xYieldPending k \<or> (\<exists>t \<in> resume_set k. prio k c < prio k t) \<longrightarrow> xYieldPending k1)) x"
    by (rule after_switch_mono) (auto simp: resume_yields_def)
qed

end
