(* ===== verification/Task_Time.thy ===== *)
theory Task_Time
  imports Task_Sched
begin

text \<open>
  Time in tasks.c: what the time-out bookkeeping of the blocking calls means for the time
  that really passed, the tickless step, and catching up with lost ticks.
\<close>

section \<open>Time-outs\<close>

definition entered_at :: "TimeOut \<Rightarrow> int" where
  "entered_at to = xOverflowCount to * 2 ^ 32 + uint (xTimeOnEntering to)"

lemma entered_at_set [simp]:
  "entered_at (vTaskSetTimeOutState k) = abs_time k"
  "entered_at (vTaskInternalSetTimeOutState k) = abs_time k"
  by (simp_all add: entered_at_def abs_time_def vTaskSetTimeOutState_def vTaskInternalSetTimeOutState_def)

text \<open>
  The elapsed time as the code computes it, from a tick counter that may have wrapped once.
\<close>

lemma elapsed_no_wrap:
  assumes "0 \<le> (e :: int)" and "e < 2 ^ 32" and "e = uint t - uint (s :: tick) \<or> e = 2 ^ 32 + uint t - uint s"
  shows "uint (t - s) = e"
proof -
  have "uint (t - s) = (uint t - uint s) mod 2 ^ 32" by (simp add: uint_word_ariths)
  also have "\<dots> = e mod 2 ^ 32"
    using assms(3) mod_add_self1 [of "2 ^ 32" "uint t - uint s"] by (metis add_diff_eq)
  also have "\<dots> = e" using assms(1,2) by simp
  finally show ?thesis .
qed

lemma same_overflow_elapsed:
  assumes "xNumOfOverflows k = xOverflowCount to" and "entered_at to \<le> abs_time k"
  shows "uint (xTickCount k - xTimeOnEntering to) = abs_time k - entered_at to"
proof (rule elapsed_no_wrap)
  show "abs_time k - entered_at to < 2 ^ 32"
    using uint_tick_bounds [of "xTickCount k"] uint_tick_bounds [of "xTimeOnEntering to"]
    unfolding abs_time_def entered_at_def assms(1) by linarith
qed (use assms in \<open>simp_all add: abs_time_def entered_at_def\<close>)

lemma one_overflow_elapsed:
  assumes "xNumOfOverflows k = xOverflowCount to + 1" and "xTickCount k < xTimeOnEntering to"
  shows "uint (xTickCount k - xTimeOnEntering to) = abs_time k - entered_at to"
    "entered_at to < abs_time k"
proof -
  have lt: "uint (xTickCount k) < uint (xTimeOnEntering to)" using assms(2) by (simp add: word_less_def)
  show "entered_at to < abs_time k"
    using uint_tick_bounds [of "xTickCount k"] uint_tick_bounds [of "xTimeOnEntering to"]
    unfolding abs_time_def entered_at_def assms(1) distrib_right by linarith
  then show "uint (xTickCount k - xTimeOnEntering to) = abs_time k - entered_at to"
    by (intro elapsed_no_wrap) (use assms(1) lt in \<open>simp_all add: abs_time_def entered_at_def\<close>)
qed

text \<open>
  As long as the counter has wrapped at most once since the time-out was set, the call times
  out exactly when the ticks to wait have passed, and what is left to wait ends at the same
  moment as before.
\<close>

lemma xTaskCheckForTimeOut_exact:
  assumes cur: "pxCurrentTCB k = Some c" and na: "\<not> ucDelayAborted (tcbs k c)"
    and w: "w \<noteq> portMAX_DELAY" and past: "entered_at to \<le> abs_time k"
    and once: "xNumOfOverflows k \<le> xOverflowCount to + 1" "xOverflowCount to \<le> xNumOfOverflows k"
  shows "ensures (xTaskCheckForTimeOut to w k) (\<lambda>(k', to', w', expired). k' = k \<and>
    (if entered_at to + uint w \<le> abs_time k then expired \<and> w' = 0
     else \<not> expired \<and> entered_at to' = abs_time k \<and> entered_at to' + uint w' = entered_at to + uint w))"
proof -
  let ?e = "xTickCount k - xTimeOnEntering to"
  consider (late) "xNumOfOverflows k \<noteq> xOverflowCount to" "xTickCount k \<ge> xTimeOnEntering to"
    | (count) "uint ?e = abs_time k - entered_at to"
        "\<not> (xNumOfOverflows k \<noteq> xOverflowCount to \<and> xTickCount k \<ge> xTimeOnEntering to)"
  proof (cases "xNumOfOverflows k = xOverflowCount to")
    case True
    then show ?thesis using that(2) same_overflow_elapsed [OF True past] by simp
  next
    case False
    then have "xNumOfOverflows k = xOverflowCount to + 1" using once by simp
    then show ?thesis
      using that False one_overflow_elapsed(1) by (cases "xTickCount k \<ge> xTimeOnEntering to") (auto simp: not_le)
  qed
  then show ?thesis
  proof cases
    case late
    then have "xNumOfOverflows k = xOverflowCount to + 1" using once by simp
    then have "entered_at to + 2 ^ 32 \<le> abs_time k"
      using late(2) by (simp add: abs_time_def entered_at_def word_le_def)
    then have "entered_at to + uint w \<le> abs_time k" using uint_lt2p [of w] by simp
    with late cur na w show ?thesis by (simp add: xTaskCheckForTimeOut_def Let_def)
  next
    case count
    have lt: "?e < w \<longleftrightarrow> \<not> entered_at to + uint w \<le> abs_time k"
      using count(1) by (auto simp: word_less_def)
    show ?thesis
    proof (cases "?e < w")
      case True
      then have "uint (w - ?e) = uint w - uint ?e" by (simp only: uint_sub_lem [symmetric] order_less_imp_le word_le_def [symmetric])
      with True lt count cur na w show ?thesis
        by (simp add: xTaskCheckForTimeOut_def Let_def)
    next
      case False
      with lt count cur na w show ?thesis
        by (simp add: xTaskCheckForTimeOut_def Let_def)
    qed
  qed
qed

section \<open>Tickless idle\<close>

lemma add_left_32:
  fixes a b c :: tick
  assumes "unat a + unat b < 2 ^ 32" shows "unat (a + b) = unat a + unat b"
  using assms by (simp add: unat_word_ariths)

text \<open>
  A step of the tick counter keeps the invariant and wakes nobody early: a step that would
  reach the next wake-up time leaves the last tick pended, so that the task is woken when the
  scheduler resumes. The assertion compares wrapped values; the bound on the sum is the
  caller's: it must not step past the wrap-around.
\<close>

lemma vTaskStepTick_ensures:
  assumes inv: "kernel_inv k" and nowrap: "unat (xTickCount k) + unat n < 2 ^ 32"
    and bound: "xTickCount k + n \<le> xNextTaskUnblockTime k"
    and lock: "xTickCount k + n = xNextTaskUnblockTime k \<Longrightarrow> uxSchedulerSuspended k \<noteq> 0 \<and> n \<noteq> 0"
  shows "ensures (vTaskStepTick n k) (\<lambda>k'. kernel_inv k' \<and> xPendedTicks k' + xTickCount k' = xPendedTicks k + xTickCount k + n \<and>
    xTickCount k \<le> xTickCount k' \<and> (xPendedTicks k' = xPendedTicks k + 1 \<longleftrightarrow> xTickCount k + n = xNextTaskUnblockTime k) \<and>
    lists k' = lists k)"
proof -
  have mono: "xTickCount k \<le> xTickCount k + m" if "m \<le> n" for m
    using that nowrap by (simp add: word_le_nat_alt unat_word_ariths)
  have core: "kernel_core k'" if "k' = k\<lparr>xPendedTicks := p, xTickCount := t\<rparr>" for k' p t
    using kernel_invD(1) [OF inv] by (rule kernel_core_fields) (simp_all add: that)
  have keep: "kernel_inv (k\<lparr>xPendedTicks := p, xTickCount := t\<rparr>)"
    if t: "xTickCount k \<le> t" "t < xNextTaskUnblockTime k" for p t
  proof -
    have "wake_ok (k\<lparr>xPendedTicks := p, xTickCount := t\<rparr>) i" for i
      using kernel_invD(2) [OF inv, of i] t by (auto simp: wake_ok_def)
    moreover have "pending_ok (k\<lparr>xPendedTicks := p, xTickCount := t\<rparr>)"
      using kernel_invD(3) [OF inv] by (simp add: pending_ok_def)
    moreover have "next_ok (k\<lparr>xPendedTicks := p, xTickCount := t\<rparr>)" using t(2) by (simp add: next_ok_def)
    ultimately show ?thesis using core by (simp add: kernel_inv_def)
  qed
  show ?thesis
  proof (cases "xTickCount k + n = xNextTaskUnblockTime k")
    case True
    then have l: "uxSchedulerSuspended k \<noteq> 0" "n \<noteq> 0" using lock by blast+
    then have n1: "unat (n - 1) = unat n - 1" "0 < unat n" by (simp_all add: unat_minus_one unat_gt_0)
    let ?t = "xTickCount k + (n - 1)"
    have "n - 1 \<le> n" using n1 by (simp add: word_le_nat_alt)
    moreover have "?t < xTickCount k + n"
      using n1 nowrap add_left_32 [of "xTickCount k" n] add_left_32 [of "xTickCount k" "n - 1"]
      by (simp add: word_less_nat_alt)
    ultimately have "kernel_inv (k\<lparr>xPendedTicks := xPendedTicks k + 1, xTickCount := ?t\<rparr>)"
      using keep mono True by simp
    with True l bound mono [OF \<open>n - 1 \<le> n\<close>] show ?thesis
      by (simp add: vTaskStepTick_def Let_def)
  next
    case False
    then have "kernel_inv (k\<lparr>xPendedTicks := xPendedTicks k, xTickCount := xTickCount k + n\<rparr>)"
      using bound by (intro keep [OF mono]) simp_all
    moreover have "k\<lparr>xPendedTicks := xPendedTicks k, xTickCount := xTickCount k + n\<rparr>
        = k\<lparr>xTickCount := xTickCount k + n\<rparr>" by simp
    ultimately have "kernel_inv (k\<lparr>xTickCount := xTickCount k + n\<rparr>)" by (simp only:)
    with False bound mono show ?thesis
      by (simp add: vTaskStepTick_def Let_def)
  qed
qed

end
