(* ===== verification/Task_Block.thy ===== *)
theory Task_Block
  imports Task_Time
begin

text \<open>
  The calls of tasks.c with which a task changes the state of itself or of another one:
  delaying, suspending and resuming, aborting a delay, changing a priority, and the queries
  of a task's state. Each call is followed to the context switch it ends in; the system
  invariant \<open>sys_inv\<close> says in particular that the task the switch left running has the
  highest priority of all ready tasks.
\<close>

section \<open>Operations\<close>

definition prvGetTCBFromHandle :: "task option \<Rightarrow> kernel \<Rightarrow> task option" where
  "prvGetTCBFromHandle pxHandle k = (case pxHandle of None \<Rightarrow> pxCurrentTCB k | Some t \<Rightarrow> Some t)"

text \<open>The macro of the single-core build: preempt if the task outranks the running one.\<close>

definition taskYIELD_ANY_CORE_IF_USING_PREEMPTION :: "task \<Rightarrow> kernel \<Rightarrow> kernel option" where
  "taskYIELD_ANY_CORE_IF_USING_PREEMPTION t k = do {
     c \<leftarrow> pxCurrentTCB k;
     if prio k c < prio k t then portYIELD k else Some k }"

definition xTaskDelayUntil :: "tick \<Rightarrow> tick \<Rightarrow> kernel \<Rightarrow> (kernel \<times> tick \<times> bool) option" where
  "xTaskDelayUntil pxPreviousWakeTime xTimeIncrement k = do {
     configASSERT (xTimeIncrement > 0);
     let k = vTaskSuspendAll k;
     let xConstTickCount = xTickCount k;
     configASSERT (uxSchedulerSuspended k = 1);
     let xTimeToWake = pxPreviousWakeTime + xTimeIncrement;
     let xShouldDelay =
       (if xConstTickCount < pxPreviousWakeTime
        then xTimeToWake < pxPreviousWakeTime \<and> xTimeToWake > xConstTickCount
        else xTimeToWake < pxPreviousWakeTime \<or> xTimeToWake > xConstTickCount);
     k \<leftarrow> (if xShouldDelay
           then prvAddCurrentTaskToDelayedList (xTimeToWake - xConstTickCount) False k
           else Some k);
     (k, xAlreadyYielded) \<leftarrow> xTaskResumeAll k;
     k \<leftarrow> (if xAlreadyYielded then Some k else portYIELD k);
     Some (k, xTimeToWake, xShouldDelay) }"

definition vTaskDelay :: "tick \<Rightarrow> kernel \<Rightarrow> kernel option" where
  "vTaskDelay xTicksToDelay k = do {
     (k, xAlreadyYielded) \<leftarrow>
       (if xTicksToDelay > 0
        then do {
          let k = vTaskSuspendAll k;
          configASSERT (uxSchedulerSuspended k = 1);
          k \<leftarrow> prvAddCurrentTaskToDelayedList xTicksToDelay False k;
          xTaskResumeAll k }
        else Some (k, False));
     if xAlreadyYielded then Some k else portYIELD k }"

datatype eTaskState = eRunning | eReady | eBlocked | eSuspended | eDeleted

definition waits_for_notification :: "tcb \<Rightarrow> bool" where
  "waits_for_notification b \<longleftrightarrow> taskWAITING_NOTIFICATION \<in> set (ucNotifyState b)"

definition eTaskGetState :: "task \<Rightarrow> kernel \<Rightarrow> eTaskState" where
  "eTaskGetState t k =
     (if Some t = pxCurrentTCB k then eRunning
      else if event_list k t = Some PendingReadyL then eReady
      else if state_list k t = Some (pxDelayedTaskList k)
              \<or> state_list k t = Some (pxOverflowDelayedTaskList k) then eBlocked
      else if state_list k t = Some SuspendedL
      then (if event_list k t = None
            then (if waits_for_notification (tcbs k t) then eBlocked else eSuspended)
            else eBlocked)
      else if state_list k t = Some TerminationL \<or> state_list k t = None then eDeleted
      else eReady)"

definition uxTaskPriorityGet :: "task option \<Rightarrow> kernel \<Rightarrow> nat option" where
  "uxTaskPriorityGet xTask k = do { t \<leftarrow> prvGetTCBFromHandle xTask k; Some (prio k t) }"

definition uxTaskPriorityGetFromISR :: "task option \<Rightarrow> kernel \<Rightarrow> nat option" where
  "uxTaskPriorityGetFromISR xTask k = do { t \<leftarrow> prvGetTCBFromHandle xTask k; Some (prio k t) }"

definition uxTaskBasePriorityGet :: "task option \<Rightarrow> kernel \<Rightarrow> nat option" where
  "uxTaskBasePriorityGet xTask k =
     do { t \<leftarrow> prvGetTCBFromHandle xTask k; Some (uxBasePriority (tcbs k t)) }"

definition uxTaskBasePriorityGetFromISR :: "task option \<Rightarrow> kernel \<Rightarrow> nat option" where
  "uxTaskBasePriorityGetFromISR xTask k =
     do { t \<leftarrow> prvGetTCBFromHandle xTask k; Some (uxBasePriority (tcbs k t)) }"

text \<open>Setting a priority keeps an inherited one that is higher.\<close>

definition vTaskPrioritySet :: "task option \<Rightarrow> nat \<Rightarrow> kernel \<Rightarrow> kernel option" where
  "vTaskPrioritySet xTask uxNewPriority k = do {
     configASSERT (uxNewPriority < configMAX_PRIORITIES);
     let uxNewPriority = (if uxNewPriority \<ge> configMAX_PRIORITIES
                          then configMAX_PRIORITIES - 1 else uxNewPriority);
     t \<leftarrow> prvGetTCBFromHandle xTask k;
     let uxCurrentBasePriority = uxBasePriority (tcbs k t);
     if uxCurrentBasePriority = uxNewPriority then Some k
     else do {
       xYieldRequired \<leftarrow>
         (if uxNewPriority > uxCurrentBasePriority
          then (if Some t \<noteq> pxCurrentTCB k
                then do { c \<leftarrow> pxCurrentTCB k; Some (uxNewPriority > prio k c) }
                else Some False)
          else Some (Some t = pxCurrentTCB k));
       let uxPriorityUsedOnEntry = prio k t;
       let k = (if uxBasePriority (tcbs k t) = prio k t \<or> uxNewPriority > prio k t
                then upd_tcb t (\<lambda>b. b\<lparr>uxPriority := uxNewPriority\<rparr>) k else k);
       let k = upd_tcb t (\<lambda>b. b\<lparr>uxBasePriority := uxNewPriority\<rparr>) k;
       let k = (if item_value (lists k) (EventI t) AND taskEVENT_LIST_ITEM_VALUE_IN_USE = 0
                then k_set_value (EventI t) (priority_value uxNewPriority) k else k);
       k \<leftarrow> (if state_list k t = Some (ReadyL uxPriorityUsedOnEntry)
             then do { k \<leftarrow> k_list_remove (StateI t) k; Some (prvAddTaskToReadyList t k) }
             else Some k);
       if xYieldRequired then portYIELD k else Some k } }"

definition clear_waiting :: "notify_state \<Rightarrow> notify_state" where
  "clear_waiting s = (if s = taskWAITING_NOTIFICATION then taskNOT_WAITING_NOTIFICATION else s)"

definition vTaskSuspend :: "task option \<Rightarrow> kernel \<Rightarrow> kernel option" where
  "vTaskSuspend xTaskToSuspend k = do {
     t \<leftarrow> prvGetTCBFromHandle xTaskToSuspend k;
     k \<leftarrow> k_list_remove (StateI t) k;
     k \<leftarrow> (if event_list k t \<noteq> None then k_list_remove (EventI t) k else Some k);
     let k = k_list_insert_end SuspendedL (StateI t) k;
     let k = upd_tcb t (\<lambda>b. b\<lparr>ucNotifyState := map clear_waiting (ucNotifyState b)\<rparr>) k;
     let k = (if xSchedulerRunning k then prvResetNextTaskUnblockTime k else k);
     if Some t = pxCurrentTCB k
     then if xSchedulerRunning k
          then do { configASSERT (uxSchedulerSuspended k = 0); portYIELD k }
          else if length (members k SuspendedL) = uxCurrentNumberOfTasks k
          then Some (k\<lparr>pxCurrentTCB := None\<rparr>)
          else vTaskSwitchContext k
     else Some k }"

definition prvTaskIsTaskSuspended :: "task \<Rightarrow> kernel \<Rightarrow> bool" where
  "prvTaskIsTaskSuspended t k \<longleftrightarrow>
     state_list k t = Some SuspendedL \<and> event_list k t \<noteq> Some PendingReadyL \<and>
     event_list k t = None \<and> \<not> waits_for_notification (tcbs k t)"

definition vTaskResume :: "task \<Rightarrow> kernel \<Rightarrow> kernel option" where
  "vTaskResume t k =
     (if Some t \<noteq> pxCurrentTCB k
      then if prvTaskIsTaskSuspended t k
           then do {
             k \<leftarrow> k_list_remove (StateI t) k;
             let k = prvAddTaskToReadyList t k;
             taskYIELD_ANY_CORE_IF_USING_PREEMPTION t k }
           else Some k
      else Some k)"

definition xTaskResumeFromISR :: "task \<Rightarrow> kernel \<Rightarrow> (kernel \<times> bool) option" where
  "xTaskResumeFromISR t k =
     (if prvTaskIsTaskSuspended t k
      then if uxSchedulerSuspended k = 0
           then do {
             c \<leftarrow> pxCurrentTCB k;
             let xYieldRequired = (prio k t > prio k c);
             let k = (if prio k t > prio k c then k\<lparr>xYieldPending := True\<rparr> else k);
             k \<leftarrow> k_list_remove (StateI t) k;
             Some (prvAddTaskToReadyList t k, xYieldRequired) }
           else Some (k_list_insert_end PendingReadyL (EventI t) k, False)
      else Some (k, False))"

definition xTaskAbortDelay :: "task \<Rightarrow> kernel \<Rightarrow> (kernel \<times> bool) option" where
  "xTaskAbortDelay t k = do {
     let k = vTaskSuspendAll k;
     (k, xReturn) \<leftarrow>
       (if eTaskGetState t k = eBlocked
        then do {
          k \<leftarrow> k_list_remove (StateI t) k;
          k \<leftarrow> (if event_list k t \<noteq> None
                then do { k \<leftarrow> k_list_remove (EventI t) k;
                          Some (upd_tcb t (\<lambda>b. b\<lparr>ucDelayAborted := True\<rparr>) k) }
                else Some k);
          let k = prvAddTaskToReadyList t k;
          c \<leftarrow> pxCurrentTCB k;
          Some (if prio k t > prio k c then k\<lparr>xYieldPending := True\<rparr> else k, True) }
        else Some (k, False));
     (k, _) \<leftarrow> xTaskResumeAll k;
     Some (k, xReturn) }"

section \<open>The system invariant\<close>

text \<open>
  With no switch pending, no ready task outranks the current one: this is preemption. The idle task is always ready, because it never blocks and nobody
  suspends it; it is what makes the choice of a next task total.
\<close>

definition settled :: "kernel \<Rightarrow> bool" where
  "settled k \<longleftrightarrow> (\<not> xYieldPending k \<longrightarrow>
     (\<forall>c t. pxCurrentTCB k = Some c \<longrightarrow> ready k t \<longrightarrow> prio k t \<le> prio k c))"

definition idle_ready :: "kernel \<Rightarrow> bool" where
  "idle_ready k \<longleftrightarrow> (\<exists>i. xIdleTaskHandle k = Some i \<and> ready k i)"

definition current_ready :: "kernel \<Rightarrow> bool" where
  "current_ready k \<longleftrightarrow> (\<exists>c. pxCurrentTCB k = Some c \<and> ready k c)"

definition caught_up :: "kernel \<Rightarrow> bool" where
  "caught_up k \<longleftrightarrow> (uxSchedulerSuspended k = 0 \<longrightarrow> xPendedTicks k = 0)"

definition sys_inv :: "kernel \<Rightarrow> bool" where
  "sys_inv k \<longleftrightarrow> kernel_inv k \<and> xSchedulerRunning k \<and> idle_ready k \<and> current_ready k \<and>
     settled k \<and> caught_up k"

lemma sys_invD:
  assumes "sys_inv k"
  shows "kernel_inv k" "kernel_core k" "xSchedulerRunning k" "idle_ready k" "current_ready k" "settled k" "caught_up k"
  using assms by (simp_all add: sys_inv_def kernel_inv_def)

lemma idle_readyE: assumes "idle_ready k" obtains i where "xIdleTaskHandle k = Some i" "ready k i"
  using assms by (auto simp: idle_ready_def)

lemma current_readyE: assumes "current_ready k" obtains c where "pxCurrentTCB k = Some c" "ready k c"
  using assms by (auto simp: current_ready_def)

lemma ready_switched: "switched t k k' \<Longrightarrow> ready k' t' = ready k t'"
  by (simp add: switched_def ready_def)

text \<open>Every switch establishes the scheduling part of the invariant.\<close>

lemma switched_sys_inv:
  assumes inv: "kernel_inv k" and run: "xSchedulerRunning k" and idle: "idle_ready k"
    and cu: "caught_up k" and c: "chosen k t" and s: "switched t k k'"
  shows "sys_inv k'"
proof -
  have "ready k' t" using c ready_switched [OF s] by (simp add: chosen_def)
  moreover have "pxCurrentTCB k' = Some t" "tcbs k' = tcbs k" "xIdleTaskHandle k' = xIdleTaskHandle k"
    "xSchedulerRunning k'" "caught_up k'" using s run cu by (simp_all add: switched_def caught_up_def)
  moreover have "prio k t' \<le> prio k t" if "ready k' t'" for t'
    using c that ready_switched [OF s] by (simp add: chosen_def)
  ultimately show ?thesis
    using switched_inv [OF inv c s] idle ready_switched [OF s]
    by (auto simp: sys_inv_def settled_def current_ready_def idle_ready_def)
qed

lemma yield_sys_inv:
  assumes inv: "kernel_inv k" and run: "xSchedulerRunning k" and idle: "idle_ready k"
    and cu: "caught_up k" and cur: "uxSchedulerSuspended k \<noteq> 0 \<Longrightarrow> current_ready k"
  shows "ensures (portYIELD k) sys_inv"
proof (cases "uxSchedulerSuspended k = 0")
  case True
  from idle obtain i where "ready k i" by (rule idle_readyE)
  with kernel_invD(1) [OF inv] True show ?thesis
    by (rule vTaskSwitchContext_ensures) (rule switched_sys_inv [OF inv run idle cu])
next
  case False
  then show ?thesis
    using assms by (simp add: vTaskSwitchContext_def sys_inv_def settled_def idle_ready_def
        current_ready_def ready_def caught_up_def)
qed

text \<open>What waking tasks does to the parts of the invariant.\<close>

lemma ready_ticked: "ticked W k k' \<Longrightarrow> ready k' t \<longleftrightarrow> t \<in> W \<or> ready k t"
  using ticked_lists(1) [of W k k' t] ticked_frame(1) [of W k k'] by (auto simp: ready_def)

lemma idle_ready_ticked: "ticked W k k' \<Longrightarrow> idle_ready k \<Longrightarrow> idle_ready k'"
  using ready_ticked ticked_frame(8) by (fastforce simp: idle_ready_def)

lemma current_ready_ticked: "ticked W k k' \<Longrightarrow> current_ready k \<Longrightarrow> current_ready k'"
  using ready_ticked ticked_frame(2) by (fastforce simp: current_ready_def)

lemma idle_ready_simple [simp]:
  "idle_ready (k\<lparr>xYieldPending := b\<rparr>) = idle_ready k"
  "idle_ready (k\<lparr>uxSchedulerSuspended := n\<rparr>) = idle_ready k"
  "idle_ready (k\<lparr>xPendedTicks := n'\<rparr>) = idle_ready k"
  "current_ready (k\<lparr>xYieldPending := b\<rparr>) = current_ready k"
  "current_ready (k\<lparr>uxSchedulerSuspended := n\<rparr>) = current_ready k"
  "current_ready (k\<lparr>xPendedTicks := n'\<rparr>) = current_ready k"
  by (simp_all add: idle_ready_def current_ready_def ready_def)

text \<open>
  The state after the outermost \<open>xTaskResumeAll\<close> and a yield if it did not switch itself: a
  switch has happened in a state in which all that was pending has been handled.
\<close>

definition resumed :: "kernel \<Rightarrow> kernel \<Rightarrow> bool" where
  "resumed k k1 \<longleftrightarrow> kernel_inv k1 \<and> ticked (resume_set k) k k1 \<and> uxSchedulerSuspended k1 = 0 \<and>
     members k1 PendingReadyL = [] \<and> xTickCount k1 = xTickCount k + xPendedTicks k \<and> xPendedTicks k1 = 0"

lemma resume_all_sys_inv:
  assumes inv: "kernel_inv k" and cur: "pxCurrentTCB k = Some c" and susp: "uxSchedulerSuspended k = 1"
    and idle: "idle_ready k" and run: "xSchedulerRunning k"
  shows "ensures (do { (k, y) \<leftarrow> xTaskResumeAll k; if y then Some k else portYIELD k })
    (\<lambda>k'. sys_inv k' \<and> (\<exists>k1 t. resumed k k1 \<and> chosen k1 t \<and> switched t k1 k'))"
  unfolding ensures_bind
proof -
  from idle obtain i where i: "ready k i" by (rule idle_readyE)
  show "ensures (xTaskResumeAll k) (\<lambda>r. ensures (case r of (k, y) \<Rightarrow> if y then Some k else portYIELD k)
      (\<lambda>k'. sys_inv k' \<and> (\<exists>k1 t. resumed k k1 \<and> chosen k1 t \<and> switched t k1 k')))"
  proof (rule ensures_mono [OF xTaskResumeAll_ensures [OF inv cur susp i]])
    fix r
    assume r: "kernel_inv (fst r) \<and> after_switch (\<lambda>k1. kernel_inv k1 \<and> ticked (resume_set k) k k1 \<and>
      uxSchedulerSuspended k1 = 0 \<and> members k1 PendingReadyL = [] \<and>
      xTickCount k1 = xTickCount k + xPendedTicks k \<and> xPendedTicks k1 = 0 \<and>
      (xYieldPending k \<or> (\<exists>t \<in> resume_set k. prio k c < prio k t) \<longrightarrow> xYieldPending k1)) r"
    obtain k2 y where k2: "r = (k2, y)" by (cases r)
    have keep: "idle_ready k1 \<and> xSchedulerRunning k1" if "resumed k k1" for k1
      using that idle run idle_ready_ticked ticked_frame(7) unfolding resumed_def by metis
    have fin: "sys_inv k'" if "resumed k k1" "chosen k1 t" "switched t k1 k'" for k1 t k'
      using switched_sys_inv [OF _ _ _ _ that(2,3)] keep [OF that(1)] that(1)
      by (simp add: resumed_def caught_up_def)
    show "ensures (case r of (k, y) \<Rightarrow> if y then Some k else portYIELD k)
        (\<lambda>k'. sys_inv k' \<and> (\<exists>k1 t. resumed k k1 \<and> chosen k1 t \<and> switched t k1 k'))"
    proof (cases y)
      case True
      with r k2 obtain k1 t where "resumed k k1" "chosen k1 t" "switched t k1 k2"
        by (auto simp: after_switch_def resumed_def)
      with fin True k2 show ?thesis by auto
    next
      case False
      with r k2 have rs: "resumed k k2" by (auto simp: after_switch_def resumed_def)
      from keep [OF rs] obtain j where j: "ready k2 j" by (auto elim: idle_readyE)
      have "ensures (portYIELD k2) (\<lambda>k'. sys_inv k' \<and> (\<exists>k1 t. resumed k k1 \<and> chosen k1 t \<and> switched t k1 k'))"
      proof (rule vTaskSwitchContext_ensures [OF _ _ j])
        show "kernel_core k2" "uxSchedulerSuspended k2 = 0"
          using rs by (simp_all add: resumed_def kernel_invD)
        fix k' t assume "chosen k2 t" "switched t k2 k'"
        with fin rs show "sys_inv k' \<and> (\<exists>k1 t. resumed k k1 \<and> chosen k1 t \<and> switched t k1 k')" by blast
      qed
      with False k2 show ?thesis by simp
    qed
  qed
qed

section \<open>Blocking the running task\<close>

text \<open>Where a task that waits \<open>w\<close> ticks from now goes.\<close>

definition wait_list :: "kernel \<Rightarrow> tick \<Rightarrow> bool \<Rightarrow> list_id" where
  "wait_list k w indef =
     (if w = portMAX_DELAY \<and> indef then SuspendedL
      else if xTickCount k + w < xTickCount k then pxOverflowDelayedTaskList k
      else pxDelayedTaskList k)"

text \<open>The effect of \<open>prvAddCurrentTaskToDelayedList\<close>; \<open>e\<close> is where the event item is.\<close>

definition blocked :: "task \<Rightarrow> tick \<Rightarrow> bool \<Rightarrow> list_id option \<Rightarrow> kernel \<Rightarrow> kernel \<Rightarrow> bool" where
  "blocked c w indef e k k' \<longleftrightarrow>
     (\<forall>t. state_list k' t = (if t = c then Some (wait_list k w indef) else state_list k t)) \<and>
     (\<forall>t. event_list k' t = (if t = c then e else event_list k t)) \<and>
     (\<forall>t. wake_time k' t = (if t = c \<and> wait_list k w indef \<noteq> SuspendedL then xTickCount k + w else wake_time k t)) \<and>
     tcbs k' = (tcbs k)(c := (tcbs k c)\<lparr>ucDelayAborted := False\<rparr>) \<and>
     (\<forall>t. t \<noteq> c \<longrightarrow> item_value (lists k') (EventI t) = item_value (lists k) (EventI t)) \<and>
     (\<forall>l. \<not> is_event_list l \<and> l \<noteq> wait_list k w indef \<longrightarrow> members k' l = remove1 (StateI c) (members k l)) \<and>
     (\<forall>l. is_event_list l \<and> e \<noteq> Some l \<longrightarrow> members k' l = remove1 (EventI c) (members k l)) \<and>
     k' = k\<lparr>lists := lists k', tcbs := tcbs k', xNextTaskUnblockTime := xNextTaskUnblockTime k'\<rparr> \<and>
     xNextTaskUnblockTime k' =
       (if wait_list k w indef = pxDelayedTaskList k then min (xNextTaskUnblockTime k) (xTickCount k + w)
        else xNextTaskUnblockTime k)"

lemma blocked_lists:
  assumes "blocked c w indef e k k'"
  shows "state_list k' t = (if t = c then Some (wait_list k w indef) else state_list k t)"
    "event_list k' t = (if t = c then e else event_list k t)"
    "wake_time k' t = (if t = c \<and> wait_list k w indef \<noteq> SuspendedL then xTickCount k + w else wake_time k t)"
    "tcbs k' = (tcbs k)(c := (tcbs k c)\<lparr>ucDelayAborted := False\<rparr>)"
    "xNextTaskUnblockTime k' =
       (if wait_list k w indef = pxDelayedTaskList k then min (xNextTaskUnblockTime k) (xTickCount k + w)
        else xNextTaskUnblockTime k)"
    "is_event_list l \<Longrightarrow> e \<noteq> Some l \<Longrightarrow> members k' l = remove1 (EventI c) (members k l)"
  using assms unfolding blocked_def by blast+

lemma blocked_frame:
  assumes "blocked c w indef e k k'"
  shows "pxCurrentTCB k' = pxCurrentTCB k" "pxDelayedTaskList k' = pxDelayedTaskList k"
    "pxOverflowDelayedTaskList k' = pxOverflowDelayedTaskList k" "xTickCount k' = xTickCount k"
    "uxSchedulerSuspended k' = uxSchedulerSuspended k" "xYieldPending k' = xYieldPending k"
    "xPendedTicks k' = xPendedTicks k" "uxTopReadyPriority k' = uxTopReadyPriority k"
    "xNumOfOverflows k' = xNumOfOverflows k"
    "uxDeletedTasksWaitingCleanUp k' = uxDeletedTasksWaitingCleanUp k"
    "uxCurrentNumberOfTasks k' = uxCurrentNumberOfTasks k" "uxTaskNumber k' = uxTaskNumber k"
    "xSchedulerRunning k' = xSchedulerRunning k" "xIdleTaskHandle k' = xIdleTaskHandle k"
proof -
  from assms obtain L T n where k': "k' = k\<lparr>lists := L, tcbs := T, xNextTaskUnblockTime := n\<rparr>"
    unfolding blocked_def by blast
  show "pxCurrentTCB k' = pxCurrentTCB k" "pxDelayedTaskList k' = pxDelayedTaskList k"
    "pxOverflowDelayedTaskList k' = pxOverflowDelayedTaskList k" "xTickCount k' = xTickCount k"
    "uxSchedulerSuspended k' = uxSchedulerSuspended k" "xYieldPending k' = xYieldPending k"
    "xPendedTicks k' = xPendedTicks k" "uxTopReadyPriority k' = uxTopReadyPriority k"
    "xNumOfOverflows k' = xNumOfOverflows k"
    "uxDeletedTasksWaitingCleanUp k' = uxDeletedTasksWaitingCleanUp k"
    "uxCurrentNumberOfTasks k' = uxCurrentNumberOfTasks k" "uxTaskNumber k' = uxTaskNumber k"
    "xSchedulerRunning k' = xSchedulerRunning k" "xIdleTaskHandle k' = xIdleTaskHandle k"
    by (simp_all add: k')
qed

lemma ready_blocked: "blocked c w indef e k k' \<Longrightarrow> t \<noteq> c \<Longrightarrow> ready k' t = ready k t"
  using blocked_lists(1,4) [of c w indef e k k'] by (simp add: ready_def)

text \<open>The list part, for whatever the caller did to the event item before.\<close>

lemma add_current_to_delayed:
  assumes li: "lists_inv (lists k)" and cur: "pxCurrentTCB k = Some c" and st: "state_list k c \<noteq> None"
    and ptrs: "pxDelayedTaskList k \<noteq> SuspendedL" "pxOverflowDelayedTaskList k \<noteq> SuspendedL"
      "pxOverflowDelayedTaskList k \<noteq> pxDelayedTaskList k"
    and post: "\<And>L' n. \<lbrakk>lists_inv L'; container L' = (container (lists k))(StateI c \<mapsto> wait_list k w indef);
        item_value L' = (if wait_list k w indef = SuspendedL then item_value (lists k)
                         else (item_value (lists k))(StateI c := xTickCount k + w));
        \<And>l. l \<noteq> wait_list k w indef \<Longrightarrow> items L' l = remove1 (StateI c) (members k l);
        n = (if wait_list k w indef = pxDelayedTaskList k then min (xNextTaskUnblockTime k) (xTickCount k + w)
             else xNextTaskUnblockTime k)\<rbrakk>
      \<Longrightarrow> Q (k\<lparr>tcbs := (tcbs k)(c := (tcbs k c)\<lparr>ucDelayAborted := False\<rparr>), lists := L',
              xNextTaskUnblockTime := n\<rparr>)"
  shows "ensures (prvAddCurrentTaskToDelayedList w indef k) Q"
proof -
  let ?k = "upd_tcb c (\<lambda>b. b\<lparr>ucDelayAborted := False\<rparr>) k"
  show ?thesis
    unfolding prvAddCurrentTaskToDelayedList_def cur Option.bind.bind_lunit Let_def ensures_bind
  proof (rule k_list_remove_ensures, goal_cases)
    case (3 L1)
    then have L1: "lists_inv L1" "container L1 = (container (lists k))(StateI c := None)"
      "item_value L1 = item_value (lists k)" "\<And>l. items L1 l = remove1 (StateI c) (members k l)" by simp_all
    show ?case
    proof -
      consider (ind) "w = portMAX_DELAY \<and> indef"
        | (over) "\<not> (w = portMAX_DELAY \<and> indef)" "xTickCount k + w < xTickCount k"
        | (del) "\<not> (w = portMAX_DELAY \<and> indef)" "\<not> xTickCount k + w < xTickCount k" by blast
      then show ?thesis
      proof cases
        case ind
        then have wl: "wait_list k w indef = SuspendedL" by (simp add: wait_list_def)
        have "Q (k\<lparr>tcbs := (tcbs k)(c := (tcbs k c)\<lparr>ucDelayAborted := False\<rparr>),
            lists := list_insert_end SuspendedL (StateI c) L1,
            xNextTaskUnblockTime := xNextTaskUnblockTime k\<rparr>)"
          by (rule post) (use L1 ptrs ptrs [symmetric] in \<open>simp_all add: wl list_frame fun_eq_iff\<close>)
        with ind show ?thesis by simp
      next
        case over
        then have wl: "wait_list k w indef = pxOverflowDelayedTaskList k" by (auto simp: wait_list_def)
        have "Q (k\<lparr>tcbs := (tcbs k)(c := (tcbs k c)\<lparr>ucDelayAborted := False\<rparr>),
            lists := list_insert (pxOverflowDelayedTaskList k) (StateI c) (list_set_value (StateI c) (xTickCount k + w) L1),
            xNextTaskUnblockTime := xNextTaskUnblockTime k\<rparr>)"
          by (rule post) (use L1 ptrs ptrs [symmetric] in \<open>simp_all add: wl list_frame fun_eq_iff\<close>)
        with over show ?thesis by auto
      next
        case del
        then have wl: "wait_list k w indef = pxDelayedTaskList k" by (auto simp: wait_list_def)
        have "Q (k\<lparr>tcbs := (tcbs k)(c := (tcbs k c)\<lparr>ucDelayAborted := False\<rparr>),
            lists := list_insert (pxDelayedTaskList k) (StateI c) (list_set_value (StateI c) (xTickCount k + w) L1),
            xNextTaskUnblockTime := min (xNextTaskUnblockTime k) (xTickCount k + w)\<rparr>)"
          by (rule post) (use L1 ptrs ptrs [symmetric] in \<open>simp_all add: wl list_frame fun_eq_iff\<close>)
        with del show ?thesis
          by (cases "xNextTaskUnblockTime k \<le> xTickCount k + w") (auto simp: not_less)
      qed
    qed
  qed (use li st in simp_all)
qed

text \<open>
  Blocking the ready running task, with its event item still free or just put into an event
  list: the invariant holds again. A wait of zero ticks is excluded; every caller tests it.
\<close>

lemma wait_list_not_event [simp]: "kernel_core k \<Longrightarrow> \<not> is_event_list (wait_list k w b)"
  by (auto simp: wait_list_def)

lemma wait_list_not_ready [simp]: "kernel_core k \<Longrightarrow> wait_list k w b \<noteq> ReadyL p"
  by (auto simp: wait_list_def)

lemma wait_list_not_term [simp]: "kernel_core k \<Longrightarrow> wait_list k w b \<noteq> TerminationL"
  by (auto simp: wait_list_def)

lemma wake_after_now:
  fixes t w :: tick
  assumes "w \<noteq> 0" and "\<not> t + w < t" shows "t < t + w"
proof -
  have "t + w \<noteq> t" using assms(1) by simp
  with assms(2) show ?thesis by (metis linorder_neqE)
qed

lemma blocked_inv:
  assumes inv: "kernel_inv k" and c: "ready k c" and w: "w \<noteq> 0"
    and b: "blocked c w indef e k k'" and li: "lists_inv (lists k')"
    and e: "\<And>l. e = Some l \<Longrightarrow> is_event_list l \<and> (l \<noteq> PendingReadyL \<or> uxSchedulerSuspended k \<noteq> 0)"
  shows "kernel_inv k'"
proof -
  note bl = blocked_lists [OF b] and bf = blocked_frame [OF b]
  have core: "kernel_core k" using inv by (rule kernel_invD)
  have cok: "task_ok k c" using core by (rule kernel_core_task)
  have "kernel_core k'"
  proof (rule kernel_coreI [OF core li, where t = c])
    show "same_task k k' t'" if "t' \<noteq> c" for t' using that bl by (simp add: same_task_def)
    show "task_ok k' c" using cok core e by (auto simp: task_ok_def bl)
    show "(state_list k' c = None) = (state_list k c = None)" using c by (simp add: bl ready_def)
    show "(state_list k' c = Some TerminationL) = (state_list k c = Some TerminationL)"
      using c core by (simp add: bl ready_def)
  qed (use bf core in \<open>simp_all add: kernel_core_def\<close>)
  moreover have "wake_ok k' t" for t
  proof (cases "t = c")
    case False
    with kernel_invD(2) [OF inv, of t] show ?thesis
      by (auto simp: wake_ok_def bl bf intro: min.coboundedI1)
  next
    case True
    show ?thesis
      using core wake_after_now [OF w, of "xTickCount k"] kernel_core_delayed(3) [OF core]
        kernel_core_delayed(3) [OF core, symmetric]
      by (auto simp: True wake_ok_def bl bf wait_list_def)
  qed
  moreover have "pending_ok k'"
  proof (cases "uxSchedulerSuspended k = 0")
    case True
    then have "e \<noteq> Some PendingReadyL" using e by auto
    with kernel_invD(3) [OF inv] show ?thesis
      using bl(6) [of PendingReadyL] by (auto simp: pending_ok_def bf)
  qed (simp add: pending_ok_def bf)
  moreover have "next_ok k'"
  proof -
    have "xTickCount k < xTickCount k + w" if "wait_list k w indef = pxDelayedTaskList k"
      using that core wake_after_now [OF w, of "xTickCount k"] kernel_core_delayed(3) [OF core]
      by (auto simp: wait_list_def split: if_splits)
    then show ?thesis
      using kernel_invD(4) [OF inv] by (auto simp: next_ok_def bl bf)
  qed
  ultimately show ?thesis by (simp add: kernel_inv_def)
qed

text \<open>The three ways the kernel blocks the running task, as one rule each.\<close>

definition blockable :: "kernel \<Rightarrow> task \<Rightarrow> bool" where
  "blockable k c \<longleftrightarrow> kernel_inv k \<and> pxCurrentTCB k = Some c \<and> ready k c \<and> event_list k c = None"

lemma block_in_place:
  assumes inv: "kernel_inv k" and cur: "pxCurrentTCB k = Some c" and rd: "ready k c" and w: "w \<noteq> 0"
    and ev: "event_list k c = None \<or> uxSchedulerSuspended k \<noteq> 0"
    and post: "\<And>k'. kernel_inv k' \<Longrightarrow> blocked c w indef (event_list k c) k k' \<Longrightarrow> Q k'"
  shows "ensures (prvAddCurrentTaskToDelayedList w indef k) Q"
proof -
  have core: "kernel_core k" using inv by (rule kernel_invD)
  note nd = delayed_not_other(2,6) [OF core] kernel_core_delayed(3) [OF core]
  note tok = kernel_core_task [OF core, of c]
  have e: "is_event_list l \<and> (l \<noteq> PendingReadyL \<or> uxSchedulerSuspended k \<noteq> 0)" if "event_list k c = Some l" for l
    using that ev task_okD(2) [OF tok] by auto
  show ?thesis
  proof (rule add_current_to_delayed [OF kernel_core_lists [OF core] cur])
    show "state_list k c \<noteq> None" using rd by (simp add: ready_def)
    fix L' n
    assume L': "lists_inv L'" "container L' = (container (lists k))(StateI c \<mapsto> wait_list k w indef)"
      "item_value L' = (if wait_list k w indef = SuspendedL then item_value (lists k)
                         else (item_value (lists k))(StateI c := xTickCount k + w))"
      "\<And>l. l \<noteq> wait_list k w indef \<Longrightarrow> items L' l = remove1 (StateI c) (members k l)"
      "n = (if wait_list k w indef = pxDelayedTaskList k then min (xNextTaskUnblockTime k) (xTickCount k + w)
             else xNextTaskUnblockTime k)"
    let ?k' = "k\<lparr>tcbs := (tcbs k)(c := (tcbs k c)\<lparr>ucDelayAborted := False\<rparr>), lists := L', xNextTaskUnblockTime := n\<rparr>"
    have "EventI c \<notin> set (members k l)" if "event_list k c \<noteq> Some l" for l
      using that member_iff(2) [OF core, of c l] by simp
    moreover have "StateI c \<notin> set (members k l)" if "is_event_list l" for l
      using event_member [OF core _ that, of "StateI c"] by auto
    moreover have "l \<noteq> wait_list k w indef" if "is_event_list l" for l
      using that core wait_list_not_event by blast
    ultimately have "blocked c w indef (event_list k c) k ?k'"
      using L' by (auto simp: blocked_def remove1_idem)
    moreover from blocked_inv [OF inv rd w this _ e] L'(1) have "kernel_inv ?k'" by simp
    ultimately show "Q ?k'" by (intro post)
  qed (use nd in simp_all)
qed

lemma block_plain:
  assumes b: "blockable k c" and w: "w \<noteq> 0"
    and post: "\<And>k'. kernel_inv k' \<Longrightarrow> blocked c w indef None k k' \<Longrightarrow> Q k'"
  shows "ensures (prvAddCurrentTaskToDelayedList w indef k) Q"
  by (rule block_in_place [where c = c]) (use b w post in \<open>simp_all add: blockable_def\<close>)

text \<open>Putting the event item somewhere first; \<open>f\<close> is \<open>vListInsert\<close> or \<open>vListInsertEnd\<close>.\<close>

lemma block_event:
  assumes b: "blockable k c" and w: "w \<noteq> 0" and l: "is_event_list l" "l \<noteq> PendingReadyL"
    and ins: "lists_inv L" "container L = (container (lists k))(EventI c \<mapsto> l)"
      "\<And>i. i \<noteq> EventI c \<Longrightarrow> item_value L i = item_value (lists k) i"
      "\<And>l'. l' \<noteq> l \<Longrightarrow> items L l' = members k l'"
    and post: "\<And>k'. kernel_inv k' \<Longrightarrow> blocked c w indef (Some l) k k' \<Longrightarrow> members k' l = items L l \<Longrightarrow>
        item_value (lists k') (EventI c) = item_value L (EventI c) \<Longrightarrow> Q k'"
  shows "ensures (prvAddCurrentTaskToDelayedList w indef (k\<lparr>lists := L\<rparr>)) Q"
proof -
  have inv: "kernel_inv k" and cur: "pxCurrentTCB k = Some c" and rd: "ready k c" and ev: "event_list k c = None"
    using b by (simp_all add: blockable_def)
  have core: "kernel_core k" using inv by (rule kernel_invD)
  note nd = delayed_not_other(2,6) [OF core] kernel_core_delayed(3) [OF core]
  have wl: "wait_list (k\<lparr>lists := L\<rparr>) w indef = wait_list k w indef" by (simp add: wait_list_def)
  have lw: "l \<noteq> wait_list k w indef" using l core wait_list_not_event by blast
  show ?thesis
  proof (rule add_current_to_delayed, unfold wl)
    show "lists_inv (lists (k\<lparr>lists := L\<rparr>))" "pxCurrentTCB (k\<lparr>lists := L\<rparr>) = Some c" using ins cur by simp_all
    show "state_list (k\<lparr>lists := L\<rparr>) c \<noteq> None" using rd ins by (simp add: ready_def)
    fix L' n
    assume L'0: "lists_inv L'"
      "container L' = (container (lists (k\<lparr>lists := L\<rparr>)))(StateI c \<mapsto> wait_list k w indef)"
      "item_value L' = (if wait_list k w indef = SuspendedL then item_value (lists (k\<lparr>lists := L\<rparr>))
            else (item_value (lists (k\<lparr>lists := L\<rparr>)))(StateI c := xTickCount (k\<lparr>lists := L\<rparr>) + w))"
      "\<And>l. l \<noteq> wait_list k w indef \<Longrightarrow> items L' l = remove1 (StateI c) (members (k\<lparr>lists := L\<rparr>) l)"
      "n = (if wait_list k w indef = pxDelayedTaskList (k\<lparr>lists := L\<rparr>)
            then min (xNextTaskUnblockTime (k\<lparr>lists := L\<rparr>)) (xTickCount (k\<lparr>lists := L\<rparr>) + w)
            else xNextTaskUnblockTime (k\<lparr>lists := L\<rparr>))"
    then have L': "container L' = (container (lists k))(EventI c \<mapsto> l, StateI c \<mapsto> wait_list k w indef)"
      "\<And>i. i \<noteq> EventI c \<Longrightarrow> item_value L' i = (if wait_list k w indef = SuspendedL then item_value (lists k) i
                         else ((item_value (lists k))(StateI c := xTickCount k + w)) i)"
      "item_value L' (EventI c) = item_value L (EventI c)"
      "\<And>l'. l' \<noteq> wait_list k w indef \<Longrightarrow> l' \<noteq> l \<Longrightarrow> items L' l' = remove1 (StateI c) (members k l')"
      "n = (if wait_list k w indef = pxDelayedTaskList k then min (xNextTaskUnblockTime k) (xTickCount k + w)
             else xNextTaskUnblockTime k)"
      using ins by auto
    let ?k' = "(k\<lparr>lists := L\<rparr>)\<lparr>tcbs := (tcbs (k\<lparr>lists := L\<rparr>))(c := (tcbs (k\<lparr>lists := L\<rparr>) c)\<lparr>ucDelayAborted := False\<rparr>),
      lists := L', xNextTaskUnblockTime := n\<rparr>"
    have "EventI c \<notin> set (members k l')" for l'
      using ev lists_wf_not_in [OF lists_inv_wf [OF kernel_core_lists [OF core]]] by simp
    moreover have nsi: "StateI c \<notin> set (members k l')" if "is_event_list l'" for l'
      using event_member [OF core _ that, of "StateI c"] by auto
    moreover have "l' \<noteq> wait_list k w indef" if "is_event_list l'" for l'
      using that core wait_list_not_event by blast
    moreover have "l' \<noteq> l" if "\<not> is_event_list l'" for l' using that l by auto
    ultimately have bl: "blocked c w indef (Some l) k ?k'"
      using L' ev l by (auto simp: blocked_def remove1_idem)
    from blocked_inv [OF inv rd w this] L'0(1) l have "kernel_inv ?k'" by simp
    moreover have "members ?k' l = items L l"
    proof -
      have "StateI c \<notin> set (items L l)"
        using lists_wf_container [OF lists_inv_wf [OF ins(1)], of "StateI c" l] ins(2) rd l
        by (auto simp: ready_def)
      then show ?thesis using L'0(4) lw by (simp add: remove1_idem)
    qed
    ultimately show "Q ?k'" using bl L'(3) by (intro post) simp_all
  qed (use nd in simp_all)
qed

section \<open>Delays\<close>

lemma no_pending: "kernel_inv k \<Longrightarrow> uxSchedulerSuspended k = 0 \<Longrightarrow> pending_tasks k = {}"
  by (metis kernel_invD(1,3) pending_ok_def pending_tasks_empty)

lemma resume_set_none:
  "kernel_inv k \<Longrightarrow> pending_tasks k = {} \<Longrightarrow> xPendedTicks k = 0 \<Longrightarrow> resume_set k = {}"
  by (simp add: resume_set_def waking_by_0)

lemma sys_blockable:
  assumes s: "sys_inv k" and run: "uxSchedulerSuspended k = 0" and cur: "pxCurrentTCB k = Some c"
  shows "blockable k c" "blockable (vTaskSuspendAll k) c"
proof -
  have inv: "kernel_inv k" and core: "kernel_core k" using sys_invD [OF s] by blast+
  have rd: "ready k c" using sys_invD(5) [OF s] cur by (auto simp: current_ready_def)
  have "event_list k c \<noteq> Some PendingReadyL" using no_pending [OF inv run] by (auto simp: pending_tasks_def)
  then have ev: "event_list k c = None"
    using task_okD(7) [OF kernel_core_task [OF core]] rd unfolding ready_def by blast
  then show "blockable k c" using inv cur rd by (simp add: blockable_def)
  have "kernel_inv (vTaskSuspendAll k)"
    using inv by (simp add: kernel_inv_def vTaskSuspendAll_def pending_ok_def next_ok_def)
  with ev cur rd show "blockable (vTaskSuspendAll k) c" by (simp add: blockable_def vTaskSuspendAll_def ready_def)
qed

lemma ticked_none:
  assumes "ticked {} k k1"
  shows "state_list k1 t = state_list k t" "event_list k1 t = event_list k t" "wake_time k1 t = wake_time k t"
    "tcbs k1 = tcbs k"
  using ticked_lists(1,2) [OF assms, of t] ticked_frame(1,3) [OF assms] by simp_all

lemma switched_same:
  assumes "switched t k k'"
  shows "state_list k' t' = state_list k t'" "event_list k' t' = event_list k t'"
    "item_value (lists k') = item_value (lists k)" "tcbs k' = tcbs k" "xTickCount k' = xTickCount k"
    "uxSchedulerSuspended k' = uxSchedulerSuspended k" "xIdleTaskHandle k' = xIdleTaskHandle k"
    "pxDelayedTaskList k' = pxDelayedTaskList k" "pxOverflowDelayedTaskList k' = pxOverflowDelayedTaskList k"
    "members k' l = members k l" "xPendedTicks k' = xPendedTicks k"
  using assms by (simp_all add: switched_def)

text \<open>Locking the scheduler, blocking for a time and resuming: what delaying a task does.\<close>

lemma delay_current:
  assumes s: "sys_inv k" and run: "uxSchedulerSuspended k = 0" and cur: "pxCurrentTCB k = Some c"
    and ni: "xIdleTaskHandle k \<noteq> Some c" and w: "w \<noteq> 0"
  shows "ensures (do { k1 \<leftarrow> prvAddCurrentTaskToDelayedList w False (vTaskSuspendAll k);
      (k2, y) \<leftarrow> xTaskResumeAll k1;
      if y then Some k2 else portYIELD k2 })
    (\<lambda>k'. sys_inv k' \<and> timed k' c \<and> ticks_left k' c = unat w \<and> uxSchedulerSuspended k' = 0 \<and> xTickCount k' = xTickCount k \<and>
       (\<forall>t. t \<noteq> c \<longrightarrow> state_list k' t = state_list k t \<and> event_list k' t = event_list k t))"
  unfolding ensures_bind [of "prvAddCurrentTaskToDelayedList _ _ _"]
proof (rule block_plain [OF sys_blockable(2) [OF s run cur] w])
  fix k1 assume inv1: "kernel_inv k1" and b: "blocked c w False None (vTaskSuspendAll k) k1"
  note bl = blocked_lists [OF b] and bf = blocked_frame [OF b]
  have p0: "xPendedTicks k = 0" using sys_invD(7) [OF s] run by (simp add: caught_up_def)
  have "pending_tasks k1 = {}"
    using no_pending [OF sys_invD(1) [OF s] run] by (auto simp: pending_tasks_def bl vTaskSuspendAll_def)
  then have none: "resume_set k1 = {}"
    using inv1 p0 by (simp add: resume_set_none bf vTaskSuspendAll_def)
  have idle: "idle_ready k1"
    using sys_invD(4) [OF s] ready_blocked [OF b] ni
    by (auto simp: idle_ready_def bf vTaskSuspendAll_def ready_def)
  have wl: "wait_list (vTaskSuspendAll k) w False \<in> {pxDelayedTaskList k, pxOverflowDelayedTaskList k}"
    by (simp add: wait_list_def vTaskSuspendAll_def)
  have ns: "wait_list (vTaskSuspendAll k) w False \<noteq> SuspendedL"
    using wl sys_invD(2) [OF s] by auto
  show "ensures (do { (k2, y) \<leftarrow> xTaskResumeAll k1; if y then Some k2 else portYIELD k2 })
    (\<lambda>k'. sys_inv k' \<and> timed k' c \<and> ticks_left k' c = unat w \<and> uxSchedulerSuspended k' = 0 \<and> xTickCount k' = xTickCount k \<and>
       (\<forall>t. t \<noteq> c \<longrightarrow> state_list k' t = state_list k t \<and> event_list k' t = event_list k t))"
  proof (rule ensures_mono [OF resume_all_sys_inv [OF inv1 _ _ idle]])
    show "pxCurrentTCB k1 = Some c" "uxSchedulerSuspended k1 = 1" "xSchedulerRunning k1"
      using cur run bf sys_invD(3) [OF s] by (simp_all add: vTaskSuspendAll_def)
    fix k' assume k': "sys_inv k' \<and> (\<exists>k2 t. resumed k1 k2 \<and> chosen k2 t \<and> switched t k2 k')"
    then obtain k2 t where k2: "resumed k1 k2" "switched t k2 k'" by blast
    then have tk: "ticked {} k1 k2" and tick: "xTickCount k2 = xTickCount k"
      using none p0 by (simp_all add: resumed_def bf vTaskSuspendAll_def)
    note same = ticked_none [OF tk] switched_same [OF k2(2)]
    have dl: "{pxDelayedTaskList k, pxOverflowDelayedTaskList k} = {DelayedL1, DelayedL2}"
      using sys_invD(2) [OF s] by (auto simp: kernel_core_def)
    have "timed k' c"
      using wl k' unfolding dl by (auto simp: timed_iff sys_invD same bl)
    moreover have "ticks_left k' c = unat w"
      using ns by (simp add: ticks_left_def same bl tick, simp add: vTaskSuspendAll_def)
    moreover have "state_list k' t' = state_list k t' \<and> event_list k' t' = event_list k t'" if "t' \<noteq> c" for t'
      using that by (simp add: same bl, simp add: vTaskSuspendAll_def)
    moreover have "xTickCount k' = xTickCount k" "uxSchedulerSuspended k' = 0"
      using k2(1) by (simp_all add: same tick resumed_def)
    ultimately show "sys_inv k' \<and> timed k' c \<and> ticks_left k' c = unat w \<and> uxSchedulerSuspended k' = 0 \<and> xTickCount k' = xTickCount k \<and>
       (\<forall>t. t \<noteq> c \<longrightarrow> state_list k' t = state_list k t \<and> event_list k' t = event_list k t)"
      using k' by blast
  qed
qed

lemma vTaskDelay_ensures:
  assumes s: "sys_inv k" and run: "uxSchedulerSuspended k = 0" and cur: "pxCurrentTCB k = Some c"
    and ni: "xIdleTaskHandle k \<noteq> Some c"
  shows "ensures (vTaskDelay n k) (\<lambda>k'. sys_inv k' \<and> uxSchedulerSuspended k' = 0 \<and> xTickCount k' = xTickCount k \<and>
    (if n = 0 then ready k' c else timed k' c \<and> ticks_left k' c = unat n) \<and>
    (\<forall>t. t \<noteq> c \<longrightarrow> state_list k' t = state_list k t \<and> event_list k' t = event_list k t))"
proof (cases "n = 0")
  case True
  from sys_invD(4) [OF s] obtain i where i: "ready k i" by (rule idle_readyE)
  have "ensures (portYIELD k) (\<lambda>k'. sys_inv k' \<and> uxSchedulerSuspended k' = 0 \<and> xTickCount k' = xTickCount k \<and> ready k' c \<and>
    (\<forall>t. t \<noteq> c \<longrightarrow> state_list k' t = state_list k t \<and> event_list k' t = event_list k t))"
  proof (rule vTaskSwitchContext_ensures [OF sys_invD(2) [OF s] run i])
    fix k' t assume c: "chosen k t" "switched t k k'"
    then show "sys_inv k' \<and> uxSchedulerSuspended k' = 0 \<and> xTickCount k' = xTickCount k \<and> ready k' c \<and>
      (\<forall>t. t \<noteq> c \<longrightarrow> state_list k' t = state_list k t \<and> event_list k' t = event_list k t)"
      using switched_sys_inv [OF sys_invD(1,3,4,7) [OF s] c] switched_same [OF c(2)] run
        sys_invD(5) [OF s] cur ready_switched [OF c(2)] by (auto simp: current_ready_def)
  qed
  with True show ?thesis by (simp add: vTaskDelay_def)
next
  case False
  then have "0 < n" by (simp add: word_gt_0)
  moreover have "uxSchedulerSuspended (vTaskSuspendAll k) = 1" using run by (simp add: vTaskSuspendAll_def)
  ultimately have d: "vTaskDelay n k = do { k1 \<leftarrow> prvAddCurrentTaskToDelayedList n False (vTaskSuspendAll k);
      (k2, y) \<leftarrow> xTaskResumeAll k1; if y then Some k2 else portYIELD k2 }"
    by (simp add: vTaskDelay_def Let_def)
  show ?thesis
    unfolding d by (rule ensures_mono [OF delay_current [OF s run cur ni False]]) (use False in simp)
qed

text \<open>
  \<open>xTaskDelayUntil\<close> delays exactly when the next wake-up time still lies ahead, counted from
  the previous one, also when the tick counter has wrapped in between: \<open>d\<close> is the time that has
  passed since the previous wake-up.
\<close>

lemma delay_until_decision:
  fixes prev inc now :: tick
  assumes inc: "inc > 0"
  shows "(if now < prev then prev + inc < prev \<and> prev + inc > now else prev + inc < prev \<or> prev + inc > now)
    \<longleftrightarrow> unat (now - prev) < unat inc"
proof -
  have sub: "unat (now - prev) = (if prev \<le> now then unat now - unat prev else unat now + 2 ^ 32 - unat prev)"
    using unat_tick_bound [of prev] unat_tick_bound [of now] by (simp add: unat_sub_if' word_le_nat_alt)
  have add: "unat (prev + inc) = (if unat prev + unat inc < 2 ^ 32 then unat prev + unat inc
      else unat prev + unat inc - 2 ^ 32)"
    using unat_tick_bound [of prev] unat_tick_bound [of inc] by (simp add: unat_plus_if')
  show ?thesis
    using inc unat_tick_bound [of prev] unat_tick_bound [of inc] unat_tick_bound [of now]
    unfolding word_less_nat_alt sub add word_le_nat_alt by (auto split: if_splits)
qed

end
