(* ===== verification/Task_Control.thy ===== *)
theory Task_Control
  imports Task_Block
begin

text \<open>
  What the calls of Task_Block that act on another task do: suspending, resuming, setting a
  priority, aborting a delay; and the tick interrupt of the native port. Each theorem says
  that no assertion fails, that the system invariant holds afterwards, and what changed.
\<close>

section \<open>Periodic delays\<close>

lemma resume_without_block:
  assumes s: "sys_inv k" and run: "uxSchedulerSuspended k = 0"
  shows "ensures (do { (k2, y) \<leftarrow> xTaskResumeAll (vTaskSuspendAll k); if y then Some k2 else portYIELD k2 })
    (\<lambda>k'. sys_inv k' \<and> xTickCount k' = xTickCount k \<and>
      (\<forall>t. state_list k' t = state_list k t \<and> event_list k' t = event_list k t))"
proof -
  let ?k1 = "vTaskSuspendAll k"
  from sys_invD(5) [OF s] obtain c where cur: "pxCurrentTCB k = Some c" by (rule current_readyE)
  have inv1: "kernel_inv ?k1" using sys_blockable(2) [OF s run cur] by (simp add: blockable_def)
  have p0: "xPendedTicks k = 0" using sys_invD(7) [OF s] run by (simp add: caught_up_def)
  have "pending_tasks ?k1 = {}"
    using no_pending [OF sys_invD(1) [OF s] run] by (simp add: pending_tasks_def vTaskSuspendAll_def)
  then have none: "resume_set ?k1 = {}"
    using inv1 p0 by (simp add: resume_set_none vTaskSuspendAll_def)
  have idle: "idle_ready ?k1" using sys_invD(4) [OF s] by (simp add: vTaskSuspendAll_def)
  show ?thesis
  proof (rule ensures_mono [OF resume_all_sys_inv [OF inv1 _ _ idle]])
    show "pxCurrentTCB ?k1 = Some c" "uxSchedulerSuspended ?k1 = 1" "xSchedulerRunning ?k1"
      using cur run sys_invD(3) [OF s] by (simp_all add: vTaskSuspendAll_def)
    fix k' assume k': "sys_inv k' \<and> (\<exists>k2 t. resumed ?k1 k2 \<and> chosen k2 t \<and> switched t k2 k')"
    then obtain k2 t where k2: "resumed ?k1 k2" "switched t k2 k'" by blast
    then have tk: "ticked {} ?k1 k2" and tick: "xTickCount k2 = xTickCount k"
      using none p0 by (simp_all add: resumed_def vTaskSuspendAll_def)
    note same = ticked_none [OF tk] switched_same [OF k2(2)]
    have "xTickCount k' = xTickCount k" by (simp add: same tick)
    moreover have "state_list k' x = state_list k x \<and> event_list k' x = event_list k x" for x
      by (simp add: same, simp add: vTaskSuspendAll_def)
    ultimately show "sys_inv k' \<and> xTickCount k' = xTickCount k \<and>
      (\<forall>t. state_list k' t = state_list k t \<and> event_list k' t = event_list k t)"
      using k' by blast
  qed
qed

text \<open>
  The flag tells whether the next wake-up time was still ahead; then the task is blocked until
  exactly that time.
\<close>

lemma xTaskDelayUntil_ensures:
  assumes s: "sys_inv k" and run: "uxSchedulerSuspended k = 0" and cur: "pxCurrentTCB k = Some c"
    and ni: "xIdleTaskHandle k \<noteq> Some c" and inc: "inc > 0"
  shows "ensures (xTaskDelayUntil prev inc k) (\<lambda>(k', next, delayed). sys_inv k' \<and>
    xTickCount k' = xTickCount k \<and> next = prev + inc \<and>
    delayed = (unat (xTickCount k - prev) < unat inc) \<and>
    (if delayed then timed k' c \<and> ticks_left k' c = unat inc - unat (xTickCount k - prev) else ready k' c) \<and>
    (\<forall>t. t \<noteq> c \<longrightarrow> state_list k' t = state_list k t \<and> event_list k' t = event_list k t))"
    (is "ensures _ ?Q")
proof -
  let ?now = "xTickCount k"
  let ?d = "if ?now < prev then prev + inc < prev \<and> prev + inc > ?now
            else prev + inc < prev \<or> prev + inc > ?now"
  have dec: "?d \<longleftrightarrow> unat (?now - prev) < unat inc" using inc by (rule delay_until_decision)
  have su: "uxSchedulerSuspended (vTaskSuspendAll k) = 1" "xTickCount (vTaskSuspendAll k) = ?now"
    using run by (simp_all add: vTaskSuspendAll_def)
  have unf: "xTaskDelayUntil prev inc k = do {
     k \<leftarrow> (if ?d then prvAddCurrentTaskToDelayedList (prev + inc - ?now) False (vTaskSuspendAll k)
           else Some (vTaskSuspendAll k));
     (k, y) \<leftarrow> xTaskResumeAll k;
     k \<leftarrow> (if y then Some k else portYIELD k);
     Some (k, prev + inc, ?d) }"
    by (simp only: xTaskDelayUntil_def Let_def su inc configASSERT_True Option.bind.bind_lunit simp_thms)
  have tail: "do { (k, y) \<leftarrow> xTaskResumeAll k1; k \<leftarrow> (if y then Some k else portYIELD k); Some (k, prev + inc, b) }
      = map_option (\<lambda>k. (k, prev + inc, b)) (do { (k, y) \<leftarrow> xTaskResumeAll k1; if y then Some k else portYIELD k })"
    for k1 b by (cases "xTaskResumeAll k1") (auto simp: bind_Some_map)
  show ?thesis
  proof (cases ?d)
    case False
    have "\<not> unat (?now - prev) < unat inc" using False dec by simp
    moreover have "ensures (do { (k2, y) \<leftarrow> xTaskResumeAll (vTaskSuspendAll k); if y then Some k2 else portYIELD k2 })
      (\<lambda>k'. sys_inv k' \<and> ?now = xTickCount k' \<and> ready k' c \<and>
        (\<forall>t. state_list k' t = state_list k t \<and> event_list k' t = event_list k t))"
    proof (rule ensures_mono [OF resume_without_block [OF s run]])
      fix k' assume k': "sys_inv k' \<and> xTickCount k' = ?now \<and>
        (\<forall>t. state_list k' t = state_list k t \<and> event_list k' t = event_list k t)"
      have "ready k c" using sys_invD(5) [OF s] cur by (auto simp: current_ready_def)
      then have "ready k' c" using k' ready_iff sys_invD(2) s by metis
      with k' show "sys_inv k' \<and> ?now = xTickCount k' \<and> ready k' c \<and>
        (\<forall>t. state_list k' t = state_list k t \<and> event_list k' t = event_list k t)" by simp
    qed
    ultimately show ?thesis
      unfolding unf dec if_not_P [OF False [unfolded dec]] Option.bind.bind_lunit tail ensures_map
      using False by (auto elim!: ensures_mono)
  next
    case True
    let ?w = "prev + inc - ?now"
    have lt: "unat (?now - prev) < unat inc" using True dec by simp
    have w: "?w = inc - (?now - prev)" by simp
    have "?now - prev \<le> inc" unfolding word_le_nat_alt using lt by (rule less_imp_le)
    then have uw: "unat ?w = unat inc - unat (?now - prev)" unfolding w by (rule unat_sub)
    have "?w \<noteq> 0"
    proof
      assume "?w = 0"
      then have "unat ?w = 0" by simp
      then show False using uw lt by linarith
    qed
    from delay_current [OF s run cur ni this]
    show ?thesis
      unfolding unf dec if_P [OF lt] tail ensures_bind [of "prvAddCurrentTaskToDelayedList _ _ _"] ensures_map
      using lt uw by (auto elim!: ensures_mono)
  qed
qed

section \<open>Suspending and resuming\<close>

text \<open>Parking a task in the suspended list.\<close>

lemma park_inv:
  assumes core: "kernel_core k" "\<And>x. x \<noteq> t \<Longrightarrow> wake_ok k x" and p: "pending_ok k"
    and live: "state_list k t \<noteq> None" "state_list k t \<noteq> Some TerminationL"
    and d: "detached t (lists k) L'"
    and L: "lists k' = list_insert_end SuspendedL (StateI t) L'"
    and b: "tcbs k' = (tcbs k)(t := (tcbs k t)\<lparr>ucNotifyState := ns\<rparr>)"
      "length ns = configTASK_NOTIFICATION_ARRAY_ENTRIES"
    and k': "k' = k\<lparr>lists := lists k', tcbs := tcbs k', xNextTaskUnblockTime := xNextTaskUnblockTime k'\<rparr>"
    and n: "\<And>x. state_list k' x = Some (pxDelayedTaskList k) \<Longrightarrow> xNextTaskUnblockTime k' \<le> wake_time k x"
    and nok: "next_ok k'"
  shows "kernel_inv k'"
proof -
  obtain T w where kk: "k' = k\<lparr>lists := list_insert_end SuspendedL (StateI t) L', tcbs := T, xNextTaskUnblockTime := w\<rparr>"
    using k' L by metis
  have tok: "task_ok k t" using core(1) by (rule kernel_core_task)
  have cont: "state_list k' x = (if x = t then Some SuspendedL else state_list k x)"
    "event_list k' x = (if x = t then None else event_list k x)" for x
    using d by (simp_all add: L list_frame detached_def)
  have val: "item_value (lists k') = item_value (lists k)" using d by (simp add: L list_frame detached_def)
  have li: "lists_inv (lists k')" using d by (simp add: L detached_def)
  have "kernel_core k'"
  proof (rule kernel_coreI [OF core(1) li, where t = t])
    show "same_task k k' x" if "x \<noteq> t" for x using that cont b by (simp add: same_task_def)
    show "task_ok k' t" using tok b cont by (simp add: task_ok_def)
    show "(state_list k' t = None) = (state_list k t = None)" using live cont by simp
    show "(state_list k' t = Some TerminationL) = (state_list k t = Some TerminationL)" using live cont by simp
  qed (use core(1) in \<open>simp_all add: kk kernel_core_def\<close>)
  moreover have "wake_ok k' x" for x
  proof (cases "x = t")
    case True
    then show ?thesis using cont core(1) by (simp add: wake_ok_def kk)
  next
    case False
    then show ?thesis using core(2) [OF False] n [of x] cont val by (simp add: wake_ok_def kk) 
  qed
  moreover have "pending_ok k'"
    using p d by (auto simp: pending_ok_def kk list_frame detached_def)
  ultimately show ?thesis using nok by (simp add: kernel_inv_def)
qed

lemma clear_waiting_none: "\<not> waits_for_notification (b\<lparr>ucNotifyState := map clear_waiting ns\<rparr>)"
  by (auto simp: waits_for_notification_def clear_waiting_def split: if_splits)

text \<open>
  Suspending a task other than the idle task: it is in the suspended list, waits for no event
  and no notification, and cannot be chosen until it is resumed.
\<close>

lemma vTaskSuspend_ensures:
  assumes s: "sys_inv k" and t: "prvGetTCBFromHandle h k = Some t" and ni: "xIdleTaskHandle k \<noteq> Some t"
    and live: "state_list k t \<noteq> None" "state_list k t \<noteq> Some TerminationL"
    and self: "pxCurrentTCB k = Some t \<Longrightarrow> uxSchedulerSuspended k = 0"
  shows "ensures (vTaskSuspend h k) (\<lambda>k'. sys_inv k' \<and> prvTaskIsTaskSuspended t k' \<and>
    xTickCount k' = xTickCount k \<and> pxCurrentTCB k' \<noteq> Some t \<and>
    (\<forall>x. x \<noteq> t \<longrightarrow> state_list k' x = state_list k x \<and> event_list k' x = event_list k x \<and> tcbs k' x = tcbs k x))"
    (is "ensures _ ?Q")
proof -
  have inv: "kernel_inv k" and core: "kernel_core k" and run: "xSchedulerRunning k"
    using sys_invD [OF s] by blast+
  have tok: "task_ok k t" using core by (rule kernel_core_task)
  have len: "length (ucNotifyState (tcbs k t)) = configTASK_NOTIFICATION_ARRAY_ENTRIES"
    using tok by (simp add: task_ok_def)
  show ?thesis
    unfolding vTaskSuspend_def t Option.bind.bind_lunit
  proof (rule detach_ensures [OF kernel_core_lists [OF core] live(1)])
    fix L' assume d: "detached t (lists k) L'"
    define k0 where "k0 = upd_tcb t (\<lambda>b. b\<lparr>ucNotifyState := map clear_waiting (ucNotifyState b)\<rparr>)
      (k_list_insert_end SuspendedL (StateI t) (k\<lparr>lists := L'\<rparr>))"
    define k1 where "k1 = prvResetNextTaskUnblockTime k0"
    have run0: "xSchedulerRunning k0" using run by (simp add: k0_def)
    have inv0: "kernel_inv k0"
    proof (rule park_inv [OF core kernel_invD(2) [OF inv] kernel_invD(3) [OF inv] live d])
      show "lists k0 = list_insert_end SuspendedL (StateI t) L'" by (simp add: k0_def)
      show "tcbs k0 = (tcbs k)(t := (tcbs k t)\<lparr>ucNotifyState := map clear_waiting (ucNotifyState (tcbs k t))\<rparr>)"
        by (simp add: k0_def)
      show "k0 = k\<lparr>lists := lists k0, tcbs := tcbs k0, xNextTaskUnblockTime := xNextTaskUnblockTime k0\<rparr>"
        by (simp add: k0_def)
      show "next_ok k0" using kernel_invD(4) [OF inv] by (simp add: next_ok_def k0_def)
      fix x assume "state_list k0 x = Some (pxDelayedTaskList k)"
      then have "state_list k x = Some (pxDelayedTaskList k)"
        using d core by (auto simp: k0_def list_frame detached_def split: if_splits)
      then show "xNextTaskUnblockTime k0 \<le> wake_time k x"
        using kernel_invD(2) [OF inv, of x] by (simp add: k0_def wake_ok_def)
    qed (use len in simp)
    have inv1: "kernel_inv k1"
    proof -
      have "wake_ok k1 x" for x
        using kernel_invD(2) [OF inv0, of x] reset_next_le [OF kernel_invD(1) [OF inv0], of x]
        by (simp add: wake_ok_def k1_def)
      moreover have "pending_ok k1" using kernel_invD(3) [OF inv0] by (simp add: k1_def pending_ok_def)
      moreover have "next_ok k1"
        unfolding k1_def using kernel_invD(1,2) [OF inv0]
        by (intro reset_next_ok) (auto simp: wake_ok_def)
      ultimately show ?thesis
        using reset_next_core [OF kernel_invD(1) [OF inv0]] by (simp add: kernel_inv_def k1_def)
    qed
    have same1: "state_list k1 x = (if x = t then Some SuspendedL else state_list k x)"
      "event_list k1 x = (if x = t then None else event_list k x)"
      "tcbs k1 = (tcbs k)(t := (tcbs k t)\<lparr>ucNotifyState := map clear_waiting (ucNotifyState (tcbs k t))\<rparr>)"
      "xTickCount k1 = xTickCount k" "pxCurrentTCB k1 = pxCurrentTCB k" "xSchedulerRunning k1"
      "uxSchedulerSuspended k1 = uxSchedulerSuspended k" "xIdleTaskHandle k1 = xIdleTaskHandle k"
      "xPendedTicks k1 = xPendedTicks k" "xYieldPending k1 = xYieldPending k" for x
      using d run by (simp_all add: k1_def k0_def list_frame detached_def)
    have rd: "ready k1 x \<longleftrightarrow> x \<noteq> t \<and> ready k x" for x by (simp add: ready_def same1)
    have pr: "prio k1 x = prio k x" for x by (simp add: same1)
    have susp: "prvTaskIsTaskSuspended t k1"
      by (simp add: prvTaskIsTaskSuspended_def same1 clear_waiting_none)
    have idle: "idle_ready k1" using sys_invD(4) [OF s] ni rd by (auto simp: idle_ready_def same1)
    have cu: "caught_up k1" using sys_invD(7) [OF s] by (simp add: caught_up_def same1)
    have body: "ensures (if Some t = pxCurrentTCB k1
        then if xSchedulerRunning k1
             then do { configASSERT (uxSchedulerSuspended k1 = 0); portYIELD k1 }
             else if length (members k1 SuspendedL) = uxCurrentNumberOfTasks k1
             then Some (k1\<lparr>pxCurrentTCB := None\<rparr>) else vTaskSwitchContext k1
        else Some k1) ?Q"
    proof (cases "pxCurrentTCB k = Some t")
      case True
      have run1: "uxSchedulerSuspended k1 = 0" using self [OF True] by (simp add: same1)
      from idle obtain i where i: "ready k1 i" by (rule idle_readyE)
      have "ensures (portYIELD k1) ?Q"
      proof (rule vTaskSwitchContext_ensures [OF kernel_invD(1) [OF inv1] run1 i])
        fix k2 c assume c: "chosen k1 c" "switched c k1 k2"
        have "sys_inv k2" using switched_sys_inv [OF inv1 _ idle cu c] by (simp add: same1)
        moreover have "c \<noteq> t" using c(1) rd by (auto simp: chosen_def)
        moreover have "pxCurrentTCB k2 = Some c" using c(2) by (simp add: switched_def)
        ultimately show "?Q k2"
          using susp by (simp add: prvTaskIsTaskSuspended_def switched_same [OF c(2)] same1)
      qed
      with True run1 show ?thesis by (simp add: same1(5,6))
    next
      case False
      have "settled k1"
        using sys_invD(6) [OF s] rd pr by (simp add: settled_def same1)
      moreover have "current_ready k1"
        using sys_invD(5) [OF s] False rd by (auto simp: current_ready_def same1)
      ultimately have "sys_inv k1" using inv1 idle cu by (simp add: sys_inv_def same1)
      then have "?Q k1" using susp False by (simp add: same1)
      with False show ?thesis by (simp add: same1(5) eq_commute)
    qed
    have step: "(let k = k_list_insert_end SuspendedL (StateI t) (k\<lparr>lists := L'\<rparr>);
       k = upd_tcb t (\<lambda>b. b\<lparr>ucNotifyState := map clear_waiting (ucNotifyState b)\<rparr>) k;
       k = (if xSchedulerRunning k then prvResetNextTaskUnblockTime k else k) in f k) = f k1" for f
      using run by (simp add: k1_def k0_def Let_def)
    show "ensures (let k = k_list_insert_end SuspendedL (StateI t) (k\<lparr>lists := L'\<rparr>);
       k = upd_tcb t (\<lambda>b. b\<lparr>ucNotifyState := map clear_waiting (ucNotifyState b)\<rparr>) k;
       k = (if xSchedulerRunning k then prvResetNextTaskUnblockTime k else k)
      in if Some t = pxCurrentTCB k
        then if xSchedulerRunning k
             then do { configASSERT (uxSchedulerSuspended k = 0); portYIELD k }
             else if length (members k SuspendedL) = uxCurrentNumberOfTasks k
             then Some (k\<lparr>pxCurrentTCB := None\<rparr>) else vTaskSwitchContext k
        else Some k) ?Q"
      unfolding step by (rule body)
  qed
qed

text \<open>Waking tasks keeps the invariant of the kernel.\<close>

lemma woken_inv:
  assumes inv: "kernel_inv k" and core: "kernel_core k'" and w: "woken W k k'"
  shows "kernel_inv k'"
proof -
  have "wake_ok k' x" for x using woken_wake_ok [OF kernel_invD(1) [OF inv] w kernel_invD(2) [OF inv]] .
  moreover have "pending_ok k'"
    using kernel_invD(3) [OF inv] woken_lists(3) [OF w, of PendingReadyL] woken_frame(6) [OF w]
    by (auto simp: pending_ok_def)
  moreover have "next_ok k'" using kernel_invD(4) [OF inv] woken_frame [OF w] by (simp add: next_ok_def)
  ultimately show ?thesis using core by (simp add: kernel_inv_def)
qed

lemma ready_woken: "woken W k k' \<Longrightarrow> ready k' x \<longleftrightarrow> x \<in> W \<or> ready k x"
  using woken_lists(1) [of W k k' x] woken_frame(1) [of W k k'] by (auto simp: ready_def)

lemma woken_parts:
  assumes s: "sys_inv k" and core: "kernel_core k'" and w: "woken W k k'"
  shows "kernel_inv k'" "idle_ready k'" "current_ready k'" "caught_up k'" "xSchedulerRunning k'"
  using woken_inv [OF sys_invD(1) [OF s] core w] ready_woken [OF w] woken_frame [OF w] sys_invD [OF s]
  by (auto simp: idle_ready_def current_ready_def caught_up_def)

lemma woken_settled:
  assumes s: "sys_inv k" and w: "woken W k k'"
    and low: "\<And>c t. pxCurrentTCB k = Some c \<Longrightarrow> t \<in> W \<Longrightarrow> prio k t \<le> prio k c \<or> xYieldPending k"
  shows "settled k'"
  using sys_invD(6) [OF s] low ready_woken [OF w] woken_frame(1,2,7) [OF w]
  by (fastforce simp: settled_def)

text \<open>Preempting if the woken task outranks the running one restores the invariant.\<close>

lemma woken_preempt:
  assumes s: "sys_inv k" and core: "kernel_core k'" and w: "woken {t} k k'"
  shows "ensures (taskYIELD_ANY_CORE_IF_USING_PREEMPTION t k') sys_inv"
proof -
  note p = woken_parts [OF s core w]
  from p(3) obtain c where c: "pxCurrentTCB k' = Some c" by (rule current_readyE)
  show ?thesis
  proof (cases "prio k' c < prio k' t")
    case True
    then show ?thesis
      using yield_sys_inv [OF p(1,5,2,4,3)] by (simp add: taskYIELD_ANY_CORE_IF_USING_PREEMPTION_def c)
  next
    case False
    then have "settled k'" using c woken_frame(1,2) [OF w] by (intro woken_settled [OF s w]) simp
    then show ?thesis
      using False p by (simp add: taskYIELD_ANY_CORE_IF_USING_PREEMPTION_def c sys_inv_def)
  qed
qed

lemma switch_same: "vTaskSwitchContext k = Some k' \<Longrightarrow>
    container (lists k') = container (lists k) \<and> tcbs k' = tcbs k"
  by (auto simp: vTaskSwitchContext_def taskSELECT_HIGHEST_PRIORITY_TASK_def list_next_entry_def
        Let_def split: if_splits option.splits list.splits bind_splits)

lemma yield_same:
  "ensures (portYIELD k) P \<Longrightarrow>
   ensures (portYIELD k) (\<lambda>k'. P k' \<and> container (lists k') = container (lists k) \<and> tcbs k' = tcbs k)"
  using switch_same [of k] by (auto simp: ensures_iff)

lemma switch_state_list:
  assumes "ensures (taskYIELD_ANY_CORE_IF_USING_PREEMPTION t k) P"
  shows "ensures (taskYIELD_ANY_CORE_IF_USING_PREEMPTION t k)
    (\<lambda>k'. P k' \<and> container (lists k') = container (lists k) \<and> tcbs k' = tcbs k)"
  using assms switch_same [of k]
  unfolding taskYIELD_ANY_CORE_IF_USING_PREEMPTION_def ensures_iff
  by (auto split: if_splits bind_splits)

lemma vTaskResume_ensures:
  assumes s: "sys_inv k"
  shows "ensures (vTaskResume t k) (\<lambda>k'. sys_inv k' \<and>
    (if Some t \<noteq> pxCurrentTCB k \<and> prvTaskIsTaskSuspended t k then ready k' t else k' = k) \<and>
    (\<forall>x. x \<noteq> t \<longrightarrow> state_list k' x = state_list k x))"
proof (cases "Some t \<noteq> pxCurrentTCB k \<and> prvTaskIsTaskSuspended t k")
  case False
  then show ?thesis using s by (auto simp: vTaskResume_def)
next
  case True
  then have st: "state_list k t = Some SuspendedL" "event_list k t = None"
    by (simp_all add: prvTaskIsTaskSuspended_def)
  have "ensures (do { k1 \<leftarrow> k_list_remove (StateI t) k; let k3 = prvAddTaskToReadyList t k1;
      taskYIELD_ANY_CORE_IF_USING_PREEMPTION t k3 })
    (\<lambda>k'. sys_inv k' \<and> ready k' t \<and> (\<forall>x. x \<noteq> t \<longrightarrow> state_list k' x = state_list k x))"
  proof (rule unblock_state_ensures [OF sys_invD(2) [OF s] _ _ st(2)])
    fix k' assume core: "kernel_core k'" and w: "woken {t} k k'"
    show "ensures (taskYIELD_ANY_CORE_IF_USING_PREEMPTION t k')
      (\<lambda>k'. sys_inv k' \<and> ready k' t \<and> (\<forall>x. x \<noteq> t \<longrightarrow> state_list k' x = state_list k x))"
      by (rule ensures_mono [OF switch_state_list [OF woken_preempt [OF s core w]]])
        (simp add: ready_def woken_lists(1) [OF w] woken_frame(1) [OF w])
  qed (use st in simp_all)
  with True show ?thesis by (simp add: vTaskResume_def)
qed

text \<open>The pending-ready list takes the event item of a task whose wake-up must wait.\<close>

lemma to_pending_inv:
  assumes inv: "kernel_inv k" and ev: "event_list k t = None"
    and live: "state_list k t \<noteq> None" "state_list k t \<noteq> Some TerminationL"
    and susp: "uxSchedulerSuspended k \<noteq> 0"
  shows "kernel_inv (k_list_insert_end PendingReadyL (EventI t) k)" (is "kernel_inv ?k")
proof -
  have core: "kernel_core k" using inv by (rule kernel_invD)
  have "kernel_core ?k"
  proof (rule kernel_coreI [OF core, where t = t])
    show "lists_inv (lists ?k)" using core ev by (simp add: kernel_core_def)
    show "task_ok ?k t"
      using kernel_core_task [OF core, of t] live ev by (auto simp: task_ok_def list_frame)
  qed (use core in \<open>simp_all add: same_task_def list_frame kernel_core_def\<close>)
  moreover have "wake_ok ?k x" for x
    using kernel_invD(2) [OF inv, of x] by (simp add: wake_ok_def list_frame)
  moreover have "pending_ok ?k" using susp by (simp add: pending_ok_def)
  moreover have "next_ok ?k" using kernel_invD(4) [OF inv] by (simp add: next_ok_def)
  ultimately show ?thesis by (simp add: kernel_inv_def)
qed

lemma to_pending_sys_inv:
  assumes s: "sys_inv k" and ev: "event_list k t = None"
    and live: "state_list k t \<noteq> None" "state_list k t \<noteq> Some TerminationL"
    and susp: "uxSchedulerSuspended k \<noteq> 0"
  shows "sys_inv (k_list_insert_end PendingReadyL (EventI t) k)"
  using to_pending_inv [OF sys_invD(1) [OF s] ev live susp] s
  by (simp add: sys_inv_def idle_ready_def current_ready_def ready_def settled_def caught_up_def list_frame)

text \<open>
  From an interrupt the task is made ready at once, or, while the scheduler is locked, is
  noted in the pending-ready list; the flag asks for a switch exactly if it outranks the
  running task.
\<close>

lemma sys_inv_yield_pending: "sys_inv k \<Longrightarrow> sys_inv (k\<lparr>xYieldPending := True\<rparr>)"
  by (simp add: sys_inv_def settled_def caught_up_def)

lemma xTaskResumeFromISR_ensures:
  assumes s: "sys_inv k" and cur: "pxCurrentTCB k = Some c"
  shows "ensures (xTaskResumeFromISR t k) (\<lambda>(k', y). sys_inv k' \<and>
    (prvTaskIsTaskSuspended t k \<longrightarrow>
       (if uxSchedulerSuspended k = 0 then ready k' t \<and> y = (prio k c < prio k t)
        else event_list k' t = Some PendingReadyL \<and> \<not> y)))"
    (is "ensures _ ?Q")
proof (cases "prvTaskIsTaskSuspended t k")
  case False
  then show ?thesis using s by (simp add: xTaskResumeFromISR_def)
next
  case True
  then have st: "state_list k t = Some SuspendedL" "event_list k t = None"
    by (simp_all add: prvTaskIsTaskSuspended_def)
  show ?thesis
  proof (cases "uxSchedulerSuspended k = 0")
    case False
    with True st show ?thesis
      using to_pending_sys_inv [OF s st(2) _ _ False]
      by (simp add: xTaskResumeFromISR_def list_frame)
  next
    case run: True
    let ?y = "prio k c < prio k t"
    let ?k = "if ?y then k\<lparr>xYieldPending := True\<rparr> else k"
    have s': "sys_inv ?k" using s sys_inv_yield_pending by simp
    have "ensures (do { k1 \<leftarrow> k_list_remove (StateI t) ?k; let k3 = prvAddTaskToReadyList t k1; Some (k3, ?y) }) ?Q"
    proof (rule unblock_state_ensures [OF sys_invD(2) [OF s']])
      show "event_list ?k t = None" "state_list ?k t \<noteq> None" "state_list ?k t \<noteq> Some TerminationL"
        using st by simp_all
      fix k' assume core: "kernel_core k'" and w: "woken {t} ?k k'"
      have "settled k'" by (rule woken_settled [OF s' w]) (use cur in auto)
      then have "sys_inv k'" using woken_parts [OF s' core w] by (simp add: sys_inv_def)
      moreover have "ready k' t" using ready_woken [OF w] by simp
      ultimately show "ensures (Some (k', ?y)) ?Q" using run by simp
    qed
    then show ?thesis using True run cur by (simp add: xTaskResumeFromISR_def)
  qed
qed

section \<open>Setting a priority\<close>

text \<open>The effective priority after \<open>vTaskPrioritySet\<close>: an inherited one is kept while it is higher.\<close>

definition new_effective :: "tcb \<Rightarrow> nat \<Rightarrow> nat" where
  "new_effective b n = (if uxBasePriority b = uxPriority b \<or> n > uxPriority b then n else uxPriority b)"

lemma reprio_move:
  assumes core: "kernel_core k" and p: "uxPriority b < configMAX_PRIORITIES"
    and st: "state_list k t = Some (ReadyL (prio k t))"
    and L: "lists_inv L" "container L = (container (lists k))(StateI t := None)"
      "\<And>l. items L l = remove1 (StateI t) (members k l)"
      "\<And>x. item_value L (StateI x) = item_value (lists k) (StateI x)"
    and k2: "k2 = prvAddTaskToReadyList t (k\<lparr>tcbs := (tcbs k)(t := b), lists := L\<rparr>)"
  shows "reprio t b k k2" "lists_inv (lists k2)"
proof -
  have "StateI t \<notin> set (members k l)" if "\<not> is_ready_list l" for l
    using member_iff(1) [OF core, of t l] st that by auto
  then show "reprio t b k k2"
    using core st L p by (auto simp: reprio_def k2 add_to_ready list_frame kernel_core_def remove1_idem)
  show "lists_inv (lists k2)" using L by (simp add: add_to_ready k2)
qed

lemma reprio_of:
  assumes core: "kernel_core k" and p: "uxPriority b < configMAX_PRIORITIES"
    and k1: "k1 = k\<lparr>tcbs := (tcbs k)(t := b), lists := L\<rparr>"
    and L: "lists_inv L" "container L = container (lists k)" "items L = items (lists k)"
      "\<And>x. item_value L (StateI x) = item_value (lists k) (StateI x)"
    and post: "\<And>k'. reprio t b k k' \<Longrightarrow> lists_inv (lists k') \<Longrightarrow> ensures (f k') Q"
  shows "ensures (do {
      k \<leftarrow> (if state_list k1 t = Some (ReadyL (prio k t))
            then do { k \<leftarrow> k_list_remove (StateI t) k1; Some (prvAddTaskToReadyList t k) }
            else Some k1);
      f k }) Q"
proof (cases "state_list k t = Some (ReadyL (prio k t))")
  case False
  then have "state_list k1 t \<noteq> Some (ReadyL (prio k t))" by (simp add: k1 L)
  moreover have "reprio t b k k1"
    using core False L by (auto simp: reprio_def k1 kernel_core_def)
  ultimately show ?thesis using post [of k1] L by (simp add: k1)
next
  case True
  then have in1: "state_list k1 t = Some (ReadyL (prio k t))" by (simp add: k1 L)
  have "ensures (k_list_remove (StateI t) k1) (\<lambda>k2. ensures (f (prvAddTaskToReadyList t k2)) Q)"
  proof (rule k_list_remove_ensures)
    show "lists_inv (lists k1)" "container (lists k1) (StateI t) \<noteq> None" using L in1 by (simp_all add: k1)
    fix L' assume L': "lists_inv L'" "container L' = (container (lists k1))(StateI t := None)"
      "item_value L' = item_value (lists k1)" "\<And>l. items L' l = remove1 (StateI t) (members k1 l)"
    let ?k2 = "prvAddTaskToReadyList t (k1\<lparr>lists := L'\<rparr>)"
    have "reprio t b k ?k2" "lists_inv (lists ?k2)"
      by (rule reprio_move [OF core p True, where L = L']; use L L' in \<open>simp add: k1\<close>)+
    then show "ensures (f ?k2) Q" by (rule post)
  qed
  then show ?thesis unfolding if_P [OF in1] by simp
qed

lemma event_value_inv:
  assumes core: "kernel_core k" shows "lists_inv (list_set_value (EventI t) v (lists k))"
  by (rule lists_inv_set_value [OF kernel_core_lists [OF core]])
    (use task_okD(2) [OF kernel_core_task [OF core]] event_list_not_delayed in blast)

lemma ready_reprio:
  assumes core: "kernel_core k" and r: "reprio t b k k'"
  shows "ready k' x \<longleftrightarrow> ready k x"
proof (cases "x = t")
  case False
  then show ?thesis using reprio_lists(1,5) [OF r] by (simp add: ready_def)
next
  case True
  have "state_list k t \<noteq> Some (ReadyL p)" if "\<not> ready k t" for p
    using that ready_iff [OF core] by blast
  with True show ?thesis using reprio_lists(1,5) [OF r] by (auto simp: ready_def)
qed

lemma reprio_parts:
  assumes s: "sys_inv k" and r: "reprio t b k k'"
  shows "idle_ready k'" "current_ready k'" "caught_up k'" "xSchedulerRunning k'"
  using ready_reprio [OF sys_invD(2) [OF s] r] reprio_frame [OF r] sys_invD [OF s]
  by (auto simp: idle_ready_def current_ready_def caught_up_def)

lemma vTaskPrioritySet_ensures:
  assumes s: "sys_inv k" and t: "prvGetTCBFromHandle h k = Some t" and n: "n < configMAX_PRIORITIES"
  shows "ensures (vTaskPrioritySet h n k) (\<lambda>k'. sys_inv k' \<and> uxBasePriority (tcbs k' t) = n \<and>
    prio k' t = (if uxBasePriority (tcbs k t) = n then prio k t else new_effective (tcbs k t) n) \<and>
    (\<forall>x. ready k' x = ready k x) \<and> (\<forall>x. x \<noteq> t \<longrightarrow> tcbs k' x = tcbs k x))"
    (is "ensures _ ?Q")
proof (cases "uxBasePriority (tcbs k t) = n")
  case True
  then show ?thesis using s n t by (simp add: vTaskPrioritySet_def Let_def)
next
  case False
  have core: "kernel_core k" using s by (rule sys_invD)
  note tok = kernel_core_task [OF core, of t]
  from sys_invD(5) [OF s] obtain c where cur: "pxCurrentTCB k = Some c" and crd: "ready k c"
    by (rule current_readyE)
  define b where "b = (tcbs k t)\<lparr>uxPriority := new_effective (tcbs k t) n, uxBasePriority := n\<rparr>"
  define L where "L = (if item_value (lists k) (EventI t) AND taskEVENT_LIST_ITEM_VALUE_IN_USE = 0
    then list_set_value (EventI t) (priority_value n) (lists k) else lists k)"
  define k1 where "k1 = k\<lparr>tcbs := (tcbs k)(t := b), lists := L\<rparr>"
  define y where "y = (if n > uxBasePriority (tcbs k t) then t \<noteq> c \<and> n > prio k c else t = c)"
  have bok: "uxBasePriority b \<le> uxPriority b" "uxPriority b < configMAX_PRIORITIES"
    using n task_okD(4) [OF tok] by (auto simp: b_def new_effective_def)
  have ypart: "(if n > uxBasePriority (tcbs k t)
          then (if Some t \<noteq> pxCurrentTCB k then do { c \<leftarrow> pxCurrentTCB k; Some (n > prio k c) } else Some False)
          else Some (Some t = pxCurrentTCB k)) = Some y"
    by (simp add: y_def cur)
  let ?E = "upd_tcb t (\<lambda>b. b\<lparr>uxBasePriority := n\<rparr>)
    (if uxBasePriority (tcbs k t) = prio k t \<or> n > prio k t then upd_tcb t (\<lambda>b. b\<lparr>uxPriority := n\<rparr>) k else k)"
  have upd: "(if item_value (lists ?E) (EventI t) AND taskEVENT_LIST_ITEM_VALUE_IN_USE = 0
      then k_set_value (EventI t) (priority_value n) ?E else ?E) = k1"
    by (simp add: k1_def b_def L_def new_effective_def)
  have nn: "(if n \<ge> configMAX_PRIORITIES then configMAX_PRIORITIES - 1 else n) = n" using n by simp
  have unf: "vTaskPrioritySet h n k = do {
       k \<leftarrow> (if state_list k1 t = Some (ReadyL (prio k t))
             then do { k \<leftarrow> k_list_remove (StateI t) k1; Some (prvAddTaskToReadyList t k) }
             else Some k1);
       if y then portYIELD k else Some k }"
    unfolding vTaskPrioritySet_def t Option.bind.bind_lunit Let_def nn upd ypart if_not_P [OF False]
    using n by simp
  show ?thesis
    unfolding unf
  proof (rule reprio_of [OF core bok(2) k1_def])
    show "lists_inv L" using event_value_inv [OF core] kernel_core_lists [OF core] by (simp add: L_def)
    show "container L = container (lists k)" "items L = items (lists k)" by (simp_all add: L_def list_frame)
    show "item_value L (StateI x) = item_value (lists k) (StateI x)" for x by (simp add: L_def list_frame)
    fix k' assume r: "reprio t b k k'" and li: "lists_inv (lists k')"
    note rf = reprio_frame [OF r] and rl = reprio_lists(1-5) [OF r]
    have inv': "kernel_inv k'"
      by (rule reprio_inv [OF sys_invD(1) [OF s] r li bok]) (use tok in \<open>simp_all add: b_def task_ok_def\<close>)
    note parts = reprio_parts [OF s r]
    have res: "uxBasePriority (tcbs k' t) = n" "prio k' t = new_effective (tcbs k t) n"
      "\<And>x. x \<noteq> t \<Longrightarrow> tcbs k' x = tcbs k x" by (simp_all add: rl b_def)
    note rd = ready_reprio [OF core r]
    show "ensures (if y then portYIELD k' else Some k') ?Q"
    proof (cases y)
      case True
      have "ensures (portYIELD k') (\<lambda>k2. sys_inv k2 \<and> container (lists k2) = container (lists k') \<and> tcbs k2 = tcbs k')"
        by (rule yield_same [OF yield_sys_inv [OF inv' parts(4,1,3,2)]])
      then have "ensures (portYIELD k') ?Q"
        using res rd False by (elim ensures_mono) (simp add: ready_def)
      with True show ?thesis by simp
    next
      case no: False
      have "prio k' x \<le> prio k' c" if x: "ready k' x" and yp: "\<not> xYieldPending k'" for x
      proof -
        have "ready k x" using x rd by simp
        then have "prio k x \<le> prio k c"
          using sys_invD(6) [OF s] yp cur by (simp add: settled_def rf)
        then show ?thesis
          using no False task_okD(3) [OF tok] rl(5) by (auto simp: y_def b_def new_effective_def split: if_splits)
      qed
      then have "settled k'" using cur by (simp add: settled_def rf)
      then have "sys_inv k'" using inv' parts by (simp add: sys_inv_def)
      with no show ?thesis using res rd False by simp
    qed
  qed
qed

section \<open>Aborting a delay\<close>

text \<open>The end of a locked section in which only tasks were woken.\<close>

lemma xTaskResumeAll_sys_inv:
  assumes inv: "kernel_inv k" and run: "xSchedulerRunning k" and idle: "idle_ready k"
    and cr: "current_ready k" and st: "settled k" and susp: "uxSchedulerSuspended k \<noteq> 0"
  shows "ensures (xTaskResumeAll k) (\<lambda>(k', y). sys_inv k' \<and> (\<forall>x. ready k x \<longrightarrow> ready k' x))"
proof (cases "uxSchedulerSuspended k = 1")
  case False
  then have "uxSchedulerSuspended k - 1 \<noteq> 0" using susp by simp
  moreover have "kernel_inv (k\<lparr>uxSchedulerSuspended := uxSchedulerSuspended k - 1\<rparr>)"
    using inv calculation by (simp add: kernel_inv_def pending_ok_def next_ok_def)
  ultimately show ?thesis
    using assms by (simp add: xTaskResumeAll_def Let_def sys_inv_def settled_def caught_up_def ready_def)
next
  case True
  from idle obtain i where i: "ready k i" by (rule idle_readyE)
  from cr obtain c where cur: "pxCurrentTCB k = Some c" and crd: "ready k c" by (rule current_readyE)
  show ?thesis
  proof (rule ensures_mono [OF xTaskResumeAll_ensures [OF inv cur True i]])
    fix r
    assume r: "kernel_inv (fst r) \<and> after_switch (\<lambda>k1. kernel_inv k1 \<and> ticked (resume_set k) k k1 \<and>
      uxSchedulerSuspended k1 = 0 \<and> members k1 PendingReadyL = [] \<and>
      xTickCount k1 = xTickCount k + xPendedTicks k \<and> xPendedTicks k1 = 0 \<and>
      (xYieldPending k \<or> (\<exists>t \<in> resume_set k. prio k c < prio k t) \<longrightarrow> xYieldPending k1)) r"
    obtain k2 y where k2: "r = (k2, y)" by (cases r)
    have keep: "idle_ready k1 \<and> xSchedulerRunning k1" if "ticked (resume_set k) k k1" for k1
      using that idle run idle_ready_ticked ticked_frame(7) by metis
    show "case r of (k', y) \<Rightarrow> sys_inv k' \<and> (\<forall>x. ready k x \<longrightarrow> ready k' x)"
    proof (cases y)
      case True
      with r k2 obtain k1 t where k1: "kernel_inv k1" "ticked (resume_set k) k k1" "xPendedTicks k1 = 0"
        and t: "chosen k1 t" "switched t k1 k2" by (auto simp: after_switch_def)
      have "sys_inv k2"
        using switched_sys_inv [OF k1(1) _ _ _ t] keep [OF k1(2)] k1(3) by (simp add: caught_up_def)
      then show ?thesis using ready_switched [OF t(2)] ready_ticked [OF k1(2)] by (simp add: k2)
    next
      case False
      with r k2 have k1: "kernel_inv k2" "ticked (resume_set k) k k2" "xPendedTicks k2 = 0" "\<not> xYieldPending k2"
        "xYieldPending k \<or> (\<exists>t \<in> resume_set k. prio k c < prio k t) \<longrightarrow> xYieldPending k2"
        by (auto simp: after_switch_def)
      have "prio k x \<le> prio k c" if "ready k2 x" for x
        using that k1(4,5) st cur ready_ticked [OF k1(2), of x] by (auto simp: settled_def not_less)
      then have "settled k2" using cur ticked_frame(1,2) [OF k1(2)] by (simp add: settled_def)
      moreover have "current_ready k2" using current_ready_ticked [OF k1(2) cr] .
      ultimately show ?thesis
        using k1 keep [OF k1(2)] ready_ticked [OF k1(2)] by (simp add: k2 sys_inv_def caught_up_def)
    qed
  qed
qed

lemma sys_inv_lock:
  assumes s: "sys_inv k" shows "sys_inv (vTaskSuspendAll k)"
proof -
  have "kernel_inv (vTaskSuspendAll k)"
    using sys_invD(1) [OF s] by (simp add: vTaskSuspendAll_def kernel_inv_def pending_ok_def next_ok_def)
  then show ?thesis
    using s by (simp add: sys_inv_def vTaskSuspendAll_def settled_def caught_up_def ready_def)
qed

text \<open>
  Only a blocked task is touched; it becomes ready at once, and if it waited for an event its
  \<open>ucDelayAborted\<close> tells it why.
\<close>

lemma eTaskGetState_eBlocked:
  assumes core: "kernel_core k" and b: "eTaskGetState t k = eBlocked"
  shows "state_list k t \<noteq> None" "state_list k t \<noteq> Some TerminationL" "event_list k t \<noteq> Some PendingReadyL"
    "\<not> ready k t" "pxCurrentTCB k \<noteq> Some t"
  using b core by (auto simp: eTaskGetState_def ready_def split: if_splits)

lemma mark_aborted: "prvAddTaskToReadyList t (if b then upd_tcb t (\<lambda>b. b\<lparr>ucDelayAborted := True\<rparr>) k else k)
  = (if b then upd_tcb t (\<lambda>b. b\<lparr>ucDelayAborted := True\<rparr>) (prvAddTaskToReadyList t k)
     else prvAddTaskToReadyList t k)"
  by (simp add: add_to_ready)

lemma xTaskAbortDelay_ensures:
  assumes s: "sys_inv k"
  shows "ensures (xTaskAbortDelay t k) (\<lambda>(k', aborted). sys_inv k' \<and>
    aborted = (eTaskGetState t k = eBlocked) \<and> (aborted \<longrightarrow> ready k' t))"
proof -
  let ?k = "vTaskSuspendAll k"
  have s1: "sys_inv ?k" using s by (rule sys_inv_lock)
  note core1 = sys_invD(2) [OF s1]
  have st: "eTaskGetState t ?k = eTaskGetState t k"
    by (simp add: eTaskGetState_def vTaskSuspendAll_def)
  from sys_invD(5) [OF s1] obtain c where cur: "pxCurrentTCB ?k = Some c" and crd: "ready ?k c"
    by (rule current_readyE)
  have susp: "uxSchedulerSuspended ?k \<noteq> 0" by (simp add: vTaskSuspendAll_def)
  show ?thesis
  proof (cases "eTaskGetState t k = eBlocked")
    case False
    have "ensures (xTaskResumeAll ?k) (\<lambda>(k', y). sys_inv k' \<and> (\<forall>x. ready ?k x \<longrightarrow> ready k' x))"
      by (rule xTaskResumeAll_sys_inv [OF sys_invD(1,3,4,5,6) [OF s1] susp])
    with False show ?thesis
      by (auto simp: xTaskAbortDelay_def Let_def st elim!: ensures_mono)
  next
    case True
    note b = eTaskGetState_eBlocked [OF core1 True [folded st]]
    have "ensures (do {
          k1 \<leftarrow> k_list_remove (StateI t) ?k;
          k2 \<leftarrow> (if event_list k1 t \<noteq> None
                then do { k \<leftarrow> k_list_remove (EventI t) k1;
                          Some (upd_tcb t (\<lambda>b. b\<lparr>ucDelayAborted := True\<rparr>) k) }
                else Some k1);
          (let k = prvAddTaskToReadyList t k2 in do {
          c \<leftarrow> pxCurrentTCB k;
          (k, _) \<leftarrow> xTaskResumeAll (if prio k t > prio k c then k\<lparr>xYieldPending := True\<rparr> else k);
          Some (k, True) }) }) (\<lambda>(k', r). sys_inv k' \<and> r \<and> ready k' t)"
    proof (rule detach_mark_ensures [OF kernel_core_lists [OF core1] b(1)])
      fix L' assume d: "detached t (lists ?k) L'"
      define k3 where "k3 = prvAddTaskToReadyList t (?k\<lparr>lists := L'\<rparr>)"
      note d3 = detached_ready [OF core1 b(1,2) d, folded k3_def]
      note p3 = woken_parts [OF s1 d3]
      define k4 where "k4 = (if event_list ?k t \<noteq> None
        then upd_tcb t (\<lambda>b. b\<lparr>ucDelayAborted := True\<rparr>) k3 else k3)"
      have inv4: "kernel_inv k4"
        unfolding k4_def by (cases "event_list ?k t \<noteq> None")
          (use p3(1) in \<open>simp_all add: upd_tcb_inv same_shape_def\<close>)
      have f4: "lists k4 = lists k3" "prio k4 x = prio k3 x" "pxCurrentTCB k4 = Some c"
        "xSchedulerRunning k4" "xIdleTaskHandle k4 = xIdleTaskHandle k3"
        "uxSchedulerSuspended k4 = uxSchedulerSuspended ?k" "xYieldPending k4 = xYieldPending ?k" for x
        using cur p3(5) woken_frame [OF d3(2)] by (simp_all add: k4_def)
      have rd4: "ready k4 x = ready k3 x" for x by (simp add: ready_def f4)
      define k5 where "k5 = (if prio k4 t > prio k4 c then k4\<lparr>xYieldPending := True\<rparr> else k4)"
      have f5: "kernel_inv k5" "ready k5 x = ready k3 x" "pxCurrentTCB k5 = Some c" "xSchedulerRunning k5"
        "xIdleTaskHandle k5 = xIdleTaskHandle k3" "uxSchedulerSuspended k5 \<noteq> 0" "prio k5 x = prio k3 x" for x
        using inv4 f4 rd4 susp by (simp_all add: k5_def ready_def)
      have "settled k5"
      proof -
        have "prio k3 x \<le> prio k3 c" if "ready k3 x" "\<not> xYieldPending k5" for x
          using that ready_woken [OF d3(2), of x] sys_invD(6) [OF s1] cur woken_frame(1) [OF d3(2)] f4
          by (auto simp: settled_def k5_def not_less split: if_splits)
        then show ?thesis by (simp add: settled_def f5)
      qed
      moreover have "idle_ready k5" "current_ready k5"
        using p3(2) crd ready_woken [OF d3(2)] by (auto simp: idle_ready_def current_ready_def f5)
      ultimately have "ensures (xTaskResumeAll k5) (\<lambda>(k', y). sys_inv k' \<and> (\<forall>x. ready k5 x \<longrightarrow> ready k' x))"
        by (intro xTaskResumeAll_sys_inv f5)
      moreover have "ready k5 t" using ready_woken [OF d3(2), of t] by (simp add: f5)
      ultimately have "ensures (do { (k, _) \<leftarrow> xTaskResumeAll k5; Some (k, True) })
          (\<lambda>(k', r). sys_inv k' \<and> r \<and> ready k' t)"
        by (auto elim!: ensures_mono)
      then show "ensures (let k = prvAddTaskToReadyList t
              (if event_list ?k t \<noteq> None then upd_tcb t (\<lambda>b. b\<lparr>ucDelayAborted := True\<rparr>) (?k\<lparr>lists := L'\<rparr>)
               else ?k\<lparr>lists := L'\<rparr>) in do {
          c \<leftarrow> pxCurrentTCB k;
          (k, _) \<leftarrow> xTaskResumeAll (if prio k t > prio k c then k\<lparr>xYieldPending := True\<rparr> else k);
          Some (k, True) }) (\<lambda>(k', r). sys_inv k' \<and> r \<and> ready k' t)"
        unfolding mark_aborted k3_def [symmetric] k4_def [symmetric] Let_def f4(3)
          Option.bind.bind_lunit k5_def [symmetric] .
    qed
    then show ?thesis
      unfolding xTaskAbortDelay_def Let_def st if_P [OF True] bind_assoc Option.bind.bind_lunit prod.case
      using True by (auto elim!: ensures_mono)
  qed
qed

section \<open>Unlocking the scheduler with nothing put off\<close>

definition undisturbed :: "kernel \<Rightarrow> kernel \<Rightarrow> bool" where
  "undisturbed k k' \<longleftrightarrow> container (lists k') = container (lists k) \<and> item_value (lists k') = item_value (lists k) \<and>
     (\<forall>l. members k' l = members k l) \<and> tcbs k' = tcbs k \<and> xTickCount k' = xTickCount k \<and>
     xPendedTicks k' = xPendedTicks k \<and> uxSchedulerSuspended k' = uxSchedulerSuspended k - 1 \<and>
     xIdleTaskHandle k' = xIdleTaskHandle k \<and>
     (uxSchedulerSuspended k' \<noteq> 0 \<longrightarrow> pxCurrentTCB k' = pxCurrentTCB k)"

definition nothing_put_off :: "kernel \<Rightarrow> bool" where
  "nothing_put_off k \<longleftrightarrow> (uxSchedulerSuspended k = 1 \<longrightarrow> members k PendingReadyL = [] \<and> xPendedTicks k = 0)"

lemma undisturbed_ready: "undisturbed k k' \<Longrightarrow> ready k' t = ready k t"
  by (simp add: undisturbed_def ready_def)

lemma nothing_put_off_suspend:
  assumes "sys_inv k" shows "nothing_put_off (vTaskSuspendAll k)"
  using kernel_invD(3) [OF sys_invD(1) [OF assms]] sys_invD(7) [OF assms]
  by (auto simp: nothing_put_off_def vTaskSuspendAll_def pending_ok_def caught_up_def)

lemma resume_set_empty:
  assumes core: "kernel_inv k" and p: "members k PendingReadyL = []" "xPendedTicks k = 0"
  shows "resume_set k = {}"
  using p waking_by_0 [OF core] member_iff(2) [OF kernel_invD(1) [OF core], of _ PendingReadyL]
  by (simp add: resume_set_def pending_tasks_def)

lemma undisturbed_switched:
  assumes "ticked {} k k1" and "xTickCount k1 = xTickCount k" "xPendedTicks k1 = xPendedTicks k"
    "uxSchedulerSuspended k1 = uxSchedulerSuspended k - 1" "uxSchedulerSuspended k1 = 0"
  shows "undisturbed k k1" "switched t k1 k' \<Longrightarrow> undisturbed k k'"
  using ticked_frame [OF assms(1)] ticked_lists(5) [OF assms(1)] switched_same [of t k1 k'] assms(2-)
  by (simp_all add: undisturbed_def switched_def)

text \<open>Unlocking without a wait; the running task may be preempted at that.\<close>

lemma resume_undisturbed:
  assumes s: "sys_inv k" and susp: "uxSchedulerSuspended k \<noteq> 0" and n: "nothing_put_off k"
  shows "ensures (xTaskResumeAll k) (\<lambda>(k', y). sys_inv k' \<and> undisturbed k k')"
proof (cases "uxSchedulerSuspended k = 1")
  case False
  moreover have "ensures (xTaskResumeAll k) (\<lambda>(k', y). sys_inv k' \<and> (\<forall>x. ready k x \<longrightarrow> ready k' x))"
    by (rule xTaskResumeAll_sys_inv [OF sys_invD(1,3-6) [OF s] susp])
  ultimately show ?thesis
    using susp by (simp add: xTaskResumeAll_def Let_def undisturbed_def)
next
  case True
  have p: "members k PendingReadyL = []" "xPendedTicks k = 0" using n True by (simp_all add: nothing_put_off_def)
  obtain c where c: "pxCurrentTCB k = Some c" "ready k c" using current_readyE [OF sys_invD(5) [OF s]] .
  note rs = resume_set_empty [OF sys_invD(1) [OF s] p]
  have a: "ensures (xTaskResumeAll k) (\<lambda>(k', y). sys_inv k' \<and> (\<forall>x. ready k x \<longrightarrow> ready k' x))"
    by (rule xTaskResumeAll_sys_inv [OF sys_invD(1,3-6) [OF s] susp])
  show ?thesis
  proof (rule ensures_mono [OF ensures_conj [OF a xTaskResumeAll_ensures [OF sys_invD(1) [OF s] c(1) True c(2)]]], elim conjE)
    fix r assume r: "case r of (k', y) \<Rightarrow> sys_inv k' \<and> (\<forall>x. ready k x \<longrightarrow> ready k' x)"
      and as: "after_switch (\<lambda>k1. kernel_inv k1 \<and> ticked (resume_set k) k k1 \<and> uxSchedulerSuspended k1 = 0 \<and>
        members k1 PendingReadyL = [] \<and> xTickCount k1 = xTickCount k + xPendedTicks k \<and> xPendedTicks k1 = 0 \<and>
        (xYieldPending k \<or> (\<exists>t \<in> resume_set k. prio k c < prio k t) \<longrightarrow> xYieldPending k1)) r"
    obtain k' y where kk: "r = (k', y)" by (cases r)
    have q: "undisturbed k k1 \<and> (\<forall>t k'. switched t k1 k' \<longrightarrow> undisturbed k k')"
      if "ticked (resume_set k) k k1" "uxSchedulerSuspended k1 = 0" "xTickCount k1 = xTickCount k + xPendedTicks k"
        "xPendedTicks k1 = 0" for k1
      using undisturbed_switched [of k k1] that rs p True by simp
    show "case r of (k', y) \<Rightarrow> sys_inv k' \<and> undisturbed k k'"
      using r as q kk by (cases y) (auto simp: after_switch_def)
  qed
qed

end
