(* ===== verification/Task_Tick.thy ===== *)
theory Task_Tick
  imports Task_Control
begin

text \<open>
  The tick interrupt of the native port on top of \<open>xTaskIncrementTick\<close>: it keeps the system
  invariant, wakes every task whose time has come, and slices the processor time evenly
  between the ready tasks of the highest priority.
\<close>

section \<open>The handler\<close>

text \<open>
  The tick interrupt of the native port (portable/ThirdParty/GCC/Posix/port.c). \<open>poll\<close> is
  \<open>RooFreeRtosPollWaiters\<close> of the host glue (hooks.cpp, C++), \<open>elapsed\<close> the number of ticks
  \<open>RooFreeRtosElapsedTicks\<close> reads off the host clock.
\<close>

fun tick_handler_loop :: "nat \<Rightarrow> bool \<Rightarrow> kernel \<Rightarrow> (kernel \<times> bool) option" where
  "tick_handler_loop 0 reschedule k = Some (k, reschedule)"
| "tick_handler_loop (Suc n) reschedule k = do {
     (k, sw) \<leftarrow> xTaskIncrementTick k;
     tick_handler_loop n (reschedule \<or> sw) k }"

definition vPortSystemTickHandler ::
    "(kernel \<Rightarrow> (kernel \<times> bool) option) \<Rightarrow> u32 \<Rightarrow> kernel \<Rightarrow> kernel option" where
  "vPortSystemTickHandler poll elapsed k = do {
     (k, reschedule) \<leftarrow> poll k;
     (k, reschedule) \<leftarrow> tick_handler_loop (unat elapsed) reschedule k;
     if reschedule then vTaskSwitchContext k else Some k }"

section \<open>The invariant\<close>

text \<open>All of \<open>sys_inv\<close> but the preemption, which holds unless a switch has been asked for.\<close>

definition handler_inv :: "bool \<Rightarrow> kernel \<Rightarrow> bool" where
  "handler_inv r k \<longleftrightarrow> kernel_inv k \<and> xSchedulerRunning k \<and> idle_ready k \<and> current_ready k \<and>
     caught_up k \<and> (r \<or> settled k)"

lemma handler_inv_tick:
  assumes h: "handler_inv r k"
    and post: "\<And>k' sw. \<lbrakk>handler_inv (r \<or> sw) k'; uxSchedulerSuspended k' = uxSchedulerSuspended k;
        uxSchedulerSuspended k = 0 \<Longrightarrow> ticked (waking k) k k' \<and> xTickCount k' = xTickCount k + 1 \<and>
          (1 < length (members k' (ReadyL (prio k (the (pxCurrentTCB k))))) \<longrightarrow> sw) \<and> same_lock k k';
        uxSchedulerSuspended k \<noteq> 0 \<Longrightarrow> k' = k\<lparr>xPendedTicks := xPendedTicks k + 1\<rparr> \<and> \<not> sw\<rbrakk>
      \<Longrightarrow> Q (k', sw)"
  shows "ensures (xTaskIncrementTick k) Q"
proof (cases "uxSchedulerSuspended k = 0")
  case False
  have "handler_inv r (k\<lparr>xPendedTicks := xPendedTicks k + 1\<rparr>)"
    using h False by (auto simp: handler_inv_def settled_def caught_up_def ready_def)
  then have "Q (k\<lparr>xPendedTicks := xPendedTicks k + 1\<rparr>, False)"
    using False by (intro post) simp_all
  with False show ?thesis by (simp add: xTaskIncrementTick_def)
next
  case True
  have inv: "kernel_inv k" and cr: "current_ready k" using h by (simp_all add: handler_inv_def)
  from cr obtain c where cur: "pxCurrentTCB k = Some c" by (rule current_readyE)
  show ?thesis
  proof (rule xTaskIncrementTick_ensures [OF inv cur True])
    fix k' assume k': "kernel_inv k'" "ticked (waking k) k k'" "xTickCount k' = xTickCount k + 1" "same_lock k k'"
    let ?sw = "(\<exists>t \<in> waking k. prio k c < prio k t) \<or>
              1 < length (members k' (ReadyL (prio k c))) \<or> xYieldPending k"
    have "settled k'" if "\<not> ?sw" "settled k"
    proof -
      have "prio k x \<le> prio k c" if "ready k' x" for x
        using that \<open>\<not> ?sw\<close> \<open>settled k\<close> cur ready_ticked [OF k'(2), of x] by (auto simp: settled_def not_less)
      then show ?thesis using cur ticked_frame(1,2) [OF k'(2)] by (simp add: settled_def)
    qed
    then have "handler_inv (r \<or> ?sw) k'"
      using h k' idle_ready_ticked [OF k'(2)] current_ready_ticked [OF k'(2)] ticked_frame(7) [OF k'(2)]
      by (auto simp: handler_inv_def caught_up_def same_lock_def)
    then show "Q (k', ?sw)"
      by (rule post) (use k' True cur in \<open>auto simp: same_lock_def\<close>)
  qed
qed

lemma tick_handler_loop_ensures:
  assumes "handler_inv r k"
    and "\<And>k' r'. \<lbrakk>handler_inv r' k'; uxSchedulerSuspended k' = uxSchedulerSuspended k;
        uxSchedulerSuspended k = 0 \<Longrightarrow> ticked (waking_by n k) k k' \<and> xTickCount k' = xTickCount k + of_nat n\<rbrakk>
      \<Longrightarrow> Q (k', r')"
  shows "ensures (tick_handler_loop n r k) Q"
  using assms
proof (induction n arbitrary: r k)
  case 0
  have "kernel_inv k" using 0(1) by (simp add: handler_inv_def)
  then have "Q (k, r)" by (intro 0(2) [OF 0(1)]) (simp_all add: waking_by_0)
  then show ?case by simp
next
  case (Suc n)
  show ?case
    unfolding tick_handler_loop.simps ensures_bind
  proof (rule handler_inv_tick [OF Suc.prems(1)], unfold prod.case)
    fix k1 sw assume h1: "handler_inv (r \<or> sw) k1" and su: "uxSchedulerSuspended k1 = uxSchedulerSuspended k"
      and run: "uxSchedulerSuspended k = 0 \<Longrightarrow> ticked (waking k) k k1 \<and> xTickCount k1 = xTickCount k + 1 \<and>
          (1 < length (members k1 (ReadyL (prio k (the (pxCurrentTCB k))))) \<longrightarrow> sw) \<and> same_lock k k1"
    show "ensures (tick_handler_loop n (r \<or> sw) k1) Q"
    proof (rule Suc.IH [OF h1])
      fix k2 r2 assume h2: "handler_inv r2 k2" and su2: "uxSchedulerSuspended k2 = uxSchedulerSuspended k1"
        and run2: "uxSchedulerSuspended k1 = 0 \<Longrightarrow>
          ticked (waking_by n k1) k1 k2 \<and> xTickCount k2 = xTickCount k1 + of_nat n"
      show "Q (k2, r2)"
      proof (rule Suc.prems(2) [OF h2])
        show "uxSchedulerSuspended k2 = uxSchedulerSuspended k" using su su2 by simp
        assume z: "uxSchedulerSuspended k = 0"
        have W: "waking_by (Suc n) k = waking k \<union> waking_by n k1"
          using waking_by_Suc run [OF z] Suc.prems(1) h1 by (simp add: handler_inv_def)
        show "ticked (waking_by (Suc n) k) k k2 \<and> xTickCount k2 = xTickCount k + of_nat (Suc n)"
          unfolding W using run [OF z] run2 z su ticked_trans [of "waking k" k k1 "waking_by n k1" k2]
          by (simp add: add.assoc)
      qed
    qed
  qed
qed

lemma handler_switch:
  assumes "handler_inv r k"
  shows "ensures (if r then vTaskSwitchContext k else Some k)
    (\<lambda>k'. sys_inv k' \<and> container (lists k') = container (lists k) \<and> tcbs k' = tcbs k)"
proof (cases r)
  case True
  have "ensures (portYIELD k) sys_inv"
    by (rule yield_sys_inv) (use assms in \<open>simp_all add: handler_inv_def\<close>)
  from yield_same [OF this] True show ?thesis by simp
next
  case False
  then show ?thesis using assms by (simp add: handler_inv_def sys_inv_def)
qed

text \<open>
  The interrupt as a whole. \<open>poll\<close> may run interrupt-safe calls of the kernel; all that is
  asked of it is that it keeps the system invariant. Every task whose time comes within the
  ticks that have elapsed is ready afterwards.
\<close>

lemma vPortSystemTickHandler_ensures:
  assumes poll: "ensures (poll k) (\<lambda>(k0, r :: bool). sys_inv k0 \<and> P k0)"
  shows "ensures (vPortSystemTickHandler poll n k) (\<lambda>k'. sys_inv k' \<and> (\<exists>k0. P k0 \<and>
    (uxSchedulerSuspended k0 = 0 \<longrightarrow> (\<forall>t. ready k0 t \<or> t \<in> waking_by (unat n) k0 \<longrightarrow> ready k' t))))"
  unfolding vPortSystemTickHandler_def ensures_bind
proof (rule ensures_mono [OF poll])
  fix s :: "kernel \<times> bool" assume s: "case s of (k0, r) \<Rightarrow> sys_inv k0 \<and> P k0"
  then obtain k0 r where k0: "s = (k0, r)" "sys_inv k0" "P k0" by auto
  then have h: "handler_inv r k0" by (simp add: handler_inv_def sys_inv_def)
  show "ensures (case s of (k, r) \<Rightarrow> do { (k, r) \<leftarrow> tick_handler_loop (unat n) r k;
      if r then vTaskSwitchContext k else Some k }) (\<lambda>k'. sys_inv k' \<and> (\<exists>k0. P k0 \<and>
    (uxSchedulerSuspended k0 = 0 \<longrightarrow> (\<forall>t. ready k0 t \<or> t \<in> waking_by (unat n) k0 \<longrightarrow> ready k' t))))"
    unfolding k0(1) prod.case ensures_bind
  proof (rule tick_handler_loop_ensures [OF h], unfold prod.case)
    fix k1 r1 assume h1: "handler_inv r1 k1"
      and run: "uxSchedulerSuspended k0 = 0 \<Longrightarrow>
        ticked (waking_by (unat n) k0) k0 k1 \<and> xTickCount k1 = xTickCount k0 + of_nat (unat n)"
    show "ensures (if r1 then vTaskSwitchContext k1 else Some k1) (\<lambda>k'. sys_inv k' \<and> (\<exists>k0. P k0 \<and>
      (uxSchedulerSuspended k0 = 0 \<longrightarrow> (\<forall>t. ready k0 t \<or> t \<in> waking_by (unat n) k0 \<longrightarrow> ready k' t))))"
    proof (rule ensures_mono [OF handler_switch [OF h1]])
      fix k' assume k': "sys_inv k' \<and> container (lists k') = container (lists k1) \<and> tcbs k' = tcbs k1"
      then have "ready k' t = ready k1 t" for t by (simp add: ready_def)
      then have "ready k' t"
        if "uxSchedulerSuspended k0 = 0" "ready k0 t \<or> t \<in> waking_by (unat n) k0" for t
        using that ready_ticked [OF run [OF that(1), THEN conjunct1], of t] by blast
      with k' k0(3) show "sys_inv k' \<and> (\<exists>k0. P k0 \<and>
        (uxSchedulerSuspended k0 = 0 \<longrightarrow> (\<forall>t. ready k0 t \<or> t \<in> waking_by (unat n) k0 \<longrightarrow> ready k' t)))"
        by (intro conjI exI [of _ k0]) simp_all
    qed
  qed
qed

section \<open>Time slicing\<close>

text \<open>One slice: a tick of the host clock with nothing to poll; who runs afterwards.\<close>

abbreviation no_poll :: "kernel \<Rightarrow> (kernel \<times> bool) option" where
  "no_poll k \<equiv> Some (k, False)"

fun slices :: "nat \<Rightarrow> kernel \<Rightarrow> (kernel \<times> task list) option" where
  "slices 0 k = Some (k, [])"
| "slices (Suc n) k = do {
     k \<leftarrow> vPortSystemTickHandler no_poll 1 k;
     c \<leftarrow> pxCurrentTCB k;
     (k, cs) \<leftarrow> slices n k;
     Some (k, c # cs) }"

text \<open>Nobody's time comes within the next \<open>n\<close> ticks.\<close>

definition quiet :: "nat \<Rightarrow> kernel \<Rightarrow> bool" where
  "quiet n k \<longleftrightarrow> sys_inv k \<and> uxSchedulerSuspended k = 0 \<and> \<not> xYieldPending k \<and> waking_by n k = {}"

lemma one_slice: "vPortSystemTickHandler no_poll 1 k =
    do { (k1, sw) \<leftarrow> xTaskIncrementTick k; if sw then vTaskSwitchContext k1 else Some k1 }"
  by (cases "xTaskIncrementTick k") (simp_all add: vPortSystemTickHandler_def case_prod_unfold)

lemma slice_step:
  assumes q: "quiet (Suc n) k" and cur: "pxCurrentTCB k = Some c" and p: "p = prio k c"
    and two: "1 < length (members k (ReadyL p))"
  shows "ensures (vPortSystemTickHandler no_poll 1 k) (\<lambda>k'. quiet n k' \<and>
    (\<exists>i. list_next_entry (ReadyL p) (lists k) = Some (lists k', i) \<and> pxCurrentTCB k' = Some (owner i) \<and>
       i = StateI (owner i) \<and> prio k' (owner i) = p \<and> tcbs k' = tcbs k))"
proof -
  have s: "sys_inv k" and run: "uxSchedulerSuspended k = 0" and ny: "\<not> xYieldPending k"
    using q by (simp_all add: quiet_def)
  have inv: "kernel_inv k" using s by (rule sys_invD)
  have none: "waking k = {}"
    using q waking_iff [OF inv] by (auto simp: quiet_def waking_by_def)
  have crd: "ready k c" using sys_invD(5) [OF s] cur by (auto simp: current_ready_def)
  have "ensures (xTaskIncrementTick k) (\<lambda>r. ensures (case r of (k1, sw) \<Rightarrow>
      if sw then vTaskSwitchContext k1 else Some k1) (\<lambda>k'. quiet n k' \<and>
    (\<exists>i. list_next_entry (ReadyL p) (lists k) = Some (lists k', i) \<and> pxCurrentTCB k' = Some (owner i) \<and>
       i = StateI (owner i) \<and> prio k' (owner i) = p \<and> tcbs k' = tcbs k)))"
  proof (rule xTaskIncrementTick_ensures [OF inv cur run], unfold prod.case)
    fix k1 assume k1: "kernel_inv k1" "ticked (waking k) k k1" "xTickCount k1 = xTickCount k + 1" "same_lock k k1"
    let ?sw = "(\<exists>t \<in> waking k. prio k c < prio k t) \<or>
              1 < length (members k1 (ReadyL (prio k c))) \<or> xYieldPending k"
    note tl = ticked_lists [OF k1(2)] and tf = ticked_frame [OF k1(2)]
    have L: "lists k1 = lists k" using tl(5) none by blast
    have sw: "?sw = True" using two by (simp add: L p)
    have f: "xSchedulerRunning k1" "idle_ready k1" "current_ready k1" "caught_up k1" "uxSchedulerSuspended k1 = 0"
      "xYieldPending k1 = xYieldPending k"
      using sys_invD [OF s] idle_ready_ticked [OF k1(2)] current_ready_ticked [OF k1(2)] tf run k1(4)
      by (simp_all add: caught_up_def same_lock_def)
    have rd1: "ready k1 x = ready k x" for x by (simp add: ready_def L tf)
    show "ensures (if ?sw then vTaskSwitchContext k1 else Some k1) (\<lambda>k'. quiet n k' \<and>
      (\<exists>i. list_next_entry (ReadyL p) (lists k) = Some (lists k', i) \<and> pxCurrentTCB k' = Some (owner i) \<and>
         i = StateI (owner i) \<and> prio k' (owner i) = p \<and> tcbs k' = tcbs k))"
      unfolding sw if_True
    proof (rule vTaskSwitchContext_ensures [OF kernel_invD(1) [OF k1(1)] f(5)])
      show "ready k1 c" using crd rd1 by simp
      fix k2 t assume t: "chosen k1 t" "switched t k1 k2"
      have s2: "sys_inv k2" using switched_sys_inv [OF k1(1) f(1,2,4) t] .
      have "prio k x \<le> p" if "ready k x" for x
        using sys_invD(6) [OF s] ny cur that by (simp add: settled_def p)
      then have pt: "prio k t = p"
        using t(1) crd rd1 by (auto simp: chosen_def tf p intro: antisym)
      have wf: "lists_wf (lists k)" using lists_inv_wf [OF kernel_core_lists [OF sys_invD(2) [OF s]]] .
      obtain L' i where nx: "list_next_entry (ReadyL p) (lists k) = Some (L', i)"
        and L': "L' = (lists k)\<lparr>cursor := (cursor (lists k))(ReadyL p := Some i)\<rparr>"
      proof -
        from two obtain x xs where "members k (ReadyL p) = x # xs" by (cases "members k (ReadyL p)") auto
        then show ?thesis by (intro that) (simp_all add: list_next_entry_def Let_def)
      qed
      have it: "i = StateI t"
        using list_next_entry_visit(1) [OF wf nx] t(1) pt
        by (simp add: chosen_def L tf) (metis list.sel(1))
      have k2: "lists k2 = L'" "pxCurrentTCB k2 = Some t" "tcbs k2 = tcbs k" "\<not> xYieldPending k2"
        "uxSchedulerSuspended k2 = 0" "xTickCount k2 = xTickCount k + 1"
        using t(2) pt f k1(3) by (simp_all add: switched_def L L' tf it)
      have "waking_by n k2 = {}"
      proof -
        have "waking_by n k1 = {}"
          using q waking_by_Suc [OF inv k1(1-3)] by (simp add: quiet_def)
        moreover have "timed k2 x = timed k1 x" "ticks_left k2 x = ticks_left k1 x" for x
          using t(2) by (simp_all add: timed_def ticks_left_def switched_def)
        ultimately show ?thesis by (simp add: waking_by_def)
      qed
      then have "quiet n k2" using s2 k2 by (simp add: quiet_def)
      then show "quiet n k2 \<and> (\<exists>i. list_next_entry (ReadyL p) (lists k) = Some (lists k2, i) \<and>
         pxCurrentTCB k2 = Some (owner i) \<and> i = StateI (owner i) \<and> prio k2 (owner i) = p \<and> tcbs k2 = tcbs k)"
        using nx k2 it pt by simp
    qed
  qed
  then show ?thesis unfolding one_slice ensures_bind .
qed

text \<open>The tasks that run are a walk over the ready list of the highest priority.\<close>

lemma slices_walk:
  assumes "quiet n k" and "pxCurrentTCB k = Some c" and "p = prio k c"
    and "1 < length (members k (ReadyL p))"
  shows "ensures (slices n k) (\<lambda>(k', cs). \<exists>is. cs = map owner is \<and> sys_inv k' \<and> tcbs k' = tcbs k \<and>
    walk (list_next_entry (ReadyL p)) n (lists k) = Some (lists k', is))"
  using assms
proof (induction n arbitrary: k c)
  case 0
  then show ?case by (simp add: quiet_def)
next
  case (Suc n)
  show ?case
    unfolding slices.simps ensures_bind
  proof (rule ensures_mono [OF slice_step [OF Suc.prems]])
    fix k1 assume "quiet n k1 \<and>
      (\<exists>i. list_next_entry (ReadyL p) (lists k) = Some (lists k1, i) \<and> pxCurrentTCB k1 = Some (owner i) \<and>
         i = StateI (owner i) \<and> prio k1 (owner i) = p \<and> tcbs k1 = tcbs k)"
    then obtain i where k1: "quiet n k1" "list_next_entry (ReadyL p) (lists k) = Some (lists k1, i)"
      "pxCurrentTCB k1 = Some (owner i)" "prio k1 (owner i) = p" "tcbs k1 = tcbs k" by blast
    have wf: "lists_wf (lists k)"
      using Suc.prems(1) lists_inv_wf [OF kernel_core_lists [OF sys_invD(2)]] by (simp add: quiet_def)
    have "items (lists k1) = items (lists k)"
    proof -
      have "items (lists k) (ReadyL p) \<noteq> []" using Suc.prems(4) by auto
      from list_next_entry_ensures [OF wf this, of "\<lambda>(L', j). items L' = items (lists k)"] k1(2)
      show ?thesis by simp
    qed
    then have "1 < length (members k1 (ReadyL p))" using Suc.prems(4) by simp
    from Suc.IH [OF k1(1,3) k1(4) [symmetric] this]
    have IH: "ensures (slices n k1) (\<lambda>(k', cs). \<exists>is. cs = map owner is \<and> sys_inv k' \<and> tcbs k' = tcbs k \<and>
      walk (list_next_entry (ReadyL p)) n (lists k1) = Some (lists k', is))"
      by (simp add: k1(5))
    show "ensures (pxCurrentTCB k1) (\<lambda>c. ensures (slices n k1) (\<lambda>r. ensures (case r of (k, cs) \<Rightarrow>
        Some (k, c # cs)) (\<lambda>(k', cs). \<exists>is. cs = map owner is \<and> sys_inv k' \<and> tcbs k' = tcbs k \<and>
      walk (list_next_entry (ReadyL p)) (Suc n) (lists k) = Some (lists k', is))))"
      unfolding k1(3) ensures_Some
    proof (rule ensures_mono [OF IH])
      fix r assume "case r of (k', cs) \<Rightarrow> \<exists>is. cs = map owner is \<and> sys_inv k' \<and> tcbs k' = tcbs k \<and>
        walk (list_next_entry (ReadyL p)) n (lists k1) = Some (lists k', is)"
      then obtain k' "is" where r: "r = (k', map owner is)" "sys_inv k'" "tcbs k' = tcbs k"
        "walk (list_next_entry (ReadyL p)) n (lists k1) = Some (lists k', is)" by auto
      show "ensures (case r of (k, cs) \<Rightarrow> Some (k, owner i # cs)) (\<lambda>(k', cs). \<exists>is. cs = map owner is \<and>
          sys_inv k' \<and> tcbs k' = tcbs k \<and>
          walk (list_next_entry (ReadyL p)) (Suc n) (lists k) = Some (lists k', is))"
        using r k1(2) by (auto intro!: exI [of _ "i # is"])
    qed
  qed
qed

text \<open>
  In a full round of ticks every ready task of the running task's priority runs for exactly
  one slice, the running task last.
\<close>

lemma round_robin_slices:
  assumes q: "quiet n k" and cur: "pxCurrentTCB k = Some c"
    and n: "n = length (members k (ReadyL (prio k c)))" and two: "1 < n"
  shows "ensures (slices n k) (\<lambda>(k', cs). sys_inv k' \<and> distinct cs \<and> length cs = n \<and>
    set cs = {t. ready k t \<and> prio k t = prio k c})"
proof -
  let ?l = "ReadyL (prio k c)"
  have s: "sys_inv k" using q by (simp add: quiet_def)
  have core: "kernel_core k" using s by (rule sys_invD)
  have rep: "store_rep (lists k) (lists k)"
    using lists_inv_wf [OF kernel_core_lists [OF core]] by (simp add: store_rep_def)
  have ne: "items (lists k) ?l \<noteq> []" using n two by auto
  from slices_walk [OF q cur refl] n two
  have "ensures (slices n k) (\<lambda>(k', cs). \<exists>is. cs = map owner is \<and> sys_inv k' \<and> tcbs k' = tcbs k \<and>
    walk (list_next_entry ?l) n (lists k) = Some (lists k', is))" by simp
  then show ?thesis
  proof (rule ensures_mono)
    fix r assume "case r of (k', cs) \<Rightarrow> \<exists>is. cs = map owner is \<and> sys_inv k' \<and> tcbs k' = tcbs k \<and>
      walk (list_next_entry ?l) n (lists k) = Some (lists k', is)"
    then obtain k' "is" where r: "r = (k', map owner is)" "sys_inv k'"
      "walk (list_next_entry ?l) n (lists k) = Some (lists k', is)" by auto
    from store.walk_round [OF rep ne] r(3)
    have w: "distinct is" "set is = set (items (lists k) ?l)" unfolding n by auto
    have st: "i = StateI (owner i) \<and> state_list k (owner i) = Some ?l" if "i \<in> set is" for i
    proof -
      have "i \<in> set (members k ?l)" using that w(2) by simp
      from state_member [OF core this] show ?thesis unfolding is_event_list.simps by blast
    qed
    have "inj_on owner (set is)" using st by (metis inj_onI)
    then have d: "distinct (map owner is)" using w(1) by (simp add: distinct_map)
    have "set (map owner is) = {t. ready k t \<and> prio k t = prio k c}"
    proof (intro set_eqI iffI)
      fix t assume "t \<in> set (map owner is)"
      then have "state_list k t = Some ?l" using st by auto
      then show "t \<in> {t. ready k t \<and> prio k t = prio k c}"
        using task_okD(5) [OF kernel_core_task [OF core]] by (auto simp: ready_def)
    next
      fix t assume "t \<in> {t. ready k t \<and> prio k t = prio k c}"
      then have "StateI t \<in> set is" using member_iff(1) [OF core] w(2) by (simp add: ready_def)
      then show "t \<in> set (map owner is)" by force
    qed
    moreover have "length is = n" using distinct_card [OF w(1)] w(2) n
      distinct_card [OF lists_wf_distinct [OF lists_inv_wf [OF kernel_core_lists [OF core]], of ?l]] by simp
    ultimately show "case r of (k', cs) \<Rightarrow> sys_inv k' \<and> distinct cs \<and> length cs = n \<and>
      set cs = {t. ready k t \<and> prio k t = prio k c}" using r d by simp
  qed
qed

end
