(* ===== verification/Task_Create.thy ===== *)
theory Task_Create
  imports Task_Tick
begin

text \<open>
  The life of a task in tasks.c: creation, deletion and the cleaning up by the idle task;
  the creation of the idle task and the end of the scheduler (its start is in Timer_Start); the
  idle task itself. Memory from the heap or from the
  application is an argument: \<open>tcb_mem\<close> is the block \<open>pvPortMalloc\<close> or the caller gave for the
  control block (\<open>None\<close> for NULL), \<open>stack_mem\<close> whether there is a stack. The contents of the
  stack are not modelled.
\<close>

section \<open>Creation\<close>

definition zero_tcb :: tcb where
  "zero_tcb = \<lparr>uxPriority = 0, pcTaskName = '''', uxTCBNumber = 0, uxTaskNumberTrace = 0, uxBasePriority = 0,
     uxMutexesHeld = 0, pxTaskTag = None, ulNotifiedValue = replicate configTASK_NOTIFICATION_ARRAY_ENTRIES 0,
     ucNotifyState = replicate configTASK_NOTIFICATION_ARRAY_ENTRIES taskNOT_WAITING_NOTIFICATION,
     ucStaticallyAllocated = tskDYNAMICALLY_ALLOCATED_STACK_AND_TCB, ucDelayAborted = False\<rparr>"

text \<open>\<open>memset\<close> of the new control block, which holds the two list items.\<close>

definition memset_tcb :: "task \<Rightarrow> kernel \<Rightarrow> kernel" where
  "memset_tcb t k = k\<lparr>tcbs := (tcbs k)(t := zero_tcb),
     lists := list_set_value (StateI t) 0 (list_set_value (EventI t) 0
       (list_item_init (StateI t) (list_item_init (EventI t) (lists k))))\<rparr>"

text \<open>
  The copy loop takes at most \<open>configMAX_TASK_NAME_LEN\<close> characters and stops at the
  terminating NUL, which it copies; the last place is then overwritten with NUL.
\<close>

definition copy_task_name :: "string \<Rightarrow> string" where
  "copy_task_name pcName = take (configMAX_TASK_NAME_LEN - 1) (takeWhile (\<lambda>c. c \<noteq> CHR 0x00) pcName)"

definition prvInitialiseNewTask :: "string option \<Rightarrow> nat \<Rightarrow> task \<Rightarrow> kernel \<Rightarrow> kernel option" where
  "prvInitialiseNewTask pcName uxPrio t k = do {
     let k = (case pcName of None \<Rightarrow> k
              | Some s \<Rightarrow> upd_tcb t (\<lambda>b. b\<lparr>pcTaskName := copy_task_name s\<rparr>) k);
     configASSERT (uxPrio < configMAX_PRIORITIES);
     let p = (if uxPrio \<ge> configMAX_PRIORITIES then configMAX_PRIORITIES - 1 else uxPrio);
     let k = upd_tcb t (\<lambda>b. b\<lparr>uxPriority := p, uxBasePriority := p\<rparr>) k;
     let k = k\<lparr>lists := list_item_init (EventI t) (list_item_init (StateI t) (lists k))\<rparr>;
     Some (k_set_value (EventI t) (priority_value p) k) }"

definition prvCreateTask ::
    "string option \<Rightarrow> nat \<Rightarrow> bool \<Rightarrow> task option \<Rightarrow> kernel \<Rightarrow> (kernel \<times> task option) option" where
  "prvCreateTask pcName uxPrio stack_mem tcb_mem k =
     (if stack_mem
      then case tcb_mem of
          None \<Rightarrow> Some (k, None)
        | Some t \<Rightarrow> do {
            let k = memset_tcb t k;
            let k = upd_tcb t (\<lambda>b. b\<lparr>ucStaticallyAllocated := tskDYNAMICALLY_ALLOCATED_STACK_AND_TCB\<rparr>) k;
            k \<leftarrow> prvInitialiseNewTask pcName uxPrio t k;
            Some (k, Some t) }
      else Some (k, None))"

definition prvCreateStaticTask ::
    "string option \<Rightarrow> nat \<Rightarrow> bool \<Rightarrow> task option \<Rightarrow> kernel \<Rightarrow> (kernel \<times> task option) option" where
  "prvCreateStaticTask pcName uxPrio stack_mem tcb_mem k = do {
     configASSERT stack_mem;
     configASSERT (tcb_mem \<noteq> None);
     case tcb_mem of
       None \<Rightarrow> Some (k, None)
     | Some t \<Rightarrow>
         if stack_mem
         then do {
           let k = memset_tcb t k;
           let k = upd_tcb t (\<lambda>b. b\<lparr>ucStaticallyAllocated := tskSTATICALLY_ALLOCATED_STACK_AND_TCB\<rparr>) k;
           k \<leftarrow> prvInitialiseNewTask pcName uxPrio t k;
           Some (k, Some t) }
         else Some (k, None) }"

definition prvAddNewTaskToReadyList :: "task \<Rightarrow> kernel \<Rightarrow> kernel option" where
  "prvAddNewTaskToReadyList t k = do {
     let k = k\<lparr>uxCurrentNumberOfTasks := uxCurrentNumberOfTasks k + 1\<rparr>;
     let k = (case pxCurrentTCB k of
         None \<Rightarrow>
           let k = k\<lparr>pxCurrentTCB := Some t\<rparr>
           in if uxCurrentNumberOfTasks k = 1 then prvInitialiseTaskLists k else k
       | Some c \<Rightarrow>
           if \<not> xSchedulerRunning k \<and> prio k c \<le> prio k t then k\<lparr>pxCurrentTCB := Some t\<rparr> else k);
     let k = k\<lparr>uxTaskNumber := uxTaskNumber k + 1\<rparr>;
     let k = upd_tcb t (\<lambda>b. b\<lparr>uxTCBNumber := uxTaskNumber k\<rparr>) k;
     let k = prvAddTaskToReadyList t k;
     if xSchedulerRunning k then taskYIELD_ANY_CORE_IF_USING_PREEMPTION t k else Some k }"

text \<open>The result is the handle, \<open>None\<close> for \<open>errCOULD_NOT_ALLOCATE_REQUIRED_MEMORY\<close>.\<close>

definition xTaskCreate ::
    "string option \<Rightarrow> nat \<Rightarrow> bool \<Rightarrow> task option \<Rightarrow> kernel \<Rightarrow> (kernel \<times> task option) option" where
  "xTaskCreate pcName uxPrio stack_mem tcb_mem k = do {
     (k, new) \<leftarrow> prvCreateTask pcName uxPrio stack_mem tcb_mem k;
     case new of
       Some t \<Rightarrow> do { k \<leftarrow> prvAddNewTaskToReadyList t k; Some (k, Some t) }
     | None \<Rightarrow> Some (k, None) }"

definition xTaskCreateStatic ::
    "string option \<Rightarrow> nat \<Rightarrow> bool \<Rightarrow> task option \<Rightarrow> kernel \<Rightarrow> (kernel \<times> task option) option" where
  "xTaskCreateStatic pcName uxPrio stack_mem tcb_mem k = do {
     (k, new) \<leftarrow> prvCreateStaticTask pcName uxPrio stack_mem tcb_mem k;
     case new of
       Some t \<Rightarrow> do { k \<leftarrow> prvAddNewTaskToReadyList t k; Some (k, Some t) }
     | None \<Rightarrow> Some (k, None) }"

section \<open>Deletion\<close>

text \<open>What \<open>prvDeleteTCB\<close> gives back to the heap.\<close>

datatype freed = FreeStackAndTCB task | FreeTCB task | FreeNothing

definition prvDeleteTCB :: "task \<Rightarrow> kernel \<Rightarrow> freed option" where
  "prvDeleteTCB t k =
     (if ucStaticallyAllocated (tcbs k t) = tskDYNAMICALLY_ALLOCATED_STACK_AND_TCB then Some (FreeStackAndTCB t)
      else if ucStaticallyAllocated (tcbs k t) = tskSTATICALLY_ALLOCATED_STACK_ONLY then Some (FreeTCB t)
      else do { configASSERT (ucStaticallyAllocated (tcbs k t) = tskSTATICALLY_ALLOCATED_STACK_AND_TCB);
                Some FreeNothing })"

definition vTaskDelete :: "task option \<Rightarrow> kernel \<Rightarrow> (kernel \<times> freed) option" where
  "vTaskDelete xTaskToDelete k = do {
     t \<leftarrow> prvGetTCBFromHandle xTaskToDelete k;
     k \<leftarrow> k_list_remove (StateI t) k;
     k \<leftarrow> (if event_list k t \<noteq> None then k_list_remove (EventI t) k else Some k);
     let k = k\<lparr>uxTaskNumber := uxTaskNumber k + 1\<rparr>;
     let xTaskIsRunningOrYielding = (Some t = pxCurrentTCB k);
     let xDeleteTCBInIdleTask = (xSchedulerRunning k \<and> xTaskIsRunningOrYielding);
     let k = (if xDeleteTCBInIdleTask
              then (k_list_insert_end TerminationL (StateI t) k)
                     \<lparr>uxDeletedTasksWaitingCleanUp := uxDeletedTasksWaitingCleanUp k + 1\<rparr>
              else prvResetNextTaskUnblockTime (k\<lparr>uxCurrentNumberOfTasks := uxCurrentNumberOfTasks k - 1\<rparr>));
     f \<leftarrow> (if xDeleteTCBInIdleTask then Some FreeNothing else prvDeleteTCB t k);
     k \<leftarrow> (if xSchedulerRunning k
           then if Some t = pxCurrentTCB k
                then do { configASSERT (uxSchedulerSuspended k = 0); portYIELD k }
                else Some k
           else Some k);
     Some (k, f) }"

text \<open>The loop of the idle task over the deleted tasks; the list of what it freed is returned.\<close>

partial_function (option) prvCheckTasksWaitingTermination :: "kernel \<Rightarrow> (kernel \<times> freed list) option" where
  "prvCheckTasksWaitingTermination k =
     (if uxDeletedTasksWaitingCleanUp k > 0
      then do {
        i \<leftarrow> list_head TerminationL (lists k);
        k1 \<leftarrow> k_list_remove (StateI (owner i)) k;
        let k2 = k1\<lparr>uxCurrentNumberOfTasks := uxCurrentNumberOfTasks k1 - 1,
                    uxDeletedTasksWaitingCleanUp := uxDeletedTasksWaitingCleanUp k1 - 1\<rparr>;
        f \<leftarrow> prvDeleteTCB (owner i) k2;
        (k3, fs) \<leftarrow> prvCheckTasksWaitingTermination k2;
        Some (k3, f # fs) }
      else Some (k, []))"

section \<open>The idle task and the scheduler's start and end\<close>

definition configEXPECTED_IDLE_TIME_BEFORE_SLEEP :: tick where
  "configEXPECTED_IDLE_TIME_BEFORE_SLEEP = 2"

text \<open>
  One round of the idle task, in the two parts its yield separates: other tasks run between
  them. \<open>sleep\<close> is \<open>portSUPPRESS_TICKS_AND_SLEEP\<close>; the idle hook comes between the parts.
\<close>

definition prvIdleTask_clean_up :: "kernel \<Rightarrow> (kernel \<times> freed list) option" where
  "prvIdleTask_clean_up k = do {
     (k, fs) \<leftarrow> prvCheckTasksWaitingTermination k;
     k \<leftarrow> (if length (members k (ReadyL tskIDLE_PRIORITY)) > 1 then portYIELD k else Some k);
     Some (k, fs) }"

definition prvIdleTask_sleep :: "(tick \<Rightarrow> kernel \<Rightarrow> kernel option) \<Rightarrow> kernel \<Rightarrow> kernel option" where
  "prvIdleTask_sleep sleep k = do {
     xExpectedIdleTime \<leftarrow> prvGetExpectedIdleTime k;
     if xExpectedIdleTime \<ge> configEXPECTED_IDLE_TIME_BEFORE_SLEEP
     then do {
       let k = vTaskSuspendAll k;
       configASSERT (xNextTaskUnblockTime k \<ge> xTickCount k);
       xExpectedIdleTime \<leftarrow> prvGetExpectedIdleTime k;
       k \<leftarrow> (if xExpectedIdleTime \<ge> configEXPECTED_IDLE_TIME_BEFORE_SLEEP
             then sleep xExpectedIdleTime k else Some k);
       (k, _) \<leftarrow> xTaskResumeAll k;
       Some k }
     else Some k }"

definition eTaskConfirmSleepModeStatus :: "kernel \<Rightarrow> eSleepModeStatus" where
  "eTaskConfirmSleepModeStatus k =
     (if length (members k PendingReadyL) \<noteq> 0 then eAbortSleep
      else if xYieldPending k then eAbortSleep
      else if xPendedTicks k \<noteq> 0 then eAbortSleep
      else if length (members k SuspendedL) = uxCurrentNumberOfTasks k - 1 then eNoTasksWaitingTimeout
      else eStandardSleep)"

definition prvCreateIdleTasks :: "bool \<Rightarrow> task option \<Rightarrow> kernel \<Rightarrow> (kernel \<times> bool) option" where
  "prvCreateIdleTasks stack_mem tcb_mem k = do {
     (k, new) \<leftarrow> xTaskCreateStatic (Some ''IDLE'') 0 stack_mem tcb_mem k;
     let k = k\<lparr>xIdleTaskHandle := new\<rparr>;
     Some (k, new \<noteq> None) }"

definition vTaskEndScheduler :: "task option \<Rightarrow> kernel \<Rightarrow> kernel option" where
  "vTaskEndScheduler xTimerTaskHandle k = do {
     (k, _) \<leftarrow> vTaskDelete xTimerTaskHandle k;
     (k, _) \<leftarrow> vTaskDelete (xIdleTaskHandle k) k;
     (k, _) \<leftarrow> prvCheckTasksWaitingTermination k;
     Some (k\<lparr>xSchedulerRunning := False\<rparr>) }"

definition vTaskResetState :: "kernel \<Rightarrow> kernel" where
  "vTaskResetState k = k\<lparr>pxCurrentTCB := None, uxDeletedTasksWaitingCleanUp := 0,
     uxCurrentNumberOfTasks := 0, xTickCount := 0, uxTopReadyPriority := tskIDLE_PRIORITY,
     xSchedulerRunning := False, xPendedTicks := 0, xYieldPending := False, xNumOfOverflows := 0,
     uxTaskNumber := 0, xNextTaskUnblockTime := 0, uxSchedulerSuspended := 0\<rparr>"

section \<open>A new task\<close>

definition fresh :: "kernel \<Rightarrow> task \<Rightarrow> bool" where
  "fresh k t \<longleftrightarrow> state_list k t = None \<and> event_list k t = None"

text \<open>The control block after \<open>prvInitialiseNewTask\<close>.\<close>

definition new_tcb :: "string option \<Rightarrow> nat \<Rightarrow> allocation \<Rightarrow> tcb" where
  "new_tcb name p a = zero_tcb\<lparr>pcTaskName := (case name of None \<Rightarrow> '''' | Some s \<Rightarrow> copy_task_name s),
     uxPriority := p, uxBasePriority := p, ucStaticallyAllocated := a\<rparr>"

lemma new_tcb_fields [simp]:
  "uxPriority (new_tcb name p a) = p" "uxBasePriority (new_tcb name p a) = p"
  "length (ulNotifiedValue (new_tcb name p a)) = configTASK_NOTIFICATION_ARRAY_ENTRIES"
  "length (ucNotifyState (new_tcb name p a)) = configTASK_NOTIFICATION_ARRAY_ENTRIES"
  "ucStaticallyAllocated (new_tcb name p a) = a" "pcTaskName (new_tcb None p a) = ''''"
  "pcTaskName (new_tcb (Some s) p a) = copy_task_name s"
  by (simp_all add: new_tcb_def zero_tcb_def)

lemma copy_task_name_length: "length (copy_task_name s) < configMAX_TASK_NAME_LEN"
  by (simp add: copy_task_name_def configMAX_TASK_NAME_LEN_def)

text \<open>The lists with the two items of the new task initialised.\<close>

definition items_reset :: "task \<Rightarrow> (list_id, item_id) lists \<Rightarrow> (list_id, item_id) lists \<Rightarrow> bool" where
  "items_reset t L L' \<longleftrightarrow> items L' = items L \<and> cursor L' = cursor L \<and>
     container L' = (container L)(StateI t := None, EventI t := None) \<and>
     (\<forall>x. x \<noteq> t \<longrightarrow> item_value L' (StateI x) = item_value L (StateI x) \<and>
        item_value L' (EventI x) = item_value L (EventI x))"

lemma initialised_task:
  assumes "p < configMAX_PRIORITIES"
  obtains L where "items_reset t (lists k) L"
    and "prvInitialiseNewTask name p t (upd_tcb t (\<lambda>b. b\<lparr>ucStaticallyAllocated := a\<rparr>) (memset_tcb t k)) =
      Some (k\<lparr>tcbs := (tcbs k)(t := new_tcb name p a), lists := L\<rparr>)"
proof -
  let ?L = "list_set_value (EventI t) (priority_value p) (list_item_init (EventI t) (list_item_init (StateI t)
    (list_set_value (StateI t) 0 (list_set_value (EventI t) 0
       (list_item_init (StateI t) (list_item_init (EventI t) (lists k)))))))"
  have "items_reset t (lists k) ?L"
    by (auto simp: items_reset_def list_frame fun_eq_iff)
  moreover have "prvInitialiseNewTask name p t (upd_tcb t (\<lambda>b. b\<lparr>ucStaticallyAllocated := a\<rparr>) (memset_tcb t k)) =
      Some (k\<lparr>tcbs := (tcbs k)(t := new_tcb name p a), lists := ?L\<rparr>)"
    using assms by (cases name)
      (simp_all add: prvInitialiseNewTask_def memset_tcb_def new_tcb_def zero_tcb_def Let_def)
  ultimately show ?thesis by (rule that)
qed

lemma items_reset_inv:
  assumes li: "lists_inv L" and r: "items_reset t L L'"
    and n: "container L (StateI t) = None" "container L (EventI t) = None"
  shows "lists_inv L'" "container L' = container L"
proof -
  show c: "container L' = container L" using r n by (auto simp: items_reset_def fun_eq_iff)
  have wf: "lists_wf L'" using lists_inv_wf [OF li] r c by (simp add: lists_wf_def items_reset_def)
  have "sorted_key (item_value L') (items L l)" if "l \<in> delayed_lists" for l
  proof -
    have "item_value L' i = item_value L i" if "i \<in> set (items L l)" for i
    proof -
      have "i \<noteq> StateI t" "i \<noteq> EventI t" using that n lists_wf_not_in [OF lists_inv_wf [OF li]] by auto
      then show ?thesis using r by (cases i) (auto simp: items_reset_def)
    qed
    then show ?thesis using sorted_key_cong lists_inv_sorted [OF li \<open>l \<in> delayed_lists\<close>] by metis
  qed
  then show "lists_inv L'" using wf r by (simp add: lists_inv_def items_reset_def)
qed

text \<open>The kernel with one task more; who runs and the task numbers are left open.\<close>

definition added :: "task \<Rightarrow> tcb \<Rightarrow> kernel \<Rightarrow> kernel \<Rightarrow> bool" where
  "added t b k k' \<longleftrightarrow>
     (\<forall>x. state_list k' x = (if x = t then Some (ReadyL (uxPriority b)) else state_list k x)) \<and>
     (\<forall>x. event_list k' x = event_list k x) \<and> (\<forall>x. x \<noteq> t \<longrightarrow> wake_time k' x = wake_time k x) \<and>
     (\<forall>l. \<not> is_ready_list l \<longrightarrow> members k' l = members k l) \<and>
     (\<forall>x. x \<noteq> t \<longrightarrow> tcbs k' x = tcbs k x) \<and> same_shape b (tcbs k' t) \<and>
     uxCurrentNumberOfTasks k' = uxCurrentNumberOfTasks k + 1 \<and>
     uxTopReadyPriority k \<le> uxTopReadyPriority k' \<and> uxPriority b \<le> uxTopReadyPriority k' \<and>
     uxTopReadyPriority k' < configMAX_PRIORITIES \<and>
     uxDeletedTasksWaitingCleanUp k' = uxDeletedTasksWaitingCleanUp k \<and>
     xTickCount k' = xTickCount k \<and> xNextTaskUnblockTime k' = xNextTaskUnblockTime k \<and>
     pxDelayedTaskList k' = pxDelayedTaskList k \<and> pxOverflowDelayedTaskList k' = pxOverflowDelayedTaskList k \<and>
     uxSchedulerSuspended k' = uxSchedulerSuspended k \<and> xYieldPending k' = xYieldPending k \<and>
     xPendedTicks k' = xPendedTicks k \<and> xSchedulerRunning k' = xSchedulerRunning k \<and>
     xIdleTaskHandle k' = xIdleTaskHandle k"

lemma added_inv:
  assumes inv: "kernel_inv k" and f: "fresh k t" and a: "added t b k k'" and li: "lists_inv (lists k')"
    and b: "uxBasePriority b \<le> uxPriority b" "uxPriority b < configMAX_PRIORITIES"
      "length (ulNotifiedValue b) = configTASK_NOTIFICATION_ARRAY_ENTRIES"
      "length (ucNotifyState b) = configTASK_NOTIFICATION_ARRAY_ENTRIES"
  shows "kernel_inv k'"
proof -
  have core: "kernel_core k" using inv by (rule kernel_invD)
  have st: "state_list k' x = (if x = t then Some (ReadyL (uxPriority b)) else state_list k x)"
    and ev: "event_list k' x = event_list k x" and tb: "x \<noteq> t \<Longrightarrow> tcbs k' x = tcbs k x"
    and top: "uxTopReadyPriority k \<le> uxTopReadyPriority k'" for x
    using a by (simp_all add: added_def)
  have "t \<notin> live_tasks k" using f by (simp add: fresh_def live_tasks_def)
  moreover have "live_tasks k' = insert t (live_tasks k)" using st by (auto simp: live_tasks_def)
  moreover have "dead_tasks k' = dead_tasks k" using st f by (auto simp: dead_tasks_def fresh_def)
  moreover have "task_ok k' x" for x
  proof (cases "x = t")
    case True
    show ?thesis
      by (rule task_ok_ready) (use True a f b st ev in \<open>simp_all add: added_def fresh_def same_shape_def\<close>)
  next
    case False
    then have "same_task k k' x" using st ev tb by (simp add: same_task_def)
    then show ?thesis using task_ok_cong [OF kernel_core_task [OF core] _ top] by blast
  qed
  ultimately have "kernel_core k'"
    using core li a by (simp add: kernel_core_def added_def)
  moreover have "wake_ok k' x" for x
    using kernel_invD(2) [OF inv, of x] a core by (auto simp: wake_ok_def added_def)
  moreover have "pending_ok k'" "next_ok k'"
    using kernel_invD(3,4) [OF inv] a by (simp_all add: pending_ok_def next_ok_def added_def)
  ultimately show ?thesis by (simp add: kernel_inv_def)
qed

text \<open>Adding to a running system: the invariant holds after the preemption test.\<close>

lemma add_new_task_ensures:
  assumes s: "sys_inv k" and f: "fresh k t" and r: "items_reset t (lists k) L"
    and p: "p < configMAX_PRIORITIES" and b: "b = new_tcb name p a"
  shows "ensures (prvAddNewTaskToReadyList t (k\<lparr>tcbs := (tcbs k)(t := b), lists := L\<rparr>))
    (\<lambda>k'. sys_inv k' \<and> ready k' t \<and> prio k' t = p \<and>
       uxCurrentNumberOfTasks k' = uxCurrentNumberOfTasks k + 1 \<and>
       (\<forall>x. x \<noteq> t \<longrightarrow> state_list k' x = state_list k x))"
    (is "ensures _ ?Q")
proof -
  from sys_invD(5) [OF s] obtain c where cur: "pxCurrentTCB k = Some c" and crd: "ready k c" by (rule current_readyE)
  have run: "xSchedulerRunning k" and inv: "kernel_inv k" and core: "kernel_core k" using sys_invD [OF s] by blast+
  note Linv = items_reset_inv [OF kernel_core_lists [OF core] r f [unfolded fresh_def, THEN conjunct1]
      f [unfolded fresh_def, THEN conjunct2]]
  define k1 where "k1 = prvAddTaskToReadyList t (upd_tcb t (\<lambda>b. b\<lparr>uxTCBNumber := uxTaskNumber k + 1\<rparr>)
    (k\<lparr>tcbs := (tcbs k)(t := b), lists := L, uxCurrentNumberOfTasks := uxCurrentNumberOfTasks k + 1,
       uxTaskNumber := uxTaskNumber k + 1\<rparr>))"
  have ct: "c \<noteq> t" using crd f by (auto simp: ready_def fresh_def)
  have unf: "prvAddNewTaskToReadyList t (k\<lparr>tcbs := (tcbs k)(t := b), lists := L\<rparr>) =
      taskYIELD_ANY_CORE_IF_USING_PREEMPTION t k1"
    using run cur by (simp add: prvAddNewTaskToReadyList_def k1_def Let_def add_to_ready)
  have a1: "added t b k k1"
    using core p Linv r f
    by (auto simp: added_def k1_def add_to_ready list_frame b same_shape_def kernel_core_def fresh_def items_reset_def)
  have li: "lists_inv (lists k1)"
    using Linv f by (simp add: k1_def add_to_ready fresh_def)
  have inv1: "kernel_inv k1" by (rule added_inv [OF inv f a1 li]) (simp_all add: b p)
  have rd1: "ready k1 x \<longleftrightarrow> x = t \<or> ready k x" for x
    using a1 by (auto simp: ready_def added_def b same_shape_def)
  have c1: "pxCurrentTCB k1 = Some c" "xSchedulerRunning k1" "xIdleTaskHandle k1 = xIdleTaskHandle k"
    "xYieldPending k1 = xYieldPending k"
    using cur run by (simp_all add: k1_def add_to_ready)
  have parts: "idle_ready k1" "current_ready k1" "caught_up k1"
    using sys_invD(4,7) [OF s] crd rd1 a1 by (auto simp: idle_ready_def current_ready_def caught_up_def c1 added_def)
  have pr: "prio k1 t = p" "x \<noteq> t \<Longrightarrow> prio k1 x = prio k x" for x
    using a1 by (simp_all add: added_def b same_shape_def)
  have "ensures (taskYIELD_ANY_CORE_IF_USING_PREEMPTION t k1) sys_inv"
  proof (cases "prio k1 c < prio k1 t")
    case True
    then show ?thesis
      using yield_sys_inv [OF inv1 c1(2) parts(1,3,2)]
      by (simp add: taskYIELD_ANY_CORE_IF_USING_PREEMPTION_def c1)
  next
    case False
    have "prio k1 x \<le> prio k1 c" if "ready k1 x" "\<not> xYieldPending k" for x
      using False sys_invD(6) [OF s] cur ct rd1 [of x] pr(2) [of x] pr(2) [of c] that
      by (cases "x = t") (simp_all add: settled_def)
    then have "settled k1" by (simp add: settled_def c1)
    then show ?thesis
      using False inv1 parts c1 by (simp add: taskYIELD_ANY_CORE_IF_USING_PREEMPTION_def sys_inv_def)
  qed
  from switch_state_list [OF this] show ?thesis
    unfolding unf
  proof (rule ensures_mono)
    fix k' assume k': "sys_inv k' \<and> container (lists k') = container (lists k1) \<and> tcbs k' = tcbs k1"
    then have "live_tasks k' = live_tasks k1" by (simp add: live_tasks_def)
    then have "uxCurrentNumberOfTasks k' = uxCurrentNumberOfTasks k1"
      using k' sys_invD(2) kernel_invD(1) [OF inv1] by (metis kernel_core_def)
    then show "?Q k'" using k' rd1 [of t] pr(1) a1 by (simp add: ready_def added_def)
  qed
qed

lemma xTaskCreate_ensures:
  assumes s: "sys_inv k" and p: "p < configMAX_PRIORITIES" and f: "\<And>t. tcb_mem = Some t \<Longrightarrow> fresh k t"
  shows "ensures (xTaskCreate name p stack_mem tcb_mem k) (\<lambda>(k', r). sys_inv k' \<and>
    (if stack_mem \<and> tcb_mem \<noteq> None
     then r = tcb_mem \<and> ready k' (the r) \<and> prio k' (the r) = p \<and>
          uxCurrentNumberOfTasks k' = uxCurrentNumberOfTasks k + 1
     else r = None \<and> k' = k))"
proof (cases "stack_mem \<and> tcb_mem \<noteq> None")
  case False
  then show ?thesis using s by (auto simp: xTaskCreate_def prvCreateTask_def)
next
  case True
  then obtain t where t: "tcb_mem = Some t" and st: "stack_mem" by auto
  obtain L where L: "items_reset t (lists k) L"
    and init: "prvInitialiseNewTask name p t (upd_tcb t (\<lambda>b. b\<lparr>ucStaticallyAllocated :=
        tskDYNAMICALLY_ALLOCATED_STACK_AND_TCB\<rparr>) (memset_tcb t k)) =
      Some (k\<lparr>tcbs := (tcbs k)(t := new_tcb name p tskDYNAMICALLY_ALLOCATED_STACK_AND_TCB), lists := L\<rparr>)"
    using initialised_task [OF p] by metis
  have "xTaskCreate name p stack_mem tcb_mem k = do {
      k' \<leftarrow> prvAddNewTaskToReadyList t (k\<lparr>tcbs := (tcbs k)(t := new_tcb name p
        tskDYNAMICALLY_ALLOCATED_STACK_AND_TCB), lists := L\<rparr>);
      Some (k', Some t) }"
    using init by (simp add: xTaskCreate_def prvCreateTask_def t st Let_def)
  then show ?thesis
    using add_new_task_ensures [OF s f [OF t] L p refl, of name tskDYNAMICALLY_ALLOCATED_STACK_AND_TCB] t st
    by (auto elim!: ensures_mono)
qed

section \<open>The end of a task\<close>

text \<open>A task that is not running is gone at once.\<close>

lemma removed_inv:
  assumes inv: "kernel_inv k" and live: "state_list k t \<noteq> None" "state_list k t \<noteq> Some TerminationL"
    and d: "detached t (lists k) L'"
  shows "kernel_inv (prvResetNextTaskUnblockTime (k\<lparr>lists := L', uxTaskNumber := n,
    uxCurrentNumberOfTasks := uxCurrentNumberOfTasks k - 1\<rparr>))" (is "kernel_inv (prvResetNextTaskUnblockTime ?k)")
proof -
  have core: "kernel_core k" using inv by (rule kernel_invD)
  have st: "state_list ?k x = (if x = t then None else state_list k x)"
    and ev: "event_list ?k x = (if x = t then None else event_list k x)" for x
    using d by (simp_all add: detached_def)
  have "t \<in> live_tasks k" using live by (simp add: live_tasks_def)
  moreover have "live_tasks ?k = live_tasks k - {t}" using st by (auto simp: live_tasks_def)
  moreover have "dead_tasks ?k = dead_tasks k" using st live by (auto simp: dead_tasks_def)
  moreover have "task_ok ?k x" for x
  proof (cases "x = t")
    case True
    then show ?thesis using kernel_core_task [OF core, of t] st ev by (simp add: task_ok_def)
  next
    case False
    then have "same_task k ?k x" using st ev by (simp add: same_task_def)
    then show ?thesis using task_ok_cong [OF kernel_core_task [OF core]] by simp
  qed
  ultimately have core': "kernel_core ?k"
    using core d by (simp add: kernel_core_def detached_def)
  have wk: "wake_ok ?k x" for x
    using kernel_invD(2) [OF inv, of x] d by (simp add: wake_ok_def detached_def)
  have "wake_ok (prvResetNextTaskUnblockTime ?k) x" for x
    using wk [of x] reset_next_le [OF core', of x] by (simp add: wake_ok_def)
  moreover have "next_ok (prvResetNextTaskUnblockTime ?k)"
    by (rule reset_next_ok [OF core']) (use wk in \<open>simp add: wake_ok_def\<close>)
  moreover have "pending_ok (prvResetNextTaskUnblockTime ?k)"
    using kernel_invD(3) [OF inv] d by (auto simp: pending_ok_def detached_def)
  ultimately show ?thesis using reset_next_core [OF core'] by (simp add: kernel_inv_def)
qed

text \<open>The running task waits in the termination list for the idle task.\<close>

lemma terminated_inv:
  assumes inv: "kernel_inv k" and live: "state_list k t \<noteq> None" "state_list k t \<noteq> Some TerminationL"
    and d: "detached t (lists k) L'"
  shows "kernel_inv (k\<lparr>uxTaskNumber := n, lists := list_insert_end TerminationL (StateI t) L',
    uxDeletedTasksWaitingCleanUp := uxDeletedTasksWaitingCleanUp k + 1\<rparr>)" (is "kernel_inv ?k")
proof -
  have core: "kernel_core k" using inv by (rule kernel_invD)
  have st: "state_list ?k x = (if x = t then Some TerminationL else state_list k x)"
    and ev: "event_list ?k x = (if x = t then None else event_list k x)" for x
    using d by (simp_all add: detached_def list_frame)
  have lv: "live_tasks ?k = live_tasks k" using st live by (auto simp: live_tasks_def)
  have "dead_tasks k \<subseteq> live_tasks k" by (auto simp: dead_tasks_def live_tasks_def)
  then have fin: "finite (dead_tasks k)" using core by (simp add: kernel_core_def finite_subset)
  have "dead_tasks ?k = insert t (dead_tasks k)" using st by (auto simp: dead_tasks_def)
  moreover have "t \<notin> dead_tasks k" using live by (simp add: dead_tasks_def)
  moreover have "task_ok ?k x" for x
  proof (cases "x = t")
    case True
    then show ?thesis using kernel_core_task [OF core, of t] st ev by (simp add: task_ok_def)
  next
    case False
    then have "same_task k ?k x" using st ev by (simp add: same_task_def)
    then show ?thesis using task_ok_cong [OF kernel_core_task [OF core]] by simp
  qed
  ultimately have "kernel_core ?k"
    using core d lv fin by (simp add: kernel_core_def detached_def)
  moreover have "wake_ok ?k x" for x
    using kernel_invD(2) [OF inv, of x] d core by (auto simp: wake_ok_def detached_def list_frame)
  moreover have "pending_ok ?k" "next_ok ?k"
    using kernel_invD(3,4) [OF inv] d by (auto simp: pending_ok_def next_ok_def detached_def list_frame)
  ultimately show ?thesis by (simp add: kernel_inv_def)
qed

text \<open>What is to be freed of a task, by the way its memory was allocated.\<close>

definition memory_of :: "kernel \<Rightarrow> task \<Rightarrow> freed" where
  "memory_of k t = (case ucStaticallyAllocated (tcbs k t) of
     tskDYNAMICALLY_ALLOCATED_STACK_AND_TCB \<Rightarrow> FreeStackAndTCB t
   | tskSTATICALLY_ALLOCATED_STACK_ONLY \<Rightarrow> FreeTCB t
   | tskSTATICALLY_ALLOCATED_STACK_AND_TCB \<Rightarrow> FreeNothing)"

lemma prvDeleteTCB_frees: "prvDeleteTCB t k = Some (memory_of k t)"
  by (cases "ucStaticallyAllocated (tcbs k t)") (simp_all add: prvDeleteTCB_def memory_of_def)

lemma memory_of_cong: "tcbs k' = tcbs k \<Longrightarrow> memory_of k' = memory_of k"
  by (simp add: memory_of_def fun_eq_iff)

lemma vTaskDelete_ensures:
  assumes s: "sys_inv k" and t: "prvGetTCBFromHandle h k = Some t" and ni: "xIdleTaskHandle k \<noteq> Some t"
    and live: "state_list k t \<noteq> None" "state_list k t \<noteq> Some TerminationL"
    and self: "pxCurrentTCB k = Some t \<Longrightarrow> uxSchedulerSuspended k = 0"
  shows "ensures (vTaskDelete h k) (\<lambda>(k', f). sys_inv k' \<and> pxCurrentTCB k' \<noteq> Some t \<and>
    event_list k' t = None \<and>
    state_list k' t = (if pxCurrentTCB k = Some t then Some TerminationL else None) \<and>
    f = (if pxCurrentTCB k = Some t then FreeNothing else memory_of k t) \<and>
    tcbs k' = tcbs k \<and>
    (\<forall>x. x \<noteq> t \<longrightarrow> state_list k' x = state_list k x \<and> event_list k' x = event_list k x))"
    (is "ensures _ ?Q")
proof -
  have inv: "kernel_inv k" and core: "kernel_core k" and run: "xSchedulerRunning k"
    using sys_invD [OF s] by blast+
  show ?thesis
    unfolding vTaskDelete_def t Option.bind.bind_lunit
  proof (rule detach_ensures [OF kernel_core_lists [OF core] live(1)], goal_cases)
    case (1 L')
    then have d: "detached t (lists k) L'" by simp
    show ?case
    proof (cases "pxCurrentTCB k = Some t")
      case True
      let ?k1 = "k\<lparr>uxTaskNumber := uxTaskNumber k + 1, lists := list_insert_end TerminationL (StateI t) L',
        uxDeletedTasksWaitingCleanUp := uxDeletedTasksWaitingCleanUp k + 1\<rparr>"
      have inv1: "kernel_inv ?k1" by (rule terminated_inv [OF inv live d])
      have st: "state_list ?k1 x = (if x = t then Some TerminationL else state_list k x)"
        "event_list ?k1 x = (if x = t then None else event_list k x)" for x
        using d by (simp_all add: detached_def list_frame)
      have rd: "ready ?k1 x \<longleftrightarrow> x \<noteq> t \<and> ready k x" for x using st by (simp add: ready_def)
      have idle: "idle_ready ?k1" using sys_invD(4) [OF s] ni rd by (auto simp: idle_ready_def)
      have cu: "caught_up ?k1" using sys_invD(7) [OF s] by (simp add: caught_up_def)
      from idle obtain i where i: "ready ?k1 i" by (rule idle_readyE)
      have run1: "uxSchedulerSuspended ?k1 = 0" using self [OF True] by simp
      have "ensures (portYIELD ?k1) (\<lambda>k'. ?Q (k', FreeNothing))"
      proof (rule vTaskSwitchContext_ensures [OF kernel_invD(1) [OF inv1] run1 i])
        fix k2 c assume c: "chosen ?k1 c" "switched c ?k1 k2"
        have "sys_inv k2" using switched_sys_inv [OF inv1 _ idle cu c] run by simp
        moreover have "c \<noteq> t" using c(1) rd by (auto simp: chosen_def)
        moreover have "pxCurrentTCB k2 = Some c" using c(2) by (simp add: switched_def)
        moreover have "state_list k2 x = (if x = t then Some TerminationL else state_list k x)"
          "event_list k2 x = (if x = t then None else event_list k x)" for x
          unfolding switched_same(1,2) [OF c(2)] by (rule st)+
        moreover have "tcbs k2 = tcbs k" unfolding switched_same(4) [OF c(2)] by simp
        ultimately show "?Q (k2, FreeNothing)" using True by simp
      qed
      then show ?thesis using True run run1 by (simp add: Let_def bind_Some_map)
    next
      case False
      let ?k1 = "prvResetNextTaskUnblockTime (k\<lparr>lists := L', uxTaskNumber := uxTaskNumber k + 1,
        uxCurrentNumberOfTasks := uxCurrentNumberOfTasks k - 1\<rparr>)"
      have inv1: "kernel_inv ?k1" by (rule removed_inv [OF inv live d])
      have st: "state_list ?k1 x = (if x = t then None else state_list k x)"
        "event_list ?k1 x = (if x = t then None else event_list k x)" for x
        using d by (simp_all add: detached_def)
      have rd: "ready ?k1 x \<longleftrightarrow> x \<noteq> t \<and> ready k x" for x using st by (simp add: ready_def)
      have "idle_ready ?k1" using sys_invD(4) [OF s] ni rd by (auto simp: idle_ready_def)
      moreover have "current_ready ?k1" using sys_invD(5) [OF s] False rd by (auto simp: current_ready_def)
      moreover have "settled ?k1" using sys_invD(6) [OF s] rd by (simp add: settled_def)
      moreover have "caught_up ?k1" using sys_invD(7) [OF s] by (simp add: caught_up_def)
      ultimately have "sys_inv ?k1" using inv1 run by (simp add: sys_inv_def)
      then have "?Q (?k1, memory_of k t)" using False st by simp
      moreover have "prvDeleteTCB t ?k1 = Some (memory_of k t)"
        using prvDeleteTCB_frees [of t ?k1] memory_of_cong [of ?k1 k] by simp
      ultimately show ?thesis using False run by (simp add: Let_def eq_commute [of "Some t"])
    qed
  qed
qed

text \<open>
  The idle task's loop: it ends, follows no NULL pointer, frees every deleted task once and
  leaves none behind.
\<close>

lemma state_list_empty:
  assumes core: "kernel_core k" and l: "\<not> is_event_list l" and none: "\<And>t. state_list k t \<noteq> Some l"
  shows "members k l = []"
proof (cases "members k l")
  case (Cons i xs)
  then have "i \<in> set (members k l)" by simp
  from state_member [OF core this l] none show ?thesis by blast
qed

lemma termination_head:
  assumes core: "kernel_core k" and n: "uxDeletedTasksWaitingCleanUp k > 0"
  obtains t where "list_head TerminationL (lists k) = Some (StateI t)" "state_list k t = Some TerminationL"
    "members k TerminationL = StateI t # remove1 (StateI t) (members k TerminationL)"
proof -
  have "dead_tasks k \<noteq> {}" using core n by (auto simp: kernel_core_def)
  then obtain x where "state_list k x = Some TerminationL" by (auto simp: dead_tasks_def)
  then have "StateI x \<in> set (members k TerminationL)" using member_iff(1) [OF core] by blast
  then obtain i xs where xs: "members k TerminationL = i # xs" by (cases "members k TerminationL") auto
  then have "i \<in> set (members k TerminationL)" by simp
  from state_member [OF core this]
  have "i = StateI (owner i)" "state_list k (owner i) = Some TerminationL"
    unfolding is_event_list.simps by blast+
  then show ?thesis using that [of "owner i"] by (metis list_head_def xs list.sel(1) list.distinct(1) list.simps(5) remove1.simps(2))
qed

lemma reaped_inv:
  assumes s: "sys_inv k" and t: "state_list k t = Some TerminationL" and ev: "event_list k t = None"
    and L: "lists_inv L'" "container L' = (container (lists k))(StateI t := None)"
      "item_value L' = item_value (lists k)" "\<And>l. items L' l = remove1 (StateI t) (members k l)"
  shows "sys_inv (k\<lparr>lists := L', uxCurrentNumberOfTasks := uxCurrentNumberOfTasks k - 1,
    uxDeletedTasksWaitingCleanUp := uxDeletedTasksWaitingCleanUp k - 1\<rparr>)" (is "sys_inv ?k")
proof -
  have inv: "kernel_inv k" and core: "kernel_core k" using sys_invD [OF s] by blast+
  have st: "state_list ?k x = (if x = t then None else state_list k x)" "event_list ?k x = event_list k x" for x
    using L(2) by simp_all
  have "live_tasks ?k = live_tasks k - {t}" "dead_tasks ?k = dead_tasks k - {t}"
    using st by (auto simp: live_tasks_def dead_tasks_def)
  moreover have "t \<in> live_tasks k" "t \<in> dead_tasks k" using t by (simp_all add: live_tasks_def dead_tasks_def)
  moreover have "dead_tasks k \<subseteq> live_tasks k" by (auto simp: dead_tasks_def live_tasks_def)
  moreover have "finite (dead_tasks k)" using core calculation(5) by (simp add: kernel_core_def finite_subset)
  moreover have "task_ok ?k x" for x
  proof (cases "x = t")
    case True
    then show ?thesis using kernel_core_task [OF core, of t] st ev by (simp add: task_ok_def)
  next
    case False
    then have "same_task k ?k x" using st by (simp add: same_task_def)
    then show ?thesis using task_ok_cong [OF kernel_core_task [OF core]] by simp
  qed
  ultimately have "kernel_core ?k"
    using core L(1) by (simp add: kernel_core_def)
  moreover have "wake_ok ?k x" for x
    using kernel_invD(2) [OF inv, of x] st L(3) by (simp add: wake_ok_def)
  moreover have "pending_ok ?k" "next_ok ?k"
    using kernel_invD(3,4) [OF inv] L(4) [of PendingReadyL] by (auto simp: pending_ok_def next_ok_def)
  moreover have "ready ?k x = ready k x" for x
    using t by (simp add: ready_def L(2))
  ultimately show ?thesis
    using s by (simp add: sys_inv_def kernel_inv_def idle_ready_def current_ready_def settled_def caught_up_def)
qed

lemma prvCheckTasksWaitingTermination_ensures:
  assumes "sys_inv k"
  shows "ensures (prvCheckTasksWaitingTermination k) (\<lambda>(k', fs). sys_inv k' \<and>
    uxDeletedTasksWaitingCleanUp k' = 0 \<and> fs = map (\<lambda>i. memory_of k (owner i)) (members k TerminationL) \<and>
    uxCurrentNumberOfTasks k' = uxCurrentNumberOfTasks k - uxDeletedTasksWaitingCleanUp k \<and>
    (\<forall>x. state_list k' x = (if state_list k x = Some TerminationL then None else state_list k x) \<and>
       event_list k' x = event_list k x) \<and> tcbs k' = tcbs k)"
  using assms
proof (induction "uxDeletedTasksWaitingCleanUp k" arbitrary: k)
  case 0
  have core: "kernel_core k" using 0(2) by (rule sys_invD)
  have "dead_tasks k \<subseteq> live_tasks k" by (auto simp: dead_tasks_def live_tasks_def)
  then have "finite (dead_tasks k)" using core by (simp add: kernel_core_def finite_subset)
  then have "dead_tasks k = {}" using core 0(1) by (simp add: kernel_core_def)
  then have none: "state_list k x \<noteq> Some TerminationL" for x by (auto simp: dead_tasks_def)
  then have "members k TerminationL = []" by (intro state_list_empty [OF core]) simp_all
  with none show ?case
    using 0 by (subst prvCheckTasksWaitingTermination.simps) simp
next
  case (Suc n)
  have core: "kernel_core k" using Suc(3) by (rule sys_invD)
  have pos: "uxDeletedTasksWaitingCleanUp k > 0" using Suc(2) by simp
  obtain t where t: "list_head TerminationL (lists k) = Some (StateI t)" "state_list k t = Some TerminationL"
    and mem: "members k TerminationL = StateI t # remove1 (StateI t) (members k TerminationL)"
    using termination_head [OF core pos] .
  have ev: "event_list k t = None"
    using task_okD(9) [OF kernel_core_task [OF core]] t(2) by (cases "event_list k t") auto
  show ?case
    apply (subst prvCheckTasksWaitingTermination.simps)
    unfolding if_P [OF pos] t(1) Option.bind.bind_lunit owner.simps ensures_bind [of "k_list_remove _ _"]
  proof (rule k_list_remove_ensures [OF kernel_core_lists [OF core]])
    show "container (lists k) (StateI t) \<noteq> None" using t by simp
    fix L' assume L: "lists_inv L'" "container L' = (container (lists k))(StateI t := None)"
      "item_value L' = item_value (lists k)" "\<And>l. items L' l = remove1 (StateI t) (members k l)"
    let ?k2 = "k\<lparr>lists := L', uxCurrentNumberOfTasks := uxCurrentNumberOfTasks k - 1,
      uxDeletedTasksWaitingCleanUp := uxDeletedTasksWaitingCleanUp k - 1\<rparr>"
    have s2: "sys_inv ?k2" by (rule reaped_inv [OF Suc(3) t(2) ev L])
    have n2: "n = uxDeletedTasksWaitingCleanUp ?k2" using Suc(2) by simp
    have mo: "memory_of ?k2 = memory_of k" by (rule memory_of_cong) simp
    have f: "prvDeleteTCB t ?k2 = Some (memory_of k t)" by (simp only: prvDeleteTCB_frees mo)
    have m2: "members k TerminationL = StateI t # members ?k2 TerminationL" using mem L(4) by simp
    have "ensures (prvCheckTasksWaitingTermination ?k2) (\<lambda>(k', fs). sys_inv k' \<and>
      uxDeletedTasksWaitingCleanUp k' = 0 \<and>
      memory_of k t # fs = map (\<lambda>i. memory_of k (owner i)) (members k TerminationL) \<and>
      uxCurrentNumberOfTasks k' = uxCurrentNumberOfTasks k - uxDeletedTasksWaitingCleanUp k \<and>
      (\<forall>x. state_list k' x = (if state_list k x = Some TerminationL then None else state_list k x) \<and>
         event_list k' x = event_list k x) \<and> tcbs k' = tcbs k)"
      unfolding m2
    proof (rule ensures_mono [OF Suc(1) [OF n2 s2]], unfold mo, goal_cases)
      case (1 r)
      then show ?case using pos L(2) t(2) by (auto split: if_splits)
    qed
    then show "ensures (let k2 = (k\<lparr>lists := L'\<rparr>)\<lparr>uxCurrentNumberOfTasks := uxCurrentNumberOfTasks (k\<lparr>lists := L'\<rparr>) - 1,
                    uxDeletedTasksWaitingCleanUp := uxDeletedTasksWaitingCleanUp (k\<lparr>lists := L'\<rparr>) - 1\<rparr>
        in do { f \<leftarrow> prvDeleteTCB t k2; (k3, fs) \<leftarrow> prvCheckTasksWaitingTermination k2; Some (k3, f # fs) })
      (\<lambda>(k', fs). sys_inv k' \<and> uxDeletedTasksWaitingCleanUp k' = 0 \<and>
        fs = map (\<lambda>i. memory_of k (owner i)) (members k TerminationL) \<and>
        uxCurrentNumberOfTasks k' = uxCurrentNumberOfTasks k - uxDeletedTasksWaitingCleanUp k \<and>
        (\<forall>x. state_list k' x = (if state_list k x = Some TerminationL then None else state_list k x) \<and>
           event_list k' x = event_list k x) \<and> tcbs k' = tcbs k)"
      using f by (auto simp: Let_def elim!: ensures_mono)
  qed
qed

section \<open>From reset to a running scheduler\<close>

text \<open>
  Before the scheduler runs every task is ready, and \<open>pxCurrentTCB\<close> is the task that will run
  first: one of the highest priority, the latest created of those.
\<close>

definition boot_inv :: "kernel \<Rightarrow> bool" where
  "boot_inv k \<longleftrightarrow> kernel_inv k \<and> \<not> xSchedulerRunning k \<and> uxSchedulerSuspended k = 0 \<and>
     xPendedTicks k = 0 \<and> \<not> xYieldPending k \<and>
     pxDelayedTaskList k = DelayedL1 \<and> pxOverflowDelayedTaskList k = DelayedL2 \<and>
     (\<forall>t. state_list k t \<noteq> None \<longrightarrow> ready k t) \<and>
     (case pxCurrentTCB k of None \<Rightarrow> live_tasks k = {}
      | Some c \<Rightarrow> ready k c \<and> (\<forall>t. ready k t \<longrightarrow> prio k t \<le> prio k c))"

lemma list_init_empty:
  assumes wf: "lists_wf L" and e: "items L l = []" shows "list_init l L = L"
proof -
  have "cursor L l = None" using lists_wf_cursor [OF wf, of l] e by (cases "cursor L l") auto
  with e have "(items L)(l := []) = items L" "(cursor L)(l := None) = cursor L" by auto
  then show ?thesis by (simp add: list_init_def)
qed

lemma init_task_lists:
  assumes wf: "lists_wf (lists k)" and none: "\<And>l. \<not> is_event_list l \<or> l = PendingReadyL \<Longrightarrow> members k l = []"
    and ptrs: "pxDelayedTaskList k = DelayedL1" "pxOverflowDelayedTaskList k = DelayedL2"
  shows "prvInitialiseTaskLists k = k"
proof -
  have noop: "list_init l (lists k) = lists k" if "\<not> is_event_list l \<or> l = PendingReadyL" for l
    by (rule list_init_empty [OF wf none [OF that]])
  have "fold (\<lambda>p. list_init (ReadyL p)) ps (lists k) = lists k" for ps
    by (induction ps) (simp_all add: noop)
  then have "prvInitialiseTaskLists k = k\<lparr>lists := lists k, pxDelayedTaskList := pxDelayedTaskList k,
      pxOverflowDelayedTaskList := pxOverflowDelayedTaskList k\<rparr>"
    by (simp add: prvInitialiseTaskLists_def noop ptrs)
  then show ?thesis by simp
qed

lemma boot_add:
  assumes b: "boot_inv k" and f: "fresh k t" and r: "items_reset t (lists k) L"
    and p: "p < configMAX_PRIORITIES"
  shows "ensures (prvAddNewTaskToReadyList t (k\<lparr>tcbs := (tcbs k)(t := new_tcb name p a), lists := L\<rparr>))
    (\<lambda>k'. boot_inv k' \<and> ready k' t \<and> prio k' t = p \<and> xIdleTaskHandle k' = xIdleTaskHandle k \<and>
       (pxCurrentTCB k' = Some t \<longleftrightarrow> (\<forall>x. ready k x \<longrightarrow> prio k x \<le> p)) \<and>
       (\<forall>x. ready k x \<longrightarrow> ready k' x) \<and>
       (\<forall>x. x \<noteq> t \<longrightarrow> state_list k' x = state_list k x \<and> event_list k' x = event_list k x))"
    (is "ensures _ ?Q")
proof -
  have inv: "kernel_inv k" and nr: "\<not> xSchedulerRunning k" and z: "uxSchedulerSuspended k = 0"
    and ptrs: "pxDelayedTaskList k = DelayedL1" "pxOverflowDelayedTaskList k = DelayedL2"
    and all: "\<And>x. state_list k x \<noteq> None \<Longrightarrow> ready k x"
    using b by (simp_all add: boot_inv_def)
  have core: "kernel_core k" using inv by (rule kernel_invD)
  note Linv = items_reset_inv [OF kernel_core_lists [OF core] r f [unfolded fresh_def, THEN conjunct1]
      f [unfolded fresh_def, THEN conjunct2]]
  let ?b = "new_tcb name p a"
  define cur where "cur = (case pxCurrentTCB k of None \<Rightarrow> Some t
    | Some c \<Rightarrow> if prio k c \<le> p then Some t else Some c)"
  define k1 where "k1 = prvAddTaskToReadyList t (upd_tcb t (\<lambda>b. b\<lparr>uxTCBNumber := uxTaskNumber k + 1\<rparr>)
    (k\<lparr>tcbs := (tcbs k)(t := ?b), lists := L, uxCurrentNumberOfTasks := uxCurrentNumberOfTasks k + 1,
       pxCurrentTCB := cur, uxTaskNumber := uxTaskNumber k + 1\<rparr>))"
  have unf: "prvAddNewTaskToReadyList t (k\<lparr>tcbs := (tcbs k)(t := ?b), lists := L\<rparr>) = Some k1"
  proof (cases "pxCurrentTCB k")
    case None
    then have none: "live_tasks k = {}" using b by (simp add: boot_inv_def)
    then have n0: "uxCurrentNumberOfTasks k = 0" using core by (simp add: kernel_core_def)
    let ?k0 = "k\<lparr>tcbs := (tcbs k)(t := ?b), lists := L, uxCurrentNumberOfTasks := 1, pxCurrentTCB := Some t\<rparr>"
    have st: "state_list k x \<noteq> Some l" for x l using none by (auto simp: live_tasks_def)
    have "prvInitialiseTaskLists ?k0 = ?k0"
    proof (rule init_task_lists)
      show "lists_wf (lists ?k0)" using lists_inv_wf [OF Linv(1)] by simp
      show "members ?k0 l = []" if "\<not> is_event_list l \<or> l = PendingReadyL" for l
      proof -
        have "members k l = []"
          using that state_list_empty [OF core _ st, of l] kernel_invD(3) [OF inv] z
          by (metis pending_ok_def)
        then show ?thesis using r by (simp add: items_reset_def)
      qed
    qed (use ptrs in simp_all)
    then show ?thesis
      using None n0 nr by (simp add: prvAddNewTaskToReadyList_def k1_def Let_def add_to_ready cur_def)
  next
    case (Some c)
    then have "ready k c" using b by (simp add: boot_inv_def)
    then have "c \<noteq> t" using f unfolding ready_def fresh_def by (metis option.distinct(1))
    show ?thesis
    proof (cases "prio k c \<le> p")
      case True
      with Some nr \<open>c \<noteq> t\<close> show ?thesis
        unfolding prvAddNewTaskToReadyList_def k1_def by (simp add: Let_def add_to_ready cur_def)
    next
      case False
      have c': "cur = Some c" using Some False by (simp add: cur_def)
      have "prvAddNewTaskToReadyList t (k\<lparr>tcbs := (tcbs k)(t := ?b), lists := L\<rparr>) =
        Some (prvAddTaskToReadyList t (upd_tcb t (\<lambda>b. b\<lparr>uxTCBNumber := uxTaskNumber k + 1\<rparr>)
          (k\<lparr>tcbs := (tcbs k)(t := ?b), lists := L, uxCurrentNumberOfTasks := uxCurrentNumberOfTasks k + 1,
             uxTaskNumber := uxTaskNumber k + 1\<rparr>)))"
        unfolding prvAddNewTaskToReadyList_def using False Some nr \<open>c \<noteq> t\<close> by (simp add: Let_def add_to_ready)
      also have "\<dots> = Some k1"
        unfolding k1_def c' add_to_ready by (rule arg_cong [of _ _ Some], rule kernel.equality) (simp_all add: Some)
      finally show ?thesis .
    qed
  qed
  have a1: "added t ?b k k1"
    using core p Linv r f
    by (auto simp: added_def k1_def add_to_ready list_frame same_shape_def kernel_core_def fresh_def items_reset_def)
  have li: "lists_inv (lists k1)" using Linv f by (simp add: k1_def add_to_ready fresh_def)
  have inv1: "kernel_inv k1" by (rule added_inv [OF inv f a1 li]) (simp_all add: p)
  have rd1: "ready k1 x \<longleftrightarrow> x = t \<or> ready k x" for x
    using a1 by (auto simp: ready_def added_def same_shape_def)
  have pr: "prio k1 t = p" "x \<noteq> t \<Longrightarrow> prio k1 x = prio k x" for x
    using a1 by (simp_all add: added_def same_shape_def)
  have nrt: "\<not> ready k t" using f by (simp add: ready_def fresh_def)
  have cur1: "pxCurrentTCB k1 = cur" by (simp add: k1_def add_to_ready)
  have curt: "cur = Some t \<longleftrightarrow> (\<forall>x. ready k x \<longrightarrow> prio k x \<le> p)"
  proof (cases "pxCurrentTCB k")
    case None
    then have "\<not> ready k x" for x using b by (auto simp: boot_inv_def live_tasks_def ready_def)
    with None show ?thesis by (simp add: cur_def)
  next
    case (Some c)
    then have "ready k c" "\<And>x. ready k x \<Longrightarrow> prio k x \<le> prio k c" using b by (simp_all add: boot_inv_def)
    moreover have "c \<noteq> t" using \<open>ready k c\<close> nrt by blast
    ultimately show ?thesis using Some unfolding cur_def by (auto intro: order_trans)
  qed
  have top: "case cur of None \<Rightarrow> False | Some c \<Rightarrow> ready k1 c \<and> (\<forall>x. ready k1 x \<longrightarrow> prio k1 x \<le> prio k1 c)"
  proof (cases "cur = Some t")
    case True
    have "prio k1 x \<le> prio k1 t" if "ready k1 x" for x
      using that True curt rd1 [of x] pr(1) pr(2) [of x] by (cases "x = t") simp_all
    then show ?thesis using True rd1 by simp
  next
    case False
    then obtain c where c: "pxCurrentTCB k = Some c" "cur = Some c" "\<not> prio k c \<le> p"
      unfolding cur_def by (cases "pxCurrentTCB k") (auto split: if_splits)
    then have rc: "ready k c" "\<And>x. ready k x \<Longrightarrow> prio k x \<le> prio k c" using b by (simp_all add: boot_inv_def)
    from rc(1) have "c \<noteq> t" using nrt by blast
    have "prio k1 x \<le> prio k1 c" if "ready k1 x" for x
      using that rd1 [of x] rc(2) pr(1) pr(2) [of x] pr(2) [OF \<open>c \<noteq> t\<close>] c(3) by (cases "x = t") auto
    then show ?thesis using c rc rd1 by simp
  qed
  have st1: "state_list k1 x = (if x = t then Some (ReadyL p) else state_list k x)"
    "event_list k1 x = event_list k x" for x using a1 by (simp_all add: added_def)
  have "ready k1 x" if "state_list k1 x \<noteq> None" for x
    using that rd1 [of x] all [of x] st1(1) [of x] by (cases "x = t") simp_all
  moreover have "\<not> xSchedulerRunning k1" "uxSchedulerSuspended k1 = 0" "xPendedTicks k1 = 0" "\<not> xYieldPending k1"
    "pxDelayedTaskList k1 = DelayedL1" "pxOverflowDelayedTaskList k1 = DelayedL2"
    using a1 b by (simp_all add: added_def boot_inv_def)
  ultimately have "boot_inv k1"
    unfolding boot_inv_def cur1 using inv1 top by (cases cur) simp_all
  then show ?thesis
    using unf rd1 pr curt st1 a1 by (simp add: cur1 added_def)
qed

text \<open>
  The start of the scheduler (\<open>vTaskStartScheduler\<close>, in Timer_Start) creates the idle and the timer
  task and lets the first tick come: the system invariant holds from then on.
\<close>

lemma boot_running:
  assumes b: "boot_inv k" and i: "xIdleTaskHandle k = Some i" "ready k i"
  shows "sys_inv (k\<lparr>xNextTaskUnblockTime := portMAX_DELAY, xSchedulerRunning := True, xTickCount := 0\<rparr>)"
    (is "sys_inv ?k")
proof -
  have inv: "kernel_inv k" and all: "\<And>x. state_list k x \<noteq> None \<Longrightarrow> ready k x"
    using b by (simp_all add: boot_inv_def)
  have core: "kernel_core k" using inv by (rule kernel_invD)
  have core': "kernel_core ?k" using core by (rule kernel_core_fields) simp_all
  have "state_list k x \<noteq> Some (pxDelayedTaskList k)" "state_list k x \<noteq> Some (pxOverflowDelayedTaskList k)" for x
    using all [of x] core by (auto simp: ready_def)
  then have "wake_ok ?k x" for x by (simp add: wake_ok_def)
  moreover have "pending_ok ?k" "next_ok ?k"
    using kernel_invD(3) [OF inv] by (simp_all add: pending_ok_def next_ok_def)
  ultimately have inv': "kernel_inv ?k" using core' by (simp add: kernel_inv_def)
  have rd: "ready ?k x = ready k x" for x by (simp add: ready_def)
  obtain c where c: "pxCurrentTCB k = Some c" "ready k c" "\<And>x. ready k x \<Longrightarrow> prio k x \<le> prio k c"
  proof (cases "pxCurrentTCB k")
    case None
    then have "live_tasks k = {}" using b by (simp add: boot_inv_def)
    then show ?thesis using i(2) by (auto simp: live_tasks_def ready_def)
  next
    case (Some c)
    then show ?thesis using b that by (simp add: boot_inv_def)
  qed
  show ?thesis
    using inv' c i rd b by (simp add: sys_inv_def idle_ready_def current_ready_def settled_def caught_up_def boot_inv_def)
qed

lemma boot_create_static:
  assumes b: "boot_inv k" and f: "fresh k t" and p: "p < configMAX_PRIORITIES"
  shows "ensures (xTaskCreateStatic name p True (Some t) k) (\<lambda>(k', r). r = Some t \<and> boot_inv k' \<and> ready k' t \<and>
    prio k' t = p \<and> xIdleTaskHandle k' = xIdleTaskHandle k \<and>
    (\<forall>x. x \<noteq> t \<longrightarrow> state_list k' x = state_list k x \<and> event_list k' x = event_list k x))"
proof -
  let ?a = tskSTATICALLY_ALLOCATED_STACK_AND_TCB
  obtain L where L: "items_reset t (lists k) L"
    and init: "prvInitialiseNewTask name p t (upd_tcb t (\<lambda>b. b\<lparr>ucStaticallyAllocated := ?a\<rparr>) (memset_tcb t k)) =
      Some (k\<lparr>tcbs := (tcbs k)(t := new_tcb name p ?a), lists := L\<rparr>)"
    using initialised_task [OF p] by metis
  have "xTaskCreateStatic name p True (Some t) k = do {
      k' \<leftarrow> prvAddNewTaskToReadyList t (k\<lparr>tcbs := (tcbs k)(t := new_tcb name p ?a), lists := L\<rparr>); Some (k', Some t) }"
    using init by (simp add: xTaskCreateStatic_def prvCreateStaticTask_def Let_def)
  then show ?thesis
    using boot_add [OF b f L p, of name ?a] by (auto elim!: ensures_mono)
qed

lemma boot_idle_handle:
  assumes b: "boot_inv k" shows "boot_inv (k\<lparr>xIdleTaskHandle := i\<rparr>)"
proof -
  let ?k = "k\<lparr>xIdleTaskHandle := i\<rparr>"
  have inv: "kernel_inv k" using b by (simp add: boot_inv_def)
  have "kernel_core ?k" by (rule kernel_core_fields [OF kernel_invD(1) [OF inv]]) simp_all
  moreover have "wake_ok ?k x" for x
    using kernel_invD(2) [OF inv, of x] by (simp add: wake_ok_def)
  moreover have "pending_ok ?k" "next_ok ?k"
    using kernel_invD(3,4) [OF inv] by (simp_all add: pending_ok_def next_ok_def)
  ultimately have "kernel_inv ?k" unfolding kernel_inv_def by blast
  moreover have "live_tasks ?k = live_tasks k" "ready ?k x = ready k x" for x
    by (simp_all add: live_tasks_def ready_def)
  ultimately show ?thesis
    using b by (cases "pxCurrentTCB k") (simp_all add: boot_inv_def)
qed

lemma boot_create_idle:
  assumes b: "boot_inv k" and f: "fresh k t"
  shows "ensures (prvCreateIdleTasks True (Some t) k) (\<lambda>(k', ok). ok \<and> boot_inv k' \<and> ready k' t \<and> prio k' t = 0 \<and>
    xIdleTaskHandle k' = Some t \<and>
    (\<forall>x. x \<noteq> t \<longrightarrow> state_list k' x = state_list k x \<and> event_list k' x = event_list k x))"
  unfolding prvCreateIdleTasks_def ensures_bind
proof (rule ensures_mono [OF boot_create_static [OF b f]], goal_cases)
  case (2 r)
  have "ready (fst r) t \<Longrightarrow> ready ((fst r)\<lparr>xIdleTaskHandle := Some t\<rparr>) t" by (simp add: ready_def)
  with 2 boot_idle_handle show ?case by auto
qed (simp add: configMAX_PRIORITIES_def)

section \<open>The idle task\<close>

text \<open>The clean-up part: after it no deleted task is left, and its yield keeps the invariant.\<close>

lemma termination_tasks:
  assumes core: "kernel_core k"
  obtains ts where "distinct ts" "set ts = {x. state_list k x = Some TerminationL}"
    "map (\<lambda>i. memory_of k (owner i)) (members k TerminationL) = map (memory_of k) ts"
proof
  let ?ms = "members k TerminationL" and ?ts = "map owner (members k TerminationL)"
  have i: "i = StateI (owner i) \<and> state_list k (owner i) = Some TerminationL" if "i \<in> set ?ms" for i
    by (rule state_member [OF core that]) simp
  show "distinct ?ts"
    using lists_wf_distinct [OF lists_inv_wf [OF kernel_core_lists [OF core]], of TerminationL] i
    by (simp add: distinct_map inj_on_def) metis
  show "set ?ts = {x. state_list k x = Some TerminationL}"
    using i member_iff(1) [OF core, of _ TerminationL] by force
qed simp

lemma prvIdleTask_clean_up_ensures:
  assumes s: "sys_inv k"
  shows "ensures (prvIdleTask_clean_up k) (\<lambda>(k', fs). sys_inv k' \<and>
    (\<exists>ts. distinct ts \<and> set ts = {x. state_list k x = Some TerminationL} \<and> fs = map (memory_of k) ts) \<and>
    (\<forall>x. state_list k' x = (if state_list k x = Some TerminationL then None else state_list k x) \<and>
       event_list k' x = event_list k x) \<and> tcbs k' = tcbs k)"
  unfolding prvIdleTask_clean_up_def ensures_bind
proof (rule ensures_mono [OF prvCheckTasksWaitingTermination_ensures [OF s]], goal_cases)
  case (1 r)
  obtain k1 fs where r: "r = (k1, fs)" by (cases r)
  from 1 have k1: "sys_inv k1" "fs = map (\<lambda>i. memory_of k (owner i)) (members k TerminationL)" "tcbs k1 = tcbs k"
    "\<And>x. state_list k1 x = (if state_list k x = Some TerminationL then None else state_list k x)"
    "\<And>x. event_list k1 x = event_list k x" by (simp_all add: r)
  note y = yield_same [OF yield_sys_inv [OF sys_invD(1,3,4,7,5) [OF k1(1)]]]
  obtain ts where ts: "distinct ts" "set ts = {x. state_list k x = Some TerminationL}" "fs = map (memory_of k) ts"
    using termination_tasks [OF sys_invD(2) [OF s]] k1(2) by metis
  have ex: "\<exists>ts. distinct ts \<and> set ts = {x. state_list k x = Some TerminationL} \<and> fs = map (memory_of k) ts"
    using ts by blast
  have "ensures (if length (members k1 (ReadyL tskIDLE_PRIORITY)) > 1 then portYIELD k1 else Some k1)
      (\<lambda>k'. sys_inv k' \<and> container (lists k') = container (lists k1) \<and> tcbs k' = tcbs k1)"
    using y k1(1) by simp
  then have "ensures (if length (members k1 (ReadyL tskIDLE_PRIORITY)) > 1 then portYIELD k1 else Some k1)
      (\<lambda>k'. sys_inv k' \<and> (\<forall>x. state_list k' x = (if state_list k x = Some TerminationL then None else state_list k x) \<and>
        event_list k' x = event_list k x) \<and> tcbs k' = tcbs k)"
    by (rule ensures_mono) (simp add: k1(3-5))
  with ex show ?case
    unfolding r prod.case ensures_bind by (elim ensures_mono) simp
qed

text \<open>
  The expected idle time is positive only when nothing but idle tasks is ready, and it does
  not reach past the next wake-up time.
\<close>

lemma prvGetExpectedIdleTime_ensures:
  assumes s: "sys_inv k" and ny: "\<not> xYieldPending k"
  shows "ensures (prvGetExpectedIdleTime k) (\<lambda>w. (w > 0 \<longrightarrow>
      (\<forall>t. ready k t \<longrightarrow> prio k t = 0 \<and> pxCurrentTCB k = Some t) \<and>
      (\<forall>t. timed k t \<and> state_list k t = Some (pxDelayedTaskList k) \<longrightarrow> w \<le> wake_time k t - xTickCount k)) \<and>
    xTickCount k + w \<le> xNextTaskUnblockTime k)"
proof -
  have inv: "kernel_inv k" and core: "kernel_core k" using sys_invD [OF s] by blast+
  from sys_invD(5) [OF s] obtain c where cur: "pxCurrentTCB k = Some c" and crd: "ready k c"
    by (rule current_readyE)
  have nok: "xTickCount k \<le> xNextTaskUnblockTime k" using kernel_invD(4) [OF inv] by (simp add: next_ok_def)
  let ?zero = "prio k c > 0 \<or> length (members k (ReadyL 0)) > 1 \<or> uxTopReadyPriority k > 0"
  have e: "prvGetExpectedIdleTime k = Some (if ?zero then 0 else xNextTaskUnblockTime k - xTickCount k)"
    by (auto simp: prvGetExpectedIdleTime_def cur tskIDLE_PRIORITY_def)
  show ?thesis
  proof (cases ?zero)
    case True
    then show ?thesis using nok by (simp add: e)
  next
    case False
    have "prio k t = 0 \<and> pxCurrentTCB k = Some t" if t: "ready k t" for t
    proof -
      have p0: "prio k t = 0" using ready_top [OF core t] False by simp
      have "prio k c = 0" using False by simp
      then have "StateI c \<in> set (members k (ReadyL 0))" "StateI t \<in> set (members k (ReadyL 0))"
        using member_iff(1) [OF core] crd t p0 by (simp_all add: ready_def)
      moreover have "length (members k (ReadyL 0)) \<le> 1" using False by simp
      ultimately have "t = c"
        by (cases "members k (ReadyL 0)"; cases "tl (members k (ReadyL 0))") auto
      then show ?thesis using p0 cur by simp
    qed
    moreover have "xNextTaskUnblockTime k - xTickCount k \<le> wake_time k t - xTickCount k"
      if "state_list k t = Some (pxDelayedTaskList k)" for t
    proof -
      have "xNextTaskUnblockTime k \<le> wake_time k t" using kernel_invD(2) [OF inv, of t] that by (simp add: wake_ok_def)
      then show ?thesis
        using nok unat_sub [OF nok] unat_sub [of "xTickCount k" "wake_time k t"]
        by (simp add: word_le_nat_alt)
    qed
    ultimately show ?thesis using False by (simp add: e)
  qed
qed

text \<open>
  The sleeping part for a \<open>sleep\<close> that keeps to its contract: it may step the tick count up to
  the next wake-up time and pend the last tick.
\<close>

lemma prvIdleTask_sleep_ensures:
  assumes s: "sys_inv k"
    and sleep: "\<And>w k1. sys_inv k1 \<Longrightarrow> uxSchedulerSuspended k1 \<noteq> 0 \<Longrightarrow> ensures (sleep w k1) (\<lambda>k2. sys_inv k2 \<and>
      uxSchedulerSuspended k2 \<noteq> 0)"
  shows "ensures (prvIdleTask_sleep sleep k) sys_inv"
proof -
  have ex: "\<exists>w. prvGetExpectedIdleTime k = Some w" if "sys_inv k" for k
    using sys_invD(5) [OF that] by (auto simp: prvGetExpectedIdleTime_def current_ready_def)
  obtain w where w: "prvGetExpectedIdleTime k = Some w" using ex [OF s] by blast
  show ?thesis
  proof (cases "w \<ge> configEXPECTED_IDLE_TIME_BEFORE_SLEEP")
    case False
    then show ?thesis using s by (simp add: prvIdleTask_sleep_def w)
  next
    case True
    let ?k1 = "vTaskSuspendAll k"
    have s1: "sys_inv ?k1" using s by (rule sys_inv_lock)
    have su: "uxSchedulerSuspended ?k1 \<noteq> 0" by (simp add: vTaskSuspendAll_def)
    obtain w1 where w1: "prvGetExpectedIdleTime ?k1 = Some w1" using ex [OF s1] by blast
    have a: "xNextTaskUnblockTime ?k1 \<ge> xTickCount ?k1"
      using kernel_invD(4) [OF sys_invD(1) [OF s1]] by (simp add: next_ok_def)
    have "ensures (if w1 \<ge> configEXPECTED_IDLE_TIME_BEFORE_SLEEP then sleep w1 ?k1 else Some ?k1)
        (\<lambda>k2. ensures (xTaskResumeAll k2) (\<lambda>(k', y). sys_inv k'))"
    proof (rule ensures_mono [where P = "\<lambda>k2. sys_inv k2 \<and> uxSchedulerSuspended k2 \<noteq> 0"])
      show "ensures (if w1 \<ge> configEXPECTED_IDLE_TIME_BEFORE_SLEEP then sleep w1 ?k1 else Some ?k1)
        (\<lambda>k2. sys_inv k2 \<and> uxSchedulerSuspended k2 \<noteq> 0)" using s1 su sleep by simp
      fix k2 assume k2: "sys_inv k2 \<and> uxSchedulerSuspended k2 \<noteq> 0"
      have "ensures (xTaskResumeAll k2) (\<lambda>(k', y). sys_inv k' \<and> (\<forall>x. ready k2 x \<longrightarrow> ready k' x))"
        using k2 sys_invD(1,3-6) by (intro xTaskResumeAll_sys_inv) blast+
      then show "ensures (xTaskResumeAll k2) (\<lambda>(k', y). sys_inv k')" by (rule ensures_mono) auto
    qed
    then show ?thesis
      using True a by (simp add: prvIdleTask_sleep_def w w1 Let_def case_prod_unfold)
  qed
qed

end
