(* ===== verification/Task_Events.thy ===== *)
theory Task_Events
  imports Task_Create
begin

text \<open>
  Waiting for events: the calls with which queue.c, event_groups.c and timers.c put the
  running task into an event list and take the most urgent waiter out again. They are the
  interface between the scheduler and the objects tasks block on; the locale at the end
  states it as such.
\<close>

section \<open>Operations\<close>

definition vTaskPlaceOnEventList :: "list_id \<Rightarrow> tick \<Rightarrow> kernel \<Rightarrow> kernel option" where
  "vTaskPlaceOnEventList pxEventList xTicksToWait k = do {
     c \<leftarrow> pxCurrentTCB k;
     prvAddCurrentTaskToDelayedList xTicksToWait True (k_list_insert pxEventList (EventI c) k) }"

definition vTaskPlaceOnUnorderedEventList :: "list_id \<Rightarrow> tick \<Rightarrow> tick \<Rightarrow> kernel \<Rightarrow> kernel option" where
  "vTaskPlaceOnUnorderedEventList pxEventList xItemValue xTicksToWait k = do {
     configASSERT (uxSchedulerSuspended k \<noteq> 0);
     c \<leftarrow> pxCurrentTCB k;
     let k = k_set_value (EventI c) (xItemValue OR taskEVENT_LIST_ITEM_VALUE_IN_USE) k;
     prvAddCurrentTaskToDelayedList xTicksToWait True (k_list_insert_end pxEventList (EventI c) k) }"

definition vTaskPlaceOnEventListRestricted :: "list_id \<Rightarrow> tick \<Rightarrow> bool \<Rightarrow> kernel \<Rightarrow> kernel option" where
  "vTaskPlaceOnEventListRestricted pxEventList xTicksToWait xWaitIndefinitely k = do {
     c \<leftarrow> pxCurrentTCB k;
     let k = k_list_insert_end pxEventList (EventI c) k;
     let xTicksToWait = (if xWaitIndefinitely then portMAX_DELAY else xTicksToWait);
     prvAddCurrentTaskToDelayedList xTicksToWait xWaitIndefinitely k }"

text \<open>The flag is whether the unblocked task outranks the running one.\<close>

definition xTaskRemoveFromEventList :: "list_id \<Rightarrow> kernel \<Rightarrow> (kernel \<times> bool) option" where
  "xTaskRemoveFromEventList pxEventList k = do {
     i \<leftarrow> list_head pxEventList (lists k);
     k1 \<leftarrow> k_list_remove (EventI (owner i)) k;
     k2 \<leftarrow> (if uxSchedulerSuspended k1 = 0
           then do {
             k2 \<leftarrow> k_list_remove (StateI (owner i)) k1;
             let k3 = prvAddTaskToReadyList (owner i) k2;
             Some (prvResetNextTaskUnblockTime k3) }
           else Some (k_list_insert_end PendingReadyL (EventI (owner i)) k1));
     c \<leftarrow> pxCurrentTCB k2;
     if prio k2 (owner i) > prio k2 c
     then Some (k2\<lparr>xYieldPending := True\<rparr>, True)
     else Some (k2, False) }"

definition vTaskRemoveFromUnorderedEventList :: "item_id \<Rightarrow> tick \<Rightarrow> kernel \<Rightarrow> kernel option" where
  "vTaskRemoveFromUnorderedEventList pxEventListItem xItemValue k = do {
     configASSERT (uxSchedulerSuspended k \<noteq> 0);
     let k = k_set_value pxEventListItem (xItemValue OR taskEVENT_LIST_ITEM_VALUE_IN_USE) k;
     k \<leftarrow> k_list_remove pxEventListItem k;
     let k = prvResetNextTaskUnblockTime k;
     k \<leftarrow> k_list_remove (StateI (owner pxEventListItem)) k;
     let k = prvAddTaskToReadyList (owner pxEventListItem) k;
     c \<leftarrow> pxCurrentTCB k;
     Some (if prio k (owner pxEventListItem) > prio k c then k\<lparr>xYieldPending := True\<rparr> else k) }"

text \<open>The value an event group left in the item is read, and the priority is put back.\<close>

definition uxTaskResetEventItemValue :: "kernel \<Rightarrow> (kernel \<times> tick) option" where
  "uxTaskResetEventItemValue k = do {
     c \<leftarrow> pxCurrentTCB k;
     Some (k_set_value (EventI c) (priority_value (prio k c)) k, item_value (lists k) (EventI c)) }"

section \<open>Waiting\<close>

text \<open>Blocking the running task on an event list, as a fact about the whole state.\<close>

lemma event_list_no_state:
  assumes core: "kernel_core k" and l: "is_event_list l" shows "StateI t \<notin> set (members k l)"
  using event_member [OF core _ l, of "StateI t"] by auto

lemma blockable_lists:
  assumes "blockable k c"
  shows "lists_inv (lists k)" "event_list k c = None" "pxCurrentTCB k = Some c" "kernel_inv k" "kernel_core k"
  using assms by (simp_all add: blockable_def kernel_invD kernel_core_lists)

lemma vTaskPlaceOnEventList_ensures:
  assumes b: "blockable k c" and w: "w \<noteq> 0" and l: "is_event_list l" "l \<noteq> PendingReadyL"
    and post: "\<And>k'. \<lbrakk>kernel_inv k'; blocked c w True (Some l) k k';
        members k' l = insert_at_first (\<lambda>i. item_value (lists k) i \<le> item_value (lists k) (EventI c))
          (EventI c) (members k l)\<rbrakk> \<Longrightarrow> Q k'"
  shows "ensures (vTaskPlaceOnEventList l w k) Q"
proof -
  note bl = blockable_lists [OF b]
  have "ensures (prvAddCurrentTaskToDelayedList w True (k\<lparr>lists := list_insert l (EventI c) (lists k)\<rparr>)) Q"
  proof (rule block_event [OF b w l])
    show "lists_inv (list_insert l (EventI c) (lists k))" using bl by simp
  qed (use post in \<open>simp_all add: list_frame\<close>)
  then show ?thesis using bl(3) by (simp add: vTaskPlaceOnEventList_def)
qed

lemma vTaskPlaceOnEventListRestricted_ensures:
  assumes b: "blockable k c" and w: "w \<noteq> 0 \<or> indef" and l: "is_event_list l" "l \<noteq> PendingReadyL"
    and post: "\<And>k'. \<lbrakk>kernel_inv k'; blocked c (if indef then portMAX_DELAY else w) indef (Some l) k k';
        members k' l = insert_before (cursor (lists k) l) (EventI c) (members k l)\<rbrakk> \<Longrightarrow> Q k'"
  shows "ensures (vTaskPlaceOnEventListRestricted l w indef k) Q"
proof -
  note bl = blockable_lists [OF b]
  have w': "(if indef then portMAX_DELAY else w) \<noteq> 0" using w by (auto simp: portMAX_DELAY_def)
  have "ensures (prvAddCurrentTaskToDelayedList (if indef then portMAX_DELAY else w) indef
      (k\<lparr>lists := list_insert_end l (EventI c) (lists k)\<rparr>)) Q"
  proof (rule block_event [OF b w' l])
    show "lists_inv (list_insert_end l (EventI c) (lists k))" using bl l event_list_not_delayed by simp
  qed (use post in \<open>simp_all add: list_frame\<close>)
  then show ?thesis using bl(3) by (simp add: vTaskPlaceOnEventListRestricted_def Let_def)
qed

lemma vTaskPlaceOnUnorderedEventList_ensures:
  assumes b: "blockable k c" and w: "w \<noteq> 0" and l: "is_event_list l" "l \<noteq> PendingReadyL"
    and susp: "uxSchedulerSuspended k \<noteq> 0"
    and post: "\<And>k'. \<lbrakk>kernel_inv k'; blocked c w True (Some l) k k';
        members k' l = insert_before (cursor (lists k) l) (EventI c) (members k l);
        item_value (lists k') (EventI c) = v OR taskEVENT_LIST_ITEM_VALUE_IN_USE\<rbrakk> \<Longrightarrow> Q k'"
  shows "ensures (vTaskPlaceOnUnorderedEventList l v w k) Q"
proof -
  note bl = blockable_lists [OF b]
  let ?L = "list_set_value (EventI c) (v OR taskEVENT_LIST_ITEM_VALUE_IN_USE) (lists k)"
  have "ensures (prvAddCurrentTaskToDelayedList w True (k\<lparr>lists := list_insert_end l (EventI c) ?L\<rparr>)) Q"
  proof (rule block_event [OF b w l])
    show "lists_inv (list_insert_end l (EventI c) ?L)"
      using event_value_inv [OF bl(5)] bl(2) l event_list_not_delayed by (simp add: list_frame)
  qed (use post in \<open>simp_all add: list_frame\<close>)
  then show ?thesis using bl(3) susp by (simp add: vTaskPlaceOnUnorderedEventList_def Let_def)
qed

section \<open>Waking the most urgent waiter\<close>

text \<open>The head is the waiter of highest priority, if the list is in the order it was built in.\<close>

lemma head_most_urgent:
  assumes "sorted_key (item_value L) (items L l)" and "list_head l L = Some i" and "j \<in> set (items L l)"
  shows "item_value L i \<le> item_value L j"
  using assms sorted_key_hd [OF assms(1,3)] by (cases "items L l") (simp_all add: list_head_def)

lemma reset_next_inv:
  assumes "kernel_inv k" shows "kernel_inv (prvResetNextTaskUnblockTime k)"
proof -
  note core = kernel_invD(1) [OF assms]
  have "wake_ok (prvResetNextTaskUnblockTime k) x" for x
    using kernel_invD(2) [OF assms, of x] reset_next_le [OF core, of x] by (simp add: wake_ok_def)
  moreover have "next_ok (prvResetNextTaskUnblockTime k)"
    using kernel_invD(2) [OF assms] by (intro reset_next_ok [OF core]) (simp add: wake_ok_def)
  moreover have "pending_ok (prvResetNextTaskUnblockTime k)"
    using kernel_invD(3) [OF assms] by (simp add: pending_ok_def)
  ultimately show ?thesis using reset_next_core [OF core] by (simp add: kernel_inv_def)
qed

lemma reset_next_sys_inv:
  "sys_inv k \<Longrightarrow> sys_inv (prvResetNextTaskUnblockTime k)"
  by (simp add: sys_inv_def reset_next_inv idle_ready_def current_ready_def settled_def caught_up_def ready_def)

text \<open>The effect: the waiter has left the event list, and is ready or noted as pending.\<close>

definition event_woken :: "list_id \<Rightarrow> task \<Rightarrow> kernel \<Rightarrow> kernel \<Rightarrow> bool" where
  "event_woken l t k k' \<longleftrightarrow>
     members k' l = remove1 (EventI t) (members k l) \<and>
     (if uxSchedulerSuspended k = 0 then ready k' t \<and> event_list k' t = None
      else state_list k' t = state_list k t \<and> event_list k' t = Some PendingReadyL) \<and>
     (\<forall>x. x \<noteq> t \<longrightarrow> state_list k' x = state_list k x \<and> event_list k' x = event_list k x) \<and>
     (\<forall>l'. is_event_list l' \<and> l' \<noteq> l \<and> l' \<noteq> PendingReadyL \<longrightarrow> members k' l' = members k l') \<and>
     tcbs k' = tcbs k \<and> pxCurrentTCB k' = pxCurrentTCB k \<and>
     uxSchedulerSuspended k' = uxSchedulerSuspended k \<and> xTickCount k' = xTickCount k \<and>
     xIdleTaskHandle k' = xIdleTaskHandle k \<and> item_value (lists k') = item_value (lists k) \<and>
     uxCurrentNumberOfTasks k' = uxCurrentNumberOfTasks k"

text \<open>The other lists that hold the event item of a task that was woken.\<close>

lemma woken_members:
  assumes core: "kernel_core k" and w: "woken {t} k k'" and l: "is_event_list l"
  shows "members k' l = remove1 (EventI t) (members k l)"
proof -
  have d: "distinct (members k l)" using lists_wf_distinct [OF lists_inv_wf [OF kernel_core_lists [OF core]]] .
  have "i = EventI (owner i)" if "i \<in> set (members k l)" for i
    using event_member [OF core that l] by blast
  then have "filter (\<lambda>i. owner i \<notin> {t}) (members k l) = filter (\<lambda>i. i \<noteq> EventI t) (members k l)"
    by (intro filter_cong refl) (metis owner.simps(2) singletonD singletonI)
  moreover have "\<not> is_ready_list l" using l by (cases l) simp_all
  ultimately show ?thesis using woken_lists(3) [OF w, of l] filter_neq_remove1 [OF d] by simp
qed

lemma event_off_inv:
  assumes inv: "kernel_inv k"
    and L: "lists_inv L" "container L = (container (lists k))(EventI t := None)"
      "\<And>x. item_value L (StateI x) = item_value (lists k) (StateI x)"
      "\<And>l. items L l = remove1 (EventI t) (members k l)"
    and susp: "uxSchedulerSuspended k \<noteq> 0"
  shows "kernel_inv (k\<lparr>lists := L\<rparr>)" (is "kernel_inv ?k")
proof -
  have core: "kernel_core k" using inv by (rule kernel_invD)
  have "kernel_core ?k"
  proof (rule kernel_coreI [OF core, where t = t])
    show "task_ok ?k t"
      using kernel_core_task [OF core, of t] by (auto simp: task_ok_def L)
  qed (use core L in \<open>simp_all add: same_task_def kernel_core_def\<close>)
  moreover have "wake_ok ?k x" for x
    using kernel_invD(2) [OF inv, of x] by (simp add: wake_ok_def L)
  moreover have "pending_ok ?k" using susp by (simp add: pending_ok_def)
  moreover have "next_ok ?k" 
    using kernel_invD(4) [OF inv] by (simp add: next_ok_def L)
  ultimately show ?thesis by (simp add: kernel_inv_def)
qed

lemma event_off_sys_inv:
  assumes s: "sys_inv k"
    and L: "lists_inv L" "container L = (container (lists k))(EventI t := None)"
      "\<And>x. item_value L (StateI x) = item_value (lists k) (StateI x)"
      "\<And>l. items L l = remove1 (EventI t) (members k l)"
    and susp: "uxSchedulerSuspended k \<noteq> 0"
  shows "sys_inv (k\<lparr>lists := L\<rparr>)"
  using event_off_inv [OF sys_invD(1) [OF s] L susp] s L(2)
  by (simp add: sys_inv_def idle_ready_def current_ready_def ready_def settled_def caught_up_def)

lemma xTaskRemoveFromEventList_ensures:
  assumes s: "sys_inv k" and l: "is_event_list l" "l \<noteq> PendingReadyL" and cur: "pxCurrentTCB k = Some c"
    and ms: "members k l = EventI t # rest"
    and post: "\<And>k'. \<lbrakk>sys_inv k'; event_woken l t k k';
      prio k c < prio k t \<longrightarrow> xYieldPending k'; xYieldPending k \<longrightarrow> xYieldPending k'\<rbrakk>
      \<Longrightarrow> Q (k', prio k c < prio k t)"
  shows "ensures (xTaskRemoveFromEventList l k) Q"
proof -
  have core: "kernel_core k" and inv: "kernel_inv k" using sys_invD [OF s] by blast+
  have hd: "list_head l (lists k) = Some (EventI t)" using ms by (simp add: list_head_def)
  have ev: "event_list k t = Some l" using member_iff(2) [OF core, of t l] ms by simp
  have st: "state_list k t \<noteq> None" "state_list k t \<noteq> Some TerminationL"
    using task_okD(8,9) [OF kernel_core_task [OF core] ev] by simp_all
  have nr: "\<not> ready k t"
    using task_okD(7) [OF kernel_core_task [OF core], of t] ev l by (auto simp: ready_def)
  define fin where "fin k2 = (if prio k c < prio k t then k2\<lparr>xYieldPending := True\<rparr> else k2)" for k2 :: kernel
  show ?thesis
  proof (cases "uxSchedulerSuspended k = 0")
    case True
    have "ensures (do { k1 \<leftarrow> k_list_remove (EventI t) k; k2 \<leftarrow> k_list_remove (StateI t) k1;
        let k3 = prvAddTaskToReadyList t k2; Some (prvResetNextTaskUnblockTime k3) })
      (\<lambda>k2. pxCurrentTCB k2 = Some c \<and> tcbs k2 = tcbs k \<and> Q (fin k2, prio k c < prio k t))"
    proof (rule event_unblock_ensures [OF core ev])
      fix k3 assume core3: "kernel_core k3" and w: "woken {t} k k3"
      let ?k2 = "prvResetNextTaskUnblockTime k3"
      note wf = woken_frame [OF w] and wl = woken_lists [OF w]
      note parts = woken_parts [OF s core3 w]
      have rd: "ready k3 x \<longleftrightarrow> x = t \<or> ready k x" for x using ready_woken [OF w] by simp
      have s2: "sys_inv (fin ?k2)"
      proof -
        have "settled (fin ?k2)"
        proof (cases "prio k c < prio k t")
          case False
          then have "settled k3" using cur by (intro woken_settled [OF s w]) simp
          with False show ?thesis by (simp add: fin_def settled_def ready_def)
        qed (simp add: fin_def settled_def)
        moreover have "kernel_inv (fin ?k2)" using reset_next_inv [OF parts(1)] by (simp add: fin_def)
        ultimately show ?thesis
          using parts by (simp add: fin_def sys_inv_def idle_ready_def current_ready_def caught_up_def ready_def)
      qed
      have mem: "members k3 l' = members k l'" if "is_event_list l'" "l' \<noteq> l" for l'
        using woken_members [OF core w that(1)] member_iff(2) [OF core, of t l'] ev that by (simp add: remove1_idem)
      have meml: "members k3 l = remove1 (EventI t) (members k l)" by (rule woken_members [OF core w l(1)])
      have ew: "event_woken l t k (fin ?k2)"
        using True rd wl(1,2) wf mem meml by (simp add: event_woken_def fin_def ready_def)
      have "Q (fin ?k2, prio k c < prio k t)"
        by (rule post [OF s2 ew]) (simp_all add: fin_def wf)
      then show "ensures (Some ?k2) (\<lambda>k2. pxCurrentTCB k2 = Some c \<and> tcbs k2 = tcbs k \<and> Q (fin k2, prio k c < prio k t))"
        using wf cur by simp
    qed
    then show ?thesis
      using True cur by (cases "k_list_remove (EventI t) k")
        (auto simp: xTaskRemoveFromEventList_def hd fin_def Let_def k_list_remove_def
          elim!: ensures_mono)
  next
    case False
    show ?thesis
      unfolding xTaskRemoveFromEventList_def hd Option.bind.bind_lunit owner.simps ensures_bind [of "k_list_remove _ _"]
    proof (rule k_list_remove_ensures [OF kernel_core_lists [OF core]])
      show "event_list k t \<noteq> None" using ev by simp
      fix L assume L: "lists_inv L" "container L = (container (lists k))(EventI t := None)"
        "item_value L = item_value (lists k)" "\<And>l. items L l = remove1 (EventI t) (members k l)"
      let ?k1 = "k\<lparr>lists := L\<rparr>"
      let ?k2 = "k_list_insert_end PendingReadyL (EventI t) ?k1"
      have s1: "sys_inv ?k1" by (rule event_off_sys_inv [OF s L(1,2) _ L(4)]) (use L False in simp_all)
      have s2: "sys_inv ?k2"
        by (rule to_pending_sys_inv [OF s1]) (use L st False in simp_all)
      have s3: "sys_inv (fin ?k2)" using s2 sys_inv_yield_pending [OF s2] by (simp add: fin_def)
      have ew: "event_woken l t k (fin ?k2)"
        using False L l ev member_iff(2) [OF core, of t]
        by (auto simp: event_woken_def fin_def list_frame intro!: remove1_idem)
      have "Q (fin ?k2, prio k c < prio k t)"
        by (rule post [OF s3 ew]) (simp_all add: fin_def)
      then show "ensures (do {
         k2 \<leftarrow> (if uxSchedulerSuspended ?k1 = 0
           then do {
             k2 \<leftarrow> k_list_remove (StateI t) ?k1;
             let k3 = prvAddTaskToReadyList t k2;
             Some (prvResetNextTaskUnblockTime k3) }
           else Some (k_list_insert_end PendingReadyL (EventI t) ?k1));
         c \<leftarrow> pxCurrentTCB k2;
         if prio k2 t > prio k2 c then Some (k2\<lparr>xYieldPending := True\<rparr>, True) else Some (k2, False) }) Q"
        using False cur by (simp add: fin_def split: if_splits)
    qed
  qed
qed

text \<open>
  An event group wakes a waiter anywhere in its list: it leaves the list with the value the
  group hands it, and is ready at once although the scheduler is locked.
\<close>

definition handed :: "task set \<Rightarrow> tick \<Rightarrow> kernel \<Rightarrow> kernel \<Rightarrow> bool" where
  "handed W v k k' \<longleftrightarrow>
     (\<forall>t \<in> W. ready k' t \<and> event_list k' t = None \<and>
        item_value (lists k') (EventI t) = v OR taskEVENT_LIST_ITEM_VALUE_IN_USE) \<and>
     (\<forall>t. t \<notin> W \<longrightarrow> item_value (lists k') (EventI t) = item_value (lists k) (EventI t) \<and>
        state_list k' t = state_list k t \<and> event_list k' t = event_list k t) \<and>
     (\<forall>l. is_event_list l \<longrightarrow> members k' l = filter (\<lambda>i. i \<notin> EventI ` W) (members k l)) \<and>
     tcbs k' = tcbs k \<and>
     uxSchedulerSuspended k' = uxSchedulerSuspended k \<and> xTickCount k' = xTickCount k \<and>
     xPendedTicks k' = xPendedTicks k \<and> xIdleTaskHandle k' = xIdleTaskHandle k \<and>
     (uxSchedulerSuspended k \<noteq> 0 \<longrightarrow> pxCurrentTCB k' = pxCurrentTCB k)"

lemma handed_none [simp]: "handed {} v k k"
  by (simp add: handed_def)

lemma handed_trans:
  assumes 1: "handed W v k k1" and 2: "handed W' v k1 k2"
  shows "handed (W \<union> W') v k k2"
proof -
  have "ready k2 t" if "t \<in> W" "t \<notin> W'" for t
    using 1 2 that by (simp add: handed_def ready_def)
  then show ?thesis
    using 1 2 by (auto simp: handed_def image_Un intro!: filter_cong)
qed

lemma vTaskRemoveFromUnorderedEventList_ensures:
  assumes s: "sys_inv k" and susp: "uxSchedulerSuspended k \<noteq> 0"
    and ev: "event_list k t = Some l"
  shows "ensures (vTaskRemoveFromUnorderedEventList (EventI t) v k) (\<lambda>k'. sys_inv k' \<and> handed {t} v k k' \<and>
     ((\<exists>c. pxCurrentTCB k = Some c \<and> prio k c < prio k t) \<or> xYieldPending k \<longrightarrow> xYieldPending k'))"
    (is "ensures _ ?Q")
proof -
  have core: "kernel_core k" using sys_invD [OF s] by blast
  obtain c where cur: "pxCurrentTCB k = Some c" using current_readyE [OF sys_invD(5) [OF s]] by blast
  let ?v = "v OR taskEVENT_LIST_ITEM_VALUE_IN_USE"
  let ?k0 = "k_set_value (EventI t) ?v k"
  have st: "state_list k t \<noteq> None" "state_list k t \<noteq> Some TerminationL"
    using kernel_core_task [OF core, of t] ev by (simp_all add: task_ok_def)
  show ?thesis
    unfolding vTaskRemoveFromUnorderedEventList_def Let_def ensures_bind [of "configASSERT _"]
      ensures_configASSERT ensures_bind [of "k_list_remove _ ?k0"] owner.simps
  proof (rule conjI [OF susp], rule k_list_remove_ensures)
    show "lists_inv (lists ?k0)" using event_value_inv [OF core] by simp
    show "event_list ?k0 t \<noteq> None" using ev by (simp add: list_frame)
    fix L assume L: "lists_inv L" "container L = (container (lists ?k0))(EventI t := None)"
      "item_value L = item_value (lists ?k0)" "\<And>l. items L l = remove1 (EventI t) (members ?k0 l)"
    let ?k1 = "prvResetNextTaskUnblockTime (?k0\<lparr>lists := L\<rparr>)"
    have "sys_inv (k\<lparr>lists := L\<rparr>)"
      by (rule event_off_sys_inv [OF s L(1)]) (use L susp in \<open>simp_all add: list_frame\<close>)
    then have s1: "sys_inv ?k1" by (intro reset_next_sys_inv) simp
    have d: "distinct (members k l')" for l'
      using lists_wf_distinct [OF lists_inv_wf [OF kernel_core_lists [OF core]]] .
    let ?f = "\<lambda>k. do { c \<leftarrow> pxCurrentTCB k;
      Some (if prio k c < prio k t then k\<lparr>xYieldPending := True\<rparr> else k) }"
    have "ensures (do { k2 \<leftarrow> k_list_remove (StateI t) ?k1; let k3 = prvAddTaskToReadyList t k2; ?f k3 }) ?Q"
    proof (rule unblock_state_ensures [OF sys_invD(2) [OF s1]])
      show "event_list ?k1 t = None" "state_list ?k1 t \<noteq> None" "state_list ?k1 t \<noteq> Some TerminationL"
        using L st by (simp_all add: list_frame)
      fix k3 assume core3: "kernel_core k3" and w: "woken {t} ?k1 k3"
      note parts = woken_parts [OF s1 core3 w] and wf = woken_frame [OF w] and wl = woken_lists [OF w]
      let ?k4 = "if prio k c < prio k t then k3\<lparr>xYieldPending := True\<rparr> else k3"
      have "settled ?k4"
      proof (cases "prio k c < prio k t")
        case False
        then have "settled k3" using cur by (intro woken_settled [OF s1 w]) simp
        then show ?thesis using False by simp
      qed (simp add: settled_def)
      then have s4: "sys_inv ?k4"
        using parts by (simp add: sys_inv_def idle_ready_def current_ready_def caught_up_def ready_def)
      have m: "members k3 l' = remove1 (EventI t) (members k l')" if "is_event_list l'" for l'
        using woken_members [OF sys_invD(2) [OF s1] w that] L d [of l']
        by (simp add: list_frame remove1_idem distinct_remove1_removeAll)
      have "handed {t} v k ?k4"
        using ready_woken [OF w, of t] wl(1,2) wf L m filter_neq_remove1 [OF d]
        by (simp add: handed_def list_frame ready_def)
      then show "ensures (?f k3) ?Q" using s4 wf cur by auto
    qed
    then show "ensures (do { k2 \<leftarrow> k_list_remove (StateI t) ?k1; ?f (prvAddTaskToReadyList t k2) }) ?Q"
      by (simp add: Let_def)
  qed
qed

end
