(* ===== verification/Task_Mutex.thy ===== *)
theory Task_Mutex
  imports Task_Events
begin

text \<open>
  Priority inheritance: what \<open>queue.c\<close> asks of the scheduler when a mutex is taken, given back,
  or a wait for it times out. The holder of a mutex runs at the priority of the most urgent
  task waiting for it, and falls back to its base priority with the last mutex it holds.
\<close>

section \<open>Operations\<close>

definition pvTaskIncrementMutexHeldCount :: "kernel \<Rightarrow> kernel \<times> task option" where
  "pvTaskIncrementMutexHeldCount k = (case pxCurrentTCB k of
     None \<Rightarrow> (k, None)
   | Some c \<Rightarrow> (upd_tcb c (\<lambda>b. b\<lparr>uxMutexesHeld := uxMutexesHeld b + 1\<rparr>) k, Some c))"

definition xTaskPriorityInherit :: "task option \<Rightarrow> kernel \<Rightarrow> (kernel \<times> bool) option" where
  "xTaskPriorityInherit pxMutexHolder k = (case pxMutexHolder of
     None \<Rightarrow> Some (k, False)
   | Some t \<Rightarrow> do {
       c \<leftarrow> pxCurrentTCB k;
       if prio k t < prio k c
       then do {
         let p = prio k c;
         let k = (if item_value (lists k) (EventI t) AND taskEVENT_LIST_ITEM_VALUE_IN_USE = 0
                  then k_set_value (EventI t) (priority_value p) k else k);
         k \<leftarrow> (if state_list k t = Some (ReadyL (prio k t))
               then do {
                 k \<leftarrow> k_list_remove (StateI t) k;
                 let k = upd_tcb t (\<lambda>b. b\<lparr>uxPriority := p\<rparr>) k;
                 Some (prvAddTaskToReadyList t k) }
               else Some (upd_tcb t (\<lambda>b. b\<lparr>uxPriority := p\<rparr>) k));
         Some (k, True) }
       else Some (k, uxBasePriority (tcbs k t) < prio k c) })"

definition xTaskPriorityDisinherit :: "task option \<Rightarrow> kernel \<Rightarrow> (kernel \<times> bool) option" where
  "xTaskPriorityDisinherit pxMutexHolder k = (case pxMutexHolder of
     None \<Rightarrow> Some (k, False)
   | Some t \<Rightarrow> do {
       configASSERT (Some t = pxCurrentTCB k);
       configASSERT (uxMutexesHeld (tcbs k t) \<noteq> 0);
       let k = upd_tcb t (\<lambda>b. b\<lparr>uxMutexesHeld := uxMutexesHeld b - 1\<rparr>) k;
       if prio k t \<noteq> uxBasePriority (tcbs k t) \<and> uxMutexesHeld (tcbs k t) = 0
       then do {
         k \<leftarrow> k_list_remove (StateI t) k;
         let k = upd_tcb t (\<lambda>b. b\<lparr>uxPriority := uxBasePriority b\<rparr>) k;
         let k = k_set_value (EventI t) (priority_value (prio k t)) k;
         Some (prvAddTaskToReadyList t k, True) }
       else Some (k, False) })"

definition vTaskPriorityDisinheritAfterTimeout :: "task option \<Rightarrow> nat \<Rightarrow> kernel \<Rightarrow> kernel option" where
  "vTaskPriorityDisinheritAfterTimeout pxMutexHolder uxHighestPriorityWaitingTask k = (case pxMutexHolder of
     None \<Rightarrow> Some k
   | Some t \<Rightarrow> do {
       configASSERT (uxMutexesHeld (tcbs k t) \<noteq> 0);
       let uxPriorityToUse = (if uxBasePriority (tcbs k t) < uxHighestPriorityWaitingTask
                              then uxHighestPriorityWaitingTask else uxBasePriority (tcbs k t));
       if prio k t \<noteq> uxPriorityToUse \<and> uxMutexesHeld (tcbs k t) = 1
       then do {
         configASSERT (Some t \<noteq> pxCurrentTCB k);
         let uxPriorityUsedOnEntry = prio k t;
         let k = upd_tcb t (\<lambda>b. b\<lparr>uxPriority := uxPriorityToUse\<rparr>) k;
         let k = (if item_value (lists k) (EventI t) AND taskEVENT_LIST_ITEM_VALUE_IN_USE = 0
                  then k_set_value (EventI t) (priority_value uxPriorityToUse) k else k);
         if state_list k t = Some (ReadyL uxPriorityUsedOnEntry)
         then do { k \<leftarrow> k_list_remove (StateI t) k; Some (prvAddTaskToReadyList t k) }
         else Some k }
       else Some k })"

section \<open>Inheriting\<close>

text \<open>Bookkeeping in a task's control block does not disturb the system.\<close>

lemma upd_tcb_sys_inv:
  assumes s: "sys_inv k" and f: "same_shape (tcbs k t) (f (tcbs k t))"
  shows "sys_inv (upd_tcb t f k)"
proof -
  have p: "prio (upd_tcb t f k) x = prio k x" for x using f by (simp add: same_shape_def)
  then have "ready (upd_tcb t f k) x = ready k x" for x unfolding ready_def by simp
  then show ?thesis
    using upd_tcb_inv [where f = f, OF sys_invD(1) [OF s] f] s p
    unfolding sys_inv_def settled_def idle_ready_def current_ready_def caught_up_def by simp
qed

text \<open>A task's priority may be stored before its item leaves the ready list, or after.\<close>

lemma upd_tcb_lists: "upd_tcb t f k\<lparr>lists := L\<rparr> = k\<lparr>lists := L, tcbs := (tcbs k)(t := f (tcbs k t))\<rparr>"
  by simp

lemma k_list_remove_tcb: "k_list_remove i (upd_tcb t f k) = map_option (upd_tcb t f) (k_list_remove i k)"
  by (simp add: k_list_remove_def option.map_comp comp_def split_def upd_tcb_lists)

text \<open>What a change of priority leaves alone.\<close>

definition others_unchanged :: "task \<Rightarrow> kernel \<Rightarrow> kernel \<Rightarrow> bool" where
  "others_unchanged t k k' \<longleftrightarrow> (\<forall>x. x \<noteq> t \<longrightarrow> tcbs k' x = tcbs k x) \<and>
     (\<forall>x. ready k' x \<longleftrightarrow> ready k x) \<and> (\<forall>x. event_list k' x = event_list k x) \<and>
     (\<forall>l. \<not> is_ready_list l \<longrightarrow> members k' l = members k l) \<and>
     pxCurrentTCB k' = pxCurrentTCB k \<and> uxSchedulerSuspended k' = uxSchedulerSuspended k \<and>
     xTickCount k' = xTickCount k \<and> xYieldPending k' = xYieldPending k"

lemma others_unchanged_refl [simp]: "others_unchanged t k k"
  by (simp add: others_unchanged_def)

lemma reprio_others:
  assumes "kernel_core k" and r: "reprio t b k k'" shows "others_unchanged t k k'"
  using ready_reprio [OF assms] reprio_lists [OF r] reprio_frame [OF r] by (simp add: others_unchanged_def)

definition event_valued :: "tick \<Rightarrow> task \<Rightarrow> kernel \<Rightarrow> (list_id, item_id) lists" where
  "event_valued v t k = (if item_value (lists k) (EventI t) AND taskEVENT_LIST_ITEM_VALUE_IN_USE = 0
     then list_set_value (EventI t) v (lists k) else lists k)"

lemma event_valued [simp]:
  "container (event_valued v t k) = container (lists k)" "items (event_valued v t k) = items (lists k)"
  "item_value (event_valued v t k) (StateI x) = item_value (lists k) (StateI x)"
  by (simp_all add: event_valued_def list_frame)

lemma event_valued_inv: "kernel_core k \<Longrightarrow> lists_inv (event_valued v t k)"
  using event_value_inv kernel_core_lists by (auto simp: event_valued_def)

text \<open>
  The holder ends at no less than the running task's priority, its base priority untouched;
  the flag says whether it did inherit, now or before.
\<close>

definition inherited :: "task \<Rightarrow> nat \<Rightarrow> kernel \<Rightarrow> kernel \<Rightarrow> bool" where
  "inherited t p k k' \<longleftrightarrow> others_unchanged t k k' \<and>
     tcbs k' t = (tcbs k t)\<lparr>uxPriority := max (prio k t) p\<rparr>"

lemma xTaskPriorityInherit_ensures:
  assumes s: "sys_inv k" and cur: "pxCurrentTCB k = Some c"
  shows "ensures (xTaskPriorityInherit (Some t) k) (\<lambda>(k', y). sys_inv k' \<and>
     inherited t (prio k c) k k' \<and> y = (uxBasePriority (tcbs k t) < prio k c))"
    (is "ensures _ ?Q")
proof (cases "prio k t < prio k c")
  case False
  then have "tcbs k t = (tcbs k t)\<lparr>uxPriority := max (prio k t) (prio k c)\<rparr>" by simp
  then show ?thesis using False s cur by (simp add: xTaskPriorityInherit_def inherited_def)
next
  case True
  have core: "kernel_core k" using s by (rule sys_invD)
  note tok = kernel_core_task [OF core, of t] and tokc = kernel_core_task [OF core, of c]
  define b where "b = (tcbs k t)\<lparr>uxPriority := prio k c\<rparr>"
  define k1 where "k1 = k\<lparr>tcbs := (tcbs k)(t := b), lists := event_valued (priority_value (prio k c)) t k\<rparr>"
  have bok: "uxBasePriority b \<le> uxPriority b" "uxPriority b < configMAX_PRIORITIES"
    using True task_okD(3,4) [OF tok] task_okD(4) [OF tokc] by (auto simp: b_def)
  have unf: "xTaskPriorityInherit (Some t) k = do {
       k \<leftarrow> (if state_list k1 t = Some (ReadyL (prio k t))
             then do { k \<leftarrow> k_list_remove (StateI t) k1; Some (prvAddTaskToReadyList t k) }
             else Some k1);
       Some (k, True) }"
  proof -
    let ?k0 = "k\<lparr>lists := event_valued (priority_value (prio k c)) t k\<rparr>"
    have k0: "(if item_value (lists k) (EventI t) AND taskEVENT_LIST_ITEM_VALUE_IN_USE = 0
      then k_set_value (EventI t) (priority_value (prio k c)) k else k) = ?k0"
      by (simp add: event_valued_def)
    have k1: "k1 = upd_tcb t (\<lambda>b. b\<lparr>uxPriority := prio k c\<rparr>) ?k0"
      by (simp add: k1_def b_def)
    have "xTaskPriorityInherit (Some t) k = do {
         k \<leftarrow> (if state_list ?k0 t = Some (ReadyL (prio k t))
               then do {
                 k2 \<leftarrow> k_list_remove (StateI t) ?k0;
                 Some (prvAddTaskToReadyList t (upd_tcb t (\<lambda>b. b\<lparr>uxPriority := prio k c\<rparr>) k2)) }
               else Some (upd_tcb t (\<lambda>b. b\<lparr>uxPriority := prio k c\<rparr>) ?k0));
         Some (k, True) }"
      unfolding xTaskPriorityInherit_def option.case cur Option.bind.bind_lunit if_P [OF True] Let_def k0 by simp
    then show ?thesis unfolding k1 k_list_remove_tcb by (simp add: bind_map_option comp_def)
  qed
  show ?thesis
    unfolding unf
  proof (rule reprio_of [OF core bok(2) k1_def event_valued_inv [OF core] event_valued])
    fix k' assume r: "reprio t b k k'" and li: "lists_inv (lists k')"
    note rf = reprio_frame [OF r] and rl = reprio_lists(1-5) [OF r]
    have inv': "kernel_inv k'"
      by (rule reprio_inv [OF sys_invD(1) [OF s] r li bok]) (use tok in \<open>simp_all add: b_def task_ok_def\<close>)
    have "prio k' x \<le> prio k' c" if "ready k' x" and yp: "\<not> xYieldPending k'" for x
    proof -
      have "ready k x" using that ready_reprio [OF core r] by simp
      then have "prio k x \<le> prio k c" using sys_invD(6) [OF s] yp cur by (simp add: settled_def rf)
      then show ?thesis using rl(5) True by (auto simp: b_def)
    qed
    then have "settled k'" using cur by (simp add: settled_def rf)
    then have "sys_inv k'" using inv' reprio_parts [OF s r] by (simp add: sys_inv_def)
    moreover have "inherited t (prio k c) k k'"
      using reprio_others [OF core r] rl(5) True by (simp add: inherited_def b_def)
    moreover have "uxBasePriority (tcbs k t) < prio k c" using True task_okD(3) [OF tok] by simp
    ultimately show "ensures (Some (k', True)) ?Q" by simp
  qed
qed

section \<open>Giving back\<close>

text \<open>
  The running task gives a mutex back. With its last one it drops to its base priority, and
  the caller is told to let the scheduler choose again: only then may a ready task outrank it.
\<close>

lemma xTaskPriorityDisinherit_ensures:
  assumes s: "sys_inv k" and cur: "pxCurrentTCB k = Some t" and held: "uxMutexesHeld (tcbs k t) \<noteq> 0"
  shows "ensures (xTaskPriorityDisinherit (Some t) k) (\<lambda>(k', y). kernel_inv k' \<and>
     idle_ready k' \<and> current_ready k' \<and> caught_up k' \<and> xSchedulerRunning k' \<and> (\<not> y \<longrightarrow> sys_inv k') \<and>
     others_unchanged t k k' \<and>
     y = (prio k t \<noteq> uxBasePriority (tcbs k t) \<and> uxMutexesHeld (tcbs k t) = 1) \<and>
     tcbs k' t = (tcbs k t)\<lparr>uxMutexesHeld := uxMutexesHeld (tcbs k t) - 1,
       uxPriority := if y then uxBasePriority (tcbs k t) else prio k t\<rparr>)"
    (is "ensures _ ?Q")
proof -
  have core: "kernel_core k" using s by (rule sys_invD)
  note tok = kernel_core_task [OF core, of t]
  let ?k0 = "upd_tcb t (\<lambda>b. b\<lparr>uxMutexesHeld := uxMutexesHeld b - 1\<rparr>) k"
  have s0: "sys_inv ?k0"
    by (rule upd_tcb_sys_inv [OF s]) (simp add: same_shape_def)
  have core0: "kernel_core ?k0" using s0 by (rule sys_invD)
  define y where "y \<longleftrightarrow> prio ?k0 t \<noteq> uxBasePriority (tcbs ?k0 t) \<and> uxMutexesHeld (tcbs ?k0 t) = 0"
  have y: "y \<longleftrightarrow> prio k t \<noteq> uxBasePriority (tcbs k t) \<and> uxMutexesHeld (tcbs k t) = 1"
    using held by (auto simp: y_def)
  have unf: "xTaskPriorityDisinherit (Some t) k = (if y then do {
         k \<leftarrow> k_list_remove (StateI t) ?k0;
         let k = upd_tcb t (\<lambda>b. b\<lparr>uxPriority := uxBasePriority b\<rparr>) k;
         let k = k_set_value (EventI t) (priority_value (prio k t)) k;
         Some (prvAddTaskToReadyList t k, True) }
       else Some (?k0, False))"
    using cur held by (simp add: xTaskPriorityDisinherit_def Let_def y_def)
  show ?thesis
  proof (cases y)
    case False
    have "tcbs ?k0 t = (tcbs k t)\<lparr>uxMutexesHeld := uxMutexesHeld (tcbs k t) - 1, uxPriority := prio k t\<rparr>" by simp
    moreover have "others_unchanged t k ?k0" by (simp add: others_unchanged_def ready_def)
    ultimately show ?thesis
      using False y s0 sys_invD [OF s0] unfolding unf if_not_P [OF False] by auto
  next
    case True
    define b where "b = (tcbs ?k0 t)\<lparr>uxPriority := uxBasePriority (tcbs k t)\<rparr>"
    have rt: "ready ?k0 t" using sys_invD(5) [OF s0] cur by (auto simp: current_ready_def)
    have at: "state_list ?k0 t = Some (ReadyL (prio ?k0 t))" using rt by (simp add: ready_def)
    have bok: "uxBasePriority b \<le> uxPriority b" "uxPriority b < configMAX_PRIORITIES"
      using task_okD(3,4) [OF tok] by (auto simp: b_def)
    show ?thesis
      unfolding unf if_P [OF True] Let_def ensures_bind
    proof (rule k_list_remove_ensures [OF kernel_core_lists [OF core0]])
      show "state_list ?k0 t \<noteq> None" using at by simp
      fix L assume L: "lists_inv L" "container L = (container (lists ?k0))(StateI t := None)"
        "item_value L = item_value (lists ?k0)" "\<And>l. items L l = remove1 (StateI t) (members ?k0 l)"
      let ?L = "list_set_value (EventI t) (priority_value (uxBasePriority (tcbs k t))) L"
      define k' where "k' = prvAddTaskToReadyList t (?k0\<lparr>tcbs := (tcbs ?k0)(t := b), lists := ?L\<rparr>)"
      have li: "lists_inv ?L"
        by (rule lists_inv_set_value [OF L(1)])
          (use task_okD(2) [OF kernel_core_task [OF core0]] event_list_not_delayed L(2) in auto)
      have r: "reprio t b ?k0 k'" and li': "lists_inv (lists k')"
        by (rule reprio_move [OF core0 bok(2) at li _ _ _ k'_def]; use L in \<open>simp add: list_frame\<close>)+
      note rl = reprio_lists(1-5) [OF r]
      have inv': "kernel_inv k'"
        by (rule reprio_inv [OF sys_invD(1) [OF s0] r li' bok]) (use tok in \<open>simp_all add: b_def task_ok_def\<close>)
      have "others_unchanged t k k'"
        using reprio_others [OF core0 r] by (simp add: others_unchanged_def ready_def)
      then have "?Q (k', True)"
        using inv' reprio_parts [OF s0 r] rl(5) True y by (simp add: b_def)
      moreover have "prvAddTaskToReadyList t (k_set_value (EventI t)
          (priority_value (prio (upd_tcb t (\<lambda>b. b\<lparr>uxPriority := uxBasePriority b\<rparr>) (?k0\<lparr>lists := L\<rparr>)) t))
          (upd_tcb t (\<lambda>b. b\<lparr>uxPriority := uxBasePriority b\<rparr>) (?k0\<lparr>lists := L\<rparr>))) = k'"
        unfolding k'_def by (rule arg_cong [where f = "prvAddTaskToReadyList t"], rule kernel.equality)
          (simp_all add: b_def)
      ultimately show "ensures (Some (prvAddTaskToReadyList t (k_set_value (EventI t)
          (priority_value (prio (upd_tcb t (\<lambda>b. b\<lparr>uxPriority := uxBasePriority b\<rparr>) (?k0\<lparr>lists := L\<rparr>)) t))
          (upd_tcb t (\<lambda>b. b\<lparr>uxPriority := uxBasePriority b\<rparr>) (?k0\<lparr>lists := L\<rparr>))), True)) ?Q"
        by (simp only: ensures_Some)
    qed
  qed
qed

section \<open>A wait that timed out\<close>

text \<open>
  The waiter that gave up may have been the one whose priority the holder runs at. The holder,
  if this is its only mutex, falls to the priority of the most urgent task still waiting, or to
  its base priority; holding more, it keeps what it has.
\<close>

definition after_timeout :: "tcb \<Rightarrow> nat \<Rightarrow> nat" where
  "after_timeout b p = (if uxMutexesHeld b = 1 then max (uxBasePriority b) p else uxPriority b)"

lemma vTaskPriorityDisinheritAfterTimeout_ensures:
  assumes s: "sys_inv k" and held: "uxMutexesHeld (tcbs k t) \<noteq> 0" and cur: "pxCurrentTCB k \<noteq> Some t"
    and p: "p \<le> prio k t"
  shows "ensures (vTaskPriorityDisinheritAfterTimeout (Some t) p k) (\<lambda>k'. sys_inv k' \<and>
     others_unchanged t k k' \<and>
     tcbs k' t = (tcbs k t)\<lparr>uxPriority := after_timeout (tcbs k t) p\<rparr>)"
    (is "ensures _ ?Q")
proof -
  have core: "kernel_core k" using s by (rule sys_invD)
  note tok = kernel_core_task [OF core, of t]
  let ?q = "max (uxBasePriority (tcbs k t)) p"
  have q: "(if uxBasePriority (tcbs k t) < p then p else uxBasePriority (tcbs k t)) = ?q" by simp
  show ?thesis
  proof (cases "prio k t \<noteq> ?q \<and> uxMutexesHeld (tcbs k t) = 1")
    case False
    then have "after_timeout (tcbs k t) p = prio k t" by (auto simp: after_timeout_def)
    then have "?Q k" using s by simp
    then show ?thesis
      unfolding vTaskPriorityDisinheritAfterTimeout_def option.case Let_def q if_not_P [OF False]
      using held by simp
  next
    case True
    define b where "b = (tcbs k t)\<lparr>uxPriority := ?q\<rparr>"
    define k1 where "k1 = k\<lparr>tcbs := (tcbs k)(t := b), lists := event_valued (priority_value ?q) t k\<rparr>"
    have bok: "uxBasePriority b \<le> uxPriority b" "uxPriority b < configMAX_PRIORITIES"
      using p task_okD(3,4) [OF tok] by (auto simp: b_def)
    let ?k0 = "upd_tcb t (\<lambda>b. b\<lparr>uxPriority := ?q\<rparr>) k"
    have k1: "(if item_value (lists ?k0) (EventI t) AND taskEVENT_LIST_ITEM_VALUE_IN_USE = 0
      then k_set_value (EventI t) (priority_value ?q) ?k0 else ?k0) = k1"
      by (simp add: event_valued_def k1_def b_def)
    have unf: "vTaskPriorityDisinheritAfterTimeout (Some t) p k = do {
         k \<leftarrow> (if state_list k1 t = Some (ReadyL (prio k t))
             then do { k \<leftarrow> k_list_remove (StateI t) k1; Some (prvAddTaskToReadyList t k) }
             else Some k1);
         Some k }"
      unfolding vTaskPriorityDisinheritAfterTimeout_def option.case Let_def q if_P [OF True] k1
      using held cur by simp
    show ?thesis
      unfolding unf
    proof (rule reprio_of [OF core bok(2) k1_def event_valued_inv [OF core] event_valued])
      fix k' assume r: "reprio t b k k'" and li: "lists_inv (lists k')"
      note rf = reprio_frame [OF r] and rl = reprio_lists(1-5) [OF r]
      have inv': "kernel_inv k'"
        by (rule reprio_inv [OF sys_invD(1) [OF s] r li bok]) (use tok in \<open>simp_all add: b_def task_ok_def\<close>)
      have "prio k' x \<le> prio k' c"
        if "pxCurrentTCB k = Some c" "ready k' x" and yp: "\<not> xYieldPending k'" for x c
      proof -
        have "ready k x" using that ready_reprio [OF core r] by simp
        then have "prio k x \<le> prio k c" using sys_invD(6) [OF s] yp that by (simp add: settled_def rf)
        moreover have "prio k' x \<le> prio k x" using p task_okD(3) [OF tok] rl(5) by (simp add: b_def)
        moreover have "c \<noteq> t" using cur that by auto
        ultimately show ?thesis using rl(5) by (simp add: b_def)
      qed
      then have "settled k'" by (simp add: settled_def rf)
      then have "sys_inv k'" using inv' reprio_parts [OF s r] by (simp add: sys_inv_def)
      then show "ensures (Some k') ?Q"
        using reprio_others [OF core r] rl(5) True by (simp add: b_def after_timeout_def)
    qed
  qed
qed

text \<open>Taking a mutex counts it; the running task is its holder.\<close>

lemma pvTaskIncrementMutexHeldCount_sys_inv:
  assumes s: "sys_inv k" and cur: "pxCurrentTCB k = Some c"
  shows "sys_inv (fst (pvTaskIncrementMutexHeldCount k))" "snd (pvTaskIncrementMutexHeldCount k) = Some c"
    "tcbs (fst (pvTaskIncrementMutexHeldCount k)) c = (tcbs k c)\<lparr>uxMutexesHeld := uxMutexesHeld (tcbs k c) + 1\<rparr>"
  using upd_tcb_sys_inv [OF s, of c "\<lambda>b. b\<lparr>uxMutexesHeld := uxMutexesHeld b + 1\<rparr>"] cur
  by (simp_all add: pvTaskIncrementMutexHeldCount_def same_shape_def)

text \<open>
  A wait that inherits and then times out leaves the holder with the priority it had, if it
  holds this mutex only and no other task waits for it: the two changes cancel.
\<close>

lemma inherit_timeout_cancel:
  assumes "inherited t p k k'" and "uxMutexesHeld (tcbs k t) = 1" and "prio k t = uxBasePriority (tcbs k t)"
  shows "after_timeout (tcbs k' t) 0 = prio k t"
  using assms by (simp add: after_timeout_def inherited_def)

end
