(* ===== verification/Task_Notify.thy ===== *)
theory Task_Notify
  imports Task_Mutex
begin

text \<open>
  Direct-to-task notifications: per task an array of 32-bit values and states, which other
  tasks and interrupts set and for which a task can wait. A waiting call is split where the
  code leaves its critical section: \<open>enter\<close> announces the wait with the scheduler locked,
  \<open>sleep\<close> blocks and unlocks, \<open>leave\<close> is what the task does once it runs again. An interrupt
  may come between the first two.
\<close>

section \<open>Operations\<close>

datatype eNotifyAction = eNoAction | eSetBits | eIncrement | eSetValueWithOverwrite
  | eSetValueWithoutOverwrite

text \<open>The \<open>switch\<close> both notifying calls share: the new value, and whether the call succeeds.\<close>

fun notify_action :: "eNotifyAction \<Rightarrow> notify_state \<Rightarrow> u32 \<Rightarrow> u32 \<Rightarrow> u32 \<times> bool" where
  "notify_action eSetBits original v old = (old OR v, True)"
| "notify_action eIncrement original v old = (old + 1, True)"
| "notify_action eSetValueWithOverwrite original v old = (v, True)"
| "notify_action eSetValueWithoutOverwrite original v old =
     (if original \<noteq> taskNOTIFICATION_RECEIVED then (v, True) else (old, False))"
| "notify_action eNoAction original v old = (old, True)"

definition set_notified :: "nat \<Rightarrow> u32 \<Rightarrow> tcb \<Rightarrow> tcb" where
  "set_notified i v b = b\<lparr>ulNotifiedValue := (ulNotifiedValue b)[i := v]\<rparr>"

definition set_notify_state :: "nat \<Rightarrow> notify_state \<Rightarrow> tcb \<Rightarrow> tcb" where
  "set_notify_state i s b = b\<lparr>ucNotifyState := (ucNotifyState b)[i := s]\<rparr>"

text \<open>The result: the state, \<open>xReturn\<close>, and what \<open>pulPreviousNotificationValue\<close> receives.\<close>

definition xTaskGenericNotify :: "task \<Rightarrow> nat \<Rightarrow> u32 \<Rightarrow> eNotifyAction \<Rightarrow> kernel \<Rightarrow> (kernel \<times> bool \<times> u32) option" where
  "xTaskGenericNotify t i ulValue eAction k = do {
     configASSERT (i < configTASK_NOTIFICATION_ARRAY_ENTRIES);
     let ulPrevious = ulNotifiedValue (tcbs k t) ! i;
     let ucOriginalNotifyState = ucNotifyState (tcbs k t) ! i;
     let k = upd_tcb t (set_notify_state i taskNOTIFICATION_RECEIVED) k;
     let (v, xReturn) = notify_action eAction ucOriginalNotifyState ulValue (ulNotifiedValue (tcbs k t) ! i);
     let k = upd_tcb t (set_notified i v) k;
     k \<leftarrow> (if ucOriginalNotifyState = taskWAITING_NOTIFICATION
           then do {
             k \<leftarrow> k_list_remove (StateI t) k;
             let k = prvAddTaskToReadyList t k;
             configASSERT (event_list k t = None);
             let k = prvResetNextTaskUnblockTime k;
             taskYIELD_ANY_CORE_IF_USING_PREEMPTION t k }
           else Some k);
     Some (k, xReturn, ulPrevious) }"

text \<open>The last component is whether a task that outranks the running one was woken.\<close>

definition notify_wake_from_isr :: "task \<Rightarrow> notify_state \<Rightarrow> kernel \<Rightarrow> (kernel \<times> bool) option" where
  "notify_wake_from_isr t ucOriginalNotifyState k =
     (if ucOriginalNotifyState = taskWAITING_NOTIFICATION
      then do {
        configASSERT (event_list k t = None);
        k \<leftarrow> (if uxSchedulerSuspended k = 0
              then do { k \<leftarrow> k_list_remove (StateI t) k; Some (prvAddTaskToReadyList t k) }
              else Some (k_list_insert_end PendingReadyL (EventI t) k));
        c \<leftarrow> pxCurrentTCB k;
        if prio k t > prio k c then Some (k\<lparr>xYieldPending := True\<rparr>, True) else Some (k, False) }
      else Some (k, False))"

definition xTaskGenericNotifyFromISR ::
  "task \<Rightarrow> nat \<Rightarrow> u32 \<Rightarrow> eNotifyAction \<Rightarrow> kernel \<Rightarrow> (kernel \<times> bool \<times> u32 \<times> bool) option" where
  "xTaskGenericNotifyFromISR t i ulValue eAction k = do {
     configASSERT (i < configTASK_NOTIFICATION_ARRAY_ENTRIES);
     let ulPrevious = ulNotifiedValue (tcbs k t) ! i;
     let ucOriginalNotifyState = ucNotifyState (tcbs k t) ! i;
     let k = upd_tcb t (set_notify_state i taskNOTIFICATION_RECEIVED) k;
     let (v, xReturn) = notify_action eAction ucOriginalNotifyState ulValue (ulNotifiedValue (tcbs k t) ! i);
     let k = upd_tcb t (set_notified i v) k;
     (k, woken) \<leftarrow> notify_wake_from_isr t ucOriginalNotifyState k;
     Some (k, xReturn, ulPrevious, woken) }"

definition vTaskGenericNotifyGiveFromISR :: "task \<Rightarrow> nat \<Rightarrow> kernel \<Rightarrow> (kernel \<times> bool) option" where
  "vTaskGenericNotifyGiveFromISR t i k = do {
     configASSERT (i < configTASK_NOTIFICATION_ARRAY_ENTRIES);
     let ucOriginalNotifyState = ucNotifyState (tcbs k t) ! i;
     let k = upd_tcb t (set_notify_state i taskNOTIFICATION_RECEIVED) k;
     let k = upd_tcb t (set_notified i (ulNotifiedValue (tcbs k t) ! i + 1)) k;
     notify_wake_from_isr t ucOriginalNotifyState k }"

text \<open>Waiting: \<open>True\<close> if the caller should block.\<close>

definition ulTaskGenericNotifyTake_enter :: "nat \<Rightarrow> tick \<Rightarrow> kernel \<Rightarrow> (kernel \<times> bool) option" where
  "ulTaskGenericNotifyTake_enter i xTicksToWait k = do {
     configASSERT (i < configTASK_NOTIFICATION_ARRAY_ENTRIES);
     let k = vTaskSuspendAll k;
     c \<leftarrow> pxCurrentTCB k;
     if ulNotifiedValue (tcbs k c) ! i = 0
     then Some (upd_tcb c (set_notify_state i taskWAITING_NOTIFICATION) k, xTicksToWait > 0)
     else Some (k, False) }"

definition xTaskGenericNotifyWait_enter :: "nat \<Rightarrow> u32 \<Rightarrow> tick \<Rightarrow> kernel \<Rightarrow> (kernel \<times> bool) option" where
  "xTaskGenericNotifyWait_enter i ulBitsToClearOnEntry xTicksToWait k = do {
     configASSERT (i < configTASK_NOTIFICATION_ARRAY_ENTRIES);
     let k = vTaskSuspendAll k;
     c \<leftarrow> pxCurrentTCB k;
     if ucNotifyState (tcbs k c) ! i \<noteq> taskNOTIFICATION_RECEIVED
     then do {
       let k = upd_tcb c (\<lambda>b. set_notified i (ulNotifiedValue b ! i AND NOT ulBitsToClearOnEntry) b) k;
       let k = upd_tcb c (set_notify_state i taskWAITING_NOTIFICATION) k;
       Some (k, xTicksToWait > 0) }
     else Some (k, False) }"

definition notify_sleep :: "bool \<Rightarrow> tick \<Rightarrow> kernel \<Rightarrow> kernel option" where
  "notify_sleep xShouldBlock xTicksToWait k = do {
     k \<leftarrow> (if xShouldBlock then prvAddCurrentTaskToDelayedList xTicksToWait True k else Some k);
     (k, xAlreadyYielded) \<leftarrow> xTaskResumeAll k;
     if xShouldBlock \<and> \<not> xAlreadyYielded then portYIELD k else Some k }"

definition ulTaskGenericNotifyTake_leave :: "nat \<Rightarrow> bool \<Rightarrow> kernel \<Rightarrow> (kernel \<times> u32) option" where
  "ulTaskGenericNotifyTake_leave i xClearCountOnExit k = do {
     c \<leftarrow> pxCurrentTCB k;
     let ulReturn = ulNotifiedValue (tcbs k c) ! i;
     let k = (if ulReturn \<noteq> 0
              then upd_tcb c (set_notified i (if xClearCountOnExit then 0 else ulReturn - 1)) k
              else k);
     Some (upd_tcb c (set_notify_state i taskNOT_WAITING_NOTIFICATION) k, ulReturn) }"

text \<open>The result: the state, \<open>xReturn\<close>, and what \<open>pulNotificationValue\<close> receives.\<close>

definition xTaskGenericNotifyWait_leave :: "nat \<Rightarrow> u32 \<Rightarrow> kernel \<Rightarrow> (kernel \<times> bool \<times> u32) option" where
  "xTaskGenericNotifyWait_leave i ulBitsToClearOnExit k = do {
     c \<leftarrow> pxCurrentTCB k;
     let v = ulNotifiedValue (tcbs k c) ! i;
     let (k, xReturn) = (if ucNotifyState (tcbs k c) ! i \<noteq> taskNOTIFICATION_RECEIVED then (k, False)
       else (upd_tcb c (set_notified i (v AND NOT ulBitsToClearOnExit)) k, True));
     Some (upd_tcb c (set_notify_state i taskNOT_WAITING_NOTIFICATION) k, xReturn, v) }"

definition xTaskGenericNotifyStateClear :: "task option \<Rightarrow> nat \<Rightarrow> kernel \<Rightarrow> (kernel \<times> bool) option" where
  "xTaskGenericNotifyStateClear xTask i k = do {
     configASSERT (i < configTASK_NOTIFICATION_ARRAY_ENTRIES);
     t \<leftarrow> prvGetTCBFromHandle xTask k;
     Some (if ucNotifyState (tcbs k t) ! i = taskNOTIFICATION_RECEIVED
           then (upd_tcb t (set_notify_state i taskNOT_WAITING_NOTIFICATION) k, True) else (k, False)) }"

definition ulTaskGenericNotifyValueClear :: "task option \<Rightarrow> nat \<Rightarrow> u32 \<Rightarrow> kernel \<Rightarrow> (kernel \<times> u32) option" where
  "ulTaskGenericNotifyValueClear xTask i ulBitsToClear k = do {
     configASSERT (i < configTASK_NOTIFICATION_ARRAY_ENTRIES);
     t \<leftarrow> prvGetTCBFromHandle xTask k;
     let ulReturn = ulNotifiedValue (tcbs k t) ! i;
     Some (upd_tcb t (set_notified i (ulReturn AND NOT ulBitsToClear)) k, ulReturn) }"

section \<open>Bookkeeping\<close>

lemma notify_fields [simp]:
  "ulNotifiedValue (set_notified i v b) = (ulNotifiedValue b)[i := v]"
  "ulNotifiedValue (set_notify_state i s b) = ulNotifiedValue b"
  "ucNotifyState (set_notified i v b) = ucNotifyState b"
  "ucNotifyState (set_notify_state i s b) = (ucNotifyState b)[i := s]"
  "uxPriority (set_notified i v b) = uxPriority b" "uxPriority (set_notify_state i s b) = uxPriority b"
  "uxBasePriority (set_notified i v b) = uxBasePriority b"
  "uxBasePriority (set_notify_state i s b) = uxBasePriority b"
  by (simp_all add: set_notified_def set_notify_state_def)

lemma notify_shape [simp]:
  "same_shape b (set_notified i v b)" "same_shape b (set_notify_state i s b)"
  by (simp_all add: same_shape_def)

text \<open>Values and states live at every index below the configured number.\<close>

lemma notify_lengths:
  assumes "sys_inv k"
  shows "length (ulNotifiedValue (tcbs k t)) = configTASK_NOTIFICATION_ARRAY_ENTRIES"
    "length (ucNotifyState (tcbs k t)) = configTASK_NOTIFICATION_ARRAY_ENTRIES"
  using kernel_core_task [OF sys_invD(2) [OF assms], of t] by (simp_all add: task_ok_def)

text \<open>What a notification makes of the receiver's control block.\<close>

definition notified_tcb :: "nat \<Rightarrow> u32 \<Rightarrow> eNotifyAction \<Rightarrow> tcb \<Rightarrow> tcb" where
  "notified_tcb i v a b = set_notified i (fst (notify_action a (ucNotifyState b ! i) v (ulNotifiedValue b ! i)))
     (set_notify_state i taskNOTIFICATION_RECEIVED b)"

lemma notified_prio [simp]:
  "uxPriority (notified_tcb i v a b) = uxPriority b" "uxBasePriority (notified_tcb i v a b) = uxBasePriority b"
  by (simp_all add: notified_tcb_def)

abbreviation waits_at :: "nat \<Rightarrow> task \<Rightarrow> kernel \<Rightarrow> bool" where
  "waits_at i t k \<equiv> ucNotifyState (tcbs k t) ! i = taskWAITING_NOTIFICATION"

lemma notified_sys_inv:
  assumes s: "sys_inv k" shows "sys_inv (upd_tcb t (notified_tcb i v a) k)"
  by (rule upd_tcb_sys_inv [OF s]) (simp add: notified_tcb_def same_shape_def)

section \<open>Notifying\<close>

text \<open>
  A waiting receiver becomes ready and preempts if it outranks the caller; the value and the
  result are those of the action; no other task's control block changes.
\<close>

lemma wake_notified:
  assumes s: "sys_inv k" and ev: "event_list k t = None"
    and live: "state_list k t \<noteq> None" "state_list k t \<noteq> Some TerminationL"
  shows "ensures (do {
      k \<leftarrow> k_list_remove (StateI t) k;
      let k = prvAddTaskToReadyList t k;
      configASSERT (event_list k t = None);
      let k = prvResetNextTaskUnblockTime k;
      taskYIELD_ANY_CORE_IF_USING_PREEMPTION t k })
    (\<lambda>k'. sys_inv k' \<and> ready k' t \<and> tcbs k' = tcbs k \<and> (\<forall>x. x \<noteq> t \<longrightarrow> state_list k' x = state_list k x))"
    (is "ensures _ ?Q")
proof (rule unblock_state_ensures [OF sys_invD(2) [OF s] live ev])
  fix k3 assume core: "kernel_core k3" and w: "woken {t} k k3"
  note p = woken_parts [OF s core w] and wf = woken_frame [OF w] and wl = woken_lists [OF w]
  let ?k4 = "prvResetNextTaskUnblockTime k3"
  have res: "ready k3 t" "\<forall>x. x \<noteq> t \<longrightarrow> state_list k3 x = state_list k x"
    using ready_woken [OF w] wl(1) by simp_all
  have p4: "kernel_inv ?k4" "idle_ready ?k4" "current_ready ?k4" "caught_up ?k4" "xSchedulerRunning ?k4"
    using reset_next_inv [OF p(1)] p(2-5)
    by (simp_all add: idle_ready_def current_ready_def caught_up_def ready_def)
  from p(3) obtain c where c: "pxCurrentTCB k3 = Some c" by (rule current_readyE)
  have "ensures (taskYIELD_ANY_CORE_IF_USING_PREEMPTION t ?k4) sys_inv"
  proof (cases "prio k3 c < prio k3 t")
    case True
    then show ?thesis
      using yield_sys_inv [OF p4(1,5,2,4,3)] by (simp add: taskYIELD_ANY_CORE_IF_USING_PREEMPTION_def c)
  next
    case False
    then have "settled k3" using c wf(1,2) by (intro woken_settled [OF s w]) simp
    then have "settled ?k4" by (simp add: settled_def ready_def)
    then show ?thesis using False p4 by (simp add: taskYIELD_ANY_CORE_IF_USING_PREEMPTION_def c sys_inv_def)
  qed
  note sw = switch_state_list [OF this]
  have "ensures (taskYIELD_ANY_CORE_IF_USING_PREEMPTION t ?k4) ?Q"
    by (rule ensures_mono [OF sw]) (use res wf(1) in \<open>simp add: ready_def\<close>)
  then show "ensures (do { configASSERT (event_list k3 t = None);
      let k = prvResetNextTaskUnblockTime k3; taskYIELD_ANY_CORE_IF_USING_PREEMPTION t k }) ?Q"
    using wl(2) by (simp add: Let_def)
qed

lemma xTaskGenericNotify_ensures:
  assumes s: "sys_inv k" and i: "i < configTASK_NOTIFICATION_ARRAY_ENTRIES"
    and w: "waits_at i t k \<Longrightarrow> event_list k t = None \<and> state_list k t \<noteq> None \<and> state_list k t \<noteq> Some TerminationL"
  shows "ensures (xTaskGenericNotify t i v a k) (\<lambda>(k', ok, old). sys_inv k' \<and>
     (waits_at i t k \<longrightarrow> ready k' t) \<and> tcbs k' = (tcbs k)(t := notified_tcb i v a (tcbs k t)) \<and>
     ok = snd (notify_action a (ucNotifyState (tcbs k t) ! i) v old) \<and> old = ulNotifiedValue (tcbs k t) ! i \<and>
     (\<forall>x. x \<noteq> t \<or> \<not> waits_at i t k \<longrightarrow> state_list k' x = state_list k x))"
    (is "ensures _ ?Q")
proof -
  let ?k = "upd_tcb t (notified_tcb i v a) k"
  obtain n ok where na: "notify_action a (ucNotifyState (tcbs k t) ! i) v (ulNotifiedValue (tcbs k t) ! i) = (n, ok)"
    by (cases "notify_action a (ucNotifyState (tcbs k t) ! i) v (ulNotifiedValue (tcbs k t) ! i)")
  have upd: "upd_tcb t (set_notified i n) (upd_tcb t (set_notify_state i taskNOTIFICATION_RECEIVED) k) = ?k"
    using na by (simp add: notified_tcb_def)
  have unf: "xTaskGenericNotify t i v a k = do {
     k' \<leftarrow> (if waits_at i t k
           then do {
             k \<leftarrow> k_list_remove (StateI t) ?k;
             let k = prvAddTaskToReadyList t k;
             configASSERT (event_list k t = None);
             let k = prvResetNextTaskUnblockTime k;
             taskYIELD_ANY_CORE_IF_USING_PREEMPTION t k }
           else Some ?k);
     Some (k', ok, ulNotifiedValue (tcbs k t) ! i) }"
  proof -
    have "ulNotifiedValue (tcbs (upd_tcb t (set_notify_state i taskNOTIFICATION_RECEIVED) k) t) ! i
      = ulNotifiedValue (tcbs k t) ! i" by simp
    then show ?thesis
      unfolding xTaskGenericNotify_def Let_def using i
      by (simp only: na upd prod.case configASSERT_True Option.bind.bind_lunit)
  qed
  note s' = notified_sys_inv [OF s]
  show ?thesis
  proof (cases "waits_at i t k")
    case False
    then show ?thesis unfolding unf using s' na by simp
  next
    case True
    note w' = w [OF True]
    have "ensures (do {
             k \<leftarrow> k_list_remove (StateI t) ?k;
             let k = prvAddTaskToReadyList t k;
             configASSERT (event_list k t = None);
             let k = prvResetNextTaskUnblockTime k;
             taskYIELD_ANY_CORE_IF_USING_PREEMPTION t k })
      (\<lambda>k'. sys_inv k' \<and> ready k' t \<and> tcbs k' = tcbs ?k \<and> (\<forall>x. x \<noteq> t \<longrightarrow> state_list k' x = state_list ?k x))"
      by (rule wake_notified [OF s']) (use w' in simp_all)
    then show ?thesis
      unfolding unf if_P [OF True] ensures_bind using True na
      by (elim ensures_mono) simp
  qed
qed

text \<open>From an interrupt the receiver's wake-up waits for the scheduler, if that is locked.\<close>

lemma notify_wake_from_isr_ensures:
  assumes s: "sys_inv k" and cur: "pxCurrentTCB k = Some c" and w: "st = taskWAITING_NOTIFICATION"
    and ev: "event_list k t = None"
    and live: "state_list k t \<noteq> None" "state_list k t \<noteq> Some TerminationL"
  shows "ensures (notify_wake_from_isr t st k) (\<lambda>(k', y). sys_inv k' \<and> y = (prio k c < prio k t) \<and>
    tcbs k' = tcbs k \<and> (y \<longrightarrow> xYieldPending k') \<and> pxCurrentTCB k' = pxCurrentTCB k \<and>
    uxSchedulerSuspended k' = uxSchedulerSuspended k \<and> xIdleTaskHandle k' = xIdleTaskHandle k \<and>
    (if uxSchedulerSuspended k = 0 then ready k' t
     else event_list k' t = Some PendingReadyL \<and> state_list k' t = state_list k t) \<and>
    (\<forall>x. x \<noteq> t \<longrightarrow> state_list k' x = state_list k x \<and> event_list k' x = event_list k x))"
    (is "ensures _ ?Q")
proof -
  let ?y = "prio k c < prio k t"
  let ?f = "\<lambda>k'. do { c \<leftarrow> pxCurrentTCB k';
        if prio k' t > prio k' c then Some (k'\<lparr>xYieldPending := True\<rparr>, True) else Some (k', False) }"
  have fin: "ensures (?f k') ?Q"
    if inv: "kernel_inv k'" "idle_ready k'" "current_ready k'" "caught_up k'" "xSchedulerRunning k'"
      and set: "\<not> ?y \<Longrightarrow> settled k'" and same: "tcbs k' = tcbs k" "pxCurrentTCB k' = pxCurrentTCB k"
      "uxSchedulerSuspended k' = uxSchedulerSuspended k" "xIdleTaskHandle k' = xIdleTaskHandle k"
      and sl: "if uxSchedulerSuspended k = 0 then ready k' t
         else event_list k' t = Some PendingReadyL \<and> state_list k' t = state_list k t"
      "\<forall>x. x \<noteq> t \<longrightarrow> state_list k' x = state_list k x \<and> event_list k' x = event_list k x" for k'
  proof (cases ?y)
    case True
    have "sys_inv (k'\<lparr>xYieldPending := True\<rparr>)"
      using inv by (simp add: sys_inv_def settled_def idle_ready_def current_ready_def caught_up_def ready_def)
    then show ?thesis using True same sl cur by (auto simp: ready_def)
  next
    case False
    then have "sys_inv k'" using inv set by (simp add: sys_inv_def)
    then show ?thesis using False same sl cur by (auto simp: ready_def)
  qed
  show ?thesis
  proof (cases "uxSchedulerSuspended k = 0")
    case False
    let ?k = "k_list_insert_end PendingReadyL (EventI t) k"
    have s1: "sys_inv ?k" by (rule to_pending_sys_inv [OF s ev live False])
    have "ensures (?f ?k) ?Q"
      by (rule fin) (use s1 False in \<open>simp_all add: sys_invD list_frame\<close>)
    then show ?thesis
      using w ev False by (simp add: notify_wake_from_isr_def)
  next
    case True
    have "ensures (do { k1 \<leftarrow> k_list_remove (StateI t) k; let k3 = prvAddTaskToReadyList t k1; ?f k3 }) ?Q"
    proof (rule unblock_state_ensures [OF sys_invD(2) [OF s] live ev])
      fix k3 assume core: "kernel_core k3" and wk: "woken {t} k k3"
      note wf = woken_frame [OF wk] and wl = woken_lists [OF wk]
      show "ensures (?f k3) ?Q"
      proof (rule fin [OF woken_parts [OF s core wk]])
        show "settled k3" if "\<not> ?y" using that cur by (intro woken_settled [OF s wk]) simp
      qed (use True ready_woken [OF wk] wf wl ev in simp_all)
    qed
    then show ?thesis
      using w ev True unfolding notify_wake_from_isr_def if_P [OF w] if_P [OF True]
      by (simp add: Let_def)
  qed
qed

lemma xTaskGenericNotifyFromISR_ensures:
  assumes s: "sys_inv k" and cur: "pxCurrentTCB k = Some c" and i: "i < configTASK_NOTIFICATION_ARRAY_ENTRIES"
    and w: "waits_at i t k \<Longrightarrow> event_list k t = None \<and> state_list k t \<noteq> None \<and> state_list k t \<noteq> Some TerminationL"
  shows "ensures (xTaskGenericNotifyFromISR t i v a k) (\<lambda>(k', ok, old, y). sys_inv k' \<and>
     tcbs k' = (tcbs k)(t := notified_tcb i v a (tcbs k t)) \<and> old = ulNotifiedValue (tcbs k t) ! i \<and>
     ok = snd (notify_action a (ucNotifyState (tcbs k t) ! i) v old) \<and>
     y = (waits_at i t k \<and> prio k c < prio k t) \<and> (y \<longrightarrow> xYieldPending k') \<and>
     pxCurrentTCB k' = pxCurrentTCB k \<and> xIdleTaskHandle k' = xIdleTaskHandle k \<and>
     uxSchedulerSuspended k' = uxSchedulerSuspended k \<and>
     (waits_at i t k \<longrightarrow> (if uxSchedulerSuspended k = 0 then ready k' t
        else event_list k' t = Some PendingReadyL \<and> state_list k' t = state_list k t)) \<and>
     (\<forall>x. x \<noteq> t \<or> \<not> waits_at i t k \<longrightarrow> state_list k' x = state_list k x \<and> event_list k' x = event_list k x))"
    (is "ensures _ ?Q")
proof -
  let ?k = "upd_tcb t (notified_tcb i v a) k"
  obtain n ok where na: "notify_action a (ucNotifyState (tcbs k t) ! i) v (ulNotifiedValue (tcbs k t) ! i) = (n, ok)"
    by (cases "notify_action a (ucNotifyState (tcbs k t) ! i) v (ulNotifiedValue (tcbs k t) ! i)")
  have upd: "upd_tcb t (set_notified i n) (upd_tcb t (set_notify_state i taskNOTIFICATION_RECEIVED) k) = ?k"
    using na by (simp add: notified_tcb_def)
  have "ulNotifiedValue (tcbs (upd_tcb t (set_notify_state i taskNOTIFICATION_RECEIVED) k) t) ! i
      = ulNotifiedValue (tcbs k t) ! i" by simp
  then have unf: "xTaskGenericNotifyFromISR t i v a k = do {
     (k', y) \<leftarrow> notify_wake_from_isr t (ucNotifyState (tcbs k t) ! i) ?k;
     Some (k', ok, ulNotifiedValue (tcbs k t) ! i, y) }"
    unfolding xTaskGenericNotifyFromISR_def Let_def using i
    by (simp only: na upd prod.case configASSERT_True Option.bind.bind_lunit)
  note s' = notified_sys_inv [OF s]
  show ?thesis
  proof (cases "waits_at i t k")
    case False
    then show ?thesis unfolding unf using s' na by (simp add: notify_wake_from_isr_def)
  next
    case True
    note n = notify_wake_from_isr_ensures [OF s' _ True, where c = c and t = t]
    show ?thesis
      unfolding unf ensures_bind
      by (rule ensures_mono [OF n]) (use w [OF True] cur True na in \<open>auto simp: ready_def split: if_splits\<close>)
  qed
qed

text \<open>Giving from an interrupt is notifying with an increment.\<close>

lemma give_is_increment:
  "vTaskGenericNotifyGiveFromISR t i k
     = map_option (\<lambda>(k', _, _, y). (k', y)) (xTaskGenericNotifyFromISR t i v eIncrement k)"
  by (cases "i < configTASK_NOTIFICATION_ARRAY_ENTRIES")
    (simp_all add: vTaskGenericNotifyGiveFromISR_def xTaskGenericNotifyFromISR_def Let_def
      map_option_bind comp_def split_def map_conv_bind_option)

section \<open>Waiting\<close>

text \<open>
  Going to sleep with the scheduler locked once. If the task's wake-up is already pending it
  is ready again at the end; otherwise, unless ticks were pended, it is off the ready lists
  until the notification or its time-out.
\<close>

lemma notify_sleep_ensures:
  assumes s: "sys_inv k" and susp: "uxSchedulerSuspended k = 1" and cur: "pxCurrentTCB k = Some c"
    and ni: "xIdleTaskHandle k \<noteq> Some c" and w: "w \<noteq> 0"
  shows "ensures (notify_sleep True w k) (\<lambda>k'. sys_inv k' \<and>
    (event_list k c = Some PendingReadyL \<longrightarrow> ready k' c) \<and>
    (event_list k c = None \<and> xPendedTicks k = 0 \<longrightarrow> state_list k' c = Some (wait_list k w True) \<and> event_list k' c = None) \<and>
    uxSchedulerSuspended k' = 0 \<and> tcbs k' = (tcbs k)(c := (tcbs k c)\<lparr>ucDelayAborted := False\<rparr>))"
  unfolding notify_sleep_def if_True ensures_bind [of "prvAddCurrentTaskToDelayedList _ _ _"]
proof -
  have rd: "ready k c" using sys_invD(5) [OF s] cur by (auto simp: current_ready_def)
  show "ensures (prvAddCurrentTaskToDelayedList w True k) (\<lambda>x. ensures (do { (k, y) \<leftarrow> xTaskResumeAll x;
      if True \<and> \<not> y then portYIELD k else Some k }) (\<lambda>k'. sys_inv k' \<and>
    (event_list k c = Some PendingReadyL \<longrightarrow> ready k' c) \<and>
    (event_list k c = None \<and> xPendedTicks k = 0 \<longrightarrow> state_list k' c = Some (wait_list k w True) \<and> event_list k' c = None) \<and>
    uxSchedulerSuspended k' = 0 \<and> tcbs k' = (tcbs k)(c := (tcbs k c)\<lparr>ucDelayAborted := False\<rparr>)))"
    (is "ensures _ (\<lambda>x. ensures (?f x) ?Q)")
  proof (rule block_in_place [OF sys_invD(1) [OF s] cur rd w])
    show "event_list k c = None \<or> uxSchedulerSuspended k \<noteq> 0" using susp by simp
    fix k1 assume inv1: "kernel_inv k1" and b: "blocked c w True (event_list k c) k k1"
    note bl = blocked_lists [OF b] and bf = blocked_frame [OF b]
    have idle: "idle_ready k1"
      using sys_invD(4) [OF s] ready_blocked [OF b] ni by (auto simp: idle_ready_def bf)
    have f: "?f k1 = do { (k, y) \<leftarrow> xTaskResumeAll k1; if y then Some k else portYIELD k }"
      by (intro arg_cong [where f = "Option.bind _"] ext) (simp split: prod.split)
    show "ensures (?f k1) ?Q"
      unfolding f
    proof (rule ensures_mono [OF resume_all_sys_inv [OF inv1 _ _ idle]])
      show "pxCurrentTCB k1 = Some c" "uxSchedulerSuspended k1 = 1" "xSchedulerRunning k1"
        using cur susp bf sys_invD(3) [OF s] by simp_all
      fix k' assume k': "sys_inv k' \<and> (\<exists>k2 t. resumed k1 k2 \<and> chosen k2 t \<and> switched t k2 k')"
      then obtain k2 t where k2: "resumed k1 k2" "switched t k2 k'" by blast
      then have tk: "ticked (resume_set k1) k1 k2" by (simp add: resumed_def)
      have pt: "pending_tasks k1 = pending_tasks k" by (auto simp: pending_tasks_def bl)
      have "ready k' c" if "event_list k c = Some PendingReadyL"
      proof -
        have "c \<in> resume_set k1" using that pt by (simp add: resume_set_def pending_tasks_def)
        then show ?thesis using ready_ticked [OF tk] ready_switched [OF k2(2)] by simp
      qed
      moreover have "state_list k' c = Some (wait_list k w True) \<and> event_list k' c = None"
        if "event_list k c = None \<and> xPendedTicks k = 0"
      proof -
        have "c \<notin> resume_set k1"
          using that pt waking_by_0 [of k1] inv1 bl(2) by (simp add: resume_set_def pending_tasks_def bf)
        then show ?thesis
          using that ticked_lists(1,2) [OF tk, of c] bl(1,2) switched_same(1,2) [OF k2(2)] by simp
      qed
      moreover have "uxSchedulerSuspended k' = 0" "tcbs k' = (tcbs k)(c := (tcbs k c)\<lparr>ucDelayAborted := False\<rparr>)"
        using k2(1) switched_same [OF k2(2)] ticked_frame(1) [OF tk] bl(4) by (simp_all add: resumed_def)
      ultimately show "?Q k'" using k' by blast
    qed
  qed
qed

text \<open>Announcing a wait, seen from the control block of the running task.\<close>

lemma ulTaskGenericNotifyTake_enter_ensures:
  assumes s: "sys_inv k" and run: "uxSchedulerSuspended k = 0" and cur: "pxCurrentTCB k = Some c"
    and i: "i < configTASK_NOTIFICATION_ARRAY_ENTRIES"
  shows "ensures (ulTaskGenericNotifyTake_enter i w k) (\<lambda>(k', block). sys_inv k' \<and>
     uxSchedulerSuspended k' = 1 \<and> lists k' = lists k \<and> pxCurrentTCB k' = Some c \<and>
     xIdleTaskHandle k' = xIdleTaskHandle k \<and> event_list k' c = None \<and> xPendedTicks k' = 0 \<and>
     xTickCount k' = xTickCount k \<and>
     (block \<longleftrightarrow> ulNotifiedValue (tcbs k c) ! i = 0 \<and> w > 0) \<and> (block \<longrightarrow> waits_at i c k') \<and>
     ulNotifiedValue (tcbs k' c) = ulNotifiedValue (tcbs k c))"
    (is "ensures _ ?Q")
proof -
  let ?k = "vTaskSuspendAll k"
  note sb = sys_blockable(2) [OF s run cur]
  have s1: "sys_inv ?k" by (rule sys_inv_lock [OF s])
  have s2: "sys_inv (upd_tcb c (set_notify_state i taskWAITING_NOTIFICATION) ?k)"
    by (rule upd_tcb_sys_inv [OF s1]) simp
  have f: "uxSchedulerSuspended ?k = 1" "pxCurrentTCB ?k = Some c" "tcbs ?k = tcbs k" "lists ?k = lists k"
    "xIdleTaskHandle ?k = xIdleTaskHandle k" "xTickCount ?k = xTickCount k" "event_list k c = None" "xPendedTicks ?k = 0"
    using run cur sb sys_invD(7) [OF s] by (simp_all add: vTaskSuspendAll_def blockable_def caught_up_def)
  show ?thesis
    using s1 s2 f i notify_lengths(2) [OF s]
    by (simp add: ulTaskGenericNotifyTake_enter_def Let_def)
qed

text \<open>A call that does not block only unlocks the scheduler.\<close>

lemma notify_sleep_awake:
  assumes s: "sys_inv k" and susp: "uxSchedulerSuspended k = 1" and cur: "pxCurrentTCB k = Some c"
  shows "ensures (notify_sleep False w k) (\<lambda>k'. sys_inv k' \<and> ready k' c \<and> uxSchedulerSuspended k' = 0 \<and> tcbs k' = tcbs k)"
proof -
  have rd: "ready k c" using sys_invD(5) [OF s] cur by (auto simp: current_ready_def)
  have "ensures (xTaskResumeAll k) (\<lambda>(k', y). sys_inv k' \<and> (\<forall>x. ready k x \<longrightarrow> ready k' x))"
    by (rule xTaskResumeAll_sys_inv [OF sys_invD(1,3-6) [OF s]]) (use susp in simp)
  from ensures_conj [OF this xTaskResumeAll_ensures [OF sys_invD(1) [OF s] cur susp rd]]
  have "ensures (xTaskResumeAll k) (\<lambda>(k', y). sys_inv k' \<and> ready k' c \<and> uxSchedulerSuspended k' = 0 \<and> tcbs k' = tcbs k)"
  proof (rule ensures_mono, goal_cases)
    case (1 r)
    obtain k' y where r: "r = (k', y)" by (cases r)
    from 1 obtain k1 where k1: "ticked (resume_set k) k k1" "uxSchedulerSuspended k1 = 0"
      and same: "k' = k1 \<or> (\<exists>t. switched t k1 k')"
      unfolding r after_switch_def by (cases y) auto
    have "uxSchedulerSuspended k' = uxSchedulerSuspended k1" "tcbs k' = tcbs k1"
      using same switched_same(4,6) by blast+
    then show ?case using 1 k1(2) ticked_frame(1) [OF k1(1)] rd by (simp add: r)
  qed
  then show ?thesis by (auto simp: notify_sleep_def case_prod_unfold elim!: ensures_mono)
qed

text \<open>
  Interrupts that give to a task, \<open>n\<close> of them in a row: the value goes up by \<open>n\<close>, and the first
  of them wakes the task if it waits.
\<close>

primrec give_times :: "nat \<Rightarrow> task \<Rightarrow> nat \<Rightarrow> kernel \<Rightarrow> kernel option" where
  "give_times 0 t i k = Some k"
| "give_times (Suc n) t i k = do { (k, _) \<leftarrow> vTaskGenericNotifyGiveFromISR t i k; give_times n t i k }"

definition gave :: "nat \<Rightarrow> task \<Rightarrow> nat \<Rightarrow> kernel \<Rightarrow> kernel \<Rightarrow> bool" where
  "gave n t i k k' \<longleftrightarrow> sys_inv k' \<and> pxCurrentTCB k' = pxCurrentTCB k \<and> xIdleTaskHandle k' = xIdleTaskHandle k \<and>
     uxSchedulerSuspended k' = uxSchedulerSuspended k \<and>
     ulNotifiedValue (tcbs k' t) ! i = ulNotifiedValue (tcbs k t) ! i + of_nat n \<and> (n = 0 \<longrightarrow> k' = k) \<and>
     (n \<noteq> 0 \<longrightarrow> \<not> waits_at i t k' \<and>
       (if waits_at i t k then if uxSchedulerSuspended k = 0 then ready k' t else event_list k' t = Some PendingReadyL
        else event_list k' t = event_list k t \<and> (ready k t \<longrightarrow> ready k' t)))"

lemma give_once_ensures:
  assumes s: "sys_inv k" and i: "i < configTASK_NOTIFICATION_ARRAY_ENTRIES"
    and w: "waits_at i t k \<Longrightarrow> event_list k t = None \<and> state_list k t \<noteq> None \<and> state_list k t \<noteq> Some TerminationL"
  shows "ensures (vTaskGenericNotifyGiveFromISR t i k) (\<lambda>(k', y). gave 1 t i k k')"
  unfolding give_is_increment [where v = 0] ensures_map
proof -
  from sys_invD(5) [OF s] obtain c where c: "pxCurrentTCB k = Some c" by (rule current_readyE)
  note len = notify_lengths [OF s, of t]
  show "ensures (xTaskGenericNotifyFromISR t i 0 eIncrement k) (\<lambda>x. case case x of (k', _, _, y) \<Rightarrow> (k', y) of (k', y) \<Rightarrow> gave 1 t i k k')"
  proof (rule ensures_mono [OF xTaskGenericNotifyFromISR_ensures [OF s c i w]], assumption, goal_cases)
    case (1 r)
    obtain k' ok old y where r: "r = (k', ok, old, y)" by (cases r)
    from 1 have t: "tcbs k' t = notified_tcb i 0 eIncrement (tcbs k t)" by (simp add: r)
    then have "ulNotifiedValue (tcbs k' t) ! i = ulNotifiedValue (tcbs k t) ! i + 1" "\<not> waits_at i t k'" "prio k' t = prio k t"
      using i len by (simp_all add: notified_tcb_def)
    then show ?case using 1 by (auto simp: r gave_def ready_def)
  qed
qed

lemma give_times_ensures:
  assumes "sys_inv k" and "i < configTASK_NOTIFICATION_ARRAY_ENTRIES"
    and "waits_at i t k \<Longrightarrow> event_list k t = None \<and> state_list k t \<noteq> None \<and> state_list k t \<noteq> Some TerminationL"
  shows "ensures (give_times n t i k) (gave n t i k)"
  using assms
proof (induction n arbitrary: k)
  case 0
  then show ?case by (simp add: gave_def)
next
  case (Suc n)
  show ?case
    unfolding give_times.simps ensures_bind
  proof (rule ensures_mono [OF give_once_ensures [OF Suc.prems]], assumption, goal_cases)
    case (1 r)
    obtain k1 y where r: "r = (k1, y)" by (cases r)
    from 1 have g: "gave 1 t i k k1" by (simp add: r)
    have "ensures (give_times n t i k1) (gave n t i k1)"
      by (rule Suc.IH) (use g Suc.prems(2) in \<open>simp_all add: gave_def\<close>)
    then show ?case
      unfolding r prod.case by (rule ensures_mono) (use g in \<open>auto simp: gave_def split: if_splits\<close>)
  qed
qed

lemma unlocked_free:
  assumes s: "sys_inv k" and run: "uxSchedulerSuspended k = 0" and r: "ready k t"
  shows "event_list k t = None \<and> state_list k t \<noteq> None \<and> state_list k t \<noteq> Some TerminationL"
proof -
  have "members k PendingReadyL = []"
    using kernel_invD(3) [OF sys_invD(1) [OF s]] run by (simp add: pending_ok_def)
  then have "event_list k t \<noteq> Some PendingReadyL" using member_iff(2) [OF sys_invD(2) [OF s], of t PendingReadyL] by simp
  then show ?thesis
    using task_okD(7) [OF kernel_core_task [OF sys_invD(2) [OF s]], of t] r by (auto simp: ready_def)
qed

text \<open>
  No notification is lost: of interrupts that give to the task before its call, after its call has
  announced the wait, and after it has gone to sleep, every one is in the value, and if there is
  any, or the value was not zero, the task is ready.
\<close>

lemma every_give_counts:
  assumes s: "sys_inv k" and run: "uxSchedulerSuspended k = 0" and cur: "pxCurrentTCB k = Some c"
    and i: "i < configTASK_NOTIFICATION_ARRAY_ENTRIES" and ni: "xIdleTaskHandle k \<noteq> Some c"
    and v: "v = ulNotifiedValue (tcbs k c) ! i"
    and some: "0 < unat v + n0 + n1 + n2" and fit: "unat v + n0 + n1 + n2 < 2 ^ 32"
  shows "ensures (do {
      k \<leftarrow> give_times n0 c i k;
      (k, block) \<leftarrow> ulTaskGenericNotifyTake_enter i w k;
      k \<leftarrow> give_times n1 c i k;
      k \<leftarrow> notify_sleep block w k;
      give_times n2 c i k })
    (\<lambda>k'. sys_inv k' \<and> ready k' c \<and> ulNotifiedValue (tcbs k' c) ! i = v + of_nat (n0 + n1 + n2))"
    (is "ensures _ ?Q")
proof -
  have cr: "ready k c" using sys_invD(5) [OF s] cur by (auto simp: current_ready_def)
  have last: "ensures (give_times n2 c i k3) ?Q"
    if k3: "sys_inv k3" "uxSchedulerSuspended k3 = 0" "ulNotifiedValue (tcbs k3 c) ! i = v + of_nat (n0 + n1)"
      and a: "ready k3 c \<or> (n2 \<noteq> 0 \<and> waits_at i c k3 \<and> event_list k3 c = None \<and> state_list k3 c \<noteq> None \<and>
        state_list k3 c \<noteq> Some TerminationL)" for k3
  proof (rule ensures_mono [OF give_times_ensures [OF k3(1) i]])
    show "waits_at i c k3 \<Longrightarrow> event_list k3 c = None \<and> state_list k3 c \<noteq> None \<and> state_list k3 c \<noteq> Some TerminationL"
      using a unlocked_free [OF k3(1,2)] by blast
    fix k' assume "gave n2 c i k3 k'"
    then show "?Q k'" using a k3 by (cases "n2 = 0"; cases "waits_at i c k3") (auto simp: gave_def add.assoc)
  qed
  show ?thesis
    unfolding ensures_bind [of "give_times n0 c i k"]
  proof (rule ensures_mono [OF give_times_ensures [OF s i]])
    show "event_list k c = None \<and> state_list k c \<noteq> None \<and> state_list k c \<noteq> Some TerminationL"
      by (rule unlocked_free [OF s run cr])
    fix k0 assume g0: "gave n0 c i k k0"
    have k0: "sys_inv k0" "uxSchedulerSuspended k0 = 0" "pxCurrentTCB k0 = Some c" "xIdleTaskHandle k0 \<noteq> Some c"
      "ulNotifiedValue (tcbs k0 c) ! i = v + of_nat n0" using g0 run cur ni v by (simp_all add: gave_def)
    show "ensures (do { (k, block) \<leftarrow> ulTaskGenericNotifyTake_enter i w k0; k \<leftarrow> give_times n1 c i k;
        k \<leftarrow> notify_sleep block w k; give_times n2 c i k }) ?Q"
      unfolding ensures_bind [of "ulTaskGenericNotifyTake_enter _ _ _"]
    proof (rule ensures_mono [OF ulTaskGenericNotifyTake_enter_ensures [OF k0(1-3) i, of w]], goal_cases)
      case (1 r)
      obtain k1 block where r: "r = (k1, block)" by (cases r)
      from 1 have k1: "sys_inv k1" "uxSchedulerSuspended k1 = 1" "pxCurrentTCB k1 = Some c" "xIdleTaskHandle k1 \<noteq> Some c"
        "event_list k1 c = None" "xPendedTicks k1 = 0" "ulNotifiedValue (tcbs k1 c) ! i = v + of_nat n0"
        and b: "block \<longleftrightarrow> v + of_nat n0 = 0 \<and> w > 0" "block \<longrightarrow> waits_at i c k1"
        using k0 unlocked_free [OF k0(1,2)] sys_invD(5) [OF k0(1)] by (auto simp: r current_ready_def)
      have rd1: "ready k1 c" using sys_invD(5) [OF k1(1)] k1(3) by (auto simp: current_ready_def)
      have n2: "n2 \<noteq> 0" if "block" "n1 = 0"
      proof
        assume "n2 = 0"
        have "unat (v + of_nat n0) = unat v + n0"
          using fit by (simp add: unat_word_ariths unat_of_nat)
        with \<open>n2 = 0\<close> b(1) that some show False by simp
      qed
      show ?case
        unfolding r prod.case ensures_bind [of "give_times n1 c i k1"]
      proof (rule ensures_mono [OF give_times_ensures [OF k1(1) i]])
        show "event_list k1 c = None \<and> state_list k1 c \<noteq> None \<and> state_list k1 c \<noteq> Some TerminationL"
          using k1(5) rd1 by (simp add: ready_def)
        fix k2 assume g: "gave n1 c i k1 k2"
        have k2: "sys_inv k2" "uxSchedulerSuspended k2 = 1" "pxCurrentTCB k2 = Some c" "xIdleTaskHandle k2 \<noteq> Some c"
          "ulNotifiedValue (tcbs k2 c) ! i = v + of_nat (n0 + n1)" using g k1 by (simp_all add: gave_def add.assoc)
        show "ensures (do { k \<leftarrow> notify_sleep block w k2; give_times n2 c i k }) ?Q"
          unfolding ensures_bind [of "notify_sleep _ _ _"]
        proof (cases block)
          case False
          have "ensures (notify_sleep False w k2) (\<lambda>k3. ensures (give_times n2 c i k3) ?Q)"
            by (rule ensures_mono [OF notify_sleep_awake [OF k2(1-3)]], rule last) (use k2(5) in simp_all)
          then show "ensures (notify_sleep block w k2) (\<lambda>k3. ensures (give_times n2 c i k3) ?Q)" using False by simp
        next
          case True
          have w: "w \<noteq> 0" using b(1) True by auto
          have "ensures (notify_sleep True w k2) (\<lambda>k3. ensures (give_times n2 c i k3) ?Q)"
          proof (rule ensures_mono [OF notify_sleep_ensures [OF k2(1-4) w]], rule last)
            fix k3 assume k3: "sys_inv k3 \<and> (event_list k2 c = Some PendingReadyL \<longrightarrow> ready k3 c) \<and>
              (event_list k2 c = None \<and> xPendedTicks k2 = 0 \<longrightarrow> state_list k3 c = Some (wait_list k2 w True) \<and> event_list k3 c = None) \<and>
              uxSchedulerSuspended k3 = 0 \<and> tcbs k3 = (tcbs k2)(c := (tcbs k2 c)\<lparr>ucDelayAborted := False\<rparr>)"
            show "ready k3 c \<or> (n2 \<noteq> 0 \<and> waits_at i c k3 \<and> event_list k3 c = None \<and> state_list k3 c \<noteq> None \<and>
              state_list k3 c \<noteq> Some TerminationL)"
            proof (cases "n1 = 0")
              case n1: True
              then have "k2 = k1" using g by (simp add: gave_def)
              moreover have "wait_list k1 w True \<noteq> TerminationL"
                using kernel_core_delayed [OF sys_invD(2) [OF k1(1)]] by (auto simp: wait_list_def delayed_lists_def)
              ultimately show ?thesis using k3 k1(5,6) b(2) True n2 n1 by simp
            next
              case False
              then have "event_list k2 c = Some PendingReadyL" using g b(2) True k1(2) by (simp add: gave_def)
              then show ?thesis using k3 by blast
            qed
          qed (use k2(5) in auto)
          then show "ensures (notify_sleep block w k2) (\<lambda>k3. ensures (give_times n2 c i k3) ?Q)" using True by simp
        qed
      qed
    qed
  qed
qed

section \<open>Counting\<close>

text \<open>
  Used as a counting semaphore: each take takes one, or all, and a value once given is there
  until taken.
\<close>

lemma ulTaskGenericNotifyTake_leave_ensures:
  assumes s: "sys_inv k" and cur: "pxCurrentTCB k = Some c" and i: "i < configTASK_NOTIFICATION_ARRAY_ENTRIES"
  shows "ensures (ulTaskGenericNotifyTake_leave i clear k) (\<lambda>(k', n). sys_inv k' \<and>
    n = ulNotifiedValue (tcbs k c) ! i \<and>
    ulNotifiedValue (tcbs k' c) ! i = (if n = 0 \<or> clear then 0 else n - 1) \<and>
    ucNotifyState (tcbs k' c) ! i = taskNOT_WAITING_NOTIFICATION \<and> (\<forall>x. x \<noteq> c \<longrightarrow> tcbs k' x = tcbs k x))"
    (is "ensures _ ?Q")
proof -
  let ?n = "ulNotifiedValue (tcbs k c) ! i"
  let ?k1 = "if ?n \<noteq> 0 then upd_tcb c (set_notified i (if clear then 0 else ?n - 1)) k else k"
  have s1: "sys_inv ?k1" using s upd_tcb_sys_inv [OF s, of c "set_notified i v" for v] by simp
  have s2: "sys_inv (upd_tcb c (set_notify_state i taskNOT_WAITING_NOTIFICATION) ?k1)"
    by (rule upd_tcb_sys_inv [OF s1]) simp
  have "?Q (upd_tcb c (set_notify_state i taskNOT_WAITING_NOTIFICATION) ?k1, ?n)"
    using s2 i notify_lengths [OF s] by simp
  then show ?thesis using cur by (simp add: ulTaskGenericNotifyTake_leave_def Let_def)
qed

lemma xTaskGenericNotifyWait_leave_ensures:
  assumes s: "sys_inv k" and cur: "pxCurrentTCB k = Some c" and i: "i < configTASK_NOTIFICATION_ARRAY_ENTRIES"
  shows "ensures (xTaskGenericNotifyWait_leave i bits k) (\<lambda>(k', ok, v). sys_inv k' \<and>
    v = ulNotifiedValue (tcbs k c) ! i \<and> ok = (ucNotifyState (tcbs k c) ! i = taskNOTIFICATION_RECEIVED) \<and>
    ulNotifiedValue (tcbs k' c) ! i = (if ok then v AND NOT bits else v) \<and>
    ucNotifyState (tcbs k' c) ! i = taskNOT_WAITING_NOTIFICATION \<and> (\<forall>x. x \<noteq> c \<longrightarrow> tcbs k' x = tcbs k x))"
    (is "ensures _ ?Q")
proof -
  let ?v = "ulNotifiedValue (tcbs k c) ! i"
  let ?ok = "ucNotifyState (tcbs k c) ! i = taskNOTIFICATION_RECEIVED"
  let ?k1 = "if ?ok then upd_tcb c (set_notified i (?v AND NOT bits)) k else k"
  have s1: "sys_inv ?k1" using s upd_tcb_sys_inv [OF s, of c "set_notified i v" for v] by simp
  have s2: "sys_inv (upd_tcb c (set_notify_state i taskNOT_WAITING_NOTIFICATION) ?k1)"
    by (rule upd_tcb_sys_inv [OF s1]) simp
  have "?Q (upd_tcb c (set_notify_state i taskNOT_WAITING_NOTIFICATION) ?k1, ?ok, ?v)"
    using s2 i notify_lengths [OF s] by simp
  then show ?thesis using cur by (simp add: xTaskGenericNotifyWait_leave_def Let_def split: if_splits)
qed

end
