(* ===== verification/Task_Info.thy ===== *)
theory Task_Info
  imports Task_Notify
begin

text \<open>
  What tasks.c tells about tasks: handles, names, numbers, tags, the state of the scheduler,
  and the snapshot of all tasks that \<open>uxTaskGetSystemState\<close> takes. Stack measurements and
  run-time counters are left out of the snapshot.
\<close>

section \<open>Handles, names, numbers and tags\<close>

definition uxTaskGetNumberOfTasks :: "kernel \<Rightarrow> nat" where
  "uxTaskGetNumberOfTasks k = uxCurrentNumberOfTasks k"

definition xTaskGetCurrentTaskHandle :: "kernel \<Rightarrow> task option" where
  "xTaskGetCurrentTaskHandle k = pxCurrentTCB k"

definition xTaskGetIdleTaskHandle :: "kernel \<Rightarrow> task option" where
  "xTaskGetIdleTaskHandle k = do { configASSERT (xIdleTaskHandle k \<noteq> None); xIdleTaskHandle k }"

datatype scheduler_state = taskSCHEDULER_SUSPENDED | taskSCHEDULER_NOT_STARTED | taskSCHEDULER_RUNNING

definition xTaskGetSchedulerState :: "kernel \<Rightarrow> scheduler_state" where
  "xTaskGetSchedulerState k =
     (if \<not> xSchedulerRunning k then taskSCHEDULER_NOT_STARTED
      else if uxSchedulerSuspended k = 0 then taskSCHEDULER_RUNNING else taskSCHEDULER_SUSPENDED)"

definition pcTaskGetName :: "task option \<Rightarrow> kernel \<Rightarrow> string option" where
  "pcTaskGetName xTaskToQuery k = do {
     t \<leftarrow> prvGetTCBFromHandle xTaskToQuery k;
     Some (pcTaskName (tcbs k t)) }"

definition vTaskSetApplicationTaskTag :: "task option \<Rightarrow> nat option \<Rightarrow> kernel \<Rightarrow> kernel option" where
  "vTaskSetApplicationTaskTag xTask pxHookFunction k = do {
     t \<leftarrow> prvGetTCBFromHandle xTask k;
     Some (upd_tcb t (\<lambda>b. b\<lparr>pxTaskTag := pxHookFunction\<rparr>) k) }"

definition xTaskGetApplicationTaskTag :: "task option \<Rightarrow> kernel \<Rightarrow> nat option option" where
  "xTaskGetApplicationTaskTag xTask k = do {
     t \<leftarrow> prvGetTCBFromHandle xTask k;
     Some (pxTaskTag (tcbs k t)) }"

definition xTaskGetApplicationTaskTagFromISR :: "task option \<Rightarrow> kernel \<Rightarrow> nat option option" where
  "xTaskGetApplicationTaskTagFromISR xTask k = do {
     t \<leftarrow> prvGetTCBFromHandle xTask k;
     Some (pxTaskTag (tcbs k t)) }"

definition uxTaskGetTaskNumber :: "task option \<Rightarrow> kernel \<Rightarrow> nat" where
  "uxTaskGetTaskNumber xTask k = (case xTask of None \<Rightarrow> 0 | Some t \<Rightarrow> uxTaskNumberTrace (tcbs k t))"

definition vTaskSetTaskNumber :: "task option \<Rightarrow> nat \<Rightarrow> kernel \<Rightarrow> kernel" where
  "vTaskSetTaskNumber xTask uxHandle k =
     (case xTask of None \<Rightarrow> k | Some t \<Rightarrow> upd_tcb t (\<lambda>b. b\<lparr>uxTaskNumberTrace := uxHandle\<rparr>) k)"

section \<open>The snapshot of all tasks\<close>

record task_status =
  xHandle :: task
  pcStatusName :: string
  xTaskNumber :: nat
  eCurrentState :: eTaskState
  uxCurrentPriority :: nat
  uxStatusBasePriority :: nat

text \<open>\<open>eState = None\<close> is the code's \<open>eInvalid\<close>: look the state up.\<close>

definition vTaskGetInfo :: "task option \<Rightarrow> eTaskState option \<Rightarrow> kernel \<Rightarrow> (kernel \<times> task_status) option" where
  "vTaskGetInfo xTask eState k = do {
     t \<leftarrow> prvGetTCBFromHandle xTask k;
     (k, st) \<leftarrow> (case eState of
         None \<Rightarrow> Some (k, eTaskGetState t k)
       | Some e \<Rightarrow>
           if Some t = pxCurrentTCB k then Some (k, eRunning)
           else do {
             (k, st) \<leftarrow> (if e = eSuspended
               then do {
                 let k = vTaskSuspendAll k;
                 let st = (if event_list k t \<noteq> None then eBlocked
                           else if waits_for_notification (tcbs k t) then eBlocked else e);
                 (k, _) \<leftarrow> xTaskResumeAll k;
                 Some (k, st) }
               else Some (k, e));
             Some (k, if event_list k t = Some PendingReadyL then eReady else st) });
     Some (k, \<lparr>xHandle = t, pcStatusName = pcTaskName (tcbs k t), xTaskNumber = uxTCBNumber (tcbs k t),
       eCurrentState = st, uxCurrentPriority = prio k t, uxStatusBasePriority = uxBasePriority (tcbs k t)\<rparr>) }"

fun list_statuses :: "item_id list \<Rightarrow> eTaskState \<Rightarrow> kernel \<Rightarrow> (kernel \<times> task_status list) option" where
  "list_statuses [] e k = Some (k, [])"
| "list_statuses (i # is) e k = do {
     (k, x) \<leftarrow> vTaskGetInfo (Some (owner i)) (Some e) k;
     (k, xs) \<leftarrow> list_statuses is e k;
     Some (k, x # xs) }"

definition prvListTasksWithinSingleList ::
    "list_id \<Rightarrow> eTaskState \<Rightarrow> kernel \<Rightarrow> (kernel \<times> task_status list) option" where
  "prvListTasksWithinSingleList l e k = list_statuses (members k l) e k"

text \<open>The loop over the ready lists, from the highest priority down.\<close>

fun ready_statuses :: "nat \<Rightarrow> kernel \<Rightarrow> (kernel \<times> task_status list) option" where
  "ready_statuses 0 k = Some (k, [])"
| "ready_statuses (Suc p) k = do {
     (k, xs) \<leftarrow> prvListTasksWithinSingleList (ReadyL p) eReady k;
     (k, ys) \<leftarrow> ready_statuses p k;
     Some (k, xs @ ys) }"

definition uxTaskGetSystemState :: "nat \<Rightarrow> kernel \<Rightarrow> (kernel \<times> task_status list) option" where
  "uxTaskGetSystemState uxArraySize k = do {
     let k = vTaskSuspendAll k;
     (k, xs) \<leftarrow> (if uxArraySize \<ge> uxCurrentNumberOfTasks k
       then do {
         (k, r) \<leftarrow> ready_statuses configMAX_PRIORITIES k;
         (k, d) \<leftarrow> prvListTasksWithinSingleList (pxDelayedTaskList k) eBlocked k;
         (k, v) \<leftarrow> prvListTasksWithinSingleList (pxOverflowDelayedTaskList k) eBlocked k;
         (k, x) \<leftarrow> prvListTasksWithinSingleList TerminationL eDeleted k;
         (k, s) \<leftarrow> prvListTasksWithinSingleList SuspendedL eSuspended k;
         Some (k, r @ d @ v @ x @ s) }
       else Some (k, []));
     (k, _) \<leftarrow> xTaskResumeAll k;
     Some (k, xs) }"

section \<open>The snapshot is right\<close>

text \<open>The entry of a task, and the state list that determines what is reported.\<close>

definition status_of :: "kernel \<Rightarrow> task \<Rightarrow> task_status" where
  "status_of k t = \<lparr>xHandle = t, pcStatusName = pcTaskName (tcbs k t), xTaskNumber = uxTCBNumber (tcbs k t),
     eCurrentState = eTaskGetState t k, uxCurrentPriority = prio k t,
     uxStatusBasePriority = uxBasePriority (tcbs k t)\<rparr>"

definition state_of_list :: "kernel \<Rightarrow> list_id \<Rightarrow> eTaskState" where
  "state_of_list k l = (if is_ready_list l then eReady
     else if l = pxDelayedTaskList k \<or> l = pxOverflowDelayedTaskList k then eBlocked
     else if l = TerminationL then eDeleted else eSuspended)"

lemma nested_resume: "0 < uxSchedulerSuspended k \<Longrightarrow> xTaskResumeAll (vTaskSuspendAll k) = Some (k, False)"
  by (simp add: xTaskResumeAll_def vTaskSuspendAll_def)

lemma info_from_list:
  assumes core: "kernel_core k" and susp: "0 < uxSchedulerSuspended k" and l: "state_list k t = Some l"
  shows "vTaskGetInfo (Some t) (Some (state_of_list k l)) k = Some (k, status_of k t)"
proof -
  have tok: "task_ok k t" using core by (rule kernel_core_task)
  have dead: "l = TerminationL \<Longrightarrow> event_list k t = None" using task_okD(9) [OF tok] l by fastforce
  have ne: "\<not> is_event_list l" using task_okD(1) [OF tok l] .
  have ev: "event_list (vTaskSuspendAll k) t = event_list k t" "tcbs (vTaskSuspendAll k) = tcbs k"
    by (simp_all add: vTaskSuspendAll_def)
  show ?thesis
  proof (cases "Some t = pxCurrentTCB k")
    case True
    then show ?thesis by (simp flip: True add: vTaskGetInfo_def prvGetTCBFromHandle_def status_of_def eTaskGetState_def)
  next
    case False
    have dl: "l \<in> {DelayedL1, DelayedL2} \<longleftrightarrow> l = pxDelayedTaskList k \<or> l = pxOverflowDelayedTaskList k"
      using core by (auto simp: kernel_core_def)
    from False ne dead l dl show ?thesis
      using delayed_not_ready [OF core] delayed_not_other [OF core]
      by (cases l) (simp_all add: vTaskGetInfo_def prvGetTCBFromHandle_def status_of_def eTaskGetState_def
        state_of_list_def nested_resume [OF susp] ev)
  qed
qed

lemma list_statuses_from_list:
  assumes "kernel_core k" and "0 < uxSchedulerSuspended k" and "\<And>i. i \<in> set is \<Longrightarrow> state_list k (owner i) = Some l"
  shows "list_statuses is (state_of_list k l) k = Some (k, map (status_of k \<circ> owner) is)"
  using assms(3) by (induction "is") (simp_all add: info_from_list [OF assms(1,2)])

lemma single_list:
  assumes core: "kernel_core k" and susp: "0 < uxSchedulerSuspended k" and l: "\<not> is_event_list l"
    and e: "e = state_of_list k l"
  shows "prvListTasksWithinSingleList l e k = Some (k, map (status_of k \<circ> owner) (members k l))"
  unfolding prvListTasksWithinSingleList_def e
  by (rule list_statuses_from_list [OF core susp]) (use state_member [OF core _ l] in blast)

lemma ready_statuses_eq:
  assumes core: "kernel_core k" and susp: "0 < uxSchedulerSuspended k"
  shows "ready_statuses n k = Some (k, map (status_of k \<circ> owner) (concat (map (\<lambda>p. members k (ReadyL p)) (rev [0..<n]))))"
  by (induction n) (simp_all add: single_list [OF core susp] state_of_list_def)

text \<open>The lists the snapshot walks over; each task is in exactly one of them.\<close>

definition task_lists :: "kernel \<Rightarrow> list_id list" where
  "task_lists k = map ReadyL (rev [0..<configMAX_PRIORITIES]) @
     [pxDelayedTaskList k, pxOverflowDelayedTaskList k, TerminationL, SuspendedL]"

lemma task_lists_set:
  assumes core: "kernel_core k"
  shows "state_list k t = Some l \<Longrightarrow> l \<in> set (task_lists k)" "l \<in> set (task_lists k) \<Longrightarrow> \<not> is_event_list l"
proof -
  show "l \<in> set (task_lists k)" if l: "state_list k t = Some l"
  proof -
    have "\<not> is_event_list l" "l = ReadyL p \<Longrightarrow> p < configMAX_PRIORITIES" for p
      using task_okD(1,4,5) [OF kernel_core_task [OF core, of t]] l by auto
    then show ?thesis using core by (cases l) (auto simp: task_lists_def kernel_core_def)
  qed
  show "\<not> is_event_list l" if "l \<in> set (task_lists k)"
    using that core by (auto simp: task_lists_def)
qed

lemma distinct_task_lists: "kernel_core k \<Longrightarrow> distinct (task_lists k)"
  by (auto simp: task_lists_def distinct_map inj_on_def kernel_core_def)

lemma distinct_owners:
  assumes core: "kernel_core k" and "distinct ls" and "\<And>l. l \<in> set ls \<Longrightarrow> \<not> is_event_list l"
  shows "distinct (map owner (concat (map (members k) ls)))"
    "set (map owner (concat (map (members k) ls))) = {t. \<exists>l \<in> set ls. state_list k t = Some l}"
proof -
  have own: "owner ` set (members k l) = {t. state_list k t = Some l}" if "\<not> is_event_list l" for l
    using state_member [OF core _ that] member_iff(1) [OF core, of _ l] by (force simp: image_iff)
  then have 2: "set (map owner (concat (map (members k) ls))) = {t. \<exists>l \<in> set ls. state_list k t = Some l}"
    if "\<And>l. l \<in> set ls \<Longrightarrow> \<not> is_event_list l" for ls
    using that by (induction ls) auto
  from 2 [OF assms(3)]
  show "set (map owner (concat (map (members k) ls))) = {t. \<exists>l \<in> set ls. state_list k t = Some l}" .
  show "distinct (map owner (concat (map (members k) ls)))"
    using assms(2,3)
  proof (induction ls)
    case (Cons l ls)
    have l: "\<not> is_event_list l" using Cons.prems by simp
    have "inj_on owner (set (members k l))" using state_member [OF core _ l] by (metis inj_onI)
    then have "distinct (map owner (members k l))"
      using lists_wf_distinct [OF lists_inv_wf [OF kernel_core_lists [OF core]]] by (simp add: distinct_map)
    moreover have "set (map owner (members k l)) \<inter> set (map owner (concat (map (members k) ls))) = {}"
      using own [OF l] 2 [of ls] Cons.prems by auto
    ultimately show ?case using Cons by (simp del: set_map set_concat)
  qed simp
qed

lemma uxTaskGetSystemState_ensures:
  assumes s: "sys_inv k" and room: "uxCurrentNumberOfTasks k \<le> n" and run: "uxSchedulerSuspended k = 0"
  shows "ensures (uxTaskGetSystemState n k) (\<lambda>(k', xs). sys_inv k' \<and>
     xs = map (status_of k) (map owner (concat (map (members k) (task_lists k)))))"
proof -
  let ?k = "vTaskSuspendAll k"
  obtain c where c: "pxCurrentTCB k = Some c" using sys_invD(5) [OF s] by (rule current_readyE)
  have core: "kernel_core ?k" and inv: "kernel_inv ?k" using sys_invD(1,2) [OF s]
    by (simp_all add: vTaskSuspendAll_def kernel_inv_def pending_ok_def)
  have susp: "0 < uxSchedulerSuspended ?k" by (simp add: vTaskSuspendAll_def)
  have same: "status_of ?k = status_of k" "task_lists ?k = task_lists k" "members ?k = members k"
    "uxCurrentNumberOfTasks ?k = uxCurrentNumberOfTasks k"
    by (simp_all add: fun_eq_iff status_of_def vTaskSuspendAll_def eTaskGetState_def task_lists_def)
  have ne: "\<not> is_event_list TerminationL" "\<not> is_event_list SuspendedL" by simp_all
  note d = delayed_not_ready [OF core] delayed_not_other [OF core]
  have e: "state_of_list ?k (pxDelayedTaskList ?k) = eBlocked" "state_of_list ?k (pxOverflowDelayedTaskList ?k) = eBlocked"
    "state_of_list ?k TerminationL = eDeleted" "state_of_list ?k SuspendedL = eSuspended"
    using d by (simp_all add: state_of_list_def)
  let ?xs = "map (status_of k) (map owner (concat (map (members k) (task_lists k))))"
  have "uxTaskGetSystemState n k = do { (k', _) \<leftarrow> xTaskResumeAll ?k; Some (k', ?xs) }"
    using room single_list [OF core susp d(3) e(1) [symmetric]] single_list [OF core susp d(4) e(2) [symmetric]]
      single_list [OF core susp ne(1) e(3) [symmetric]] single_list [OF core susp ne(2) e(4) [symmetric]]
      ready_statuses_eq [OF core susp] same
    by (simp add: uxTaskGetSystemState_def Let_def task_lists_def comp_def)
  moreover have "ensures (xTaskResumeAll ?k) (\<lambda>r. sys_inv (fst r))"
    by (rule ensures_mono [OF xTaskResumeAll_sys_inv [OF sys_invD(1,3,4,5,6) [OF sys_inv_lock [OF s]]]])
      (use susp in auto)
  ultimately show ?thesis by (simp add: case_prod_unfold)
qed

end
