(* ===== verification/Queue_State.thy ===== *)
theory Queue_State
  imports Prelude
begin

text \<open>
  The queue object of queue.c and its storage area. One structure serves as queue, semaphore
  and mutex; what it is shows in \<open>pcHead\<close>, which points to the storage area, to the queue
  itself (item size 0) or is NULL (a mutex). Positions in the storage area are byte offsets
  from \<open>pcHead\<close>. The union of the pointers \<open>pcTail\<close>/\<open>pcReadFrom\<close> with the holder and call
  count of a mutex is given as four fields, of which a queue uses the first two and a mutex
  the last two; \<open>xQueueGenericReset\<close>, which writes through the wrong view for a mutex, says
  what it clears.

  The storage is memory: a copy outside it, or from a NULL item, is \<open>None\<close>.
\<close>

type_synonym queue_handle = nat
type_synonym task_handle = nat

datatype queue_head = pcStorageArea | pcQueueItself | queueQUEUE_IS_MUTEX

datatype queue_type = queueQUEUE_TYPE_BASE | queueQUEUE_TYPE_MUTEX
  | queueQUEUE_TYPE_COUNTING_SEMAPHORE | queueQUEUE_TYPE_BINARY_SEMAPHORE
  | queueQUEUE_TYPE_RECURSIVE_MUTEX | queueQUEUE_TYPE_SET

datatype copy_position = queueSEND_TO_BACK | queueSEND_TO_FRONT | queueOVERWRITE

definition queueUNLOCKED :: int where "queueUNLOCKED = -1"
definition queueLOCKED_UNMODIFIED :: int where "queueLOCKED_UNMODIFIED = 0"
definition queueINT8_MAX :: int where "queueINT8_MAX = 127"

record queue =
  pcHead :: queue_head
  pucQueueStorage :: "byte list"
  pcWriteTo :: int
  pcTail :: int
  pcReadFrom :: int
  xMutexHolder :: "task_handle option"
  uxRecursiveCallCount :: ubase
  uxMessagesWaiting :: nat
  uxLength :: nat
  uxItemSize :: nat
  cRxLock :: int
  cTxLock :: int
  ucQueueStaticallyAllocated :: bool
  pxQueueSetContainer :: "queue_handle option"
  uxQueueNumber :: nat
  ucQueueType :: queue_type

section \<open>Copying in and out of the storage area\<close>

definition memcpy_to :: "int \<Rightarrow> nat \<Rightarrow> byte list \<Rightarrow> byte list \<Rightarrow> byte list option" where
  "memcpy_to p n src mem =
     (if 0 \<le> p \<and> nat p + n \<le> length mem \<and> n \<le> length src
      then Some (take (nat p) mem @ take n src @ drop (nat p + n) mem) else None)"

definition memcpy_from :: "int \<Rightarrow> nat \<Rightarrow> byte list \<Rightarrow> byte list option" where
  "memcpy_from p n mem =
     (if 0 \<le> p \<and> nat p + n \<le> length mem then Some (take n (drop (nat p) mem)) else None)"

text \<open>The part of \<open>prvCopyDataToQueue\<close> that copies data: the queue holds items of some size.\<close>

definition copy_item_in :: "copy_position \<Rightarrow> byte list option \<Rightarrow> queue \<Rightarrow> queue option" where
  "copy_item_in xPosition pvItemToQueue q = do {
     let n = uxMessagesWaiting q;
     item \<leftarrow> pvItemToQueue;
     if xPosition = queueSEND_TO_BACK
     then do {
       mem \<leftarrow> memcpy_to (pcWriteTo q) (uxItemSize q) item (pucQueueStorage q);
       let q = q\<lparr>pucQueueStorage := mem\<rparr>;
       let q = q\<lparr>pcWriteTo := pcWriteTo q + int (uxItemSize q)\<rparr>;
       let q = (if pcWriteTo q \<ge> pcTail q then q\<lparr>pcWriteTo := 0\<rparr> else q);
       Some (q\<lparr>uxMessagesWaiting := n + 1\<rparr>) }
     else do {
       mem \<leftarrow> memcpy_to (pcReadFrom q) (uxItemSize q) item (pucQueueStorage q);
       let q = q\<lparr>pucQueueStorage := mem\<rparr>;
       let q = q\<lparr>pcReadFrom := pcReadFrom q - int (uxItemSize q)\<rparr>;
       let q = (if pcReadFrom q < 0 then q\<lparr>pcReadFrom := pcTail q - int (uxItemSize q)\<rparr> else q);
       let n = (if xPosition = queueOVERWRITE \<and> n > 0 then n - 1 else n);
       Some (q\<lparr>uxMessagesWaiting := n + 1\<rparr>) } }"

text \<open>The bytes are those written to the caller's buffer; for item size 0 there are none.\<close>

definition prvCopyDataFromQueue :: "queue \<Rightarrow> (queue \<times> byte list) option" where
  "prvCopyDataFromQueue q =
     (if uxItemSize q \<noteq> 0
      then do {
        let q = q\<lparr>pcReadFrom := pcReadFrom q + int (uxItemSize q)\<rparr>;
        let q = (if pcReadFrom q \<ge> pcTail q then q\<lparr>pcReadFrom := 0\<rparr> else q);
        bytes \<leftarrow> memcpy_from (pcReadFrom q) (uxItemSize q) (pucQueueStorage q);
        Some (q, bytes) }
      else Some (q, []))"

text \<open>Taking the item at the front out of the queue, as the receiving calls do.\<close>

definition receive_item :: "queue \<Rightarrow> (queue \<times> byte list) option" where
  "receive_item q = do {
     let n = uxMessagesWaiting q;
     (q, bytes) \<leftarrow> prvCopyDataFromQueue q;
     Some (q\<lparr>uxMessagesWaiting := n - 1\<rparr>, bytes) }"

definition prvIsQueueEmpty :: "queue \<Rightarrow> bool" where
  "prvIsQueueEmpty q \<longleftrightarrow> uxMessagesWaiting q = 0"

definition prvIsQueueFull :: "queue \<Rightarrow> bool" where
  "prvIsQueueFull q \<longleftrightarrow> uxMessagesWaiting q = uxLength q"

section \<open>The storage area as a sequence of items\<close>

definition block :: "nat \<Rightarrow> byte list \<Rightarrow> nat \<Rightarrow> byte list" where
  "block n mem i = take n (drop (i * n) mem)"

lemma length_block: "(i + 1) * n \<le> length mem \<Longrightarrow> length (block n mem i) = n"
  by (simp add: block_def)

lemma block_bound: "i < m \<Longrightarrow> (i + 1) * n \<le> m * (n :: nat)"
  by (simp only: mult_le_mono1 Suc_leI flip: Suc_eq_plus1)

lemma memcpy_to_block:
  assumes "length mem = m * n" and "i < m" and "length src = n"
  shows "ensures (memcpy_to (int (i * n)) n src mem) (\<lambda>mem'. length mem' = m * n \<and>
     (\<forall>j < m. block n mem' j = (if j = i then src else block n mem j)))"
proof -
  have i: "i * n + n \<le> m * n" using block_bound [OF assms(2), of n] by simp
  let ?mem = "take (i * n) mem @ src @ drop (i * n + n) mem"
  have len: "length ?mem = m * n" using assms i by simp
  have "block n ?mem j = (if j = i then src else block n mem j)" if "j < m" for j
  proof (cases j i rule: linorder_cases)
    case less
    then have "j * n + n \<le> i * n" using block_bound [OF less, of n] by simp
    then show ?thesis using less assms i by (simp add: block_def take_drop min_def)
  next
    case equal
    then show ?thesis using assms i by (simp add: block_def)
  next
    case greater
    then have "i * n + n \<le> j * n" using block_bound [OF greater, of n] by simp
    then have "drop (j * n) ?mem = drop (j * n) mem"
      using assms i greater by (simp add: drop_append)
    then show ?thesis using greater by (simp add: block_def)
  qed
  with len assms i show ?thesis
    by (simp add: memcpy_to_def nat_mult_distrib flip: of_nat_mult)
qed

lemma memcpy_from_block:
  assumes "length mem = m * n" and "i < m"
  shows "memcpy_from (int (i * n)) n mem = Some (block n mem i)"
  using assms block_bound [OF assms(2), of n] by (simp add: memcpy_from_def block_def flip: of_nat_mult)

section \<open>The queue as a sequence\<close>

text \<open>
  The read position is the place of the item last read; the items in the queue follow it, in
  order and modulo the length, and the write position is the place after them.
\<close>

definition read_index :: "queue \<Rightarrow> nat" where
  "read_index q = nat (pcReadFrom q) div uxItemSize q"

definition item_at :: "queue \<Rightarrow> nat \<Rightarrow> byte list" where
  "item_at q i = block (uxItemSize q) (pucQueueStorage q) ((read_index q + 1 + i) mod uxLength q)"

definition contents :: "queue \<Rightarrow> byte list list" where
  "contents q = (if uxItemSize q = 0 then replicate (uxMessagesWaiting q) []
     else map (item_at q) [0..<uxMessagesWaiting q])"

definition ring_ok :: "queue \<Rightarrow> bool" where
  "ring_ok q \<longleftrightarrow> (let r = read_index q in r < uxLength q \<and>
     pcReadFrom q = int (r * uxItemSize q) \<and>
     pcWriteTo q = int (((r + 1 + uxMessagesWaiting q) mod uxLength q) * uxItemSize q) \<and>
     pcTail q = int (uxLength q * uxItemSize q) \<and>
     length (pucQueueStorage q) = uxLength q * uxItemSize q)"

text \<open>A queue holds at most \<open>uxLength\<close> items; if its items have a size, they are stored in a ring.\<close>

definition storage_ok :: "queue \<Rightarrow> bool" where
  "storage_ok q \<longleftrightarrow> 0 < uxLength q \<and> uxMessagesWaiting q \<le> uxLength q \<and> (uxItemSize q \<noteq> 0 \<longrightarrow> ring_ok q)"

lemma length_contents [simp]: "length (contents q) = uxMessagesWaiting q"
  by (simp add: contents_def)

lemma contents_empty: "contents q = [] \<longleftrightarrow> uxMessagesWaiting q = 0"
  by (metis length_contents length_0_conv)

lemma storage_okD:
  assumes "storage_ok q"
  shows "0 < uxLength q" "uxMessagesWaiting q \<le> uxLength q"
  using assms by (simp_all add: storage_ok_def)

lemma ring_okE:
  assumes "ring_ok q"
  obtains "read_index q < uxLength q" "pcReadFrom q = int (read_index q * uxItemSize q)"
    "pcWriteTo q = int (((read_index q + 1 + uxMessagesWaiting q) mod uxLength q) * uxItemSize q)"
    "pcTail q = int (uxLength q * uxItemSize q)" "length (pucQueueStorage q) = uxLength q * uxItemSize q"
  using assms unfolding ring_ok_def Let_def by blast

text \<open>Stepping an index around the ring, in bytes as the code does it.\<close>

lemma step_forward:
  assumes "i < m" and "0 < (n :: nat)"
  shows "(if int (i * n) + int n \<ge> int (m * n) then 0 else int (i * n) + int n) = int (((i + 1) mod m) * n)"
proof (cases "i + 1 = m")
  case True
  then have "int (m * n) = int (i * n) + int n" by (auto simp: algebra_simps)
  then show ?thesis using True by simp
next
  case False
  then have "i + 1 < m" using assms by simp
  then have "(i + 1) * n < m * n" using assms(2) by (simp only: mult_less_mono1)
  then have "int (i * n) + int n < int (m * n)" by (simp only: add_mult_distrib nat_mult_1 flip: of_nat_add)
  then show ?thesis using \<open>i + 1 < m\<close> by (simp add: algebra_simps)
qed

lemma step_back:
  assumes "i < m" and "0 < (n :: nat)"
  shows "(if int (i * n) - int n < 0 then int (m * n) - int n else int (i * n) - int n) =
    int ((if i = 0 then m - 1 else i - 1) * n)"
proof (cases i)
  case 0
  then show ?thesis using assms by (cases m) (simp_all add: algebra_simps)
next
  case (Suc j)
  then have "int (i * n) - int n = int (j * n)" by (simp add: algebra_simps)
  moreover have "0 \<le> int (j * n)" by simp
  ultimately show ?thesis using Suc by (simp del: of_nat_mult)
qed

lemma add_mod_inj:
  assumes "(a + i) mod m = (a + j) mod (m :: nat)" and "i < m" "j < m"
  shows "i = j"
proof -
  have le: "i = j" if "(a + i) mod m = (a + j) mod m" "i \<le> j" "j < m" for i j
  proof -
    have "m dvd (a + j) - (a + i)" using that(1,2) mod_eq_dvd_iff_nat [of "a + i" "a + j" m] by simp
    then have "m dvd j - i" by simp
    then have "j - i = 0" using that(3) by (meson dvd_imp_le le_less_trans less_imp_diff_less not_gr0 not_le)
    then show ?thesis using that(2) by simp
  qed
  show ?thesis using le [of i j] le [of j i] assms by (metis nat_le_linear)
qed

section \<open>What the copies do to the sequence\<close>

lemma read_index_eq: "pcReadFrom q = int (r * uxItemSize q) \<Longrightarrow> uxItemSize q \<noteq> 0 \<Longrightarrow> read_index q = r"
  by (simp only: read_index_def nat_int) simp

text \<open>A write to the place after the last item, or to the place before the first, disturbs no item.\<close>

lemma contents_cong:
  assumes "uxItemSize q' = uxItemSize q" and "uxItemSize q \<noteq> 0"
    and "\<And>i. i < n \<Longrightarrow> item_at q' i = f i"
    and "uxMessagesWaiting q' = n"
  shows "contents q' = map f [0..<n]"
  using assms by (simp add: contents_def)

lemma copy_back_ensures:
  assumes ok: "storage_ok q" and sz: "uxItemSize q \<noteq> 0" and room: "uxMessagesWaiting q < uxLength q"
    and item: "length item = uxItemSize q"
    and post: "\<And>q' mem w. \<lbrakk>q' = q\<lparr>pucQueueStorage := mem, pcWriteTo := w, uxMessagesWaiting := uxMessagesWaiting q + 1\<rparr>;
      storage_ok q'; contents q' = contents q @ [item]\<rbrakk> \<Longrightarrow> Q q'"
  shows "ensures (copy_item_in queueSEND_TO_BACK (Some item) q) Q"
proof -
  let ?n = "uxMessagesWaiting q" and ?m = "uxLength q" and ?z = "uxItemSize q" and ?r = "read_index q"
  have "ring_ok q" using ok sz by (simp add: storage_ok_def)
  then obtain r: "?r < ?m" "pcReadFrom q = int (?r * ?z)" "pcTail q = int (?m * ?z)" "length (pucQueueStorage q) = ?m * ?z"
    and w: "pcWriteTo q = int (((?r + 1 + ?n) mod ?m) * ?z)" by (rule ring_okE)
  let ?w = "(?r + 1 + ?n) mod ?m"
  have wm: "?w < ?m" using r(1) by simp
  from memcpy_to_block [OF r(4) wm item] obtain mem where
    mem: "memcpy_to (int (?w * ?z)) ?z item (pucQueueStorage q) = Some mem" "length mem = ?m * ?z"
    and bl: "\<And>j. j < ?m \<Longrightarrow> block ?z mem j = (if j = ?w then item else block ?z (pucQueueStorage q) j)"
    unfolding ensures_iff by blast
  let ?q = "q\<lparr>pucQueueStorage := mem, pcWriteTo := int (((?w + 1) mod ?m) * ?z), uxMessagesWaiting := ?n + 1\<rparr>"
  have run: "copy_item_in queueSEND_TO_BACK (Some item) q = Some ?q"
    using step_forward [OF wm, of ?z] sz mem(1) w r(3)
    by (auto simp: copy_item_in_def Let_def simp del: of_nat_mult split: if_splits)
  have ri: "read_index ?q = ?r" by (simp add: read_index_def)
  have "ring_ok ?q"
    using r mem(2) unfolding ring_ok_def Let_def ri by (simp add: mod_Suc_eq del: of_nat_mult)
  then have ok': "storage_ok ?q" using ok room by (simp add: storage_ok_def)
  have "item_at ?q i = (if i = ?n then item else item_at q i)" if "i < ?n + 1" for i
  proof -
    have "(?r + 1 + i) mod ?m = ?w \<longleftrightarrow> i = ?n"
      using add_mod_inj [of "?r + 1" i ?m ?n] that room by auto
    moreover have "(?r + 1 + i) mod ?m < ?m" using r(1) by simp
    ultimately show ?thesis using bl unfolding item_at_def ri by simp
  qed
  then have "contents ?q = map (\<lambda>i. if i = ?n then item else item_at q i) [0..<?n + 1]"
    by (intro contents_cong [of _ q]) (use sz in simp_all)
  also have "\<dots> = contents q @ [item]" using sz by (simp add: contents_def)
  finally show ?thesis using post [OF refl ok'] run by simp
qed

lemma copy_front_ensures:
  assumes ok: "storage_ok q" and sz: "uxItemSize q \<noteq> 0" and room: "uxMessagesWaiting q < uxLength q"
    and pos: "pos \<noteq> queueSEND_TO_BACK" "pos = queueOVERWRITE \<Longrightarrow> uxMessagesWaiting q = 0"
    and item: "length item = uxItemSize q"
    and post: "\<And>q' mem r. \<lbrakk>q' = q\<lparr>pucQueueStorage := mem, pcReadFrom := r, uxMessagesWaiting := uxMessagesWaiting q + 1\<rparr>;
      storage_ok q'; contents q' = item # contents q\<rbrakk> \<Longrightarrow> Q q'"
  shows "ensures (copy_item_in pos (Some item) q) Q"
proof -
  let ?n = "uxMessagesWaiting q" and ?m = "uxLength q" and ?z = "uxItemSize q" and ?r = "read_index q"
  have "ring_ok q" using ok sz by (simp add: storage_ok_def)
  then obtain r: "?r < ?m" "pcReadFrom q = int (?r * ?z)" "pcTail q = int (?m * ?z)" "length (pucQueueStorage q) = ?m * ?z"
    and w: "pcWriteTo q = int (((?r + 1 + ?n) mod ?m) * ?z)" by (rule ring_okE)
  let ?p = "if ?r = 0 then ?m - 1 else ?r - 1"
  have p: "?p < ?m" "(?p + 1 + i) mod ?m = (?r + i) mod ?m" for i
    using r(1) by (auto simp: mod_add_left_eq [of ?m] simp flip: add.assoc)
  from memcpy_to_block [OF r(4) r(1) item] obtain mem where
    mem: "memcpy_to (int (?r * ?z)) ?z item (pucQueueStorage q) = Some mem" "length mem = ?m * ?z"
    and bl: "\<And>j. j < ?m \<Longrightarrow> block ?z mem j = (if j = ?r then item else block ?z (pucQueueStorage q) j)"
    unfolding ensures_iff by blast
  let ?q = "q\<lparr>pucQueueStorage := mem, pcReadFrom := int (?p * ?z), uxMessagesWaiting := ?n + 1\<rparr>"
  have run: "copy_item_in pos (Some item) q = Some ?q"
    using step_back [OF r(1), of ?z] sz mem(1) r(2,3) pos
    by (auto simp: copy_item_in_def Let_def simp del: of_nat_mult split: if_splits)
  have ri: "read_index ?q = ?p" by (rule read_index_eq) (use sz in simp_all)
  have "ring_ok ?q"
    using p(1) p(2) [of "?n + 1"] r mem(2) w unfolding ring_ok_def Let_def ri by (simp del: of_nat_mult)
  then have ok': "storage_ok ?q" using ok room by (simp add: storage_ok_def)
  have "item_at ?q i = (case i of 0 \<Rightarrow> item | Suc j \<Rightarrow> item_at q j)" if "i < ?n + 1" for i
  proof (cases i)
    case 0
    then show ?thesis using bl [OF r(1)] p(2) [of 0] r(1) unfolding item_at_def ri by simp
  next
    case (Suc j)
    have "(?r + i) mod ?m = ?r \<longleftrightarrow> i = 0"
      using add_mod_inj [of ?r i ?m 0] that room r(1) by auto
    then have "(?r + 1 + j) mod ?m \<noteq> ?r" "(?r + 1 + j) mod ?m < ?m" using Suc r(1) by simp_all
    then show ?thesis using bl p(2) [of i] Suc unfolding item_at_def ri by simp
  qed
  then have "contents ?q = map (\<lambda>i. case i of 0 \<Rightarrow> item | Suc j \<Rightarrow> item_at q j) [0..<?n + 1]"
    by (intro contents_cong [of _ q]) (use sz in simp_all)
  also have "\<dots> = item # contents q"
    using sz by (simp add: contents_def map_upt_Suc del: upt_Suc)
  finally show ?thesis using post [OF refl ok'] run by simp
qed

text \<open>Overwriting is for queues of length 1; the item there is, if any, is replaced.\<close>

lemma copy_overwrite_ensures:
  assumes ok: "storage_ok q" and sz: "uxItemSize q \<noteq> 0" and one: "uxLength q = 1"
    and item: "length item = uxItemSize q"
    and post: "\<And>q' mem r. \<lbrakk>q' = q\<lparr>pucQueueStorage := mem, pcReadFrom := r, uxMessagesWaiting := 1\<rparr>;
      storage_ok q'; contents q' = [item]\<rbrakk> \<Longrightarrow> Q q'"
  shows "ensures (copy_item_in queueOVERWRITE (Some item) q) Q"
proof (cases "uxMessagesWaiting q = 0")
  case True
  then have "contents q = []" by (simp add: contents_empty)
  then show ?thesis
    by (intro copy_front_ensures [OF ok sz]) (use True one item post in simp_all)
next
  case False
  let ?q = "q\<lparr>uxMessagesWaiting := 0\<rparr>"
  have ring: "ring_ok q" and n: "uxMessagesWaiting q = 1"
    using ok sz one False by (simp_all add: storage_ok_def)
  then have r: "read_index q = 0" using one by (simp add: ring_ok_def Let_def)
  have "pcReadFrom q = int (read_index q * uxItemSize q)" using ring by (simp add: ring_ok_def Let_def)
  then have "pcReadFrom q = 0" using r by simp
  then have "ring_ok ?q" using ring one by (simp add: ring_ok_def Let_def read_index_def)
  then have ok0: "storage_ok ?q" using ok by (simp add: storage_ok_def)
  have same: "copy_item_in queueOVERWRITE (Some item) q = copy_item_in queueOVERWRITE (Some item) ?q"
    using n by (cases q; cases "memcpy_to (pcReadFrom q) (uxItemSize q) item (pucQueueStorage q)")
      (simp_all add: copy_item_in_def Let_def)
  have "contents ?q = []" by (simp add: contents_empty)
  then show ?thesis
    unfolding same
    by (intro copy_front_ensures [OF ok0]) (use sz one item post in auto)
qed

lemma receive_item_ensures:
  assumes ok: "storage_ok q" and some: "uxMessagesWaiting q \<noteq> 0"
    and post: "\<And>q' r. \<lbrakk>q' = q\<lparr>pcReadFrom := r, uxMessagesWaiting := uxMessagesWaiting q - 1\<rparr>;
      storage_ok q'; contents q' = tl (contents q)\<rbrakk> \<Longrightarrow> Q (q', hd (contents q))"
  shows "ensures (receive_item q) Q"
proof (cases "uxItemSize q = 0")
  case True
  let ?q = "q\<lparr>uxMessagesWaiting := uxMessagesWaiting q - 1\<rparr>"
  have "storage_ok ?q" using ok True by (auto simp: storage_ok_def)
  moreover have "contents ?q = tl (contents q)" "hd (contents q) = []"
    using True some by (simp_all add: contents_def)
  moreover have "?q = q\<lparr>pcReadFrom := pcReadFrom q, uxMessagesWaiting := uxMessagesWaiting q - 1\<rparr>" by simp
  ultimately show ?thesis
    using post [of ?q "pcReadFrom q"] True by (simp add: receive_item_def prvCopyDataFromQueue_def)
next
  case sz: False
  let ?n = "uxMessagesWaiting q" and ?m = "uxLength q" and ?z = "uxItemSize q" and ?r = "read_index q"
  have "ring_ok q" using ok sz by (simp add: storage_ok_def)
  then obtain r: "?r < ?m" "pcReadFrom q = int (?r * ?z)" "pcTail q = int (?m * ?z)" "length (pucQueueStorage q) = ?m * ?z"
    and w: "pcWriteTo q = int (((?r + 1 + ?n) mod ?m) * ?z)" by (rule ring_okE)
  let ?p = "(?r + 1) mod ?m"
  have p: "?p < ?m" "(?p + i) mod ?m = (?r + 1 + i) mod ?m" for i
    using r(1) by (simp_all add: mod_add_left_eq)
  let ?q = "q\<lparr>pcReadFrom := int (?p * ?z), uxMessagesWaiting := ?n - 1\<rparr>"
  have run: "receive_item q = Some (?q, block ?z (pucQueueStorage q) ?p)"
    using step_forward [OF r(1), of ?z] memcpy_from_block [OF r(4) p(1)] sz r(2,3)
    by (auto simp: receive_item_def prvCopyDataFromQueue_def Let_def simp del: of_nat_mult split: if_splits)
  have ri: "read_index ?q = ?p" by (rule read_index_eq) (use sz in simp_all)
  have "?p + 1 + (?n - 1) = ?p + ?n" using some by simp
  then have "ring_ok ?q"
    using p(1) p(2) [of ?n] r w unfolding ring_ok_def Let_def ri by (simp del: of_nat_mult)
  then have ok': "storage_ok ?q" using ok by (auto simp: storage_ok_def)
  have "item_at ?q i = item_at q (Suc i)" for i
    using p(2) [of "1 + i"] unfolding item_at_def ri by simp
  then have "contents ?q = map (\<lambda>i. item_at q (Suc i)) [0..<?n - 1]"
    by (intro contents_cong [of _ q]) (use sz in simp_all)
  moreover have "contents q = item_at q 0 # map (\<lambda>i. item_at q (Suc i)) [0..<?n - 1]"
    using some sz by (cases "?n") (simp_all add: contents_def map_upt_Suc del: upt_Suc)
  moreover have "item_at q 0 = block ?z (pucQueueStorage q) ?p" by (simp add: item_at_def)
  ultimately show ?thesis using post [OF refl ok'] run by simp
qed

section \<open>First in, first out\<close>

text \<open>
  The contract of a bounded queue over its sequence of items, and what follows from it for
  any history of puts and gets: what came out and what is still inside, together, is what was
  inside before and what was put, in that order.
\<close>

datatype 'a fifo_op = Put 'a | Get

fun fifo_run :: "('a \<Rightarrow> 'q \<Rightarrow> 'q option) \<Rightarrow> ('q \<Rightarrow> ('q \<times> 'a) option) \<Rightarrow> ('q \<Rightarrow> bool) \<Rightarrow> ('q \<Rightarrow> bool) \<Rightarrow>
    'a fifo_op list \<Rightarrow> 'q \<Rightarrow> ('q \<times> 'a list \<times> 'a list) option" where
  "fifo_run put get is_full is_empty [] q = Some (q, [], [])"
| "fifo_run put get is_full is_empty (Put x # ops) q =
     (if is_full q then fifo_run put get is_full is_empty ops q
      else do { q \<leftarrow> put x q; (q, ins, outs) \<leftarrow> fifo_run put get is_full is_empty ops q; Some (q, x # ins, outs) })"
| "fifo_run put get is_full is_empty (Get # ops) q =
     (if is_empty q then fifo_run put get is_full is_empty ops q
      else do { (q, y) \<leftarrow> get q; (q, ins, outs) \<leftarrow> fifo_run put get is_full is_empty ops q; Some (q, ins, y # outs) })"

locale bounded_fifo =
  fixes ok :: "'q \<Rightarrow> bool" and fits :: "'q \<Rightarrow> 'a \<Rightarrow> bool" and abs :: "'q \<Rightarrow> 'a list" and cap :: "'q \<Rightarrow> nat"
    and is_full is_empty :: "'q \<Rightarrow> bool"
    and put :: "'a \<Rightarrow> 'q \<Rightarrow> 'q option" and get :: "'q \<Rightarrow> ('q \<times> 'a) option"
  assumes full: "ok q \<Longrightarrow> is_full q \<longleftrightarrow> length (abs q) = cap q"
    and empty: "ok q \<Longrightarrow> is_empty q \<longleftrightarrow> abs q = []"
    and bounded: "ok q \<Longrightarrow> length (abs q) \<le> cap q"
    and put: "ok q \<Longrightarrow> \<not> is_full q \<Longrightarrow> fits q x \<Longrightarrow>
      ensures (put x q) (\<lambda>q'. ok q' \<and> fits q' = fits q \<and> cap q' = cap q \<and> abs q' = abs q @ [x])"
    and get: "ok q \<Longrightarrow> \<not> is_empty q \<Longrightarrow>
      ensures (get q) (\<lambda>(q', y). ok q' \<and> fits q' = fits q \<and> cap q' = cap q \<and> y = hd (abs q) \<and> abs q' = tl (abs q))"
begin

lemma history:
  assumes "ok q" and "\<And>x. Put x \<in> set ops \<Longrightarrow> fits q x"
  shows "ensures (fifo_run put get is_full is_empty ops q) (\<lambda>(q', ins, outs).
    ok q' \<and> cap q' = cap q \<and> outs @ abs q' = abs q @ ins)"
  using assms
proof (induction ops arbitrary: q rule: list.induct)
  case Nil
  then show ?case by simp
next
  case (Cons p ops)
  show ?case
  proof (cases p)
    case [simp]: (Put x)
    show ?thesis
    proof (cases "is_full q")
      case True
      with Cons show ?thesis by simp
    next
      case False
      have "ensures (put x q) (\<lambda>q1. ensures (fifo_run put get is_full is_empty ops q1) (\<lambda>(q', ins, outs).
          ok q' \<and> cap q' = cap q \<and> outs @ abs q' = abs q @ x # ins))"
      proof (rule ensures_mono [OF put [OF Cons.prems(1) False]])
        show "fits q x" using Cons.prems(2) by simp
        fix q1 assume q1: "ok q1 \<and> fits q1 = fits q \<and> cap q1 = cap q \<and> abs q1 = abs q @ [x]"
        then show "ensures (fifo_run put get is_full is_empty ops q1) (\<lambda>(q', ins, outs).
          ok q' \<and> cap q' = cap q \<and> outs @ abs q' = abs q @ x # ins)"
          using Cons.IH [of q1] Cons.prems(2) by simp
      qed
      with False show ?thesis by (simp add: case_prod_unfold)
    qed
  next
    case [simp]: Get
    show ?thesis
    proof (cases "is_empty q")
      case True
      with Cons show ?thesis by simp
    next
      case False
      have "ensures (get q) (\<lambda>r. ensures (fifo_run put get is_full is_empty ops (fst r)) (\<lambda>(q', ins, outs).
          ok q' \<and> cap q' = cap q \<and> snd r # outs @ abs q' = abs q @ ins))"
      proof (rule ensures_mono [OF get [OF Cons.prems(1) False]])
        fix r assume r: "case r of (q', y) \<Rightarrow> ok q' \<and> fits q' = fits q \<and> cap q' = cap q \<and> y = hd (abs q) \<and> abs q' = tl (abs q)"
        have "abs q = snd r # abs (fst r)" using r False empty [OF Cons.prems(1)] by (cases r) simp
        then show "ensures (fifo_run put get is_full is_empty ops (fst r)) (\<lambda>(q', ins, outs).
          ok q' \<and> cap q' = cap q \<and> snd r # outs @ abs q' = abs q @ ins)"
          using Cons.IH [of "fst r"] Cons.prems(2) r by (cases r) simp
      qed
      with False show ?thesis by (simp add: case_prod_unfold)
    qed
  qed
qed

end

text \<open>A queue used with the calls that append and take from the front is a bounded FIFO.\<close>

definition send_item :: "byte list \<Rightarrow> queue \<Rightarrow> queue option" where
  "send_item item = copy_item_in queueSEND_TO_BACK (Some item)"

definition data_queue :: "queue \<Rightarrow> bool" where
  "data_queue q \<longleftrightarrow> storage_ok q \<and> uxItemSize q \<noteq> 0"

definition fits_item :: "queue \<Rightarrow> byte list \<Rightarrow> bool" where
  "fits_item q item \<longleftrightarrow> length item = uxItemSize q"

interpretation qf: bounded_fifo data_queue fits_item contents uxLength prvIsQueueFull prvIsQueueEmpty
  send_item receive_item
proof
  fix q item assume q: "data_queue q" "\<not> prvIsQueueFull q" "fits_item q item"
  then show "ensures (send_item item q) (\<lambda>q'. data_queue q' \<and> fits_item q' = fits_item q \<and>
      uxLength q' = uxLength q \<and> contents q' = contents q @ [item])"
    unfolding send_item_def
    by (intro copy_back_ensures) (auto simp: data_queue_def prvIsQueueFull_def fits_item_def storage_ok_def fun_eq_iff)
next
  fix q assume q: "data_queue q" "\<not> prvIsQueueEmpty q"
  then show "ensures (receive_item q) (\<lambda>(q', y). data_queue q' \<and> fits_item q' = fits_item q \<and>
      uxLength q' = uxLength q \<and> y = hd (contents q) \<and> contents q' = tl (contents q))"
    by (intro receive_item_ensures) (auto simp: data_queue_def prvIsQueueEmpty_def fits_item_def fun_eq_iff)
qed (auto simp: data_queue_def storage_ok_def prvIsQueueFull_def prvIsQueueEmpty_def contents_empty)

end
