(* ===== verification/Queue_Ops.thy ===== *)
theory Queue_Ops
  imports Task_Info Queue_State
begin

text \<open>
  The operations of queue.c on the state \<open>os\<close>: the kernel of tasks.c, the queues that exist
  (a handle without a queue is NULL or stale: \<open>None\<close>) and the queue registry. The event lists
  of queue \<open>h\<close> are the kernel's lists \<open>SendL h\<close> and \<open>ReceiveL h\<close>.

  A blocking call is a loop of two parts. \<open>..._try\<close> is its critical section; it returns, or
  asks to wait. \<open>..._wait\<close> locks the scheduler and the queue, checks for the time-out, and
  blocks. In it, interrupts can come at the places named by \<open>point\<close>; what they do there is the
  argument \<open>e\<close>. At \<open>Resumed\<close> the scheduler is unlocked and other tasks run as well, until the
  calling task is scheduled again. \<open>blocking_call\<close> is the loop, over a list of such
  environments, one for each round of waiting; with the list used up, the call still waits.
\<close>

record os =
  kern :: kernel
  queues :: "queue_handle \<Rightarrow> queue option"
  xQueueRegistry :: "(string option \<times> queue_handle option) list"

abbreviation set_queue :: "queue_handle \<Rightarrow> queue \<Rightarrow> os \<Rightarrow> os" where
  "set_queue h q s \<equiv> s\<lparr>queues := (queues s)(h \<mapsto> q)\<rparr>"

text \<open>\<open>pdPASS\<close> and the error codes of the queue calls are 1 and 0.\<close>

abbreviation (input) pdPASS :: bool where "pdPASS \<equiv> True"
abbreviation (input) pdFAIL :: bool where "pdFAIL \<equiv> False"
abbreviation (input) errQUEUE_FULL :: bool where "errQUEUE_FULL \<equiv> False"
abbreviation (input) errQUEUE_EMPTY :: bool where "errQUEUE_EMPTY \<equiv> False"

section \<open>Shared pieces\<close>

text \<open>Waking the first waiter if there is one, and yielding if that (or else something) asks for it.\<close>

definition wake_waiter :: "list_id \<Rightarrow> os \<Rightarrow> (os \<times> bool) option" where
  "wake_waiter l s = (if \<not> list_empty l (lists (kern s))
     then do { (k, y) \<leftarrow> xTaskRemoveFromEventList l (kern s); Some (s\<lparr>kern := k\<rparr>, y) }
     else Some (s, False))"

definition queueYIELD_IF_USING_PREEMPTION :: "os \<Rightarrow> os option" where
  "queueYIELD_IF_USING_PREEMPTION s = map_option (\<lambda>k. s\<lparr>kern := k\<rparr>) (portYIELD (kern s))"

definition yield_if :: "bool \<Rightarrow> os \<Rightarrow> os option" where
  "yield_if b s = (if b then queueYIELD_IF_USING_PREEMPTION s else Some s)"

definition prvLockQueue :: "queue_handle \<Rightarrow> os \<Rightarrow> os option" where
  "prvLockQueue h s = do {
     q \<leftarrow> queues s h;
     let q = (if cRxLock q = queueUNLOCKED then q\<lparr>cRxLock := queueLOCKED_UNMODIFIED\<rparr> else q);
     let q = (if cTxLock q = queueUNLOCKED then q\<lparr>cTxLock := queueLOCKED_UNMODIFIED\<rparr> else q);
     Some (set_queue h q s) }"

text \<open>
  The lock counts are capped at the number of tasks; a count of -1 would, cast to the unsigned
  type, be above every number of tasks.
\<close>

definition prvIncrementQueueTxLock :: "queue_handle \<Rightarrow> int \<Rightarrow> os \<Rightarrow> os option" where
  "prvIncrementQueueTxLock h lock s =
     (if 0 \<le> lock \<and> nat lock < uxTaskGetNumberOfTasks (kern s)
      then do {
        configASSERT (lock \<noteq> queueINT8_MAX);
        q \<leftarrow> queues s h;
        Some (set_queue h (q\<lparr>cTxLock := lock + 1\<rparr>) s) }
      else Some s)"

definition prvIncrementQueueRxLock :: "queue_handle \<Rightarrow> int \<Rightarrow> os \<Rightarrow> os option" where
  "prvIncrementQueueRxLock h lock s =
     (if 0 \<le> lock \<and> nat lock < uxTaskGetNumberOfTasks (kern s)
      then do {
        configASSERT (lock \<noteq> queueINT8_MAX);
        q \<leftarrow> queues s h;
        Some (set_queue h (q\<lparr>cRxLock := lock + 1\<rparr>) s) }
      else Some s)"

definition prvCopyDataToQueue ::
    "queue_handle \<Rightarrow> byte list option \<Rightarrow> copy_position \<Rightarrow> os \<Rightarrow> (os \<times> bool) option" where
  "prvCopyDataToQueue h pvItemToQueue xPosition s = do {
     q \<leftarrow> queues s h;
     if uxItemSize q = 0
     then if pcHead q = queueQUEUE_IS_MUTEX
          then do {
            (k, xReturn) \<leftarrow> xTaskPriorityDisinherit (xMutexHolder q) (kern s);
            let q = q\<lparr>xMutexHolder := None, uxMessagesWaiting := uxMessagesWaiting q + 1\<rparr>;
            Some (set_queue h q (s\<lparr>kern := k\<rparr>), xReturn) }
          else Some (set_queue h (q\<lparr>uxMessagesWaiting := uxMessagesWaiting q + 1\<rparr>) s, False)
     else do {
       q \<leftarrow> copy_item_in xPosition pvItemToQueue q;
       Some (set_queue h q s, False) } }"

text \<open>
  A queue set is a queue whose items are the handles of its members, as the bytes of a 64-bit
  pointer, least significant first.
\<close>

definition handle_bytes :: "queue_handle \<Rightarrow> byte list" where
  "handle_bytes h = le_bytes 8 h"

definition handle_of_bytes :: "byte list \<Rightarrow> queue_handle" where
  "handle_of_bytes bs = of_le_bytes (take 8 bs)"

definition prvNotifyQueueSetContainer :: "queue_handle \<Rightarrow> os \<Rightarrow> (os \<times> bool) option" where
  "prvNotifyQueueSetContainer h s = do {
     q \<leftarrow> queues s h;
     c \<leftarrow> pxQueueSetContainer q;
     cq \<leftarrow> queues s c;
     configASSERT (uxMessagesWaiting cq < uxLength cq);
     if uxMessagesWaiting cq < uxLength cq
     then do {
       let lock = cTxLock cq;
       (s, xReturn) \<leftarrow> prvCopyDataToQueue c (Some (handle_bytes h)) queueSEND_TO_BACK s;
       if lock = queueUNLOCKED
       then do { (s, y) \<leftarrow> wake_waiter (ReceiveL c) s; Some (s, y \<or> xReturn) }
       else do { s \<leftarrow> prvIncrementQueueTxLock c lock s; Some (s, xReturn) } }
     else Some (s, False) }"

section \<open>Unlocking\<close>

text \<open>The two loops of \<open>prvUnlockQueue\<close> count the lock down and stop early when no task is left.\<close>

fun unlock_tx_loop :: "nat \<Rightarrow> queue_handle \<Rightarrow> os \<Rightarrow> os option" where
  "unlock_tx_loop 0 h s = Some s"
| "unlock_tx_loop (Suc n) h s = do {
     q \<leftarrow> queues s h;
     if pxQueueSetContainer q \<noteq> None
     then do {
       (s, y) \<leftarrow> prvNotifyQueueSetContainer h s;
       unlock_tx_loop n h (if y then s\<lparr>kern := vTaskMissedYield (kern s)\<rparr> else s) }
     else if \<not> list_empty (ReceiveL h) (lists (kern s))
     then do {
       (k, y) \<leftarrow> xTaskRemoveFromEventList (ReceiveL h) (kern s);
       unlock_tx_loop n h (s\<lparr>kern := if y then vTaskMissedYield k else k\<rparr>) }
     else Some s }"

fun unlock_rx_loop :: "nat \<Rightarrow> queue_handle \<Rightarrow> os \<Rightarrow> os option" where
  "unlock_rx_loop 0 h s = Some s"
| "unlock_rx_loop (Suc n) h s =
     (if \<not> list_empty (SendL h) (lists (kern s))
      then do {
        (k, y) \<leftarrow> xTaskRemoveFromEventList (SendL h) (kern s);
        unlock_rx_loop n h (s\<lparr>kern := if y then vTaskMissedYield k else k\<rparr>) }
      else Some s)"

datatype point = AfterSuspend | AfterLock | AfterCheck | AfterTest | AfterInherit | AfterPlace
  | InUnlock | AfterUnlock | Resumed

type_synonym env = "point \<Rightarrow> os \<Rightarrow> os option"

definition unlock_tx :: "queue_handle \<Rightarrow> os \<Rightarrow> os option" where
  "unlock_tx h s = do {
     q \<leftarrow> queues s h;
     s \<leftarrow> unlock_tx_loop (nat (cTxLock q)) h s;
     q \<leftarrow> queues s h;
     Some (set_queue h (q\<lparr>cTxLock := queueUNLOCKED\<rparr>) s) }"

definition unlock_rx :: "queue_handle \<Rightarrow> os \<Rightarrow> os option" where
  "unlock_rx h s = do {
     q \<leftarrow> queues s h;
     s \<leftarrow> unlock_rx_loop (nat (cRxLock q)) h s;
     q \<leftarrow> queues s h;
     Some (set_queue h (q\<lparr>cRxLock := queueUNLOCKED\<rparr>) s) }"

definition prvUnlockQueue :: "env \<Rightarrow> queue_handle \<Rightarrow> os \<Rightarrow> os option" where
  "prvUnlockQueue e h s = do { s \<leftarrow> unlock_tx h s; s \<leftarrow> e InUnlock s; unlock_rx h s }"

section \<open>Reset and creation\<close>

definition SIZE_MAX :: nat where "SIZE_MAX = 2 ^ 64 - 1"

text \<open>The size of \<open>Queue_t\<close> on a 64-bit host.\<close>

definition sizeof_Queue_t :: nat where "sizeof_Queue_t = 168"

text \<open>
  For a mutex \<open>pcHead\<close> is NULL and the item size 0, so the two pointers written through the
  queue's view of the union leave a holder of NULL and a call count of 0 behind.
\<close>

definition reset_pointers :: "queue \<Rightarrow> queue" where
  "reset_pointers q =
     (let q = q\<lparr>pcTail := int (uxLength q * uxItemSize q), xMutexHolder := None\<rparr>;
          q = q\<lparr>uxMessagesWaiting := 0\<rparr>;
          q = q\<lparr>pcWriteTo := 0\<rparr>;
          q = q\<lparr>pcReadFrom := int ((uxLength q - 1) * uxItemSize q), uxRecursiveCallCount := 0\<rparr>;
          q = q\<lparr>cRxLock := queueUNLOCKED\<rparr>
      in q\<lparr>cTxLock := queueUNLOCKED\<rparr>)"

definition xQueueGenericReset :: "queue_handle \<Rightarrow> bool \<Rightarrow> os \<Rightarrow> (os \<times> bool) option" where
  "xQueueGenericReset h xNewQueue s = do {
     q \<leftarrow> queues s h;
     (s, xReturn) \<leftarrow>
       (if uxLength q \<ge> 1 \<and> SIZE_MAX div uxLength q \<ge> uxItemSize q
        then do {
          let s = set_queue h (reset_pointers q) s;
          s \<leftarrow> (if \<not> xNewQueue
                then do { (s, y) \<leftarrow> wake_waiter (SendL h) s; yield_if y s }
                else Some (s\<lparr>kern := (kern s)\<lparr>lists :=
                       list_init (ReceiveL h) (list_init (SendL h) (lists (kern s)))\<rparr>\<rparr>));
          Some (s, pdPASS) }
        else Some (s, pdFAIL));
     configASSERT (xReturn \<noteq> pdFAIL);
     Some (s, xReturn) }"

text \<open>
  The memory of a new queue comes from the caller or from \<open>pvPortMalloc\<close>: an address and what
  happens to be there, its storage area included. \<open>None\<close> is NULL.
\<close>

definition prvInitialiseNewQueue ::
    "nat \<Rightarrow> nat \<Rightarrow> byte list \<Rightarrow> queue_type \<Rightarrow> queue_handle \<times> queue \<Rightarrow> os \<Rightarrow> os option" where
  "prvInitialiseNewQueue len sz storage qtype m s = (case m of (h, q) \<Rightarrow> do {
     let q = (if sz = 0 then q\<lparr>pcHead := pcQueueItself\<rparr>
              else q\<lparr>pcHead := pcStorageArea, pucQueueStorage := storage\<rparr>);
     let q = q\<lparr>uxLength := len, uxItemSize := sz\<rparr>;
     (s, _) \<leftarrow> xQueueGenericReset h True (set_queue h q s);
     q \<leftarrow> queues s h;
     Some (set_queue h (q\<lparr>ucQueueType := qtype, pxQueueSetContainer := None\<rparr>) s) })"

definition xQueueGenericCreate ::
    "nat \<Rightarrow> nat \<Rightarrow> queue_type \<Rightarrow> (queue_handle \<times> queue) option \<Rightarrow> os \<Rightarrow> (os \<times> queue_handle option) option" where
  "xQueueGenericCreate len sz qtype pvMalloc s =
     (if len > 0 \<and> SIZE_MAX div len \<ge> sz \<and> SIZE_MAX - sizeof_Queue_t \<ge> len * sz
      then (case pvMalloc of
          Some (h, q) \<Rightarrow> do {
            s \<leftarrow> prvInitialiseNewQueue len sz (pucQueueStorage q) qtype
                   (h, q\<lparr>ucQueueStaticallyAllocated := False\<rparr>) s;
            Some (s, Some h) }
        | None \<Rightarrow> Some (s, None))
      else do { configASSERT False; Some (s, None) })"

definition xQueueGenericCreateStatic ::
    "nat \<Rightarrow> nat \<Rightarrow> byte list option \<Rightarrow> (queue_handle \<times> queue) option \<Rightarrow> queue_type \<Rightarrow> os \<Rightarrow>
     (os \<times> queue_handle option) option" where
  "xQueueGenericCreateStatic len sz storage pxStaticQueue qtype s = do {
     configASSERT (pxStaticQueue \<noteq> None);
     if len > 0 \<and> pxStaticQueue \<noteq> None \<and> \<not> (storage \<noteq> None \<and> sz = 0) \<and> \<not> (storage = None \<and> sz \<noteq> 0)
     then do {
       (h, q) \<leftarrow> pxStaticQueue;
       s \<leftarrow> prvInitialiseNewQueue len sz (case storage of None \<Rightarrow> [] | Some bs \<Rightarrow> bs) qtype
              (h, q\<lparr>ucQueueStaticallyAllocated := True\<rparr>) s;
       Some (s, Some h) }
     else do { configASSERT False; Some (s, None) } }"

text \<open>The pointers handed out: the storage area and the structure itself.\<close>

definition xQueueGenericGetStaticBuffers ::
    "queue_handle \<Rightarrow> os \<Rightarrow> (queue_head \<times> queue_handle) option option" where
  "xQueueGenericGetStaticBuffers h s = do {
     q \<leftarrow> queues s h;
     Some (if ucQueueStaticallyAllocated q then Some (pcHead q, h) else None) }"

section \<open>Sending\<close>

text \<open>The time-out is taken on the first round that has to wait.\<close>

definition entry_time :: "TimeOut option \<Rightarrow> os \<Rightarrow> TimeOut option" where
  "entry_time to s = (case to of None \<Rightarrow> Some (vTaskInternalSetTimeOutState (kern s)) | Some t \<Rightarrow> Some t)"

text \<open>What a round waits with: the time-out, if it is set already, and the ticks that are left.\<close>

type_synonym patience = "TimeOut option \<times> tick"

fun blocking_call :: "('p \<Rightarrow> os \<Rightarrow> (os \<times> ('r + 'p)) option) \<Rightarrow> (env \<Rightarrow> 'p \<Rightarrow> os \<Rightarrow> (os \<times> ('r + 'p)) option) \<Rightarrow>
    env list \<Rightarrow> 'p \<Rightarrow> os \<Rightarrow> (os \<times> 'r option) option" where
  "blocking_call try wait [] p s = do {
     (s, r) \<leftarrow> try p s;
     Some (s, case r of Inl x \<Rightarrow> Some x | Inr _ \<Rightarrow> None) }"
| "blocking_call try wait (e # es) p s = do {
     (s, r) \<leftarrow> try p s;
     case r of
       Inl x \<Rightarrow> Some (s, Some x)
     | Inr p \<Rightarrow> do {
         (s, r) \<leftarrow> wait e p s;
         case r of Inl x \<Rightarrow> Some (s, Some x) | Inr p \<Rightarrow> blocking_call try wait es p s } }"

text \<open>The waiting parts share their beginning and their two ends.\<close>

definition queue_wait_begin ::
    "env \<Rightarrow> queue_handle \<Rightarrow> patience \<Rightarrow> os \<Rightarrow> (os \<times> TimeOut \<times> tick \<times> bool) option" where
  "queue_wait_begin e h p s = do {
     to \<leftarrow> fst p;
     s \<leftarrow> e AfterSuspend (s\<lparr>kern := vTaskSuspendAll (kern s)\<rparr>);
     s \<leftarrow> prvLockQueue h s;
     s \<leftarrow> e AfterLock s;
     (k, to, w, expired) \<leftarrow> xTaskCheckForTimeOut to (snd p) (kern s);
     s \<leftarrow> e AfterCheck (s\<lparr>kern := k\<rparr>);
     Some (s, to, w, expired) }"

definition queue_block :: "env \<Rightarrow> queue_handle \<Rightarrow> list_id \<Rightarrow> tick \<Rightarrow> os \<Rightarrow> os option" where
  "queue_block e h l w s = do {
     k \<leftarrow> vTaskPlaceOnEventList l w (kern s);
     s \<leftarrow> e AfterPlace (s\<lparr>kern := k\<rparr>);
     s \<leftarrow> prvUnlockQueue e h s;
     s \<leftarrow> e AfterUnlock s;
     (k, y) \<leftarrow> xTaskResumeAll (kern s);
     k \<leftarrow> (if \<not> y then portYIELD k else Some k);
     e Resumed (s\<lparr>kern := k\<rparr>) }"

definition queue_go_on :: "env \<Rightarrow> queue_handle \<Rightarrow> os \<Rightarrow> os option" where
  "queue_go_on e h s = do {
     s \<leftarrow> prvUnlockQueue e h s;
     s \<leftarrow> e AfterUnlock s;
     (k, _) \<leftarrow> xTaskResumeAll (kern s);
     e Resumed (s\<lparr>kern := k\<rparr>) }"

definition xQueueGenericSend_enter :: "queue_handle \<Rightarrow> byte list option \<Rightarrow> tick \<Rightarrow> copy_position \<Rightarrow> os \<Rightarrow> unit option" where
  "xQueueGenericSend_enter h pvItemToQueue xTicksToWait xCopyPosition s = do {
     q \<leftarrow> queues s h;
     configASSERT (\<not> (pvItemToQueue = None \<and> uxItemSize q \<noteq> 0));
     configASSERT (\<not> (xCopyPosition = queueOVERWRITE \<and> uxLength q \<noteq> 1));
     configASSERT (\<not> (xTaskGetSchedulerState (kern s) = taskSCHEDULER_SUSPENDED \<and> xTicksToWait \<noteq> 0)) }"

definition xQueueGenericSend_try ::
    "queue_handle \<Rightarrow> byte list option \<Rightarrow> copy_position \<Rightarrow> patience \<Rightarrow> os \<Rightarrow> (os \<times> (bool + patience)) option" where
  "xQueueGenericSend_try h pvItemToQueue xCopyPosition p s = do {
     q \<leftarrow> queues s h;
     if uxMessagesWaiting q < uxLength q \<or> xCopyPosition = queueOVERWRITE
     then do {
       let uxPreviousMessagesWaiting = uxMessagesWaiting q;
       (s, xYieldRequired) \<leftarrow> prvCopyDataToQueue h pvItemToQueue xCopyPosition s;
       s \<leftarrow> (if pxQueueSetContainer q \<noteq> None
             then if xCopyPosition = queueOVERWRITE \<and> uxPreviousMessagesWaiting \<noteq> 0 then Some s
                  else do { (s, y) \<leftarrow> prvNotifyQueueSetContainer h s; yield_if y s }
             else if \<not> list_empty (ReceiveL h) (lists (kern s))
             then do {
               (k, y) \<leftarrow> xTaskRemoveFromEventList (ReceiveL h) (kern s);
               yield_if y (s\<lparr>kern := k\<rparr>) }
             else yield_if xYieldRequired s);
       Some (s, Inl pdPASS) }
     else if snd p = 0 then Some (s, Inl errQUEUE_FULL)
     else Some (s, Inr (entry_time (fst p) s, snd p)) }"

definition xQueueGenericSend_wait ::
    "queue_handle \<Rightarrow> env \<Rightarrow> patience \<Rightarrow> os \<Rightarrow> (os \<times> (bool + patience)) option" where
  "xQueueGenericSend_wait h e p s = do {
     (s, to, w, expired) \<leftarrow> queue_wait_begin e h p s;
     if \<not> expired
     then do {
       q \<leftarrow> queues s h;
       s \<leftarrow> e AfterTest s;
       s \<leftarrow> (if prvIsQueueFull q then queue_block e h (SendL h) w s else queue_go_on e h s);
       Some (s, Inr (Some to, w)) }
     else do { s \<leftarrow> queue_go_on e h s; Some (s, Inl errQUEUE_FULL) } }"

definition xQueueGenericSend ::
    "env list \<Rightarrow> queue_handle \<Rightarrow> byte list option \<Rightarrow> tick \<Rightarrow> copy_position \<Rightarrow> os \<Rightarrow> (os \<times> bool option) option" where
  "xQueueGenericSend es h pvItemToQueue xTicksToWait xCopyPosition s = do {
     xQueueGenericSend_enter h pvItemToQueue xTicksToWait xCopyPosition s;
     blocking_call (xQueueGenericSend_try h pvItemToQueue xCopyPosition) (xQueueGenericSend_wait h)
       es (None, xTicksToWait) s }"

text \<open>
  From an interrupt: the result, and whether a task that outranks the running one was woken
  (what is stored to \<open>*pxHigherPriorityTaskWoken\<close>).
\<close>

definition xQueueGenericSendFromISR ::
    "queue_handle \<Rightarrow> byte list option \<Rightarrow> copy_position \<Rightarrow> os \<Rightarrow> (os \<times> bool \<times> bool) option" where
  "xQueueGenericSendFromISR h pvItemToQueue xCopyPosition s = do {
     q \<leftarrow> queues s h;
     configASSERT (\<not> (pvItemToQueue = None \<and> uxItemSize q \<noteq> 0));
     configASSERT (\<not> (xCopyPosition = queueOVERWRITE \<and> uxLength q \<noteq> 1));
     if uxMessagesWaiting q < uxLength q \<or> xCopyPosition = queueOVERWRITE
     then do {
       let lock = cTxLock q;
       let uxPreviousMessagesWaiting = uxMessagesWaiting q;
       (s, _) \<leftarrow> prvCopyDataToQueue h pvItemToQueue xCopyPosition s;
       (s, woken) \<leftarrow> (if lock = queueUNLOCKED
         then if pxQueueSetContainer q \<noteq> None
              then if xCopyPosition = queueOVERWRITE \<and> uxPreviousMessagesWaiting \<noteq> 0 then Some (s, False)
                   else prvNotifyQueueSetContainer h s
              else wake_waiter (ReceiveL h) s
         else do { s \<leftarrow> prvIncrementQueueTxLock h lock s; Some (s, False) });
       Some (s, pdPASS, woken) }
     else Some (s, errQUEUE_FULL, False) }"

definition xQueueGiveFromISR :: "queue_handle \<Rightarrow> os \<Rightarrow> (os \<times> bool \<times> bool) option" where
  "xQueueGiveFromISR h s = do {
     q \<leftarrow> queues s h;
     configASSERT (uxItemSize q = 0);
     configASSERT (\<not> (pcHead q = queueQUEUE_IS_MUTEX \<and> xMutexHolder q \<noteq> None));
     if uxMessagesWaiting q < uxLength q
     then do {
       let lock = cTxLock q;
       let s = set_queue h (q\<lparr>uxMessagesWaiting := uxMessagesWaiting q + 1\<rparr>) s;
       (s, woken) \<leftarrow> (if lock = queueUNLOCKED
         then if pxQueueSetContainer q \<noteq> None then prvNotifyQueueSetContainer h s
              else wake_waiter (ReceiveL h) s
         else do { s \<leftarrow> prvIncrementQueueTxLock h lock s; Some (s, False) });
       Some (s, pdPASS, woken) }
     else Some (s, errQUEUE_FULL, False) }"

section \<open>Receiving\<close>

text \<open>\<open>pvBuffer\<close> is whether a buffer was given; the result has the bytes written to it.\<close>

definition xQueueReceive_enter :: "queue_handle \<Rightarrow> bool \<Rightarrow> tick \<Rightarrow> os \<Rightarrow> unit option" where
  "xQueueReceive_enter h pvBuffer xTicksToWait s = do {
     q \<leftarrow> queues s h;
     configASSERT (\<not> (\<not> pvBuffer \<and> uxItemSize q \<noteq> 0));
     configASSERT (\<not> (xTaskGetSchedulerState (kern s) = taskSCHEDULER_SUSPENDED \<and> xTicksToWait \<noteq> 0)) }"

definition xQueueReceive_try ::
    "queue_handle \<Rightarrow> patience \<Rightarrow> os \<Rightarrow> (os \<times> ((bool \<times> byte list) + patience)) option" where
  "xQueueReceive_try h p s = do {
     q \<leftarrow> queues s h;
     if uxMessagesWaiting q > 0
     then do {
       (q, bytes) \<leftarrow> receive_item q;
       (s, y) \<leftarrow> wake_waiter (SendL h) (set_queue h q s);
       s \<leftarrow> yield_if y s;
       Some (s, Inl (pdPASS, bytes)) }
     else if snd p = 0 then Some (s, Inl (errQUEUE_EMPTY, []))
     else Some (s, Inr (entry_time (fst p) s, snd p)) }"

text \<open>\<open>xQueueReceive\<close> and \<open>xQueuePeek\<close> wait in the same way.\<close>

definition xQueueReceive_wait ::
    "queue_handle \<Rightarrow> env \<Rightarrow> patience \<Rightarrow> os \<Rightarrow> (os \<times> ((bool \<times> byte list) + patience)) option" where
  "xQueueReceive_wait h e p s = do {
     (s, to, w, expired) \<leftarrow> queue_wait_begin e h p s;
     if \<not> expired
     then do {
       q \<leftarrow> queues s h;
       s \<leftarrow> e AfterTest s;
       s \<leftarrow> (if prvIsQueueEmpty q then queue_block e h (ReceiveL h) w s else queue_go_on e h s);
       Some (s, Inr (Some to, w)) }
     else do {
       s \<leftarrow> queue_go_on e h s;
       q \<leftarrow> queues s h;
       Some (s, if prvIsQueueEmpty q then Inl (errQUEUE_EMPTY, []) else Inr (Some to, w)) } }"

definition xQueueReceive ::
    "env list \<Rightarrow> queue_handle \<Rightarrow> bool \<Rightarrow> tick \<Rightarrow> os \<Rightarrow> (os \<times> (bool \<times> byte list) option) option" where
  "xQueueReceive es h pvBuffer xTicksToWait s = do {
     xQueueReceive_enter h pvBuffer xTicksToWait s;
     blocking_call (xQueueReceive_try h) (xQueueReceive_wait h) es (None, xTicksToWait) s }"

definition xQueuePeek_try ::
    "queue_handle \<Rightarrow> patience \<Rightarrow> os \<Rightarrow> (os \<times> ((bool \<times> byte list) + patience)) option" where
  "xQueuePeek_try h p s = do {
     q \<leftarrow> queues s h;
     if uxMessagesWaiting q > 0
     then do {
       let pcOriginalReadPosition = pcReadFrom q;
       (q, bytes) \<leftarrow> prvCopyDataFromQueue q;
       let q = q\<lparr>pcReadFrom := pcOriginalReadPosition\<rparr>;
       (s, y) \<leftarrow> wake_waiter (ReceiveL h) (set_queue h q s);
       s \<leftarrow> yield_if y s;
       Some (s, Inl (pdPASS, bytes)) }
     else if snd p = 0 then Some (s, Inl (errQUEUE_EMPTY, []))
     else Some (s, Inr (entry_time (fst p) s, snd p)) }"

definition xQueuePeek ::
    "env list \<Rightarrow> queue_handle \<Rightarrow> bool \<Rightarrow> tick \<Rightarrow> os \<Rightarrow> (os \<times> (bool \<times> byte list) option) option" where
  "xQueuePeek es h pvBuffer xTicksToWait s = do {
     xQueueReceive_enter h pvBuffer xTicksToWait s;
     blocking_call (xQueuePeek_try h) (xQueueReceive_wait h) es (None, xTicksToWait) s }"

definition xQueueReceiveFromISR :: "queue_handle \<Rightarrow> bool \<Rightarrow> os \<Rightarrow> (os \<times> bool \<times> byte list \<times> bool) option" where
  "xQueueReceiveFromISR h pvBuffer s = do {
     q \<leftarrow> queues s h;
     configASSERT (\<not> (\<not> pvBuffer \<and> uxItemSize q \<noteq> 0));
     if uxMessagesWaiting q > 0
     then do {
       let lock = cRxLock q;
       (q, bytes) \<leftarrow> receive_item q;
       let s = set_queue h q s;
       (s, woken) \<leftarrow> (if lock = queueUNLOCKED then wake_waiter (SendL h) s
         else do { s \<leftarrow> prvIncrementQueueRxLock h lock s; Some (s, False) });
       Some (s, pdPASS, bytes, woken) }
     else Some (s, pdFAIL, [], False) }"

definition xQueuePeekFromISR :: "queue_handle \<Rightarrow> bool \<Rightarrow> os \<Rightarrow> (os \<times> bool \<times> byte list) option" where
  "xQueuePeekFromISR h pvBuffer s = do {
     q \<leftarrow> queues s h;
     configASSERT (\<not> (\<not> pvBuffer \<and> uxItemSize q \<noteq> 0));
     configASSERT (uxItemSize q \<noteq> 0);
     if uxMessagesWaiting q > 0
     then do {
       let pcOriginalReadPosition = pcReadFrom q;
       (q, bytes) \<leftarrow> prvCopyDataFromQueue q;
       let q = q\<lparr>pcReadFrom := pcOriginalReadPosition\<rparr>;
       Some (set_queue h q s, pdPASS, bytes) }
     else Some (s, pdFAIL, []) }"

section \<open>Semaphores and mutexes\<close>

text \<open>The \<open>patience\<close> of a semaphore also records whether the holder inherited our priority.\<close>

type_synonym take_patience = "patience \<times> bool"

definition xQueueSemaphoreTake_enter :: "queue_handle \<Rightarrow> tick \<Rightarrow> os \<Rightarrow> unit option" where
  "xQueueSemaphoreTake_enter h xTicksToWait s = do {
     q \<leftarrow> queues s h;
     configASSERT (uxItemSize q = 0);
     configASSERT (\<not> (xTaskGetSchedulerState (kern s) = taskSCHEDULER_SUSPENDED \<and> xTicksToWait \<noteq> 0)) }"

definition xQueueSemaphoreTake_try ::
    "queue_handle \<Rightarrow> take_patience \<Rightarrow> os \<Rightarrow> (os \<times> (bool + take_patience)) option" where
  "xQueueSemaphoreTake_try h p s = do {
     q \<leftarrow> queues s h;
     if uxMessagesWaiting q > 0
     then do {
       let q = q\<lparr>uxMessagesWaiting := uxMessagesWaiting q - 1\<rparr>;
       let s = set_queue h q s;
       let s = (if pcHead q = queueQUEUE_IS_MUTEX
                then (case pvTaskIncrementMutexHeldCount (kern s) of
                        (k, holder) \<Rightarrow> set_queue h (q\<lparr>xMutexHolder := holder\<rparr>) (s\<lparr>kern := k\<rparr>))
                else s);
       (s, y) \<leftarrow> wake_waiter (SendL h) s;
       s \<leftarrow> yield_if y s;
       Some (s, Inl pdPASS) }
     else if snd (fst p) = 0 then Some (s, Inl errQUEUE_EMPTY)
     else Some (s, Inr ((entry_time (fst (fst p)) s, snd (fst p)), snd p)) }"

definition prvGetDisinheritPriorityAfterTimeout :: "queue_handle \<Rightarrow> os \<Rightarrow> nat" where
  "prvGetDisinheritPriorityAfterTimeout h s = (case members (kern s) (ReceiveL h) of
     [] \<Rightarrow> tskIDLE_PRIORITY
   | i # _ \<Rightarrow> unat (of_nat configMAX_PRIORITIES - ucast (item_value (lists (kern s)) i) :: ubase))"

definition xQueueSemaphoreTake_wait ::
    "queue_handle \<Rightarrow> env \<Rightarrow> take_patience \<Rightarrow> os \<Rightarrow> (os \<times> (bool + take_patience)) option" where
  "xQueueSemaphoreTake_wait h e p s = do {
     (s, to, w, expired) \<leftarrow> queue_wait_begin e h (fst p) s;
     if \<not> expired
     then do {
       q \<leftarrow> queues s h;
       s \<leftarrow> e AfterTest s;
       if prvIsQueueEmpty q
       then do {
         q \<leftarrow> queues s h;
         (s, inh) \<leftarrow> (if pcHead q = queueQUEUE_IS_MUTEX
           then do { (k, y) \<leftarrow> xTaskPriorityInherit (xMutexHolder q) (kern s); Some (s\<lparr>kern := k\<rparr>, y) }
           else Some (s, snd p));
         s \<leftarrow> e AfterInherit s;
         s \<leftarrow> queue_block e h (ReceiveL h) w s;
         Some (s, Inr ((Some to, w), inh)) }
       else do { s \<leftarrow> queue_go_on e h s; Some (s, Inr ((Some to, w), snd p)) } }
     else do {
       s \<leftarrow> queue_go_on e h s;
       q \<leftarrow> queues s h;
       if prvIsQueueEmpty q
       then do {
         s \<leftarrow> e AfterTest s;
         s \<leftarrow> (if snd p
               then do {
                 q \<leftarrow> queues s h;
                 k \<leftarrow> vTaskPriorityDisinheritAfterTimeout (xMutexHolder q)
                        (prvGetDisinheritPriorityAfterTimeout h s) (kern s);
                 Some (s\<lparr>kern := k\<rparr>) }
               else Some s);
         Some (s, Inl errQUEUE_EMPTY) }
       else Some (s, Inr ((Some to, w), snd p)) } }"

definition xQueueSemaphoreTake :: "env list \<Rightarrow> queue_handle \<Rightarrow> tick \<Rightarrow> os \<Rightarrow> (os \<times> bool option) option" where
  "xQueueSemaphoreTake es h xTicksToWait s = do {
     xQueueSemaphoreTake_enter h xTicksToWait s;
     blocking_call (xQueueSemaphoreTake_try h) (xQueueSemaphoreTake_wait h) es ((None, xTicksToWait), False) s }"

text \<open>A call of \<open>xQueueGenericSend\<close> with no time to wait returns from its first critical section.\<close>

definition prvInitialiseMutex :: "queue_handle \<Rightarrow> os \<Rightarrow> os option" where
  "prvInitialiseMutex h s = do {
     q \<leftarrow> queues s h;
     let q = q\<lparr>xMutexHolder := None\<rparr>;
     let q = q\<lparr>pcHead := queueQUEUE_IS_MUTEX\<rparr>;
     let q = q\<lparr>uxRecursiveCallCount := 0\<rparr>;
     (s, _) \<leftarrow> xQueueGenericSend [] h None 0 queueSEND_TO_BACK (set_queue h q s);
     Some s }"

definition xQueueCreateMutex ::
    "queue_type \<Rightarrow> (queue_handle \<times> queue) option \<Rightarrow> os \<Rightarrow> (os \<times> queue_handle option) option" where
  "xQueueCreateMutex qtype pvMalloc s = do {
     (s, xNewQueue) \<leftarrow> xQueueGenericCreate 1 0 qtype pvMalloc s;
     s \<leftarrow> (case xNewQueue of Some h \<Rightarrow> prvInitialiseMutex h s | None \<Rightarrow> Some s);
     Some (s, xNewQueue) }"

definition xQueueCreateMutexStatic ::
    "queue_type \<Rightarrow> (queue_handle \<times> queue) option \<Rightarrow> os \<Rightarrow> (os \<times> queue_handle option) option" where
  "xQueueCreateMutexStatic qtype pxStaticQueue s = do {
     (s, xNewQueue) \<leftarrow> xQueueGenericCreateStatic 1 0 None pxStaticQueue qtype s;
     s \<leftarrow> (case xNewQueue of Some h \<Rightarrow> prvInitialiseMutex h s | None \<Rightarrow> Some s);
     Some (s, xNewQueue) }"

definition xQueueCreateCountingSemaphore ::
    "nat \<Rightarrow> nat \<Rightarrow> (queue_handle \<times> queue) option \<Rightarrow> os \<Rightarrow> (os \<times> queue_handle option) option" where
  "xQueueCreateCountingSemaphore uxMaxCount uxInitialCount pvMalloc s =
     (if uxMaxCount \<noteq> 0 \<and> uxInitialCount \<le> uxMaxCount
      then do {
        (s, xHandle) \<leftarrow> xQueueGenericCreate uxMaxCount 0 queueQUEUE_TYPE_COUNTING_SEMAPHORE pvMalloc s;
        (case xHandle of
           Some h \<Rightarrow> do { q \<leftarrow> queues s h;
                         Some (set_queue h (q\<lparr>uxMessagesWaiting := uxInitialCount\<rparr>) s, xHandle) }
         | None \<Rightarrow> Some (s, None)) }
      else do { configASSERT False; Some (s, None) })"

definition xQueueCreateCountingSemaphoreStatic ::
    "nat \<Rightarrow> nat \<Rightarrow> (queue_handle \<times> queue) option \<Rightarrow> os \<Rightarrow> (os \<times> queue_handle option) option" where
  "xQueueCreateCountingSemaphoreStatic uxMaxCount uxInitialCount pxStaticQueue s =
     (if uxMaxCount \<noteq> 0 \<and> uxInitialCount \<le> uxMaxCount
      then do {
        (s, xHandle) \<leftarrow> xQueueGenericCreateStatic uxMaxCount 0 None pxStaticQueue
                         queueQUEUE_TYPE_COUNTING_SEMAPHORE s;
        (case xHandle of
           Some h \<Rightarrow> do { q \<leftarrow> queues s h;
                         Some (set_queue h (q\<lparr>uxMessagesWaiting := uxInitialCount\<rparr>) s, xHandle) }
         | None \<Rightarrow> Some (s, None)) }
      else do { configASSERT False; Some (s, None) })"

definition xQueueGetMutexHolder :: "queue_handle \<Rightarrow> os \<Rightarrow> task option option" where
  "xQueueGetMutexHolder h s = do {
     q \<leftarrow> queues s h;
     Some (if pcHead q = queueQUEUE_IS_MUTEX then xMutexHolder q else None) }"

definition xQueueGetMutexHolderFromISR :: "queue_handle \<Rightarrow> os \<Rightarrow> task option option" where
  "xQueueGetMutexHolderFromISR h s = do {
     q \<leftarrow> queues s h;
     Some (if pcHead q = queueQUEUE_IS_MUTEX then xMutexHolder q else None) }"

text \<open>
  Is the calling task the holder? In an object that is no mutex the field is a pointer into
  its own storage, which is no task.
\<close>

definition held_by_caller :: "queue \<Rightarrow> kernel \<Rightarrow> bool" where
  "held_by_caller q k \<longleftrightarrow> pcHead q = queueQUEUE_IS_MUTEX \<and> xMutexHolder q = xTaskGetCurrentTaskHandle k"

definition xQueueGiveMutexRecursive :: "queue_handle \<Rightarrow> os \<Rightarrow> (os \<times> bool) option" where
  "xQueueGiveMutexRecursive h s = do {
     q \<leftarrow> queues s h;
     if held_by_caller q (kern s)
     then do {
       let q = q\<lparr>uxRecursiveCallCount := uxRecursiveCallCount q - 1\<rparr>;
       let s = set_queue h q s;
       s \<leftarrow> (if uxRecursiveCallCount q = 0
             then map_option fst (xQueueGenericSend [] h None 0 queueSEND_TO_BACK s)
             else Some s);
       Some (s, pdPASS) }
     else Some (s, pdFAIL) }"

definition xQueueTakeMutexRecursive :: "env list \<Rightarrow> queue_handle \<Rightarrow> tick \<Rightarrow> os \<Rightarrow> (os \<times> bool option) option" where
  "xQueueTakeMutexRecursive es h xTicksToWait s = do {
     q \<leftarrow> queues s h;
     if held_by_caller q (kern s)
     then Some (set_queue h (q\<lparr>uxRecursiveCallCount := uxRecursiveCallCount q + 1\<rparr>) s, Some pdPASS)
     else do {
       (s, xReturn) \<leftarrow> xQueueSemaphoreTake es h xTicksToWait s;
       s \<leftarrow> (if xReturn = Some pdPASS
             then do { q \<leftarrow> queues s h;
                       Some (set_queue h (q\<lparr>uxRecursiveCallCount := uxRecursiveCallCount q + 1\<rparr>) s) }
             else Some s);
       Some (s, xReturn) } }"

section \<open>Counts and attributes\<close>

definition uxQueueMessagesWaiting :: "queue_handle \<Rightarrow> os \<Rightarrow> nat option" where
  "uxQueueMessagesWaiting h s = map_option uxMessagesWaiting (queues s h)"

definition uxQueueSpacesAvailable :: "queue_handle \<Rightarrow> os \<Rightarrow> nat option" where
  "uxQueueSpacesAvailable h s =
     map_option (\<lambda>q. unat (of_nat (uxLength q) - of_nat (uxMessagesWaiting q) :: ubase)) (queues s h)"

definition uxQueueMessagesWaitingFromISR :: "queue_handle \<Rightarrow> os \<Rightarrow> nat option" where
  "uxQueueMessagesWaitingFromISR h s = map_option uxMessagesWaiting (queues s h)"

definition xQueueIsQueueEmptyFromISR :: "queue_handle \<Rightarrow> os \<Rightarrow> bool option" where
  "xQueueIsQueueEmptyFromISR h s = map_option (\<lambda>q. uxMessagesWaiting q = 0) (queues s h)"

definition xQueueIsQueueFullFromISR :: "queue_handle \<Rightarrow> os \<Rightarrow> bool option" where
  "xQueueIsQueueFullFromISR h s = map_option (\<lambda>q. uxMessagesWaiting q = uxLength q) (queues s h)"

definition uxQueueGetQueueNumber :: "queue_handle \<Rightarrow> os \<Rightarrow> nat option" where
  "uxQueueGetQueueNumber h s = map_option uxQueueNumber (queues s h)"

definition vQueueSetQueueNumber :: "queue_handle \<Rightarrow> nat \<Rightarrow> os \<Rightarrow> os option" where
  "vQueueSetQueueNumber h n s = map_option (\<lambda>q. set_queue h (q\<lparr>uxQueueNumber := n\<rparr>) s) (queues s h)"

definition ucQueueGetQueueType :: "queue_handle \<Rightarrow> os \<Rightarrow> queue_type option" where
  "ucQueueGetQueueType h s = map_option ucQueueType (queues s h)"

definition uxQueueGetQueueItemSize :: "queue_handle \<Rightarrow> os \<Rightarrow> nat option" where
  "uxQueueGetQueueItemSize h s = map_option uxItemSize (queues s h)"

definition uxQueueGetQueueLength :: "queue_handle \<Rightarrow> os \<Rightarrow> nat option" where
  "uxQueueGetQueueLength h s = map_option uxLength (queues s h)"

section \<open>The queue registry\<close>

definition configQUEUE_REGISTRY_SIZE :: nat where "configQUEUE_REGISTRY_SIZE = 8"

text \<open>
  The slot to write: the one the queue already has, else the first that is vacant; \<open>i\<close> is the
  index of the entry looked at and \<open>found\<close> the vacant one seen so far.
\<close>

fun registry_slot :: "queue_handle \<Rightarrow> nat \<Rightarrow> nat option \<Rightarrow>
    (string option \<times> queue_handle option) list \<Rightarrow> nat option" where
  "registry_slot h i found [] = found"
| "registry_slot h i found ((name, xh) # es) =
     (if xh = Some h then Some i
      else if found = None \<and> name = None then registry_slot h (i + 1) (Some i) es
      else registry_slot h (i + 1) found es)"

definition vQueueAddToRegistry :: "queue_handle \<Rightarrow> string option \<Rightarrow> os \<Rightarrow> os" where
  "vQueueAddToRegistry h pcQueueName s =
     (case (if pcQueueName \<noteq> None then registry_slot h 0 None (xQueueRegistry s) else None) of
        None \<Rightarrow> s
      | Some i \<Rightarrow> s\<lparr>xQueueRegistry := (xQueueRegistry s)[i := (pcQueueName, Some h)]\<rparr>)"

fun registry_name :: "queue_handle \<Rightarrow> (string option \<times> queue_handle option) list \<Rightarrow> string option" where
  "registry_name h [] = None"
| "registry_name h ((name, xh) # es) = (if xh = Some h then name else registry_name h es)"

definition pcQueueGetName :: "queue_handle \<Rightarrow> os \<Rightarrow> string option" where
  "pcQueueGetName h s = registry_name h (xQueueRegistry s)"

fun registry_clear :: "queue_handle \<Rightarrow> (string option \<times> queue_handle option) list \<Rightarrow>
    (string option \<times> queue_handle option) list" where
  "registry_clear h [] = []"
| "registry_clear h ((name, xh) # es) = (if xh = Some h then (None, None) # es else (name, xh) # registry_clear h es)"

definition vQueueUnregisterQueue :: "queue_handle \<Rightarrow> os \<Rightarrow> os" where
  "vQueueUnregisterQueue h s = s\<lparr>xQueueRegistry := registry_clear h (xQueueRegistry s)\<rparr>"

text \<open>Freed memory holds no queue any more; a static queue's memory stays the caller's.\<close>

definition vQueueDelete :: "queue_handle \<Rightarrow> os \<Rightarrow> os option" where
  "vQueueDelete h s = do {
     q \<leftarrow> queues s h;
     let s = vQueueUnregisterQueue h s;
     Some (if \<not> ucQueueStaticallyAllocated q then s\<lparr>queues := (queues s)(h := None)\<rparr> else s) }"

section \<open>Waiting without a loop, and queue sets\<close>

definition vQueueWaitForMessageRestricted :: "env \<Rightarrow> queue_handle \<Rightarrow> tick \<Rightarrow> bool \<Rightarrow> os \<Rightarrow> os option" where
  "vQueueWaitForMessageRestricted e h xTicksToWait xWaitIndefinitely s = do {
     s \<leftarrow> prvLockQueue h s;
     s \<leftarrow> e AfterLock s;
     q \<leftarrow> queues s h;
     s \<leftarrow> e AfterTest s;
     s \<leftarrow> (if uxMessagesWaiting q = 0
           then do {
             k \<leftarrow> vTaskPlaceOnEventListRestricted (ReceiveL h) xTicksToWait xWaitIndefinitely (kern s);
             e AfterPlace (s\<lparr>kern := k\<rparr>) }
           else Some s);
     prvUnlockQueue e h s }"

definition xQueueCreateSet ::
    "nat \<Rightarrow> (queue_handle \<times> queue) option \<Rightarrow> os \<Rightarrow> (os \<times> queue_handle option) option" where
  "xQueueCreateSet uxEventQueueLength pvMalloc s =
     xQueueGenericCreate uxEventQueueLength 8 queueQUEUE_TYPE_SET pvMalloc s"

definition xQueueAddToSet :: "queue_handle \<Rightarrow> queue_handle \<Rightarrow> os \<Rightarrow> (os \<times> bool) option" where
  "xQueueAddToSet h xQueueSet s = do {
     q \<leftarrow> queues s h;
     Some (if pxQueueSetContainer q \<noteq> None then (s, pdFAIL)
           else if uxMessagesWaiting q \<noteq> 0 then (s, pdFAIL)
           else (set_queue h (q\<lparr>pxQueueSetContainer := Some xQueueSet\<rparr>) s, pdPASS)) }"

definition xQueueRemoveFromSet :: "queue_handle \<Rightarrow> queue_handle \<Rightarrow> os \<Rightarrow> (os \<times> bool) option" where
  "xQueueRemoveFromSet h xQueueSet s = do {
     q \<leftarrow> queues s h;
     Some (if pxQueueSetContainer q \<noteq> Some xQueueSet then (s, pdFAIL)
           else if uxMessagesWaiting q \<noteq> 0 then (s, pdFAIL)
           else (set_queue h (q\<lparr>pxQueueSetContainer := None\<rparr>) s, pdPASS)) }"

text \<open>
  Selecting receives a handle from the set; with nothing received the result is NULL. The
  outer option is whether the call returns at all within its environments.
\<close>

definition xQueueSelectFromSet ::
    "env list \<Rightarrow> queue_handle \<Rightarrow> tick \<Rightarrow> os \<Rightarrow> (os \<times> queue_handle option option) option" where
  "xQueueSelectFromSet es xQueueSet xTicksToWait s = do {
     (s, r) \<leftarrow> xQueueReceive es xQueueSet True xTicksToWait s;
     Some (s, map_option (\<lambda>(ok, bs). if ok then Some (handle_of_bytes bs) else None) r) }"

definition xQueueSelectFromSetFromISR :: "queue_handle \<Rightarrow> os \<Rightarrow> (os \<times> queue_handle option) option" where
  "xQueueSelectFromSetFromISR xQueueSet s = do {
     (s, ok, bs, _) \<leftarrow> xQueueReceiveFromISR xQueueSet True s;
     Some (s, if ok then Some (handle_of_bytes bs) else None) }"

end
