(* ===== verification/Task_Example.thy ===== *)
theory Task_Example
  imports Task_Notify
begin

text \<open>
  Booting, and a small system to instantiate the theorems on: two workers of one priority and
  a logger below them, created before the scheduler starts, as \<open>setup()\<close> does in a sketch.
  The states that follow it are computed by the model's own operations.
\<close>

section \<open>Creating tasks before the scheduler runs\<close>

text \<open>The kernel before its first task: the static data of tasks.c, with its lists empty.\<close>

definition kernel_cold :: kernel where
  "kernel_cold = \<lparr>lists = \<lparr>items = (\<lambda>_. []), cursor = (\<lambda>_. None), item_value = (\<lambda>_. 0), container = (\<lambda>_. None)\<rparr>,
     tcbs = (\<lambda>_. zero_tcb), pxCurrentTCB = None, pxDelayedTaskList = DelayedL1,
     pxOverflowDelayedTaskList = DelayedL2, uxDeletedTasksWaitingCleanUp = 0, uxCurrentNumberOfTasks = 0,
     xTickCount = 0, uxTopReadyPriority = tskIDLE_PRIORITY, xSchedulerRunning = False, xPendedTicks = 0,
     xYieldPending = False, xNumOfOverflows = 0, uxTaskNumber = 0, xNextTaskUnblockTime = 0,
     xIdleTaskHandle = None, uxSchedulerSuspended = 0\<rparr>"

lemma boot_inv_cold: "boot_inv kernel_cold"
proof -
  have "lists_inv (lists kernel_cold)"
    by (simp add: kernel_cold_def lists_inv_def lists_wf_def)
  moreover have "task_ok kernel_cold t" for t
    by (simp add: kernel_cold_def task_ok_def zero_tcb_def configMAX_PRIORITIES_def)
  moreover have "live_tasks kernel_cold = {}" "dead_tasks kernel_cold = {}"
    by (simp_all add: kernel_cold_def live_tasks_def dead_tasks_def)
  ultimately show ?thesis
    by (simp add: boot_inv_def kernel_inv_def kernel_core_def wake_ok_def pending_ok_def next_ok_def
        delayed_lists_def kernel_cold_def tskIDLE_PRIORITY_def configMAX_PRIORITIES_def)
qed

lemma xTaskCreate_boot:
  assumes b: "boot_inv k" and f: "fresh k t" and p: "p < configMAX_PRIORITIES"
  shows "ensures (xTaskCreate name p True (Some t) k) (\<lambda>(k', r). boot_inv k' \<and> r = Some t \<and>
     ready k' t \<and> (\<forall>x. x \<noteq> t \<and> fresh k x \<longrightarrow> fresh k' x))"
proof -
  obtain L where L: "items_reset t (lists k) L"
    and init: "prvInitialiseNewTask name p t (upd_tcb t (\<lambda>b. b\<lparr>ucStaticallyAllocated :=
        tskDYNAMICALLY_ALLOCATED_STACK_AND_TCB\<rparr>) (memset_tcb t k)) =
      Some (k\<lparr>tcbs := (tcbs k)(t := new_tcb name p tskDYNAMICALLY_ALLOCATED_STACK_AND_TCB), lists := L\<rparr>)"
    using initialised_task [OF p] by metis
  have "xTaskCreate name p True (Some t) k = do {
      k' \<leftarrow> prvAddNewTaskToReadyList t (k\<lparr>tcbs := (tcbs k)(t := new_tcb name p
        tskDYNAMICALLY_ALLOCATED_STACK_AND_TCB), lists := L\<rparr>);
      Some (k', Some t) }"
    using init by (simp add: xTaskCreate_def prvCreateTask_def Let_def)
  then show ?thesis
    using boot_add [OF b f L p, of name tskDYNAMICALLY_ALLOCATED_STACK_AND_TCB]
    by (auto simp: fresh_def elim!: ensures_mono)
qed

text \<open>Three tasks: with the idle task and the timer task, the system that \<open>vTaskStartScheduler\<close> then runs.\<close>

definition demo_tasks :: "kernel option" where
  "demo_tasks = do {
     (k, _) \<leftarrow> xTaskCreate (Some ''worker'') 3 True (Some 1) kernel_cold;
     (k, _) \<leftarrow> xTaskCreate (Some ''peer'') 3 True (Some 2) k;
     (k, _) \<leftarrow> xTaskCreate (Some ''logger'') 1 True (Some 3) k;
     Some k }"

lemma demo_tasks_boot: "ensures demo_tasks (\<lambda>k. boot_inv k \<and> fresh k 9 \<and> fresh k 8)"
proof -
  have p: "3 < configMAX_PRIORITIES" "Suc 0 < configMAX_PRIORITIES"
    by (simp_all add: configMAX_PRIORITIES_def)
  have f0: "fresh kernel_cold t" for t by (simp add: fresh_def kernel_cold_def)
  have step: "ensures (xTaskCreate name q True (Some t) k) (\<lambda>(k', _). boot_inv k' \<and> (\<forall>x. x \<notin> insert t T \<longrightarrow> fresh k' x))"
    if "boot_inv k" "\<forall>x. x \<notin> T \<longrightarrow> fresh k x" "t \<notin> T" "q < configMAX_PRIORITIES" for name q t T k
    by (rule ensures_mono [OF xTaskCreate_boot [OF that(1) _ that(4)]]) (use that in auto)
  have "ensures demo_tasks (\<lambda>k. boot_inv k \<and> (\<forall>x. x \<notin> {3, 2, 1} \<longrightarrow> fresh k x))"
    unfolding demo_tasks_def ensures_bind
    apply (rule ensures_mono [OF step [where T = "{}", OF boot_inv_cold]]; (simp add: f0 p)?)
    apply (clarify, unfold ensures_bind)
    apply (rule ensures_mono [OF step [where T = "{1}"]]; (simp add: p)?)
    apply (clarify, unfold ensures_bind)
    apply (rule ensures_mono [OF step [where T = "{2, 1}"]]; (simp add: p)?)
    apply clarsimp
    done
  then show ?thesis by (auto elim!: ensures_mono)
qed

section \<open>The small system\<close>

text \<open>
  A busy moment, at tick 3. Task 1 runs; it holds a mutex and has inherited priority 3. Task 2
  is ready at the same priority, task 6, which also holds a mutex, below them. Task 3 sleeps
  until tick 5; task 4 waits in the receive list of queue 0, until tick 9 at the latest; task
  8 sleeps past the wrap of the tick counter. Task 5 waits for a notification, task 7 is
  suspended, and task 9 is the idle task.
\<close>

definition demo_lists :: "(list_id, item_id) lists" where
  "demo_lists = \<lparr>items = (\<lambda>_. [])(ReadyL 3 := [StateI 1, StateI 2], ReadyL 1 := [StateI 6],
       ReadyL 0 := [StateI 9], DelayedL1 := [StateI 3, StateI 4], DelayedL2 := [StateI 8],
       SuspendedL := [StateI 5, StateI 7], ReceiveL 0 := [EventI 4]),
     cursor = (\<lambda>_. None)(ReadyL 3 \<mapsto> StateI 1),
     item_value = (\<lambda>_. 0)(StateI 3 := 5, StateI 4 := 9, StateI 8 := 1),
     container = (\<lambda>_. None)(StateI 1 \<mapsto> ReadyL 3, StateI 2 \<mapsto> ReadyL 3, StateI 3 \<mapsto> DelayedL1,
       StateI 4 \<mapsto> DelayedL1, EventI 4 \<mapsto> ReceiveL 0, StateI 5 \<mapsto> SuspendedL, StateI 6 \<mapsto> ReadyL 1,
       StateI 7 \<mapsto> SuspendedL, StateI 8 \<mapsto> DelayedL2, StateI 9 \<mapsto> ReadyL 0)\<rparr>"

definition demo_tcb :: "nat \<Rightarrow> nat \<Rightarrow> nat \<Rightarrow> tcb" where
  "demo_tcb base p held = zero_tcb\<lparr>uxPriority := p, uxBasePriority := base, uxMutexesHeld := held\<rparr>"

definition demo :: kernel where
  "demo = \<lparr>lists = demo_lists,
     tcbs = (\<lambda>_. zero_tcb)(1 := demo_tcb 2 3 1, 2 := demo_tcb 3 3 0, 3 := demo_tcb 5 5 0,
       4 := demo_tcb 4 4 0,
       5 := (demo_tcb 5 5 0)\<lparr>ucNotifyState := (replicate configTASK_NOTIFICATION_ARRAY_ENTRIES
          taskNOT_WAITING_NOTIFICATION)[0 := taskWAITING_NOTIFICATION]\<rparr>,
       6 := demo_tcb 1 1 1, 7 := demo_tcb 4 4 0, 8 := demo_tcb 1 1 0),
     pxCurrentTCB = Some 1, pxDelayedTaskList = DelayedL1, pxOverflowDelayedTaskList = DelayedL2,
     uxDeletedTasksWaitingCleanUp = 0, uxCurrentNumberOfTasks = 9, xTickCount = 3,
     uxTopReadyPriority = 3, xSchedulerRunning = True, xPendedTicks = 0, xYieldPending = False,
     xNumOfOverflows = 0, uxTaskNumber = 9, xNextTaskUnblockTime = 5, xIdleTaskHandle = Some 9,
     uxSchedulerSuspended = 0\<rparr>"

lemma demo_fields [simp]:
  "lists demo = demo_lists" "pxCurrentTCB demo = Some 1" "pxDelayedTaskList demo = DelayedL1"
  "pxOverflowDelayedTaskList demo = DelayedL2" "uxDeletedTasksWaitingCleanUp demo = 0"
  "uxCurrentNumberOfTasks demo = 9" "xTickCount demo = 3" "uxTopReadyPriority demo = 3"
  "xSchedulerRunning demo" "xPendedTicks demo = 0" "\<not> xYieldPending demo"
  "xNextTaskUnblockTime demo = 5" "xIdleTaskHandle demo = Some 9" "uxSchedulerSuspended demo = 0"
  by (simp_all add: demo_def)

lemma demo_items [simp]:
  "items demo_lists = (\<lambda>_. [])(ReadyL 3 := [StateI 1, StateI 2], ReadyL 1 := [StateI 6],
       ReadyL 0 := [StateI 9], DelayedL1 := [StateI 3, StateI 4], DelayedL2 := [StateI 8],
       SuspendedL := [StateI 5, StateI 7], ReceiveL 0 := [EventI 4])"
  "cursor demo_lists = (\<lambda>_. None)(ReadyL 3 \<mapsto> StateI 1)"
  "item_value demo_lists = (\<lambda>_. 0)(StateI 3 := 5, StateI 4 := 9, StateI 8 := 1)"
  "container demo_lists = (\<lambda>_. None)(StateI 1 \<mapsto> ReadyL 3, StateI 2 \<mapsto> ReadyL 3, StateI 3 \<mapsto> DelayedL1,
       StateI 4 \<mapsto> DelayedL1, EventI 4 \<mapsto> ReceiveL 0, StateI 5 \<mapsto> SuspendedL, StateI 6 \<mapsto> ReadyL 1,
       StateI 7 \<mapsto> SuspendedL, StateI 8 \<mapsto> DelayedL2, StateI 9 \<mapsto> ReadyL 0)"
  by (simp_all add: demo_lists_def)

lemma demo_prio [simp]:
  "prio demo 1 = 3" "prio demo (Suc 0) = 3" "prio demo 2 = 3" "prio demo 3 = 5" "prio demo 4 = 4" "prio demo 5 = 5"
  "prio demo 6 = 1" "prio demo 7 = 4" "prio demo 8 = 1" "prio demo 9 = 0"
  by (simp_all add: demo_def demo_tcb_def zero_tcb_def)

lemma demo_lists_inv: "lists_inv demo_lists"
proof -
  have "distinct (items demo_lists l)" for l by simp
  moreover have "container demo_lists i = Some l \<longleftrightarrow> i \<in> set (items demo_lists l)" for i l
    by (cases l; cases i) (auto simp: demo_lists_def)
  moreover have "cursor demo_lists l = Some j \<longrightarrow> j \<in> set (items demo_lists l)" for l j
    by auto
  ultimately show ?thesis
    by (simp add: lists_inv_def lists_wf_def delayed_lists_def sorted_key_def)
qed

lemma demo_task_ok: "task_ok demo t"
proof -
  have small: "uxBasePriority (tcbs demo t) \<le> prio demo t" "prio demo t < configMAX_PRIORITIES"
    "length (ulNotifiedValue (tcbs demo t)) = configTASK_NOTIFICATION_ARRAY_ENTRIES"
    "length (ucNotifyState (tcbs demo t)) = configTASK_NOTIFICATION_ARRAY_ENTRIES"
    by (simp_all add: demo_def demo_tcb_def zero_tcb_def configMAX_PRIORITIES_def)
  have "state_list demo t = Some l \<longrightarrow> \<not> is_event_list l" "event_list demo t = Some l \<longrightarrow> is_event_list l" for l
    by auto
  moreover have "state_list demo t = Some (ReadyL p) \<longrightarrow> p = prio demo t \<and> p \<le> uxTopReadyPriority demo \<and>
        (event_list demo t = None \<or> event_list demo t = Some PendingReadyL)" for p
    by auto
  moreover have "event_list demo t \<noteq> None \<longrightarrow> state_list demo t \<noteq> None \<and> state_list demo t \<noteq> Some TerminationL"
    by simp
  ultimately show ?thesis using small unfolding task_ok_def by blast
qed

lemma demo_inv: "sys_inv demo"
proof -
  have lt: "live_tasks demo = {1, 2, 3, 4, 5, 6, 7, 8, 9}" by (auto simp: live_tasks_def)
  have "dead_tasks demo = {}" by (auto simp: dead_tasks_def)
  moreover have "\<forall>t. task_ok demo t" using demo_task_ok by blast
  ultimately have "kernel_core demo"
    using demo_lists_inv lt unfolding kernel_core_def by (simp add: configMAX_PRIORITIES_def)
  moreover have "wake_ok demo t" for t by (simp add: wake_ok_def)
  ultimately have "kernel_inv demo" by (simp add: kernel_inv_def pending_ok_def next_ok_def)
  moreover have "settled demo"
  proof -
    have "ready demo t \<longrightarrow> prio demo t \<le> 3" for t by (auto simp: ready_def split: if_splits)
    then show ?thesis by (simp add: settled_def)
  qed
  ultimately show ?thesis
    by (simp add: sys_inv_def idle_ready_def current_ready_def caught_up_def ready_def)
qed

end
