(* ===== verification/Queue_Proofs.thy ===== *)
theory Queue_Proofs
  imports Queue_Ops Task_Example
begin

text \<open>
  The invariant of the queues and what the sending and receiving critical sections do: to the
  sequence of items, and to the tasks that wait.
\<close>

section \<open>Waking a waiter\<close>

text \<open>Nothing but the running task, the walking cursors and the yield flag differ.\<close>

definition same_tasks :: "kernel \<Rightarrow> kernel \<Rightarrow> bool" where
  "same_tasks k k' \<longleftrightarrow> container (lists k') = container (lists k) \<and> items (lists k') = items (lists k) \<and>
     item_value (lists k') = item_value (lists k) \<and> tcbs k' = tcbs k \<and>
     uxSchedulerSuspended k' = uxSchedulerSuspended k \<and> xTickCount k' = xTickCount k \<and>
     xIdleTaskHandle k' = xIdleTaskHandle k \<and> uxCurrentNumberOfTasks k' = uxCurrentNumberOfTasks k"

lemma same_tasks_refl [simp]: "same_tasks k k"
  by (simp add: same_tasks_def)

lemma same_tasks_trans: "same_tasks k k1 \<Longrightarrow> same_tasks k1 k2 \<Longrightarrow> same_tasks k k2"
  by (simp add: same_tasks_def)

lemma same_tasks_ready: "same_tasks k k' \<Longrightarrow> ready k' t = ready k t"
  by (simp add: same_tasks_def ready_def)

lemma switch_same_tasks: "vTaskSwitchContext k = Some k' \<Longrightarrow> same_tasks k k'"
  by (auto simp: same_tasks_def vTaskSwitchContext_def taskSELECT_HIGHEST_PRIORITY_TASK_def list_next_entry_def
        Let_def split: if_splits option.splits list.splits bind_splits)

lemma yield_ensures:
  assumes s: "sys_inv k"
  shows "ensures (portYIELD k) (\<lambda>k'. sys_inv k' \<and> same_tasks k k')"
proof -
  have "ensures (portYIELD k) sys_inv" by (rule yield_sys_inv) (use sys_invD [OF s] in auto)
  then show ?thesis using switch_same_tasks [of k] by (auto simp: ensures_iff)
qed

text \<open>The first waiter of \<open>l\<close>, if there is one, was woken; a switch may have followed.\<close>

definition served :: "list_id \<Rightarrow> kernel \<Rightarrow> kernel \<Rightarrow> bool" where
  "served l k k' \<longleftrightarrow> (case members k l of [] \<Rightarrow> same_tasks k k'
     | i # _ \<Rightarrow> (\<exists>k1. event_woken l (owner i) k k1 \<and> same_tasks k1 k'))"

lemma served_frame:
  assumes "served l k k'"
  shows "tcbs k' = tcbs k" "uxSchedulerSuspended k' = uxSchedulerSuspended k" "xTickCount k' = xTickCount k"
    "xIdleTaskHandle k' = xIdleTaskHandle k" "uxCurrentNumberOfTasks k' = uxCurrentNumberOfTasks k"
    "item_value (lists k') = item_value (lists k)"
  using assms by (auto simp: served_def same_tasks_def event_woken_def split: list.splits)

lemma served_others:
  assumes "served l k k'"
  shows "is_event_list l' \<Longrightarrow> l' \<noteq> l \<Longrightarrow> l' \<noteq> PendingReadyL \<Longrightarrow> members k' l' = members k l'"
    "\<not> (members k l \<noteq> [] \<and> x = owner (hd (members k l))) \<Longrightarrow>
      state_list k' x = state_list k x \<and> event_list k' x = event_list k x"
  using assms by (auto simp: served_def same_tasks_def event_woken_def split: list.splits)

lemma served_first:
  assumes sv: "served l k k'" and core: "kernel_core k" and l: "is_event_list l"
  shows "members k' l = tl (members k l)"
    "members k l \<noteq> [] \<Longrightarrow> t = owner (hd (members k l)) \<Longrightarrow>
      (if uxSchedulerSuspended k = 0 then ready k' t \<and> event_list k' t = None
       else state_list k' t = state_list k t \<and> event_list k' t = Some PendingReadyL)"
proof -
  have "members k' l = tl (members k l) \<and> (members k l \<noteq> [] \<longrightarrow> t = owner (hd (members k l)) \<longrightarrow>
      (if uxSchedulerSuspended k = 0 then ready k' t \<and> event_list k' t = None
       else state_list k' t = state_list k t \<and> event_list k' t = Some PendingReadyL))"
  proof (cases "members k l")
    case Nil
    with sv show ?thesis by (simp add: served_def same_tasks_def)
  next
    case (Cons i rest)
    then have i: "i = EventI (owner i)" using event_member [OF core _ l] by auto
    from sv Cons obtain k1 where k1: "event_woken l (owner i) k k1" and st: "same_tasks k1 k'"
      by (auto simp: served_def)
    have "members k' l = members k1 l" "ready k' x = ready k1 x" "event_list k' x = event_list k1 x"
      "state_list k' x = state_list k1 x" for x
      using st by (simp_all add: same_tasks_def ready_def)
    moreover have "members k1 l = rest" using k1 Cons i by (simp add: event_woken_def)
    moreover have "if uxSchedulerSuspended k = 0 then ready k1 (owner i) \<and> event_list k1 (owner i) = None
       else state_list k1 (owner i) = state_list k (owner i) \<and> event_list k1 (owner i) = Some PendingReadyL"
      using k1 unfolding event_woken_def by blast
    ultimately show ?thesis using Cons by simp
  qed
  then show "members k' l = tl (members k l)"
    "members k l \<noteq> [] \<Longrightarrow> t = owner (hd (members k l)) \<Longrightarrow>
      (if uxSchedulerSuspended k = 0 then ready k' t \<and> event_list k' t = None
       else state_list k' t = state_list k t \<and> event_list k' t = Some PendingReadyL)"
    by blast+
qed

lemma served_same: "served l k k1 \<Longrightarrow> same_tasks k1 k2 \<Longrightarrow> served l k k2"
  by (auto simp: served_def split: list.splits intro: same_tasks_trans)

lemma remove_first_ensures:
  assumes s: "sys_inv k" and l: "is_event_list l" "l \<noteq> PendingReadyL" and ne: "members k l \<noteq> []"
    and post: "\<And>k' y. \<lbrakk>sys_inv k'; served l k k'; pxCurrentTCB k' = pxCurrentTCB k; y \<longrightarrow> xYieldPending k';
      xYieldPending k \<longrightarrow> xYieldPending k'\<rbrakk> \<Longrightarrow> Q (k', y)"
  shows "ensures (xTaskRemoveFromEventList l k) Q"
proof -
  from sys_invD(5) [OF s] obtain c where c: "pxCurrentTCB k = Some c" by (rule current_readyE)
  obtain i rest where ms: "members k l = i # rest" using ne by (cases "members k l") auto
  then have i: "i = EventI (owner i)" using event_member [OF sys_invD(2) [OF s] _ l(1)] by auto
  show ?thesis
  proof (rule xTaskRemoveFromEventList_ensures [OF s l c])
    show "members k l = EventI (owner i) # rest" using ms i by simp
    fix k' assume k': "sys_inv k'" "event_woken l (owner i) k k'"
      "prio k c < prio k (owner i) \<longrightarrow> xYieldPending k'" "xYieldPending k \<longrightarrow> xYieldPending k'"
    have "served l k k'" using k'(2) ms by (auto simp: served_def)
    moreover have "pxCurrentTCB k' = pxCurrentTCB k" using k'(2) by (simp add: event_woken_def)
    ultimately show "Q (k', prio k c < prio k (owner i))" using k' post by blast
  qed
qed

lemma wake_waiter_ensures:
  assumes s: "sys_inv (kern s)" and l: "is_event_list l" "l \<noteq> PendingReadyL"
    and post: "\<And>k' y. \<lbrakk>sys_inv k'; served l (kern s) k'; pxCurrentTCB k' = pxCurrentTCB (kern s);
      y \<longrightarrow> xYieldPending k'; xYieldPending (kern s) \<longrightarrow> xYieldPending k'\<rbrakk> \<Longrightarrow> Q (s\<lparr>kern := k'\<rparr>, y)"
  shows "ensures (wake_waiter l s) Q"
proof (cases "members (kern s) l = []")
  case True
  then have "served l (kern s) (kern s)" by (simp add: served_def)
  with post [OF s this refl] True show ?thesis by (simp add: wake_waiter_def)
next
  case False
  show ?thesis
    using False unfolding wake_waiter_def
    by simp (rule remove_first_ensures [OF s l False], simp add: post)
qed

lemma yield_if_ensures:
  assumes s: "sys_inv (kern s)"
    and post: "\<And>k'. \<lbrakk>sys_inv k'; same_tasks (kern s) k'\<rbrakk> \<Longrightarrow> Q (s\<lparr>kern := k'\<rparr>)"
  shows "ensures (yield_if b s) Q"
proof (cases b)
  case False
  with post [OF s same_tasks_refl] show ?thesis by (simp add: yield_if_def)
next
  case True
  then show ?thesis
    unfolding yield_if_def queueYIELD_IF_USING_PREEMPTION_def
    by simp (rule ensures_mono [OF yield_ensures [OF s]], simp add: post)
qed

lemma wake_yield_ensures:
  assumes s: "sys_inv (kern s)" and l: "is_event_list l" "l \<noteq> PendingReadyL"
    and post: "\<And>k'. \<lbrakk>sys_inv k'; served l (kern s) k'\<rbrakk> \<Longrightarrow> Q (s\<lparr>kern := k'\<rparr>)"
  shows "ensures (wake_waiter l s) (\<lambda>(s', y). ensures (yield_if y s') Q)"
proof (rule wake_waiter_ensures [OF s l], unfold prod.case)
  fix k1 y assume k1: "sys_inv k1" "served l (kern s) k1"
  show "ensures (yield_if y (s\<lparr>kern := k1\<rparr>)) Q"
    by (rule yield_if_ensures) (use k1 post served_same in auto)
qed

section \<open>The invariant\<close>

text \<open>
  A mutex has one token and no storage, and while a task holds it the token is out. The lock
  counts fit their type.
\<close>

definition queue_ok :: "queue \<Rightarrow> bool" where
  "queue_ok q \<longleftrightarrow> storage_ok q \<and> (uxItemSize q \<noteq> 0 \<longrightarrow> pcHead q = pcStorageArea) \<and>
     (pcHead q = queueQUEUE_IS_MUTEX \<longrightarrow>
        uxLength q = 1 \<and> (xMutexHolder q \<noteq> None \<longrightarrow> uxMessagesWaiting q = 0)) \<and>
     queueUNLOCKED \<le> cRxLock q \<and> cRxLock q \<le> queueINT8_MAX \<and>
     queueUNLOCKED \<le> cTxLock q \<and> cTxLock q \<le> queueINT8_MAX"

text \<open>A task has counted every mutex it holds.\<close>

definition mutexes_of :: "os \<Rightarrow> task \<Rightarrow> queue_handle set" where
  "mutexes_of s t = {h. \<exists>q. queues s h = Some q \<and> pcHead q = queueQUEUE_IS_MUTEX \<and> xMutexHolder q = Some t}"

definition owners_ok :: "os \<Rightarrow> bool" where
  "owners_ok s \<longleftrightarrow> (\<forall>t. finite (mutexes_of s t) \<and> card (mutexes_of s t) \<le> uxMutexesHeld (tcbs (kern s) t))"

definition os_inv :: "os \<Rightarrow> bool" where
  "os_inv s \<longleftrightarrow> sys_inv (kern s) \<and> (\<forall>h q. queues s h = Some q \<longrightarrow> queue_ok q) \<and> owners_ok s"

lemma os_invD:
  assumes "os_inv s"
  shows "sys_inv (kern s)" "queues s h = Some q \<Longrightarrow> queue_ok q" "owners_ok s"
  using assms by (simp_all add: os_inv_def)

lemma queue_okD:
  assumes "queue_ok q"
  shows "storage_ok q" "uxItemSize q \<noteq> 0 \<Longrightarrow> pcHead q = pcStorageArea" "uxMessagesWaiting q \<le> uxLength q"
    "pcHead q = queueQUEUE_IS_MUTEX \<Longrightarrow> uxItemSize q = 0"
    "pcHead q = queueQUEUE_IS_MUTEX \<Longrightarrow> uxLength q = 1"
    "pcHead q = queueQUEUE_IS_MUTEX \<Longrightarrow> xMutexHolder q = Some t \<Longrightarrow> uxMessagesWaiting q = 0"
  using assms by (auto simp: queue_ok_def storage_ok_def)

lemma mutexes_of_kern [simp]: "mutexes_of (s\<lparr>kern := k\<rparr>) t = mutexes_of s t"
  by (simp add: mutexes_of_def)

lemma os_inv_kern:
  assumes "os_inv s" and "sys_inv k" and "\<And>t. uxMutexesHeld (tcbs k t) = uxMutexesHeld (tcbs (kern s) t)"
  shows "os_inv (s\<lparr>kern := k\<rparr>)"
  using assms by (simp add: os_inv_def owners_ok_def)

lemma os_inv_set_queue:
  assumes inv: "os_inv s" and q: "queues s h = Some q" and ok: "queue_ok q'"
    and same: "pcHead q' = pcHead q" "xMutexHolder q' = xMutexHolder q"
  shows "os_inv (set_queue h q' s)"
proof -
  have "mutexes_of (set_queue h q' s) t = mutexes_of s t" for t
    using q same by (auto simp: mutexes_of_def)
  then show ?thesis using inv ok by (simp add: os_inv_def owners_ok_def)
qed

text \<open>The parts of a queue that moving items does not touch.\<close>

definition same_object :: "queue \<Rightarrow> queue \<Rightarrow> bool" where
  "same_object q q' \<longleftrightarrow> q' = q\<lparr>pucQueueStorage := pucQueueStorage q', pcWriteTo := pcWriteTo q',
     pcReadFrom := pcReadFrom q', uxMessagesWaiting := uxMessagesWaiting q'\<rparr>"

lemma same_object_fields:
  assumes "same_object q q'"
  shows "pcHead q' = pcHead q" "xMutexHolder q' = xMutexHolder q" "uxRecursiveCallCount q' = uxRecursiveCallCount q"
    "uxLength q' = uxLength q" "uxItemSize q' = uxItemSize q" "cRxLock q' = cRxLock q" "cTxLock q' = cTxLock q"
    "pxQueueSetContainer q' = pxQueueSetContainer q" "ucQueueType q' = ucQueueType q" "pcTail q' = pcTail q"
proof -
  from assms obtain m w r n where q': "q' = q\<lparr>pucQueueStorage := m, pcWriteTo := w, pcReadFrom := r, uxMessagesWaiting := n\<rparr>"
    unfolding same_object_def by blast
  show "pcHead q' = pcHead q" "xMutexHolder q' = xMutexHolder q" "uxRecursiveCallCount q' = uxRecursiveCallCount q"
    "uxLength q' = uxLength q" "uxItemSize q' = uxItemSize q" "cRxLock q' = cRxLock q" "cTxLock q' = cTxLock q"
    "pxQueueSetContainer q' = pxQueueSetContainer q" "ucQueueType q' = ucQueueType q" "pcTail q' = pcTail q"
    by (simp_all add: q')
qed

lemma same_object_ok:
  assumes ok: "queue_ok q" and same: "same_object q q'" and st: "storage_ok q'" and nm: "pcHead q \<noteq> queueQUEUE_IS_MUTEX"
  shows "queue_ok q'"
  using ok st nm same_object_fields [OF same] by (simp add: queue_ok_def)

section \<open>Moving items\<close>

text \<open>Where a sent item goes.\<close>

fun put_item :: "copy_position \<Rightarrow> byte list \<Rightarrow> byte list list \<Rightarrow> byte list list" where
  "put_item queueSEND_TO_BACK x xs = xs @ [x]"
| "put_item queueSEND_TO_FRONT x xs = x # xs"
| "put_item queueOVERWRITE x xs = [x]"

text \<open>
  A call that the assertions let through: the item has the queue's item size (a semaphore
  needs none), there is room, or the queue has length 1 and the item is to be overwritten.
\<close>

definition can_send :: "queue \<Rightarrow> byte list option \<Rightarrow> copy_position \<Rightarrow> bool" where
  "can_send q item pos \<longleftrightarrow>
     (uxItemSize q \<noteq> 0 \<longrightarrow> (\<exists>x. item = Some x \<and> length x = uxItemSize q)) \<and>
     (pos = queueOVERWRITE \<longrightarrow> uxItemSize q \<noteq> 0 \<and> uxLength q = 1)"

definition sent_bytes :: "queue \<Rightarrow> byte list option \<Rightarrow> byte list" where
  "sent_bytes q item = (if uxItemSize q = 0 then [] else the item)"

lemma copy_item_in_ensures:
  assumes ok: "storage_ok q" and sz: "uxItemSize q \<noteq> 0" and can: "can_send q item pos"
    and room: "uxMessagesWaiting q < uxLength q \<or> pos = queueOVERWRITE"
    and post: "\<And>q'. \<lbrakk>same_object q q'; storage_ok q'; contents q' = put_item pos (sent_bytes q item) (contents q)\<rbrakk> \<Longrightarrow> Q q'"
  shows "ensures (copy_item_in pos item q) Q"
proof -
  from can sz obtain x where item [simp]: "item = Some x" and x: "length x = uxItemSize q"
    by (auto simp: can_send_def)
  have sb: "sent_bytes q item = x" using sz by (simp add: sent_bytes_def)
  show ?thesis
  proof (cases pos)
    case queueSEND_TO_BACK
    then show ?thesis
      unfolding item by simp (rule copy_back_ensures [OF ok sz _ x], use room post sb in \<open>auto simp: same_object_def\<close>)
  next
    case queueSEND_TO_FRONT
    then show ?thesis
      unfolding item by simp (rule copy_front_ensures [OF ok sz _ _ _ x], use room post sb in \<open>auto simp: same_object_def\<close>)
  next
    case queueOVERWRITE
    then have "uxLength q = 1" using can by (simp add: can_send_def)
    with queueOVERWRITE show ?thesis
      unfolding item by simp (rule copy_overwrite_ensures [OF ok sz _ x], use post sb in \<open>auto simp: same_object_def\<close>)
  qed
qed

text \<open>\<open>prvCopyDataToQueue\<close> on anything but a mutex.\<close>

lemma prvCopyDataToQueue_ensures:
  assumes q: "queues s h = Some q" and ok: "queue_ok q" and nm: "pcHead q \<noteq> queueQUEUE_IS_MUTEX"
    and can: "can_send q item pos" and room: "uxMessagesWaiting q < uxLength q \<or> pos = queueOVERWRITE"
    and post: "\<And>q'. \<lbrakk>same_object q q'; queue_ok q'; contents q' = put_item pos (sent_bytes q item) (contents q)\<rbrakk>
      \<Longrightarrow> Q (set_queue h q' s, False)"
  shows "ensures (prvCopyDataToQueue h item pos s) Q"
proof (cases "uxItemSize q = 0")
  case True
  let ?q = "q\<lparr>uxMessagesWaiting := uxMessagesWaiting q + 1\<rparr>"
  have pos: "pos \<noteq> queueOVERWRITE" using can True by (auto simp: can_send_def)
  then have "storage_ok ?q" using queue_okD(1) [OF ok] True room by (auto simp: storage_ok_def)
  moreover have so: "same_object q ?q" by (simp add: same_object_def)
  ultimately have "queue_ok ?q" using same_object_ok [OF ok so _ nm] by simp
  moreover have "contents ?q = put_item pos (sent_bytes q item) (contents q)"
    using True pos by (cases pos) (simp_all add: contents_def sent_bytes_def replicate_append_same)
  ultimately show ?thesis using post [OF so] True q nm by (simp add: prvCopyDataToQueue_def)
next
  case False
  have "ensures (copy_item_in pos item q) (\<lambda>q'. Q (set_queue h q' s, False))"
    by (rule copy_item_in_ensures [OF queue_okD(1) [OF ok] False can room])
      (use post same_object_ok [OF ok _ _ nm] in blast)
  then show ?thesis using q False by (simp add: prvCopyDataToQueue_def)
qed

section \<open>Sending\<close>

lemma xQueueGenericSend_try_ensures:
  assumes inv: "os_inv s" and q: "queues s h = Some q" and nm: "pcHead q \<noteq> queueQUEUE_IS_MUTEX"
    and set: "pxQueueSetContainer q = None" and can: "can_send q item pos"
    and room: "uxMessagesWaiting q < uxLength q \<or> pos = queueOVERWRITE"
    and post: "\<And>q' k'. \<lbrakk>same_object q q'; queue_ok q'; contents q' = put_item pos (sent_bytes q item) (contents q);
      sys_inv k'; served (ReceiveL h) (kern s) k'; os_inv ((set_queue h q' s)\<lparr>kern := k'\<rparr>)\<rbrakk>
      \<Longrightarrow> Q ((set_queue h q' s)\<lparr>kern := k'\<rparr>, Inl pdPASS)"
  shows "ensures (xQueueGenericSend_try h item pos p s) Q"
proof -
  note ok = os_invD(2) [OF inv q] and si = os_invD(1) [OF inv]
  have "ensures (prvCopyDataToQueue h item pos s) (\<lambda>(s1, y). ensures
      (if \<not> list_empty (ReceiveL h) (lists (kern s1))
       then do { (k, y) \<leftarrow> xTaskRemoveFromEventList (ReceiveL h) (kern s1); yield_if y (s1\<lparr>kern := k\<rparr>) }
       else yield_if y s1) (\<lambda>s2. Q (s2, Inl pdPASS)))"
  proof (rule prvCopyDataToQueue_ensures [OF q ok nm can room], unfold prod.case)
    fix q' assume q': "same_object q q'" "queue_ok q'" "contents q' = put_item pos (sent_bytes q item) (contents q)"
    let ?s = "set_queue h q' s"
    have inv': "os_inv ?s"
      by (rule os_inv_set_queue [OF inv q q'(2)]) (use same_object_fields [OF q'(1)] in simp_all)
    have fin: "Q (?s\<lparr>kern := k'\<rparr>, Inl pdPASS)" if "sys_inv k'" "served (ReceiveL h) (kern s) k'" for k'
      using post [OF q' that os_inv_kern [OF inv' that(1)]] served_frame(1) [OF that(2)] by simp
    have w: "ensures (wake_waiter (ReceiveL h) ?s) (\<lambda>(s', y). ensures (yield_if y s') (\<lambda>s2. Q (s2, Inl pdPASS)))"
      by (rule wake_yield_ensures) (use si fin in simp_all)
    show "ensures (if \<not> list_empty (ReceiveL h) (lists (kern ?s))
       then do { (k, y) \<leftarrow> xTaskRemoveFromEventList (ReceiveL h) (kern ?s); yield_if y (?s\<lparr>kern := k\<rparr>) }
       else yield_if False ?s) (\<lambda>s2. Q (s2, Inl pdPASS))"
      using w by (cases "members (kern s) (ReceiveL h) = []") (simp_all add: wake_waiter_def case_prod_unfold)
  qed
  then show ?thesis
    using q set room by (simp add: xQueueGenericSend_try_def Let_def case_prod_unfold)
qed

lemma xQueueGenericSend_try_full:
  assumes "queues s h = Some q" and "uxMessagesWaiting q = uxLength q" and "pos \<noteq> queueOVERWRITE"
  shows "xQueueGenericSend_try h item pos p s =
    Some (s, if snd p = 0 then Inl errQUEUE_FULL else Inr (entry_time (fst p) s, snd p))"
  using assms by (simp add: xQueueGenericSend_try_def)

section \<open>Receiving\<close>

lemma receive_item_object:
  assumes ok: "queue_ok q" and nm: "pcHead q \<noteq> queueQUEUE_IS_MUTEX" and some: "uxMessagesWaiting q \<noteq> 0"
    and post: "\<And>q'. \<lbrakk>same_object q q'; queue_ok q'; contents q' = tl (contents q)\<rbrakk> \<Longrightarrow> Q (q', hd (contents q))"
  shows "ensures (receive_item q) Q"
proof (rule receive_item_ensures [OF queue_okD(1) [OF ok] some])
  fix q' r assume q': "q' = q\<lparr>pcReadFrom := r, uxMessagesWaiting := uxMessagesWaiting q - 1\<rparr>"
    "storage_ok q'" "contents q' = tl (contents q)"
  then have "same_object q q'" by (simp add: same_object_def)
  with same_object_ok [OF ok this q'(2) nm] q'(3) show "Q (q', hd (contents q))" by (intro post)
qed

lemma xQueueReceive_try_ensures:
  assumes inv: "os_inv s" and q: "queues s h = Some q" and nm: "pcHead q \<noteq> queueQUEUE_IS_MUTEX"
    and some: "uxMessagesWaiting q \<noteq> 0"
    and post: "\<And>q' k'. \<lbrakk>same_object q q'; queue_ok q'; contents q' = tl (contents q);
      sys_inv k'; served (SendL h) (kern s) k'; os_inv ((set_queue h q' s)\<lparr>kern := k'\<rparr>)\<rbrakk>
      \<Longrightarrow> Q ((set_queue h q' s)\<lparr>kern := k'\<rparr>, Inl (pdPASS, hd (contents q)))"
  shows "ensures (xQueueReceive_try h p s) Q"
proof -
  note ok = os_invD(2) [OF inv q] and si = os_invD(1) [OF inv]
  have "ensures (receive_item q) (\<lambda>(q', bytes). ensures (wake_waiter (SendL h) (set_queue h q' s))
      (\<lambda>(s', y). ensures (yield_if y s') (\<lambda>s2. Q (s2, Inl (pdPASS, bytes)))))"
  proof (rule receive_item_object [OF ok nm some], unfold prod.case)
    fix q' assume q': "same_object q q'" "queue_ok q'" "contents q' = tl (contents q)"
    let ?s = "set_queue h q' s"
    have inv': "os_inv ?s"
      by (rule os_inv_set_queue [OF inv q q'(2)]) (use same_object_fields [OF q'(1)] in simp_all)
    have fin: "Q (?s\<lparr>kern := k'\<rparr>, Inl (pdPASS, hd (contents q)))" if "sys_inv k'" "served (SendL h) (kern s) k'" for k'
      using post [OF q' that os_inv_kern [OF inv' that(1)]] served_frame(1) [OF that(2)] by simp
    show "ensures (wake_waiter (SendL h) ?s)
      (\<lambda>(s', y). ensures (yield_if y s') (\<lambda>s2. Q (s2, Inl (pdPASS, hd (contents q)))))"
      by (rule wake_yield_ensures) (use si fin in simp_all)
  qed
  then show ?thesis
    using q some by (simp add: xQueueReceive_try_def Let_def case_prod_unfold)
qed

lemma xQueueReceive_try_empty:
  assumes "queues s h = Some q" and "uxMessagesWaiting q = 0"
  shows "xQueueReceive_try h p s =
    Some (s, if snd p = 0 then Inl (errQUEUE_EMPTY, []) else Inr (entry_time (fst p) s, snd p))"
  using assms by (simp add: xQueueReceive_try_def)

end
