(* ===== verification/Queue_Wait.thy ===== *)
theory Queue_Wait
  imports Queue_Proofs
begin

text \<open>
  The waiting half of the blocking calls. While a task waits to be put on an event list it
  holds the scheduler lock and the lock of the queue; interrupts go on, and add or take items.
  \<open>lock_inv\<close> is what holds of the kernel in that time, whether the task is still ready or
  already blocked.
\<close>

section \<open>The kernel while the scheduler is locked\<close>

definition lock_inv :: "kernel \<Rightarrow> bool" where
  "lock_inv k \<longleftrightarrow> kernel_inv k \<and> xSchedulerRunning k \<and> idle_ready k \<and> uxSchedulerSuspended k \<noteq> 0 \<and>
     pxCurrentTCB k \<noteq> None"

lemma lock_invD:
  assumes "lock_inv k"
  shows "kernel_inv k" "kernel_core k" "xSchedulerRunning k" "idle_ready k" "uxSchedulerSuspended k \<noteq> 0"
    "\<exists>c. pxCurrentTCB k = Some c"
  using assms by (auto simp: lock_inv_def kernel_inv_def)

lemma lock_inv_suspend: "sys_inv k \<Longrightarrow> lock_inv (vTaskSuspendAll k)"
  using sys_inv_lock [of k]
  by (auto simp: lock_inv_def sys_inv_def vTaskSuspendAll_def current_ready_def)

lemma lock_inv_simple [simp]:
  "lock_inv (k\<lparr>xYieldPending := b\<rparr>) = lock_inv k"
  "lock_inv (k\<lparr>xPendedTicks := n\<rparr>) = lock_inv k"
  by (simp_all add: lock_inv_def)

lemma lock_inv_current: "lock_inv k \<Longrightarrow> current_ready k \<Longrightarrow> settled k \<Longrightarrow> sys_inv k"
  by (simp add: lock_inv_def sys_inv_def caught_up_def)

text \<open>A waiter that is woken in this time is noted as pending.\<close>

lemma remove_first_locked:
  assumes li: "lock_inv k" and l: "is_event_list l" "l \<noteq> PendingReadyL" and ne: "members k l \<noteq> []"
    and post: "\<And>k' y. \<lbrakk>lock_inv k'; served l k k'; pxCurrentTCB k' = pxCurrentTCB k;
      settled k \<longrightarrow> settled k'\<rbrakk> \<Longrightarrow> Q (k', y)"
  shows "ensures (xTaskRemoveFromEventList l k) Q"
proof -
  note inv = lock_invD(1) [OF li] and core = lock_invD(2) [OF li] and susp = lock_invD(5) [OF li]
  from lock_invD(6) [OF li] obtain c where cur: "pxCurrentTCB k = Some c" by blast
  obtain i rest where ms: "members k l = i # rest" using ne by (cases "members k l") auto
  then obtain t where i: "i = EventI t" using event_member [OF core _ l(1), of i] by auto
  have hd: "list_head l (lists k) = Some (EventI t)" using ms i by (simp add: list_head_def)
  have ev: "event_list k t = Some l" using member_iff(2) [OF core, of t l] ms i by simp
  have st: "state_list k t \<noteq> None" "state_list k t \<noteq> Some TerminationL"
    using task_okD(8,9) [OF kernel_core_task [OF core] ev] by simp_all
  define fin where "fin k2 = (if prio k c < prio k t then k2\<lparr>xYieldPending := True\<rparr> else k2)" for k2 :: kernel
  show ?thesis
    unfolding xTaskRemoveFromEventList_def hd Option.bind.bind_lunit owner.simps ensures_bind [of "k_list_remove _ _"]
  proof (rule k_list_remove_ensures [OF kernel_core_lists [OF core]])
    show "event_list k t \<noteq> None" using ev by simp
    fix L assume L: "lists_inv L" "container L = (container (lists k))(EventI t := None)"
      "item_value L = item_value (lists k)" "\<And>l. items L l = remove1 (EventI t) (members k l)"
    let ?k1 = "k\<lparr>lists := L\<rparr>"
    let ?k2 = "k_list_insert_end PendingReadyL (EventI t) ?k1"
    have s1: "kernel_inv ?k1" by (rule event_off_inv [OF inv L(1,2) _ L(4)]) (use L susp in simp_all)
    have s2: "kernel_inv ?k2"
      by (rule to_pending_inv [OF s1]) (use L st susp in simp_all)
    have s3: "lock_inv (fin ?k2)"
      using s2 li L(2) by (simp add: fin_def lock_inv_def idle_ready_def ready_def list_frame)
    have "event_woken l t k (fin ?k2)"
      using susp L l ev member_iff(2) [OF core, of t]
      by (auto simp: event_woken_def fin_def list_frame intro!: remove1_idem)
    then have "served l k (fin ?k2)" using ms i by (auto simp: served_def)
    moreover have "settled k \<longrightarrow> settled (fin ?k2)"
      using L(2) by (simp add: fin_def settled_def ready_def list_frame)
    ultimately have "Q (fin ?k2, prio k c < prio k t)" by (intro post s3) (simp_all add: fin_def)
    then show "ensures (do {
       k2 \<leftarrow> (if uxSchedulerSuspended ?k1 = 0
         then do {
           k2 \<leftarrow> k_list_remove (StateI t) ?k1;
           let k3 = prvAddTaskToReadyList t k2;
           Some (prvResetNextTaskUnblockTime k3) }
         else Some (k_list_insert_end PendingReadyL (EventI t) ?k1));
       c \<leftarrow> pxCurrentTCB k2;
       if prio k2 t > prio k2 c then Some (k2\<lparr>xYieldPending := True\<rparr>, True) else Some (k2, False) }) Q"
      using susp cur by (cases "prio k c < prio k t") (simp_all add: fin_def)
  qed
qed

lemma wake_waiter_locked:
  assumes li: "lock_inv (kern s)" and l: "is_event_list l" "l \<noteq> PendingReadyL"
    and post: "\<And>k' y. \<lbrakk>lock_inv k'; served l (kern s) k'; pxCurrentTCB k' = pxCurrentTCB (kern s);
      settled (kern s) \<longrightarrow> settled k'\<rbrakk> \<Longrightarrow> Q (s\<lparr>kern := k'\<rparr>, y)"
  shows "ensures (wake_waiter l s) Q"
proof (cases "members (kern s) l = []")
  case True
  then have "served l (kern s) (kern s)" by (simp add: served_def)
  with post [OF li this refl, of False] True show ?thesis by (simp add: wake_waiter_def)
next
  case False
  show ?thesis
    using False unfolding wake_waiter_def
    by simp (rule remove_first_locked [OF li l False], simp add: post)
qed

section \<open>Unlocking a queue\<close>

text \<open>The first \<open>n\<close> waiters of \<open>l\<close> are noted as pending; no other task is touched.\<close>

definition pended :: "nat \<Rightarrow> list_id \<Rightarrow> kernel \<Rightarrow> kernel \<Rightarrow> bool" where
  "pended n l k k' \<longleftrightarrow> members k' l = drop n (members k l) \<and>
     (\<forall>t. state_list k' t = state_list k t \<and> event_list k' t =
        (if EventI t \<in> set (take n (members k l)) then Some PendingReadyL else event_list k t)) \<and>
     (\<forall>l'. is_event_list l' \<and> l' \<noteq> l \<and> l' \<noteq> PendingReadyL \<longrightarrow> members k' l' = members k l') \<and>
     tcbs k' = tcbs k \<and> pxCurrentTCB k' = pxCurrentTCB k \<and> uxSchedulerSuspended k' = uxSchedulerSuspended k \<and>
     xTickCount k' = xTickCount k \<and> xIdleTaskHandle k' = xIdleTaskHandle k \<and>
     uxCurrentNumberOfTasks k' = uxCurrentNumberOfTasks k \<and> item_value (lists k') = item_value (lists k) \<and>
     (settled k \<longrightarrow> settled k')"

lemma pended_0 [simp]: "pended 0 l k k"
  by (simp add: pended_def)

lemma pended_none: "members k l = [] \<Longrightarrow> pended n l k k"
  by (simp add: pended_def)

lemma pended_Suc:
  assumes core: "kernel_core k" and l: "is_event_list l" "l \<noteq> PendingReadyL" and susp: "uxSchedulerSuspended k \<noteq> 0"
    and ne: "members k l \<noteq> []"
    and s: "served l k k1" "pxCurrentTCB k1 = pxCurrentTCB k" "settled k \<longrightarrow> settled k1"
    and y: "y \<or> y = xYieldPending k1" and p: "pended n l (k1\<lparr>xYieldPending := y\<rparr>) k2"
  shows "pended (Suc n) l k k2"
proof -
  obtain i rest where ms: "members k l = i # rest" using ne by (cases "members k l") auto
  have i: "i = EventI (owner i)" using event_member [OF core _ l(1), of i] ms by simp
  note sf = served_frame [OF s(1)] and so = served_others [OF s(1)] and s1 = served_first [OF s(1) core l(1)]
  have "members k1 l = rest" using s1(1) ms by simp
  moreover have "state_list k1 x = state_list k x" "event_list k1 x = (if x = owner i then Some PendingReadyL else event_list k x)" for x
    using s1(2) [OF ne, of "owner i"] so(2) [of x] susp ms by auto
  moreover have "EventI x \<in> set (take (Suc n) (members k l)) \<longleftrightarrow> x = owner i \<or> EventI x \<in> set (take n rest)" for x
    using ms i by auto
  moreover have "settled k \<longrightarrow> settled (k1\<lparr>xYieldPending := y\<rparr>)"
    using s(3) y by (auto simp: settled_def ready_def)
  ultimately show ?thesis
    using p sf so(1) s(2) ms unfolding pended_def by simp
qed

text \<open>Both loops of \<open>prvUnlockQueue\<close> wake one waiter per round, if the queue is in no set.\<close>

fun drain :: "nat \<Rightarrow> list_id \<Rightarrow> os \<Rightarrow> os option" where
  "drain 0 l s = Some s"
| "drain (Suc n) l s =
     (if \<not> list_empty l (lists (kern s))
      then do {
        (k, y) \<leftarrow> xTaskRemoveFromEventList l (kern s);
        drain n l (s\<lparr>kern := if y then vTaskMissedYield k else k\<rparr>) }
      else Some s)"

lemma unlock_rx_loop_drain: "unlock_rx_loop n h s = drain n (SendL h) s"
  by (induction n arbitrary: s) (simp_all cong: option.case_cong)

lemma unlock_tx_loop_drain:
  "queues s h = Some q \<Longrightarrow> pxQueueSetContainer q = None \<Longrightarrow> unlock_tx_loop n h s = drain n (ReceiveL h) s"
  by (induction n arbitrary: s) simp_all

lemma drain_ensures:
  assumes "lock_inv (kern s)" and l: "is_event_list l" "l \<noteq> PendingReadyL"
    and "\<And>k'. \<lbrakk>lock_inv k'; pended n l (kern s) k'\<rbrakk> \<Longrightarrow> Q (s\<lparr>kern := k'\<rparr>)"
  shows "ensures (drain n l s) Q"
  using assms(1,4)
proof (induction n arbitrary: s)
  case 0
  then show ?case using 0(2) [OF 0(1)] by simp
next
  case (Suc n)
  show ?case
  proof (cases "members (kern s) l = []")
    case True
    then show ?thesis using Suc.prems(2) [OF Suc.prems(1)] pended_none [OF True] by simp
  next
    case ne: False
    have "ensures (xTaskRemoveFromEventList l (kern s)) (\<lambda>(k, y).
      ensures (drain n l (s\<lparr>kern := if y then vTaskMissedYield k else k\<rparr>)) Q)"
    proof (rule remove_first_locked [OF Suc.prems(1) l ne], unfold prod.case)
      fix k1 y assume k1: "lock_inv k1" "served l (kern s) k1" "pxCurrentTCB k1 = pxCurrentTCB (kern s)"
        "settled (kern s) \<longrightarrow> settled k1"
      have step: "ensures (drain n l (s\<lparr>kern := k1\<lparr>xYieldPending := b\<rparr>\<rparr>)) Q"
        if b: "b \<or> b = xYieldPending k1" for b
      proof (rule Suc.IH)
        fix k2 assume k2: "lock_inv k2" "pended n l (kern (s\<lparr>kern := k1\<lparr>xYieldPending := b\<rparr>\<rparr>)) k2"
        have "pended (Suc n) l (kern s) k2"
          by (rule pended_Suc [OF lock_invD(2) [OF Suc.prems(1)] l lock_invD(5) [OF Suc.prems(1)] ne k1(2,3,4) b])
            (use k2 in simp_all)
        with Suc.prems(2) [OF k2(1)] show "Q (s\<lparr>kern := k1\<lparr>xYieldPending := b\<rparr>, kern := k2\<rparr>)" by simp
      qed (use k1 in simp)
      show "ensures (drain n l (s\<lparr>kern := if y then vTaskMissedYield k1 else k1\<rparr>)) Q"
        using step [of True] step [of "xYieldPending k1"] by (simp add: vTaskMissedYield_def)
    qed
    with ne show ?thesis by (simp add: case_prod_unfold)
  qed
qed

section \<open>What interrupts do while the scheduler is locked\<close>

text \<open>Interrupt calls act under this invariant; it says nothing of the task that is waiting.\<close>

definition sched_locked :: "os \<Rightarrow> bool" where
  "sched_locked s \<longleftrightarrow> lock_inv (kern s) \<and> (\<forall>h q. queues s h = Some q \<longrightarrow> queue_ok q) \<and> owners_ok s \<and>
     uxCurrentNumberOfTasks (kern s) \<le> 127"

lemma sched_lockedD:
  assumes "sched_locked s"
  shows "lock_inv (kern s)" "queues s h = Some q \<Longrightarrow> queue_ok q" "uxCurrentNumberOfTasks (kern s) \<le> 127"
    "owners_ok s" "kernel_core (kern s)"
  using assms by (simp_all add: sched_locked_def lock_invD(2))

text \<open>
  One side of a queue: the tasks waiting in \<open>l\<close>, the lock count they depend on, and whether
  what they wait for has happened. On a locked queue no waiter leaves the list, and the event
  is counted; on an unlocked one it wakes the first waiter.
\<close>

definition side_progress :: "list_id \<Rightarrow> kernel \<Rightarrow> kernel \<Rightarrow> int \<Rightarrow> int \<Rightarrow> bool \<Rightarrow> bool" where
  "side_progress l k k' lock lock' happened \<longleftrightarrow>
     lock \<le> lock' \<and> (lock = queueUNLOCKED \<longrightarrow> lock' = queueUNLOCKED) \<and>
     (\<exists>m. members k' l = drop m (members k l)) \<and>
     (0 \<le> lock \<longrightarrow> members k' l = members k l \<and> (happened \<longrightarrow> 0 < lock')) \<and>
     (lock = queueUNLOCKED \<longrightarrow> happened \<longrightarrow> members k l = [] \<or>
        event_list k' (owner (hd (members k l))) = Some PendingReadyL)"

definition queue_progress :: "queue_handle \<Rightarrow> kernel \<Rightarrow> kernel \<Rightarrow> queue \<Rightarrow> queue \<Rightarrow> bool" where
  "queue_progress h k k' q q' \<longleftrightarrow>
     pcHead q' = pcHead q \<and> uxLength q' = uxLength q \<and> uxItemSize q' = uxItemSize q \<and>
     pxQueueSetContainer q' = pxQueueSetContainer q \<and> xMutexHolder q' = xMutexHolder q \<and>
     side_progress (ReceiveL h) k k' (cTxLock q) (cTxLock q') (uxMessagesWaiting q < uxMessagesWaiting q') \<and>
     side_progress (SendL h) k k' (cRxLock q) (cRxLock q') (uxMessagesWaiting q' < uxMessagesWaiting q)"

definition kernel_progress :: "kernel \<Rightarrow> kernel \<Rightarrow> bool" where
  "kernel_progress k k' \<longleftrightarrow> (\<forall>t. state_list k' t = state_list k t) \<and>
     (\<forall>t. event_list k' t = event_list k t \<or> event_list k t \<noteq> None \<and> event_list k' t = Some PendingReadyL) \<and>
     tcbs k' = tcbs k \<and> pxCurrentTCB k' = pxCurrentTCB k \<and> xIdleTaskHandle k' = xIdleTaskHandle k \<and>
     uxSchedulerSuspended k' = uxSchedulerSuspended k \<and> uxCurrentNumberOfTasks k' = uxCurrentNumberOfTasks k \<and>
     item_value (lists k') = item_value (lists k) \<and> (settled k \<longrightarrow> settled k')"

definition progress :: "os \<Rightarrow> os \<Rightarrow> bool" where
  "progress s s' \<longleftrightarrow> kernel_progress (kern s) (kern s') \<and>
     (\<forall>h q. queues s h = Some q \<longrightarrow>
        (\<exists>q'. queues s' h = Some q' \<and> queue_progress h (kern s) (kern s') q q'))"

lemma side_progress_refl [simp]: "side_progress l k k lock lock False"
  unfolding side_progress_def by (simp add: exI [of _ 0])

lemma queue_progress_refl [simp]: "queue_progress h k k q q"
  by (simp add: queue_progress_def)

lemma kernel_progress_refl [simp]: "kernel_progress k k"
  by (simp add: kernel_progress_def)

lemma progress_refl [simp]: "progress s s"
  by (simp add: progress_def)

lemma side_progress_trans:
  assumes core: "kernel_core k" "kernel_core k1" and l: "is_event_list l" "l \<noteq> PendingReadyL"
    and kp: "kernel_progress k k1" "kernel_progress k1 k2"
    and a: "side_progress l k k1 m m1 x" and b: "side_progress l k1 k2 m1 m2 y" and z: "z \<longrightarrow> x \<or> y"
  shows "side_progress l k k2 m m2 z"
proof -
  have keep: "event_list k2 t = Some PendingReadyL" if "event_list k1 t = Some PendingReadyL" for t
    using kp(2) that unfolding kernel_progress_def by (metis option.inject)
  have "members k l = [] \<or> event_list k2 (owner (hd (members k l))) = Some PendingReadyL"
    if un: "m = queueUNLOCKED" and "z"
  proof (cases "members k l = [] \<or> event_list k1 (owner (hd (members k l))) = Some PendingReadyL")
    case True
    with keep show ?thesis by blast
  next
    case False
    then have "\<not> x" "y" using a un \<open>z\<close> z by (auto simp: side_progress_def)
    let ?t = "owner (hd (members k l))"
    have hd: "hd (members k l) = EventI ?t" "event_list k ?t = Some l"
      using event_member [OF core(1) _ l(1), of "hd (members k l)"] False by auto
    then have "event_list k1 ?t = Some l" using kp(1) False unfolding kernel_progress_def by metis
    then have "EventI ?t \<in> set (members k1 l)" using member_iff(2) [OF core(2)] by blast
    moreover obtain n where n: "members k1 l = drop n (members k l)" using a by (auto simp: side_progress_def)
    moreover have "distinct (members k l)"
      using lists_wf_distinct [OF lists_inv_wf [OF kernel_core_lists [OF core(1)]]] .
    ultimately have "n = 0" using hd(1) False
      by (cases "members k l"; cases n) (auto dest: in_set_dropD)
    then have "members k1 l = members k l" using n by simp
    with a b un \<open>y\<close> False show ?thesis by (auto simp: side_progress_def)
  qed
  moreover have "\<exists>n. members k1 l = drop n (members k l)" "\<exists>n. members k2 l = drop n (members k1 l)"
    using a b by (simp_all add: side_progress_def)
  then have "\<exists>n. members k2 l = drop n (members k l)" by auto
  moreover have "0 \<le> m \<longrightarrow> members k2 l = members k l \<and> (z \<longrightarrow> 0 < m2)"
  proof (intro impI conjI)
    assume m: "0 \<le> m"
    then have m1: "0 \<le> m1" using a by (simp add: side_progress_def)
    show "members k2 l = members k l" using a b m m1 by (simp add: side_progress_def)
    show "0 < m2" if "z"
    proof -
      have "x \<longrightarrow> 0 < m1" using a m by (simp add: side_progress_def)
      moreover have "y \<longrightarrow> 0 < m2" "m1 \<le> m2" using b m1 by (simp_all add: side_progress_def)
      ultimately have "0 < m1 \<or> 0 < m2" "m1 \<le> m2" using z that by blast+
      then show ?thesis by linarith
    qed
  qed
  moreover have "m \<le> m1" "m = queueUNLOCKED \<longrightarrow> m1 = queueUNLOCKED"
      "m1 \<le> m2" "m1 = queueUNLOCKED \<longrightarrow> m2 = queueUNLOCKED"
    using a b by (simp_all add: side_progress_def)
  then have "m \<le> m2" "m = queueUNLOCKED \<longrightarrow> m2 = queueUNLOCKED" by auto
  ultimately show ?thesis unfolding side_progress_def by blast
qed

lemma kernel_progress_trans: "kernel_progress k k1 \<Longrightarrow> kernel_progress k1 k2 \<Longrightarrow> kernel_progress k k2"
  unfolding kernel_progress_def by (metis option.distinct(1) option.inject)

lemma progress_trans:
  assumes lk: "sched_locked s" "sched_locked s1" and a: "progress s s1" and b: "progress s1 s2"
  shows "progress s s2"
proof -
  note core = sched_lockedD(5) [OF lk(1)] sched_lockedD(5) [OF lk(2)]
  have kp: "kernel_progress (kern s) (kern s1)" "kernel_progress (kern s1) (kern s2)"
    using a b by (simp_all add: progress_def)
  have "\<exists>q2. queues s2 h = Some q2 \<and> queue_progress h (kern s) (kern s2) q q2" if "queues s h = Some q" for h q
  proof -
    from that a obtain q1 where q1: "queues s1 h = Some q1" "queue_progress h (kern s) (kern s1) q q1"
      unfolding progress_def by blast
    from q1(1) b obtain q2 where q2: "queues s2 h = Some q2" "queue_progress h (kern s1) (kern s2) q1 q2"
      unfolding progress_def by blast
    note p = q1(2) [unfolded queue_progress_def] q2(2) [unfolded queue_progress_def]
    have "side_progress (ReceiveL h) (kern s) (kern s2) (cTxLock q) (cTxLock q2) (uxMessagesWaiting q < uxMessagesWaiting q2)"
      by (rule side_progress_trans [OF core _ _ kp]) (use p in auto)
    moreover have "side_progress (SendL h) (kern s) (kern s2) (cRxLock q) (cRxLock q2) (uxMessagesWaiting q2 < uxMessagesWaiting q)"
      by (rule side_progress_trans [OF core _ _ kp]) (use p in auto)
    ultimately show ?thesis using p q2(1) by (simp add: queue_progress_def)
  qed
  with kernel_progress_trans [OF kp] show ?thesis by (simp add: progress_def)
qed

lemma served_progress:
  assumes li: "lock_inv k" and sv: "served l k k'" and l: "is_event_list l"
    and cur: "pxCurrentTCB k' = pxCurrentTCB k" "settled k \<longrightarrow> settled k'"
  shows "kernel_progress k k'"
proof -
  note core = lock_invD(2) [OF li] and susp = lock_invD(5) [OF li]
  have "state_list k' t = state_list k t \<and>
      (event_list k' t = event_list k t \<or> event_list k t \<noteq> None \<and> event_list k' t = Some PendingReadyL)" for t
  proof (cases "members k l \<noteq> [] \<and> t = owner (hd (members k l))")
    case False
    then show ?thesis using served_others(2) [OF sv] by blast
  next
    case True
    then have "event_list k t = Some l" using event_member [OF core _ l] list.set_sel(1) by metis
    then show ?thesis using served_first(2) [OF sv core l] True susp by auto
  qed
  then show ?thesis using served_frame [OF sv] cur unfolding kernel_progress_def by blast
qed

lemma sched_locked_update:
  assumes lk: "sched_locked s" and q: "queues s g = Some q" and same: "pcHead q' = pcHead q" "xMutexHolder q' = xMutexHolder q"
    and ok: "queue_ok q'" and k: "lock_inv k'" "tcbs k' = tcbs (kern s)"
      "uxCurrentNumberOfTasks k' = uxCurrentNumberOfTasks (kern s)"
  shows "sched_locked ((set_queue g q' s)\<lparr>kern := k'\<rparr>)"
proof -
  have "mutexes_of ((set_queue g q' s)\<lparr>kern := k'\<rparr>) t = mutexes_of s t" for t
    using q same by (auto simp: mutexes_of_def)
  then show ?thesis using lk ok k by (simp add: sched_locked_def owners_ok_def)
qed

text \<open>Progress of one queue, all the others being as they were.\<close>

lemma progress_one:
  assumes q: "queues s g = Some q" and kp: "kernel_progress (kern s) k'"
    and qp: "queue_progress g (kern s) k' q q'"
    and others: "\<And>h. h \<noteq> g \<Longrightarrow> members k' (ReceiveL h) = members (kern s) (ReceiveL h)"
      "\<And>h. h \<noteq> g \<Longrightarrow> members k' (SendL h) = members (kern s) (SendL h)"
  shows "progress s ((set_queue g q' s)\<lparr>kern := k'\<rparr>)"
proof -
  have "side_progress l (kern s) k' m m False" if "members k' l = members (kern s) l" for l m
    using that unfolding side_progress_def by (simp add: exI [of _ 0])
  then have "queue_progress h (kern s) k' r r" if "h \<noteq> g" for h r
    using others [OF that] by (simp add: queue_progress_def)
  with q kp qp show ?thesis by (auto simp: progress_def)
qed

lemma served_side:
  assumes core: "kernel_core k" and susp: "uxSchedulerSuspended k \<noteq> 0" and sv: "served l k k'" and l: "is_event_list l"
  shows "side_progress l k k' queueUNLOCKED queueUNLOCKED x"
    "is_event_list l' \<Longrightarrow> l' \<noteq> l \<Longrightarrow> l' \<noteq> PendingReadyL \<Longrightarrow> side_progress l' k k' m m False"
proof -
  have "members k' l = drop 1 (members k l)" using served_first(1) [OF sv core l] by (simp add: drop_Suc)
  then show "side_progress l k k' queueUNLOCKED queueUNLOCKED x"
    using served_first(2) [OF sv core l] susp
    unfolding side_progress_def queueUNLOCKED_def by auto
  show "side_progress l' k k' m m False" if "is_event_list l'" "l' \<noteq> l" "l' \<noteq> PendingReadyL"
    using served_others(1) [OF sv that] unfolding side_progress_def by (simp add: exI [of _ 0])
qed

lemma isr_wake_tx:
  assumes lk: "sched_locked s" and q: "queues s g = Some q" and so: "same_object q q'" and ok: "queue_ok q'"
    and un: "cTxLock q = queueUNLOCKED" and n: "uxMessagesWaiting q \<le> uxMessagesWaiting q'"
  shows "ensures (wake_waiter (ReceiveL g) (set_queue g q' s)) (\<lambda>(s', _). sched_locked s' \<and> progress s s')"
proof (rule wake_waiter_locked, unfold prod.case)
  note f = same_object_fields [OF so] and li = sched_lockedD(1) [OF lk]
  show "lock_inv (kern (set_queue g q' s))" using li by simp
  fix k' assume k': "lock_inv k'" "served (ReceiveL g) (kern (set_queue g q' s)) k'"
    "pxCurrentTCB k' = pxCurrentTCB (kern (set_queue g q' s))" "settled (kern (set_queue g q' s)) \<longrightarrow> settled k'"
  then have sv: "served (ReceiveL g) (kern s) k'" by simp
  note side = served_side [OF lock_invD(2) [OF li] lock_invD(5) [OF li] sv]
  have "kernel_progress (kern s) k'" by (rule served_progress [OF li sv]) (use k' in simp_all)
  moreover have "queue_progress g (kern s) k' q q'"
    using side(1) side(2) [of "SendL g" "cRxLock q"] f n un by (simp add: queue_progress_def)
  ultimately have "progress s ((set_queue g q' s)\<lparr>kern := k'\<rparr>)"
    by (intro progress_one [OF q]) (use served_others(1) [OF sv] in auto)
  moreover have "sched_locked ((set_queue g q' s)\<lparr>kern := k'\<rparr>)"
    by (rule sched_locked_update [OF lk q]) (use f ok k' served_frame [OF sv] in simp_all)
  ultimately show "sched_locked ((set_queue g q' s)\<lparr>kern := k'\<rparr>) \<and> progress s ((set_queue g q' s)\<lparr>kern := k'\<rparr>)" by blast
qed simp_all

lemma isr_wake_rx:
  assumes lk: "sched_locked s" and q: "queues s g = Some q" and so: "same_object q q'" and ok: "queue_ok q'"
    and un: "cRxLock q = queueUNLOCKED" and n: "uxMessagesWaiting q' \<le> uxMessagesWaiting q"
  shows "ensures (wake_waiter (SendL g) (set_queue g q' s)) (\<lambda>(s', _). sched_locked s' \<and> progress s s')"
proof (rule wake_waiter_locked, unfold prod.case)
  note f = same_object_fields [OF so] and li = sched_lockedD(1) [OF lk]
  show "lock_inv (kern (set_queue g q' s))" using li by simp
  fix k' assume k': "lock_inv k'" "served (SendL g) (kern (set_queue g q' s)) k'"
    "pxCurrentTCB k' = pxCurrentTCB (kern (set_queue g q' s))" "settled (kern (set_queue g q' s)) \<longrightarrow> settled k'"
  then have sv: "served (SendL g) (kern s) k'" by simp
  note side = served_side [OF lock_invD(2) [OF li] lock_invD(5) [OF li] sv]
  have "kernel_progress (kern s) k'" by (rule served_progress [OF li sv]) (use k' in simp_all)
  moreover have "queue_progress g (kern s) k' q q'"
    using side(1) side(2) [of "ReceiveL g" "cTxLock q"] f n un by (simp add: queue_progress_def)
  ultimately have "progress s ((set_queue g q' s)\<lparr>kern := k'\<rparr>)"
    by (intro progress_one [OF q]) (use served_others(1) [OF sv] in auto)
  moreover have "sched_locked ((set_queue g q' s)\<lparr>kern := k'\<rparr>)"
    by (rule sched_locked_update [OF lk q]) (use f ok k' served_frame [OF sv] in simp_all)
  ultimately show "sched_locked ((set_queue g q' s)\<lparr>kern := k'\<rparr>) \<and> progress s ((set_queue g q' s)\<lparr>kern := k'\<rparr>)" by blast
qed simp_all

text \<open>On a locked queue the call is counted instead; there is always a task, so the count moves on.\<close>

lemma some_task: assumes "lock_inv k" shows "0 < uxCurrentNumberOfTasks k"
proof -
  from lock_invD(4) [OF assms] obtain i where "ready k i" by (rule idle_readyE)
  then have "i \<in> live_tasks k" by (simp add: live_tasks_def ready_def)
  then show ?thesis using lock_invD(2) [OF assms] by (auto simp: kernel_core_def card_gt_0_iff)
qed

lemma isr_count_tx:
  assumes lk: "sched_locked s" and q: "queues s g = Some q" and so: "same_object q q'" and ok: "queue_ok q'"
    and lock: "0 \<le> cTxLock q" and n: "uxMessagesWaiting q \<le> uxMessagesWaiting q'"
  shows "ensures (prvIncrementQueueTxLock g (cTxLock q) (set_queue g q' s)) (\<lambda>s'. sched_locked s' \<and> progress s s')"
proof -
  note f = same_object_fields [OF so] and li = sched_lockedD(1) [OF lk]
  define m where "m = (if nat (cTxLock q) < uxCurrentNumberOfTasks (kern s) then cTxLock q + 1 else cTxLock q)"
  let ?q = "q'\<lparr>cTxLock := m\<rparr>"
  have m: "0 < m" "cTxLock q \<le> m" "m \<le> queueINT8_MAX"
    using lock some_task [OF li] sched_lockedD(3) [OF lk] queue_okD [OF ok] ok f
    by (auto simp: m_def queueINT8_MAX_def queue_ok_def)
  have run: "prvIncrementQueueTxLock g (cTxLock q) (set_queue g q' s) = Some (set_queue g ?q s)"
  proof (cases "nat (cTxLock q) < uxCurrentNumberOfTasks (kern s)")
    case True
    then have "cTxLock q \<noteq> 127" using sched_lockedD(3) [OF lk] by auto
    then show ?thesis using True lock
      by (simp add: prvIncrementQueueTxLock_def uxTaskGetNumberOfTasks_def m_def queueINT8_MAX_def)
  next
    case False
    have "q'\<lparr>cTxLock := cTxLock q\<rparr> = q'" by (simp flip: f(7))
    with False show ?thesis by (simp add: prvIncrementQueueTxLock_def uxTaskGetNumberOfTasks_def m_def)
  qed
  have st: "storage_ok ?q = storage_ok q'"
    by (simp add: storage_ok_def ring_ok_def read_index_def)
  have "queue_progress g (kern s) (kern s) q ?q"
    using f m lock n by (simp add: queue_progress_def side_progress_def exI [of _ 0] queueUNLOCKED_def)
  then have "progress s ((set_queue g ?q s)\<lparr>kern := kern s\<rparr>)" by (intro progress_one [OF q]) simp_all
  moreover have "sched_locked ((set_queue g ?q s)\<lparr>kern := kern s\<rparr>)"
    by (rule sched_locked_update [OF lk q]) (use f ok li m st in \<open>auto simp: queue_ok_def queueUNLOCKED_def\<close>)
  ultimately show ?thesis by (simp add: run)
qed

lemma isr_count_rx:
  assumes lk: "sched_locked s" and q: "queues s g = Some q" and so: "same_object q q'" and ok: "queue_ok q'"
    and lock: "0 \<le> cRxLock q" and n: "uxMessagesWaiting q' \<le> uxMessagesWaiting q"
  shows "ensures (prvIncrementQueueRxLock g (cRxLock q) (set_queue g q' s)) (\<lambda>s'. sched_locked s' \<and> progress s s')"
proof -
  note f = same_object_fields [OF so] and li = sched_lockedD(1) [OF lk]
  define m where "m = (if nat (cRxLock q) < uxCurrentNumberOfTasks (kern s) then cRxLock q + 1 else cRxLock q)"
  let ?q = "q'\<lparr>cRxLock := m\<rparr>"
  have m: "0 < m" "cRxLock q \<le> m" "m \<le> queueINT8_MAX"
    using lock some_task [OF li] sched_lockedD(3) [OF lk] queue_okD [OF ok] ok f
    by (auto simp: m_def queueINT8_MAX_def queue_ok_def)
  have run: "prvIncrementQueueRxLock g (cRxLock q) (set_queue g q' s) = Some (set_queue g ?q s)"
  proof (cases "nat (cRxLock q) < uxCurrentNumberOfTasks (kern s)")
    case True
    then have "cRxLock q \<noteq> 127" using sched_lockedD(3) [OF lk] by auto
    then show ?thesis using True lock
      by (simp add: prvIncrementQueueRxLock_def uxTaskGetNumberOfTasks_def m_def queueINT8_MAX_def)
  next
    case False
    have "q'\<lparr>cRxLock := cRxLock q\<rparr> = q'" by (simp flip: f(6))
    with False show ?thesis by (simp add: prvIncrementQueueRxLock_def uxTaskGetNumberOfTasks_def m_def)
  qed
  have st: "storage_ok ?q = storage_ok q'"
    by (simp add: storage_ok_def ring_ok_def read_index_def)
  have "queue_progress g (kern s) (kern s) q ?q"
    using f m lock n by (simp add: queue_progress_def side_progress_def exI [of _ 0] queueUNLOCKED_def)
  then have "progress s ((set_queue g ?q s)\<lparr>kern := kern s\<rparr>)" by (intro progress_one [OF q]) simp_all
  moreover have "sched_locked ((set_queue g ?q s)\<lparr>kern := kern s\<rparr>)"
    by (rule sched_locked_update [OF lk q]) (use f ok li m st in \<open>auto simp: queue_ok_def queueUNLOCKED_def\<close>)
  ultimately show ?thesis by (simp add: run)
qed

section \<open>Interrupts\<close>

text \<open>
  The calls an interrupt handler makes: ticks, and the \<open>FromISR\<close> calls on queues that are no
  mutexes and in no set. A handler keeps to the interface: it names queues that exist and
  items of the right size.
\<close>

datatype interrupt = Tick | SendInt queue_handle "byte list option" copy_position
  | GiveInt queue_handle | ReceiveInt queue_handle

definition plain_queue :: "queue_handle \<Rightarrow> os \<Rightarrow> (queue \<Rightarrow> bool) \<Rightarrow> bool" where
  "plain_queue h s P = (case queues s h of None \<Rightarrow> False
     | Some q \<Rightarrow> pcHead q \<noteq> queueQUEUE_IS_MUTEX \<and> pxQueueSetContainer q = None \<and> P q)"

fun legal :: "interrupt \<Rightarrow> os \<Rightarrow> bool" where
  "legal Tick s = True"
| "legal (SendInt h item pos) s = plain_queue h s (\<lambda>q. can_send q item pos)"
| "legal (GiveInt h) s = plain_queue h s (\<lambda>q. uxItemSize q = 0)"
| "legal (ReceiveInt h) s = plain_queue h s (\<lambda>q. True)"

fun handle :: "interrupt \<Rightarrow> os \<Rightarrow> os option" where
  "handle Tick s = do { (k, _) \<leftarrow> xTaskIncrementTick (kern s); Some (s\<lparr>kern := k\<rparr>) }"
| "handle (SendInt h item pos) s = do { (s, _) \<leftarrow> xQueueGenericSendFromISR h item pos s; Some s }"
| "handle (GiveInt h) s = do { (s, _) \<leftarrow> xQueueGiveFromISR h s; Some s }"
| "handle (ReceiveInt h) s = do { (s, _) \<leftarrow> xQueueReceiveFromISR h True s; Some s }"

fun interrupts :: "interrupt list \<Rightarrow> os \<Rightarrow> os option" where
  "interrupts [] s = Some s"
| "interrupts (i # is) s = (if legal i s then do { s \<leftarrow> handle i s; interrupts is s } else interrupts is s)"

text \<open>Each of them keeps the invariant and makes progress only.\<close>

lemma put_item_more: "storage_ok q \<Longrightarrow> can_send q item pos \<Longrightarrow> contents q' = put_item pos x (contents q) \<Longrightarrow>
  uxMessagesWaiting q \<le> uxMessagesWaiting q'"
  using length_contents [of q'] by (cases pos) (auto simp: storage_ok_def can_send_def)

lemma lock_cases:
  assumes "queue_ok q"
  shows "cTxLock q = queueUNLOCKED \<or> 0 \<le> cTxLock q \<and> cTxLock q \<noteq> queueUNLOCKED"
    "cRxLock q = queueUNLOCKED \<or> 0 \<le> cRxLock q \<and> cRxLock q \<noteq> queueUNLOCKED"
  using assms by (auto simp: queue_ok_def queueUNLOCKED_def)

lemma SendFromISR_locked:
  assumes lk: "sched_locked s" and q: "queues s g = Some q" and nm: "pcHead q \<noteq> queueQUEUE_IS_MUTEX"
    and set: "pxQueueSetContainer q = None" and can: "can_send q item pos"
  shows "ensures (xQueueGenericSendFromISR g item pos s) (\<lambda>(s', ok, _). sched_locked s' \<and> progress s s' \<and>
    ok = (uxMessagesWaiting q < uxLength q \<or> pos = queueOVERWRITE))"
proof -
  note ok = sched_lockedD(2) [OF lk q]
  have asserts: "\<not> (item = None \<and> uxItemSize q \<noteq> 0)" "\<not> (pos = queueOVERWRITE \<and> uxLength q \<noteq> 1)"
    using can by (auto simp: can_send_def)
  show ?thesis
  proof (cases "uxMessagesWaiting q < uxLength q \<or> pos = queueOVERWRITE")
    case False
    then show ?thesis using asserts q lk by (simp add: xQueueGenericSendFromISR_def)
  next
    case room: True
    have "ensures (prvCopyDataToQueue g item pos s) (\<lambda>(s1, _). ensures
      (if cTxLock q = queueUNLOCKED then wake_waiter (ReceiveL g) s1
         else do { s \<leftarrow> prvIncrementQueueTxLock g (cTxLock q) s1; Some (s, False) })
      (\<lambda>(s', _). sched_locked s' \<and> progress s s'))"
    proof (rule prvCopyDataToQueue_ensures [OF q ok nm can room], unfold prod.case)
      fix q' assume q': "same_object q q'" "queue_ok q'" "contents q' = put_item pos (sent_bytes q item) (contents q)"
      note n = put_item_more [OF queue_okD(1) [OF ok] can q'(3)]
      show "ensures (if cTxLock q = queueUNLOCKED then wake_waiter (ReceiveL g) (set_queue g q' s)
         else do { s \<leftarrow> prvIncrementQueueTxLock g (cTxLock q) (set_queue g q' s); Some (s, False) })
        (\<lambda>(s', _). sched_locked s' \<and> progress s s')"
        using lock_cases(1) [OF ok] isr_wake_tx [OF lk q q'(1,2) _ n] isr_count_tx [OF lk q q'(1,2) _ n] by auto
    qed
    then show ?thesis
      using asserts q room set by (cases "cTxLock q = queueUNLOCKED") (simp_all add: xQueueGenericSendFromISR_def Let_def case_prod_unfold)
  qed
qed

lemma GiveFromISR_locked:
  assumes lk: "sched_locked s" and q: "queues s g = Some q" and nm: "pcHead q \<noteq> queueQUEUE_IS_MUTEX"
    and set: "pxQueueSetContainer q = None" and sz: "uxItemSize q = 0"
  shows "ensures (xQueueGiveFromISR g s) (\<lambda>(s', ok, _). sched_locked s' \<and> progress s s' \<and>
    ok = (uxMessagesWaiting q < uxLength q))"
proof -
  note ok = sched_lockedD(2) [OF lk q]
  show ?thesis
  proof (cases "uxMessagesWaiting q < uxLength q")
    case False
    then show ?thesis using sz nm q lk by (simp add: xQueueGiveFromISR_def)
  next
    case room: True
    let ?q = "q\<lparr>uxMessagesWaiting := uxMessagesWaiting q + 1\<rparr>"
    have so: "same_object q ?q" by (simp add: same_object_def)
    have "storage_ok ?q" using queue_okD(1) [OF ok] sz room by (simp add: storage_ok_def)
    note ok' = same_object_ok [OF ok so this nm]
    have "ensures (if cTxLock q = queueUNLOCKED then wake_waiter (ReceiveL g) (set_queue g ?q s)
         else do { s \<leftarrow> prvIncrementQueueTxLock g (cTxLock q) (set_queue g ?q s); Some (s, False) })
        (\<lambda>(s', _). sched_locked s' \<and> progress s s')"
      using lock_cases(1) [OF ok] isr_wake_tx [OF lk q so ok'] isr_count_tx [OF lk q so ok'] by auto
    then show ?thesis
      using sz nm q room set by (cases "cTxLock q = queueUNLOCKED") (simp_all add: xQueueGiveFromISR_def Let_def case_prod_unfold)
  qed
qed

lemma ReceiveFromISR_locked:
  assumes lk: "sched_locked s" and q: "queues s g = Some q" and nm: "pcHead q \<noteq> queueQUEUE_IS_MUTEX"
  shows "ensures (xQueueReceiveFromISR g True s) (\<lambda>(s', ok, bytes, _). sched_locked s' \<and> progress s s' \<and>
    ok = (uxMessagesWaiting q \<noteq> 0) \<and> (ok \<longrightarrow> bytes = hd (contents q)))"
proof -
  note ok = sched_lockedD(2) [OF lk q]
  show ?thesis
  proof (cases "uxMessagesWaiting q = 0")
    case True
    then show ?thesis using q lk by (simp add: xQueueReceiveFromISR_def)
  next
    case False
    have "ensures (receive_item q) (\<lambda>(q', bytes). ensures
      (if cRxLock q = queueUNLOCKED then wake_waiter (SendL g) (set_queue g q' s)
         else do { s \<leftarrow> prvIncrementQueueRxLock g (cRxLock q) (set_queue g q' s); Some (s, False) })
      (\<lambda>(s', _). sched_locked s' \<and> progress s s' \<and> bytes = hd (contents q)))"
    proof (rule receive_item_object [OF ok nm False], unfold prod.case)
      fix q' assume q': "same_object q q'" "queue_ok q'" "contents q' = tl (contents q)"
      have n: "uxMessagesWaiting q' \<le> uxMessagesWaiting q"
        using q'(3) length_contents [of q'] by simp
      show "ensures (if cRxLock q = queueUNLOCKED then wake_waiter (SendL g) (set_queue g q' s)
         else do { s \<leftarrow> prvIncrementQueueRxLock g (cRxLock q) (set_queue g q' s); Some (s, False) })
        (\<lambda>(s', _). sched_locked s' \<and> progress s s' \<and> hd (contents q) = hd (contents q))"
        using lock_cases(2) [OF ok] isr_wake_rx [OF lk q q'(1,2) _ n] isr_count_rx [OF lk q q'(1,2) _ n] by auto
    qed
    then show ?thesis
      using q False by (simp add: xQueueReceiveFromISR_def Let_def case_prod_unfold)
  qed
qed

lemma handle_locked:
  assumes lk: "sched_locked s" and i: "legal i s"
  shows "ensures (handle i s) (\<lambda>s'. sched_locked s' \<and> progress s s')"
proof (cases i)
  case Tick
  let ?s = "s\<lparr>kern := (kern s)\<lparr>xPendedTicks := xPendedTicks (kern s) + 1\<rparr>\<rparr>"
  have "sched_locked ?s" using lk by (simp add: sched_locked_def owners_ok_def)
  moreover have "side_progress l (kern s) (kern ?s) m m False" for l m
    unfolding side_progress_def by (simp add: exI [of _ 0])
  then have "progress s ?s"
    by (auto simp: progress_def queue_progress_def kernel_progress_def settled_def ready_def)
  moreover have "uxSchedulerSuspended (kern s) \<noteq> 0" using lock_invD(5) [OF sched_lockedD(1) [OF lk]] .
  ultimately show ?thesis using Tick by (simp add: xTaskIncrementTick_def)
next
  case (SendInt h item pos)
  with i obtain q where q: "queues s h = Some q" "pcHead q \<noteq> queueQUEUE_IS_MUTEX" "pxQueueSetContainer q = None"
    "can_send q item pos" by (auto simp: plain_queue_def split: option.splits)
  show ?thesis using SendFromISR_locked [OF lk q] SendInt by (auto simp: elim!: ensures_mono)
next
  case (GiveInt h)
  with i obtain q where q: "queues s h = Some q" "pcHead q \<noteq> queueQUEUE_IS_MUTEX" "pxQueueSetContainer q = None"
    "uxItemSize q = 0" by (auto simp: plain_queue_def split: option.splits)
  show ?thesis using GiveFromISR_locked [OF lk q] GiveInt by (auto elim!: ensures_mono)
next
  case (ReceiveInt h)
  with i obtain q where q: "queues s h = Some q" "pcHead q \<noteq> queueQUEUE_IS_MUTEX"
    by (auto simp: plain_queue_def split: option.splits)
  show ?thesis using ReceiveFromISR_locked [OF lk q] ReceiveInt by (auto elim!: ensures_mono)
qed

lemma interrupts_locked:
  "sched_locked s \<Longrightarrow> ensures (interrupts is s) (\<lambda>s'. sched_locked s' \<and> progress s s')"
proof (induction "is" arbitrary: s)
  case (Cons i "is")
  show ?case
  proof (cases "legal i s")
    case True
    have "ensures (handle i s) (\<lambda>s1. ensures (interrupts is s1) (\<lambda>s'. sched_locked s' \<and> progress s s'))"
    proof (rule ensures_mono [OF handle_locked [OF Cons.prems True]])
      fix s1 assume s1: "sched_locked s1 \<and> progress s s1"
      show "ensures (interrupts is s1) (\<lambda>s'. sched_locked s' \<and> progress s s')"
        by (rule ensures_mono [OF Cons.IH]) (use s1 progress_trans [OF Cons.prems] in blast)+
    qed
    with True show ?thesis by simp
  qed (use Cons in simp)
qed simp

section \<open>The contract of the interrupt environment\<close>

text \<open>
  What the waiting calls assume of the interrupts that come while the scheduler is locked; at
  \<open>Resumed\<close> anything may happen.
\<close>

locale locked_env =
  fixes e :: env
  assumes interrupt: "p \<noteq> Resumed \<Longrightarrow> sched_locked s \<Longrightarrow> ensures (e p s) (\<lambda>s'. sched_locked s' \<and> progress s s')"

text \<open>The environment that runs a list of interrupt calls at each point.\<close>

definition irq_env :: "(point \<Rightarrow> interrupt list) \<Rightarrow> (os \<Rightarrow> os option) \<Rightarrow> env" where
  "irq_env irqs others p s = (if p = Resumed then others s else interrupts (irqs p) s)"

interpretation irq: locked_env "irq_env irqs others" for irqs others
  by unfold_locales (simp add: irq_env_def interrupts_locked)

section \<open>Getting ready to wait\<close>

text \<open>The caller is still ready; the scheduler is locked once, and the queue is locked.\<close>

definition about_to_wait :: "task \<Rightarrow> queue_handle \<Rightarrow> os \<Rightarrow> bool" where
  "about_to_wait c h s \<longleftrightarrow> sched_locked s \<and> blockable (kern s) c \<and> settled (kern s) \<and>
     uxSchedulerSuspended (kern s) = 1 \<and> xIdleTaskHandle (kern s) \<noteq> Some c \<and>
     (\<exists>q. queues s h = Some q \<and> 0 \<le> cTxLock q \<and> 0 \<le> cRxLock q)"

lemma progressD:
  assumes "progress s s'"
  shows "kernel_progress (kern s) (kern s')"
    "queues s h = Some q \<Longrightarrow> \<exists>q'. queues s' h = Some q' \<and> queue_progress h (kern s) (kern s') q q'"
  using assms by (auto simp: progress_def)

lemma kernel_progressD:
  assumes "kernel_progress k k'"
  shows "state_list k' t = state_list k t" "tcbs k' = tcbs k" "pxCurrentTCB k' = pxCurrentTCB k"
    "xIdleTaskHandle k' = xIdleTaskHandle k" "uxSchedulerSuspended k' = uxSchedulerSuspended k"
    "uxCurrentNumberOfTasks k' = uxCurrentNumberOfTasks k" "item_value (lists k') = item_value (lists k)"
    "settled k \<Longrightarrow> settled k'" "event_list k t = None \<Longrightarrow> event_list k' t = None"
    "event_list k' t = Some l \<Longrightarrow> l \<noteq> PendingReadyL \<Longrightarrow> event_list k t = Some l"
    "event_list k t = Some PendingReadyL \<Longrightarrow> event_list k' t = Some PendingReadyL"
    "ready k' t = ready k t"
  using assms unfolding kernel_progress_def ready_def by (metis option.inject)+

lemma queue_progressD:
  assumes "queue_progress h k k' q q'"
  shows "pxQueueSetContainer q' = pxQueueSetContainer q" "pcHead q' = pcHead q" "uxLength q' = uxLength q"
    "0 \<le> cTxLock q \<Longrightarrow> 0 \<le> cTxLock q'" "0 \<le> cRxLock q \<Longrightarrow> 0 \<le> cRxLock q'"
    "cTxLock q = queueUNLOCKED \<Longrightarrow> cTxLock q' = queueUNLOCKED"
    "side_progress (ReceiveL h) k k' (cTxLock q) (cTxLock q') (uxMessagesWaiting q < uxMessagesWaiting q')"
    "uxItemSize q' = uxItemSize q"
    "cRxLock q = queueUNLOCKED \<Longrightarrow> cRxLock q' = queueUNLOCKED"
  using assms by (auto simp: queue_progress_def side_progress_def)

lemma about_to_wait_progress:
  assumes a: "about_to_wait c h s" and lk: "sched_locked s'" and p: "progress s s'"
  shows "about_to_wait c h s'"
proof -
  note kp = kernel_progressD [OF progressD(1) [OF p]]
  from a obtain q where q: "queues s h = Some q" "0 \<le> cTxLock q" "0 \<le> cRxLock q"
    by (auto simp: about_to_wait_def)
  from progressD(2) [OF p q(1)] obtain q' where q': "queues s' h = Some q'" "queue_progress h (kern s) (kern s') q q'"
    by blast
  have "blockable (kern s') c"
    using a lock_invD(1) [OF sched_lockedD(1) [OF lk]] kp(3) kp(9,12) [of c]
    by (simp add: about_to_wait_def blockable_def)
  moreover have "settled (kern s')" using a kp(8) by (simp add: about_to_wait_def)
  ultimately show ?thesis
    using a lk kp(4,5) q q' queue_progressD(4,5) [OF q'(2)] by (simp add: about_to_wait_def)
qed

lemma time_out_check:
  assumes cur: "pxCurrentTCB k = Some c"
  shows "ensures (xTaskCheckForTimeOut to w k) (\<lambda>(k', to', w', expired).
    (k' = k \<or> k' = upd_tcb c (\<lambda>b. b\<lparr>ucDelayAborted := False\<rparr>) k) \<and> (w \<noteq> 0 \<and> \<not> expired \<longrightarrow> w' \<noteq> 0))"
  using cur by (auto simp: xTaskCheckForTimeOut_def Let_def)

lemma lock_inv_tcb:
  "lock_inv k \<Longrightarrow> same_shape (tcbs k t) (f (tcbs k t)) \<Longrightarrow> lock_inv (upd_tcb t f k)"
  using upd_tcb_inv [of k t f] by (auto simp: lock_inv_def idle_ready_def ready_def same_shape_def)

lemma about_to_wait_checked:
  assumes a: "about_to_wait c h s"
  shows "about_to_wait c h (s\<lparr>kern := upd_tcb c (\<lambda>b. b\<lparr>ucDelayAborted := False\<rparr>) (kern s)\<rparr>)"
proof -
  let ?f = "\<lambda>b. b\<lparr>ucDelayAborted := False\<rparr>"
  have sh: "same_shape (tcbs (kern s) c) (?f (tcbs (kern s) c))" by (simp add: same_shape_def)
  have "lock_inv (upd_tcb c ?f (kern s))"
    using a sh by (intro lock_inv_tcb) (auto simp: about_to_wait_def sched_locked_def)
  moreover have "uxMutexesHeld (tcbs (upd_tcb c ?f (kern s)) t) = uxMutexesHeld (tcbs (kern s) t)"
    "ready (upd_tcb c ?f (kern s)) t = ready (kern s) t" for t
    by (simp_all add: ready_def)
  ultimately show ?thesis
    using a unfolding about_to_wait_def sched_locked_def blockable_def owners_ok_def settled_def
    by (simp add: lock_invD(1))
qed

lemma prvLockQueue_ensures:
  assumes lk: "sched_locked s" and q: "queues s h = Some q"
  shows "ensures (prvLockQueue h s) (\<lambda>s'. sched_locked s' \<and> kern s' = kern s \<and>
    (\<exists>q'. s' = set_queue h q' s \<and> 0 \<le> cTxLock q' \<and> 0 \<le> cRxLock q' \<and> pxQueueSetContainer q' = pxQueueSetContainer q \<and>
      uxMessagesWaiting q' = uxMessagesWaiting q \<and> pcHead q' = pcHead q))"
proof -
  note ok = sched_lockedD(2) [OF lk q]
  let ?q = "q\<lparr>cRxLock := max 0 (cRxLock q), cTxLock := max 0 (cTxLock q)\<rparr>"
  have run: "prvLockQueue h s = Some (set_queue h ?q s)"
    using lock_cases [OF ok] q
    by (cases q) (auto simp: prvLockQueue_def Let_def queueLOCKED_UNMODIFIED_def queueUNLOCKED_def max_def)
  have "storage_ok ?q = storage_ok q" by (simp add: storage_ok_def ring_ok_def read_index_def)
  then have "queue_ok ?q" using ok by (auto simp: queue_ok_def queueUNLOCKED_def queueINT8_MAX_def)
  then have "sched_locked ((set_queue h ?q s)\<lparr>kern := kern s\<rparr>)"
    using sched_lockedD(1) [OF lk] by (intro sched_locked_update [OF lk q]) simp_all
  then show ?thesis by (simp add: run) (intro exI [of _ ?q], simp)
qed

text \<open>What is kept from the start of the call: who waits where, with which value.\<close>

definition since :: "queue_handle \<Rightarrow> os \<Rightarrow> os \<Rightarrow> bool" where
  "since h s s' \<longleftrightarrow> item_value (lists (kern s')) = item_value (lists (kern s)) \<and>
     (\<forall>t l. event_list (kern s') t = Some l \<longrightarrow> l \<noteq> PendingReadyL \<longrightarrow> event_list (kern s) t = Some l) \<and>
     (\<forall>q. queues s h = Some q \<longrightarrow> (\<exists>q'. queues s' h = Some q' \<and> pxQueueSetContainer q' = pxQueueSetContainer q \<and>
        pcHead q' = pcHead q))"

lemma since_refl [simp]: "since h s s"
  by (simp add: since_def)

lemma since_trans: "since h s s1 \<Longrightarrow> since h s1 s2 \<Longrightarrow> since h s s2"
  unfolding since_def by metis

lemma since_progress:
  assumes p: "progress s s'" shows "since h s s'"
proof -
  note kp = kernel_progressD [OF progressD(1) [OF p]]
  have "\<exists>q'. queues s' h = Some q' \<and> pxQueueSetContainer q' = pxQueueSetContainer q \<and> pcHead q' = pcHead q"
    if "queues s h = Some q" for q
    using progressD(2) [OF p that] queue_progressD(1,2) by blast
  with kp(7,10) show ?thesis unfolding since_def by blast
qed

context locked_env
begin

lemma step:
  assumes "p \<noteq> Resumed" and "sched_locked s"
    and "\<And>s'. sched_locked s' \<Longrightarrow> progress s s' \<Longrightarrow> ensures (f s') Q"
  shows "ensures (do { s' \<leftarrow> e p s; f s' }) Q"
  unfolding ensures_bind by (rule ensures_mono [OF interrupt [OF assms(1,2)]]) (use assms(3) in blast)

lemma wait_begin:
  assumes inv: "os_inv s" and run: "uxSchedulerSuspended (kern s) = 0" and cur: "pxCurrentTCB (kern s) = Some c"
    and ni: "xIdleTaskHandle (kern s) \<noteq> Some c" and few: "uxCurrentNumberOfTasks (kern s) \<le> 127"
    and q: "queues s h = Some q"
  shows "ensures (queue_wait_begin e h (Some to, w) s) (\<lambda>(s', to', w', expired).
    about_to_wait c h s' \<and> since h s s' \<and> (w \<noteq> 0 \<and> \<not> expired \<longrightarrow> w' \<noteq> 0))"
proof -
  note si = os_invD(1) [OF inv]
  let ?s0 = "s\<lparr>kern := vTaskSuspendAll (kern s)\<rparr>"
  have lk0: "sched_locked ?s0"
    using lock_inv_suspend [OF si] inv few
    by (simp add: sched_locked_def os_inv_def owners_ok_def vTaskSuspendAll_def)
  have bl0: "blockable (kern ?s0) c" "settled (kern ?s0)" "uxSchedulerSuspended (kern ?s0) = 1"
    "xIdleTaskHandle (kern ?s0) \<noteq> Some c"
    using sys_blockable(2) [OF si run cur] sys_invD(6) [OF sys_inv_lock [OF si]] run ni
    by (simp_all add: vTaskSuspendAll_def)
  have since0: "since h s ?s0" by (simp add: since_def vTaskSuspendAll_def)
  have "ensures (do {
     s \<leftarrow> e AfterSuspend ?s0;
     s \<leftarrow> prvLockQueue h s;
     s \<leftarrow> e AfterLock s;
     (k, to', w', expired) \<leftarrow> xTaskCheckForTimeOut to w (kern s);
     s \<leftarrow> e AfterCheck (s\<lparr>kern := k\<rparr>);
     Some (s, to', w', expired) }) (\<lambda>(s', to', w', expired).
    about_to_wait c h s' \<and> since h s s' \<and> (w \<noteq> 0 \<and> \<not> expired \<longrightarrow> w' \<noteq> 0))" (is "ensures _ ?Q")
  proof (rule step [OF _ lk0])
    fix s1 assume lk1: "sched_locked s1" and p1: "progress ?s0 s1"
    note kp = kernel_progressD [OF progressD(1) [OF p1]]
    have bl1: "blockable (kern s1) c" "settled (kern s1)" "uxSchedulerSuspended (kern s1) = 1"
      "xIdleTaskHandle (kern s1) \<noteq> Some c"
      using bl0 lock_invD(1) [OF sched_lockedD(1) [OF lk1]] kp(3,4,5,8) kp(9,12) [of c]
      by (simp_all add: blockable_def)
    obtain q1 where q1: "queues s1 h = Some q1" using progressD(2) [OF p1, of h q] q by auto
    have since1: "since h s s1" using since0 since_progress [OF p1] by (rule since_trans)
    have "ensures (prvLockQueue h s1) (\<lambda>s2. ensures (do {
       s3 \<leftarrow> e AfterLock s2;
       (k, to', w', expired) \<leftarrow> xTaskCheckForTimeOut to w (kern s3);
       s4 \<leftarrow> e AfterCheck (s3\<lparr>kern := k\<rparr>);
       Some (s4, to', w', expired) }) ?Q)"
    proof (rule ensures_mono [OF prvLockQueue_ensures [OF lk1 q1]], elim conjE exE)
      fix s2 q2 assume lk2: "sched_locked s2" and s2: "kern s2 = kern s1" "s2 = set_queue h q2 s1"
        and q2: "0 \<le> cTxLock q2" "0 \<le> cRxLock q2" "pxQueueSetContainer q2 = pxQueueSetContainer q1" "pcHead q2 = pcHead q1"
      have a2: "about_to_wait c h s2" using lk2 bl1 s2 q2 by (simp add: about_to_wait_def)
      have since2: "since h s s2" using since1 s2(2) q2 q1 by (auto simp: since_def)
      show "ensures (do {
         s3 \<leftarrow> e AfterLock s2;
         (k, to', w', expired) \<leftarrow> xTaskCheckForTimeOut to w (kern s3);
         s4 \<leftarrow> e AfterCheck (s3\<lparr>kern := k\<rparr>);
         Some (s4, to', w', expired) }) ?Q"
      proof (rule step [OF _ lk2])
        fix s3 assume lk3: "sched_locked s3" and p3: "progress s2 s3"
        note a3 = about_to_wait_progress [OF a2 lk3 p3]
        have since3: "since h s s3" using since2 since_progress [OF p3] by (rule since_trans)
        have cur3: "pxCurrentTCB (kern s3) = Some c" using a3 by (simp add: about_to_wait_def blockable_def)
        show "ensures (do {
           (k, to', w', expired) \<leftarrow> xTaskCheckForTimeOut to w (kern s3);
           s4 \<leftarrow> e AfterCheck (s3\<lparr>kern := k\<rparr>);
           Some (s4, to', w', expired) }) ?Q"
          unfolding ensures_bind [of "xTaskCheckForTimeOut _ _ _"]
        proof (rule ensures_mono [OF time_out_check [OF cur3]])
          fix r :: "kernel \<times> TimeOut \<times> tick \<times> bool"
          assume r: "case r of (k', to', w', expired) \<Rightarrow>
            (k' = kern s3 \<or> k' = upd_tcb c (\<lambda>b. b\<lparr>ucDelayAborted := False\<rparr>) (kern s3)) \<and> (w \<noteq> 0 \<and> \<not> expired \<longrightarrow> w' \<noteq> 0)"
          obtain k to' w' x where rr: "r = (k, to', w', x)" by (cases r)
          let ?s = "s3\<lparr>kern := k\<rparr>"
          have a: "about_to_wait c h ?s" using r rr a3 about_to_wait_checked [OF a3] by auto
          have since4: "since h s ?s" using since3 r rr by (auto simp: since_def)
          show "ensures (case r of (k, to', w', expired) \<Rightarrow> do { s4 \<leftarrow> e AfterCheck (s3\<lparr>kern := k\<rparr>); Some (s4, to', w', expired) }) ?Q"
            unfolding rr prod.case
          proof (rule step)
            show "sched_locked ?s" using a by (simp add: about_to_wait_def)
            fix s4 assume lk4: "sched_locked s4" and p4: "progress ?s s4"
            show "ensures (Some (s4, to', w', x)) ?Q"
              using about_to_wait_progress [OF a lk4 p4] since_trans [OF since4 since_progress [OF p4]] r rr by simp
          qed simp
        qed
      qed simp
    qed
    then show "ensures (do {
       s \<leftarrow> prvLockQueue h s1;
       s \<leftarrow> e AfterLock s;
       (k, to', w', expired) \<leftarrow> xTaskCheckForTimeOut to w (kern s);
       s \<leftarrow> e AfterCheck (s\<lparr>kern := k\<rparr>);
       Some (s, to', w', expired) }) ?Q" unfolding ensures_bind [of "prvLockQueue h s1"] .
  qed simp
  then show ?thesis by (simp add: queue_wait_begin_def)
qed

end

section \<open>Blocking on the receivers' list\<close>

lemma pended_progress:
  assumes core: "kernel_core k" and l: "is_event_list l" and p: "pended n l k k'"
  shows "kernel_progress k k'"
proof -
  have "event_list k t \<noteq> None" if "EventI t \<in> set (take n (members k l))" for t
    using that member_iff(2) [OF core, of t l] by (auto dest: in_set_takeD)
  then show ?thesis using p unfolding pended_def kernel_progress_def by auto
qed

lemma kern_queues_swap: "s\<lparr>kern := k, queues := Q\<rparr> = s\<lparr>queues := Q, kern := k\<rparr>"
  by simp

lemma unlock_tx_ensures:
  assumes lk: "sched_locked s" and q: "queues s h = Some q" and set: "pxQueueSetContainer q = None"
    and post: "\<And>k'. \<lbrakk>sched_locked ((set_queue h (q\<lparr>cTxLock := queueUNLOCKED\<rparr>) s)\<lparr>kern := k'\<rparr>);
      pended (nat (cTxLock q)) (ReceiveL h) (kern s) k'\<rbrakk> \<Longrightarrow> Q ((set_queue h (q\<lparr>cTxLock := queueUNLOCKED\<rparr>) s)\<lparr>kern := k'\<rparr>)"
  shows "ensures (unlock_tx h s) Q"
proof -
  note li = sched_lockedD(1) [OF lk] and ok = sched_lockedD(2) [OF lk q]
  have "storage_ok (q\<lparr>cTxLock := queueUNLOCKED\<rparr>) = storage_ok q" by (simp add: storage_ok_def ring_ok_def read_index_def)
  then have ok': "queue_ok (q\<lparr>cTxLock := queueUNLOCKED\<rparr>)"
    using ok by (simp add: queue_ok_def queueUNLOCKED_def queueINT8_MAX_def)
  have "ensures (drain (nat (cTxLock q)) (ReceiveL h) s) (\<lambda>s1. ensures (do {
      q \<leftarrow> queues s1 h; Some (set_queue h (q\<lparr>cTxLock := queueUNLOCKED\<rparr>) s1) }) Q)"
  proof (rule drain_ensures [OF li])
    fix k' assume k': "lock_inv k'" "pended (nat (cTxLock q)) (ReceiveL h) (kern s) k'"
    have "sched_locked ((set_queue h (q\<lparr>cTxLock := queueUNLOCKED\<rparr>) s)\<lparr>kern := k'\<rparr>)"
      by (rule sched_locked_update [OF lk q]) (use ok' k' in \<open>simp_all add: pended_def\<close>)
    from post [OF this k'(2)] show "ensures (do {
      q \<leftarrow> queues (s\<lparr>kern := k'\<rparr>) h; Some (set_queue h (q\<lparr>cTxLock := queueUNLOCKED\<rparr>) (s\<lparr>kern := k'\<rparr>)) }) Q"
      using q by (simp add: kern_queues_swap)
  qed simp_all
  then show ?thesis using q set by (simp add: unlock_tx_def unlock_tx_loop_drain)
qed

lemma unlock_rx_ensures:
  assumes lk: "sched_locked s" and q: "queues s h = Some q"
    and post: "\<And>k'. \<lbrakk>sched_locked ((set_queue h (q\<lparr>cRxLock := queueUNLOCKED\<rparr>) s)\<lparr>kern := k'\<rparr>);
      pended (nat (cRxLock q)) (SendL h) (kern s) k'\<rbrakk> \<Longrightarrow> Q ((set_queue h (q\<lparr>cRxLock := queueUNLOCKED\<rparr>) s)\<lparr>kern := k'\<rparr>)"
  shows "ensures (unlock_rx h s) Q"
proof -
  note li = sched_lockedD(1) [OF lk] and ok = sched_lockedD(2) [OF lk q]
  have "storage_ok (q\<lparr>cRxLock := queueUNLOCKED\<rparr>) = storage_ok q" by (simp add: storage_ok_def ring_ok_def read_index_def)
  then have ok': "queue_ok (q\<lparr>cRxLock := queueUNLOCKED\<rparr>)"
    using ok by (simp add: queue_ok_def queueUNLOCKED_def queueINT8_MAX_def)
  have "ensures (drain (nat (cRxLock q)) (SendL h) s) (\<lambda>s1. ensures (do {
      q \<leftarrow> queues s1 h; Some (set_queue h (q\<lparr>cRxLock := queueUNLOCKED\<rparr>) s1) }) Q)"
  proof (rule drain_ensures [OF li])
    fix k' assume k': "lock_inv k'" "pended (nat (cRxLock q)) (SendL h) (kern s) k'"
    have "sched_locked ((set_queue h (q\<lparr>cRxLock := queueUNLOCKED\<rparr>) s)\<lparr>kern := k'\<rparr>)"
      by (rule sched_locked_update [OF lk q]) (use ok' k' in \<open>simp_all add: pended_def\<close>)
    from post [OF this k'(2)] show "ensures (do {
      q \<leftarrow> queues (s\<lparr>kern := k'\<rparr>) h; Some (set_queue h (q\<lparr>cRxLock := queueUNLOCKED\<rparr>) (s\<lparr>kern := k'\<rparr>)) }) Q"
      using q by (simp add: kern_queues_swap)
  qed simp_all
  then show ?thesis using q by (simp add: unlock_rx_def unlock_rx_loop_drain)
qed

text \<open>
  The two sides of a queue: tasks wait to receive while it is empty, and to send while it is
  full. While the queue is locked, the event a side waits for is counted; once that side is
  unlocked, the first of its waiters \<open>ws\<close> is pending or the event has not come.
\<close>

datatype side = Receivers | Senders

fun waiters :: "side \<Rightarrow> queue_handle \<Rightarrow> list_id" where
  "waiters Receivers h = ReceiveL h"
| "waiters Senders h = SendL h"

fun lock_of :: "side \<Rightarrow> queue \<Rightarrow> int" where
  "lock_of Receivers q = cTxLock q"
| "lock_of Senders q = cRxLock q"

fun lacks :: "side \<Rightarrow> queue \<Rightarrow> bool" where
  "lacks Receivers q \<longleftrightarrow> uxMessagesWaiting q = 0"
| "lacks Senders q \<longleftrightarrow> uxMessagesWaiting q = uxLength q"

lemma waiters_event [simp]: "is_event_list (waiters d h)" "waiters d h \<noteq> PendingReadyL" "PendingReadyL \<noteq> waiters d h"
  by (cases d; simp)+

lemma queue_progress_side:
  assumes "queue_progress h k k' q q'" and "queue_ok q'"
  shows "side_progress (waiters d h) k k' (lock_of d q) (lock_of d q') (lacks d q \<and> \<not> lacks d q')"
  using assms queue_okD(3) [OF assms(2)]
  by (cases d) (auto simp: queue_progress_def side_progress_def)

definition counted :: "side \<Rightarrow> queue_handle \<Rightarrow> item_id list \<Rightarrow> os \<Rightarrow> bool" where
  "counted d h ws s \<longleftrightarrow> members (kern s) (waiters d h) = ws \<and>
     (\<exists>q. queues s h = Some q \<and> 0 \<le> lock_of d q \<and> (lacks d q \<or> 0 < lock_of d q))"

definition first_served :: "side \<Rightarrow> queue_handle \<Rightarrow> item_id list \<Rightarrow> os \<Rightarrow> bool" where
  "first_served d h ws s \<longleftrightarrow> event_list (kern s) (owner (hd ws)) = Some PendingReadyL \<or>
     members (kern s) (waiters d h) = ws \<and> (\<exists>q. queues s h = Some q \<and> lacks d q)"

lemma counted_progress:
  assumes c: "counted d h ws s" and lk: "sched_locked s'" and p: "progress s s'" shows "counted d h ws s'"
proof -
  from c obtain q where q: "queues s h = Some q" "0 \<le> lock_of d q" "lacks d q \<or> 0 < lock_of d q"
    and ws: "members (kern s) (waiters d h) = ws" by (auto simp: counted_def)
  from progressD(2) [OF p q(1)] obtain q' where q': "queues s' h = Some q'"
    "queue_progress h (kern s) (kern s') q q'" by blast
  note sp = queue_progress_side [OF q'(2) sched_lockedD(2) [OF lk q'(1)], unfolded side_progress_def]
  have "members (kern s') (waiters d h) = ws" "0 \<le> lock_of d q'" using sp [of d] q(2) ws by auto
  moreover have "lacks d q' \<or> 0 < lock_of d q'" using sp [of d] q(2,3) by auto
  ultimately show ?thesis using q'(1) by (simp add: counted_def)
qed

lemma first_served_progress:
  assumes lk: "sched_locked s" "sched_locked s'" and ws: "ws \<noteq> []" and f: "first_served d h ws s"
    and q: "queues s h = Some q" "lock_of d q = queueUNLOCKED" and p: "progress s s'"
  shows "first_served d h ws s'"
proof -
  note kp = kernel_progressD [OF progressD(1) [OF p]]
  let ?t = "owner (hd ws)"
  from progressD(2) [OF p q(1)] obtain q' where q': "queues s' h = Some q'"
    "queue_progress h (kern s) (kern s') q q'" by blast
  note sp = queue_progress_side [OF q'(2) sched_lockedD(2) [OF lk(2) q'(1)], of d, unfolded side_progress_def]
  show ?thesis
  proof (cases "event_list (kern s') ?t = Some PendingReadyL")
    case True
    then show ?thesis by (simp add: first_served_def)
  next
    case False
    then have m: "members (kern s) (waiters d h) = ws" and n: "lacks d q"
      using f kp(11) [of ?t] q(1) by (auto simp: first_served_def)
    have hd: "hd ws = EventI ?t" "event_list (kern s) ?t = Some (waiters d h)"
      using event_member [OF sched_lockedD(5) [OF lk(1)], of "hd ws" "waiters d h"] ws m by auto
    then have "event_list (kern s') ?t = Some (waiters d h)"
      using progressD(1) [OF p] False unfolding kernel_progress_def by metis
    then have "hd ws \<in> set (members (kern s') (waiters d h))"
      using member_iff(2) [OF sched_lockedD(5) [OF lk(2)]] hd(1) by metis
    moreover obtain j where j: "members (kern s') (waiters d h) = drop j ws" using sp m by auto
    moreover have "distinct ws"
      using lists_wf_distinct [OF lists_inv_wf [OF kernel_core_lists [OF sched_lockedD(5) [OF lk(1)]]], of "waiters d h"] m by simp
    ultimately have "j = 0" using ws by (cases ws; cases j) (auto dest: in_set_dropD)
    moreover have "lacks d q'" using sp q(2) n m ws False by auto
    ultimately show ?thesis using j q'(1) by (simp add: first_served_def)
  qed
qed

text \<open>Unlocking one side: \<open>q'\<close> differs from \<open>q\<close> in that lock only.\<close>

lemma first_served_unlocked:
  assumes core: "kernel_core (kern s)" and ws: "ws \<noteq> []" and c: "counted d h ws s" and q: "queues s h = Some q"
    and p: "pended (nat (lock_of d q)) (waiters d h) (kern s) k'" and same: "lacks d q' = lacks d q"
  shows "first_served d h ws ((set_queue h q' s)\<lparr>kern := k'\<rparr>)"
proof (cases "lacks d q \<and> lock_of d q = 0")
  case True
  then show ?thesis using c q p same by (simp add: first_served_def counted_def pended_def)
next
  case False
  then have "0 < lock_of d q" and m: "members (kern s) (waiters d h) = ws" using c q by (auto simp: counted_def)
  moreover have "hd ws = EventI (owner (hd ws))"
    using event_member [OF core, of "hd ws" "waiters d h"] ws m by auto
  ultimately have "EventI (owner (hd ws)) \<in> set (take (nat (lock_of d q)) ws)"
    using ws by (cases ws; cases "nat (lock_of d q)") auto
  then show ?thesis using p m by (simp add: first_served_def pended_def)
qed

text \<open>Unlocking the other side leaves this one as it is.\<close>

lemma other_side:
  assumes p: "pended n l (kern s) k'" and l: "l \<noteq> waiters d h" and q: "queues s h = Some q"
    and same: "lacks d q' = lacks d q" "lock_of d q' = lock_of d q"
  shows "counted d h ws s \<Longrightarrow> counted d h ws ((set_queue h q' s)\<lparr>kern := k'\<rparr>)"
    "ws \<noteq> [] \<Longrightarrow> first_served d h ws s \<Longrightarrow> first_served d h ws ((set_queue h q' s)\<lparr>kern := k'\<rparr>)"
proof -
  have m: "members k' (waiters d h) = members (kern s) (waiters d h)" using p l by (simp add: pended_def)
  show "counted d h ws s \<Longrightarrow> counted d h ws ((set_queue h q' s)\<lparr>kern := k'\<rparr>)"
    using m q same by (simp add: counted_def)
  assume "ws \<noteq> []" and f: "first_served d h ws s"
  have "event_list k' t = Some PendingReadyL" if "event_list (kern s) t = Some PendingReadyL" for t
    using p that by (simp add: pended_def)
  then show "first_served d h ws ((set_queue h q' s)\<lparr>kern := k'\<rparr>)"
    using f m q same by (auto simp: first_served_def)
qed

section \<open>Unlocking the scheduler\<close>

lemma resumed_switched:
  assumes inv: "kernel_inv k" and r: "ticked (resume_set k) k k1" and same: "container (lists k') = container (lists k1)"
    "tcbs k' = tcbs k1"
  shows "tcbs k' = tcbs k" "event_list k t = Some PendingReadyL \<Longrightarrow> ready k' t" "ready k t \<Longrightarrow> ready k' t"
    "ready k' t \<or> event_list k' t = event_list k t"
proof -
  have rd: "ready k' x \<longleftrightarrow> x \<in> resume_set k \<or> ready k x" for x
    using ready_ticked [OF r] same by (simp add: ready_def)
  show "tcbs k' = tcbs k" using ticked_frame(1) [OF r] same by simp
  show "ready k' t" if "event_list k t = Some PendingReadyL"
    using that rd by (simp add: resume_set_def pending_tasks_def)
  show "ready k t \<Longrightarrow> ready k' t" using rd by blast
  show "ready k' t \<or> event_list k' t = event_list k t"
    using rd ticked_lists(2) [OF r, of t] same(1) by (cases "t \<in> resume_set k") simp_all
qed

lemma resume_yield_ensures:
  assumes li: "lock_inv k" and one: "uxSchedulerSuspended k = 1"
    and post: "\<And>k'. \<lbrakk>sys_inv k'; uxSchedulerSuspended k' = 0; tcbs k' = tcbs k;
      \<And>t. event_list k t = Some PendingReadyL \<Longrightarrow> ready k' t; \<And>t. ready k' t \<or> event_list k' t = event_list k t\<rbrakk>
      \<Longrightarrow> ensures (f k') Q"
  shows "ensures (do { (k, y) \<leftarrow> xTaskResumeAll k; k \<leftarrow> (if \<not> y then portYIELD k else Some k); f k }) Q"
proof -
  from lock_invD(6) [OF li] obtain c where c: "pxCurrentTCB k = Some c" by blast
  note inv = lock_invD(1) [OF li]
  have "ensures (do { (k, y) \<leftarrow> xTaskResumeAll k; if y then Some k else portYIELD k }) (\<lambda>k'. ensures (f k') Q)"
  proof (rule ensures_mono [OF resume_all_sys_inv [OF inv c one lock_invD(4,3) [OF li]]], elim conjE exE)
    fix k' k1 t assume k': "sys_inv k'" and r: "resumed k k1" and s: "switched t k1 k'"
    note same = switched_same [OF s]
    have r1: "ticked (resume_set k) k k1" "uxSchedulerSuspended k1 = 0" using r by (simp_all add: resumed_def)
    have "container (lists k') = container (lists k1)" using s by (simp add: switched_def)
    note rs = resumed_switched [OF inv r1(1) this same(4)]
    show "ensures (f k') Q"
      by (rule post) (use k' rs r1(2) same(6) in auto)
  qed
  then show ?thesis by (auto simp: case_prod_unfold elim!: ensures_mono split: if_splits)
qed

lemma resume_only_ensures:
  assumes li: "lock_inv k" and one: "uxSchedulerSuspended k = 1" and cr: "current_ready k" and st: "settled k"
    and post: "\<And>k' y. \<lbrakk>sys_inv k'; uxSchedulerSuspended k' = 0; tcbs k' = tcbs k;
      \<And>t. event_list k t = Some PendingReadyL \<Longrightarrow> ready k' t; \<And>t. ready k' t \<or> event_list k' t = event_list k t;
      \<And>t. ready k t \<Longrightarrow> ready k' t\<rbrakk> \<Longrightarrow> Q (k', y)"
  shows "ensures (xTaskResumeAll k) Q"
proof -
  from lock_invD(6) [OF li] obtain c where c: "pxCurrentTCB k = Some c" by blast
  from lock_invD(4) [OF li] obtain i where i: "ready k i" by (rule idle_readyE)
  note inv = lock_invD(1) [OF li]
  have a: "ensures (xTaskResumeAll k) (\<lambda>(k', y). sys_inv k')"
    by (rule ensures_mono [OF xTaskResumeAll_sys_inv [OF lock_invD(1,3,4) [OF li] cr st lock_invD(5) [OF li]]]) auto
  show ?thesis
  proof (rule ensures_mono [OF ensures_conj [OF a xTaskResumeAll_ensures [OF inv c one i]]], elim conjE)
    fix r assume r: "case r of (k', y) \<Rightarrow> sys_inv k'" and as: "after_switch (\<lambda>k1. kernel_inv k1 \<and>
      ticked (resume_set k) k k1 \<and> uxSchedulerSuspended k1 = 0 \<and> members k1 PendingReadyL = [] \<and>
      xTickCount k1 = xTickCount k + xPendedTicks k \<and> xPendedTicks k1 = 0 \<and>
      (xYieldPending k \<or> (\<exists>t \<in> resume_set k. prio k c < prio k t) \<longrightarrow> xYieldPending k1)) r"
    obtain k' y where rr: "r = (k', y)" by (cases r)
    obtain k1 where k1: "ticked (resume_set k) k k1" "uxSchedulerSuspended k' = 0"
      and same: "container (lists k') = container (lists k1)" "tcbs k' = tcbs k1"
    proof (cases y)
      case True
      with as rr obtain k1 t where "ticked (resume_set k) k k1" "uxSchedulerSuspended k1 = 0" "switched t k1 k'"
        by (auto simp: after_switch_def)
      then show ?thesis by (intro that [of k1]) (simp_all add: switched_def)
    next
      case False
      with as rr show ?thesis by (intro that [of k']) (simp_all add: after_switch_def)
    qed
    note rs = resumed_switched [OF inv k1(1) same]
    show "Q r" unfolding rr by (rule post) (use r rr rs k1(2) in auto)
  qed
qed

text \<open>Back to the invariant that holds between calls.\<close>

lemma os_inv_resumed:
  assumes lk: "sched_locked s" and k: "sys_inv k'" "tcbs k' = tcbs (kern s)"
  shows "os_inv (s\<lparr>kern := k'\<rparr>)"
  using assms by (simp add: sched_locked_def os_inv_def owners_ok_def)

definition unlocked :: "queue_handle \<Rightarrow> os \<Rightarrow> bool" where
  "unlocked h s \<longleftrightarrow> (\<exists>q. queues s h = Some q \<and> cTxLock q = queueUNLOCKED \<and> cRxLock q = queueUNLOCKED)"

context locked_env
begin

lemma unlock_queue:
  assumes lk: "sched_locked s" and q: "queues s h = Some q" and set: "pxQueueSetContainer q = None"
    and post: "\<And>s'. \<lbrakk>sched_locked s'; kernel_progress (kern s) (kern s'); since h s s'; unlocked h s';
      \<And>d ws. ws \<noteq> [] \<Longrightarrow> counted d h ws s \<Longrightarrow> first_served d h ws s'\<rbrakk> \<Longrightarrow> ensures (f s') Q"
  shows "ensures (do { s \<leftarrow> prvUnlockQueue e h s; s \<leftarrow> e AfterUnlock s; f s }) Q"
proof -
  let ?f = "\<lambda>s. do { s \<leftarrow> e AfterUnlock s; f s }"
  have "ensures (unlock_tx h s) (\<lambda>s1. ensures (do { s2 \<leftarrow> e InUnlock s1; do { s3 \<leftarrow> unlock_rx h s2; ?f s3 } }) Q)"
  proof (rule unlock_tx_ensures [OF lk q set])
    fix k1 let ?q1 = "q\<lparr>cTxLock := queueUNLOCKED\<rparr>" let ?s1 = "(set_queue h ?q1 s)\<lparr>kern := k1\<rparr>"
    assume lk1: "sched_locked ?s1" and p1: "pended (nat (cTxLock q)) (ReceiveL h) (kern s) k1"
    note kp1 = pended_progress [OF sched_lockedD(5) [OF lk] _ p1]
    have r1: "first_served Receivers h ws ?s1" if "ws \<noteq> []" "counted Receivers h ws s" for ws
      by (rule first_served_unlocked [OF sched_lockedD(5) [OF lk] that q]) (use p1 in simp_all)
    have c1: "counted Senders h ws ?s1" if "counted Senders h ws s" for ws
      by (rule other_side(1) [OF p1 _ q _ _ that]) simp_all
    show "ensures (do { s2 \<leftarrow> e InUnlock ?s1; do { s3 \<leftarrow> unlock_rx h s2; ?f s3 } }) Q"
    proof (rule step [OF _ lk1])
      fix s2 assume lk2: "sched_locked s2" and p2: "progress ?s1 s2"
      have r2: "first_served Receivers h ws s2" if "ws \<noteq> []" "counted Receivers h ws s" for ws
        by (rule first_served_progress [where q = ?q1, OF lk1 lk2 that(1) r1 [OF that] _ _ p2]) simp_all
      have c2: "counted Senders h ws s2" if "counted Senders h ws s" for ws
        by (rule counted_progress [OF c1 [OF that] lk2 p2])
      obtain q2 where q2: "queues s2 h = Some q2" "queue_progress h k1 (kern s2) ?q1 q2"
        using progressD(2) [OF p2, of h ?q1] by auto
      then have un2: "cTxLock q2 = queueUNLOCKED" "pxQueueSetContainer q2 = None" "pcHead q2 = pcHead q"
        using queue_progressD [OF q2(2)] set by simp_all
      have kp2: "kernel_progress (kern s) (kern s2)"
        using kp1 progressD(1) [OF p2] by (simp add: kernel_progress_trans)
      show "ensures (do { s3 \<leftarrow> unlock_rx h s2; ?f s3 }) Q"
        unfolding ensures_bind [of "unlock_rx h s2"]
      proof (rule unlock_rx_ensures [OF lk2 q2(1)])
        fix k3 let ?q3 = "q2\<lparr>cRxLock := queueUNLOCKED\<rparr>" let ?s3 = "(set_queue h ?q3 s2)\<lparr>kern := k3\<rparr>"
        assume lk3: "sched_locked ?s3" and p3: "pended (nat (cRxLock q2)) (SendL h) (kern s2) k3"
        have kp3: "kernel_progress (kern s) (kern ?s3)"
          using pended_progress [OF sched_lockedD(5) [OF lk2] _ p3] kp2 by (simp add: kernel_progress_trans)
        have r3: "first_served Receivers h ws ?s3" if "ws \<noteq> []" "counted Receivers h ws s" for ws
          by (rule other_side(2) [OF p3 _ q2(1) _ _ that(1) r2 [OF that]]) simp_all
        have c3: "first_served Senders h ws ?s3" if "ws \<noteq> []" "counted Senders h ws s" for ws
          by (rule first_served_unlocked [OF sched_lockedD(5) [OF lk2] that(1) c2 [OF that(2)] q2(1)]) (use p3 in simp_all)
        have f3: "first_served d h ws ?s3" if "ws \<noteq> []" "counted d h ws s" for d ws
          using r3 c3 that by (cases d) simp_all
        show "ensures (?f ?s3) Q"
        proof (rule step [OF _ lk3])
          fix s4 assume lk4: "sched_locked s4" and p4: "progress ?s3 s4"
          have kp4: "kernel_progress (kern s) (kern s4)"
            using kp3 progressD(1) [OF p4] by (rule kernel_progress_trans)
          have lock3: "lock_of d ?q3 = queueUNLOCKED" for d using un2(1) by (cases d) simp_all
          have fs4: "first_served d h ws s4" if "ws \<noteq> []" "counted d h ws s" for d ws
            by (rule first_served_progress [where q = ?q3, OF lk3 lk4 that(1) f3 [OF that] _ lock3 p4]) simp
          obtain q4 where q4: "queues s4 h = Some q4" "queue_progress h k3 (kern s4) ?q3 q4"
            using progressD(2) [OF p4, of h ?q3] by auto
          then have "pxQueueSetContainer q4 = None" "pcHead q4 = pcHead q"
            using queue_progressD(1,2) [OF q4(2)] un2(2,3) by simp_all
          then have "since h s s4"
            using kernel_progressD(7,10) [OF kp4] q q4(1) set unfolding since_def by auto
          moreover have "unlocked h s4"
            using q4(1) queue_progressD(6,9) [OF q4(2)] un2(1) by (simp add: unlocked_def)
          ultimately show "ensures (f s4) Q" using lk4 kp4 fs4 by (intro post)
        qed simp
      qed
    qed simp
  qed
  then show ?thesis by (simp add: prvUnlockQueue_def)
qed

end

end
