(* ===== verification/Queue_Block.thy ===== *)
theory Queue_Block
  imports Queue_Wait
begin

text \<open>
  A round of waiting as a whole: the caller locks the queue, finds that it has to wait, queues
  up behind the waiters of its priority and sleeps. Whatever interrupts do meanwhile, the item
  or the space that comes wakes the first waiter; no wake-up is lost.
\<close>

section \<open>The caller's place\<close>

text \<open>The caller has been put on the list \<open>l\<close>; the queue and the scheduler are locked.\<close>

lemma place_locked:
  assumes a: "about_to_wait c h s" and w: "w \<noteq> 0" and l: "is_event_list l" "l \<noteq> PendingReadyL"
    and post: "\<And>k. \<lbrakk>sched_locked (s\<lparr>kern := k\<rparr>); uxSchedulerSuspended k = 1; pxCurrentTCB k = Some c;
      members k l = insert_at_first (\<lambda>i. item_value (lists (kern s)) i \<le> item_value (lists (kern s)) (EventI c))
        (EventI c) (members (kern s) l);
      \<And>t. event_list k t = (if t = c then Some l else event_list (kern s) t)\<rbrakk> \<Longrightarrow> Q k"
  shows "ensures (vTaskPlaceOnEventList l w (kern s)) Q"
proof -
  have b: "blockable (kern s) c" and lk: "sched_locked s" and susp: "uxSchedulerSuspended (kern s) = 1"
    and ni: "xIdleTaskHandle (kern s) \<noteq> Some c" using a by (simp_all add: about_to_wait_def)
  note li = sched_lockedD(1) [OF lk]
  show ?thesis
  proof (rule vTaskPlaceOnEventList_ensures [OF b w l])
    fix k assume k: "kernel_inv k" "blocked c w True (Some l) (kern s) k"
      "members k l = insert_at_first (\<lambda>i. item_value (lists (kern s)) i \<le> item_value (lists (kern s)) (EventI c))
        (EventI c) (members (kern s) l)"
    note f = blocked_frame [OF k(2)]
    have cur: "pxCurrentTCB (kern s) = Some c" using b by (simp add: blockable_def)
    have "idle_ready k"
      using lock_invD(4) [OF li] ni ready_blocked [OF k(2)] f(14) by (auto simp: idle_ready_def)
    then have "lock_inv k" using k(1) li f susp by (simp add: lock_inv_def)
    moreover have "uxMutexesHeld (tcbs k t) = uxMutexesHeld (tcbs (kern s) t)" for t
      using blocked_lists(4) [OF k(2)] by simp
    ultimately have "sched_locked (s\<lparr>kern := k\<rparr>)" using lk f by (simp add: sched_locked_def owners_ok_def)
    then show "Q k" by (rule post) (use f susp cur k blocked_lists(2) [OF k(2)] in simp_all)
  qed
qed

lemma kernel_progress_event:
  "kernel_progress k k' \<Longrightarrow> event_list k t = Some l \<Longrightarrow> event_list k' t = Some l \<or> event_list k' t = Some PendingReadyL"
  unfolding kernel_progress_def by metis

lemma hd_insert_at_first:
  "hd (insert_at_first P x xs) = x \<or> xs \<noteq> [] \<and> P (hd xs) \<and> hd (insert_at_first P x xs) = hd xs"
  by (cases xs) (simp_all add: insert_at_first_def)

lemma unlocked_waiter:
  assumes s: "sys_inv k" and un: "uxSchedulerSuspended k = 0" and e: "event_list k t = Some l" and l: "l \<noteq> PendingReadyL"
  shows "\<not> ready k t"
  using task_okD(7) [OF kernel_core_task [OF sys_invD(2) [OF s]], of t "prio k t"] e l by (auto simp: ready_def)

text \<open>
  The caller \<open>c\<close> went to wait in state \<open>s\<close>; in \<open>s'\<close> it waits or is awake, and if it waits although
  what it waits for is there, a task before it in the order of waiting has been woken for it.
\<close>

definition awaits :: "side \<Rightarrow> task \<Rightarrow> queue_handle \<Rightarrow> os \<Rightarrow> os \<Rightarrow> bool" where
  "awaits d c h s s' \<longleftrightarrow>
     (ready (kern s') c \<or> event_list (kern s') c = Some (waiters d h)) \<and>
     (event_list (kern s') c = Some (waiters d h) \<longrightarrow>
        (\<exists>q. queues s' h = Some q \<and> (lacks d q \<or>
          (\<exists>t. t \<noteq> c \<and> ready (kern s') t \<and> event_list (kern s) t = Some (waiters d h) \<and>
             item_value (lists (kern s)) (EventI t) \<le> item_value (lists (kern s)) (EventI c)))))"

lemma awaitsI:
  assumes core: "kernel_core (kern s)" and s': "sys_inv (kern s')" "uxSchedulerSuspended (kern s') = 0"
    and ws: "ws = insert_at_first (\<lambda>i. item_value (lists (kern s)) i \<le> item_value (lists (kern s)) (EventI c))
        (EventI c) (members (kern s) (waiters d h))"
    and f: "first_served d h ws s2" and q: "queues s' h = queues s2 h" "queues s2 h \<noteq> None"
    and pend: "\<And>t. event_list (kern s2) t = Some PendingReadyL \<Longrightarrow> ready (kern s') t"
    and c: "ready (kern s') c \<or> event_list (kern s') c = Some (waiters d h)"
  shows "awaits d c h s s'"
proof -
  have "\<exists>q. queues s' h = Some q \<and> (lacks d q \<or>
      (\<exists>t. t \<noteq> c \<and> ready (kern s') t \<and> event_list (kern s) t = Some (waiters d h) \<and>
         item_value (lists (kern s)) (EventI t) \<le> item_value (lists (kern s)) (EventI c)))"
    if e: "event_list (kern s') c = Some (waiters d h)"
  proof (cases "event_list (kern s2) (owner (hd ws)) = Some PendingReadyL")
    case False
    then show ?thesis using f q by (auto simp: first_served_def)
  next
    case True
    let ?t = "owner (hd ws)" and ?ms = "members (kern s) (waiters d h)"
    have r: "ready (kern s') ?t" using pend [OF True] .
    then have "?t \<noteq> c" using unlocked_waiter [OF s' e] by auto
    then have ne: "?ms \<noteq> []" "hd ws = hd ?ms"
      "item_value (lists (kern s)) (hd ?ms) \<le> item_value (lists (kern s)) (EventI c)"
      using hd_insert_at_first [of "\<lambda>i. item_value (lists (kern s)) i \<le> item_value (lists (kern s)) (EventI c)" "EventI c" ?ms]
      unfolding ws by auto
    then have "hd ?ms = EventI ?t" "event_list (kern s) ?t = Some (waiters d h)"
      using event_member [OF core, of "hd ?ms" "waiters d h"] by auto
    then show ?thesis using r ne(3) \<open>?t \<noteq> c\<close> q by auto
  qed
  with c show ?thesis by (simp add: awaits_def)
qed

context locked_env
begin

lemma queue_block_ensures:
  assumes a: "about_to_wait c h s" and w: "w \<noteq> 0" and q: "queues s h = Some q" and set: "pxQueueSetContainer q = None"
    and cnt: "lacks d q \<or> 0 < lock_of d q"
    and post: "\<And>s'. \<lbrakk>os_inv s'; uxSchedulerSuspended (kern s') = 0; unlocked h s'; awaits d c h s s'\<rbrakk> \<Longrightarrow>
      ensures (e Resumed s') Q"
  shows "ensures (queue_block e h (waiters d h) w s) Q"
proof -
  have lk: "sched_locked s" and tx: "0 \<le> lock_of d q" using a q by (cases d; auto simp: about_to_wait_def)+
  note core = sched_lockedD(5) [OF lk]
  define ws where "ws = insert_at_first (\<lambda>i. item_value (lists (kern s)) i \<le> item_value (lists (kern s)) (EventI c))
    (EventI c) (members (kern s) (waiters d h))"
  have ne: "ws \<noteq> []" by (simp add: ws_def)
  let ?tail = "\<lambda>s. do { (k, y) \<leftarrow> xTaskResumeAll (kern s); k \<leftarrow> (if \<not> y then portYIELD k else Some k); e Resumed (s\<lparr>kern := k\<rparr>) }"
  have "ensures (vTaskPlaceOnEventList (waiters d h) w (kern s)) (\<lambda>k.
    ensures (do { s1 \<leftarrow> e AfterPlace (s\<lparr>kern := k\<rparr>); do { s2 \<leftarrow> prvUnlockQueue e h s1; s3 \<leftarrow> e AfterUnlock s2; ?tail s3 } }) Q)"
  proof (rule place_locked [OF a w])
    fix k assume lk0: "sched_locked (s\<lparr>kern := k\<rparr>)" and one: "uxSchedulerSuspended k = 1"
      and cur: "pxCurrentTCB k = Some c"
      and m: "members k (waiters d h) = insert_at_first
        (\<lambda>i. item_value (lists (kern s)) i \<le> item_value (lists (kern s)) (EventI c)) (EventI c) (members (kern s) (waiters d h))"
      and ev: "\<And>t. event_list k t = (if t = c then Some (waiters d h) else event_list (kern s) t)"
    let ?s = "s\<lparr>kern := k\<rparr>"
    have c0: "counted d h ws ?s" using m q tx cnt by (simp add: counted_def ws_def)
    show "ensures (do { s1 \<leftarrow> e AfterPlace ?s; do { s2 \<leftarrow> prvUnlockQueue e h s1; s3 \<leftarrow> e AfterUnlock s2; ?tail s3 } }) Q"
    proof (rule step [OF _ lk0])
      fix s1 assume lk1: "sched_locked s1" and p1: "progress ?s s1"
      note c1 = counted_progress [OF c0 lk1 p1]
      obtain q1 where q1: "queues s1 h = Some q1" "queue_progress h k (kern s1) q q1"
        using progressD(2) [OF p1, of h q] q by auto
      have set1: "pxQueueSetContainer q1 = None" using queue_progressD(1) [OF q1(2)] set by simp
      show "ensures (do { s2 \<leftarrow> prvUnlockQueue e h s1; s3 \<leftarrow> e AfterUnlock s2; ?tail s3 }) Q"
      proof (rule unlock_queue [OF lk1 q1(1) set1])
        fix s3 assume lk3: "sched_locked s3" and kp3: "kernel_progress (kern s1) (kern s3)" and un: "unlocked h s3"
          and fs: "\<And>d ws. ws \<noteq> [] \<Longrightarrow> counted d h ws s1 \<Longrightarrow> first_served d h ws s3"
        have f3: "first_served d h ws s3" by (rule fs [OF ne c1])
        have one3: "uxSchedulerSuspended (kern s3) = 1"
          using kernel_progressD(5) [OF kp3] kernel_progressD(5) [OF progressD(1) [OF p1]] one by simp
        have c3: "event_list (kern s3) c = Some (waiters d h) \<or> event_list (kern s3) c = Some PendingReadyL"
          by (rule kernel_progress_event [OF kernel_progress_trans [OF progressD(1) [OF p1] kp3]]) (simp add: ev)
        show "ensures (?tail s3) Q"
        proof (rule resume_yield_ensures [OF sched_lockedD(1) [OF lk3] one3])
          fix k' assume k': "sys_inv k'" "uxSchedulerSuspended k' = 0" "tcbs k' = tcbs (kern s3)"
            and pend: "\<And>t. event_list (kern s3) t = Some PendingReadyL \<Longrightarrow> ready k' t"
            and rest: "\<And>t. ready k' t \<or> event_list k' t = event_list (kern s3) t"
          let ?s' = "s3\<lparr>kern := k'\<rparr>"
          have aw: "awaits d c h s ?s'"
          proof (rule awaitsI [OF core _ _ ws_def f3])
            show "queues s3 h \<noteq> None" using un by (auto simp: unlocked_def)
            show "ready (kern ?s') c \<or> event_list (kern ?s') c = Some (waiters d h)"
              using c3 pend [of c] rest [of c] by auto
          qed (use k' pend in simp_all)
          show "ensures (e Resumed ?s') Q"
            by (rule post [OF os_inv_resumed [OF lk3 k'(1,3)] _ _ aw]) (use k' un in \<open>simp_all add: unlocked_def\<close>)
        qed
      qed
    qed simp
  qed simp_all
  then show ?thesis unfolding queue_block_def by simp
qed

lemma queue_go_on_ensures:
  assumes a: "about_to_wait c h s" and q: "queues s h = Some q" and set: "pxQueueSetContainer q = None"
    and post: "\<And>s'. \<lbrakk>os_inv s'; uxSchedulerSuspended (kern s') = 0; unlocked h s'; ready (kern s') c\<rbrakk> \<Longrightarrow>
      ensures (e Resumed s') Q"
  shows "ensures (queue_go_on e h s) Q"
proof -
  have lk: "sched_locked s" and b: "blockable (kern s) c" and one: "uxSchedulerSuspended (kern s) = 1"
    and st: "settled (kern s)" using a by (simp_all add: about_to_wait_def)
  show ?thesis
    unfolding queue_go_on_def
  proof (rule unlock_queue [OF lk q set])
    fix s3 assume lk3: "sched_locked s3" and kp3: "kernel_progress (kern s) (kern s3)" and un: "unlocked h s3"
    have one3: "uxSchedulerSuspended (kern s3) = 1" using kernel_progressD(5) [OF kp3] one by simp
    have r3: "ready (kern s3) c" "current_ready (kern s3)" "settled (kern s3)"
      using b st kernel_progressD(3,8) [OF kp3] kernel_progressD(12) [OF kp3, of c]
      by (auto simp: blockable_def current_ready_def)
    show "ensures (do { (k, y) \<leftarrow> xTaskResumeAll (kern s3); e Resumed (s3\<lparr>kern := k\<rparr>) }) Q"
      unfolding ensures_bind [of "xTaskResumeAll _"]
    proof (rule resume_only_ensures [OF sched_lockedD(1) [OF lk3] one3 r3(2,3)], unfold prod.case)
      fix k' y assume k': "sys_inv k'" "uxSchedulerSuspended k' = 0" "tcbs k' = tcbs (kern s3)"
        and r: "\<And>t. ready (kern s3) t \<Longrightarrow> ready k' t"
      show "ensures (e Resumed (s3\<lparr>kern := k'\<rparr>)) Q"
        by (rule post [OF os_inv_resumed [OF lk3 k'(1,3)]]) (use k' un r [OF r3(1)] in \<open>simp_all add: unlocked_def\<close>)
    qed
  qed
qed

end

lemma awaits_since:
  assumes si: "since h s s1" and a: "awaits d c h s1 s'" shows "awaits d c h s s'"
proof -
  have "event_list (kern s1) t = Some (waiters d h) \<Longrightarrow> event_list (kern s) t = Some (waiters d h)" for t
    using si by (auto simp: since_def)
  moreover have v: "item_value (lists (kern s1)) = item_value (lists (kern s))"
    using si by (simp add: since_def)
  ultimately show ?thesis using a unfolding awaits_def v by blast
qed

lemma awaits_awake:
  assumes s': "sys_inv (kern s')" "uxSchedulerSuspended (kern s') = 0" and r: "ready (kern s') c"
  shows "awaits d c h s s'"
  using unlocked_waiter [OF s', of c "waiters d h"] r by (auto simp: awaits_def)

section \<open>A round of waiting\<close>

context locked_env
begin

lemma tested_ensures:
  assumes a: "about_to_wait c h s1" and si: "since h s s1" and q: "queues s1 h = Some q" and set: "pxQueueSetContainer q = None"
    and w: "w \<noteq> 0" and res: "e Resumed = Some"
    and post: "\<And>s'. \<lbrakk>os_inv s'; uxSchedulerSuspended (kern s') = 0; unlocked h s'; awaits d c h s s'\<rbrakk> \<Longrightarrow> Q s'"
  shows "ensures (do { s2 \<leftarrow> e AfterTest s1;
    if lacks d q then queue_block e h (waiters d h) w s2 else queue_go_on e h s2 }) Q"
proof (rule step)
  show lk: "sched_locked s1" using a by (simp add: about_to_wait_def)
  fix s2 assume lk2: "sched_locked s2" and p: "progress s1 s2"
  note a2 = about_to_wait_progress [OF a lk2 p]
  have si2: "since h s s2" using si since_progress [OF p] by (rule since_trans)
  obtain q2 where q2: "queues s2 h = Some q2" "queue_progress h (kern s1) (kern s2) q q2"
    using progressD(2) [OF p q] by blast
  have set2: "pxQueueSetContainer q2 = None" using queue_progressD(1) [OF q2(2)] set by simp
  show "ensures (if lacks d q then queue_block e h (waiters d h) w s2 else queue_go_on e h s2) Q"
  proof (cases "lacks d q")
    case True
    have "0 \<le> lock_of d q" using a q by (cases d) (auto simp: about_to_wait_def)
    then have "lacks d q2 \<or> 0 < lock_of d q2"
      using queue_progress_side [OF q2(2) sched_lockedD(2) [OF lk2 q2(1)], of d, unfolded side_progress_def] True by auto
    then have "ensures (queue_block e h (waiters d h) w s2) Q"
    proof (rule queue_block_ensures [OF a2 w q2(1) set2], unfold res ensures_Some)
      fix s' assume s': "os_inv s'" "uxSchedulerSuspended (kern s') = 0" "unlocked h s'" "awaits d c h s2 s'"
      show "Q s'" by (rule post [OF s'(1,2,3) awaits_since [OF si2 s'(4)]])
    qed
    with True show ?thesis by simp
  next
    case False
    have "ensures (queue_go_on e h s2) Q"
    proof (rule queue_go_on_ensures [OF a2 q2(1) set2], unfold res ensures_Some)
      fix s' assume s': "os_inv s'" "uxSchedulerSuspended (kern s') = 0" "unlocked h s'" "ready (kern s') c"
      show "Q s'" by (rule post [OF s'(1,2,3) awaits_awake [OF os_invD(1) [OF s'(1)] s'(2,4)]])
    qed
    with False show ?thesis by simp
  qed
qed simp

end

text \<open>What a caller finds when it leaves a round: a time-out, or another try.\<close>

definition waited :: "side \<Rightarrow> ('r \<Rightarrow> bool) \<Rightarrow> (queue \<Rightarrow> bool) \<Rightarrow> task \<Rightarrow> queue_handle \<Rightarrow> os \<Rightarrow> os \<times> ('r + patience) \<Rightarrow> bool" where
  "waited d R P c h s r = (case r of (s', r) \<Rightarrow>
     os_inv s' \<and> uxSchedulerSuspended (kern s') = 0 \<and> unlocked h s' \<and>
     (case r of Inl x \<Rightarrow> R x \<and> ready (kern s') c \<and> (\<exists>q. queues s' h = Some q \<and> P q)
      | Inr _ \<Rightarrow> awaits d c h s s'))"

context locked_env
begin

lemma receive_wait:
  assumes inv: "os_inv s" and run: "uxSchedulerSuspended (kern s) = 0" and cur: "pxCurrentTCB (kern s) = Some c"
    and ni: "xIdleTaskHandle (kern s) \<noteq> Some c" and few: "uxCurrentNumberOfTasks (kern s) \<le> 127"
    and q: "queues s h = Some q" and set: "pxQueueSetContainer q = None" and w: "w \<noteq> 0"
    and res: "e Resumed = Some"
  shows "ensures (xQueueReceive_wait h e (Some to, w) s)
    (waited Receivers (\<lambda>x. x = (errQUEUE_EMPTY, [])) (\<lambda>q. uxMessagesWaiting q = 0) c h s)" (is "ensures _ ?Q")
  unfolding xQueueReceive_wait_def ensures_bind [of "queue_wait_begin _ _ _ _"]
proof (rule ensures_mono [OF wait_begin [OF inv run cur ni few q, of to w]])
  fix r :: "os \<times> TimeOut \<times> tick \<times> bool"
  assume r: "case r of (s', to', w', expired) \<Rightarrow>
    about_to_wait c h s' \<and> since h s s' \<and> (w \<noteq> 0 \<and> \<not> expired \<longrightarrow> w' \<noteq> 0)"
  obtain s1 to' w' x where rr: "r = (s1, to', w', x)" by (cases r)
  have a: "about_to_wait c h s1" and si: "since h s s1" and w': "\<not> x \<Longrightarrow> w' \<noteq> 0" using r rr w by auto
  obtain q1 where q1: "queues s1 h = Some q1" "pxQueueSetContainer q1 = None"
    using si q set by (auto simp: since_def)
  show "ensures (case r of (s, to, w, expired) \<Rightarrow>
     if \<not> expired
     then do {
       q \<leftarrow> queues s h;
       s \<leftarrow> e AfterTest s;
       s \<leftarrow> (if prvIsQueueEmpty q then queue_block e h (ReceiveL h) w s else queue_go_on e h s);
       Some (s, Inr (Some to, w)) }
     else do {
       s \<leftarrow> queue_go_on e h s;
       q \<leftarrow> queues s h;
       Some (s, if prvIsQueueEmpty q then Inl (errQUEUE_EMPTY, []) else Inr (Some to, w)) }) ?Q"
  proof (cases x)
    case True
    have "ensures (queue_go_on e h s1) (\<lambda>s. ensures (do { q \<leftarrow> queues s h;
       Some (s, if prvIsQueueEmpty q then Inl (errQUEUE_EMPTY, []) else Inr (Some to', w')) }) ?Q)"
    proof (rule queue_go_on_ensures [OF a q1], unfold res ensures_Some)
      fix s' assume s': "os_inv s'" "uxSchedulerSuspended (kern s') = 0" "unlocked h s'" "ready (kern s') c"
      then obtain q' where "queues s' h = Some q'" by (auto simp: unlocked_def)
      then show "ensures (do { q \<leftarrow> queues s' h;
         Some (s', if prvIsQueueEmpty q then Inl (errQUEUE_EMPTY, []) else Inr (Some to', w')) }) ?Q"
        using s' awaits_awake [OF os_invD(1) [OF s'(1)] s'(2,4)] by (simp add: waited_def prvIsQueueEmpty_def)
    qed
    with rr True show ?thesis by simp
  next
    case False
    have "ensures (do { s2 \<leftarrow> e AfterTest s1;
       if lacks Receivers q1 then queue_block e h (waiters Receivers h) w' s2 else queue_go_on e h s2 })
       (\<lambda>s'. ?Q (s', Inr (Some to', w')))"
      by (rule tested_ensures [OF a si q1 w' [OF False] res]) (simp add: waited_def)
    with rr False q1(1) show ?thesis by (cases "uxMessagesWaiting q1 = 0") (simp_all add: prvIsQueueEmpty_def)
  qed
qed

lemma send_wait:
  assumes inv: "os_inv s" and run: "uxSchedulerSuspended (kern s) = 0" and cur: "pxCurrentTCB (kern s) = Some c"
    and ni: "xIdleTaskHandle (kern s) \<noteq> Some c" and few: "uxCurrentNumberOfTasks (kern s) \<le> 127"
    and q: "queues s h = Some q" and set: "pxQueueSetContainer q = None" and w: "w \<noteq> 0"
    and res: "e Resumed = Some"
  shows "ensures (xQueueGenericSend_wait h e (Some to, w) s)
    (waited Senders (\<lambda>x. x = errQUEUE_FULL) (\<lambda>q. True) c h s)" (is "ensures _ ?Q")
  unfolding xQueueGenericSend_wait_def ensures_bind [of "queue_wait_begin _ _ _ _"]
proof (rule ensures_mono [OF wait_begin [OF inv run cur ni few q, of to w]])
  fix r :: "os \<times> TimeOut \<times> tick \<times> bool"
  assume r: "case r of (s', to', w', expired) \<Rightarrow>
    about_to_wait c h s' \<and> since h s s' \<and> (w \<noteq> 0 \<and> \<not> expired \<longrightarrow> w' \<noteq> 0)"
  obtain s1 to' w' x where rr: "r = (s1, to', w', x)" by (cases r)
  have a: "about_to_wait c h s1" and si: "since h s s1" and w': "\<not> x \<Longrightarrow> w' \<noteq> 0" using r rr w by auto
  obtain q1 where q1: "queues s1 h = Some q1" "pxQueueSetContainer q1 = None"
    using si q set by (auto simp: since_def)
  show "ensures (case r of (s, to, w, expired) \<Rightarrow>
     if \<not> expired
     then do {
       q \<leftarrow> queues s h;
       s \<leftarrow> e AfterTest s;
       s \<leftarrow> (if prvIsQueueFull q then queue_block e h (SendL h) w s else queue_go_on e h s);
       Some (s, Inr (Some to, w)) }
     else do { s \<leftarrow> queue_go_on e h s; Some (s, Inl errQUEUE_FULL) }) ?Q"
  proof (cases x)
    case True
    have "ensures (queue_go_on e h s1) (\<lambda>s'. ?Q (s', Inl errQUEUE_FULL))"
      by (rule queue_go_on_ensures [OF a q1], unfold res ensures_Some) (auto simp: waited_def unlocked_def)
    with rr True show ?thesis by simp
  next
    case False
    have "ensures (do { s2 \<leftarrow> e AfterTest s1;
       if lacks Senders q1 then queue_block e h (waiters Senders h) w' s2 else queue_go_on e h s2 })
       (\<lambda>s'. ?Q (s', Inr (Some to', w')))"
      by (rule tested_ensures [OF a si q1 w' [OF False] res]) (simp add: waited_def)
    with rr False q1(1) show ?thesis by (cases "uxMessagesWaiting q1 = uxLength q1") (simp_all add: prvIsQueueFull_def)
  qed
qed

end

end
