(* ===== verification/Queue_Mutex.thy ===== *)
theory Queue_Mutex
  imports Queue_Block
begin

text \<open>
  Semaphores and mutexes: taking and giving in their critical sections, what they do to the
  holder and to its priority, and recursive mutexes.
\<close>

section \<open>Taking\<close>

lemma os_inv_queue_kern:
  assumes inv: "os_inv s" and q: "queues s h = Some q" and ok: "queue_ok q'" and k: "sys_inv k"
    and own: "\<And>t. finite (mutexes_of (set_queue h q' s) t) \<and> card (mutexes_of (set_queue h q' s) t) \<le> uxMutexesHeld (tcbs k t)"
  shows "os_inv ((set_queue h q' s)\<lparr>kern := k\<rparr>)"
  using inv ok k own by (simp add: os_inv_def owners_ok_def mutexes_of_def)

lemma mutexes_of_set:
  assumes "queues s h = Some q"
  shows "mutexes_of (set_queue h q' s) t =
    (if pcHead q' = queueQUEUE_IS_MUTEX \<and> xMutexHolder q' = Some t then insert h (mutexes_of s t) else mutexes_of s t - {h})"
  using assms by (auto simp: mutexes_of_def)

text \<open>The queue of a semaphore with one token less.\<close>

lemma token_taken_ok:
  assumes ok: "queue_ok q" and sz: "uxItemSize q = 0" and some: "uxMessagesWaiting q \<noteq> 0"
  shows "queue_ok (q\<lparr>uxMessagesWaiting := uxMessagesWaiting q - 1\<rparr>)"
    "pcHead q = queueQUEUE_IS_MUTEX \<Longrightarrow> queue_ok (q\<lparr>uxMessagesWaiting := uxMessagesWaiting q - 1, xMutexHolder := t\<rparr>)"
  using assms by (auto simp: queue_ok_def storage_ok_def)

lemma take_semaphore:
  assumes inv: "os_inv s" and q: "queues s h = Some q" and nm: "pcHead q \<noteq> queueQUEUE_IS_MUTEX"
    and sz: "uxItemSize q = 0" and some: "uxMessagesWaiting q \<noteq> 0"
  shows "ensures (xQueueSemaphoreTake_try h p s) (\<lambda>(s', r). r = Inl pdPASS \<and> os_inv s' \<and>
    queues s' = (queues s)(h \<mapsto> q\<lparr>uxMessagesWaiting := uxMessagesWaiting q - 1\<rparr>) \<and> served (SendL h) (kern s) (kern s'))"
proof -
  let ?q = "q\<lparr>uxMessagesWaiting := uxMessagesWaiting q - 1\<rparr>"
  let ?s = "set_queue h ?q s"
  have ok: "queue_ok ?q" by (rule token_taken_ok [OF os_invD(2) [OF inv q] sz some])
  have inv': "os_inv ?s" by (rule os_inv_set_queue [OF inv q ok]) simp_all
  have "ensures (wake_waiter (SendL h) ?s) (\<lambda>(s', y). ensures (yield_if y s') (\<lambda>s'. os_inv s' \<and>
    queues s' = (queues s)(h \<mapsto> ?q) \<and> served (SendL h) (kern s) (kern s')))"
  proof (rule wake_yield_ensures)
    fix k' assume "sys_inv k'" "served (SendL h) (kern ?s) k'"
    then show "os_inv (?s\<lparr>kern := k'\<rparr>) \<and> queues (?s\<lparr>kern := k'\<rparr>) = (queues s)(h \<mapsto> ?q) \<and>
      served (SendL h) (kern s) (kern (?s\<lparr>kern := k'\<rparr>))"
      using os_inv_kern [OF inv', of k'] served_frame(1) [of "SendL h" "kern s" k'] by simp
  qed (use os_invD(1) [OF inv] in simp_all)
  with q nm some show ?thesis by (simp add: xQueueSemaphoreTake_try_def Let_def case_prod_unfold)
qed

text \<open>Taking a mutex makes the caller its holder and counts it.\<close>

definition took_mutex :: "task \<Rightarrow> queue_handle \<Rightarrow> queue \<Rightarrow> os \<Rightarrow> os \<Rightarrow> bool" where
  "took_mutex c h q s s' \<longleftrightarrow>
     queues s' = (queues s)(h \<mapsto> q\<lparr>uxMessagesWaiting := 0, xMutexHolder := Some c\<rparr>) \<and>
     tcbs (kern s') = (tcbs (kern s))(c := (tcbs (kern s) c)\<lparr>uxMutexesHeld := uxMutexesHeld (tcbs (kern s) c) + 1\<rparr>)"

lemma take_mutex:
  assumes inv: "os_inv s" and q: "queues s h = Some q" and mu: "pcHead q = queueQUEUE_IS_MUTEX"
    and some: "uxMessagesWaiting q \<noteq> 0" and cur: "pxCurrentTCB (kern s) = Some c"
  shows "ensures (xQueueSemaphoreTake_try h p s) (\<lambda>(s', r). r = Inl pdPASS \<and> os_inv s' \<and> took_mutex c h q s s')"
proof -
  note okq = os_invD(2) [OF inv q] and si = os_invD(1) [OF inv]
  have one: "uxMessagesWaiting q = 1" and sz: "uxItemSize q = 0" and free: "xMutexHolder q = None"
    using queue_okD(3,4,5) [OF okq] queue_okD(6) [OF okq mu] mu some by (cases "xMutexHolder q"; simp)+
  let ?q = "q\<lparr>uxMessagesWaiting := 0, xMutexHolder := Some c\<rparr>"
  let ?k = "upd_tcb c (\<lambda>b. b\<lparr>uxMutexesHeld := uxMutexesHeld b + 1\<rparr>) (kern s)"
  let ?s = "(set_queue h ?q s)\<lparr>kern := ?k\<rparr>"
  have ok: "queue_ok ?q" using token_taken_ok(2) [OF okq sz some mu, of "Some c"] one by simp
  have sk: "sys_inv ?k" using pvTaskIncrementMutexHeldCount_sys_inv(1) [OF si cur] cur
    by (simp add: pvTaskIncrementMutexHeldCount_def)
  have inv': "os_inv ?s"
  proof (rule os_inv_queue_kern [OF inv q ok sk])
    fix t
    have "finite (mutexes_of s t)" "card (mutexes_of s t) \<le> uxMutexesHeld (tcbs (kern s) t)" "h \<notin> mutexes_of s t"
      using os_invD(3) [OF inv] q free by (auto simp: owners_ok_def mutexes_of_def)
    then show "finite (mutexes_of (set_queue h ?q s) t) \<and> card (mutexes_of (set_queue h ?q s) t) \<le> uxMutexesHeld (tcbs ?k t)"
      unfolding mutexes_of_set [OF q] using mu by simp
  qed
  have "ensures (wake_waiter (SendL h) ?s) (\<lambda>(s', y). ensures (yield_if y s') (\<lambda>s'. os_inv s' \<and> took_mutex c h q s s'))"
  proof (rule wake_yield_ensures)
    fix k' assume k': "sys_inv k'" "served (SendL h) (kern ?s) k'"
    then have "tcbs k' = tcbs ?k" using served_frame(1) [OF k'(2)] by simp
    then show "os_inv (?s\<lparr>kern := k'\<rparr>) \<and> took_mutex c h q s (?s\<lparr>kern := k'\<rparr>)"
      using os_inv_kern [OF inv', of k'] k'(1) by (auto simp: took_mutex_def)
  qed (use sk in simp_all)
  then show ?thesis
    using q mu one cur
    by (simp add: xQueueSemaphoreTake_try_def Let_def case_prod_unfold pvTaskIncrementMutexHeldCount_def kern_queues_swap)
qed

section \<open>Giving\<close>

text \<open>
  A holder that drops to its base priority may leave a ready task above it. The code asks for
  a switch then, unless it wakes a waiter, in which case the waiter's priority decides alone.
\<close>

lemma yield_pending_commutes:
  "k_list_remove i (k\<lparr>xYieldPending := b\<rparr>) = map_option (\<lambda>k. k\<lparr>xYieldPending := b\<rparr>) (k_list_remove i k)"
  "k\<lparr>xYieldPending := b, lists := L\<rparr> = k\<lparr>lists := L, xYieldPending := b\<rparr>"
  "prvAddTaskToReadyList t (k\<lparr>xYieldPending := b\<rparr>) = (prvAddTaskToReadyList t k)\<lparr>xYieldPending := b\<rparr>"
  "prvResetNextTaskUnblockTime (k\<lparr>xYieldPending := b\<rparr>) = (prvResetNextTaskUnblockTime k)\<lparr>xYieldPending := b\<rparr>"
  by (cases "list_remove i (lists k)")
    (auto simp: k_list_remove_def prvAddTaskToReadyList_def taskRECORD_READY_PRIORITY_def
      prvResetNextTaskUnblockTime_def split: list.splits)

lemma remove_event_yield_pending:
  "xTaskRemoveFromEventList l (k\<lparr>xYieldPending := True\<rparr>) =
     map_option (\<lambda>(k', y). (k'\<lparr>xYieldPending := True\<rparr>, y)) (xTaskRemoveFromEventList l k)"
proof (cases "list_head l (lists k)")
  case None
  then show ?thesis by (simp add: xTaskRemoveFromEventList_def)
next
  case (Some i)
  show ?thesis
  proof (cases "k_list_remove (EventI (owner i)) k")
    case None
    with Some show ?thesis by (simp add: xTaskRemoveFromEventList_def yield_pending_commutes)
  next
    case k1: (Some k1)
    define fin where "fin k2 = do {
      c \<leftarrow> pxCurrentTCB k2;
      if prio k2 (owner i) > prio k2 c then Some (k2\<lparr>xYieldPending := True\<rparr>, True) else Some (k2, False) }" for k2 :: kernel
    have fin: "fin (k2\<lparr>xYieldPending := True\<rparr>) = map_option (\<lambda>(k', y). (k'\<lparr>xYieldPending := True\<rparr>, y)) (fin k2)" for k2
      by (cases "pxCurrentTCB k2") (simp_all add: fin_def)
    show ?thesis
      using fin k1 Some
      by (cases "k_list_remove (StateI (owner i)) k1"; cases "uxSchedulerSuspended k1 = 0")
        (simp_all add: xTaskRemoveFromEventList_def yield_pending_commutes Let_def flip: fin_def)
  qed
qed

lemma remove_event_sets_yield:
  "xTaskRemoveFromEventList l k = Some (k', True) \<Longrightarrow> k'\<lparr>xYieldPending := True\<rparr> = k'"
  by (auto simp: xTaskRemoveFromEventList_def Let_def split: bind_splits if_splits)

text \<open>Waking a waiter that outranks the caller sets the flag, so what was owed before is paid.\<close>

lemma remove_first_unsettled:
  assumes s: "sys_inv (k\<lparr>xYieldPending := True\<rparr>)" and l: "is_event_list l" "l \<noteq> PendingReadyL"
    and cur: "pxCurrentTCB k = Some c" and ms: "members k l = EventI t # rest" and lt: "prio k c < prio k t"
    and post: "\<And>k'. \<lbrakk>sys_inv k'; served l k k'\<rbrakk> \<Longrightarrow> Q (k', True)"
  shows "ensures (xTaskRemoveFromEventList l k) Q"
proof -
  let ?k = "k\<lparr>xYieldPending := True\<rparr>"
  have "ensures (xTaskRemoveFromEventList l ?k) (\<lambda>(k', y). y \<and> sys_inv k' \<and> event_woken l t ?k k')"
    by (rule xTaskRemoveFromEventList_ensures [OF s l]) (use cur ms lt in simp_all)
  then obtain k' where r: "xTaskRemoveFromEventList l k = Some (k', True)" and sk: "sys_inv (k'\<lparr>xYieldPending := True\<rparr>)"
    and ew: "event_woken l t ?k (k'\<lparr>xYieldPending := True\<rparr>)"
    unfolding remove_event_yield_pending by (auto simp: ensures_iff)
  note same = remove_event_sets_yield [OF r]
  have "event_woken l t k k'" using ew unfolding same by (auto simp: event_woken_def ready_def)
  then have "served l k k'" using ms by (auto simp: served_def)
  with sk r post show ?thesis by (simp add: same)
qed

text \<open>Does giving the mutex end an inheritance?\<close>

definition drops :: "kernel \<Rightarrow> task \<Rightarrow> bool" where
  "drops k c \<longleftrightarrow> prio k c \<noteq> uxBasePriority (tcbs k c) \<and> uxMutexesHeld (tcbs k c) = 1"

text \<open>
  What giving does to the kernel: the giver has one mutex less and, with its last one, its base
  priority; the first waiter is woken.
\<close>

definition gave_mutex :: "task \<Rightarrow> queue_handle \<Rightarrow> kernel \<Rightarrow> kernel \<Rightarrow> bool" where
  "gave_mutex c h k k' \<longleftrightarrow>
     tcbs k' = (tcbs k)(c := (tcbs k c)\<lparr>uxMutexesHeld := uxMutexesHeld (tcbs k c) - 1,
       uxPriority := if drops k c then uxBasePriority (tcbs k c) else prio k c\<rparr>) \<and>
     (members k (ReceiveL h) \<noteq> [] \<longrightarrow> uxSchedulerSuspended k = 0 \<longrightarrow>
        ready k' (owner (hd (members k (ReceiveL h))))) \<and>
     members k' (ReceiveL h) = tl (members k (ReceiveL h))"

lemma running_no_waiter:
  assumes core: "kernel_core k" and c: "ready k c" shows "EventI c \<notin> set (members k (ReceiveL h))"
  using member_iff(2) [OF core, of c "ReceiveL h"] task_okD(7) [OF kernel_core_task [OF core], of c "prio k c"] c
  by (auto simp: ready_def)

text \<open>After the holder's priority is settled: waking the first waiter, or the switch that is owed.\<close>

lemma give_wake:
  assumes k1: "kernel_inv k1" "xSchedulerRunning k1" "idle_ready k1" "current_ready k1" "caught_up k1"
    and s1: "\<not> y \<Longrightarrow> sys_inv k1" and cur: "pxCurrentTCB k1 = Some c"
    and gap: "y \<Longrightarrow> members k1 (ReceiveL h) \<noteq> [] \<Longrightarrow> prio k1 c < prio k1 (owner (hd (members k1 (ReceiveL h))))"
    and post: "\<And>k'. \<lbrakk>sys_inv k'; served (ReceiveL h) k1 k'\<rbrakk> \<Longrightarrow> Q (s\<lparr>kern := k'\<rparr>)"
  shows "ensures (if members k1 (ReceiveL h) \<noteq> []
     then do { (k, y) \<leftarrow> xTaskRemoveFromEventList (ReceiveL h) k1; yield_if y (s\<lparr>kern := k\<rparr>) }
     else yield_if y (s\<lparr>kern := k1\<rparr>)) Q"
proof -
  have yield: "ensures (queueYIELD_IF_USING_PREEMPTION (s\<lparr>kern := k1\<rparr>)) Q" if "members k1 (ReceiveL h) = []"
  proof -
    have "ensures (portYIELD k1) sys_inv" by (rule yield_sys_inv) (use k1 in auto)
    then obtain k' where "portYIELD k1 = Some k'" "sys_inv k'" by (auto simp: ensures_iff)
    moreover have "served (ReceiveL h) k1 k'"
      using switch_same_tasks [of k1 k'] \<open>portYIELD k1 = Some k'\<close> that by (auto simp: served_def split: if_splits)
    ultimately show ?thesis using post by (simp add: queueYIELD_IF_USING_PREEMPTION_def)
  qed
  show ?thesis
  proof (cases "members k1 (ReceiveL h)")
    case Nil
    have "served (ReceiveL h) k1 k1" using Nil by (simp add: served_def)
    then show ?thesis using Nil yield [OF Nil] post [OF s1] by (cases y) (simp_all add: yield_if_def)
  next
    case (Cons i rest)
    note core = kernel_invD(1) [OF k1(1)]
    have i: "i = EventI (owner i)" using event_member [OF core, of i "ReceiveL h"] Cons by auto
    have wake: "ensures (xTaskRemoveFromEventList (ReceiveL h) k1) (\<lambda>(k, y). ensures (yield_if y (s\<lparr>kern := k\<rparr>)) Q)"
    proof (cases y)
      case False
      show ?thesis
      proof (rule remove_first_ensures [OF s1 [OF False]], simp_all add: Cons)
        fix k' y assume k': "sys_inv k'" "served (ReceiveL h) k1 k'"
        show "ensures (yield_if y (s\<lparr>kern := k'\<rparr>)) Q"
          by (rule yield_if_ensures) (use k' post served_same in auto)
      qed
    next
      case True
      have "sys_inv (k1\<lparr>xYieldPending := True\<rparr>)"
        using k1 by (simp add: sys_inv_def settled_def caught_up_def)
      then show ?thesis
      proof (rule remove_first_unsettled, simp_all)
        show "pxCurrentTCB k1 = Some c" by (rule cur)
        show "members k1 (ReceiveL h) = EventI (owner i) # rest" using Cons i by simp
        show "prio k1 c < prio k1 (owner i)" using gap [OF True] Cons by simp
        fix k' assume k': "sys_inv k'" "served (ReceiveL h) k1 k'"
        show "ensures (yield_if True (s\<lparr>kern := k'\<rparr>)) Q"
          by (rule yield_if_ensures) (use k' post served_same in auto)
      qed
    qed
    then show ?thesis using Cons by (simp add: case_prod_unfold)
  qed
qed

lemma give_mutex:
  assumes inv: "os_inv s" and q: "queues s h = Some q" and mu: "pcHead q = queueQUEUE_IS_MUTEX"
    and hold: "xMutexHolder q = Some c" and cur: "pxCurrentTCB (kern s) = Some c" and set: "pxQueueSetContainer q = None"
    and gap: "drops (kern s) c \<Longrightarrow> members (kern s) (ReceiveL h) \<noteq> [] \<Longrightarrow>
      uxBasePriority (tcbs (kern s) c) < prio (kern s) (owner (hd (members (kern s) (ReceiveL h))))"
  shows "ensures (xQueueGenericSend_try h None queueSEND_TO_BACK p s) (\<lambda>(s', r). r = Inl pdPASS \<and> os_inv s' \<and>
    queues s' = (queues s)(h \<mapsto> q\<lparr>xMutexHolder := None, uxMessagesWaiting := 1\<rparr>) \<and> gave_mutex c h (kern s) (kern s'))"
proof -
  note okq = os_invD(2) [OF inv q] and si = os_invD(1) [OF inv]
  note core = sys_invD(2) [OF si]
  have own: "finite (mutexes_of s t)" "card (mutexes_of s t) \<le> uxMutexesHeld (tcbs (kern s) t)" for t
    using os_invD(3) [OF inv] by (simp_all add: owners_ok_def)
  have h: "h \<in> mutexes_of s t \<longleftrightarrow> t = c" for t using q mu hold by (auto simp: mutexes_of_def)
  then have "0 < card (mutexes_of s c)" using own(1) [of c] by (auto simp: card_gt_0_iff)
  then have held: "uxMutexesHeld (tcbs (kern s) c) \<noteq> 0" using own(2) [of c] by simp
  have zero: "uxMessagesWaiting q = 0" "uxLength q = 1" "uxItemSize q = 0"
    using queue_okD(4,5) [OF okq] queue_okD(6) [OF okq mu hold] mu by simp_all
  let ?q = "q\<lparr>xMutexHolder := None, uxMessagesWaiting := 1\<rparr>"
  have ok': "queue_ok ?q" using okq zero by (auto simp: queue_ok_def storage_ok_def)
  from xTaskPriorityDisinherit_ensures [OF si cur held] obtain k1 y where
    run: "xTaskPriorityDisinherit (Some c) (kern s) = Some (k1, y)"
    and k1: "kernel_inv k1" "xSchedulerRunning k1" "idle_ready k1" "current_ready k1" "caught_up k1" "\<not> y \<longrightarrow> sys_inv k1"
    and ot: "others_unchanged c (kern s) k1" and y: "y = drops (kern s) c"
    and tc: "tcbs k1 c = (tcbs (kern s) c)\<lparr>uxMutexesHeld := uxMutexesHeld (tcbs (kern s) c) - 1,
       uxPriority := if y then uxBasePriority (tcbs (kern s) c) else prio (kern s) c\<rparr>"
    unfolding ensures_iff drops_def by blast
  have same: "members k1 (ReceiveL h) = members (kern s) (ReceiveL h)" "pxCurrentTCB k1 = Some c"
    "uxSchedulerSuspended k1 = uxSchedulerSuspended (kern s)" "\<And>x. x \<noteq> c \<Longrightarrow> tcbs k1 x = tcbs (kern s) x"
    using ot cur by (simp_all add: others_unchanged_def)
  have tcbs: "tcbs k1 = (tcbs (kern s))(c := tcbs k1 c)" using same(4) by auto
  let ?s = "set_queue h ?q s"
  have "ensures (if members k1 (ReceiveL h) \<noteq> []
     then do { (k, y) \<leftarrow> xTaskRemoveFromEventList (ReceiveL h) k1; yield_if y (?s\<lparr>kern := k\<rparr>) }
     else yield_if y (?s\<lparr>kern := k1\<rparr>)) (\<lambda>s'. os_inv s' \<and> queues s' = (queues s)(h \<mapsto> ?q) \<and> gave_mutex c h (kern s) (kern s'))"
  proof (rule give_wake [OF k1(1-5) _ same(2)])
    assume "y" and ne: "members k1 (ReceiveL h) \<noteq> []"
    let ?i = "hd (members k1 (ReceiveL h))"
    have "ready (kern s) c" using sys_invD(5) [OF si] cur by (simp add: current_ready_def)
    then have "EventI c \<noteq> ?i" using running_no_waiter [OF core] ne same(1) hd_in_set by metis
    moreover have "?i = EventI (owner ?i)" using event_member [OF core, of ?i "ReceiveL h"] ne same(1) by auto
    ultimately have "owner ?i \<noteq> c" by metis
    then show "prio k1 c < prio k1 (owner ?i)" using gap ne \<open>y\<close> y tc same by simp
  next
    fix k' assume k': "sys_inv k'" "served (ReceiveL h) k1 k'"
    note sf = served_frame(1,2) [OF k'(2)] and sv = served_first [OF k'(2) kernel_invD(1) [OF k1(1)]]
    have "os_inv (?s\<lparr>kern := k'\<rparr>)"
    proof (rule os_inv_queue_kern [OF inv q ok' k'(1)])
      fix t
      have "card (mutexes_of s c - {h}) \<le> uxMutexesHeld (tcbs (kern s) c) - 1"
        using own [of c] h by (simp add: card_Diff_singleton)
      moreover have "mutexes_of s t - {h} = mutexes_of s t" if "t \<noteq> c" using h that by auto
      ultimately show "finite (mutexes_of ?s t) \<and> card (mutexes_of ?s t) \<le> uxMutexesHeld (tcbs k' t)"
        unfolding mutexes_of_set [OF q] sf(1) using own [of t] tc same(4) by (cases "t = c") simp_all
    qed
    moreover have "gave_mutex c h (kern s) k'"
      using sf(1) tcbs tc y sv(1) sv(2) [of "owner (hd (members k1 (ReceiveL h)))"] same by (auto simp: gave_mutex_def)
    ultimately show "os_inv (?s\<lparr>kern := k'\<rparr>) \<and> queues (?s\<lparr>kern := k'\<rparr>) = (queues s)(h \<mapsto> ?q) \<and>
      gave_mutex c h (kern s) (kern (?s\<lparr>kern := k'\<rparr>))" by simp
  qed (use k1(6) in blast)
  then show ?thesis
    using q mu hold run zero set
    by (cases "members k1 (ReceiveL h) = []")
      (simp_all add: xQueueGenericSend_try_def prvCopyDataToQueue_def Let_def kern_queues_swap case_prod_unfold)
qed

section \<open>Recursive mutexes\<close>

lemma blocking_call_first:
  "f p s = Some (s', Inl x) \<Longrightarrow> blocking_call f wait es p s = Some (s', Some x)"
  by (cases es) simp_all

lemma take_mutex_exact:
  assumes q: "queues s h = Some q" and ok: "queue_ok q" and mu: "pcHead q = queueQUEUE_IS_MUTEX"
    and some: "uxMessagesWaiting q \<noteq> 0" and cur: "pxCurrentTCB (kern s) = Some c" and send: "members (kern s) (SendL h) = []"
  shows "xQueueSemaphoreTake_try h p s = Some ((set_queue h (q\<lparr>uxMessagesWaiting := 0, xMutexHolder := Some c\<rparr>) s)
    \<lparr>kern := upd_tcb c (\<lambda>b. b\<lparr>uxMutexesHeld := uxMutexesHeld b + 1\<rparr>) (kern s)\<rparr>, Inl pdPASS)"
proof -
  have "uxMessagesWaiting q = 1" using queue_okD(3,5) [OF ok] mu some by simp
  then show ?thesis
    using q mu cur send
    by (simp add: xQueueSemaphoreTake_try_def pvTaskIncrementMutexHeldCount_def wake_waiter_def yield_if_def Let_def kern_queues_swap)
qed

lemma take_recursive_held:
  "queues s h = Some q \<Longrightarrow> held_by_caller q (kern s) \<Longrightarrow> xQueueTakeMutexRecursive es h w s =
    Some (set_queue h (q\<lparr>uxRecursiveCallCount := uxRecursiveCallCount q + 1\<rparr>) s, Some pdPASS)"
  by (simp add: xQueueTakeMutexRecursive_def)

lemma give_recursive_held:
  "queues s h = Some q \<Longrightarrow> held_by_caller q (kern s) \<Longrightarrow> uxRecursiveCallCount q \<noteq> 1 \<Longrightarrow> xQueueGiveMutexRecursive h s =
    Some (set_queue h (q\<lparr>uxRecursiveCallCount := uxRecursiveCallCount q - 1\<rparr>) s, pdPASS)"
  by (simp add: xQueueGiveMutexRecursive_def Let_def)

text \<open>A call made \<open>n\<close> times, each of which has to succeed.\<close>

fun times :: "nat \<Rightarrow> (os \<Rightarrow> (os \<times> 'r) option) \<Rightarrow> 'r \<Rightarrow> os \<Rightarrow> os option" where
  "times 0 f r s = Some s"
| "times (Suc n) f r s = do { (s, x) \<leftarrow> f s; if x = r then times n f r s else None }"

lemma set_queue_same: "queues s h = Some q \<Longrightarrow> set_queue h q s = s"
  by (cases s) (simp add: map_upd_triv)

lemma set_queue_twice: "set_queue h a (set_queue h b s) = set_queue h a s"
  by (cases s) (simp add: fun_upd_def cong: if_cong)

lemma take_times:
  assumes "queues s h = Some q" and "held_by_caller q (kern s)"
  shows "times n (xQueueTakeMutexRecursive es h w) (Some pdPASS) s =
    Some (set_queue h (q\<lparr>uxRecursiveCallCount := uxRecursiveCallCount q + of_nat n\<rparr>) s)"
  using assms
proof (induction n arbitrary: s q)
  case 0
  have "q\<lparr>uxRecursiveCallCount := uxRecursiveCallCount q + of_nat 0\<rparr> = q" by (cases q) simp
  then show ?case using set_queue_same [OF 0(1)] by (simp only: times.simps)
next
  case (Suc n)
  let ?q = "q\<lparr>uxRecursiveCallCount := uxRecursiveCallCount q + 1\<rparr>"
  have "times n (xQueueTakeMutexRecursive es h w) (Some pdPASS) (set_queue h ?q s) =
    Some (set_queue h (?q\<lparr>uxRecursiveCallCount := uxRecursiveCallCount ?q + of_nat n\<rparr>) (set_queue h ?q s))"
    by (rule Suc.IH) (use Suc.prems in \<open>simp_all add: held_by_caller_def\<close>)
  then have "times n (xQueueTakeMutexRecursive es h w) (Some pdPASS) (set_queue h ?q s) =
    Some (set_queue h (q\<lparr>uxRecursiveCallCount := uxRecursiveCallCount q + of_nat (Suc n)\<rparr>) s)"
    unfolding set_queue_twice by (simp add: add.assoc)
  then show ?case
    unfolding times.simps take_recursive_held [OF Suc.prems] by (simp only: Option.bind.bind_lunit prod.case if_True simp_thms)
qed

lemma give_times:
  assumes "queues s h = Some q" and "held_by_caller q (kern s)"
    and "uxRecursiveCallCount q = of_nat (Suc n)" and "Suc n < 2 ^ 64"
  shows "times n (xQueueGiveMutexRecursive h) pdPASS s = Some (set_queue h (q\<lparr>uxRecursiveCallCount := 1\<rparr>) s)"
  using assms
proof (induction n arbitrary: s q)
  case 0
  then have "q\<lparr>uxRecursiveCallCount := 1\<rparr> = q" by (cases q) simp
  then show ?case using set_queue_same [OF 0(1)] by (simp only: times.simps)
next
  case (Suc n)
  let ?q = "q\<lparr>uxRecursiveCallCount := uxRecursiveCallCount q - 1\<rparr>"
  have "unat (of_nat (Suc (Suc n)) :: ubase) = Suc (Suc n)" using Suc.prems(4) by (simp add: unat_of_nat del: of_nat_Suc)
  then have ne: "uxRecursiveCallCount q \<noteq> 1" using Suc.prems(3) by (metis One_nat_def nat.inject nat.simps(3) unat_1)
  have "times n (xQueueGiveMutexRecursive h) pdPASS (set_queue h ?q s) =
    Some (set_queue h (?q\<lparr>uxRecursiveCallCount := 1\<rparr>) (set_queue h ?q s))"
    by (rule Suc.IH) (use Suc.prems in \<open>simp_all add: held_by_caller_def\<close>)
  then have "times n (xQueueGiveMutexRecursive h) pdPASS (set_queue h ?q s) =
    Some (set_queue h (q\<lparr>uxRecursiveCallCount := 1\<rparr>) s)"
    unfolding set_queue_twice by simp
  then show ?case
    unfolding times.simps give_recursive_held [OF Suc.prems(1,2) ne] by (simp only: Option.bind.bind_lunit prod.case if_True simp_thms)
qed

lemma queue_ok_count [simp]: "queue_ok (q\<lparr>uxRecursiveCallCount := n\<rparr>) = queue_ok q"
  by (simp add: queue_ok_def storage_ok_def ring_ok_def read_index_def)

lemma give_last:
  assumes inv: "os_inv s" and q: "queues s h = Some q" and mu: "pcHead q = queueQUEUE_IS_MUTEX"
    and hold: "xMutexHolder q = Some c" and cur: "pxCurrentTCB (kern s) = Some c" and set: "pxQueueSetContainer q = None"
    and one: "uxRecursiveCallCount q = 1" and nd: "\<not> drops (kern s) c"
  shows "ensures (xQueueGiveMutexRecursive h s) (\<lambda>(s', ok). ok \<and> os_inv s' \<and>
    queues s' = (queues s)(h \<mapsto> q\<lparr>uxRecursiveCallCount := 0, xMutexHolder := None, uxMessagesWaiting := 1\<rparr>) \<and>
    gave_mutex c h (kern s) (kern s'))"
proof -
  let ?q = "q\<lparr>uxRecursiveCallCount := 0\<rparr>"
  let ?s = "set_queue h ?q s"
  note ok = os_invD(2) [OF inv q]
  have sz: "uxItemSize q = 0" using queue_okD(4) [OF ok mu] .
  have inv': "os_inv ?s" by (rule os_inv_set_queue [OF inv q]) (use ok in simp_all)
  have "ensures (xQueueGenericSend_try h None queueSEND_TO_BACK (None, 0) ?s) (\<lambda>(s', r). r = Inl pdPASS \<and> os_inv s' \<and>
    queues s' = (queues ?s)(h \<mapsto> ?q\<lparr>xMutexHolder := None, uxMessagesWaiting := 1\<rparr>) \<and> gave_mutex c h (kern ?s) (kern s'))"
    by (rule give_mutex [OF inv']) (use mu hold cur set nd in simp_all)
  then obtain s' where run: "xQueueGenericSend_try h None queueSEND_TO_BACK (None, 0) ?s = Some (s', Inl pdPASS)"
    and s': "os_inv s'" "queues s' = (queues s)(h \<mapsto> ?q\<lparr>xMutexHolder := None, uxMessagesWaiting := 1\<rparr>)"
      "gave_mutex c h (kern s) (kern s')"
    by (auto simp: ensures_iff)
  have "xQueueGenericSend [] h None 0 queueSEND_TO_BACK ?s = Some (s', Some pdPASS)"
    using run sz by (simp add: xQueueGenericSend_def xQueueGenericSend_enter_def)
  then show ?thesis
    using q mu hold cur one s' by (simp add: xQueueGiveMutexRecursive_def held_by_caller_def xTaskGetCurrentTaskHandle_def Let_def)
qed

text \<open>Nested takes and gives undo each other.\<close>

lemma recursive_balance:
  assumes inv: "os_inv s" and q: "queues s h = Some q" and mu: "pcHead q = queueQUEUE_IS_MUTEX"
    and some: "uxMessagesWaiting q \<noteq> 0" and cnt: "uxRecursiveCallCount q = 0" and set: "pxQueueSetContainer q = None"
    and cur: "pxCurrentTCB (kern s) = Some c" and run: "uxSchedulerSuspended (kern s) = 0"
    and send: "members (kern s) (SendL h) = []" and n: "Suc n < 2 ^ 64"
    and base: "uxMutexesHeld (tcbs (kern s) c) = 0 \<Longrightarrow> prio (kern s) c = uxBasePriority (tcbs (kern s) c)"
  shows "ensures (times (Suc n) (xQueueTakeMutexRecursive es h w) (Some pdPASS) s) (\<lambda>s1.
    took_mutex c h (q\<lparr>uxRecursiveCallCount := of_nat (Suc n)\<rparr>) s s1 \<and>
    ensures (times n (xQueueGiveMutexRecursive h) pdPASS s1) (\<lambda>s2. took_mutex c h (q\<lparr>uxRecursiveCallCount := 1\<rparr>) s s2 \<and>
      ensures (xQueueGiveMutexRecursive h s2) (\<lambda>(s3, ok). ok \<and> os_inv s3 \<and> queues s3 = queues s \<and> tcbs (kern s3) = tcbs (kern s))))"
proof -
  note ok = os_invD(2) [OF inv q] and si = os_invD(1) [OF inv]
  let ?k = "upd_tcb c (\<lambda>b. b\<lparr>uxMutexesHeld := uxMutexesHeld b + 1\<rparr>) (kern s)"
  define qn where "qn m = q\<lparr>uxMessagesWaiting := 0, xMutexHolder := Some c, uxRecursiveCallCount := m\<rparr>" for m
  define S where "S m = (set_queue h (qn m) s)\<lparr>kern := ?k\<rparr>" for m
  have one: "uxMessagesWaiting q = 1" "uxItemSize q = 0" using queue_okD(3,4,5) [OF ok] mu some by simp_all
  have free: "xMutexHolder q = None" using queue_okD(6) [OF ok mu] some by (cases "xMutexHolder q") auto
  have qS: "queues (S m) h = Some (qn m)" "kern (S m) = ?k" for m by (simp_all add: S_def)
  have SS: "set_queue h (qn m) (S l) = S m" for l m
    by (simp add: S_def fun_upd_def kern_queues_swap cong: if_cong)
  have hc: "held_by_caller (qn m) (kern (S l))" for l m
    using mu cur by (simp add: qn_def S_def held_by_caller_def xTaskGetCurrentTaskHandle_def)
  have took: "took_mutex c h (q\<lparr>uxRecursiveCallCount := m\<rparr>) s (S m)" for m
    by (cases q) (simp add: took_mutex_def S_def qn_def)
  have q0: "qn 0 = q\<lparr>uxMessagesWaiting := 0, xMutexHolder := Some c\<rparr>" using cnt by (cases q) (simp add: qn_def)
  have tk: "xQueueSemaphoreTake_try h p s = Some (S 0, Inl pdPASS)" for p
    using take_mutex_exact [OF q ok mu some cur send, of p] by (simp add: S_def q0)
  then have inv0: "os_inv (S 0)" using take_mutex [OF inv q mu some cur] by simp
  have first: "xQueueTakeMutexRecursive es h w s = Some (S 1, Some pdPASS)"
  proof -
    have "\<not> held_by_caller q (kern s)" using free cur by (simp add: held_by_caller_def xTaskGetCurrentTaskHandle_def)
    moreover have "xQueueSemaphoreTake es h w s = Some (S 0, Some pdPASS)"
      using blocking_call_first [where f = "xQueueSemaphoreTake_try h" and s = s, OF tk] q one(2) run sys_invD(3) [OF si]
      by (simp add: xQueueSemaphoreTake_def xQueueSemaphoreTake_enter_def xTaskGetSchedulerState_def)
    moreover have "(qn 0)\<lparr>uxRecursiveCallCount := uxRecursiveCallCount (qn 0) + 1\<rparr> = qn 1" by (simp add: qn_def)
    ultimately show ?thesis using q qS(1) [of 0] SS [of 0 1] by (simp add: xQueueTakeMutexRecursive_def)
  qed
  have tks: "times n (xQueueTakeMutexRecursive es h w) (Some pdPASS) (S 1) = Some (S (of_nat (Suc n)))"
  proof -
    have "(qn 1)\<lparr>uxRecursiveCallCount := uxRecursiveCallCount (qn 1) + of_nat n\<rparr> = qn (of_nat (Suc n))"
      by (simp add: qn_def)
    then show ?thesis using take_times [OF qS(1) [where m = 1] hc [where m = 1 and l = 1], where n = n and es = es and w = w] SS by simp
  qed
  have gvs: "times n (xQueueGiveMutexRecursive h) pdPASS (S (of_nat (Suc n))) = Some (S 1)"
  proof -
    have "(qn (of_nat (Suc n)))\<lparr>uxRecursiveCallCount := 1\<rparr> = qn 1" by (simp add: qn_def)
    then show ?thesis using give_times [OF qS(1) [where m = "of_nat (Suc n)"] hc [where m = "of_nat (Suc n)" and l = "of_nat (Suc n)"] _ n] SS by (simp add: qn_def)
  qed
  have inv1: "os_inv (S 1)"
    using os_inv_set_queue [OF inv0 qS(1), of "qn 1"] os_invD(2) [OF inv0 qS(1)] SS [of 0 1] by (simp add: qn_def)
  have bk: "(queues (S 1))(h \<mapsto> (qn 1)\<lparr>uxRecursiveCallCount := 0, xMutexHolder := None, uxMessagesWaiting := 1\<rparr>) = queues s"
  proof -
    have "(qn 1)\<lparr>uxRecursiveCallCount := 0, xMutexHolder := None, uxMessagesWaiting := 1\<rparr> = q"
      using one(1) free cnt by (cases q) (simp add: qn_def)
    then show ?thesis using q by (simp add: S_def map_upd_triv)
  qed
  have nd: "\<not> drops (kern (S 1)) c" using base by (auto simp: drops_def S_def)
  have "ensures (xQueueGiveMutexRecursive h (S 1)) (\<lambda>(s3, ok). ok \<and> os_inv s3 \<and> queues s3 = queues s \<and> tcbs (kern s3) = tcbs (kern s))"
    by (rule ensures_mono [OF give_last [OF inv1 qS(1) _ _ _ _ _ nd]])
      (use mu cur set nd bk in \<open>auto simp: qn_def S_def gave_mutex_def\<close>)
  then show ?thesis
    unfolding times.simps first Option.bind.bind_lunit prod.case if_True simp_thms tks ensures_Some
    using took gvs by simp
qed

end
