(* ===== verification/Queue_Sets.thy ===== *)
theory Queue_Sets
  imports Queue_Mutex
begin

text \<open>
  Queue sets: what is sent to a member shows up as the member's handle in the set. Creation of
  queues, semaphores and mutexes, and the registry of names.
\<close>

section \<open>Handles as items\<close>

lemma length_handle_bytes [simp]: "length (handle_bytes h) = 8"
  by (simp add: handle_bytes_def)

lemma handle_bytes_round:
  assumes "h < 2 ^ 64" shows "handle_of_bytes (handle_bytes h) = h"
  using assms by (simp add: handle_of_bytes_def handle_bytes_def le_bytes_round)

section \<open>Sending to a member of a set\<close>

text \<open>A queue that can take the handle of one more item: unlocked, with room, with items of pointer size.\<close>

definition set_queue_ready :: "queue \<Rightarrow> bool" where
  "set_queue_ready cq \<longleftrightarrow> uxItemSize cq = 8 \<and> cTxLock cq = queueUNLOCKED \<and> uxMessagesWaiting cq < uxLength cq"

lemma notify_set_ensures:
  assumes inv: "os_inv s" and q: "queues s h = Some q" and set: "pxQueueSetContainer q = Some c"
    and c: "queues s c = Some cq" and r: "set_queue_ready cq"
    and post: "\<And>cq' k'. \<lbrakk>same_object cq cq'; queue_ok cq'; contents cq' = contents cq @ [handle_bytes h];
      sys_inv k'; served (ReceiveL c) (kern s) k'; os_inv ((set_queue c cq' s)\<lparr>kern := k'\<rparr>)\<rbrakk>
      \<Longrightarrow> Q ((set_queue c cq' s)\<lparr>kern := k'\<rparr>)"
  shows "ensures (prvNotifyQueueSetContainer h s) (\<lambda>(s', y). ensures (yield_if y s') Q)"
proof -
  note si = os_invD(1) [OF inv] and okc = os_invD(2) [OF inv c]
  have sz: "uxItemSize cq = 8" and un: "cTxLock cq = queueUNLOCKED" and room: "uxMessagesWaiting cq < uxLength cq"
    using r by (simp_all add: set_queue_ready_def)
  have nm: "pcHead cq \<noteq> queueQUEUE_IS_MUTEX" using queue_okD(2) [OF okc] sz by simp
  have can: "can_send cq (Some (handle_bytes h)) queueSEND_TO_BACK" using sz by (simp add: can_send_def)
  have "ensures (prvCopyDataToQueue c (Some (handle_bytes h)) queueSEND_TO_BACK s) (\<lambda>(s', x).
    ensures (wake_waiter (ReceiveL c) s') (\<lambda>(s', y). ensures (yield_if (y \<or> x) s') Q))"
  proof (rule prvCopyDataToQueue_ensures [OF c okc nm can], simp add: room, unfold prod.case)
    fix cq' assume q': "same_object cq cq'" "queue_ok cq'"
      "contents cq' = put_item queueSEND_TO_BACK (sent_bytes cq (Some (handle_bytes h))) (contents cq)"
    then have con: "contents cq' = contents cq @ [handle_bytes h]" using sz by (simp add: sent_bytes_def)
    let ?s = "set_queue c cq' s"
    have inv': "os_inv ?s"
      by (rule os_inv_set_queue [OF inv c q'(2)]) (use same_object_fields [OF q'(1)] in simp_all)
    show "ensures (wake_waiter (ReceiveL c) ?s) (\<lambda>(s', y). ensures (yield_if (y \<or> False) s') Q)"
      unfolding simp_thms
    proof (rule wake_yield_ensures)
      fix k' assume k': "sys_inv k'" "served (ReceiveL c) (kern ?s) k'"
      show "Q (?s\<lparr>kern := k'\<rparr>)"
        by (rule post [OF q'(1,2) con k'(1)]) (use k' os_inv_kern [OF inv' k'(1)] served_frame(1) [OF k'(2)] in simp_all)
    qed (use si in simp_all)
  qed
  then show ?thesis
    using q set c un room by (simp add: prvNotifyQueueSetContainer_def Let_def case_prod_unfold)
qed

lemma send_member_ensures:
  assumes inv: "os_inv s" and q: "queues s h = Some q" and nm: "pcHead q \<noteq> queueQUEUE_IS_MUTEX"
    and set: "pxQueueSetContainer q = Some c" and ne: "c \<noteq> h" and can: "can_send q item pos"
    and room: "uxMessagesWaiting q < uxLength q"
    and c: "queues s c = Some cq" and r: "set_queue_ready cq"
    and post: "\<And>q' cq' k'. \<lbrakk>same_object q q'; queue_ok q'; contents q' = put_item pos (sent_bytes q item) (contents q);
      same_object cq cq'; queue_ok cq'; contents cq' = contents cq @ [handle_bytes h];
      sys_inv k'; served (ReceiveL c) (kern s) k'; os_inv ((set_queue c cq' (set_queue h q' s))\<lparr>kern := k'\<rparr>)\<rbrakk>
      \<Longrightarrow> Q ((set_queue c cq' (set_queue h q' s))\<lparr>kern := k'\<rparr>, Inl pdPASS)"
  shows "ensures (xQueueGenericSend_try h item pos p s) Q"
proof -
  note ok = os_invD(2) [OF inv q] and si = os_invD(1) [OF inv]
  have empty: "uxMessagesWaiting q = 0" if "pos = queueOVERWRITE" using that can room by (simp add: can_send_def)
  have "ensures (prvCopyDataToQueue h item pos s) (\<lambda>(s1, y).
    ensures (prvNotifyQueueSetContainer h s1) (\<lambda>(s', y). ensures (yield_if y s') (\<lambda>s2. Q (s2, Inl pdPASS))))"
  proof (rule prvCopyDataToQueue_ensures [OF q ok nm can], simp add: room, unfold prod.case)
    fix q' assume q': "same_object q q'" "queue_ok q'" "contents q' = put_item pos (sent_bytes q item) (contents q)"
    note f = same_object_fields [OF q'(1)]
    let ?s = "set_queue h q' s"
    have inv': "os_inv ?s" by (rule os_inv_set_queue [OF inv q q'(2)]) (use f in simp_all)
    show "ensures (prvNotifyQueueSetContainer h ?s) (\<lambda>(s', y). ensures (yield_if y s') (\<lambda>s2. Q (s2, Inl pdPASS)))"
    proof (rule notify_set_ensures [OF inv', where q = q' and c = c and cq = cq])
      fix cq' k' assume "same_object cq cq'" "queue_ok cq'" "contents cq' = contents cq @ [handle_bytes h]"
        "sys_inv k'" "served (ReceiveL c) (kern ?s) k'" "os_inv ((set_queue c cq' ?s)\<lparr>kern := k'\<rparr>)"
      then show "Q ((set_queue c cq' ?s)\<lparr>kern := k'\<rparr>, Inl pdPASS)" by (intro post q') simp_all
    qed (use c ne f set r in simp_all)
  qed
  then show ?thesis
    using q set room empty by (cases "pos = queueOVERWRITE") (simp_all add: xQueueGenericSend_try_def Let_def case_prod_unfold)
qed

text \<open>Selecting from a set whose first entry is \<open>h\<close>.\<close>

lemma select_ensures:
  assumes inv: "os_inv s" and run: "uxSchedulerSuspended (kern s) = 0" and c: "queues s c = Some cq" and sz: "uxItemSize cq = 8"
    and hs: "contents cq = handle_bytes h # hs" and h: "h < 2 ^ 64"
    and post: "\<And>cq' k'. \<lbrakk>same_object cq cq'; queue_ok cq'; contents cq' = hs;
      sys_inv k'; served (SendL c) (kern s) k'; os_inv ((set_queue c cq' s)\<lparr>kern := k'\<rparr>)\<rbrakk>
      \<Longrightarrow> Q ((set_queue c cq' s)\<lparr>kern := k'\<rparr>, Some (Some h))"
  shows "ensures (xQueueSelectFromSet es c w s) Q"
proof -
  have nm: "pcHead cq \<noteq> queueQUEUE_IS_MUTEX" using queue_okD(2) [OF os_invD(2) [OF inv c]] sz by simp
  have some: "uxMessagesWaiting cq \<noteq> 0" using hs length_contents [of cq] by auto
  have "ensures (xQueueReceive_try c (None, w) s) (\<lambda>(s', r). (\<exists>ok bs. r = Inl (ok, bs)) \<and>
    Q (s', case r of Inl (ok, bs) \<Rightarrow> Some (if ok then Some (handle_of_bytes bs) else None) | Inr _ \<Rightarrow> None))"
    by (rule xQueueReceive_try_ensures [OF inv c nm some]) (use post hs handle_bytes_round [OF h] in auto)
  then obtain s' ok bs where r: "xQueueReceive_try c (None, w) s = Some (s', Inl (ok, bs))"
    "Q (s', Some (if ok then Some (handle_of_bytes bs) else None))" by (auto simp: ensures_iff)
  have "xQueueReceive es c True w s = Some (s', Some (ok, bs))"
    using blocking_call_first [where f = "xQueueReceive_try c" and s = s, OF r(1)] c run sys_invD(3) [OF os_invD(1) [OF inv]]
    by (simp add: xQueueReceive_def xQueueReceive_enter_def xTaskGetSchedulerState_def)
  then show ?thesis using r(2) by (simp add: xQueueSelectFromSet_def)
qed

section \<open>Creation\<close>

text \<open>A freshly made queue: empty, unlocked, in no set.\<close>

definition new_queue :: "nat \<Rightarrow> nat \<Rightarrow> queue_type \<Rightarrow> queue \<Rightarrow> bool" where
  "new_queue len sz ty q \<longleftrightarrow> queue_ok q \<and> contents q = [] \<and> uxLength q = len \<and> uxItemSize q = sz \<and> ucQueueType q = ty \<and>
     pxQueueSetContainer q = None \<and> cTxLock q = queueUNLOCKED \<and> cRxLock q = queueUNLOCKED \<and>
     xMutexHolder q = None \<and> uxRecursiveCallCount q = 0 \<and>
     pcHead q = (if sz = 0 then pcQueueItself else pcStorageArea)"

lemma reset_pointers_ok:
  assumes len: "0 < uxLength q" and st: "uxItemSize q \<noteq> 0 \<Longrightarrow> length (pucQueueStorage q) = uxLength q * uxItemSize q"
    and hd: "uxItemSize q \<noteq> 0 \<Longrightarrow> pcHead q = pcStorageArea" and nm: "pcHead q \<noteq> queueQUEUE_IS_MUTEX"
  shows "queue_ok (reset_pointers q)" "contents (reset_pointers q) = []"
proof -
  let ?q = "reset_pointers q" and ?n = "uxLength q" and ?z = "uxItemSize q"
  have f: "uxMessagesWaiting ?q = 0" "uxLength ?q = ?n" "uxItemSize ?q = ?z" "pcWriteTo ?q = 0"
    "pcTail ?q = int (?n * ?z)" "pcReadFrom ?q = int ((?n - 1) * ?z)" "pucQueueStorage ?q = pucQueueStorage q"
    "pcHead ?q = pcHead q" "cRxLock ?q = queueUNLOCKED" "cTxLock ?q = queueUNLOCKED" "xMutexHolder ?q = None"
    by (simp_all add: reset_pointers_def Let_def)
  show "contents ?q = []" by (simp add: contents_empty f)
  have "ring_ok ?q" if sz: "?z \<noteq> 0"
  proof -
    have "read_index ?q = ?n - 1" by (rule read_index_eq) (use sz f in simp_all)
    then show ?thesis unfolding ring_ok_def Let_def using len st [OF sz] f by simp
  qed
  then show "queue_ok ?q"
    using len hd nm f by (auto simp: queue_ok_def storage_ok_def queueUNLOCKED_def queueINT8_MAX_def)
qed

lemma no_lists_init:
  assumes "lists_wf (lists k)" and "members k (SendL h) = []" and "members k (ReceiveL h) = []"
  shows "k\<lparr>lists := list_init (ReceiveL h) (list_init (SendL h) (lists k))\<rparr> = k"
  using list_init_empty [OF assms(1,2)] list_init_empty [OF assms(1,3)] by simp

lemma os_inv_new:
  assumes inv: "os_inv s" and free: "queues s h = None" and ok: "queue_ok q" and no: "xMutexHolder q = None"
  shows "os_inv (set_queue h q s)"
proof -
  have "mutexes_of (set_queue h q s) t = mutexes_of s t" for t using free no by (auto simp: mutexes_of_def)
  then show ?thesis using inv ok by (simp add: os_inv_def owners_ok_def)
qed

lemma xQueueGenericCreate_ensures:
  assumes inv: "os_inv s" and free: "queues s h = None" "members (kern s) (SendL h) = []" "members (kern s) (ReceiveL h) = []"
    and len: "0 < len" and fit: "len * sz + sizeof_Queue_t \<le> SIZE_MAX"
    and mem: "length (pucQueueStorage m) = len * sz"
    and post: "\<And>q. new_queue len sz ty q \<Longrightarrow> \<not> ucQueueStaticallyAllocated q \<Longrightarrow> os_inv (set_queue h q s) \<Longrightarrow> Q (set_queue h q s, Some h)"
  shows "ensures (xQueueGenericCreate len sz ty (Some (h, m)) s) Q"
proof -
  have le: "sz \<le> SIZE_MAX div len" using fit len by (simp add: less_eq_div_iff_mult_less_eq mult.commute)
  define q1 where "q1 = (if sz = 0 then m\<lparr>ucQueueStaticallyAllocated := False, pcHead := pcQueueItself\<rparr>
    else m\<lparr>ucQueueStaticallyAllocated := False, pcHead := pcStorageArea, pucQueueStorage := pucQueueStorage m\<rparr>)\<lparr>uxLength := len, uxItemSize := sz\<rparr>"
  let ?q = "(reset_pointers q1)\<lparr>ucQueueType := ty, pxQueueSetContainer := None\<rparr>"
  have f1: "uxLength q1 = len" "uxItemSize q1 = sz" "pcHead q1 = (if sz = 0 then pcQueueItself else pcStorageArea)"
    "pucQueueStorage q1 = pucQueueStorage m" "\<not> ucQueueStaticallyAllocated q1"
    by (simp_all add: q1_def)
  have ok1: "queue_ok (reset_pointers q1)" "contents (reset_pointers q1) = []"
    by (rule reset_pointers_ok; use f1 len mem in \<open>simp split: if_splits\<close>)+
  have "queue_ok ?q = queue_ok (reset_pointers q1)" "contents ?q = []"
    by (simp_all add: queue_ok_def storage_ok_def ring_ok_def read_index_def contents_empty reset_pointers_def Let_def)
  moreover have "uxLength (reset_pointers q1) = len" "uxItemSize (reset_pointers q1) = sz"
    "cTxLock (reset_pointers q1) = queueUNLOCKED" "cRxLock (reset_pointers q1) = queueUNLOCKED"
    "xMutexHolder (reset_pointers q1) = None" "uxRecursiveCallCount (reset_pointers q1) = 0"
    "pcHead (reset_pointers q1) = pcHead q1" "ucQueueStaticallyAllocated (reset_pointers q1) = ucQueueStaticallyAllocated q1"
    using f1 by (simp_all add: reset_pointers_def Let_def)
  ultimately have new: "new_queue len sz ty ?q" "\<not> ucQueueStaticallyAllocated ?q" using ok1 f1 by (simp_all add: new_queue_def)
  have wf: "lists_wf (lists (kern s))" using sys_invD(2) [OF os_invD(1) [OF inv]] by (simp add: lists_inv_wf kernel_core_lists)
  have rs: "xQueueGenericReset h True (set_queue h q1 s) = Some (set_queue h (reset_pointers q1) s, pdPASS)"
    using len le f1 no_lists_init [OF wf free(2,3)]
    by (simp add: xQueueGenericReset_def Let_def Suc_le_eq fun_upd_def cong: if_cong)
  have init: "prvInitialiseNewQueue len sz (pucQueueStorage m) ty (h, m\<lparr>ucQueueStaticallyAllocated := False\<rparr>) s = Some (set_queue h ?q s)"
    using rs by (simp add: prvInitialiseNewQueue_def Let_def q1_def fun_upd_def cong: if_cong)
  have "sizeof_Queue_t \<le> SIZE_MAX" "len * sz \<le> SIZE_MAX - sizeof_Queue_t" using fit by linarith+
  then have "xQueueGenericCreate len sz ty (Some (h, m)) s = Some (set_queue h ?q s, Some h)"
    using len le init by (simp add: xQueueGenericCreate_def)
  then show ?thesis
    using post [OF new os_inv_new [OF inv free(1)]] new(1) by (simp add: new_queue_def)
qed

lemma xQueueCreateMutex_ensures:
  assumes inv: "os_inv s" and free: "queues s h = None" "members (kern s) (SendL h) = []" "members (kern s) (ReceiveL h) = []"
    and mem: "pucQueueStorage m = []"
    and post: "\<And>q. \<lbrakk>pcHead q = queueQUEUE_IS_MUTEX; uxMessagesWaiting q = 1; xMutexHolder q = None; uxRecursiveCallCount q = 0;
      ucQueueType q = ty; pxQueueSetContainer q = None; os_inv (set_queue h q s)\<rbrakk> \<Longrightarrow> Q (set_queue h q s, Some h)"
  shows "ensures (xQueueCreateMutex ty (Some (h, m)) s) Q"
proof -
  have "ensures (xQueueGenericCreate 1 0 ty (Some (h, m)) s) (\<lambda>(s', n).
    ensures (case n of Some h \<Rightarrow> prvInitialiseMutex h s' | None \<Rightarrow> Some s') (\<lambda>s2. Q (s2, n)))"
  proof (rule xQueueGenericCreate_ensures [OF inv free], simp_all add: mem SIZE_MAX_def sizeof_Queue_t_def)
    fix q assume new: "new_queue (Suc 0) 0 ty q"
    let ?q = "q\<lparr>xMutexHolder := None, pcHead := queueQUEUE_IS_MUTEX, uxRecursiveCallCount := 0, uxMessagesWaiting := 1\<rparr>"
    have q: "uxLength q = 1" "uxItemSize q = 0" "ucQueueType q = ty" "pxQueueSetContainer q = None" "uxMessagesWaiting q = 0" "queue_ok q"
      using new length_contents [of q] by (simp_all add: new_queue_def)
    have ok: "queue_ok ?q" using q by (auto simp: queue_ok_def storage_ok_def)
    have "prvInitialiseMutex h (set_queue h q s) = Some (set_queue h ?q s)"
      using q free(3) by (cases q) (simp add: prvInitialiseMutex_def Let_def xQueueGenericSend_def xQueueGenericSend_enter_def
        xQueueGenericSend_try_def prvCopyDataToQueue_def xTaskPriorityDisinherit_def yield_if_def fun_upd_def cong: if_cong)
    moreover have "Q (set_queue h ?q s, Some h)"
      by (rule post) (use q os_inv_new [OF inv free(1) ok] in simp_all)
    ultimately show "ensures (prvInitialiseMutex h (set_queue h q s)) (\<lambda>s2. Q (s2, Some h))" by simp
  qed
  then show ?thesis by (simp add: xQueueCreateMutex_def case_prod_unfold)
qed

section \<open>The registry\<close>

text \<open>A slot is vacant in both its fields, and no handle is in two slots.\<close>

fun registry_ok :: "(string option \<times> queue_handle option) list \<Rightarrow> bool" where
  "registry_ok [] \<longleftrightarrow> True"
| "registry_ok ((name, xh) # es) \<longleftrightarrow>
     (name = None \<longleftrightarrow> xh = None) \<and> (xh \<noteq> None \<longrightarrow> xh \<notin> snd ` set es) \<and> registry_ok es"

lemma registry_ok_vacant: "registry_ok es \<Longrightarrow> e \<in> set es \<Longrightarrow> fst e = None \<longleftrightarrow> snd e = None"
  by (induction es rule: registry_ok.induct) auto

lemma registry_slot_eq:
  "registry_slot h i found es =
     (if \<exists>e \<in> set es. snd e = Some h then Some (i + length (takeWhile (\<lambda>e. snd e \<noteq> Some h) es))
      else if found \<noteq> None then found
      else if \<exists>e \<in> set es. fst e = None then Some (i + length (takeWhile (\<lambda>e. fst e \<noteq> None) es)) else None)"
proof (induction es arbitrary: i found)
  case (Cons e es)
  obtain n x where e: "e = (n, x)" by (cases e)
  show ?case unfolding e
    by (cases "x = Some h"; cases "found = None"; cases n) (simp_all add: Cons.IH, auto)
qed simp

lemma registry_name_update:
  "j < length es \<Longrightarrow> \<forall>k < j. snd (es ! k) \<noteq> Some h \<Longrightarrow> registry_name h (es[j := (n, Some h)]) = n"
proof (induction es arbitrary: j)
  case (Cons e es)
  obtain m x where e: "e = (m, x)" by (cases e)
  show ?case
  proof (cases j)
    case (Suc i)
    have "x \<noteq> Some h" "\<forall>k < i. snd (es ! k) \<noteq> Some h" using Cons.prems(2) e Suc by force+
    with Cons Suc e show ?thesis by simp
  qed (simp add: e)
qed simp

lemma registry_name_others:
  "g \<noteq> h \<Longrightarrow> j < length es \<Longrightarrow> snd (es ! j) = None \<or> snd (es ! j) = Some h \<Longrightarrow>
    registry_name g (es[j := (n, Some h)]) = registry_name g es"
proof (induction es arbitrary: j)
  case (Cons e es)
  then show ?case by (cases e; cases j) auto
qed simp

lemma registry_name_cleared:
  "registry_ok es \<Longrightarrow> registry_name h (registry_clear h es) = None"
  "g \<noteq> h \<Longrightarrow> registry_name g (registry_clear h es) = registry_name g es"
proof -
  have absent: "Some h \<notin> snd ` set es \<Longrightarrow> registry_name h es = None" for es
    by (induction es rule: registry_ok.induct) auto
  show "registry_ok es \<Longrightarrow> registry_name h (registry_clear h es) = None"
    by (induction es rule: registry_ok.induct) (auto simp: absent)
  show "g \<noteq> h \<Longrightarrow> registry_name g (registry_clear h es) = registry_name g es"
    by (induction es rule: registry_ok.induct) auto
qed

lemma registry_ok_update:
  "registry_ok es \<Longrightarrow> j < length es \<Longrightarrow> snd (es ! j) = Some h \<or> Some h \<notin> snd ` set es \<Longrightarrow>
    registry_ok (es[j := (Some n, Some h)])"
proof (induction es arbitrary: j)
  case (Cons e es)
  obtain m x where e: "e = (m, x)" by (cases e)
  show ?case
  proof (cases j)
    case 0
    with Cons.prems e show ?thesis by auto
  next
    case (Suc i)
    have "x \<notin> snd ` set (es[i := (Some n, Some h)])" if "x \<noteq> None"
    proof -
      have "x \<notin> snd ` set es" using that Cons.prems(1) e by simp
      moreover have "es ! i \<in> set es" using Cons.prems(2) Suc by simp
      moreover have "x \<noteq> Some h" using calculation Cons.prems(3) e Suc by (auto simp: image_iff)
      ultimately show ?thesis using set_update_subset_insert [of es i "(Some n, Some h)"] by auto
    qed
    with Cons Suc e show ?thesis by auto
  qed
qed simp

text \<open>Adding a name when there is a slot for it.\<close>

lemma vQueueAddToRegistry_slot:
  assumes ok: "registry_ok (xQueueRegistry s)"
    and slot: "Some h \<in> snd ` set (xQueueRegistry s) \<or> None \<in> fst ` set (xQueueRegistry s)"
  obtains j where "j < length (xQueueRegistry s)" "\<forall>k < j. snd (xQueueRegistry s ! k) \<noteq> Some h"
    "snd (xQueueRegistry s ! j) = None \<or> snd (xQueueRegistry s ! j) = Some h"
    "snd (xQueueRegistry s ! j) = Some h \<or> Some h \<notin> snd ` set (xQueueRegistry s)"
    "vQueueAddToRegistry h (Some n) s = s\<lparr>xQueueRegistry := (xQueueRegistry s)[j := (Some n, Some h)]\<rparr>"
proof -
  let ?es = "xQueueRegistry s"
  have run: "vQueueAddToRegistry h (Some n) s = s\<lparr>xQueueRegistry := ?es[j := (Some n, Some h)]\<rparr>"
    if "registry_slot h 0 None ?es = Some j" for j
    using that by (simp add: vQueueAddToRegistry_def)
  show thesis
  proof (cases "Some h \<in> snd ` set ?es")
    case True
    let ?P = "\<lambda>e. snd e \<noteq> Some h" let ?j = "length (takeWhile ?P ?es)"
    have ex: "\<exists>e \<in> set ?es. \<not> ?P e" using True by force
    then have j: "?j < length ?es" using length_takeWhile_le [of ?P ?es] takeWhile_eq_all_conv [of ?P ?es]
      by (metis le_neq_implies_less takeWhile_eq_take take_all_iff order_refl)
    have "snd (?es ! ?j) = Some h" using nth_length_takeWhile [OF j] by simp
    moreover have "\<forall>k < ?j. snd (?es ! k) \<noteq> Some h"
      using takeWhile_nth [of _ ?P ?es] nth_mem [of _ "takeWhile ?P ?es"] set_takeWhileD [of _ ?P ?es] by metis
    ultimately show thesis using j run [of ?j] ex by (intro that [of ?j]) (simp_all add: registry_slot_eq)
  next
    case False
    let ?P = "\<lambda>e. fst e \<noteq> None" let ?j = "length (takeWhile ?P ?es)"
    have nh: "\<not> (\<exists>e \<in> set ?es. snd e = Some h)" using False by (auto simp: image_iff)
    have v: "None \<in> fst ` set ?es" using slot False by blast
    have ex: "\<exists>e \<in> set ?es. \<not> ?P e" using v by force
    then have j: "?j < length ?es" using length_takeWhile_le [of ?P ?es] takeWhile_eq_all_conv [of ?P ?es]
      by (metis le_neq_implies_less takeWhile_eq_take take_all_iff order_refl)
    have "fst (?es ! ?j) = None" using nth_length_takeWhile [OF j] by simp
    then have "snd (?es ! ?j) = None" using registry_ok_vacant [OF ok nth_mem [OF j]] by simp
    moreover have "\<forall>k < ?j. snd (?es ! k) \<noteq> Some h" using False j by (metis image_eqI less_trans nth_mem)
    ultimately show thesis using j run [of ?j] False ex nh by (intro that [of ?j]) (simp_all add: registry_slot_eq)
  qed
qed

end
