(* ===== verification/Queue_Example.thy ===== *)
theory Queue_Example
  imports Queue_Sets
begin

text \<open>
  The busy moment of Task_Example with some queues, to instantiate the theorems on. Queue 0 is
  empty, and task 4 waits to receive from it. Queue 1 is a member of the set 2. Mutex 3 is
  held by the running task 1, mutex 4 is free. Queue 5 has length 1 and is full.
\<close>

definition demo_queue :: "nat \<Rightarrow> byte list \<Rightarrow> nat \<Rightarrow> queue" where
  "demo_queue sz mem n = \<lparr>pcHead = (if sz = 0 then pcQueueItself else pcStorageArea), pucQueueStorage = mem,
     pcWriteTo = 0, pcTail = int (length mem), pcReadFrom = int (length mem) - int sz, xMutexHolder = None,
     uxRecursiveCallCount = 0, uxMessagesWaiting = n, uxLength = (if sz = 0 then 1 else length mem div sz),
     uxItemSize = sz, cRxLock = queueUNLOCKED, cTxLock = queueUNLOCKED, ucQueueStaticallyAllocated = False,
     pxQueueSetContainer = None, uxQueueNumber = 0, ucQueueType = queueQUEUE_TYPE_BASE\<rparr>"

definition demo_mutex :: "task option \<Rightarrow> nat \<Rightarrow> queue" where
  "demo_mutex holder n = (demo_queue 0 [] n)\<lparr>pcHead := queueQUEUE_IS_MUTEX, xMutexHolder := holder\<rparr>"

definition demo_os :: os where
  "demo_os = \<lparr>kern = demo, queues = (\<lambda>_. None)(
       0 \<mapsto> demo_queue 1 [0, 0] 0,
       1 \<mapsto> (demo_queue 1 [0, 0] 0)\<lparr>pxQueueSetContainer := Some 2\<rparr>,
       2 \<mapsto> demo_queue 8 (replicate 16 0) 0,
       3 \<mapsto> demo_mutex (Some 1) 0,
       4 \<mapsto> demo_mutex None 1,
       5 \<mapsto> demo_queue 1 [7] 1),
     xQueueRegistry = replicate configQUEUE_REGISTRY_SIZE (None, None)\<rparr>"

lemma demo_os_fields [simp]:
  "kern demo_os = demo" "queues demo_os 0 = Some (demo_queue 1 [0, 0] 0)"
  "queues demo_os (Suc 0) = Some ((demo_queue 1 [0, 0] 0)\<lparr>pxQueueSetContainer := Some 2\<rparr>)"
  "queues demo_os 2 = Some (demo_queue 8 (replicate 16 0) 0)"
  "queues demo_os 3 = Some (demo_mutex (Some 1) 0)" "queues demo_os 4 = Some (demo_mutex None 1)"
  "queues demo_os 5 = Some (demo_queue 1 [7] 1)"
  "5 < h \<Longrightarrow> queues demo_os h = None"
  "xQueueRegistry demo_os = replicate configQUEUE_REGISTRY_SIZE (None, None)"
  by (simp_all add: demo_os_def)

lemma demo_queue_fields [simp]:
  "pcHead (demo_queue sz mem n) = (if sz = 0 then pcQueueItself else pcStorageArea)"
  "uxMessagesWaiting (demo_queue sz mem n) = n" "uxItemSize (demo_queue sz mem n) = sz"
  "uxLength (demo_queue sz mem n) = (if sz = 0 then 1 else length mem div sz)"
  "pxQueueSetContainer (demo_queue sz mem n) = None" "cTxLock (demo_queue sz mem n) = queueUNLOCKED"
  "cRxLock (demo_queue sz mem n) = queueUNLOCKED" "xMutexHolder (demo_queue sz mem n) = None"
  "uxRecursiveCallCount (demo_queue sz mem n) = 0" "pucQueueStorage (demo_queue sz mem n) = mem"
  by (simp_all add: demo_queue_def)

lemma demo_mutex_fields [simp]:
  "pcHead (demo_mutex t n) = queueQUEUE_IS_MUTEX" "xMutexHolder (demo_mutex t n) = t"
  "uxMessagesWaiting (demo_mutex t n) = n" "uxItemSize (demo_mutex t n) = 0" "uxLength (demo_mutex t n) = 1"
  "pxQueueSetContainer (demo_mutex t n) = None" "uxRecursiveCallCount (demo_mutex t n) = 0"
  "cTxLock (demo_mutex t n) = queueUNLOCKED" "cRxLock (demo_mutex t n) = queueUNLOCKED"
  by (simp_all add: demo_mutex_def)

lemma demo_queue_ok:
  assumes "0 < sz" and "length mem = m * sz" and "0 < m" and "n = 0 \<or> n = m"
  shows "queue_ok (demo_queue sz mem n)"
proof -
  let ?q = "demo_queue sz mem n"
  have le: "sz \<le> m * sz" using assms by simp
  have r: "read_index ?q = m - 1"
    by (rule read_index_eq) (use assms le in \<open>simp_all add: demo_queue_def of_nat_diff diff_mult_distrib\<close>)
  have "ring_ok ?q"
    unfolding ring_ok_def Let_def r
    using assms le by (auto simp: demo_queue_def of_nat_diff diff_mult_distrib)
  then show ?thesis using assms by (auto simp: queue_ok_def storage_ok_def queueUNLOCKED_def queueINT8_MAX_def)
qed

lemma demo_mutex_ok: "n = 0 \<or> n = 1 \<and> t = None \<Longrightarrow> queue_ok (demo_mutex t n)"
  by (auto simp: queue_ok_def storage_ok_def queueUNLOCKED_def queueINT8_MAX_def)

lemma demo_os_inv: "os_inv demo_os"
proof -
  have set: "queue_ok (q\<lparr>pxQueueSetContainer := c\<rparr>) = queue_ok q" for q c
    by (simp add: queue_ok_def storage_ok_def ring_ok_def read_index_def)
  have "queue_ok q" if "queues demo_os h = Some q" for h q
    using that demo_queue_ok [of 1 "[0, 0]" 2 0] demo_queue_ok [of 8 "replicate 16 0" 2 0]
      demo_queue_ok [of 1 "[7]" 1 1] demo_mutex_ok [of 0 "Some 1"] demo_mutex_ok [of 1 None]
    by (auto simp: demo_os_def set split: if_splits)
  moreover have "mutexes_of demo_os t = (if t = 1 then {3} else {})" for t
    by (auto simp: mutexes_of_def demo_os_def split: if_splits)
  then have "owners_ok demo_os" by (simp add: owners_ok_def demo_def demo_tcb_def)
  ultimately show ?thesis using demo_inv by (simp add: os_inv_def)
qed

section \<open>A switch that is not made\<close>

text \<open>
  The case that the hypothesis on priorities in the property of giving a mutex excludes. Task
  8, of priority 1, waits for mutex 3. Task 1 gives it, falls from its inherited priority 3 to
  its base priority 2, wakes task 8 and goes on running, although task 2 is ready with priority
  3 and no switch is pending.
\<close>

definition demo_inversion :: os where
  "demo_inversion = demo_os\<lparr>kern := demo\<lparr>lists := list_insert (ReceiveL 3) (EventI 8) demo_lists\<rparr>\<rparr>"

lemma demo_inversion_lists:
  "list_insert (ReceiveL 3) (EventI 8) demo_lists =
     demo_lists\<lparr>items := (items demo_lists)(ReceiveL 3 := [EventI 8]), container := (container demo_lists)(EventI 8 \<mapsto> ReceiveL 3)\<rparr>"
  by (simp add: list_insert_def)

lemma demo_inversion_inv: "os_inv demo_inversion"
proof -
  let ?k = "demo\<lparr>lists := list_insert (ReceiveL 3) (EventI 8) demo_lists\<rparr>"
  have li: "lists_inv (lists ?k)"
    using lists_inv_insert [OF demo_lists_inv, of "EventI 8" "ReceiveL 3"] by (simp add: delayed_lists_def)
  have inv: "kernel_inv demo" using demo_inv by (rule sys_invD)
  have core: "kernel_core ?k"
  proof (rule kernel_coreI [OF kernel_invD(1) [OF inv], where t = 8])
    show "task_ok ?k 8"
      using demo_task_ok [of 8] by (auto simp: task_ok_def demo_inversion_lists)
  qed (use li in \<open>simp_all add: same_task_def demo_inversion_lists configMAX_PRIORITIES_def\<close>)
  have "wake_ok ?k t" for t
    using kernel_invD(2) [OF inv, of t] by (simp add: wake_ok_def demo_inversion_lists)
  then have "kernel_inv ?k"
    using core kernel_invD(3,4) [OF inv] by (simp add: kernel_inv_def pending_ok_def next_ok_def demo_inversion_lists)
  then have "sys_inv ?k"
    using demo_inv by (simp add: sys_inv_def idle_ready_def current_ready_def caught_up_def settled_def ready_def demo_inversion_lists)
  then show ?thesis using os_inv_kern [OF demo_os_inv] by (simp add: demo_inversion_def)
qed

lemma mutex_give_can_leave_a_higher_task_waiting:
  "ensures (xQueueGenericSend [] 3 None 0 queueSEND_TO_BACK demo_inversion) (\<lambda>(s', r). r = Some pdPASS \<and>
     pxCurrentTCB (kern s') = Some 1 \<and> prio (kern s') 1 = 2 \<and> ready (kern s') 2 \<and> prio (kern s') 2 = 3 \<and>
     \<not> xYieldPending (kern s') \<and> uxSchedulerSuspended (kern s') = 0)"
  by (simp add: demo_inversion_def demo_inversion_lists xQueueGenericSend_def xQueueGenericSend_enter_def
      xQueueGenericSend_try_def prvCopyDataToQueue_def xTaskPriorityDisinherit_def xTaskRemoveFromEventList_def Let_def
      xTaskGetSchedulerState_def k_list_remove_def list_remove_def prvAddTaskToReadyList_def taskRECORD_READY_PRIORITY_def
      prvResetNextTaskUnblockTime_def list_frame list_head_def demo_def demo_tcb_def yield_if_def ready_def)

end
