(* ===== verification/Event_Groups.thy ===== *)
theory Event_Groups
  imports Task_Info
begin

text \<open>
  event_groups.c on the state \<open>event_os\<close>: the kernel of tasks.c and the event groups that
  exist (a handle without a group is NULL or stale: \<open>None\<close>). The list \<open>xTasksWaitingForBits\<close>
  of group \<open>h\<close> is the kernel's list \<open>BitsL h\<close>; what a task waits for is in the value of its
  event item, with the control bits in the top byte.

  Event bits are shared by tasks only, so the file protects them by locking the scheduler.
  Where a call unlocks it, other tasks may run before the call goes on: \<open>others\<close> is what they
  do. A call that waits is cut there: \<open>..._enter\<close> is the locked part, \<open>..._leave\<close> what the task
  does once it is scheduled again.
\<close>

type_synonym group_handle = nat

definition eventCLEAR_EVENTS_ON_EXIT_BIT :: tick where "eventCLEAR_EVENTS_ON_EXIT_BIT = 0x01000000"
definition eventUNBLOCKED_DUE_TO_BIT_SET :: tick where "eventUNBLOCKED_DUE_TO_BIT_SET = 0x02000000"
definition eventWAIT_FOR_ALL_BITS :: tick where "eventWAIT_FOR_ALL_BITS = 0x04000000"
definition eventEVENT_BITS_CONTROL_BYTES :: tick where "eventEVENT_BITS_CONTROL_BYTES = 0xff000000"

record event_group =
  uxEventBits :: tick
  uxEventGroupNumber :: nat
  ucGroupStaticallyAllocated :: bool

record event_os =
  evkern :: kernel
  event_groups :: "group_handle \<Rightarrow> event_group option"

abbreviation set_group :: "group_handle \<Rightarrow> event_group \<Rightarrow> event_os \<Rightarrow> event_os" where
  "set_group h g s \<equiv> s\<lparr>event_groups := (event_groups s)(h \<mapsto> g)\<rparr>"

section \<open>Creation\<close>

text \<open>
  The memory is that of the allocator or of the caller; \<open>uxEventGroupNumber\<close> keeps what was in
  it. Its event list is initialised with it.
\<close>

definition init_group :: "group_handle \<Rightarrow> event_group \<Rightarrow> bool \<Rightarrow> event_os \<Rightarrow> event_os" where
  "init_group h g static s =
     s\<lparr>evkern := (evkern s)\<lparr>lists := list_init (BitsL h) (lists (evkern s))\<rparr>,
       event_groups := (event_groups s)(h \<mapsto> g\<lparr>uxEventBits := 0, ucGroupStaticallyAllocated := static\<rparr>)\<rparr>"

definition xEventGroupCreateStatic ::
    "(group_handle \<times> event_group) option \<Rightarrow> event_os \<Rightarrow> (event_os \<times> group_handle option) option" where
  "xEventGroupCreateStatic pxEventGroupBuffer s = do {
     configASSERT (pxEventGroupBuffer \<noteq> None);
     Some (case pxEventGroupBuffer of
         Some (h, g) \<Rightarrow> (init_group h g True s, Some h)
       | None \<Rightarrow> (s, None)) }"

definition xEventGroupCreate ::
    "(group_handle \<times> event_group) option \<Rightarrow> event_os \<Rightarrow> event_os \<times> group_handle option" where
  "xEventGroupCreate pvMalloc s = (case pvMalloc of
       Some (h, g) \<Rightarrow> (init_group h g False s, Some h)
     | None \<Rightarrow> (s, None))"

section \<open>Setting bits\<close>

definition prvTestWaitCondition :: "tick \<Rightarrow> tick \<Rightarrow> bool \<Rightarrow> bool" where
  "prvTestWaitCondition uxCurrentEventBits uxBitsToWaitFor xWaitForAllBits =
     (if \<not> xWaitForAllBits then uxCurrentEventBits AND uxBitsToWaitFor \<noteq> 0
      else uxCurrentEventBits AND uxBitsToWaitFor = uxBitsToWaitFor)"

text \<open>
  One waiter: its item's value says what it waits for. The result is the kernel and the bits
  to clear at the end.
\<close>

definition set_bits_visit :: "tick \<Rightarrow> item_id \<Rightarrow> tick \<Rightarrow> kernel \<Rightarrow> (kernel \<times> tick) option" where
  "set_bits_visit bits pxListItem uxBitsToClear k = do {
     let uxBitsWaitedFor = item_value (lists k) pxListItem;
     let uxControlBits = uxBitsWaitedFor AND eventEVENT_BITS_CONTROL_BYTES;
     let uxBitsWaitedFor = uxBitsWaitedFor AND NOT eventEVENT_BITS_CONTROL_BYTES;
     let xMatchFound =
       (if uxControlBits AND eventWAIT_FOR_ALL_BITS = 0 then uxBitsWaitedFor AND bits \<noteq> 0
        else uxBitsWaitedFor AND bits = uxBitsWaitedFor);
     if xMatchFound
     then do {
       let uxBitsToClear =
         (if uxControlBits AND eventCLEAR_EVENTS_ON_EXIT_BIT \<noteq> 0 then uxBitsToClear OR uxBitsWaitedFor
          else uxBitsToClear);
       k \<leftarrow> vTaskRemoveFromUnorderedEventList pxListItem (bits OR eventUNBLOCKED_DUE_TO_BIT_SET) k;
       Some (k, uxBitsToClear) }
     else Some (k, uxBitsToClear) }"

text \<open>The walk over the waiters; the next item is looked up before an item is taken out.\<close>

partial_function (option) set_bits_loop ::
    "group_handle \<Rightarrow> tick \<Rightarrow> item_id option \<Rightarrow> tick \<Rightarrow> kernel \<Rightarrow> (kernel \<times> tick) option" where
  "set_bits_loop h bits pxListItem uxBitsToClear k = (case pxListItem of
       None \<Rightarrow> Some (k, uxBitsToClear)
     | Some i \<Rightarrow> do {
         let pxNext = next_in i (members k (BitsL h));
         (k, uxBitsToClear) \<leftarrow> set_bits_visit bits i uxBitsToClear k;
         set_bits_loop h bits pxNext uxBitsToClear k })"

definition xEventGroupSetBits ::
    "(event_os \<Rightarrow> event_os option) \<Rightarrow> group_handle \<Rightarrow> tick \<Rightarrow> event_os \<Rightarrow> (event_os \<times> tick) option" where
  "xEventGroupSetBits others xEventGroup uxBitsToSet s = do {
     g \<leftarrow> event_groups s xEventGroup;
     configASSERT (uxBitsToSet AND eventEVENT_BITS_CONTROL_BYTES = 0);
     let k = vTaskSuspendAll (evkern s);
     let pxListItem = list_head (BitsL xEventGroup) (lists k);
     let g = g\<lparr>uxEventBits := uxEventBits g OR uxBitsToSet\<rparr>;
     (k, uxBitsToClear) \<leftarrow> set_bits_loop xEventGroup (uxEventBits g) pxListItem 0 k;
     let g = g\<lparr>uxEventBits := uxEventBits g AND NOT uxBitsToClear\<rparr>;
     (k, _) \<leftarrow> xTaskResumeAll k;
     s \<leftarrow> others (set_group xEventGroup g (s\<lparr>evkern := k\<rparr>));
     g \<leftarrow> event_groups s xEventGroup;
     Some (s, uxEventBits g) }"

definition xEventGroupClearBits :: "group_handle \<Rightarrow> tick \<Rightarrow> event_os \<Rightarrow> (event_os \<times> tick) option" where
  "xEventGroupClearBits xEventGroup uxBitsToClear s = do {
     g \<leftarrow> event_groups s xEventGroup;
     configASSERT (uxBitsToClear AND eventEVENT_BITS_CONTROL_BYTES = 0);
     let uxReturn = uxEventBits g;
     Some (set_group xEventGroup (g\<lparr>uxEventBits := uxEventBits g AND NOT uxBitsToClear\<rparr>) s, uxReturn) }"

definition xEventGroupGetBitsFromISR :: "group_handle \<Rightarrow> event_os \<Rightarrow> tick option" where
  "xEventGroupGetBitsFromISR xEventGroup s = do { g \<leftarrow> event_groups s xEventGroup; Some (uxEventBits g) }"

text \<open>The two callbacks that the timer task runs for interrupts.\<close>

definition vEventGroupSetBitsCallback ::
    "(event_os \<Rightarrow> event_os option) \<Rightarrow> group_handle \<Rightarrow> u32 \<Rightarrow> event_os \<Rightarrow> event_os option" where
  "vEventGroupSetBitsCallback others pvEventGroup ulBitsToSet s =
     map_option fst (xEventGroupSetBits others pvEventGroup ulBitsToSet s)"

definition vEventGroupClearBitsCallback :: "group_handle \<Rightarrow> u32 \<Rightarrow> event_os \<Rightarrow> event_os option" where
  "vEventGroupClearBitsCallback pvEventGroup ulBitsToClear s =
     map_option fst (xEventGroupClearBits pvEventGroup ulBitsToClear s)"

section \<open>Waiting\<close>

text \<open>
  The ends of the locked part: the scheduler is unlocked, and a task that is to wait yields
  unless that was a switch already.
\<close>

definition group_unlock :: "bool \<Rightarrow> event_os \<Rightarrow> event_os option" where
  "group_unlock waits s = do {
     (k, xAlreadyYielded) \<leftarrow> xTaskResumeAll (evkern s);
     k \<leftarrow> (if waits \<and> \<not> xAlreadyYielded then portYIELD k else Some k);
     Some (s\<lparr>evkern := k\<rparr>) }"

text \<open>The result: the state, \<open>uxReturn\<close>, and whether the task waits (\<open>xTicksToWait\<close> is not 0).\<close>

definition xEventGroupWaitBits_enter ::
    "group_handle \<Rightarrow> tick \<Rightarrow> bool \<Rightarrow> bool \<Rightarrow> tick \<Rightarrow> event_os \<Rightarrow> (event_os \<times> tick \<times> bool) option" where
  "xEventGroupWaitBits_enter xEventGroup uxBitsToWaitFor xClearOnExit xWaitForAllBits xTicksToWait s = do {
     g \<leftarrow> event_groups s xEventGroup;
     configASSERT (uxBitsToWaitFor AND eventEVENT_BITS_CONTROL_BYTES = 0);
     configASSERT (uxBitsToWaitFor \<noteq> 0);
     configASSERT (\<not> (xTaskGetSchedulerState (evkern s) = taskSCHEDULER_SUSPENDED \<and> xTicksToWait \<noteq> 0));
     let k = vTaskSuspendAll (evkern s);
     let uxCurrentEventBits = uxEventBits g;
     (s, uxReturn, xTicksToWait) \<leftarrow>
       (if prvTestWaitCondition uxCurrentEventBits uxBitsToWaitFor xWaitForAllBits
        then let g = (if xClearOnExit then g\<lparr>uxEventBits := uxEventBits g AND NOT uxBitsToWaitFor\<rparr> else g)
             in Some (set_group xEventGroup g (s\<lparr>evkern := k\<rparr>), uxCurrentEventBits, 0)
        else if xTicksToWait = 0 then Some (s\<lparr>evkern := k\<rparr>, uxCurrentEventBits, xTicksToWait)
        else do {
          let uxControlBits = (if xClearOnExit then 0 OR eventCLEAR_EVENTS_ON_EXIT_BIT else 0);
          let uxControlBits = (if xWaitForAllBits then uxControlBits OR eventWAIT_FOR_ALL_BITS else uxControlBits);
          k \<leftarrow> vTaskPlaceOnUnorderedEventList (BitsL xEventGroup) (uxBitsToWaitFor OR uxControlBits) xTicksToWait k;
          Some (s\<lparr>evkern := k\<rparr>, 0, xTicksToWait) });
     s \<leftarrow> group_unlock (xTicksToWait \<noteq> 0) s;
     Some (s, uxReturn, xTicksToWait \<noteq> 0) }"

text \<open>
  The task runs again: it was woken by a setting of bits, which left them in its event item, or
  it timed out and looks at the bits once more.
\<close>

definition xEventGroupWaitBits_leave ::
    "group_handle \<Rightarrow> tick \<Rightarrow> bool \<Rightarrow> bool \<Rightarrow> event_os \<Rightarrow> (event_os \<times> tick) option" where
  "xEventGroupWaitBits_leave xEventGroup uxBitsToWaitFor xClearOnExit xWaitForAllBits s = do {
     (k, uxReturn) \<leftarrow> uxTaskResetEventItemValue (evkern s);
     let s = s\<lparr>evkern := k\<rparr>;
     (s, uxReturn) \<leftarrow>
       (if uxReturn AND eventUNBLOCKED_DUE_TO_BIT_SET = 0
        then do {
          g \<leftarrow> event_groups s xEventGroup;
          let uxReturn = uxEventBits g;
          let g = (if prvTestWaitCondition uxReturn uxBitsToWaitFor xWaitForAllBits \<and> xClearOnExit
                   then g\<lparr>uxEventBits := uxEventBits g AND NOT uxBitsToWaitFor\<rparr> else g);
          Some (set_group xEventGroup g s, uxReturn) }
        else Some (s, uxReturn));
     Some (s, uxReturn AND NOT eventEVENT_BITS_CONTROL_BYTES) }"

definition xEventGroupWaitBits ::
    "(event_os \<Rightarrow> event_os option) \<Rightarrow> group_handle \<Rightarrow> tick \<Rightarrow> bool \<Rightarrow> bool \<Rightarrow> tick \<Rightarrow> event_os \<Rightarrow>
     (event_os \<times> tick) option" where
  "xEventGroupWaitBits others xEventGroup uxBitsToWaitFor xClearOnExit xWaitForAllBits xTicksToWait s = do {
     (s, uxReturn, waits) \<leftarrow>
       xEventGroupWaitBits_enter xEventGroup uxBitsToWaitFor xClearOnExit xWaitForAllBits xTicksToWait s;
     s \<leftarrow> others s;
     if waits then xEventGroupWaitBits_leave xEventGroup uxBitsToWaitFor xClearOnExit xWaitForAllBits s
     else Some (s, uxReturn) }"

section \<open>Meeting\<close>

text \<open>
  Setting bits and waiting for others in one step. The setting is done with the scheduler
  locked, so that no other task runs at its end.
\<close>

definition xEventGroupSync_enter ::
    "group_handle \<Rightarrow> tick \<Rightarrow> tick \<Rightarrow> tick \<Rightarrow> event_os \<Rightarrow> (event_os \<times> tick \<times> bool) option" where
  "xEventGroupSync_enter xEventGroup uxBitsToSet uxBitsToWaitFor xTicksToWait s = do {
     configASSERT (uxBitsToWaitFor AND eventEVENT_BITS_CONTROL_BYTES = 0);
     configASSERT (uxBitsToWaitFor \<noteq> 0);
     configASSERT (\<not> (xTaskGetSchedulerState (evkern s) = taskSCHEDULER_SUSPENDED \<and> xTicksToWait \<noteq> 0));
     let s = s\<lparr>evkern := vTaskSuspendAll (evkern s)\<rparr>;
     g \<leftarrow> event_groups s xEventGroup;
     let uxOriginalBitValue = uxEventBits g;
     (s, _) \<leftarrow> xEventGroupSetBits Some xEventGroup uxBitsToSet s;
     g \<leftarrow> event_groups s xEventGroup;
     (s, uxReturn, xTicksToWait) \<leftarrow>
       (if (uxOriginalBitValue OR uxBitsToSet) AND uxBitsToWaitFor = uxBitsToWaitFor
        then Some (set_group xEventGroup (g\<lparr>uxEventBits := uxEventBits g AND NOT uxBitsToWaitFor\<rparr>) s,
          uxOriginalBitValue OR uxBitsToSet, 0)
        else if xTicksToWait \<noteq> 0
        then do {
          k \<leftarrow> vTaskPlaceOnUnorderedEventList (BitsL xEventGroup)
             (uxBitsToWaitFor OR eventCLEAR_EVENTS_ON_EXIT_BIT OR eventWAIT_FOR_ALL_BITS) xTicksToWait (evkern s);
          Some (s\<lparr>evkern := k\<rparr>, 0, xTicksToWait) }
        else Some (s, uxEventBits g, xTicksToWait));
     s \<leftarrow> group_unlock (xTicksToWait \<noteq> 0) s;
     Some (s, uxReturn, xTicksToWait \<noteq> 0) }"

definition xEventGroupSync_leave :: "group_handle \<Rightarrow> tick \<Rightarrow> event_os \<Rightarrow> (event_os \<times> tick) option" where
  "xEventGroupSync_leave xEventGroup uxBitsToWaitFor s = do {
     (k, uxReturn) \<leftarrow> uxTaskResetEventItemValue (evkern s);
     let s = s\<lparr>evkern := k\<rparr>;
     (s, uxReturn) \<leftarrow>
       (if uxReturn AND eventUNBLOCKED_DUE_TO_BIT_SET = 0
        then do {
          g \<leftarrow> event_groups s xEventGroup;
          let uxReturn = uxEventBits g;
          let g = (if uxReturn AND uxBitsToWaitFor = uxBitsToWaitFor
                   then g\<lparr>uxEventBits := uxEventBits g AND NOT uxBitsToWaitFor\<rparr> else g);
          Some (set_group xEventGroup g s, uxReturn) }
        else Some (s, uxReturn));
     Some (s, uxReturn AND NOT eventEVENT_BITS_CONTROL_BYTES) }"

definition xEventGroupSync ::
    "(event_os \<Rightarrow> event_os option) \<Rightarrow> group_handle \<Rightarrow> tick \<Rightarrow> tick \<Rightarrow> tick \<Rightarrow> event_os \<Rightarrow>
     (event_os \<times> tick) option" where
  "xEventGroupSync others xEventGroup uxBitsToSet uxBitsToWaitFor xTicksToWait s = do {
     (s, uxReturn, waits) \<leftarrow> xEventGroupSync_enter xEventGroup uxBitsToSet uxBitsToWaitFor xTicksToWait s;
     s \<leftarrow> others s;
     if waits then xEventGroupSync_leave xEventGroup uxBitsToWaitFor s else Some (s, uxReturn) }"

section \<open>Deletion and the rest\<close>

partial_function (option) delete_loop :: "group_handle \<Rightarrow> kernel \<Rightarrow> kernel option" where
  "delete_loop h k = (case list_head (BitsL h) (lists k) of
       None \<Rightarrow> Some k
     | Some i \<Rightarrow> do {
         k \<leftarrow> vTaskRemoveFromUnorderedEventList i eventUNBLOCKED_DUE_TO_BIT_SET k;
         delete_loop h k })"

text \<open>A group that was allocated is freed; one in static memory is left there.\<close>

definition vEventGroupDelete ::
    "(event_os \<Rightarrow> event_os option) \<Rightarrow> group_handle \<Rightarrow> event_os \<Rightarrow> event_os option" where
  "vEventGroupDelete others xEventGroup s = do {
     configASSERT (event_groups s xEventGroup \<noteq> None);
     k \<leftarrow> delete_loop xEventGroup (vTaskSuspendAll (evkern s));
     (k, _) \<leftarrow> xTaskResumeAll k;
     s \<leftarrow> others (s\<lparr>evkern := k\<rparr>);
     g \<leftarrow> event_groups s xEventGroup;
     Some (if \<not> ucGroupStaticallyAllocated g
           then s\<lparr>event_groups := (event_groups s)(xEventGroup := None)\<rparr> else s) }"

definition xEventGroupGetStaticBuffer :: "group_handle \<Rightarrow> event_os \<Rightarrow> (group_handle option \<times> bool) option" where
  "xEventGroupGetStaticBuffer xEventGroup s = do {
     g \<leftarrow> event_groups s xEventGroup;
     Some (if ucGroupStaticallyAllocated g then (Some xEventGroup, True) else (None, False)) }"

definition uxEventGroupGetNumber :: "group_handle option \<Rightarrow> event_os \<Rightarrow> nat option" where
  "uxEventGroupGetNumber xEventGroup s = (case xEventGroup of
       None \<Rightarrow> Some 0
     | Some h \<Rightarrow> do { g \<leftarrow> event_groups s h; Some (uxEventGroupNumber g) })"

definition vEventGroupSetNumber :: "group_handle \<Rightarrow> nat \<Rightarrow> event_os \<Rightarrow> event_os option" where
  "vEventGroupSetNumber xEventGroup n s = do {
     g \<leftarrow> event_groups s xEventGroup;
     Some (set_group xEventGroup (g\<lparr>uxEventGroupNumber := n\<rparr>) s) }"

end
