(* ===== verification/Event_Proofs.thy ===== *)
theory Event_Proofs
  imports Event_Groups
begin

text \<open>
  Event groups: whom a setting of bits wakes and with what, what a wait returns in each of its
  cases, and how the two fit together.
\<close>

section \<open>What a waiter waits for\<close>

text \<open>An item value \<open>v\<close> as a request, the bits \<open>b\<close> it is compared with, and what it clears.\<close>

definition satisfied :: "tick \<Rightarrow> tick \<Rightarrow> bool" where
  "satisfied v b \<longleftrightarrow> prvTestWaitCondition b (v AND NOT eventEVENT_BITS_CONTROL_BYTES) (v AND eventWAIT_FOR_ALL_BITS \<noteq> 0)"

definition clears :: "tick \<Rightarrow> tick" where
  "clears v = (if v AND eventCLEAR_EVENTS_ON_EXIT_BIT \<noteq> 0 then v AND NOT eventEVENT_BITS_CONTROL_BYTES else 0)"

lemma control_constants:
  "eventEVENT_BITS_CONTROL_BYTES AND eventWAIT_FOR_ALL_BITS = eventWAIT_FOR_ALL_BITS"
  "eventEVENT_BITS_CONTROL_BYTES AND eventCLEAR_EVENTS_ON_EXIT_BIT = eventCLEAR_EVENTS_ON_EXIT_BIT"
  "eventEVENT_BITS_CONTROL_BYTES AND eventUNBLOCKED_DUE_TO_BIT_SET = eventUNBLOCKED_DUE_TO_BIT_SET"
  "eventEVENT_BITS_CONTROL_BYTES AND taskEVENT_LIST_ITEM_VALUE_IN_USE = taskEVENT_LIST_ITEM_VALUE_IN_USE"
  unfolding eventEVENT_BITS_CONTROL_BYTES_def eventWAIT_FOR_ALL_BITS_def eventCLEAR_EVENTS_ON_EXIT_BIT_def
    eventUNBLOCKED_DUE_TO_BIT_SET_def taskEVENT_LIST_ITEM_VALUE_IN_USE_def
  by simp_all

lemma control_bits [simp]:
  "(v AND eventEVENT_BITS_CONTROL_BYTES) AND eventWAIT_FOR_ALL_BITS = v AND eventWAIT_FOR_ALL_BITS"
  "(v AND eventEVENT_BITS_CONTROL_BYTES) AND eventCLEAR_EVENTS_ON_EXIT_BIT = v AND eventCLEAR_EVENTS_ON_EXIT_BIT"
  by (simp_all only: and.assoc control_constants)

lemma bit_outside: "(b :: tick) AND a = a \<Longrightarrow> a AND NOT b = 0"
  by (metis and.assoc and.commute and_zero_eq bit.conj_cancel_right)

lemmas control_values = control_constants [THEN bit_outside]

lemma set_bits_visit_eq:
  "set_bits_visit b i c k =
     (if satisfied (item_value (lists k) i) b
      then map_option (\<lambda>k'. (k', c OR clears (item_value (lists k) i)))
        (vTaskRemoveFromUnorderedEventList i (b OR eventUNBLOCKED_DUE_TO_BIT_SET) k)
      else Some (k, c))"
proof -
  let ?v = "item_value (lists k) i"
  have "satisfied ?v b = (if (?v AND eventEVENT_BITS_CONTROL_BYTES) AND eventWAIT_FOR_ALL_BITS = 0
      then (?v AND NOT eventEVENT_BITS_CONTROL_BYTES) AND b \<noteq> 0
      else (?v AND NOT eventEVENT_BITS_CONTROL_BYTES) AND b = ?v AND NOT eventEVENT_BITS_CONTROL_BYTES)"
    by (simp add: satisfied_def prvTestWaitCondition_def and.commute [of b])
  moreover have "c OR clears ?v = (if (?v AND eventEVENT_BITS_CONTROL_BYTES) AND eventCLEAR_EVENTS_ON_EXIT_BIT \<noteq> 0
      then c OR (?v AND NOT eventEVENT_BITS_CONTROL_BYTES) else c)"
    by (simp add: clears_def)
  ultimately show ?thesis
    by (simp only: set_bits_visit_def Let_def bind_Some_map)
qed

text \<open>The request that a wait puts into its event item, read back.\<close>

definition request :: "tick \<Rightarrow> bool \<Rightarrow> bool \<Rightarrow> tick" where
  "request w clear all = w OR (if clear then eventCLEAR_EVENTS_ON_EXIT_BIT else 0) OR
     (if all then eventWAIT_FOR_ALL_BITS else 0) OR taskEVENT_LIST_ITEM_VALUE_IN_USE"

lemma no_control:
  assumes "(w :: tick) AND m = 0" shows "w AND NOT m = w"
proof (rule bit_word_eqI)
  fix n assume "n < LENGTH(32)"
  moreover have "bit (w AND m) n \<longleftrightarrow> bit (0 :: tick) n" using assms by simp
  ultimately show "bit (w AND NOT m) n \<longleftrightarrow> bit w n" by (auto simp: bit_and_iff bit_not_iff)
qed

lemma request_parts:
  assumes "w AND eventEVENT_BITS_CONTROL_BYTES = 0"
  shows "request w clear all AND NOT eventEVENT_BITS_CONTROL_BYTES = w"
    "request w clear all AND eventWAIT_FOR_ALL_BITS \<noteq> 0 \<longleftrightarrow> all"
    "request w clear all AND eventCLEAR_EVENTS_ON_EXIT_BIT \<noteq> 0 \<longleftrightarrow> clear"
proof -
  show "request w clear all AND NOT eventEVENT_BITS_CONTROL_BYTES = w"
    using no_control [OF assms] by (simp add: request_def bit.conj_disj_distrib2 control_values)
  have "w AND eventWAIT_FOR_ALL_BITS = 0" "w AND eventCLEAR_EVENTS_ON_EXIT_BIT = 0"
    using control_bits [of w] assms by (metis and_zero_eq and.commute)+
  then show "request w clear all AND eventWAIT_FOR_ALL_BITS \<noteq> 0 \<longleftrightarrow> all"
    "request w clear all AND eventCLEAR_EVENTS_ON_EXIT_BIT \<noteq> 0 \<longleftrightarrow> clear"
    by (simp_all add: request_def bit.conj_disj_distrib2 eventWAIT_FOR_ALL_BITS_def
        eventCLEAR_EVENTS_ON_EXIT_BIT_def taskEVENT_LIST_ITEM_VALUE_IN_USE_def)
qed

lemma satisfied_request:
  assumes "w AND eventEVENT_BITS_CONTROL_BYTES = 0"
  shows "satisfied (request w clear all) b \<longleftrightarrow> prvTestWaitCondition b w all"
    "clears (request w clear all) = (if clear then w else 0)"
  unfolding satisfied_def clears_def request_parts [OF assms] by simp_all

section \<open>The walk over the waiters\<close>

definition satisfied_by :: "tick \<Rightarrow> kernel \<Rightarrow> item_id list \<Rightarrow> task set" where
  "satisfied_by b k is = owner ` {i \<in> set is. satisfied (item_value (lists k) i) b}"

fun cleared_by :: "tick \<Rightarrow> kernel \<Rightarrow> item_id list \<Rightarrow> tick" where
  "cleared_by b k [] = 0"
| "cleared_by b k (i # is) =
     (if satisfied (item_value (lists k) i) b then clears (item_value (lists k) i) OR cleared_by b k is
      else cleared_by b k is)"

lemma satisfied_by_simps [simp]:
  "satisfied_by b k [] = {}"
  "satisfied_by b k (i # is) = (if satisfied (item_value (lists k) i) b then insert (owner i) (satisfied_by b k is)
     else satisfied_by b k is)"
  by (auto simp: satisfied_by_def)

lemma walk_cong:
  assumes "\<And>i. i \<in> set is \<Longrightarrow> item_value (lists k') i = item_value (lists k) i"
  shows "satisfied_by b k' is = satisfied_by b k is" "cleared_by b k' is = cleared_by b k is"
  using assms by (induction "is") auto

lemma next_in_hd: "i \<notin> set pre \<Longrightarrow> next_in i (pre @ i # is) = (case is of [] \<Rightarrow> None | j # _ \<Rightarrow> Some j)"
  by (induction pre) (auto split: list.splits)

lemma bits_list [simp]: "is_event_list (BitsL h)"
  by simp

lemma set_bits_loop_ensures:
  assumes "sys_inv k" and "uxSchedulerSuspended k \<noteq> 0" and "members k (BitsL h) = pre @ rest"
  shows "ensures (set_bits_loop h b (case rest of [] \<Rightarrow> None | i # _ \<Rightarrow> Some i) c k) (\<lambda>(k', c'). sys_inv k' \<and>
    handed (satisfied_by b k rest) (b OR eventUNBLOCKED_DUE_TO_BIT_SET) k k' \<and> c' = c OR cleared_by b k rest)"
  using assms
proof (induction rest arbitrary: pre c k)
  case Nil
  then show ?case by (simp add: set_bits_loop.simps)
next
  case (Cons i rest)
  let ?v = "item_value (lists k) i" and ?u = "b OR eventUNBLOCKED_DUE_TO_BIT_SET"
  have core: "kernel_core k" using sys_invD [OF Cons.prems(1)] by blast
  have d: "distinct (pre @ i # rest)"
    using lists_wf_distinct [OF lists_inv_wf [OF kernel_core_lists [OF core]], of "BitsL h"] Cons.prems(3) by simp
  have ms: "j = EventI (owner j) \<and> event_list k (owner j) = Some (BitsL h)" if "j \<in> set (pre @ i # rest)" for j
    using event_member [OF core _ bits_list [of h], of j] that unfolding Cons.prems(3) by blast
  obtain t where t: "i = EventI t" and ev: "event_list k t = Some (BitsL h)"
    using ms [of i] by (metis in_set_conv_decomp owner.simps(2))
  have nx: "next_in i (members k (BitsL h)) = (case rest of [] \<Rightarrow> None | j # _ \<Rightarrow> Some j)"
    unfolding Cons.prems(3) using d by (intro next_in_hd) simp
  have unf: "set_bits_loop h b (Some i) c k = do {
      (k, c) \<leftarrow> set_bits_visit b i c k;
      set_bits_loop h b (case rest of [] \<Rightarrow> None | j # _ \<Rightarrow> Some j) c k }"
    by (subst set_bits_loop.simps) (simp add: nx Let_def)
  show ?case
  proof (cases "satisfied ?v b")
    case False
    have "members k (BitsL h) = (pre @ [i]) @ rest" using Cons.prems(3) by simp
    from Cons.IH [OF Cons.prems(1,2) this, of c] show ?thesis
      using False by (simp add: unf set_bits_visit_eq)
  next
    case True
    have "ensures (vTaskRemoveFromUnorderedEventList i ?u k) (\<lambda>k1. ensures (set_bits_loop h b
        (case rest of [] \<Rightarrow> None | j # _ \<Rightarrow> Some j) (c OR clears ?v) k1)
      (\<lambda>(k', c'). sys_inv k' \<and> handed (insert t (satisfied_by b k rest)) ?u k k' \<and>
         c' = c OR clears ?v OR cleared_by b k rest))"
      unfolding t
    proof (rule ensures_mono [OF vTaskRemoveFromUnorderedEventList_ensures [OF Cons.prems(1,2) ev]], elim conjE)
      fix k1 assume k1: "sys_inv k1" "handed {t} ?u k k1"
      have m: "members k1 (BitsL h) = pre @ rest"
      proof -
        have "members k1 (BitsL h) = filter (\<lambda>i. i \<noteq> EventI t) (pre @ EventI t # rest)"
          using k1(2) Cons.prems(3) t by (simp add: handed_def)
        moreover have "filter (\<lambda>i. i \<noteq> EventI t) pre = pre" "filter (\<lambda>i. i \<noteq> EventI t) rest = rest"
          using d t by (auto simp: filter_id_conv)
        ultimately show ?thesis by simp
      qed
      have "item_value (lists k1) j = item_value (lists k) j" if "j \<in> set rest" for j
      proof -
        have "j = EventI (owner j)" "owner j \<noteq> t" using ms [of j] that d t by auto
        then show ?thesis using k1(2) unfolding handed_def by (metis singletonD)
      qed
      note same = walk_cong [where b = b and k' = k1 and k = k, OF this]
      have susp: "uxSchedulerSuspended k1 \<noteq> 0" using k1(2) Cons.prems(2) by (simp add: handed_def)
      show "ensures (set_bits_loop h b (case rest of [] \<Rightarrow> None | j # _ \<Rightarrow> Some j) (c OR clears (item_value (lists k) (EventI t))) k1)
        (\<lambda>(k', c'). sys_inv k' \<and> handed (insert t (satisfied_by b k rest)) ?u k k' \<and>
         c' = c OR clears (item_value (lists k) (EventI t)) OR cleared_by b k rest)"
      proof (rule ensures_mono [OF Cons.IH [OF k1(1) susp m]])
        fix r assume r: "case r of (k', c') \<Rightarrow> sys_inv k' \<and> handed (satisfied_by b k1 rest) ?u k1 k' \<and>
          c' = (c OR clears (item_value (lists k) (EventI t))) OR cleared_by b k1 rest"
        obtain k' c' where "r = (k', c')" by (cases r)
        with r same handed_trans [OF k1(2), of "satisfied_by b k rest" k'] show
          "case r of (k', c') \<Rightarrow> sys_inv k' \<and> handed (insert t (satisfied_by b k rest)) ?u k k' \<and>
            c' = c OR clears (item_value (lists k) (EventI t)) OR cleared_by b k rest"
          by (simp add: or.assoc)
      qed
    qed
    then show ?thesis using True t by (simp add: unf [unfolded t] set_bits_visit_eq)
  qed
qed

section \<open>Unlocking the scheduler\<close>

lemma handed_undisturbed:
  assumes h: "handed W v (vTaskSuspendAll k) k1" and q: "undisturbed k1 k'"
  shows "handed W v k k'"
  using h q undisturbed_ready [OF q] by (simp add: handed_def undisturbed_def vTaskSuspendAll_def)

lemma nothing_put_off_handed:
  "handed W v k k' \<Longrightarrow> nothing_put_off k \<Longrightarrow> nothing_put_off k'"
  by (simp add: handed_def nothing_put_off_def)

text \<open>Unlocking by a task that has just begun to wait.\<close>

lemma group_unlock_ensures:
  assumes inv: "kernel_inv k" "pxCurrentTCB k = Some c" "idle_ready k" "xSchedulerRunning k"
    and one: "uxSchedulerSuspended k = 1" and n: "nothing_put_off k"
  shows "ensures (group_unlock True (s\<lparr>evkern := k\<rparr>)) (\<lambda>s'. sys_inv (evkern s') \<and> undisturbed k (evkern s') \<and>
    event_groups s' = event_groups s)"
proof -
  have p: "members k PendingReadyL = []" "xPendedTicks k = 0" using n one by (simp_all add: nothing_put_off_def)
  note rs = resume_set_empty [OF inv(1) p]
  have "ensures (do { (k, y) \<leftarrow> xTaskResumeAll k; if y then Some k else portYIELD k }) (\<lambda>k'. sys_inv k' \<and> undisturbed k k')"
  proof (rule ensures_mono [OF resume_all_sys_inv [OF inv(1,2) one inv(3,4)]], elim conjE exE)
    fix k' k1 t assume k': "sys_inv k'" "resumed k k1" "switched t k1 k'"
    then show "sys_inv k' \<and> undisturbed k k'"
      using undisturbed_switched(2) [of k k1 t k'] rs p one by (simp add: resumed_def)
  qed
  then show ?thesis
    by (auto simp: group_unlock_def case_prod_unfold elim!: ensures_mono split: if_splits)
qed

section \<open>Setting bits\<close>

text \<open>
  What a setting makes of the group: the waiters that are served with the bits then set, and
  what these take away.
\<close>

definition bits_set :: "group_handle \<Rightarrow> tick \<Rightarrow> event_group \<Rightarrow> event_os \<Rightarrow> event_os \<Rightarrow> bool" where
  "bits_set h b g s s' \<longleftrightarrow> (let is = members (evkern s) (BitsL h); n = uxEventBits g OR b in
     handed (satisfied_by n (evkern s) is) (n OR eventUNBLOCKED_DUE_TO_BIT_SET) (evkern s) (evkern s') \<and>
     event_groups s' = (event_groups s)(h \<mapsto> g\<lparr>uxEventBits := n AND NOT (cleared_by n (evkern s) is)\<rparr>))"

lemma suspend_fields [simp]:
  "lists (vTaskSuspendAll k) = lists k" "uxSchedulerSuspended (vTaskSuspendAll k) = Suc (uxSchedulerSuspended k)"
  by (simp_all add: vTaskSuspendAll_def)

lemma xEventGroupSetBits_ensures:
  assumes s: "sys_inv (evkern s)" and g: "event_groups s h = Some g" and b: "b AND eventEVENT_BITS_CONTROL_BYTES = 0"
    and post: "\<And>s'. sys_inv (evkern s') \<Longrightarrow> bits_set h b g s s' \<Longrightarrow>
      ensures (do { s \<leftarrow> others s'; g \<leftarrow> event_groups s h; Some (s, uxEventBits g) }) Q"
  shows "ensures (xEventGroupSetBits others h b s) Q"
proof -
  let ?k = "vTaskSuspendAll (evkern s)" and ?is = "members (evkern s) (BitsL h)" and ?n = "uxEventBits g OR b"
  let ?W = "satisfied_by ?n (evkern s) ?is" and ?u = "?n OR eventUNBLOCKED_DUE_TO_BIT_SET"
  let ?g = "g\<lparr>uxEventBits := ?n AND NOT (cleared_by ?n (evkern s) ?is)\<rparr>"
  have hd: "list_head (BitsL h) (lists (evkern s)) = (case ?is of [] \<Rightarrow> None | i # _ \<Rightarrow> Some i)"
    by (simp add: list_head_def)
  have same: "satisfied_by ?n ?k ?is = ?W" "cleared_by ?n ?k ?is = cleared_by ?n (evkern s) ?is"
    by (intro walk_cong; simp)+
  have loop: "ensures (set_bits_loop h ?n (list_head (BitsL h) (lists ?k)) 0 ?k)
      (\<lambda>(k', c). sys_inv k' \<and> handed ?W ?u ?k k' \<and> c = cleared_by ?n (evkern s) ?is)"
    using set_bits_loop_ensures [OF sys_inv_lock [OF s], of h "[]" ?is ?n 0] by (simp add: hd same)
  have "ensures (do { (k, c) \<leftarrow> set_bits_loop h ?n (list_head (BitsL h) (lists ?k)) 0 ?k;
      (k, _) \<leftarrow> xTaskResumeAll k;
      s \<leftarrow> others (set_group h (g\<lparr>uxEventBits := ?n AND NOT c\<rparr>) (s\<lparr>evkern := k\<rparr>));
      g \<leftarrow> event_groups s h; Some (s, uxEventBits g) }) Q"
    unfolding ensures_bind [of "set_bits_loop _ _ _ _ _"]
  proof (rule ensures_mono [OF loop])
    fix r assume "case r of (k', c) \<Rightarrow> sys_inv k' \<and> handed ?W ?u ?k k' \<and> c = cleared_by ?n (evkern s) ?is"
    then obtain k1 where r: "r = (k1, cleared_by ?n (evkern s) ?is)" and k1: "sys_inv k1" "handed ?W ?u ?k k1" by auto
    have susp: "uxSchedulerSuspended k1 \<noteq> 0" using k1(2) by (simp add: handed_def)
    note n = nothing_put_off_handed [OF k1(2) nothing_put_off_suspend [OF s]]
    show "ensures (case r of (k, c) \<Rightarrow> do { (k, _) \<leftarrow> xTaskResumeAll k;
        s \<leftarrow> others (set_group h (g\<lparr>uxEventBits := ?n AND NOT c\<rparr>) (s\<lparr>evkern := k\<rparr>));
        g \<leftarrow> event_groups s h; Some (s, uxEventBits g) }) Q"
      unfolding r prod.case ensures_bind [of "xTaskResumeAll _"]
    proof (rule ensures_mono [OF resume_undisturbed [OF k1(1) susp n]])
      fix r assume "case r of (k', y) \<Rightarrow> sys_inv k' \<and> undisturbed k1 k'"
      then obtain k' y where r: "r = (k', y)" "sys_inv k'" "undisturbed k1 k'" by auto
      have "bits_set h b g s (set_group h ?g (s\<lparr>evkern := k'\<rparr>))"
        using handed_undisturbed [OF k1(2) r(3)] by (simp add: bits_set_def Let_def)
      from post [OF _ this] r(2) show "ensures (case r of (k, _) \<Rightarrow> do {
          s \<leftarrow> others (set_group h ?g (s\<lparr>evkern := k\<rparr>)); g \<leftarrow> event_groups s h; Some (s, uxEventBits g) }) Q"
        by (simp add: r(1))
    qed
  qed
  then show ?thesis
    using g b by (simp add: xEventGroupSetBits_def Let_def)
qed

section \<open>Waiting\<close>

text \<open>The kernel a call leaves that neither wakes nor blocks a task: another task may be running.\<close>

definition still :: "kernel \<Rightarrow> kernel \<Rightarrow> bool" where
  "still k k' \<longleftrightarrow> container (lists k') = container (lists k) \<and> item_value (lists k') = item_value (lists k) \<and>
     (\<forall>l. members k' l = members k l) \<and> tcbs k' = tcbs k \<and> xTickCount k' = xTickCount k \<and>
     uxSchedulerSuspended k' = uxSchedulerSuspended k"

text \<open>A task has gone to wait in the list of a group, with a request in its event item.\<close>

definition asleep :: "task \<Rightarrow> group_handle \<Rightarrow> tick \<Rightarrow> tick \<Rightarrow> kernel \<Rightarrow> kernel \<Rightarrow> bool" where
  "asleep c h v w k k' \<longleftrightarrow> state_list k' c = Some (wait_list k w True) \<and> event_list k' c = Some (BitsL h) \<and>
     item_value (lists k') (EventI c) = v \<and> (w \<noteq> portMAX_DELAY \<longrightarrow> wake_time k' c = xTickCount k + w) \<and>
     members k' (BitsL h) = insert_before (cursor (lists k) (BitsL h)) (EventI c) (members k (BitsL h)) \<and>
     (\<forall>t. t \<noteq> c \<longrightarrow> state_list k' t = state_list k t \<and> event_list k' t = event_list k t \<and>
        item_value (lists k') (EventI t) = item_value (lists k) (EventI t)) \<and>
     xTickCount k' = xTickCount k \<and> uxSchedulerSuspended k' = 0"

lemma unlock_still:
  assumes s: "sys_inv k"
  shows "ensures (group_unlock False (s\<lparr>evkern := vTaskSuspendAll k\<rparr>)) (\<lambda>s'. sys_inv (evkern s') \<and>
    still k (evkern s') \<and> event_groups s' = event_groups s)"
proof -
  have "ensures (xTaskResumeAll (vTaskSuspendAll k)) (\<lambda>(k', y). sys_inv k' \<and> undisturbed (vTaskSuspendAll k) k')"
    by (rule resume_undisturbed [OF sys_inv_lock [OF s] _ nothing_put_off_suspend [OF s]]) simp
  then show ?thesis
    by (auto simp: group_unlock_def case_prod_unfold undisturbed_def still_def vTaskSuspendAll_def elim!: ensures_mono)
qed

lemma group_sleep_ensures:
  assumes s: "sys_inv k" and one: "uxSchedulerSuspended k = 1" and n: "nothing_put_off k"
    and b: "blockable k c" and ni: "xIdleTaskHandle k \<noteq> Some c" and w: "w \<noteq> 0"
  shows "ensures (vTaskPlaceOnUnorderedEventList (BitsL h) v w k) (\<lambda>k1. ensures (group_unlock True (s\<lparr>evkern := k1\<rparr>))
    (\<lambda>s'. sys_inv (evkern s') \<and> asleep c h (v OR taskEVENT_LIST_ITEM_VALUE_IN_USE) w k (evkern s') \<and>
      event_groups s' = event_groups s))"
proof (rule vTaskPlaceOnUnorderedEventList_ensures [OF b w])
  fix k1 assume k1: "kernel_inv k1" "blocked c w True (Some (BitsL h)) k k1"
    "members k1 (BitsL h) = insert_before (cursor (lists k) (BitsL h)) (EventI c) (members k (BitsL h))"
    "item_value (lists k1) (EventI c) = v OR taskEVENT_LIST_ITEM_VALUE_IN_USE"
  note bl = blocked_lists [OF k1(2)] and bf = blocked_frame [OF k1(2)]
  have idle: "idle_ready k1"
    using sys_invD(4) [OF s] ni bl(1,4) bf by (auto simp: idle_ready_def ready_def)
  have ev: "item_value (lists k1) (EventI t) = item_value (lists k) (EventI t)" if "t \<noteq> c" for t
    using k1(2) that by (simp add: blocked_def)
  have "wait_list k w True \<noteq> SuspendedL" if "w \<noteq> portMAX_DELAY"
    using that delayed_not_other [OF sys_invD(2) [OF s]] by (auto simp: wait_list_def)
  then have wt: "w \<noteq> portMAX_DELAY \<longrightarrow> wake_time k1 c = xTickCount k + w" using bl(3) [of c] by simp
  have p1: "members k1 PendingReadyL = []" if "members k PendingReadyL = []"
  proof -
    have "members k1 PendingReadyL = remove1 (EventI c) (members k PendingReadyL)"
      using k1(2) unfolding blocked_def by simp
    then show ?thesis using that by simp
  qed
  have "ensures (group_unlock True (s\<lparr>evkern := k1\<rparr>)) (\<lambda>s'. sys_inv (evkern s') \<and> undisturbed k1 (evkern s') \<and>
      event_groups s' = event_groups s)"
  proof (rule group_unlock_ensures [OF k1(1) _ idle])
    show "nothing_put_off k1" using n p1 bf one by (simp add: nothing_put_off_def)
    show "pxCurrentTCB k1 = Some c" "xSchedulerRunning k1" "uxSchedulerSuspended k1 = 1"
      using b bf one sys_invD(3) [OF s] by (simp_all add: blockable_def)
  qed
  then show "ensures (group_unlock True (s\<lparr>evkern := k1\<rparr>)) (\<lambda>s'. sys_inv (evkern s') \<and>
      asleep c h (v OR taskEVENT_LIST_ITEM_VALUE_IN_USE) w k (evkern s') \<and> event_groups s' = event_groups s)"
    by (rule ensures_mono) (use bl(1,2) bf wt k1(3,4) ev one in \<open>simp add: undisturbed_def asleep_def\<close>)
qed (use one in simp_all)

lemma asleep_suspend: "asleep c h v w (vTaskSuspendAll k) k' = asleep c h v w k k'"
  by (simp add: asleep_def wait_list_def vTaskSuspendAll_def)

lemma xEventGroupWaitBits_enter_ensures:
  assumes s: "sys_inv (evkern s)" and g: "event_groups s h = Some g"
    and bits: "bits AND eventEVENT_BITS_CONTROL_BYTES = 0" "bits \<noteq> 0" and cur: "pxCurrentTCB (evkern s) = Some c"
    and w: "w \<noteq> 0 \<longrightarrow> uxSchedulerSuspended (evkern s) = 0 \<and> xIdleTaskHandle (evkern s) \<noteq> Some c"
  shows "ensures (xEventGroupWaitBits_enter h bits clear all w s) (\<lambda>(s', r, waits). sys_inv (evkern s') \<and>
    (if prvTestWaitCondition (uxEventBits g) bits all
     then \<not> waits \<and> r = uxEventBits g \<and> still (evkern s) (evkern s') \<and> event_groups s' =
       (event_groups s)(h \<mapsto> if clear then g\<lparr>uxEventBits := uxEventBits g AND NOT bits\<rparr> else g)
     else if w = 0 then \<not> waits \<and> r = uxEventBits g \<and> still (evkern s) (evkern s') \<and> event_groups s' = event_groups s
     else waits \<and> asleep c h (request bits clear all) w (evkern s) (evkern s') \<and> event_groups s' = event_groups s))"
proof -
  let ?k = "vTaskSuspendAll (evkern s)"
  have a: "\<not> (xTaskGetSchedulerState (evkern s) = taskSCHEDULER_SUSPENDED \<and> w \<noteq> 0)"
    using w sys_invD(3) [OF s] by (auto simp: xTaskGetSchedulerState_def)
  have same: "s\<lparr>evkern := k, event_groups := G\<rparr> = s\<lparr>event_groups := G\<rparr>\<lparr>evkern := k\<rparr>" for G k by simp
  show ?thesis
  proof (cases "prvTestWaitCondition (uxEventBits g) bits all")
    case True
    let ?g = "if clear then g\<lparr>uxEventBits := uxEventBits g AND NOT bits\<rparr> else g"
    have "ensures (group_unlock False ((set_group h ?g s)\<lparr>evkern := ?k\<rparr>)) (\<lambda>s'. sys_inv (evkern s') \<and>
        still (evkern s) (evkern s') \<and> event_groups s' = (event_groups s)(h \<mapsto> ?g))"
      by (rule ensures_mono [OF unlock_still [OF s]]) simp
    with True show ?thesis
      using g bits a by (cases clear) (simp_all add: xEventGroupWaitBits_enter_def Let_def same)
  next
    case no: False
    show ?thesis
    proof (cases "w = 0")
      case True
      then show ?thesis
        using no g bits a unlock_still [OF s, of s] by (simp add: xEventGroupWaitBits_enter_def Let_def)
    next
      case False
      with w have run: "uxSchedulerSuspended (evkern s) = 0" and ni: "xIdleTaskHandle ?k \<noteq> Some c"
        by (simp_all add: vTaskSuspendAll_def)
      let ?c = "if all then (if clear then 0 OR eventCLEAR_EVENTS_ON_EXIT_BIT else 0) OR eventWAIT_FOR_ALL_BITS
        else if clear then 0 OR eventCLEAR_EVENTS_ON_EXIT_BIT else 0"
      have rq: "(bits OR ?c) OR taskEVENT_LIST_ITEM_VALUE_IN_USE = request bits clear all"
        by (simp add: request_def or.assoc)
      have "ensures (vTaskPlaceOnUnorderedEventList (BitsL h) (bits OR ?c) w ?k) (\<lambda>k1.
        ensures (group_unlock True (s\<lparr>evkern := k1\<rparr>)) (\<lambda>s'. sys_inv (evkern s') \<and>
          asleep c h ((bits OR ?c) OR taskEVENT_LIST_ITEM_VALUE_IN_USE) w ?k (evkern s') \<and> event_groups s' = event_groups s))"
        by (rule group_sleep_ensures [OF sys_inv_lock [OF s] _ nothing_put_off_suspend [OF s] sys_blockable(2) [OF s run cur] ni False])
          (simp add: run)
      then show ?thesis
        using no False g bits a unfolding rq by (simp add: xEventGroupWaitBits_enter_def Let_def asleep_suspend)
    qed
  qed
qed

text \<open>What the task does when it runs again.\<close>

lemma event_value_sys_inv:
  assumes s: "sys_inv k" shows "sys_inv (k_set_value (EventI t) v k)" (is "sys_inv ?k")
proof -
  note core = sys_invD(2) [OF s]
  have "kernel_core ?k"
  proof (rule kernel_coreI [OF core, where t = t])
    show "lists_inv (lists ?k)" using event_value_inv [OF core] by simp
    show "task_ok ?k t" using kernel_core_task [OF core, of t] by (simp add: task_ok_def list_frame)
  qed (use core in \<open>simp_all add: same_task_def kernel_core_def list_frame\<close>)
  moreover have "wake_ok ?k x" for x
    using kernel_invD(2) [OF sys_invD(1) [OF s], of x] by (simp add: wake_ok_def list_frame)
  moreover have "pending_ok ?k" "next_ok ?k"
    using kernel_invD(3,4) [OF sys_invD(1) [OF s]] by (simp_all add: pending_ok_def next_ok_def list_frame)
  ultimately show ?thesis
    using s by (simp add: sys_inv_def kernel_inv_def idle_ready_def current_ready_def settled_def caught_up_def
        ready_def list_frame)
qed

lemma wait_leave:
  assumes cur: "pxCurrentTCB (evkern s) = Some c"
  shows "xEventGroupWaitBits_leave h bits clear all s =
      (let v = item_value (lists (evkern s)) (EventI c);
           s1 = s\<lparr>evkern := k_set_value (EventI c) (priority_value (prio (evkern s) c)) (evkern s)\<rparr> in
       if v AND eventUNBLOCKED_DUE_TO_BIT_SET \<noteq> 0 then Some (s1, v AND NOT eventEVENT_BITS_CONTROL_BYTES)
       else do { g \<leftarrow> event_groups s h;
         Some (set_group h (if prvTestWaitCondition (uxEventBits g) bits all \<and> clear
             then g\<lparr>uxEventBits := uxEventBits g AND NOT bits\<rparr> else g) s1,
           uxEventBits g AND NOT eventEVENT_BITS_CONTROL_BYTES) })"
  using assms by (cases "event_groups s h")
    (simp_all add: xEventGroupWaitBits_leave_def uxTaskResetEventItemValue_def Let_def)

section \<open>No task waits for bits that are set\<close>

lemma fewer_bits: "prvTestWaitCondition (b AND m) w all \<Longrightarrow> prvTestWaitCondition b w all"
proof -
  have any: "(b AND m) AND w = (b AND w) AND m" by (simp only: and.assoc and.commute and.left_commute)
  have "b AND w = w" if "(b AND m) AND w = w"
    using that by (metis and.assoc and.idem)
  with any show "prvTestWaitCondition (b AND m) w all \<Longrightarrow> prvTestWaitCondition b w all"
    by (auto simp: prvTestWaitCondition_def split: if_splits)
qed

lemma fewer_bits_satisfied: "satisfied v (b AND m) \<Longrightarrow> satisfied v b"
  unfolding satisfied_def by (rule fewer_bits)

definition group_ok :: "kernel \<Rightarrow> group_handle \<Rightarrow> event_group \<Rightarrow> bool" where
  "group_ok k h g \<longleftrightarrow> uxEventBits g AND eventEVENT_BITS_CONTROL_BYTES = 0 \<and>
     (\<forall>i \<in> set (members k (BitsL h)). \<not> satisfied (item_value (lists k) i) (uxEventBits g))"

definition event_inv :: "event_os \<Rightarrow> bool" where
  "event_inv s \<longleftrightarrow> sys_inv (evkern s) \<and> (\<forall>h. case event_groups s h of
     None \<Rightarrow> members (evkern s) (BitsL h) = [] | Some g \<Rightarrow> group_ok (evkern s) h g)"

lemma event_invD:
  assumes "event_inv s"
  shows "sys_inv (evkern s)" "event_groups s h = Some g \<Longrightarrow> group_ok (evkern s) h g"
    "event_groups s h = None \<Longrightarrow> members (evkern s) (BitsL h) = []"
proof -
  have "sys_inv (evkern s)" "case event_groups s h of None \<Rightarrow> members (evkern s) (BitsL h) = []
    | Some g \<Rightarrow> group_ok (evkern s) h g" using assms unfolding event_inv_def by blast+
  then show "sys_inv (evkern s)" "event_groups s h = Some g \<Longrightarrow> group_ok (evkern s) h g"
    "event_groups s h = None \<Longrightarrow> members (evkern s) (BitsL h) = []" by simp_all
qed

lemma event_invI:
  assumes "sys_inv (evkern s)" and "\<And>h g. event_groups s h = Some g \<Longrightarrow> group_ok (evkern s) h g"
    and "\<And>h. event_groups s h = None \<Longrightarrow> members (evkern s) (BitsL h) = []"
  shows "event_inv s"
  using assms by (auto simp: event_inv_def split: option.splits)

text \<open>What keeps the invariant: waiters that leave with their values, and bits that go.\<close>

definition fewer_waiters :: "kernel \<Rightarrow> kernel \<Rightarrow> bool" where
  "fewer_waiters k k' \<longleftrightarrow> (\<forall>h. \<forall>i \<in> set (members k' (BitsL h)). i \<in> set (members k (BitsL h)) \<and>
     item_value (lists k') i = item_value (lists k) i)"

lemma fewer_empty: "fewer_waiters k k' \<Longrightarrow> members k (BitsL h) = [] \<Longrightarrow> members k' (BitsL h) = []"
  unfolding fewer_waiters_def by (metis empty_iff list.set_intros(1) list.exhaust set_empty)

lemma group_ok_fewer:
  assumes "group_ok k h g" and "fewer_waiters k k'" shows "group_ok k' h g"
  using assms by (auto simp: group_ok_def fewer_waiters_def)

lemma group_ok_and:
  assumes "group_ok k h g" shows "group_ok k h (g\<lparr>uxEventBits := uxEventBits g AND m\<rparr>)"
proof -
  have "(uxEventBits g AND m) AND eventEVENT_BITS_CONTROL_BYTES = (uxEventBits g AND eventEVENT_BITS_CONTROL_BYTES) AND m"
    by (simp only: and.assoc and.commute and.left_commute)
  then show ?thesis using assms fewer_bits_satisfied by (auto simp: group_ok_def)
qed

lemma event_inv_fewer:
  assumes s: "event_inv s" and s': "sys_inv (evkern s')" and f: "fewer_waiters (evkern s) (evkern s')"
    and g: "\<And>h g. event_groups s' h = Some g \<Longrightarrow> \<exists>g0 m. event_groups s h = Some g0 \<and>
      (g = g0 \<or> g = g0\<lparr>uxEventBits := uxEventBits g0 AND m\<rparr>)"
    and gone: "\<And>h. event_groups s' h = None \<Longrightarrow> event_groups s h = None \<or> members (evkern s') (BitsL h) = []"
  shows "event_inv s'"
proof (rule event_invI [OF s'])
  fix h g' assume "event_groups s' h = Some g'"
  from g [OF this] obtain g0 m where g0: "event_groups s h = Some g0"
    "g' = g0 \<or> g' = g0\<lparr>uxEventBits := uxEventBits g0 AND m\<rparr>" by blast
  have "group_ok (evkern s') h g0" by (rule group_ok_fewer [OF event_invD(2) [OF s g0(1)] f])
  then show "group_ok (evkern s') h g'" using g0(2) group_ok_and by auto
next
  fix h assume "event_groups s' h = None"
  from gone [OF this] show "members (evkern s') (BitsL h) = []"
    using event_invD(3) [OF s, of h] fewer_empty [OF f] by blast
qed

lemma still_fewer: "still k k' \<Longrightarrow> fewer_waiters k k'"
  by (simp add: still_def fewer_waiters_def)

lemma handed_fewer:
  assumes core: "kernel_core k" and h: "handed W v k k'"
  shows "fewer_waiters k k'"
  unfolding fewer_waiters_def
proof (intro allI ballI)
  fix h i assume i: "i \<in> set (members k' (BitsL h))"
  have m: "i \<in> set (members k (BitsL h))" "i \<notin> EventI ` W"
    using i assms(2) by (simp_all add: handed_def)
  have "i = EventI (owner i)" using event_member [OF core m(1) bits_list] by blast
  then obtain t where t: "i = EventI t" by blast
  then show "i \<in> set (members k (BitsL h)) \<and> item_value (lists k') i = item_value (lists k) i"
    using m assms(2) by (auto simp: handed_def)
qed

lemma bits_set_inv:
  assumes s: "event_inv s" and s': "sys_inv (evkern s')" and g: "event_groups s h = Some g"
    and b: "b AND eventEVENT_BITS_CONTROL_BYTES = 0" and bs: "bits_set h b g s s'"
  shows "event_inv s'"
proof -
  note core = sys_invD(2) [OF event_invD(1) [OF s]]
  let ?n = "uxEventBits g OR b" and ?is = "members (evkern s) (BitsL h)"
  let ?W = "satisfied_by ?n (evkern s) ?is"
  have hd: "handed ?W (?n OR eventUNBLOCKED_DUE_TO_BIT_SET) (evkern s) (evkern s')"
    and gs: "event_groups s' = (event_groups s)(h \<mapsto> g\<lparr>uxEventBits := ?n AND NOT (cleared_by ?n (evkern s) ?is)\<rparr>)"
    using bs by (simp_all add: bits_set_def Let_def)
  note f = handed_fewer [OF core hd]
  have "group_ok (evkern s') h (g\<lparr>uxEventBits := ?n\<rparr>)"
  proof -
    have "\<not> satisfied (item_value (lists (evkern s')) i) ?n" if i: "i \<in> set (members (evkern s') (BitsL h))" for i
    proof -
      have i2: "i \<in> set ?is" "i \<notin> EventI ` ?W" "item_value (lists (evkern s')) i = item_value (lists (evkern s)) i"
        using i hd f by (auto simp: handed_def fewer_waiters_def)
      have "i = EventI (owner i)" using event_member [OF core i2(1) bits_list] by blast
      then show ?thesis using i2 unfolding satisfied_by_def by (metis (mono_tags, lifting) image_eqI mem_Collect_eq)
    qed
    moreover have "?n AND eventEVENT_BITS_CONTROL_BYTES = 0"
      using b event_invD(2) [OF s g] by (simp add: group_ok_def bit.conj_disj_distrib2)
    ultimately show ?thesis by (simp add: group_ok_def)
  qed
  from group_ok_and [OF this, of "NOT (cleared_by ?n (evkern s) ?is)"]
  have ok: "group_ok (evkern s') h (g\<lparr>uxEventBits := ?n AND NOT (cleared_by ?n (evkern s) ?is)\<rparr>)" by simp
  show ?thesis
  proof (rule event_invI [OF s'])
    fix h' g' assume "event_groups s' h' = Some g'"
    then show "group_ok (evkern s') h' g'"
      using gs ok group_ok_fewer [OF event_invD(2) [OF s] f] by (auto split: if_splits)
  next
    fix h' assume "event_groups s' h' = None"
    then have "members (evkern s) (BitsL h') = []" using event_invD(3) [OF s] gs by (auto split: if_splits)
    then show "members (evkern s') (BitsL h') = []" by (rule fewer_empty [OF f])
  qed
qed

lemma asleep_inv:
  assumes s: "event_inv s" and s': "sys_inv (evkern s')" and g: "event_groups s h = Some g"
    and a: "asleep c h v w (evkern s) (evkern s')" and gs: "event_groups s' = event_groups s"
    and v: "\<not> satisfied v (uxEventBits g)"
  shows "event_inv s'"
proof -
  note core = sys_invD(2) [OF event_invD(1) [OF s]] and core' = sys_invD(2) [OF s']
  have w: "i \<in> set (members (evkern s) (BitsL h')) \<and> item_value (lists (evkern s')) i = item_value (lists (evkern s)) i \<or>
      i = EventI c \<and> h' = h" if i: "i \<in> set (members (evkern s') (BitsL h'))" for i h'
  proof -
    obtain t where t: "i = EventI t" "event_list (evkern s') t = Some (BitsL h')"
      using event_member [OF core' i bits_list] by metis
    then show ?thesis using a member_iff(2) [OF core, of t "BitsL h'"] by (cases "t = c") (auto simp: asleep_def)
  qed
  show ?thesis
  proof (rule event_invI [OF s'])
    fix h' g' assume g': "event_groups s' h' = Some g'"
    then have ok: "group_ok (evkern s) h' g'" using event_invD(2) [OF s] gs by simp
    have "\<not> satisfied (item_value (lists (evkern s')) i) (uxEventBits g')" if "i \<in> set (members (evkern s') (BitsL h'))" for i
      using w [OF that] ok g' g gs v a by (auto simp: group_ok_def asleep_def)
    then show "group_ok (evkern s') h' g'" using ok by (simp add: group_ok_def)
  next
    fix h' assume h': "event_groups s' h' = None"
    then have "members (evkern s) (BitsL h') = []" "h' \<noteq> h" using event_invD(3) [OF s] gs g by auto
    then have "i \<notin> set (members (evkern s') (BitsL h'))" for i using w [of i h'] by auto
    then show "members (evkern s') (BitsL h') = []" by (metis list.set_intros(1) list.exhaust)
  qed
qed

lemma waiting_bits:
  assumes "bits AND eventEVENT_BITS_CONTROL_BYTES = 0" and "\<not> prvTestWaitCondition b bits all"
  shows "\<not> satisfied (request bits clear all) b"
  using assms satisfied_request(1) [OF assms(1)] by simp

lemma xEventGroupSetBits_inv:
  assumes s: "event_inv s" and g: "event_groups s h = Some g" and b: "b AND eventEVENT_BITS_CONTROL_BYTES = 0"
  shows "ensures (xEventGroupSetBits Some h b s) (\<lambda>(s', r). event_inv s' \<and> bits_set h b g s s' \<and>
    (\<exists>g'. event_groups s' h = Some g' \<and> r = uxEventBits g'))"
proof (rule xEventGroupSetBits_ensures [OF event_invD(1) [OF s] g b])
  fix s' assume s': "sys_inv (evkern s')" "bits_set h b g s s'"
  then show "ensures (do { s \<leftarrow> Some s'; g \<leftarrow> event_groups s h; Some (s, uxEventBits g) }) (\<lambda>(s', r). event_inv s' \<and>
      bits_set h b g s s' \<and> (\<exists>g'. event_groups s' h = Some g' \<and> r = uxEventBits g'))"
    using bits_set_inv [OF s s'(1) g b s'(2)] by (simp add: bits_set_def Let_def)
qed

lemma xEventGroupClearBits_inv:
  assumes s: "event_inv s" and g: "event_groups s h = Some g" and b: "b AND eventEVENT_BITS_CONTROL_BYTES = 0"
  shows "ensures (xEventGroupClearBits h b s) (\<lambda>(s', r). event_inv s' \<and> r = uxEventBits g \<and> evkern s' = evkern s)"
proof -
  let ?s = "set_group h (g\<lparr>uxEventBits := uxEventBits g AND NOT b\<rparr>) s"
  have "event_inv ?s"
    by (rule event_inv_fewer [OF s]) (use event_invD(1) [OF s] g in \<open>auto simp: fewer_waiters_def split: if_splits\<close>)
  then show ?thesis using g b by (simp add: xEventGroupClearBits_def Let_def)
qed

lemma xEventGroupWaitBits_enter_inv:
  assumes s: "event_inv s" and g: "event_groups s h = Some g"
    and bits: "bits AND eventEVENT_BITS_CONTROL_BYTES = 0" "bits \<noteq> 0" and cur: "pxCurrentTCB (evkern s) = Some c"
    and w: "w \<noteq> 0 \<longrightarrow> uxSchedulerSuspended (evkern s) = 0 \<and> xIdleTaskHandle (evkern s) \<noteq> Some c"
  shows "ensures (xEventGroupWaitBits_enter h bits clear all w s) (\<lambda>(s', r, waits). event_inv s')"
proof (rule ensures_mono [OF xEventGroupWaitBits_enter_ensures [OF event_invD(1) [OF s] g bits cur w, of clear all]])
  fix r :: "event_os \<times> tick \<times> bool"
  assume r: "case r of (s', r, waits) \<Rightarrow> sys_inv (evkern s') \<and>
    (if prvTestWaitCondition (uxEventBits g) bits all
     then \<not> waits \<and> r = uxEventBits g \<and> still (evkern s) (evkern s') \<and> event_groups s' =
       (event_groups s)(h \<mapsto> if clear then g\<lparr>uxEventBits := uxEventBits g AND NOT bits\<rparr> else g)
     else if w = 0 then \<not> waits \<and> r = uxEventBits g \<and> still (evkern s) (evkern s') \<and> event_groups s' = event_groups s
     else waits \<and> asleep c h (request bits clear all) w (evkern s) (evkern s') \<and> event_groups s' = event_groups s)"
  obtain s' x waits where rr: "r = (s', x, waits)" by (cases r)
  from r rr have s': "sys_inv (evkern s')" by simp
  have "event_inv s'" if st: "still (evkern s) (evkern s')"
    and gs: "event_groups s' = event_groups s \<or> event_groups s' = (event_groups s)(h \<mapsto> g) \<or>
      event_groups s' = (event_groups s)(h \<mapsto> g\<lparr>uxEventBits := uxEventBits g AND NOT bits\<rparr>)"
    by (rule event_inv_fewer [OF s s' still_fewer [OF st]]) (use gs g in \<open>auto split: if_splits\<close>)
  moreover have "event_inv s'" if a: "asleep c h (request bits clear all) w (evkern s) (evkern s')"
    and gs: "event_groups s' = event_groups s" and no: "\<not> prvTestWaitCondition (uxEventBits g) bits all"
    by (rule asleep_inv [OF s s' g a gs waiting_bits [OF bits(1) no]])
  ultimately show "case r of (s', r, waits) \<Rightarrow> event_inv s'" using r rr by (auto split: if_splits)
qed

lemma event_value_fewer:
  assumes s: "sys_inv k" and run: "uxSchedulerSuspended k = 0" and cur: "pxCurrentTCB k = Some c"
  shows "fewer_waiters k (k_set_value (EventI c) v k)"
proof -
  have "event_list k c = None" using sys_blockable(1) [OF s run cur] by (simp add: blockable_def)
  then show ?thesis
    using member_iff(2) [OF sys_invD(2) [OF s], of c] by (auto simp: fewer_waiters_def list_frame list_set_value_def)
qed

lemma xEventGroupWaitBits_leave_inv:
  assumes s: "event_inv s" and g: "event_groups s h = Some g" and cur: "pxCurrentTCB (evkern s) = Some c"
    and run: "uxSchedulerSuspended (evkern s) = 0"
  shows "ensures (xEventGroupWaitBits_leave h bits clear all s) (\<lambda>(s', r). event_inv s' \<and>
    (let v = item_value (lists (evkern s)) (EventI c) in
     if v AND eventUNBLOCKED_DUE_TO_BIT_SET \<noteq> 0
     then r = v AND NOT eventEVENT_BITS_CONTROL_BYTES \<and> event_groups s' = event_groups s
     else r = uxEventBits g \<and> event_groups s' = (event_groups s)(h \<mapsto> if prvTestWaitCondition r bits all \<and> clear
             then g\<lparr>uxEventBits := uxEventBits g AND NOT bits\<rparr> else g)))"
proof -
  let ?k = "k_set_value (EventI c) (priority_value (prio (evkern s) c)) (evkern s)"
  let ?g = "if prvTestWaitCondition (uxEventBits g) bits all \<and> clear then g\<lparr>uxEventBits := uxEventBits g AND NOT bits\<rparr> else g"
  note si = event_invD(1) [OF s]
  have k: "sys_inv ?k" by (rule event_value_sys_inv [OF si])
  note f = event_value_fewer [OF si run cur]
  have "event_inv (s\<lparr>evkern := ?k\<rparr>)"
    by (rule event_inv_fewer [OF s]) (use k f in simp_all)
  moreover have "event_inv (set_group h ?g (s\<lparr>evkern := ?k\<rparr>))"
    by (rule event_inv_fewer [OF s]) (use k f g in \<open>auto split: if_splits\<close>)
  moreover have "uxEventBits g AND NOT eventEVENT_BITS_CONTROL_BYTES = uxEventBits g"
    using event_invD(2) [OF s g] by (intro no_control) (simp add: group_ok_def)
  ultimately show ?thesis using g by (simp add: wait_leave [OF cur] Let_def)
qed

end
