(* ===== verification/Event_Sync.thy ===== *)
theory Event_Sync
  imports Event_Proofs
begin

text \<open>
  Meeting at an event group, deleting one, and the runs of a system that uses event groups: a
  step relation over the calls and the tick, and the invariant along it.
\<close>

section \<open>Meeting\<close>

lemma sync_leave: "xEventGroupSync_leave h bits = xEventGroupWaitBits_leave h bits True True"
proof -
  have "prvTestWaitCondition b bits True \<longleftrightarrow> b AND bits = bits" for b by (simp add: prvTestWaitCondition_def)
  then show ?thesis
    unfolding xEventGroupSync_leave_def xEventGroupWaitBits_leave_def by (simp only: simp_thms fun_eq_iff)
qed

lemma event_inv_lock: "event_inv s \<Longrightarrow> event_inv (s\<lparr>evkern := vTaskSuspendAll (evkern s)\<rparr>)"
  by (rule event_inv_fewer) (auto simp: fewer_waiters_def sys_inv_lock dest: event_invD(1))

lemma handed_blockable:
  assumes h: "handed W v k k'" and s': "sys_inv k'" and b: "blockable k c" and susp: "uxSchedulerSuspended k \<noteq> 0"
  shows "blockable k' c"
proof -
  have cur: "pxCurrentTCB k' = Some c" using h b susp by (simp add: handed_def blockable_def)
  moreover have "ready k' c" using sys_invD(5) [OF s'] cur by (auto simp: current_ready_def)
  moreover have "event_list k' c = None" using h b by (cases "c \<in> W") (auto simp: handed_def blockable_def)
  ultimately show ?thesis using sys_invD(1) [OF s'] by (simp add: blockable_def)
qed

lemma unlock_handed:
  assumes s: "sys_inv k" and k1: "sys_inv k1" and h: "handed W v (vTaskSuspendAll k) k1"
  shows "ensures (group_unlock False (s\<lparr>evkern := k1\<rparr>)) (\<lambda>s'. sys_inv (evkern s') \<and> handed W v k (evkern s') \<and>
    event_groups s' = event_groups s)"
proof -
  have susp: "uxSchedulerSuspended k1 \<noteq> 0" using h by (simp add: handed_def)
  have "ensures (xTaskResumeAll k1) (\<lambda>(k', y). sys_inv k' \<and> undisturbed k1 k')"
    by (rule resume_undisturbed [OF k1 susp nothing_put_off_handed [OF h nothing_put_off_suspend [OF s]]])
  then show ?thesis
    by (auto simp: group_unlock_def case_prod_unfold elim!: ensures_mono intro: handed_undisturbed [OF h])
qed

text \<open>
  What a call to meet leaves: with all bits there, it returns them and everyone who waited for
  them is served; otherwise its own bits are set and it waits, or gives up at once.
\<close>

definition met :: "group_handle \<Rightarrow> tick \<Rightarrow> tick \<Rightarrow> tick \<Rightarrow> event_group \<Rightarrow> task \<Rightarrow> event_os \<Rightarrow> event_os \<Rightarrow> tick \<Rightarrow> bool \<Rightarrow> bool" where
  "met h b bits w g c s s' r waits \<longleftrightarrow>
     (let is = members (evkern s) (BitsL h); n = uxEventBits g OR b; W = satisfied_by n (evkern s) is;
          u = n OR eventUNBLOCKED_DUE_TO_BIT_SET; rest = n AND NOT (cleared_by n (evkern s) is) in
      if n AND bits = bits
      then \<not> waits \<and> r = n \<and> handed W u (evkern s) (evkern s') \<and>
        event_groups s' = (event_groups s)(h \<mapsto> g\<lparr>uxEventBits := rest AND NOT bits\<rparr>)
      else event_groups s' = (event_groups s)(h \<mapsto> g\<lparr>uxEventBits := rest\<rparr>) \<and>
        (if w = 0 then \<not> waits \<and> r = rest \<and> handed W u (evkern s) (evkern s')
         else waits \<and> (\<exists>k. handed W u (vTaskSuspendAll (evkern s)) k \<and>
           asleep c h (request bits True True) w k (evkern s'))))"

lemma xEventGroupSync_enter_ensures:
  assumes s: "event_inv s" and g: "event_groups s h = Some g" and b: "b AND eventEVENT_BITS_CONTROL_BYTES = 0"
    and bits: "bits AND eventEVENT_BITS_CONTROL_BYTES = 0" "bits \<noteq> 0" and cur: "pxCurrentTCB (evkern s) = Some c"
    and w: "w \<noteq> 0 \<longrightarrow> uxSchedulerSuspended (evkern s) = 0 \<and> xIdleTaskHandle (evkern s) \<noteq> Some c"
  shows "ensures (xEventGroupSync_enter h b bits w s) (\<lambda>(s', r, waits). event_inv s' \<and> met h b bits w g c s s' r waits)"
    (is "ensures _ ?Q")
proof -
  note si = event_invD(1) [OF s]
  let ?k = "vTaskSuspendAll (evkern s)" and ?is = "members (evkern s) (BitsL h)" and ?n = "uxEventBits g OR b"
  let ?s = "s\<lparr>evkern := ?k\<rparr>" and ?u = "?n OR eventUNBLOCKED_DUE_TO_BIT_SET"
  let ?W = "satisfied_by ?n (evkern s) ?is" and ?rest = "?n AND NOT (cleared_by ?n (evkern s) ?is)"
  let ?g = "g\<lparr>uxEventBits := ?rest\<rparr>"
  have a: "\<not> (xTaskGetSchedulerState (evkern s) = taskSCHEDULER_SUSPENDED \<and> w \<noteq> 0)"
    using w sys_invD(3) [OF si] by (auto simp: xTaskGetSchedulerState_def)
  have same: "satisfied_by ?n ?k ?is = ?W" "cleared_by ?n ?k ?is = cleared_by ?n (evkern s) ?is"
    by (intro walk_cong; simp)+
  let ?tail = "\<lambda>s1 g1. do { (s, r, w) \<leftarrow> (if ?n AND bits = bits
        then Some (set_group h (g1\<lparr>uxEventBits := uxEventBits g1 AND NOT bits\<rparr>) s1, ?n, 0)
        else if w \<noteq> 0
        then do { k \<leftarrow> vTaskPlaceOnUnorderedEventList (BitsL h)
             (bits OR eventCLEAR_EVENTS_ON_EXIT_BIT OR eventWAIT_FOR_ALL_BITS) w (evkern s1);
          Some (s1\<lparr>evkern := k\<rparr>, 0, w) }
        else Some (s1, uxEventBits g1, w));
      s \<leftarrow> group_unlock (w \<noteq> 0) s; Some (s, r, w \<noteq> 0) }"
  have "ensures (xEventGroupSetBits Some h b ?s) (\<lambda>(s1, r). ensures (do { g1 \<leftarrow> event_groups s1 h; ?tail s1 g1 }) ?Q)"
  proof (rule ensures_mono [OF xEventGroupSetBits_inv [OF event_inv_lock [OF s] _ b]])
    show "event_groups ?s h = Some g" using g by simp
    fix r :: "event_os \<times> tick"
    assume r: "case r of (s', x) \<Rightarrow> event_inv s' \<and> bits_set h b g ?s s' \<and> (\<exists>g'. event_groups s' h = Some g' \<and> x = uxEventBits g')"
    obtain s1 x where rr: "r = (s1, x)" by (cases r)
    from r rr have s1: "event_inv s1" and hd: "handed ?W ?u ?k (evkern s1)"
      and gs: "event_groups s1 = (event_groups s)(h \<mapsto> ?g)"
      by (simp_all add: bits_set_def Let_def same)
    note si1 = event_invD(1) [OF s1]
    have "ensures (?tail s1 ?g) ?Q"
    proof (cases "?n AND bits = bits")
      case True
      let ?gs = "\<lambda>s1. set_group h (?g\<lparr>uxEventBits := ?rest AND NOT bits\<rparr>) s1"
      have "ensures (group_unlock False (?gs s1)) (\<lambda>s'. event_inv s' \<and> met h b bits w g c s s' ?n False)"
      proof -
        have "?gs s1 = (?gs s1)\<lparr>evkern := evkern s1\<rparr>" by simp
        then have u: "ensures (group_unlock False (?gs s1)) (\<lambda>s'. sys_inv (evkern s') \<and> handed ?W ?u (evkern s) (evkern s') \<and>
            event_groups s' = event_groups (?gs s1))"
          using unlock_handed [OF si si1 hd, of "?gs s1"] by metis
        have bs: "event_inv s' \<and> met h b bits w g c s s' ?n False" if s': "sys_inv (evkern s')"
          "handed ?W ?u (evkern s) (evkern s')" "event_groups s' = event_groups (?gs s1)" for s' :: event_os
        proof -
          let ?s2 = "set_group h ?g s'"
          have "event_inv ?s2"
            by (rule bits_set_inv [OF s _ g b]) (use s' gs in \<open>simp_all add: bits_set_def Let_def\<close>)
          then have "event_inv s'"
            by (rule event_inv_fewer) (use s' gs in \<open>auto simp: fewer_waiters_def split: if_splits\<close>)
          then show ?thesis using s' gs True by (simp add: met_def Let_def)
        qed
        show ?thesis by (rule ensures_mono [OF u]) (use bs in blast)
      qed
      then show ?thesis using True by simp
    next
      case no: False
      show ?thesis
      proof (cases "w = 0")
        case True
        have s1k: "s1\<lparr>evkern := evkern s1\<rparr> = s1" by simp
        have u: "ensures (group_unlock False s1) (\<lambda>s'. sys_inv (evkern s') \<and> handed ?W ?u (evkern s) (evkern s') \<and>
            event_groups s' = event_groups s1)"
          using unlock_handed [OF si si1 hd, of s1] unfolding s1k .
        have "ensures (group_unlock False s1) (\<lambda>s'. event_inv s' \<and> met h b bits 0 g c s s' ?rest False)"
        proof (rule ensures_mono [OF u])
          fix s' :: event_os assume s': "sys_inv (evkern s') \<and> handed ?W ?u (evkern s) (evkern s') \<and> event_groups s' = event_groups s1"
          have "event_inv s'"
            by (rule bits_set_inv [OF s _ g b]) (use s' gs in \<open>simp_all add: bits_set_def Let_def\<close>)
          then show "event_inv s' \<and> met h b bits 0 g c s s' ?rest False"
            using s' gs no by (simp add: met_def Let_def)
        qed
        then show ?thesis using True no by simp
      next
        case False
        with w have run: "uxSchedulerSuspended (evkern s) = 0" and ni: "xIdleTaskHandle (evkern s) \<noteq> Some c" by simp_all
        have b1: "blockable (evkern s1) c"
          by (rule handed_blockable [OF hd si1 sys_blockable(2) [OF si run cur]]) simp
        have one: "uxSchedulerSuspended (evkern s1) = 1" and ni1: "xIdleTaskHandle (evkern s1) \<noteq> Some c"
          using hd run ni by (simp_all add: handed_def vTaskSuspendAll_def)
        have rq: "(bits OR eventCLEAR_EVENTS_ON_EXIT_BIT OR eventWAIT_FOR_ALL_BITS) OR taskEVENT_LIST_ITEM_VALUE_IN_USE =
          request bits True True" by (simp add: request_def or.assoc)
        have uns: "\<not> satisfied (request bits True True) ?rest"
        proof (rule waiting_bits [OF bits(1)])
          have "\<not> prvTestWaitCondition ?n bits True" using no by (simp add: prvTestWaitCondition_def)
          then show "\<not> prvTestWaitCondition ?rest bits True" using fewer_bits by blast
        qed
        have "ensures (vTaskPlaceOnUnorderedEventList (BitsL h)
            (bits OR eventCLEAR_EVENTS_ON_EXIT_BIT OR eventWAIT_FOR_ALL_BITS) w (evkern s1)) (\<lambda>k1.
          ensures (group_unlock True (s1\<lparr>evkern := k1\<rparr>)) (\<lambda>s'. event_inv s' \<and> met h b bits w g c s s' 0 True))"
        proof (rule ensures_mono [OF group_sleep_ensures [OF si1 one nothing_put_off_handed [OF hd nothing_put_off_suspend [OF si]] b1 ni1 False]],
            unfold rq)
          fix k1 assume "ensures (group_unlock True (s1\<lparr>evkern := k1\<rparr>)) (\<lambda>s'. sys_inv (evkern s') \<and>
            asleep c h (request bits True True) w (evkern s1) (evkern s') \<and> event_groups s' = event_groups s1)"
          then show "ensures (group_unlock True (s1\<lparr>evkern := k1\<rparr>)) (\<lambda>s'. event_inv s' \<and> met h b bits w g c s s' 0 True)"
          proof (rule ensures_mono, elim conjE)
            fix s' :: event_os assume s': "sys_inv (evkern s')" "asleep c h (request bits True True) w (evkern s1) (evkern s')"
              "event_groups s' = event_groups s1"
            have "event_inv s'"
              by (rule asleep_inv [OF s1 s'(1) _ s'(2,3), where g = ?g]) (use gs uns in simp_all)
            then show "event_inv s' \<and> met h b bits w g c s s' 0 True"
              using s' gs no False hd by (auto simp: met_def Let_def)
          qed
        qed
        then show ?thesis using no False by simp
      qed
    qed
    then show "case r of (s1, r) \<Rightarrow> ensures (do { g1 \<leftarrow> event_groups s1 h; ?tail s1 g1 }) ?Q"
      using gs rr by simp
  qed
  then show ?thesis
    using g bits a by (simp add: xEventGroupSync_enter_def Let_def case_prod_unfold)
qed

section \<open>A waiter and the setting that serves it\<close>

lemma asleep_not_ready:
  assumes s: "sys_inv k'" and a: "asleep c h v w k k'" shows "\<not> ready k' c"
proof
  assume "ready k' c"
  then have "event_list k' c = None \<or> event_list k' c = Some PendingReadyL"
    using task_okD(7) [OF kernel_core_task [OF sys_invD(2) [OF s]], of c] by (auto simp: ready_def)
  then show False using a by (simp add: asleep_def)
qed

lemma served_by_bits:
  assumes s: "event_inv s" and b: "bits_set h b g s s'"
    and sat: "satisfied (item_value (lists (evkern s)) (EventI t)) (uxEventBits g OR b)"
    and ev: "event_list (evkern s) t = Some (BitsL h)"
  shows "ready (evkern s') t"
    "item_value (lists (evkern s')) (EventI t) =
       ((uxEventBits g OR b) OR eventUNBLOCKED_DUE_TO_BIT_SET) OR taskEVENT_LIST_ITEM_VALUE_IN_USE"
proof -
  have "EventI t \<in> set (members (evkern s) (BitsL h))"
    using member_iff(2) [OF sys_invD(2) [OF event_invD(1) [OF s]]] ev by blast
  then have "t \<in> satisfied_by (uxEventBits g OR b) (evkern s) (members (evkern s) (BitsL h))"
    using sat by (force simp: satisfied_by_def)
  then show "ready (evkern s') t" "item_value (lists (evkern s')) (EventI t) =
       ((uxEventBits g OR b) OR eventUNBLOCKED_DUE_TO_BIT_SET) OR taskEVENT_LIST_ITEM_VALUE_IN_USE"
    using b by (simp_all add: bits_set_def handed_def Let_def)
qed

lemma handed_bits:
  assumes g: "group_ok k h g" and b: "b AND eventEVENT_BITS_CONTROL_BYTES = 0"
  defines "v \<equiv> ((uxEventBits g OR b) OR eventUNBLOCKED_DUE_TO_BIT_SET) OR taskEVENT_LIST_ITEM_VALUE_IN_USE"
  shows "v AND eventUNBLOCKED_DUE_TO_BIT_SET \<noteq> 0" "v AND NOT eventEVENT_BITS_CONTROL_BYTES = uxEventBits g OR b"
proof -
  have "v AND eventUNBLOCKED_DUE_TO_BIT_SET = eventUNBLOCKED_DUE_TO_BIT_SET"
    by (rule bit_word_eqI) (auto simp: v_def bit_and_iff bit_or_iff)
  then show "v AND eventUNBLOCKED_DUE_TO_BIT_SET \<noteq> 0" by (simp add: eventUNBLOCKED_DUE_TO_BIT_SET_def)
  have "(uxEventBits g OR b) AND NOT eventEVENT_BITS_CONTROL_BYTES = uxEventBits g OR b"
    using g b by (intro no_control) (simp add: group_ok_def bit.conj_disj_distrib2)
  then show "v AND NOT eventEVENT_BITS_CONTROL_BYTES = uxEventBits g OR b"
    by (simp add: v_def bit.conj_disj_distrib2 control_values)
qed

section \<open>Deleting a group\<close>

lemma delete_loop_ensures:
  assumes "sys_inv k" and "uxSchedulerSuspended k \<noteq> 0" and "members k (BitsL h) = ms"
  shows "ensures (delete_loop h k) (\<lambda>k'. sys_inv k' \<and> members k' (BitsL h) = [] \<and>
    handed (owner ` set ms) eventUNBLOCKED_DUE_TO_BIT_SET k k')"
  using assms
proof (induction ms arbitrary: k)
  case Nil
  then have "list_head (BitsL h) (lists k) = None" by (simp add: list_head_def)
  with Nil show ?case by (simp add: delete_loop.simps)
next
  case (Cons i ms)
  have core: "kernel_core k" using sys_invD [OF Cons.prems(1)] by blast
  have "i \<in> set (members k (BitsL h))" using Cons.prems(3) by simp
  from event_member [OF core this bits_list]
  obtain t where t: "i = EventI t" and ev: "event_list k t = Some (BitsL h)" by metis
  have d: "distinct (i # ms)"
    using lists_wf_distinct [OF lists_inv_wf [OF kernel_core_lists [OF core]], of "BitsL h"] Cons.prems(3) by simp
  have hd: "list_head (BitsL h) (lists k) = Some (EventI t)" using Cons.prems(3) t by (simp add: list_head_def)
  have "ensures (vTaskRemoveFromUnorderedEventList (EventI t) eventUNBLOCKED_DUE_TO_BIT_SET k)
    (\<lambda>k1. ensures (delete_loop h k1) (\<lambda>k'. sys_inv k' \<and> members k' (BitsL h) = [] \<and>
      handed (owner ` set (i # ms)) eventUNBLOCKED_DUE_TO_BIT_SET k k'))"
  proof (rule ensures_mono [OF vTaskRemoveFromUnorderedEventList_ensures [OF Cons.prems(1,2) ev]], elim conjE)
    fix k1 assume k1: "sys_inv k1" "handed {t} eventUNBLOCKED_DUE_TO_BIT_SET k k1"
    have m: "members k1 (BitsL h) = ms"
      using k1(2) Cons.prems(3) d t by (auto simp: handed_def filter_id_conv)
    have susp: "uxSchedulerSuspended k1 \<noteq> 0" using k1(2) Cons.prems(2) by (simp add: handed_def)
    show "ensures (delete_loop h k1) (\<lambda>k'. sys_inv k' \<and> members k' (BitsL h) = [] \<and>
      handed (owner ` set (i # ms)) eventUNBLOCKED_DUE_TO_BIT_SET k k')"
      by (rule ensures_mono [OF Cons.IH [OF k1(1) susp m]]) (use handed_trans [OF k1(2)] t in auto)
  qed
  then show ?case by (subst delete_loop.simps) (simp add: hd)
qed

lemma vEventGroupDelete_inv:
  assumes s: "event_inv s" and g: "event_groups s h = Some g"
  shows "ensures (vEventGroupDelete Some h s) (\<lambda>s'. event_inv s' \<and>
    handed (owner ` set (members (evkern s) (BitsL h))) eventUNBLOCKED_DUE_TO_BIT_SET (evkern s) (evkern s') \<and>
    event_groups s' = (if ucGroupStaticallyAllocated g then event_groups s else (event_groups s)(h := None)))"
    (is "ensures _ ?Q")
proof -
  note si = event_invD(1) [OF s]
  let ?k = "vTaskSuspendAll (evkern s)" and ?W = "owner ` set (members (evkern s) (BitsL h))"
  have m: "members ?k (BitsL h) = members (evkern s) (BitsL h)" by simp
  have "ensures (delete_loop h ?k) (\<lambda>k1. ensures (xTaskResumeAll k1) (\<lambda>(k', y).
    ensures (do { g \<leftarrow> event_groups s h; Some (if \<not> ucGroupStaticallyAllocated g
      then s\<lparr>evkern := k', event_groups := (event_groups s)(h := None)\<rparr> else s\<lparr>evkern := k'\<rparr>) }) ?Q))"
  proof (rule ensures_mono [OF delete_loop_ensures [OF sys_inv_lock [OF si] _ m]], simp, elim conjE)
    fix k1 assume k1: "sys_inv k1" "members k1 (BitsL h) = []" "handed ?W eventUNBLOCKED_DUE_TO_BIT_SET ?k k1"
    have susp: "uxSchedulerSuspended k1 \<noteq> 0" using k1(3) by (simp add: handed_def)
    show "ensures (xTaskResumeAll k1) (\<lambda>(k', y). ensures (do { g \<leftarrow> event_groups s h; Some (if \<not> ucGroupStaticallyAllocated g
      then s\<lparr>evkern := k', event_groups := (event_groups s)(h := None)\<rparr> else s\<lparr>evkern := k'\<rparr>) }) ?Q)"
    proof (rule ensures_mono [OF resume_undisturbed [OF k1(1) susp nothing_put_off_handed [OF k1(3) nothing_put_off_suspend [OF si]]]])
      fix r assume "case r of (k', y) \<Rightarrow> sys_inv k' \<and> undisturbed k1 k'"
      then obtain k' y where r: "r = (k', y)" "sys_inv k'" "undisturbed k1 k'" by auto
      have hd: "handed ?W eventUNBLOCKED_DUE_TO_BIT_SET (evkern s) k'" by (rule handed_undisturbed [OF k1(3) r(3)])
      have e: "members k' (BitsL h) = []" using k1(2) r(3) by (simp add: undisturbed_def)
      note f = handed_fewer [OF sys_invD(2) [OF si] hd]
      have "event_inv (s\<lparr>evkern := k'\<rparr>)"
        by (rule event_inv_fewer [OF s]) (use r(2) f in auto)
      moreover have "event_inv (s\<lparr>evkern := k', event_groups := (event_groups s)(h := None)\<rparr>)"
        by (rule event_inv_fewer [OF s]) (use r(2) f e in \<open>auto split: if_splits\<close>)
      ultimately show "case r of (k', y) \<Rightarrow> ensures (do { g \<leftarrow> event_groups s h; Some (if \<not> ucGroupStaticallyAllocated g
        then s\<lparr>evkern := k', event_groups := (event_groups s)(h := None)\<rparr> else s\<lparr>evkern := k'\<rparr>) }) ?Q"
        using g hd by (simp add: r(1))
    qed
  qed
  then show ?thesis
    using g by (cases "ucGroupStaticallyAllocated g") (simp_all add: vEventGroupDelete_def case_prod_unfold)
qed

section \<open>Creating a group\<close>

lemma init_group_inv:
  assumes s: "event_inv s" and e: "members (evkern s) (BitsL h) = []"
  shows "event_inv (init_group h g static s)"
proof -
  have wf: "lists_wf (lists (evkern s))"
    using lists_inv_wf [OF kernel_core_lists [OF sys_invD(2) [OF event_invD(1) [OF s]]]] .
  have "(evkern s)\<lparr>lists := list_init (BitsL h) (lists (evkern s))\<rparr> = evkern s"
    using list_init_empty [OF wf e] by simp
  then have i: "init_group h g static s = set_group h (g\<lparr>uxEventBits := 0, ucGroupStaticallyAllocated := static\<rparr>) s"
    by (simp add: init_group_def)
  show ?thesis
    unfolding i by (rule event_invI) (use event_invD [OF s] e in \<open>auto simp: group_ok_def split: if_splits\<close>)
qed

section \<open>Runs\<close>

text \<open>
  One step of a system with event groups: a call by the running task, a task that runs again
  after a wait, or a tick of the clock with the switch it asks for. A task that waits must not
  be the idle task and must not have locked the scheduler, as the code asserts.
\<close>

definition may_wait :: "tick \<Rightarrow> event_os \<Rightarrow> bool" where
  "may_wait w s \<longleftrightarrow> (w \<noteq> 0 \<longrightarrow> uxSchedulerSuspended (evkern s) = 0 \<and>
     xIdleTaskHandle (evkern s) \<noteq> pxCurrentTCB (evkern s))"

definition user_bits :: "tick \<Rightarrow> bool" where
  "user_bits b \<longleftrightarrow> b AND eventEVENT_BITS_CONTROL_BYTES = 0"

datatype event_call = Create_group group_handle event_group bool | Set_bits group_handle tick
  | Clear_bits group_handle tick | Wait_bits group_handle tick bool bool tick
  | Wake_up group_handle tick bool bool | Sync group_handle tick tick tick
  | Delete_group group_handle | Clock_tick

inductive event_step :: "event_os \<Rightarrow> event_call \<Rightarrow> event_os \<Rightarrow> bool" where
  step_create: "members (evkern s) (BitsL h) = [] \<Longrightarrow> event_step s (Create_group h g static) (init_group h g static s)"
| step_set: "event_groups s h \<noteq> None \<Longrightarrow> user_bits b \<Longrightarrow> xEventGroupSetBits Some h b s = Some (s', r) \<Longrightarrow>
    event_step s (Set_bits h b) s'"
| step_clear: "event_groups s h \<noteq> None \<Longrightarrow> user_bits b \<Longrightarrow> xEventGroupClearBits h b s = Some (s', r) \<Longrightarrow>
    event_step s (Clear_bits h b) s'"
| step_wait: "event_groups s h \<noteq> None \<Longrightarrow> user_bits b \<Longrightarrow> b \<noteq> 0 \<Longrightarrow> may_wait w s \<Longrightarrow>
    xEventGroupWaitBits_enter h b clear all w s = Some (s', r, waits) \<Longrightarrow> event_step s (Wait_bits h b clear all w) s'"
| step_wake: "event_groups s h \<noteq> None \<Longrightarrow> uxSchedulerSuspended (evkern s) = 0 \<Longrightarrow>
    xEventGroupWaitBits_leave h b clear all s = Some (s', r) \<Longrightarrow> event_step s (Wake_up h b clear all) s'"
| step_sync: "event_groups s h \<noteq> None \<Longrightarrow> user_bits a \<Longrightarrow> user_bits b \<Longrightarrow> b \<noteq> 0 \<Longrightarrow> may_wait w s \<Longrightarrow>
    xEventGroupSync_enter h a b w s = Some (s', r, waits) \<Longrightarrow> event_step s (Sync h a b w) s'"
| step_delete: "event_groups s h \<noteq> None \<Longrightarrow> vEventGroupDelete Some h s = Some s' \<Longrightarrow> event_step s (Delete_group h) s'"
| step_tick: "uxSchedulerSuspended (evkern s) = 0 \<Longrightarrow> vPortSystemTickHandler (\<lambda>k. Some (k, False)) 1 (evkern s) = Some k \<Longrightarrow>
    event_step s Clock_tick (s\<lparr>evkern := k\<rparr>)"

inductive event_run :: "event_os \<Rightarrow> event_os \<Rightarrow> bool" where
  run_start: "event_run s s"
| run_step: "event_run s s1 \<Longrightarrow> event_step s1 c s2 \<Longrightarrow> event_run s s2"

lemma ensures_result: "m = Some x \<Longrightarrow> ensures m Q \<Longrightarrow> Q x"
  by simp

lemma tick_fewer:
  assumes s: "sys_inv k" and run: "uxSchedulerSuspended k = 0"
  shows "ensures (vPortSystemTickHandler no_poll 1 k) (\<lambda>k'. fewer_waiters k k')"
proof -
  obtain c where c: "pxCurrentTCB k = Some c" "ready k c" using current_readyE [OF sys_invD(5) [OF s]] .
  have "ensures (xTaskIncrementTick k) (\<lambda>r. ensures (case r of (k1, sw) \<Rightarrow>
      if sw then vTaskSwitchContext k1 else Some k1) (\<lambda>k'. fewer_waiters k k'))"
  proof (rule xTaskIncrementTick_ensures [OF sys_invD(1) [OF s] c(1) run], unfold prod.case)
    fix k1 assume k1: "kernel_inv k1" "ticked (waking k) k k1" "same_lock k k1"
    let ?sw = "(\<exists>t \<in> waking k. prio k c < prio k t) \<or> 1 < length (members k1 (ReadyL (prio k c))) \<or> xYieldPending k"
    have f: "fewer_waiters k k1"
      using ticked_lists(3) [OF k1(2)] ticked_frame(3) [OF k1(2)] by (simp add: fewer_waiters_def)
    have "ready k1 c" using ready_ticked [OF k1(2)] c(2) by simp
    moreover have "uxSchedulerSuspended k1 = 0" using k1(3) run by (simp add: same_lock_def)
    ultimately have "ensures (vTaskSwitchContext k1) (\<lambda>k'. fewer_waiters k k')"
      by (intro vTaskSwitchContext_ensures [OF kernel_invD(1) [OF k1(1)]])
        (use f in \<open>auto simp: fewer_waiters_def switched_def\<close>)
    with f show "ensures (if ?sw then vTaskSwitchContext k1 else Some k1) (\<lambda>k'. fewer_waiters k k')" by simp
  qed
  then show ?thesis by (simp add: one_slice)
qed

lemma event_step_inv:
  assumes "event_step s c s'" and s: "event_inv s"
  shows "event_inv s'"
proof -
  obtain t where cur: "pxCurrentTCB (evkern s) = Some t"
    using current_readyE [OF sys_invD(5) [OF event_invD(1) [OF s]]] by blast
  from assms(1) show ?thesis
  proof cases
    case (step_create h g static)
    then show ?thesis using init_group_inv [OF s] by simp
  next
    case (step_set h b r)
    then obtain g where g: "event_groups s h = Some g" by blast
    from ensures_result [OF step_set(4) xEventGroupSetBits_inv [OF s g]] step_set show ?thesis by (simp add: user_bits_def)
  next
    case (step_clear h b r)
    then obtain g where g: "event_groups s h = Some g" by blast
    from ensures_result [OF step_clear(4) xEventGroupClearBits_inv [OF s g]] step_clear show ?thesis by (simp add: user_bits_def)
  next
    case (step_wait h b w clear all r waits)
    then obtain g where g: "event_groups s h = Some g" by blast
    from ensures_result [OF step_wait(6) xEventGroupWaitBits_enter_inv [OF s g _ _ cur]] step_wait cur show ?thesis
      by (simp add: user_bits_def may_wait_def)
  next
    case (step_wake h b clear all r)
    then obtain g where g: "event_groups s h = Some g" by blast
    from ensures_result [OF step_wake(4) xEventGroupWaitBits_leave_inv [OF s g cur]] step_wake show ?thesis by simp
  next
    case (step_sync h a b w r waits)
    then obtain g where g: "event_groups s h = Some g" by blast
    from ensures_result [OF step_sync(7) xEventGroupSync_enter_ensures [OF s g _ _ _ cur]] step_sync cur show ?thesis
      by (simp add: user_bits_def may_wait_def)
  next
    case (step_delete h)
    then obtain g where g: "event_groups s h = Some g" by blast
    from ensures_result [OF step_delete(3) vEventGroupDelete_inv [OF s g]] show ?thesis by simp
  next
    case (step_tick k)
    note si = event_invD(1) [OF s]
    have "ensures (vPortSystemTickHandler no_poll 1 (evkern s)) (\<lambda>k'. sys_inv k' \<and> (\<exists>k0. True \<and>
        (uxSchedulerSuspended k0 = 0 \<longrightarrow> (\<forall>t. ready k0 t \<or> t \<in> waking_by (unat (1 :: u32)) k0 \<longrightarrow> ready k' t))))"
      by (rule vPortSystemTickHandler_ensures) (simp add: si)
    from ensures_result [OF step_tick(4) this] have k: "sys_inv k" by blast
    have f: "fewer_waiters (evkern s) k"
      by (rule ensures_result [OF step_tick(4) tick_fewer [OF si step_tick(3)]])
    show ?thesis unfolding step_tick(2) by (rule event_inv_fewer [OF s]) (use k f in auto)
  qed
qed

lemma event_run_inv: "event_run s s' \<Longrightarrow> event_inv s \<Longrightarrow> event_inv s'"
  by (induction rule: event_run.induct) (auto intro: event_step_inv)

end
