(* ===== verification/Event_Example.thy ===== *)
theory Event_Example
  imports Event_Sync Task_Example
begin

text \<open>
  An event group in the small system: task 3 waits in group 0 until bits 0 and 1 are both set
  and wants them cleared, task 8 waits there for any of bits 1 and 2. Bit 0 is set already.
\<close>

lemma event_wait_sys_inv:
  assumes s: "sys_inv k" and ev: "event_list k t = None" and l: "is_event_list l" "l \<noteq> PendingReadyL"
    and st: "state_list k t \<noteq> None" "state_list k t \<noteq> Some TerminationL" "\<not> ready k t"
  shows "sys_inv (k\<lparr>lists := list_insert_end l (EventI t) (list_set_value (EventI t) v (lists k))\<rparr>)" (is "sys_inv ?k")
proof -
  note core = sys_invD(2) [OF s] and inv = sys_invD(1) [OF s]
  have li: "lists_inv (lists ?k)"
    using event_value_inv [OF core] ev l event_list_not_delayed by (simp add: list_frame)
  have "kernel_core ?k"
  proof (rule kernel_coreI [OF core, where t = t])
    have "state_list k t \<noteq> Some (ReadyL p)" for p
      using st(3) ready_iff [OF core] by blast
    then show "task_ok ?k t" using kernel_core_task [OF core, of t] l st by (auto simp: task_ok_def list_frame)
  qed (use li core in \<open>simp_all add: same_task_def kernel_core_def list_frame\<close>)
  moreover have "wake_ok ?k x" for x using kernel_invD(2) [OF inv, of x] by (simp add: wake_ok_def list_frame)
  moreover have "pending_ok ?k" "next_ok ?k"
    using kernel_invD(3,4) [OF inv] l by (simp_all add: pending_ok_def next_ok_def list_frame)
  ultimately have "kernel_inv ?k" by (simp add: kernel_inv_def)
  then show ?thesis
    using s by (simp add: sys_inv_def idle_ready_def current_ready_def caught_up_def settled_def ready_def list_frame)
qed

definition demo_group :: event_group where
  "demo_group = \<lparr>uxEventBits = 1, uxEventGroupNumber = 0, ucGroupStaticallyAllocated = False\<rparr>"

definition demo_waiters :: kernel where
  "demo_waiters = (let k = k_list_insert_end (BitsL 0) (EventI 3) (k_set_value (EventI 3) (request 3 True True) demo)
     in k_list_insert_end (BitsL 0) (EventI 8) (k_set_value (EventI 8) (request 6 False False) k))"

definition demo_events :: event_os where
  "demo_events = \<lparr>evkern = demo_waiters, event_groups = (\<lambda>_. None)(0 \<mapsto> demo_group)\<rparr>"

lemma demo_waiters_lists:
  "lists demo_waiters = demo_lists\<lparr>items := (items demo_lists)(BitsL 0 := [EventI 3, EventI 8]),
     item_value := (item_value demo_lists)(EventI 3 := request 3 True True, EventI 8 := request 6 False False),
     container := (container demo_lists)(EventI 3 \<mapsto> BitsL 0, EventI 8 \<mapsto> BitsL 0)\<rparr>"
  by (simp add: demo_waiters_def Let_def list_insert_end_def list_set_value_def insert_before_def fun_upd_twist)

lemma demo_waiters_fields [simp]:
  "tcbs demo_waiters = tcbs demo" "pxCurrentTCB demo_waiters = Some 1" "xIdleTaskHandle demo_waiters = Some 9"
  "uxSchedulerSuspended demo_waiters = 0" "xTickCount demo_waiters = 3" "xPendedTicks demo_waiters = 0"
  by (simp_all add: demo_waiters_def Let_def)

lemma demo_waiters_inv: "sys_inv demo_waiters"
proof -
  let ?k = "k_list_insert_end (BitsL 0) (EventI 3) (k_set_value (EventI 3) (request 3 True True) demo)"
  have 1: "sys_inv (demo\<lparr>lists := list_insert_end (BitsL 0) (EventI 3) (list_set_value (EventI 3) (request 3 True True) (lists demo))\<rparr>)"
    by (rule event_wait_sys_inv [OF demo_inv]) (simp_all add: ready_def)
  have "sys_inv (?k\<lparr>lists := list_insert_end (BitsL 0) (EventI 8) (list_set_value (EventI 8) (request 6 False False) (lists ?k))\<rparr>)"
    by (rule event_wait_sys_inv) (use 1 in \<open>simp_all add: ready_def list_frame\<close>)
  then show ?thesis by (simp add: demo_waiters_def Let_def)
qed

lemma demo_user_bits:
  "(1 :: tick) AND eventEVENT_BITS_CONTROL_BYTES = 0" "(2 :: tick) AND eventEVENT_BITS_CONTROL_BYTES = 0"
  "(3 :: tick) AND eventEVENT_BITS_CONTROL_BYTES = 0" "(6 :: tick) AND eventEVENT_BITS_CONTROL_BYTES = 0"
  unfolding eventEVENT_BITS_CONTROL_BYTES_def by simp_all

lemma demo_requests:
  "satisfied (request 3 True True) b = (b AND 3 = 3)" "satisfied (request 6 False False) b = (b AND 6 \<noteq> 0)"
  "clears (request 3 True True) = 3" "clears (request 6 False False) = 0"
  using satisfied_request [OF demo_user_bits(3)] satisfied_request [OF demo_user_bits(4)]
  by (simp_all add: prvTestWaitCondition_def)

lemma demo_events_fields [simp]:
  "evkern demo_events = demo_waiters" "event_groups demo_events h = (if h = 0 then Some demo_group else None)"
  "uxEventBits demo_group = 1" "\<not> ucGroupStaticallyAllocated demo_group"
  by (simp_all add: demo_events_def demo_group_def)

lemma demo_events_inv: "event_inv demo_events"
  by (rule event_invI) (auto simp: demo_waiters_inv group_ok_def demo_waiters_lists demo_requests demo_user_bits split: if_splits)

end
