(* ===== verification/Stream_State.thy ===== *)
theory Stream_State
  imports Queue_State
begin

text \<open>
  The buffer of stream_buffer.c: a ring of bytes with a read and a write position, of which one
  place always stays free. A message buffer is the same ring; each message in it is preceded by
  its length. Sizes are \<open>size_t\<close>, 64 bits, given as naturals. A difference that may be
  negative, and a sum of which a member is the caller's, is written with its wrap-around; the
  other sums are of positions in an area that exists.
\<close>

definition size_sub :: "nat \<Rightarrow> nat \<Rightarrow> nat" where
  "size_sub a b = (if b \<le> a then a - b else 2 ^ 64 + a - b)"

definition size_add :: "nat \<Rightarrow> nat \<Rightarrow> nat" where
  "size_add a b = (a + b) mod 2 ^ 64"

lemma size_sub_le [simp]: "b \<le> a \<Longrightarrow> size_sub a b = a - b"
  by (simp add: size_sub_def)

definition sbFLAGS_IS_MESSAGE_BUFFER :: byte where "sbFLAGS_IS_MESSAGE_BUFFER = 1"
definition sbFLAGS_IS_STATICALLY_ALLOCATED :: byte where "sbFLAGS_IS_STATICALLY_ALLOCATED = 2"
definition sbFLAGS_IS_BATCHING_BUFFER :: byte where "sbFLAGS_IS_BATCHING_BUFFER = 4"

text \<open>\<open>configMESSAGE_BUFFER_LENGTH_TYPE\<close> is \<open>size_t\<close>, stored in the host's byte order (little-endian).\<close>

definition sbBYTES_TO_STORE_MESSAGE_LENGTH :: nat where "sbBYTES_TO_STORE_MESSAGE_LENGTH = 8"

definition size_bytes :: "nat \<Rightarrow> byte list" where
  "size_bytes n = le_bytes sbBYTES_TO_STORE_MESSAGE_LENGTH n"

definition size_of_bytes :: "byte list \<Rightarrow> nat" where
  "size_of_bytes bs = of_le_bytes bs"

record stream_buffer =
  xTail :: nat
  xHead :: nat
  xLength :: nat
  xTriggerLevelBytes :: nat
  xTaskWaitingToReceive :: "task_handle option"
  xTaskWaitingToSend :: "task_handle option"
  pucBuffer :: "byte list"
  ucFlags :: byte
  uxStreamBufferNumber :: nat
  uxNotificationIndex :: nat

definition is_message_buffer :: "stream_buffer \<Rightarrow> bool" where
  "is_message_buffer b \<longleftrightarrow> ucFlags b AND sbFLAGS_IS_MESSAGE_BUFFER \<noteq> 0"

definition is_batching_buffer :: "stream_buffer \<Rightarrow> bool" where
  "is_batching_buffer b \<longleftrightarrow> ucFlags b AND sbFLAGS_IS_BATCHING_BUFFER \<noteq> 0"

section \<open>Operations on the ring\<close>

definition prvBytesInBuffer :: "stream_buffer \<Rightarrow> nat" where
  "prvBytesInBuffer b =
     (let xCount = xLength b + xHead b;
          xCount = size_sub xCount (xTail b)
      in if xCount \<ge> xLength b then xCount - xLength b else xCount)"

text \<open>
  \<open>xStreamBufferSpacesAvailable\<close> reads the tail again until it has not changed; nothing comes
  between the two reads here.
\<close>

definition spaces_available :: "stream_buffer \<Rightarrow> nat" where
  "spaces_available b =
     (let xSpace = xLength b + xTail b;
          xSpace = size_sub xSpace (xHead b);
          xSpace = size_sub xSpace 1
      in if xSpace \<ge> xLength b then xSpace - xLength b else xSpace)"

definition prvWriteBytesToBuffer :: "byte list \<Rightarrow> nat \<Rightarrow> nat \<Rightarrow> stream_buffer \<Rightarrow> (stream_buffer \<times> nat) option" where
  "prvWriteBytesToBuffer pucData xCount head b = do {
     configASSERT (xCount > 0);
     let xFirstLength = min (xLength b - head) xCount;
     configASSERT (head + xFirstLength \<le> xLength b);
     mem \<leftarrow> memcpy_to (int head) xFirstLength pucData (pucBuffer b);
     mem \<leftarrow> (if xCount > xFirstLength
       then do {
         configASSERT (xCount - xFirstLength \<le> xLength b);
         memcpy_to 0 (xCount - xFirstLength) (drop xFirstLength pucData) mem }
       else Some mem);
     let head = head + xCount;
     let head = (if head \<ge> xLength b then head - xLength b else head);
     Some (b\<lparr>pucBuffer := mem\<rparr>, head) }"

text \<open>The bytes are those copied to the caller's memory.\<close>

definition prvReadBytesFromBuffer :: "nat \<Rightarrow> nat \<Rightarrow> stream_buffer \<Rightarrow> (byte list \<times> nat) option" where
  "prvReadBytesFromBuffer xCount tail b = do {
     configASSERT (xCount \<noteq> 0);
     let xFirstLength = min (xLength b - tail) xCount;
     configASSERT (xFirstLength \<le> xCount);
     configASSERT (tail + xFirstLength \<le> xLength b);
     bytes \<leftarrow> memcpy_from (int tail) xFirstLength (pucBuffer b);
     more \<leftarrow> (if xCount > xFirstLength then memcpy_from 0 (xCount - xFirstLength) (pucBuffer b) else Some []);
     let tail = tail + xCount;
     let tail = (if tail \<ge> xLength b then tail - xLength b else tail);
     Some (bytes @ more, tail) }"

text \<open>The number is how many bytes of the caller's were stored.\<close>

definition prvWriteMessageToBuffer ::
    "byte list \<Rightarrow> nat \<Rightarrow> nat \<Rightarrow> nat \<Rightarrow> stream_buffer \<Rightarrow> (stream_buffer \<times> nat) option" where
  "prvWriteMessageToBuffer pvTxData xDataLengthBytes xSpace xRequiredSpace b = do {
     let xNextHead = xHead b;
     (b, xNextHead, xDataLengthBytes) \<leftarrow>
       (if is_message_buffer b
        then do {
          configASSERT (xDataLengthBytes mod 2 ^ 64 = xDataLengthBytes);
          if xSpace \<ge> xRequiredSpace
          then do {
            (b, xNextHead) \<leftarrow> prvWriteBytesToBuffer (size_bytes xDataLengthBytes) sbBYTES_TO_STORE_MESSAGE_LENGTH xNextHead b;
            Some (b, xNextHead, xDataLengthBytes) }
          else Some (b, xNextHead, 0) }
        else Some (b, xNextHead, min xDataLengthBytes xSpace));
     b \<leftarrow> (if xDataLengthBytes \<noteq> 0
       then do {
         (b, head) \<leftarrow> prvWriteBytesToBuffer pvTxData xDataLengthBytes xNextHead b;
         Some (b\<lparr>xHead := head\<rparr>) }
       else Some b);
     Some (b, xDataLengthBytes) }"

definition prvReadMessageFromBuffer :: "nat \<Rightarrow> nat \<Rightarrow> stream_buffer \<Rightarrow> (stream_buffer \<times> byte list) option" where
  "prvReadMessageFromBuffer xBufferLengthBytes xBytesAvailable b = do {
     let xNextTail = xTail b;
     (xNextTail, xNextMessageLength, xBytesAvailable) \<leftarrow>
       (if is_message_buffer b
        then do {
          (bytes, xNextTail) \<leftarrow> prvReadBytesFromBuffer sbBYTES_TO_STORE_MESSAGE_LENGTH xNextTail b;
          let xNextMessageLength = size_of_bytes bytes;
          let xBytesAvailable = size_sub xBytesAvailable sbBYTES_TO_STORE_MESSAGE_LENGTH;
          Some (xNextTail, if xNextMessageLength > xBufferLengthBytes then 0 else xNextMessageLength, xBytesAvailable) }
        else Some (xNextTail, xBufferLengthBytes, xBytesAvailable));
     let xCount = min xNextMessageLength xBytesAvailable;
     if xCount \<noteq> 0
     then do {
       (bytes, tail) \<leftarrow> prvReadBytesFromBuffer xCount xNextTail b;
       Some (b\<lparr>xTail := tail\<rparr>, bytes) }
     else Some (b, []) }"

definition next_message_length :: "stream_buffer \<Rightarrow> nat option" where
  "next_message_length b =
     (if is_message_buffer b
      then do {
        let xBytesAvailable = prvBytesInBuffer b;
        if xBytesAvailable > sbBYTES_TO_STORE_MESSAGE_LENGTH
        then do {
          (bytes, _) \<leftarrow> prvReadBytesFromBuffer sbBYTES_TO_STORE_MESSAGE_LENGTH (xTail b) b;
          Some (size_of_bytes bytes) }
        else do { configASSERT (xBytesAvailable = 0); Some 0 } }
      else Some 0)"

text \<open>
  The storage area is filled with a pattern first (it must be that long); the structure is
  cleared and its members set. \<open>tskDEFAULT_INDEX_TO_NOTIFY\<close> is 0.
\<close>

definition prvInitialiseNewStreamBuffer :: "byte list \<Rightarrow> nat \<Rightarrow> nat \<Rightarrow> byte \<Rightarrow> stream_buffer option" where
  "prvInitialiseNewStreamBuffer area xBufferSizeBytes trigger flags =
     (if xBufferSizeBytes \<le> length area
      then Some \<lparr>xTail = 0, xHead = 0, xLength = xBufferSizeBytes, xTriggerLevelBytes = trigger,
        xTaskWaitingToReceive = None, xTaskWaitingToSend = None,
        pucBuffer = replicate xBufferSizeBytes 0x55 @ drop xBufferSizeBytes area, ucFlags = flags,
        uxStreamBufferNumber = 0, uxNotificationIndex = 0\<rparr>
      else None)"

end
