(* ===== verification/Stream_Ops.thy ===== *)
theory Stream_Ops
  imports Stream_State Task_Info
begin

text \<open>
  stream_buffer.c on the state \<open>stream_os\<close>: the kernel of tasks.c and the stream and message
  buffers that exist (a handle without a buffer is NULL or stale: \<open>None\<close>). A buffer has one
  writer and one reader, so that writing and reading need no lock; a task that has to wait
  leaves its handle in the buffer and waits for a notification.

  Between the steps of a call other tasks and interrupts may run: an environment \<open>sb_env\<close> says
  what they do at each of the named points. A sender waits in rounds and takes one environment
  for each; with the list used up, the call still waits.
\<close>

type_synonym stream_handle = nat

record stream_os =
  skern :: kernel
  buffers :: "stream_handle \<Rightarrow> stream_buffer option"

datatype sb_point = Registered | Announced | Asleep | Running | Transferred

type_synonym sb_env = "sb_point \<Rightarrow> stream_os \<Rightarrow> stream_os option"

abbreviation set_buffer :: "stream_handle \<Rightarrow> stream_buffer \<Rightarrow> stream_os \<Rightarrow> stream_os" where
  "set_buffer h b s \<equiv> s\<lparr>buffers := (buffers s)(h \<mapsto> b)\<rparr>"

datatype stream_type = sbTYPE_STREAM_BUFFER | sbTYPE_MESSAGE_BUFFER | sbTYPE_STREAM_BATCHING_BUFFER

section \<open>Creation and deletion\<close>

text \<open>
  \<open>sizeof(StreamBuffer_t)\<close> on a 64-bit host. \<open>pvMalloc\<close> is the allocator: for a number of bytes
  the handle and the storage area behind the structure.
\<close>

definition sizeof_StreamBuffer :: nat where "sizeof_StreamBuffer = 80"

definition stream_flags :: "stream_type \<Rightarrow> byte" where
  "stream_flags ty = (case ty of
       sbTYPE_MESSAGE_BUFFER \<Rightarrow> sbFLAGS_IS_MESSAGE_BUFFER
     | sbTYPE_STREAM_BATCHING_BUFFER \<Rightarrow> sbFLAGS_IS_BATCHING_BUFFER
     | sbTYPE_STREAM_BUFFER \<Rightarrow> 0)"

definition xStreamBufferGenericCreate ::
    "(nat \<Rightarrow> (stream_handle \<times> byte list) option) \<Rightarrow> nat \<Rightarrow> nat \<Rightarrow> stream_type \<Rightarrow> stream_os \<Rightarrow>
     (stream_os \<times> stream_handle option) option" where
  "xStreamBufferGenericCreate pvMalloc xBufferSizeBytes xTriggerLevel xStreamBufferType s = do {
     configASSERT (xBufferSizeBytes >
       (if xStreamBufferType = sbTYPE_MESSAGE_BUFFER then sbBYTES_TO_STORE_MESSAGE_LENGTH else 0));
     configASSERT (xTriggerLevel \<le> xBufferSizeBytes);
     let xTriggerLevel = (if xTriggerLevel = 0 then 1 else xTriggerLevel);
     let (xBufferSizeBytes, pvAllocatedMemory) =
       (if xBufferSizeBytes < size_add (size_add xBufferSizeBytes 1) sizeof_StreamBuffer
        then (size_add xBufferSizeBytes 1, pvMalloc (size_add (size_add xBufferSizeBytes 1) sizeof_StreamBuffer))
        else (xBufferSizeBytes, None));
     case pvAllocatedMemory of
       None \<Rightarrow> Some (s, None)
     | Some (h, area) \<Rightarrow> do {
         b \<leftarrow> prvInitialiseNewStreamBuffer area xBufferSizeBytes xTriggerLevel (stream_flags xStreamBufferType);
         Some (set_buffer h b s, Some h) } }"

definition xStreamBufferGenericCreateStatic ::
    "nat \<Rightarrow> nat \<Rightarrow> stream_type \<Rightarrow> byte list option \<Rightarrow> stream_handle option \<Rightarrow> stream_os \<Rightarrow>
     (stream_os \<times> stream_handle option) option" where
  "xStreamBufferGenericCreateStatic xBufferSizeBytes xTriggerLevel xStreamBufferType
     pucStreamBufferStorageArea pxStaticStreamBuffer s = do {
     configASSERT (pucStreamBufferStorageArea \<noteq> None);
     configASSERT (pxStaticStreamBuffer \<noteq> None);
     configASSERT (xTriggerLevel \<le> xBufferSizeBytes);
     let xTriggerLevel = (if xTriggerLevel = 0 then 1 else xTriggerLevel);
     let flags = stream_flags xStreamBufferType OR sbFLAGS_IS_STATICALLY_ALLOCATED;
     (case xStreamBufferType of
         sbTYPE_MESSAGE_BUFFER \<Rightarrow> configASSERT (xBufferSizeBytes > sbBYTES_TO_STORE_MESSAGE_LENGTH)
       | sbTYPE_STREAM_BATCHING_BUFFER \<Rightarrow> configASSERT (xBufferSizeBytes > 0)
       | sbTYPE_STREAM_BUFFER \<Rightarrow> Some ());
     area \<leftarrow> pucStreamBufferStorageArea;
     h \<leftarrow> pxStaticStreamBuffer;
     b \<leftarrow> prvInitialiseNewStreamBuffer area xBufferSizeBytes xTriggerLevel flags;
     let b = b\<lparr>ucFlags := ucFlags b OR sbFLAGS_IS_STATICALLY_ALLOCATED\<rparr>;
     Some (set_buffer h b s, Some h) }"

text \<open>The result is the storage area, given together with the handle, if the buffer is static.\<close>

definition xStreamBufferGetStaticBuffers :: "stream_handle \<Rightarrow> stream_os \<Rightarrow> (byte list \<times> stream_handle) option option" where
  "xStreamBufferGetStaticBuffers h s = do {
     b \<leftarrow> buffers s h;
     Some (if ucFlags b AND sbFLAGS_IS_STATICALLY_ALLOCATED \<noteq> 0 then Some (pucBuffer b, h) else None) }"

text \<open>A static buffer is only cleared, so that a use of it fails.\<close>

definition cleared_buffer :: stream_buffer where
  "cleared_buffer = \<lparr>xTail = 0, xHead = 0, xLength = 0, xTriggerLevelBytes = 0,
     xTaskWaitingToReceive = None, xTaskWaitingToSend = None, pucBuffer = [], ucFlags = 0,
     uxStreamBufferNumber = 0, uxNotificationIndex = 0\<rparr>"

definition vStreamBufferDelete :: "stream_handle \<Rightarrow> stream_os \<Rightarrow> stream_os option" where
  "vStreamBufferDelete h s = do {
     b \<leftarrow> buffers s h;
     Some (if ucFlags b AND sbFLAGS_IS_STATICALLY_ALLOCATED = 0
           then s\<lparr>buffers := (buffers s)(h := None)\<rparr> else set_buffer h cleared_buffer s) }"

text \<open>From tasks and from interrupts; the storage area of the same length is filled anew.\<close>

definition xStreamBufferReset :: "stream_handle \<Rightarrow> stream_os \<Rightarrow> (stream_os \<times> bool) option" where
  "xStreamBufferReset h s = do {
     b \<leftarrow> buffers s h;
     let uxNumber = uxStreamBufferNumber b;
     if xTaskWaitingToReceive b = None \<and> xTaskWaitingToSend b = None
     then do {
       b \<leftarrow> prvInitialiseNewStreamBuffer (pucBuffer b) (xLength b) (xTriggerLevelBytes b) (ucFlags b);
       Some (set_buffer h (b\<lparr>uxStreamBufferNumber := uxNumber\<rparr>) s, True) }
     else Some (s, False) }"

definition xStreamBufferResetFromISR :: "stream_handle \<Rightarrow> stream_os \<Rightarrow> (stream_os \<times> bool) option" where
  "xStreamBufferResetFromISR h s = do {
     b \<leftarrow> buffers s h;
     let uxNumber = uxStreamBufferNumber b;
     if xTaskWaitingToReceive b = None \<and> xTaskWaitingToSend b = None
     then do {
       b \<leftarrow> prvInitialiseNewStreamBuffer (pucBuffer b) (xLength b) (xTriggerLevelBytes b) (ucFlags b);
       Some (set_buffer h (b\<lparr>uxStreamBufferNumber := uxNumber\<rparr>) s, True) }
     else Some (s, False) }"

definition xStreamBufferSetTriggerLevel :: "stream_handle \<Rightarrow> nat \<Rightarrow> stream_os \<Rightarrow> (stream_os \<times> bool) option" where
  "xStreamBufferSetTriggerLevel h xTriggerLevel s = do {
     b \<leftarrow> buffers s h;
     let xTriggerLevel = (if xTriggerLevel = 0 then 1 else xTriggerLevel);
     Some (if xTriggerLevel < xLength b
           then (set_buffer h (b\<lparr>xTriggerLevelBytes := xTriggerLevel\<rparr>) s, True) else (s, False)) }"

section \<open>Looking at a buffer\<close>

definition xStreamBufferSpacesAvailable :: "stream_handle \<Rightarrow> stream_os \<Rightarrow> nat option" where
  "xStreamBufferSpacesAvailable h s = do { b \<leftarrow> buffers s h; Some (spaces_available b) }"

definition xStreamBufferBytesAvailable :: "stream_handle \<Rightarrow> stream_os \<Rightarrow> nat option" where
  "xStreamBufferBytesAvailable h s = do { b \<leftarrow> buffers s h; Some (prvBytesInBuffer b) }"

definition xStreamBufferNextMessageLengthBytes :: "stream_handle \<Rightarrow> stream_os \<Rightarrow> nat option" where
  "xStreamBufferNextMessageLengthBytes h s = do { b \<leftarrow> buffers s h; next_message_length b }"

definition xStreamBufferIsEmpty :: "stream_handle \<Rightarrow> stream_os \<Rightarrow> bool option" where
  "xStreamBufferIsEmpty h s = do { b \<leftarrow> buffers s h; Some (xHead b = xTail b) }"

definition xStreamBufferIsFull :: "stream_handle \<Rightarrow> stream_os \<Rightarrow> bool option" where
  "xStreamBufferIsFull h s = do {
     b \<leftarrow> buffers s h;
     let xBytesToStoreMessageLength = (if is_message_buffer b then sbBYTES_TO_STORE_MESSAGE_LENGTH else 0);
     Some (spaces_available b \<le> xBytesToStoreMessageLength) }"

definition uxStreamBufferGetStreamBufferNotificationIndex :: "stream_handle \<Rightarrow> stream_os \<Rightarrow> nat option" where
  "uxStreamBufferGetStreamBufferNotificationIndex h s = do { b \<leftarrow> buffers s h; Some (uxNotificationIndex b) }"

definition vStreamBufferSetStreamBufferNotificationIndex :: "stream_handle \<Rightarrow> nat \<Rightarrow> stream_os \<Rightarrow> stream_os option" where
  "vStreamBufferSetStreamBufferNotificationIndex h i s = do {
     b \<leftarrow> buffers s h;
     configASSERT (xTaskWaitingToReceive b = None);
     configASSERT (xTaskWaitingToSend b = None);
     configASSERT (i < configTASK_NOTIFICATION_ARRAY_ENTRIES);
     Some (set_buffer h (b\<lparr>uxNotificationIndex := i\<rparr>) s) }"

definition uxStreamBufferGetStreamBufferNumber :: "stream_handle \<Rightarrow> stream_os \<Rightarrow> nat option" where
  "uxStreamBufferGetStreamBufferNumber h s = do { b \<leftarrow> buffers s h; Some (uxStreamBufferNumber b) }"

definition vStreamBufferSetStreamBufferNumber :: "stream_handle \<Rightarrow> nat \<Rightarrow> stream_os \<Rightarrow> stream_os option" where
  "vStreamBufferSetStreamBufferNumber h n s = do {
     b \<leftarrow> buffers s h;
     Some (set_buffer h (b\<lparr>uxStreamBufferNumber := n\<rparr>) s) }"

definition ucStreamBufferGetStreamBufferType :: "stream_handle \<Rightarrow> stream_os \<Rightarrow> byte option" where
  "ucStreamBufferGetStreamBufferType h s = do {
     b \<leftarrow> buffers s h; Some (ucFlags b AND sbFLAGS_IS_MESSAGE_BUFFER) }"

section \<open>Waking the other side\<close>

datatype sb_side = Receiver | Sender

fun sb_waiting :: "sb_side \<Rightarrow> stream_buffer \<Rightarrow> task_handle option" where
  "sb_waiting Receiver b = xTaskWaitingToReceive b"
| "sb_waiting Sender b = xTaskWaitingToSend b"

fun set_sb_waiting :: "sb_side \<Rightarrow> task_handle option \<Rightarrow> stream_buffer \<Rightarrow> stream_buffer" where
  "set_sb_waiting Receiver t b = b\<lparr>xTaskWaitingToReceive := t\<rparr>"
| "set_sb_waiting Sender t b = b\<lparr>xTaskWaitingToSend := t\<rparr>"

text \<open>\<open>sbSEND_COMPLETED\<close> wakes a waiting receiver, \<open>sbRECEIVE_COMPLETED\<close> a waiting sender.\<close>

definition sb_completed :: "sb_side \<Rightarrow> stream_handle \<Rightarrow> stream_os \<Rightarrow> stream_os option" where
  "sb_completed d h s = do {
     let k = vTaskSuspendAll (skern s);
     b \<leftarrow> buffers s h;
     (k, b) \<leftarrow> (case sb_waiting d b of
         Some t \<Rightarrow> do {
           (k, _) \<leftarrow> xTaskGenericNotify t (uxNotificationIndex b) 0 eNoAction k;
           Some (k, set_sb_waiting d None b) }
       | None \<Rightarrow> Some (k, b));
     (k, _) \<leftarrow> xTaskResumeAll k;
     Some (set_buffer h b (s\<lparr>skern := k\<rparr>)) }"

definition sbSEND_COMPLETED :: "stream_handle \<Rightarrow> stream_os \<Rightarrow> stream_os option" where
  "sbSEND_COMPLETED = sb_completed Receiver"

definition sbRECEIVE_COMPLETED :: "stream_handle \<Rightarrow> stream_os \<Rightarrow> stream_os option" where
  "sbRECEIVE_COMPLETED = sb_completed Sender"

text \<open>From interrupts: whether a task waited, and whether it outranks the running one.\<close>

definition sb_completed_from_isr :: "sb_side \<Rightarrow> stream_handle \<Rightarrow> stream_os \<Rightarrow> (stream_os \<times> bool \<times> bool) option" where
  "sb_completed_from_isr d h s = do {
     b \<leftarrow> buffers s h;
     case sb_waiting d b of
       Some t \<Rightarrow> do {
         (k, _, _, woken) \<leftarrow> xTaskGenericNotifyFromISR t (uxNotificationIndex b) 0 eNoAction (skern s);
         Some (set_buffer h (set_sb_waiting d None b) (s\<lparr>skern := k\<rparr>), True, woken) }
     | None \<Rightarrow> Some (s, False, False) }"

definition sbSEND_COMPLETE_FROM_ISR :: "stream_handle \<Rightarrow> stream_os \<Rightarrow> (stream_os \<times> bool) option" where
  "sbSEND_COMPLETE_FROM_ISR h s = do { (s, _, woken) \<leftarrow> sb_completed_from_isr Receiver h s; Some (s, woken) }"

definition sbRECEIVE_COMPLETED_FROM_ISR :: "stream_handle \<Rightarrow> stream_os \<Rightarrow> (stream_os \<times> bool) option" where
  "sbRECEIVE_COMPLETED_FROM_ISR h s = do { (s, _, woken) \<leftarrow> sb_completed_from_isr Sender h s; Some (s, woken) }"

definition xStreamBufferSendCompletedFromISR :: "stream_handle \<Rightarrow> stream_os \<Rightarrow> (stream_os \<times> bool \<times> bool) option" where
  "xStreamBufferSendCompletedFromISR = sb_completed_from_isr Receiver"

definition xStreamBufferReceiveCompletedFromISR :: "stream_handle \<Rightarrow> stream_os \<Rightarrow> (stream_os \<times> bool \<times> bool) option" where
  "xStreamBufferReceiveCompletedFromISR = sb_completed_from_isr Sender"

section \<open>Waiting\<close>

text \<open>The caller becomes the task that waits; a notification from before is forgotten.\<close>

definition sb_register :: "sb_side \<Rightarrow> stream_handle \<Rightarrow> stream_os \<Rightarrow> stream_os option" where
  "sb_register d h s = do {
     b \<leftarrow> buffers s h;
     (k, _) \<leftarrow> xTaskGenericNotifyStateClear None (uxNotificationIndex b) (skern s);
     configASSERT (sb_waiting d b = None);
     Some (set_buffer h (set_sb_waiting d (xTaskGetCurrentTaskHandle k) b) (s\<lparr>skern := k\<rparr>)) }"

definition sb_wait :: "sb_env \<Rightarrow> sb_side \<Rightarrow> stream_handle \<Rightarrow> tick \<Rightarrow> stream_os \<Rightarrow> stream_os option" where
  "sb_wait e d h xTicksToWait s = do {
     s \<leftarrow> e Registered s;
     b \<leftarrow> buffers s h;
     let i = uxNotificationIndex b;
     (k, xShouldBlock) \<leftarrow> xTaskGenericNotifyWait_enter i 0 xTicksToWait (skern s);
     s \<leftarrow> e Announced (s\<lparr>skern := k\<rparr>);
     k \<leftarrow> notify_sleep xShouldBlock xTicksToWait (skern s);
     s \<leftarrow> e Asleep (s\<lparr>skern := k\<rparr>);
     (k, _) \<leftarrow> xTaskGenericNotifyWait_leave i 0 (skern s);
     s \<leftarrow> e Running (s\<lparr>skern := k\<rparr>);
     b \<leftarrow> buffers s h;
     Some (set_buffer h (set_sb_waiting d None b) s) }"

section \<open>Sending\<close>

text \<open>
  What a send needs, and the ticks it may wait: a message that never fits is not waited for, a
  stream's data is cut to what the buffer can hold at all.
\<close>

definition xStreamBufferSend_enter :: "stream_handle \<Rightarrow> nat \<Rightarrow> tick \<Rightarrow> stream_os \<Rightarrow> (nat \<times> tick) option" where
  "xStreamBufferSend_enter h xDataLengthBytes xTicksToWait s = do {
     b \<leftarrow> buffers s h;
     let xMaxReportedSpace = size_sub (xLength b) 1;
     if is_message_buffer b
     then do {
       let xRequiredSpace = size_add xDataLengthBytes sbBYTES_TO_STORE_MESSAGE_LENGTH;
       configASSERT (xRequiredSpace > xDataLengthBytes);
       Some (xRequiredSpace, if xRequiredSpace > xMaxReportedSpace then 0 else xTicksToWait) }
     else Some (if xDataLengthBytes > xMaxReportedSpace then xMaxReportedSpace else xDataLengthBytes, xTicksToWait) }"

text \<open>One test for space, in a critical section: \<open>True\<close> if the caller has to wait.\<close>

definition xStreamBufferSend_test :: "stream_handle \<Rightarrow> nat \<Rightarrow> stream_os \<Rightarrow> (stream_os \<times> nat \<times> bool) option" where
  "xStreamBufferSend_test h xRequiredSpace s = do {
     b \<leftarrow> buffers s h;
     let xSpace = spaces_available b;
     if xSpace < xRequiredSpace
     then do { s \<leftarrow> sb_register Sender h s; Some (s, xSpace, True) }
     else Some (s, xSpace, False) }"

fun send_wait_loop ::
    "sb_env list \<Rightarrow> stream_handle \<Rightarrow> nat \<Rightarrow> TimeOut \<Rightarrow> tick \<Rightarrow> stream_os \<Rightarrow> (stream_os \<times> nat option) option" where
  "send_wait_loop [] h xRequiredSpace to w s = do {
     (s, xSpace, waits) \<leftarrow> xStreamBufferSend_test h xRequiredSpace s;
     Some (s, if waits then None else Some xSpace) }"
| "send_wait_loop (e # es) h xRequiredSpace to w s = do {
     (s, xSpace, waits) \<leftarrow> xStreamBufferSend_test h xRequiredSpace s;
     if \<not> waits then Some (s, Some xSpace)
     else do {
       s \<leftarrow> sb_wait e Sender h w s;
       (k, to, w, expired) \<leftarrow> xTaskCheckForTimeOut to w (skern s);
       let s = s\<lparr>skern := k\<rparr>;
       if expired then Some (s, Some xSpace) else send_wait_loop es h xRequiredSpace to w s } }"

text \<open>
  Storing the data and waking a receiver for which there is enough now. The number is how many
  bytes were taken.
\<close>

definition stream_store ::
    "sb_env \<Rightarrow> stream_handle \<Rightarrow> byte list \<Rightarrow> nat \<Rightarrow> nat \<Rightarrow> nat \<Rightarrow> stream_os \<Rightarrow> (stream_os \<times> nat) option" where
  "stream_store e h pvTxData xDataLengthBytes xSpace xRequiredSpace s = do {
     b \<leftarrow> buffers s h;
     (b, xReturn) \<leftarrow> prvWriteMessageToBuffer pvTxData xDataLengthBytes xSpace xRequiredSpace b;
     s \<leftarrow> e Transferred (set_buffer h b s);
     b \<leftarrow> buffers s h;
     s \<leftarrow> (if xReturn > 0 \<and> prvBytesInBuffer b \<ge> xTriggerLevelBytes b then sbSEND_COMPLETED h s else Some s);
     Some (s, xReturn) }"

text \<open>The outer option of the number is whether the call returns within its environments.\<close>

definition xStreamBufferSend ::
    "sb_env list \<Rightarrow> sb_env \<Rightarrow> stream_handle \<Rightarrow> byte list \<Rightarrow> nat \<Rightarrow> tick \<Rightarrow> stream_os \<Rightarrow>
     (stream_os \<times> nat option) option" where
  "xStreamBufferSend es e h pvTxData xDataLengthBytes xTicksToWait s = do {
     (xRequiredSpace, xTicksToWait) \<leftarrow> xStreamBufferSend_enter h xDataLengthBytes xTicksToWait s;
     (s, r) \<leftarrow> (if xTicksToWait \<noteq> 0
       then send_wait_loop es h xRequiredSpace (vTaskSetTimeOutState (skern s)) xTicksToWait s
       else Some (s, Some 0));
     case r of
       None \<Rightarrow> Some (s, None)
     | Some xSpace \<Rightarrow> do {
         s \<leftarrow> e Running s;
         b \<leftarrow> buffers s h;
         let xSpace = (if xSpace = 0 then spaces_available b else xSpace);
         (s, n) \<leftarrow> stream_store e h pvTxData xDataLengthBytes xSpace xRequiredSpace s;
         Some (s, Some n) } }"

definition xStreamBufferSendFromISR ::
    "stream_handle \<Rightarrow> byte list \<Rightarrow> nat \<Rightarrow> stream_os \<Rightarrow> (stream_os \<times> nat \<times> bool) option" where
  "xStreamBufferSendFromISR h pvTxData xDataLengthBytes s = do {
     b \<leftarrow> buffers s h;
     let xRequiredSpace = (if is_message_buffer b then size_add xDataLengthBytes sbBYTES_TO_STORE_MESSAGE_LENGTH
       else xDataLengthBytes);
     let xSpace = spaces_available b;
     (b, xReturn) \<leftarrow> prvWriteMessageToBuffer pvTxData xDataLengthBytes xSpace xRequiredSpace b;
     let s = set_buffer h b s;
     (s, woken) \<leftarrow> (if xReturn > 0 \<and> prvBytesInBuffer b \<ge> xTriggerLevelBytes b then sbSEND_COMPLETE_FROM_ISR h s
       else Some (s, False));
     Some (s, xReturn, woken) }"

section \<open>Receiving\<close>

text \<open>More than this must be there for a task's receive to take anything.\<close>

definition receive_threshold :: "stream_buffer \<Rightarrow> nat" where
  "receive_threshold b = (if is_message_buffer b then sbBYTES_TO_STORE_MESSAGE_LENGTH
     else if is_batching_buffer b then xTriggerLevelBytes b else 0)"

text \<open>The test in a critical section: the bytes there, and the caller registered if it has to wait.\<close>

definition xStreamBufferReceive_test :: "stream_handle \<Rightarrow> nat \<Rightarrow> stream_os \<Rightarrow> (stream_os \<times> nat) option" where
  "xStreamBufferReceive_test h threshold s = do {
     b \<leftarrow> buffers s h;
     let xBytesAvailable = prvBytesInBuffer b;
     s \<leftarrow> (if xBytesAvailable \<le> threshold then sb_register Receiver h s else Some s);
     Some (s, xBytesAvailable) }"

text \<open>The bytes are those stored to the caller's memory, of which there are \<open>xBufferLengthBytes\<close>.\<close>

definition xStreamBufferReceive ::
    "sb_env \<Rightarrow> stream_handle \<Rightarrow> nat \<Rightarrow> tick \<Rightarrow> stream_os \<Rightarrow> (stream_os \<times> byte list) option" where
  "xStreamBufferReceive e h xBufferLengthBytes xTicksToWait s = do {
     b \<leftarrow> buffers s h;
     let threshold = receive_threshold b;
     (s, xBytesAvailable) \<leftarrow>
       (if xTicksToWait \<noteq> 0
        then do {
          (s, xBytesAvailable) \<leftarrow> xStreamBufferReceive_test h threshold s;
          if xBytesAvailable \<le> threshold
          then do {
            s \<leftarrow> sb_wait e Receiver h xTicksToWait s;
            b \<leftarrow> buffers s h;
            Some (s, prvBytesInBuffer b) }
          else Some (s, xBytesAvailable) }
        else Some (s, prvBytesInBuffer b));
     if xBytesAvailable > threshold
     then do {
       b \<leftarrow> buffers s h;
       (b, bytes) \<leftarrow> prvReadMessageFromBuffer xBufferLengthBytes xBytesAvailable b;
       s \<leftarrow> e Transferred (set_buffer h b s);
       s \<leftarrow> (if bytes \<noteq> [] then sbRECEIVE_COMPLETED h s else Some s);
       Some (s, bytes) }
     else Some (s, []) }"

definition xStreamBufferReceiveFromISR ::
    "stream_handle \<Rightarrow> nat \<Rightarrow> stream_os \<Rightarrow> (stream_os \<times> byte list \<times> bool) option" where
  "xStreamBufferReceiveFromISR h xBufferLengthBytes s = do {
     b \<leftarrow> buffers s h;
     let threshold = (if is_message_buffer b then sbBYTES_TO_STORE_MESSAGE_LENGTH else 0);
     let xBytesAvailable = prvBytesInBuffer b;
     if xBytesAvailable > threshold
     then do {
       (b, bytes) \<leftarrow> prvReadMessageFromBuffer xBufferLengthBytes xBytesAvailable b;
       let s = set_buffer h b s;
       (s, woken) \<leftarrow> (if bytes \<noteq> [] then sbRECEIVE_COMPLETED_FROM_ISR h s else Some (s, False));
       Some (s, bytes, woken) }
     else Some (s, [], False) }"

end
