(* ===== verification/Stream_Ring.thy ===== *)
theory Stream_Ring
  imports Stream_State
begin

text \<open>
  The ring of a stream buffer as a sequence of bytes, and the operations on it as operations on
  the sequence; messages as lengths and bytes in that sequence.
\<close>

section \<open>Copying, byte by byte\<close>

lemma memcpy_to_nth:
  assumes "p + n \<le> length mem" and "n \<le> length src"
  shows "ensures (memcpy_to (int p) n src mem) (\<lambda>mem'. length mem' = length mem \<and>
    (\<forall>j < length mem. mem' ! j = (if p \<le> j \<and> j < p + n then src ! (j - p) else mem ! j)))"
  using assms by (auto simp: memcpy_to_def nth_append min_def)

lemma memcpy_from_nth:
  assumes "p + n \<le> length mem"
  shows "ensures (memcpy_from (int p) n mem) (\<lambda>bs. bs = map (\<lambda>i. mem ! (p + i)) [0..<n])"
  using assms by (auto simp: memcpy_from_def intro!: nth_equalityI)

section \<open>The ring\<close>

definition sb_ok :: "stream_buffer \<Rightarrow> bool" where
  "sb_ok b \<longleftrightarrow> xHead b < xLength b \<and> xTail b < xLength b \<and> xLength b \<le> length (pucBuffer b) \<and>
     0 < xTriggerLevelBytes b \<and> xTriggerLevelBytes b \<le> xLength b"

definition ring_at :: "stream_buffer \<Rightarrow> nat \<Rightarrow> byte" where
  "ring_at b i = pucBuffer b ! ((xTail b + i) mod xLength b)"

definition sb_contents :: "stream_buffer \<Rightarrow> byte list" where
  "sb_contents b = map (ring_at b) [0..<prvBytesInBuffer b]"

lemma length_sb_contents [simp]: "length (sb_contents b) = prvBytesInBuffer b"
  by (simp add: sb_contents_def)

lemma wrap_mod:
  assumes "i < n" and "k \<le> (n :: nat)"
  shows "(i + k) mod n = (if i + k \<ge> n then i + k - n else i + k)"
  using assms by (simp add: mod_if)

lemma bytes_in_buffer:
  assumes "sb_ok b"
  shows "prvBytesInBuffer b < xLength b" "xHead b = (xTail b + prvBytesInBuffer b) mod xLength b"
    "spaces_available b = xLength b - 1 - prvBytesInBuffer b"
proof -
  have t: "xTail b < xLength b" and h: "xHead b < xLength b" using assms by (simp_all add: sb_ok_def)
  show n: "prvBytesInBuffer b < xLength b" using t h by (auto simp: prvBytesInBuffer_def Let_def)
  show "xHead b = (xTail b + prvBytesInBuffer b) mod xLength b"
    using wrap_mod [OF t less_imp_le [OF n]] t h by (auto simp: prvBytesInBuffer_def Let_def split: if_splits)
  show "spaces_available b = xLength b - 1 - prvBytesInBuffer b"
    using t h by (auto simp: prvBytesInBuffer_def spaces_available_def Let_def)
qed

lemma bytes_unique:
  assumes "xTail b < xLength b" and "n < xLength b" and "xHead b = (xTail b + n) mod xLength b"
  shows "prvBytesInBuffer b = n"
  using assms wrap_mod [OF assms(1) less_imp_le [OF assms(2)]]
  by (auto simp: prvBytesInBuffer_def Let_def split: if_splits)

lemma write_ring:
  assumes h: "h < xLength b" and n: "0 < n" "n \<le> xLength b" "n \<le> length data" and L: "xLength b \<le> length (pucBuffer b)"
  shows "ensures (prvWriteBytesToBuffer data n h b) (\<lambda>(b', h'). \<exists>mem. b' = b\<lparr>pucBuffer := mem\<rparr> \<and>
    length mem = length (pucBuffer b) \<and> h' = (h + n) mod xLength b \<and>
    (\<forall>i < xLength b. mem ! ((h + i) mod xLength b) = (if i < n then data ! i else pucBuffer b ! ((h + i) mod xLength b))))"
    (is "ensures _ ?Q")
proof -
  let ?L = "xLength b" and ?f = "min (xLength b - h) n" and ?m = "pucBuffer b"
  have f: "h + ?f \<le> ?L" "?f \<le> n" "n - ?f \<le> ?L" using h n by auto
  have copied: "ensures (memcpy_to (int h) ?f data ?m) (\<lambda>m1. ensures
      (if n > ?f then memcpy_to 0 (n - ?f) (drop ?f data) m1 else Some m1)
      (\<lambda>m2. length m2 = length ?m \<and> (\<forall>j < ?L. m2 ! j =
        (if h \<le> j \<and> j < h + ?f then data ! (j - h) else if j < n - ?f then data ! (?f + j) else ?m ! j))))"
  proof (rule ensures_mono [OF memcpy_to_nth])
    fix m1 assume m1: "length m1 = length ?m \<and> (\<forall>j < length ?m. m1 ! j = (if h \<le> j \<and> j < h + ?f then data ! (j - h) else ?m ! j))"
    show "ensures (if n > ?f then memcpy_to 0 (n - ?f) (drop ?f data) m1 else Some m1)
      (\<lambda>m2. length m2 = length ?m \<and> (\<forall>j < ?L. m2 ! j =
        (if h \<le> j \<and> j < h + ?f then data ! (j - h) else if j < n - ?f then data ! (?f + j) else ?m ! j)))"
    proof (cases "n > ?f")
      case True
      have "ensures (memcpy_to (int 0) (n - ?f) (drop ?f data) m1) (\<lambda>m2. length m2 = length m1 \<and>
        (\<forall>j < length m1. m2 ! j = (if 0 \<le> j \<and> j < 0 + (n - ?f) then drop ?f data ! (j - 0) else m1 ! j)))"
        by (rule memcpy_to_nth) (use m1 n L f in \<open>simp_all add: diff_le_mono\<close>)
      moreover have "n - ?f \<le> h" using True n h by auto
      ultimately show ?thesis using True m1 L n by (auto elim!: ensures_mono)
    next
      case False
      then show ?thesis using m1 L by auto
    qed
  qed (use f L n in auto)
  have spec: "\<forall>i < ?L. m2 ! ((h + i) mod ?L) = (if i < n then data ! i else ?m ! ((h + i) mod ?L))"
    if m2: "\<forall>j < ?L. m2 ! j = (if h \<le> j \<and> j < h + ?f then data ! (j - h) else if j < n - ?f then data ! (?f + j) else ?m ! j)" for m2
  proof (intro allI impI)
    fix i assume i: "i < ?L"
    have e: "(h + i) mod ?L = (if h + i \<ge> ?L then h + i - ?L else h + i)" using wrap_mod [of h ?L i] h i by simp
    show "m2 ! ((h + i) mod ?L) = (if i < n then data ! i else ?m ! ((h + i) mod ?L))"
    proof (cases "h + i \<ge> ?L")
      case True
      then have "h + i - ?L < ?L" "h + i - ?L < h" using i h by auto
      moreover have "h + i - ?L < n - ?f \<longleftrightarrow> i < n" "i < n \<Longrightarrow> ?f + (h + i - ?L) = i" using True h by auto
      ultimately show ?thesis using m2 e True by simp
    next
      case False
      then show ?thesis using m2 e by (auto simp: min_def)
    qed
  qed
  have asserted: "configASSERT (n > 0) = Some ()" "configASSERT (h + ?f \<le> ?L) = Some ()"
    "configASSERT (n - ?f \<le> ?L) = Some ()"
    by (simp_all only: configASSERT_eq_Some f n)
  have "prvWriteBytesToBuffer data n h b = do {
      m1 \<leftarrow> memcpy_to (int h) ?f data ?m;
      m2 \<leftarrow> (if n > ?f then memcpy_to 0 (n - ?f) (drop ?f data) m1 else Some m1);
      Some (b\<lparr>pucBuffer := m2\<rparr>, (h + n) mod ?L) }"
    by (simp only: prvWriteBytesToBuffer_def Let_def wrap_mod [OF h n(2)] asserted Option.bind.bind_lunit)
  moreover have "ensures (memcpy_to (int h) ?f data ?m) (\<lambda>m1. ensures
      (if n > ?f then memcpy_to 0 (n - ?f) (drop ?f data) m1 else Some m1) (\<lambda>m2. ?Q (b\<lparr>pucBuffer := m2\<rparr>, (h + n) mod ?L)))"
  proof (rule ensures_mono [OF copied], erule ensures_mono, elim conjE)
    fix m2 assume "length m2 = length ?m" "\<forall>j < ?L. m2 ! j =
        (if h \<le> j \<and> j < h + ?f then data ! (j - h) else if j < n - ?f then data ! (?f + j) else ?m ! j)"
    then show "?Q (b\<lparr>pucBuffer := m2\<rparr>, (h + n) mod ?L)" using spec [of m2] by blast
  qed
  ultimately show ?thesis by simp
qed

lemma read_ring:
  assumes t: "t < xLength b" and n: "0 < n" "n \<le> xLength b" and L: "xLength b \<le> length (pucBuffer b)"
  shows "prvReadBytesFromBuffer n t b =
    Some (map (\<lambda>i. pucBuffer b ! ((t + i) mod xLength b)) [0..<n], (t + n) mod xLength b)"
proof -
  let ?L = "xLength b" and ?f = "min (xLength b - t) n" and ?m = "pucBuffer b"
  have f: "t + ?f \<le> ?L" "?f \<le> n" "n - ?f \<le> t" using t n by auto
  have 1: "memcpy_from (int t) ?f ?m = Some (map (\<lambda>i. ?m ! (t + i)) [0..<?f])"
    using memcpy_from_nth [of t ?f ?m] f L by (cases "memcpy_from (int t) ?f ?m") simp_all
  have 2: "memcpy_from 0 (n - ?f) ?m = Some (map (\<lambda>i. ?m ! i) [0..<n - ?f])"
    using memcpy_from_nth [of 0 "n - ?f" ?m] f L t by (cases "memcpy_from 0 (n - ?f) ?m") simp_all
  have "map (\<lambda>i. ?m ! (t + i)) [0..<?f] @ (if n > ?f then map (\<lambda>i. ?m ! i) [0..<n - ?f] else []) =
    map (\<lambda>i. ?m ! ((t + i) mod ?L)) [0..<n]" (is "?l = ?r")
  proof (rule nth_equalityI)
    show "length ?l = length ?r" using f by simp
    fix i assume "i < length ?l"
    then have i: "i < n" using f by (simp split: if_splits)
    have e: "(t + i) mod ?L = (if t + i \<ge> ?L then t + i - ?L else t + i)" using wrap_mod [of t ?L i] t i n by simp
    have "?l ! i = ?m ! (if t + i \<ge> ?L then t + i - ?L else t + i)"
    proof (cases "t + i \<ge> ?L")
      case True
      then have "?f = ?L - t" "i - ?f = t + i - ?L" "\<not> i < ?f" "?f < n" "i - ?f < n - ?f" using i t by auto
      then show ?thesis using True by (simp add: nth_append)
    next
      case False
      then have "i < ?f" using i t by auto
      then show ?thesis using False by (simp add: nth_append)
    qed
    then show "?l ! i = ?r ! i" using i e by simp
  qed
  moreover have "(t + n) mod ?L = (if t + n \<ge> ?L then t + n - ?L else t + n)" by (rule wrap_mod [OF t n(2)])
  ultimately show ?thesis
    using f n(1) 1 2 by (simp add: prvReadBytesFromBuffer_def Let_def split: if_splits)
qed

section \<open>The ring as a sequence\<close>

definition same_setup :: "stream_buffer \<Rightarrow> stream_buffer \<Rightarrow> bool" where
  "same_setup b b' \<longleftrightarrow> xLength b' = xLength b \<and> xTriggerLevelBytes b' = xTriggerLevelBytes b \<and>
     xTaskWaitingToReceive b' = xTaskWaitingToReceive b \<and> xTaskWaitingToSend b' = xTaskWaitingToSend b \<and>
     ucFlags b' = ucFlags b \<and> uxNotificationIndex b' = uxNotificationIndex b"

lemma same_setup_refl [simp]: "same_setup b b"
  by (simp add: same_setup_def)

lemma same_setup_ring [simp]:
  "same_setup b (b\<lparr>pucBuffer := m\<rparr>)" "same_setup b (b\<lparr>xTail := t\<rparr>)" "same_setup b (b\<lparr>pucBuffer := m, xHead := h\<rparr>)"
  by (simp_all add: same_setup_def)

text \<open>Bytes stored \<open>j\<close> places behind the head, in free space.\<close>

lemma write_ahead:
  assumes ok: "sb_ok b" and n: "0 < n" "n \<le> length data" and room: "prvBytesInBuffer b + j + n < xLength b"
  shows "ensures (prvWriteBytesToBuffer data n ((xHead b + j) mod xLength b) b) (\<lambda>(b', h'). \<exists>mem. b' = b\<lparr>pucBuffer := mem\<rparr> \<and>
    length mem = length (pucBuffer b) \<and> h' = (xHead b + j + n) mod xLength b \<and>
    (\<forall>i < xLength b. ring_at b' i = (let a = prvBytesInBuffer b + j in
      if a \<le> i \<and> i < a + n then data ! (i - a) else ring_at b i)))"
    (is "ensures ?w _")
proof -
  let ?L = "xLength b" and ?c = "prvBytesInBuffer b" and ?t = "xTail b"
  let ?h = "(xHead b + j) mod ?L" and ?a = "?c + j"
  have ok': "0 < ?L" "?L \<le> length (pucBuffer b)" using ok by (auto simp: sb_ok_def)
  have h: "?h = (?t + ?a) mod ?L" using bytes_in_buffer(2) [OF ok] by (simp add: mod_add_left_eq add.assoc)
  have h': "(?h + n) mod ?L = (xHead b + j + n) mod ?L" by (simp add: mod_add_left_eq)
  have pos: "(?h + (if i < ?a then i + ?L - ?a else i - ?a)) mod ?L = (?t + i) mod ?L" if "i < ?L" for i
  proof (cases "i < ?a")
    case True
    then have "?t + ?a + (i + ?L - ?a) = ?t + i + ?L" using room by simp
    then have "(?t + ?a + (i + ?L - ?a)) mod ?L = (?t + i) mod ?L" by (metis mod_add_self2)
    then show ?thesis using True by (simp add: h mod_add_left_eq)
  next
    case False
    then obtain d where "i = ?a + d" by (metis le_add_diff_inverse not_less)
    then show ?thesis by (simp add: h mod_add_left_eq add.assoc)
  qed
  show ?thesis
  proof (rule ensures_mono [OF write_ring [of ?h b n data]], goal_cases)
    case (6 r)
    obtain b' h2 where r: "r = (b', h2)" by (cases r)
    from 6 obtain mem where b': "b' = b\<lparr>pucBuffer := mem\<rparr>" "length mem = length (pucBuffer b)" "h2 = (?h + n) mod ?L"
      and mem: "\<forall>i < ?L. mem ! ((?h + i) mod ?L) = (if i < n then data ! i else pucBuffer b ! ((?h + i) mod ?L))"
      unfolding r prod.case by blast
    have "ring_at b' i = (let a = ?a in if a \<le> i \<and> i < a + n then data ! (i - a) else ring_at b i)" if i: "i < ?L" for i
    proof -
      let ?d = "if i < ?a then i + ?L - ?a else i - ?a"
      have d: "?d < ?L" "?d < n \<longleftrightarrow> ?a \<le> i \<and> i < ?a + n" using i room by auto
      have "ring_at b' i = mem ! ((?h + ?d) mod ?L)" using pos [OF i] b'(1) by (simp add: ring_at_def)
      also have "\<dots> = (if ?d < n then data ! ?d else pucBuffer b ! ((?h + ?d) mod ?L))" using mem d(1) by blast
      also have "\<dots> = (if ?d < n then data ! ?d else ring_at b i)" using pos [OF i] by (simp add: ring_at_def)
      finally show ?thesis using d(2) by (auto simp: Let_def)
    qed
    then show ?case using b' h' unfolding r prod.case by blast
  qed (use ok' n room in simp_all)
qed

lemma upt_split: "[0..<m + n] = [0..<m] @ map ((+) m) [0..<n]"
  by (auto simp: nth_append intro!: nth_equalityI)

lemma publish:
  assumes ok: "sb_ok b" and room: "prvBytesInBuffer b + length ys < xLength b" and len: "length mem = length (pucBuffer b)"
    and old: "\<And>i. i < prvBytesInBuffer b \<Longrightarrow> ring_at (b\<lparr>pucBuffer := mem\<rparr>) i = ring_at b i"
    and new: "\<And>i. i < length ys \<Longrightarrow> ring_at (b\<lparr>pucBuffer := mem\<rparr>) (prvBytesInBuffer b + i) = ys ! i"
    and h: "h = (xHead b + length ys) mod xLength b"
  shows "sb_ok (b\<lparr>pucBuffer := mem, xHead := h\<rparr>) \<and> sb_contents (b\<lparr>pucBuffer := mem, xHead := h\<rparr>) = sb_contents b @ ys"
proof -
  let ?b = "b\<lparr>pucBuffer := mem, xHead := h\<rparr>" and ?c = "prvBytesInBuffer b"
  have r: "ring_at ?b = ring_at (b\<lparr>pucBuffer := mem\<rparr>)" by (simp add: ring_at_def fun_eq_iff)
  have okb: "sb_ok ?b" using ok len h by (simp add: sb_ok_def)
  have "prvBytesInBuffer ?b = ?c + length ys"
    by (rule bytes_unique) (use ok room h bytes_in_buffer(2) [OF ok] in \<open>simp_all add: sb_ok_def mod_add_left_eq add.assoc\<close>)
  then have "sb_contents ?b = map (ring_at (b\<lparr>pucBuffer := mem\<rparr>)) [0..<?c] @
    map (\<lambda>i. ring_at (b\<lparr>pucBuffer := mem\<rparr>) (?c + i)) [0..<length ys]"
    by (simp only: sb_contents_def r upt_split map_append map_map comp_def)
  also have "\<dots> = sb_contents b @ ys"
    using old new by (auto simp: sb_contents_def intro!: arg_cong2 [where f = "(@)"] nth_equalityI)
  finally have "sb_contents ?b = sb_contents b @ ys" .
  then show ?thesis using okb by simp
qed

lemma read_ahead:
  assumes ok: "sb_ok b" and n: "0 < n" and avail: "j + n \<le> prvBytesInBuffer b"
  shows "prvReadBytesFromBuffer n ((xTail b + j) mod xLength b) b =
    Some (take n (drop j (sb_contents b)), (xTail b + j + n) mod xLength b)"
proof -
  let ?L = "xLength b"
  have c: "prvBytesInBuffer b < ?L" by (rule bytes_in_buffer [OF ok])
  have "take n (drop j (sb_contents b)) = map (\<lambda>i. ring_at b (j + i)) [0..<n]"
    using avail by (auto simp: sb_contents_def intro!: nth_equalityI)
  also have "\<dots> = map (\<lambda>i. pucBuffer b ! (((xTail b + j) mod ?L + i) mod ?L)) [0..<n]"
    by (simp add: ring_at_def mod_add_left_eq add.assoc)
  finally show ?thesis
    using read_ring [of "(xTail b + j) mod ?L" b n] ok n avail c by (simp add: sb_ok_def mod_add_left_eq)
qed

lemma consume:
  assumes ok: "sb_ok b" and n: "n \<le> prvBytesInBuffer b" and t: "t = (xTail b + n) mod xLength b"
  shows "sb_ok (b\<lparr>xTail := t\<rparr>)" "sb_contents (b\<lparr>xTail := t\<rparr>) = drop n (sb_contents b)"
proof -
  let ?b = "b\<lparr>xTail := t\<rparr>"
  note c = bytes_in_buffer(1,2) [OF ok]
  show "sb_ok ?b" using ok t by (simp add: sb_ok_def)
  obtain d where d: "prvBytesInBuffer b = n + d" using n le_Suc_ex by blast
  have "prvBytesInBuffer ?b = d"
    by (rule bytes_unique) (use ok t c d in \<open>simp_all add: sb_ok_def mod_add_left_eq add.assoc\<close>)
  then have "prvBytesInBuffer ?b = prvBytesInBuffer b - n" using d by simp
  then show "sb_contents ?b = drop n (sb_contents b)"
    using n by (auto simp: sb_contents_def ring_at_def t mod_add_left_eq add.assoc intro!: nth_equalityI)
qed

end
