(* ===== verification/Stream_Messages.thy ===== *)
theory Stream_Messages
  imports Stream_Ring
begin

text \<open>
  Sending to and receiving from a buffer, as appending to and taking from its contents: the bytes
  of a stream, the messages of a message buffer. The locale \<open>channel\<close> is what both promise.
\<close>

section \<open>Storing\<close>

lemma store_data:
  assumes ok: "sb_ok b" and n: "n \<le> length data" and room: "prvBytesInBuffer b + n < xLength b"
  shows "ensures (if n \<noteq> 0 then do { (b, head) \<leftarrow> prvWriteBytesToBuffer data n (xHead b) b; Some (b\<lparr>xHead := head\<rparr>) }
      else Some b)
    (\<lambda>b'. sb_ok b' \<and> same_setup b b' \<and> sb_contents b' = sb_contents b @ take n data)"
proof (cases "n = 0")
  case True
  then show ?thesis using ok by simp
next
  case False
  have h: "(xHead b + 0) mod xLength b = xHead b" using ok by (simp add: sb_ok_def)
  have "ensures (prvWriteBytesToBuffer data n (xHead b) b) (\<lambda>(b', h').
    sb_ok (b'\<lparr>xHead := h'\<rparr>) \<and> same_setup b (b'\<lparr>xHead := h'\<rparr>) \<and> sb_contents (b'\<lparr>xHead := h'\<rparr>) = sb_contents b @ take n data)"
  proof (rule ensures_mono [OF write_ahead [OF ok _ n, of 0, unfolded h]], goal_cases)
    case (3 r)
    obtain b' h' where r: "r = (b', h')" by (cases r)
    from 3 obtain mem where b': "b' = b\<lparr>pucBuffer := mem\<rparr>" "length mem = length (pucBuffer b)" "h' = (xHead b + n) mod xLength b"
      and mem: "\<forall>i < xLength b. ring_at (b\<lparr>pucBuffer := mem\<rparr>) i = (let a = prvBytesInBuffer b in
        if a \<le> i \<and> i < a + n then data ! (i - a) else ring_at b i)"
      unfolding r prod.case by auto
    have "sb_ok (b\<lparr>pucBuffer := mem, xHead := h'\<rparr>) \<and>
      sb_contents (b\<lparr>pucBuffer := mem, xHead := h'\<rparr>) = sb_contents b @ take n data"
      by (rule publish [OF ok]) (use b' n room mem in \<open>simp_all add: Let_def\<close>)
    then show ?case by (simp add: r b')
  qed (use False room in simp_all)
  then show ?thesis using False by (simp add: case_prod_unfold)
qed

text \<open>A stream takes as many bytes as there is space for.\<close>

lemma stream_write:
  assumes ok: "sb_ok b" and st: "\<not> is_message_buffer b" and n: "n \<le> length data" and sp: "sp \<le> spaces_available b"
  shows "ensures (prvWriteMessageToBuffer data n sp req b) (\<lambda>(b', k). k = min n sp \<and>
    sb_ok b' \<and> same_setup b b' \<and> sb_contents b' = sb_contents b @ take k data)"
proof -
  have "ensures (if min n sp \<noteq> 0
      then do { (b, head) \<leftarrow> prvWriteBytesToBuffer data (min n sp) (xHead b) b; Some (b\<lparr>xHead := head\<rparr>) } else Some b)
    (\<lambda>b'. sb_ok b' \<and> same_setup b b' \<and> sb_contents b' = sb_contents b @ take (min n sp) data)"
    by (rule store_data [OF ok]) (use n sp bytes_in_buffer [OF ok] in auto)
  then show ?thesis using st unfolding prvWriteMessageToBuffer_def Let_def by simp
qed

section \<open>Messages\<close>

lemma length_size_bytes [simp]: "length (size_bytes n) = sbBYTES_TO_STORE_MESSAGE_LENGTH"
  by (simp add: size_bytes_def)

lemma size_bytes_round [simp]:
  assumes "n < 2 ^ 64" shows "size_of_bytes (size_bytes n) = n"
  using assms by (simp add: size_of_bytes_def size_bytes_def le_bytes_round sbBYTES_TO_STORE_MESSAGE_LENGTH_def)

definition frame :: "byte list \<Rightarrow> byte list" where
  "frame m = size_bytes (length m) @ m"

lemma length_frame [simp]: "length (frame m) = sbBYTES_TO_STORE_MESSAGE_LENGTH + length m"
  by (simp add: frame_def)

text \<open>A message with its length is stored whole, or nothing is.\<close>

lemma message_write:
  assumes ok: "sb_ok b" and ms: "is_message_buffer b" and n: "n = length data" "n < 2 ^ 64" and sp: "sp \<le> spaces_available b"
    and req: "req = n + sbBYTES_TO_STORE_MESSAGE_LENGTH"
  shows "ensures (prvWriteMessageToBuffer data n sp req b) (\<lambda>(b', k). k = (if req \<le> sp then n else 0) \<and>
    sb_ok b' \<and> same_setup b b' \<and> sb_contents b' = sb_contents b @ (if k = 0 then [] else frame data))"
proof (cases "req \<le> sp")
  case False
  then show ?thesis using ok ms n by (simp add: prvWriteMessageToBuffer_def Let_def)
next
  case True
  let ?z = sbBYTES_TO_STORE_MESSAGE_LENGTH and ?L = "xLength b" and ?c = "prvBytesInBuffer b"
  have z: "0 < ?z" by (simp add: sbBYTES_TO_STORE_MESSAGE_LENGTH_def)
  have room: "?c + ?z + n < ?L" using True req sp bytes_in_buffer [OF ok] by auto
  have h: "(xHead b + 0) mod ?L = xHead b" using ok by (simp add: sb_ok_def)
  have "ensures (prvWriteBytesToBuffer (size_bytes n) ?z (xHead b) b) (\<lambda>(b1, h1).
      ensures (if n \<noteq> 0 then do { (b, head) \<leftarrow> prvWriteBytesToBuffer data n h1 b1; Some (b\<lparr>xHead := head\<rparr>) } else Some b1)
        (\<lambda>b'. sb_ok b' \<and> same_setup b b' \<and> sb_contents b' = sb_contents b @ (if n = 0 then [] else frame data)))"
  proof (rule ensures_mono [OF write_ahead [OF ok z, of _ 0, unfolded h]], goal_cases)
    case (3 r)
    obtain b1 h1 where r: "r = (b1, h1)" by (cases r)
    from 3 obtain m1 where b1: "b1 = b\<lparr>pucBuffer := m1\<rparr>" "length m1 = length (pucBuffer b)" "h1 = (xHead b + ?z) mod ?L"
      and m1: "\<forall>i < ?L. ring_at b1 i = (if ?c \<le> i \<and> i < ?c + ?z then size_bytes n ! (i - ?c) else ring_at b i)"
      unfolding r prod.case by (auto simp: Let_def)
    have ok1: "sb_ok b1" using ok b1 by (simp add: sb_ok_def)
    have same: "xLength b1 = ?L" "xHead b1 = xHead b" "prvBytesInBuffer b1 = ?c" using b1 by (simp_all add: prvBytesInBuffer_def Let_def)
    show ?case
    proof (cases "n = 0")
      case True
      have "ring_at b1 i = ring_at b i" if "i < ?c" for i using m1 that room by simp
      then have "sb_contents b1 = sb_contents b" using same by (simp add: sb_contents_def)
      then show ?thesis using True ok1 b1 by (simp add: r)
    next
      case False
      have "ensures (prvWriteBytesToBuffer data n h1 b1) (\<lambda>(b2, h2).
        sb_ok (b2\<lparr>xHead := h2\<rparr>) \<and> same_setup b (b2\<lparr>xHead := h2\<rparr>) \<and> sb_contents (b2\<lparr>xHead := h2\<rparr>) = sb_contents b @ frame data)"
      proof (rule ensures_mono [OF write_ahead [OF ok1, of n data ?z, unfolded same, folded b1(3)]], goal_cases)
        case (4 r2)
        obtain b2 h2 where r2: "r2 = (b2, h2)" by (cases r2)
        from 4 obtain m2 where b2: "b2 = b1\<lparr>pucBuffer := m2\<rparr>" "length m2 = length (pucBuffer b)" "h2 = (xHead b + ?z + n) mod ?L"
          and m2: "\<forall>i < ?L. ring_at b2 i = (if ?c + ?z \<le> i \<and> i < ?c + ?z + n then data ! (i - (?c + ?z)) else ring_at b1 i)"
          unfolding r2 prod.case using b1(2) by (auto simp: Let_def b1(1))
        have b2': "b2 = b\<lparr>pucBuffer := m2\<rparr>" using b2(1) b1(1) by simp
        have new: "ring_at b2 (?c + i) = frame data ! i" if "i < length (frame data)" for i
          using m1 m2 room n that by (auto simp: frame_def nth_append)
        have old: "ring_at b2 i = ring_at b i" if "i < ?c" for i using m1 m2 room that by simp
        have "sb_ok (b\<lparr>pucBuffer := m2, xHead := h2\<rparr>) \<and>
          sb_contents (b\<lparr>pucBuffer := m2, xHead := h2\<rparr>) = sb_contents b @ frame data"
          by (rule publish [OF ok]) (use b2 old new room n in \<open>simp_all add: add.assoc flip: b2'\<close>)
        then show ?case by (simp add: r2 b2')
      qed (use False n room in simp_all)
      then show ?thesis using False by (simp add: r case_prod_unfold)
    qed
  qed (use room in simp_all)
  then show ?thesis
    using True ms n(2) unfolding prvWriteMessageToBuffer_def Let_def
    by (cases "n = 0") (simp_all add: case_prod_unfold)
qed

section \<open>Taking out\<close>

lemma stream_read:
  assumes ok: "sb_ok b" and st: "\<not> is_message_buffer b"
  shows "ensures (prvReadMessageFromBuffer n (prvBytesInBuffer b) b) (\<lambda>(b', bytes).
    sb_ok b' \<and> same_setup b b' \<and> bytes = take n (sb_contents b) \<and> sb_contents b' = drop n (sb_contents b))"
proof -
  let ?m = "min n (prvBytesInBuffer b)"
  have h: "(xTail b + 0) mod xLength b = xTail b" using ok by (simp add: sb_ok_def)
  have td: "take ?m (sb_contents b) = take n (sb_contents b)" "drop ?m (sb_contents b) = drop n (sb_contents b)"
    by (simp_all add: min_def)
  show ?thesis
  proof (cases "?m = 0")
    case True
    then have "n = 0 \<or> sb_contents b = []" by (auto simp: sb_contents_def min_def split: if_splits)
    then show ?thesis using ok st True unfolding prvReadMessageFromBuffer_def Let_def by (auto simp: sb_contents_def)
  next
    case False
    note r = read_ahead [OF ok, of ?m 0, unfolded h] and c = consume [OF ok, of ?m, OF _ refl]
    show ?thesis
      using False st r c td unfolding prvReadMessageFromBuffer_def Let_def by simp
  qed
qed

text \<open>The first message is handed over whole; one that the caller has no room for stays.\<close>

lemma message_read:
  assumes ok: "sb_ok b" and ms: "is_message_buffer b" and c: "sb_contents b = frame m @ rest"
    and m: "m \<noteq> []" "length m < 2 ^ 64"
  shows "ensures (prvReadMessageFromBuffer n (prvBytesInBuffer b) b) (\<lambda>(b', bytes). sb_ok b' \<and> same_setup b b' \<and>
    (if length m \<le> n then bytes = m \<and> sb_contents b' = rest else bytes = [] \<and> b' = b))"
proof -
  let ?z = sbBYTES_TO_STORE_MESSAGE_LENGTH
  have z: "0 < ?z" by (simp add: sbBYTES_TO_STORE_MESSAGE_LENGTH_def)
  have h: "(xTail b + 0) mod xLength b = xTail b" using ok by (simp add: sb_ok_def)
  have len: "prvBytesInBuffer b = ?z + length m + length rest"
    using arg_cong [OF c, where f = length] by simp
  have r1: "prvReadBytesFromBuffer ?z (xTail b) b = Some (size_bytes (length m), (xTail b + ?z) mod xLength b)"
    using read_ahead [OF ok z, of 0, unfolded h] len by (simp add: c frame_def)
  show ?thesis
  proof (cases "length m \<le> n")
    case False
    then show ?thesis using ok ms r1 m(2) unfolding prvReadMessageFromBuffer_def Let_def by simp
  next
    case True
    have r2: "prvReadBytesFromBuffer (length m) ((xTail b + ?z) mod xLength b) b =
        Some (m, (xTail b + ?z + length m) mod xLength b)"
      using read_ahead [OF ok, of "length m" ?z] len m(1) by (simp add: c frame_def)
    have "sb_ok (b\<lparr>xTail := (xTail b + ?z + length m) mod xLength b\<rparr>)"
      "sb_contents (b\<lparr>xTail := (xTail b + ?z + length m) mod xLength b\<rparr>) = rest"
      using consume [OF ok, of "?z + length m", OF _ refl] len by (simp_all add: c add.assoc)
    then show ?thesis
      using True ms r1 r2 m len unfolding prvReadMessageFromBuffer_def Let_def by (simp add: min_def)
  qed
qed

lemma next_message_length_is:
  assumes ok: "sb_ok b" and ms: "is_message_buffer b" and c: "sb_contents b = frame m @ rest"
    and m: "m \<noteq> []" "length m < 2 ^ 64"
  shows "next_message_length b = Some (length m)"
proof -
  let ?z = sbBYTES_TO_STORE_MESSAGE_LENGTH
  have h: "(xTail b + 0) mod xLength b = xTail b" using ok by (simp add: sb_ok_def)
  have "0 < length m" using m(1) by simp
  then have len: "prvBytesInBuffer b > ?z"
    using arg_cong [OF c, where f = length] by simp
  have "prvReadBytesFromBuffer ?z (xTail b) b = Some (size_bytes (length m), (xTail b + ?z) mod xLength b)"
    using read_ahead [OF ok, of ?z 0, unfolded h] len
    by (simp add: c frame_def) (simp add: sbBYTES_TO_STORE_MESSAGE_LENGTH_def)
  then show ?thesis using ms len m by (simp add: next_message_length_def Let_def)
qed

section \<open>The messages in a buffer\<close>

function parse_messages :: "byte list \<Rightarrow> byte list list" where
  "parse_messages bs =
     (if length bs < sbBYTES_TO_STORE_MESSAGE_LENGTH then []
      else let n = size_of_bytes (take sbBYTES_TO_STORE_MESSAGE_LENGTH bs);
               bs = drop sbBYTES_TO_STORE_MESSAGE_LENGTH bs
           in take n bs # parse_messages (drop n bs))"
  by auto
termination by (relation "measure length") (auto simp: sbBYTES_TO_STORE_MESSAGE_LENGTH_def)

declare parse_messages.simps [simp del]

definition storable :: "byte list \<Rightarrow> bool" where
  "storable m \<longleftrightarrow> m \<noteq> [] \<and> length m < 2 ^ 64"

lemma parse_nothing [simp]: "parse_messages [] = []"
  by (simp add: parse_messages.simps [of "[]"] sbBYTES_TO_STORE_MESSAGE_LENGTH_def)

lemma parse_frame: "length m < 2 ^ 64 \<Longrightarrow> parse_messages (frame m @ bs) = m # parse_messages bs"
  by (simp add: parse_messages.simps [of "frame m @ bs"]) (simp add: frame_def)

lemma parse_frames: "\<forall>m \<in> set ms. storable m \<Longrightarrow> parse_messages (concat (map frame ms)) = ms"
  by (induction ms) (simp_all add: parse_frame storable_def)

definition sb_messages :: "stream_buffer \<Rightarrow> byte list list" where
  "sb_messages b = parse_messages (sb_contents b)"

definition message_buffer_ok :: "stream_buffer \<Rightarrow> bool" where
  "message_buffer_ok b \<longleftrightarrow> sb_ok b \<and> is_message_buffer b \<and>
     sb_contents b = concat (map frame (sb_messages b)) \<and> (\<forall>m \<in> set (sb_messages b). storable m)"

lemma message_buffer_okI:
  assumes "sb_ok b" "is_message_buffer b" "sb_contents b = concat (map frame ms)" "\<forall>m \<in> set ms. storable m"
  shows "message_buffer_ok b \<and> sb_messages b = ms"
  using assms parse_frames [OF assms(4)] by (simp add: message_buffer_ok_def sb_messages_def)

definition stream_ok :: "stream_buffer \<Rightarrow> bool" where
  "stream_ok b \<longleftrightarrow> sb_ok b \<and> \<not> is_message_buffer b"

lemma same_setup_message: "same_setup b b' \<Longrightarrow> is_message_buffer b' = is_message_buffer b"
  by (simp add: same_setup_def is_message_buffer_def)

lemma message_buffer_write:
  assumes ok: "message_buffer_ok b" and n: "n = length data" "n < 2 ^ 64" and sp: "sp \<le> spaces_available b"
    and req: "req = n + sbBYTES_TO_STORE_MESSAGE_LENGTH"
  shows "ensures (prvWriteMessageToBuffer data n sp req b) (\<lambda>(b', k). k = (if req \<le> sp then n else 0) \<and>
    message_buffer_ok b' \<and> same_setup b b' \<and> sb_messages b' = sb_messages b @ (if k = 0 then [] else [data]))"
proof (rule ensures_mono [OF message_write [OF _ _ n sp req]], goal_cases)
  case (3 r)
  obtain b' k where r: "r = (b', k)" by (cases r)
  from 3 have b': "k = (if req \<le> sp then n else 0)" "sb_ok b'" "same_setup b b'"
    "sb_contents b' = sb_contents b @ (if k = 0 then [] else frame data)" by (simp_all add: r)
  have "message_buffer_ok b' \<and> sb_messages b' = sb_messages b @ (if k = 0 then [] else [data])"
    by (rule message_buffer_okI)
      (use ok b' n same_setup_message [OF b'(3)] in \<open>auto simp: message_buffer_ok_def storable_def split: if_splits\<close>)
  then show ?case using b' by (simp add: r)
qed (use ok in \<open>simp_all add: message_buffer_ok_def\<close>)

lemma message_buffer_read:
  assumes ok: "message_buffer_ok b" and ms: "sb_messages b = m # ms"
  shows "ensures (prvReadMessageFromBuffer n (prvBytesInBuffer b) b) (\<lambda>(b', bytes). message_buffer_ok b' \<and> same_setup b b' \<and>
    (if length m \<le> n then bytes = m \<and> sb_messages b' = ms else bytes = [] \<and> b' = b))"
proof -
  have c: "sb_contents b = frame m @ concat (map frame ms)" and st: "storable m" "\<forall>m \<in> set ms. storable m"
    using ok ms by (simp_all add: message_buffer_ok_def)
  show ?thesis
  proof (rule ensures_mono [OF message_read [OF _ _ c]], goal_cases)
    case (5 r)
    obtain b' bytes where r: "r = (b', bytes)" by (cases r)
    show ?case
    proof (cases "length m \<le> n")
      case True
      then have b': "sb_ok b'" "same_setup b b'" "bytes = m" "sb_contents b' = concat (map frame ms)" using 5 by (simp_all add: r)
      have "message_buffer_ok b' \<and> sb_messages b' = ms"
        by (rule message_buffer_okI) (use ok b' st same_setup_message [OF b'(2)] in \<open>simp_all add: message_buffer_ok_def\<close>)
      then show ?thesis using True b' by (simp add: r)
    next
      case False
      then show ?thesis using 5 ok by (simp add: r)
    qed
  qed (use ok st in \<open>simp_all add: message_buffer_ok_def storable_def\<close>)
qed

text \<open>Nothing to read: fewer bytes than the length of a message takes.\<close>

lemma no_messages:
  assumes "message_buffer_ok b"
  shows "prvBytesInBuffer b \<le> sbBYTES_TO_STORE_MESSAGE_LENGTH \<longleftrightarrow> sb_messages b = []"
proof (cases "sb_messages b")
  case Nil
  then show ?thesis using assms length_sb_contents [of b] by (simp add: message_buffer_ok_def)
next
  case (Cons m ms)
  then have "sb_contents b = frame m @ concat (map frame ms)" "m \<noteq> []"
    using assms by (simp_all add: message_buffer_ok_def storable_def)
  then have "length (sb_contents b) > sbBYTES_TO_STORE_MESSAGE_LENGTH" by (cases m) simp_all
  then show ?thesis using Cons by simp
qed

end
