(* ===== verification/Stream_Wake.thy ===== *)
theory Stream_Wake
  imports Stream_Ops Stream_Messages
begin

text \<open>
  The calls on a buffer with the waking of the other side: data is stored or taken out, and a
  task that waits for it becomes ready.
\<close>

section \<open>Tasks that wait at a buffer\<close>

text \<open>
  What the waking of a registered task relies on: if it waits for its notification, it waits for
  nothing else and has not been deleted.
\<close>

definition wakeable :: "kernel \<Rightarrow> task \<Rightarrow> nat \<Rightarrow> bool" where
  "wakeable k t i \<longleftrightarrow> (waits_at i t k \<longrightarrow>
     event_list k t = None \<and> state_list k t \<noteq> None \<and> state_list k t \<noteq> Some TerminationL)"

definition sb_sys :: "stream_handle \<Rightarrow> stream_buffer \<Rightarrow> stream_os \<Rightarrow> bool" where
  "sb_sys h b s \<longleftrightarrow> sys_inv (skern s) \<and> buffers s h = Some b \<and>
     uxNotificationIndex b < configTASK_NOTIFICATION_ARRAY_ENTRIES \<and>
     (\<forall>d t. sb_waiting d b = Some t \<longrightarrow> wakeable (skern s) t (uxNotificationIndex b))"

lemma all_sides: "(\<forall>d. P d) \<longleftrightarrow> P Receiver \<and> P Sender"
  by (metis sb_side.exhaust)

lemma sb_waiting_set [simp]:
  "sb_waiting d (set_sb_waiting d t b) = t"
  "d \<noteq> d' \<Longrightarrow> sb_waiting d (set_sb_waiting d' t b) = sb_waiting d b"
  "uxNotificationIndex (set_sb_waiting d t b) = uxNotificationIndex b"
  "ucFlags (set_sb_waiting d t b) = ucFlags b" "xLength (set_sb_waiting d t b) = xLength b"
  "xTriggerLevelBytes (set_sb_waiting d t b) = xTriggerLevelBytes b"
  by (cases d; cases d'; simp)+

lemma set_sb_waiting_same: "sb_waiting d b = None \<Longrightarrow> set_sb_waiting d None b = b"
  by (cases d; cases b; simp)

lemma set_sb_waiting_ring [simp]:
  "sb_contents (set_sb_waiting d t b) = sb_contents b" "sb_ok (set_sb_waiting d t b) = sb_ok b"
  "is_message_buffer (set_sb_waiting d t b) = is_message_buffer b"
  "prvBytesInBuffer (set_sb_waiting d t b) = prvBytesInBuffer b"
  "spaces_available (set_sb_waiting d t b) = spaces_available b"
  by (cases d; simp add: sb_contents_def ring_at_def [abs_def] prvBytesInBuffer_def spaces_available_def sb_ok_def
      is_message_buffer_def Let_def)+

lemma set_sb_waiting_data [simp]:
  "sb_messages (set_sb_waiting d t b) = sb_messages b" "message_buffer_ok (set_sb_waiting d t b) = message_buffer_ok b"
  "stream_ok (set_sb_waiting d t b) = stream_ok b"
  by (simp_all add: sb_messages_def message_buffer_ok_def stream_ok_def)

declare set_sb_waiting.simps [simp del]

lemma sb_waiting_setup: "same_setup b b' \<Longrightarrow> sb_waiting d b' = sb_waiting d b"
  by (cases d) (simp_all add: same_setup_def)

declare sb_waiting.simps [simp del]

lemma sb_sys_store:
  assumes "sb_sys h b s" and "same_setup b b'" shows "sb_sys h b' (set_buffer h b' s)"
  using assms sb_waiting_setup [OF assms(2)] by (simp add: sb_sys_def) (simp add: same_setup_def)

text \<open>
  What waking the side \<open>d\<close> does: the waiting task is not registered any more, its notification is
  there, and if it waited it is ready or, with the scheduler locked, will be.
\<close>

definition side_woken :: "sb_side \<Rightarrow> stream_buffer \<Rightarrow> kernel \<Rightarrow> kernel \<Rightarrow> bool" where
  "side_woken d b k k' \<longleftrightarrow> (\<forall>t. sb_waiting d b = Some t \<longrightarrow>
     ucNotifyState (tcbs k' t) ! uxNotificationIndex b = taskNOTIFICATION_RECEIVED \<and>
     (waits_at (uxNotificationIndex b) t k \<longrightarrow> ready k' t \<or> event_list k' t = Some PendingReadyL))"

lemma notified_state:
  assumes "sys_inv k" and "i < configTASK_NOTIFICATION_ARRAY_ENTRIES"
  shows "ucNotifyState (notified_tcb i v a (tcbs k t)) ! i = taskNOTIFICATION_RECEIVED"
  using notify_lengths(2) [OF assms(1), of t] assms(2) by (simp add: notified_tcb_def)

lemma wakeable_after:
  assumes w: "wakeable k x i" and s: "sys_inv k" and i: "i < configTASK_NOTIFICATION_ARRAY_ENTRIES"
    and tc: "tcbs k' = (tcbs k)(t := notified_tcb i v a (tcbs k t))"
    and same: "\<And>x. x \<noteq> t \<Longrightarrow> state_list k' x = state_list k x \<and> event_list k' x = event_list k x"
  shows "wakeable k' x i"
  using w same [of x] notified_state [OF s i, of v a t] by (cases "x = t") (simp_all add: wakeable_def tc)

section \<open>Waking from an interrupt\<close>

text \<open>With the scheduler locked, a task that is woken is among those to be made ready.\<close>

definition put_off :: "sb_side \<Rightarrow> stream_buffer \<Rightarrow> kernel \<Rightarrow> kernel \<Rightarrow> bool" where
  "put_off d b k k' \<longleftrightarrow> (\<forall>t. sb_waiting d b = Some t \<and> waits_at (uxNotificationIndex b) t k \<and> uxSchedulerSuspended k \<noteq> 0 \<longrightarrow>
     event_list k' t = Some PendingReadyL)"

lemma sb_completed_from_isr_ensures:
  assumes s: "sb_sys h b s" and cur: "pxCurrentTCB (skern s) = Some c"
  shows "ensures (sb_completed_from_isr d h s) (\<lambda>(s', y, woken). sb_sys h (set_sb_waiting d None b) s' \<and>
    buffers s' = (buffers s)(h \<mapsto> set_sb_waiting d None b) \<and> y = (sb_waiting d b \<noteq> None) \<and>
    side_woken d b (skern s) (skern s') \<and> pxCurrentTCB (skern s') = Some c \<and>
    uxSchedulerSuspended (skern s') = uxSchedulerSuspended (skern s) \<and> xIdleTaskHandle (skern s') = xIdleTaskHandle (skern s) \<and>
    put_off d b (skern s) (skern s') \<and>
    (\<forall>t. sb_waiting d b \<noteq> Some t \<longrightarrow> tcbs (skern s') t = tcbs (skern s) t \<and> state_list (skern s') t = state_list (skern s) t \<and>
       event_list (skern s') t = event_list (skern s) t))"
proof (cases "sb_waiting d b")
  case None
  then show ?thesis
    using s cur by (simp add: sb_completed_from_isr_def sb_sys_def side_woken_def put_off_def set_sb_waiting_same fun_upd_idem)
next
  case (Some t)
  let ?k = "skern s" and ?i = "uxNotificationIndex b"
  have sk: "sys_inv ?k" and b: "buffers s h = Some b" and i: "?i < configTASK_NOTIFICATION_ARRAY_ENTRIES"
    and wk: "\<And>d x. sb_waiting d b = Some x \<Longrightarrow> wakeable ?k x ?i" using s by (auto simp: sb_sys_def)
  have w: "event_list ?k t = None \<and> state_list ?k t \<noteq> None \<and> state_list ?k t \<noteq> Some TerminationL" if "waits_at ?i t ?k"
    using wk [OF Some] that by (simp add: wakeable_def)
  show ?thesis
    unfolding sb_completed_from_isr_def b Some Option.bind.bind_lunit option.case ensures_bind
  proof (rule ensures_mono [OF xTaskGenericNotifyFromISR_ensures [OF sk cur i w, of 0 eNoAction]], assumption, goal_cases)
    case (1 r)
    obtain k' ok old y where r: "r = (k', ok, old, y)" by (cases r)
    from 1 have k': "sys_inv k'" "tcbs k' = (tcbs ?k)(t := notified_tcb ?i 0 eNoAction (tcbs ?k t))"
        "pxCurrentTCB k' = Some c" "uxSchedulerSuspended k' = uxSchedulerSuspended ?k" "xIdleTaskHandle k' = xIdleTaskHandle ?k"
      and woken: "waits_at ?i t ?k \<Longrightarrow> ready k' t \<or> event_list k' t = Some PendingReadyL"
      and off: "waits_at ?i t ?k \<Longrightarrow> uxSchedulerSuspended ?k \<noteq> 0 \<Longrightarrow> event_list k' t = Some PendingReadyL"
      and same: "\<And>x. x \<noteq> t \<Longrightarrow> state_list k' x = state_list ?k x \<and> event_list k' x = event_list ?k x"
      using cur by (auto simp: r split: if_splits)
    have "wakeable k' x ?i" if "sb_waiting d' (set_sb_waiting d None b) = Some x" for d' x
      using wakeable_after [OF _ sk i k'(2) same] wk [of d' x] that by (cases "d' = d") simp_all
    moreover have "side_woken d b ?k k'"
      using Some woken notified_state [OF sk i] k'(2) by (simp add: side_woken_def)
    moreover have "put_off d b ?k k'" using Some off by (simp add: put_off_def)
    ultimately show ?case using k' i same by (auto simp: r sb_sys_def Some)
  qed
qed

section \<open>Waking from a task\<close>

text \<open>What no waking changes.\<close>

definition same_sched :: "kernel \<Rightarrow> kernel \<Rightarrow> bool" where
  "same_sched k k' \<longleftrightarrow> uxSchedulerSuspended k' = uxSchedulerSuspended k \<and> xPendedTicks k' = xPendedTicks k \<and>
     (\<forall>x. event_list k' x = event_list k x) \<and> (uxSchedulerSuspended k \<noteq> 0 \<longrightarrow> pxCurrentTCB k' = pxCurrentTCB k) \<and>
     xIdleTaskHandle k' = xIdleTaskHandle k"

lemma same_sched_refl [simp]: "same_sched k k"
  by (simp add: same_sched_def)

lemma same_sched_steps:
  "same_sched k (prvAddTaskToReadyList t k)" "same_sched k (prvResetNextTaskUnblockTime k)" "same_sched k (upd_tcb t f k)"
  by (simp_all add: same_sched_def prvAddTaskToReadyList_def taskRECORD_READY_PRIORITY_def list_insert_end_def
      prvResetNextTaskUnblockTime_def split: list.split)

lemma same_sched_remove: "k_list_remove (StateI t) k = Some k' \<Longrightarrow> same_sched k k'"
  by (auto simp: same_sched_def k_list_remove_def list_remove_def split: option.splits)

lemma same_sched_switch: "vTaskSwitchContext k = Some k' \<Longrightarrow> same_sched k k'"
  by (auto simp: same_sched_def vTaskSwitchContext_def taskSELECT_HIGHEST_PRIORITY_TASK_def list_next_entry_def
        Let_def split: if_splits option.splits list.splits bind_splits)

lemma same_sched_preempt: "taskYIELD_ANY_CORE_IF_USING_PREEMPTION t k = Some k' \<Longrightarrow> same_sched k k'"
  by (auto simp: taskYIELD_ANY_CORE_IF_USING_PREEMPTION_def dest: same_sched_switch split: if_splits bind_splits)

lemma same_sched_trans: "same_sched k k1 \<Longrightarrow> same_sched k1 k2 \<Longrightarrow> same_sched k k2"
  by (auto simp: same_sched_def)

lemma notify_frame:
  assumes "xTaskGenericNotify t i v a k = Some (k', r)"
  shows "same_sched k k'"
proof -
  let ?k1 = "upd_tcb t (set_notify_state i taskNOTIFICATION_RECEIVED) k"
  obtain f where f: "k' = upd_tcb t f ?k1 \<or> (\<exists>k3. k_list_remove (StateI t) (upd_tcb t f ?k1) = Some k3 \<and>
      taskYIELD_ANY_CORE_IF_USING_PREEMPTION t (prvResetNextTaskUnblockTime (prvAddTaskToReadyList t k3)) = Some k')"
    using assms unfolding xTaskGenericNotify_def Let_def case_prod_unfold
    by (auto simp del: fun_upd_apply simp: bind_eq_Some_conv split: if_splits)
  have up: "same_sched k (upd_tcb t f ?k1)" using same_sched_trans same_sched_steps(3) by blast
  show ?thesis
    using f
  proof (elim disjE exE conjE)
    fix k3 assume "k_list_remove (StateI t) (upd_tcb t f ?k1) = Some k3"
      "taskYIELD_ANY_CORE_IF_USING_PREEMPTION t (prvResetNextTaskUnblockTime (prvAddTaskToReadyList t k3)) = Some k'"
    then show ?thesis
      using same_sched_trans [OF up] same_sched_remove same_sched_preempt same_sched_steps(1,2) same_sched_trans by meson
  qed (use up in simp)
qed

lemma nothing_put_off_same:
  assumes "sys_inv k" and "sys_inv k'" and "same_sched k k'" and "nothing_put_off k"
  shows "nothing_put_off k'"
proof -
  have "members k' PendingReadyL = []" if m: "members k PendingReadyL = []"
  proof (rule ccontr)
    assume "members k' PendingReadyL \<noteq> []"
    then obtain i where i: "i \<in> set (members k' PendingReadyL)" by (cases "members k' PendingReadyL") auto
    have "i = EventI (owner i)" using event_member [OF sys_invD(2) [OF assms(2)] i] by simp
    with i have "event_list k' (owner i) = Some PendingReadyL" using member_iff(2) [OF sys_invD(2) [OF assms(2)]] by metis
    then have "event_list k (owner i) = Some PendingReadyL" using assms(3) by (simp add: same_sched_def)
    then show False using m member_iff(2) [OF sys_invD(2) [OF assms(1)]] by (metis empty_iff empty_set)
  qed
  then show ?thesis using assms(3,4) by (auto simp: nothing_put_off_def same_sched_def)
qed

lemma sb_completed_ensures:
  assumes s: "sb_sys h b s"
  shows "ensures (sb_completed d h s) (\<lambda>s'. sb_sys h (set_sb_waiting d None b) s' \<and>
    buffers s' = (buffers s)(h \<mapsto> set_sb_waiting d None b) \<and> side_woken d b (skern s) (skern s') \<and>
    uxSchedulerSuspended (skern s') = uxSchedulerSuspended (skern s) \<and>
    (\<forall>t. sb_waiting d b \<noteq> Some t \<longrightarrow> tcbs (skern s') t = tcbs (skern s) t \<and> state_list (skern s') t = state_list (skern s) t \<and>
       event_list (skern s') t = event_list (skern s) t))"
proof -
  let ?k = "skern s" and ?i = "uxNotificationIndex b" and ?k1 = "vTaskSuspendAll (skern s)"
  have sk: "sys_inv ?k" and b: "buffers s h = Some b" and i: "?i < configTASK_NOTIFICATION_ARRAY_ENTRIES"
    and wk: "\<And>d x. sb_waiting d b = Some x \<Longrightarrow> wakeable ?k x ?i" using s by (auto simp: sb_sys_def)
  have same1: "tcbs ?k1 = tcbs ?k" "container (lists ?k1) = container (lists ?k)" "uxSchedulerSuspended ?k1 = uxSchedulerSuspended ?k + 1"
    by (simp_all add: vTaskSuspendAll_def)
  note s1 = sys_inv_lock [OF sk] and n1 = nothing_put_off_suspend [OF sk]
  have fin: "ensures (xTaskResumeAll k2) (\<lambda>(k3, y). sys_inv k3 \<and> undisturbed k2 k3)"
    if "sys_inv k2" "same_sched ?k1 k2" for k2
    by (rule resume_undisturbed) (use that nothing_put_off_same [OF s1 that n1] in \<open>simp_all add: same_sched_def same1\<close>)
  show ?thesis
  proof (cases "sb_waiting d b")
    case None
    have "ensures (xTaskResumeAll ?k1) (\<lambda>(k3, y). sys_inv k3 \<and> undisturbed ?k1 k3)" by (rule fin) (use s1 in simp_all)
    then show ?thesis
      unfolding sb_completed_def Let_def b None Option.bind.bind_lunit option.case prod.case ensures_bind
    proof (rule ensures_mono, goal_cases)
      case (1 r)
      obtain k3 y where "r = (k3, y)" by (cases r)
      with 1 show ?case
        using wk i by (simp add: sb_sys_def set_sb_waiting_same None side_woken_def undisturbed_def same1 wakeable_def)
    qed
  next
    case (Some t)
    have w: "event_list ?k1 t = None \<and> state_list ?k1 t \<noteq> None \<and> state_list ?k1 t \<noteq> Some TerminationL" if "waits_at ?i t ?k1"
      using wk [OF Some] that by (simp add: wakeable_def same1)
    have "ensures (xTaskGenericNotify t ?i 0 eNoAction ?k1) (\<lambda>(k2, ok, old). (sys_inv k2 \<and>
        (waits_at ?i t ?k1 \<longrightarrow> ready k2 t) \<and> tcbs k2 = (tcbs ?k)(t := notified_tcb ?i 0 eNoAction (tcbs ?k t)) \<and>
        (\<forall>x. x \<noteq> t \<longrightarrow> state_list k2 x = state_list ?k x)) \<and> same_sched ?k1 k2)"
      using xTaskGenericNotify_ensures [OF s1 i w, of 0 eNoAction] notify_frame
      by (fastforce simp: ensures_iff same1)
    then show ?thesis
      unfolding sb_completed_def Let_def b Some Option.bind.bind_lunit option.case ensures_bind
    proof (rule ensures_mono, goal_cases)
      case (1 r)
      obtain k2 ok old where r: "r = (k2, ok, old)" by (cases r)
      from 1 have k2: "sys_inv k2" "tcbs k2 = (tcbs ?k)(t := notified_tcb ?i 0 eNoAction (tcbs ?k t))" "same_sched ?k1 k2"
        and rd: "waits_at ?i t ?k \<longrightarrow> ready k2 t" and same: "\<And>x. x \<noteq> t \<Longrightarrow> state_list k2 x = state_list ?k x"
        by (simp_all add: r same1)
      have ev: "event_list k2 x = event_list ?k x" and susp: "uxSchedulerSuspended k2 = uxSchedulerSuspended ?k + 1" for x
        using k2(3) by (simp_all add: same_sched_def same1)
      have "ensures (xTaskResumeAll k2) (\<lambda>(k3, y). sb_sys h (set_sb_waiting d None b) (set_buffer h (set_sb_waiting d None b) (s\<lparr>skern := k3\<rparr>)) \<and>
        side_woken d b ?k k3 \<and> uxSchedulerSuspended k3 = uxSchedulerSuspended ?k \<and>
        (\<forall>x. x \<noteq> t \<longrightarrow> tcbs k3 x = tcbs ?k x \<and> state_list k3 x = state_list ?k x \<and> event_list k3 x = event_list ?k x))"
      proof (rule ensures_mono [OF fin [OF k2(1,3)]], goal_cases)
        case (1 q)
        obtain k3 y where q: "q = (k3, y)" by (cases q)
        from 1 have k3: "sys_inv k3" "tcbs k3 = (tcbs ?k)(t := notified_tcb ?i 0 eNoAction (tcbs ?k t))"
          "container (lists k3) = container (lists k2)" "uxSchedulerSuspended k3 = uxSchedulerSuspended ?k"
          using k2(2) susp by (simp_all add: q undisturbed_def)
        have same3: "x \<noteq> t \<Longrightarrow> state_list k3 x = state_list ?k x \<and> event_list k3 x = event_list ?k x" for x
          using k3(3) same ev by simp
        have "wakeable k3 x ?i" if "sb_waiting d' (set_sb_waiting d None b) = Some x" for d' x
          using wakeable_after [OF _ sk i k3(2) same3] wk [of d' x] that by (cases "d' = d") simp_all
        moreover have "side_woken d b ?k k3"
          using Some rd notified_state [OF sk i] k3(2,3) k2(2) by (simp add: side_woken_def ready_def)
        ultimately show ?case using k3 i same3 by (simp add: q sb_sys_def)
      qed
      then show ?case by (simp add: r case_prod_unfold Some) (erule ensures_mono, simp)
    qed
  qed
qed

section \<open>Sending and receiving\<close>

text \<open>
  The buffer \<open>b\<close> has become \<open>b1\<close>, and if \<open>go\<close>, the task that waits at the side \<open>d\<close> has been woken.
\<close>

definition transferred :: "sb_side \<Rightarrow> stream_handle \<Rightarrow> stream_buffer \<Rightarrow> stream_buffer \<Rightarrow> bool \<Rightarrow> stream_os \<Rightarrow> stream_os \<Rightarrow> bool" where
  "transferred d h b b1 go s s' \<longleftrightarrow> (let b' = (if go then set_sb_waiting d None b1 else b1) in
     sb_sys h b' s' \<and> buffers s' = (buffers s)(h \<mapsto> b') \<and> (go \<longrightarrow> side_woken d b (skern s) (skern s')) \<and>
     uxSchedulerSuspended (skern s') = uxSchedulerSuspended (skern s) \<and>
     (\<forall>t. sb_waiting d b \<noteq> Some t \<longrightarrow> tcbs (skern s') t = tcbs (skern s) t \<and>
        state_list (skern s') t = state_list (skern s) t \<and> event_list (skern s') t = event_list (skern s) t))"

lemma side_woken_setup: "same_setup b b1 \<Longrightarrow> side_woken d b1 k k' = side_woken d b k k'"
  using sb_waiting_setup [of b b1 d] by (simp add: side_woken_def same_setup_def)

lemma transferred_store:
  assumes "sb_sys h b s" and "same_setup b b1" shows "transferred d h b b1 False s (set_buffer h b1 s)"
  using sb_sys_store [OF assms] by (simp add: transferred_def)

lemma completed_transferred:
  assumes s: "sb_sys h b s" and b1: "same_setup b b1"
  shows "ensures (sb_completed d h (set_buffer h b1 s)) (transferred d h b b1 True s)"
  by (rule ensures_mono [OF sb_completed_ensures [OF sb_sys_store [OF s b1]]])
    (use sb_waiting_setup [OF b1] side_woken_setup [OF b1] in \<open>simp add: transferred_def\<close>)

definition from_isr :: "sb_side \<Rightarrow> stream_buffer \<Rightarrow> bool \<Rightarrow> kernel \<Rightarrow> kernel \<Rightarrow> bool" where
  "from_isr d b go k k' \<longleftrightarrow> pxCurrentTCB k' = pxCurrentTCB k \<and> xIdleTaskHandle k' = xIdleTaskHandle k \<and>
     (go \<longrightarrow> put_off d b k k')"

lemma put_off_setup: "same_setup b b1 \<Longrightarrow> put_off d b1 k k' = put_off d b k k'"
  using sb_waiting_setup [of b b1 d] by (simp add: put_off_def same_setup_def)

lemma completed_from_isr_transferred:
  assumes s: "sb_sys h b s" and b1: "same_setup b b1"
  shows "ensures (sb_completed_from_isr d h (set_buffer h b1 s)) (\<lambda>(s', y, woken).
    transferred d h b b1 True s s' \<and> from_isr d b True (skern s) (skern s') \<and> y = (sb_waiting d b \<noteq> None))"
proof -
  have "sys_inv (skern s)" using s by (simp add: sb_sys_def)
  then obtain c where "pxCurrentTCB (skern s) = Some c" using current_readyE [OF sys_invD(5)] by blast
  then have c: "pxCurrentTCB (skern (set_buffer h b1 s)) = Some c" by simp
  show ?thesis
    by (rule ensures_mono [OF sb_completed_from_isr_ensures [OF sb_sys_store [OF s b1] c]])
      (use c sb_waiting_setup [OF b1] side_woken_setup [OF b1] put_off_setup [OF b1] in \<open>auto simp: transferred_def from_isr_def\<close>)
qed

definition send_request :: "stream_buffer \<Rightarrow> nat \<Rightarrow> nat" where
  "send_request b n = (if is_message_buffer b then size_add n sbBYTES_TO_STORE_MESSAGE_LENGTH else n)"

text \<open>When a send wakes the receiver.\<close>

definition triggers :: "nat \<Rightarrow> stream_buffer \<Rightarrow> bool" where
  "triggers k b \<longleftrightarrow> 0 < k \<and> xTriggerLevelBytes b \<le> prvBytesInBuffer b"

lemma SendFromISR_ensures:
  assumes s: "sb_sys h b s"
    and W: "ensures (prvWriteMessageToBuffer data n (spaces_available b) (send_request b n) b)
      (\<lambda>(b1, k). same_setup b b1 \<and> P b1 k)"
  shows "ensures (xStreamBufferSendFromISR h data n s) (\<lambda>(s', k, woken). \<exists>b1. P b1 k \<and> same_setup b b1 \<and>
    transferred Receiver h b b1 (triggers k b1) s s' \<and> from_isr Receiver b (triggers k b1) (skern s) (skern s'))"
proof -
  have b: "buffers s h = Some b" using s by (simp add: sb_sys_def)
  show ?thesis
    unfolding xStreamBufferSendFromISR_def Let_def b Option.bind.bind_lunit ensures_bind send_request_def [symmetric]
  proof (rule ensures_mono [OF W], goal_cases)
    case (1 r)
    obtain b1 k where r: "r = (b1, k)" by (cases r)
    from 1 have b1: "same_setup b b1" "P b1 k" by (simp_all add: r)
    note ct = completed_from_isr_transferred [OF s b1(1), of Receiver]
    show ?case
    proof (cases "triggers k b1")
      case True
      then show ?thesis
        using ct b1 by (auto simp: r triggers_def sbSEND_COMPLETE_FROM_ISR_def case_prod_unfold elim!: ensures_mono)
    next
      case False
      then show ?thesis
        using transferred_store [OF s b1(1)] b1 by (auto simp: r triggers_def from_isr_def)
    qed
  qed
qed

lemma stream_store_ensures:
  assumes s: "sb_sys h b s" and sp: "sp \<le> spaces_available b"
    and W: "ensures (prvWriteMessageToBuffer data n sp req b) (\<lambda>(b1, k). same_setup b b1 \<and> P b1 k)"
  shows "ensures (stream_store (\<lambda>_. Some) h data n sp req s) (\<lambda>(s', k). \<exists>b1. P b1 k \<and> same_setup b b1 \<and>
    transferred Receiver h b b1 (triggers k b1) s s')"
proof -
  have b: "buffers s h = Some b" using s by (simp add: sb_sys_def)
  show ?thesis
    unfolding stream_store_def Let_def b Option.bind.bind_lunit ensures_bind
  proof (rule ensures_mono [OF W], goal_cases)
    case (1 r)
    obtain b1 k where r: "r = (b1, k)" by (cases r)
    from 1 have b1: "same_setup b b1" "P b1 k" by (simp_all add: r)
    note ct = completed_transferred [OF s b1(1), of Receiver]
    show ?case
    proof (cases "triggers k b1")
      case True
      then show ?thesis
        using ct b1 by (auto simp: r triggers_def sbSEND_COMPLETED_def elim!: ensures_mono)
    next
      case False
      then show ?thesis
        using transferred_store [OF s b1(1)] b1 by (auto simp: r triggers_def)
    qed
  qed
qed

text \<open>Receiving what is there.\<close>

lemma ReceiveFromISR_ensures:
  assumes s: "sb_sys h b s"
    and some: "prvBytesInBuffer b > (if is_message_buffer b then sbBYTES_TO_STORE_MESSAGE_LENGTH else 0)"
    and R: "ensures (prvReadMessageFromBuffer n (prvBytesInBuffer b) b) (\<lambda>(b1, bytes). same_setup b b1 \<and> P b1 bytes)"
  shows "ensures (xStreamBufferReceiveFromISR h n s) (\<lambda>(s', bytes, woken). \<exists>b1. P b1 bytes \<and> same_setup b b1 \<and>
    transferred Sender h b b1 (bytes \<noteq> []) s s' \<and> from_isr Sender b (bytes \<noteq> []) (skern s) (skern s'))"
proof -
  have b: "buffers s h = Some b" using s by (simp add: sb_sys_def)
  show ?thesis
    unfolding xStreamBufferReceiveFromISR_def Let_def b Option.bind.bind_lunit if_P [OF some] ensures_bind
  proof (rule ensures_mono [OF R], goal_cases)
    case (1 r)
    obtain b1 bytes where r: "r = (b1, bytes)" by (cases r)
    from 1 have b1: "same_setup b b1" "P b1 bytes" by (simp_all add: r)
    note ct = completed_from_isr_transferred [OF s b1(1), of Sender]
    show ?case
    proof (cases "bytes = []")
      case True
      then show ?thesis
        using transferred_store [OF s b1(1)] b1 by (auto simp: r from_isr_def)
    next
      case False
      then show ?thesis
        using ct b1 by (auto simp: r sbRECEIVE_COMPLETED_FROM_ISR_def case_prod_unfold elim!: ensures_mono)
    qed
  qed
qed

lemma Receive_now_ensures:
  assumes s: "sb_sys h b s" and some: "prvBytesInBuffer b > receive_threshold b"
    and R: "ensures (prvReadMessageFromBuffer n (prvBytesInBuffer b) b) (\<lambda>(b1, bytes). same_setup b b1 \<and> P b1 bytes)"
  shows "ensures (xStreamBufferReceive (\<lambda>_. Some) h n w s) (\<lambda>(s', bytes). \<exists>b1. P b1 bytes \<and> same_setup b b1 \<and>
    transferred Sender h b b1 (bytes \<noteq> []) s s')"
proof -
  have b: "buffers s h = Some b" using s by (simp add: sb_sys_def)
  have now: "xStreamBufferReceive (\<lambda>_. Some) h n w s = do {
       (b, bytes) \<leftarrow> prvReadMessageFromBuffer n (prvBytesInBuffer b) b;
       s \<leftarrow> (if bytes \<noteq> [] then sbRECEIVE_COMPLETED h (set_buffer h b s) else Some (set_buffer h b s));
       Some (s, bytes) }"
    using some by (simp add: xStreamBufferReceive_def xStreamBufferReceive_test_def b Let_def not_le)
  show ?thesis
    unfolding now ensures_bind
  proof (rule ensures_mono [OF R], goal_cases)
    case (1 r)
    obtain b1 bytes where r: "r = (b1, bytes)" by (cases r)
    from 1 have b1: "same_setup b b1" "P b1 bytes" by (simp_all add: r)
    note ct = completed_transferred [OF s b1(1), of Sender]
    show ?case
    proof (cases "bytes = []")
      case True
      then show ?thesis
        using transferred_store [OF s b1(1)] b1 by (auto simp: r)
    next
      case False
      then show ?thesis
        using ct b1 by (auto simp: r sbRECEIVE_COMPLETED_def elim!: ensures_mono)
    qed
  qed
qed

end
