(* ===== verification/Stream_Channel.thy ===== *)
theory Stream_Channel
  imports Stream_Wake
begin

text \<open>
  The contract of a channel, and both kinds of buffer as channels: what is sent from tasks and
  interrupts comes out in that order, whoever receives it, bytes or whole messages.
\<close>

section \<open>The contract\<close>

datatype ('d, 'n) channel_op = Send 'd | Receive 'n

fun channel_run :: "('d \<Rightarrow> 's \<Rightarrow> ('s \<times> 'x list) option) \<Rightarrow> ('n \<Rightarrow> 's \<Rightarrow> ('s \<times> 'x list) option) \<Rightarrow>
    ('d, 'n) channel_op list \<Rightarrow> 's \<Rightarrow> ('s \<times> 'x list \<times> 'x list) option" where
  "channel_run send receive [] s = Some (s, [], [])"
| "channel_run send receive (Send d # ops) s = do {
     (s, xs) \<leftarrow> send d s;
     (s, ins, outs) \<leftarrow> channel_run send receive ops s;
     Some (s, xs @ ins, outs) }"
| "channel_run send receive (Receive n # ops) s = do {
     (s, ys) \<leftarrow> receive n s;
     (s, ins, outs) \<leftarrow> channel_run send receive ops s;
     Some (s, ins, ys @ outs) }"

text \<open>A send takes some of what it is given, in order; a receive hands out the first of what is inside.\<close>

locale channel =
  fixes ok :: "'s \<Rightarrow> bool" and content :: "'s \<Rightarrow> 'x list" and fits :: "'d \<Rightarrow> bool"
    and send :: "'d \<Rightarrow> 's \<Rightarrow> ('s \<times> 'x list) option" and receive :: "'n \<Rightarrow> 's \<Rightarrow> ('s \<times> 'x list) option"
  assumes send: "ok s \<Longrightarrow> fits d \<Longrightarrow> ensures (send d s) (\<lambda>(s', xs). ok s' \<and> content s' = content s @ xs)"
    and receive: "ok s \<Longrightarrow> ensures (receive n s) (\<lambda>(s', ys). ok s' \<and> content s = ys @ content s')"
begin

lemma in_order:
  assumes "ok s" and "\<And>d. Send d \<in> set ops \<Longrightarrow> fits d"
  shows "ensures (channel_run send receive ops s) (\<lambda>(s', ins, outs). ok s' \<and> content s @ ins = outs @ content s')"
  using assms
proof (induction ops arbitrary: s rule: list.induct)
  case Nil
  then show ?case by simp
next
  case (Cons p ops)
  show ?case
  proof (cases p)
    case (Send d)
    have "ensures (send d s) (\<lambda>r. ensures (channel_run send receive ops (fst r)) (\<lambda>(s', ins, outs).
        ok s' \<and> content s @ (snd r @ ins) = outs @ content s'))"
    proof (rule ensures_mono [OF send [OF Cons.prems(1)]])
      show "fits d" using Cons.prems(2) Send by simp
      fix r assume r: "case r of (s', xs) \<Rightarrow> ok s' \<and> content s' = content s @ xs"
      then show "ensures (channel_run send receive ops (fst r)) (\<lambda>(s', ins, outs).
          ok s' \<and> content s @ (snd r @ ins) = outs @ content s')"
        using Cons.IH [of "fst r"] Cons.prems(2) by (cases r) simp
    qed
    then show ?thesis using Send by (simp add: case_prod_unfold)
  next
    case (Receive n)
    have "ensures (receive n s) (\<lambda>r. ensures (channel_run send receive ops (fst r)) (\<lambda>(s', ins, outs).
        ok s' \<and> content s @ ins = (snd r @ outs) @ content s'))"
    proof (rule ensures_mono [OF receive [OF Cons.prems(1)]])
      fix r assume r: "case r of (s', ys) \<Rightarrow> ok s' \<and> content s = ys @ content s'"
      then show "ensures (channel_run send receive ops (fst r)) (\<lambda>(s', ins, outs).
          ok s' \<and> content s @ ins = (snd r @ outs) @ content s')"
        using Cons.IH [of "fst r"] Cons.prems(2) by (cases r) simp
    qed
    then show ?thesis using Receive by (simp add: case_prod_unfold)
  qed
qed

end

section \<open>Sending without waiting\<close>

lemma Send_now_ensures:
  assumes s: "sb_sys h b s" and fit: "is_message_buffer b \<Longrightarrow> n + sbBYTES_TO_STORE_MESSAGE_LENGTH < 2 ^ 64"
    and now: "w = 0 \<or> min (send_request b n) (size_sub (xLength b) 1) \<le> spaces_available b"
    and W: "ensures (prvWriteMessageToBuffer data n (spaces_available b) (send_request b n) b)
      (\<lambda>(b1, k). same_setup b b1 \<and> P b1 k)"
  shows "ensures (xStreamBufferSend es (\<lambda>_. Some) h data n w s) (\<lambda>(s', r). \<exists>b1 k. r = Some k \<and> P b1 k \<and>
    same_setup b b1 \<and> transferred Receiver h b b1 (triggers k b1) s s')"
proof -
  let ?sp = "spaces_available b" and ?max = "size_sub (xLength b) 1"
  let ?req = "if is_message_buffer b then send_request b n else min n ?max"
  let ?w = "if is_message_buffer b \<and> send_request b n > ?max then 0 else w"
  have b: "buffers s h = Some b" using s by (simp add: sb_sys_def)
  have z: "0 < sbBYTES_TO_STORE_MESSAGE_LENGTH" by (simp add: sbBYTES_TO_STORE_MESSAGE_LENGTH_def)
  have enter: "xStreamBufferSend_enter h n w s = Some (?req, ?w)"
    using fit z by (auto simp: xStreamBufferSend_enter_def b Let_def send_request_def size_add_def min_def)
  have loop: "send_wait_loop es h ?req to ?w s = Some (s, Some ?sp)" if "?w \<noteq> 0" for to
  proof -
    have "\<not> ?sp < ?req" using that now by (auto simp: send_request_def min_def split: if_splits)
    then have "xStreamBufferSend_test h ?req s = Some (s, ?sp, False)" by (simp add: xStreamBufferSend_test_def b)
    then show ?thesis by (cases es) simp_all
  qed
  have W': "ensures (prvWriteMessageToBuffer data n ?sp ?req b) (\<lambda>(b1, k). same_setup b b1 \<and> P b1 k)"
    using W by (cases "is_message_buffer b") (simp_all add: prvWriteMessageToBuffer_def)
  have "xStreamBufferSend es (\<lambda>_. Some) h data n w s =
    do { (s, k) \<leftarrow> stream_store (\<lambda>_. Some) h data n ?sp ?req s; Some (s, Some k) }"
    using loop by (cases "?w = 0") (simp_all only: xStreamBufferSend_def enter Option.bind.bind_lunit prod.case
        not_not if_True if_False option.case b Let_def simp_thms, simp_all)
  then show ?thesis
    using stream_store_ensures [OF s order_refl W'] by (auto simp: case_prod_unfold elim!: ensures_mono)
qed

section \<open>Streams\<close>

text \<open>
  The call that a sender or a receiver makes: from an interrupt or, without waiting, from a task.
\<close>

datatype caller = From_ISR | From_Task

definition send_bytes :: "stream_handle \<Rightarrow> caller \<times> byte list \<Rightarrow> stream_os \<Rightarrow> (stream_os \<times> nat) option" where
  "send_bytes h d s = (case d of
       (From_ISR, data) \<Rightarrow> do { (s, k, _) \<leftarrow> xStreamBufferSendFromISR h data (length data) s; Some (s, k) }
     | (From_Task, data) \<Rightarrow> do {
         (s, r) \<leftarrow> xStreamBufferSend [] (\<lambda>_. Some) h data (length data) 0 s; k \<leftarrow> r; Some (s, k) })"

definition receive_bytes :: "stream_handle \<Rightarrow> caller \<times> nat \<Rightarrow> stream_os \<Rightarrow> (stream_os \<times> byte list) option" where
  "receive_bytes h d s = (case d of
       (From_ISR, n) \<Rightarrow> do { (s, bytes, _) \<leftarrow> xStreamBufferReceiveFromISR h n s; Some (s, bytes) }
     | (From_Task, n) \<Rightarrow> xStreamBufferReceive (\<lambda>_. Some) h n 0 s)"

definition stream_send :: "stream_handle \<Rightarrow> caller \<times> byte list \<Rightarrow> stream_os \<Rightarrow> (stream_os \<times> byte list) option" where
  "stream_send h d s = do { (s, k) \<leftarrow> send_bytes h d s; Some (s, take k (snd d)) }"

definition stream_at :: "stream_handle \<Rightarrow> stream_os \<Rightarrow> bool" where
  "stream_at h s \<longleftrightarrow> (\<exists>b. sb_sys h b s \<and> stream_ok b)"

definition bytes_at :: "stream_handle \<Rightarrow> stream_os \<Rightarrow> byte list" where
  "bytes_at h s = sb_contents (the (buffers s h))"

lemma transferred_buffer:
  assumes "transferred d h b b1 go s s'"
  obtains b' where "sb_sys h b' s'" "buffers s' h = Some b'" "b' = b1 \<or> b' = set_sb_waiting d None b1"
  using assms by (auto simp: transferred_def Let_def split: if_splits)

lemma send_bytes_ensures:
  assumes s: "sb_sys h b s" and fit: "is_message_buffer b \<Longrightarrow> length data + sbBYTES_TO_STORE_MESSAGE_LENGTH < 2 ^ 64"
    and W: "ensures (prvWriteMessageToBuffer data (length data) (spaces_available b) (send_request b (length data)) b)
      (\<lambda>(b1, k). same_setup b b1 \<and> P b1 k)"
  shows "ensures (send_bytes h (who, data) s) (\<lambda>(s', k). \<exists>b1. P b1 k \<and> same_setup b b1 \<and>
    transferred Receiver h b b1 (triggers k b1) s s')"
proof (cases who)
  case From_ISR
  show ?thesis
    using SendFromISR_ensures [OF s W]
    by (auto simp: send_bytes_def From_ISR case_prod_unfold elim!: ensures_mono)
next
  case From_Task
  show ?thesis
    using Send_now_ensures [OF s fit _ W, of 0 "[]"]
    by (auto simp: send_bytes_def From_Task case_prod_unfold elim!: ensures_mono)
qed

text \<open>What a receive finds too little of stays where it is.\<close>

lemma receive_bytes_ensures:
  assumes s: "sb_sys h b s"
    and R: "prvBytesInBuffer b > (if is_message_buffer b then sbBYTES_TO_STORE_MESSAGE_LENGTH else 0) \<Longrightarrow>
      ensures (prvReadMessageFromBuffer n (prvBytesInBuffer b) b) (\<lambda>(b1, bytes). same_setup b b1 \<and> P b1 bytes)"
    and none: "prvBytesInBuffer b \<le> (if is_message_buffer b then sbBYTES_TO_STORE_MESSAGE_LENGTH
        else if who = From_ISR then 0 else receive_threshold b) \<Longrightarrow> P b []"
  shows "ensures (receive_bytes h (who, n) s) (\<lambda>(s', bytes). \<exists>b1. P b1 bytes \<and> same_setup b b1 \<and>
    transferred Sender h b b1 (bytes \<noteq> []) s s')"
proof -
  have b: "buffers s h = Some b" using s by (simp add: sb_sys_def)
  have stay: "transferred Sender h b b False s s"
    using s by (simp add: transferred_def sb_sys_def fun_upd_idem)
  show ?thesis
  proof (cases who)
    case From_ISR
    show ?thesis
    proof (cases "prvBytesInBuffer b > (if is_message_buffer b then sbBYTES_TO_STORE_MESSAGE_LENGTH else 0)")
      case True
      show ?thesis
        using ReceiveFromISR_ensures [OF s True R [OF True]]
        by (auto simp: receive_bytes_def From_ISR case_prod_unfold elim!: ensures_mono)
    next
      case False
      then have "xStreamBufferReceiveFromISR h n s = Some (s, [], False)"
        by (simp add: xStreamBufferReceiveFromISR_def b Let_def)
      moreover have "P b []" using none False From_ISR by (simp add: not_less split: if_splits)
      ultimately show ?thesis using stay same_setup_refl by (auto simp: receive_bytes_def From_ISR)
    qed
  next
    case From_Task
    show ?thesis
    proof (cases "prvBytesInBuffer b > receive_threshold b")
      case True
      then have "prvBytesInBuffer b > (if is_message_buffer b then sbBYTES_TO_STORE_MESSAGE_LENGTH else 0)"
        by (auto simp: receive_threshold_def split: if_splits)
      then show ?thesis
        using Receive_now_ensures [OF s True R, of 0]
        by (auto simp: receive_bytes_def From_Task case_prod_unfold elim!: ensures_mono)
    next
      case False
      then have "xStreamBufferReceive (\<lambda>_. Some) h n 0 s = Some (s, [])"
        by (simp add: xStreamBufferReceive_def b Let_def)
      moreover have "P b []" using none False From_Task by (auto simp: receive_threshold_def split: if_splits)
      ultimately show ?thesis using stay same_setup_refl by (auto simp: receive_bytes_def From_Task)
    qed
  qed
qed

lemma stream_ok_same: "same_setup b b' \<Longrightarrow> sb_ok b' \<Longrightarrow> stream_ok b \<Longrightarrow> stream_ok b'"
  using same_setup_message [of b b'] by (simp add: stream_ok_def)

interpretation sc: channel "stream_at h" "bytes_at h" "\<lambda>_. True" "stream_send h" "receive_bytes h" for h
proof
  fix s :: stream_os and d :: "caller \<times> byte list" assume "stream_at h s"
  then obtain b where s: "sb_sys h b s" and ok: "stream_ok b" by (auto simp: stream_at_def)
  obtain who data where d: "d = (who, data)" by (cases d)
  have m: "\<not> is_message_buffer b" using ok by (simp add: stream_ok_def)
  have W: "ensures (prvWriteMessageToBuffer data (length data) (spaces_available b) (send_request b (length data)) b)
      (\<lambda>(b1, k). same_setup b b1 \<and> (stream_ok b1 \<and> sb_contents b1 = sb_contents b @ take k data))"
    by (rule ensures_mono [OF stream_write [of b "length data" data]])
      (use ok m stream_ok_same [of b] in \<open>auto simp: stream_ok_def\<close>)
  show "ensures (stream_send h d s) (\<lambda>(s', xs). stream_at h s' \<and> bytes_at h s' = bytes_at h s @ xs)"
    unfolding stream_send_def ensures_bind d
  proof (rule ensures_mono [OF send_bytes_ensures [OF s _ W]], goal_cases)
    case (2 r)
    obtain s' k where r: "r = (s', k)" by (cases r)
    from 2 obtain b1 where b1: "stream_ok b1" "sb_contents b1 = sb_contents b @ take k data"
      and t: "transferred Receiver h b b1 (triggers k b1) s s'" by (auto simp: r)
    show ?case
      by (rule transferred_buffer [OF t]) (use b1 s in \<open>auto simp: r stream_at_def bytes_at_def sb_sys_def\<close>)
  qed (use m in simp)
next
  fix s :: stream_os and d :: "caller \<times> nat" assume "stream_at h s"
  then obtain b where s: "sb_sys h b s" and ok: "stream_ok b" by (auto simp: stream_at_def)
  obtain who n where d: "d = (who, n)" by (cases d)
  have R: "ensures (prvReadMessageFromBuffer n (prvBytesInBuffer b) b)
      (\<lambda>(b1, bytes). same_setup b b1 \<and> (stream_ok b1 \<and> sb_contents b = bytes @ sb_contents b1))"
    by (rule ensures_mono [OF stream_read [of b n]])
      (use ok stream_ok_same [of b] in \<open>auto simp: stream_ok_def\<close>)
  show "ensures (receive_bytes h d s) (\<lambda>(s', ys). stream_at h s' \<and> bytes_at h s = ys @ bytes_at h s')"
    unfolding d
  proof (rule ensures_mono [OF receive_bytes_ensures [OF s R]], goal_cases)
    case (2 r)
    obtain s' bytes where r: "r = (s', bytes)" by (cases r)
    from 2 obtain b1 where b1: "stream_ok b1" "sb_contents b = bytes @ sb_contents b1"
      and t: "transferred Sender h b b1 (bytes \<noteq> []) s s'" by (auto simp: r)
    show ?case
      by (rule transferred_buffer [OF t]) (use b1 s in \<open>auto simp: r stream_at_def bytes_at_def sb_sys_def\<close>)
  qed (use ok in simp)
qed

section \<open>Message buffers\<close>

text \<open>A message that was taken, and one that was handed out: none has no bytes.\<close>

definition one_message :: "byte list \<Rightarrow> byte list list" where
  "one_message bs = (if bs = [] then [] else [bs])"

definition message_send :: "stream_handle \<Rightarrow> caller \<times> byte list \<Rightarrow> stream_os \<Rightarrow> (stream_os \<times> byte list list) option" where
  "message_send h d s = do { (s, k) \<leftarrow> send_bytes h d s; Some (s, one_message (take k (snd d))) }"

definition message_receive :: "stream_handle \<Rightarrow> caller \<times> nat \<Rightarrow> stream_os \<Rightarrow> (stream_os \<times> byte list list) option" where
  "message_receive h d s = do { (s, bytes) \<leftarrow> receive_bytes h d s; Some (s, one_message bytes) }"

definition messages_at :: "stream_handle \<Rightarrow> stream_os \<Rightarrow> byte list list" where
  "messages_at h s = sb_messages (the (buffers s h))"

definition message_buffer_at :: "stream_handle \<Rightarrow> stream_os \<Rightarrow> bool" where
  "message_buffer_at h s \<longleftrightarrow> (\<exists>b. sb_sys h b s \<and> message_buffer_ok b)"

text \<open>The length with the bytes that store it has to be a \<open>size_t\<close>; the code asserts it.\<close>

definition sendable :: "caller \<times> byte list \<Rightarrow> bool" where
  "sendable d \<longleftrightarrow> length (snd d) + sbBYTES_TO_STORE_MESSAGE_LENGTH < 2 ^ 64"

lemma message_send_ensures:
  assumes s: "sb_sys h b s" and ok: "message_buffer_ok b" and fit: "sendable (who, data)"
  shows "ensures (send_bytes h (who, data) s) (\<lambda>(s', k). message_buffer_at h s' \<and>
    k = (if length data + sbBYTES_TO_STORE_MESSAGE_LENGTH \<le> spaces_available b then length data else 0) \<and>
    messages_at h s' = messages_at h s @ one_message (take k data))"
proof -
  let ?n = "length data" and ?z = sbBYTES_TO_STORE_MESSAGE_LENGTH
  have m: "is_message_buffer b" using ok by (simp add: message_buffer_ok_def)
  have req: "send_request b ?n = ?n + ?z" using fit m by (simp add: send_request_def sendable_def size_add_def)
  have W: "ensures (prvWriteMessageToBuffer data ?n (spaces_available b) (send_request b ?n) b)
      (\<lambda>(b1, k). same_setup b b1 \<and> (message_buffer_ok b1 \<and> k = (if ?n + ?z \<le> spaces_available b then ?n else 0) \<and>
        sb_messages b1 = sb_messages b @ one_message (take k data)))"
    by (rule ensures_mono [OF message_buffer_write [OF ok refl]])
      (use fit req in \<open>auto simp: sendable_def one_message_def\<close>)
  show ?thesis
  proof (rule ensures_mono [OF send_bytes_ensures [OF s _ W]], goal_cases)
    case (2 r)
    obtain s' k where r: "r = (s', k)" by (cases r)
    from 2 obtain b1 where b1: "message_buffer_ok b1" "k = (if ?n + ?z \<le> spaces_available b then ?n else 0)"
        "sb_messages b1 = sb_messages b @ one_message (take k data)"
      and t: "transferred Receiver h b b1 (triggers k b1) s s'" by (auto simp: r)
    show ?case
      by (rule transferred_buffer [OF t]) (use b1 s in \<open>auto simp: r message_buffer_at_def messages_at_def sb_sys_def\<close>)
  qed (use fit in \<open>simp add: sendable_def\<close>)
qed

lemma message_receive_ensures:
  assumes s: "sb_sys h b s" and ok: "message_buffer_ok b"
  shows "ensures (receive_bytes h (who, n) s) (\<lambda>(s', bytes). message_buffer_at h s' \<and>
    (case messages_at h s of
       [] \<Rightarrow> bytes = [] \<and> messages_at h s' = []
     | m # ms \<Rightarrow> if length m \<le> n then bytes = m \<and> messages_at h s' = ms
         else bytes = [] \<and> messages_at h s' = m # ms))" (is "ensures _ (\<lambda>(s', bytes). _ \<and> ?P (messages_at h s') bytes)")
proof -
  have m: "is_message_buffer b" and ms: "messages_at h s = sb_messages b"
    using ok s by (simp_all add: message_buffer_ok_def messages_at_def sb_sys_def)
  have R: "ensures (prvReadMessageFromBuffer n (prvBytesInBuffer b) b)
      (\<lambda>(b1, bytes). same_setup b b1 \<and> (message_buffer_ok b1 \<and> ?P (sb_messages b1) bytes))"
    if some: "prvBytesInBuffer b > sbBYTES_TO_STORE_MESSAGE_LENGTH"
  proof -
    obtain x xs where x: "sb_messages b = x # xs"
      using no_messages [OF ok] some by (cases "sb_messages b") auto
    show ?thesis
      by (rule ensures_mono [OF message_buffer_read [OF ok x, of n]]) (use x ok in \<open>auto simp: ms split: if_splits\<close>)
  qed
  have none: "message_buffer_ok b \<and> ?P (sb_messages b) []" if "prvBytesInBuffer b \<le> sbBYTES_TO_STORE_MESSAGE_LENGTH"
    using that no_messages [OF ok] ok by (simp add: ms)
  show ?thesis
  proof (rule ensures_mono [OF receive_bytes_ensures [OF s, where P = "\<lambda>b1 bytes. message_buffer_ok b1 \<and> ?P (sb_messages b1) bytes"]],
      goal_cases)
    case (3 r)
    obtain s' bytes where r: "r = (s', bytes)" by (cases r)
    from 3 obtain b1 where b1: "message_buffer_ok b1" "?P (sb_messages b1) bytes"
      and t: "transferred Sender h b b1 (bytes \<noteq> []) s s'" by (auto simp: r)
    obtain b' where b': "sb_sys h b' s'" "buffers s' h = Some b'" "b' = b1 \<or> b' = set_sb_waiting Sender None b1"
      by (rule transferred_buffer [OF t])
    then have b2: "message_buffer_ok b'" "messages_at h s' = sb_messages b1"
      using b1 by (auto simp: messages_at_def)
    show ?case
      unfolding r prod.case b2(2) using b2(1) b1(2) b' by (auto simp: message_buffer_at_def simp del: split_paired_Ex)
  qed (use R none m in auto)
qed

interpretation mc: channel "message_buffer_at h" "messages_at h" sendable "message_send h" "message_receive h" for h
proof
  fix s and d :: "caller \<times> byte list" assume "message_buffer_at h s" and d: "sendable d"
  then obtain b where s: "sb_sys h b s" and ok: "message_buffer_ok b" by (auto simp: message_buffer_at_def)
  have "ensures (send_bytes h (fst d, snd d) s) (\<lambda>(s', k). message_buffer_at h s' \<and>
    messages_at h s' = messages_at h s @ one_message (take k (snd d)))"
    by (rule ensures_mono [OF message_send_ensures [OF s ok]]) (use d in auto)
  then show "ensures (message_send h d s) (\<lambda>(s', xs). message_buffer_at h s' \<and> messages_at h s' = messages_at h s @ xs)"
    by (auto simp: message_send_def elim!: ensures_mono)
next
  fix s and d :: "caller \<times> nat" assume "message_buffer_at h s"
  then obtain b where s: "sb_sys h b s" and ok: "message_buffer_ok b" by (auto simp: message_buffer_at_def)
  have st: "\<forall>m \<in> set (messages_at h s). m \<noteq> []" using s ok by (auto simp: messages_at_def sb_sys_def message_buffer_ok_def storable_def)
  have "ensures (receive_bytes h (fst d, snd d) s) (\<lambda>(s', bytes). message_buffer_at h s' \<and>
    messages_at h s = one_message bytes @ messages_at h s')"
    by (rule ensures_mono [OF message_receive_ensures [OF s ok]])
      (use st in \<open>cases "messages_at h s"; auto simp: one_message_def split: if_splits\<close>)
  then show "ensures (message_receive h d s) (\<lambda>(s', ys). message_buffer_at h s' \<and> messages_at h s = ys @ messages_at h s')"
    by (auto simp: message_receive_def elim!: ensures_mono)
qed

end
