(* ===== verification/Stream_Wait.thy ===== *)
theory Stream_Wait
  imports Stream_Channel
begin

text \<open>
  Waiting at a buffer while an interrupt serves it: whether the interrupt comes before the task
  has announced its wait, between that and its going to sleep, or while it sleeps, the task is
  ready afterwards and finds what has arrived.
\<close>

section \<open>Getting ready to wait\<close>

definition about_to_sleep :: "task \<Rightarrow> kernel \<Rightarrow> bool" where
  "about_to_sleep c k \<longleftrightarrow> sys_inv k \<and> pxCurrentTCB k = Some c \<and> uxSchedulerSuspended k = 0 \<and> xIdleTaskHandle k \<noteq> Some c"

lemma about_to_sleep_current:
  assumes "about_to_sleep c k"
  shows "event_list k c = None" "ready k c"
  using sys_blockable(1) [of k c] assms by (simp_all add: about_to_sleep_def blockable_def)

lemma sb_register_ensures:
  assumes a: "about_to_sleep c (skern s)" and s: "sb_sys h b s" and free: "sb_waiting d b = None"
  shows "ensures (sb_register d h s) (\<lambda>s1. about_to_sleep c (skern s1) \<and> sb_sys h (set_sb_waiting d (Some c) b) s1 \<and>
    buffers s1 = (buffers s)(h \<mapsto> set_sb_waiting d (Some c) b) \<and>
    ucNotifyState (tcbs (skern s1) c) ! uxNotificationIndex b \<noteq> taskNOTIFICATION_RECEIVED)"
proof -
  let ?k = "skern s" and ?i = "uxNotificationIndex b"
  have sk: "sys_inv ?k" "pxCurrentTCB ?k = Some c" "uxSchedulerSuspended ?k = 0" "xIdleTaskHandle ?k \<noteq> Some c"
    using a by (simp_all add: about_to_sleep_def)
  have b: "buffers s h = Some b" "?i < configTASK_NOTIFICATION_ARRAY_ENTRIES"
    and wk: "\<And>d t. sb_waiting d b = Some t \<Longrightarrow> wakeable ?k t ?i" using s by (auto simp: sb_sys_def)
  define k1 where "k1 = (if ucNotifyState (tcbs ?k c) ! ?i = taskNOTIFICATION_RECEIVED
    then upd_tcb c (set_notify_state ?i taskNOT_WAITING_NOTIFICATION) ?k else ?k)"
  have "sys_inv (upd_tcb c (set_notify_state ?i taskNOT_WAITING_NOTIFICATION) ?k)"
    by (rule upd_tcb_sys_inv [OF sk(1)]) simp
  then have k1: "sys_inv k1" "pxCurrentTCB k1 = Some c" "uxSchedulerSuspended k1 = 0" "xIdleTaskHandle k1 = xIdleTaskHandle ?k"
    "lists k1 = lists ?k" "ucNotifyState (tcbs k1 c) ! ?i \<noteq> taskNOTIFICATION_RECEIVED"
    "\<And>x. x \<noteq> c \<Longrightarrow> tcbs k1 x = tcbs ?k x" "\<And>x. prio k1 x = prio ?k x"
    using sk b(2) notify_lengths(2) [OF sk(1), of c] by (simp_all add: k1_def)
  have a1: "about_to_sleep c k1" using k1 sk by (simp add: about_to_sleep_def)
  have "wakeable k1 c ?i" using about_to_sleep_current [OF a1] by (simp add: wakeable_def ready_def)
  moreover have "wakeable k1 x ?i" if "sb_waiting d' b = Some x" "x \<noteq> c" for d' x
    using wk [OF that(1)] k1(5,7) that(2) by (simp add: wakeable_def)
  ultimately have "wakeable k1 x ?i" if "sb_waiting d' (set_sb_waiting d (Some c) b) = Some x" for d' x
    using that by (cases "d' = d"; cases "x = c") auto
  then have s1: "sb_sys h (set_sb_waiting d (Some c) b) (set_buffer h (set_sb_waiting d (Some c) b) (s\<lparr>skern := k1\<rparr>))"
    using k1(1) b(2) by (simp add: sb_sys_def)
  have "sb_register d h s = Some (set_buffer h (set_sb_waiting d (Some c) b) (s\<lparr>skern := k1\<rparr>))"
    using b sk(2) free by (simp add: sb_register_def xTaskGenericNotifyStateClear_def prvGetTCBFromHandle_def
        xTaskGetCurrentTaskHandle_def k1_def)
  then show ?thesis using s1 a1 k1(6) by simp
qed

lemma xTaskGenericNotifyWait_enter_ensures:
  assumes a: "about_to_sleep c k" and i: "i < configTASK_NOTIFICATION_ARRAY_ENTRIES"
  shows "ensures (xTaskGenericNotifyWait_enter i bits w k) (\<lambda>(k', block). sys_inv k' \<and>
     uxSchedulerSuspended k' = 1 \<and> lists k' = lists k \<and> pxCurrentTCB k' = Some c \<and>
     xIdleTaskHandle k' = xIdleTaskHandle k \<and> (\<forall>t. t \<noteq> c \<longrightarrow> tcbs k' t = tcbs k t) \<and> (\<forall>t. prio k' t = prio k t) \<and>
     (block \<longleftrightarrow> ucNotifyState (tcbs k c) ! i \<noteq> taskNOTIFICATION_RECEIVED \<and> w > 0) \<and> (block \<longrightarrow> waits_at i c k') \<and>
     xPendedTicks k' = 0)"
    (is "ensures _ ?Q")
proof -
  have s: "sys_inv k" and run: "uxSchedulerSuspended k = 0" and cur: "pxCurrentTCB k = Some c"
    using a by (simp_all add: about_to_sleep_def)
  let ?k = "vTaskSuspendAll k"
  let ?k1 = "upd_tcb c (\<lambda>b. set_notified i (ulNotifiedValue b ! i AND NOT bits) b) ?k"
  have s1: "sys_inv ?k" by (rule sys_inv_lock [OF s])
  have "sys_inv ?k1" by (rule upd_tcb_sys_inv [OF s1]) simp
  then have s2: "sys_inv (upd_tcb c (set_notify_state i taskWAITING_NOTIFICATION) ?k1)"
    by (rule upd_tcb_sys_inv) simp
  have f: "uxSchedulerSuspended ?k = 1" "pxCurrentTCB ?k = Some c" "tcbs ?k = tcbs k" "lists ?k = lists k"
    "xIdleTaskHandle ?k = xIdleTaskHandle k" "xPendedTicks ?k = 0"
    using run cur sys_invD(7) [OF s] by (simp_all add: vTaskSuspendAll_def caught_up_def)
  show ?thesis
    using s1 s2 f i notify_lengths(2) [OF s, of c]
    by (simp add: xTaskGenericNotifyWait_enter_def Let_def)
qed

section \<open>An interrupt while the task gets ready\<close>

text \<open>
  \<open>act\<close> is what the interrupt does at the point \<open>p\<close>; \<open>others\<close> is what the other tasks do while the
  task sleeps and until the interrupt comes, when it comes that late; \<open>run\<close> is the system from
  then, or from the task's going to sleep, until the task runs again, as it does once it is ready.
\<close>

definition arrival :: "sb_point \<Rightarrow> (stream_os \<Rightarrow> stream_os option) \<Rightarrow> (stream_os \<Rightarrow> stream_os option) \<Rightarrow>
    (stream_os \<Rightarrow> stream_os option) \<Rightarrow> sb_env" where
  "arrival p act others run q s =
     (if q = Asleep then if p = Asleep then do { s \<leftarrow> others s; s \<leftarrow> act s; run s } else run s
      else if q = p then act s else Some s)"

text \<open>Other tasks may do anything but touch the buffers or notify the task that waits.\<close>

definition leaves_alone :: "task \<Rightarrow> stream_handle \<Rightarrow> stream_buffer \<Rightarrow> (stream_os \<Rightarrow> stream_os option) \<Rightarrow> bool" where
  "leaves_alone c h b others \<longleftrightarrow> (\<forall>s. sb_sys h b s \<and> uxSchedulerSuspended (skern s) = 0 \<and>
       waits_at (uxNotificationIndex b) c (skern s) \<longrightarrow>
     ensures (others s) (\<lambda>s'. sb_sys h b s' \<and> uxSchedulerSuspended (skern s') = 0 \<and>
       waits_at (uxNotificationIndex b) c (skern s') \<and> buffers s' = buffers s))"

definition runs_again :: "task \<Rightarrow> (stream_os \<Rightarrow> stream_os option) \<Rightarrow> bool" where
  "runs_again c run \<longleftrightarrow> (\<forall>s. sys_inv (skern s) \<and> ready (skern s) c \<longrightarrow>
     ensures (run s) (\<lambda>s'. sys_inv (skern s') \<and> pxCurrentTCB (skern s') = Some c \<and> buffers s' = buffers s))"

text \<open>An action that serves the side \<open>d\<close> of the buffer \<open>b\<close>, and so makes it one that satisfies \<open>G\<close>.\<close>

definition serves :: "sb_side \<Rightarrow> stream_handle \<Rightarrow> stream_buffer \<Rightarrow> (stream_buffer \<Rightarrow> bool) \<Rightarrow> (stream_os \<Rightarrow> stream_os option) \<Rightarrow> bool" where
  "serves d h b G act \<longleftrightarrow> (\<forall>s. sb_sys h b s \<longrightarrow> ensures (act s) (\<lambda>s'. \<exists>b2. G b2 \<and> same_setup b b2 \<and>
     transferred d h b b2 True s s' \<and> from_isr d b True (skern s) (skern s')))"

text \<open>The interrupt finds the task asleep.\<close>

lemma served_asleep:
  assumes s: "sb_sys h b s" and me: "sb_waiting d b = Some c" and run0: "uxSchedulerSuspended (skern s) = 0"
    and wt: "waits_at (uxNotificationIndex b) c (skern s)"
    and act: "serves d h b G act" and run: "runs_again c run" and oth: "leaves_alone c h b others"
  shows "ensures (do { s \<leftarrow> others s; s \<leftarrow> act s; run s }) (\<lambda>s'. \<exists>b2. G b2 \<and> same_setup b b2 \<and> sys_inv (skern s') \<and>
    pxCurrentTCB (skern s') = Some c \<and> buffers s' = (buffers s)(h \<mapsto> set_sb_waiting d None b2))"
    (is "ensures _ ?Q")
proof -
  have "ensures (others s) (\<lambda>s1. sb_sys h b s1 \<and> uxSchedulerSuspended (skern s1) = 0 \<and>
      waits_at (uxNotificationIndex b) c (skern s1) \<and> buffers s1 = buffers s)"
    using oth s run0 wt by (simp add: leaves_alone_def)
  then show ?thesis
    unfolding ensures_bind [of "others s"]
  proof (rule ensures_mono, elim conjE)
    fix s1 assume s1: "sb_sys h b s1" "uxSchedulerSuspended (skern s1) = 0" "waits_at (uxNotificationIndex b) c (skern s1)"
      "buffers s1 = buffers s"
    have "ensures (act s1) (\<lambda>s2. \<exists>b2. G b2 \<and> same_setup b b2 \<and>
        transferred d h b b2 True s1 s2 \<and> from_isr d b True (skern s1) (skern s2))"
      using act s1(1) by (simp add: serves_def)
    then show "ensures (do { s \<leftarrow> act s1; run s }) ?Q"
      unfolding ensures_bind
    proof (rule ensures_mono, elim exE conjE)
      fix s2 :: stream_os and b2 assume b2: "G b2" "same_setup b b2" and t: "transferred d h b b2 True s1 s2"
      have s2: "sys_inv (skern s2)" "uxSchedulerSuspended (skern s2) = 0" "buffers s2 = (buffers s1)(h \<mapsto> set_sb_waiting d None b2)"
        and wk: "ready (skern s2) c \<or> event_list (skern s2) c = Some PendingReadyL"
        using t me s1(2,3) by (simp_all add: transferred_def Let_def sb_sys_def side_woken_def)
      have "members (skern s2) PendingReadyL = []"
        using kernel_invD(3) [OF sys_invD(1) [OF s2(1)]] s2(2) by (simp add: pending_ok_def)
      then have "ready (skern s2) c" using wk member_iff(2) [OF sys_invD(2) [OF s2(1)], of c PendingReadyL] by simp
      then have "ensures (run s2) (\<lambda>s'. sys_inv (skern s') \<and> pxCurrentTCB (skern s') = Some c \<and> buffers s' = buffers s2)"
        using run s2(1) by (simp add: runs_again_def)
      then show "ensures (run s2) ?Q"
        by (rule ensures_mono) (use b2 s2(3) s1(4) in auto)
    qed
  qed
qed

lemma sb_wait_served:
  assumes a: "about_to_sleep c (skern s)" and s: "sb_sys h b s" and me: "sb_waiting d b = Some c"
    and only: "\<And>d' x. sb_waiting d' b = Some x \<Longrightarrow> x = c"
    and nr: "ucNotifyState (tcbs (skern s) c) ! uxNotificationIndex b \<noteq> taskNOTIFICATION_RECEIVED"
    and w: "w \<noteq> 0" and p: "p = Registered \<or> p = Announced \<or> p = Asleep"
    and act: "serves d h b G act" and run: "runs_again c run" and oth: "leaves_alone c h b others"
  shows "ensures (sb_wait (arrival p act others run) d h w s) (\<lambda>s'. \<exists>b2. G b2 \<and> same_setup b b2 \<and> sys_inv (skern s') \<and>
    buffers s' = (buffers s)(h \<mapsto> set_sb_waiting d None b2))"
    (is "ensures _ ?Q")
proof -
  let ?i = "uxNotificationIndex b" and ?e = "arrival p act others run"
  have b: "buffers s h = Some b" "?i < configTASK_NOTIFICATION_ARRAY_ENTRIES" using s by (simp_all add: sb_sys_def)
  have sk: "sys_inv (skern s)" "uxSchedulerSuspended (skern s) = 0" "pxCurrentTCB (skern s) = Some c"
    "xIdleTaskHandle (skern s) \<noteq> Some c" using a by (simp_all add: about_to_sleep_def)
  have e: "?e Running x = Some x" for x using p by (auto simp: arrival_def)
  \<comment> \<open>from the moment the task runs again\<close>
  have awake: "ensures (do { (k, _) \<leftarrow> xTaskGenericNotifyWait_leave ?i 0 (skern s3);
      s \<leftarrow> ?e Running (s3\<lparr>skern := k\<rparr>);
      b \<leftarrow> buffers s h;
      Some (set_buffer h (set_sb_waiting d None b) s) }) ?Q"
    if s3: "sys_inv (skern s3)" "pxCurrentTCB (skern s3) = Some c" "G b2" "same_setup b b2"
      "buffers s3 = (buffers s)(h \<mapsto> set_sb_waiting d None b2)" for s3 b2
  proof -
    have "ensures (xTaskGenericNotifyWait_leave ?i 0 (skern s3)) (\<lambda>(k, _). sys_inv k)"
      by (rule ensures_mono [OF xTaskGenericNotifyWait_leave_ensures [OF s3(1,2) b(2)]]) auto
    moreover have "set_sb_waiting d None (set_sb_waiting d None b2) = set_sb_waiting d None b2"
      by (simp add: set_sb_waiting_same)
    ultimately show ?thesis using s3(3-5) by (auto simp: e case_prod_unfold elim!: ensures_mono)
  qed
  \<comment> \<open>from the moment the task sleeps, if it is ready\<close>
  have tail: "ensures (do { s \<leftarrow> ?e Asleep s2;
      (k, _) \<leftarrow> xTaskGenericNotifyWait_leave ?i 0 (skern s);
      s \<leftarrow> ?e Running (s\<lparr>skern := k\<rparr>);
      b \<leftarrow> buffers s h;
      Some (set_buffer h (set_sb_waiting d None b) s) }) ?Q"
    if s2: "sys_inv (skern s2)" "ready (skern s2) c" "G b2" "same_setup b b2"
      "buffers s2 = (buffers s)(h \<mapsto> set_sb_waiting d None b2)" and np: "p \<noteq> Asleep" for s2 b2
  proof -
    have "ensures (?e Asleep s2) (\<lambda>s'. sys_inv (skern s') \<and> pxCurrentTCB (skern s') = Some c \<and> buffers s' = buffers s2)"
      using run s2(1,2) np by (simp add: arrival_def runs_again_def)
    then show ?thesis
      unfolding ensures_bind [of "?e Asleep s2"] by (rule ensures_mono) (rule awake; use s2(3-5) in simp)
  qed
  consider "p = Registered" | "p = Announced" | "p = Asleep" using p by blast
  then show ?thesis
  proof cases
    case 3
    have e1: "?e Registered s = Some s" "?e Announced x = Some x" for x using 3 by (simp_all add: arrival_def)
    have e2: "?e Asleep x = do { s \<leftarrow> others x; s \<leftarrow> act s; run s }" for x using 3 by (simp add: arrival_def)
    show ?thesis
      unfolding sb_wait_def e1 Option.bind.bind_lunit b Let_def ensures_bind [of "xTaskGenericNotifyWait_enter _ _ _ _"]
    proof (rule ensures_mono [OF xTaskGenericNotifyWait_enter_ensures [OF a b(2)]], goal_cases)
      case (1 r)
      obtain k y where r: "r = (k, y)" by (cases r)
      from 1 have k: "sys_inv k" "uxSchedulerSuspended k = 1" "lists k = lists (skern s)" "pxCurrentTCB k = Some c"
        "xIdleTaskHandle k \<noteq> Some c" "y" "waits_at ?i c k" "xPendedTicks k = 0"
        using nr w sk(4) by (auto simp: r word_gt_0)
      have y: "y = True" and sk': "skern (s\<lparr>skern := k\<rparr>) = k" using k(6) by simp_all
      have ev: "event_list k c = None" using about_to_sleep_current(1) [OF a] k(3) by simp
      show ?case
        unfolding r prod.case e1 Option.bind.bind_lunit sk' y ensures_bind [of "notify_sleep _ _ _"]
      proof (rule ensures_mono [OF notify_sleep_ensures [OF k(1,2,4,5) w]], elim conjE)
        fix k' assume k': "sys_inv k'" "uxSchedulerSuspended k' = 0"
          and tc: "tcbs k' = (tcbs k)(c := (tcbs k c)\<lparr>ucDelayAborted := False\<rparr>)"
          and sl: "event_list k c = None \<and> xPendedTicks k = 0 \<longrightarrow>
            state_list k' c = Some (wait_list k w True) \<and> event_list k' c = None"
        let ?s = "(s\<lparr>skern := k\<rparr>)\<lparr>skern := k'\<rparr>"
        have "wait_list k w True \<noteq> TerminationL"
          using kernel_core_delayed [OF sys_invD(2) [OF k(1)]] by (auto simp: wait_list_def delayed_lists_def)
        then have "wakeable k' c ?i" using sl ev k(8) by (simp add: wakeable_def)
        then have sys: "sb_sys h b ?s" using k'(1) b only by (auto simp: sb_sys_def)
        have wt: "waits_at ?i c (skern ?s)" using tc k(7) by simp
        have "ensures (?e Asleep ?s) (\<lambda>s'. \<exists>b2. G b2 \<and> same_setup b b2 \<and> sys_inv (skern s') \<and>
            pxCurrentTCB (skern s') = Some c \<and> buffers s' = (buffers ?s)(h \<mapsto> set_sb_waiting d None b2))"
          unfolding e2 by (rule served_asleep [OF sys me _ wt act run oth]) (use k'(2) in simp)
        then show "ensures (do { s \<leftarrow> ?e Asleep ?s;
            (k, _) \<leftarrow> xTaskGenericNotifyWait_leave ?i 0 (skern s);
            s \<leftarrow> ?e Running (s\<lparr>skern := k\<rparr>);
            b \<leftarrow> buffers s h;
            Some (set_buffer h (set_sb_waiting d None b) s) }) ?Q"
          unfolding ensures_bind [of "?e Asleep ?s"] by (rule ensures_mono) (elim exE conjE, rule awake, simp_all)
      qed
    qed
  next
    case [simp]: 1
    have e1: "?e Registered s = act s" "?e Announced x = Some x" for x by (simp_all add: arrival_def)
    have "ensures (act s) (\<lambda>s'. \<exists>b2. G b2 \<and> same_setup b b2 \<and>
        transferred d h b b2 True s s' \<and> from_isr d b True (skern s) (skern s'))"
      using act s by (simp add: serves_def)
    then show ?thesis
      unfolding sb_wait_def e1 ensures_bind [of "act s"]
    proof (rule ensures_mono, goal_cases)
      case (1 s1)
      then obtain b2 where b2: "G b2" "same_setup b b2" and t: "transferred d h b b2 True s s1"
        and f: "from_isr d b True (skern s) (skern s1)" by blast
      have s1: "sys_inv (skern s1)" "buffers s1 = (buffers s)(h \<mapsto> set_sb_waiting d None b2)"
        "ucNotifyState (tcbs (skern s1) c) ! ?i = taskNOTIFICATION_RECEIVED"
        using t me by (simp_all add: transferred_def Let_def sb_sys_def side_woken_def)
      have a1: "about_to_sleep c (skern s1)"
        using s1(1) t f sk by (simp add: about_to_sleep_def transferred_def Let_def from_isr_def)
      have i: "uxNotificationIndex b2 = ?i" using b2(2) by (simp add: same_setup_def)
      have "ensures (xTaskGenericNotifyWait_enter ?i 0 w (skern s1)) (\<lambda>(k', block). sys_inv k' \<and>
          uxSchedulerSuspended k' = 1 \<and> pxCurrentTCB k' = Some c \<and> \<not> block)"
        by (rule ensures_mono [OF xTaskGenericNotifyWait_enter_ensures [OF a1 b(2)]]) (use s1(3) in auto)
      then have "ensures (do { (k, y) \<leftarrow> xTaskGenericNotifyWait_enter ?i 0 w (skern s1); notify_sleep y w k })
          (\<lambda>k'. sys_inv k' \<and> ready k' c)"
        by (auto simp: case_prod_unfold elim!: ensures_mono intro!: ensures_mono [OF notify_sleep_awake])
      then have "ensures (do { (k, y) \<leftarrow> xTaskGenericNotifyWait_enter ?i 0 w (skern s1); notify_sleep y w k })
          (\<lambda>k'. ensures (do { s \<leftarrow> ?e Asleep (s1\<lparr>skern := k'\<rparr>);
            (k, _) \<leftarrow> xTaskGenericNotifyWait_leave ?i 0 (skern s);
            s \<leftarrow> ?e Running (s\<lparr>skern := k\<rparr>);
            b \<leftarrow> buffers s h;
            Some (set_buffer h (set_sb_waiting d None b) s) }) ?Q)"
        by (rule ensures_mono) (rule tail [of _ b2]; use b2 s1(2) in simp)
      then show ?case using s1(2) i by (simp add: e1 case_prod_unfold Let_def)
    qed
  next
    case [simp]: 2
    have e1: "?e Registered s = Some s" "?e Announced x = act x" for x by (simp_all add: arrival_def)
    have "ensures (xTaskGenericNotifyWait_enter ?i 0 w (skern s)) (\<lambda>(k, y). y \<and>
        ensures (act (s\<lparr>skern := k\<rparr>)) (\<lambda>s2. \<exists>b2. G b2 \<and> same_setup b b2 \<and>
          buffers s2 = (buffers s)(h \<mapsto> set_sb_waiting d None b2) \<and>
          ensures (notify_sleep True w (skern s2)) (\<lambda>k'. sys_inv k' \<and> ready k' c)))"
    proof (rule ensures_mono [OF xTaskGenericNotifyWait_enter_ensures [OF a b(2)]], goal_cases)
      case (1 r)
      obtain k y where r: "r = (k, y)" by (cases r)
      from 1 have k: "sys_inv k" "uxSchedulerSuspended k = 1" "lists k = lists (skern s)" "pxCurrentTCB k = Some c"
        "xIdleTaskHandle k = xIdleTaskHandle (skern s)" "\<And>t. t \<noteq> c \<Longrightarrow> tcbs k t = tcbs (skern s) t" "y" "waits_at ?i c k"
        using nr w by (auto simp: r word_gt_0)
      have "ready k c" using sys_invD(5) [OF k(1)] k(4) by (auto simp: current_ready_def)
      then have "wakeable k c ?i" using about_to_sleep_current(1) [OF a] k(3) by (simp add: wakeable_def ready_def)
      moreover have "wakeable k x ?i" if "sb_waiting d' b = Some x" "x \<noteq> c" for d' x
        using s that k(3,6) by (auto simp: sb_sys_def wakeable_def)
      ultimately have "wakeable k x ?i" if "sb_waiting d' b = Some x" for d' x
        using that by (cases "x = c") auto
      then have sk: "sb_sys h b (s\<lparr>skern := k\<rparr>)" using k(1) b by (simp add: sb_sys_def)
      have "ensures (act (s\<lparr>skern := k\<rparr>)) (\<lambda>s2. \<exists>b2. G b2 \<and> same_setup b b2 \<and>
          transferred d h b b2 True (s\<lparr>skern := k\<rparr>) s2 \<and> from_isr d b True k (skern s2))"
        using act sk unfolding serves_def by fastforce
      then have "ensures (act (s\<lparr>skern := k\<rparr>)) (\<lambda>s2. \<exists>b2. G b2 \<and> same_setup b b2 \<and>
          buffers s2 = (buffers s)(h \<mapsto> set_sb_waiting d None b2) \<and>
          ensures (notify_sleep True w (skern s2)) (\<lambda>k'. sys_inv k' \<and> ready k' c))"
      proof (rule ensures_mono, goal_cases)
        case (1 s2)
        then obtain b2 where b2: "G b2" "same_setup b b2" and t: "transferred d h b b2 True (s\<lparr>skern := k\<rparr>) s2"
          and f: "from_isr d b True k (skern s2)" by blast
        have s2: "sys_inv (skern s2)" "buffers s2 = (buffers s)(h \<mapsto> set_sb_waiting d None b2)" "uxSchedulerSuspended (skern s2) = 1"
          "pxCurrentTCB (skern s2) = Some c" "xIdleTaskHandle (skern s2) \<noteq> Some c" "event_list (skern s2) c = Some PendingReadyL"
          using t f me k a by (simp_all add: transferred_def Let_def sb_sys_def from_isr_def put_off_def about_to_sleep_def)
        have "ensures (notify_sleep True w (skern s2)) (\<lambda>k'. sys_inv k' \<and> ready k' c)"
          by (rule ensures_mono [OF notify_sleep_ensures [OF s2(1,3,4,5) w]]) (use s2(6) in simp)
        then show ?case using b2 s2(2) by blast
      qed
      then show ?case using k(7) by (simp add: r)
    qed
    then show ?thesis
      unfolding sb_wait_def e1 Option.bind.bind_lunit b Let_def ensures_bind [of "xTaskGenericNotifyWait_enter _ _ _ _"]
    proof (rule ensures_mono, goal_cases)
      case (1 r)
      obtain k y where r: "r = (k, y)" by (cases r)
      from 1 have y: "y" and act: "ensures (act (s\<lparr>skern := k\<rparr>)) (\<lambda>s2. \<exists>b2. G b2 \<and> same_setup b b2 \<and>
          buffers s2 = (buffers s)(h \<mapsto> set_sb_waiting d None b2) \<and>
          ensures (notify_sleep True w (skern s2)) (\<lambda>k'. sys_inv k' \<and> ready k' c))" by (simp_all add: r)
      show ?case
        unfolding r prod.case e1 ensures_bind [of "act _"]
      proof (rule ensures_mono [OF act], elim exE conjE)
        fix s2 :: stream_os and b2 assume b2: "G b2" "same_setup b b2" "buffers s2 = (buffers s)(h \<mapsto> set_sb_waiting d None b2)"
          and sl: "ensures (notify_sleep True w (skern s2)) (\<lambda>k'. sys_inv k' \<and> ready k' c)"
        show "ensures (do { k \<leftarrow> notify_sleep y w (skern s2);
            s \<leftarrow> ?e Asleep (s2\<lparr>skern := k\<rparr>);
            (k, _) \<leftarrow> xTaskGenericNotifyWait_leave ?i 0 (skern s);
            s \<leftarrow> ?e Running (s\<lparr>skern := k\<rparr>);
            b \<leftarrow> buffers s h;
            Some (set_buffer h (set_sb_waiting d None b) s) }) ?Q"
          using y unfolding ensures_bind [of "notify_sleep _ _ _"]
          by (simp only: simp_thms) (rule ensures_mono [OF sl], rule tail [of _ b2]; use b2 in simp)
      qed
    qed
  qed
qed

section \<open>What arrives is received\<close>

lemma SendFromISR_serves:
  assumes ok: "stream_ok b" and n: "0 < length data" "length data \<le> spaces_available b"
    and tr: "xTriggerLevelBytes b \<le> prvBytesInBuffer b + length data"
  shows "serves Receiver h b (\<lambda>b2. stream_ok b2 \<and> sb_contents b2 = sb_contents b @ data)
    (\<lambda>s. map_option fst (xStreamBufferSendFromISR h data (length data) s))"
  unfolding serves_def ensures_map
proof (intro allI impI)
  fix s assume s: "sb_sys h b s"
  have m: "\<not> is_message_buffer b" using ok by (simp add: stream_ok_def)
  have W: "ensures (prvWriteMessageToBuffer data (length data) (spaces_available b) (send_request b (length data)) b)
      (\<lambda>(b1, k). same_setup b b1 \<and> (stream_ok b1 \<and> k = length data \<and> sb_contents b1 = sb_contents b @ data))"
    by (rule ensures_mono [OF stream_write [of b "length data" data]])
      (use ok m n stream_ok_same [of b] in \<open>auto simp: stream_ok_def\<close>)
  show "ensures (xStreamBufferSendFromISR h data (length data) s) (\<lambda>r. \<exists>b2. (stream_ok b2 \<and> sb_contents b2 = sb_contents b @ data) \<and>
     same_setup b b2 \<and> transferred Receiver h b b2 True s (fst r) \<and> from_isr Receiver b True (skern s) (skern (fst r)))"
  proof (rule ensures_mono [OF SendFromISR_ensures [OF s W]], goal_cases)
    case (1 r)
    obtain s' k woken where r: "r = (s', k, woken)" by (cases r)
    from 1 obtain b1 where b1: "stream_ok b1" "k = length data" "sb_contents b1 = sb_contents b @ data" "same_setup b b1"
      and t: "transferred Receiver h b b1 (triggers k b1) s s'" "from_isr Receiver b (triggers k b1) (skern s) (skern s')"
      by (auto simp: r)
    have "prvBytesInBuffer b1 = prvBytesInBuffer b + length data" using arg_cong [OF b1(3), where f = length] by simp
    then have "triggers k b1" using b1(2,4) n tr by (simp add: triggers_def same_setup_def)
    then show ?case using t b1 by (auto simp: r)
  qed
qed

lemma set_sb_waiting_batching [simp]: "is_batching_buffer (set_sb_waiting d t b) = is_batching_buffer b"
  by (simp add: is_batching_buffer_def)

lemma same_setup_batching: "same_setup b b' \<Longrightarrow> is_batching_buffer b' = is_batching_buffer b"
  by (simp add: same_setup_def is_batching_buffer_def)

lemma receive_what_arrives:
  assumes a: "about_to_sleep c (skern s)" and s: "sb_sys h b s" and ok: "stream_ok b" "\<not> is_batching_buffer b"
    and empty: "sb_contents b = []" and free: "\<And>d. sb_waiting d b = None" and w: "w \<noteq> 0"
    and p: "p = Registered \<or> p = Announced \<or> p = Asleep" and run: "runs_again c run"
    and oth: "leaves_alone c h (set_sb_waiting Receiver (Some c) b) others"
    and n: "0 < length data" "length data \<le> spaces_available b" "xTriggerLevelBytes b \<le> length data"
  shows "ensures (xStreamBufferReceive (arrival p (\<lambda>s. map_option fst (xStreamBufferSendFromISR h data (length data) s)) others run) h m w s)
    (\<lambda>(s', bytes). bytes = take m data)"
proof -
  let ?act = "\<lambda>s. map_option fst (xStreamBufferSendFromISR h data (length data) s)"
  let ?e = "arrival p ?act others run" and ?b = "set_sb_waiting Receiver (Some c) b"
  have b: "buffers s h = Some b" using s by (simp add: sb_sys_def)
  have th: "receive_threshold b = 0" and none: "prvBytesInBuffer b = 0"
    using ok arg_cong [OF empty, where f = length] by (simp_all add: receive_threshold_def stream_ok_def)
  have e: "?e Transferred x = Some x" for x using p by (auto simp: arrival_def)
  have unf: "xStreamBufferReceive ?e h m w s = do {
       s \<leftarrow> sb_register Receiver h s;
       s \<leftarrow> sb_wait ?e Receiver h w s;
       b \<leftarrow> buffers s h;
       let xBytesAvailable = prvBytesInBuffer b;
       if xBytesAvailable > 0
       then do {
         b \<leftarrow> buffers s h;
         (b, bytes) \<leftarrow> prvReadMessageFromBuffer m xBytesAvailable b;
         s \<leftarrow> (if bytes \<noteq> [] then sbRECEIVE_COMPLETED h (set_buffer h b s) else Some (set_buffer h b s));
         Some (s, bytes) }
       else Some (s, []) }"
    using w none by (simp add: xStreamBufferReceive_def xStreamBufferReceive_test_def b th e Let_def cong: if_cong)
  show ?thesis
    unfolding unf ensures_bind [of "sb_register _ _ _"]
  proof (rule ensures_mono [OF sb_register_ensures [OF a s free]], elim conjE)
    fix s1 assume s1: "about_to_sleep c (skern s1)" "sb_sys h ?b s1" "buffers s1 = (buffers s)(h \<mapsto> ?b)"
      "ucNotifyState (tcbs (skern s1) c) ! uxNotificationIndex b \<noteq> taskNOTIFICATION_RECEIVED"
    have act: "serves Receiver h ?b (\<lambda>b2. stream_ok b2 \<and> sb_contents b2 = data) ?act"
      using SendFromISR_serves [of ?b data h] ok empty n none by simp
    have wt: "ensures (sb_wait ?e Receiver h w s1) (\<lambda>s'. \<exists>b2. (stream_ok b2 \<and> sb_contents b2 = data) \<and> same_setup ?b b2 \<and>
        sys_inv (skern s') \<and> buffers s' = (buffers s1)(h \<mapsto> set_sb_waiting Receiver None b2))"
    proof (rule sb_wait_served [OF s1(1,2) _ _ _ w p act run oth])
      show "x = c" if "sb_waiting d' ?b = Some x" for d' x using that free by (cases "d' = Receiver") auto
    qed (use s1(4) in simp_all)
    show "ensures (do { s \<leftarrow> sb_wait ?e Receiver h w s1;
       b \<leftarrow> buffers s h;
       let xBytesAvailable = prvBytesInBuffer b;
       if xBytesAvailable > 0
       then do {
         b \<leftarrow> buffers s h;
         (b, bytes) \<leftarrow> prvReadMessageFromBuffer m xBytesAvailable b;
         s \<leftarrow> (if bytes \<noteq> [] then sbRECEIVE_COMPLETED h (set_buffer h b s) else Some (set_buffer h b s));
         Some (s, bytes) }
       else Some (s, []) }) (\<lambda>(s', bytes). bytes = take m data)"
      unfolding ensures_bind [of "sb_wait _ _ _ _ _"]
    proof (rule ensures_mono [OF wt], elim exE conjE)
      fix s2 :: stream_os and b2 assume b2: "stream_ok b2" "sb_contents b2 = data" "same_setup ?b b2"
        and s2: "sys_inv (skern s2)" "buffers s2 = (buffers s1)(h \<mapsto> set_sb_waiting Receiver None b2)"
      let ?b2 = "set_sb_waiting Receiver None b2"
      have "sb_waiting d ?b2 = None" for d using sb_waiting_setup [OF b2(3), of d] free by (cases d) simp_all
      then have sys2: "sb_sys h ?b2 s2"
        using s2 b2(3) s by (simp add: sb_sys_def) (simp add: same_setup_def)
      have th2: "receive_threshold ?b2 = 0"
        using b2 ok same_setup_batching [OF b2(3)]
        by (simp add: receive_threshold_def stream_ok_def)
      have some: "prvBytesInBuffer ?b2 > 0" using n arg_cong [OF b2(2), where f = length] by simp
      have R: "ensures (prvReadMessageFromBuffer m (prvBytesInBuffer ?b2) ?b2) (\<lambda>(b1, bytes). same_setup ?b2 b1 \<and> bytes = take m data)"
        by (rule ensures_mono [OF stream_read]) (use b2 in \<open>auto simp: stream_ok_def\<close>)
      have "ensures (xStreamBufferReceive (\<lambda>_. Some) h m 0 s2) (\<lambda>(s', bytes). bytes = take m data)"
        by (rule ensures_mono [OF Receive_now_ensures [OF sys2 _ R]]) (use th2 some in auto)
      then show "ensures (do { b \<leftarrow> buffers s2 h;
         let xBytesAvailable = prvBytesInBuffer b;
         if xBytesAvailable > 0
         then do {
           b \<leftarrow> buffers s2 h;
           (b, bytes) \<leftarrow> prvReadMessageFromBuffer m xBytesAvailable b;
           s \<leftarrow> (if bytes \<noteq> [] then sbRECEIVE_COMPLETED h (set_buffer h b s2) else Some (set_buffer h b s2));
           Some (s, bytes) }
         else Some (s2, []) }) (\<lambda>(s', bytes). bytes = take m data)"
        using s2(2) th2 some by (simp add: xStreamBufferReceive_def Let_def cong: if_cong)
    qed
  qed
qed

end
