(* ===== verification/Stream_Setup.thy ===== *)
theory Stream_Setup
  imports Stream_Channel
begin

text \<open>Creating and resetting buffers: what a buffer can hold, and when none is made.\<close>

lemma other_members [simp]:
  "sb_contents (b\<lparr>uxStreamBufferNumber := i\<rparr>) = sb_contents b" "sb_ok (b\<lparr>uxStreamBufferNumber := i\<rparr>) = sb_ok b"
  "spaces_available (b\<lparr>uxStreamBufferNumber := i\<rparr>) = spaces_available b"
  "sb_contents (b\<lparr>xTriggerLevelBytes := i\<rparr>) = sb_contents b"
  "prvBytesInBuffer (b\<lparr>xTriggerLevelBytes := i\<rparr>) = prvBytesInBuffer b"
  "spaces_available (b\<lparr>xTriggerLevelBytes := i\<rparr>) = spaces_available b"
  by (simp_all add: sb_contents_def ring_at_def [abs_def] prvBytesInBuffer_def spaces_available_def sb_ok_def Let_def)

section \<open>New buffers\<close>

lemma new_buffer:
  assumes "0 < n" and "n \<le> length area" and "0 < trigger" and "trigger \<le> n"
  shows "ensures (prvInitialiseNewStreamBuffer area n trigger flags) (\<lambda>b. sb_ok b \<and> sb_contents b = [] \<and>
    spaces_available b = n - 1 \<and> xLength b = n \<and> xTriggerLevelBytes b = trigger \<and> ucFlags b = flags \<and>
    uxNotificationIndex b = 0 \<and> (\<forall>d. sb_waiting d b = None) \<and> length (pucBuffer b) = length area)"
  using assms
  by (auto simp: prvInitialiseNewStreamBuffer_def sb_ok_def sb_contents_def prvBytesInBuffer_def spaces_available_def
      sb_waiting.simps Let_def all_sides)

text \<open>The guard against a size that wraps is exact.\<close>

lemma size_guard:
  assumes "n < 2 ^ 64"
  shows "n < size_add (size_add n 1) sizeof_StreamBuffer \<longleftrightarrow> n + 1 + sizeof_StreamBuffer < 2 ^ 64"
proof -
  have e: "size_add (size_add n 1) sizeof_StreamBuffer = (n + 1 + sizeof_StreamBuffer) mod 2 ^ 64"
    by (simp add: size_add_def mod_add_left_eq)
  show ?thesis
  proof (cases "n + 1 + sizeof_StreamBuffer < 2 ^ 64")
    case True
    then show ?thesis unfolding e by (simp add: sizeof_StreamBuffer_def del: One_nat_def)
  next
    case False
    then have "(n + 1 + sizeof_StreamBuffer) mod 2 ^ 64 = n + 1 + sizeof_StreamBuffer - 2 ^ 64"
      using assms by (subst mod_if) (simp add: sizeof_StreamBuffer_def)
    then show ?thesis unfolding e using False assms by (simp add: sizeof_StreamBuffer_def del: One_nat_def)
  qed
qed

text \<open>What the allocator promises: behind the structure there is room for the rest of what was asked for.\<close>

definition honest_malloc :: "(nat \<Rightarrow> (stream_handle \<times> byte list) option) \<Rightarrow> bool" where
  "honest_malloc pvMalloc \<longleftrightarrow> (\<forall>n h area. pvMalloc n = Some (h, area) \<longrightarrow> n \<le> sizeof_StreamBuffer + length area)"

lemma GenericCreate_ensures:
  assumes m: "honest_malloc pvMalloc" and n: "n < 2 ^ 64" "(if ty = sbTYPE_MESSAGE_BUFFER then sbBYTES_TO_STORE_MESSAGE_LENGTH else 0) < n"
    and t: "trigger \<le> n"
  shows "ensures (xStreamBufferGenericCreate pvMalloc n trigger ty s) (\<lambda>(s', r). case r of
      None \<Rightarrow> s' = s
    | Some h \<Rightarrow> n + 1 + sizeof_StreamBuffer < 2 ^ 64 \<and> (\<exists>b. s' = set_buffer h b s \<and> sb_ok b \<and> sb_contents b = [] \<and>
        spaces_available b = n \<and> xTriggerLevelBytes b = max 1 trigger \<and> ucFlags b = stream_flags ty \<and>
        (\<forall>d. sb_waiting d b = None)))"
proof (cases "n + 1 + sizeof_StreamBuffer < 2 ^ 64")
  case False
  then have "\<not> n < size_add (size_add n 1) sizeof_StreamBuffer" using size_guard [OF n(1)] by simp
  then show ?thesis using n t by (simp add: xStreamBufferGenericCreate_def Let_def)
next
  case True
  then have g: "n < size_add (size_add n 1) sizeof_StreamBuffer" using size_guard [OF n(1)] by simp
  have a: "size_add n 1 = n + 1" "size_add (n + 1) sizeof_StreamBuffer = n + 1 + sizeof_StreamBuffer"
    using True by (simp_all add: size_add_def)
  let ?t = "if trigger = 0 then 1 else trigger"
  have unf: "xStreamBufferGenericCreate pvMalloc n trigger ty s = (case pvMalloc (n + 1 + sizeof_StreamBuffer) of
       None \<Rightarrow> Some (s, None)
     | Some (h, area) \<Rightarrow> do {
         b \<leftarrow> prvInitialiseNewStreamBuffer area (n + 1) ?t (stream_flags ty);
         Some (set_buffer h b s, Some h) })"
    using n(2) t g by (simp add: xStreamBufferGenericCreate_def Let_def a del: One_nat_def)
  show ?thesis
  proof (cases "pvMalloc (n + 1 + sizeof_StreamBuffer)")
    case None
    then show ?thesis by (simp add: unf)
  next
    case (Some r)
    obtain h area where r: "r = (h, area)" by (cases r)
    have "n + 1 \<le> length area" using m Some r by (fastforce simp: honest_malloc_def)
    then have "ensures (prvInitialiseNewStreamBuffer area (n + 1) ?t (stream_flags ty)) (\<lambda>b. sb_ok b \<and> sb_contents b = [] \<and>
        spaces_available b = n \<and> xTriggerLevelBytes b = max 1 trigger \<and> ucFlags b = stream_flags ty \<and>
        (\<forall>d. sb_waiting d b = None))"
      by (intro ensures_mono [OF new_buffer]) (use t in auto)
    then show ?thesis
      unfolding unf Some r option.case prod.case ensures_bind using True by (elim ensures_mono) auto
  qed
qed

section \<open>Starting anew\<close>

text \<open>A buffer at which no task waits is emptied; otherwise nothing happens.\<close>

lemma Reset_ensures:
  assumes b: "buffers s h = Some b" and ok: "sb_ok b"
  shows "ensures (xStreamBufferReset h s) (\<lambda>(s', done). done = (\<forall>d. sb_waiting d b = None) \<and>
    (if done then \<exists>b'. s' = set_buffer h b' s \<and> sb_ok b' \<and> sb_contents b' = [] \<and> spaces_available b' = xLength b - 1 \<and>
       xTriggerLevelBytes b' = xTriggerLevelBytes b \<and> ucFlags b' = ucFlags b \<and>
       uxStreamBufferNumber b' = uxStreamBufferNumber b \<and> uxNotificationIndex b' = 0
     else s' = s))"
proof (cases "\<forall>d. sb_waiting d b = None")
  case False
  then show ?thesis using b by (auto simp: xStreamBufferReset_def all_sides sb_waiting.simps)
next
  case True
  have "ensures (prvInitialiseNewStreamBuffer (pucBuffer b) (xLength b) (xTriggerLevelBytes b) (ucFlags b)) (\<lambda>b'.
      sb_ok b' \<and> sb_contents b' = [] \<and> spaces_available b' = xLength b - 1 \<and>
      xTriggerLevelBytes b' = xTriggerLevelBytes b \<and> ucFlags b' = ucFlags b \<and> uxNotificationIndex b' = 0)"
    by (rule ensures_mono [OF new_buffer]) (use ok in \<open>simp_all add: sb_ok_def\<close>)
  then show ?thesis
    using b True by (auto simp: xStreamBufferReset_def Let_def all_sides sb_waiting.simps intro!: exI elim!: ensures_mono)
qed

lemma ResetFromISR_is_Reset: "xStreamBufferResetFromISR h s = xStreamBufferReset h s"
  by (simp add: xStreamBufferResetFromISR_def xStreamBufferReset_def)

text \<open>The trigger level stays reachable: a full buffer always triggers.\<close>

lemma SetTriggerLevel_ensures:
  assumes b: "buffers s h = Some b" and ok: "sb_ok b"
  shows "ensures (xStreamBufferSetTriggerLevel h t s) (\<lambda>(s', done). done = (max 1 t < xLength b) \<and>
    (if done then \<exists>b'. s' = set_buffer h b' s \<and> b' = b\<lparr>xTriggerLevelBytes := max 1 t\<rparr> \<and> sb_ok b' \<and>
       xTriggerLevelBytes b' \<le> prvBytesInBuffer b' + spaces_available b' \<and> sb_contents b' = sb_contents b
     else s' = s))"
proof -
  have "prvBytesInBuffer b + spaces_available b = xLength b - 1" using bytes_in_buffer [OF ok] by simp
  moreover have "sb_ok (b\<lparr>xTriggerLevelBytes := max 1 t\<rparr>)" if "max 1 t < xLength b"
    using ok that by (simp add: sb_ok_def)
  ultimately show ?thesis
    by (cases "max 1 t < xLength b") (auto simp: xStreamBufferSetTriggerLevel_def b Let_def max_def split: if_splits)
qed

end
