(* ===== verification/Stream_Example.thy ===== *)
theory Stream_Example
  imports Stream_Wait Stream_Setup Task_Example
begin

text \<open>
  Three buffers in the small system: 0 is a stream whose bytes go over the end of its ring, 2 an
  empty stream with trigger level 2, 4 a message buffer with one message.
\<close>

definition demo_stream :: stream_buffer where
  "demo_stream = \<lparr>xTail = 4, xHead = 1, xLength = 6, xTriggerLevelBytes = 1, xTaskWaitingToReceive = None,
     xTaskWaitingToSend = None, pucBuffer = [12, 0, 0, 0, 10, 11], ucFlags = 0, uxStreamBufferNumber = 0, uxNotificationIndex = 0\<rparr>"

definition demo_messages :: stream_buffer where
  "demo_messages = \<lparr>xTail = 20, xHead = 6, xLength = 24, xTriggerLevelBytes = 1, xTaskWaitingToReceive = None,
     xTaskWaitingToSend = None,
     pucBuffer = [0, 0, 0, 0, 5, 6, 0, 0, 0, 0, 0, 0, 0, 0, 0, 0, 0, 0, 0, 0, 2, 0, 0, 0],
     ucFlags = 1, uxStreamBufferNumber = 0, uxNotificationIndex = 1\<rparr>"

definition demo_empty :: stream_buffer where
  "demo_empty = \<lparr>xTail = 0, xHead = 0, xLength = 6, xTriggerLevelBytes = 2, xTaskWaitingToReceive = None,
     xTaskWaitingToSend = None, pucBuffer = [0, 0, 0, 0, 0, 0], ucFlags = 0, uxStreamBufferNumber = 0, uxNotificationIndex = 0\<rparr>"

definition demo_streams :: stream_os where
  "demo_streams = \<lparr>skern = demo, buffers = (\<lambda>_. None)(0 \<mapsto> demo_stream, 4 \<mapsto> demo_messages, 2 \<mapsto> demo_empty)\<rparr>"

lemma demo_streams_fields [simp]:
  "skern demo_streams = demo" "buffers demo_streams 0 = Some demo_stream" "buffers demo_streams 4 = Some demo_messages"
  "buffers demo_streams 2 = Some demo_empty"
  by (simp_all add: demo_streams_def)

lemma demo_streams_waiting [simp]:
  "sb_waiting d demo_stream = None" "sb_waiting d demo_messages = None" "sb_waiting d demo_empty = None"
  by (cases d; simp add: sb_waiting.simps demo_stream_def demo_messages_def demo_empty_def)+

lemma demo_streams_sys:
  "sb_sys 0 demo_stream demo_streams" "sb_sys 4 demo_messages demo_streams" "sb_sys 2 demo_empty demo_streams"
  by (simp_all add: sb_sys_def demo_inv) (simp_all add: demo_stream_def demo_messages_def demo_empty_def
      configTASK_NOTIFICATION_ARRAY_ENTRIES_def)

lemma demo_stream_ok: "stream_ok demo_stream" "sb_contents demo_stream = [10, 11, 12]"
  by (simp_all add: stream_ok_def sb_ok_def is_message_buffer_def demo_stream_def sb_contents_def ring_at_def
      prvBytesInBuffer_def upt_rec)

lemma demo_empty_ok: "stream_ok demo_empty" "\<not> is_batching_buffer demo_empty" "sb_contents demo_empty = []"
  "spaces_available demo_empty = 5" "xTriggerLevelBytes demo_empty = 2"
  by (simp_all add: stream_ok_def sb_ok_def is_message_buffer_def is_batching_buffer_def demo_empty_def sb_contents_def
      ring_at_def prvBytesInBuffer_def spaces_available_def)

lemma demo_messages_ok: "message_buffer_ok demo_messages \<and> sb_messages demo_messages = [[5, 6]]"
proof (rule message_buffer_okI)
  show "sb_ok demo_messages" by (simp add: sb_ok_def demo_messages_def)
  show "is_message_buffer demo_messages"
    by (simp add: is_message_buffer_def sbFLAGS_IS_MESSAGE_BUFFER_def demo_messages_def)
  show "sb_contents demo_messages = concat (map frame [[5, 6]])"
    by (simp add: sb_contents_def ring_at_def prvBytesInBuffer_def demo_messages_def frame_def size_bytes_def le_bytes_def
        sbBYTES_TO_STORE_MESSAGE_LENGTH_def upt_rec)
qed (simp add: storable_def)

lemma demo_spaces: "spaces_available demo_messages = 13"
  by (simp add: spaces_available_def demo_messages_def)

lemma demo_about_to_sleep: "about_to_sleep 1 (skern demo_streams)"
  by (simp add: about_to_sleep_def demo_inv)

text \<open>A system that runs the task again at once.\<close>

definition demo_run :: "stream_os \<Rightarrow> stream_os option" where
  "demo_run s = Some (s\<lparr>skern := demo\<rparr>)"

lemma demo_runs_again: "runs_again 1 demo_run"
  by (simp add: runs_again_def demo_run_def demo_inv)

lemma demo_others: "leaves_alone 1 h b Some"
  by (simp add: leaves_alone_def)

end
