(* ===== verification/Timer_State.thy ===== *)
theory Timer_State
  imports Queue_Ops Task_Create
begin

text \<open>
  The data of timers.c: timers, the two lists of active timers with their expiry times, the
  queue through which commands reach the timer task, and the commands as the bytes that go
  through it. The lists are a store of List_Spec whose items are the timers' handles; the
  value of an item is the tick at which the timer expires.
\<close>

type_synonym timer_handle = nat

datatype timer_list = ActiveTimerList1 | ActiveTimerList2

definition tmrNO_DELAY :: tick where "tmrNO_DELAY = 0"
definition tmrMAX_TIME_BEFORE_OVERFLOW :: tick where "tmrMAX_TIME_BEFORE_OVERFLOW = - 1"
definition configTIMER_SERVICE_TASK_NAME :: string where "configTIMER_SERVICE_TASK_NAME = ''Tmr Svc''"
definition configTIMER_TASK_PRIORITY :: nat where "configTIMER_TASK_PRIORITY = 2"
definition configTIMER_QUEUE_LENGTH :: nat where "configTIMER_QUEUE_LENGTH = 16"

definition tmrSTATUS_IS_ACTIVE :: byte where "tmrSTATUS_IS_ACTIVE = 1"
definition tmrSTATUS_IS_STATICALLY_ALLOCATED :: byte where "tmrSTATUS_IS_STATICALLY_ALLOCATED = 2"
definition tmrSTATUS_IS_AUTORELOAD :: byte where "tmrSTATUS_IS_AUTORELOAD = 4"

definition tmrCOMMAND_EXECUTE_CALLBACK_FROM_ISR :: int where "tmrCOMMAND_EXECUTE_CALLBACK_FROM_ISR = -2"
definition tmrCOMMAND_EXECUTE_CALLBACK :: int where "tmrCOMMAND_EXECUTE_CALLBACK = -1"
definition tmrCOMMAND_START :: int where "tmrCOMMAND_START = 1"
definition tmrCOMMAND_RESET :: int where "tmrCOMMAND_RESET = 2"
definition tmrCOMMAND_STOP :: int where "tmrCOMMAND_STOP = 3"
definition tmrCOMMAND_CHANGE_PERIOD :: int where "tmrCOMMAND_CHANGE_PERIOD = 4"
definition tmrCOMMAND_DELETE :: int where "tmrCOMMAND_DELETE = 5"
definition tmrFIRST_FROM_ISR_COMMAND :: int where "tmrFIRST_FROM_ISR_COMMAND = 6"
definition tmrCOMMAND_START_FROM_ISR :: int where "tmrCOMMAND_START_FROM_ISR = 6"
definition tmrCOMMAND_RESET_FROM_ISR :: int where "tmrCOMMAND_RESET_FROM_ISR = 7"
definition tmrCOMMAND_STOP_FROM_ISR :: int where "tmrCOMMAND_STOP_FROM_ISR = 8"
definition tmrCOMMAND_CHANGE_PERIOD_FROM_ISR :: int where "tmrCOMMAND_CHANGE_PERIOD_FROM_ISR = 9"

lemmas timer_commands = tmrCOMMAND_EXECUTE_CALLBACK_FROM_ISR_def tmrCOMMAND_EXECUTE_CALLBACK_def tmrCOMMAND_START_def
  tmrCOMMAND_RESET_def tmrCOMMAND_STOP_def tmrCOMMAND_CHANGE_PERIOD_def tmrCOMMAND_DELETE_def tmrFIRST_FROM_ISR_COMMAND_def
  tmrCOMMAND_START_FROM_ISR_def tmrCOMMAND_RESET_FROM_ISR_def tmrCOMMAND_STOP_FROM_ISR_def tmrCOMMAND_CHANGE_PERIOD_FROM_ISR_def

text \<open>\<open>xTimerListItem\<close> is in the store \<open>tlists\<close>; functions and identifiers are addresses.\<close>

record sw_timer =
  pcTimerName :: "string option"
  xTimerPeriodInTicks :: tick
  pvTimerID :: nat
  pxCallbackFunction :: nat
  uxTimerNumber :: nat
  ucStatus :: byte

definition is_active :: "sw_timer \<Rightarrow> bool" where
  "is_active tm \<longleftrightarrow> ucStatus tm AND tmrSTATUS_IS_ACTIVE \<noteq> 0"

definition is_autoreload :: "sw_timer \<Rightarrow> bool" where
  "is_autoreload tm \<longleftrightarrow> ucStatus tm AND tmrSTATUS_IS_AUTORELOAD \<noteq> 0"

definition is_static_timer :: "sw_timer \<Rightarrow> bool" where
  "is_static_timer tm \<longleftrightarrow> ucStatus tm AND tmrSTATUS_IS_STATICALLY_ALLOCATED \<noteq> 0"

definition set_status :: "byte \<Rightarrow> sw_timer \<Rightarrow> sw_timer" where
  "set_status m tm = tm\<lparr>ucStatus := ucStatus tm OR m\<rparr>"

definition clear_status :: "byte \<Rightarrow> sw_timer \<Rightarrow> sw_timer" where
  "clear_status m tm = tm\<lparr>ucStatus := ucStatus tm AND NOT m\<rparr>"

text \<open>
  \<open>tos\<close> is the system of queue.c, with the kernel in it; \<open>xLastTime\<close> is the static variable of
  \<open>prvSampleTimeNow\<close>.
\<close>

record timer_os =
  tos :: os
  timers :: "timer_handle \<Rightarrow> sw_timer option"
  tlists :: "(timer_list, timer_handle) lists"
  pxCurrentTimerList :: timer_list
  pxOverflowTimerList :: timer_list
  xTimerQueue :: "queue_handle option"
  xTimerTaskHandle :: "task option"
  xLastTime :: tick

abbreviation tkern :: "timer_os \<Rightarrow> kernel" where
  "tkern s \<equiv> kern (tos s)"

abbreviation set_tkern :: "kernel \<Rightarrow> timer_os \<Rightarrow> timer_os" where
  "set_tkern k s \<equiv> s\<lparr>tos := (tos s)\<lparr>kern := k\<rparr>\<rparr>"

abbreviation set_timer :: "timer_handle \<Rightarrow> sw_timer \<Rightarrow> timer_os \<Rightarrow> timer_os" where
  "set_timer t tm s \<equiv> s\<lparr>timers := (timers s)(t \<mapsto> tm)\<rparr>"

text \<open>The code of the application: callbacks of timers, and functions whose call was pended.\<close>

record application =
  call_timer :: "nat \<Rightarrow> timer_handle \<Rightarrow> timer_os \<Rightarrow> timer_os option"
  call_pended :: "nat \<Rightarrow> nat \<Rightarrow> u32 \<Rightarrow> timer_os \<Rightarrow> timer_os option"

section \<open>Messages to the timer task\<close>

text \<open>
  \<open>DaemonTaskMessage_t\<close>: which of the two structures of the union is meant shows in the sign of
  \<open>xMessageID\<close>. The structure is 32 bytes long on a 64-bit host; padding is 0 here.
\<close>

datatype daemon_message =
  TimerMessage int tick timer_handle
| CallbackMessage int nat nat u32

definition sizeof_DaemonTaskMessage :: nat where "sizeof_DaemonTaskMessage = 32"

definition message_bytes :: "daemon_message \<Rightarrow> byte list" where
  "message_bytes m = (case m of
       TimerMessage i v t \<Rightarrow> le_bytes 8 (nat (i mod 2 ^ 64)) @ le_bytes 4 (unat v) @ replicate 4 0 @ le_bytes 8 t @ replicate 8 0
     | CallbackMessage i f p v \<Rightarrow> le_bytes 8 (nat (i mod 2 ^ 64)) @ le_bytes 8 f @ le_bytes 8 p @ le_bytes 4 (unat v) @ replicate 4 0)"

definition signed_64 :: "nat \<Rightarrow> int" where
  "signed_64 n = (if n < 2 ^ 63 then int n else int n - 2 ^ 64)"

definition message_of_bytes :: "byte list \<Rightarrow> daemon_message" where
  "message_of_bytes bs =
     (let i = signed_64 (of_le_bytes (take 8 bs)) in
      if i < 0
      then CallbackMessage i (of_le_bytes (take 8 (drop 8 bs))) (of_le_bytes (take 8 (drop 16 bs)))
        (of_nat (of_le_bytes (take 4 (drop 24 bs))))
      else TimerMessage i (of_nat (of_le_bytes (take 4 (drop 8 bs)))) (of_le_bytes (take 8 (drop 16 bs))))"

text \<open>What can be sent: command numbers of either sign where they belong, and 64-bit addresses.\<close>

fun sound_message :: "daemon_message \<Rightarrow> bool" where
  "sound_message (TimerMessage i v t) \<longleftrightarrow> 0 \<le> i \<and> i < 2 ^ 63 \<and> t < 2 ^ 64"
| "sound_message (CallbackMessage i f p v) \<longleftrightarrow> - (2 ^ 63) \<le> i \<and> i < 0 \<and> f < 2 ^ 64 \<and> p < 2 ^ 64"

lemma signed_64_round: "- (2 ^ 63) \<le> i \<Longrightarrow> i < 2 ^ 63 \<Longrightarrow> signed_64 (nat (i mod 2 ^ 64)) = i"
proof (cases "0 \<le> i")
  case False
  assume "- (2 ^ 63) \<le> i" "i < 2 ^ 63"
  then have "(i + 2 ^ 64) mod 2 ^ 64 = i + 2 ^ 64" using False by (intro mod_pos_pos_trivial) simp_all
  then have "i mod 2 ^ 64 = i + 2 ^ 64" by simp
  then show ?thesis using False \<open>- (2 ^ 63) \<le> i\<close> by (simp add: signed_64_def)
qed (simp add: signed_64_def)

lemma message_round:
  assumes "sound_message m" shows "message_of_bytes (message_bytes m) = m" and "length (message_bytes m) = sizeof_DaemonTaskMessage"
proof -
  have w: "unat (v :: u32) < 256 ^ 4" for v using unat_tick_bound [of v] by simp
  have m64: "nat (i mod 2 ^ 64) < 256 ^ 8" for i :: int
  proof -
    have "i mod 2 ^ 64 < 2 ^ 64" by simp
    then show ?thesis by simp
  qed
  show "message_of_bytes (message_bytes m) = m"
  proof (cases m)
    case (TimerMessage i v t)
    then have "nat i < 2 ^ 63" using assms by (simp add: nat_less_iff)
    then have i: "signed_64 (nat i) = i" "i mod 2 ^ 64 = i" "0 \<le> i" "t < 256 ^ 8" "nat i < 256 ^ 8"
      using assms TimerMessage by (simp_all add: signed_64_def)
    then show ?thesis
      by (simp add: TimerMessage message_bytes_def message_of_bytes_def Let_def le_bytes_round [OF w] le_bytes_round)
  next
    case (CallbackMessage i f p v)
    then have i: "signed_64 (nat (i mod 2 ^ 64)) = i" "i < 0" "f < 256 ^ 8" "p < 256 ^ 8"
      using assms signed_64_round [of i] by simp_all
    then show ?thesis
      using m64 [of i] by (simp add: CallbackMessage message_bytes_def message_of_bytes_def Let_def le_bytes_round [OF w] le_bytes_round)
  qed
  show "length (message_bytes m) = sizeof_DaemonTaskMessage"
    by (cases m) (simp_all add: message_bytes_def sizeof_DaemonTaskMessage_def)
qed

end
