(* ===== verification/Timer_Ops.thy ===== *)
theory Timer_Ops
  imports Timer_State
begin

text \<open>
  timers.c, in the order of the file. The calls of tasks and interrupts put commands into the
  timer queue; \<open>prvTimerTask\<close> is the service task: it fires the timers that have expired, sleeps
  until the next expiry or command, and carries the commands out. The application's code, which
  the service task calls, is the parameter \<open>app\<close>.
\<close>

section \<open>Creation\<close>

text \<open>
  The static queue structure is a parameter: its handle and what is in the memory. Its storage
  area is static, too, and so filled with zeros.
\<close>

definition prvCheckForValidListAndQueue :: "queue_handle \<times> queue \<Rightarrow> timer_os \<Rightarrow> timer_os option" where
  "prvCheckForValidListAndQueue xStaticTimerQueue s =
     (if xTimerQueue s = None
      then do {
        let L = list_init ActiveTimerList1 (tlists s);
        let L = list_init ActiveTimerList2 L;
        let s = s\<lparr>tlists := L, pxCurrentTimerList := ActiveTimerList1, pxOverflowTimerList := ActiveTimerList2\<rparr>;
        (sys, r) \<leftarrow> xQueueGenericCreateStatic configTIMER_QUEUE_LENGTH sizeof_DaemonTaskMessage
          (Some (replicate (configTIMER_QUEUE_LENGTH * sizeof_DaemonTaskMessage) 0)) (Some xStaticTimerQueue)
          queueQUEUE_TYPE_BASE (tos s);
        let s = s\<lparr>tos := sys, xTimerQueue := r\<rparr>;
        Some (case r of
            Some h \<Rightarrow> s\<lparr>tos := vQueueAddToRegistry h (Some ''TmrQ'') (tos s)\<rparr>
          | None \<Rightarrow> s) }
      else Some s)"

text \<open>The memory of the timer task comes from \<open>vApplicationGetTimerTaskMemory\<close>.\<close>

definition xTimerCreateTimerTask ::
    "queue_handle \<times> queue \<Rightarrow> bool \<Rightarrow> task option \<Rightarrow> timer_os \<Rightarrow> (timer_os \<times> bool) option" where
  "xTimerCreateTimerTask xStaticTimerQueue stack_mem tcb_mem s = do {
     s \<leftarrow> prvCheckForValidListAndQueue xStaticTimerQueue s;
     (s, xReturn) \<leftarrow>
       (if xTimerQueue s \<noteq> None
        then do {
          (k, t) \<leftarrow> xTaskCreateStatic (Some configTIMER_SERVICE_TASK_NAME) configTIMER_TASK_PRIORITY stack_mem tcb_mem (tkern s);
          let s = (set_tkern k s)\<lparr>xTimerTaskHandle := t\<rparr>;
          Some (s, xTimerTaskHandle s \<noteq> None) }
        else Some (s, False));
     configASSERT xReturn;
     Some (s, xReturn) }"

definition prvInitialiseNewTimer ::
    "queue_handle \<times> queue \<Rightarrow> string option \<Rightarrow> tick \<Rightarrow> bool \<Rightarrow> nat \<Rightarrow> nat \<Rightarrow> timer_handle \<Rightarrow> timer_os \<Rightarrow> timer_os option" where
  "prvInitialiseNewTimer xStaticTimerQueue name period xAutoReload timer_id callback t s = do {
     configASSERT (period > 0);
     s \<leftarrow> prvCheckForValidListAndQueue xStaticTimerQueue s;
     tm \<leftarrow> timers s t;
     let tm = tm\<lparr>pcTimerName := name, xTimerPeriodInTicks := period, pvTimerID := timer_id, pxCallbackFunction := callback\<rparr>;
     let s = s\<lparr>tlists := list_item_init t (tlists s)\<rparr>;
     let tm = (if xAutoReload then set_status tmrSTATUS_IS_AUTORELOAD tm else tm);
     Some (set_timer t tm s) }"

text \<open>A timer's memory is that of the allocator or of the caller; \<open>uxTimerNumber\<close> keeps what was in it.\<close>

definition xTimerCreate ::
    "queue_handle \<times> queue \<Rightarrow> (timer_handle \<times> sw_timer) option \<Rightarrow> string option \<Rightarrow> tick \<Rightarrow> bool \<Rightarrow> nat \<Rightarrow> nat \<Rightarrow>
     timer_os \<Rightarrow> (timer_os \<times> timer_handle option) option" where
  "xTimerCreate xStaticTimerQueue pvMalloc name period xAutoReload timer_id callback s = (case pvMalloc of
       None \<Rightarrow> Some (s, None)
     | Some (t, tm) \<Rightarrow> do {
         let s = set_timer t (tm\<lparr>ucStatus := 0\<rparr>) s;
         s \<leftarrow> prvInitialiseNewTimer xStaticTimerQueue name period xAutoReload timer_id callback t s;
         Some (s, Some t) })"

definition xTimerCreateStatic ::
    "queue_handle \<times> queue \<Rightarrow> (timer_handle \<times> sw_timer) option \<Rightarrow> string option \<Rightarrow> tick \<Rightarrow> bool \<Rightarrow> nat \<Rightarrow> nat \<Rightarrow>
     timer_os \<Rightarrow> (timer_os \<times> timer_handle option) option" where
  "xTimerCreateStatic xStaticTimerQueue pxTimerBuffer name period xAutoReload timer_id callback s = do {
     configASSERT (pxTimerBuffer \<noteq> None);
     case pxTimerBuffer of
       None \<Rightarrow> Some (s, None)
     | Some (t, tm) \<Rightarrow> do {
         let s = set_timer t (tm\<lparr>ucStatus := tmrSTATUS_IS_STATICALLY_ALLOCATED\<rparr>) s;
         s \<leftarrow> prvInitialiseNewTimer xStaticTimerQueue name period xAutoReload timer_id callback t s;
         Some (s, Some t) } }"

section \<open>Commands\<close>

text \<open>
  Sending a command may wait for space in the timer queue, with one environment for each round;
  what the timer task does with timers and lists meanwhile is \<open>meanwhile\<close>. The outer option of
  the result is whether the call returns within its environments.
\<close>

definition xTimerGenericCommandFromTask ::
    "env list \<Rightarrow> (timer_os \<Rightarrow> timer_os option) \<Rightarrow> timer_handle option \<Rightarrow> int \<Rightarrow> tick \<Rightarrow> tick \<Rightarrow> timer_os \<Rightarrow>
     (timer_os \<times> bool option) option" where
  "xTimerGenericCommandFromTask es meanwhile xTimer xCommandID xOptionalValue xTicksToWait s = do {
     configASSERT (xTimer \<noteq> None);
     t \<leftarrow> xTimer;
     case xTimerQueue s of
       None \<Rightarrow> Some (s, Some False)
     | Some q \<Rightarrow> do {
         let xMessage = TimerMessage xCommandID xOptionalValue t;
         configASSERT (xCommandID < tmrFIRST_FROM_ISR_COMMAND);
         (sys, r) \<leftarrow> xQueueGenericSend es q (Some (message_bytes xMessage))
           (if xTaskGetSchedulerState (tkern s) = taskSCHEDULER_RUNNING then xTicksToWait else tmrNO_DELAY)
           queueSEND_TO_BACK (tos s);
         s \<leftarrow> meanwhile (s\<lparr>tos := sys\<rparr>);
         Some (s, r) } }"

text \<open>From an interrupt: the result, and whether a task that outranks the running one was woken.\<close>

definition xTimerGenericCommandFromISR ::
    "timer_handle option \<Rightarrow> int \<Rightarrow> tick \<Rightarrow> timer_os \<Rightarrow> (timer_os \<times> bool \<times> bool) option" where
  "xTimerGenericCommandFromISR xTimer xCommandID xOptionalValue s = do {
     configASSERT (xTimer \<noteq> None);
     t \<leftarrow> xTimer;
     case xTimerQueue s of
       None \<Rightarrow> Some (s, False, False)
     | Some q \<Rightarrow> do {
         let xMessage = TimerMessage xCommandID xOptionalValue t;
         configASSERT (xCommandID \<ge> tmrFIRST_FROM_ISR_COMMAND);
         (sys, xReturn, woken) \<leftarrow> xQueueGenericSendFromISR q (Some (message_bytes xMessage)) queueSEND_TO_BACK (tos s);
         Some (s\<lparr>tos := sys\<rparr>, xReturn, woken) } }"

text \<open>The macros of timers.h; starting and resetting take the time of the command.\<close>

definition xTimerStart ::
    "env list \<Rightarrow> (timer_os \<Rightarrow> timer_os option) \<Rightarrow> timer_handle option \<Rightarrow> tick \<Rightarrow> timer_os \<Rightarrow> (timer_os \<times> bool option) option" where
  "xTimerStart es m xTimer xTicksToWait s =
     xTimerGenericCommandFromTask es m xTimer tmrCOMMAND_START (xTaskGetTickCount (tkern s)) xTicksToWait s"

definition xTimerStop ::
    "env list \<Rightarrow> (timer_os \<Rightarrow> timer_os option) \<Rightarrow> timer_handle option \<Rightarrow> tick \<Rightarrow> timer_os \<Rightarrow> (timer_os \<times> bool option) option" where
  "xTimerStop es m xTimer xTicksToWait s = xTimerGenericCommandFromTask es m xTimer tmrCOMMAND_STOP 0 xTicksToWait s"

definition xTimerChangePeriod ::
    "env list \<Rightarrow> (timer_os \<Rightarrow> timer_os option) \<Rightarrow> timer_handle option \<Rightarrow> tick \<Rightarrow> tick \<Rightarrow> timer_os \<Rightarrow> (timer_os \<times> bool option) option" where
  "xTimerChangePeriod es m xTimer xNewPeriod xTicksToWait s =
     xTimerGenericCommandFromTask es m xTimer tmrCOMMAND_CHANGE_PERIOD xNewPeriod xTicksToWait s"

definition xTimerDelete ::
    "env list \<Rightarrow> (timer_os \<Rightarrow> timer_os option) \<Rightarrow> timer_handle option \<Rightarrow> tick \<Rightarrow> timer_os \<Rightarrow> (timer_os \<times> bool option) option" where
  "xTimerDelete es m xTimer xTicksToWait s = xTimerGenericCommandFromTask es m xTimer tmrCOMMAND_DELETE 0 xTicksToWait s"

definition xTimerReset ::
    "env list \<Rightarrow> (timer_os \<Rightarrow> timer_os option) \<Rightarrow> timer_handle option \<Rightarrow> tick \<Rightarrow> timer_os \<Rightarrow> (timer_os \<times> bool option) option" where
  "xTimerReset es m xTimer xTicksToWait s =
     xTimerGenericCommandFromTask es m xTimer tmrCOMMAND_RESET (xTaskGetTickCount (tkern s)) xTicksToWait s"

definition xTimerStartFromISR :: "timer_handle option \<Rightarrow> timer_os \<Rightarrow> (timer_os \<times> bool \<times> bool) option" where
  "xTimerStartFromISR xTimer s =
     xTimerGenericCommandFromISR xTimer tmrCOMMAND_START_FROM_ISR (xTaskGetTickCountFromISR (tkern s)) s"

definition xTimerStopFromISR :: "timer_handle option \<Rightarrow> timer_os \<Rightarrow> (timer_os \<times> bool \<times> bool) option" where
  "xTimerStopFromISR xTimer s = xTimerGenericCommandFromISR xTimer tmrCOMMAND_STOP_FROM_ISR 0 s"

definition xTimerChangePeriodFromISR :: "timer_handle option \<Rightarrow> tick \<Rightarrow> timer_os \<Rightarrow> (timer_os \<times> bool \<times> bool) option" where
  "xTimerChangePeriodFromISR xTimer xNewPeriod s =
     xTimerGenericCommandFromISR xTimer tmrCOMMAND_CHANGE_PERIOD_FROM_ISR xNewPeriod s"

definition xTimerResetFromISR :: "timer_handle option \<Rightarrow> timer_os \<Rightarrow> (timer_os \<times> bool \<times> bool) option" where
  "xTimerResetFromISR xTimer s =
     xTimerGenericCommandFromISR xTimer tmrCOMMAND_RESET_FROM_ISR (xTaskGetTickCountFromISR (tkern s)) s"

text \<open>Calls of functions that the timer task is to make.\<close>

definition xTimerPendFunctionCallFromISR :: "nat \<Rightarrow> nat \<Rightarrow> u32 \<Rightarrow> timer_os \<Rightarrow> (timer_os \<times> bool \<times> bool) option" where
  "xTimerPendFunctionCallFromISR xFunctionToPend pvParameter1 ulParameter2 s = do {
     q \<leftarrow> xTimerQueue s;
     let xMessage = CallbackMessage tmrCOMMAND_EXECUTE_CALLBACK_FROM_ISR xFunctionToPend pvParameter1 ulParameter2;
     (sys, xReturn, woken) \<leftarrow> xQueueGenericSendFromISR q (Some (message_bytes xMessage)) queueSEND_TO_BACK (tos s);
     Some (s\<lparr>tos := sys\<rparr>, xReturn, woken) }"

definition xTimerPendFunctionCall ::
    "env list \<Rightarrow> (timer_os \<Rightarrow> timer_os option) \<Rightarrow> nat \<Rightarrow> nat \<Rightarrow> u32 \<Rightarrow> tick \<Rightarrow> timer_os \<Rightarrow> (timer_os \<times> bool option) option" where
  "xTimerPendFunctionCall es meanwhile xFunctionToPend pvParameter1 ulParameter2 xTicksToWait s = do {
     configASSERT (xTimerQueue s \<noteq> None);
     q \<leftarrow> xTimerQueue s;
     let xMessage = CallbackMessage tmrCOMMAND_EXECUTE_CALLBACK xFunctionToPend pvParameter1 ulParameter2;
     (sys, r) \<leftarrow> xQueueGenericSend es q (Some (message_bytes xMessage)) xTicksToWait queueSEND_TO_BACK (tos s);
     s \<leftarrow> meanwhile (s\<lparr>tos := sys\<rparr>);
     Some (s, r) }"

section \<open>Asking and setting\<close>

definition xTimerGetTimerDaemonTaskHandle :: "timer_os \<Rightarrow> task option" where
  "xTimerGetTimerDaemonTaskHandle s = do {
     configASSERT (xTimerTaskHandle s \<noteq> None);
     xTimerTaskHandle s }"

definition xTimerGetPeriod :: "timer_handle \<Rightarrow> timer_os \<Rightarrow> tick option" where
  "xTimerGetPeriod t s = do { tm \<leftarrow> timers s t; Some (xTimerPeriodInTicks tm) }"

definition vTimerSetReloadMode :: "timer_handle \<Rightarrow> bool \<Rightarrow> timer_os \<Rightarrow> timer_os option" where
  "vTimerSetReloadMode t xAutoReload s = do {
     tm \<leftarrow> timers s t;
     Some (set_timer t (if xAutoReload then set_status tmrSTATUS_IS_AUTORELOAD tm
       else clear_status tmrSTATUS_IS_AUTORELOAD tm) s) }"

definition xTimerGetReloadMode :: "timer_handle \<Rightarrow> timer_os \<Rightarrow> bool option" where
  "xTimerGetReloadMode t s = do { tm \<leftarrow> timers s t; Some (if \<not> is_autoreload tm then False else True) }"

definition uxTimerGetReloadMode :: "timer_handle \<Rightarrow> timer_os \<Rightarrow> nat option" where
  "uxTimerGetReloadMode t s = map_option (\<lambda>b. if b then 1 else 0) (xTimerGetReloadMode t s)"

definition xTimerGetExpiryTime :: "timer_handle \<Rightarrow> timer_os \<Rightarrow> tick option" where
  "xTimerGetExpiryTime t s = do { _ \<leftarrow> timers s t; Some (item_value (tlists s) t) }"

definition xTimerGetStaticBuffer :: "timer_handle \<Rightarrow> timer_os \<Rightarrow> (timer_handle option \<times> bool) option" where
  "xTimerGetStaticBuffer t s = do {
     tm \<leftarrow> timers s t;
     Some (if is_static_timer tm then (Some t, True) else (None, False)) }"

definition pcTimerGetName :: "timer_handle \<Rightarrow> timer_os \<Rightarrow> string option option" where
  "pcTimerGetName t s = do { tm \<leftarrow> timers s t; Some (pcTimerName tm) }"

definition xTimerIsTimerActive :: "timer_handle \<Rightarrow> timer_os \<Rightarrow> bool option" where
  "xTimerIsTimerActive t s = do { tm \<leftarrow> timers s t; Some (if \<not> is_active tm then False else True) }"

definition pvTimerGetTimerID :: "timer_handle \<Rightarrow> timer_os \<Rightarrow> nat option" where
  "pvTimerGetTimerID t s = do { tm \<leftarrow> timers s t; Some (pvTimerID tm) }"

definition vTimerSetTimerID :: "timer_handle \<Rightarrow> nat \<Rightarrow> timer_os \<Rightarrow> timer_os option" where
  "vTimerSetTimerID t pvNewID s = do { tm \<leftarrow> timers s t; Some (set_timer t (tm\<lparr>pvTimerID := pvNewID\<rparr>) s) }"

definition uxTimerGetTimerNumber :: "timer_handle \<Rightarrow> timer_os \<Rightarrow> nat option" where
  "uxTimerGetTimerNumber t s = do { tm \<leftarrow> timers s t; Some (uxTimerNumber tm) }"

definition vTimerSetTimerNumber :: "timer_handle \<Rightarrow> nat \<Rightarrow> timer_os \<Rightarrow> timer_os option" where
  "vTimerSetTimerNumber t n s = do { tm \<leftarrow> timers s t; Some (set_timer t (tm\<lparr>uxTimerNumber := n\<rparr>) s) }"

definition vTimerResetState :: "timer_os \<Rightarrow> timer_os" where
  "vTimerResetState s = s\<lparr>xTimerQueue := None, xTimerTaskHandle := None\<rparr>"

section \<open>Expiry\<close>

text \<open>
  Where a timer goes that was started at \<open>xCommandTime\<close> and expires at \<open>xNextExpiryTime\<close>: into
  the list for this round of the tick counter, the one for the next, or nowhere, if it has
  expired already (\<open>True\<close>).
\<close>

definition prvInsertTimerInActiveList ::
    "timer_handle \<Rightarrow> tick \<Rightarrow> tick \<Rightarrow> tick \<Rightarrow> timer_os \<Rightarrow> (timer_os \<times> bool) option" where
  "prvInsertTimerInActiveList t xNextExpiryTime xTimeNow xCommandTime s = do {
     tm \<leftarrow> timers s t;
     let s = s\<lparr>tlists := list_set_value t xNextExpiryTime (tlists s)\<rparr>;
     Some (if xNextExpiryTime \<le> xTimeNow
       then if xTimeNow - xCommandTime \<ge> xTimerPeriodInTicks tm then (s, True)
            else (s\<lparr>tlists := list_insert (pxOverflowTimerList s) t (tlists s)\<rparr>, False)
       else if xTimeNow < xCommandTime \<and> xNextExpiryTime \<ge> xCommandTime then (s, True)
            else (s\<lparr>tlists := list_insert (pxCurrentTimerList s) t (tlists s)\<rparr>, False)) }"

definition run_callback :: "application \<Rightarrow> timer_handle \<Rightarrow> timer_os \<Rightarrow> timer_os option" where
  "run_callback app t s = do { tm \<leftarrow> timers s t; call_timer app (pxCallbackFunction tm) t s }"

text \<open>Expiries that were missed are made up for, one call of the callback for each.\<close>

partial_function (option) prvReloadTimer ::
    "application \<Rightarrow> timer_handle \<Rightarrow> tick \<Rightarrow> tick \<Rightarrow> timer_os \<Rightarrow> timer_os option" where
  "prvReloadTimer app t xExpiredTime xTimeNow s = do {
     tm \<leftarrow> timers s t;
     (s, expired) \<leftarrow> prvInsertTimerInActiveList t (xExpiredTime + xTimerPeriodInTicks tm) xTimeNow xExpiredTime s;
     if expired
     then do {
       tm \<leftarrow> timers s t;
       let xExpiredTime = xExpiredTime + xTimerPeriodInTicks tm;
       s \<leftarrow> run_callback app t s;
       prvReloadTimer app t xExpiredTime xTimeNow s }
     else Some s }"

definition prvProcessExpiredTimer :: "application \<Rightarrow> tick \<Rightarrow> tick \<Rightarrow> timer_os \<Rightarrow> timer_os option" where
  "prvProcessExpiredTimer app xNextExpireTime xTimeNow s = do {
     t \<leftarrow> list_head (pxCurrentTimerList s) (tlists s);
     (L, _) \<leftarrow> list_remove t (tlists s);
     let s = s\<lparr>tlists := L\<rparr>;
     tm \<leftarrow> timers s t;
     s \<leftarrow> (if is_autoreload tm then prvReloadTimer app t xNextExpireTime xTimeNow s
           else Some (set_timer t (clear_status tmrSTATUS_IS_ACTIVE tm) s));
     run_callback app t s }"

text \<open>At the wrap of the tick counter every timer that is left in the current list has expired.\<close>

partial_function (option) switch_loop :: "application \<Rightarrow> timer_os \<Rightarrow> timer_os option" where
  "switch_loop app s = (case list_head (pxCurrentTimerList s) (tlists s) of
       None \<Rightarrow> Some s
     | Some t \<Rightarrow> do {
         let xNextExpireTime = item_value (tlists s) t;
         s \<leftarrow> prvProcessExpiredTimer app xNextExpireTime tmrMAX_TIME_BEFORE_OVERFLOW s;
         switch_loop app s })"

definition prvSwitchTimerLists :: "application \<Rightarrow> timer_os \<Rightarrow> timer_os option" where
  "prvSwitchTimerLists app s = do {
     s \<leftarrow> switch_loop app s;
     let pxTemp = pxCurrentTimerList s;
     let s = s\<lparr>pxCurrentTimerList := pxOverflowTimerList s\<rparr>;
     Some (s\<lparr>pxOverflowTimerList := pxTemp\<rparr>) }"

definition prvSampleTimeNow :: "application \<Rightarrow> timer_os \<Rightarrow> (timer_os \<times> tick \<times> bool) option" where
  "prvSampleTimeNow app s = do {
     let xTimeNow = xTaskGetTickCount (tkern s);
     (s, switched) \<leftarrow> (if xTimeNow < xLastTime s
       then do { s \<leftarrow> prvSwitchTimerLists app s; Some (s, True) }
       else Some (s, False));
     Some (s\<lparr>xLastTime := xTimeNow\<rparr>, xTimeNow, switched) }"

text \<open>The expiry time of the first timer, and whether there is none.\<close>

definition prvGetNextExpireTime :: "timer_os \<Rightarrow> tick \<times> bool" where
  "prvGetNextExpireTime s = (case list_head (pxCurrentTimerList s) (tlists s) of
       None \<Rightarrow> (0, True)
     | Some t \<Rightarrow> (item_value (tlists s) t, False))"

section \<open>The timer task\<close>

text \<open>\<open>e\<close> is what interrupts do while the task waits for a command with the scheduler locked.\<close>

definition prvProcessTimerOrBlockTask :: "application \<Rightarrow> env \<Rightarrow> tick \<Rightarrow> bool \<Rightarrow> timer_os \<Rightarrow> timer_os option" where
  "prvProcessTimerOrBlockTask app e xNextExpireTime xListWasEmpty s = do {
     let s = set_tkern (vTaskSuspendAll (tkern s)) s;
     (s, xTimeNow, xTimerListsWereSwitched) \<leftarrow> prvSampleTimeNow app s;
     if \<not> xTimerListsWereSwitched
     then if \<not> xListWasEmpty \<and> xNextExpireTime \<le> xTimeNow
          then do {
            (k, _) \<leftarrow> xTaskResumeAll (tkern s);
            prvProcessExpiredTimer app xNextExpireTime xTimeNow (set_tkern k s) }
          else do {
            let xListWasEmpty = (if xListWasEmpty then list_empty (pxOverflowTimerList s) (tlists s) else xListWasEmpty);
            q \<leftarrow> xTimerQueue s;
            sys \<leftarrow> vQueueWaitForMessageRestricted e q (xNextExpireTime - xTimeNow) xListWasEmpty (tos s);
            (k, xAlreadyYielded) \<leftarrow> xTaskResumeAll (kern sys);
            k \<leftarrow> (if \<not> xAlreadyYielded then portYIELD k else Some k);
            Some (s\<lparr>tos := sys\<lparr>kern := k\<rparr>\<rparr>) }
     else do {
       (k, _) \<leftarrow> xTaskResumeAll (tkern s);
       Some (set_tkern k s) } }"

text \<open>One command for a timer: the timer is taken out of its list first.\<close>

definition command_switch :: "application \<Rightarrow> int \<Rightarrow> tick \<Rightarrow> timer_handle \<Rightarrow> tick \<Rightarrow> timer_os \<Rightarrow> timer_os option" where
  "command_switch app xMessageID xMessageValue t xTimeNow s = do {
     tm \<leftarrow> timers s t;
     if xMessageID \<in> {tmrCOMMAND_START, tmrCOMMAND_START_FROM_ISR, tmrCOMMAND_RESET, tmrCOMMAND_RESET_FROM_ISR}
     then do {
       let tm = set_status tmrSTATUS_IS_ACTIVE tm;
       let s = set_timer t tm s;
       (s, expired) \<leftarrow> prvInsertTimerInActiveList t (xMessageValue + xTimerPeriodInTicks tm) xTimeNow xMessageValue s;
       if expired
       then do {
         s \<leftarrow> (if is_autoreload tm then prvReloadTimer app t (xMessageValue + xTimerPeriodInTicks tm) xTimeNow s
               else Some (set_timer t (clear_status tmrSTATUS_IS_ACTIVE tm) s));
         run_callback app t s }
       else Some s }
     else if xMessageID \<in> {tmrCOMMAND_STOP, tmrCOMMAND_STOP_FROM_ISR}
     then Some (set_timer t (clear_status tmrSTATUS_IS_ACTIVE tm) s)
     else if xMessageID \<in> {tmrCOMMAND_CHANGE_PERIOD, tmrCOMMAND_CHANGE_PERIOD_FROM_ISR}
     then do {
       let tm = (set_status tmrSTATUS_IS_ACTIVE tm)\<lparr>xTimerPeriodInTicks := xMessageValue\<rparr>;
       configASSERT (xTimerPeriodInTicks tm > 0);
       let s = set_timer t tm s;
       (s, _) \<leftarrow> prvInsertTimerInActiveList t (xTimeNow + xTimerPeriodInTicks tm) xTimeNow xTimeNow s;
       Some s }
     else if xMessageID = tmrCOMMAND_DELETE
     then Some (if \<not> is_static_timer tm then s\<lparr>timers := (timers s)(t := None)\<rparr>
       else set_timer t (clear_status tmrSTATUS_IS_ACTIVE tm) s)
     else Some s }"

definition process_command :: "application \<Rightarrow> int \<Rightarrow> tick \<Rightarrow> timer_handle \<Rightarrow> timer_os \<Rightarrow> timer_os option" where
  "process_command app xMessageID xMessageValue t s = do {
     _ \<leftarrow> timers s t;
     s \<leftarrow> (if container (tlists s) t \<noteq> None
           then do { (L, _) \<leftarrow> list_remove t (tlists s); Some (s\<lparr>tlists := L\<rparr>) }
           else Some s);
     (s, xTimeNow, _) \<leftarrow> prvSampleTimeNow app s;
     command_switch app xMessageID xMessageValue t xTimeNow s }"

definition process_message :: "application \<Rightarrow> daemon_message \<Rightarrow> timer_os \<Rightarrow> timer_os option" where
  "process_message app m s = (case m of
       CallbackMessage _ f p v \<Rightarrow> call_pended app f p v s
     | TimerMessage i v t \<Rightarrow> process_command app i v t s)"

partial_function (option) prvProcessReceivedCommands :: "application \<Rightarrow> timer_os \<Rightarrow> timer_os option" where
  "prvProcessReceivedCommands app s = do {
     q \<leftarrow> xTimerQueue s;
     (sys, r) \<leftarrow> xQueueReceive [] q True tmrNO_DELAY (tos s);
     let s = s\<lparr>tos := sys\<rparr>;
     case r of
       None \<Rightarrow> Some s
     | Some (received, bytes) \<Rightarrow>
         if received
         then do {
           s \<leftarrow> process_message app (message_of_bytes bytes) s;
           prvProcessReceivedCommands app s }
         else Some s }"

text \<open>
  One round of the loop of \<open>prvTimerTask\<close>; other tasks run after it has found the next expiry and
  after it has blocked.
\<close>

definition prvTimerTask ::
    "application \<Rightarrow> (timer_os \<Rightarrow> timer_os option) \<Rightarrow> (timer_os \<Rightarrow> timer_os option) \<Rightarrow> env \<Rightarrow> timer_os \<Rightarrow> timer_os option" where
  "prvTimerTask app before others e s = do {
     let (xNextExpireTime, xListWasEmpty) = prvGetNextExpireTime s;
     s \<leftarrow> before s;
     s \<leftarrow> prvProcessTimerOrBlockTask app e xNextExpireTime xListWasEmpty s;
     s \<leftarrow> others s;
     prvProcessReceivedCommands app s }"

end
