(* ===== verification/Timer_Lists.thy ===== *)
theory Timer_Lists
  imports Timer_Ops
begin

text \<open>
  The two timer lists as one schedule: when each timer expires, the invariant of timers and
  lists, and where \<open>prvInsertTimerInActiveList\<close> puts a timer.
\<close>

section \<open>The schedule\<close>

text \<open>
  When a timer expires, in ticks since the counter last wrapped: the current list has the expiries
  before the next wrap and the overflow list those after it.
\<close>

definition due :: "timer_os \<Rightarrow> timer_handle \<Rightarrow> int option" where
  "due s t = (case container (tlists s) t of
       None \<Rightarrow> None
     | Some l \<Rightarrow> Some (uint (item_value (tlists s) t) + (if l = pxCurrentTimerList s then 0 else 2 ^ 32)))"

definition listed :: "timer_os \<Rightarrow> timer_handle \<Rightarrow> bool" where
  "listed s t \<longleftrightarrow> container (tlists s) t \<noteq> None"

definition active :: "timer_os \<Rightarrow> timer_handle \<Rightarrow> bool" where
  "active s t \<longleftrightarrow> (\<exists>tm. timers s t = Some tm \<and> is_active tm)"

text \<open>Both lists are in the order of expiry, whatever is in them.\<close>

definition schedule_ok :: "timer_os \<Rightarrow> bool" where
  "schedule_ok s \<longleftrightarrow> lists_wf (tlists s) \<and> pxCurrentTimerList s \<noteq> pxOverflowTimerList s \<and>
     (\<forall>l. sorted_key (item_value (tlists s)) (items (tlists s) l)) \<and>
     (\<forall>t tm. timers s t = Some tm \<longrightarrow> 0 < xTimerPeriodInTicks tm)"

text \<open>
  The active timers are those in a list, except for the timers in \<open>X\<close>, which are being dealt
  with: they are in no list and may be active.
\<close>

definition lifted :: "timer_handle set \<Rightarrow> timer_os \<Rightarrow> bool" where
  "lifted X s \<longleftrightarrow> schedule_ok s \<and> (\<forall>u. u \<notin> X \<longrightarrow> listed s u = active s u) \<and>
     (\<forall>u \<in> X. \<not> listed s u \<and> timers s u \<noteq> None)"

definition timers_ok :: "timer_os \<Rightarrow> bool" where
  "timers_ok s = lifted {} s"

text \<open>What code outside timers.c may do: it creates timers, and it leaves the lists alone.\<close>

definition undisturbing :: "timer_os \<Rightarrow> timer_os \<Rightarrow> bool" where
  "undisturbing s s' \<longleftrightarrow> tlists s' = tlists s \<and> pxCurrentTimerList s' = pxCurrentTimerList s \<and>
     pxOverflowTimerList s' = pxOverflowTimerList s \<and> xTimerQueue s' = xTimerQueue s \<and> xLastTime s' = xLastTime s \<and>
     (\<forall>t tm. timers s t = Some tm \<longrightarrow> (\<exists>tm'. timers s' t = Some tm' \<and>
        xTimerPeriodInTicks tm' = xTimerPeriodInTicks tm \<and> is_active tm' = is_active tm)) \<and>
     (\<forall>t tm'. timers s t = None \<longrightarrow> timers s' t = Some tm' \<longrightarrow> 0 < xTimerPeriodInTicks tm' \<and> \<not> is_active tm')"

lemma undisturbing_refl [simp]: "undisturbing s s"
  by (simp add: undisturbing_def)

lemma undisturbing_fields:
  assumes "undisturbing s s'"
  shows "tlists s' = tlists s" "pxCurrentTimerList s' = pxCurrentTimerList s" "pxOverflowTimerList s' = pxOverflowTimerList s"
    "xTimerQueue s' = xTimerQueue s" "xLastTime s' = xLastTime s" "due s' = due s" "listed s' = listed s"
proof -
  show f: "tlists s' = tlists s" "pxCurrentTimerList s' = pxCurrentTimerList s" "pxOverflowTimerList s' = pxOverflowTimerList s"
    "xTimerQueue s' = xTimerQueue s" "xLastTime s' = xLastTime s"
    using assms by (simp_all add: undisturbing_def)
  show "due s' = due s" "listed s' = listed s" by (auto simp: due_def listed_def f fun_eq_iff split: option.split)
qed

lemma undisturbing_active:
  assumes "undisturbing s s'" shows "active s' = active s"
proof
  fix t show "active s' t = active s t"
  proof (cases "timers s t")
    case None
    then show ?thesis using assms unfolding undisturbing_def active_def by fastforce
  next
    case (Some tm)
    then show ?thesis using assms unfolding undisturbing_def active_def by fastforce
  qed
qed

lemma undisturbing_period:
  assumes "undisturbing s s'" and "timers s t = Some tm"
  obtains tm' where "timers s' t = Some tm'" "xTimerPeriodInTicks tm' = xTimerPeriodInTicks tm"
  using assms unfolding undisturbing_def by blast

lemma undisturbing_schedule_ok:
  assumes q: "undisturbing s s'" and ok: "schedule_ok s" shows "schedule_ok s'"
proof -
  have "0 < xTimerPeriodInTicks tm'" if "timers s' t = Some tm'" for t tm'
  proof (cases "timers s t")
    case None
    with q that show ?thesis unfolding undisturbing_def by blast
  next
    case (Some tm)
    with q that have "xTimerPeriodInTicks tm' = xTimerPeriodInTicks tm" unfolding undisturbing_def by fastforce
    with ok Some show ?thesis by (simp add: schedule_ok_def)
  qed
  with ok show ?thesis by (simp add: schedule_ok_def undisturbing_fields [OF q])
qed

lemma undisturbing_lifted:
  assumes q: "undisturbing s s'" and up: "lifted X s" shows "lifted X s'"
proof -
  have "timers s' u \<noteq> None" if "u \<in> X" for u
  proof -
    have "timers s u \<noteq> None" using up that by (simp add: lifted_def)
    then obtain tm where "timers s u = Some tm" by blast
    then show ?thesis by (rule undisturbing_period [OF q]) simp
  qed
  then show ?thesis using up by (simp add: lifted_def undisturbing_schedule_ok [OF q] undisturbing_active [OF q] undisturbing_fields [OF q])
qed

lemma schedule_okD:
  assumes "schedule_ok s"
  shows "lists_wf (tlists s)" "pxCurrentTimerList s \<noteq> pxOverflowTimerList s" "pxOverflowTimerList s \<noteq> pxCurrentTimerList s"
    "sorted_key (item_value (tlists s)) (items (tlists s) l)"
    "timers s t = Some tm \<Longrightarrow> 0 < xTimerPeriodInTicks tm"
  using assms unfolding schedule_ok_def by (simp_all add: eq_commute)

lemma liftedD:
  assumes "lifted X s"
  shows "schedule_ok s" "u \<notin> X \<Longrightarrow> listed s u = active s u" "u \<in> X \<Longrightarrow> \<not> listed s u" "u \<in> X \<Longrightarrow> timers s u \<noteq> None"
  using assms by (simp_all add: lifted_def)

lemma timers_okD: "timers_ok s \<Longrightarrow> schedule_ok s" "timers_ok s \<Longrightarrow> listed s t = active s t"
  by (simp_all add: timers_ok_def lifted_def)

text \<open>A timer in the current list is due before the wrap, one in the overflow list after it.\<close>

lemma due_current:
  assumes "schedule_ok s"
  shows "t \<in> set (items (tlists s) (pxCurrentTimerList s)) \<longleftrightarrow> (\<exists>d < 2 ^ 32. due s t = Some d)"
proof -
  have "t \<in> set (items (tlists s) (pxCurrentTimerList s)) \<longleftrightarrow> container (tlists s) t = Some (pxCurrentTimerList s)"
    using lists_wf_container [OF schedule_okD(1) [OF assms]] by simp
  then show ?thesis
    using uint_tick_bounds [of "item_value (tlists s) t"] by (auto simp: due_def split: option.splits)
qed

lemma due_in_list:
  assumes "schedule_ok s" and "t \<in> set (items (tlists s) l)"
  shows "due s t = Some (uint (item_value (tlists s) t) + (if l = pxCurrentTimerList s then 0 else 2 ^ 32))"
  using assms lists_wf_container [OF schedule_okD(1) [OF assms(1)], of t l] by (simp add: due_def)

lemma due_none [simp]: "due s t = None \<longleftrightarrow> \<not> listed s t"
  by (simp add: due_def listed_def split: option.split)

text \<open>After a wrap the expiries count from the new one.\<close>

definition shifted :: "int option \<Rightarrow> int option" where
  "shifted = map_option (\<lambda>d. d - 2 ^ 32)"

text \<open>The head of the current list is the first to expire.\<close>

lemma head_due:
  assumes up: "lifted X s" and hd: "list_head (pxCurrentTimerList s) (tlists s) = Some t"
  shows "due s t = Some (uint (item_value (tlists s) t))" and "\<exists>tm. timers s t = Some tm"
    and "\<And>u d. due s u = Some d \<Longrightarrow> uint (item_value (tlists s) t) \<le> d"
proof -
  note sk = liftedD(1) [OF up]
  obtain ts where ts: "items (tlists s) (pxCurrentTimerList s) = t # ts"
    using hd by (auto simp: list_head_def split: list.splits)
  show t: "due s t = Some (uint (item_value (tlists s) t))"
    using due_in_list [OF sk, of t "pxCurrentTimerList s"] ts by simp
  have "listed s t" using t due_none [of s t] by (metis option.distinct(1))
  then show "\<exists>tm. timers s t = Some tm" using liftedD(2,3) [OF up, of t] by (auto simp: active_def)
  fix u d assume d: "due s u = Some d"
  show "uint (item_value (tlists s) t) \<le> d"
  proof (cases "d < 2 ^ 32")
    case True
    then have u: "u \<in> set (t # ts)" using due_current [OF sk, of u] d ts by auto
    then have "item_value (tlists s) t \<le> item_value (tlists s) u"
      using schedule_okD(4) [OF sk, of "pxCurrentTimerList s"] ts by auto
    moreover have "d = uint (item_value (tlists s) u)"
      using due_in_list [OF sk, of u "pxCurrentTimerList s"] u ts d by simp
    ultimately show ?thesis by (simp add: word_le_def)
  next
    case False
    then show ?thesis using uint_tick_bounds(2) [of "item_value (tlists s) t"] by simp
  qed
qed

lemma uint_last_tick: "uint (tmrMAX_TIME_BEFORE_OVERFLOW) = 2 ^ 32 - 1"
  by (simp add: tmrMAX_TIME_BEFORE_OVERFLOW_def unsigned_minus_1_eq_mask mask_eq_exp_minus_1)

text \<open>Timers stay known, with the same period.\<close>

definition periods_kept :: "timer_os \<Rightarrow> timer_os \<Rightarrow> bool" where
  "periods_kept s s' \<longleftrightarrow> (\<forall>u tm. timers s u = Some tm \<longrightarrow>
     (\<exists>tm'. timers s' u = Some tm' \<and> xTimerPeriodInTicks tm' = xTimerPeriodInTicks tm))"

lemma periods_kept_refl [simp]: "periods_kept s s"
  by (simp add: periods_kept_def)

lemma periods_kept_trans: "periods_kept s s1 \<Longrightarrow> periods_kept s1 s2 \<Longrightarrow> periods_kept s s2"
  unfolding periods_kept_def by metis

lemma undisturbing_periods: "undisturbing s s' \<Longrightarrow> periods_kept s s'"
  unfolding undisturbing_def periods_kept_def by blast

lemma periods_kept_same: "timers s' = timers s \<Longrightarrow> periods_kept s s'"
  by (simp add: periods_kept_def)

text \<open>
  A callback may change the reload mode of timers. \<open>keeps_reload_modes\<close> says that those of this
  application do not; \<open>kept\<close> is what is then left alone, too.
\<close>

definition modes_kept :: "timer_os \<Rightarrow> timer_os \<Rightarrow> bool" where
  "modes_kept s s' \<longleftrightarrow> (\<forall>u tm. timers s u = Some tm \<longrightarrow>
     (\<exists>tm'. timers s' u = Some tm' \<and> is_autoreload tm' = is_autoreload tm))"

definition keeps_reload_modes :: "application \<Rightarrow> (os \<Rightarrow> bool) \<Rightarrow> bool" where
  "keeps_reload_modes app P \<longleftrightarrow> (\<forall>s t tm. timers s t = Some tm \<and> P (tos s) \<longrightarrow>
     ensures (call_timer app (pxCallbackFunction tm) t s) (modes_kept s))"

definition kept :: "bool \<Rightarrow> timer_os \<Rightarrow> timer_os \<Rightarrow> bool" where
  "kept K s s' \<longleftrightarrow> periods_kept s s' \<and> (K \<longrightarrow> modes_kept s s')"

lemma kept_refl [simp]: "kept K s s"
  by (simp add: kept_def modes_kept_def)

lemma kept_trans: "kept K s s1 \<Longrightarrow> kept K s1 s2 \<Longrightarrow> kept K s s2"
  unfolding kept_def modes_kept_def by (metis periods_kept_trans)

lemma kept_same: "timers s' = timers s \<Longrightarrow> kept K s s'"
  by (simp add: kept_def modes_kept_def periods_kept_same)

lemma kept_periods: "kept K s s' \<Longrightarrow> periods_kept s s'"
  by (simp add: kept_def)

lemma kept_timer:
  assumes "kept K s s'" and "timers s u = Some tm"
  obtains tm' where "timers s' u = Some tm'" "xTimerPeriodInTicks tm' = xTimerPeriodInTicks tm"
    "K \<Longrightarrow> is_autoreload tm' = is_autoreload tm"
  using assms unfolding kept_def periods_kept_def modes_kept_def by (metis option.inject)

text \<open>
  The wrap of the tick counter, for one timer \<open>T\<close> that is due at \<open>d\<close> and has been called \<open>n\<close>
  times. If it is due after the wrap, its expiry now counts from the new one. If it was due before
  the wrap it has been called; a one-shot timer is then out of the schedule, and an auto-reload
  timer has been called for every expiry before the wrap and is due at its first expiry after it.
\<close>

definition past_wrap :: "bool \<Rightarrow> sw_timer option \<Rightarrow> int option \<Rightarrow> nat \<Rightarrow> int option \<Rightarrow> nat \<Rightarrow> bool" where
  "past_wrap K T d n d' n' \<longleftrightarrow> (case d of
       None \<Rightarrow> d' = None \<and> n' = n
     | Some e \<Rightarrow> if 2 ^ 32 \<le> e then d' = Some (e - 2 ^ 32) \<and> n' = n
         else \<exists>tm b. T = Some tm \<and> (K \<longrightarrow> b = is_autoreload tm) \<and>
           d' = (if b then Some ((e - 2 ^ 32) mod uint (xTimerPeriodInTicks tm)) else None) \<and>
           n' = n + (if b then 1 + nat ((2 ^ 32 - 1 - e) div uint (xTimerPeriodInTicks tm)) else 1))"

lemma past_wrap_late:
  assumes "\<forall>e. d = Some e \<longrightarrow> 2 ^ 32 \<le> e" shows "past_wrap K T d n d' n' \<longleftrightarrow> d' = shifted d \<and> n' = n"
  using assms by (auto simp: past_wrap_def shifted_def split: option.split)

lemma past_wrap_early:
  assumes "e < 2 ^ 32" and "T = Some tm"
  shows "past_wrap K T (Some e) n d' n' \<longleftrightarrow> (\<exists>b. (K \<longrightarrow> b = is_autoreload tm) \<and>
    d' = (if b then Some ((e - 2 ^ 32) mod uint (xTimerPeriodInTicks tm)) else None) \<and>
    n' = n + (if b then 1 + nat ((2 ^ 32 - 1 - e) div uint (xTimerPeriodInTicks tm)) else 1))"
proof -
  have "\<not> 2 ^ 32 \<le> e" using assms(1) by simp
  then show ?thesis unfolding past_wrap_def option.case by (simp only: if_False assms(2) option.inject ex_simps simp_thms)
qed

lemma past_wrap_kept:
  assumes "kept K s s1" and "past_wrap K (timers s1 u) d n d' n'" and "d \<noteq> None \<Longrightarrow> timers s u \<noteq> None"
  shows "past_wrap K (timers s u) d n d' n'"
proof (cases "\<forall>e. d = Some e \<longrightarrow> 2 ^ 32 \<le> e")
  case True
  then show ?thesis using assms(2) by (simp add: past_wrap_late)
next
  case False
  then obtain e where e: "d = Some e" "e < 2 ^ 32" by (auto simp: not_le)
  then obtain tm where tm: "timers s u = Some tm" using assms(3) by blast
  obtain tm1 where tm1: "timers s1 u = Some tm1" "xTimerPeriodInTicks tm1 = xTimerPeriodInTicks tm"
    "K \<Longrightarrow> is_autoreload tm1 = is_autoreload tm" using kept_timer [OF assms(1) tm] by blast
  show ?thesis
    using assms(2) tm1(3) unfolding e(1) past_wrap_early [OF e(2) tm] past_wrap_early [OF e(2) tm1(1)] tm1(2) by metis
qed

lemma neg_mod:
  fixes e p :: int assumes "0 < p" shows "(- e - 1) mod p = p - 1 - e mod p"
proof -
  have "- e - 1 = (p - 1 - e mod p) + p * (- (e div p) - 1)"
    using mult_div_mod_eq [of p e] by (simp add: algebra_simps)
  then have "(- e - 1) mod p = (p - 1 - e mod p) mod p" by (metis mod_mult_self2)
  also have "\<dots> = p - 1 - e mod p"
    using pos_mod_bound [OF assms, of e] pos_mod_sign [OF assms, of e] by (intro mod_pos_pos_trivial) simp_all
  finally show ?thesis .
qed

lemma reload_phase:
  fixes d p :: int assumes "0 < p"
  shows "2 ^ 32 - 1 + (p - (2 ^ 32 - 1 - d) mod p) = 2 ^ 32 + (d - 2 ^ 32) mod p"
  using neg_mod [OF assms, of "2 ^ 32 - 1 - d"] by simp

section \<open>Inserting\<close>

text \<open>The arithmetic of a counter that wraps: \<open>e\<close> ticks of the period \<open>p\<close> are over.\<close>

lemma expiry_ahead:
  fixes now cmd p :: tick
  assumes "now - cmd < p"
  shows "uint (cmd + p) + (if cmd + p \<le> now then 2 ^ 32 else 0) = uint now + uint p - uint (now - cmd)"
    and "\<not> (now < cmd \<and> cmd \<le> cmd + p) \<or> cmd + p \<le> now"
proof -
  have b: "unat now < 2 ^ 32" "unat cmd < 2 ^ 32" "unat p < 2 ^ 32" by (rule unat_tick_bound)+
  have "int (unat (cmd + p)) + (if unat (cmd + p) \<le> unat now then 2 ^ 32 else 0) = int (unat now) + int (unat p) - int (unat (now - cmd))
    \<and> (\<not> (unat now < unat cmd \<and> unat cmd \<le> unat (cmd + p)) \<or> unat (cmd + p) \<le> unat now)"
    using assms b by (auto simp: word_less_nat_alt word_le_nat_alt unat_plus_if' unat_sub_if_size word_size of_nat_diff split: if_splits)
  then show "uint (cmd + p) + (if cmd + p \<le> now then 2 ^ 32 else 0) = uint now + uint p - uint (now - cmd)"
    and "\<not> (now < cmd \<and> cmd \<le> cmd + p) \<or> cmd + p \<le> now"
    by (simp_all add: word_less_nat_alt word_le_nat_alt)
qed

lemma expiry_past:
  fixes now cmd p :: tick
  assumes "p \<le> now - cmd" and "\<not> cmd + p \<le> now"
  shows "now < cmd \<and> cmd \<le> cmd + p"
proof -
  have b: "unat now < 2 ^ 32" "unat cmd < 2 ^ 32" "unat p < 2 ^ 32" by (rule unat_tick_bound)+
  then show ?thesis
    using assms by (auto simp: word_less_nat_alt word_le_nat_alt unat_plus_if' unat_sub_if_size word_size split: if_splits)
qed

lemma insert_test:
  fixes now cmd p :: tick
  shows "(if cmd + p \<le> now then p \<le> now - cmd else now < cmd \<and> cmd \<le> cmd + p) \<longleftrightarrow> p \<le> now - cmd"
  using expiry_ahead(2) [of now cmd p] expiry_past [of p now cmd] by (cases "p \<le> now - cmd") (auto simp: not_le)

lemma sorted_key_off:
  assumes "t \<notin> set xs" shows "sorted_key (f(t := v)) xs = sorted_key f xs"
  by (rule sorted_key_cong) (use assms in auto)

lemma insert_ensures:
  assumes up: "lifted X s" and t: "t \<in> X" and tm: "timers s t = Some tm"
    and expired: "\<And>s'. \<lbrakk>xTimerPeriodInTicks tm \<le> now - cmd; s' = s\<lparr>tlists := list_set_value t (cmd + xTimerPeriodInTicks tm) (tlists s)\<rparr>;
      lifted X s'; \<forall>u. due s' u = due s u\<rbrakk> \<Longrightarrow> Q (s', True)"
    and ahead: "\<And>L s'. \<lbrakk>now - cmd < xTimerPeriodInTicks tm; s' = s\<lparr>tlists := L\<rparr>; active s t \<Longrightarrow> lifted (X - {t}) s';
      due s' t = Some (uint now + uint (xTimerPeriodInTicks tm) - uint (now - cmd));
      \<forall>u. u \<noteq> t \<longrightarrow> due s' u = due s u\<rbrakk> \<Longrightarrow> Q (s', False)"
  shows "ensures (prvInsertTimerInActiveList t (cmd + xTimerPeriodInTicks tm) now cmd s) Q"
proof -
  let ?p = "xTimerPeriodInTicks tm"
  let ?L = "list_set_value t (cmd + ?p) (tlists s)"
  let ?s = "s\<lparr>tlists := ?L\<rparr>"
  note ok = liftedD(1) [OF up]
  have cn: "container (tlists s) t = None" using liftedD(3) [OF up t] by (simp add: listed_def)
  have out: "t \<notin> set (items (tlists s) l)" for l by (rule lists_wf_not_in [OF schedule_okD(1) [OF ok] cn])
  have ok': "schedule_ok ?s"
    using ok out by (auto simp: schedule_ok_def list_frame sorted_key_off)
  have same: "due ?s u = due s u" for u using cn by (simp add: due_def list_frame split: option.split)
  show ?thesis
  proof (cases "?p \<le> now - cmd")
    case True
    have "lifted X ?s" using up ok' by (simp add: lifted_def listed_def active_def list_frame)
    then have Q: "Q (?s, True)" using True same by (intro expired) simp_all
    have "prvInsertTimerInActiveList t (cmd + ?p) now cmd s = Some (?s, True)"
      using True tm expiry_past [OF True] by (simp add: prvInsertTimerInActiveList_def Let_def)
    with Q show ?thesis by simp
  next
    case False
    then have less: "now - cmd < ?p" by simp
    define l where "l = (if cmd + ?p \<le> now then pxOverflowTimerList s else pxCurrentTimerList s)"
    let ?t = "s\<lparr>tlists := list_insert l t ?L\<rparr>"
    have cnL: "container ?L t = None" using cn by (simp add: list_frame)
    have wf: "lists_wf (list_insert l t ?L)" by (rule lists_wf_insert) (use ok' cnL in \<open>simp_all add: schedule_ok_def\<close>)
    have "sorted_key (item_value ?L) (items (list_insert l t ?L) m)" for m
      using schedule_okD(4) [OF ok', of m] sorted_key_insert [OF schedule_okD(4) [OF ok', of l], of t] by (simp add: list_frame)
    then have sk: "schedule_ok ?t"
      using wf ok by (simp add: schedule_ok_def insert_other_fields)
    have d: "due ?t t = Some (uint now + uint ?p - uint (now - cmd))"
      using expiry_ahead(1) [OF less] schedule_okD(3) [OF ok] by (simp add: due_def list_frame l_def split: if_splits)
    have o: "\<forall>u. u \<noteq> t \<longrightarrow> due ?t u = due s u" by (simp add: due_def list_frame split: option.split)
    have up': "lifted (X - {t}) ?t" if "active s t"
      using up sk that by (auto simp: lifted_def listed_def active_def list_frame)
    have "prvInsertTimerInActiveList t (cmd + ?p) now cmd s = Some (?t, False)"
      using False tm expiry_ahead(2) [OF less] by (auto simp: prvInsertTimerInActiveList_def Let_def l_def)
    then show ?thesis using ahead [OF less refl up' d o] by simp
  qed
qed

text \<open>Taking a timer out of its list.\<close>

lemma lift_ensures:
  assumes up: "lifted X s" and c: "listed s t"
    and post: "\<And>L n. \<lbrakk>lifted (insert t X) (s\<lparr>tlists := L\<rparr>); \<forall>u. u \<noteq> t \<longrightarrow> due (s\<lparr>tlists := L\<rparr>) u = due s u\<rbrakk> \<Longrightarrow> Q (L, n)"
  shows "ensures (list_remove t (tlists s)) Q"
proof -
  note sk = liftedD(1) [OF up]
  obtain l where l: "container (tlists s) t = Some l" using c by (auto simp: listed_def)
  then have m: "t \<in> set (items (tlists s) l)" using lists_wf_container [OF schedule_okD(1) [OF sk]] by simp
  show ?thesis
  proof (rule list_remove_ensures [OF schedule_okD(1) [OF sk] m])
    fix L n assume L: "lists_wf L" "items L = (items (tlists s))(l := remove1 t (items (tlists s) l))"
      "container L = (container (tlists s))(t := None)" "item_value L = item_value (tlists s)"
    let ?s = "s\<lparr>tlists := L\<rparr>"
    have "schedule_ok ?s"
      using sk L by (simp add: schedule_ok_def sorted_key_remove1)
    moreover have "timers s t \<noteq> None" using liftedD(2,3) [OF up, of t] c by (auto simp: active_def)
    ultimately have "lifted (insert t X) ?s" using up by (auto simp: lifted_def listed_def active_def L)
    then show "Q (L, n)" by (intro post) (simp_all add: due_def L split: option.split)
  qed
qed

section \<open>The status bits\<close>

lemma is_active_status [simp]:
  "is_active (set_status tmrSTATUS_IS_ACTIVE tm)" "\<not> is_active (clear_status tmrSTATUS_IS_ACTIVE tm)"
  "is_active (set_status tmrSTATUS_IS_AUTORELOAD tm) = is_active tm"
  "is_active (clear_status tmrSTATUS_IS_AUTORELOAD tm) = is_active tm"
  "is_autoreload (set_status tmrSTATUS_IS_ACTIVE tm) = is_autoreload tm"
  "is_autoreload (clear_status tmrSTATUS_IS_ACTIVE tm) = is_autoreload tm"
  "xTimerPeriodInTicks (set_status m tm) = xTimerPeriodInTicks tm" "xTimerPeriodInTicks (clear_status m tm) = xTimerPeriodInTicks tm"
proof -
  have [simp]: "(b OR 1) AND 1 = 1" "b AND NOT 1 AND 1 = 0" "(b OR 4) AND 1 = b AND 1" "b AND NOT 4 AND 1 = b AND 1"
    "(b OR 1) AND 4 = b AND 4" "b AND NOT 1 AND 4 = b AND 4" for b :: byte
    by (simp_all add: and.assoc bit.conj_disj_distrib2)
  show "is_active (set_status tmrSTATUS_IS_ACTIVE tm)" "\<not> is_active (clear_status tmrSTATUS_IS_ACTIVE tm)"
  "is_active (set_status tmrSTATUS_IS_AUTORELOAD tm) = is_active tm"
  "is_active (clear_status tmrSTATUS_IS_AUTORELOAD tm) = is_active tm"
  "is_autoreload (set_status tmrSTATUS_IS_ACTIVE tm) = is_autoreload tm"
  "is_autoreload (clear_status tmrSTATUS_IS_ACTIVE tm) = is_autoreload tm"
    by (simp_all add: is_active_def is_autoreload_def set_status_def clear_status_def tmrSTATUS_IS_ACTIVE_def tmrSTATUS_IS_AUTORELOAD_def and.assoc)
  show "xTimerPeriodInTicks (set_status m tm) = xTimerPeriodInTicks tm" "xTimerPeriodInTicks (clear_status m tm) = xTimerPeriodInTicks tm"
    by (simp_all add: set_status_def clear_status_def)
qed

lemma lifted_set_timer:
  assumes up: "lifted X s" and t: "t \<in> X" and p: "0 < xTimerPeriodInTicks tm"
  shows "lifted X (set_timer t tm s)" and "due (set_timer t tm s) = due s" and "active (set_timer t tm s) = (active s)(t := is_active tm)"
proof -
  have d: "due (set_timer t tm s) = due s" "listed (set_timer t tm s) = listed s"
    by (auto simp: due_def listed_def fun_eq_iff split: option.split)
  have a: "active (set_timer t tm s) = (active s)(t := is_active tm)" by (auto simp: active_def fun_eq_iff)
  show "lifted X (set_timer t tm s)"
    using up t p d a by (auto simp: lifted_def schedule_ok_def)
  show "due (set_timer t tm s) = due s" by (rule d)
  show "active (set_timer t tm s) = (active s)(t := is_active tm)" by (rule a)
qed

lemma lifted_inactive: "lifted X s \<Longrightarrow> t \<in> X \<Longrightarrow> \<not> active s t \<Longrightarrow> lifted (X - {t}) s"
  by (auto simp: lifted_def)

end
