(* ===== verification/Timer_Start.thy ===== *)
theory Timer_Start
  imports Timer_Lists Queue_Sets
begin

text \<open>
  The start of the system: \<open>vTaskStartScheduler\<close> of tasks.c, which creates the idle task and,
  through timers.c, the timer queue and the timer task. What a program may have made before is
  \<open>boot_os\<close> and \<open>boot_timers\<close>: tasks, none of which has run, queues, mutexes that nobody holds,
  and timers.
\<close>

section \<open>The code\<close>

text \<open>The memory of the two tasks and of the timer queue is that of the application's callbacks.\<close>

definition vTaskStartScheduler ::
    "bool \<Rightarrow> task option \<Rightarrow> queue_handle \<times> queue \<Rightarrow> bool \<Rightarrow> task option \<Rightarrow> timer_os \<Rightarrow> timer_os option" where
  "vTaskStartScheduler idle_stack idle_tcb xStaticTimerQueue timer_stack timer_tcb s = do {
     (k, xReturn) \<leftarrow> prvCreateIdleTasks idle_stack idle_tcb (tkern s);
     let s = set_tkern k s;
     (s, xReturn) \<leftarrow> (if xReturn then xTimerCreateTimerTask xStaticTimerQueue timer_stack timer_tcb s
                      else Some (s, xReturn));
     if xReturn
     then Some (set_tkern ((tkern s)\<lparr>xNextTaskUnblockTime := portMAX_DELAY, xSchedulerRunning := True, xTickCount := 0\<rparr>) s)
     else Some s }"

section \<open>Before the start\<close>

definition boot_os :: "os \<Rightarrow> bool" where
  "boot_os s \<longleftrightarrow> boot_inv (kern s) \<and> (\<forall>h q. queues s h = Some q \<longrightarrow>
     queue_ok q \<and> (pcHead q = queueQUEUE_IS_MUTEX \<longrightarrow> xMutexHolder q = None))"

text \<open>Creating a timer creates the timer queue first, so without the queue there is no timer.\<close>

definition boot_timers :: "timer_os \<Rightarrow> bool" where
  "boot_timers s \<longleftrightarrow> boot_os (tos s) \<and>
     (if xTimerQueue s = None then \<forall>t. timers s t = None \<and> \<not> listed s t else timers_ok s)"

lemma boot_os_kern: "boot_os s \<Longrightarrow> boot_inv k \<Longrightarrow> boot_os (s\<lparr>kern := k\<rparr>)"
  by (simp add: boot_os_def)

lemma boot_os_queue: "boot_os s \<Longrightarrow> new_queue len sz ty q \<Longrightarrow> boot_os (set_queue h q s)"
  by (auto simp: boot_os_def new_queue_def)

text \<open>No task waits for a queue before the start.\<close>

lemma boot_no_waiter:
  assumes b: "boot_inv k" and l: "is_event_list l" "l \<noteq> PendingReadyL"
  shows "members k l = []"
proof (cases "members k l")
  case (Cons i xs)
  have core: "kernel_core k" and all: "\<And>x. state_list k x \<noteq> None \<Longrightarrow> ready k x"
    using b kernel_invD(1) [of k] by (simp_all add: boot_inv_def)
  have "i \<in> set (members k l)" using Cons by simp
  from event_member [OF core this l(1)] have e: "event_list k (owner i) = Some l" by blast
  note ok = task_okD [OF kernel_core_task [OF core, of "owner i"]]
  have "state_list k (owner i) = Some (ReadyL (prio k (owner i)))" using all ok(8) [OF e] by (simp add: ready_def)
  from ok(7) [OF this] e l(2) show ?thesis by simp
qed

lemma boot_create_queue:
  assumes b: "boot_os s" and len: "0 < len" and sz: "0 < sz" and fit: "len * sz \<le> SIZE_MAX" and mem: "length bs = len * sz"
  obtains q where "new_queue len sz ty q"
    "xQueueGenericCreateStatic len sz (Some bs) (Some (h, m)) ty s = Some (set_queue h q s, Some h)"
proof -
  define q1 where "q1 = (m\<lparr>ucQueueStaticallyAllocated := True, pcHead := pcStorageArea, pucQueueStorage := bs\<rparr>)
    \<lparr>uxLength := len, uxItemSize := sz\<rparr>"
  let ?q = "(reset_pointers q1)\<lparr>ucQueueType := ty, pxQueueSetContainer := None\<rparr>"
  have ok: "queue_ok (reset_pointers q1)" "contents (reset_pointers q1) = []"
    by (rule reset_pointers_ok; use len mem in \<open>simp add: q1_def\<close>)+
  have "queue_ok ?q = queue_ok (reset_pointers q1)" "contents ?q = []"
    by (simp_all add: queue_ok_def storage_ok_def ring_ok_def read_index_def contents_empty reset_pointers_def Let_def)
  then have new: "new_queue len sz ty ?q"
    using ok sz by (simp add: new_queue_def) (simp add: reset_pointers_def Let_def q1_def)
  have "kernel_core (kern s)" using b kernel_invD(1) by (auto simp: boot_os_def boot_inv_def)
  then have wf: "lists_wf (lists (kern s))" by (simp add: lists_inv_wf kernel_core_lists)
  have none: "members (kern s) (SendL h) = []" "members (kern s) (ReceiveL h) = []"
    using b by (auto simp: boot_os_def intro!: boot_no_waiter)
  have le: "sz \<le> SIZE_MAX div len" using fit len by (simp add: less_eq_div_iff_mult_less_eq mult.commute)
  have "xQueueGenericReset h True (set_queue h q1 s) = Some (set_queue h (reset_pointers q1) s, pdPASS)"
    using len le no_lists_init [OF wf none]
    by (simp add: xQueueGenericReset_def Let_def Suc_le_eq q1_def fun_upd_def cong: if_cong)
  then have "prvInitialiseNewQueue len sz bs ty (h, m\<lparr>ucQueueStaticallyAllocated := True\<rparr>) s = Some (set_queue h ?q s)"
    using sz by (simp add: prvInitialiseNewQueue_def Let_def q1_def fun_upd_def cong: if_cong)
  then have "xQueueGenericCreateStatic len sz (Some bs) (Some (h, m)) ty s = Some (set_queue h ?q s, Some h)"
    using len sz by (simp add: xQueueGenericCreateStatic_def)
  with new show thesis by (rule that)
qed

section \<open>The timer queue and the timer task\<close>

text \<open>The timer queue and the lists are made once.\<close>

definition timer_base :: "queue_handle \<Rightarrow> timer_os \<Rightarrow> timer_os \<Rightarrow> bool" where
  "timer_base h s s' \<longleftrightarrow> (if xTimerQueue s = None
     then xTimerQueue s' = Some h \<and> (\<forall>t. due s' t = None) \<and>
       (\<exists>q. queues (tos s') h = Some q \<and> new_queue configTIMER_QUEUE_LENGTH sizeof_DaemonTaskMessage queueQUEUE_TYPE_BASE q)
     else xTimerQueue s' = xTimerQueue s \<and> due s' = due s \<and> queues (tos s') = queues (tos s))"

lemma check_valid_boot:
  assumes b: "boot_timers s"
  shows "ensures (prvCheckForValidListAndQueue (h, m) s) (\<lambda>s'. boot_timers s' \<and> timers_ok s' \<and> timer_base h s s' \<and>
    tkern s' = tkern s \<and> timers s' = timers s)"
proof (cases "xTimerQueue s = None")
  case False
  then show ?thesis using b by (auto simp: prvCheckForValidListAndQueue_def boot_timers_def timer_base_def)
next
  case True
  have bo: "boot_os (tos s)" and none: "\<And>t. timers s t = None" "\<And>t. container (tlists s) t = None"
    using b True by (simp_all add: boot_timers_def listed_def)
  let ?L = "list_init ActiveTimerList2 (list_init ActiveTimerList1 (tlists s))"
  have it: "items ?L l = []" "cursor ?L l = None" for l by (cases l; simp add: list_init_def)+
  have con: "container ?L t = None" for t using none(2) by (simp add: list_init_def)
  have c: "0 < configTIMER_QUEUE_LENGTH" "0 < sizeof_DaemonTaskMessage"
    "configTIMER_QUEUE_LENGTH * sizeof_DaemonTaskMessage \<le> SIZE_MAX"
    "length (replicate (configTIMER_QUEUE_LENGTH * sizeof_DaemonTaskMessage) (0 :: byte)) =
       configTIMER_QUEUE_LENGTH * sizeof_DaemonTaskMessage"
    by (simp_all add: configTIMER_QUEUE_LENGTH_def sizeof_DaemonTaskMessage_def SIZE_MAX_def)
  obtain q where q: "new_queue configTIMER_QUEUE_LENGTH sizeof_DaemonTaskMessage queueQUEUE_TYPE_BASE q"
    "xQueueGenericCreateStatic configTIMER_QUEUE_LENGTH sizeof_DaemonTaskMessage
      (Some (replicate (configTIMER_QUEUE_LENGTH * sizeof_DaemonTaskMessage) 0)) (Some (h, m)) queueQUEUE_TYPE_BASE (tos s) =
      Some (set_queue h q (tos s), Some h)"
    by (rule boot_create_queue [OF bo c])
  let ?o = "vQueueAddToRegistry h (Some ''TmrQ'') (set_queue h q (tos s))"
  let ?s = "s\<lparr>tlists := ?L, pxCurrentTimerList := ActiveTimerList1, pxOverflowTimerList := ActiveTimerList2,
    tos := ?o, xTimerQueue := Some h\<rparr>"
  have run: "prvCheckForValidListAndQueue (h, m) s = Some ?s"
    using True q(2) by (simp add: prvCheckForValidListAndQueue_def Let_def)
  have o: "kern ?o = tkern s" "queues ?o = queues (set_queue h q (tos s))"
    by (simp_all add: vQueueAddToRegistry_def split: option.split)
  have "lists_wf ?L" using it con by (simp add: lists_wf_def)
  then have "timers_ok ?s" using it con none(1)
    by (simp add: timers_ok_def lifted_def schedule_ok_def sorted_key_def listed_def active_def)
  moreover have "boot_os ?o" using boot_os_queue [OF bo q(1), of h] o by (simp add: boot_os_def)
  moreover have "timer_base h s ?s" using True q(1) o con by (simp add: timer_base_def listed_def)
  ultimately show ?thesis using o by (simp add: run boot_timers_def)
qed

lemma due_kern [simp]: "due (s\<lparr>tos := o'\<rparr>) = due s" "due (s\<lparr>xTimerTaskHandle := u\<rparr>) = due s"
  by (rule ext, simp add: due_def cong: option.case_cong)+

lemma timers_ok_kern [simp]:
  "timers_ok (s\<lparr>tos := o'\<rparr>) = timers_ok s" "timers_ok (s\<lparr>xTimerTaskHandle := u\<rparr>) = timers_ok s"
  by (simp_all add: timers_ok_def lifted_def schedule_ok_def listed_def active_def)

lemma create_timer_task_boot:
  assumes b: "boot_timers s" and f: "fresh (tkern s) u"
  shows "ensures (xTimerCreateTimerTask (h, m) True (Some u) s) (\<lambda>(s', ok). ok \<and> boot_os (tos s') \<and> timers_ok s' \<and>
    timer_base h s s' \<and> timers s' = timers s \<and> xTimerTaskHandle s' = Some u \<and> ready (tkern s') u \<and>
    prio (tkern s') u = configTIMER_TASK_PRIORITY \<and> xIdleTaskHandle (tkern s') = xIdleTaskHandle (tkern s) \<and>
    (\<forall>x. x \<noteq> u \<longrightarrow> state_list (tkern s') x = state_list (tkern s) x \<and> event_list (tkern s') x = event_list (tkern s) x))"
  unfolding xTimerCreateTimerTask_def ensures_bind [of "prvCheckForValidListAndQueue _ _"]
proof (rule ensures_mono [OF check_valid_boot [OF b]], goal_cases)
  case (1 s1)
  then have s1: "boot_os (tos s1)" "timers_ok s1" "timer_base h s s1" "tkern s1 = tkern s" "timers s1 = timers s"
    by (simp_all add: boot_timers_def)
  have q: "xTimerQueue s1 \<noteq> None" using s1(3) by (auto simp: timer_base_def split: if_splits)
  have bk: "boot_inv (tkern s1)" using s1(1) by (simp add: boot_os_def)
  have p: "configTIMER_TASK_PRIORITY < configMAX_PRIORITIES"
    by (simp add: configTIMER_TASK_PRIORITY_def configMAX_PRIORITIES_def)
  have tb: "timer_base h s ((set_tkern k s1)\<lparr>xTimerTaskHandle := v\<rparr>) = timer_base h s s1" for k v
    by (simp add: timer_base_def)
  from boot_create_static [OF bk _ p, of u] f s1(4)
  have "ensures (xTaskCreateStatic (Some configTIMER_SERVICE_TASK_NAME) configTIMER_TASK_PRIORITY True (Some u) (tkern s1))
    (\<lambda>(k', r). r = Some u \<and> boot_inv k' \<and> ready k' u \<and> prio k' u = configTIMER_TASK_PRIORITY \<and>
      xIdleTaskHandle k' = xIdleTaskHandle (tkern s1) \<and>
      (\<forall>x. x \<noteq> u \<longrightarrow> state_list k' x = state_list (tkern s1) x \<and> event_list k' x = event_list (tkern s1) x))"
    by simp
  then show ?case
    using q boot_os_kern [OF s1(1)]
    by (auto simp: Let_def ensures_iff case_prod_unfold s1 tb)
qed

section \<open>The start\<close>

lemma vTaskStartScheduler_ensures:
  assumes b: "boot_timers s" and f: "fresh (tkern s) t" "fresh (tkern s) u" and ne: "t \<noteq> u"
  shows "ensures (vTaskStartScheduler True (Some t) (h, m) True (Some u) s) (\<lambda>s'. os_inv (tos s') \<and> timers_ok s' \<and>
    timer_base h s s' \<and> timers s' = timers s \<and> xTickCount (tkern s') = 0 \<and> uxSchedulerSuspended (tkern s') = 0 \<and>
    xIdleTaskHandle (tkern s') = Some t \<and> ready (tkern s') t \<and> prio (tkern s') t = 0 \<and>
    xTimerTaskHandle s' = Some u \<and> ready (tkern s') u \<and> prio (tkern s') u = configTIMER_TASK_PRIORITY \<and>
    (\<forall>x. x \<noteq> t \<longrightarrow> x \<noteq> u \<longrightarrow> state_list (tkern s') x = state_list (tkern s) x))"
proof -
  let ?go = "\<lambda>s :: timer_os. set_tkern ((tkern s)\<lparr>xNextTaskUnblockTime := portMAX_DELAY, xSchedulerRunning := True, xTickCount := 0\<rparr>) s"
  have bk: "boot_inv (tkern s)" using b by (simp add: boot_timers_def boot_os_def)
  show ?thesis
    unfolding vTaskStartScheduler_def ensures_bind [of "prvCreateIdleTasks _ _ _"]
  proof (rule ensures_mono [OF boot_create_idle [OF bk f(1)]], goal_cases)
    case (1 r)
    then obtain k where r: "r = (k, True)" and k: "boot_inv k" "ready k t" "prio k t = 0" "xIdleTaskHandle k = Some t"
      "\<And>x. x \<noteq> t \<Longrightarrow> state_list k x = state_list (tkern s) x \<and> event_list k x = event_list (tkern s) x"
      by (cases r) auto
    let ?s = "set_tkern k s"
    have bt: "boot_timers ?s"
      using b boot_os_kern [OF _ k(1), of "tos s"] by (auto simp: boot_timers_def listed_def)
    have fu: "fresh (tkern ?s) u" using f(2) k(5) [of u] ne by (simp add: fresh_def)
    have tb: "timer_base h ?s s' = timer_base h s s'" for s' by (simp add: timer_base_def)
    have "ensures (xTimerCreateTimerTask (h, m) True (Some u) ?s) (\<lambda>(s', ok). ok \<and> os_inv (tos (?go s')) \<and> timers_ok (?go s') \<and>
      timer_base h s (?go s') \<and> timers s' = timers s \<and> uxSchedulerSuspended (tkern s') = 0 \<and>
      xIdleTaskHandle (tkern s') = Some t \<and> ready (tkern s') t \<and> prio (tkern s') t = 0 \<and>
      xTimerTaskHandle s' = Some u \<and> ready (tkern s') u \<and> prio (tkern s') u = configTIMER_TASK_PRIORITY \<and>
      (\<forall>x. x \<noteq> t \<longrightarrow> x \<noteq> u \<longrightarrow> state_list (tkern s') x = state_list (tkern s) x))"
    proof (rule ensures_mono [OF create_timer_task_boot [OF bt fu]], goal_cases)
      case (1 r)
      obtain s' ok where r: "r = (s', ok)" by (cases r)
      from 1 have s': "ok" "boot_os (tos s')" "timers_ok s'" "timer_base h s s'" "timers s' = timers s"
        "xTimerTaskHandle s' = Some u" "ready (tkern s') u" "prio (tkern s') u = configTIMER_TASK_PRIORITY"
        "xIdleTaskHandle (tkern s') = Some t"
        "\<And>x. x \<noteq> u \<Longrightarrow> state_list (tkern s') x = state_list k x"
        by (simp_all add: r tb k(4))
      have bi: "boot_inv (tkern s')" using s'(2) by (simp add: boot_os_def)
      have live: "state_list (tkern s') t = Some (ReadyL 0)" using s'(10) [OF ne] k(2,3) by (simp add: ready_def)
      then have rt: "ready (tkern s') t" using bi by (simp add: boot_inv_def)
      then have pt: "prio (tkern s') t = 0" using live by (simp add: ready_def)
      have "sys_inv (tkern (?go s'))" using boot_running [OF bi s'(9) rt] by simp
      moreover have "mutexes_of (tos s') x = {}" for x using s'(2) by (auto simp: mutexes_of_def boot_os_def)
      ultimately have "os_inv (tos (?go s'))"
        using s'(2) by (auto simp: os_inv_def owners_ok_def boot_os_def)
      moreover have "timer_base h s (?go s')" using s'(4) by (simp add: timer_base_def)
      moreover have "uxSchedulerSuspended (tkern s') = 0" using bi by (simp add: boot_inv_def)
      ultimately show ?case
        using s' rt pt k(5) by (simp add: r)
    qed
    then show ?case
      by (simp add: r ensures_bind case_prod_unfold) (elim ensures_mono, auto simp: ready_def)
  qed
qed

end
