(* ===== verification/Timer_Expiry.thy ===== *)
theory Timer_Expiry
  imports Timer_Lists
begin

text \<open>
  What the timer task does when timers expire, for any application whose callbacks return and
  leave the lists of timers.c alone: missed expiries are made up for, the lists are switched when
  the tick counter wraps, and no timer gets out of step.
\<close>

section \<open>The application's contract\<close>

text \<open>
  \<open>P\<close> is what the callbacks rely on and keep in the rest of the system. \<open>calls t\<close> counts the
  calls of the callback of \<open>t\<close>, in whatever way the application keeps count.
\<close>

locale timer_application =
  fixes app :: application and P :: "os \<Rightarrow> bool"
    and calls :: "timer_handle \<Rightarrow> (timer_handle \<Rightarrow> sw_timer option) \<Rightarrow> nat"
  assumes callback_returns: "timers s t = Some tm \<Longrightarrow> P (tos s) \<Longrightarrow>
      ensures (call_timer app (pxCallbackFunction tm) t s) (\<lambda>s'. undisturbing s s' \<and> P (tos s') \<and>
        (\<forall>u. calls u (timers s') = calls u (timers s) + (if u = t then 1 else 0)))"
    and pended_returns: "P (tos s) \<Longrightarrow> ensures (call_pended app f a v s) (\<lambda>s'. undisturbing s s' \<and> P (tos s') \<and>
        (\<forall>u. calls u (timers s') = calls u (timers s)))"
    and not_counted: "T t = Some tm \<Longrightarrow>
        calls u (T(t \<mapsto> tm\<lparr>ucStatus := b, xTimerPeriodInTicks := p\<rparr>)) = calls u T"
    and deletion: "u \<noteq> t \<Longrightarrow> calls u (T(t := None)) = calls u T"
begin

definition called :: "timer_handle \<Rightarrow> timer_os \<Rightarrow> nat" where
  "called t s = calls t (timers s)"

lemma called_fields [simp]:
  "called t (s\<lparr>tlists := L\<rparr>) = called t s" "called t (s\<lparr>pxCurrentTimerList := c\<rparr>) = called t s"
  "called t (s\<lparr>pxOverflowTimerList := c\<rparr>) = called t s" "called t (s\<lparr>xLastTime := w\<rparr>) = called t s"
  by (simp_all add: called_def)

lemma called_status:
  assumes "timers s t = Some tm" shows "called u (set_timer t (tm\<lparr>ucStatus := b\<rparr>) s) = called u s"
  using not_counted [where T = "timers s" and t = t and tm = tm and u = u and b = b and p = "xTimerPeriodInTicks tm"] assms
  by (simp add: called_def)

abbreviation keeping :: "timer_os \<Rightarrow> timer_os \<Rightarrow> bool" where
  "keeping \<equiv> kept (keeps_reload_modes app P)"

lemma callback_ensures:
  assumes "timers s t \<noteq> None" and "P (tos s)"
    and post: "\<And>s'. \<lbrakk>undisturbing s s'; P (tos s'); \<forall>u. called u s' = called u s + (if u = t then 1 else 0);
      keeping s s'\<rbrakk> \<Longrightarrow> Q s'"
  shows "ensures (run_callback app t s) Q"
proof -
  from assms(1) obtain tm where tm: "timers s t = Some tm" by blast
  have "ensures (call_timer app (pxCallbackFunction tm) t s) (\<lambda>s'. keeps_reload_modes app P \<longrightarrow> modes_kept s s')"
  proof (cases "keeps_reload_modes app P")
    case True
    with tm assms(2) have "ensures (call_timer app (pxCallbackFunction tm) t s) (modes_kept s)"
      unfolding keeps_reload_modes_def by blast
    then show ?thesis by (rule ensures_mono) simp
  next
    case False
    with callback_returns [OF tm assms(2)] show ?thesis by (auto elim!: ensures_mono)
  qed
  from ensures_conj [OF callback_returns [OF tm assms(2)] this]
  have "ensures (call_timer app (pxCallbackFunction tm) t s) Q"
  proof (rule ensures_mono, goal_cases)
    case (1 s')
    then have "undisturbing s s'" "keeping s s'" using undisturbing_periods by (auto simp: kept_def)
    with 1 show ?case by (intro post) (simp_all add: called_def)
  qed
  then show ?thesis by (simp add: run_callback_def tm)
qed

section \<open>Making up for missed expiries\<close>

text \<open>
  \<open>e\<close> ticks have gone by since the expiry: the callback runs once for each period in them, and
  the timer goes on without a shift.
\<close>

lemma reload_ensures:
  assumes "lifted X s" and "t \<in> X" and "timers s t = Some tm" and "xTimerPeriodInTicks tm = p" and "active s t" and "P (tos s)"
    and "\<And>s'. \<lbrakk>lifted (X - {t}) s'; P (tos s'); due s' t = Some (uint now + int (unat p - unat (now - expired) mod unat p));
      \<forall>u. u \<noteq> t \<longrightarrow> due s' u = due s u; active s' = active s; keeping s s'; pxCurrentTimerList s' = pxCurrentTimerList s;
      pxOverflowTimerList s' = pxOverflowTimerList s; xLastTime s' = xLastTime s; xTimerQueue s' = xTimerQueue s;
      \<forall>u. called u s' = called u s + (if u = t then unat (now - expired) div unat p else 0)\<rbrakk> \<Longrightarrow> Q s'"
  shows "ensures (prvReloadTimer app t expired now s) Q"
  using assms
proof (induction "unat (now - expired)" arbitrary: expired s tm Q rule: less_induct)
  case less
  note up = less.prems(1) and tX = less.prems(2) and tm = less.prems(3) and p = less.prems(4) and act = less.prems(5) and P = less.prems(6)
  note post = less.prems(7)
  have p0: "0 < unat p"
    using schedule_okD(5) [of s t tm] up tm p by (simp add: lifted_def word_less_nat_alt)
  have "ensures (prvInsertTimerInActiveList t (expired + p) now expired s) (\<lambda>(s1, x).
      ensures (if x then do { tm \<leftarrow> timers s1 t;
         s \<leftarrow> run_callback app t s1; prvReloadTimer app t (expired + xTimerPeriodInTicks tm) now s }
       else Some s1) Q)"
    unfolding p [symmetric]
  proof (rule insert_ensures [OF up tX tm], unfold p prod.case if_True if_False)
    fix s1 assume le: "p \<le> now - expired" and s1: "s1 = s\<lparr>tlists := list_set_value t (expired + p) (tlists s)\<rparr>"
      and up1: "lifted X s1" and d1: "\<forall>u. due s1 u = due s u"
    have t1: "timers s1 t = Some tm" and a1: "active s1 = active s" and P1: "P (tos s1)"
      using s1 tm P by (simp_all add: active_def fun_eq_iff)
    have rest: "now - (expired + p) = (now - expired) - p" by simp
    have u: "unat ((now - expired) - p) = unat (now - expired) - unat p"
      using le by (simp add: unat_sub)
    have smaller: "unat (now - (expired + p)) < unat (now - expired)"
      unfolding rest u using p0 le by (simp add: word_le_nat_alt)
    have "ensures (run_callback app t s1) (\<lambda>s2. ensures (prvReloadTimer app t (expired + p) now s2) Q)"
    proof (rule callback_ensures)
      show "timers s1 t \<noteq> None" "P (tos s1)" using t1 P1 by simp_all
      fix s2 assume q: "undisturbing s1 s2" and P2: "P (tos s2)" and c2: "\<forall>u. called u s2 = called u s1 + (if u = t then 1 else 0)"
        and kq: "keeping s1 s2"
      obtain tm2 where tm2: "timers s2 t = Some tm2" "xTimerPeriodInTicks tm2 = p"
        using undisturbing_period [OF q t1] p by metis
      have frame: "pxCurrentTimerList s1 = pxCurrentTimerList s" "pxOverflowTimerList s1 = pxOverflowTimerList s"
        "xLastTime s1 = xLastTime s" "xTimerQueue s1 = xTimerQueue s" by (simp_all add: s1)
      show "ensures (prvReloadTimer app t (expired + p) now s2) Q"
      proof (rule less.hyps [OF smaller undisturbing_lifted [OF q up1] tX tm2 _ P2])
        show "active s2 t" using undisturbing_active [OF q] a1 act by simp
        fix s3 assume s3: "lifted (X - {t}) s3" "P (tos s3)"
          "due s3 t = Some (uint now + int (unat p - unat (now - (expired + p)) mod unat p))"
          "\<forall>u. u \<noteq> t \<longrightarrow> due s3 u = due s2 u" "active s3 = active s2" "keeping s2 s3"
          "pxCurrentTimerList s3 = pxCurrentTimerList s2" "pxOverflowTimerList s3 = pxOverflowTimerList s2"
          "xLastTime s3 = xLastTime s2" "xTimerQueue s3 = xTimerQueue s2"
          "\<forall>u. called u s3 = called u s2 + (if u = t then unat (now - (expired + p)) div unat p else 0)"
        have pl: "unat p \<le> unat (now - expired)" using le by (simp add: word_le_nat_alt)
        have "unat (now - (expired + p)) mod unat p = unat (now - expired) mod unat p"
          "Suc (unat (now - (expired + p)) div unat p) = unat (now - expired) div unat p"
          unfolding rest u using pl p0 by (simp_all add: le_mod_geq le_div_geq)
        moreover have "called u s1 = called u s" for u by (simp add: s1)
        moreover have "keeping s s3"
          using kept_trans [OF kept_same kept_trans [OF kq s3(6)], of s] s1 by simp
        ultimately show "Q s3"
          using s3 c2 d1 a1 frame undisturbing_fields [OF q] undisturbing_active [OF q] by (intro post) auto
      qed
    qed
    then show "ensures (do { tm \<leftarrow> timers s1 t;
         s \<leftarrow> run_callback app t s1; prvReloadTimer app t (expired + xTimerPeriodInTicks tm) now s }) Q"
      using t1 p by simp
  next
    fix L s1 assume lt: "now - expired < p" and s1: "s1 = s\<lparr>tlists := L\<rparr>" and sk: "active s t \<Longrightarrow> lifted (X - {t}) s1"
      and d: "due s1 t = Some (uint now + uint p - uint (now - expired))" and o: "\<forall>u. u \<noteq> t \<longrightarrow> due s1 u = due s u"
    have l: "unat (now - expired) < unat p" using lt by (simp add: word_less_nat_alt)
    have a1: "active s1 = active s" by (simp add: s1 active_def fun_eq_iff)
    have "lifted (X - {t}) s1" using sk act by simp
    moreover have "uint now + uint p - uint (now - expired) = uint now + int (unat p - unat (now - expired) mod unat p)"
      using l by (simp add: of_nat_diff)
    ultimately show "ensures (Some s1) Q"
      using l d o a1 P s1 kept_same [of s1 s] by (simp, intro post) simp_all
  qed
  note mono = ensures_mono [OF this]
  show ?case
    by (subst prvReloadTimer.simps) (simp add: tm p Let_def case_prod_unfold, rule mono, auto simp: case_prod_unfold split: if_splits)
qed

section \<open>Expired timers\<close>

lemma process_expired_ensures:
  assumes up0: "lifted X s" and hd: "list_head (pxCurrentTimerList s) (tlists s) = Some t" and P: "P (tos s)"
    and tm: "timers s t = Some tm" and p: "xTimerPeriodInTicks tm = p" and e: "unat (now - v) = e"
    and post: "\<And>s'. \<lbrakk>lifted X s'; P (tos s');
      due s' t = (if is_autoreload tm then Some (uint now + int (unat p - e mod unat p)) else None);
      \<forall>u. u \<noteq> t \<longrightarrow> due s' u = due s u; keeping s s'; pxCurrentTimerList s' = pxCurrentTimerList s;
      pxOverflowTimerList s' = pxOverflowTimerList s; xLastTime s' = xLastTime s; xTimerQueue s' = xTimerQueue s;
      \<forall>u. called u s' = called u s + (if u = t then 1 + (if is_autoreload tm then e div unat p else 0) else 0)\<rbrakk> \<Longrightarrow> Q s'"
  shows "ensures (prvProcessExpiredTimer app v now s) Q"
proof -
  have m: "t \<in> set (items (tlists s) (pxCurrentTimerList s))" using hd by (auto simp: list_head_def split: list.splits)
  then have c: "listed s t"
    using lists_wf_container [OF schedule_okD(1) [OF liftedD(1) [OF up0]], of t] by (auto simp: listed_def)
  have tX: "t \<notin> X" using liftedD(3) [OF up0, of t] c by blast
  then have act: "active s t" and X: "insert t X - {t} = X" using liftedD(2) [OF up0] c by auto
  have "ensures (list_remove t (tlists s)) (\<lambda>(L, n). ensures (if is_autoreload tm then prvReloadTimer app t v now (s\<lparr>tlists := L\<rparr>)
      else Some (set_timer t (clear_status tmrSTATUS_IS_ACTIVE tm) (s\<lparr>tlists := L\<rparr>))) (\<lambda>s'. ensures (run_callback app t s') Q))"
  proof (rule lift_ensures [OF up0 c], unfold prod.case)
    fix L assume up: "lifted (insert t X) (s\<lparr>tlists := L\<rparr>)" and o: "\<forall>u. u \<noteq> t \<longrightarrow> due (s\<lparr>tlists := L\<rparr>) u = due s u"
    let ?s = "s\<lparr>tlists := L\<rparr>"
    show "ensures (if is_autoreload tm then prvReloadTimer app t v now ?s
        else Some (set_timer t (clear_status tmrSTATUS_IS_ACTIVE tm) ?s)) (\<lambda>s'. ensures (run_callback app t s') Q)"
    proof (cases "is_autoreload tm")
      case True
      have "ensures (prvReloadTimer app t v now ?s) (\<lambda>s'. ensures (run_callback app t s') Q)"
      proof (rule reload_ensures [OF up insertI1 _ p], unfold X)
        show "timers ?s t = Some tm" "active ?s t" "P (tos ?s)" using tm act P by (simp_all add: active_def)
        fix s1 assume s1: "lifted X s1" "P (tos s1)" "due s1 t = Some (uint now + int (unat p - unat (now - v) mod unat p))"
          "\<forall>u. u \<noteq> t \<longrightarrow> due s1 u = due ?s u" "active s1 = active ?s" "keeping ?s s1" "pxCurrentTimerList s1 = pxCurrentTimerList ?s"
          "pxOverflowTimerList s1 = pxOverflowTimerList ?s" "xLastTime s1 = xLastTime ?s" "xTimerQueue s1 = xTimerQueue ?s"
          "\<forall>u. called u s1 = called u ?s + (if u = t then unat (now - v) div unat p else 0)"
        have "timers s1 t \<noteq> None" using s1(5) act by (auto simp: active_def fun_eq_iff)
        then show "ensures (run_callback app t s1) Q"
        proof (rule callback_ensures [OF _ s1(2)])
          fix s2 assume q: "undisturbing s1 s2" and s2: "P (tos s2)" "\<forall>u. called u s2 = called u s1 + (if u = t then 1 else 0)"
            and kq: "keeping s1 s2"
          have "keeping s s2"
            using kept_trans [OF kept_same kept_trans [OF s1(6) kq], of s] by simp
          then show "Q s2"
            by (intro post) (use True s1 s2 o e undisturbing_lifted [OF q] undisturbing_fields [OF q] in simp_all)
        qed
      qed
      with True show ?thesis by simp
    next
      case False
      let ?t = "set_timer t (clear_status tmrSTATUS_IS_ACTIVE tm) ?s"
      have "0 < xTimerPeriodInTicks tm" using schedule_okD(5) [OF liftedD(1) [OF up0] tm] .
      then have lt: "lifted (insert t X) ?t" "due ?t = due ?s" "active ?t = (active ?s)(t := False)"
        using lifted_set_timer [OF up insertI1, of "clear_status tmrSTATUS_IS_ACTIVE tm"] by simp_all
      from lifted_inactive [OF this(1) insertI1] this(3) X have okt: "lifted X ?t" by simp
      have called: "called u ?t = called u s" for u
        using called_status [of ?s t tm u] tm by (simp add: clear_status_def)
      have "ensures (run_callback app t ?t) Q"
      proof (rule callback_ensures)
        fix s2 assume q: "undisturbing ?t s2" and s2: "P (tos s2)" "\<forall>u. called u s2 = called u ?t + (if u = t then 1 else 0)"
          and kq: "keeping ?t s2"
        have "keeping s ?t" using tm by (simp add: kept_def periods_kept_def modes_kept_def)
        then have "keeping s s2" by (rule kept_trans [OF _ kq])
        then show "Q s2"
          by (intro post) (use False called liftedD(3) [OF up insertI1] lt(2) s2 o undisturbing_lifted [OF q okt] undisturbing_fields [OF q] in simp_all)
      qed (use P in simp_all)
      with False show ?thesis by simp
    qed
  qed
  then show ?thesis
    by (auto simp: prvProcessExpiredTimer_def hd tm case_prod_unfold Let_def split: if_splits elim: ensures_mono)
qed

section \<open>The wrap of the tick counter\<close>

lemma ticks_before_wrap: "int (unat (tmrMAX_TIME_BEFORE_OVERFLOW - v)) = 2 ^ 32 - 1 - uint v"
proof -
  have "v \<le> tmrMAX_TIME_BEFORE_OVERFLOW" by (simp add: tmrMAX_TIME_BEFORE_OVERFLOW_def)
  then have "unat (tmrMAX_TIME_BEFORE_OVERFLOW - v) = unat tmrMAX_TIME_BEFORE_OVERFLOW - unat v" by (rule unat_sub)
  moreover have "unat v \<le> unat tmrMAX_TIME_BEFORE_OVERFLOW" using \<open>v \<le> _\<close> by (simp add: word_le_nat_alt)
  ultimately show ?thesis using uint_last_tick by (simp add: of_nat_diff)
qed

lemma nat_div_eq: "int m = d \<Longrightarrow> int n = p \<Longrightarrow> m div n = nat (d div p)"
  by (metis nat_int zdiv_int)

text \<open>
  At the wrap every timer of the current list expires. An auto-reload timer that does so cannot
  come back to the current list, so the list gets shorter and the loop ends.
\<close>

lemma switch_loop_ensures:
  assumes "lifted X s" and "P (tos s)"
    and "\<And>s'. \<lbrakk>lifted X s'; P (tos s'); items (tlists s') (pxCurrentTimerList s') = [];
      pxCurrentTimerList s' = pxCurrentTimerList s; pxOverflowTimerList s' = pxOverflowTimerList s;
      xLastTime s' = xLastTime s; xTimerQueue s' = xTimerQueue s; keeping s s';
      \<forall>u. past_wrap (keeps_reload_modes app P) (timers s u) (due s u) (called u s) (shifted (due s' u)) (called u s')\<rbrakk> \<Longrightarrow> Q s'"
  shows "ensures (switch_loop app s) Q"
  using assms
proof (induction "card (set (items (tlists s) (pxCurrentTimerList s)))" arbitrary: s Q rule: less_induct)
  case less
  note ok = less.prems(1) and P = less.prems(2) and post = less.prems(3)
  note sk = liftedD(1) [OF ok]
  show ?case
  proof (cases "list_head (pxCurrentTimerList s) (tlists s)")
    case None
    then have e: "items (tlists s) (pxCurrentTimerList s) = []" by (simp add: list_head_def split: list.splits)
    then have late: "\<not> d < 2 ^ 32" if "due s u = Some d" for u d using due_current [OF sk, of u] that by simp
    have "Q s" by (rule post) (use ok P e late in \<open>auto simp: past_wrap_late not_less\<close>)
    then show ?thesis by (subst switch_loop.simps) (simp add: None)
  next
    case (Some t)
    note h = head_due [OF ok Some]
    from h(2) obtain tm where tm: "timers s t = Some tm" by blast
    let ?v = "item_value (tlists s) t"
    have p0: "0 < unat (xTimerPeriodInTicks tm)" using schedule_okD(5) [OF sk tm] by (simp add: word_less_nat_alt)
    have "ensures (prvProcessExpiredTimer app ?v tmrMAX_TIME_BEFORE_OVERFLOW s) (\<lambda>s'. ensures (switch_loop app s') Q)"
    proof (rule process_expired_ensures [OF ok Some P tm refl refl])
      fix s1 let ?e = "unat (tmrMAX_TIME_BEFORE_OVERFLOW - ?v)" and ?p = "unat (xTimerPeriodInTicks tm)"
      assume s1: "lifted X s1" "P (tos s1)"
        "due s1 t = (if is_autoreload tm then Some (uint tmrMAX_TIME_BEFORE_OVERFLOW + int (?p - ?e mod ?p)) else None)"
        "\<forall>u. u \<noteq> t \<longrightarrow> due s1 u = due s u" "keeping s s1" "pxCurrentTimerList s1 = pxCurrentTimerList s"
        "pxOverflowTimerList s1 = pxOverflowTimerList s" "xLastTime s1 = xLastTime s" "xTimerQueue s1 = xTimerQueue s"
        "\<forall>u. called u s1 = called u s + (if u = t then 1 + (if is_autoreload tm then ?e div ?p else 0) else 0)"
      have "int (?e mod ?p) < int ?p" using p0 by (simp only: of_nat_less_iff) simp
      then have late: "2 ^ 32 \<le> d" if "due s1 t = Some d" for d
        using that s1(3) p0 by (simp add: uint_last_tick of_nat_diff split: if_splits)
      have "set (items (tlists s1) (pxCurrentTimerList s1)) \<subset> set (items (tlists s) (pxCurrentTimerList s))"
      proof (rule psubsetI)
        have "(\<exists>d<2 ^ 32. due s1 u = Some d) \<Longrightarrow> u \<noteq> t \<and> (\<exists>d<2 ^ 32. due s u = Some d)" for u
          using late s1(4) by (cases "u = t") auto
        then show "set (items (tlists s1) (pxCurrentTimerList s1)) \<subseteq> set (items (tlists s) (pxCurrentTimerList s))"
          using due_current [OF sk] due_current [OF liftedD(1) [OF s1(1)]] by blast
        have "t \<notin> set (items (tlists s1) (pxCurrentTimerList s1))"
          using due_current [OF liftedD(1) [OF s1(1)], of t] late by auto
        moreover have "t \<in> set (items (tlists s) (pxCurrentTimerList s))"
          using due_current [OF sk, of t] h(1) uint_tick_bounds(2) [of ?v] by auto
        ultimately show "set (items (tlists s1) (pxCurrentTimerList s1)) \<noteq> set (items (tlists s) (pxCurrentTimerList s))" by auto
      qed
      then have smaller: "card (set (items (tlists s1) (pxCurrentTimerList s1))) < card (set (items (tlists s) (pxCurrentTimerList s)))"
        by (simp add: psubset_card_mono)
      show "ensures (switch_loop app s1) Q"
      proof (rule less.hyps [OF smaller s1(1,2)])
        fix s2 assume s2: "lifted X s2" "P (tos s2)" "items (tlists s2) (pxCurrentTimerList s2) = []"
          "pxCurrentTimerList s2 = pxCurrentTimerList s1" "pxOverflowTimerList s2 = pxOverflowTimerList s1"
          "xLastTime s2 = xLastTime s1" "xTimerQueue s2 = xTimerQueue s1" "keeping s1 s2"
          "\<forall>u. past_wrap (keeps_reload_modes app P) (timers s1 u) (due s1 u) (called u s1) (shifted (due s2 u)) (called u s2)"
        let ?K = "keeps_reload_modes app P" and ?w = "uint (xTimerPeriodInTicks tm)"
        have v: "0 \<le> uint ?v" "uint ?v < 2 ^ 32" using uint_tick_bounds [of ?v] by simp_all
        have w: "0 < ?w" "int ?p = ?w" using schedule_okD(5) [OF sk tm] by (simp_all add: word_less_def)
        have e: "int ?e = 2 ^ 32 - 1 - uint ?v" by (rule ticks_before_wrap)
        have "int (?p - ?e mod ?p) = ?w - (2 ^ 32 - 1 - uint ?v) mod ?w"
          using p0 e w(2) by (simp add: of_nat_diff zmod_int del: uint_nat)
        then have d1: "due s1 t = (if is_autoreload tm then Some (2 ^ 32 + (uint ?v - 2 ^ 32) mod ?w) else None)"
          using s1(3) reload_phase [OF w(1)] by (simp add: uint_last_tick)
        have c1: "called t s1 = called t s + (if is_autoreload tm then 1 + nat ((2 ^ 32 - 1 - uint ?v) div ?w) else 1)"
          using s1(10) e w(2) by (simp add: nat_div_eq)
        have "past_wrap ?K (timers s1 t) (due s1 t) (called t s1) (shifted (due s2 t)) (called t s2)" using s2(9) by blast
        then have two: "shifted (due s2 t) = shifted (due s1 t)" "called t s2 = called t s1"
          using late by (auto simp: past_wrap_late)
        show "Q s2"
        proof (rule post)
          show "\<forall>u. past_wrap (keeps_reload_modes app P) (timers s u) (due s u) (called u s) (shifted (due s2 u)) (called u s2)"
          proof
            fix u show "past_wrap ?K (timers s u) (due s u) (called u s) (shifted (due s2 u)) (called u s2)"
            proof (cases "u = t")
              case True
              have "shifted (due s1 t) = (if is_autoreload tm then Some ((uint ?v - 2 ^ 32) mod ?w) else None)"
                unfolding d1 by (simp add: shifted_def)
              then show ?thesis
                unfolding True two h(1) past_wrap_early [OF v(2) tm] using c1 by blast
            next
              case False
              have "timers s u \<noteq> None" if "due s u \<noteq> None"
                using that liftedD(2,3,4) [OF ok, of u] by (auto simp: active_def)
              moreover have "due s1 u = due s u" "called u s1 = called u s" using s1(4,10) False by simp_all
              moreover have "past_wrap ?K (timers s1 u) (due s1 u) (called u s1) (shifted (due s2 u)) (called u s2)"
                using s2(9) by blast
              ultimately show ?thesis by (intro past_wrap_kept [OF s1(5)]) simp_all
            qed
          qed
        qed (use s1 s2 kept_trans [OF s1(5) s2(8)] in simp_all)
      qed
    qed
    then show ?thesis by (subst switch_loop.simps) (simp add: Some Let_def)
  qed
qed

text \<open>Afterwards no expiry is beyond the next wrap.\<close>

lemma switch_lists_ensures:
  assumes ok: "lifted X s" and P: "P (tos s)"
    and post: "\<And>s'. \<lbrakk>lifted X s'; P (tos s'); items (tlists s') (pxOverflowTimerList s') = [];
      xLastTime s' = xLastTime s; xTimerQueue s' = xTimerQueue s; keeping s s';
      \<forall>u. past_wrap (keeps_reload_modes app P) (timers s u) (due s u) (called u s) (due s' u) (called u s')\<rbrakk> \<Longrightarrow> Q s'"
  shows "ensures (prvSwitchTimerLists app s) Q"
proof -
  have "ensures (switch_loop app s) (\<lambda>s1. Q (s1\<lparr>pxCurrentTimerList := pxOverflowTimerList s1, pxOverflowTimerList := pxCurrentTimerList s1\<rparr>))"
  proof (rule switch_loop_ensures [OF ok P])
    fix s1 assume s1: "lifted X s1" "P (tos s1)" "items (tlists s1) (pxCurrentTimerList s1) = []"
      "pxCurrentTimerList s1 = pxCurrentTimerList s" "pxOverflowTimerList s1 = pxOverflowTimerList s"
      "xLastTime s1 = xLastTime s" "xTimerQueue s1 = xTimerQueue s" "keeping s s1"
      "\<forall>u. past_wrap (keeps_reload_modes app P) (timers s u) (due s u) (called u s) (shifted (due s1 u)) (called u s1)"
    let ?s = "s1\<lparr>pxCurrentTimerList := pxOverflowTimerList s1, pxOverflowTimerList := pxCurrentTimerList s1\<rparr>"
    note sk = liftedD(1) [OF s1(1)]
    have frame: "listed ?s = listed s1" "active ?s = active s1" by (simp_all add: listed_def active_def fun_eq_iff)
    have ok': "lifted X ?s"
      using s1(1) schedule_okD(3) [OF sk] unfolding lifted_def frame by (simp add: schedule_ok_def)
    have d: "due ?s u = shifted (due s1 u)" for u
    proof (cases "container (tlists s1) u")
      case (Some l)
      then have "l \<noteq> pxCurrentTimerList s1" using lists_wf_container [OF schedule_okD(1) [OF sk], of u l] s1(3) by auto
      moreover from this have "l = pxOverflowTimerList s1" using schedule_okD(2) [OF sk]
        by (cases l; cases "pxCurrentTimerList s1"; cases "pxOverflowTimerList s1") simp_all
      ultimately show ?thesis using Some by (simp add: due_def shifted_def)
    qed (simp add: due_def shifted_def)
    have "keeping s ?s" using kept_trans [OF s1(8) kept_same, of ?s] by simp
    then show "Q ?s" by (intro post) (use ok' d s1 in simp_all)
  qed
  then show ?thesis by (simp add: prvSwitchTimerLists_def Let_def)
qed

section \<open>Looking at the clock\<close>

text \<open>
  \<open>aged w\<close>: if the counter wrapped, every timer is past the wrap; otherwise nothing happened.
\<close>

definition aged :: "bool \<Rightarrow> timer_os \<Rightarrow> timer_os \<Rightarrow> bool" where
  "aged w s s' \<longleftrightarrow> (if w
     then items (tlists s') (pxOverflowTimerList s') = [] \<and>
       (\<forall>u. past_wrap (keeps_reload_modes app P) (timers s u) (due s u) (called u s) (due s' u) (called u s'))
     else s' = s\<lparr>xLastTime := xLastTime s'\<rparr> \<and> due s' = due s \<and> (\<forall>u. called u s' = called u s))"

lemma sample_ensures:
  assumes up: "lifted X s" and P: "P (tos s)"
    and post: "\<And>s'. \<lbrakk>lifted X s'; P (tos s'); xLastTime s' = xTickCount (tkern s); xTimerQueue s' = xTimerQueue s;
      keeping s s'; aged (xTickCount (tkern s) < xLastTime s) s s'\<rbrakk>
      \<Longrightarrow> Q (s', xTickCount (tkern s), xTickCount (tkern s) < xLastTime s)"
  shows "ensures (prvSampleTimeNow app s) Q"
proof -
  let ?now = "xTickCount (tkern s)"
  have frame: "lifted X (s1\<lparr>xLastTime := w\<rparr>) = lifted X s1" "due (s1\<lparr>xLastTime := w\<rparr>) = due s1"
    "keeping s (s1\<lparr>xLastTime := w\<rparr>) = keeping s s1" for s1 w
    by (simp_all add: lifted_def schedule_ok_def listed_def active_def due_def kept_def modes_kept_def periods_kept_def fun_eq_iff split: option.split)
  show ?thesis
  proof (cases "?now < xLastTime s")
    case True
    have "ensures (prvSwitchTimerLists app s) (\<lambda>s1. Q (s1\<lparr>xLastTime := ?now\<rparr>, ?now, True))"
    proof (rule switch_lists_ensures [OF up P])
      fix s1 assume s1: "lifted X s1" "P (tos s1)" "items (tlists s1) (pxOverflowTimerList s1) = []"
        "xLastTime s1 = xLastTime s" "xTimerQueue s1 = xTimerQueue s" "keeping s s1"
        "\<forall>u. past_wrap (keeps_reload_modes app P) (timers s u) (due s u) (called u s) (due s1 u) (called u s1)"
      have "aged True s (s1\<lparr>xLastTime := ?now\<rparr>)" using s1(3,7) by (simp add: aged_def frame)
      then show "Q (s1\<lparr>xLastTime := ?now\<rparr>, ?now, True)"
        using post [of "s1\<lparr>xLastTime := ?now\<rparr>"] True s1 by (simp add: frame)
    qed
    with True show ?thesis by (simp add: prvSampleTimeNow_def xTaskGetTickCount_def Let_def)
  next
    case False
    have "aged False s (s\<lparr>xLastTime := ?now\<rparr>)" by (simp add: aged_def frame)
    then show ?thesis
      using post [of "s\<lparr>xLastTime := ?now\<rparr>"] False up P by (simp add: prvSampleTimeNow_def xTaskGetTickCount_def Let_def frame)
  qed
qed

end

end
