(* ===== verification/Timer_Commands.thy ===== *)
theory Timer_Commands
  imports Timer_Expiry Queue_Sets
begin

text \<open>
  Commands to timers: what each of them does to the schedule, that together they keep the
  invariant, and that the timer task empties its queue.
\<close>

section \<open>One command\<close>

abbreviation start_commands :: "int set" where
  "start_commands \<equiv> {tmrCOMMAND_START, tmrCOMMAND_START_FROM_ISR, tmrCOMMAND_RESET, tmrCOMMAND_RESET_FROM_ISR}"

abbreviation period_commands :: "int set" where
  "period_commands \<equiv> {tmrCOMMAND_CHANGE_PERIOD, tmrCOMMAND_CHANGE_PERIOD_FROM_ISR}"

abbreviation stop_commands :: "int set" where
  "stop_commands \<equiv> {tmrCOMMAND_STOP, tmrCOMMAND_STOP_FROM_ISR}"

text \<open>The commands of timers.h; a period is not 0.\<close>

definition proper_command :: "int \<Rightarrow> tick \<Rightarrow> bool" where
  "proper_command i v \<longleftrightarrow> i \<in> start_commands \<or> i \<in> stop_commands \<or> i \<in> period_commands \<and> 0 < v \<or> i = tmrCOMMAND_DELETE"

definition known_after :: "int \<Rightarrow> timer_handle \<Rightarrow> timer_os \<Rightarrow> timer_os \<Rightarrow> bool" where
  "known_after i t s s' \<longleftrightarrow> (\<forall>u. timers s u \<noteq> None \<longrightarrow> timers s' u \<noteq> None \<or> i = tmrCOMMAND_DELETE \<and> u = t)"

lemma periods_kept_known: "periods_kept s s1 \<Longrightarrow> known_after i t s1 s' \<Longrightarrow> known_after i t s s'"
  unfolding known_after_def periods_kept_def by blast

context timer_application begin

text \<open>The timer is out of its list, and the clock has been looked at.\<close>

definition taken :: "timer_handle \<Rightarrow> timer_os \<Rightarrow> timer_os \<Rightarrow> bool" where
  "taken t s s' \<longleftrightarrow> lifted {t} s' \<and> P (tos s') \<and> xTimerQueue s' = xTimerQueue s \<and> keeping s s' \<and>
     called t s' = called t s \<and>
     (if xTickCount (tkern s) < xLastTime s
      then \<forall>u. u \<noteq> t \<longrightarrow> past_wrap (keeps_reload_modes app P) (timers s u) (due s u) (called u s) (due s' u) (called u s')
      else timers s' = timers s \<and> (\<forall>u. u \<noteq> t \<longrightarrow> due s' u = due s u) \<and>
        (\<forall>u. called u s' = called u s) \<and> tos s' = tos s)"

lemma take_ensures:
  assumes ok: "timers_ok s" and t: "timers s t \<noteq> None" and P: "P (tos s)"
    and post: "\<And>s' y. taken t s s' \<Longrightarrow> Q (s', xTickCount (tkern s), y)"
  shows "ensures (if container (tlists s) t \<noteq> None
           then do { (L, _) \<leftarrow> list_remove t (tlists s); Some (s\<lparr>tlists := L\<rparr>) }
           else Some s) (\<lambda>s1. ensures (prvSampleTimeNow app s1) Q)"
proof -
  have sample: "ensures (prvSampleTimeNow app (s\<lparr>tlists := L\<rparr>)) Q"
    if up: "lifted {t} (s\<lparr>tlists := L\<rparr>)" and o: "\<forall>u. u \<noteq> t \<longrightarrow> due (s\<lparr>tlists := L\<rparr>) u = due s u" for L
  proof (rule sample_ensures [OF up])
    fix s1 assume s1: "lifted {t} s1" "P (tos s1)" "xTimerQueue s1 = xTimerQueue (s\<lparr>tlists := L\<rparr>)"
      "keeping (s\<lparr>tlists := L\<rparr>) s1"
      "aged (xTickCount (tkern (s\<lparr>tlists := L\<rparr>)) < xLastTime (s\<lparr>tlists := L\<rparr>)) (s\<lparr>tlists := L\<rparr>) s1"
    have k: "keeping s s1" using kept_trans [OF kept_same s1(4)] by simp
    have off: "due (s\<lparr>tlists := L\<rparr>) t = None" using liftedD(3) [OF up] by simp
    have "taken t s s1"
    proof (cases "xTickCount (tkern s) < xLastTime s")
      case True
      with s1(5) have w: "past_wrap (keeps_reload_modes app P) (timers s u) (due (s\<lparr>tlists := L\<rparr>) u) (called u s) (due s1 u) (called u s1)"
        for u by (simp add: aged_def)
      have "called t s1 = called t s" using w [of t] unfolding off by (simp add: past_wrap_def)
      moreover have "past_wrap (keeps_reload_modes app P) (timers s u) (due s u) (called u s) (due s1 u) (called u s1)" if "u \<noteq> t" for u
        using w [of u] o that by simp
      ultimately show ?thesis using s1 k True by (simp add: taken_def)
    next
      case False
      from s1(5) False have e: "s1 = s\<lparr>tlists := L, xLastTime := xLastTime s1\<rparr>" "due s1 = due (s\<lparr>tlists := L\<rparr>)"
        "\<forall>u. called u s1 = called u s" by (simp_all add: aged_def)
      have "timers s1 = timers s" "tos s1 = tos s" by (subst e(1), simp)+
      with e o s1 k False show ?thesis by (simp add: taken_def)
    qed
    then show "Q (s1, xTickCount (tkern (s\<lparr>tlists := L\<rparr>)), xTickCount (tkern (s\<lparr>tlists := L\<rparr>)) < xLastTime (s\<lparr>tlists := L\<rparr>))"
      using post by simp
  qed (use P in simp)
  have up0: "lifted {} s" using ok by (simp add: timers_ok_def)
  show ?thesis
  proof (cases "listed s t")
    case True
    have "ensures (list_remove t (tlists s)) (\<lambda>(L, n). ensures (prvSampleTimeNow app (s\<lparr>tlists := L\<rparr>)) Q)"
      by (rule lift_ensures [OF up0 True]) (use sample in simp)
    then show ?thesis using True by (auto simp: listed_def case_prod_unfold)
  next
    case False
    have "lifted {t} s" using up0 False t by (auto simp: lifted_def)
    then show ?thesis using False sample [of "tlists s"] by (simp add: listed_def)
  qed
qed

text \<open>Starting: the expiry counts from the time of the command.\<close>

lemma start_ensures:
  assumes up: "lifted {t} s" and tm: "timers s t = Some tm" and P: "P (tos s)"
    and p: "xTimerPeriodInTicks tm = p" and e: "unat (now - v) = e"
    and post: "\<And>s'. \<lbrakk>timers_ok s'; P (tos s'); xTimerQueue s' = xTimerQueue s; periods_kept s s';
      due s' t = (if e < unat p \<or> is_autoreload tm then Some (uint now + int (unat p - e mod unat p)) else None);
      \<forall>u. u \<noteq> t \<longrightarrow> due s' u = due s u;
      \<forall>u. called u s' = called u s + (if u = t then if is_autoreload tm then e div unat p else min 1 (e div unat p) else 0)\<rbrakk> \<Longrightarrow> Q s'"
  shows "ensures (prvInsertTimerInActiveList t (v + p) now v (set_timer t (set_status tmrSTATUS_IS_ACTIVE tm) s))
    (\<lambda>(s1, x). ensures (if x
       then do { s \<leftarrow> (if is_autoreload tm then prvReloadTimer app t (v + p) now s1
                else Some (set_timer t (clear_status tmrSTATUS_IS_ACTIVE (set_status tmrSTATUS_IS_ACTIVE tm)) s1)); run_callback app t s }
       else Some s1) Q)"
proof -
  let ?tm = "set_status tmrSTATUS_IS_ACTIVE tm"
  let ?s = "set_timer t ?tm s"
  have p0: "0 < xTimerPeriodInTicks tm" using schedule_okD(5) [OF liftedD(1) [OF up] tm] .
  have p1: "0 < unat p" using p0 p by (simp add: word_less_nat_alt)
  have tX: "t \<in> {t}" by simp
  note st = lifted_set_timer [OF up tX, of ?tm, simplified, OF p0]
  have tm': "timers ?s t = Some ?tm" by simp
  have act: "active ?s t" using st(3) by simp
  have cl: "called u ?s = called u s" for u using called_status [OF tm] by (simp add: set_status_def)
  have pk: "periods_kept s ?s" using tm by (simp add: periods_kept_def)
  have "ensures (prvInsertTimerInActiveList t (v + xTimerPeriodInTicks ?tm) now v ?s) (\<lambda>(s1, x). ensures (if x
       then do { s \<leftarrow> (if is_autoreload tm then prvReloadTimer app t (v + p) now s1
               else Some (set_timer t (clear_status tmrSTATUS_IS_ACTIVE ?tm) s1)); run_callback app t s }
      else Some s1) Q)"
  proof (rule insert_ensures [OF st(1) tX tm'], unfold prod.case if_True if_False)
    fix s1 assume le: "xTimerPeriodInTicks ?tm \<le> now - v" and s1: "s1 = ?s\<lparr>tlists := list_set_value t (v + xTimerPeriodInTicks ?tm) (tlists ?s)\<rparr>"
      and up1: "lifted {t} s1" and d1: "\<forall>u. due s1 u = due ?s u"
    have pe: "unat p \<le> e" using le p e by (simp add: word_le_nat_alt)
    have t1: "timers s1 t = Some ?tm" "tos s1 = tos s" "xTimerQueue s1 = xTimerQueue s" "active s1 t" "\<And>u. called u s1 = called u s"
      using act cl by (simp_all add: s1 active_def)
    have pk1: "periods_kept s s1" using pk by (simp add: periods_kept_def s1)
    have ep: "unat (now - (v + p)) = e - unat p"
      using le p e by (simp add: diff_diff_eq [symmetric] unat_sub)
    have fin: "Q s3" if "undisturbing s2 s3" "P (tos s3)" "\<forall>u. called u s3 = called u s2 + (if u = t then 1 else 0)"
      "lifted {} s2" "periods_kept s1 s2" "xTimerQueue s2 = xTimerQueue s1"
      "due s2 t = (if is_autoreload tm then Some (uint now + int (unat p - e mod unat p)) else None)"
      "\<forall>u. u \<noteq> t \<longrightarrow> due s2 u = due s1 u"
      "\<forall>u. called u s2 = called u s1 + (if u = t \<and> is_autoreload tm then e div unat p - 1 else 0)" for s2 s3
    proof (rule post)
      have "1 \<le> e div unat p" using pe p1 by (simp add: Suc_leI div_greater_zero_iff)
      then show "\<forall>u. called u s3 = called u s + (if u = t then if is_autoreload tm then e div unat p else min 1 (e div unat p) else 0)"
        using that(3,9) t1(5) by simp
      show "timers_ok s3" using undisturbing_lifted [OF that(1,4)] by (simp add: timers_ok_def)
      show "periods_kept s s3" by (rule periods_kept_trans [OF pk1 periods_kept_trans [OF that(5) undisturbing_periods [OF that(1)]]])
    qed (use that undisturbing_fields [OF that(1)] t1 d1 st(2) pe in simp_all)
    show "ensures (do { s \<leftarrow> (if is_autoreload tm then prvReloadTimer app t (v + p) now s1
               else Some (set_timer t (clear_status tmrSTATUS_IS_ACTIVE ?tm) s1)); run_callback app t s }) Q"
    proof (cases "is_autoreload tm")
      case True
      have "ensures (prvReloadTimer app t (v + p) now s1) (\<lambda>s2. ensures (run_callback app t s2) Q)"
      proof (rule reload_ensures [OF up1 tX t1(1) _ t1(4)])
        show "xTimerPeriodInTicks ?tm = p" "P (tos s1)" using p P t1 by simp_all
        fix s2 assume s2: "lifted ({t} - {t}) s2" "P (tos s2)" "due s2 t = Some (uint now + int (unat p - unat (now - (v + p)) mod unat p))"
          "\<forall>u. u \<noteq> t \<longrightarrow> due s2 u = due s1 u" "active s2 = active s1" "keeping s1 s2" "xTimerQueue s2 = xTimerQueue s1"
          "\<forall>u. called u s2 = called u s1 + (if u = t then unat (now - (v + p)) div unat p else 0)"
        have "active s2 t" using s2(5) t1(4) by simp
        then have k: "timers s2 t \<noteq> None" by (auto simp: active_def)
        have m: "(e - unat p) mod unat p = e mod unat p" "(e - unat p) div unat p = e div unat p - 1"
          using pe p1 by (simp_all add: le_mod_geq le_div_geq)
        have c: "\<forall>u. called u s2 = called u s1 + (if u = t \<and> is_autoreload tm then e div unat p - 1 else 0)"
          using s2(8) True unfolding ep m(2) by simp
        have d: "due s2 t = (if is_autoreload tm then Some (uint now + int (unat p - e mod unat p)) else None)"
          using s2(3) True unfolding ep m(1) by simp
        show "ensures (run_callback app t s2) Q"
          by (rule callback_ensures [OF k s2(2)], rule fin [OF _ _ _ _ kept_periods [OF s2(6)] s2(7) d s2(4) c]) (use s2(1) in simp_all)
      qed
      with True show ?thesis by simp
    next
      case False
      let ?t = "set_timer t (clear_status tmrSTATUS_IS_ACTIVE ?tm) s1"
      have "0 < xTimerPeriodInTicks (clear_status tmrSTATUS_IS_ACTIVE ?tm)" using p0 by simp
      note lt = lifted_set_timer [OF up1 tX this]
      have inact: "lifted {} ?t" using lifted_inactive [OF lt(1) tX] lt(3) by simp
      have ct: "called u ?t = called u s1" for u
        using called_status [OF t1(1)] by (simp add: clear_status_def)
      have pt: "periods_kept s1 ?t" using t1(1) by (simp add: periods_kept_def)
      have "ensures (run_callback app t ?t) Q"
        by (rule callback_ensures, simp, (use P t1 in simp), rule fin [of ?t])
          (use inact False lt(2) liftedD(3) [OF up1 tX] ct pt in simp_all)
      with False show ?thesis by simp
    qed
  next
    fix L s1 assume lt: "now - v < xTimerPeriodInTicks ?tm" and s1: "s1 = ?s\<lparr>tlists := L\<rparr>"
      and up1: "active ?s t \<Longrightarrow> lifted ({t} - {t}) s1"
      and d: "due s1 t = Some (uint now + uint (xTimerPeriodInTicks ?tm) - uint (now - v))" and o: "\<forall>u. u \<noteq> t \<longrightarrow> due s1 u = due ?s u"
    have l: "e < unat p" using lt p e by (simp add: word_less_nat_alt)
    have "uint now + uint p - uint (now - v) = uint now + int (unat p - e mod unat p)" using l e by (auto simp: of_nat_diff)
    then show "ensures (Some s1) Q"
      using up1 act d o st(2) P cl pk l p by (simp, intro post) (simp_all add: s1 timers_ok_def periods_kept_def)
  qed
  then show ?thesis using p by simp
qed

text \<open>Every proper command keeps the invariant; only the start of a timer that has expired runs its callback.\<close>

definition carried_out :: "bool \<Rightarrow> int \<Rightarrow> tick \<Rightarrow> timer_handle \<Rightarrow> sw_timer \<Rightarrow> tick \<Rightarrow> timer_os \<Rightarrow> timer_os \<Rightarrow> bool" where
  "carried_out b i v t tm now s s' \<longleftrightarrow>
     (let p = unat (xTimerPeriodInTicks tm); e = unat (now - v) in
      due s' t = (if i \<in> start_commands
        then if e < p \<or> b then Some (uint now + int (p - e mod p)) else None
        else if i \<in> period_commands then Some (uint now + uint v)
        else None) \<and>
      (i \<noteq> tmrCOMMAND_DELETE \<longrightarrow>
        called t s' = called t s + (if i \<in> start_commands then if b then e div p else min 1 (e div p) else 0)))"

text \<open>The other timers are left alone, or are past the wrap if the counter has wrapped.\<close>

definition others_done :: "timer_handle \<Rightarrow> timer_os \<Rightarrow> timer_os \<Rightarrow> bool" where
  "others_done t s s' \<longleftrightarrow> (\<forall>u. u \<noteq> t \<longrightarrow>
     (if xTickCount (tkern s) < xLastTime s
      then past_wrap (keeps_reload_modes app P) (timers s u) (due s u) (called u s) (due s' u) (called u s')
      else due s' u = due s u \<and> called u s' = called u s))"

lemma command_switch_ensures:
  assumes up: "lifted {t} s" and tm: "timers s t = Some tm" and P: "P (tos s)" and i: "proper_command i v"
    and post: "\<And>s'. \<lbrakk>timers_ok s'; P (tos s'); xTimerQueue s' = xTimerQueue s; known_after i t s s';
      carried_out (is_autoreload tm) i v t tm now s s';
      \<forall>u. u \<noteq> t \<longrightarrow> due s' u = due s u \<and> called u s' = called u s\<rbrakk> \<Longrightarrow> Q s'"
  shows "ensures (command_switch app i v t now s) Q"
proof -
  have tX: "t \<in> {t}" by simp
  have p0: "0 < xTimerPeriodInTicks tm" using schedule_okD(5) [OF liftedD(1) [OF up] tm] .
  have off: "due s t = None" using liftedD(3) [OF up tX] by simp
  let ?stop = "set_timer t (clear_status tmrSTATUS_IS_ACTIVE tm) s"
  have stop: "timers_ok ?stop" "due ?stop = due s" "known_after i t s ?stop"
    using lifted_inactive [of "{t}" ?stop t] lifted_set_timer [OF up tX, of "clear_status tmrSTATUS_IS_ACTIVE tm"] p0
    by (simp_all add: timers_ok_def known_after_def)
  have cs: "called u ?stop = called u s" for u
    using called_status [OF tm] by (simp add: clear_status_def)
  consider "i \<in> start_commands" | "i \<in> stop_commands" | "i \<in> period_commands" "0 < v" | "i = tmrCOMMAND_DELETE"
    using i by (auto simp: proper_command_def)
  then show ?thesis
  proof cases
    case 1
    let ?p = "xTimerPeriodInTicks tm"
    have "ensures (prvInsertTimerInActiveList t (v + ?p) now v (set_timer t (set_status tmrSTATUS_IS_ACTIVE tm) s))
      (\<lambda>(s1, x). ensures (if x
         then do { s \<leftarrow> (if is_autoreload tm then prvReloadTimer app t (v + ?p) now s1
                  else Some (set_timer t (clear_status tmrSTATUS_IS_ACTIVE (set_status tmrSTATUS_IS_ACTIVE tm)) s1)); run_callback app t s }
         else Some s1) Q)"
      by (rule start_ensures [OF up tm P refl refl], rule post)
        (use 1 periods_kept_known [of s _ i t] in \<open>auto simp: carried_out_def Let_def known_after_def periods_kept_def\<close>)
    then have "ensures (prvInsertTimerInActiveList t (v + ?p) now v (set_timer t (set_status tmrSTATUS_IS_ACTIVE tm) s) \<bind> (\<lambda>(s1, x).
        if x then do { s \<leftarrow> (if is_autoreload tm then prvReloadTimer app t (v + ?p) now s1
                  else Some (set_timer t (clear_status tmrSTATUS_IS_ACTIVE (set_status tmrSTATUS_IS_ACTIVE tm)) s1)); run_callback app t s }
         else Some s1)) Q" by (simp only: ensures_bind case_prod_unfold)
    with 1 show ?thesis by (simp only: command_switch_def tm Option.bind.simps Let_def if_True is_active_status)
  next
    case 2
    then have "carried_out (is_autoreload tm) i v t tm now s ?stop" "\<forall>u. u \<noteq> t \<longrightarrow> due ?stop u = due s u \<and> called u ?stop = called u s"
      using off stop cs by (auto simp: carried_out_def timer_commands Let_def)
    with 2 show ?thesis
      using post [OF stop(1) _ _ stop(3)] P by (auto simp: command_switch_def tm timer_commands)
  next
    case 3
    let ?tm = "(set_status tmrSTATUS_IS_ACTIVE tm)\<lparr>xTimerPeriodInTicks := v\<rparr>"
    let ?s = "set_timer t ?tm s"
    have a: "is_active ?tm" using is_active_status(1) [of tm] by (simp add: is_active_def)
    have "0 < xTimerPeriodInTicks ?tm" using 3 by simp
    note st = lifted_set_timer [OF up tX this]
    have "called u ?s = called u s" for u
      using not_counted [where T = "timers s" and tm = tm, OF tm] by (simp add: called_def set_status_def)
    moreover have "ensures (prvInsertTimerInActiveList t (now + xTimerPeriodInTicks ?tm) now now ?s) (\<lambda>(s1, x). Q s1)"
    proof (rule insert_ensures [OF st(1) tX])
      show "timers ?s t = Some ?tm" by simp
      show "case (s', True) of (s1, x) \<Rightarrow> Q s1" if "xTimerPeriodInTicks ?tm \<le> now - now" for s'
        using that 3 by simp
      fix L s1 assume s1: "s1 = ?s\<lparr>tlists := L\<rparr>" "active ?s t \<Longrightarrow> lifted ({t} - {t}) s1"
        "due s1 t = Some (uint now + uint (xTimerPeriodInTicks ?tm) - uint (now - now))" "\<forall>u. u \<noteq> t \<longrightarrow> due s1 u = due ?s u"
      have ok: "timers_ok s1" using s1(2) st(3) a by (simp add: timers_ok_def)
      have f: "tos s1 = tos s" "xTimerQueue s1 = xTimerQueue s" "known_after i t s s1" "called u s1 = called u ?s" for u
        by (simp_all add: s1(1) known_after_def)
      have "carried_out (is_autoreload tm) i v t tm now s s1" "\<forall>u. u \<noteq> t \<longrightarrow> due s1 u = due s u \<and> called u s1 = called u s"
        using 3(1) s1(3,4) st(2) f(4) calculation by (auto simp: carried_out_def timer_commands Let_def)
      then show "case (s1, False) of (s1, x) \<Rightarrow> Q s1" using post [OF ok] P f by simp
    qed
    ultimately show ?thesis
      using 3 by (auto simp: command_switch_def tm timer_commands Let_def case_prod_unfold)
  next
    case 4
    show ?thesis
    proof (cases "is_static_timer tm")
      case True
      with 4 show ?thesis using post [OF stop(1) _ _ stop(3)] off stop cs P
        by (auto simp: command_switch_def tm timer_commands carried_out_def Let_def)
    next
      case False
      let ?s = "s\<lparr>timers := (timers s)(t := None)\<rparr>"
      have f: "due ?s = due s" "listed ?s = listed s" "active ?s = (active s)(t := False)"
        by (auto simp: due_def listed_def active_def fun_eq_iff split: option.split)
      have "schedule_ok ?s" using liftedD(1) [OF up] by (auto simp: schedule_ok_def)
      then have "timers_ok ?s" using up by (auto simp: timers_ok_def lifted_def f)
      moreover have "carried_out (is_autoreload tm) i v t tm now s ?s" "\<forall>u. u \<noteq> t \<longrightarrow> due ?s u = due s u \<and> called u ?s = called u s"
        using 4 f off deletion [of _ t] by (auto simp: carried_out_def timer_commands Let_def called_def)
      moreover have "known_after i t s ?s" using 4 by (simp add: known_after_def)
      ultimately show ?thesis using 4 False post P by (auto simp: command_switch_def tm timer_commands)
    qed
  qed
qed

lemma command_ensures:
  assumes ok: "timers_ok s" and t: "timers s t = Some tm" and P: "P (tos s)" and i: "proper_command i v"
    and post: "\<And>s'. \<lbrakk>timers_ok s'; P (tos s'); xTimerQueue s' = xTimerQueue s; known_after i t s s';
      \<exists>b. (keeps_reload_modes app P \<or> \<not> xTickCount (tkern s) < xLastTime s \<longrightarrow> b = is_autoreload tm) \<and>
        carried_out b i v t tm (xTickCount (tkern s)) s s'; others_done t s s'\<rbrakk> \<Longrightarrow> Q s'"
  shows "ensures (process_command app i v t s) Q"
proof -
  have "timers s t \<noteq> None" using t by simp
  then have "ensures (if container (tlists s) t \<noteq> None
           then do { (L, _) \<leftarrow> list_remove t (tlists s); Some (s\<lparr>tlists := L\<rparr>) }
           else Some s) (\<lambda>s1. ensures (prvSampleTimeNow app s1) (\<lambda>(s2, now, _). ensures (command_switch app i v t now s2) Q))"
  proof (rule take_ensures [OF ok _ P], unfold prod.case)
    fix s1 assume tk: "taken t s s1"
    then have up: "lifted {t} s1" and P1: "P (tos s1)" and q1: "xTimerQueue s1 = xTimerQueue s" and kp: "keeping s s1"
      by (simp_all add: taken_def)
    note pk = kept_periods [OF kp]
    obtain tm1 where tm1: "timers s1 t = Some tm1" and per: "xTimerPeriodInTicks tm1 = xTimerPeriodInTicks tm"
      and mode: "keeps_reload_modes app P \<Longrightarrow> is_autoreload tm1 = is_autoreload tm" using kept_timer [OF kp t] by blast
    show "ensures (command_switch app i v t (xTickCount (tkern s)) s1) Q"
    proof (rule command_switch_ensures [OF up tm1 P1 i], rule post)
      fix s' assume s': "known_after i t s1 s'" "carried_out (is_autoreload tm1) i v t tm1 (xTickCount (tkern s)) s1 s'"
        "\<forall>u. u \<noteq> t \<longrightarrow> due s' u = due s1 u \<and> called u s' = called u s1"
      show "known_after i t s s'" by (rule periods_kept_known [OF pk s'(1)])
      have "carried_out (is_autoreload tm1) i v t tm (xTickCount (tkern s)) s s'"
        using s'(2) tk per by (simp add: carried_out_def taken_def)
      moreover have "is_autoreload tm1 = is_autoreload tm" if "\<not> xTickCount (tkern s) < xLastTime s"
        using tk that tm1 t by (simp add: taken_def)
      ultimately show "\<exists>b. (keeps_reload_modes app P \<or> \<not> xTickCount (tkern s) < xLastTime s \<longrightarrow> b = is_autoreload tm) \<and>
          carried_out b i v t tm (xTickCount (tkern s)) s s'" using mode by blast
      show "others_done t s s'" using s'(3) tk by (simp add: others_done_def taken_def)
    qed (use q1 in simp_all)
  qed
  then show ?thesis using t by (simp add: process_command_def case_prod_unfold)
qed

end

section \<open>All the commands in the queue\<close>

definition holds_messages :: "queue_handle \<Rightarrow> byte list list \<Rightarrow> os \<Rightarrow> bool" where
  "holds_messages h ms o1 \<longleftrightarrow> os_inv o1 \<and> (\<exists>q. queues o1 h = Some q \<and> pcHead q \<noteq> queueQUEUE_IS_MUTEX \<and>
     pxQueueSetContainer q = None \<and> uxItemSize q = sizeof_DaemonTaskMessage \<and> contents q = ms)"

lemma receive_message:
  assumes h: "holds_messages h (m # ms) o1" and post: "\<And>o2. holds_messages h ms o2 \<Longrightarrow> Q (o2, Some (True, m))"
  shows "ensures (xQueueReceive [] h True 0 o1) Q"
proof -
  from h obtain q where inv: "os_inv o1" and q: "queues o1 h = Some q" and nm: "pcHead q \<noteq> queueQUEUE_IS_MUTEX"
    and set: "pxQueueSetContainer q = None" and sz: "uxItemSize q = sizeof_DaemonTaskMessage"
    and c: "contents q = m # ms" by (auto simp: holds_messages_def)
  have ne: "uxMessagesWaiting q \<noteq> 0" using contents_empty [of q] c by simp
  have "ensures (xQueueReceive_try h (None, 0) o1) (\<lambda>(s, r). Q (s, case r of Inl x \<Rightarrow> Some x | Inr _ \<Rightarrow> None))"
  proof (rule xQueueReceive_try_ensures [OF inv q nm ne], unfold prod.case sum.case)
    fix q' k' assume q': "same_object q q'" "contents q' = tl (contents q)" and inv': "os_inv ((set_queue h q' o1)\<lparr>kern := k'\<rparr>)"
    have "holds_messages h ms ((set_queue h q' o1)\<lparr>kern := k'\<rparr>)"
      using inv' q'(2) c nm set sz same_object_fields [OF q'(1)] by (simp add: holds_messages_def)
    then show "Q ((set_queue h q' o1)\<lparr>kern := k'\<rparr>, Some (pdPASS, hd (contents q)))"
      using post c by simp
  qed
  then show ?thesis using q by (simp add: xQueueReceive_def xQueueReceive_enter_def case_prod_unfold)
qed

lemma receive_none:
  assumes "holds_messages h [] o1" shows "xQueueReceive [] h True 0 o1 = Some (o1, Some (False, []))"
proof -
  from assms obtain q where q: "queues o1 h = Some q" "contents q = []" by (auto simp: holds_messages_def)
  then have "uxMessagesWaiting q = 0" using contents_empty [of q] by simp
  with q show ?thesis by (simp add: xQueueReceive_def xQueueReceive_enter_def xQueueReceive_try_empty)
qed

text \<open>Proper commands for timers in \<open>K\<close>, none of them for a timer that an earlier one deletes.\<close>

fun proper_commands :: "timer_handle set \<Rightarrow> daemon_message list \<Rightarrow> bool" where
  "proper_commands K [] \<longleftrightarrow> True"
| "proper_commands K (TimerMessage i v t # ms) \<longleftrightarrow>
     t \<in> K \<and> proper_command i v \<and> proper_commands (if i = tmrCOMMAND_DELETE then K - {t} else K) ms"
| "proper_commands K (CallbackMessage i f p v # ms) \<longleftrightarrow> proper_commands K ms"

text \<open>
  The messages are processed one after the other; between them only the system behind the timers
  changes, by the receiving.
\<close>

fun messages_run :: "application \<Rightarrow> daemon_message list \<Rightarrow> timer_os \<Rightarrow> timer_os \<Rightarrow> bool" where
  "messages_run app [] s s' \<longleftrightarrow> s' = s"
| "messages_run app (m # ms) s s' \<longleftrightarrow>
     (\<exists>sys s1. process_message app m (s\<lparr>tos := sys\<rparr>) = Some s1 \<and> messages_run app ms s1 s')"

lemma ensures_eq: "ensures m Q \<Longrightarrow> ensures m (\<lambda>x. Q x \<and> m = Some x)"
  by (cases m) simp_all

lemma prvProcessReceivedCommands_empties_the_queue:
  assumes app: "\<And>c. timer_application app (holds_messages h c) calls" and ok: "timers_ok s" and q: "xTimerQueue s = Some h"
    and h: "holds_messages h (map message_bytes ms) (tos s)" and sound: "\<forall>m \<in> set ms. sound_message m"
    and proper: "proper_commands K ms" and K: "\<forall>t \<in> K. timers s t \<noteq> None"
  shows "ensures (prvProcessReceivedCommands app s) (\<lambda>s'. timers_ok s' \<and> xTimerQueue s' = Some h \<and> holds_messages h [] (tos s') \<and> messages_run app ms s s')"
  using ok q h sound proper K
proof (induction ms arbitrary: s K)
  case Nil
  then show ?case
    by (subst prvProcessReceivedCommands.simps) (simp add: receive_none tmrNO_DELAY_def Let_def)
next
  case (Cons m ms)
  let ?Q = "\<lambda>s1 s'. timers_ok s' \<and> xTimerQueue s' = Some h \<and> holds_messages h [] (tos s') \<and> messages_run app ms s1 s'"
  let ?R = "\<lambda>s'. timers_ok s' \<and> xTimerQueue s' = Some h \<and> holds_messages h [] (tos s') \<and> messages_run app (m # ms) s s'"
  have "ensures (xQueueReceive [] h True 0 (tos s)) (\<lambda>(sys, r). r = Some (True, message_bytes m) \<and>
      ensures (process_message app m (s\<lparr>tos := sys\<rparr>)) (\<lambda>s1. ensures (prvProcessReceivedCommands app s1) ?R))"
  proof (rule receive_message)
    show "holds_messages h (message_bytes m # map message_bytes ms) (tos s)" using Cons.prems by simp
    fix o2 assume o2: "holds_messages h (map message_bytes ms) o2"
    let ?s = "s\<lparr>tos := o2\<rparr>"
    have ok2: "timers_ok ?s" using Cons.prems(1)
      by (simp add: timers_ok_def lifted_def schedule_ok_def listed_def active_def)
    have "ensures (process_message app m ?s) (\<lambda>s1. ensures (prvProcessReceivedCommands app s1) (?Q s1))"
    proof (cases m)
      case (TimerMessage i v t)
      with Cons.prems(5,6) obtain tm where tm: "timers ?s t = Some tm" and i: "proper_command i v"
        and rest: "proper_commands (if i = tmrCOMMAND_DELETE then K - {t} else K) ms" by auto
      have P: "holds_messages h (map message_bytes ms) (tos ?s)" using o2 by simp
      have "ensures (process_command app i v t ?s) (\<lambda>s1. ensures (prvProcessReceivedCommands app s1) (?Q s1))"
      proof (rule timer_application.command_ensures [OF app ok2 tm P i])
        fix s1 assume s1: "timers_ok s1" "holds_messages h (map message_bytes ms) (tos s1)" "xTimerQueue s1 = xTimerQueue ?s"
          "known_after i t ?s s1"
        show "ensures (prvProcessReceivedCommands app s1) (?Q s1)"
          by (rule Cons.IH [OF s1(1) _ s1(2) _ rest])
            (use Cons.prems s1(3,4) in \<open>auto simp: known_after_def\<close>)
      qed
      with TimerMessage show ?thesis by (simp add: process_message_def)
    next
      case (CallbackMessage i f p v)
      have "ensures (call_pended app f p v ?s) (\<lambda>s1. ensures (prvProcessReceivedCommands app s1) (?Q s1))"
      proof (rule ensures_mono [OF timer_application.pended_returns [OF app]], use o2 in simp)
        fix s1 assume s1: "undisturbing ?s s1 \<and> holds_messages h (map message_bytes ms) (tos s1) \<and>
          (\<forall>u. calls u (timers s1) = calls u (timers ?s))"
        then have u: "undisturbing ?s s1" by simp
        have "timers_ok s1" using undisturbing_lifted [OF u] ok2 by (simp add: timers_ok_def)
        moreover have "\<forall>t \<in> K. timers s1 t \<noteq> None"
          using Cons.prems(6) undisturbing_periods [OF u] unfolding periods_kept_def by fastforce
        ultimately show "ensures (prvProcessReceivedCommands app s1) (?Q s1)"
          by (intro Cons.IH [of _ K]) (use Cons.prems CallbackMessage s1 undisturbing_fields [OF u] in auto)
      qed
      with CallbackMessage show ?thesis by (simp add: process_message_def)
    qed
    then have "ensures (process_message app m ?s) (\<lambda>s1. ensures (prvProcessReceivedCommands app s1) ?R)"
    proof (rule ensures_mono [OF ensures_eq], elim conjE)
      fix s1 assume "ensures (prvProcessReceivedCommands app s1) (?Q s1)" "process_message app m ?s = Some s1"
      then show "ensures (prvProcessReceivedCommands app s1) ?R" by (auto elim!: ensures_mono)
    qed
    then show "case (o2, Some (True, message_bytes m)) of (sys, r) \<Rightarrow> r = Some (True, message_bytes m) \<and>
      ensures (process_message app m (s\<lparr>tos := sys\<rparr>)) (\<lambda>s1. ensures (prvProcessReceivedCommands app s1) ?R)" by simp
  qed
  note mono = ensures_mono [OF this]
  have m: "message_of_bytes (message_bytes m) = m" using Cons.prems by (intro message_round) simp
  show ?case
    by (subst prvProcessReceivedCommands.simps)
      (simp add: Cons.prems(2) tmrNO_DELAY_def Let_def case_prod_unfold, rule mono, auto simp: m)
qed

end
