(* ===== verification/Timer_Wait.thy ===== *)
theory Timer_Wait
  imports Timer_Commands
begin

text \<open>
  How long the timer task sleeps: until the first expiry, and at the longest until the tick
  counter wraps; without an active timer, until a command comes.
\<close>

text \<open>Nothing happens while the caller waits for a message.\<close>

abbreviation no_interrupts :: env where
  "no_interrupts \<equiv> \<lambda>_. Some"

lemma lists_empty_resume:
  assumes inv: "kernel_inv k" and cur: "pxCurrentTCB k = Some c" and susp: "uxSchedulerSuspended k = 1"
    and idle: "idle_ready k" and run: "xSchedulerRunning k" and p: "members k PendingReadyL = []" "xPendedTicks k = 0"
  shows "ensures (do { (k, y) \<leftarrow> xTaskResumeAll k; if \<not> y then portYIELD k else Some k })
    (\<lambda>k'. sys_inv k' \<and> container (lists k') = container (lists k) \<and> item_value (lists k') = item_value (lists k) \<and>
      xTickCount k' = xTickCount k \<and> tcbs k' = tcbs k)"
proof -
  have "ensures (do { (k, y) \<leftarrow> xTaskResumeAll k; if y then Some k else portYIELD k })
    (\<lambda>k'. sys_inv k' \<and> container (lists k') = container (lists k) \<and> item_value (lists k') = item_value (lists k) \<and>
      xTickCount k' = xTickCount k \<and> tcbs k' = tcbs k)"
  proof (rule ensures_mono [OF resume_all_sys_inv [OF inv cur susp idle run]], elim conjE exE)
    fix k' k1 t assume k': "sys_inv k'" and r: "resumed k k1" and s: "switched t k1 k'"
    have t: "ticked {} k k1" and tc: "xTickCount k1 = xTickCount k" using r resume_set_empty [OF inv p] p(2) by (simp_all add: resumed_def)
    have l: "lists k1 = lists k" using ticked_lists(5) [OF t] by simp
    show "sys_inv k' \<and> container (lists k') = container (lists k) \<and> item_value (lists k') = item_value (lists k) \<and>
      xTickCount k' = xTickCount k \<and> tcbs k' = tcbs k"
      using k' switched_same [OF s] l tc ticked_frame [OF t] s by (simp add: switched_def)
  qed
  then show ?thesis by (auto simp: case_prod_unfold elim!: ensures_mono split: if_splits)
qed

text \<open>A wait with nothing in the queue, from the locked scheduler to the next task.\<close>

lemma wait_for_message:
  assumes inv: "os_inv o1" and one: "uxSchedulerSuspended (kern o1) = 0" and cur: "pxCurrentTCB (kern o1) = Some c"
    and ni: "xIdleTaskHandle (kern o1) \<noteq> Some c" and q: "queues o1 h = Some q" and c0: "contents q = []"
    and un: "cTxLock q = queueUNLOCKED" "cRxLock q = queueUNLOCKED" and w: "w \<noteq> 0 \<or> indef"
    and post: "\<And>k'. \<lbrakk>os_inv (o1\<lparr>kern := k'\<rparr>); event_list k' c = Some (ReceiveL h); xTickCount k' = xTickCount (kern o1);
      if indef then state_list k' c = Some SuspendedL else timed k' c \<and> wake_time k' c = xTickCount k' + w\<rbrakk> \<Longrightarrow> Q (o1\<lparr>kern := k'\<rparr>)"
  shows "ensures (do { o2 \<leftarrow> vQueueWaitForMessageRestricted no_interrupts h w indef (o1\<lparr>kern := vTaskSuspendAll (kern o1)\<rparr>);
    (k, y) \<leftarrow> xTaskResumeAll (kern o2);
    k \<leftarrow> (if \<not> y then portYIELD k else Some k);
    Some (o2\<lparr>kern := k\<rparr>) }) Q"
proof -
  let ?k = "vTaskSuspendAll (kern o1)"
  note sk = os_invD(1) [OF inv]
  have li: "lock_inv ?k" by (rule lock_inv_suspend [OF sk])
  have n: "uxMessagesWaiting q = 0" using contents_empty c0 by simp
  have b: "blockable ?k c" by (rule sys_blockable(2) [OF sk one cur])
  have kf: "xTickCount ?k = xTickCount (kern o1)" "uxSchedulerSuspended ?k = 1" "xSchedulerRunning ?k" "xIdleTaskHandle ?k = xIdleTaskHandle (kern o1)"
    using one sys_invD(3) [OF sk] by (simp_all add: vTaskSuspendAll_def)
  have place: "ensures (vTaskPlaceOnEventListRestricted (ReceiveL h) w indef ?k) (\<lambda>k1. ensures
    (do { (k, y) \<leftarrow> xTaskResumeAll k1; if \<not> y then portYIELD k else Some k }) (\<lambda>k'. Q (o1\<lparr>kern := k'\<rparr>)))"
  proof (rule vTaskPlaceOnEventListRestricted_ensures [OF b w])
    fix k1 assume k1: "kernel_inv k1" and bl: "blocked c (if indef then portMAX_DELAY else w) indef (Some (ReceiveL h)) ?k k1"
    note f = blocked_frame [OF bl] and bll = blocked_lists [OF bl]
    have idle: "idle_ready k1"
      using lock_invD(4) [OF li] ni ready_blocked [OF bl] f(14) kf(4) by (auto simp: idle_ready_def)
    have p0: "members ?k PendingReadyL = []" "xPendedTicks ?k = 0"
      using nothing_put_off_suspend [OF sk] kf(2) by (simp_all add: nothing_put_off_def)
    have p: "members k1 PendingReadyL = []" "xPendedTicks k1 = 0"
      using bll(6) [of PendingReadyL] p0 f(7) by simp_all
    have cur1: "pxCurrentTCB k1 = Some c" using f(1) b by (simp add: blockable_def)
    show "ensures (do { (k, y) \<leftarrow> xTaskResumeAll k1; if \<not> y then portYIELD k else Some k }) (\<lambda>k'. Q (o1\<lparr>kern := k'\<rparr>))"
    proof (rule ensures_mono [OF lists_empty_resume [OF k1 cur1 _ idle _ p]])
      show "uxSchedulerSuspended k1 = 1" "xSchedulerRunning k1" using f(5,13) kf by simp_all
      fix k' assume "sys_inv k' \<and> container (lists k') = container (lists k1) \<and> item_value (lists k') = item_value (lists k1) \<and>
        xTickCount k' = xTickCount k1 \<and> tcbs k' = tcbs k1"
      then have k': "sys_inv k'" "container (lists k') = container (lists k1)" "item_value (lists k') = item_value (lists k1)"
        "xTickCount k' = xTickCount k1" "tcbs k' = tcbs k1" by simp_all
      show "Q (o1\<lparr>kern := k'\<rparr>)"
      proof (rule post)
        show "os_inv (o1\<lparr>kern := k'\<rparr>)"
          by (rule os_inv_kern [OF inv k'(1)]) (simp add: k'(5) bll(4) vTaskSuspendAll_def)
        show "event_list k' c = Some (ReceiveL h)" using k'(2) bll(2) by simp
        show "xTickCount k' = xTickCount (kern o1)" using k'(4) f(4) kf(1) by simp
        have st: "state_list k' c = Some (wait_list ?k (if indef then portMAX_DELAY else w) indef)" using k'(2) bll(1) by simp
        show "if indef then state_list k' c = Some SuspendedL else timed k' c \<and> wake_time k' c = xTickCount k' + w"
        proof (cases indef)
          case True
          with st show ?thesis by (simp add: wait_list_def)
        next
          case False
          have core: "kernel_core ?k" using lock_invD(2) [OF li] .
          then have dl: "wait_list ?k w False \<in> {DelayedL1, DelayedL2}" by (auto simp: wait_list_def kernel_core_def)
          then have "timed k' c" using st False timed_iff [OF sys_invD(2) [OF k'(1)]] by auto
          moreover have "wake_time k' c = xTickCount k' + w"
            using k'(3,4) bll(3) [of c] dl False f(4) by auto
          ultimately show ?thesis using False by simp
        qed
      qed
    qed
  qed simp_all
  have q2: "(queues o1)(h \<mapsto> q\<lparr>cTxLock := queueUNLOCKED, cRxLock := queueUNLOCKED\<rparr>) = queues o1"
    using q un by (cases q) auto
  have run: "vQueueWaitForMessageRestricted no_interrupts h w indef (o1\<lparr>kern := ?k\<rparr>) =
    map_option (\<lambda>k. o1\<lparr>kern := k\<rparr>) (vTaskPlaceOnEventListRestricted (ReceiveL h) w indef ?k)"
    using q un n q2
    by (cases "vTaskPlaceOnEventListRestricted (ReceiveL h) w indef ?k")
      (simp_all add: vQueueWaitForMessageRestricted_def prvLockQueue_def prvUnlockQueue_def unlock_tx_def unlock_rx_def Let_def
        queueUNLOCKED_def queueLOCKED_UNMODIFIED_def)
  show ?thesis
    unfolding run using place by (auto simp: case_prod_unfold elim!: ensures_mono)
qed

section \<open>The timer task goes to sleep\<close>

lemma sample_unwrapped:
  assumes "\<not> xTickCount (tkern s) < xLastTime s"
  shows "prvSampleTimeNow app s = Some (s\<lparr>xLastTime := xTickCount (tkern s)\<rparr>, xTickCount (tkern s), False)"
  using assms by (simp add: prvSampleTimeNow_def xTaskGetTickCount_def Let_def)

lemma no_timer_in_lists:
  assumes ok: "timers_ok s"
  shows "(items (tlists s) (pxCurrentTimerList s) = [] \<and> items (tlists s) (pxOverflowTimerList s) = []) \<longleftrightarrow> (\<forall>u. \<not> active s u)"
proof -
  note sk = timers_okD(1) [OF ok]
  have all: "l = pxCurrentTimerList s \<or> l = pxOverflowTimerList s" for l
    using schedule_okD(2) [OF sk] by (cases l; cases "pxCurrentTimerList s"; cases "pxOverflowTimerList s") simp_all
  have "listed s u \<longleftrightarrow> (\<exists>l. u \<in> set (items (tlists s) l))" for u
    using lists_wf_container [OF schedule_okD(1) [OF sk]] by (auto simp: listed_def)
  then have "(\<forall>u. \<not> active s u) \<longleftrightarrow> (\<forall>l. items (tlists s) l = [])"
    using timers_okD(2) [OF ok] by (metis empty_iff last_in_set list.set(1))
  then show ?thesis using all by metis
qed

lemma map_bind: "map_option f (Option.bind m g) = Option.bind m (\<lambda>x. map_option f (g x))"
  by (cases m) simp_all

text \<open>How long it sleeps, computed from the head of the current list.\<close>

lemma sleep_length:
  assumes ok: "timers_ok s" and nxt: "prvGetNextExpireTime s = (nx, vac)" and later: "vac \<or> now < nx"
    and reach: "\<forall>u d. due s u = Some d \<longrightarrow> d < uint now + 2 ^ 32"
    and w: "w = nx - now" and some: "\<not> (\<forall>u. \<not> active s u)"
  shows "w \<noteq> 0" and "due s u = Some d \<Longrightarrow> uint now + uint w \<le> d"
    and "uint now + uint w = 2 ^ 32 \<or> (\<exists>u. due s u = Some (uint now + uint w))"
proof -
  note sk = timers_okD(1) [OF ok] and up = ok [unfolded timers_ok_def]
  have "w \<noteq> 0 \<and> (\<forall>u d. due s u = Some d \<longrightarrow> uint now + uint w \<le> d) \<and>
    (uint now + uint w = 2 ^ 32 \<or> (\<exists>u. due s u = Some (uint now + uint w)))"
  proof (cases "list_head (pxCurrentTimerList s) (tlists s)")
    case None
    with nxt have nx: "nx = 0" by (simp add: prvGetNextExpireTime_def)
    from None have e: "items (tlists s) (pxCurrentTimerList s) = []" by (simp add: list_head_def split: list.splits)
    have late: "2 ^ 32 \<le> d" if "due s u = Some d" for u d using due_current [OF sk, of u] e that by (auto simp: not_less [symmetric])
    obtain u where "active s u" using some by blast
    then obtain d where "due s u = Some d" using timers_okD(2) [OF ok, of u] due_none [of s u] by (cases "due s u") auto
    then have "0 < uint now" using late reach by fastforce
    then have nz: "now \<noteq> 0" by auto
    then have "uint w = 2 ^ 32 - uint now" unfolding w nx using uint_tick_bounds [of now]
      by (simp add: uint_word_ariths zmod_zminus1_eq_if uint_0_iff)
    then show ?thesis using late nz by (auto simp: w nx)
  next
    case (Some t)
    with nxt have nx: "nx = item_value (tlists s) t" "\<not> vac" by (simp_all add: prvGetNextExpireTime_def)
    with later have lt: "now < nx" by simp
    then have "uint w = uint nx - uint now" unfolding w using uint_sub_lem [of now nx] by (simp add: word_le_def word_less_def)
    moreover have "w \<noteq> 0" using lt by (auto simp: w)
    ultimately show ?thesis using head_due(1,3) [OF up Some] nx by auto
  qed
  then show "w \<noteq> 0" "due s u = Some d \<Longrightarrow> uint now + uint w \<le> d"
    "uint now + uint w = 2 ^ 32 \<or> (\<exists>u. due s u = Some (uint now + uint w))" by blast+
qed

text \<open>The task \<open>c\<close> waits on the queue \<open>h\<close>, for as long as no timer is due.\<close>

definition timer_asleep :: "task \<Rightarrow> queue_handle \<Rightarrow> timer_os \<Rightarrow> bool" where
  "timer_asleep c h s \<longleftrightarrow> event_list (tkern s) c = Some (ReceiveL h) \<and>
     (if \<forall>u. \<not> active s u then state_list (tkern s) c = Some SuspendedL
      else timed (tkern s) c \<and>
        (let wake = uint (xTickCount (tkern s)) + int (ticks_left (tkern s) c) in
         (\<forall>u d. due s u = Some d \<longrightarrow> wake \<le> d) \<and> (wake = 2 ^ 32 \<or> (\<exists>u. due s u = Some wake))))"

lemma block_task_sleeps:
  assumes ok: "timers_ok s" and inv: "os_inv (tos s)" and one: "uxSchedulerSuspended (tkern s) = 0"
    and cur: "pxCurrentTCB (tkern s) = Some c" and ni: "xIdleTaskHandle (tkern s) \<noteq> Some c"
    and h: "xTimerQueue s = Some h" and q: "queues (tos s) h = Some q" and c0: "contents q = []"
    and un: "cTxLock q = queueUNLOCKED" "cRxLock q = queueUNLOCKED"
    and nowrap: "\<not> xTickCount (tkern s) < xLastTime s" and nxt: "prvGetNextExpireTime s = (nx, vac)"
    and later: "vac \<or> xTickCount (tkern s) < nx"
    and reach: "\<forall>u d. due s u = Some d \<longrightarrow> d < uint (xTickCount (tkern s)) + 2 ^ 32"
  shows "ensures (prvProcessTimerOrBlockTask app no_interrupts nx vac s)
    (\<lambda>s'. timers_ok s' \<and> os_inv (tos s') \<and> timers s' = timers s \<and> due s' = due s \<and> timer_asleep c h s')"
proof -
  let ?now = "xTickCount (tkern s)"
  let ?s = "(set_tkern (vTaskSuspendAll (tkern s)) s)\<lparr>xLastTime := ?now\<rparr>"
  define indef where "indef = (if vac then list_empty (pxOverflowTimerList s) (tlists s) else vac)"
  define w where "w = nx - ?now"
  let ?Q = "\<lambda>s'. timers_ok s' \<and> os_inv (tos s') \<and> timers s' = timers s \<and> due s' = due s \<and> timer_asleep c h s'"
  have e: "vac \<longleftrightarrow> items (tlists s) (pxCurrentTimerList s) = []"
    using nxt by (auto simp: prvGetNextExpireTime_def list_head_def split: list.splits)
  have none: "indef \<longleftrightarrow> (\<forall>u. \<not> active s u)"
    using no_timer_in_lists [OF ok] by (auto simp: indef_def e)
  have wi: "w \<noteq> 0 \<or> indef"
    using sleep_length(1) [OF ok nxt later reach w_def] none by blast
  have "ensures (do { o2 \<leftarrow> vQueueWaitForMessageRestricted no_interrupts h w indef ((tos s)\<lparr>kern := vTaskSuspendAll (tkern s)\<rparr>);
    (k, y) \<leftarrow> xTaskResumeAll (kern o2);
    k \<leftarrow> (if \<not> y then portYIELD k else Some k);
    Some (o2\<lparr>kern := k\<rparr>) }) (\<lambda>o3. ?Q (?s\<lparr>tos := o3\<rparr>))"
  proof (rule wait_for_message [OF inv one cur ni q c0 un wi])
    fix k' assume k': "os_inv ((tos s)\<lparr>kern := k'\<rparr>)" "event_list k' c = Some (ReceiveL h)" "xTickCount k' = xTickCount (tkern s)"
      and sl: "if indef then state_list k' c = Some SuspendedL else timed k' c \<and> wake_time k' c = xTickCount k' + w"
    let ?t = "?s\<lparr>tos := (tos s)\<lparr>kern := k'\<rparr>\<rparr>"
    have f: "listed ?t = listed s" "active ?t = active s" "due ?t = due s"
      by (auto simp: listed_def active_def due_def fun_eq_iff split: option.split)
    have "schedule_ok ?t" using timers_okD(1) [OF ok] by (simp add: schedule_ok_def)
    then have ok': "timers_ok ?t" using ok unfolding timers_ok_def lifted_def f by simp
    have "timer_asleep c h ?t"
    proof (cases indef)
      case True
      then show ?thesis using none sl k'(2) unfolding timer_asleep_def f by simp
    next
      case False
      then have tl: "int (ticks_left k' c) = uint w" using sl by (simp add: ticks_left_def)
      have some: "\<not> (\<forall>u. \<not> active s u)" using False none by simp
      note sleep = sleep_length [OF ok nxt later reach w_def some]
      from False sl have "timed k' c" by simp
      then show ?thesis using some k'(2,3) tl sleep(2,3) unfolding timer_asleep_def f Let_def by auto
    qed
    with ok' k'(1) f show "?Q ?t" by simp
  qed
  moreover have "prvProcessTimerOrBlockTask app no_interrupts nx vac s = map_option (\<lambda>o3. ?s\<lparr>tos := o3\<rparr>)
    (do { o2 \<leftarrow> vQueueWaitForMessageRestricted no_interrupts h w indef ((tos s)\<lparr>kern := vTaskSuspendAll (tkern s)\<rparr>);
      (k, y) \<leftarrow> xTaskResumeAll (kern o2);
      k \<leftarrow> (if \<not> y then portYIELD k else Some k);
      Some (o2\<lparr>kern := k\<rparr>) })"
  proof -
    let ?k = "vTaskSuspendAll (tkern s)"
    have t: "xTickCount ?k = ?now" by (simp add: vTaskSuspendAll_def)
    have smp: "prvSampleTimeNow app (set_tkern ?k s) = Some (?s, ?now, False)"
      using sample_unwrapped [of "set_tkern ?k s" app] nowrap t by simp
    have n: "\<not> (\<not> vac \<and> nx \<le> ?now)" using later by auto
    show ?thesis
      unfolding prvProcessTimerOrBlockTask_def Let_def smp
      using n h by (cases vac) (auto simp: w_def indef_def case_prod_unfold bind_Some_map map_bind option.map_comp comp_def)
  qed
  ultimately show ?thesis by simp
qed

section \<open>The timer task fires\<close>

text \<open>
  A timer that was due at \<open>nx\<close> has been served: once if it is a one-shot timer, which is then out
  of the schedule, and otherwise once for every expiry that has come, the next one being ahead.
\<close>

definition fired :: "(timer_handle \<Rightarrow> (timer_handle \<Rightarrow> sw_timer option) \<Rightarrow> nat) \<Rightarrow> timer_handle \<Rightarrow> sw_timer \<Rightarrow>
    tick \<Rightarrow> tick \<Rightarrow> timer_os \<Rightarrow> timer_os \<Rightarrow> bool" where
  "fired calls t tm nx now s s' \<longleftrightarrow>
     (let p = unat (xTimerPeriodInTicks tm); e = unat (now - nx) in
      (\<forall>u. u \<noteq> t \<longrightarrow> due s' u = due s u) \<and>
      due s' t = (if is_autoreload tm then Some (uint now + int (p - e mod p)) else None) \<and>
      (\<forall>u. calls u (timers s') = calls u (timers s) + (if u = t then 1 + (if is_autoreload tm then e div p else 0) else 0)))"

lemma expired_fires:
  assumes app: "timer_application app P calls" and up: "lifted {} s" and hd: "list_head (pxCurrentTimerList s) (tlists s) = Some t"
    and P: "P (tos s)" and tm: "timers s t = Some tm"
  shows "ensures (prvProcessExpiredTimer app nx now s) (\<lambda>s'. timers_ok s' \<and> P (tos s') \<and> fired calls t tm nx now s s')"
  by (rule timer_application.process_expired_ensures [OF app up hd P tm refl refl])
    (simp add: timers_ok_def fired_def Let_def timer_application.called_def [OF app])

lemma block_task_fires:
  assumes app: "timer_application app os_inv calls" and ok: "timers_ok s" and inv: "os_inv (tos s)"
    and one: "uxSchedulerSuspended (tkern s) = 0" and nowrap: "\<not> xTickCount (tkern s) < xLastTime s"
    and hd: "list_head (pxCurrentTimerList s) (tlists s) = Some t" and nxt: "prvGetNextExpireTime s = (nx, vac)"
    and now: "nx \<le> xTickCount (tkern s)" and tm: "timers s t = Some tm"
  shows "ensures (prvProcessTimerOrBlockTask app env nx vac s)
    (\<lambda>s'. timers_ok s' \<and> os_inv (tos s') \<and> fired calls t tm nx (xTickCount (tkern s)) s s')"
proof -
  let ?now = "xTickCount (tkern s)" and ?k = "vTaskSuspendAll (tkern s)"
  let ?Q = "\<lambda>s'. timers_ok s' \<and> os_inv (tos s') \<and> fired calls t tm nx ?now s s'"
  have nx: "\<not> vac" using nxt hd by (simp add: prvGetNextExpireTime_def)
  note si = os_invD(1) [OF inv]
  let ?s = "\<lambda>k. s\<lparr>xLastTime := ?now, tos := (tos s)\<lparr>kern := k\<rparr>\<rparr>"
  have f: "listed (?s k) = listed s" "active (?s k) = active s" "due (?s k) = due s" for k
    by (auto simp: listed_def active_def due_def fun_eq_iff split: option.split)
  have "ensures (xTaskResumeAll ?k) (\<lambda>(k', y). sys_inv k' \<and> undisturbed ?k k')"
    by (rule resume_undisturbed [OF sys_inv_lock [OF si] _ nothing_put_off_suspend [OF si]]) (simp add: vTaskSuspendAll_def)
  then have "ensures (xTaskResumeAll ?k) (\<lambda>r. ensures (prvProcessExpiredTimer app nx ?now (?s (fst r))) ?Q)"
  proof (rule ensures_mono, unfold case_prod_unfold, elim conjE)
    fix r assume k: "sys_inv (fst r)" "undisturbed ?k (fst r)"
    let ?t = "?s (fst r)"
    have "schedule_ok ?t" using timers_okD(1) [OF ok] by (simp add: schedule_ok_def)
    then have up: "lifted {} ?t" using ok unfolding timers_ok_def lifted_def f by simp
    have "tcbs (fst r) = tcbs (tkern s)" using k(2) by (simp add: undisturbed_def vTaskSuspendAll_def)
    then have P: "os_inv (tos ?t)" using os_inv_kern [OF inv k(1)] by simp
    have hd': "list_head (pxCurrentTimerList ?t) (tlists ?t) = Some t" and tm': "timers ?t t = Some tm" using hd tm by simp_all
    have same: "fired calls t tm nx ?now ?t s' = fired calls t tm nx ?now s s'" for s' unfolding fired_def f by simp
    show "ensures (prvProcessExpiredTimer app nx ?now ?t) ?Q"
      using expired_fires [of app os_inv calls ?t t tm nx ?now, OF app up hd' P tm'] unfolding same .
  qed
  moreover have "prvSampleTimeNow app (set_tkern ?k s) = Some ((set_tkern ?k s)\<lparr>xLastTime := ?now\<rparr>, ?now, False)"
    using sample_unwrapped [of "set_tkern ?k s" app] nowrap by (simp add: vTaskSuspendAll_def)
  ultimately show ?thesis
    using nx now unfolding prvProcessTimerOrBlockTask_def Let_def by (simp add: case_prod_unfold)
qed

end
