(* ===== verification/Timer_Sends.thy ===== *)
theory Timer_Sends
  imports Timer_Commands Event_Groups
begin

text \<open>
  How commands get into the timer queue: from tasks, from interrupts, and the calls of
  event_groups.c that an interrupt leaves to the timer task.
\<close>

section \<open>Event groups from interrupts\<close>

text \<open>The function that is to be called is known by its address, a parameter.\<close>

definition xEventGroupSetBitsFromISR :: "nat \<Rightarrow> group_handle \<Rightarrow> tick \<Rightarrow> timer_os \<Rightarrow> (timer_os \<times> bool \<times> bool) option" where
  "xEventGroupSetBitsFromISR vEventGroupSetBitsCallback_address xEventGroup uxBitsToSet s =
     xTimerPendFunctionCallFromISR vEventGroupSetBitsCallback_address xEventGroup uxBitsToSet s"

definition xEventGroupClearBitsFromISR :: "nat \<Rightarrow> group_handle \<Rightarrow> tick \<Rightarrow> timer_os \<Rightarrow> (timer_os \<times> bool) option" where
  "xEventGroupClearBitsFromISR vEventGroupClearBitsCallback_address xEventGroup uxBitsToClear s =
     map_option (\<lambda>(s, xReturn, _). (s, xReturn))
       (xTimerPendFunctionCallFromISR vEventGroupClearBitsCallback_address xEventGroup uxBitsToClear s)"

section \<open>A message at the end of the queue\<close>

text \<open>There is room for one more message, and the queue is not locked.\<close>

definition has_room :: "queue_handle \<Rightarrow> os \<Rightarrow> bool" where
  "has_room h o1 \<longleftrightarrow> (\<exists>q. queues o1 h = Some q \<and> uxMessagesWaiting q < uxLength q \<and> cTxLock q = queueUNLOCKED)"

lemma room_queue:
  assumes "holds_messages h ms o1" and "has_room h o1" and "length b = sizeof_DaemonTaskMessage"
  obtains q where "os_inv o1" "queues o1 h = Some q" "pcHead q \<noteq> queueQUEUE_IS_MUTEX" "pxQueueSetContainer q = None"
    "uxItemSize q = sizeof_DaemonTaskMessage" "contents q = ms" "uxMessagesWaiting q < uxLength q" "cTxLock q = queueUNLOCKED"
    "can_send q (Some b) queueSEND_TO_BACK" "sent_bytes q (Some b) = b"
  using assms by (auto simp: holds_messages_def has_room_def can_send_def sent_bytes_def sizeof_DaemonTaskMessage_def)

lemma sent_holds:
  assumes "os_inv ((set_queue h q' o1)\<lparr>kern := k\<rparr>)" and "same_object q q'" and "contents q' = ms"
    and "pcHead q \<noteq> queueQUEUE_IS_MUTEX" "pxQueueSetContainer q = None" "uxItemSize q = sizeof_DaemonTaskMessage"
  shows "holds_messages h ms ((set_queue h q' o1)\<lparr>kern := k\<rparr>)"
  using assms same_object_fields [OF assms(2)] by (simp add: holds_messages_def)

lemma send_message:
  assumes h: "holds_messages h ms o1" and room: "has_room h o1" and l: "length b = sizeof_DaemonTaskMessage"
    and susp: "xTaskGetSchedulerState (kern o1) = taskSCHEDULER_SUSPENDED \<longrightarrow> w = 0"
  shows "ensures (xQueueGenericSend es h (Some b) w queueSEND_TO_BACK o1) (\<lambda>(o2, r). r = Some True \<and> holds_messages h (ms @ [b]) o2)"
proof -
  from room_queue [OF h room l] obtain q where inv: "os_inv o1" and q: "queues o1 h = Some q" and nm: "pcHead q \<noteq> queueQUEUE_IS_MUTEX"
    and set: "pxQueueSetContainer q = None" and sz: "uxItemSize q = sizeof_DaemonTaskMessage" and c: "contents q = ms"
    and r: "uxMessagesWaiting q < uxLength q" and can: "can_send q (Some b) queueSEND_TO_BACK" and sb: "sent_bytes q (Some b) = b" .
  let ?Q = "\<lambda>(o2, r). r = Some True \<and> holds_messages h (ms @ [b]) o2"
  have "ensures (xQueueGenericSend_try h (Some b) queueSEND_TO_BACK (None, w) o1)
    (\<lambda>(o2, r). r = Inl True \<and> holds_messages h (ms @ [b]) o2)"
    by (rule xQueueGenericSend_try_ensures [OF inv q nm set can disjI1 [OF r]])
      (use sent_holds [where h = h and q = q and ms = "ms @ [b]"] nm set sz c sb in simp)
  then obtain o2 where o2: "xQueueGenericSend_try h (Some b) queueSEND_TO_BACK (None, w) o1 = Some (o2, Inl True)"
    "holds_messages h (ms @ [b]) o2" by (auto simp: ensures_iff)
  then show ?thesis using q susp
    by (cases es) (auto simp: xQueueGenericSend_def xQueueGenericSend_enter_def)
qed

lemma send_message_isr:
  assumes h: "holds_messages h ms o1" and room: "has_room h o1" and l: "length b = sizeof_DaemonTaskMessage"
  shows "ensures (xQueueGenericSendFromISR h (Some b) queueSEND_TO_BACK o1) (\<lambda>(o2, ok, _). ok \<and> holds_messages h (ms @ [b]) o2)"
proof -
  from room_queue [OF h room l] obtain q where inv: "os_inv o1" and q: "queues o1 h = Some q" and nm: "pcHead q \<noteq> queueQUEUE_IS_MUTEX"
    and set: "pxQueueSetContainer q = None" and sz: "uxItemSize q = sizeof_DaemonTaskMessage" and c: "contents q = ms"
    and r: "uxMessagesWaiting q < uxLength q" and un: "cTxLock q = queueUNLOCKED"
    and can: "can_send q (Some b) queueSEND_TO_BACK" and sb: "sent_bytes q (Some b) = b" .
  have "ensures (prvCopyDataToQueue h (Some b) queueSEND_TO_BACK o1) (\<lambda>(s1, _). ensures (wake_waiter (ReceiveL h) s1)
      (\<lambda>(o2, _). holds_messages h (ms @ [b]) o2))"
  proof (rule prvCopyDataToQueue_ensures [OF q os_invD(2) [OF inv q] nm can disjI1 [OF r]], unfold prod.case)
    fix q' assume q': "same_object q q'" "queue_ok q'" "contents q' = put_item queueSEND_TO_BACK (sent_bytes q (Some b)) (contents q)"
    let ?s = "set_queue h q' o1"
    have inv': "os_inv ?s" by (rule os_inv_set_queue [OF inv q q'(2)]) (use same_object_fields [OF q'(1)] in simp_all)
    show "ensures (wake_waiter (ReceiveL h) ?s) (\<lambda>(o2, _). holds_messages h (ms @ [b]) o2)"
    proof (rule wake_waiter_ensures, use os_invD(1) [OF inv] in simp, simp, simp, unfold prod.case)
      fix k' assume k': "sys_inv k'" "served (ReceiveL h) (kern ?s) k'"
      have "os_inv (?s\<lparr>kern := k'\<rparr>)" by (rule os_inv_kern [OF inv' k'(1)]) (simp add: served_frame(1) [OF k'(2)])
      then show "holds_messages h (ms @ [b]) (?s\<lparr>kern := k'\<rparr>)"
        using sent_holds [OF _ q'(1)] q'(3) nm set sz c sb by simp
    qed
  qed
  then show ?thesis
    using q r un set by (auto simp: xQueueGenericSendFromISR_def Let_def case_prod_unfold elim!: ensures_mono)
qed

section \<open>Commands and calls\<close>

text \<open>Only the system behind the timers has changed, and the message is the last in the queue.\<close>

definition queued :: "queue_handle \<Rightarrow> byte list list \<Rightarrow> daemon_message \<Rightarrow> timer_os \<Rightarrow> timer_os \<Rightarrow> bool" where
  "queued h ms m s s' \<longleftrightarrow> s' = s\<lparr>tos := tos s'\<rparr> \<and>
     (\<exists>b. holds_messages h (ms @ [b]) (tos s') \<and> message_of_bytes b = m)"

lemma queuedI:
  assumes "sound_message m" and "holds_messages h (ms @ [message_bytes m]) o1" shows "queued h ms m s (s\<lparr>tos := o1\<rparr>)"
  using assms message_round(1) [OF assms(1)] by (auto simp: queued_def)

lemma command_from_task:
  assumes q: "xTimerQueue s = Some h" and h: "holds_messages h ms (tos s)" and room: "has_room h (tos s)"
    and i: "0 \<le> i" "i < tmrFIRST_FROM_ISR_COMMAND" and t: "t < 2 ^ 64"
  shows "ensures (xTimerGenericCommandFromTask es Some (Some t) i v w s)
    (\<lambda>(s', r). r = Some True \<and> queued h ms (TimerMessage i v t) s s')"
proof -
  have sound: "sound_message (TimerMessage i v t)" using i t by (simp add: tmrFIRST_FROM_ISR_COMMAND_def)
  let ?w = "if xTaskGetSchedulerState (tkern s) = taskSCHEDULER_RUNNING then w else tmrNO_DELAY"
  have "xTaskGetSchedulerState (tkern s) = taskSCHEDULER_SUSPENDED \<longrightarrow> ?w = 0"
    by (simp add: tmrNO_DELAY_def)
  note send = send_message [OF h room message_round(2) [OF sound] this, of es]
  show ?thesis
    using send q i
    by (auto simp: xTimerGenericCommandFromTask_def Let_def case_prod_unfold intro!: queuedI [OF sound] elim!: ensures_mono)
qed

lemma command_from_isr:
  assumes q: "xTimerQueue s = Some h" and h: "holds_messages h ms (tos s)" and room: "has_room h (tos s)"
    and i: "tmrFIRST_FROM_ISR_COMMAND \<le> i" "i < 2 ^ 63" and t: "t < 2 ^ 64"
  shows "ensures (xTimerGenericCommandFromISR (Some t) i v s) (\<lambda>(s', ok, _). ok \<and> queued h ms (TimerMessage i v t) s s')"
proof -
  have sound: "sound_message (TimerMessage i v t)" using i t by (simp add: tmrFIRST_FROM_ISR_COMMAND_def)
  show ?thesis
    using send_message_isr [OF h room message_round(2) [OF sound]] q i
    by (auto simp: xTimerGenericCommandFromISR_def Let_def case_prod_unfold intro!: queuedI [OF sound] elim!: ensures_mono)
qed

lemma pend_from_isr:
  assumes q: "xTimerQueue s = Some h" and h: "holds_messages h ms (tos s)" and room: "has_room h (tos s)"
    and a: "f < 2 ^ 64" "p < 2 ^ 64"
  shows "ensures (xTimerPendFunctionCallFromISR f p v s)
    (\<lambda>(s', ok, _). ok \<and> queued h ms (CallbackMessage tmrCOMMAND_EXECUTE_CALLBACK_FROM_ISR f p v) s s')"
proof -
  have sound: "sound_message (CallbackMessage tmrCOMMAND_EXECUTE_CALLBACK_FROM_ISR f p v)"
    using a by (simp add: tmrCOMMAND_EXECUTE_CALLBACK_FROM_ISR_def)
  show ?thesis
    using send_message_isr [OF h room message_round(2) [OF sound]] q
    by (auto simp: xTimerPendFunctionCallFromISR_def Let_def case_prod_unfold intro!: queuedI [OF sound] elim!: ensures_mono)
qed

end
