(* ===== verification/Timer_Example.thy ===== *)
theory Timer_Example
  imports Timer_Start Timer_Wait Timer_Sends Queue_Example
begin

text \<open>
  An application that counts the expiries of each timer in the timer's identifier, and a small
  system of timers, to instantiate the theorems on.
\<close>

section \<open>An application that counts\<close>

text \<open>The usual example of an identifier: the callback reads it, adds one and stores it again.\<close>

definition counting_app :: application where
  "counting_app = \<lparr>call_timer = (\<lambda>_ t s. do { n \<leftarrow> pvTimerGetTimerID t s; vTimerSetTimerID t (n + 1) s }),
     call_pended = (\<lambda>_ _ _ s. Some s)\<rparr>"

definition expiry_count :: "timer_handle \<Rightarrow> (timer_handle \<Rightarrow> sw_timer option) \<Rightarrow> nat" where
  "expiry_count t T = (case T t of None \<Rightarrow> 0 | Some tm \<Rightarrow> pvTimerID tm)"

interpretation counting: timer_application counting_app P expiry_count for P
proof unfold_locales
  fix s :: timer_os and t tm assume t: "timers s t = Some tm" and P: "P (tos s)"
  have "undisturbing s (set_timer t (tm\<lparr>pvTimerID := pvTimerID tm + 1\<rparr>) s)"
    using t by (auto simp: undisturbing_def is_active_def)
  then show "ensures (call_timer counting_app (pxCallbackFunction tm) t s) (\<lambda>s'. undisturbing s s' \<and> P (tos s') \<and>
    (\<forall>u. expiry_count u (timers s') = expiry_count u (timers s) + (if u = t then 1 else 0)))"
    using t P by (simp add: counting_app_def pvTimerGetTimerID_def vTimerSetTimerID_def expiry_count_def)
qed (auto simp: counting_app_def expiry_count_def split: option.splits)

lemma counting_keeps_modes: "keeps_reload_modes counting_app P"
proof -
  have "modes_kept s (set_timer t (tm\<lparr>pvTimerID := n\<rparr>) s)" if "timers s t = Some tm" for s t tm n
    using that by (auto simp: modes_kept_def is_autoreload_def)
  then show ?thesis
    by (auto simp: keeps_reload_modes_def counting_app_def pvTimerGetTimerID_def vTimerSetTimerID_def)
qed

section \<open>A small system\<close>

text \<open>
  At tick 3: timer 11 has a period of 10 ticks, reloads itself and expires at tick \<open>v\<close>; timer 12 is
  a one-shot timer that expires two ticks after the next wrap; timer 13 is not active, and its
  memory is static. The timer queue is queue 7, with \<open>n\<close> messages in \<open>mem\<close>.
\<close>

definition demo_timer :: "tick \<Rightarrow> byte \<Rightarrow> sw_timer" where
  "demo_timer p b = \<lparr>pcTimerName = None, xTimerPeriodInTicks = p, pvTimerID = 0, pxCallbackFunction = 0, uxTimerNumber = 0, ucStatus = b\<rparr>"

definition demo_timer_queue :: "byte list \<Rightarrow> nat \<Rightarrow> os" where
  "demo_timer_queue mem n = demo_os\<lparr>queues := (queues demo_os)(7 \<mapsto> demo_queue 32 mem n)\<rparr>"

definition demo_timers :: "tick \<Rightarrow> tick \<Rightarrow> byte list \<Rightarrow> nat \<Rightarrow> timer_os" where
  "demo_timers v w0 mem n = \<lparr>tos = demo_timer_queue mem n,
     timers = (\<lambda>_. None)(11 \<mapsto> demo_timer 10 5, 12 \<mapsto> demo_timer (- 1) 1, 13 \<mapsto> demo_timer 4 2),
     tlists = \<lparr>items = (\<lambda>_. [])(ActiveTimerList1 := [11], ActiveTimerList2 := [12]), cursor = (\<lambda>_. None),
       item_value = (\<lambda>_. 0)(11 := v, 12 := 2),
       container = (\<lambda>_. None)(11 \<mapsto> ActiveTimerList1, 12 \<mapsto> ActiveTimerList2)\<rparr>,
     pxCurrentTimerList = ActiveTimerList1, pxOverflowTimerList = ActiveTimerList2,
     xTimerQueue = Some 7, xTimerTaskHandle = Some 1, xLastTime = w0\<rparr>"

lemma demo_timers_fields [simp]:
  "tos (demo_timers v w0 mem n) = demo_timer_queue mem n"
  "timers (demo_timers v w0 mem n) = (\<lambda>_. None)(11 \<mapsto> demo_timer 10 5, 12 \<mapsto> demo_timer (- 1) 1, 13 \<mapsto> demo_timer 4 2)"
  "xTimerQueue (demo_timers v w0 mem n) = Some 7" "xLastTime (demo_timers v w0 mem n) = w0"
  "pxCurrentTimerList (demo_timers v w0 mem n) = ActiveTimerList1"
  "list_head ActiveTimerList1 (tlists (demo_timers v w0 mem n)) = Some 11"
  "kern (demo_timer_queue mem n) = demo" "queues (demo_timer_queue mem n) 7 = Some (demo_queue 32 mem n)"
  "xTimerPeriodInTicks (demo_timer p b) = p" "ucStatus (demo_timer p b) = b"
  "pvTimerID (demo_timer p b) = 0"
  by (simp_all add: demo_timers_def demo_timer_queue_def demo_timer_def list_head_def)

lemma demo_status [simp]:
  "is_active (demo_timer p 5)" "is_active (demo_timer p 1)" "\<not> is_active (demo_timer p 2)"
  "is_autoreload (demo_timer p 5)" "\<not> is_autoreload (demo_timer p 1)" "\<not> is_autoreload (demo_timer p 2)"
  by (simp_all add: is_active_def is_autoreload_def tmrSTATUS_IS_ACTIVE_def tmrSTATUS_IS_AUTORELOAD_def)

lemma demo_due [simp]:
  "due (demo_timers v w0 mem n) = (\<lambda>_. None)(11 \<mapsto> uint v, 12 \<mapsto> 2 ^ 32 + 2)"
  by (auto simp: due_def demo_timers_def fun_eq_iff)

lemma demo_timers_ok: "timers_ok (demo_timers v w0 mem n)"
proof -
  let ?s = "demo_timers v w0 mem n"
  have "lists_wf (tlists ?s)" by (auto simp: lists_wf_def demo_timers_def split: if_splits)
  then have "schedule_ok ?s"
    by (auto simp: schedule_ok_def demo_timers_def demo_timer_def word_greater_zero_iff split: if_splits)
  moreover have "listed ?s u = active ?s u" for u
    using due_none [of ?s u] by (auto simp: active_def)
  ultimately show ?thesis by (simp add: timers_ok_def lifted_def)
qed

lemma demo_timers_lifted: "lifted {13} (demo_timers v w0 mem n)"
proof -
  let ?s = "demo_timers v w0 mem n"
  have "\<not> listed ?s 13" using due_none [of ?s 13] by simp
  then show ?thesis using demo_timers_ok [of v w0 mem n] by (simp add: timers_ok_def lifted_def)
qed

lemma demo_timer_queue_inv:
  assumes "length mem = m * 32" and "0 < m" and "n = 0 \<or> n = m" shows "os_inv (demo_timer_queue mem n)"
proof -
  have "queue_ok q" if "queues (demo_timer_queue mem n) h = Some q" for h q
    using that os_invD(2) [OF demo_os_inv, of h q] demo_queue_ok [of 32 mem m n] assms
    by (auto simp: demo_timer_queue_def split: if_splits)
  moreover have "mutexes_of (demo_timer_queue mem n) t = mutexes_of demo_os t" for t
    by (auto simp: mutexes_of_def demo_timer_queue_def)
  ultimately show ?thesis using demo_os_inv by (simp add: os_inv_def owners_ok_def)
qed

text \<open>Before the start: no queue and no timer, and nothing in the lists.\<close>

definition demo_unstarted :: "kernel \<Rightarrow> timer_os" where
  "demo_unstarted k = \<lparr>tos = demo_os\<lparr>kern := k, queues := (\<lambda>_. None)\<rparr>, timers = (\<lambda>_. None),
     tlists = \<lparr>items = (\<lambda>_. []), cursor = (\<lambda>_. None), item_value = (\<lambda>_. 0), container = (\<lambda>_. None)\<rparr>,
     pxCurrentTimerList = ActiveTimerList1, pxOverflowTimerList = ActiveTimerList1,
     xTimerQueue = None, xTimerTaskHandle = None, xLastTime = 0\<rparr>"

lemma demo_unstarted_boot: "boot_inv k \<Longrightarrow> boot_timers (demo_unstarted k)" "tkern (demo_unstarted k) = k"
  "xTimerQueue (demo_unstarted k) = None"
  by (simp_all add: boot_timers_def boot_os_def demo_unstarted_def listed_def)

text \<open>A full queue has its messages in the order in which they are stored.\<close>

lemma demo_contents:
  assumes "length mem = n * 32" and "0 < n" shows "contents (demo_queue 32 mem n) = map (block 32 mem) [0..<n]"
proof -
  have "read_index (demo_queue 32 mem n) = n - 1"
    by (rule read_index_eq) (use assms in \<open>simp_all add: demo_queue_def of_nat_diff diff_mult_distrib\<close>)
  then show ?thesis using assms by (auto simp: contents_def item_at_def)
qed

lemma demo_contents_empty: "contents (demo_queue 32 mem 0) = []"
  by (simp add: contents_def)

end
