(* ===== verification/List_C.thy ===== *)
theory List_C
  imports List_Spec
begin

text \<open>
  list.c of the kernel, statement by statement: circular doubly linked lists threaded
  through the items, with the end marker \<open>xListEnd\<close> of the header as a node of the ring.
  The heap gives every node its \<open>pxNext\<close>, \<open>pxPrevious\<close> and \<open>xItemValue\<close>, every item its
  \<open>pxContainer\<close> and every header its \<open>uxNumberOfItems\<close> and \<open>pxIndex\<close>. The owner of an item
  is the object the item is named after, so \<open>pvOwner\<close> is the item itself.

  \<open>repr h L\<close> says that heap \<open>h\<close> is the store \<open>L\<close> of theory List_Spec. Every operation
  of list.c is shown to carry \<open>repr\<close> over to the operation of List_Spec of the same purpose.
\<close>

datatype ('l, 'i) node = Mark 'l | Item 'i

record ('l, 'i) heap =
  xItemValue :: "('l, 'i) node \<Rightarrow> tick"
  pxNext :: "('l, 'i) node \<Rightarrow> ('l, 'i) node"
  pxPrevious :: "('l, 'i) node \<Rightarrow> ('l, 'i) node"
  pxContainer :: "'i \<Rightarrow> 'l option"
  uxNumberOfItems :: "'l \<Rightarrow> nat"
  pxIndex :: "'l \<Rightarrow> ('l, 'i) node"

section \<open>The code\<close>

definition vListInitialise :: "'l \<Rightarrow> ('l, 'i) heap \<Rightarrow> ('l, 'i) heap" where
  "vListInitialise l h =
    (let h = h\<lparr>pxIndex := (pxIndex h)(l := Mark l)\<rparr>;
         h = h\<lparr>xItemValue := (xItemValue h)(Mark l := portMAX_DELAY)\<rparr>;
         h = h\<lparr>pxNext := (pxNext h)(Mark l := Mark l)\<rparr>;
         h = h\<lparr>pxPrevious := (pxPrevious h)(Mark l := Mark l)\<rparr>
     in h\<lparr>uxNumberOfItems := (uxNumberOfItems h)(l := 0)\<rparr>)"

definition vListInitialiseItem :: "'i \<Rightarrow> ('l, 'i) heap \<Rightarrow> ('l, 'i) heap" where
  "vListInitialiseItem i h = h\<lparr>pxContainer := (pxContainer h)(i := None)\<rparr>"

definition vListInsertEnd :: "'l \<Rightarrow> 'i \<Rightarrow> ('l, 'i) heap \<Rightarrow> ('l, 'i) heap" where
  "vListInsertEnd l i h =
    (let index = pxIndex h l;
         h = h\<lparr>pxNext := (pxNext h)(Item i := index)\<rparr>;
         h = h\<lparr>pxPrevious := (pxPrevious h)(Item i := pxPrevious h index)\<rparr>;
         h = h\<lparr>pxNext := (pxNext h)(pxPrevious h index := Item i)\<rparr>;
         h = h\<lparr>pxPrevious := (pxPrevious h)(index := Item i)\<rparr>;
         h = h\<lparr>pxContainer := (pxContainer h)(i \<mapsto> l)\<rparr>
     in h\<lparr>uxNumberOfItems := (uxNumberOfItems h)(l := uxNumberOfItems h l + 1)\<rparr>)"

text \<open>The search loop of \<open>vListInsert\<close>; it need not end on a heap that is not a ring.\<close>

partial_function (option) vListInsert_iter ::
  "('l, 'i) heap \<Rightarrow> tick \<Rightarrow> ('l, 'i) node \<Rightarrow> ('l, 'i) node option" where
  "vListInsert_iter h v it =
     (if xItemValue h (pxNext h it) \<le> v then vListInsert_iter h v (pxNext h it) else Some it)"

definition vListInsert :: "'l \<Rightarrow> 'i \<Rightarrow> ('l, 'i) heap \<Rightarrow> ('l, 'i) heap option" where
  "vListInsert l i h =
    (let v = xItemValue h (Item i) in do {
       it \<leftarrow> (if v = portMAX_DELAY then Some (pxPrevious h (Mark l))
             else vListInsert_iter h v (Mark l));
       Some (let h = h\<lparr>pxNext := (pxNext h)(Item i := pxNext h it)\<rparr>;
                 h = h\<lparr>pxPrevious := (pxPrevious h)(pxNext h (Item i) := Item i)\<rparr>;
                 h = h\<lparr>pxPrevious := (pxPrevious h)(Item i := it)\<rparr>;
                 h = h\<lparr>pxNext := (pxNext h)(it := Item i)\<rparr>;
                 h = h\<lparr>pxContainer := (pxContainer h)(i \<mapsto> l)\<rparr>
             in h\<lparr>uxNumberOfItems := (uxNumberOfItems h)(l := uxNumberOfItems h l + 1)\<rparr>)
     })"

definition uxListRemove :: "'i \<Rightarrow> ('l, 'i) heap \<Rightarrow> (('l, 'i) heap \<times> nat) option" where
  "uxListRemove i h = (case pxContainer h i of None \<Rightarrow> None | Some l \<Rightarrow>
    (let h = h\<lparr>pxPrevious := (pxPrevious h)(pxNext h (Item i) := pxPrevious h (Item i))\<rparr>;
         h = h\<lparr>pxNext := (pxNext h)(pxPrevious h (Item i) := pxNext h (Item i))\<rparr>;
         h = (if pxIndex h l = Item i
              then h\<lparr>pxIndex := (pxIndex h)(l := pxPrevious h (Item i))\<rparr> else h);
         h = h\<lparr>pxContainer := (pxContainer h)(i := None)\<rparr>;
         h = h\<lparr>uxNumberOfItems := (uxNumberOfItems h)(l := uxNumberOfItems h l - 1)\<rparr>
     in Some (h, uxNumberOfItems h l)))"

definition listGET_OWNER_OF_NEXT_ENTRY :: "'l \<Rightarrow> ('l, 'i) heap \<Rightarrow> (('l, 'i) heap \<times> 'i) option" where
  "listGET_OWNER_OF_NEXT_ENTRY l h =
    (let h = h\<lparr>pxIndex := (pxIndex h)(l := pxNext h (pxIndex h l))\<rparr>;
         h = (if pxIndex h l = Mark l then h\<lparr>pxIndex := (pxIndex h)(l := pxNext h (Mark l))\<rparr> else h)
     in case pxIndex h l of Mark _ \<Rightarrow> None | Item i \<Rightarrow> Some (h, i))"

section \<open>Rings\<close>

text \<open>\<open>path f a xs b\<close>: following \<open>f\<close> from \<open>a\<close> meets exactly the nodes \<open>xs\<close> and then \<open>b\<close>.\<close>

fun path :: "('n \<Rightarrow> 'n) \<Rightarrow> 'n \<Rightarrow> 'n list \<Rightarrow> 'n \<Rightarrow> bool" where
  "path f a [] b \<longleftrightarrow> f a = b"
| "path f a (x # xs) b \<longleftrightarrow> f a = x \<and> path f x xs b"

lemma path_append_Cons: "path f a (xs @ y # ys) b \<longleftrightarrow> path f a xs y \<and> path f y ys b"
  by (induction xs arbitrary: a) auto

lemma path_upd [simp]: "x \<noteq> a \<Longrightarrow> x \<notin> set xs \<Longrightarrow> path (f(x := v)) a xs b = path f a xs b"
  by (induction xs arbitrary: a) auto

lemma path_next: "path f a (xs @ ys) b \<Longrightarrow> f (last (a # xs)) = hd (ys @ [b])"
  by (induction xs arbitrary: a) (cases ys; auto)+

lemma path_cong: "(\<And>n. n \<in> set (a # xs) \<Longrightarrow> f n = g n) \<Longrightarrow> path f a xs b = path g a xs b"
  by (induction xs arbitrary: a) auto

text \<open>
  A path through \<open>xs @ ys\<close> is a path to the first node of \<open>ys @ [b]\<close> and one from there on.
\<close>

lemma path_join:
  "path f a (xs @ y # ys) b \<longleftrightarrow> path f a xs y \<and> path f y ys b"
  "path f a (xs @ []) b \<longleftrightarrow> path f a xs b"
  by (simp_all add: path_append_Cons)

lemma path_last:
  "path f a xs b \<Longrightarrow> distinct (a # xs) \<Longrightarrow> path (f(last (a # xs) := c)) a xs c"
proof (induction xs arbitrary: a)
  case Nil
  then show ?case by simp
next
  case (Cons x xs)
  then have "last (x # xs) \<noteq> a" by (metis distinct.simps(2) last_in_set list.distinct(1))
  with Cons show ?case by simp
qed

lemma path_insert:
  assumes p: "path f a (xs @ ys) b" and d: "distinct (a # xs @ ys)"
    and i: "i \<notin> set (a # xs @ ys)"
  shows "path (f(i := hd (ys @ [b]), last (a # xs) := i)) a (xs @ i # ys) b"
proof -
  let ?c = "hd (ys @ [b])" and ?g = "f(i := hd (ys @ [b]), last (a # xs) := i)"
  have l: "last (a # xs) \<in> set (a # xs)" by (rule last_in_set) simp
  have "path f a xs ?c" using p by (cases ys) (auto simp: path_append_Cons)
  then have "path (f(last (a # xs) := i)) a xs i" by (rule path_last) (use d in auto)
  then have left: "path ?g a xs i"
    by (rule path_cong [THEN iffD1, rotated]) (use i in auto)
  have right: "path ?g i ys b"
  proof (cases ys)
    case Nil
    with i l show ?thesis by auto
  next
    case (Cons y ys')
    then have "path f y ys' b" using p by (simp add: path_append_Cons)
    then have "path ?g y ys' b"
      by (rule path_cong [THEN iffD1, rotated]) (use d i l Cons in auto)
    moreover have "?g i = y" using i l Cons by auto
    ultimately show ?thesis using Cons by simp
  qed
  from left right show ?thesis by (simp add: path_append_Cons)
qed

lemma path_remove:
  assumes p: "path f a (xs @ i # ys) b" and d: "distinct (a # xs @ i # ys)"
  shows "path (f(last (a # xs) := f i)) a (xs @ ys) b"
proof -
  let ?g = "f(last (a # xs) := f i)"
  have l: "last (a # xs) \<in> set (a # xs)" by (rule last_in_set) simp
  have "path f a xs i" and q: "path f i ys b" using p by (simp_all add: path_append_Cons)
  then have left: "path ?g a xs (f i)" by (intro path_last) (use d in auto)
  show ?thesis
  proof (cases ys)
    case Nil
    with left q show ?thesis by simp
  next
    case (Cons y ys')
    then have y: "f i = y" and r: "path f y ys' b" using q by simp_all
    from r have "path ?g y ys' b"
      by (rule path_cong [THEN iffD1, rotated]) (use d l Cons in auto)
    with left y Cons show ?thesis by (simp add: path_append_Cons)
  qed
qed

definition ring :: "('l, 'i) heap \<Rightarrow> 'l \<Rightarrow> 'i list \<Rightarrow> bool" where
  "ring h l xs \<longleftrightarrow>
     path (pxNext h) (Mark l) (map Item xs) (Mark l) \<and>
     path (pxPrevious h) (Mark l) (rev (map Item xs)) (Mark l) \<and>
     uxNumberOfItems h l = length xs"

fun node_of :: "'l \<Rightarrow> 'i option \<Rightarrow> ('l, 'i) node" where
  "node_of l None = Mark l"
| "node_of l (Some i) = Item i"

definition repr :: "('l, 'i) heap \<Rightarrow> ('l, 'i) lists \<Rightarrow> bool" where
  "repr h L \<longleftrightarrow> lists_wf L \<and>
     (\<forall>l. ring h l (items L l)) \<and>
     (\<forall>l. pxIndex h l = node_of l (cursor L l)) \<and>
     (\<forall>l. xItemValue h (Mark l) = portMAX_DELAY) \<and>
     (\<forall>i. xItemValue h (Item i) = item_value L i) \<and>
     pxContainer h = container L"

lemma repr_wf: "repr h L \<Longrightarrow> lists_wf L"
  by (simp add: repr_def)

lemma repr_ring: "repr h L \<Longrightarrow> ring h l (items L l)"
  by (simp add: repr_def)

lemma repr_index: "repr h L \<Longrightarrow> pxIndex h l = node_of l (cursor L l)"
  by (simp add: repr_def)

lemma repr_container: "repr h L \<Longrightarrow> pxContainer h = container L"
  by (simp add: repr_def)

definition prev_node :: "'l \<Rightarrow> 'i list \<Rightarrow> ('l, 'i) node" where
  "prev_node l xs = last (Mark l # map Item xs)"

definition succ_node :: "'l \<Rightarrow> 'i list \<Rightarrow> ('l, 'i) node" where
  "succ_node l ys = hd (map Item ys @ [Mark l])"

lemma succ_node_simps [simp]: "succ_node l [] = Mark l" "succ_node l (y # ys) = Item y"
  by (simp_all add: succ_node_def)

lemma prev_node_simps [simp]: "prev_node l [] = Mark l" "prev_node l (xs @ [x]) = Item x"
  by (simp_all add: prev_node_def)

lemma ring_next: "ring h l (xs @ ys) \<Longrightarrow> pxNext h (prev_node l xs) = succ_node l ys"
  using path_next [of "pxNext h" "Mark l" "map Item xs" "map Item ys" "Mark l"]
  by (simp add: ring_def prev_node_def succ_node_def)

lemma last_rev_node: "last (Mark l # rev (map Item ys)) = succ_node l ys"
  by (cases ys) auto

lemma hd_rev_node: "hd (rev (map Item xs) @ [Mark l]) = prev_node l xs"
  by (cases xs rule: rev_cases) auto

lemma ring_prev: "ring h l (xs @ ys) \<Longrightarrow> pxPrevious h (succ_node l ys) = prev_node l xs"
  using path_next [of "pxPrevious h" "Mark l" "rev (map Item ys)" "rev (map Item xs)" "Mark l"]
  unfolding last_rev_node hd_rev_node by (simp add: ring_def)

lemma prev_node_cases: "prev_node l xs = Mark l \<or> (\<exists>x \<in> set xs. prev_node l xs = Item x)"
  by (cases xs rule: rev_cases) auto

lemma succ_node_cases: "succ_node l ys = Mark l \<or> (\<exists>y \<in> set ys. succ_node l ys = Item y)"
  by (cases ys) auto

lemma ring_insert:
  assumes "ring h l (xs @ ys)" and "distinct (xs @ ys)" and "i \<notin> set (xs @ ys)"
    and "pxNext h' = (pxNext h)(Item i := succ_node l ys, prev_node l xs := Item i)"
    and "pxPrevious h' = (pxPrevious h)(Item i := prev_node l xs, succ_node l ys := Item i)"
    and "uxNumberOfItems h' l = uxNumberOfItems h l + 1"
  shows "ring h' l (xs @ i # ys)"
proof -
  have dist: "distinct (Mark l # map Item xs @ map Item ys)"
    and notin: "Item i \<notin> set (Mark l # map Item xs @ map Item ys)"
    using assms(2,3) by (auto simp: distinct_map inj_on_def)
  have n: "path (pxNext h) (Mark l) (map Item xs @ map Item ys) (Mark l)"
    and p: "path (pxPrevious h) (Mark l) (rev (map Item ys) @ rev (map Item xs)) (Mark l)"
    using assms(1) by (simp_all add: ring_def)
  have "path (pxNext h') (Mark l) (map Item xs @ Item i # map Item ys) (Mark l)"
    unfolding assms(4) prev_node_def succ_node_def using path_insert [OF n dist notin] by simp
  moreover have "path (pxPrevious h') (Mark l) (rev (map Item ys) @ Item i # rev (map Item xs)) (Mark l)"
    unfolding assms(5) last_rev_node [symmetric] hd_rev_node [symmetric]
    by (rule path_insert [OF p]) (use dist notin in auto)
  ultimately show ?thesis using assms(1,6) by (simp add: ring_def)
qed

lemma ring_remove:
  assumes "ring h l (xs @ i # ys)" and "distinct (xs @ i # ys)"
    and "pxNext h' = (pxNext h)(prev_node l xs := pxNext h (Item i))"
    and "pxPrevious h' = (pxPrevious h)(succ_node l ys := pxPrevious h (Item i))"
    and "uxNumberOfItems h' l = uxNumberOfItems h l - 1"
  shows "ring h' l (xs @ ys)"
proof -
  have dist: "distinct (Mark l # map Item xs @ Item i # map Item ys)"
    using assms(2) by (auto simp: distinct_map inj_on_def)
  have n: "path (pxNext h) (Mark l) (map Item xs @ Item i # map Item ys) (Mark l)"
    and p: "path (pxPrevious h) (Mark l) (rev (map Item ys) @ Item i # rev (map Item xs)) (Mark l)"
    using assms(1) by (simp_all add: ring_def)
  have "path (pxNext h') (Mark l) (map Item xs @ map Item ys) (Mark l)"
    unfolding assms(3) prev_node_def using path_remove [OF n dist] by simp
  moreover have "path (pxPrevious h') (Mark l) (rev (map Item ys) @ rev (map Item xs)) (Mark l)"
    unfolding assms(4) last_rev_node [symmetric]
    by (rule path_remove [OF p]) (use dist in auto)
  ultimately show ?thesis using assms(1,5) by (simp add: ring_def)
qed

text \<open>A ring only depends on the nodes it consists of.\<close>

lemma ring_frame:
  assumes "ring h l xs" and "uxNumberOfItems h' l = uxNumberOfItems h l"
    and "\<And>n. n = Mark l \<or> n \<in> Item ` set xs \<Longrightarrow> pxNext h' n = pxNext h n \<and> pxPrevious h' n = pxPrevious h n"
  shows "ring h' l xs"
proof -
  have "path (pxNext h') (Mark l) (map Item xs) (Mark l) = path (pxNext h) (Mark l) (map Item xs) (Mark l)"
    using assms(3) by (intro path_cong) auto
  moreover have "path (pxPrevious h') (Mark l) (rev (map Item xs)) (Mark l)
      = path (pxPrevious h) (Mark l) (rev (map Item xs)) (Mark l)"
    using assms(3) by (intro path_cong) auto
  ultimately show ?thesis using assms(1,2) by (simp add: ring_def)
qed

section \<open>list.c implements the contract\<close>

text \<open>Every other ring of the store is untouched, because an item is in one list only.\<close>

lemma repr_other_ring:
  assumes "repr h L" and "l' \<noteq> l"
    and "uxNumberOfItems h' l' = uxNumberOfItems h l'"
    and "\<And>n. n \<noteq> Item i \<Longrightarrow> n \<noteq> Mark l \<Longrightarrow> n \<notin> Item ` set (items L l) \<Longrightarrow>
           pxNext h' n = pxNext h n \<and> pxPrevious h' n = pxPrevious h n"
    and "i \<notin> set (items L l')"
  shows "ring h' l' (items L l')"
proof (rule ring_frame [OF repr_ring [OF assms(1)] assms(3)])
  fix n assume n: "n = Mark l' \<or> n \<in> Item ` set (items L l')"
  have "set (items L l') \<inter> set (items L l) = {}"
    using lists_wf_unique [OF repr_wf [OF assms(1)]] assms(2) by blast
  with n assms(2,5) show "pxNext h' n = pxNext h n \<and> pxPrevious h' n = pxPrevious h n"
    by (intro assms(4)) auto
qed

lemma repr_insert:
  assumes r: "repr h L" and new: "container L i = None" and split: "items L l = xs @ ys"
    and h': "pxNext h' = (pxNext h)(Item i := succ_node l ys, prev_node l xs := Item i)"
      "pxPrevious h' = (pxPrevious h)(Item i := prev_node l xs, succ_node l ys := Item i)"
      "uxNumberOfItems h' = (uxNumberOfItems h)(l := uxNumberOfItems h l + 1)"
      "pxContainer h' = (pxContainer h)(i \<mapsto> l)" "pxIndex h' = pxIndex h" "xItemValue h' = xItemValue h"
    and L': "lists_wf L'" "items L' = (items L)(l := xs @ i # ys)" "cursor L' = cursor L"
      "container L' = (container L)(i \<mapsto> l)" "item_value L' = item_value L"
  shows "repr h' L'"
proof -
  have notin: "i \<notin> set (items L l')" for l'
    using lists_wf_not_in [OF repr_wf [OF r] new] .
  have "ring h' l (xs @ i # ys)"
  proof (rule ring_insert [OF _ _ _ h'(1,2)])
    show "ring h l (xs @ ys)" using repr_ring [OF r, of l] split by simp
    show "distinct (xs @ ys)" using lists_wf_distinct [OF repr_wf [OF r], of l] split by simp
  qed (use notin [of l] split h'(3) in auto)
  moreover have "ring h' l' (items L l')" if "l' \<noteq> l" for l'
  proof (rule repr_other_ring [OF r that, where i = i])
    fix n assume n: "n \<noteq> Item i" "n \<noteq> Mark l" "n \<notin> Item ` set (items L l)"
    then have "n \<noteq> prev_node l xs" "n \<noteq> succ_node l ys"
      using prev_node_cases [of l xs] succ_node_cases [of l ys] split by auto
    with n show "pxNext h' n = pxNext h n \<and> pxPrevious h' n = pxPrevious h n" by (simp add: h')
  qed (use that notin h'(3) in auto)
  ultimately show ?thesis using r L' by (simp add: repr_def h')
qed

theorem vListInsertEnd_refines:
  assumes r: "repr h L" and new: "container L i = None"
  shows "repr (vListInsertEnd l i h) (list_insert_end l i L)"
proof -
  have wf: "lists_wf L" using r by (rule repr_wf)
  obtain xs ys where split: "items L l = xs @ ys"
    and succ: "succ_node l ys = node_of l (cursor L l)"
    and ins: "insert_before (cursor L l) i (items L l) = xs @ i # ys"
  proof (cases "cursor L l")
    case None
    then show ?thesis using that [of "items L l" "[]"] by (simp add: insert_before_def)
  next
    case (Some j)
    let ?P = "\<lambda>x. x \<noteq> j"
    have "j \<in> set (items L l)" using wf Some by (rule lists_wf_cursor)
    then have "dropWhile ?P (items L l) \<noteq> []" by (simp add: dropWhile_eq_Nil_conv)
    moreover from this have "hd (dropWhile ?P (items L l)) = j" using hd_dropWhile by blast
    ultimately have "succ_node l (dropWhile ?P (items L l)) = Item j"
      by (cases "dropWhile ?P (items L l)") simp_all
    then show ?thesis
      using that [of "takeWhile ?P (items L l)" "dropWhile ?P (items L l)"] Some
      by (simp add: insert_before_def insert_at_first_def)
  qed
  let ?idx = "succ_node l ys"
  have idx: "pxIndex h l = ?idx" using r succ by (simp add: repr_index)
  have prev: "pxPrevious h ?idx = prev_node l xs"
    using ring_prev repr_ring [OF r, of l] split by metis
  have notin: "i \<notin> set (xs @ ys)" using lists_wf_not_in [OF wf new, of l] split by simp
  have "?idx \<noteq> Item i" "prev_node l xs \<noteq> Item i"
    using notin prev_node_cases [of l xs] succ_node_cases [of l ys] by auto
  then show ?thesis
    by (intro repr_insert [OF r new split])
      (use lists_wf_insert_end [OF wf new] ins in
        \<open>simp_all add: vListInsertEnd_def Let_def idx prev list_frame\<close>)
qed

text \<open>
  The search loop of \<open>vListInsert\<close> ends, because the marker carries the largest value, and
  stops after the items whose value is not greater.
\<close>

lemma vListInsert_iter_path:
  assumes "path (pxNext h) a (map Item xs) (Mark l)" and "xItemValue h (Mark l) = portMAX_DELAY"
    and "v \<noteq> portMAX_DELAY"
  shows "vListInsert_iter h v a
           = Some (last (a # map Item (takeWhile (\<lambda>j. xItemValue h (Item j) \<le> v) xs)))"
  using assms
proof (induction xs arbitrary: a)
  case Nil
  then show ?case by (simp add: vListInsert_iter.simps)
next
  case (Cons x xs)
  then show ?case
    by (cases "xItemValue h (Item x) \<le> v")
      (simp_all add: vListInsert_iter.simps [of h v a])
qed

theorem vListInsert_refines:
  assumes r: "repr h L" and new: "container L i = None"
  shows "ensures (vListInsert l i h) (\<lambda>h'. repr h' (list_insert l i L))"
proof -
  have wf: "lists_wf L" using r by (rule repr_wf)
  have val: "xItemValue h (Item j) = item_value L j" for j using r by (simp add: repr_def)
  have mark: "xItemValue h (Mark l) = portMAX_DELAY" using r by (simp add: repr_def)
  let ?v = "item_value L i" and ?P = "\<lambda>j. item_value L j \<le> item_value L i"
  let ?xs = "takeWhile ?P (items L l)" and ?ys = "dropWhile ?P (items L l)"
  have split: "items L l = ?xs @ ?ys" by simp
  have ring: "ring h l (?xs @ ?ys)" using repr_ring [OF r, of l] by simp
  let ?it = "prev_node l ?xs"
  have it: "(if ?v = portMAX_DELAY then Some (pxPrevious h (Mark l))
             else vListInsert_iter h ?v (Mark l)) = Some ?it"
  proof (cases "?v = portMAX_DELAY")
    case True
    then have "?xs = items L l" by (simp add: takeWhile_eq_all_conv)
    with ring_prev [of h l "items L l" "[]"] repr_ring [OF r, of l] True show ?thesis by simp
  next
    case False
    have "path (pxNext h) (Mark l) (map Item (items L l)) (Mark l)"
      using repr_ring [OF r, of l] by (simp add: ring_def)
    from vListInsert_iter_path [OF this mark False] False show ?thesis
      by (simp add: val prev_node_def)
  qed
  have succ: "pxNext h ?it = succ_node l ?ys" using ring by (rule ring_next)
  have notin: "i \<notin> set (items L l)" using wf new by (rule lists_wf_not_in)
  then have neq: "succ_node l ?ys \<noteq> Item i" "?it \<noteq> Item i"
    using prev_node_cases [of l ?xs] succ_node_cases [of l ?ys]
    by (metis node.distinct(1) node.inject(2) set_dropWhileD set_takeWhileD)+
  define h' where "h' = (let h = h\<lparr>pxNext := (pxNext h)(Item i := pxNext h ?it)\<rparr>;
                 h = h\<lparr>pxPrevious := (pxPrevious h)(pxNext h (Item i) := Item i)\<rparr>;
                 h = h\<lparr>pxPrevious := (pxPrevious h)(Item i := ?it)\<rparr>;
                 h = h\<lparr>pxNext := (pxNext h)(?it := Item i)\<rparr>;
                 h = h\<lparr>pxContainer := (pxContainer h)(i \<mapsto> l)\<rparr>
             in h\<lparr>uxNumberOfItems := (uxNumberOfItems h)(l := uxNumberOfItems h l + 1)\<rparr>)"
  have "vListInsert l i h = Some h'"
    unfolding vListInsert_def val Let_def it h'_def by simp
  moreover have "repr h' (list_insert l i L)"
    by (rule repr_insert [OF r new split])
      (use lists_wf_insert [OF wf new] neq in
        \<open>simp_all add: h'_def Let_def succ list_frame insert_at_first_def fun_upd_twist\<close>)
  ultimately show ?thesis by simp
qed

lemma next_prev_item:
  assumes "ring h l (xs @ i # ys)"
  shows "pxNext h (Item i) = succ_node l ys" and "pxPrevious h (Item i) = prev_node l xs"
  using ring_next [of h l "xs @ [i]" ys] ring_prev [of h l xs "i # ys"] assms by simp_all

lemma node_of_pred:
  assumes "i \<notin> set xs" and "i \<notin> set ys"
  shows "node_of l (pred_in i (xs @ i # ys)) = prev_node l xs"
proof (cases xs rule: rev_cases)
  case Nil
  with assms pred_in_hd [of i ys] show ?thesis by simp
next
  case (snoc zs z)
  with assms pred_in_append [of i xs ys] show ?thesis by simp
qed

theorem uxListRemove_refines:
  assumes r: "repr h L" and mem: "i \<in> set (items L l)"
  shows "ensures (uxListRemove i h)
           (\<lambda>(h', n). \<exists>L'. list_remove i L = Some (L', n) \<and> repr h' L')"
proof -
  have wf: "lists_wf L" using r by (rule repr_wf)
  obtain xs ys where split: "items L l = xs @ i # ys" using mem by (metis split_list)
  have dist: "distinct (xs @ i # ys)" using lists_wf_distinct [OF wf, of l] split by simp
  have ring: "ring h l (xs @ i # ys)" using repr_ring [OF r, of l] split by simp
  note np = next_prev_item [OF ring]
  have cont: "pxContainer h i = Some l"
    using wf mem r by (simp add: repr_container lists_wf_container [THEN iffD2])
  have neq: "succ_node l ys \<noteq> Item i" "prev_node l xs \<noteq> Item i"
    using prev_node_cases [of l xs] succ_node_cases [of l ys] dist by auto
  define h' where "h' = fst (the (uxListRemove i h))"
  have all: "uxListRemove i h = Some (h', length (xs @ ys)) \<and>
      pxNext h' = (pxNext h)(prev_node l xs := pxNext h (Item i)) \<and>
      pxPrevious h' = (pxPrevious h)(succ_node l ys := pxPrevious h (Item i)) \<and>
      uxNumberOfItems h' = (uxNumberOfItems h)(l := uxNumberOfItems h l - 1) \<and>
      pxIndex h' = (if pxIndex h l = Item i then (pxIndex h)(l := prev_node l xs) else pxIndex h) \<and>
      pxContainer h' = (pxContainer h)(i := None) \<and> xItemValue h' = xItemValue h"
    using np neq ring unfolding h'_def uxListRemove_def cont
    by (cases "pxIndex h l = Item i") (simp_all add: Let_def ring_def)
  then have h': "uxListRemove i h = Some (h', length (xs @ ys))"
    and next': "pxNext h' = (pxNext h)(prev_node l xs := pxNext h (Item i))"
    and prev': "pxPrevious h' = (pxPrevious h)(succ_node l ys := pxPrevious h (Item i))"
    and count': "uxNumberOfItems h' = (uxNumberOfItems h)(l := uxNumberOfItems h l - 1)"
    and idx': "pxIndex h' = (if pxIndex h l = Item i then (pxIndex h)(l := prev_node l xs) else pxIndex h)"
    and rest': "pxContainer h' = (pxContainer h)(i := None)" "xItemValue h' = xItemValue h"
    by blast+
  let ?L' = "fst (the (list_remove i L))"
  have rem: "list_remove i L = Some (?L', length (items L l) - 1)"
    using list_remove_Some [OF wf mem] by simp
  have items': "items ?L' = (items L)(l := xs @ ys)"
    using list_remove_Some [OF wf mem] split dist by (simp add: remove1_append)
  have wf': "lists_wf ?L'" using wf mem by (rule lists_wf_remove)
  have "ring h' l (xs @ ys)" by (rule ring_remove [OF ring dist next' prev']) (simp add: count')
  moreover have "ring h' l' (items L l')" if l': "l' \<noteq> l" for l'
  proof (rule repr_other_ring [OF r l', where i = i])
    fix n assume n: "n \<noteq> Item i" "n \<noteq> Mark l" "n \<notin> Item ` set (items L l)"
    then have "n \<noteq> prev_node l xs" "n \<noteq> succ_node l ys"
      using prev_node_cases [of l xs] succ_node_cases [of l ys] split by auto
    then show "pxNext h' n = pxNext h n \<and> pxPrevious h' n = pxPrevious h n"
      by (simp add: next' prev')
  next
    show "i \<notin> set (items L l')" using lists_wf_unique [OF wf mem] l' by blast
  qed (use l' count' in auto)
  moreover have "pxIndex h' l' = node_of l' (cursor ?L' l')" for l'
  proof -
    have p: "node_of l (pred_in i (items L l)) = prev_node l xs"
      unfolding split by (rule node_of_pred) (use dist in auto)
    have c: "pxIndex h l = Item i \<longleftrightarrow> cursor L l = Some i"
      using repr_index [OF r, of l] by (cases "cursor L l") auto
    show ?thesis
      using repr_index [OF r] p c by (auto simp: idx' list_remove_Some [OF wf mem])
  qed
  moreover have "container ?L' = (container L)(i := None)" "item_value ?L' = item_value L"
    by (simp_all add: list_remove_Some [OF wf mem])
  ultimately have "repr h' ?L'"
    using r wf' by (simp add: repr_def rest' items')
  with h' rem split show ?thesis by auto
qed

lemma next_in_split:
  "distinct xs \<Longrightarrow> j \<in> set xs \<Longrightarrow>
     \<exists>us vs. xs = us @ j # vs \<and> next_in j xs = (case vs of [] \<Rightarrow> None | y # _ \<Rightarrow> Some y)"
  by (metis distinct_append distinct.simps(2) disjoint_iff in_set_conv_decomp_first next_in_append
      split_list_first)

theorem listGET_OWNER_OF_NEXT_ENTRY_refines:
  assumes r: "repr h L" and ne: "items L l \<noteq> []"
  shows "ensures (listGET_OWNER_OF_NEXT_ENTRY l h)
           (\<lambda>(h', i). \<exists>L'. list_next_entry l L = Some (L', i) \<and> repr h' L')"
proof -
  have wf: "lists_wf L" using r by (rule repr_wf)
  obtain x xs where xs: "items L l = x # xs" using ne by (cases "items L l") auto
  have head: "pxNext h (Mark l) = Item x"
    using ring_next [of h l "[]" "x # xs"] repr_ring [OF r, of l] xs by simp
  have step: "pxNext h (pxIndex h l) =
      (case cursor L l of None \<Rightarrow> Item x
       | Some _ \<Rightarrow> node_of l (advance (cursor L l) (items L l)))"
  proof (cases "cursor L l")
    case None
    then show ?thesis using repr_index [OF r, of l] head by simp
  next
    case (Some j)
    then have "j \<in> set (items L l)" using wf by (simp add: lists_wf_cursor)
    then obtain us vs where uv: "items L l = us @ j # vs"
      and nx: "next_in j (items L l) = (case vs of [] \<Rightarrow> None | y # _ \<Rightarrow> Some y)"
      using next_in_split [OF lists_wf_distinct [OF wf, of l]] by blast
    have "pxNext h (Item j) = succ_node l vs"
      using repr_ring [OF r, of l] uv by (intro next_prev_item) simp
    with Some nx show ?thesis
      using repr_index [OF r, of l] by (cases vs) (auto simp: advance_def)
  qed
  define j where "j = (case advance (cursor L l) (x # xs) of None \<Rightarrow> x | Some y \<Rightarrow> y)"
  have spec: "list_next_entry l L = Some (L\<lparr>cursor := (cursor L)(l := Some j)\<rparr>, j)"
    unfolding list_next_entry_def xs j_def by (simp add: Let_def)
  have "pxNext h (pxIndex h l) = Item j \<or> pxNext h (pxIndex h l) = Mark l \<and> j = x"
    using step xs unfolding j_def
    by (cases "cursor L l"; cases "advance (cursor L l) (x # xs)") (simp_all add: advance_def)
  then have "listGET_OWNER_OF_NEXT_ENTRY l h = Some (h\<lparr>pxIndex := (pxIndex h)(l := Item j)\<rparr>, j)"
    using head unfolding listGET_OWNER_OF_NEXT_ENTRY_def by (elim disjE) (simp_all add: Let_def)
  moreover have "repr (h\<lparr>pxIndex := (pxIndex h)(l := Item j)\<rparr>) (L\<lparr>cursor := (cursor L)(l := Some j)\<rparr>)"
    using r list_next_entry_ensures [OF wf ne, of "\<lambda>(L', _). lists_wf L'"] spec
    by (auto simp: repr_def ring_def)
  ultimately show ?thesis using spec by simp
qed

theorem vListInitialise_refines:
  assumes r: "repr h L" and empty: "items L l = []"
  shows "repr (vListInitialise l h) (list_init l L)"
proof -
  have "ring (vListInitialise l h) l' (items L l')" for l'
  proof (cases "l' = l")
    case True
    with empty show ?thesis by (simp add: ring_def vListInitialise_def Let_def)
  next
    case False
    then show ?thesis
      by (intro ring_frame [OF repr_ring [OF r]]) (auto simp: vListInitialise_def Let_def)
  qed
  moreover have "items (list_init l L) = items L" using empty by (auto simp: list_frame)
  moreover have "pxIndex (vListInitialise l h) = (pxIndex h)(l := Mark l)"
    "pxContainer (vListInitialise l h) = pxContainer h"
    "xItemValue (vListInitialise l h) = (xItemValue h)(Mark l := portMAX_DELAY)"
    by (simp_all add: vListInitialise_def Let_def)
  ultimately show ?thesis
    using r lists_wf_init [OF repr_wf [OF r] empty] by (simp add: repr_def list_frame)
qed

theorem vListInitialiseItem_refines:
  assumes r: "repr h L" and free: "container L i = None"
  shows "repr (vListInitialiseItem i h) (list_item_init i L)"
  using r lists_wf_item_init [OF repr_wf [OF r] free]
  by (auto simp: repr_def ring_def vListInitialiseItem_def list_frame)

text \<open>Headers and items as the two initialisers leave them, for any number of both.\<close>

definition heap_empty :: "('l, nat) heap" where
  "heap_empty = \<lparr>xItemValue = (\<lambda>x. case x of Mark l \<Rightarrow> portMAX_DELAY | Item i \<Rightarrow> if i = 1 then 5 else 7),
     pxNext = (\<lambda>x. x), pxPrevious = (\<lambda>x. x), pxContainer = (\<lambda>_. None), uxNumberOfItems = (\<lambda>_. 0), pxIndex = Mark\<rparr>"

lemma heap_empty_repr: "repr heap_empty \<lparr>items = \<lambda>l. [], cursor = \<lambda>l. None,
    item_value = \<lambda>i. if i = 1 then 5 else 7, container = \<lambda>i. None\<rparr>"
  by (simp add: repr_def heap_empty_def lists_wf_def ring_def)

lemma heap_two_repr: "\<exists>L. repr (vListInsertEnd False (2 :: nat) (vListInsertEnd False 1 heap_empty)) L \<and>
    items L False = [1, 2] \<and> cursor L False = None"
proof -
  let ?L = "\<lparr>items = \<lambda>l. [], cursor = \<lambda>l. None, item_value = \<lambda>i :: nat. if i = 1 then 5 else 7, container = \<lambda>i. None\<rparr>"
  have "repr (vListInsertEnd False 1 heap_empty) (list_insert_end False 1 ?L)"
    by (rule vListInsertEnd_refines [OF heap_empty_repr]) simp
  then have "repr (vListInsertEnd False 2 (vListInsertEnd False 1 heap_empty)) (list_insert_end False 2 (list_insert_end False 1 ?L))"
    by (rule vListInsertEnd_refines) (simp add: list_frame)
  then show ?thesis
    by (intro exI conjI, assumption) (simp_all add: list_frame insert_before_def)
qed

text \<open>list.c provides the interface of List_Spec.\<close>

interpretation list_c: list_api repr vListInsert vListInsertEnd uxListRemove
  listGET_OWNER_OF_NEXT_ENTRY
  by unfold_locales
    (fact repr_wf vListInsert_refines vListInsertEnd_refines uxListRemove_refines
      listGET_OWNER_OF_NEXT_ENTRY_refines)+

end
