(* ===== verification/Port_State.thy ===== *)
theory Port_State
  imports Task_Tick
begin

text \<open>
  The native POSIX port (portable/ThirdParty/GCC/Posix/port.c): every task has a pthread, and
  switching tasks is waking the one pthread and putting the other to sleep on its event
  (utils/wait_for_event.c). Nothing but this protocol keeps two pthreads from running the kernel's
  code at once, so the pthreads are modelled as they are: any of them may take its next
  step at any time, and so may the thread that makes the ticks, the main thread and the host.

  A pthread is at a \<open>thread_point\<close>: in the task's code or the kernel code called from it, or at a
  place inside the port's functions between two accesses to what the pthreads share. The
  kernel is the record of tasks.c, and what the port calls in it are the model's
  \<open>vTaskSwitchContext\<close> and \<open>xTaskIncrementTick\<close>. Calls of the POSIX library do what its
  standard says: a blocked signal stays pending, an event is a flag set and waited for (that the
  mutex and the condition variable in it make it one is shown in Port_Event), a cancelled
  pthread ends at its next cancellation point.
\<close>

section \<open>State\<close>

text \<open>The two functions that call \<open>prvSwitchThread\<close>: \<open>vPortYield\<close> and the tick handler.\<close>

datatype switch_caller = ByYield | ByTick

text \<open>
  The calls of \<open>event_wait\<close>: from \<open>prvWaitForStart\<close>, from \<open>prvSwitchThread\<close> (with its local
  variable \<open>uxSavedCriticalNesting\<close>) and from \<open>vPortEndScheduler\<close>.
\<close>

datatype suspension = Starting | Switched switch_caller int | Stopping

datatype thread_point =
    In_Code
  | In_Yield
  | In_Handler
  | Switching switch_caller task
  | Suspending switch_caller int
  | Waiting suspension
  | Woken suspension
  | Switched_Back switch_caller
  | Joining_Ticker
  | Ended

text \<open>
  \<open>Thread_t\<close> with its event, and what the host keeps of the pthread: its cancellation, its signal
  mask (the port blocks all signals or none), a pending \<open>SIGALRM\<close>, its thread-local \<open>rooIsIsr\<close>,
  and the pthread it waits for in \<open>pthread_join\<close>.
\<close>

record pthread =
  thread_at :: thread_point
  event_triggered :: bool
  xDying :: bool
  cancelled :: bool
  signals_blocked :: bool
  sigalrm_pending :: bool
  rooIsIsr :: bool
  joining :: "task option"

datatype main_point = Main_Setup | Main_Loop | Main_Sigwait | Main_Returned

datatype ticker_point = Ticker_Off | Ticker_Loop | Ticker_Kill task | Ticker_Ended

record port =
  pkern :: kernel
  uxCriticalNesting :: int
  xSchedulerEnd :: bool
  xTimerTickThreadShouldRun :: bool
  pthreads :: "task \<Rightarrow> pthread option"
  main_at :: main_point
  resume_signal :: bool
  ticker_at :: ticker_point

abbreviation prvGetThreadFromTask :: "task \<Rightarrow> port \<Rightarrow> pthread" where
  "prvGetThreadFromTask t s \<equiv> the (pthreads s t)"

abbreviation upd_thread :: "task \<Rightarrow> (pthread \<Rightarrow> pthread) \<Rightarrow> port \<Rightarrow> port" where
  "upd_thread t f s \<equiv> s\<lparr>pthreads := (pthreads s)(t := map_option f (pthreads s t))\<rparr>"

abbreviation go_to :: "task \<Rightarrow> thread_point \<Rightarrow> port \<Rightarrow> port" where
  "go_to t p \<equiv> upd_thread t (\<lambda>h. h\<lparr>thread_at := p\<rparr>)"

section \<open>Interrupts and critical sections\<close>

definition vPortDisableInterrupts :: "task \<Rightarrow> port \<Rightarrow> port" where
  "vPortDisableInterrupts t s = upd_thread t (\<lambda>h. h\<lparr>signals_blocked := True\<rparr>) s"

definition vPortEnableInterrupts :: "task \<Rightarrow> port \<Rightarrow> port" where
  "vPortEnableInterrupts t s = upd_thread t (\<lambda>h. h\<lparr>signals_blocked := False\<rparr>) s"

definition vPortEnterCritical :: "task \<Rightarrow> port \<Rightarrow> port" where
  "vPortEnterCritical t s =
     (let s = (if uxCriticalNesting s = 0 then vPortDisableInterrupts t s else s)
      in s\<lparr>uxCriticalNesting := uxCriticalNesting s + 1\<rparr>)"

definition vPortExitCritical :: "task \<Rightarrow> port \<Rightarrow> port" where
  "vPortExitCritical t s =
     (let s = s\<lparr>uxCriticalNesting := uxCriticalNesting s - 1\<rparr>
      in if uxCriticalNesting s = 0 then vPortEnableInterrupts t s else s)"

text \<open>Inside the handler all signals are blocked anyway.\<close>

definition xPortSetInterruptMask :: "port \<Rightarrow> port \<times> nat" where
  "xPortSetInterruptMask s = (s, 0)"

definition vPortClearInterruptMask :: "nat \<Rightarrow> port \<Rightarrow> port" where
  "vPortClearInterruptMask uxMask s = s"

definition RooFreeRtosPortIsIsr :: "task \<Rightarrow> port \<Rightarrow> bool" where
  "RooFreeRtosPortIsIsr self s = rooIsIsr (prvGetThreadFromTask self s)"

section \<open>Events\<close>

definition event_signal :: "task \<Rightarrow> port \<Rightarrow> port" where
  "event_signal t s = upd_thread t (\<lambda>h. h\<lparr>event_triggered := True\<rparr>) s"

text \<open>\<open>event_wait\<close> by the pthread of \<open>t\<close> on its own event; it does not return before the event is triggered.\<close>

definition event_wait :: "task \<Rightarrow> port \<Rightarrow> port option" where
  "event_wait t s = (if event_triggered (prvGetThreadFromTask t s)
     then Some (upd_thread t (\<lambda>h. h\<lparr>event_triggered := False\<rparr>) s) else None)"

definition prvResumeThread :: "task \<Rightarrow> task \<Rightarrow> port \<Rightarrow> port" where
  "prvResumeThread self xThreadId s = (if self \<noteq> xThreadId then event_signal xThreadId s else s)"

section \<open>Switching\<close>

text \<open>
  \<open>prvSwitchThread\<close>, up to the signal, up to the wait, and after it. \<open>prvSuspendSelf\<close> is the wait
  and the cancellation point after it (\<open>testcancel\<close>).
\<close>

definition prvSwitchThread_resume :: "switch_caller \<Rightarrow> task \<Rightarrow> task \<Rightarrow> port \<Rightarrow> port" where
  "prvSwitchThread_resume f pxThreadToResume self s =
     (if self \<noteq> pxThreadToResume
      then let uxSavedCriticalNesting = uxCriticalNesting s;
               s = prvResumeThread self pxThreadToResume s
           in go_to self (Suspending f uxSavedCriticalNesting) s
      else go_to self (Switched_Back f) s)"

definition prvSwitchThread_suspend :: "switch_caller \<Rightarrow> int \<Rightarrow> task \<Rightarrow> port \<Rightarrow> port" where
  "prvSwitchThread_suspend f uxSavedCriticalNesting self s =
     (if xDying (prvGetThreadFromTask self s) then go_to self Ended s
      else go_to self (Waiting (Switched f uxSavedCriticalNesting)) s)"

definition prvSwitchThread_restore :: "switch_caller \<Rightarrow> int \<Rightarrow> task \<Rightarrow> port \<Rightarrow> port" where
  "prvSwitchThread_restore f uxSavedCriticalNesting self s =
     go_to self (Switched_Back f) (s\<lparr>uxCriticalNesting := uxSavedCriticalNesting\<rparr>)"

text \<open>What \<open>prvWaitForStart\<close> does when it is resumed for the first time, up to the task's entry point.\<close>

definition prvWaitForStart_resumed :: "task \<Rightarrow> port \<Rightarrow> port" where
  "prvWaitForStart_resumed self s =
     go_to self In_Code (vPortEnableInterrupts self (s\<lparr>uxCriticalNesting := 0\<rparr>))"

definition testcancel :: "suspension \<Rightarrow> task \<Rightarrow> port \<Rightarrow> port" where
  "testcancel w self s =
     (if cancelled (prvGetThreadFromTask self s) then go_to self Ended s
      else case w of Starting \<Rightarrow> prvWaitForStart_resumed self s
        | Switched f n \<Rightarrow> prvSwitchThread_restore f n self s
        | Stopping \<Rightarrow> go_to self In_Code s)"

text \<open>\<open>vPortYield\<close>: before \<open>prvPortYieldFromISR\<close>, in it up to \<open>prvSwitchThread\<close>, and after it.\<close>

definition vPortYield_enter :: "task \<Rightarrow> port \<Rightarrow> port" where
  "vPortYield_enter self s = go_to self In_Yield (vPortEnterCritical self s)"

definition prvPortYieldFromISR :: "task \<Rightarrow> port \<Rightarrow> port option" where
  "prvPortYieldFromISR self s = do {
     k \<leftarrow> vTaskSwitchContext (pkern s);
     next_task \<leftarrow> pxCurrentTCB k;
     Some (go_to self (Switching ByYield next_task) (s\<lparr>pkern := k\<rparr>)) }"

definition vPortYield_leave :: "task \<Rightarrow> port \<Rightarrow> port" where
  "vPortYield_leave self s = go_to self In_Code (vPortExitCritical self s)"

text \<open>
  The tick handler \<open>vPortSystemTickHandler\<close>: its delivery (which blocks all signals) and its first
  lines, its work in the kernel, and its last lines with the return from the signal.
\<close>

definition tick_handler_enter :: "task \<Rightarrow> port \<Rightarrow> port" where
  "tick_handler_enter self s = upd_thread self (\<lambda>h. h\<lparr>thread_at := In_Handler,
     signals_blocked := True, sigalrm_pending := False, rooIsIsr := True\<rparr>)
     (s\<lparr>uxCriticalNesting := uxCriticalNesting s + 1\<rparr>)"

definition tick_handler_body ::
    "(kernel \<Rightarrow> (kernel \<times> bool) option) \<Rightarrow> u32 \<Rightarrow> task \<Rightarrow> port \<Rightarrow> port option" where
  "tick_handler_body poll elapsed self s = do {
     (k, reschedule) \<leftarrow> poll (pkern s);
     (k, reschedule) \<leftarrow> tick_handler_loop (unat elapsed) reschedule k;
     if reschedule
     then do {
       k \<leftarrow> vTaskSwitchContext k;
       next_task \<leftarrow> pxCurrentTCB k;
       Some (go_to self (Switching ByTick next_task) (s\<lparr>pkern := k\<rparr>)) }
     else Some (go_to self (Switched_Back ByTick) (s\<lparr>pkern := k\<rparr>)) }"

definition tick_handler_leave :: "task \<Rightarrow> port \<Rightarrow> port" where
  "tick_handler_leave self s = upd_thread self (\<lambda>h. h\<lparr>thread_at := In_Code,
     signals_blocked := False, rooIsIsr := False\<rparr>)
     (s\<lparr>uxCriticalNesting := uxCriticalNesting s - 1\<rparr>)"

definition switch_return :: "switch_caller \<Rightarrow> task \<Rightarrow> port \<Rightarrow> port" where
  "switch_return f = (case f of ByYield \<Rightarrow> vPortYield_leave | ByTick \<Rightarrow> tick_handler_leave)"

section \<open>Creating and deleting pthreads\<close>

text \<open>
  \<open>prvWaitForStart\<close> of a new pthread, up to its wait. It inherits the signal mask of the
  pthread that creates it.
\<close>

definition new_pthread :: "bool \<Rightarrow> pthread" where
  "new_pthread inherited = \<lparr>thread_at = Waiting Starting, event_triggered = False, xDying = False,
     cancelled = False, signals_blocked = inherited, sigalrm_pending = False, rooIsIsr = False,
     joining = None\<rparr>"

definition pxPortInitialiseStack :: "task \<Rightarrow> task \<Rightarrow> port \<Rightarrow> port" where
  "pxPortInitialiseStack self t s =
     (let s = vPortEnterCritical self s;
          s = s\<lparr>pthreads := (pthreads s)(t \<mapsto> new_pthread (signals_blocked (prvGetThreadFromTask self s)))\<rparr>
      in vPortExitCritical self s)"

definition vPortThreadDying :: "task \<Rightarrow> port \<Rightarrow> port" where
  "vPortThreadDying t s = upd_thread t (\<lambda>h. h\<lparr>xDying := True\<rparr>) s"

text \<open>
  \<open>vPortCancelThread\<close>, up to \<open>pthread_join\<close>, and after it, with \<open>event_delete\<close>. \<open>RooFreeRtosTaskDeleted\<close>,
  which it calls first, is host code (hooks.cpp, C++): it edits a list of its own in a critical section.
\<close>

definition vPortCancelThread :: "task \<Rightarrow> task \<Rightarrow> port \<Rightarrow> port" where
  "vPortCancelThread self t s =
     (let s = upd_thread t (\<lambda>h. h\<lparr>cancelled := True\<rparr>) s;
          s = event_signal t s
      in upd_thread self (\<lambda>h. h\<lparr>joining := Some t\<rparr>) s)"

definition vPortCancelThread_joined :: "task \<Rightarrow> task \<Rightarrow> port \<Rightarrow> port" where
  "vPortCancelThread_joined self t s =
     (let s = s\<lparr>pthreads := (pthreads s)(t := None)\<rparr>
      in upd_thread self (\<lambda>h. h\<lparr>joining := None\<rparr>) s)"

section \<open>The start and the end of the scheduler\<close>

definition xPortStartScheduler :: "task \<Rightarrow> port \<Rightarrow> port" where
  "xPortStartScheduler pxFirstThread s =
     (let s = s\<lparr>xTimerTickThreadShouldRun := True, ticker_at := Ticker_Loop\<rparr>;
          s = event_signal pxFirstThread s
      in s\<lparr>main_at := Main_Loop\<rparr>)"

text \<open>The loop of the main thread around \<open>sigwait\<close>, and what follows it.\<close>

definition main_loop :: "port \<Rightarrow> port" where
  "main_loop s = (if \<not> xSchedulerEnd s then s\<lparr>main_at := Main_Sigwait\<rparr>
     else s\<lparr>xSchedulerEnd := False, main_at := Main_Returned\<rparr>)"

definition vPortEndScheduler :: "task \<Rightarrow> port \<Rightarrow> port" where
  "vPortEndScheduler self s = go_to self Joining_Ticker (s\<lparr>xTimerTickThreadShouldRun := False\<rparr>)"

definition vPortEndScheduler_joined :: "task \<Rightarrow> port \<Rightarrow> port" where
  "vPortEndScheduler_joined self s =
     go_to self (Waiting Stopping) (s\<lparr>xSchedulerEnd := True, resume_signal := True\<rparr>)"

text \<open>\<open>pthread_kill(..., SIGALRM)\<close>, and the loop of the thread that makes the ticks.\<close>

definition kill_sigalrm :: "task \<Rightarrow> port \<Rightarrow> port" where
  "kill_sigalrm t s = upd_thread t (\<lambda>h. h\<lparr>sigalrm_pending := True\<rparr>) s"

text \<open>A round of the loop in two steps: the test with the reading of the current task, and the signal.\<close>

definition prvTimerTickHandler :: "port \<Rightarrow> port option" where
  "prvTimerTickHandler s =
     (case ticker_at s of
        Ticker_Loop \<Rightarrow>
          (if xTimerTickThreadShouldRun s
           then do { t \<leftarrow> pxCurrentTCB (pkern s); Some (s\<lparr>ticker_at := Ticker_Kill t\<rparr>) }
           else Some (s\<lparr>ticker_at := Ticker_Ended\<rparr>))
      | Ticker_Kill t \<Rightarrow> Some ((kill_sigalrm t s)\<lparr>ticker_at := Ticker_Loop\<rparr>)
      | _ \<Rightarrow> None)"

definition RooFreeRtosPortRequestTick :: "port \<Rightarrow> port" where
  "RooFreeRtosPortRequestTick s =
     (case pxCurrentTCB (pkern s) of Some t \<Rightarrow> kill_sigalrm t s | None \<Rightarrow> s)"

end
