(* ===== verification/Port_Steps.thy ===== *)
theory Port_Steps
  imports Port_State
begin

text \<open>
  The steps of the port's threads and the invariant of their protocol. \<open>port_step s a s'\<close>: thread
  \<open>a\<close> takes its next step. Control belongs to one task at a time, which either runs or has its
  wake-up waiting for it (\<open>in_control\<close>); all others are asleep, on their way to sleep, or ended
  (\<open>resting\<close>), whatever the order of the steps.
\<close>

section \<open>What the kernel's code leaves behind\<close>

text \<open>The tasks that the kernel may choose, now or after a wake-up.\<close>

definition scheduled_tasks :: "kernel \<Rightarrow> task set" where
  "scheduled_tasks k = {t. \<exists>l. state_list k t = Some l \<and> l \<noteq> TerminationL}"

definition living_tasks :: "port \<Rightarrow> task set" where
  "living_tasks s = {t. \<exists>h. pthreads s t = Some h \<and> \<not> cancelled h \<and> \<not> xDying h}"

text \<open>
  tasks.c creates the pthread of a task before it schedules it, and takes a task off its list before it
  ends its pthread; while the scheduler is not locked its data are in order between
  critical sections.
\<close>

definition kernel_ok :: "port \<Rightarrow> kernel \<Rightarrow> bool" where
  "kernel_ok s k \<longleftrightarrow> scheduled_tasks k \<subseteq> living_tasks s \<and> (uxSchedulerSuspended k = 0 \<longrightarrow> kernel_inv k)"

text \<open>A task that is being deleted does not lock the scheduler (\<open>vTaskDelete\<close> asserts it).\<close>

definition dying_ok :: "pthread \<Rightarrow> kernel \<Rightarrow> bool" where
  "dying_ok h k \<longleftrightarrow> (xDying h \<longrightarrow> uxSchedulerSuspended k = 0)"

section \<open>Steps\<close>

datatype actor = Task_Thread task | Main_Thread | Ticker_Thread | Host_Thread

text \<open>A task runs code of its own or of the kernel, outside of the port and of \<open>pthread_join\<close>.\<close>

definition in_code :: "port \<Rightarrow> task \<Rightarrow> bool" where
  "in_code s t \<longleftrightarrow> (\<exists>h. pthreads s t = Some h \<and> thread_at h = In_Code \<and> joining h = None)"

definition at_point :: "port \<Rightarrow> task \<Rightarrow> thread_point \<Rightarrow> bool" where
  "at_point s t p \<longleftrightarrow> (\<exists>h. pthreads s t = Some h \<and> thread_at h = p)"

text \<open>
  The rules of \<open>code\<close> are what a task does: it changes the kernel (in any way that leaves it as
  above and leaves the choice of the current task to the port), enters and leaves critical sections,
  masks signals, creates and deletes tasks, yields, stops the scheduler.
\<close>

inductive port_step :: "port \<Rightarrow> actor \<Rightarrow> port \<Rightarrow> bool" where
  setup_code: "\<lbrakk>main_at s = Main_Setup; kernel_ok s k\<rbrakk> \<Longrightarrow> port_step s Main_Thread (s\<lparr>pkern := k\<rparr>)"
| setup_create: "\<lbrakk>main_at s = Main_Setup; pthreads s t = None\<rbrakk> \<Longrightarrow>
    port_step s Main_Thread (s\<lparr>pthreads := (pthreads s)(t \<mapsto> new_pthread True)\<rparr>)"
| start: "\<lbrakk>main_at s = Main_Setup; pxCurrentTCB (pkern s) = Some t; pthreads s t \<noteq> None\<rbrakk> \<Longrightarrow>
    port_step s Main_Thread (xPortStartScheduler t s)"
| main_loop: "main_at s = Main_Loop \<Longrightarrow> port_step s Main_Thread (main_loop s)"
| main_sigwait: "\<lbrakk>main_at s = Main_Sigwait; resume_signal s\<rbrakk> \<Longrightarrow>
    port_step s Main_Thread (s\<lparr>resume_signal := False, main_at := Main_Loop\<rparr>)"
| ticker: "prvTimerTickHandler s = Some s' \<Longrightarrow> port_step s Ticker_Thread s'"
| request_tick: "port_step s Host_Thread (RooFreeRtosPortRequestTick s)"
| code: "\<lbrakk>in_code s t; pxCurrentTCB k = pxCurrentTCB (pkern s); scheduled_tasks k \<subseteq> living_tasks s;
    dying_ok (prvGetThreadFromTask t s) k; uxCriticalNesting s = 0 \<longrightarrow> kernel_ok s k\<rbrakk> \<Longrightarrow>
    port_step s (Task_Thread t) (s\<lparr>pkern := k\<rparr>)"
| enter: "in_code s t \<Longrightarrow> port_step s (Task_Thread t) (vPortEnterCritical t s)"
| exit: "\<lbrakk>in_code s t; 0 < uxCriticalNesting s; uxCriticalNesting s = 1 \<longrightarrow> kernel_ok s (pkern s)\<rbrakk> \<Longrightarrow>
    port_step s (Task_Thread t) (vPortExitCritical t s)"
| disable: "in_code s t \<Longrightarrow> port_step s (Task_Thread t) (vPortDisableInterrupts t s)"
| enable: "\<lbrakk>in_code s t; uxCriticalNesting s = 0\<rbrakk> \<Longrightarrow>
    port_step s (Task_Thread t) (vPortEnableInterrupts t s)"
| create: "\<lbrakk>in_code s t; pthreads s u = None\<rbrakk> \<Longrightarrow>
    port_step s (Task_Thread t) (pxPortInitialiseStack t u s)"
| dying: "\<lbrakk>in_code s t; t \<notin> scheduled_tasks (pkern s); uxSchedulerSuspended (pkern s) = 0\<rbrakk> \<Longrightarrow>
    port_step s (Task_Thread t) (vPortThreadDying t s)"
| cancel: "\<lbrakk>in_code s t; u \<noteq> t; u \<notin> scheduled_tasks (pkern s); pthreads s u = Some h; \<not> cancelled h\<rbrakk> \<Longrightarrow>
    port_step s (Task_Thread t) (vPortCancelThread t u s)"
| join: "\<lbrakk>pthreads s t = Some h; thread_at h = In_Code; joining h = Some u; at_point s u Ended\<rbrakk> \<Longrightarrow>
    port_step s (Task_Thread t) (vPortCancelThread_joined t u s)"
| stop: "\<lbrakk>in_code s t; signals_blocked (prvGetThreadFromTask t s); \<not> xDying (prvGetThreadFromTask t s);
    kernel_ok s (pkern s)\<rbrakk> \<Longrightarrow> port_step s (Task_Thread t) (vPortEndScheduler t s)"
| stopped: "\<lbrakk>at_point s t Joining_Ticker; ticker_at s = Ticker_Ended\<rbrakk> \<Longrightarrow>
    port_step s (Task_Thread t) (vPortEndScheduler_joined t s)"
| yield_call: "\<lbrakk>in_code s t; kernel_ok s (pkern s)\<rbrakk> \<Longrightarrow> port_step s (Task_Thread t) (vPortYield_enter t s)"
| yield: "\<lbrakk>at_point s t In_Yield; prvPortYieldFromISR t s = Some s'\<rbrakk> \<Longrightarrow> port_step s (Task_Thread t) s'"
| interrupt: "\<lbrakk>pthreads s t = Some h; thread_at h = In_Code; \<not> signals_blocked h; sigalrm_pending h\<rbrakk> \<Longrightarrow>
    port_step s (Task_Thread t) (tick_handler_enter t s)"
| handler: "\<lbrakk>at_point s t In_Handler;
    \<And>k r. poll (pkern s) = Some (k, r) \<Longrightarrow> pxCurrentTCB k = pxCurrentTCB (pkern s) \<and> kernel_ok s k \<and>
      uxSchedulerSuspended k = uxSchedulerSuspended (pkern s);
    tick_handler_body poll elapsed t s = Some s'\<rbrakk> \<Longrightarrow> port_step s (Task_Thread t) s'"
| resume: "at_point s t (Switching f u) \<Longrightarrow> port_step s (Task_Thread t) (prvSwitchThread_resume f u t s)"
| suspend: "at_point s t (Suspending f n) \<Longrightarrow> port_step s (Task_Thread t) (prvSwitchThread_suspend f n t s)"
| wake: "\<lbrakk>at_point s t (Waiting w); event_wait t s = Some s'\<rbrakk> \<Longrightarrow>
    port_step s (Task_Thread t) (go_to t (Woken w) s')"
| wait_cancelled: "\<lbrakk>at_point s t (Waiting w); cancelled (prvGetThreadFromTask t s)\<rbrakk> \<Longrightarrow>
    port_step s (Task_Thread t) (go_to t Ended s)"
| testcancel: "at_point s t (Woken w) \<Longrightarrow> port_step s (Task_Thread t) (testcancel w t s)"
| switch_return: "at_point s t (Switched_Back f) \<Longrightarrow> port_step s (Task_Thread t) (switch_return f t s)"

section \<open>The invariant\<close>

text \<open>
  The nesting count a suspended call of \<open>prvSwitchThread\<close> has saved: a yield is in its own critical
  section at least, and the handler has interrupted code outside of any.
\<close>

definition saved_ok :: "switch_caller \<Rightarrow> int \<Rightarrow> bool" where
  "saved_ok f n \<longleftrightarrow> (case f of ByYield \<Rightarrow> 1 \<le> n | ByTick \<Rightarrow> n = 1)"

fun point_ok :: "pthread \<Rightarrow> thread_point \<Rightarrow> bool" where
  "point_ok h (Suspending f n) \<longleftrightarrow> saved_ok f n \<and> rooIsIsr h = (f = ByTick)"
| "point_ok h (Waiting (Switched f n)) \<longleftrightarrow> saved_ok f n \<and> rooIsIsr h = (f = ByTick)"
| "point_ok h (Woken (Switched f n)) \<longleftrightarrow> saved_ok f n \<and> rooIsIsr h = (f = ByTick)"
| "point_ok h (Switching f u) \<longleftrightarrow> rooIsIsr h = (f = ByTick)"
| "point_ok h (Switched_Back f) \<longleftrightarrow> rooIsIsr h = (f = ByTick)"
| "point_ok h In_Handler \<longleftrightarrow> rooIsIsr h"
| "point_ok h Ended \<longleftrightarrow> cancelled h \<or> xDying h"
| "point_ok h p \<longleftrightarrow> \<not> rooIsIsr h"

definition thread_ok :: "pthread \<Rightarrow> bool" where
  "thread_ok h \<longleftrightarrow> (thread_at h \<noteq> In_Code \<longrightarrow> signals_blocked h) \<and> point_ok h (thread_at h)"

text \<open>Without control: asleep, on the way to sleep, on the way to the end, or ended.\<close>

fun resting_at :: "pthread \<Rightarrow> thread_point \<Rightarrow> bool" where
  "resting_at h (Suspending f n) \<longleftrightarrow> cancelled h \<or> \<not> event_triggered h"
| "resting_at h (Waiting Stopping) \<longleftrightarrow> False"
| "resting_at h (Waiting w) \<longleftrightarrow> cancelled h \<or> \<not> event_triggered h"
| "resting_at h (Woken w) \<longleftrightarrow> cancelled h"
| "resting_at h Ended \<longleftrightarrow> True"
| "resting_at h p \<longleftrightarrow> False"

abbreviation resting :: "pthread \<Rightarrow> bool" where
  "resting h \<equiv> resting_at h (thread_at h)"

definition stopped_port :: "port \<Rightarrow> bool" where
  "stopped_port s \<longleftrightarrow> xSchedulerEnd s \<or> main_at s = Main_Returned"

text \<open>With control, of the pthread \<open>h\<close> of task \<open>t\<close>.\<close>

abbreviation current :: "port \<Rightarrow> task option" where
  "current s \<equiv> pxCurrentTCB (pkern s)"

fun active_at :: "port \<Rightarrow> task \<Rightarrow> pthread \<Rightarrow> thread_point \<Rightarrow> bool" where
  "active_at s t h In_Code \<longleftrightarrow> current s = Some t \<and> \<not> event_triggered h \<and> 0 \<le> uxCriticalNesting s \<and>
     (0 < uxCriticalNesting s \<longrightarrow> signals_blocked h) \<and> (uxCriticalNesting s = 0 \<longrightarrow> kernel_ok s (pkern s))"
| "active_at s t h In_Yield \<longleftrightarrow> current s = Some t \<and> \<not> event_triggered h \<and>
     saved_ok ByYield (uxCriticalNesting s) \<and> kernel_ok s (pkern s)"
| "active_at s t h In_Handler \<longleftrightarrow> current s = Some t \<and> \<not> event_triggered h \<and>
     saved_ok ByTick (uxCriticalNesting s) \<and> kernel_ok s (pkern s)"
| "active_at s t h (Switching f u) \<longleftrightarrow> current s = Some u \<and> \<not> event_triggered h \<and>
     saved_ok f (uxCriticalNesting s) \<and> kernel_ok s (pkern s) \<and> u \<in> living_tasks s"
| "active_at s t h (Switched_Back f) \<longleftrightarrow> current s = Some t \<and> \<not> event_triggered h \<and>
     saved_ok f (uxCriticalNesting s) \<and> kernel_ok s (pkern s)"
| "active_at s t h (Suspending f n) \<longleftrightarrow> current s = Some t \<and> event_triggered h \<and> \<not> xDying h \<and>
     kernel_ok s (pkern s)"
| "active_at s t h (Waiting Stopping) \<longleftrightarrow> \<not> event_triggered h \<and> stopped_port s"
| "active_at s t h (Waiting w) \<longleftrightarrow> current s = Some t \<and> event_triggered h \<and> \<not> xDying h \<and>
     kernel_ok s (pkern s)"
| "active_at s t h (Woken w) \<longleftrightarrow> current s = Some t \<and> \<not> event_triggered h \<and> \<not> xDying h \<and>
     w \<noteq> Stopping \<and> kernel_ok s (pkern s)"
| "active_at s t h Joining_Ticker \<longleftrightarrow> current s = Some t \<and> \<not> event_triggered h \<and> kernel_ok s (pkern s)"
| "active_at s t h Ended \<longleftrightarrow> False"

definition in_control :: "port \<Rightarrow> task \<Rightarrow> bool" where
  "in_control s t \<longleftrightarrow> (\<exists>h. pthreads s t = Some h \<and> \<not> cancelled h \<and> dying_ok h (pkern s) \<and>
     active_at s t h (thread_at h)) \<and> (\<forall>u h. u \<noteq> t \<longrightarrow> pthreads s u = Some h \<longrightarrow> resting h)"

text \<open>Before the start: pthreads that have not been resumed, and the kernel in order.\<close>

definition not_started :: "pthread \<Rightarrow> bool" where
  "not_started h \<longleftrightarrow> h = (new_pthread True)\<lparr>sigalrm_pending := sigalrm_pending h\<rparr>"

definition setup_ok :: "port \<Rightarrow> bool" where
  "setup_ok s \<longleftrightarrow> (\<forall>t h. pthreads s t = Some h \<longrightarrow> not_started h) \<and> \<not> xSchedulerEnd s \<and>
     kernel_ok s (pkern s)"

definition port_inv :: "port \<Rightarrow> bool" where
  "port_inv s \<longleftrightarrow> (\<forall>t h. pthreads s t = Some h \<longrightarrow> thread_ok h) \<and>
     scheduled_tasks (pkern s) \<subseteq> living_tasks s \<and>
     (if main_at s = Main_Setup then setup_ok s else \<exists>t. in_control s t)"

end
