(* ===== verification/Port_Threads.thy ===== *)
theory Port_Threads
  imports Port_Steps
begin

text \<open>
  The invariant \<open>port_inv\<close> holds in every state that the threads of the port can reach, in whatever
  order they take their steps.
\<close>

section \<open>The kernel's part of a switch\<close>

lemma kernel_ok_cong: "living_tasks s = living_tasks s' \<Longrightarrow> kernel_ok s = kernel_ok s'"
  by (rule ext) (simp add: kernel_ok_def)

lemma scheduled_cong:
  "container (lists k') = container (lists k) \<Longrightarrow> scheduled_tasks k' = scheduled_tasks k"
  by (simp add: scheduled_tasks_def)

lemma ready_scheduled: "ready k t \<Longrightarrow> t \<in> scheduled_tasks k"
  by (auto simp: ready_def scheduled_tasks_def)

lemma switched_scheduled: "switched t k k' \<Longrightarrow> scheduled_tasks k' = scheduled_tasks k"
  by (rule scheduled_cong) (simp add: switched_def)

lemma select_needs_ready:
  assumes "kernel_core k" "taskSELECT_HIGHEST_PRIORITY_TASK k = Some k'" obtains r where "ready k r"
proof -
  obtain p where "select_top (lists k) (uxTopReadyPriority k) = Some p"
    using assms(2) by (auto simp: taskSELECT_HIGHEST_PRIORITY_TASK_def bind_eq_Some_conv)
  then have "members k (ReadyL p) \<noteq> []" by (simp add: select_top_Some)
  then obtain i where "i \<in> set (members k (ReadyL p))" by (cases "members k (ReadyL p)") auto
  from state_member [OF assms(1) this] have "state_list k (owner i) = Some (ReadyL p)"
    unfolding is_event_list.simps by blast
  then show ?thesis
    using that kernel_core_task [OF assms(1), of "owner i"] by (auto simp: ready_def task_ok_def)
qed

text \<open>The choice of the next task leaves the kernel in order and falls on a task it schedules.\<close>

lemma switch_context_ok:
  assumes k: "kernel_ok s k" "vTaskSwitchContext k = Some k'"
  shows "kernel_ok s k'" "uxSchedulerSuspended k' = uxSchedulerSuspended k"
    "scheduled_tasks k' = scheduled_tasks k"
    "if uxSchedulerSuspended k = 0 then \<exists>u \<in> scheduled_tasks k. pxCurrentTCB k' = Some u
     else pxCurrentTCB k' = pxCurrentTCB k"
proof -
  let ?Q = "\<lambda>k'. kernel_ok s k' \<and> uxSchedulerSuspended k' = uxSchedulerSuspended k \<and>
    scheduled_tasks k' = scheduled_tasks k \<and>
    (if uxSchedulerSuspended k = 0 then \<exists>u \<in> scheduled_tasks k. pxCurrentTCB k' = Some u
     else pxCurrentTCB k' = pxCurrentTCB k)"
  have "?Q k'"
  proof (cases "uxSchedulerSuspended k = 0")
    case False
    then have "k' = k\<lparr>xYieldPending := True\<rparr>" using k(2) by (simp add: vTaskSwitchContext_def)
    then show ?thesis using k(1) False by (simp add: kernel_ok_def scheduled_tasks_def)
  next
    case True
    then have inv: "kernel_inv k" using k(1) by (simp add: kernel_ok_def)
    note core = kernel_invD(1) [OF inv]
    have "kernel_core (k\<lparr>xYieldPending := False\<rparr>)"
      using core by (simp add: kernel_core_def live_tasks_def dead_tasks_def task_ok_def)
    moreover have "taskSELECT_HIGHEST_PRIORITY_TASK (k\<lparr>xYieldPending := False\<rparr>) = Some k'"
      using True k(2) by (simp add: vTaskSwitchContext_def)
    ultimately obtain r where "ready (k\<lparr>xYieldPending := False\<rparr>) r" by (rule select_needs_ready)
    then have r: "ready k r" by (simp add: ready_def)
    have "ensures (vTaskSwitchContext k) ?Q"
    proof (rule vTaskSwitchContext_ensures [OF core True r])
      fix k1 t assume t: "chosen k t" "switched t k k1"
      then have "t \<in> scheduled_tasks k" using ready_scheduled by (simp add: chosen_def)
      moreover have "kernel_ok s k1"
        using switched_inv [OF inv t] switched_scheduled [OF t(2)] k(1) by (simp add: kernel_ok_def)
      ultimately show "?Q k1" using t(2) switched_scheduled [OF t(2)] True by (simp add: switched_def)
    qed
    then show ?thesis using k(2) by simp
  qed
  then show "kernel_ok s k'" "uxSchedulerSuspended k' = uxSchedulerSuspended k"
    "scheduled_tasks k' = scheduled_tasks k"
    "if uxSchedulerSuspended k = 0 then \<exists>u \<in> scheduled_tasks k. pxCurrentTCB k' = Some u
     else pxCurrentTCB k' = pxCurrentTCB k" by blast+
qed

lemma tick_ok:
  assumes k: "kernel_ok s k" "pxCurrentTCB k = Some c"
    and post: "\<And>k' sw. \<lbrakk>kernel_ok s k'; pxCurrentTCB k' = Some c;
      uxSchedulerSuspended k' = uxSchedulerSuspended k\<rbrakk> \<Longrightarrow> Q (k', sw)"
  shows "ensures (xTaskIncrementTick k) Q"
proof (cases "uxSchedulerSuspended k = 0")
  case False
  have "kernel_ok s (k\<lparr>xPendedTicks := xPendedTicks k + 1\<rparr>)"
    using k(1) False by (simp add: kernel_ok_def scheduled_tasks_def)
  then show ?thesis using False k(2) post by (simp add: xTaskIncrementTick_def)
next
  case True
  then have inv: "kernel_inv k" using k(1) by (simp add: kernel_ok_def)
  show ?thesis
  proof (rule xTaskIncrementTick_ensures [OF inv k(2) True])
    fix k' assume k': "kernel_inv k'" "ticked (waking k) k k'" "same_lock k k'"
    have "scheduled_tasks k' \<subseteq> scheduled_tasks k"
      using ticked_lists(1) [OF k'(2)] timed_iff [OF kernel_invD(1) [OF inv]]
      by (auto simp: scheduled_tasks_def waking_def split: if_splits)
    then have "kernel_ok s k'" using k(1) k'(1) by (auto simp: kernel_ok_def)
    then show "Q (k', (\<exists>t \<in> waking k. prio k c < prio k t) \<or>
        1 < length (members k' (ReadyL (prio k c))) \<or> xYieldPending k)"
      using ticked_frame(2) [OF k'(2)] k'(3) k(2) by (intro post) (simp_all add: same_lock_def)
  qed
qed

lemma ticks_ok:
  assumes "kernel_ok s k" "pxCurrentTCB k = Some c"
  shows "ensures (tick_handler_loop n r k) (\<lambda>(k', r'). kernel_ok s k' \<and> pxCurrentTCB k' = Some c \<and>
    uxSchedulerSuspended k' = uxSchedulerSuspended k)"
  using assms
proof (induction n arbitrary: r k)
  case 0
  then show ?case by simp
next
  case (Suc n)
  show ?case
    unfolding tick_handler_loop.simps ensures_bind
  proof (rule tick_ok [OF Suc.prems], unfold prod.case)
    fix k1 sw assume k1: "kernel_ok s k1" "pxCurrentTCB k1 = Some c"
      "uxSchedulerSuspended k1 = uxSchedulerSuspended k"
    show "ensures (tick_handler_loop n (r \<or> sw) k1) (\<lambda>(k', r'). kernel_ok s k' \<and> pxCurrentTCB k' = Some c \<and>
        uxSchedulerSuspended k' = uxSchedulerSuspended k)"
      using Suc.IH [OF k1(1,2)] k1(3) by (rule_tac ensures_mono) auto
  qed
qed

section \<open>Moving one thread\<close>

lemma living_upd:
  assumes "pthreads s' = (pthreads s)(t \<mapsto> h')" "pthreads s t = Some h"
    "cancelled h' = cancelled h" "xDying h' = xDying h"
  shows "living_tasks s' = living_tasks s"
  using assms by (auto simp: living_tasks_def)

lemma port_invD:
  assumes "port_inv s"
  shows "pthreads s t = Some h \<Longrightarrow> thread_ok h" "scheduled_tasks (pkern s) \<subseteq> living_tasks s"
    "main_at s = Main_Setup \<Longrightarrow> setup_ok s"
  using assms by (auto simp: port_inv_def)

lemma control_or_resting:
  assumes "port_inv s" "main_at s \<noteq> Main_Setup" "pthreads s t = Some h"
  obtains "in_control s t" | c where "in_control s c" "c \<noteq> t" "resting h"
proof -
  from assms obtain c where c: "in_control s c" by (auto simp: port_inv_def)
  show ?thesis
  proof (cases "c = t")
    case False
    then have "t \<noteq> c" by simp
    with c assms(3) have "resting h" unfolding in_control_def by metis
    then show ?thesis by (rule that(2) [OF c False])
  qed (use that(1) c in blast)
qed

lemma in_controlD:
  assumes "in_control s t" "pthreads s t = Some h"
  shows "\<not> cancelled h" "dying_ok h (pkern s)" "active_at s t h (thread_at h)"
  using assms by (auto simp: in_control_def)

lemma active_at_cong:
  assumes "pkern s' = pkern s" "uxCriticalNesting s' = uxCriticalNesting s"
    "living_tasks s' = living_tasks s" "stopped_port s' = stopped_port s"
  shows "active_at s' t h p = active_at s t h p"
  using assms kernel_ok_cong [OF assms(3)] by (cases "(s, t, h, p)" rule: active_at.cases) simp_all

text \<open>The task with control changes its own pthread, the kernel and the shared variables.\<close>

lemma port_inv_control:
  assumes inv: "port_inv s" and c: "in_control s t" and m: "main_at s \<noteq> Main_Setup" "main_at s' \<noteq> Main_Setup"
    and th: "pthreads s' = (pthreads s)(t \<mapsto> h')" "thread_ok h'"
    and act: "\<not> cancelled h'" "dying_ok h' (pkern s')" "active_at s' t h' (thread_at h')"
    and k: "scheduled_tasks (pkern s') \<subseteq> living_tasks s'"
  shows "port_inv s'"
proof -
  have "in_control s' t"
    using c th(1) act by (auto simp: in_control_def)
  moreover have "thread_ok h" if "pthreads s' u = Some h" for u h
    using that th port_invD(1) [OF inv, of u] by (auto split: if_splits)
  ultimately show ?thesis using m k by (auto simp: port_inv_def)
qed

text \<open>A thread without control moves on, and nobody else notices.\<close>

lemma port_inv_resting:
  assumes inv: "port_inv s" and c: "in_control s c" "c \<noteq> t" and m: "main_at s \<noteq> Main_Setup"
    and th: "pthreads s t = Some h" "thread_ok h'" "resting h'" "cancelled h' = cancelled h" "xDying h' = xDying h"
    and s': "s' = s\<lparr>pthreads := (pthreads s)(t \<mapsto> h')\<rparr>"
  shows "port_inv s'"
proof -
  have l: "living_tasks s' = living_tasks s" by (rule living_upd [where h' = h' and h = h and t = t]) (use s' th in simp_all)
  have "active_at s' c h p = active_at s c h p" for h p
    by (rule active_at_cong) (simp_all add: l, simp_all add: s' stopped_port_def)
  then have "in_control s' c" using c th(1,3) by (auto simp: in_control_def s')
  moreover have "thread_ok x" if "pthreads s' u = Some x" for u x
    using that th(2) s' port_invD(1) [OF inv, of u] by (auto split: if_splits)
  ultimately show ?thesis using port_invD(2) [OF inv] m l s' by (auto simp: port_inv_def)
qed

section \<open>The steps of the task in control\<close>

lemma setup_thread:
  assumes "port_inv s" "main_at s = Main_Setup" "pthreads s t = Some h" shows "not_started h"
  using port_invD(3) [OF assms(1,2)] assms(3) unfolding setup_ok_def by blast

lemma not_startedD:
  assumes "not_started h"
  shows "thread_at h = Waiting Starting" "\<not> event_triggered h" "\<not> cancelled h" "\<not> xDying h" "resting h" "thread_ok h"
proof -
  obtain b where "h = (new_pthread True)\<lparr>sigalrm_pending := b\<rparr>" using assms by (auto simp: not_started_def)
  then show "thread_at h = Waiting Starting" "\<not> event_triggered h" "\<not> cancelled h" "\<not> xDying h" "resting h" "thread_ok h"
    by (simp_all add: new_pthread_def thread_ok_def)
qed

lemma not_resting:
  assumes inv: "port_inv s" and h: "pthreads s t = Some h" "\<not> resting h"
  shows "main_at s \<noteq> Main_Setup" "in_control s t"
proof -
  have "not_started h" if "main_at s = Main_Setup" by (rule setup_thread [OF inv that h(1)])
  then show m: "main_at s \<noteq> Main_Setup" using h(2) not_startedD by blast
  show "in_control s t" by (rule control_or_resting [OF inv m h(1)]) (use h(2) in blast)+
qed

lemma control_step:
  assumes inv: "port_inv s" and h: "pthreads s t = Some h" "\<not> resting h"
    and th: "pthreads s' = (pthreads s)(t \<mapsto> h')" "cancelled h' = cancelled h" "xDying h' = xDying h"
    and m: "main_at s' = main_at s"
    and k: "scheduled_tasks (pkern s') \<subseteq> living_tasks s"
    and ok: "thread_ok h'" "dying_ok h' (pkern s')"
    and act: "living_tasks s' = living_tasks s \<Longrightarrow> kernel_ok s' = kernel_ok s \<Longrightarrow>
      active_at s' t h' (thread_at h')"
  shows "port_inv s'"
proof -
  note c = not_resting [OF inv h]
  have l: "living_tasks s' = living_tasks s" by (rule living_upd [OF th(1) h(1) th(2,3)])
  show ?thesis
    by (rule port_inv_control [OF inv c(2,1) _ th(1) ok(1) _ ok(2) act [OF l kernel_ok_cong [OF l]]])
      (use m c(1) in_controlD(1) [OF c(2) h(1)] th(2) k l in simp_all)
qed

text \<open>What is known of a task in its code, and of one inside the port.\<close>

lemma in_code_control:
  assumes inv: "port_inv s" and h: "pthreads s t = Some h" "thread_at h = In_Code"
  shows "in_control s t" "main_at s \<noteq> Main_Setup" "\<not> cancelled h" "dying_ok h (pkern s)" "current s = Some t"
    "\<not> event_triggered h" "0 \<le> uxCriticalNesting s" "0 < uxCriticalNesting s \<Longrightarrow> signals_blocked h"
    "uxCriticalNesting s = 0 \<Longrightarrow> kernel_ok s (pkern s)" "\<not> rooIsIsr h"
proof -
  have r: "\<not> resting h" using h(2) by simp
  note c = not_resting [OF inv h(1) r]
  show "in_control s t" "main_at s \<noteq> Main_Setup" by (rule c)+
  show "\<not> cancelled h" "dying_ok h (pkern s)" "current s = Some t"
    "\<not> event_triggered h" "0 \<le> uxCriticalNesting s" "0 < uxCriticalNesting s \<Longrightarrow> signals_blocked h"
    "uxCriticalNesting s = 0 \<Longrightarrow> kernel_ok s (pkern s)"
    using in_controlD [OF c(2) h(1)] h(2) by simp_all
  show "\<not> rooIsIsr h" using port_invD(1) [OF inv h(1)] h(2) by (simp add: thread_ok_def)
qed

lemma at_point_control:
  assumes inv: "port_inv s" and h: "pthreads s t = Some h" "\<not> resting h"
  shows "thread_ok h" "dying_ok h (pkern s)" "\<not> cancelled h" "active_at s t h (thread_at h)"
  using port_invD(1) [OF inv h(1)] in_controlD [OF not_resting(2) [OF inv h] h(1)] by simp_all

lemma code_inv:
  assumes inv: "port_inv s" and t: "in_code s t" and k: "pxCurrentTCB k = pxCurrentTCB (pkern s)"
    "scheduled_tasks k \<subseteq> living_tasks s" "dying_ok (prvGetThreadFromTask t s) k"
    "uxCriticalNesting s = 0 \<longrightarrow> kernel_ok s k"
  shows "port_inv (s\<lparr>pkern := k\<rparr>)"
proof -
  obtain h where h: "pthreads s t = Some h" "thread_at h = In_Code" using t by (auto simp: in_code_def)
  note c = in_code_control [OF inv h]
  show ?thesis
    by (rule control_step [OF inv h(1), where h' = h])
      (use h c k port_invD(1) [OF inv h(1)] in \<open>auto simp: fun_upd_idem\<close>)
qed

lemma enter_inv: assumes inv: "port_inv s" and t: "in_code s t" shows "port_inv (vPortEnterCritical t s)"
proof -
  obtain h where h: "pthreads s t = Some h" "thread_at h = In_Code" using t by (auto simp: in_code_def)
  note c = in_code_control [OF inv h]
  have th: "thread_ok h" by (rule port_invD(1) [OF inv h(1)])
  show ?thesis
    by (rule control_step [OF inv h(1), where h' = "h\<lparr>signals_blocked := True\<rparr>"])
      (use h c th port_invD(2) [OF inv] in \<open>auto simp: vPortEnterCritical_def vPortDisableInterrupts_def Let_def
          thread_ok_def dying_ok_def fun_upd_idem\<close>)
qed

lemma exit_inv:
  assumes inv: "port_inv s" and t: "in_code s t" and n: "0 < uxCriticalNesting s"
    "uxCriticalNesting s = 1 \<longrightarrow> kernel_ok s (pkern s)"
  shows "port_inv (vPortExitCritical t s)"
proof -
  obtain h where h: "pthreads s t = Some h" "thread_at h = In_Code" using t by (auto simp: in_code_def)
  note c = in_code_control [OF inv h]
  have th: "thread_ok h" by (rule port_invD(1) [OF inv h(1)])
  show ?thesis
    by (rule control_step [OF inv h(1), where h' = "if uxCriticalNesting s = 1 then h\<lparr>signals_blocked := False\<rparr> else h"])
      (use h c th n port_invD(2) [OF inv] in \<open>auto simp: vPortExitCritical_def vPortEnableInterrupts_def Let_def
          thread_ok_def dying_ok_def fun_upd_idem\<close>)
qed

lemma mask_inv:
  assumes inv: "port_inv s" and t: "in_code s t"
  shows "port_inv (vPortDisableInterrupts t s)"
    "uxCriticalNesting s = 0 \<Longrightarrow> port_inv (vPortEnableInterrupts t s)"
proof -
  obtain h where h: "pthreads s t = Some h" "thread_at h = In_Code" using t by (auto simp: in_code_def)
  note c = in_code_control [OF inv h]
  have th: "thread_ok h" by (rule port_invD(1) [OF inv h(1)])
  show "port_inv (vPortDisableInterrupts t s)"
    by (rule control_step [OF inv h(1), where h' = "h\<lparr>signals_blocked := True\<rparr>"])
      (use h c th port_invD(2) [OF inv] in \<open>auto simp: vPortDisableInterrupts_def thread_ok_def dying_ok_def\<close>)
  show "port_inv (vPortEnableInterrupts t s)" if "uxCriticalNesting s = 0"
    by (rule control_step [OF inv h(1), where h' = "h\<lparr>signals_blocked := False\<rparr>"])
      (use h c th that port_invD(2) [OF inv] in \<open>auto simp: vPortEnableInterrupts_def thread_ok_def dying_ok_def\<close>)
qed

lemma yield_call_inv:
  assumes inv: "port_inv s" and t: "in_code s t" and k: "kernel_ok s (pkern s)"
  shows "port_inv (vPortYield_enter t s)"
proof -
  obtain h where h: "pthreads s t = Some h" "thread_at h = In_Code" using t by (auto simp: in_code_def)
  note c = in_code_control [OF inv h]
  show ?thesis
    by (rule control_step [OF inv h(1), where h' = "h\<lparr>thread_at := In_Yield, signals_blocked := True\<rparr>"])
      (use h c k port_invD(2) [OF inv] in \<open>auto simp: vPortYield_enter_def vPortEnterCritical_def
          vPortDisableInterrupts_def Let_def thread_ok_def dying_ok_def saved_ok_def\<close>)
qed

lemma stop_inv:
  assumes inv: "port_inv s" and t: "in_code s t" and k: "kernel_ok s (pkern s)"
    and b: "signals_blocked (prvGetThreadFromTask t s)"
  shows "port_inv (vPortEndScheduler t s)"
proof -
  obtain h where h: "pthreads s t = Some h" "thread_at h = In_Code" using t by (auto simp: in_code_def)
  note c = in_code_control [OF inv h]
  show ?thesis
    by (rule control_step [OF inv h(1), where h' = "h\<lparr>thread_at := Joining_Ticker\<rparr>"])
      (use h c k b port_invD(2) [OF inv] in \<open>auto simp: vPortEndScheduler_def thread_ok_def dying_ok_def\<close>)
qed

lemma stopped_inv:
  assumes inv: "port_inv s" and t: "at_point s t Joining_Ticker"
  shows "port_inv (vPortEndScheduler_joined t s)"
proof -
  obtain h where h: "pthreads s t = Some h" "thread_at h = Joining_Ticker" using t by (auto simp: at_point_def)
  have r: "\<not> resting h" using h(2) by simp
  note c = at_point_control [OF inv h(1) r]
  show ?thesis
    by (rule control_step [OF inv h(1) r, where h' = "h\<lparr>thread_at := Waiting Stopping\<rparr>"])
      (use h c port_invD(2) [OF inv] in \<open>auto simp: vPortEndScheduler_joined_def thread_ok_def dying_ok_def
         stopped_port_def\<close>)
qed

lemma interrupt_inv:
  assumes inv: "port_inv s" and h: "pthreads s t = Some h" "thread_at h = In_Code" "\<not> signals_blocked h"
  shows "port_inv (tick_handler_enter t s)" "uxCriticalNesting s = 0"
proof -
  note c = in_code_control [OF inv h(1,2)]
  show n: "uxCriticalNesting s = 0" using c(7,8) h(3) by force
  show "port_inv (tick_handler_enter t s)"
    by (rule control_step [OF inv h(1), where h' = "h\<lparr>thread_at := In_Handler, signals_blocked := True,
        sigalrm_pending := False, rooIsIsr := True\<rparr>"])
      (use h c n port_invD(2) [OF inv] in \<open>auto simp: tick_handler_enter_def thread_ok_def dying_ok_def saved_ok_def\<close>)
qed

text \<open>The choice of the next task, by a thread that is not being deleted or by one that is.\<close>

lemma switching_inv:
  assumes inv: "port_inv s" and h: "pthreads s t = Some h" "\<not> resting h" "signals_blocked h"
    and f: "rooIsIsr h = (f = ByTick)" "saved_ok f (uxCriticalNesting s)" "\<not> event_triggered h"
    and k: "kernel_ok s k" "pxCurrentTCB k = Some t" "dying_ok h k" "vTaskSwitchContext k = Some k'"
      "pxCurrentTCB k' = Some u"
  shows "port_inv (go_to t (Switching f u) (s\<lparr>pkern := k'\<rparr>))"
proof -
  note sw = switch_context_ok [OF k(1,4)]
  have sub: "scheduled_tasks k \<subseteq> living_tasks s" using k(1) by (simp add: kernel_ok_def)
  have u: "u \<in> living_tasks s"
  proof (cases "uxSchedulerSuspended k = 0")
    case True
    then show ?thesis using sw(4) k(5) sub by auto
  next
    case False
    then have "u = t" "\<not> xDying h" using sw(4) k(2,3,5) by (auto simp: dying_ok_def)
    then show ?thesis using h(1) at_point_control(3) [OF inv h(1,2)] by (simp add: living_tasks_def)
  qed
  show ?thesis
    by (rule control_step [OF inv h(1,2), where h' = "h\<lparr>thread_at := Switching f u\<rparr>"])
      (use h f k sw sub u in \<open>auto simp: thread_ok_def dying_ok_def\<close>)
qed

lemma yield_inv:
  assumes inv: "port_inv s" and t: "at_point s t In_Yield" and s': "prvPortYieldFromISR t s = Some s'"
  shows "port_inv s'"
proof -
  obtain h where h: "pthreads s t = Some h" "thread_at h = In_Yield" using t by (auto simp: at_point_def)
  have r: "\<not> resting h" using h(2) by simp
  note c = at_point_control [OF inv h(1) r]
  obtain k u where k: "vTaskSwitchContext (pkern s) = Some k" "pxCurrentTCB k = Some u"
    "s' = go_to t (Switching ByYield u) (s\<lparr>pkern := k\<rparr>)"
    using s' by (auto simp: prvPortYieldFromISR_def bind_eq_Some_conv)
  show ?thesis
    unfolding k(3) by (rule switching_inv [OF inv h(1) r]) (use h(2) c k(1,2) in \<open>simp_all add: thread_ok_def\<close>)
qed

lemma handler_inv_step:
  assumes inv: "port_inv s" and t: "at_point s t In_Handler"
    and poll: "\<And>k r. poll (pkern s) = Some (k, r) \<Longrightarrow> pxCurrentTCB k = pxCurrentTCB (pkern s) \<and> kernel_ok s k \<and>
      uxSchedulerSuspended k = uxSchedulerSuspended (pkern s)"
    and s': "tick_handler_body poll elapsed t s = Some s'"
  shows "port_inv s'"
proof -
  obtain h where h: "pthreads s t = Some h" "thread_at h = In_Handler" using t by (auto simp: at_point_def)
  have r: "\<not> resting h" using h(2) by simp
  note c = at_point_control [OF inv h(1) r]
  obtain k0 r0 k1 r1 where k0: "poll (pkern s) = Some (k0, r0)"
    and k1: "tick_handler_loop (unat elapsed) r0 k0 = Some (k1, r1)"
    and body: "(if r1 then do { k \<leftarrow> vTaskSwitchContext k1; next_task \<leftarrow> pxCurrentTCB k;
         Some (go_to t (Switching ByTick next_task) (s\<lparr>pkern := k\<rparr>)) }
       else Some (go_to t (Switched_Back ByTick) (s\<lparr>pkern := k1\<rparr>))) = Some s'"
    using s' by (auto simp: tick_handler_body_def bind_eq_Some_conv)
  have c0: "pxCurrentTCB k0 = Some t" using poll [OF k0] c(4) h(2) by simp
  have "kernel_ok s k1 \<and> pxCurrentTCB k1 = Some t \<and> uxSchedulerSuspended k1 = uxSchedulerSuspended k0"
    using ticks_ok [OF _ c0, of s "unat elapsed" r0] poll [OF k0] k1 by simp
  then have ok1: "kernel_ok s k1" "pxCurrentTCB k1 = Some t" "dying_ok h k1"
    using poll [OF k0] c(2) by (simp_all add: dying_ok_def)
  show ?thesis
  proof (cases r1)
    case True
    then obtain k u where k: "vTaskSwitchContext k1 = Some k" "pxCurrentTCB k = Some u"
      "s' = go_to t (Switching ByTick u) (s\<lparr>pkern := k\<rparr>)"
      using body by (auto simp: bind_eq_Some_conv)
    show ?thesis
      unfolding k(3) by (rule switching_inv [OF inv h(1) r])
        (use h(2) c k(1,2) ok1 in \<open>simp_all add: thread_ok_def\<close>)
  next
    case False
    then have s'_eq: "s' = go_to t (Switched_Back ByTick) (s\<lparr>pkern := k1\<rparr>)" using body by simp
    show ?thesis
      unfolding s'_eq by (rule control_step [OF inv h(1) r, where h' = "h\<lparr>thread_at := Switched_Back ByTick\<rparr>"])
        (use h c ok1 in \<open>auto simp: thread_ok_def dying_ok_def kernel_ok_def\<close>)
  qed
qed

lemma switch_return_inv:
  assumes inv: "port_inv s" and t: "at_point s t (Switched_Back f)"
  shows "port_inv (switch_return f t s)"
proof -
  obtain h where h: "pthreads s t = Some h" "thread_at h = Switched_Back f" using t by (auto simp: at_point_def)
  have r: "\<not> resting h" using h(2) by simp
  note c = at_point_control [OF inv h(1) r]
  show ?thesis
  proof (cases f)
    case ByYield
    show ?thesis
      by (rule control_step [OF inv h(1) r, where h' = "if uxCriticalNesting s = 1
          then h\<lparr>thread_at := In_Code, signals_blocked := False\<rparr> else h\<lparr>thread_at := In_Code\<rparr>"])
        (use h c ByYield port_invD(2) [OF inv] in \<open>auto simp: switch_return_def vPortYield_leave_def
            vPortExitCritical_def vPortEnableInterrupts_def Let_def thread_ok_def dying_ok_def saved_ok_def\<close>)
  next
    case ByTick
    show ?thesis
      by (rule control_step [OF inv h(1) r, where h' = "h\<lparr>thread_at := In_Code, signals_blocked := False,
          rooIsIsr := False\<rparr>"])
        (use h c ByTick port_invD(2) [OF inv] in \<open>auto simp: switch_return_def tick_handler_leave_def
            thread_ok_def dying_ok_def saved_ok_def\<close>)
  qed
qed

section \<open>Handing over, and going to sleep\<close>

lemma waiting_simps [simp]:
  "w \<noteq> Stopping \<Longrightarrow> active_at s t h (Waiting w) \<longleftrightarrow> current s = Some t \<and> event_triggered h \<and>
     \<not> xDying h \<and> kernel_ok s (pkern s)"
  "w \<noteq> Stopping \<Longrightarrow> resting_at h (Waiting w) \<longleftrightarrow> cancelled h \<or> \<not> event_triggered h"
  by (cases w; simp)+

lemma point_ok_frame [simp]:
  "point_ok (h\<lparr>event_triggered := b\<rparr>) p = point_ok h p" "point_ok (h\<lparr>sigalrm_pending := b\<rparr>) p = point_ok h p"
  "point_ok (h\<lparr>joining := j\<rparr>) p = point_ok h p" "point_ok h p \<Longrightarrow> point_ok (h\<lparr>cancelled := True\<rparr>) p"
  by (cases "(h, p)" rule: point_ok.cases; simp)+

text \<open>
  The switch itself: control passes to the thread whose event is triggered. It is asleep or
  about to sleep, with its event not yet triggered.
\<close>

lemma resume_inv:
  assumes inv: "port_inv s" and t: "at_point s t (Switching f u)"
  shows "port_inv (prvSwitchThread_resume f u t s)"
proof -
  obtain h where h: "pthreads s t = Some h" "thread_at h = Switching f u" using t by (auto simp: at_point_def)
  have r: "\<not> resting h" using h(2) by simp
  note c = at_point_control [OF inv h(1) r] and nr = not_resting [OF inv h(1) r]
  show ?thesis
  proof (cases "t = u")
    case True
    show ?thesis
      by (rule control_step [OF inv h(1) r, where h' = "h\<lparr>thread_at := Switched_Back f\<rparr>"])
        (use h c True port_invD(2) [OF inv] in \<open>auto simp: prvSwitchThread_resume_def thread_ok_def dying_ok_def\<close>)
  next
    case False
    let ?s' = "prvSwitchThread_resume f u t s" and ?n = "uxCriticalNesting s"
    let ?h = "h\<lparr>thread_at := Suspending f ?n\<rparr>"
    from c(4) h(2) have act: "current s = Some u" "\<not> event_triggered h" "saved_ok f ?n"
      "kernel_ok s (pkern s)" "u \<in> living_tasks s" by simp_all
    from act(5) obtain g where g: "pthreads s u = Some g" "\<not> cancelled g" "\<not> xDying g"
      by (auto simp: living_tasks_def)
    have gr: "resting g" using nr(2) g(1) False unfolding in_control_def by metis
    have gp: "(\<exists>f n. thread_at g = Suspending f n) \<or> (\<exists>w. thread_at g = Waiting w \<and> w \<noteq> Stopping)"
      using gr g(2,3) port_invD(1) [OF inv g(1)]
      by (cases "(g, thread_at g)" rule: resting_at.cases) (auto simp: thread_ok_def)
    have th: "pthreads ?s' = (pthreads s)(t \<mapsto> ?h, u \<mapsto> g\<lparr>event_triggered := True\<rparr>)"
      and same: "pkern ?s' = pkern s" "main_at ?s' = main_at s"
      using False h(1) g(1) by (auto simp: prvSwitchThread_resume_def prvResumeThread_def event_signal_def)
    have l: "living_tasks ?s' = living_tasks s"
      using g h(1) False by (auto simp: living_tasks_def th)
    have "in_control ?s' u"
      unfolding in_control_def
    proof (intro conjI exI allI impI)
      show "pthreads ?s' u = Some (g\<lparr>event_triggered := True\<rparr>)" by (simp add: th)
      show "\<not> cancelled (g\<lparr>event_triggered := True\<rparr>)" "dying_ok (g\<lparr>event_triggered := True\<rparr>) (pkern ?s')"
        using g by (simp_all add: dying_ok_def)
      show "active_at ?s' u (g\<lparr>event_triggered := True\<rparr>) (thread_at (g\<lparr>event_triggered := True\<rparr>))"
        using gp act g kernel_ok_cong [OF l] same by auto
      fix v x assume "v \<noteq> u" "pthreads ?s' v = Some x"
      then show "resting x" using nr(2) act(2) th unfolding in_control_def by (cases "v = t") auto
    qed
    moreover have "thread_ok x" if "pthreads ?s' v = Some x" for v x
      using that th port_invD(1) [OF inv, of v] c(1) h(2) act(3) port_invD(1) [OF inv g(1)] gp
      by (auto simp: thread_ok_def split: if_splits)
    ultimately show ?thesis using port_invD(2) [OF inv] nr(1) l same by (auto simp: port_inv_def)
  qed
qed

text \<open>A step of a thread without control.\<close>

lemma active_not_resting: "active_at s t h p \<Longrightarrow> \<not> cancelled h \<Longrightarrow> \<not> resting_at h p"
  by (cases "(s, t, h, p)" rule: active_at.cases) auto

lemma resting_step:
  assumes inv: "port_inv s" and h: "pthreads s t = Some h" "resting h" "\<not> not_started h"
    and h': "thread_ok h'" "resting h'" "cancelled h' = cancelled h" "xDying h' = xDying h"
    and s': "s' = s\<lparr>pthreads := (pthreads s)(t \<mapsto> h')\<rparr>"
  shows "port_inv s'"
proof -
  have m: "main_at s \<noteq> Main_Setup" using setup_thread [OF inv _ h(1)] h(3) by blast
  show ?thesis
  proof (rule control_or_resting [OF inv m h(1)])
    assume "in_control s t"
    from in_controlD [OF this h(1)] show ?thesis using active_not_resting h(2) by blast
  next
    fix c assume "in_control s c" "c \<noteq> t"
    then show ?thesis by (rule port_inv_resting [OF inv _ _ m h(1) h' s'])
  qed
qed

lemma suspend_inv:
  assumes inv: "port_inv s" and t: "at_point s t (Suspending f n)"
  shows "port_inv (prvSwitchThread_suspend f n t s)"
proof -
  obtain h where h: "pthreads s t = Some h" "thread_at h = Suspending f n" using t by (auto simp: at_point_def)
  have th: "thread_ok h" by (rule port_invD(1) [OF inv h(1)])
  let ?h = "h\<lparr>thread_at := if xDying h then Ended else Waiting (Switched f n)\<rparr>"
  show ?thesis
  proof (cases "resting h")
    case True
    show ?thesis
      by (rule resting_step [OF inv h(1) True, where h' = ?h])
        (use h th True in \<open>auto simp: prvSwitchThread_suspend_def thread_ok_def dest: not_startedD\<close>)
  next
    case False
    note c = at_point_control [OF inv h(1) False]
    show ?thesis
      by (rule control_step [OF inv h(1) False, where h' = ?h])
        (use h c port_invD(2) [OF inv] in \<open>auto simp: prvSwitchThread_suspend_def thread_ok_def dying_ok_def\<close>)
  qed
qed

text \<open>A thread whose event is triggered has control, unless it has been cancelled.\<close>

lemma wake_inv:
  assumes inv: "port_inv s" and t: "at_point s t (Waiting w)" and s': "event_wait t s = Some s'"
  shows "port_inv (go_to t (Woken w) s')"
proof -
  obtain h where h: "pthreads s t = Some h" "thread_at h = Waiting w" using t by (auto simp: at_point_def)
  have th: "thread_ok h" by (rule port_invD(1) [OF inv h(1)])
  let ?h = "h\<lparr>event_triggered := False, thread_at := Woken w\<rparr>"
  have ev: "event_triggered h" and s'_eq: "go_to t (Woken w) s' = s\<lparr>pthreads := (pthreads s)(t \<mapsto> ?h)\<rparr>"
    using s' h by (auto simp: event_wait_def split: if_splits)
  have ok: "thread_ok ?h" using th h(2) by (cases w) (simp_all add: thread_ok_def)
  show ?thesis
  proof (cases "resting h")
    case True
    then have x: "cancelled h" using h(2) ev by (cases w) simp_all
    show ?thesis
      by (rule resting_step [OF inv h(1) True _ ok _ _ _ s'_eq]) (use x in \<open>auto dest: not_startedD\<close>)
  next
    case False
    note c = at_point_control [OF inv h(1) False]
    have w: "w \<noteq> Stopping" using c(4) h(2) ev by auto
    show ?thesis
      unfolding s'_eq by (rule control_step [OF inv h(1) False, where h' = ?h])
        (use h c w ok port_invD(2) [OF inv] in \<open>auto simp: dying_ok_def\<close>)
  qed
qed

lemma wait_cancelled_inv:
  assumes inv: "port_inv s" and t: "at_point s t (Waiting w)" and x: "cancelled (prvGetThreadFromTask t s)"
  shows "port_inv (go_to t Ended s)"
proof -
  obtain h where h: "pthreads s t = Some h" "thread_at h = Waiting w" using t by (auto simp: at_point_def)
  have th: "thread_ok h" by (rule port_invD(1) [OF inv h(1)])
  have x': "cancelled h" using x h(1) by simp
  show ?thesis
  proof (cases "resting h")
    case True
    show ?thesis
      by (rule resting_step [OF inv h(1) True, where h' = "h\<lparr>thread_at := Ended\<rparr>"])
        (use h th x' in \<open>auto simp: thread_ok_def dest: not_startedD\<close>)
  qed (use at_point_control(3) [OF inv h(1)] x' in blast)
qed

text \<open>\<open>pthread_testcancel\<close>, and what runs after it with control regained.\<close>

lemma testcancel_inv:
  assumes inv: "port_inv s" and t: "at_point s t (Woken w)"
  shows "port_inv (testcancel w t s)"
proof -
  obtain h where h: "pthreads s t = Some h" "thread_at h = Woken w" using t by (auto simp: at_point_def)
  have th: "thread_ok h" by (rule port_invD(1) [OF inv h(1)])
  show ?thesis
  proof (cases "resting h")
    case True
    then have x: "cancelled h" using h(2) by simp
    show ?thesis
      by (rule resting_step [OF inv h(1) True, where h' = "h\<lparr>thread_at := Ended\<rparr>"])
        (use h th x in \<open>auto simp: thread_ok_def testcancel_def dest: not_startedD\<close>)
  next
    case False
    note c = at_point_control [OF inv h(1) False]
    show ?thesis
    proof (cases w)
      case Starting
      show ?thesis
        by (rule control_step [OF inv h(1) False, where h' = "h\<lparr>signals_blocked := False, thread_at := In_Code\<rparr>"])
          (use h c Starting port_invD(2) [OF inv] in \<open>auto simp: testcancel_def prvWaitForStart_resumed_def
             vPortEnableInterrupts_def thread_ok_def dying_ok_def\<close>)
    next
      case (Switched f n)
      show ?thesis
        by (rule control_step [OF inv h(1) False, where h' = "h\<lparr>thread_at := Switched_Back f\<rparr>"])
          (use h c Switched port_invD(2) [OF inv] in \<open>auto simp: testcancel_def prvSwitchThread_restore_def
             thread_ok_def dying_ok_def\<close>)
    qed (use c(4) h(2) in simp)
  qed
qed

section \<open>Creating and deleting\<close>

text \<open>The task with control changes what there is of threads, and stays in its code.\<close>

lemma code_change:
  assumes inv: "port_inv s" and h: "pthreads s t = Some h" "thread_at h = In_Code"
    and th: "pthreads s' t = Some h'" "thread_at h' = In_Code" "cancelled h' = cancelled h"
      "event_triggered h' = event_triggered h" "rooIsIsr h' = rooIsIsr h" "dying_ok h' (pkern s)"
      "0 < uxCriticalNesting s \<Longrightarrow> signals_blocked h' = signals_blocked h"
    and others: "\<And>u g. u \<noteq> t \<Longrightarrow> pthreads s' u = Some g \<Longrightarrow> resting g \<and> thread_ok g"
    and same: "pkern s' = pkern s" "uxCriticalNesting s' = uxCriticalNesting s" "main_at s' = main_at s"
    and k: "scheduled_tasks (pkern s) \<subseteq> living_tasks s'"
  shows "port_inv s'"
proof -
  note c = in_code_control [OF inv h]
  have "kernel_ok s' (pkern s')" if "uxCriticalNesting s = 0"
    using c(9) [OF that] k same(1) by (simp add: kernel_ok_def)
  then have "in_control s' t"
    using c th others same unfolding in_control_def by auto
  moreover have "thread_ok h'" using th(2,5) c(10) by (simp add: thread_ok_def)
  ultimately show ?thesis
    using others th(1) c(2) k same unfolding port_inv_def by (metis option.inject)
qed

lemma others_rest:
  assumes "in_control s t" "u \<noteq> t" "pthreads s u = Some g" shows "resting g"
  using assms unfolding in_control_def by metis

lemma create_inv:
  assumes inv: "port_inv s" and t: "in_code s t" and u: "pthreads s u = None"
  shows "port_inv (pxPortInitialiseStack t u s)"
proof -
  obtain h where h: "pthreads s t = Some h" "thread_at h = In_Code" using t by (auto simp: in_code_def)
  note c = in_code_control [OF inv h]
  let ?s' = "pxPortInitialiseStack t u s"
  let ?h' = "if uxCriticalNesting s = 0 then h\<lparr>signals_blocked := False\<rparr> else h"
  have ut: "u \<noteq> t" using h(1) u by auto
  have th: "pthreads ?s' = (pthreads s)(t \<mapsto> ?h', u \<mapsto> new_pthread True)"
    and same: "pkern ?s' = pkern s" "uxCriticalNesting ?s' = uxCriticalNesting s" "main_at ?s' = main_at s"
    using h(1) ut c(7,8) by (auto simp: pxPortInitialiseStack_def vPortEnterCritical_def vPortExitCritical_def
        vPortDisableInterrupts_def vPortEnableInterrupts_def Let_def fun_upd_idem)
  have n: "resting (new_pthread True)" "thread_ok (new_pthread True)"
    by (simp_all add: new_pthread_def thread_ok_def)
  have "living_tasks s \<subseteq> living_tasks ?s'"
    using u h(1) by (auto simp: living_tasks_def th)
  then have k: "scheduled_tasks (pkern s) \<subseteq> living_tasks ?s'" using port_invD(2) [OF inv] by blast
  show ?thesis
  proof (rule code_change [OF inv h _ _ _ _ _ _ _ _ same k])
    show "pthreads ?s' t = Some ?h'" using ut by (simp add: th)
    fix v g assume v: "v \<noteq> t" "pthreads ?s' v = Some g"
    show "resting g \<and> thread_ok g"
      using v th n others_rest [OF c(1) v(1)] port_invD(1) [OF inv] by (auto split: if_splits)
  qed (use h c in \<open>auto simp: dying_ok_def\<close>)
qed

lemma dying_inv:
  assumes inv: "port_inv s" and t: "in_code s t" and k: "t \<notin> scheduled_tasks (pkern s)"
    "uxSchedulerSuspended (pkern s) = 0"
  shows "port_inv (vPortThreadDying t s)"
proof -
  obtain h where h: "pthreads s t = Some h" "thread_at h = In_Code" using t by (auto simp: in_code_def)
  note c = in_code_control [OF inv h]
  show ?thesis
  proof (rule code_change [OF inv h, where h' = "h\<lparr>xDying := True\<rparr>"])
    show "scheduled_tasks (pkern s) \<subseteq> living_tasks (vPortThreadDying t s)"
      using port_invD(2) [OF inv] k(1) h(1) by (auto simp: living_tasks_def vPortThreadDying_def)
    fix u g assume u: "u \<noteq> t" "pthreads (vPortThreadDying t s) u = Some g"
    then show "resting g \<and> thread_ok g"
      using others_rest [OF c(1) u(1)] port_invD(1) [OF inv] by (simp add: vPortThreadDying_def)
  qed (use h k in \<open>simp_all add: vPortThreadDying_def dying_ok_def\<close>)
qed

lemma cancel_inv:
  assumes inv: "port_inv s" and t: "in_code s t" and u: "u \<noteq> t" "u \<notin> scheduled_tasks (pkern s)"
    "pthreads s u = Some g" "\<not> cancelled g"
  shows "port_inv (vPortCancelThread t u s)"
proof -
  obtain h where h: "pthreads s t = Some h" "thread_at h = In_Code" using t by (auto simp: in_code_def)
  note c = in_code_control [OF inv h]
  let ?s' = "vPortCancelThread t u s" and ?g = "g\<lparr>cancelled := True, event_triggered := True\<rparr>"
  have th: "pthreads ?s' = (pthreads s)(u \<mapsto> ?g, t \<mapsto> h\<lparr>joining := Some u\<rparr>)"
    using h(1) u by (auto simp: vPortCancelThread_def event_signal_def Let_def)
  have g: "resting g" "thread_ok g" using others_rest [OF c(1) u(1,3)] port_invD(1) [OF inv u(3)] by simp_all
  have "resting ?g \<and> thread_ok ?g"
    using g u(4) by (cases "(g, thread_at g)" rule: resting_at.cases) (auto simp: thread_ok_def)
  note ok = this
  show ?thesis
  proof (rule code_change [OF inv h, where h' = "h\<lparr>joining := Some u\<rparr>"])
    show "scheduled_tasks (pkern s) \<subseteq> living_tasks ?s'"
      using port_invD(2) [OF inv] u h(1) by (auto simp: living_tasks_def th)
    fix v x assume v: "v \<noteq> t" "pthreads ?s' v = Some x"
    then show "resting x \<and> thread_ok x"
      using ok others_rest [OF c(1) v(1)] port_invD(1) [OF inv] by (auto simp: th split: if_splits)
  qed (use h c u in \<open>simp_all add: th dying_ok_def, simp_all add: vPortCancelThread_def event_signal_def Let_def\<close>)
qed

lemma join_inv:
  assumes inv: "port_inv s" and h: "pthreads s t = Some h" "thread_at h = In_Code" and u: "at_point s u Ended"
  shows "port_inv (vPortCancelThread_joined t u s)"
proof -
  note c = in_code_control [OF inv h]
  let ?s' = "vPortCancelThread_joined t u s"
  obtain g where g: "pthreads s u = Some g" "thread_at g = Ended" using u by (auto simp: at_point_def)
  have ut: "u \<noteq> t" using g h by auto
  have th: "pthreads ?s' = (pthreads s)(u := None, t \<mapsto> h\<lparr>joining := None\<rparr>)"
    using h(1) ut by (auto simp: vPortCancelThread_joined_def Let_def)
  have "u \<notin> living_tasks s" using port_invD(1) [OF inv g(1)] g by (auto simp: living_tasks_def thread_ok_def)
  note dead = this
  show ?thesis
  proof (rule code_change [OF inv h, where h' = "h\<lparr>joining := None\<rparr>"])
    show "scheduled_tasks (pkern s) \<subseteq> living_tasks ?s'"
      using port_invD(2) [OF inv] dead h(1) by (auto simp: living_tasks_def th)
    fix v x assume v: "v \<noteq> t" "pthreads ?s' v = Some x"
    then show "resting x \<and> thread_ok x"
      using others_rest [OF c(1) v(1)] port_invD(1) [OF inv] by (auto simp: th split: if_splits)
  qed (use h c in \<open>simp_all add: th dying_ok_def, simp_all add: vPortCancelThread_joined_def Let_def\<close>)
qed

section \<open>The other threads\<close>

text \<open>What the other threads change leaves the task threads as they are, up to a pending signal.\<close>

definition same_threads :: "port \<Rightarrow> port \<Rightarrow> bool" where
  "same_threads s s' \<longleftrightarrow> pkern s' = pkern s \<and> uxCriticalNesting s' = uxCriticalNesting s \<and>
     (\<forall>t. pthreads s' t = pthreads s t \<or>
       pthreads s' t = map_option (\<lambda>h. h\<lparr>sigalrm_pending := True\<rparr>) (pthreads s t))"

lemma same_threadsE:
  assumes "same_threads s s'" "pthreads s' t = Some h'"
  obtains h b where "pthreads s t = Some h" "h' = h\<lparr>sigalrm_pending := b\<rparr>"
proof -
  have "pthreads s' t = pthreads s t \<or>
      pthreads s' t = map_option (\<lambda>h. h\<lparr>sigalrm_pending := True\<rparr>) (pthreads s t)"
    using assms(1) by (simp add: same_threads_def)
  then show ?thesis
  proof
    assume "pthreads s' t = pthreads s t"
    then show ?thesis using that [of h' "sigalrm_pending h'"] assms(2) by simp
  next
    assume "pthreads s' t = map_option (\<lambda>h. h\<lparr>sigalrm_pending := True\<rparr>) (pthreads s t)"
    then show ?thesis using that assms(2) by (cases "pthreads s t") auto
  qed
qed

lemma same_threads_at:
  assumes "same_threads s s'" "pthreads s t = Some h"
  shows "\<exists>b. pthreads s' t = Some (h\<lparr>sigalrm_pending := b\<rparr>)"
proof -
  have "pthreads s' t = Some h \<or> pthreads s' t = Some (h\<lparr>sigalrm_pending := True\<rparr>)"
    using assms by (auto simp: same_threads_def dest: spec [of _ t])
  then show ?thesis
  proof
    assume "pthreads s' t = Some h"
    then show ?thesis by (intro exI [of _ "sigalrm_pending h"]) simp
  qed blast
qed

lemma frame_sigalrm [simp]:
  "resting_at (h\<lparr>sigalrm_pending := b\<rparr>) p = resting_at h p"
  "active_at s t (h\<lparr>sigalrm_pending := b\<rparr>) p = active_at s t h p"
  "thread_ok (h\<lparr>sigalrm_pending := b\<rparr>) = thread_ok h"
  "not_started (h\<lparr>sigalrm_pending := b\<rparr>) = not_started h"
  "dying_ok (h\<lparr>sigalrm_pending := b\<rparr>) k = dying_ok h k"
proof -
  show "resting_at (h\<lparr>sigalrm_pending := b\<rparr>) p = resting_at h p"
    by (cases "(h, p)" rule: resting_at.cases) simp_all
  show "active_at s t (h\<lparr>sigalrm_pending := b\<rparr>) p = active_at s t h p"
    by (cases "(s, t, h, p)" rule: active_at.cases) simp_all
  show "not_started (h\<lparr>sigalrm_pending := b\<rparr>) = not_started h"
    by (cases h) (simp add: not_started_def new_pthread_def)
qed (simp_all add: thread_ok_def dying_ok_def)

lemma same_threads_living: "same_threads s s' \<Longrightarrow> living_tasks s' = living_tasks s"
proof (rule set_eqI)
  fix t assume "same_threads s s'"
  then have "pthreads s' t = pthreads s t \<or>
      pthreads s' t = map_option (\<lambda>h. h\<lparr>sigalrm_pending := True\<rparr>) (pthreads s t)"
    by (simp add: same_threads_def)
  then show "t \<in> living_tasks s' \<longleftrightarrow> t \<in> living_tasks s"
    by (cases "pthreads s t") (auto simp: living_tasks_def)
qed

lemma same_threads_control:
  assumes s: "same_threads s s'" and c: "in_control s c" and st: "stopped_port s' = stopped_port s"
  shows "in_control s' c"
proof -
  note l = same_threads_living [OF s]
  have same: "pkern s' = pkern s" "uxCriticalNesting s' = uxCriticalNesting s"
    using s by (simp_all add: same_threads_def)
  have act: "active_at s' c h p = active_at s c h p" for h p
    by (rule active_at_cong [OF same l st])
  from c obtain h where h: "pthreads s c = Some h" by (auto simp: in_control_def)
  from in_controlD [OF c h] have ok: "\<not> cancelled h" "dying_ok h (pkern s)" "active_at s c h (thread_at h)" .
  have "pthreads s' c = Some h \<or> pthreads s' c = Some (h\<lparr>sigalrm_pending := True\<rparr>)"
    using s h by (auto simp: same_threads_def dest: spec [of _ c])
  then have "\<exists>h. pthreads s' c = Some h \<and> \<not> cancelled h \<and> dying_ok h (pkern s') \<and> active_at s' c h (thread_at h)"
    using ok same act by auto
  moreover have "resting x" if u: "u \<noteq> c" "pthreads s' u = Some x" for u x
    by (rule same_threadsE [OF s u(2)]) (use others_rest [OF c u(1)] in auto)
  ultimately show ?thesis by (auto simp: in_control_def)
qed

lemma same_threads_inv:
  assumes inv: "port_inv s" and s: "same_threads s s'"
    and m: "main_at s = Main_Setup \<longleftrightarrow> main_at s' = Main_Setup"
    and e: "stopped_port s' = stopped_port s" "main_at s = Main_Setup \<Longrightarrow> xSchedulerEnd s' = xSchedulerEnd s"
  shows "port_inv s'"
proof -
  note l = same_threads_living [OF s]
  have k: "pkern s' = pkern s" using s by (simp add: same_threads_def)
  have ok: "thread_ok h" if "pthreads s' t = Some h" for t h
    by (rule same_threadsE [OF s that]) (use port_invD(1) [OF inv] in auto)
  have "setup_ok s'" if a: "main_at s = Main_Setup"
  proof -
    have "not_started h" if t: "pthreads s' t = Some h" for t h
      by (rule same_threadsE [OF s t]) (use setup_thread [OF inv a] in auto)
    then show ?thesis
      using port_invD(3) [OF inv a] e(2) [OF a] k kernel_ok_cong [OF l] by (simp add: setup_ok_def)
  qed
  moreover have "\<exists>t. in_control s' t" if "main_at s \<noteq> Main_Setup"
    using inv that same_threads_control [OF s _ e(1)] by (auto simp: port_inv_def)
  ultimately show ?thesis using ok l k m port_invD(2) [OF inv] by (auto simp: port_inv_def)
qed

lemma kill_sigalrm_same: "same_threads s (kill_sigalrm t s)"
  by (simp add: same_threads_def kill_sigalrm_def)

lemma ticker_same: "prvTimerTickHandler s = Some s' \<Longrightarrow> same_threads s s'"
  by (auto simp: prvTimerTickHandler_def same_threads_def kill_sigalrm_def bind_eq_Some_conv
      split: ticker_point.splits if_splits)

lemma request_same: "same_threads s (RooFreeRtosPortRequestTick s)"
  by (auto simp: RooFreeRtosPortRequestTick_def same_threads_def kill_sigalrm_def split: option.split)

lemma ticker_inv:
  assumes inv: "port_inv s" and s': "prvTimerTickHandler s = Some s'" shows "port_inv s'"
  by (rule same_threads_inv [OF inv ticker_same [OF s']])
    (use s' in \<open>auto simp: prvTimerTickHandler_def kill_sigalrm_def stopped_port_def bind_eq_Some_conv
       split: ticker_point.splits if_splits\<close>)

lemma request_inv: assumes "port_inv s" shows "port_inv (RooFreeRtosPortRequestTick s)"
  by (rule same_threads_inv [OF assms request_same])
    (auto simp: RooFreeRtosPortRequestTick_def kill_sigalrm_def stopped_port_def split: option.split)

lemma main_same:
  "same_threads s (main_loop s)" "same_threads s (s\<lparr>resume_signal := False, main_at := Main_Loop\<rparr>)"
  by (simp_all add: same_threads_def main_loop_def)

lemma main_inv:
  assumes "port_inv s"
  shows "main_at s = Main_Loop \<Longrightarrow> port_inv (main_loop s)"
    "main_at s = Main_Sigwait \<Longrightarrow> port_inv (s\<lparr>resume_signal := False, main_at := Main_Loop\<rparr>)"
  by (rule same_threads_inv [OF assms main_same(1)] same_threads_inv [OF assms main_same(2)];
      simp add: main_loop_def stopped_port_def)+

lemma setup_inv:
  assumes inv: "port_inv s" and m: "main_at s = Main_Setup"
  shows "kernel_ok s k \<Longrightarrow> port_inv (s\<lparr>pkern := k\<rparr>)"
    "pthreads s t = None \<Longrightarrow> port_inv (s\<lparr>pthreads := (pthreads s)(t \<mapsto> new_pthread True)\<rparr>)"
proof -
  note su = port_invD(3) [OF inv m]
  have l: "living_tasks (s\<lparr>pkern := k\<rparr>) = living_tasks s" by (simp add: living_tasks_def)
  show "port_inv (s\<lparr>pkern := k\<rparr>)" if "kernel_ok s k"
    using that inv m su kernel_ok_cong [OF l] l by (auto simp: port_inv_def setup_ok_def kernel_ok_def)
  let ?s' = "s\<lparr>pthreads := (pthreads s)(t \<mapsto> new_pthread True)\<rparr>"
  assume t: "pthreads s t = None"
  have n: "not_started (new_pthread True)" by (simp add: not_started_def new_pthread_def)
  have "living_tasks s \<subseteq> living_tasks ?s'" using t by (auto simp: living_tasks_def)
  then have "kernel_ok ?s' (pkern s)" using su by (auto simp: setup_ok_def kernel_ok_def)
  then show "port_inv ?s'"
    using inv m su n not_startedD(6) [OF n] by (auto simp: port_inv_def setup_ok_def kernel_ok_def)
qed

text \<open>The first task is given control.\<close>

lemma start_inv:
  assumes inv: "port_inv s" and m: "main_at s = Main_Setup" and t: "pxCurrentTCB (pkern s) = Some t"
    "pthreads s t \<noteq> None"
  shows "port_inv (xPortStartScheduler t s)"
proof -
  note su = port_invD(3) [OF inv m]
  let ?s' = "xPortStartScheduler t s"
  obtain h where h: "pthreads s t = Some h" using t(2) by blast
  let ?h = "h\<lparr>event_triggered := True\<rparr>"
  note n = not_startedD [OF setup_thread [OF inv m h]]
  have th: "pthreads ?s' = (pthreads s)(t \<mapsto> ?h)" and k: "pkern ?s' = pkern s" and m': "main_at ?s' \<noteq> Main_Setup"
    using h by (simp_all add: xPortStartScheduler_def event_signal_def Let_def)
  have l: "living_tasks ?s' = living_tasks s" by (rule living_upd [OF th h]) simp_all
  have ok: "kernel_ok ?s' (pkern ?s')" using su kernel_ok_cong [OF l] k by (simp add: setup_ok_def)
  have "in_control ?s' t"
    using n t(1) ok k not_startedD(5) [OF setup_thread [OF inv m]]
    by (auto simp: in_control_def th dying_ok_def)
  moreover have "thread_ok ?h" using n(1,6) by (simp add: thread_ok_def)
  ultimately show ?thesis
    using port_invD(1,2) [OF inv] m' l k th by (auto simp: port_inv_def)
qed

section \<open>Runs\<close>

theorem port_step_inv: "port_step s a s' \<Longrightarrow> port_inv s \<Longrightarrow> port_inv s'"
proof (induction rule: port_step.induct)
  case (handler s t poll elapsed s')
  then show ?case by (rule_tac handler_inv_step)
next
  case (join s t h u)
  then show ?case by (rule_tac join_inv)
qed (auto intro: setup_inv start_inv main_inv ticker_inv request_inv code_inv enter_inv exit_inv mask_inv
    create_inv dying_inv cancel_inv stop_inv stopped_inv yield_call_inv yield_inv interrupt_inv
    resume_inv suspend_inv wake_inv wait_cancelled_inv testcancel_inv switch_return_inv)

end
