(* ===== verification/Port_Runs.thy ===== *)
theory Port_Runs
  imports Port_Threads
begin

text \<open>
  What the protocol of the port gives the kernel: one thread executes at a time, critical sections are
  atomic, a switch comes back with the nesting count it had, and deleting a task ends.
\<close>

section \<open>Runs\<close>

text \<open>The threads of \<open>A\<close> take steps, in any order.\<close>

inductive port_run :: "actor set \<Rightarrow> port \<Rightarrow> port \<Rightarrow> bool" for A where
  prun_refl: "port_run A s s"
| prun_step: "\<lbrakk>port_run A s s1; a \<in> A; port_step s1 a s2\<rbrakk> \<Longrightarrow> port_run A s s2"

lemma port_run_inv: "port_run A s s' \<Longrightarrow> port_inv s \<Longrightarrow> port_inv s'"
  by (induction rule: port_run.induct) (blast intro: port_step_inv)+

lemma setup_port_inv: "setup_ok s \<Longrightarrow> main_at s = Main_Setup \<Longrightarrow> port_inv s"
  using not_startedD(6) by (auto simp: port_inv_def setup_ok_def kernel_ok_def)

definition reachable :: "port \<Rightarrow> bool" where
  "reachable s \<longleftrightarrow> (\<exists>s0. setup_ok s0 \<and> main_at s0 = Main_Setup \<and> port_run UNIV s0 s)"

lemma reachable_inv: "reachable s \<Longrightarrow> port_inv s"
  using port_run_inv setup_port_inv by (auto simp: reachable_def)

section \<open>One thread at a time\<close>

text \<open>The places where a pthread executes code that uses the kernel or the shared variables.\<close>

fun executes_at :: "thread_point \<Rightarrow> bool" where
  "executes_at (Suspending f n) \<longleftrightarrow> False"
| "executes_at (Waiting w) \<longleftrightarrow> False"
| "executes_at (Woken w) \<longleftrightarrow> False"
| "executes_at Ended \<longleftrightarrow> False"
| "executes_at p \<longleftrightarrow> True"

definition executing :: "port \<Rightarrow> task \<Rightarrow> bool" where
  "executing s t \<longleftrightarrow> (\<exists>h. pthreads s t = Some h \<and> executes_at (thread_at h))"

text \<open>The wake-up of a thread is on its way: its event is triggered, or it has just left the wait.\<close>

definition wake_up_pending :: "port \<Rightarrow> task \<Rightarrow> bool" where
  "wake_up_pending s t \<longleftrightarrow> (\<exists>h. pthreads s t = Some h \<and> \<not> cancelled h \<and>
     (event_triggered h \<or> (\<exists>w. thread_at h = Woken w)))"

lemma executes_not_resting: "executes_at (thread_at h) \<Longrightarrow> \<not> resting h"
  by (cases "thread_at h") simp_all

lemma executing_control:
  assumes "port_inv s" "executing s t"
  obtains h where "pthreads s t = Some h" "\<not> resting h" "in_control s t" "main_at s \<noteq> Main_Setup"
    "executes_at (thread_at h)"
proof -
  from assms(2) obtain h where h: "pthreads s t = Some h" "executes_at (thread_at h)"
    by (auto simp: executing_def)
  note r = executes_not_resting [OF h(2)]
  show ?thesis by (rule that [OF h(1) r not_resting(2,1) [OF assms(1) h(1) r] h(2)])
qed

lemma control_unique: "in_control s t \<Longrightarrow> in_control s u \<Longrightarrow> t = u"
proof (rule ccontr)
  assume c: "in_control s t" "in_control s u" and ne: "t \<noteq> u"
  from c(1) obtain h where h: "pthreads s t = Some h" by (auto simp: in_control_def)
  from in_controlD [OF c(1) h] have "\<not> resting h" using active_not_resting by blast
  then show False using others_rest [OF c(2) ne h] by blast
qed

lemma executing_unique: "port_inv s \<Longrightarrow> executing s t \<Longrightarrow> executing s u \<Longrightarrow> t = u"
  using control_unique by (metis executing_control)

lemma executing_current:
  assumes inv: "port_inv s" and t: "executing s t"
  shows "current s = Some t \<or> (\<exists>f u. at_point s t (Switching f u) \<and> current s = Some u)"
proof (rule executing_control [OF inv t])
  fix h assume h: "pthreads s t = Some h" "in_control s t" "executes_at (thread_at h)"
  from in_controlD(3) [OF h(2,1)] h(1,3) show ?thesis
    by (cases "thread_at h") (auto simp: at_point_def)
qed

lemma somebody_goes_on:
  assumes inv: "port_inv s" and m: "main_at s \<noteq> Main_Setup" "\<not> stopped_port s"
  shows "\<exists>t. executing s t \<or> (current s = Some t \<and> wake_up_pending s t)"
proof -
  from inv m(1) obtain t where t: "in_control s t" by (auto simp: port_inv_def)
  then obtain h where h: "pthreads s t = Some h" by (auto simp: in_control_def)
  note c = in_controlD [OF t h]
  from c(1,3) have "executes_at (thread_at h) \<or> (current s = Some t \<and> (event_triggered h \<or> (\<exists>w. thread_at h = Woken w)))"
    using m(2) by (cases "(s, t, h, thread_at h)" rule: active_at.cases) auto
  then show ?thesis using h c(1) by (auto simp: executing_def wake_up_pending_def)
qed

section \<open>What the others do meanwhile\<close>

text \<open>While one thread executes, the steps of the others leave the kernel and its thread alone.\<close>

lemma resting_task_step:
  assumes st: "port_step s (Task_Thread u) s'" and g: "pthreads s u = Some g" "resting g"
  shows "pkern s' = pkern s \<and> uxCriticalNesting s' = uxCriticalNesting s \<and>
    (\<forall>t. t \<noteq> u \<longrightarrow> pthreads s' t = pthreads s t)"
  using st
proof (cases rule: port_step.cases)
  case (testcancel w)
  then show ?thesis using g by (auto simp: testcancel_def at_point_def)
qed (use g in \<open>auto simp: in_code_def at_point_def prvSwitchThread_suspend_def event_wait_def split: if_splits\<close>)

lemma other_threads_step:
  assumes "port_step s a s'" "\<forall>u. a \<noteq> Task_Thread u" "main_at s \<noteq> Main_Setup" shows "same_threads s s'"
  using assms(1)
proof (cases rule: port_step.cases)
  case ticker
  then show ?thesis by (blast intro: ticker_same)
qed (use assms(2,3) main_same request_same in auto)

lemma others_step:
  assumes inv: "port_inv s" and c: "executing s c" "pthreads s c = Some h"
    and st: "port_step s a s'" "a \<noteq> Task_Thread c"
  shows "pkern s' = pkern s" "uxCriticalNesting s' = uxCriticalNesting s"
    "\<exists>b. pthreads s' c = Some (h\<lparr>sigalrm_pending := b\<rparr>)"
proof -
  have ic: "in_control s c" "main_at s \<noteq> Main_Setup" using executing_control [OF inv c(1)] by blast+
  have "pkern s' = pkern s \<and> uxCriticalNesting s' = uxCriticalNesting s \<and>
    (\<exists>b. pthreads s' c = Some (h\<lparr>sigalrm_pending := b\<rparr>))"
  proof (cases "\<exists>u. a = Task_Thread u")
    case True
    then obtain u where a: "a = Task_Thread u" by blast
    have u: "u \<noteq> c" using st(2) a by simp
    have "pthreads s u \<noteq> None"
      using st(1) unfolding a by (cases rule: port_step.cases) (auto simp: in_code_def at_point_def)
    then obtain g where g: "pthreads s u = Some g" by blast
    have "pkern s' = pkern s \<and> uxCriticalNesting s' = uxCriticalNesting s \<and> pthreads s' c = Some h"
      using resting_task_step [OF st(1) [unfolded a] g others_rest [OF ic(1) u g]] u c(2) by simp
    then show ?thesis by (intro conjI exI [of _ "sigalrm_pending h"]) simp_all
  next
    case False
    then have "same_threads s s'" using other_threads_step [OF st(1) _ ic(2)] by blast
    then show ?thesis using same_threads_at [of s s' c h] c(2) by (simp add: same_threads_def)
  qed
  then show "pkern s' = pkern s" "uxCriticalNesting s' = uxCriticalNesting s"
    "\<exists>b. pthreads s' c = Some (h\<lparr>sigalrm_pending := b\<rparr>)" by blast+
qed

lemma others_run:
  assumes run: "port_run A s s'" and A: "Task_Thread c \<notin> A"
    and inv: "port_inv s" and c: "executing s c" "pthreads s c = Some h"
  shows "pkern s' = pkern s \<and> uxCriticalNesting s' = uxCriticalNesting s \<and>
    (\<exists>b. pthreads s' c = Some (h\<lparr>sigalrm_pending := b\<rparr>))"
  using run inv c
proof (induction rule: port_run.induct)
  case (prun_refl s)
  then show ?case by (auto intro: exI [of _ "sigalrm_pending h"])
next
  case (prun_step s s1 a s2)
  then obtain b where IH: "pkern s1 = pkern s" "uxCriticalNesting s1 = uxCriticalNesting s"
    "pthreads s1 c = Some (h\<lparr>sigalrm_pending := b\<rparr>)" by blast
  have inv1: "port_inv s1" by (rule port_run_inv [OF prun_step(1,5)])
  have "executing s1 c" using prun_step(6,7) IH(3) by (simp add: executing_def)
  from others_step [OF inv1 this IH(3) prun_step(3)] prun_step(2) A
  obtain b' where "pkern s2 = pkern s1" "uxCriticalNesting s2 = uxCriticalNesting s1"
    "pthreads s2 c = Some (h\<lparr>sigalrm_pending := b\<rparr>\<lparr>sigalrm_pending := b'\<rparr>)" by blast
  then show ?case using IH(1,2) by auto
qed

text \<open>Inside a critical section the tick interrupt is masked.\<close>

lemma masked:
  assumes inv: "port_inv s" and c: "pthreads s c = Some h" "thread_at h = In_Code" and n: "0 < uxCriticalNesting s"
    and st: "port_step s (Task_Thread c) s'"
  shows "\<not> at_point s' c In_Handler"
proof -
  have b: "signals_blocked h" by (rule in_code_control(8) [OF inv c n])
  show ?thesis
    using st
    by (cases rule: port_step.cases)
      (use b c in \<open>auto simp: in_code_def at_point_def vPortEnterCritical_def vPortExitCritical_def
        vPortDisableInterrupts_def vPortEnableInterrupts_def pxPortInitialiseStack_def Let_def
        vPortThreadDying_def vPortCancelThread_def vPortCancelThread_joined_def event_signal_def
        vPortEndScheduler_def vPortYield_enter_def split: if_splits\<close>)
qed

section \<open>A switch comes back as it went\<close>

text \<open>Any threads take steps while task \<open>c\<close> is not in its code, and has not ended.\<close>

inductive away :: "task \<Rightarrow> port \<Rightarrow> port \<Rightarrow> bool" for c where
  away_refl: "away c s s"
| away_step: "\<lbrakk>away c s s1; \<not> at_point s1 c In_Code; \<not> at_point s1 c Ended; port_step s1 a s2\<rbrakk> \<Longrightarrow> away c s s2"

text \<open>What a suspended call knows of the nesting count: \<open>n\<close>, in the shared variable or saved.\<close>

fun remembers :: "int \<Rightarrow> int \<Rightarrow> thread_point \<Rightarrow> bool" where
  "remembers n x In_Code \<longleftrightarrow> x = n - 1"
| "remembers n x In_Yield \<longleftrightarrow> x = n"
| "remembers n x In_Handler \<longleftrightarrow> x = n"
| "remembers n x (Switching f u) \<longleftrightarrow> x = n"
| "remembers n x (Switched_Back f) \<longleftrightarrow> x = n"
| "remembers n x (Suspending f m) \<longleftrightarrow> m = n"
| "remembers n x (Waiting (Switched f m)) \<longleftrightarrow> m = n"
| "remembers n x (Woken (Switched f m)) \<longleftrightarrow> m = n"
| "remembers n x Ended \<longleftrightarrow> True"
| "remembers n x p \<longleftrightarrow> False"

lemma remembers_not_executing: "\<not> executes_at p \<Longrightarrow> remembers n x p = remembers n y p"
  by (cases "(n, x, p)" rule: remembers.cases) simp_all

lemma remembers_own_step:
  assumes st: "port_step s (Task_Thread c) s'" and h: "pthreads s c = Some h" "thread_at h \<noteq> In_Code"
    and r: "remembers n (uxCriticalNesting s) (thread_at h)"
  obtains h' where "pthreads s' c = Some h'" "remembers n (uxCriticalNesting s') (thread_at h')"
proof -
  have "\<exists>h'. pthreads s' c = Some h' \<and> remembers n (uxCriticalNesting s') (thread_at h')"
    using st
  proof (cases rule: port_step.cases)
    case (testcancel w)
    then show ?thesis using h r
      by (cases w) (auto simp: testcancel_def at_point_def prvSwitchThread_restore_def)
  next
    case (wake w s1)
    then show ?thesis using h r
      by (cases w) (auto simp: event_wait_def at_point_def split: if_splits)
  next
    case (resume f u)
    then show ?thesis using h r
      by (auto simp: at_point_def prvSwitchThread_resume_def prvResumeThread_def event_signal_def)
  next
    case (suspend f m)
    then show ?thesis using h r by (auto simp: at_point_def prvSwitchThread_suspend_def)
  next
    case (switch_return f)
    then show ?thesis using h r
      by (cases f) (auto simp: at_point_def switch_return_def vPortYield_leave_def vPortExitCritical_def
          vPortEnableInterrupts_def tick_handler_leave_def Let_def)
  next
    case yield
    then show ?thesis using h r by (auto simp: at_point_def prvPortYieldFromISR_def bind_eq_Some_conv)
  next
    case (handler poll elapsed)
    then show ?thesis using h r
      by (auto simp: at_point_def tick_handler_body_def bind_eq_Some_conv split: if_splits)
  qed (use h r in \<open>auto simp: in_code_def at_point_def\<close>)
  then show ?thesis using that by blast
qed

text \<open>No thread moves another one along, or takes back its cancellation.\<close>

lemma other_step_point:
  assumes st: "port_step s a s'" "a \<noteq> Task_Thread c" and h: "pthreads s c = Some h" "thread_at h \<noteq> Ended"
  shows "\<exists>h'. pthreads s' c = Some h' \<and> thread_at h' = thread_at h \<and> (cancelled h \<longrightarrow> cancelled h')"
  using st(1)
proof (cases rule: port_step.cases)
  case ticker
  from same_threads_at [OF ticker_same [OF ticker(2)] h(1)] show ?thesis by auto
next
  case request_tick
  have "same_threads s s'" using request_same by (simp add: request_tick)
  from same_threads_at [OF this h(1)] show ?thesis by auto
next
  case (testcancel t w)
  then show ?thesis using st(2) h
    by (cases w) (auto simp: testcancel_def prvSwitchThread_restore_def prvWaitForStart_resumed_def
        vPortEnableInterrupts_def)
next
  case (switch_return t f)
  then show ?thesis using st(2) h
    by (cases f) (auto simp: switch_return_def vPortYield_leave_def vPortExitCritical_def
        vPortEnableInterrupts_def tick_handler_leave_def Let_def)
next
  case (yield t)
  then show ?thesis using st(2) h by (auto simp: prvPortYieldFromISR_def bind_eq_Some_conv)
next
  case (handler t poll elapsed)
  then show ?thesis using st(2) h by (auto simp: tick_handler_body_def bind_eq_Some_conv split: if_splits)
qed (use st(2) h in \<open>auto simp: xPortStartScheduler_def main_loop_def vPortEnterCritical_def vPortExitCritical_def
    vPortDisableInterrupts_def vPortEnableInterrupts_def pxPortInitialiseStack_def Let_def at_point_def
    vPortThreadDying_def vPortCancelThread_def vPortCancelThread_joined_def event_signal_def event_wait_def
    vPortEndScheduler_def vPortEndScheduler_joined_def vPortYield_enter_def tick_handler_enter_def
    prvSwitchThread_resume_def prvSwitchThread_suspend_def prvResumeThread_def split: if_splits\<close>)

lemma remembers_away:
  assumes run: "away c s s'" and inv: "port_inv s"
    and h: "pthreads s c = Some h" "remembers n (uxCriticalNesting s) (thread_at h)"
  shows "port_inv s' \<and> (\<exists>h'. pthreads s' c = Some h' \<and> remembers n (uxCriticalNesting s') (thread_at h'))"
  using run inv h
proof (induction rule: away.induct)
  case (away_refl s)
  then show ?case by blast
next
  case (away_step s s1 a s2)
  then obtain h1 where IH: "port_inv s1" "pthreads s1 c = Some h1"
    "remembers n (uxCriticalNesting s1) (thread_at h1)" by blast
  have inv2: "port_inv s2" by (rule port_step_inv [OF away_step(4) IH(1)])
  have p: "thread_at h1 \<noteq> In_Code" "thread_at h1 \<noteq> Ended"
    using away_step(2,3) IH(2) by (auto simp: at_point_def)
  have "\<exists>h'. pthreads s2 c = Some h' \<and> remembers n (uxCriticalNesting s2) (thread_at h')"
  proof (cases "a = Task_Thread c")
    case True
    show ?thesis
      by (rule remembers_own_step [OF away_step(4) [unfolded True] IH(2) p(1) IH(3)]) blast
  next
    case False
    show ?thesis
    proof (cases "executing s1 c")
      case True
      from others_step [OF IH(1) True IH(2) away_step(4) False] IH(3) show ?thesis by auto
    next
      case nx: False
      then have "\<not> executes_at (thread_at h1)" using IH(2) by (simp add: executing_def)
      with other_step_point [OF away_step(4) False IH(2) p(2)] IH(3) show ?thesis
        using remembers_not_executing by metis
    qed
  qed
  with inv2 show ?case by blast
qed

text \<open>The steps that take a task out of its code and into a switch.\<close>

lemma switch_begins:
  assumes st: "port_step s (Task_Thread c) s'" and c: "in_code s c \<or> at_point s c In_Code"
    and p: "at_point s' c In_Yield \<or> at_point s' c In_Handler"
  shows "uxCriticalNesting s' = uxCriticalNesting s + 1"
  using st
  by (cases rule: port_step.cases)
    (use c p in \<open>auto simp: in_code_def at_point_def vPortEnterCritical_def vPortExitCritical_def
      vPortDisableInterrupts_def vPortEnableInterrupts_def pxPortInitialiseStack_def Let_def
      vPortThreadDying_def vPortCancelThread_def vPortCancelThread_joined_def event_signal_def
      vPortEndScheduler_def vPortYield_enter_def tick_handler_enter_def split: if_splits\<close>)

lemma switch_returns:
  assumes inv: "port_inv s" and c: "at_point s c In_Code" and st: "port_step s (Task_Thread c) s1"
    and p: "at_point s1 c In_Yield \<or> at_point s1 c In_Handler"
    and run: "away c s1 s2" and home: "at_point s2 c In_Code"
  shows "uxCriticalNesting s2 = uxCriticalNesting s \<and> current s2 = Some c"
proof -
  have n: "uxCriticalNesting s1 = uxCriticalNesting s + 1" using switch_begins [OF st _ p] c by blast
  from p obtain h1 where h1: "pthreads s1 c = Some h1" "thread_at h1 = In_Yield \<or> thread_at h1 = In_Handler"
    by (auto simp: at_point_def)
  then have "remembers (uxCriticalNesting s + 1) (uxCriticalNesting s1) (thread_at h1)" using n by auto
  from remembers_away [OF run port_step_inv [OF st inv] h1(1) this]
  obtain h2 where h2: "port_inv s2" "pthreads s2 c = Some h2"
    "remembers (uxCriticalNesting s + 1) (uxCriticalNesting s2) (thread_at h2)" by blast
  have p2: "thread_at h2 = In_Code" using home h2(2) by (simp add: at_point_def)
  then show ?thesis using h2(3) in_code_control(5) [OF h2(1,2) p2] by simp
qed

section \<open>A cancelled thread ends\<close>

fun steps_left :: "thread_point \<Rightarrow> nat" where
  "steps_left (Suspending f n) = 3"
| "steps_left (Waiting w) = 2"
| "steps_left (Woken w) = 1"
| "steps_left p = 0"

text \<open>
  The thread that is waited for in \<open>pthread_join\<close>: as long as it has not ended it can take a step,
  each of its steps brings it nearer to its end, and no step of another thread takes it back.
\<close>

lemma cancelled_goes_on:
  assumes inv: "port_inv s" and h: "pthreads s u = Some h" "cancelled h" "thread_at h \<noteq> Ended"
  shows "\<exists>s'. port_step s (Task_Thread u) s'"
proof -
  have r: "resting h" using at_point_control(3) [OF inv h(1)] h(2) by blast
  show ?thesis
  proof (cases "thread_at h")
    case (Suspending f n)
    then have "at_point s u (Suspending f n)" using h(1) by (simp add: at_point_def)
    then show ?thesis using port_step.suspend by blast
  next
    case (Waiting w)
    then have "at_point s u (Waiting w)" "cancelled (prvGetThreadFromTask u s)" using h(1,2) by (simp_all add: at_point_def)
    then show ?thesis using port_step.wait_cancelled by blast
  next
    case (Woken w)
    then have "at_point s u (Woken w)" using h(1) by (simp add: at_point_def)
    then show ?thesis using port_step.testcancel by blast
  qed (use r h(3) in simp_all)
qed

lemma cancelled_own_step:
  assumes st: "port_step s (Task_Thread u) s'" and inv: "port_inv s"
    and h: "pthreads s u = Some h" "cancelled h" "thread_at h \<noteq> Ended"
  shows "\<exists>h'. pthreads s' u = Some h' \<and> cancelled h' \<and> steps_left (thread_at h') < steps_left (thread_at h)"
proof -
  have r: "resting h" using at_point_control(3) [OF inv h(1)] h(2) by blast
  show ?thesis
    using st
    by (cases rule: port_step.cases)
      (use r h in \<open>auto simp: in_code_def at_point_def prvSwitchThread_suspend_def event_wait_def testcancel_def
        split: if_splits\<close>)
qed

end
