(* ===== verification/Port_Event.thy ===== *)
theory Port_Event
  imports Prelude
begin

text \<open>
  The event of a pthread (utils/wait_for_event.c): a flag under a mutex, with a condition variable.
  Its owner waits for it, any number of threads signal it, one may be cancelled in the wait.
  Each step is one call of the POSIX library or one access to the flag; \<open>pthread_cond_wait\<close> is
  what the standard says: it releases the mutex and blocks in one step, is ended by a signal, by a
  cancellation or for no reason, and returns with the mutex held. It is shown that the event
  behaves like the flag of Port_State, set and waited for in one step each.
\<close>

section \<open>The code\<close>

text \<open>
  Where \<open>event_wait\<close> (or \<open>event_wait_timed\<close>) is: before \<open>pthread_mutex_lock\<close>, at the test of the
  loop (with \<open>ret\<close>, whether the time is over), blocked on the condition variable, unblocked and taking
  the mutex back, after the loop and before the unlock, returned; or cancelled, taking the
  mutex back, in the clean-up handler, ended.
\<close>

datatype wait_point = Wait_Entry | Wait_Test bool | Wait_Blocked | Wait_Relock bool
  | Wait_Leave bool | Wait_Returned bool | Wait_Cancelled | Wait_Clean_Up | Wait_Ended

text \<open>Where \<open>event_signal\<close> is: before the lock, before the assignment, before the signal, before the unlock.\<close>

datatype signal_point = Signal_Entry | Signal_Set | Signal_Cond | Signal_Unlock | Signal_Returned

text \<open>The owner of the mutex: the waiting thread, or a signalling one.\<close>

datatype event_user = Waiter | Signaller nat

record pevent =
  mutex :: "event_user option"
  triggered :: bool
  waiter_at :: wait_point
  signaller_at :: "nat \<Rightarrow> signal_point"

definition event_create :: pevent where
  "event_create = \<lparr>mutex = None, triggered = False, waiter_at = Wait_Entry,
     signaller_at = (\<lambda>_. Signal_Entry)\<rparr>"

abbreviation waiter_to :: "wait_point \<Rightarrow> pevent \<Rightarrow> pevent" where
  "waiter_to p e \<equiv> e\<lparr>waiter_at := p\<rparr>"

abbreviation signaller_to :: "nat \<Rightarrow> signal_point \<Rightarrow> pevent \<Rightarrow> pevent" where
  "signaller_to i p e \<equiv> e\<lparr>signaller_at := (signaller_at e)(i := p)\<rparr>"

text \<open>
  The next step of \<open>event_wait_timed\<close>, and of \<open>event_wait\<close>, which is the same without a time: its test
  never sees \<open>ret\<close> set. The loop ends when the flag is set or the time is over; the flag is
  read into the result and cleared under the mutex.
\<close>

fun event_wait_step :: "pevent \<Rightarrow> pevent option" where
  "event_wait_step e =
     (case waiter_at e of
        Wait_Entry \<Rightarrow> if mutex e = None then Some (waiter_to (Wait_Test False) (e\<lparr>mutex := Some Waiter\<rparr>)) else None
      | Wait_Test ret \<Rightarrow>
          if \<not> triggered e \<and> \<not> ret then Some (waiter_to Wait_Blocked (e\<lparr>mutex := None\<rparr>))
          else Some (waiter_to (Wait_Leave (triggered e)) (e\<lparr>triggered := False\<rparr>))
      | Wait_Blocked \<Rightarrow> None
      | Wait_Relock ret \<Rightarrow> if mutex e = None then Some (waiter_to (Wait_Test ret) (e\<lparr>mutex := Some Waiter\<rparr>)) else None
      | Wait_Leave r \<Rightarrow> Some (waiter_to (Wait_Returned r) (e\<lparr>mutex := None\<rparr>))
      | Wait_Returned r \<Rightarrow> None
      | Wait_Cancelled \<Rightarrow> if mutex e = None then Some (waiter_to Wait_Clean_Up (e\<lparr>mutex := Some Waiter\<rparr>)) else None
      | Wait_Clean_Up \<Rightarrow> Some (waiter_to Wait_Ended (e\<lparr>mutex := None\<rparr>))
      | Wait_Ended \<Rightarrow> None)"

fun event_signal_step :: "nat \<Rightarrow> pevent \<Rightarrow> pevent option" where
  "event_signal_step i e =
     (case signaller_at e i of
        Signal_Entry \<Rightarrow> if mutex e = None then Some (signaller_to i Signal_Set (e\<lparr>mutex := Some (Signaller i)\<rparr>)) else None
      | Signal_Set \<Rightarrow> Some (signaller_to i Signal_Cond (e\<lparr>triggered := True\<rparr>))
      | Signal_Cond \<Rightarrow> Some (signaller_to i Signal_Unlock
          (if waiter_at e = Wait_Blocked then waiter_to (Wait_Relock False) e else e))
      | Signal_Unlock \<Rightarrow> Some (signaller_to i Signal_Returned (e\<lparr>mutex := None\<rparr>))
      | Signal_Returned \<Rightarrow> None)"

section \<open>Steps\<close>

text \<open>
  The rules of the library: a blocked wait may end without a signal, when its time is over (only
  in \<open>event_wait_timed\<close>), or by a cancellation. A thread that has returned may call again.
\<close>

datatype event_actor = By_Waiter | By_Signaller nat | By_Library

inductive pevent_step :: "bool \<Rightarrow> pevent \<Rightarrow> event_actor \<Rightarrow> pevent \<Rightarrow> bool" for timed where
  wait: "event_wait_step e = Some e' \<Longrightarrow> pevent_step timed e By_Waiter e'"
| wait_again: "waiter_at e = Wait_Returned r \<Longrightarrow> pevent_step timed e By_Waiter (waiter_to Wait_Entry e)"
| signal: "event_signal_step i e = Some e' \<Longrightarrow> pevent_step timed e (By_Signaller i) e'"
| signal_again: "signaller_at e i = Signal_Returned \<Longrightarrow>
    pevent_step timed e (By_Signaller i) (signaller_to i Signal_Entry e)"
| spurious: "waiter_at e = Wait_Blocked \<Longrightarrow> pevent_step timed e By_Library (waiter_to (Wait_Relock False) e)"
| time_over: "\<lbrakk>timed; waiter_at e = Wait_Blocked\<rbrakk> \<Longrightarrow>
    pevent_step timed e By_Library (waiter_to (Wait_Relock True) e)"
| cancelled: "waiter_at e = Wait_Blocked \<or> waiter_at e = Wait_Relock r \<Longrightarrow>
    pevent_step timed e By_Library (waiter_to Wait_Cancelled e)"

inductive pevent_run :: "bool \<Rightarrow> pevent \<Rightarrow> pevent \<Rightarrow> bool" for timed where
  pevent_refl: "pevent_run timed e e"
| pevent_more: "\<lbrakk>pevent_run timed e e1; pevent_step timed e1 a e2\<rbrakk> \<Longrightarrow> pevent_run timed e e2"

section \<open>The invariant\<close>

fun waiter_locked :: "wait_point \<Rightarrow> bool" where
  "waiter_locked (Wait_Test r) \<longleftrightarrow> True"
| "waiter_locked (Wait_Leave r) \<longleftrightarrow> True"
| "waiter_locked Wait_Clean_Up \<longleftrightarrow> True"
| "waiter_locked p \<longleftrightarrow> False"

fun signaller_locked :: "signal_point \<Rightarrow> bool" where
  "signaller_locked Signal_Entry \<longleftrightarrow> False"
| "signaller_locked Signal_Returned \<longleftrightarrow> False"
| "signaller_locked p \<longleftrightarrow> True"

text \<open>
  The mutex is held by who is between lock and unlock; and the waiter is not blocked on a flag that is
  set, unless the thread that has set it is just about to signal.
\<close>

definition mutex_ok :: "pevent \<Rightarrow> bool" where
  "mutex_ok e \<longleftrightarrow> (waiter_locked (waiter_at e) \<longleftrightarrow> mutex e = Some Waiter) \<and>
     (\<forall>i. signaller_locked (signaller_at e i) \<longleftrightarrow> mutex e = Some (Signaller i))"

definition no_signal_lost :: "pevent \<Rightarrow> bool" where
  "no_signal_lost e \<longleftrightarrow> triggered e \<longrightarrow> waiter_at e = Wait_Blocked \<longrightarrow>
     (\<exists>i. mutex e = Some (Signaller i) \<and> signaller_at e i = Signal_Cond)"

definition untimed_ok :: "pevent \<Rightarrow> bool" where
  "untimed_ok e \<longleftrightarrow> waiter_at e \<notin> {Wait_Test True, Wait_Relock True, Wait_Leave False, Wait_Returned False}"

definition pevent_inv :: "bool \<Rightarrow> pevent \<Rightarrow> bool" where
  "pevent_inv timed e \<longleftrightarrow> mutex_ok e \<and> no_signal_lost e \<and> (timed \<or> untimed_ok e)"

lemma pevent_create_inv: "pevent_inv timed event_create"
  by (simp add: pevent_inv_def mutex_ok_def no_signal_lost_def untimed_ok_def event_create_def)

lemma waiter_step_inv:
  assumes e: "pevent_inv timed e" and s: "event_wait_step e = Some e'"
  shows "pevent_inv timed e'"
  using assms
  by (cases "waiter_at e") (auto simp: pevent_inv_def mutex_ok_def no_signal_lost_def untimed_ok_def split: if_splits)

lemma signaller_step_inv:
  assumes e: "pevent_inv timed e" and s: "event_signal_step i e = Some e'"
  shows "pevent_inv timed e'"
proof -
  have m: "mutex_ok e" "no_signal_lost e" "timed \<or> untimed_ok e" using e by (simp_all add: pevent_inv_def)
  have i: "signaller_locked (signaller_at e i) \<longleftrightarrow> mutex e = Some (Signaller i)"
    and w: "waiter_locked (waiter_at e) \<longleftrightarrow> mutex e = Some Waiter"
    using m(1) by (simp_all add: mutex_ok_def)
  have "mutex_ok e'"
    using s m(1) i by (cases "signaller_at e i") (auto simp: mutex_ok_def split: if_splits)
  moreover have "no_signal_lost e'"
    using s m(2) i by (cases "signaller_at e i") (auto simp: no_signal_lost_def split: if_splits)
  moreover have "timed \<or> untimed_ok e'"
    using s m(3) by (cases "signaller_at e i") (auto simp: untimed_ok_def split: if_splits)
  ultimately show ?thesis by (simp add: pevent_inv_def)
qed

lemma pevent_step_inv: "pevent_step timed e a e' \<Longrightarrow> pevent_inv timed e \<Longrightarrow> pevent_inv timed e'"
proof (induction rule: pevent_step.induct)
  case (wait e e')
  then show ?case by (blast intro: waiter_step_inv)
next
  case (signal i e e')
  then show ?case by (blast intro: signaller_step_inv)
next
  case (signal_again e i)
  then have "mutex e \<noteq> Some (Signaller i)"
    by (metis pevent_inv_def mutex_ok_def signaller_locked.simps(2))
  with signal_again show ?case
    by (auto simp: pevent_inv_def mutex_ok_def no_signal_lost_def untimed_ok_def)
qed (auto simp: pevent_inv_def mutex_ok_def no_signal_lost_def untimed_ok_def)

lemma pevent_run_inv: "pevent_run timed e e' \<Longrightarrow> pevent_inv timed e \<Longrightarrow> pevent_inv timed e'"
  by (induction rule: pevent_run.induct) (blast intro: pevent_step_inv)+

section \<open>The event as a flag\<close>

text \<open>
  The atomic flag: setting it, and the waiter taking it. Every step of the code is one of the two or
  leaves the flag alone, and the wait returns only after the waiter has taken the flag.
\<close>

definition sets_flag :: "pevent \<Rightarrow> event_actor \<Rightarrow> pevent \<Rightarrow> bool" where
  "sets_flag e a e' \<longleftrightarrow> (\<exists>i. a = By_Signaller i \<and> signaller_at e i = Signal_Set \<and>
     signaller_at e' i = Signal_Cond) \<and> triggered e' \<and> waiter_at e' = waiter_at e"

definition takes_flag :: "pevent \<Rightarrow> event_actor \<Rightarrow> pevent \<Rightarrow> bool" where
  "takes_flag e a e' \<longleftrightarrow> a = By_Waiter \<and> triggered e \<and> \<not> triggered e' \<and>
     waiter_at e' = Wait_Leave True \<and> signaller_at e' = signaller_at e"

definition leaves_flag :: "pevent \<Rightarrow> pevent \<Rightarrow> bool" where
  "leaves_flag e e' \<longleftrightarrow> triggered e' = triggered e \<and>
     (waiter_at e' = Wait_Leave True \<longrightarrow> waiter_at e = Wait_Leave True) \<and>
     (waiter_at e' = Wait_Returned True \<longrightarrow> waiter_at e \<in> {Wait_Leave True, Wait_Returned True})"

lemma flag_step:
  assumes "pevent_inv timed e" "pevent_step timed e a e'"
  shows "sets_flag e a e' \<or> takes_flag e a e' \<or> leaves_flag e e'"
  using assms(2)
proof (cases rule: pevent_step.cases)
  case wait
  then show ?thesis by (cases "waiter_at e") (auto simp: takes_flag_def leaves_flag_def split: if_splits)
next
  case (signal i)
  then show ?thesis by (cases "signaller_at e i") (auto simp: sets_flag_def leaves_flag_def split: if_splits)
qed (auto simp: leaves_flag_def)

text \<open>The waiter alone takes \<open>n\<close> steps.\<close>

fun waiter_runs :: "nat \<Rightarrow> pevent \<Rightarrow> pevent option" where
  "waiter_runs 0 e = Some e"
| "waiter_runs (Suc n) e = do { e \<leftarrow> event_wait_step e; waiter_runs n e }"

definition waiting_in_event :: "pevent \<Rightarrow> bool" where
  "waiting_in_event e \<longleftrightarrow> waiter_at e = Wait_Entry \<or> waiter_at e = Wait_Blocked \<or>
     (\<exists>r. waiter_at e = Wait_Test r \<or> waiter_at e = Wait_Relock r)"

lemma signalled_wait_returns:
  assumes inv: "pevent_inv timed e" and t: "triggered e" and w: "waiting_in_event e"
    and quiet: "\<And>i. signaller_at e i = Signal_Entry \<or> signaller_at e i = Signal_Returned"
  shows "\<exists>n e'. n \<le> 3 \<and> waiter_runs n e = Some e' \<and> waiter_at e' = Wait_Returned True \<and>
    \<not> triggered e' \<and> mutex e' = None"
proof -
  have m: "mutex e \<noteq> Some (Signaller i)" for i
  proof -
    have "signaller_locked (signaller_at e i) \<longleftrightarrow> mutex e = Some (Signaller i)"
      using inv by (simp add: pevent_inv_def mutex_ok_def)
    then show ?thesis using quiet [of i] by auto
  qed
  have nb: "waiter_at e \<noteq> Wait_Blocked"
    using inv t m by (auto simp: pevent_inv_def no_signal_lost_def)
  have free: "mutex e = None" if "\<not> waiter_locked (waiter_at e)"
  proof (cases "mutex e")
    case (Some u)
    then show ?thesis using m that inv by (cases u) (auto simp: pevent_inv_def mutex_ok_def)
  qed
  from w nb consider "waiter_at e = Wait_Entry" | r where "waiter_at e = Wait_Test r"
    | r where "waiter_at e = Wait_Relock r" by (auto simp: waiting_in_event_def)
  then show ?thesis
  proof cases
    case 1
    then show ?thesis using free t by (intro exI [of _ 3]) (simp add: numeral_3_eq_3)
  next
    case 2
    then show ?thesis using t by (intro exI [of _ 2]) (simp add: numeral_2_eq_2)
  next
    case 3
    then show ?thesis using free t by (intro exI [of _ 3]) (simp add: numeral_3_eq_3)
  qed
qed

lemma clean_up_holds_the_mutex:
  "pevent_inv timed e \<Longrightarrow> waiter_at e = Wait_Clean_Up \<Longrightarrow> mutex e = Some Waiter"
  by (auto simp: pevent_inv_def mutex_ok_def)

end
