(* ===== verification/Port_Example.thy ===== *)
theory Port_Example
  imports Port_Runs Port_Event Task_Example
begin

text \<open>
  The port under the kernel of Task_Example: the pthreads of its nine tasks and one of a tenth
  task, which the kernel does not know any more. Task 1 starts, enters a critical section, yields in it to
  task 2, which yields back; and deletes the tenth task.
\<close>

definition demo_thread :: "thread_point \<Rightarrow> bool \<Rightarrow> bool \<Rightarrow> pthread" where
  "demo_thread p e b = (new_pthread b)\<lparr>thread_at := p, event_triggered := e\<rparr>"

definition demo_port :: "main_point \<Rightarrow> kernel \<Rightarrow> int \<Rightarrow> pthread \<Rightarrow> pthread \<Rightarrow> port" where
  "demo_port m k n h1 h2 = \<lparr>pkern = k, uxCriticalNesting = n, xSchedulerEnd = False,
     xTimerTickThreadShouldRun = (m \<noteq> Main_Setup),
     pthreads = (\<lambda>t. if t \<le> 10 then Some (new_pthread True) else None)(1 \<mapsto> h1, 2 \<mapsto> h2),
     main_at = m, resume_signal = False, ticker_at = (if m = Main_Setup then Ticker_Off else Ticker_Loop)\<rparr>"

abbreviation asleep_thread :: pthread where
  "asleep_thread \<equiv> demo_thread (Waiting Starting) False True"

lemma asleep_thread: "asleep_thread = new_pthread True"
  by (simp add: demo_thread_def new_pthread_def)

definition demo_setup :: port where
  "demo_setup = demo_port Main_Setup demo 0 asleep_thread asleep_thread"

definition demo_coded :: port where
  "demo_coded = demo_port Main_Loop demo 0 (demo_thread In_Code False False) asleep_thread"

definition demo_critical :: port where
  "demo_critical = demo_port Main_Loop demo 1 (demo_thread In_Code False True) asleep_thread"

lemma demo_scheduled: "scheduled_tasks demo \<subseteq> {1..9}"
  by (auto simp: scheduled_tasks_def split: if_splits)

lemma demo_port_living:
  assumes "\<not> cancelled h1" "\<not> xDying h1" "\<not> cancelled h2" "\<not> xDying h2"
  shows "{1..10} \<subseteq> living_tasks (demo_port m k n h1 h2)"
  using assms by (auto simp: living_tasks_def demo_port_def new_pthread_def)

lemma demo_thread_fields [simp]:
  "thread_at (demo_thread p e b) = p" "event_triggered (demo_thread p e b) = e" "\<not> xDying (demo_thread p e b)"
  "\<not> cancelled (demo_thread p e b)" "signals_blocked (demo_thread p e b) = b"
  "\<not> sigalrm_pending (demo_thread p e b)" "\<not> rooIsIsr (demo_thread p e b)" "joining (demo_thread p e b) = None"
  "(demo_thread p e b)\<lparr>thread_at := p'\<rparr> = demo_thread p' e b"
  "(demo_thread p e b)\<lparr>event_triggered := e'\<rparr> = demo_thread p e' b"
  "(demo_thread p e b)\<lparr>signals_blocked := b'\<rparr> = demo_thread p e b'"
  by (simp_all add: demo_thread_def new_pthread_def)

lemma demo_port_fields [simp]:
  "pkern (demo_port m k n h1 h2) = k" "uxCriticalNesting (demo_port m k n h1 h2) = n"
  "main_at (demo_port m k n h1 h2) = m" "\<not> xSchedulerEnd (demo_port m k n h1 h2)"
  "pthreads (demo_port m k n h1 h2) 1 = Some h1" "pthreads (demo_port m k n h1 h2) (Suc 0) = Some h1"
  "pthreads (demo_port m k n h1 h2) 2 = Some h2"
  "demo_port m k n h1 h2\<lparr>pkern := k'\<rparr> = demo_port m k' n h1 h2"
  "demo_port m k n h1 h2\<lparr>uxCriticalNesting := n'\<rparr> = demo_port m k n' h1 h2"
  "demo_port m k n h1 h2\<lparr>pthreads := (pthreads (demo_port m k n h1 h2))(1 \<mapsto> h)\<rparr> = demo_port m k n h h2"
  "demo_port m k n h1 h2\<lparr>pthreads := (pthreads (demo_port m k n h1 h2))(Suc 0 \<mapsto> h)\<rparr> = demo_port m k n h h2"
  "demo_port m k n h1 h2\<lparr>pthreads := (pthreads (demo_port m k n h1 h2))(2 \<mapsto> h)\<rparr> = demo_port m k n h1 h"
  by (simp_all add: demo_port_def fun_upd_twist)

lemma demo_kernel_ok: "kernel_ok (demo_port m k n (demo_thread p e b) (demo_thread p' e' b')) demo"
proof -
  have "{1..9} \<subseteq> living_tasks (demo_port m k n (demo_thread p e b) (demo_thread p' e' b'))"
    using demo_port_living [of "demo_thread p e b" "demo_thread p' e' b'" m k n] by auto
  then show ?thesis using demo_scheduled sys_invD(1) [OF demo_inv] by (auto simp: kernel_ok_def)
qed

lemma demo_setup_ok: "setup_ok demo_setup" "main_at demo_setup = Main_Setup"
proof -
  have "not_started (new_pthread True)" by (simp add: not_started_def new_pthread_def)
  then have "\<forall>t h. pthreads demo_setup t = Some h \<longrightarrow> not_started h"
    by (auto simp: demo_setup_def demo_port_def asleep_thread split: if_splits)
  then show "setup_ok demo_setup"
    using demo_kernel_ok by (simp add: setup_ok_def demo_setup_def)
  show "main_at demo_setup = Main_Setup" by (simp add: demo_setup_def)
qed

section \<open>The start\<close>

lemma step_eq: "port_step s a s1 \<Longrightarrow> s1 = s2 \<Longrightarrow> port_step s a s2"
  by simp

lemma run_next: "port_step s a s1 \<Longrightarrow> a \<in> A \<Longrightarrow> port_run A s0 s \<Longrightarrow> port_run A s0 s1"
  by (rule prun_step)

lemma wake_step:
  assumes "at_point s t (Waiting w)" "event_triggered (prvGetThreadFromTask t s)"
  shows "port_step s (Task_Thread t) (go_to t (Woken w) (upd_thread t (\<lambda>h. h\<lparr>event_triggered := False\<rparr>) s))"
  by (rule port_step.wake [OF assms(1)]) (use assms(2) in \<open>simp add: event_wait_def\<close>)

lemma demo_start:
  "port_step demo_setup Main_Thread (demo_port Main_Loop demo 0 (demo_thread (Waiting Starting) True True) asleep_thread)"
  by (rule step_eq [OF port_step.start [where t = 1]])
    (simp_all add: demo_setup_def xPortStartScheduler_def event_signal_def Let_def,
     simp_all add: demo_port_def demo_thread_def new_pthread_def fun_upd_twist)

lemma demo_wake:
  "port_step (demo_port Main_Loop demo 0 (demo_thread (Waiting Starting) True True) asleep_thread)
     (Task_Thread 1) (demo_port Main_Loop demo 0 (demo_thread (Woken Starting) False True) asleep_thread)"
  by (rule step_eq [OF wake_step [where w = Starting]]) (simp_all add: at_point_def)

lemma demo_first:
  "port_step (demo_port Main_Loop demo 0 (demo_thread (Woken Starting) False True) asleep_thread)
     (Task_Thread 1) demo_coded"
  by (rule step_eq [OF port_step.testcancel [where w = Starting]])
    (simp_all add: at_point_def testcancel_def prvWaitForStart_resumed_def vPortEnableInterrupts_def demo_coded_def)

lemma demo_enter: "port_step demo_coded (Task_Thread 1) demo_critical"
  by (rule step_eq [OF port_step.enter])
    (simp_all add: in_code_def demo_coded_def demo_critical_def vPortEnterCritical_def vPortDisableInterrupts_def)

lemma demo_reachable: "reachable demo_coded" "reachable demo_critical"
proof -
  note run = prun_step [OF prun_step [OF prun_step [OF prun_refl UNIV_I demo_start] UNIV_I demo_wake] UNIV_I demo_first]
  show "reachable demo_coded" using run demo_setup_ok by (auto simp: reachable_def)
  show "reachable demo_critical"
    using prun_step [OF run UNIV_I demo_enter] demo_setup_ok by (auto simp: reachable_def)
qed

section \<open>Two switches\<close>

text \<open>Task 1 yields inside its critical section; task 2 runs with a nesting count of its own and yields back.\<close>

definition demo_2 :: kernel where
  "demo_2 = demo\<lparr>lists := demo_lists\<lparr>cursor := (\<lambda>_. None)(ReadyL 3 \<mapsto> StateI 2)\<rparr>, pxCurrentTCB := Some 2\<rparr>"

lemma demo_switches: "vTaskSwitchContext demo = Some demo_2" "vTaskSwitchContext demo_2 = Some demo"
  by (simp_all add: demo_2_def vTaskSwitchContext_def taskSELECT_HIGHEST_PRIORITY_TASK_def numeral_3_eq_3
      list_next_entry_def Let_def advance_def fun_upd_idem)

abbreviation port_demo :: "kernel \<Rightarrow> int \<Rightarrow> pthread \<Rightarrow> pthread \<Rightarrow> port" where
  "port_demo \<equiv> demo_port Main_Loop"

lemma demo_2_ok: "kernel_ok (port_demo k n (demo_thread p e b) (demo_thread p' e' b')) demo_2"
  by (rule switch_context_ok(1) [OF demo_kernel_ok demo_switches(1)])

lemma demo_yields:
  "port_step demo_critical (Task_Thread 1) (port_demo demo 2 (demo_thread In_Yield False True) asleep_thread)"
  "port_step (port_demo demo 2 (demo_thread In_Yield False True) asleep_thread) (Task_Thread 1)
     (port_demo demo_2 2 (demo_thread (Switching ByYield 2) False True) asleep_thread)"
  "port_step (port_demo demo_2 2 (demo_thread (Switching ByYield 2) False True) asleep_thread) (Task_Thread 1)
     (port_demo demo_2 2 (demo_thread (Suspending ByYield 2) False True) (demo_thread (Waiting Starting) True True))"
  "port_step (port_demo demo_2 2 (demo_thread (Suspending ByYield 2) False True) (demo_thread (Waiting Starting) True True))
     (Task_Thread 1)
     (port_demo demo_2 2 (demo_thread (Waiting (Switched ByYield 2)) False True) (demo_thread (Waiting Starting) True True))"
proof -
  show "port_step demo_critical (Task_Thread 1) (port_demo demo 2 (demo_thread In_Yield False True) asleep_thread)"
    by (rule step_eq [OF port_step.yield_call])
      (use demo_kernel_ok in \<open>simp_all add: demo_critical_def in_code_def vPortYield_enter_def vPortEnterCritical_def\<close>)
  show "port_step (port_demo demo 2 (demo_thread In_Yield False True) asleep_thread) (Task_Thread 1)
     (port_demo demo_2 2 (demo_thread (Switching ByYield 2) False True) asleep_thread)"
    by (rule port_step.yield) (simp_all add: at_point_def prvPortYieldFromISR_def demo_switches, simp add: demo_2_def)
  show "port_step (port_demo demo_2 2 (demo_thread (Switching ByYield 2) False True) asleep_thread) (Task_Thread 1)
     (port_demo demo_2 2 (demo_thread (Suspending ByYield 2) False True) (demo_thread (Waiting Starting) True True))"
    by (rule step_eq [OF port_step.resume [where f = ByYield and u = 2]])
      (simp_all add: at_point_def prvSwitchThread_resume_def prvResumeThread_def event_signal_def Let_def)
  show "port_step (port_demo demo_2 2 (demo_thread (Suspending ByYield 2) False True) (demo_thread (Waiting Starting) True True))
     (Task_Thread 1)
     (port_demo demo_2 2 (demo_thread (Waiting (Switched ByYield 2)) False True) (demo_thread (Waiting Starting) True True))"
    by (rule step_eq [OF port_step.suspend [where f = ByYield and n = 2]])
      (simp_all add: at_point_def prvSwitchThread_suspend_def)
qed

lemma demo_task_2:
  fixes h1 :: pthread
  defines "h1 \<equiv> demo_thread (Waiting (Switched ByYield 2)) False True"
  shows "port_step (port_demo demo_2 2 h1 (demo_thread (Waiting Starting) True True)) (Task_Thread 2)
      (port_demo demo_2 2 h1 (demo_thread (Woken Starting) False True))"
    "port_step (port_demo demo_2 2 h1 (demo_thread (Woken Starting) False True)) (Task_Thread 2)
      (port_demo demo_2 0 h1 (demo_thread In_Code False False))"
    "port_step (port_demo demo_2 0 h1 (demo_thread In_Code False False)) (Task_Thread 2)
      (port_demo demo_2 1 h1 (demo_thread In_Yield False True))"
    "port_step (port_demo demo_2 1 h1 (demo_thread In_Yield False True)) (Task_Thread 2)
      (port_demo demo 1 h1 (demo_thread (Switching ByYield 1) False True))"
    "port_step (port_demo demo 1 h1 (demo_thread (Switching ByYield 1) False True)) (Task_Thread 2)
      (port_demo demo 1 (h1\<lparr>event_triggered := True\<rparr>) (demo_thread (Suspending ByYield 1) False True))"
proof -
  show "port_step (port_demo demo_2 2 h1 (demo_thread (Waiting Starting) True True)) (Task_Thread 2)
      (port_demo demo_2 2 h1 (demo_thread (Woken Starting) False True))"
    by (rule step_eq [OF wake_step [where w = Starting]]) (simp_all add: at_point_def)
  show "port_step (port_demo demo_2 2 h1 (demo_thread (Woken Starting) False True)) (Task_Thread 2)
      (port_demo demo_2 0 h1 (demo_thread In_Code False False))"
    by (rule step_eq [OF port_step.testcancel [where w = Starting]])
      (simp_all add: at_point_def testcancel_def prvWaitForStart_resumed_def vPortEnableInterrupts_def)
  show "port_step (port_demo demo_2 0 h1 (demo_thread In_Code False False)) (Task_Thread 2)
      (port_demo demo_2 1 h1 (demo_thread In_Yield False True))"
    by (rule step_eq [OF port_step.yield_call]) (use demo_2_ok h1_def in \<open>simp_all add: in_code_def
      vPortYield_enter_def vPortEnterCritical_def vPortDisableInterrupts_def\<close>)
  show "port_step (port_demo demo_2 1 h1 (demo_thread In_Yield False True)) (Task_Thread 2)
      (port_demo demo 1 h1 (demo_thread (Switching ByYield 1) False True))"
    by (rule port_step.yield) (simp_all add: at_point_def prvPortYieldFromISR_def demo_switches)
  show "port_step (port_demo demo 1 h1 (demo_thread (Switching ByYield 1) False True)) (Task_Thread 2)
      (port_demo demo 1 (h1\<lparr>event_triggered := True\<rparr>) (demo_thread (Suspending ByYield 1) False True))"
    by (rule step_eq [OF port_step.resume [where f = ByYield and u = 1]])
      (simp_all add: at_point_def prvSwitchThread_resume_def prvResumeThread_def event_signal_def Let_def)
qed

lemma demo_returns:
  fixes h2 :: pthread
  defines "h2 \<equiv> demo_thread (Suspending ByYield 1) False True"
  shows "port_step (port_demo demo 1 (demo_thread (Waiting (Switched ByYield 2)) True True) h2) (Task_Thread 1)
      (port_demo demo 1 (demo_thread (Woken (Switched ByYield 2)) False True) h2)"
    "port_step (port_demo demo 1 (demo_thread (Woken (Switched ByYield 2)) False True) h2) (Task_Thread 1)
      (port_demo demo 2 (demo_thread (Switched_Back ByYield) False True) h2)"
    "port_step (port_demo demo 2 (demo_thread (Switched_Back ByYield) False True) h2) (Task_Thread 1)
      (port_demo demo 1 (demo_thread In_Code False True) h2)"
proof -
  show "port_step (port_demo demo 1 (demo_thread (Waiting (Switched ByYield 2)) True True) h2) (Task_Thread 1)
      (port_demo demo 1 (demo_thread (Woken (Switched ByYield 2)) False True) h2)"
    by (rule step_eq [OF wake_step [where w = "Switched ByYield 2"]]) (simp_all add: at_point_def)
  show "port_step (port_demo demo 1 (demo_thread (Woken (Switched ByYield 2)) False True) h2) (Task_Thread 1)
      (port_demo demo 2 (demo_thread (Switched_Back ByYield) False True) h2)"
    by (rule step_eq [OF port_step.testcancel [where w = "Switched ByYield 2"]])
      (simp_all add: at_point_def testcancel_def prvSwitchThread_restore_def)
  show "port_step (port_demo demo 2 (demo_thread (Switched_Back ByYield) False True) h2) (Task_Thread 1)
      (port_demo demo 1 (demo_thread In_Code False True) h2)"
    by (rule step_eq [OF port_step.switch_return [where f = ByYield]])
      (simp_all add: at_point_def switch_return_def vPortYield_leave_def vPortExitCritical_def Let_def)
qed

text \<open>From the yield to the return of task 1.\<close>

definition demo_yielded :: port where
  "demo_yielded = port_demo demo 2 (demo_thread In_Yield False True) asleep_thread"

definition demo_returned :: port where
  "demo_returned = port_demo demo 1 (demo_thread In_Code False True) (demo_thread (Suspending ByYield 1) False True)"

lemma away_next:
  "port_step s1 a s2 \<Longrightarrow> \<not> at_point s1 c In_Code \<Longrightarrow> \<not> at_point s1 c Ended \<Longrightarrow> away c s s1 \<Longrightarrow> away c s s2"
  by (rule away_step)

lemma demo_away: "away 1 demo_yielded demo_returned"
  unfolding demo_yielded_def demo_returned_def
  by (rule away_next [OF demo_returns(3)], simp add: at_point_def, simp add: at_point_def,
      rule away_next [OF demo_returns(2)], simp add: at_point_def, simp add: at_point_def,
      rule away_next [OF demo_returns(1)], simp add: at_point_def, simp add: at_point_def,
      rule away_next [OF demo_task_2(5) [unfolded demo_thread_fields]], simp add: at_point_def, simp add: at_point_def,
      rule away_next [OF demo_task_2(4)], simp add: at_point_def, simp add: at_point_def,
      rule away_next [OF demo_task_2(3)], simp add: at_point_def, simp add: at_point_def,
      rule away_next [OF demo_task_2(2)], simp add: at_point_def, simp add: at_point_def,
      rule away_next [OF demo_task_2(1)], simp add: at_point_def, simp add: at_point_def,
      rule away_next [OF demo_yields(4)], simp add: at_point_def, simp add: at_point_def,
      rule away_next [OF demo_yields(3)], simp add: at_point_def, simp add: at_point_def,
      rule away_next [OF demo_yields(2)], simp add: at_point_def, simp add: at_point_def,
      rule away_refl)

section \<open>A deletion, a tick, an event\<close>

text \<open>Task 1 deletes the tenth task, whose pthread waits to be started for the first time.\<close>

definition demo_cancelling :: port where
  "demo_cancelling = vPortCancelThread 1 10 demo_coded"

lemma demo_cancelling:
  "reachable demo_cancelling"
  "pthreads demo_cancelling 10 = Some ((new_pthread True)\<lparr>cancelled := True, event_triggered := True\<rparr>)"
proof -
  have "port_step demo_coded (Task_Thread 1) demo_cancelling"
    unfolding demo_cancelling_def
  proof (rule port_step.cancel [where h = "new_pthread True"])
    show "in_code demo_coded 1" by (simp add: in_code_def demo_coded_def)
    show "10 \<notin> scheduled_tasks (pkern demo_coded)" using demo_scheduled by (auto simp: demo_coded_def)
  qed (simp_all add: demo_coded_def demo_port_def new_pthread_def)
  moreover obtain s0 where s0: "setup_ok s0" "main_at s0 = Main_Setup" "port_run UNIV s0 demo_coded"
    using demo_reachable(1) by (auto simp: reachable_def)
  ultimately have "port_run UNIV s0 demo_cancelling" by (blast intro: prun_step)
  with s0 show "reachable demo_cancelling" by (auto simp: reachable_def)
  show "pthreads demo_cancelling 10 = Some ((new_pthread True)\<lparr>cancelled := True, event_triggered := True\<rparr>)"
    by (simp add: demo_cancelling_def vPortCancelThread_def event_signal_def demo_coded_def demo_port_def Let_def)
qed

text \<open>While task 1 is in its critical section, the host asks for a tick.\<close>

definition demo_ticked :: port where
  "demo_ticked = RooFreeRtosPortRequestTick demo_critical"

lemma demo_ticked: "port_run (UNIV - {Task_Thread 1}) demo_critical demo_ticked"
  unfolding demo_ticked_def by (rule prun_step [OF prun_refl _ port_step.request_tick]) simp

text \<open>An event whose owner waits for it and is signalled.\<close>

definition demo_event :: pevent where
  "demo_event = event_create\<lparr>triggered := True, signaller_at := (\<lambda>_. Signal_Entry)(3 := Signal_Returned)\<rparr>"

lemma demo_event: "pevent_run False event_create demo_event"
proof -
  let ?m = "\<lambda>p. event_create\<lparr>mutex := Some (Signaller 3), signaller_at := (\<lambda>_. Signal_Entry)(3 := p)\<rparr>"
  have 1: "pevent_step False event_create (By_Signaller 3) (?m Signal_Set)"
    by (rule pevent_step.signal) (simp add: event_create_def)
  have 2: "pevent_step False (?m Signal_Set) (By_Signaller 3) ((?m Signal_Cond)\<lparr>triggered := True\<rparr>)"
    by (rule pevent_step.signal) (simp add: event_create_def)
  have 3: "pevent_step False ((?m Signal_Cond)\<lparr>triggered := True\<rparr>) (By_Signaller 3)
      ((?m Signal_Unlock)\<lparr>triggered := True\<rparr>)"
    by (rule pevent_step.signal) (simp add: event_create_def)
  have 4: "pevent_step False ((?m Signal_Unlock)\<lparr>triggered := True\<rparr>) (By_Signaller 3) demo_event"
    by (rule pevent_step.signal) (simp add: event_create_def demo_event_def)
  show ?thesis by (rule pevent_more [OF pevent_more [OF pevent_more [OF pevent_more [OF pevent_refl 1] 2] 3] 4])
qed

end
