(* ===== verification/Port_Kernel.thy ===== *)
theory Port_Kernel
  imports Port_Runs
begin

text \<open>
  The interface between the port and the kernel's code: what a call of tasks.c has to keep for the
  protocol of the port, and what the port gives it in return.
\<close>

locale kernel_call =
  fixes call :: "kernel \<Rightarrow> kernel option"
  assumes keeps: "\<lbrakk>kernel_ok s k; pxCurrentTCB k = Some c; call k = Some k'\<rbrakk> \<Longrightarrow>
    kernel_ok s k' \<and> pxCurrentTCB k' = Some c"
begin

lemma call_step:
  assumes inv: "port_inv s" and t: "in_code s t" "\<not> xDying (prvGetThreadFromTask t s)"
    and k: "kernel_ok s (pkern s)" "call (pkern s) = Some k'"
  shows "port_step s (Task_Thread t) (s\<lparr>pkern := k'\<rparr>)"
proof -
  obtain h where h: "pthreads s t = Some h" "thread_at h = In_Code" using t by (auto simp: in_code_def)
  have c: "pxCurrentTCB (pkern s) = Some t" by (rule in_code_control(5) [OF inv h])
  from keeps [OF k(1) c k(2)] show ?thesis
    using t c by (intro port_step.code) (simp_all add: kernel_ok_def dying_ok_def)
qed

text \<open>A call in a critical section works on the kernel as it was at the entry, whatever the others do meanwhile.\<close>

lemma sequential_call:
  assumes inv: "port_inv s" and t: "in_code s t"
    and others: "port_run (UNIV - {Task_Thread t}) (vPortEnterCritical t s) s'"
  shows "call (pkern s') = call (pkern s)" "0 < uxCriticalNesting s'" "in_code s' t"
proof -
  have inv1: "port_inv (vPortEnterCritical t s)" by (rule enter_inv [OF inv t])
  obtain h where h: "pthreads s t = Some h" "thread_at h = In_Code" "joining h = None"
    using t by (auto simp: in_code_def)
  have e: "pkern (vPortEnterCritical t s) = pkern s"
    "uxCriticalNesting (vPortEnterCritical t s) = uxCriticalNesting s + 1"
    by (simp_all add: vPortEnterCritical_def vPortDisableInterrupts_def)
  obtain h1 where h1: "pthreads (vPortEnterCritical t s) t = Some h1" "thread_at h1 = In_Code" "joining h1 = None"
    using h by (cases "uxCriticalNesting s = 0") (auto simp: vPortEnterCritical_def vPortDisableInterrupts_def Let_def)
  have "executing (vPortEnterCritical t s) t" using h1 by (simp add: executing_def)
  from others_run [OF others _ inv1 this h1(1)] obtain b where
    "pkern s' = pkern s" "uxCriticalNesting s' = uxCriticalNesting s + 1"
    "pthreads s' t = Some (h1\<lparr>sigalrm_pending := b\<rparr>)" using e by auto
  then show "call (pkern s') = call (pkern s)" "0 < uxCriticalNesting s'" "in_code s' t"
    using in_code_control(7) [OF inv h(1,2)] h1(2,3) by (simp_all add: in_code_def)
qed

end

text \<open>Calls of tasks.c that change the kernel and leave the choice of the task to the port.\<close>

interpretation tick_call: kernel_call "\<lambda>k. map_option fst (xTaskIncrementTick k)"
proof
  fix s k c k' assume k: "kernel_ok s k" "pxCurrentTCB k = Some c"
    "map_option fst (xTaskIncrementTick k) = Some k'"
  have "ensures (xTaskIncrementTick k) (\<lambda>(k', sw). kernel_ok s k' \<and> pxCurrentTCB k' = Some c)"
    by (rule tick_ok [OF k(1,2)]) simp
  with k(3) show "kernel_ok s k' \<and> pxCurrentTCB k' = Some c" by (auto simp: ensures_iff)
qed

interpretation suspend_call: kernel_call "\<lambda>k. Some (vTaskSuspendAll k)"
  by unfold_locales (auto simp: kernel_ok_def scheduled_tasks_def vTaskSuspendAll_def)

end
