(* ===== verification/Spec2Isabelle.thy ===== *)
theory Spec2Isabelle
  imports Queue_Example Event_Example Stream_Example Timer_Example List_C
    Port_Example Port_Kernel
begin

text \<open>
  A verification library for the real-time kernel at the centre of roo_testing: the FreeRTOS
  kernel that the emulated ESP32, RP2040 and other boards run natively on the host
  (src/roo_testing/frameworks/arduino-pico/FreeRTOS-Kernel), in the configuration of the
  native POSIX port (src/roo_testing/frameworks/freertos_posix/FreeRTOSConfig.h: one core,
  8 priorities, preemption and time slicing on, mutexes, recursive mutexes, counting
  semaphores, queue sets, 4 notification slots per task, 32-bit ticks).

  \<^bold>\<open>Parts and theories.\<close>

  \<^item> Prelude: machine types, \<open>configASSERT\<close>, and \<open>ensures m Q\<close>, the total-correctness form
    every component lemma has: the routine returns, no assertion in it fails, and \<open>Q\<close>
    holds of its result.
  \<^item> List_Spec and List_C: list.c and include/list.h. List_C is the code, pointer by
    pointer, over a heap of nodes linked in both directions with the end marker and the
    walking cursor \<open>pxIndex\<close>; List_Spec is the contract over sequences that the other
    components use. The locale \<open>list_api\<close> states the contract's laws; it is interpreted on
    the sequences and, through the abstraction of the heap, on the pointer code.
  \<^item> Task_State, Task_Sched, Task_Time, Task_Block, Task_Control, Task_Tick, Task_Create:
    tasks.c. The record \<open>kernel\<close> holds the file's static variables under their own names
    and the control blocks (\<open>tcb\<close>); \<open>list_id\<close> names its lists. Task_Sched has the tick, the
    scheduler lock and the choice of the next task; Task_Time the time-outs; Task_Block
    delays; Task_Control priorities, suspension and the abort of a delay; Task_Tick the tick
    handler of the port and tickless idle; Task_Create creation, deletion, the idle task and
    what holds before the start of the scheduler (\<open>boot_inv\<close>).
  \<^item> Task_Events, Task_Mutex, Task_Notify: the part of tasks.c that the communication
    primitives are built on: event lists, priority inheritance, direct-to-task notifications.
  \<^item> Task_Info: what tasks.c tells about tasks, up to the snapshot of \<open>uxTaskGetSystemState\<close>.
  \<^item> Queue_State, Queue_Ops: queue.c. Queue_State has the record \<open>queue\<close> with the ring of its
    storage area, as bytes, and its meaning as a sequence of items (\<open>contents\<close>); the locale
    \<open>bounded_fifo\<close> is the contract of a bounded FIFO, interpreted on that code. Queue_Ops has
    the operations on the state \<open>os\<close> (the kernel, the queues, the registry): sending, receiving
    and peeking, from tasks and from interrupts, semaphores, mutexes and recursive mutexes,
    creation and deletion, locking, queue sets, the registry.
  \<^item> Queue_Proofs (critical sections and the invariant \<open>os_inv\<close>), Queue_Wait and Queue_Block
    (waiting while interrupts go on; the locale \<open>locked_env\<close> is the contract of what interrupts
    may do meanwhile, interpreted on all sequences of the model's own interrupt calls),
    Queue_Mutex (taking, giving, recursion), Queue_Sets (sets, creation, registry): proofs.
  \<^item> Event_Groups: event_groups.c on the state \<open>event_os\<close> (the kernel and the groups): setting
    bits with the walk over the waiters, clearing, waiting, meeting, creation and deletion.
    Event_Proofs has what each call does and the invariant \<open>event_inv\<close> (no task waits for bits
    that are set); Event_Sync meeting, deletion, and the step relation \<open>event_step\<close> with its runs.
  \<^item> Stream_State, Stream_Ops: stream_buffer.c on the state \<open>stream_os\<close> (the kernel and the
    buffers). Stream_State has the record \<open>stream_buffer\<close> with its ring of bytes and the reading
    and writing of bytes and messages; Stream_Ops the calls, from tasks and interrupts, with the
    waking of the other side and the waiting for a notification. Stream_Ring and Stream_Messages
    show what the ring means as a sequence of bytes (\<open>sb_contents\<close>) and of messages
    (\<open>sb_messages\<close>); Stream_Wake what the calls do to the tasks that wait; Stream_Channel states
    the contract of both kinds as the locale \<open>channel\<close> and interprets it on the calls of the
    code; Stream_Wait is about a task that waits while an interrupt serves it, Stream_Setup about
    creation, reset and the trigger level.
  \<^item> Timer_State, Timer_Ops: timers.c on the state \<open>timer_os\<close> (the system of queue.c, the timers,
    their two lists, the timer queue). Timer_State has the timers and the messages of the timer
    queue with their bytes; Timer_Ops the calls, the commands and the timer task
    (\<open>prvTimerTask\<close> is a round of its loop). Callbacks and pended functions are the application's
    code: the record \<open>application\<close> is a parameter. Timer_Sends has the sending of commands, and
    the two calls of event_groups.c that interrupts leave to the timer task.
  \<^item> Timer_Lists (the two lists as one schedule: \<open>due\<close> is when a timer expires, counted from the
    last wrap; \<open>timers_ok\<close> says that the active timers are those in the lists), Timer_Expiry
    (expiry and the wrap; the locale \<open>timer_application\<close> is the contract of the application's
    code, whose callbacks return, leave the lists alone and are counted), Timer_Commands (the
    commands and the loop that empties the queue), Timer_Wait (how long the timer task sleeps,
    and that it fires): proofs. \<open>past_wrap\<close> is what the wrap of the tick counter does to a timer.
  \<^item> Timer_Start: \<open>vTaskStartScheduler\<close> of tasks.c, which calls timers.c for the timer task, and what
    it makes of any system of tasks, queues and timers made before it (\<open>boot_timers\<close>).
  \<^item> Port_State, Port_Steps: the native port (portable/ThirdParty/GCC/Posix/port.c), whose pthreads,
    one for each task, hand control to each other through events. The record \<open>port\<close> has the
    kernel, the nesting count of critical sections and the pthreads with the place each has reached;
    the functions of port.c are cut at every access to what the threads share, and
    \<open>port_step\<close> lets any thread take its next step: the tasks, the main thread, the thread that makes the ticks,
    and the host. Port_Event is the event itself (utils/wait_for_event.c), with its mutex
    and condition variable, and shows that it is the flag that Port_State takes it for.
    Port_Threads shows the invariant \<open>port_inv\<close> (control belongs to one task), Port_Runs what follows
    for runs; Port_Kernel states the interface to tasks.c as the locale \<open>kernel_call\<close> and interprets
    it on calls of the kernel. Port_Example: the port under the kernel of Task_Example.
  \<^item> Task_Example: a kernel with nine tasks in every state; Queue_Example: the same with six
    queues, Event_Example with an event group, Stream_Example with three
    buffers, Timer_Example with three timers and the application that counts expiries in the
    timers' identifiers, on which \<open>timer_application\<close> is interpreted. The witnesses use them.

  \<^bold>\<open>How to read the model.\<close> A C function is a HOL function of the same name on the state
  record, in the order of the code. A result of type \<open>option\<close> is \<open>None\<close> where the code
  aborts (\<open>configASSERT\<close>) or dereferences NULL. Loops whose end has to be argued for are
  \<open>partial_function (option)\<close>, so that not returning is \<open>None\<close> too, and \<open>ensures\<close> claims that
  they return (for the loops of timers.c that call the application: for every application that
  keeps the contract); no fuel is used anywhere. Critical sections are atomic: they run with the
  signals of the port blocked, and no other thread touches the kernel meanwhile (the theorem
  \<open>critical_sections_are_atomic\<close>). A call that blocks is cut where it leaves a critical section
  or locks the scheduler, so that ticks and interrupts can be placed between its phases. For
  queues these places are named (\<open>point\<close>) and an environment \<open>env\<close> says what happens there; a
  blocking call takes a list of environments, one for each round of waiting, and a result of
  \<open>None\<close> inside says that the list ran out while the call still waited.
  \<open>portYIELD\<close> is the choice of the next task; that the pthread of the chosen task then runs, and no
  other, is shown for the port, whose steps call the same \<open>vTaskSwitchContext\<close> and
  \<open>xTaskIncrementTick\<close>. What the steps of the port assume of tasks.c (\<open>kernel_ok\<close>) is that a
  task is scheduled only while its pthread lives, and \<open>kernel_inv\<close> between critical sections.

  \<^bold>\<open>Invariants.\<close> \<open>kernel_inv\<close> is what holds at every point of the kernel's code: the lists
  are well formed and hold items of their kind, the delayed lists are in wake-up order and
  on the right side of the tick counter, the counters count. \<open>sys_inv\<close> adds what holds
  between calls: the idle and the running task are ready, and no ready task outranks the
  running one unless a switch is pending. Every operation is shown to keep it (the lemmas
  \<open>..._ensures\<close>), and the properties below rest on those lemmas.

  \<^bold>\<open>Bounds.\<close> Ticks, time-outs and notification values are 32-bit words with their
  wrap-around; \<open>UBaseType_t\<close> counters are naturals (a task or an object would have to exist
  for each unit) except the call count of a recursive mutex, which is a 64-bit word. Lock counts
  of queues are integers kept in the range of \<open>int8_t\<close> by an assertion of the code; that they do
  not reach its end rests on there being at most 127 tasks. \<open>xNumOfOverflows\<close> is an integer; it
  is only compared for equality. Addresses are naturals; the messages of the timer queue hold them
  in 64 bits.

  \<^bold>\<open>Not modelled.\<close> The multicore code of tasks.c (compiled out with one core), stack contents and
  stack overflow checks, trace macros, run-time statistics, of the port
  its initial signal masks, thread names and stack sizes and a restart after the scheduler has ended,
  the allocator (heap_3.c calls the host's \<open>malloc\<close>; what it gives is a
  parameter of the creating calls), and the rest of roo_testing outside the kernel: the device emulation, the
  vendored SDKs (ESP-IDF, Arduino cores, mbedTLS, FatFs and others) and the test frameworks.
\<close>

section \<open>Time\<close>

text \<open>
  C1: One tick of the running scheduler (\<open>xTaskIncrementTick\<close>) never stops in an assertion;
  it advances the tick count by one (with wrap-around, the count of overflows included), and
  makes ready exactly the tasks whose wake-up time the new count is, wherever the tick counter
  stands; all other tasks stay where they are. It asks for a context switch exactly if a woken
  task outranks the running one, if another task shares its priority (time slicing), or if a
  switch was already pending.
\<close>

theorem tick_wakes_exactly_the_due_tasks:
  assumes "kernel_inv k" and "pxCurrentTCB k = Some c" and "uxSchedulerSuspended k = 0"
  shows "ensures (xTaskIncrementTick k) (\<lambda>(k', switch).
    kernel_inv k' \<and> xTickCount k' = xTickCount k + 1 \<and> abs_time k' = abs_time k + 1 \<and>
    (\<forall>t. ready k' t \<longleftrightarrow> ready k t \<or> (timed k t \<and> wake_time k t = xTickCount k + 1)) \<and>
    (\<forall>t. timed k' t \<longleftrightarrow> timed k t \<and> wake_time k t \<noteq> xTickCount k + 1) \<and>
    (switch \<longleftrightarrow> (\<exists>t. timed k t \<and> wake_time k t = xTickCount k + 1 \<and> prio k c < prio k t) \<or>
       1 < length (members k' (ReadyL (prio k c))) \<or> xYieldPending k))"
proof (rule xTaskIncrementTick_ensures [OF assms], unfold prod.case, goal_cases)
  case (1 k')
  have "waking k = {t. timed k t \<and> wake_time k t = xTickCount k + 1}" by (simp add: waking_def)
  then show ?case
    using 1 ready_ticked [OF 1(2)] timed_ticked [OF kernel_invD(1) kernel_invD(1) 1(2), OF assms(1) 1(1)]
    by auto
qed

lemma tick_wakes_exactly_the_due_tasks_witness:
  "kernel_inv demo \<and> timed demo 3 \<and> timed demo 8 \<and>
   ensures (xTaskIncrementTick demo) (\<lambda>(k', switch). xTickCount k' = 4 \<and> timed k' 3 \<and> timed k' 8 \<and> ready k' 2)"
proof -
  have inv: "kernel_inv demo" using demo_inv by (rule sys_invD)
  have "ready demo 2" by (simp add: ready_def)
  moreover have "timed demo 3" "timed demo 8" by (simp_all add: timed_def)
  moreover have "ensures (xTaskIncrementTick demo) (\<lambda>(k', switch). xTickCount k' = 4 \<and> timed k' 3 \<and> timed k' 8 \<and> ready k' 2)"
    by (rule ensures_mono [OF tick_wakes_exactly_the_due_tasks [OF inv, of 1]]) (use calculation in auto)
  ultimately show ?thesis using inv by blast
qed

text \<open>
  C2: A task that delays itself for \<open>n\<close> ticks is asleep until exactly \<open>n\<close> ticks have passed:
  after \<open>m\<close> further ticks it is ready if and only if \<open>n \<le> m\<close>. This holds for every delay
  the tick type can express, also across the wrap of the tick counter and the exchange of the
  two delayed lists that comes with it.
\<close>

theorem vTaskDelay_sleeps_exactly:
  assumes s: "sys_inv k" and run: "uxSchedulerSuspended k = 0" and cur: "pxCurrentTCB k = Some c"
    and ni: "xIdleTaskHandle k \<noteq> Some c"
  shows "ensures (do { k1 \<leftarrow> vTaskDelay n k; ticks m k1 }) (\<lambda>k'. kernel_inv k' \<and>
    xTickCount k' = xTickCount k + of_nat m \<and> (ready k' c \<longleftrightarrow> unat n \<le> m))"
  unfolding ensures_bind
proof (rule ensures_mono [OF vTaskDelay_ensures [OF assms]], clarify)
  fix k1 assume s1: "sys_inv k1" and t: "xTickCount k1 = xTickCount k" "uxSchedulerSuspended k1 = 0"
    and c1: "if n = 0 then ready k1 c else timed k1 c \<and> ticks_left k1 c = unat n"
  note core1 = sys_invD(2) [OF s1]
  obtain c' where cur1: "pxCurrentTCB k1 = Some c'" using sys_invD(5) [OF s1] by (auto simp: current_ready_def)
  show "ensures (ticks m k1) (\<lambda>k'. kernel_inv k' \<and>
    xTickCount k' = xTickCount k + of_nat m \<and> (ready k' c \<longleftrightarrow> unat n \<le> m))"
  proof (rule ticks_ensures [OF sys_invD(1) [OF s1] cur1 t(2)])
    fix k' assume k': "kernel_inv k'" "ticked (waking_by m k1) k1 k'" "xTickCount k' = xTickCount k1 + of_nat m"
    have "timed k1 c \<Longrightarrow> \<not> ready k1 c"
      using core1 by (auto simp: timed_iff ready_def)
    then have "ready k' c \<longleftrightarrow> unat n \<le> m"
      using ready_ticked [OF k'(2), of c] c1 by (auto simp: waking_by_def split: if_splits)
    moreover have "xTickCount k' = xTickCount k + of_nat m"
      by (simp add: k'(3) t(1))
    ultimately show "kernel_inv k' \<and> xTickCount k' = xTickCount k + of_nat m \<and>
        (ready k' c \<longleftrightarrow> unat n \<le> m)" using k'(1) by blast
  qed
qed

lemma vTaskDelay_sleeps_exactly_witness:
  "sys_inv demo \<and> ensures (do { k1 \<leftarrow> vTaskDelay 20 demo; ticks 19 k1 }) (\<lambda>k'. \<not> ready k' 1) \<and>
   ensures (do { k1 \<leftarrow> vTaskDelay 20 demo; ticks 20 k1 }) (\<lambda>k'. ready k' 1)"
proof -
  note t = vTaskDelay_sleeps_exactly [OF demo_inv, of 1 20]
  have "ensures (do { k1 \<leftarrow> vTaskDelay 20 demo; ticks 19 k1 }) (\<lambda>k'. \<not> ready k' 1)"
    by (rule ensures_mono [OF t [of 19]]) simp_all
  moreover have "ensures (do { k1 \<leftarrow> vTaskDelay 20 demo; ticks 20 k1 }) (\<lambda>k'. ready k' 1)"
    by (rule ensures_mono [OF t [of 20]]) simp_all
  ultimately show ?thesis using demo_inv by blast
qed

text \<open>
  C3: \<open>xTaskDelayUntil\<close> keeps a fixed period: it advances the caller's wake-up time by exactly
  one increment, and blocks the caller if and only if the time since the previous wake-up is
  less than that increment, then for exactly the rest of it. All of this is in the arithmetic
  of the wrapping 32-bit tick counter.
\<close>

theorem xTaskDelayUntil_periodic:
  assumes "sys_inv k" and "uxSchedulerSuspended k = 0" and "pxCurrentTCB k = Some c"
    and "xIdleTaskHandle k \<noteq> Some c" and "inc > 0"
  shows "ensures (xTaskDelayUntil prev inc k) (\<lambda>(k', wake, delayed). sys_inv k' \<and>
    wake = prev + inc \<and> delayed = (unat (xTickCount k - prev) < unat inc) \<and>
    (if delayed then timed k' c \<and> ticks_left k' c = unat inc - unat (xTickCount k - prev) else ready k' c) \<and>
    (\<forall>t. t \<noteq> c \<longrightarrow> state_list k' t = state_list k t))"
  by (rule ensures_mono [OF xTaskDelayUntil_ensures [OF assms]]) auto

text \<open>Called at tick 3 with a period of 10: late by 4 ticks when due at -1, and past when due at -10.\<close>

lemma xTaskDelayUntil_periodic_witness:
  "ensures (xTaskDelayUntil (- 1) 10 demo) (\<lambda>(k', wake, delayed). wake = 9 \<and> delayed \<and> timed k' 1 \<and> ticks_left k' 1 = 6) \<and>
   ensures (xTaskDelayUntil (- 10) 10 demo) (\<lambda>(k', wake, delayed). wake = 0 \<and> \<not> delayed \<and> ready k' 1)"
proof
  note t = xTaskDelayUntil_periodic [OF demo_inv, of 1 10]
  show "ensures (xTaskDelayUntil (- 1) 10 demo) (\<lambda>(k', wake, delayed). wake = 9 \<and> delayed \<and> timed k' 1 \<and> ticks_left k' 1 = 6)"
    by (rule ensures_mono [OF t [of "- 1"]]) auto
  show "ensures (xTaskDelayUntil (- 10) 10 demo) (\<lambda>(k', wake, delayed). wake = 0 \<and> \<not> delayed \<and> ready k' 1)"
    by (rule ensures_mono [OF t [of "- 10"]]) auto
qed

text \<open>
  C4: A time-out measured by \<open>xTaskCheckForTimeOut\<close> is exact across one wrap of the tick
  counter: it has expired if and only if the full waiting time has passed since it was set,
  and otherwise the remaining time is what is left of it, counted from now.
\<close>

theorem xTaskCheckForTimeOut_is_exact:
  assumes "pxCurrentTCB k = Some c" and "\<not> ucDelayAborted (tcbs k c)" and "w \<noteq> portMAX_DELAY"
    and "entered_at to \<le> abs_time k"
    and "xNumOfOverflows k \<le> xOverflowCount to + 1" and "xOverflowCount to \<le> xNumOfOverflows k"
  shows "ensures (xTaskCheckForTimeOut to w k) (\<lambda>(k', to', w', expired). k' = k \<and>
    (if entered_at to + uint w \<le> abs_time k then expired \<and> w' = 0
     else \<not> expired \<and> entered_at to' = abs_time k \<and> entered_at to' + uint w' = entered_at to + uint w))"
  by (rule xTaskCheckForTimeOut_exact [OF assms])

lemma xTaskCheckForTimeOut_is_exact_witness:
  "ensures (xTaskCheckForTimeOut \<lparr>xOverflowCount = - 1, xTimeOnEntering = - 2\<rparr> 8 demo)
     (\<lambda>(k', to', w', expired). \<not> expired \<and> uint w' = 3) \<and>
   ensures (xTaskCheckForTimeOut \<lparr>xOverflowCount = - 1, xTimeOnEntering = - 2\<rparr> 5 demo)
     (\<lambda>(k', to', w', expired). expired \<and> w' = 0)"
proof -
  let ?to = "\<lparr>xOverflowCount = - 1, xTimeOnEntering = - 2\<rparr>"
  have d: "xNumOfOverflows demo = 0" "\<not> ucDelayAborted (tcbs demo 1)"
    by (simp_all add: demo_def demo_tcb_def zero_tcb_def)
  have a: "abs_time demo = 3" "entered_at ?to = - 2" by (simp_all add: abs_time_def entered_at_def d(1))
  note t = xTaskCheckForTimeOut_is_exact [of demo 1 _ ?to]
  have "ensures (xTaskCheckForTimeOut ?to 8 demo) (\<lambda>(k', to', w', expired). \<not> expired \<and> uint w' = 3)"
    by (rule ensures_mono [OF t]) (use a d in \<open>auto simp: portMAX_DELAY_def\<close>)
  moreover have "ensures (xTaskCheckForTimeOut ?to 5 demo) (\<lambda>(k', to', w', expired). expired \<and> w' = 0)"
    by (rule ensures_mono [OF t]) (use a d in \<open>auto simp: portMAX_DELAY_def\<close>)
  ultimately show ?thesis by blast
qed

section \<open>Who runs\<close>

text \<open>
  C5: A context switch never fails while some task is ready, and gives the processor to a
  ready task of the highest priority, the one whose turn it is: the first in the order in
  which the ready list is served, which starts behind the task that ran last. Nothing else
  changes but the place in that list and the pending-switch flag.
\<close>

theorem vTaskSwitchContext_runs_the_highest_priority:
  assumes "kernel_core k" and "uxSchedulerSuspended k = 0" and "ready k r"
  shows "ensures (vTaskSwitchContext k) (\<lambda>k'. \<exists>t. pxCurrentTCB k' = Some t \<and> ready k t \<and>
    (\<forall>x. ready k x \<longrightarrow> prio k x \<le> prio k t) \<and>
    StateI t = hd (visit_order (cursor (lists k) (ReadyL (prio k t))) (members k (ReadyL (prio k t)))) \<and>
    \<not> xYieldPending k' \<and> container (lists k') = container (lists k) \<and> items (lists k') = items (lists k) \<and>
    tcbs k' = tcbs k \<and> xTickCount k' = xTickCount k)"
proof (rule vTaskSwitchContext_ensures [OF assms])
  fix k' t assume "chosen k t" "switched t k k'"
  then show "\<exists>t. pxCurrentTCB k' = Some t \<and> ready k t \<and> (\<forall>x. ready k x \<longrightarrow> prio k x \<le> prio k t) \<and>
    StateI t = hd (visit_order (cursor (lists k) (ReadyL (prio k t))) (members k (ReadyL (prio k t)))) \<and>
    \<not> xYieldPending k' \<and> container (lists k') = container (lists k) \<and> items (lists k') = items (lists k) \<and>
    tcbs k' = tcbs k \<and> xTickCount k' = xTickCount k"
    by (auto simp: chosen_def switched_def Let_def)
qed

text \<open>Task 1 runs and yields: task 2, behind it in the list, is next.\<close>

lemma vTaskSwitchContext_runs_the_highest_priority_witness:
  "ensures (vTaskSwitchContext demo) (\<lambda>k'. pxCurrentTCB k' = Some 2)"
proof -
  have r: "ready demo 2" by (simp add: ready_def)
  show ?thesis
  proof (rule ensures_mono [OF vTaskSwitchContext_runs_the_highest_priority [OF sys_invD(2) [OF demo_inv] _ r]], goal_cases)
    case (2 k')
    then obtain t where t: "pxCurrentTCB k' = Some t" "ready demo t" "\<forall>x. ready demo x \<longrightarrow> prio demo x \<le> prio demo t"
      "StateI t = hd (visit_order (cursor (lists demo) (ReadyL (prio demo t))) (members demo (ReadyL (prio demo t))))"
      by blast
    from t(2) have "t \<in> {1, 2, 6, 9}" by (auto simp: ready_def split: if_splits)
    moreover have "prio demo 2 \<le> prio demo t" using t(3) r by blast
    ultimately have "t = 1 \<or> t = 2" by auto
    then have "prio demo t = 3" by auto
    with t(4) have "StateI t = StateI 2" by (simp add: visit_order_def)
    then show ?case using t(1) by simp
  qed simp
qed

text \<open>
  C6: Time slicing is fair. While nothing else happens, the \<open>n\<close> ready tasks that share the
  highest priority each get exactly one of the next \<open>n\<close> ticks.
\<close>

theorem time_slicing_is_round_robin:
  assumes "quiet n k" and "pxCurrentTCB k = Some c"
    and "n = length (members k (ReadyL (prio k c)))" and "1 < n"
  shows "ensures (slices n k) (\<lambda>(k', cs). sys_inv k' \<and> distinct cs \<and> length cs = n \<and>
    set cs = {t. ready k t \<and> prio k t = prio k c})"
  by (rule round_robin_slices [OF assms])

lemma time_slicing_is_round_robin_witness:
  "quiet 1 demo \<and> ensures (slices 2 (demo\<lparr>xTickCount := 2\<rparr>)) (\<lambda>(k', cs). distinct cs \<and> set cs = {1, 2})"
proof -
  let ?k = "demo\<lparr>xTickCount := 2\<rparr>"
  have "kernel_core ?k" by (rule kernel_core_fields [OF sys_invD(2) [OF demo_inv]]) simp_all
  moreover have "wake_ok ?k t" for t by (simp add: wake_ok_def)
  ultimately have "kernel_inv ?k" by (simp add: kernel_inv_def pending_ok_def next_ok_def)
  then have s: "sys_inv ?k"
    using demo_inv by (simp add: sys_inv_def settled_def idle_ready_def current_ready_def caught_up_def ready_def)
  have minus1: "unat (- 1 :: tick) = 2 ^ 32 - 1" using unat_portMAX_DELAY by (simp add: portMAX_DELAY_def)
  have q: "quiet 2 ?k" "quiet 1 demo"
    using s demo_inv by (auto simp: quiet_def waking_by_def timed_def ticks_left_def minus1 split: if_splits)
  have "{t. ready ?k t \<and> prio ?k t = prio ?k 1} = {1, 2}"
    by (auto simp: ready_def split: if_splits)
  with time_slicing_is_round_robin [OF q(1), of 1] q(2) show ?thesis
    by (auto elim!: ensures_mono)
qed

section \<open>The scheduler's invariant under its interface\<close>

text \<open>
  C12: The tick handler of the native port (\<open>vPortSystemTickHandler\<close>), for any number of ticks
  that passed since it last ran: it never stops in an assertion, keeps the scheduler's
  invariant (among others: the running task is ready and, unless a switch is pending, of the
  highest priority), and when the scheduler is not locked every task whose time came within
  these ticks is ready. \<open>poll\<close> stands for the host's polling of its own waiters.
\<close>

theorem vPortSystemTickHandler_wakes_all_due:
  assumes "ensures (poll k) (\<lambda>(k0, r). sys_inv k0 \<and> P k0)"
  shows "ensures (vPortSystemTickHandler poll n k) (\<lambda>k'. sys_inv k' \<and> (\<exists>k0. P k0 \<and>
    (uxSchedulerSuspended k0 = 0 \<longrightarrow> (\<forall>t. ready k0 t \<or> (timed k0 t \<and> ticks_left k0 t \<le> unat n) \<longrightarrow> ready k' t))))"
  using vPortSystemTickHandler_ensures [where poll = poll and n = n and P = P, OF assms] by (simp add: waking_by_def)

lemma vPortSystemTickHandler_wakes_all_due_witness:
  "ensures (vPortSystemTickHandler (\<lambda>k. Some (k, False)) 2 demo) (\<lambda>k'. sys_inv k' \<and> ready k' 3 \<and> ready k' 2)"
proof -
  have "ensures (vPortSystemTickHandler (\<lambda>k. Some (k, False)) 2 demo) (\<lambda>k'. sys_inv k' \<and> (\<exists>k0. k0 = demo \<and>
    (uxSchedulerSuspended k0 = 0 \<longrightarrow> (\<forall>t. ready k0 t \<or> (timed k0 t \<and> ticks_left k0 t \<le> unat (2 :: tick)) \<longrightarrow> ready k' t))))"
    using vPortSystemTickHandler_wakes_all_due [where poll = "\<lambda>k. Some (k, False)" and k = demo and n = 2
        and P = "\<lambda>k0. k0 = demo"] demo_inv by simp
  moreover have "timed demo 3" "ticks_left demo 3 = 2" "ready demo 2"
    by (simp_all add: timed_def ticks_left_def ready_def)
  ultimately show ?thesis by (auto elim!: ensures_mono)
qed

text \<open>
  C13: Unlocking the scheduler (\<open>xTaskResumeAll\<close>) settles everything that was put off while it
  was locked: the pended ticks are counted, the tasks whose time came with them and those in
  the pending-ready list are ready, and the pending-ready list is empty. It switches exactly if
  a switch was asked for while it was locked, one of these tasks outranks the running one, or
  ticks were pended and a second task shares its priority (the time slice is over). Then a ready
  task that no ready task outranks runs; otherwise the caller goes on.
\<close>

theorem xTaskResumeAll_settles_pending_work:
  assumes "kernel_inv k" and "pxCurrentTCB k = Some c" and "uxSchedulerSuspended k = 1" and "ready k r"
  shows "ensures (xTaskResumeAll k) (\<lambda>(k', yielded). kernel_inv k' \<and> uxSchedulerSuspended k' = 0 \<and>
    xTickCount k' = xTickCount k + xPendedTicks k \<and> xPendedTicks k' = 0 \<and> members k' PendingReadyL = [] \<and>
    \<not> xYieldPending k' \<and> tcbs k' = tcbs k \<and>
    (\<forall>t. ready k' t \<longleftrightarrow> ready k t \<or> event_list k t = Some PendingReadyL \<or>
       (timed k t \<and> ticks_left k t \<le> unat (xPendedTicks k))) \<and>
    (yielded \<longleftrightarrow> xYieldPending k \<or>
       (\<exists>t. prio k c < prio k t \<and> (event_list k t = Some PendingReadyL \<or>
          (timed k t \<and> ticks_left k t \<le> unat (xPendedTicks k)))) \<or>
       (xPendedTicks k > 0 \<and> 1 < length (members k' (ReadyL (prio k c))))) \<and>
    (if yielded then \<exists>t. pxCurrentTCB k' = Some t \<and> ready k' t \<and> (\<forall>u. ready k' u \<longrightarrow> prio k' u \<le> prio k' t)
     else pxCurrentTCB k' = Some c))"
proof (rule ensures_mono [OF xTaskResumeAll_exactly [OF assms]], goal_cases)
  case (1 r)
  obtain k' y where r: "r = (k', y)" by (cases r)
  have rs: "t \<in> resume_set k \<longleftrightarrow> event_list k t = Some PendingReadyL \<or> (timed k t \<and> ticks_left k t \<le> unat (xPendedTicks k))"
    for t by (simp add: resume_set_def pending_tasks_def waking_by_def)
  show ?case
  proof (cases y)
    case True
    with 1 r obtain k1 t where k1: "kernel_inv k'" "ticked (resume_set k) k k1" "uxSchedulerSuspended k1 = 0"
      "members k1 PendingReadyL = []" "xTickCount k1 = xTickCount k + xPendedTicks k" "xPendedTicks k1 = 0"
      and y: "resume_yields k c k1" and t: "chosen k1 t" "switched t k1 k'"
      by (auto simp: after_switch_def)
    have "pxCurrentTCB k' = Some t" "\<not> xYieldPending k'" using t(2) by (simp_all add: switched_def)
    moreover have "ready k' t" "\<And>u. ready k' u \<Longrightarrow> prio k' u \<le> prio k' t"
      using t(1) ready_switched [OF t(2)] switched_same [OF t(2)] by (simp_all add: chosen_def)
    ultimately show ?thesis
      using True k1 ready_switched [OF t(2)] switched_same [OF t(2)] ready_ticked [OF k1(2)] ticked_frame(1) [OF k1(2)]
        y [unfolded resume_yields_def] by (auto simp: r rs)
  next
    case False
    with 1 r show ?thesis
      using ready_ticked [of "resume_set k" k k'] ticked_frame(1,2) [of "resume_set k" k k'] assms(2)
      by (auto simp: after_switch_def resume_yields_def rs)
  qed
qed

text \<open>Locked, the system pended two ticks: with the unlocking, task 3 is ready and runs.\<close>

lemma xTaskResumeAll_settles_pending_work_witness:
  "ensures (xTaskResumeAll (demo\<lparr>uxSchedulerSuspended := 1, xPendedTicks := 2\<rparr>)) (\<lambda>(k', yielded).
     ready k' 3 \<and> xTickCount k' = 5 \<and> yielded)"
proof -
  let ?k = "demo\<lparr>uxSchedulerSuspended := 1, xPendedTicks := 2\<rparr>"
  have "kernel_core ?k" by (rule kernel_core_fields [OF sys_invD(2) [OF demo_inv]]) simp_all
  moreover have "wake_ok ?k t" for t by (simp add: wake_ok_def)
  ultimately have inv: "kernel_inv ?k" by (simp add: kernel_inv_def pending_ok_def next_ok_def)
  have r: "ready ?k 2" by (simp add: ready_def)
  have t: "timed ?k 3" "ticks_left ?k 3 = 2" by (simp_all add: timed_def ticks_left_def)
  have p: "prio ?k 1 < prio ?k 3" by simp
  show ?thesis
  proof (rule ensures_mono [OF xTaskResumeAll_settles_pending_work [OF inv _ _ r, of 1]], goal_cases)
    case (3 r)
    obtain k' y where k': "r = (k', y)" by (cases r)
    from 3 have "y \<longleftrightarrow> xYieldPending ?k \<or>
       (\<exists>t. prio ?k 1 < prio ?k t \<and> (event_list ?k t = Some PendingReadyL \<or>
          (timed ?k t \<and> ticks_left ?k t \<le> unat (xPendedTicks ?k)))) \<or>
       (xPendedTicks ?k > 0 \<and> 1 < length (members k' (ReadyL (prio ?k 1))))"
      unfolding k' prod.case by blast
    moreover have "timed ?k 3 \<and> ticks_left ?k 3 \<le> unat (xPendedTicks ?k)" using t by simp
    ultimately have "y" using p by blast
    moreover from 3 have "ready k' 3 \<longleftrightarrow> ready ?k 3 \<or> event_list ?k 3 = Some PendingReadyL \<or>
       (timed ?k 3 \<and> ticks_left ?k 3 \<le> unat (xPendedTicks ?k))" "xTickCount k' = xTickCount ?k + xPendedTicks ?k"
      unfolding k' prod.case by blast+
    ultimately show ?case using k' t by simp
  qed simp_all
qed



text \<open>
  Creating a task while the system runs: with memory for it the new task is ready at the
  priority asked for and preempts if it outranks the caller; without memory nothing changes
  and the caller is told.
\<close>

theorem xTaskCreate_adds_a_ready_task:
  assumes "sys_inv k" and "p < configMAX_PRIORITIES" and "\<And>t. tcb_mem = Some t \<Longrightarrow> fresh k t"
  shows "ensures (xTaskCreate name p stack_mem tcb_mem k) (\<lambda>(k', r). sys_inv k' \<and>
    (if stack_mem \<and> tcb_mem \<noteq> None
     then r = tcb_mem \<and> ready k' (the r) \<and> prio k' (the r) = p \<and>
          uxCurrentNumberOfTasks k' = uxCurrentNumberOfTasks k + 1
     else r = None \<and> k' = k))"
  by (rule xTaskCreate_ensures [OF assms])

lemma xTaskCreate_adds_a_ready_task_witness:
  "ensures (xTaskCreate (Some ''urgent'') 6 True (Some 10) demo) (\<lambda>(k', r). r = Some 10 \<and> ready k' 10) \<and>
   ensures (xTaskCreate (Some ''urgent'') 6 True None demo) (\<lambda>(k', r). r = None \<and> k' = demo)"
proof -
  have p: "6 < configMAX_PRIORITIES" by (simp add: configMAX_PRIORITIES_def)
  have f: "fresh demo 10" by (simp add: fresh_def)
  note t = xTaskCreate_adds_a_ready_task [OF demo_inv p, of _ "Some ''urgent''" True]
  have "ensures (xTaskCreate (Some ''urgent'') 6 True (Some 10) demo) (\<lambda>(k', r). r = Some 10 \<and> ready k' 10)"
    by (rule ensures_mono [OF t]) (use f in auto)
  moreover have "ensures (xTaskCreate (Some ''urgent'') 6 True None demo) (\<lambda>(k', r). r = None \<and> k' = demo)"
    by (rule ensures_mono [OF t]) auto
  ultimately show ?thesis by blast
qed

section \<open>Suspending, resuming, priorities\<close>

text \<open>
  \<open>vTaskSuspend\<close> takes any live task but the idle task out of scheduling: it is reported
  as suspended and is not the running task, also if it suspended itself, and no other task is
  touched.
\<close>

theorem vTaskSuspend_suspends:
  assumes "sys_inv k" and "prvGetTCBFromHandle h k = Some t" and "xIdleTaskHandle k \<noteq> Some t"
    and "state_list k t \<noteq> None" and "state_list k t \<noteq> Some TerminationL"
    and "pxCurrentTCB k = Some t \<Longrightarrow> uxSchedulerSuspended k = 0"
  shows "ensures (vTaskSuspend h k) (\<lambda>k'. sys_inv k' \<and> prvTaskIsTaskSuspended t k' \<and>
    pxCurrentTCB k' \<noteq> Some t \<and>
    (\<forall>x. x \<noteq> t \<longrightarrow> state_list k' x = state_list k x \<and> event_list k' x = event_list k x \<and> tcbs k' x = tcbs k x))"
  by (rule ensures_mono [OF vTaskSuspend_ensures [OF assms]]) auto

text \<open>A task suspends itself; task 4 is taken out of a queue's list and of the delayed list.\<close>

lemma vTaskSuspend_suspends_witness:
  "ensures (vTaskSuspend None demo) (\<lambda>k'. prvTaskIsTaskSuspended 1 k' \<and> pxCurrentTCB k' \<noteq> Some 1) \<and>
   ensures (vTaskSuspend (Some 4) demo) (\<lambda>k'. prvTaskIsTaskSuspended 4 k' \<and> state_list k' 3 = Some DelayedL1)"
proof -
  note t1 = vTaskSuspend_suspends [OF demo_inv, of None 1] and t4 = vTaskSuspend_suspends [OF demo_inv, of "Some 4" 4]
  have "ensures (vTaskSuspend None demo) (\<lambda>k'. prvTaskIsTaskSuspended 1 k' \<and> pxCurrentTCB k' \<noteq> Some 1)"
    by (rule ensures_mono [OF t1]) (simp_all add: prvGetTCBFromHandle_def)
  moreover have "ensures (vTaskSuspend (Some 4) demo) (\<lambda>k'. prvTaskIsTaskSuspended 4 k' \<and> state_list k' 3 = Some DelayedL1)"
    by (rule ensures_mono [OF t4]) (simp_all add: prvGetTCBFromHandle_def)
  ultimately show ?thesis by blast
qed

text \<open>
  \<open>vTaskResume\<close> makes exactly the tasks ready that are really suspended. One that is
  ready, blocked on an event, or waiting for a notification without time-out, which also sits
  in the suspended list, is left alone, as is the whole kernel.
\<close>

theorem vTaskResume_only_suspended:
  assumes "sys_inv k"
  shows "ensures (vTaskResume t k) (\<lambda>k'. sys_inv k' \<and>
    (if Some t \<noteq> pxCurrentTCB k \<and> prvTaskIsTaskSuspended t k then ready k' t else k' = k) \<and>
    (\<forall>x. x \<noteq> t \<longrightarrow> state_list k' x = state_list k x))"
  by (rule vTaskResume_ensures [OF assms])

lemma vTaskResume_only_suspended_witness:
  "ensures (vTaskResume 7 demo) (\<lambda>k'. ready k' 7) \<and> ensures (vTaskResume 5 demo) (\<lambda>k'. k' = demo)"
proof
  have "taskWAITING_NOTIFICATION \<in> set ((replicate 4 taskNOT_WAITING_NOTIFICATION)[0 := taskWAITING_NOTIFICATION])"
    by (simp add: eval_nat_numeral)
  then have p: "prvTaskIsTaskSuspended 7 demo" "\<not> prvTaskIsTaskSuspended 5 demo"
    by (simp_all add: prvTaskIsTaskSuspended_def waits_for_notification_def demo_def demo_lists_def demo_tcb_def
        zero_tcb_def configTASK_NOTIFICATION_ARRAY_ENTRIES_def)
  show "ensures (vTaskResume 7 demo) (\<lambda>k'. ready k' 7)"
    by (rule ensures_mono [OF vTaskResume_only_suspended [OF demo_inv]]) (simp add: p)
  show "ensures (vTaskResume 5 demo) (\<lambda>k'. k' = demo)"
    by (rule ensures_mono [OF vTaskResume_only_suspended [OF demo_inv]]) (simp add: p)
qed

text \<open>
  \<open>vTaskPrioritySet\<close> sets the base priority; the effective priority follows, unless the
  task has inherited one that is higher, which it keeps. The ready lists stay in order of
  effective priorities, and afterwards the processor is again with a task of the highest one.
\<close>

theorem vTaskPrioritySet_keeps_inherited:
  assumes "sys_inv k" and "prvGetTCBFromHandle h k = Some t" and "n < configMAX_PRIORITIES"
  shows "ensures (vTaskPrioritySet h n k) (\<lambda>k'. sys_inv k' \<and> uxBasePriority (tcbs k' t) = n \<and>
    prio k' t = (if uxBasePriority (tcbs k t) = n then prio k t
      else if uxBasePriority (tcbs k t) = prio k t \<or> prio k t < n then n else prio k t) \<and>
    (\<forall>x. ready k' x = ready k x) \<and> (\<forall>x. x \<noteq> t \<longrightarrow> tcbs k' x = tcbs k x))"
  by (rule ensures_mono [OF vTaskPrioritySet_ensures [OF assms]]) (auto simp: new_effective_def)

text \<open>Task 1 has inherited priority 3; lowering its base to 1 does not take it away.\<close>

lemma vTaskPrioritySet_keeps_inherited_witness:
  "ensures (vTaskPrioritySet None 1 demo) (\<lambda>k'. uxBasePriority (tcbs k' 1) = 1 \<and> prio k' 1 = 3) \<and>
   ensures (vTaskPrioritySet (Some 2) 7 demo) (\<lambda>k'. prio k' 2 = 7)"
proof
  have b: "uxBasePriority (tcbs demo 1) = 2" "uxBasePriority (tcbs demo 2) = 3"
    by (simp_all add: demo_def demo_tcb_def)
  note t = vTaskPrioritySet_keeps_inherited [OF demo_inv]
  show "ensures (vTaskPrioritySet None 1 demo) (\<lambda>k'. uxBasePriority (tcbs k' 1) = 1 \<and> prio k' 1 = 3)"
    by (rule ensures_mono [OF t [where t = 1]]) (use b in \<open>auto simp: prvGetTCBFromHandle_def configMAX_PRIORITIES_def\<close>)
  show "ensures (vTaskPrioritySet (Some 2) 7 demo) (\<lambda>k'. prio k' 2 = 7)"
    by (rule ensures_mono [OF t [where t = 2]]) (use b in \<open>auto simp: prvGetTCBFromHandle_def configMAX_PRIORITIES_def\<close>)
qed

text \<open>
  \<open>xTaskAbortDelay\<close> wakes a task exactly if it is blocked, whatever it is blocked on, and
  says so; it never disturbs a task in another state.
\<close>

theorem xTaskAbortDelay_wakes_blocked:
  assumes "sys_inv k"
  shows "ensures (xTaskAbortDelay t k) (\<lambda>(k', aborted). sys_inv k' \<and>
    aborted = (eTaskGetState t k = eBlocked) \<and> (aborted \<longrightarrow> ready k' t))"
  by (rule xTaskAbortDelay_ensures [OF assms])

lemma xTaskAbortDelay_wakes_blocked_witness:
  "ensures (xTaskAbortDelay 4 demo) (\<lambda>(k', aborted). aborted \<and> ready k' 4) \<and>
   ensures (xTaskAbortDelay 7 demo) (\<lambda>(k', aborted). \<not> aborted)"
proof
  have st: "eTaskGetState 4 demo = eBlocked" "eTaskGetState 7 demo \<noteq> eBlocked"
    by (simp_all add: eTaskGetState_def waits_for_notification_def demo_def demo_lists_def demo_tcb_def zero_tcb_def
        configTASK_NOTIFICATION_ARRAY_ENTRIES_def)
  show "ensures (xTaskAbortDelay 4 demo) (\<lambda>(k', aborted). aborted \<and> ready k' 4)"
    by (rule ensures_mono [OF xTaskAbortDelay_wakes_blocked [OF demo_inv]]) (use st in auto)
  show "ensures (xTaskAbortDelay 7 demo) (\<lambda>(k', aborted). \<not> aborted)"
    by (rule ensures_mono [OF xTaskAbortDelay_wakes_blocked [OF demo_inv]]) (use st in auto)
qed

text \<open>
  C15: \<open>vTaskDelete\<close> followed by the idle task's clean-up gets rid of any task but the idle
  task: at the end it is in no list and does not run. Its memory is freed as it was allocated,
  at once, or, if it deleted itself, by the clean-up and not before; the clean-up frees that of
  every task that waits for it, once each, and nothing else. All other tasks stay in their lists.
\<close>

theorem delete_then_clean_up:
  assumes s: "sys_inv k" and t: "prvGetTCBFromHandle h k = Some t" and ni: "xIdleTaskHandle k \<noteq> Some t"
    and live: "state_list k t \<noteq> None" "state_list k t \<noteq> Some TerminationL"
    and self: "pxCurrentTCB k = Some t \<Longrightarrow> uxSchedulerSuspended k = 0"
  shows "ensures (do { (k1, f) \<leftarrow> vTaskDelete h k; (k2, fs) \<leftarrow> prvIdleTask_clean_up k1; Some (k2, f, fs) })
    (\<lambda>(k', f, fs). sys_inv k' \<and> state_list k' t = None \<and> event_list k' t = None \<and> pxCurrentTCB k' \<noteq> Some t \<and>
      f = (if pxCurrentTCB k = Some t then FreeNothing else memory_of k t) \<and>
      (\<exists>ts. distinct ts \<and> fs = map (memory_of k) ts \<and>
        set ts = {x. state_list k x = Some TerminationL} \<union> (if pxCurrentTCB k = Some t then {t} else {})) \<and>
      (\<forall>x. state_list k' x \<noteq> Some TerminationL) \<and> tcbs k' = tcbs k \<and>
      (\<forall>x. x \<noteq> t \<longrightarrow> state_list k' x = (if state_list k x = Some TerminationL then None else state_list k x) \<and>
        event_list k' x = event_list k x))"
  unfolding ensures_bind [of "vTaskDelete h k"]
proof (rule ensures_mono [OF vTaskDelete_ensures [OF assms]], goal_cases)
  case (2 r)
  obtain k1 f where r: "r = (k1, f)" by (cases r)
  from 2 have s1: "sys_inv k1" and st: "state_list k1 t = (if pxCurrentTCB k = Some t then Some TerminationL else None)"
    and ev: "event_list k1 t = None" and tc: "tcbs k1 = tcbs k"
    and f: "f = (if pxCurrentTCB k = Some t then FreeNothing else memory_of k t)"
    and o: "\<And>x. x \<noteq> t \<Longrightarrow> state_list k1 x = state_list k x \<and> event_list k1 x = event_list k x" by (simp_all add: r)
  have dead: "{x. state_list k1 x = Some TerminationL} =
      {x. state_list k x = Some TerminationL} \<union> (if pxCurrentTCB k = Some t then {t} else {})"
  proof (rule set_eqI)
    fix x show "x \<in> {x. state_list k1 x = Some TerminationL} \<longleftrightarrow>
      x \<in> {x. state_list k x = Some TerminationL} \<union> (if pxCurrentTCB k = Some t then {t} else {})"
      using o [of x] st live by (cases "x = t") auto
  qed
  have "ensures (prvIdleTask_clean_up k1) (\<lambda>(k', fs). sys_inv k' \<and> state_list k' t = None \<and> event_list k' t = None \<and>
      pxCurrentTCB k' \<noteq> Some t \<and>
      (\<exists>ts. distinct ts \<and> fs = map (memory_of k) ts \<and>
        set ts = {x. state_list k x = Some TerminationL} \<union> (if pxCurrentTCB k = Some t then {t} else {})) \<and>
      (\<forall>x. state_list k' x \<noteq> Some TerminationL) \<and> tcbs k' = tcbs k \<and>
      (\<forall>x. x \<noteq> t \<longrightarrow> state_list k' x = (if state_list k x = Some TerminationL then None else state_list k x) \<and>
        event_list k' x = event_list k x))"
  proof (rule ensures_mono [OF prvIdleTask_clean_up_ensures [OF s1]], goal_cases)
    case (1 r)
    obtain k2 fs where r2: "r = (k2, fs)" by (cases r)
    from 1 obtain ts where k2: "sys_inv k2" "distinct ts" "set ts = {x. state_list k1 x = Some TerminationL}"
      "fs = map (memory_of k1) ts" "tcbs k2 = tcbs k1"
      "\<And>x. state_list k2 x = (if state_list k1 x = Some TerminationL then None else state_list k1 x)"
      "\<And>x. event_list k2 x = event_list k1 x" unfolding r2 prod.case by blast
    have gone: "state_list k2 t = None" using k2(6) [of t] st by simp
    moreover have "pxCurrentTCB k2 \<noteq> Some t"
      using sys_invD(5) [OF k2(1)] gone by (auto simp: current_ready_def ready_def)
    moreover have "state_list k2 x \<noteq> Some TerminationL" for x using k2(6) [of x] by simp
    moreover have "\<exists>ts. distinct ts \<and> fs = map (memory_of k) ts \<and>
        set ts = {x. state_list k x = Some TerminationL} \<union> (if pxCurrentTCB k = Some t then {t} else {})"
      using k2(2-4) memory_of_cong [OF tc] dead by metis
    ultimately show ?case using k2(1,5-7) tc o ev by (simp add: r2)
  qed
  then show ?case using f by (auto simp: r elim!: ensures_mono)
qed simp

text \<open>Task 1, which \<open>xTaskCreate\<close> made, deletes itself; task 4 is deleted while it waits.\<close>

lemma delete_then_clean_up_witness:
  "ensures (do { (k1, f) \<leftarrow> vTaskDelete None demo; (k2, fs) \<leftarrow> prvIdleTask_clean_up k1; Some (k2, f, fs) })
     (\<lambda>(k', f, fs). state_list k' 1 = None \<and> f = FreeNothing \<and> fs = [memory_of demo 1]) \<and>
   ensures (do { (k1, f) \<leftarrow> vTaskDelete (Some 4) demo; (k2, fs) \<leftarrow> prvIdleTask_clean_up k1; Some (k2, f, fs) })
     (\<lambda>(k', f, fs). state_list k' 4 = None \<and> f = memory_of demo 4)"
proof
  have one: "ts = [1]" if "distinct ts" "set ts = {x. state_list demo x = Some TerminationL} \<union> {1}" for ts :: "task list"
  proof -
    have "{x. state_list demo x = Some TerminationL} = {}" by (auto simp: demo_lists_def)
    then have "set ts = {1}" using that(2) by simp
    with that(1) show ?thesis by (metis distinct.simps(2) empty_iff insertI1 list.set_cases list.set_intros(1,2)
      list.set(1) neq_Nil_conv singleton_iff)
  qed
  show "ensures (do { (k1, f) \<leftarrow> vTaskDelete None demo; (k2, fs) \<leftarrow> prvIdleTask_clean_up k1; Some (k2, f, fs) })
     (\<lambda>(k', f, fs). state_list k' 1 = None \<and> f = FreeNothing \<and> fs = [memory_of demo 1])"
    by (rule ensures_mono [OF delete_then_clean_up [OF demo_inv, of None 1]]) (auto simp: prvGetTCBFromHandle_def dest: one)
  show "ensures (do { (k1, f) \<leftarrow> vTaskDelete (Some 4) demo; (k2, fs) \<leftarrow> prvIdleTask_clean_up k1; Some (k2, f, fs) })
     (\<lambda>(k', f, fs). state_list k' 4 = None \<and> f = memory_of demo 4)"
    by (rule ensures_mono [OF delete_then_clean_up [OF demo_inv, of "Some 4" 4]]) (auto simp: prvGetTCBFromHandle_def)
qed

section \<open>Idle time\<close>

text \<open>
  Stepping the tick count over idle time (\<open>vTaskStepTick\<close>) loses no wake-up: if the step
  reaches the next wake-up time, that last tick is pended and processed when the scheduler is
  unlocked; otherwise the count simply advances; the invariant on wake-up times is kept.
\<close>

theorem vTaskStepTick_keeps_wake_ups:
  assumes "kernel_inv k" and "unat (xTickCount k) + unat n < 2 ^ 32"
    and "xTickCount k + n \<le> xNextTaskUnblockTime k"
    and "xTickCount k + n = xNextTaskUnblockTime k \<Longrightarrow> uxSchedulerSuspended k \<noteq> 0 \<and> n \<noteq> 0"
  shows "ensures (vTaskStepTick n k) (\<lambda>k'. kernel_inv k' \<and>
    xPendedTicks k' + xTickCount k' = xPendedTicks k + xTickCount k + n \<and> xTickCount k \<le> xTickCount k' \<and>
    (xPendedTicks k' = xPendedTicks k + 1 \<longleftrightarrow> xTickCount k + n = xNextTaskUnblockTime k) \<and> lists k' = lists k)"
  by (rule vTaskStepTick_ensures [OF assms])

lemma vTaskStepTick_keeps_wake_ups_witness:
  "ensures (vTaskStepTick 2 (vTaskSuspendAll demo)) (\<lambda>k'. kernel_inv k' \<and> xPendedTicks k' = 1)"
proof -
  have "kernel_inv (vTaskSuspendAll demo)" using sys_inv_lock [OF demo_inv] by (rule sys_invD)
  then show ?thesis
    by (rule ensures_mono [OF vTaskStepTick_keeps_wake_ups]) (auto simp: vTaskSuspendAll_def)
qed

text \<open>
  The idle time that \<open>prvGetExpectedIdleTime\<close> reports is never past the next wake-up, and
  is non-zero only if nothing but the idle task itself could run until then.
\<close>

theorem prvGetExpectedIdleTime_is_safe:
  assumes "sys_inv k" and "\<not> xYieldPending k"
  shows "ensures (prvGetExpectedIdleTime k) (\<lambda>w. (w > 0 \<longrightarrow>
      (\<forall>t. ready k t \<longrightarrow> prio k t = 0 \<and> pxCurrentTCB k = Some t) \<and>
      (\<forall>t. timed k t \<and> state_list k t = Some (pxDelayedTaskList k) \<longrightarrow> w \<le> wake_time k t - xTickCount k)) \<and>
    xTickCount k + w \<le> xNextTaskUnblockTime k)"
  by (rule prvGetExpectedIdleTime_ensures [OF assms])

text \<open>Task 2 is ready in the example: there is no idle time.\<close>

lemma prvGetExpectedIdleTime_is_safe_witness:
  "sys_inv demo \<and> ensures (prvGetExpectedIdleTime demo) (\<lambda>w. w = 0)"
proof -
  have r: "ready demo 2" by (simp add: ready_def)
  have "ensures (prvGetExpectedIdleTime demo) (\<lambda>w. w = 0)"
  proof (rule ensures_mono [OF prvGetExpectedIdleTime_is_safe [OF demo_inv]])
    fix w assume w: "(w > 0 \<longrightarrow> (\<forall>t. ready demo t \<longrightarrow> prio demo t = 0 \<and> pxCurrentTCB demo = Some t) \<and>
      (\<forall>t. timed demo t \<and> state_list demo t = Some (pxDelayedTaskList demo) \<longrightarrow> w \<le> wake_time demo t - xTickCount demo)) \<and>
      xTickCount demo + w \<le> xNextTaskUnblockTime demo"
    have "\<not> w > 0"
    proof
      assume "w > 0"
      with w r have "prio demo 2 = 0" by blast
      then show False by simp
    qed
    then show "w = 0" by (simp add: word_gt_0)
  qed simp
  then show ?thesis using demo_inv by blast
qed

section \<open>Waiting for events\<close>

text \<open>
  \<open>vTaskPlaceOnEventList\<close> takes the running task off the ready lists and puts it into the
  event list behind the waiters of its own or a higher priority and before all others; its
  time-out is counted from now.
\<close>

theorem vTaskPlaceOnEventList_queues_by_priority:
  assumes "blockable k c" and "w \<noteq> 0" and "is_event_list l" and "l \<noteq> PendingReadyL"
  shows "ensures (vTaskPlaceOnEventList l w k) (\<lambda>k'. kernel_inv k' \<and> \<not> ready k' c \<and> event_list k' c = Some l \<and>
    state_list k' c = Some (wait_list k w True) \<and>
    (wait_list k w True \<noteq> SuspendedL \<longrightarrow> wake_time k' c = xTickCount k + w) \<and>
    members k' l = insert_at_first (\<lambda>i. item_value (lists k) i \<le> item_value (lists k) (EventI c))
      (EventI c) (members k l))"
proof (rule vTaskPlaceOnEventList_ensures [OF assms], goal_cases)
  case (1 k')
  note bl = blocked_lists [OF 1(2)]
  have "kernel_core k" using assms(1) by (simp add: blockable_def kernel_invD)
  then have "wait_list k w True \<noteq> ReadyL p" for p by (auto simp: wait_list_def kernel_core_def)
  then show ?case using 1 bl by (auto simp: ready_def)
qed

lemma vTaskPlaceOnEventList_queues_by_priority_witness:
  "ensures (vTaskPlaceOnEventList (ReceiveL 0) 10 demo) (\<lambda>k'. event_list k' 1 = Some (ReceiveL 0) \<and> wake_time k' 1 = 13)"
proof -
  have b: "blockable demo 1" by (rule sys_blockable(1) [OF demo_inv]) simp_all
  have w: "wait_list demo 10 True = DelayedL1" by (simp add: wait_list_def portMAX_DELAY_def)
  show ?thesis
    by (rule ensures_mono [OF vTaskPlaceOnEventList_queues_by_priority [OF b]]) (auto simp: w)
qed

text \<open>
  \<open>xTaskRemoveFromEventList\<close> wakes the first waiter of the list, and only it: ready at once,
  or, while the scheduler is locked, noted in the pending-ready list; it returns whether that
  task outranks the running one, and then a switch is pending. The rest of the list keeps its
  order, and every other list its members.
\<close>

theorem xTaskRemoveFromEventList_wakes_the_first:
  assumes "sys_inv k" and "is_event_list l" and "l \<noteq> PendingReadyL" and "pxCurrentTCB k = Some c"
    and "members k l = EventI t # rest"
  shows "ensures (xTaskRemoveFromEventList l k) (\<lambda>(k', higher). sys_inv k' \<and> higher = (prio k c < prio k t) \<and>
    (higher \<longrightarrow> xYieldPending k') \<and> members k' l = rest \<and>
    (if uxSchedulerSuspended k = 0 then ready k' t \<and> event_list k' t = None
     else event_list k' t = Some PendingReadyL) \<and>
    (\<forall>x. x \<noteq> t \<longrightarrow> state_list k' x = state_list k x \<and> event_list k' x = event_list k x) \<and>
    (\<forall>l'. is_event_list l' \<and> l' \<noteq> l \<and> l' \<noteq> PendingReadyL \<longrightarrow> members k' l' = members k l'))"
  by (rule xTaskRemoveFromEventList_ensures [OF assms]) (auto simp: event_woken_def assms(5))

lemma xTaskRemoveFromEventList_wakes_the_first_witness:
  "ensures (xTaskRemoveFromEventList (ReceiveL 0) demo) (\<lambda>(k', higher). higher \<and> ready k' 4 \<and> members k' (ReceiveL 0) = []) \<and>
   ensures (xTaskRemoveFromEventList (ReceiveL 0) (vTaskSuspendAll demo)) (\<lambda>(k', higher). event_list k' 4 = Some PendingReadyL)"
proof
  show "ensures (xTaskRemoveFromEventList (ReceiveL 0) demo) (\<lambda>(k', higher). higher \<and> ready k' 4 \<and> members k' (ReceiveL 0) = [])"
    by (rule ensures_mono [OF xTaskRemoveFromEventList_wakes_the_first [OF demo_inv, of _ 1 4 "[]"]]) auto
  show "ensures (xTaskRemoveFromEventList (ReceiveL 0) (vTaskSuspendAll demo)) (\<lambda>(k', higher). event_list k' 4 = Some PendingReadyL)"
    by (rule ensures_mono [OF xTaskRemoveFromEventList_wakes_the_first [OF sys_inv_lock [OF demo_inv], of _ 1 4 "[]"]])
      (auto simp: vTaskSuspendAll_def)
qed

section \<open>Priority inheritance\<close>

text \<open>
  \<open>xTaskPriorityInherit\<close> lifts the holder of a mutex to the priority of the running task
  that is about to wait for it, if that is higher, and tells whether the holder now runs above
  its base priority on this task's account; nothing else of any task changes, and who is ready
  does not change.
\<close>

theorem xTaskPriorityInherit_lifts_the_holder:
  assumes "sys_inv k" and "pxCurrentTCB k = Some c"
  shows "ensures (xTaskPriorityInherit (Some t) k) (\<lambda>(k', inherits). sys_inv k' \<and>
    tcbs k' t = (tcbs k t)\<lparr>uxPriority := max (prio k t) (prio k c)\<rparr> \<and>
    (\<forall>x. x \<noteq> t \<longrightarrow> tcbs k' x = tcbs k x) \<and> (\<forall>x. ready k' x \<longleftrightarrow> ready k x) \<and>
    (\<forall>x. event_list k' x = event_list k x) \<and> inherits = (uxBasePriority (tcbs k t) < prio k c))"
  by (rule ensures_mono [OF xTaskPriorityInherit_ensures [OF assms]])
    (auto simp: inherited_def others_unchanged_def)

lemma xTaskPriorityInherit_lifts_the_holder_witness:
  "ensures (xTaskPriorityInherit (Some 6) demo) (\<lambda>(k', inherits). inherits \<and> prio k' 6 = 3 \<and> ready k' 6)"
proof -
  have "ready demo 6" by (simp add: ready_def)
  moreover have "uxBasePriority (tcbs demo 6) = 1" by (simp add: demo_def demo_tcb_def)
  ultimately show ?thesis
    by (rule_tac ensures_mono [OF xTaskPriorityInherit_lifts_the_holder [OF demo_inv, of 1 6]]) auto
qed

text \<open>
  Giving a mutex back (\<open>xTaskPriorityDisinherit\<close>): the running task, its holder, returns to
  its base priority exactly with the last mutex it holds, and is told so; unless it is, the
  scheduler's invariant holds as it stands, and otherwise all of it but the claim that no
  ready task outranks the running one, which is what the caller then yields for.
\<close>

theorem xTaskPriorityDisinherit_with_the_last_mutex:
  assumes "sys_inv k" and "pxCurrentTCB k = Some t" and "uxMutexesHeld (tcbs k t) \<noteq> 0"
  shows "ensures (xTaskPriorityDisinherit (Some t) k) (\<lambda>(k', y). kernel_inv k' \<and> (y \<or> sys_inv k') \<and>
     y = (prio k t \<noteq> uxBasePriority (tcbs k t) \<and> uxMutexesHeld (tcbs k t) = 1) \<and>
     tcbs k' t = (tcbs k t)\<lparr>uxMutexesHeld := uxMutexesHeld (tcbs k t) - 1,
       uxPriority := if y then uxBasePriority (tcbs k t) else prio k t\<rparr> \<and>
     (\<forall>x. x \<noteq> t \<longrightarrow> tcbs k' x = tcbs k x) \<and> (\<forall>x. ready k' x \<longleftrightarrow> ready k x))"
  by (rule ensures_mono [OF xTaskPriorityDisinherit_ensures [OF assms]]) (auto simp: others_unchanged_def)

lemma xTaskPriorityDisinherit_with_the_last_mutex_witness:
  "ensures (xTaskPriorityDisinherit (Some 1) demo) (\<lambda>(k', y). y \<and> prio k' 1 = 2 \<and> uxMutexesHeld (tcbs k' 1) = 0)"
proof -
  have b: "uxBasePriority (tcbs demo 1) = 2" "uxMutexesHeld (tcbs demo 1) = 1"
    by (simp_all add: demo_def demo_tcb_def)
  show ?thesis
    by (rule ensures_mono [OF xTaskPriorityDisinherit_with_the_last_mutex [OF demo_inv, of 1]]) (use b in auto)
qed

text \<open>
  When a wait for a mutex times out (\<open>vTaskPriorityDisinheritAfterTimeout\<close>), the holder, if
  this is the only mutex it holds, is left with the higher of its base priority and that of
  the most urgent task still waiting; holding several, it keeps its priority.
\<close>

theorem vTaskPriorityDisinheritAfterTimeout_exact:
  assumes "sys_inv k" and "uxMutexesHeld (tcbs k t) \<noteq> 0" and "pxCurrentTCB k \<noteq> Some t" and "p \<le> prio k t"
  shows "ensures (vTaskPriorityDisinheritAfterTimeout (Some t) p k) (\<lambda>k'. sys_inv k' \<and>
     prio k' t = (if uxMutexesHeld (tcbs k t) = 1 then max (uxBasePriority (tcbs k t)) p else prio k t) \<and>
     uxBasePriority (tcbs k' t) = uxBasePriority (tcbs k t) \<and>
     (\<forall>x. x \<noteq> t \<longrightarrow> tcbs k' x = tcbs k x) \<and> (\<forall>x. ready k' x \<longleftrightarrow> ready k x))"
  by (rule ensures_mono [OF vTaskPriorityDisinheritAfterTimeout_ensures [OF assms]])
    (auto simp: others_unchanged_def after_timeout_def)

text \<open>Task 6 inherits priority 3; the waiter gives up, and nobody else waits.\<close>

lemma vTaskPriorityDisinheritAfterTimeout_exact_witness:
  "ensures (do { (k1, _) \<leftarrow> xTaskPriorityInherit (Some 6) demo; vTaskPriorityDisinheritAfterTimeout (Some 6) 0 k1 })
     (\<lambda>k'. prio k' 6 = 1)"
  unfolding ensures_bind
proof (rule ensures_mono [OF xTaskPriorityInherit_ensures [OF demo_inv]])
  have d: "uxBasePriority (tcbs demo 6) = 1" "uxMutexesHeld (tcbs demo 6) = 1" by (simp_all add: demo_def demo_tcb_def)
  fix r assume "case r of (k', y) \<Rightarrow> sys_inv k' \<and> inherited 6 (prio demo 1) demo k' \<and> y = (uxBasePriority (tcbs demo 6) < prio demo 1)"
  then obtain k1 y where r: "r = (k1, y)" "sys_inv k1" "inherited 6 (prio demo 1) demo k1" by (cases r) blast
  from r(3) have k1: "tcbs k1 6 = (tcbs demo 6)\<lparr>uxPriority := 3\<rparr>" "pxCurrentTCB k1 = Some 1"
    by (simp_all add: inherited_def others_unchanged_def)
  have "ensures (vTaskPriorityDisinheritAfterTimeout (Some 6) 0 k1) (\<lambda>k'. prio k' 6 = 1)"
    by (rule ensures_mono [OF vTaskPriorityDisinheritAfterTimeout_exact [OF r(2), of 6]])
      (use k1 d in simp_all)
  then show "ensures (case r of (k1, uu) \<Rightarrow> vTaskPriorityDisinheritAfterTimeout (Some 6) 0 k1) (\<lambda>k'. prio k' 6 = 1)"
    by (simp add: r(1))
qed simp

section \<open>Notifications\<close>

text \<open>
  \<open>xTaskGenericNotify\<close>, in each of its five actions: a receiver waiting on that slot is
  ready afterwards (and preempts if it outranks the caller); the slot's value and the result
  are those of the action, failing exactly for \<open>eSetValueWithoutOverwrite\<close> on a slot that
  already holds a notification; the other slots and tasks are untouched.
\<close>

theorem xTaskGenericNotify_delivers:
  assumes s: "sys_inv k" and i: "i < configTASK_NOTIFICATION_ARRAY_ENTRIES"
    and w: "waits_at i t k \<Longrightarrow> event_list k t = None \<and> state_list k t \<noteq> None \<and> state_list k t \<noteq> Some TerminationL"
  shows "ensures (xTaskGenericNotify t i v a k) (\<lambda>(k', ok, old). sys_inv k' \<and>
     old = ulNotifiedValue (tcbs k t) ! i \<and> (waits_at i t k \<longrightarrow> ready k' t) \<and>
     ucNotifyState (tcbs k' t) ! i = taskNOTIFICATION_RECEIVED \<and>
     ulNotifiedValue (tcbs k' t) ! i = (case a of
         eNoAction \<Rightarrow> old | eSetBits \<Rightarrow> old OR v | eIncrement \<Rightarrow> old + 1 | eSetValueWithOverwrite \<Rightarrow> v
       | eSetValueWithoutOverwrite \<Rightarrow> (if ucNotifyState (tcbs k t) ! i = taskNOTIFICATION_RECEIVED then old else v)) \<and>
     ok = (a \<noteq> eSetValueWithoutOverwrite \<or> ucNotifyState (tcbs k t) ! i \<noteq> taskNOTIFICATION_RECEIVED) \<and>
     (\<forall>j. j \<noteq> i \<longrightarrow> ulNotifiedValue (tcbs k' t) ! j = ulNotifiedValue (tcbs k t) ! j \<and>
        ucNotifyState (tcbs k' t) ! j = ucNotifyState (tcbs k t) ! j) \<and>
     (\<forall>x. x \<noteq> t \<longrightarrow> tcbs k' x = tcbs k x \<and> state_list k' x = state_list k x))"
proof (rule ensures_mono [OF xTaskGenericNotify_ensures [OF assms]], goal_cases)
  case (2 r)
  obtain k' ok old where r: "r = (k', ok, old)" by (cases r)
  show ?case using 2 i notify_lengths [OF s, of t] by (cases a) (auto simp: r notified_tcb_def)
qed simp_all

lemma xTaskGenericNotify_delivers_witness:
  "ensures (xTaskGenericNotify 5 0 7 eSetValueWithoutOverwrite demo) (\<lambda>(k', ok, old). ok \<and> ready k' 5 \<and>
     ulNotifiedValue (tcbs k' 5) ! 0 = 7)"
proof -
  have i: "0 < configTASK_NOTIFICATION_ARRAY_ENTRIES" by (simp add: configTASK_NOTIFICATION_ARRAY_ENTRIES_def)
  have w: "waits_at 0 5 demo"
    by (simp add: demo_def demo_tcb_def zero_tcb_def configTASK_NOTIFICATION_ARRAY_ENTRIES_def eval_nat_numeral)
  have "ensures (xTaskGenericNotify 5 0 7 eSetValueWithoutOverwrite demo) (\<lambda>(k', ok, old). ready k' 5 \<and> ok \<and>
     ulNotifiedValue (tcbs k' 5) ! 0 = 7)"
    by (rule ensures_mono [OF xTaskGenericNotify_delivers [OF demo_inv i, of 5]]) (use w in auto)
  then show ?thesis by (rule ensures_mono) auto
qed

text \<open>
  C16: No notification is lost. Interrupts give to the task before its call of
  \<open>ulTaskGenericNotifyTake\<close> (\<open>n0\<close> of them), after the call has marked it as waiting with the
  scheduler locked (\<open>n1\<close>), and once it sleeps or has found the value not zero (\<open>n2\<close>): if the
  value was not zero or there was any, the task is ready, and when it runs again the call returns
  the old value plus one for each of them, and leaves zero or one less, as asked for.
\<close>

theorem ulTaskGenericNotifyTake_loses_nothing:
  assumes "sys_inv k" and "uxSchedulerSuspended k = 0" and "pxCurrentTCB k = Some c"
    and "i < configTASK_NOTIFICATION_ARRAY_ENTRIES" and "xIdleTaskHandle k \<noteq> Some c"
    and v: "v = ulNotifiedValue (tcbs k c) ! i"
    and "0 < unat v + n0 + n1 + n2" and fit: "unat v + n0 + n1 + n2 < 2 ^ 32"
  shows "ensures (do {
      k \<leftarrow> give_times n0 c i k;
      (k, block) \<leftarrow> ulTaskGenericNotifyTake_enter i w k;
      k \<leftarrow> give_times n1 c i k;
      k \<leftarrow> notify_sleep block w k;
      give_times n2 c i k }) (\<lambda>k'. sys_inv k' \<and> ready k' c \<and>
    (\<forall>k2 clear. sys_inv k2 \<and> pxCurrentTCB k2 = Some c \<and> tcbs k2 c = tcbs k' c \<longrightarrow>
      ensures (ulTaskGenericNotifyTake_leave i clear k2) (\<lambda>(k3, r). sys_inv k3 \<and> unat r = unat v + n0 + n1 + n2 \<and>
        ulNotifiedValue (tcbs k3 c) ! i = (if clear then 0 else r - 1))))"
proof (rule ensures_mono [OF every_give_counts [OF assms]], intro conjI allI impI, goal_cases)
  case (3 k' k2 clear)
  have "unat (v + of_nat (n0 + n1 + n2)) = unat v + n0 + n1 + n2"
    using fit by (simp add: unat_word_ariths unat_of_nat add.assoc)
  then have r: "unat (ulNotifiedValue (tcbs k2 c) ! i) = unat v + n0 + n1 + n2" using 3 by simp
  with assms(7) have "ulNotifiedValue (tcbs k2 c) ! i \<noteq> 0" by auto
  then show ?case
    using 3 r by (intro ensures_mono [OF ulTaskGenericNotifyTake_leave_ensures [OF _ _ assms(4)]]) auto
qed simp_all

text \<open>Nothing is there when task 1 asks; two interrupts come when it is asleep.\<close>

lemma ulTaskGenericNotifyTake_loses_nothing_witness:
  "ensures (do {
      k \<leftarrow> give_times 0 1 2 demo;
      (k, block) \<leftarrow> ulTaskGenericNotifyTake_enter 2 portMAX_DELAY k;
      k \<leftarrow> give_times 0 1 2 k;
      k \<leftarrow> notify_sleep block portMAX_DELAY k;
      give_times 2 1 2 k }) (\<lambda>k'. sys_inv k' \<and> ready k' 1)"
  by (rule ensures_mono [OF ulTaskGenericNotifyTake_loses_nothing [OF demo_inv, of 1 2 0]])
    (simp_all add: configTASK_NOTIFICATION_ARRAY_ENTRIES_def demo_def demo_tcb_def zero_tcb_def)

section \<open>Lists\<close>

text \<open>
  C17: \<open>vListInsert\<close> on the doubly linked lists of list.c ends, and puts the item behind all
  items whose value is not greater: on the represented lists it is \<open>list_insert\<close>, which keeps
  an ordered list ordered, and every other list and the pointers of the whole store stay
  well formed.
\<close>

theorem vListInsert_sorts:
  assumes r: "repr h L" and new: "container L i = None" and sorted: "sorted_key (item_value L) (items L l)"
  shows "ensures (vListInsert l i h) (\<lambda>h'. \<exists>L'. repr h' L' \<and> container L' i = Some l \<and>
    items L' l = takeWhile (\<lambda>j. item_value L j \<le> item_value L i) (items L l) @
      i # dropWhile (\<lambda>j. item_value L j \<le> item_value L i) (items L l) \<and>
    sorted_key (item_value L') (items L' l) \<and> (\<forall>l'. l' \<noteq> l \<longrightarrow> items L' l' = items L l'))"
proof (rule ensures_mono [OF vListInsert_refines [OF r new]])
  fix h' assume "repr h' (list_insert l i L)"
  then show "\<exists>L'. repr h' L' \<and> container L' i = Some l \<and>
    items L' l = takeWhile (\<lambda>j. item_value L j \<le> item_value L i) (items L l) @
      i # dropWhile (\<lambda>j. item_value L j \<le> item_value L i) (items L l) \<and>
    sorted_key (item_value L') (items L' l) \<and> (\<forall>l'. l' \<noteq> l \<longrightarrow> items L' l' = items L l')"
    using sorted_key_insert [OF sorted, of i]
    by (intro exI [of _ "list_insert l i L"]) (simp add: list_frame insert_at_first_def)
qed

text \<open>An empty heap of two lists, and item 2 (value 7) inserted after item 1 (value 5).\<close>

lemma vListInsert_sorts_witness:
  "ensures (vListInsert False (2 :: nat) (vListInsertEnd False 1 heap_empty)) (\<lambda>h'. \<exists>L'. repr h' L' \<and> items L' False = [1, 2])"
proof -
  let ?L = "\<lparr>items = \<lambda>l. [], cursor = \<lambda>l. None, item_value = \<lambda>i :: nat. if i = 1 then 5 else 7, container = \<lambda>i. None\<rparr>"
  have "repr heap_empty ?L" by (rule heap_empty_repr)
  then have r: "repr (vListInsertEnd False 1 heap_empty) (list_insert_end False 1 ?L)"
    by (rule vListInsertEnd_refines) simp
  show ?thesis
    by (rule ensures_mono [OF vListInsert_sorts [OF r, of 2]]) (auto simp: list_frame sorted_key_def insert_before_def)
qed

text \<open>
  Taking the next entry with \<open>listGET_OWNER_OF_NEXT_ENTRY\<close> as often as the list is long
  serves every item exactly once, in the order that starts behind the list's index, and ends
  where it began: the pointers, index and length of the code give a fair round.
\<close>

theorem next_entry_serves_every_item:
  assumes "repr h L" and "items L l \<noteq> []"
  shows "ensures (walk (listGET_OWNER_OF_NEXT_ENTRY l) (length (items L l)) h) (\<lambda>(h', is).
    distinct is \<and> set is = set (items L l) \<and> is = visit_order (cursor L l) (items L l) \<and>
    (\<exists>L'. repr h' L' \<and> items L' = items L \<and> visit_order (cursor L' l) (items L' l) = is))"
  by (rule list_c.walk_round [OF assms])

lemma next_entry_serves_every_item_witness:
  "ensures (walk (listGET_OWNER_OF_NEXT_ENTRY False) 2 (vListInsertEnd False (2 :: nat) (vListInsertEnd False 1 heap_empty)))
     (\<lambda>(h', is). is = [1, 2])"
proof -
  from heap_two_repr obtain L where L: "repr (vListInsertEnd False (2 :: nat) (vListInsertEnd False 1 heap_empty)) L"
    "items L False = [1, 2]" "cursor L False = None" by metis
  then have n: "length (items L False) = 2" and ne: "items L False \<noteq> []" by simp_all
  show ?thesis
    by (rule ensures_mono [OF next_entry_serves_every_item [OF L(1) ne, unfolded n]]) (auto simp: L(2,3))
qed

text \<open>
  \<open>uxListRemove\<close> takes exactly the given item out of the list it is in, keeps the order of
  the others, reports their number, and never leaves the index of the list on the removed
  item: all lists are well formed afterwards and the item may be inserted again.
\<close>

theorem uxListRemove_removes_only_the_item:
  assumes r: "repr h L" and mem: "i \<in> set (items L l)"
  shows "ensures (uxListRemove i h) (\<lambda>(h', n). \<exists>L'. repr h' L' \<and> items L' l = remove1 i (items L l) \<and>
    n = length (items L' l) \<and> container L' i = None \<and> cursor L' l \<noteq> Some i \<and>
    (\<forall>l'. l' \<noteq> l \<longrightarrow> items L' l' = items L l'))"
proof (rule ensures_mono [OF uxListRemove_refines [OF r mem]], clarify)
  fix h' n L' assume L': "list_remove i L = Some (L', n)" "repr h' L'"
  have wf: "lists_wf L" using r by (rule repr_wf)
  have wf': "lists_wf L'" using L'(2) by (rule repr_wf)
  have "ensures (list_remove i L) (\<lambda>(L', n). items L' = (items L)(l := remove1 i (items L l)) \<and>
      container L' = (container L)(i := None) \<and> n = length (remove1 i (items L l)))"
    by (rule list_remove_ensures [OF wf mem]) (simp add: length_remove1 mem)
  then have p: "items L' = (items L)(l := remove1 i (items L l)) \<and> container L' = (container L)(i := None) \<and>
    n = length (remove1 i (items L l))" using L'(1) by simp
  moreover have "cursor L' l \<noteq> Some i"
    using lists_wf_cursor [OF wf'] lists_wf_distinct [OF wf] p by fastforce
  ultimately show "\<exists>L'. repr h' L' \<and> items L' l = remove1 i (items L l) \<and>
    n = length (items L' l) \<and> container L' i = None \<and> cursor L' l \<noteq> Some i \<and>
    (\<forall>l'. l' \<noteq> l \<longrightarrow> items L' l' = items L l')"
    using L'(2) by (intro exI [of _ L']) simp
qed

lemma uxListRemove_removes_only_the_item_witness:
  "ensures (uxListRemove 1 (vListInsertEnd False (2 :: nat) (vListInsertEnd False 1 heap_empty)))
     (\<lambda>(h', n). \<exists>L'. repr h' L' \<and> items L' False = [2] \<and> n = 1)"
proof -
  from heap_two_repr obtain L where L: "repr (vListInsertEnd False (2 :: nat) (vListInsertEnd False 1 heap_empty)) L"
    "items L False = [1, 2]" by metis
  show ?thesis
    by (rule ensures_mono [OF uxListRemove_removes_only_the_item [OF L(1), of 1 False]]) (auto simp: L(2))
qed

section \<open>Queues\<close>

text \<open>
  C18: A queue is a bounded first-in first-out buffer, byte for byte: after any history of
  items appended and items taken, what was taken and what is still stored, together, is what
  was stored before and what was accepted, in order. The ring of the storage area, with its
  read and write pointers, never mixes items up, and the length is never exceeded.
\<close>

theorem queue_is_first_in_first_out:
  assumes "storage_ok q" and "uxItemSize q \<noteq> 0" and "\<And>x. Put x \<in> set ops \<Longrightarrow> length x = uxItemSize q"
  shows "ensures (fifo_run send_item receive_item prvIsQueueFull prvIsQueueEmpty ops q) (\<lambda>(q', ins, outs).
    outs @ contents q' = contents q @ ins \<and> length (contents q') \<le> uxLength q)"
  by (rule ensures_mono [OF qf.history])
    (use assms in \<open>auto simp: data_queue_def fits_item_def dest: storage_okD(2)\<close>)

lemma queue_is_first_in_first_out_witness:
  "ensures (fifo_run send_item receive_item prvIsQueueFull prvIsQueueEmpty
     [Put [3], Put [4], Get, Put [5], Get] (demo_queue 1 [0, 0] 0)) (\<lambda>(q', ins, outs). outs @ contents q' = ins)"
proof -
  have "storage_ok (demo_queue 1 [0, 0] 0)" using queue_okD(1) [OF demo_queue_ok [of 1 "[0, 0]" 2 0]] by simp
  then show ?thesis
    by (rule ensures_mono [OF queue_is_first_in_first_out]) (auto simp: contents_def)
qed

text \<open>
  C19: \<open>xQueueGenericSend\<close> on a queue or semaphore with room puts the item where it is asked to
  (at the back, at the front, or in place of the only one), wakes the task that has waited
  longest among those of highest priority, and reports success; on a full one, with no time to
  wait, it reports that and changes nothing. The invariant of the whole system is kept, and the
  call returns from its first critical section whatever the environment would do later.
\<close>

theorem xQueueGenericSend_delivers:
  assumes inv: "os_inv s" and run: "uxSchedulerSuspended (kern s) = 0"
    and q: "queues s h = Some q" and nm: "pcHead q \<noteq> queueQUEUE_IS_MUTEX" and set: "pxQueueSetContainer q = None"
    and can: "can_send q item pos"
    and now: "uxMessagesWaiting q < uxLength q \<or> pos = queueOVERWRITE \<or> w = 0"
  shows "ensures (xQueueGenericSend es h item w pos s) (\<lambda>(s', r). os_inv s' \<and>
    (if uxMessagesWaiting q < uxLength q \<or> pos = queueOVERWRITE
     then r = Some pdPASS \<and>
       (\<exists>q'. queues s' = (queues s)(h \<mapsto> q') \<and> contents q' = put_item pos (sent_bytes q item) (contents q)) \<and>
       (members (kern s) (ReceiveL h) \<noteq> [] \<longrightarrow> ready (kern s') (owner (hd (members (kern s) (ReceiveL h))))) \<and>
       members (kern s') (ReceiveL h) = tl (members (kern s) (ReceiveL h))
     else r = Some errQUEUE_FULL \<and> s' = s))"
proof -
  note si = os_invD(1) [OF inv] and ok = os_invD(2) [OF inv q]
  have enter: "xQueueGenericSend_enter h item w pos s = Some ()"
    using q run can sys_invD(3) [OF si]
    by (auto simp: xQueueGenericSend_enter_def can_send_def xTaskGetSchedulerState_def)
  show ?thesis
  proof (cases "uxMessagesWaiting q < uxLength q \<or> pos = queueOVERWRITE")
    case True
    have "ensures (xQueueGenericSend_try h item pos (None, w) s) (\<lambda>(s', r). r = Inl pdPASS \<and> os_inv s' \<and>
       (\<exists>q'. queues s' = (queues s)(h \<mapsto> q') \<and> contents q' = put_item pos (sent_bytes q item) (contents q)) \<and>
       served (ReceiveL h) (kern s) (kern s'))"
      by (rule xQueueGenericSend_try_ensures [OF inv q nm set can True]) auto
    then obtain s' where s': "xQueueGenericSend_try h item pos (None, w) s = Some (s', Inl pdPASS)" "os_inv s'"
      "\<exists>q'. queues s' = (queues s)(h \<mapsto> q') \<and> contents q' = put_item pos (sent_bytes q item) (contents q)"
      "served (ReceiveL h) (kern s) (kern s')" by (auto simp: ensures_iff)
    show ?thesis
      using enter True s' blocking_call_first [where f = "xQueueGenericSend_try h item pos" and s = s, OF s'(1)]
        served_first [OF s'(4) sys_invD(2) [OF si]] run by (simp add: xQueueGenericSend_def)
  next
    case False
    then have full: "uxMessagesWaiting q = uxLength q" and "w = 0" "pos \<noteq> queueOVERWRITE"
      using now queue_okD(3) [OF ok] by auto
    with xQueueGenericSend_try_full [OF q full, of pos item "(None, w)"] show ?thesis
      using enter inv False blocking_call_first [of "xQueueGenericSend_try h item pos" "(None, w)" s s errQUEUE_FULL]
      by (simp add: xQueueGenericSend_def)
  qed
qed

text \<open>Task 4 is woken by the item it waits for; queue 5 is full.\<close>

lemma xQueueGenericSend_delivers_witness:
  "ensures (xQueueGenericSend [] 0 (Some [9]) 0 queueSEND_TO_BACK demo_os) (\<lambda>(s', r). r = Some pdPASS \<and> ready (kern s') 4) \<and>
   ensures (xQueueGenericSend [] 5 (Some [9]) 0 queueSEND_TO_FRONT demo_os) (\<lambda>(s', r). r = Some errQUEUE_FULL \<and> s' = demo_os)"
proof
  show "ensures (xQueueGenericSend [] 0 (Some [9]) 0 queueSEND_TO_BACK demo_os) (\<lambda>(s', r). r = Some pdPASS \<and> ready (kern s') 4)"
    by (rule ensures_mono [OF xQueueGenericSend_delivers [OF demo_os_inv]]) (auto simp: can_send_def)
  show "ensures (xQueueGenericSend [] 5 (Some [9]) 0 queueSEND_TO_FRONT demo_os) (\<lambda>(s', r). r = Some errQUEUE_FULL \<and> s' = demo_os)"
    by (rule ensures_mono [OF xQueueGenericSend_delivers [OF demo_os_inv]]) (auto simp: can_send_def)
qed

text \<open>
  C20: \<open>xQueueReceive\<close> on a queue that is not empty returns the item that was stored first,
  byte for byte, keeps the others in order, and wakes the first task that waits to send; on an
  empty one, with no time to wait, it reports that and changes nothing.
\<close>

theorem xQueueReceive_takes_the_first:
  assumes inv: "os_inv s" and run: "uxSchedulerSuspended (kern s) = 0"
    and q: "queues s h = Some q" and nm: "pcHead q \<noteq> queueQUEUE_IS_MUTEX"
    and now: "uxMessagesWaiting q \<noteq> 0 \<or> w = 0"
  shows "ensures (xQueueReceive es h True w s) (\<lambda>(s', r). os_inv s' \<and>
    (case contents q of
       x # xs \<Rightarrow> r = Some (pdPASS, x) \<and> (\<exists>q'. queues s' = (queues s)(h \<mapsto> q') \<and> contents q' = xs) \<and>
         (members (kern s) (SendL h) \<noteq> [] \<longrightarrow> ready (kern s') (owner (hd (members (kern s) (SendL h)))))
     | [] \<Rightarrow> r = Some (errQUEUE_EMPTY, []) \<and> s' = s))"
proof -
  note si = os_invD(1) [OF inv]
  have enter: "xQueueReceive_enter h True w s = Some ()"
    using q run sys_invD(3) [OF si] by (simp add: xQueueReceive_enter_def xTaskGetSchedulerState_def)
  show ?thesis
  proof (cases "contents q")
    case (Cons x xs)
    have some: "uxMessagesWaiting q \<noteq> 0" using Cons length_contents [of q] by auto
    have "ensures (xQueueReceive_try h (None, w) s) (\<lambda>(s', r). r = Inl (pdPASS, x) \<and> os_inv s' \<and>
       (\<exists>q'. queues s' = (queues s)(h \<mapsto> q') \<and> contents q' = xs) \<and> served (SendL h) (kern s) (kern s'))"
      by (rule xQueueReceive_try_ensures [OF inv q nm some]) (use Cons in auto)
    then obtain s' where s': "xQueueReceive_try h (None, w) s = Some (s', Inl (pdPASS, x))" "os_inv s'"
      "\<exists>q'. queues s' = (queues s)(h \<mapsto> q') \<and> contents q' = xs" "served (SendL h) (kern s) (kern s')"
      by (auto simp: ensures_iff)
    show ?thesis
      using enter Cons s' blocking_call_first [where f = "xQueueReceive_try h" and s = s, OF s'(1)]
        served_first(2) [OF s'(4) sys_invD(2) [OF si]] run by (simp add: xQueueReceive_def)
  next
    case Nil
    then have none: "uxMessagesWaiting q = 0" by (simp add: contents_empty)
    with xQueueReceive_try_empty [OF q none, of "(None, w)"] show ?thesis
      using enter inv Nil now blocking_call_first [of "xQueueReceive_try h" "(None, w)" s s "(errQUEUE_EMPTY, [])"]
      by (simp add: xQueueReceive_def)
  qed
qed

lemma xQueueReceive_takes_the_first_witness:
  "ensures (xQueueReceive [] 5 True 0 demo_os) (\<lambda>(s', r). r = Some (pdPASS, [7])) \<and>
   ensures (xQueueReceive [] 0 True 0 demo_os) (\<lambda>(s', r). r = Some (errQUEUE_EMPTY, []) \<and> s' = demo_os)"
proof
  have c: "contents (demo_queue (Suc 0) [7] (Suc 0)) = [[7]]"
    by (simp add: contents_def item_at_def block_def demo_queue_def)
  show "ensures (xQueueReceive [] 5 True 0 demo_os) (\<lambda>(s', r). r = Some (pdPASS, [7]))"
    by (rule ensures_mono [OF xQueueReceive_takes_the_first [OF demo_os_inv]]) (auto simp: c)
  show "ensures (xQueueReceive [] 0 True 0 demo_os) (\<lambda>(s', r). r = Some (errQUEUE_EMPTY, []) \<and> s' = demo_os)"
    by (rule ensures_mono [OF xQueueReceive_takes_the_first [OF demo_os_inv]]) (auto simp: contents_def)
qed

text \<open>
  C21: No wake-up is lost while a task goes to wait on a queue. Between the two critical
  sections of \<open>xQueueReceive\<close> or \<open>xQueueGenericSend\<close> interrupts may come at any point and tick,
  send, give and receive on any queue that is no mutex and in no set (\<open>irqs\<close> says which, where).
  When the call has unlocked the queue and the scheduler, the system invariant holds, nothing
  is left locked, and the caller is ready or waits in the queue's list. If it waits although
  there is something to receive (or space to send), a task that was waiting before it, at no
  lower priority, is ready to take it. A time-out is reported only by a task that is ready
  again, and to a receiver only if the queue is empty.
\<close>

theorem queue_wait_loses_no_wake_up:
  assumes "os_inv s" and "uxSchedulerSuspended (kern s) = 0" and "pxCurrentTCB (kern s) = Some c"
    and "xIdleTaskHandle (kern s) \<noteq> Some c" and "uxCurrentNumberOfTasks (kern s) \<le> 127"
    and "queues s h = Some q" and "pxQueueSetContainer q = None" and "w \<noteq> 0"
  shows "ensures (xQueueReceive_wait h (irq_env irqs Some) (Some to, w) s) (\<lambda>(s', r).
       os_inv s' \<and> uxSchedulerSuspended (kern s') = 0 \<and> unlocked h s' \<and>
       (case r of Inl x \<Rightarrow> x = (errQUEUE_EMPTY, []) \<and> ready (kern s') c \<and> (\<exists>q. queues s' h = Some q \<and> uxMessagesWaiting q = 0)
        | Inr _ \<Rightarrow> awaits Receivers c h s s')) \<and>
     ensures (xQueueGenericSend_wait h (irq_env irqs Some) (Some to, w) s) (\<lambda>(s', r).
       os_inv s' \<and> uxSchedulerSuspended (kern s') = 0 \<and> unlocked h s' \<and>
       (case r of Inl x \<Rightarrow> x = errQUEUE_FULL \<and> ready (kern s') c | Inr _ \<Rightarrow> awaits Senders c h s s'))"
proof -
  have res: "irq_env irqs Some Resumed = Some" by (simp add: irq_env_def fun_eq_iff)
  show ?thesis
    using irq.receive_wait [OF assms res, of to] irq.send_wait [OF assms res, of to]
    by (auto simp: waited_def elim!: ensures_mono split: sum.splits)
qed

text \<open>Task 1 goes to wait behind task 4; an item comes just after it has blocked, and goes to task 4.\<close>

lemma queue_wait_loses_no_wake_up_witness:
  "ensures (xQueueReceive_wait 0 (irq_env (\<lambda>p. if p = AfterPlace then [Tick, SendInt 0 (Some [9]) queueSEND_TO_BACK] else []) Some)
     (Some \<lparr>xOverflowCount = 0, xTimeOnEntering = 3\<rparr>, 10) demo_os) (\<lambda>(s', r). os_inv s' \<and> unlocked 0 s')"
  by (rule ensures_mono [OF conjunct1 [OF queue_wait_loses_no_wake_up [OF demo_os_inv]]]) auto

text \<open>
  C22: \<open>xQueueSemaphoreTake\<close> takes one token if there is one. Of a mutex it makes the caller
  the holder and counts it in the caller's \<open>uxMutexesHeld\<close>; while any task holds the mutex, a
  call that may not wait fails, so no two tasks hold it. Without a token the call reports that
  and changes nothing.
\<close>

theorem xQueueSemaphoreTake_excludes:
  assumes inv: "os_inv s" and run: "uxSchedulerSuspended (kern s) = 0" and cur: "pxCurrentTCB (kern s) = Some c"
    and q: "queues s h = Some q" and sz: "uxItemSize q = 0"
    and now: "uxMessagesWaiting q \<noteq> 0 \<or> w = 0"
  shows "ensures (xQueueSemaphoreTake es h w s) (\<lambda>(s', r). os_inv s' \<and>
    (if uxMessagesWaiting q = 0 then r = Some errQUEUE_EMPTY \<and> s' = s
     else r = Some pdPASS \<and>
       (if pcHead q = queueQUEUE_IS_MUTEX
        then xMutexHolder q = None \<and>
          queues s' = (queues s)(h \<mapsto> q\<lparr>uxMessagesWaiting := 0, xMutexHolder := Some c\<rparr>) \<and>
          tcbs (kern s') = (tcbs (kern s))(c := (tcbs (kern s) c)\<lparr>uxMutexesHeld := uxMutexesHeld (tcbs (kern s) c) + 1\<rparr>)
        else queues s' = (queues s)(h \<mapsto> q\<lparr>uxMessagesWaiting := uxMessagesWaiting q - 1\<rparr>))))"
proof -
  have enter: "xQueueSemaphoreTake_enter h w s = Some ()"
    using q sz run sys_invD(3) [OF os_invD(1) [OF inv]]
    by (simp add: xQueueSemaphoreTake_enter_def xTaskGetSchedulerState_def)
  show ?thesis
  proof (cases "uxMessagesWaiting q = 0")
    case True
    then have "xQueueSemaphoreTake_try h ((None, w), False) s = Some (s, Inl errQUEUE_EMPTY)"
      using q now by (simp add: xQueueSemaphoreTake_try_def)
    from blocking_call_first [where f = "xQueueSemaphoreTake_try h" and s = s, OF this] show ?thesis
      using enter inv True by (simp add: xQueueSemaphoreTake_def)
  next
    case False
    let ?R = "\<lambda>s'. os_inv s' \<and>
      (if pcHead q = queueQUEUE_IS_MUTEX then took_mutex c h q s s'
       else queues s' = (queues s)(h \<mapsto> q\<lparr>uxMessagesWaiting := uxMessagesWaiting q - 1\<rparr>))"
    have "ensures (xQueueSemaphoreTake_try h ((None, w), False) s) (\<lambda>(s', r). r = Inl pdPASS \<and> ?R s')"
    proof (cases "pcHead q = queueQUEUE_IS_MUTEX")
      case True
      then show ?thesis by (intro ensures_mono [OF take_mutex [OF inv q True False cur]]) auto
    next
      case nm: False
      then show ?thesis by (intro ensures_mono [OF take_semaphore [OF inv q nm sz False]]) auto
    qed
    then obtain s' where s': "xQueueSemaphoreTake_try h ((None, w), False) s = Some (s', Inl pdPASS)" "?R s'"
      by (auto simp: ensures_iff)
    have "pcHead q = queueQUEUE_IS_MUTEX \<longrightarrow> xMutexHolder q = None"
      using queue_okD(6) [OF os_invD(2) [OF inv q]] False by (cases "xMutexHolder q") auto
    then show ?thesis
      using enter False s'(2) blocking_call_first [where f = "xQueueSemaphoreTake_try h" and s = s, OF s'(1)]
      by (cases "pcHead q = queueQUEUE_IS_MUTEX") (simp_all add: xQueueSemaphoreTake_def took_mutex_def)
  qed
qed

lemma xQueueSemaphoreTake_excludes_witness:
  "ensures (xQueueSemaphoreTake [] 4 0 demo_os) (\<lambda>(s', r). r = Some pdPASS \<and> uxMutexesHeld (tcbs (kern s') 1) = 2) \<and>
   ensures (xQueueSemaphoreTake [] 3 0 demo_os) (\<lambda>(s', r). r = Some errQUEUE_EMPTY \<and> s' = demo_os)"
proof
  show "ensures (xQueueSemaphoreTake [] 4 0 demo_os) (\<lambda>(s', r). r = Some pdPASS \<and> uxMutexesHeld (tcbs (kern s') 1) = 2)"
    by (rule ensures_mono [OF xQueueSemaphoreTake_excludes [OF demo_os_inv, where c = 1]])
      (auto simp: demo_def demo_tcb_def)
  show "ensures (xQueueSemaphoreTake [] 3 0 demo_os) (\<lambda>(s', r). r = Some errQUEUE_EMPTY \<and> s' = demo_os)"
    by (rule ensures_mono [OF xQueueSemaphoreTake_excludes [OF demo_os_inv, where c = 1]]) auto
qed

text \<open>
  C23: Giving a mutex back. Only its holder can: given by another task, the call fails an
  assertion. The holder has one mutex less; with its last one it falls back to its base
  priority, and to no other; the first waiter is ready; the token is in and no task holds the
  mutex. The scheduling invariant holds afterwards, so that no ready task is left above the
  running one, if the waiter that is woken outranks a holder that falls back. (If it does not,
  the code drops the switch that the fall asks for.)
\<close>

theorem mutex_give_returns_it:
  assumes inv: "os_inv s" and run: "uxSchedulerSuspended (kern s) = 0" and cur: "pxCurrentTCB (kern s) = Some c"
    and q: "queues s h = Some q" and mu: "pcHead q = queueQUEUE_IS_MUTEX" and set: "pxQueueSetContainer q = None"
    and hold: "xMutexHolder q = Some t"
    and gap: "drops (kern s) c \<Longrightarrow> members (kern s) (ReceiveL h) \<noteq> [] \<Longrightarrow>
      uxBasePriority (tcbs (kern s) c) < prio (kern s) (owner (hd (members (kern s) (ReceiveL h))))"
  shows "(t \<noteq> c \<longrightarrow> xQueueGenericSend es h None w queueSEND_TO_BACK s = None) \<and>
    (t = c \<longrightarrow> ensures (xQueueGenericSend es h None w queueSEND_TO_BACK s) (\<lambda>(s', r). r = Some pdPASS \<and> os_inv s' \<and>
       queues s' = (queues s)(h \<mapsto> q\<lparr>xMutexHolder := None, uxMessagesWaiting := 1\<rparr>) \<and>
       tcbs (kern s') = (tcbs (kern s))(c := (tcbs (kern s) c)\<lparr>uxMutexesHeld := uxMutexesHeld (tcbs (kern s) c) - 1,
         uxPriority := if uxMutexesHeld (tcbs (kern s) c) = 1 then uxBasePriority (tcbs (kern s) c) else prio (kern s) c\<rparr>) \<and>
       (members (kern s) (ReceiveL h) \<noteq> [] \<longrightarrow> ready (kern s') (owner (hd (members (kern s) (ReceiveL h)))))))"
proof -
  note okq = os_invD(2) [OF inv q]
  have f: "uxItemSize q = 0" "uxLength q = 1" "uxMessagesWaiting q = 0"
    using queue_okD(4,5) [OF okq] queue_okD(6) [OF okq mu hold] mu by simp_all
  have enter: "xQueueGenericSend_enter h None w queueSEND_TO_BACK s = Some ()"
    using q f run sys_invD(3) [OF os_invD(1) [OF inv]]
    by (simp add: xQueueGenericSend_enter_def xTaskGetSchedulerState_def)
  have "xQueueGenericSend es h None w queueSEND_TO_BACK s = None" if "t \<noteq> c"
  proof -
    have "xQueueGenericSend_try h None queueSEND_TO_BACK (None, w) s = None"
      using that q f mu hold cur by (simp add: xQueueGenericSend_try_def prvCopyDataToQueue_def xTaskPriorityDisinherit_def)
    then show ?thesis using enter by (cases es) (simp_all add: xQueueGenericSend_def)
  qed
  moreover have "ensures (xQueueGenericSend es h None w queueSEND_TO_BACK s) (\<lambda>(s', r). r = Some pdPASS \<and> os_inv s' \<and>
      queues s' = (queues s)(h \<mapsto> q\<lparr>xMutexHolder := None, uxMessagesWaiting := 1\<rparr>) \<and> gave_mutex c h (kern s) (kern s'))"
    if "t = c"
  proof -
    have hc: "xMutexHolder q = Some c" using hold that by simp
    from give_mutex [OF inv q mu hc cur set gap, of "(None, w)"] obtain s' where
      r: "xQueueGenericSend_try h None queueSEND_TO_BACK (None, w) s = Some (s', Inl pdPASS)" and
      s': "os_inv s'" "queues s' = (queues s)(h \<mapsto> q\<lparr>xMutexHolder := None, uxMessagesWaiting := 1\<rparr>)"
      "gave_mutex c h (kern s) (kern s')" by (auto simp: ensures_iff)
    show ?thesis
      using enter s' blocking_call_first [where f = "xQueueGenericSend_try h None queueSEND_TO_BACK" and s = s, OF r]
      by (simp add: xQueueGenericSend_def)
  qed
  ultimately show ?thesis
    using run by (auto simp: gave_mutex_def drops_def elim!: ensures_mono)
qed

text \<open>Task 1, of base priority 2, gives mutex 3 back and falls to 2.\<close>

lemma mutex_give_returns_it_witness:
  "ensures (xQueueGenericSend [] 3 None 0 queueSEND_TO_BACK demo_os) (\<lambda>(s', r). r = Some pdPASS \<and> prio (kern s') 1 = 2)"
proof -
  have "ensures (xQueueGenericSend [] 3 None 0 queueSEND_TO_BACK demo_os) (\<lambda>(s', r). r = Some pdPASS \<and>
    tcbs (kern s') = (tcbs demo)(1 := (tcbs demo 1)\<lparr>uxMutexesHeld := 0, uxPriority := 2\<rparr>))"
    by (rule ensures_mono [OF mp [OF conjunct2 [OF mutex_give_returns_it [OF demo_os_inv, where c = 1 and t = 1]] refl]])
      (auto simp: demo_def demo_tcb_def)
  then show ?thesis by (rule ensures_mono) auto
qed

text \<open>
  C24: A recursive mutex is released by as many gives as it was taken: after \<open>n + 1\<close> nested
  takes by one task and \<open>n\<close> gives it is still held, counted once; the last give returns it, and
  then all queues and all control blocks are as they were before the first take.
\<close>

theorem recursive_mutex_balances:
  assumes "os_inv s" and "queues s h = Some q" and "pcHead q = queueQUEUE_IS_MUTEX"
    and "uxMessagesWaiting q \<noteq> 0" and "uxRecursiveCallCount q = 0" and "pxQueueSetContainer q = None"
    and "pxCurrentTCB (kern s) = Some c" and "uxSchedulerSuspended (kern s) = 0"
    and "members (kern s) (SendL h) = []" and "Suc n < 2 ^ 64"
    and "uxMutexesHeld (tcbs (kern s) c) = 0 \<Longrightarrow> prio (kern s) c = uxBasePriority (tcbs (kern s) c)"
  shows "ensures (times (Suc n) (xQueueTakeMutexRecursive es h w) (Some pdPASS) s) (\<lambda>s1.
    ensures (times n (xQueueGiveMutexRecursive h) pdPASS s1) (\<lambda>s2.
      queues s2 h = Some (q\<lparr>uxMessagesWaiting := 0, xMutexHolder := Some c, uxRecursiveCallCount := 1\<rparr>) \<and>
      ensures (xQueueGiveMutexRecursive h s2) (\<lambda>(s3, ok). ok \<and> os_inv s3 \<and>
        queues s3 = queues s \<and> tcbs (kern s3) = tcbs (kern s))))"
proof -
  have "q\<lparr>uxRecursiveCallCount := 1, uxMessagesWaiting := 0, xMutexHolder := Some c\<rparr> =
    q\<lparr>uxMessagesWaiting := 0, xMutexHolder := Some c, uxRecursiveCallCount := 1\<rparr>" by (cases q) simp
  then show ?thesis
    using recursive_balance [OF assms, of es w] by (auto simp: took_mutex_def elim!: ensures_mono)
qed

lemma recursive_mutex_balances_witness:
  "ensures (times 3 (xQueueTakeMutexRecursive [] 4 0) (Some pdPASS) demo_os) (\<lambda>s1.
    ensures (times 2 (xQueueGiveMutexRecursive 4) pdPASS s1) (\<lambda>s2. uxMessagesWaiting (the (queues s2 4)) = 0 \<and>
      ensures (xQueueGiveMutexRecursive 4 s2) (\<lambda>(s3, ok). ok \<and> queues s3 = queues demo_os)))"
proof -
  have "ensures (times (Suc 2) (xQueueTakeMutexRecursive [] 4 0) (Some pdPASS) demo_os) (\<lambda>s1.
    ensures (times 2 (xQueueGiveMutexRecursive 4) pdPASS s1) (\<lambda>s2. uxMessagesWaiting (the (queues s2 4)) = 0 \<and>
      ensures (xQueueGiveMutexRecursive 4 s2) (\<lambda>(s3, ok). ok \<and> queues s3 = queues demo_os)))"
    by (rule ensures_mono [OF recursive_mutex_balances [OF demo_os_inv]])
      (auto simp: demo_def demo_tcb_def elim!: ensures_mono)
  then show ?thesis by (simp only: eval_nat_numeral)
qed

text \<open>
  C25: A queue set tells which member was sent to. Sending to a member of an empty set succeeds
  and leaves the item in the member; selecting from the set then returns that member's handle,
  which the set carried through its storage area as the bytes of a pointer, and the set is
  empty again.
\<close>

theorem queue_set_round_trip:
  assumes inv: "os_inv s" and run: "uxSchedulerSuspended (kern s) = 0"
    and q: "queues s h = Some q" and nm: "pcHead q \<noteq> queueQUEUE_IS_MUTEX" and set: "pxQueueSetContainer q = Some c"
    and ne: "c \<noteq> h" and can: "can_send q item pos" and room: "uxMessagesWaiting q < uxLength q"
    and c: "queues s c = Some cq" and r: "set_queue_ready cq" and e: "contents cq = []" and h: "h < 2 ^ 64"
  shows "ensures (xQueueGenericSend es h item w pos s) (\<lambda>(s1, r). r = Some pdPASS \<and> os_inv s1 \<and>
    ensures (xQueueSelectFromSet es' c w' s1) (\<lambda>(s2, m). m = Some (Some h) \<and> os_inv s2 \<and>
      (\<exists>q' cq'. queues s2 h = Some q' \<and> contents q' = put_item pos (sent_bytes q item) (contents q) \<and>
        queues s2 c = Some cq' \<and> contents cq' = [])))"
proof -
  let ?Q = "\<lambda>(s2, m). m = Some (Some h) \<and> os_inv s2 \<and>
      (\<exists>q' cq'. queues s2 h = Some q' \<and> contents q' = put_item pos (sent_bytes q item) (contents q) \<and>
        queues s2 c = Some cq' \<and> contents cq' = [])"
  have "ensures (xQueueGenericSend_try h item pos (None, w) s) (\<lambda>(s1, r). r = Inl pdPASS \<and> os_inv s1 \<and>
    ensures (xQueueSelectFromSet es' c w' s1) ?Q)"
  proof (rule send_member_ensures [OF inv q nm set ne can room c r], unfold prod.case)
    fix q' cq' k'
    let ?s = "(set_queue c cq' (set_queue h q' s))\<lparr>kern := k'\<rparr>"
    assume q': "contents q' = put_item pos (sent_bytes q item) (contents q)"
      and cq': "same_object cq cq'" "contents cq' = contents cq @ [handle_bytes h]"
      and k': "served (ReceiveL c) (kern s) k'" and inv': "os_inv ?s"
    have "ensures (xQueueSelectFromSet es' c w' ?s) ?Q"
    proof (rule select_ensures [OF inv', where cq = cq' and hs = "[]"])
      show "uxSchedulerSuspended (kern ?s) = 0" using served_frame(2) [OF k'] run by simp
      show "uxItemSize cq' = 8" using r same_object_fields [OF cq'(1)] by (simp add: set_queue_ready_def)
    qed (use cq' e h ne q' in simp_all)
    with inv' show "Inl pdPASS = Inl pdPASS \<and> os_inv ?s \<and> ensures (xQueueSelectFromSet es' c w' ?s) ?Q" by simp
  qed
  then obtain s1 where s1: "xQueueGenericSend_try h item pos (None, w) s = Some (s1, Inl pdPASS)" "os_inv s1"
    "ensures (xQueueSelectFromSet es' c w' s1) ?Q" by (auto simp: ensures_iff [of "xQueueGenericSend_try _ _ _ _ _"])
  have "xQueueGenericSend_enter h item w pos s = Some ()"
    using q run can sys_invD(3) [OF os_invD(1) [OF inv]]
    by (auto simp: xQueueGenericSend_enter_def can_send_def xTaskGetSchedulerState_def)
  then show ?thesis
    using s1(2,3) blocking_call_first [where f = "xQueueGenericSend_try h item pos" and s = s, OF s1(1)]
    by (simp add: xQueueGenericSend_def)
qed

lemma queue_set_round_trip_witness:
  "ensures (xQueueGenericSend [] 1 (Some [9]) 0 queueSEND_TO_BACK demo_os) (\<lambda>(s1, r). r = Some pdPASS \<and>
    ensures (xQueueSelectFromSet [] 2 0 s1) (\<lambda>(s2, m). m = Some (Some 1)))"
  by (rule ensures_mono [OF queue_set_round_trip [OF demo_os_inv, where c = 2 and es' = "[]" and w' = 0]])
    (auto simp: can_send_def set_queue_ready_def contents_def elim!: ensures_mono)

text \<open>
  C26: Creation makes what it is asked for and keeps the invariant of the system: a new queue is
  empty, has the length and the item size asked for, its storage area is laid out as a ring,
  and it is unlocked and in no set; a new mutex has its token and no holder. Without memory
  nothing changes and the handle is NULL.
\<close>

theorem queue_creation_establishes_the_invariant:
  assumes inv: "os_inv s" and free: "queues s h = None" "members (kern s) (SendL h) = []" "members (kern s) (ReceiveL h) = []"
    and len: "0 < len" and fit: "len * sz + sizeof_Queue_t \<le> SIZE_MAX"
    and mem: "length (pucQueueStorage m) = len * sz"
  shows "ensures (xQueueGenericCreate len sz ty (Some (h, m)) s) (\<lambda>(s', r). r = Some h \<and> os_inv s' \<and>
      (\<exists>q. queues s' = (queues s)(h \<mapsto> q) \<and> queue_ok q \<and> contents q = [] \<and> uxLength q = len \<and> uxItemSize q = sz \<and>
        ucQueueType q = ty \<and> cTxLock q = queueUNLOCKED \<and> cRxLock q = queueUNLOCKED \<and> pxQueueSetContainer q = None)) \<and>
    (len * sz = 0 \<longrightarrow> ensures (xQueueCreateMutex ty (Some (h, m)) s) (\<lambda>(s', r). r = Some h \<and> os_inv s' \<and>
      (\<exists>q. queues s' = (queues s)(h \<mapsto> q) \<and> pcHead q = queueQUEUE_IS_MUTEX \<and> xMutexHolder q = None \<and>
        uxMessagesWaiting q = 1 \<and> uxRecursiveCallCount q = 0))) \<and>
    xQueueGenericCreate len sz ty None s = Some (s, None)"
proof (intro conjI impI)
  show "ensures (xQueueGenericCreate len sz ty (Some (h, m)) s) (\<lambda>(s', r). r = Some h \<and> os_inv s' \<and>
      (\<exists>q. queues s' = (queues s)(h \<mapsto> q) \<and> queue_ok q \<and> contents q = [] \<and> uxLength q = len \<and> uxItemSize q = sz \<and>
        ucQueueType q = ty \<and> cTxLock q = queueUNLOCKED \<and> cRxLock q = queueUNLOCKED \<and> pxQueueSetContainer q = None))"
    by (rule xQueueGenericCreate_ensures [OF inv free len fit mem]) (auto simp: new_queue_def)
  show "ensures (xQueueCreateMutex ty (Some (h, m)) s) (\<lambda>(s', r). r = Some h \<and> os_inv s' \<and>
      (\<exists>q. queues s' = (queues s)(h \<mapsto> q) \<and> pcHead q = queueQUEUE_IS_MUTEX \<and> xMutexHolder q = None \<and>
        uxMessagesWaiting q = 1 \<and> uxRecursiveCallCount q = 0))" if "len * sz = 0"
    by (rule xQueueCreateMutex_ensures [OF inv free]) (use mem that in auto)
  have "sz \<le> SIZE_MAX div len" using fit len by (simp add: less_eq_div_iff_mult_less_eq mult.commute)
  moreover have "len * sz \<le> SIZE_MAX - sizeof_Queue_t" using fit by linarith
  ultimately show "xQueueGenericCreate len sz ty None s = Some (s, None)"
    using len by (simp add: xQueueGenericCreate_def)
qed

lemma queue_creation_establishes_the_invariant_witness:
  "ensures (xQueueGenericCreate 2 4 queueQUEUE_TYPE_BASE (Some (10, demo_queue 1 (replicate 8 255) 3)) demo_os)
    (\<lambda>(s', r). r = Some 10 \<and> os_inv s')"
  by (rule ensures_mono [OF conjunct1 [OF queue_creation_establishes_the_invariant [OF demo_os_inv]]])
    (auto simp: SIZE_MAX_def sizeof_Queue_t_def)

text \<open>
  The registry gives back the name a queue was registered with, as long as it has a slot
  for it, and forgets it when the queue is unregistered; names of other queues are not touched
  by either, and no queue ever gets a second slot.
\<close>

theorem registry_round_trip:
  assumes ok: "registry_ok (xQueueRegistry s)"
    and slot: "Some h \<in> snd ` set (xQueueRegistry s) \<or> None \<in> fst ` set (xQueueRegistry s)"
  shows "let s' = vQueueAddToRegistry h (Some name) s; s'' = vQueueUnregisterQueue h s' in
    pcQueueGetName h s' = Some name \<and> pcQueueGetName h s'' = None \<and> registry_ok (xQueueRegistry s') \<and>
    (\<forall>g. g \<noteq> h \<longrightarrow> pcQueueGetName g s' = pcQueueGetName g s \<and> pcQueueGetName g s'' = pcQueueGetName g s)"
proof -
  let ?s = "vQueueAddToRegistry h (Some name) s"
  obtain j where
    j: "j < length (xQueueRegistry s)" "\<forall>k < j. snd (xQueueRegistry s ! k) \<noteq> Some h"
      "snd (xQueueRegistry s ! j) = None \<or> snd (xQueueRegistry s ! j) = Some h"
      "snd (xQueueRegistry s ! j) = Some h \<or> Some h \<notin> snd ` set (xQueueRegistry s)"
    and run: "?s = s\<lparr>xQueueRegistry := (xQueueRegistry s)[j := (Some name, Some h)]\<rparr>"
    by (rule vQueueAddToRegistry_slot [OF ok slot, where n = name]) blast
  have ok': "registry_ok (xQueueRegistry ?s)"
    using registry_ok_update [OF ok j(1,4)] run by simp
  moreover have "pcQueueGetName h ?s = Some name"
    using registry_name_update [OF j(1,2)] run by (simp add: pcQueueGetName_def)
  moreover have o: "pcQueueGetName g ?s = pcQueueGetName g s" if "g \<noteq> h" for g
    using registry_name_others [OF that j(1,3)] run by (simp add: pcQueueGetName_def)
  moreover have "pcQueueGetName h (vQueueUnregisterQueue h ?s) = None"
    using registry_name_cleared(1) [OF ok'] by (simp add: pcQueueGetName_def vQueueUnregisterQueue_def)
  moreover have "pcQueueGetName g (vQueueUnregisterQueue h ?s) = pcQueueGetName g s" if "g \<noteq> h" for g
    using o [OF that] registry_name_cleared(2) [OF that] by (simp add: pcQueueGetName_def vQueueUnregisterQueue_def)
  ultimately show ?thesis by (simp add: Let_def)
qed

lemma registry_round_trip_witness:
  "pcQueueGetName 0 (vQueueAddToRegistry 0 (Some ''q'') demo_os) = Some ''q''"
proof -
  have "registry_ok (replicate n (None, None))" for n by (induction n) simp_all
  then show ?thesis
    using registry_round_trip [of demo_os 0 "''q''"] by (simp add: configQUEUE_REGISTRY_SIZE_def Let_def)
qed

section \<open>Telling about tasks\<close>

text \<open>
  C27: \<open>uxTaskGetSystemState\<close>, which walks over all the lists of the kernel, reports every task
  exactly once if the array is long enough, with the state that \<open>eTaskGetState\<close> gives for it
  and its own name and priorities, and disturbs nothing that it reports.
\<close>

theorem uxTaskGetSystemState_is_a_snapshot:
  assumes s: "sys_inv k" and room: "uxCurrentNumberOfTasks k \<le> n" and run: "uxSchedulerSuspended k = 0"
  shows "ensures (uxTaskGetSystemState n k) (\<lambda>(k', xs). sys_inv k' \<and>
    distinct (map xHandle xs) \<and> set (map xHandle xs) = live_tasks k \<and> length xs = uxCurrentNumberOfTasks k \<and>
    (\<forall>x \<in> set xs. eCurrentState x = eTaskGetState (xHandle x) k \<and> uxCurrentPriority x = prio k (xHandle x) \<and>
       uxStatusBasePriority x = uxBasePriority (tcbs k (xHandle x)) \<and> pcStatusName x = pcTaskName (tcbs k (xHandle x))))"
proof -
  let ?ts = "map owner (concat (map (members k) (task_lists k)))"
  note core = sys_invD(2) [OF s]
  have d: "distinct ?ts" and "set ?ts = {t. \<exists>l \<in> set (task_lists k). state_list k t = Some l}"
    by (rule distinct_owners [OF core distinct_task_lists [OF core] task_lists_set(2) [OF core]]; assumption)+
  then have l: "set ?ts = live_tasks k" using task_lists_set(1) [OF core] by (auto simp: live_tasks_def)
  then have n: "length ?ts = uxCurrentNumberOfTasks k"
    using distinct_card [OF d] core by (simp add: kernel_core_def)
  have h: "map xHandle (map (status_of k) ts) = ts" for ts by (simp add: status_of_def comp_def)
  show ?thesis
  proof (rule ensures_mono [OF uxTaskGetSystemState_ensures [OF s room run]])
    fix r assume "case r of (k', xs) \<Rightarrow> sys_inv k' \<and> xs = map (status_of k) ?ts"
    then obtain k' xs where k': "sys_inv k'" and xs: "xs = map (status_of k) ?ts" and r: "r = (k', xs)" by blast
    have "length xs = uxCurrentNumberOfTasks k" unfolding xs length_map [of "status_of k"] by (rule n)
    moreover have "\<forall>x \<in> set xs. eCurrentState x = eTaskGetState (xHandle x) k \<and> uxCurrentPriority x = prio k (xHandle x) \<and>
       uxStatusBasePriority x = uxBasePriority (tcbs k (xHandle x)) \<and> pcStatusName x = pcTaskName (tcbs k (xHandle x))"
      unfolding xs by (auto simp: status_of_def)
    moreover have "map xHandle xs = ?ts" unfolding xs by (rule h)
    ultimately show "case r of (k', xs) \<Rightarrow> sys_inv k' \<and>
      distinct (map xHandle xs) \<and> set (map xHandle xs) = live_tasks k \<and> length xs = uxCurrentNumberOfTasks k \<and>
      (\<forall>x \<in> set xs. eCurrentState x = eTaskGetState (xHandle x) k \<and> uxCurrentPriority x = prio k (xHandle x) \<and>
       uxStatusBasePriority x = uxBasePriority (tcbs k (xHandle x)) \<and> pcStatusName x = pcTaskName (tcbs k (xHandle x)))"
      using k' d l unfolding r prod.case by (simp only: simp_thms)
  qed
qed

lemma uxTaskGetSystemState_is_a_snapshot_witness:
  "ensures (uxTaskGetSystemState 10 demo) (\<lambda>(k', xs). length xs = 9)"
  by (rule ensures_mono [OF uxTaskGetSystemState_is_a_snapshot [OF demo_inv]]) auto

section \<open>Event groups\<close>

text \<open>
  C28: Setting bits (\<open>xEventGroupSetBits\<close>) serves exactly the waiters whose condition the group
  then meets: the walk over the waiters ends, each of them is ready with the bits that were set
  in its event item, in whatever place of the list it stood; the others stay, in their order
  and with their requests; and the bits that those who were served asked to clear are cleared,
  after the last of them was looked at, so that all of them see the same bits.
\<close>

theorem xEventGroupSetBits_serves_exactly_the_satisfied:
  assumes "event_inv s" and "event_groups s h = Some g" and "b AND eventEVENT_BITS_CONTROL_BYTES = 0"
    and "is = members (evkern s) (BitsL h)" and "n = uxEventBits g OR b"
  shows "ensures (xEventGroupSetBits Some h b s) (\<lambda>(s', r). event_inv s' \<and>
    (\<forall>t. EventI t \<in> set is \<longrightarrow>
       (if satisfied (item_value (lists (evkern s)) (EventI t)) n
        then ready (evkern s') t \<and> event_list (evkern s') t = None \<and> item_value (lists (evkern s')) (EventI t) =
          (n OR eventUNBLOCKED_DUE_TO_BIT_SET) OR taskEVENT_LIST_ITEM_VALUE_IN_USE
        else event_list (evkern s') t = Some (BitsL h) \<and> state_list (evkern s') t = state_list (evkern s) t \<and>
          item_value (lists (evkern s')) (EventI t) = item_value (lists (evkern s)) (EventI t))) \<and>
    members (evkern s') (BitsL h) = filter (\<lambda>i. \<not> satisfied (item_value (lists (evkern s)) i) n) is \<and>
    event_groups s' = (event_groups s)(h \<mapsto> g\<lparr>uxEventBits := r\<rparr>) \<and> r = n AND NOT (cleared_by n (evkern s) is))"
  (is "ensures _ ?Q")
proof (rule ensures_mono [OF xEventGroupSetBits_inv [OF assms(1-3)]])
  fix p :: "event_os \<times> tick"
  assume p: "case p of (s', r) \<Rightarrow> event_inv s' \<and> bits_set h b g s s' \<and> (\<exists>g'. event_groups s' h = Some g' \<and> r = uxEventBits g')"
  obtain s' r where pp: "p = (s', r)" by (cases p)
  let ?W = "satisfied_by n (evkern s) is"
  note core = sys_invD(2) [OF event_invD(1) [OF assms(1)]]
  have m: "EventI t \<in> set is \<longleftrightarrow> event_list (evkern s) t = Some (BitsL h)" for t
    using member_iff(2) [OF core] assms(4) by simp
  have i: "i \<in> set is \<Longrightarrow> \<exists>t. i = EventI t" for i
    using event_member [OF core _ bits_list] assms(4) by blast
  have w: "t \<in> ?W \<longleftrightarrow> EventI t \<in> set is \<and> satisfied (item_value (lists (evkern s)) (EventI t)) n" for t
    using i by (force simp: satisfied_by_def image_iff)
  have f: "filter (\<lambda>i. i \<notin> EventI ` ?W) is = filter (\<lambda>i. \<not> satisfied (item_value (lists (evkern s)) i) n) is"
    using i w by (intro filter_cong refl) auto
  show "?Q p" using p w m f assms(4,5) by (auto simp: pp bits_set_def handed_def Let_def)
qed

lemma xEventGroupSetBits_serves_exactly_the_satisfied_witness:
  "ensures (xEventGroupSetBits Some 0 2 demo_events) (\<lambda>(s', r). r = 0 \<and> ready (evkern s') 3 \<and> ready (evkern s') 8 \<and>
     item_value (lists (evkern s')) (EventI 8) = 0x82000003 \<and> members (evkern s') (BitsL 0) = [])"
proof -
  have "ensures (xEventGroupSetBits Some 0 2 demo_events) (\<lambda>(s', r). event_inv s' \<and>
    (\<forall>t. EventI t \<in> set [EventI 3, EventI 8] \<longrightarrow>
       (if satisfied (item_value (lists (evkern demo_events)) (EventI t)) 3
        then ready (evkern s') t \<and> event_list (evkern s') t = None \<and> item_value (lists (evkern s')) (EventI t) =
          (3 OR eventUNBLOCKED_DUE_TO_BIT_SET) OR taskEVENT_LIST_ITEM_VALUE_IN_USE
        else event_list (evkern s') t = Some (BitsL 0) \<and> state_list (evkern s') t = state_list (evkern demo_events) t \<and>
          item_value (lists (evkern s')) (EventI t) = item_value (lists (evkern demo_events)) (EventI t))) \<and>
    members (evkern s') (BitsL 0) = filter (\<lambda>i. \<not> satisfied (item_value (lists (evkern demo_events)) i) 3) [EventI 3, EventI 8] \<and>
    event_groups s' = (event_groups demo_events)(0 \<mapsto> demo_group\<lparr>uxEventBits := r\<rparr>) \<and>
    r = 3 AND NOT (cleared_by 3 (evkern demo_events) [EventI 3, EventI 8]))"
    by (rule xEventGroupSetBits_serves_exactly_the_satisfied [OF demo_events_inv])
      (simp_all add: demo_user_bits demo_waiters_lists)
  then show ?thesis
    by (rule ensures_mono)
      (simp add: case_prod_unfold demo_waiters_lists demo_requests all_conj_distrib
        eventUNBLOCKED_DUE_TO_BIT_SET_def taskEVENT_LIST_ITEM_VALUE_IN_USE_def)
qed

text \<open>
  C29: In every run of a system with event groups - tasks that create and delete groups, set,
  clear and wait for bits, meet, and wake up, and the clock that ticks - no task is ever left
  waiting in a group for bits that are set, no matter who set them and who cleared others.
\<close>

theorem no_task_waits_for_bits_that_are_set:
  assumes "event_inv s" and "event_run s s'" and "event_groups s' h = Some g"
    and "event_list (evkern s') t = Some (BitsL h)"
  shows "\<not> satisfied (item_value (lists (evkern s')) (EventI t)) (uxEventBits g)"
proof -
  have s': "event_inv s'" by (rule event_run_inv [OF assms(2,1)])
  have "EventI t \<in> set (members (evkern s') (BitsL h))"
    using member_iff(2) [OF sys_invD(2) [OF event_invD(1) [OF s']]] assms(4) by blast
  then show ?thesis using event_invD(2) [OF s' assms(3)] by (simp add: group_ok_def)
qed

lemma no_task_waits_for_bits_that_are_set_witness:
  "\<exists>s'. event_run demo_events s' \<and> uxEventBits (the (event_groups s' 0)) = 0 \<and>
     event_list (evkern s') 3 = Some (BitsL 0) \<and> \<not> satisfied (item_value (lists (evkern s')) (EventI 3)) 0"
proof -
  let ?s = "set_group 0 (demo_group\<lparr>uxEventBits := 0\<rparr>) demo_events"
  have "xEventGroupClearBits 0 1 demo_events = Some (?s, 1)"
    by (simp add: xEventGroupClearBits_def demo_user_bits)
  then have "event_step demo_events (Clear_bits 0 1) ?s"
    by (intro step_clear) (simp_all add: user_bits_def demo_user_bits)
  then have r: "event_run demo_events ?s" using run_step [OF run_start] by blast
  have ev: "event_list (evkern ?s) 3 = Some (BitsL 0)" by (simp add: demo_waiters_lists)
  have "\<not> satisfied (item_value (lists (evkern ?s)) (EventI 3)) (uxEventBits (demo_group\<lparr>uxEventBits := 0\<rparr>))"
    by (rule no_task_waits_for_bits_that_are_set [OF demo_events_inv r _ ev]) simp
  then show ?thesis using r ev by (intro exI [of _ ?s]) simp
qed

text \<open>
  C30: A wait for event bits and the setting that ends it: the bits are not there, so the task
  goes to sleep in the group's list; a task that then sets bits with which the condition holds
  makes it ready at once; and when it runs, whatever happened to the group meanwhile, the call
  returns the bits as they were set, which satisfy what it waited for, and changes no bits.
\<close>

theorem event_wait_returns_the_bits_that_ended_it:
  assumes "event_inv s" and "event_groups s h = Some g" and "user_bits bits" and "bits \<noteq> 0" and "user_bits b"
    and "pxCurrentTCB (evkern s) = Some c" and "w \<noteq> 0" and "may_wait w s"
    and "\<not> prvTestWaitCondition (uxEventBits g) bits all" and "prvTestWaitCondition (uxEventBits g OR b) bits all"
  shows "ensures (do { (s1, _, waits) \<leftarrow> xEventGroupWaitBits_enter h bits clear all w s;
       configASSERT (waits \<and> \<not> ready (evkern s1) c);
       (s2, _) \<leftarrow> xEventGroupSetBits Some h b s1; Some s2 })
    (\<lambda>s2. event_inv s2 \<and> ready (evkern s2) c \<and>
       (\<forall>s3. event_inv s3 \<and> pxCurrentTCB (evkern s3) = Some c \<and> uxSchedulerSuspended (evkern s3) = 0 \<and>
          event_groups s3 h \<noteq> None \<and>
          item_value (lists (evkern s3)) (EventI c) = item_value (lists (evkern s2)) (EventI c) \<longrightarrow>
          ensures (xEventGroupWaitBits_leave h bits clear all s3) (\<lambda>(s4, r). event_inv s4 \<and>
            r = uxEventBits g OR b \<and> event_groups s4 = event_groups s3)))"
    (is "ensures _ ?Q")
proof -
  have ub: "bits AND eventEVENT_BITS_CONTROL_BYTES = 0" "b AND eventEVENT_BITS_CONTROL_BYTES = 0"
    using assms(3,5) by (simp_all add: user_bits_def)
  have mw: "w \<noteq> 0 \<longrightarrow> uxSchedulerSuspended (evkern s) = 0 \<and> xIdleTaskHandle (evkern s) \<noteq> Some c"
    using assms(6,8) by (simp add: may_wait_def)
  note en = ensures_conj [OF xEventGroupWaitBits_enter_ensures [OF event_invD(1) [OF assms(1)] assms(2) ub(1) assms(4,6) mw]
      xEventGroupWaitBits_enter_inv [OF assms(1,2) ub(1) assms(4,6) mw], of clear all]
  show ?thesis
    unfolding ensures_bind [of "xEventGroupWaitBits_enter _ _ _ _ _ _"]
  proof (rule ensures_mono [OF en])
    fix p :: "event_os \<times> tick \<times> bool"
    assume p: "(case p of (s', r, waits) \<Rightarrow> sys_inv (evkern s') \<and>
      (if prvTestWaitCondition (uxEventBits g) bits all
       then \<not> waits \<and> r = uxEventBits g \<and> still (evkern s) (evkern s') \<and> event_groups s' =
         (event_groups s)(h \<mapsto> if clear then g\<lparr>uxEventBits := uxEventBits g AND NOT bits\<rparr> else g)
       else if w = 0 then \<not> waits \<and> r = uxEventBits g \<and> still (evkern s) (evkern s') \<and> event_groups s' = event_groups s
       else waits \<and> asleep c h (request bits clear all) w (evkern s) (evkern s') \<and> event_groups s' = event_groups s)) \<and>
      (case p of (s', r, waits) \<Rightarrow> event_inv s')"
    obtain s1 r waits where pp: "p = (s1, r, waits)" by (cases p)
    from p have s1: "event_inv s1" "waits" "asleep c h (request bits clear all) w (evkern s) (evkern s1)"
      "event_groups s1 = event_groups s" using assms(7,9) by (simp_all add: pp)
    have g1: "event_groups s1 h = Some g" using s1(4) assms(2) by simp
    have nr: "\<not> ready (evkern s1) c"
      using s1(3) asleep_not_ready [OF event_invD(1) [OF s1(1)]] by blast
    have sat: "satisfied (item_value (lists (evkern s1)) (EventI c)) (uxEventBits g OR b)"
      using s1(3) satisfied_request(1) [OF ub(1)] assms(10) by (simp add: asleep_def)
    have "ensures (xEventGroupSetBits Some h b s1) (\<lambda>(s2, _). ?Q s2)"
    proof (rule ensures_mono [OF xEventGroupSetBits_inv [OF s1(1) g1 ub(2)]])
      fix q :: "event_os \<times> tick"
      assume q: "case q of (s', r) \<Rightarrow> event_inv s' \<and> bits_set h b g s1 s' \<and> (\<exists>g'. event_groups s' h = Some g' \<and> r = uxEventBits g')"
      obtain s2 x where qq: "q = (s2, x)" by (cases q)
      from q have s2: "event_inv s2" "bits_set h b g s1 s2" by (simp_all add: qq)
      note sv = served_by_bits [OF s1(1) s2(2) sat]
      have ev: "event_list (evkern s1) c = Some (BitsL h)" using s1(3) by (simp add: asleep_def)
      have leave: "ensures (xEventGroupWaitBits_leave h bits clear all s3) (\<lambda>(s4, r). event_inv s4 \<and>
            r = uxEventBits g OR b \<and> event_groups s4 = event_groups s3)"
        if s3: "event_inv s3" "pxCurrentTCB (evkern s3) = Some c" "uxSchedulerSuspended (evkern s3) = 0"
          "event_groups s3 h = Some g3" "item_value (lists (evkern s3)) (EventI c) = item_value (lists (evkern s2)) (EventI c)" for s3 g3
        by (rule ensures_mono [OF xEventGroupWaitBits_leave_inv [OF s3(1,4,2,3)]])
          (use s3(5) sv(2) [OF ev] handed_bits [OF event_invD(2) [OF s1(1) g1] ub(2)] in \<open>auto simp: Let_def\<close>)
      show "case q of (s2, _) \<Rightarrow> ?Q s2" using s2(1) sv(1) [OF ev] leave by (auto simp: qq)
    qed
    then show "ensures (case p of (s1, _, waits) \<Rightarrow> do { configASSERT (waits \<and> \<not> ready (evkern s1) c);
       (s2, _) \<leftarrow> xEventGroupSetBits Some h b s1; Some s2 }) ?Q"
      using s1(2) nr by (simp add: pp case_prod_unfold)
  qed
qed

lemma event_wait_returns_the_bits_that_ended_it_witness:
  "ensures (do { (s1, _, waits) \<leftarrow> xEventGroupWaitBits_enter 0 2 True False 5 demo_events;
       configASSERT (waits \<and> \<not> ready (evkern s1) 1);
       (s2, _) \<leftarrow> xEventGroupSetBits Some 0 2 s1; Some s2 }) (\<lambda>s2. ready (evkern s2) 1)"
  by (rule ensures_mono [OF event_wait_returns_the_bits_that_ended_it [OF demo_events_inv, where g = demo_group]])
    (simp_all add: user_bits_def demo_user_bits may_wait_def prvTestWaitCondition_def)

text \<open>
  Meeting (\<open>xEventGroupSync\<close>): the task whose bits complete the set goes on at once with
  all the bits, every task that waited at the meeting for the same bits is ready with the same
  result, and these bits are cleared for the next meeting; a task that comes too early has set
  its bits, which stay (if nobody was served), and waits, or gives up if it may not wait.
\<close>

theorem xEventGroupSync_meets:
  assumes "event_inv s" and "event_groups s h = Some g" and "user_bits b" and "user_bits bits" and "bits \<noteq> 0"
    and "pxCurrentTCB (evkern s) = Some c" and "may_wait w s" and "n = uxEventBits g OR b"
  shows "ensures (xEventGroupSync_enter h b bits w s) (\<lambda>(s', r, waits). event_inv s' \<and>
    (if n AND bits = bits
     then \<not> waits \<and> r = n \<and> (\<forall>g'. event_groups s' h = Some g' \<longrightarrow> uxEventBits g' AND bits = 0) \<and>
       (\<forall>t. event_list (evkern s) t = Some (BitsL h) \<and>
          item_value (lists (evkern s)) (EventI t) = request bits True True \<longrightarrow>
          ready (evkern s') t \<and> item_value (lists (evkern s')) (EventI t) =
            (n OR eventUNBLOCKED_DUE_TO_BIT_SET) OR taskEVENT_LIST_ITEM_VALUE_IN_USE)
     else (satisfied_by n (evkern s) (members (evkern s) (BitsL h)) = {} \<longrightarrow>
         event_groups s' = (event_groups s)(h \<mapsto> g\<lparr>uxEventBits := n\<rparr>)) \<and>
       waits = (w \<noteq> 0) \<and> (waits \<longrightarrow> event_list (evkern s') c = Some (BitsL h) \<and>
         item_value (lists (evkern s')) (EventI c) = request bits True True)))"
    (is "ensures _ ?Q")
proof -
  have ub: "bits AND eventEVENT_BITS_CONTROL_BYTES = 0" "b AND eventEVENT_BITS_CONTROL_BYTES = 0"
    using assms(3,4) by (simp_all add: user_bits_def)
  have mw: "w \<noteq> 0 \<longrightarrow> uxSchedulerSuspended (evkern s) = 0 \<and> xIdleTaskHandle (evkern s) \<noteq> Some c"
    using assms(6,7) by (simp add: may_wait_def)
  show ?thesis
  proof (rule ensures_mono [OF xEventGroupSync_enter_ensures [OF assms(1,2) ub(2,1) assms(5,6) mw]])
    fix p :: "event_os \<times> tick \<times> bool"
    assume p: "case p of (s', r, waits) \<Rightarrow> event_inv s' \<and> met h b bits w g c s s' r waits"
    obtain s' r waits where pp: "p = (s', r, waits)" by (cases p)
    let ?W = "satisfied_by n (evkern s) (members (evkern s) (BitsL h))"
    let ?rest = "n AND NOT (cleared_by n (evkern s) (members (evkern s) (BitsL h)))"
    have e: "cleared_by n (evkern s) is = 0" if "satisfied_by n (evkern s) is = {}" for "is"
      using that by (induction "is") (auto split: if_splits)
    have z: "(?rest AND NOT bits) AND bits = 0" by (simp add: and.assoc)
    have served: "t \<in> ?W" if "n AND bits = bits" "event_list (evkern s) t = Some (BitsL h)"
      "item_value (lists (evkern s)) (EventI t) = request bits True True" for t
    proof -
      have "EventI t \<in> set (members (evkern s) (BitsL h))"
        using member_iff(2) [OF sys_invD(2) [OF event_invD(1) [OF assms(1)]]] that(2) by blast
      moreover have "satisfied (item_value (lists (evkern s)) (EventI t)) n"
        using that satisfied_request(1) [OF ub(1)] by (simp add: prvTestWaitCondition_def)
      ultimately show ?thesis by (force simp: satisfied_by_def)
    qed
    show "?Q p"
    proof (cases "n AND bits = bits")
      case True
      then show ?thesis using p z served assms(8) by (auto simp: pp met_def Let_def handed_def)
    next
      case False
      then show ?thesis
        using p e assms(8) by (cases "w = 0") (auto simp: pp met_def Let_def asleep_def)
    qed
  qed
qed

lemma xEventGroupSync_meets_witness:
  "ensures (xEventGroupSync_enter 0 2 3 7 demo_events) (\<lambda>(s', r, waits). \<not> waits \<and> r = 3 \<and> ready (evkern s') 3)"
  by (rule ensures_mono [OF xEventGroupSync_meets [OF demo_events_inv, where g = demo_group and n = 3]])
    (auto simp: user_bits_def demo_user_bits may_wait_def demo_waiters_lists)

text \<open>
  Deleting an event group (\<open>vEventGroupDelete\<close>) ends: it takes the first waiter out until
  none is left, so that every task that waited is ready and will return 0, no task is left in
  the list, and the group is freed unless its memory is the caller's.
\<close>

theorem vEventGroupDelete_releases_everyone:
  assumes "event_inv s" and "event_groups s h = Some g"
  shows "ensures (vEventGroupDelete Some h s) (\<lambda>s'. event_inv s' \<and> members (evkern s') (BitsL h) = [] \<and>
    (\<forall>t. event_list (evkern s) t = Some (BitsL h) \<longrightarrow> ready (evkern s') t \<and>
       item_value (lists (evkern s')) (EventI t) AND eventUNBLOCKED_DUE_TO_BIT_SET \<noteq> 0 \<and>
       item_value (lists (evkern s')) (EventI t) AND NOT eventEVENT_BITS_CONTROL_BYTES = 0) \<and>
    (\<forall>t. event_list (evkern s) t \<noteq> Some (BitsL h) \<longrightarrow> event_list (evkern s') t = event_list (evkern s) t \<and>
       state_list (evkern s') t = state_list (evkern s) t) \<and>
    event_groups s' = (if ucGroupStaticallyAllocated g then event_groups s else (event_groups s)(h := None)))"
    (is "ensures _ ?Q")
proof (rule ensures_mono [OF vEventGroupDelete_inv [OF assms]], elim conjE)
  fix s' assume s': "event_inv s'" "handed (owner ` set (members (evkern s) (BitsL h))) eventUNBLOCKED_DUE_TO_BIT_SET
      (evkern s) (evkern s')" "event_groups s' = (if ucGroupStaticallyAllocated g then event_groups s else (event_groups s)(h := None))"
  note core = sys_invD(2) [OF event_invD(1) [OF assms(1)]]
  have w: "t \<in> owner ` set (members (evkern s) (BitsL h)) \<longleftrightarrow> event_list (evkern s) t = Some (BitsL h)" for t
    using member_iff(2) [OF core, of t "BitsL h"] event_member [OF core _ bits_list] by (force simp: image_iff)
  have i: "i \<in> set (members (evkern s) (BitsL h)) \<Longrightarrow> i \<in> EventI ` owner ` set (members (evkern s) (BitsL h))" for i
    using event_member [OF core _ bits_list] by (metis image_eqI)
  have "members (evkern s') (BitsL h) = []" using s'(2) i by (simp add: handed_def filter_empty_conv)
  moreover have "(eventUNBLOCKED_DUE_TO_BIT_SET OR taskEVENT_LIST_ITEM_VALUE_IN_USE) AND eventUNBLOCKED_DUE_TO_BIT_SET \<noteq> 0"
    by (simp add: eventUNBLOCKED_DUE_TO_BIT_SET_def taskEVENT_LIST_ITEM_VALUE_IN_USE_def)
  moreover have "(eventUNBLOCKED_DUE_TO_BIT_SET OR taskEVENT_LIST_ITEM_VALUE_IN_USE) AND NOT eventEVENT_BITS_CONTROL_BYTES = 0"
    by (simp add: bit.conj_disj_distrib2 control_values)
  moreover have "owner ` set (members (evkern s) (BitsL h)) = {t. event_list (evkern s) t = Some (BitsL h)}"
    using w by blast
  ultimately show "?Q s'" using s'(1,3) s'(2) by (simp add: handed_def)
qed

lemma vEventGroupDelete_releases_everyone_witness:
  "ensures (vEventGroupDelete Some 0 demo_events) (\<lambda>s'. ready (evkern s') 3 \<and> ready (evkern s') 8 \<and> event_groups s' 0 = None)"
  by (rule ensures_mono [OF vEventGroupDelete_releases_everyone [OF demo_events_inv, where g = demo_group]])
    (auto simp: demo_waiters_lists)

section \<open>Stream and message buffers\<close>

text \<open>
  C31: A stream buffer delivers bytes first in, first out. Whatever sequence of sends and
  receives, from tasks and from interrupts, of whatever sizes, is done on it: no call fails, and
  what was inside before together with the bytes the sends took is what the receives handed out
  together with what is still inside, in that order. The positions may go over the end of the
  ring any number of times, and waiting tasks may be woken on the way.
\<close>

theorem stream_delivers_bytes_in_order:
  assumes "stream_at h s"
  shows "ensures (channel_run (stream_send h) (receive_bytes h) ops s)
    (\<lambda>(s', sent, received). stream_at h s' \<and> bytes_at h s @ sent = received @ bytes_at h s')"
  by (rule sc.in_order) (use assms in simp_all)

lemma stream_delivers_bytes_in_order_witness:
  "ensures (channel_run (stream_send 0) (receive_bytes 0)
      [Send (From_ISR, [13, 14]), Receive (From_Task, 2), Send (From_Task, [15, 16, 17]), Receive (From_ISR, 3)] demo_streams)
    (\<lambda>(s', sent, received). [10, 11, 12] @ sent = received @ bytes_at 0 s')"
proof -
  have "stream_at 0 demo_streams" using demo_streams_sys(1) demo_stream_ok(1) by (auto simp: stream_at_def)
  moreover have "bytes_at 0 demo_streams = [10, 11, 12]" by (simp add: bytes_at_def demo_stream_ok(2))
  ultimately show ?thesis
    using stream_delivers_bytes_in_order [of 0 demo_streams
        "[Send (From_ISR, [13, 14]), Receive (From_Task, 2), Send (From_Task, [15, 16, 17]), Receive (From_ISR, 3)]"]
    by (auto elim!: ensures_mono)
qed

text \<open>
  C32: A message buffer keeps messages apart: whatever is sent and received on it, the messages
  that were inside and those that were taken come out one by one, each with the bytes it was
  sent with, in that order. The length that is stored before each message is a 64-bit number,
  so a message and its length must be fewer than \<open>2 ^ 64\<close> bytes, which the code asserts.
\<close>

theorem message_buffer_keeps_messages_apart:
  assumes "message_buffer_at h s" and "\<And>who data. Send (who, data) \<in> set ops \<Longrightarrow> sendable (who, data)"
  shows "ensures (channel_run (message_send h) (message_receive h) ops s)
    (\<lambda>(s', sent, received). message_buffer_at h s' \<and> messages_at h s @ sent = received @ messages_at h s')"
  by (rule mc.in_order) (use assms in auto)

lemma demo_message_buffer_at: "message_buffer_at 4 demo_streams" "messages_at 4 demo_streams = [[5, 6]]"
proof -
  show "message_buffer_at 4 demo_streams" using demo_streams_sys(2) demo_messages_ok by (auto simp: message_buffer_at_def)
  have "buffers demo_streams 4 = Some demo_messages" by (rule demo_streams_fields(3))
  then show "messages_at 4 demo_streams = [[5, 6]]" using demo_messages_ok by (simp add: messages_at_def)
qed

lemma message_buffer_keeps_messages_apart_witness:
  "ensures (channel_run (message_send 4) (message_receive 4)
      [Send (From_ISR, [7]), Receive (From_Task, 1), Receive (From_Task, 2)] demo_streams)
    (\<lambda>(s', sent, received). [[5, 6]] @ sent = received @ messages_at 4 s')"
proof -
  have s: "sendable (who, data)"
    if "Send (who, data) \<in> set [Send (From_ISR, [7]), Receive (From_Task, 1), Receive (From_Task, 2)]" for who data
    using that by (simp add: sendable_def sbBYTES_TO_STORE_MESSAGE_LENGTH_def)
  show ?thesis
    by (rule ensures_mono [OF message_buffer_keeps_messages_apart [OF demo_message_buffer_at(1) s]])
      (auto simp: demo_message_buffer_at(2))
qed

text \<open>
  C33: A message goes in whole or not at all, and comes out whole or stays: a send stores all of
  the message if it fits with its length into the free space, and otherwise returns 0 and leaves
  the messages as they are; a receive returns the whole first message if the caller's memory is
  large enough for it, and otherwise returns nothing and leaves it the first.
\<close>

theorem messages_are_never_split:
  assumes "sb_sys h b s" and "message_buffer_ok b" and "length data + sbBYTES_TO_STORE_MESSAGE_LENGTH < 2 ^ 64"
  shows "ensures (send_bytes h (who, data) s) (\<lambda>(s', k).
      if length data + sbBYTES_TO_STORE_MESSAGE_LENGTH \<le> spaces_available b
      then k = length data \<and> messages_at h s' = messages_at h s @ one_message data
      else k = 0 \<and> messages_at h s' = messages_at h s) \<and>
    ensures (receive_bytes h (who', n) s) (\<lambda>(s', bytes). case messages_at h s of
      [] \<Rightarrow> bytes = [] \<and> messages_at h s' = []
    | m # ms \<Rightarrow> if length m \<le> n then bytes = m \<and> messages_at h s' = ms
        else bytes = [] \<and> messages_at h s' = m # ms)"
proof
  show "ensures (send_bytes h (who, data) s) (\<lambda>(s', k).
      if length data + sbBYTES_TO_STORE_MESSAGE_LENGTH \<le> spaces_available b
      then k = length data \<and> messages_at h s' = messages_at h s @ one_message data
      else k = 0 \<and> messages_at h s' = messages_at h s)"
    by (rule ensures_mono [OF message_send_ensures [OF assms(1,2)]]) (use assms(3) in \<open>auto simp: sendable_def one_message_def\<close>)
qed (rule ensures_mono [OF message_receive_ensures [OF assms(1,2)]], simp only: case_prod_unfold)

lemma messages_are_never_split_witness:
  "ensures (send_bytes 4 (From_Task, [7, 8]) demo_streams) (\<lambda>(s', k). k = 2 \<and> messages_at 4 s' = [[5, 6], [7, 8]]) \<and>
   ensures (receive_bytes 4 (From_ISR, 1) demo_streams) (\<lambda>(s', bytes). bytes = [] \<and> messages_at 4 s' = [[5, 6]])"
proof -
  have "length [7, 8 :: byte] + sbBYTES_TO_STORE_MESSAGE_LENGTH < 2 ^ 64" "length [7, 8 :: byte] + sbBYTES_TO_STORE_MESSAGE_LENGTH \<le> 13"
    by (simp_all add: sbBYTES_TO_STORE_MESSAGE_LENGTH_def)
  then show ?thesis
    using messages_are_never_split [OF demo_streams_sys(2) conjunct1 [OF demo_messages_ok], of "[7, 8]" From_Task From_ISR 1]
    by (auto simp: demo_message_buffer_at(2) demo_spaces one_message_def elim!: ensures_mono)
qed

text \<open>
  C34: A task that receives from an empty stream buffer gets what an interrupt sends at whatever
  point of its wait: after the task has left its handle in the buffer (\<open>Registered\<close>), after it has
  announced its wait with the scheduler locked (\<open>Announced\<close>), or when it is asleep and other
  tasks have run that leave its wait and the buffers alone (\<open>Asleep\<close>). If what is sent reaches
  the trigger level, the task is ready, and once it runs again (\<open>runs_again\<close> says that a ready
  task does) it returns the bytes that were sent, as many of them as fit into its memory.
\<close>

theorem xStreamBufferReceive_gets_what_arrives:
  assumes "about_to_sleep c (skern s)" and "sb_sys h b s" and "stream_ok b" "\<not> is_batching_buffer b"
    and "sb_contents b = []" and "xTaskWaitingToReceive b = None" "xTaskWaitingToSend b = None" and "w \<noteq> 0"
    and "p = Registered \<or> p = Announced \<or> p = Asleep" and "runs_again c run"
    and "leaves_alone c h (set_sb_waiting Receiver (Some c) b) others"
    and "0 < length data" "length data \<le> spaces_available b" "xTriggerLevelBytes b \<le> length data"
  shows "ensures (xStreamBufferReceive
      (arrival p (\<lambda>s. map_option fst (xStreamBufferSendFromISR h data (length data) s)) others run) h n w s)
    (\<lambda>(s', bytes). bytes = take n data)"
  by (rule receive_what_arrives [OF assms(1-5) _ assms(8-14)])
    (use assms(6,7) in \<open>metis sb_side.exhaust sb_waiting.simps\<close>)

text \<open>Three bytes arrive while task 1 sleeps; it has room for two.\<close>

lemma xStreamBufferReceive_gets_what_arrives_witness:
  "ensures (xStreamBufferReceive
      (arrival Asleep (\<lambda>s. map_option fst (xStreamBufferSendFromISR 2 [7, 8, 9] 3 s)) Some demo_run) 2 2 100 demo_streams)
    (\<lambda>(s', bytes). bytes = [7, 8])"
proof -
  have w: "xTaskWaitingToReceive demo_empty = None" "xTaskWaitingToSend demo_empty = None" by (simp_all add: demo_empty_def)
  have "ensures (xStreamBufferReceive
      (arrival Asleep (\<lambda>s. map_option fst (xStreamBufferSendFromISR 2 [7, 8, 9] (length [7, 8, 9 :: byte]) s)) Some demo_run) 2 2 100 demo_streams)
    (\<lambda>(s', bytes). bytes = take 2 [7, 8, 9])"
    by (rule xStreamBufferReceive_gets_what_arrives [OF demo_about_to_sleep demo_streams_sys(3) demo_empty_ok(1-3) w])
      (use demo_runs_again demo_others in \<open>simp_all add: demo_empty_ok\<close>)
  then show ?thesis by (simp add: numeral_3_eq_3)
qed

text \<open>
  Creating a buffer with the allocator: if the size with the byte that stays free and the
  structure does not fit into a \<open>size_t\<close>, or there is no memory, nothing happens and NULL is
  returned; otherwise the new buffer is empty, can hold exactly the bytes asked for, and its
  trigger level is at least 1.
\<close>

theorem xStreamBufferGenericCreate_gives_the_size_asked_for:
  assumes "honest_malloc pvMalloc" and "n < 2 ^ 64"
    and "(if ty = sbTYPE_MESSAGE_BUFFER then sbBYTES_TO_STORE_MESSAGE_LENGTH else 0) < n" and "trigger \<le> n"
  shows "ensures (xStreamBufferGenericCreate pvMalloc n trigger ty s) (\<lambda>(s', r). case r of
      None \<Rightarrow> s' = s
    | Some h \<Rightarrow> n + 1 + sizeof_StreamBuffer < 2 ^ 64 \<and> (\<exists>b. s' = set_buffer h b s \<and> sb_ok b \<and> sb_contents b = [] \<and>
        spaces_available b = n \<and> xTriggerLevelBytes b = max 1 trigger \<and> ucFlags b = stream_flags ty \<and>
        (\<forall>d. sb_waiting d b = None)))"
  by (rule GenericCreate_ensures [OF assms])

lemma xStreamBufferGenericCreate_gives_the_size_asked_for_witness:
  "ensures (xStreamBufferGenericCreate (\<lambda>n. Some (5, replicate n 0)) 10 0 sbTYPE_STREAM_BUFFER demo_streams)
    (\<lambda>(s', r). r = None \<or> (\<exists>h b. r = Some h \<and> buffers s' h = Some b \<and> spaces_available b = 10 \<and> xTriggerLevelBytes b = 1))"
proof (rule ensures_mono [OF xStreamBufferGenericCreate_gives_the_size_asked_for], goal_cases)
  case (5 r)
  then show ?case by (cases r; cases "snd r") auto
qed (auto simp: honest_malloc_def)

section \<open>Software timers\<close>

text \<open>
  C35: A started timer is put where it belongs, whatever the tick counter did meanwhile. If \<open>e\<close>
  ticks have gone by since the command was given (at tick \<open>cmd\<close>, which may be before the last wrap)
  then the timer is to be processed at once exactly if its period is not longer than \<open>e\<close>;
  otherwise it is in one of the two lists, and due when the rest of the period is over. No other
  timer moves.
\<close>

theorem prvInsertTimerInActiveList_is_exact:
  assumes "lifted X s" and "t \<in> X" and "timers s t = Some tm"
  shows "ensures (prvInsertTimerInActiveList t (cmd + xTimerPeriodInTicks tm) now cmd s) (\<lambda>(s', expired).
    expired = (unat (xTimerPeriodInTicks tm) \<le> unat (now - cmd)) \<and>
    due s' t = (if expired then None
      else Some (uint now + int (unat (xTimerPeriodInTicks tm) - unat (now - cmd)))) \<and>
    (\<forall>u. u \<noteq> t \<longrightarrow> due s' u = due s u))"
proof (rule insert_ensures [OF assms], unfold prod.case)
  show "True = (unat (xTimerPeriodInTicks tm) \<le> unat (now - cmd)) \<and>
      due s' t = (if True then None else Some (uint now + int (unat (xTimerPeriodInTicks tm) - unat (now - cmd)))) \<and>
      (\<forall>u. u \<noteq> t \<longrightarrow> due s' u = due s u)"
    if "xTimerPeriodInTicks tm \<le> now - cmd" "lifted X s'" "\<forall>u. due s' u = due s u" for s'
    using that liftedD(3) [OF that(2) assms(2)] due_none [of s' t] by (auto simp: word_le_nat_alt simp del: due_none)
  show "False = (unat (xTimerPeriodInTicks tm) \<le> unat (now - cmd)) \<and>
      due s' t = (if False then None else Some (uint now + int (unat (xTimerPeriodInTicks tm) - unat (now - cmd)))) \<and>
      (\<forall>u. u \<noteq> t \<longrightarrow> due s' u = due s u)"
    if "now - cmd < xTimerPeriodInTicks tm" "due s' t = Some (uint now + uint (xTimerPeriodInTicks tm) - uint (now - cmd))"
      "\<forall>u. u \<noteq> t \<longrightarrow> due s' u = due s u" for s'
    using that by (simp add: word_less_nat_alt of_nat_diff)
qed

lemma prvInsertTimerInActiveList_is_exact_witness:
  "ensures (prvInsertTimerInActiveList 13 ((- 2) + 4) 1 (- 2) (demo_timers 8 3 (replicate 32 0) 0))
    (\<lambda>(s', expired). \<not> expired \<and> due s' 13 = Some 2)"
proof -
  have "timers (demo_timers 8 3 (replicate 32 0) 0) 13 = Some (demo_timer 4 2)" by simp
  from prvInsertTimerInActiveList_is_exact [OF demo_timers_lifted singletonI this, of "- 2" 1] show ?thesis
    by (auto elim!: ensures_mono)
qed

text \<open>
  C36: When the first timer is due, the timer task serves it, and only it. A one-shot timer has
  its callback called once and leaves the schedule. For an auto-reload timer the callback is
  called once for this expiry and once for every further one that has gone by since, however
  many those are, and the next expiry is the first one ahead on the timer's grid: the loop that
  makes up for the missed expiries ends, and the timer does not drift. This holds for every
  application whose callbacks return and do not touch the lists; \<open>calls\<close> is how it counts them.
\<close>

theorem prvProcessTimerOrBlockTask_serves_the_first_timer:
  assumes "timer_application app os_inv calls" and "timers_ok s" and "os_inv (tos s)"
    and "uxSchedulerSuspended (tkern s) = 0" and "\<not> xTickCount (tkern s) < xLastTime s"
    and "list_head (pxCurrentTimerList s) (tlists s) = Some t" and "prvGetNextExpireTime s = (nx, vac)"
    and "nx \<le> xTickCount (tkern s)" and "timers s t = Some tm"
  shows "ensures (prvProcessTimerOrBlockTask app e nx vac s) (\<lambda>s'. timers_ok s' \<and> os_inv (tos s') \<and>
    (let now = xTickCount (tkern s); p = unat (xTimerPeriodInTicks tm); late = unat (now - nx) in
      calls t (timers s') = calls t (timers s) + (if is_autoreload tm then 1 + late div p else 1) \<and>
      due s' t = (if is_autoreload tm then Some (uint now + int (p - late mod p)) else None) \<and>
      (\<forall>u. u \<noteq> t \<longrightarrow> due s' u = due s u \<and> calls u (timers s') = calls u (timers s))))"
  by (rule ensures_mono [OF block_task_fires [OF assms]]) (auto simp: fired_def Let_def)

lemma prvProcessTimerOrBlockTask_serves_the_first_timer_witness:
  "ensures (prvProcessTimerOrBlockTask counting_app no_interrupts 1 False (demo_timers 1 2 (replicate 32 0) 0))
    (\<lambda>s'. due s' 11 = Some 11 \<and> due s' 12 = Some (2 ^ 32 + 2) \<and> expiry_count 11 (timers s') = 1)"
proof -
  let ?s = "demo_timers 1 2 (replicate 32 0) 0"
  have "os_inv (tos ?s)" using demo_timer_queue_inv [of "replicate 32 0" 1 0] by simp
  moreover have "prvGetNextExpireTime ?s = (1, False)" by (simp add: prvGetNextExpireTime_def) (simp add: demo_timers_def)
  ultimately show ?thesis
    using prvProcessTimerOrBlockTask_serves_the_first_timer [OF counting.timer_application_axioms demo_timers_ok, of 1 2 "replicate 32 0" 0 11 1 False "demo_timer 10 5" no_interrupts]
    by (auto simp: expiry_count_def Let_def elim!: ensures_mono)
qed

text \<open>
  C37: When no timer is due the timer task goes to sleep on its queue, and sleeps for exactly the
  right time: without active timers until a command comes, and otherwise for the number of ticks
  after which the first timer expires, or after which the tick counter wraps if no timer
  expires before that. So no expiry is slept through.
\<close>

theorem prvProcessTimerOrBlockTask_sleeps_until_the_first_expiry:
  assumes "timers_ok s" and "os_inv (tos s)" and "uxSchedulerSuspended (tkern s) = 0"
    and "pxCurrentTCB (tkern s) = Some c" and "xIdleTaskHandle (tkern s) \<noteq> Some c"
    and "xTimerQueue s = Some h" and "queues (tos s) h = Some q" and "contents q = []"
    and "cTxLock q = queueUNLOCKED" and "cRxLock q = queueUNLOCKED"
    and "\<not> xTickCount (tkern s) < xLastTime s" and "prvGetNextExpireTime s = (nx, vac)"
    and "vac \<or> xTickCount (tkern s) < nx"
    and "\<forall>u d. due s u = Some d \<longrightarrow> d < uint (xTickCount (tkern s)) + 2 ^ 32"
  shows "ensures (prvProcessTimerOrBlockTask app no_interrupts nx vac s) (\<lambda>s'.
    timers_ok s' \<and> os_inv (tos s') \<and> timers s' = timers s \<and> due s' = due s \<and>
    event_list (tkern s') c = Some (ReceiveL h) \<and>
    (if \<forall>u. \<not> active s' u then state_list (tkern s') c = Some SuspendedL
     else timed (tkern s') c \<and>
       (let wake = uint (xTickCount (tkern s')) + int (ticks_left (tkern s') c) in
        (\<forall>u d. due s' u = Some d \<longrightarrow> wake \<le> d) \<and> (wake = 2 ^ 32 \<or> (\<exists>u. due s' u = Some wake)))))"
  by (rule ensures_mono [OF block_task_sleeps [OF assms]]) (auto simp: timer_asleep_def Let_def split: if_splits)

lemma prvProcessTimerOrBlockTask_sleeps_until_the_first_expiry_witness:
  "ensures (prvProcessTimerOrBlockTask counting_app no_interrupts 8 False (demo_timers 8 3 (replicate 32 0) 0))
    (\<lambda>s'. event_list (tkern s') 1 = Some (ReceiveL 7) \<and> timed (tkern s') 1)"
proof -
  let ?s = "demo_timers 8 3 (replicate 32 0) 0"
  have i: "os_inv (tos ?s)" using demo_timer_queue_inv [of "replicate 32 0" 1 0] by simp
  have n: "prvGetNextExpireTime ?s = (8, False)" by (simp add: prvGetNextExpireTime_def) (simp add: demo_timers_def)
  have "ensures (prvProcessTimerOrBlockTask counting_app no_interrupts 8 False ?s) (\<lambda>s'.
    timers_ok s' \<and> os_inv (tos s') \<and> timers s' = timers ?s \<and> due s' = due ?s \<and>
    event_list (tkern s') 1 = Some (ReceiveL 7) \<and>
    (if \<forall>u. \<not> active s' u then state_list (tkern s') 1 = Some SuspendedL
     else timed (tkern s') 1 \<and>
       (let wake = uint (xTickCount (tkern s')) + int (ticks_left (tkern s') 1) in
        (\<forall>u d. due s' u = Some d \<longrightarrow> wake \<le> d) \<and> (wake = 2 ^ 32 \<or> (\<exists>u. due s' u = Some wake)))))"
    by (rule prvProcessTimerOrBlockTask_sleeps_until_the_first_expiry [OF demo_timers_ok i, where q = "demo_queue 32 (replicate 32 0) 0"])
      (use n in \<open>simp_all add: demo_contents_empty\<close>)
  then show ?thesis
  proof (rule ensures_mono)
    fix s' assume a: "timers_ok s' \<and> os_inv (tos s') \<and> timers s' = timers ?s \<and> due s' = due ?s \<and>
    event_list (tkern s') 1 = Some (ReceiveL 7) \<and>
    (if \<forall>u. \<not> active s' u then state_list (tkern s') 1 = Some SuspendedL
     else timed (tkern s') 1 \<and>
       (let wake = uint (xTickCount (tkern s')) + int (ticks_left (tkern s') 1) in
        (\<forall>u d. due s' u = Some d \<longrightarrow> wake \<le> d) \<and> (wake = 2 ^ 32 \<or> (\<exists>u. due s' u = Some wake))))"
    then have "active s' 11" by (simp add: active_def)
    with a show "event_list (tkern s') 1 = Some (ReceiveL 7) \<and> timed (tkern s') 1" by (auto split: if_splits)
  qed
qed

text \<open>
  C38: When the timer task finds that the tick counter has wrapped, it switches the lists, and the
  loop that empties the old one ends, although auto-reload timers put themselves back. What
  becomes of each timer is exact (\<open>past_wrap\<close>): one that is due after the wrap is not called and its
  expiry counts from the wrap on; a one-shot timer that was due before it is called once and is
  out of the schedule; an auto-reload timer is called once for each of its expiries before the
  wrap, and is due at the first expiry of its grid after it. The application's callbacks may
  change reload modes; if they do not, the mode is the one the timer had. The list for the round
  after this one is empty, and the invariant holds.
\<close>

theorem prvSampleTimeNow_switches_the_lists_at_the_wrap:
  assumes app: "timer_application app P calls" and ok: "timers_ok s" and P: "P (tos s)"
    and wrap: "xTickCount (tkern s) < xLastTime s"
  shows "ensures (prvSampleTimeNow app s) (\<lambda>(s', now, switched). now = xTickCount (tkern s) \<and> switched \<and>
    timers_ok s' \<and> P (tos s') \<and> xLastTime s' = now \<and> list_empty (pxOverflowTimerList s') (tlists s') \<and>
    (\<forall>u. past_wrap (keeps_reload_modes app P) (timers s u)
       (due s u) (calls u (timers s)) (due s' u) (calls u (timers s'))))"
proof (rule timer_application.sample_ensures [OF app ok [unfolded timers_ok_def] P], unfold prod.case)
  fix s' assume s': "lifted {} s'" "P (tos s')" "xLastTime s' = xTickCount (tkern s)"
    and a: "timer_application.aged app P calls (xTickCount (tkern s) < xLastTime s) s s'"
  from a wrap have "list_empty (pxOverflowTimerList s') (tlists s')"
    "\<forall>u. past_wrap (keeps_reload_modes app P) (timers s u) (due s u) (calls u (timers s)) (due s' u) (calls u (timers s'))"
    by (simp_all add: timer_application.aged_def [OF app] timer_application.called_def [OF app])
  with s' wrap show "xTickCount (tkern s) = xTickCount (tkern s) \<and> (xTickCount (tkern s) < xLastTime s) \<and>
    timers_ok s' \<and> P (tos s') \<and> xLastTime s' = xTickCount (tkern s) \<and> list_empty (pxOverflowTimerList s') (tlists s') \<and>
    (\<forall>u. past_wrap (keeps_reload_modes app P) (timers s u) (due s u) (calls u (timers s)) (due s' u) (calls u (timers s')))"
    by (simp add: timers_ok_def)
qed

text \<open>
  Timer 11, of period 10, was due at tick 7 of the last round: 429496729 expiries of it are made up
  for, and it is due at tick 1; timer 12 is due two ticks after the wrap.
\<close>

lemma prvSampleTimeNow_switches_the_lists_at_the_wrap_witness:
  "ensures (prvSampleTimeNow counting_app (demo_timers 7 9 (replicate 32 0) 0)) (\<lambda>(s', now, switched). switched \<and>
    due s' 11 = Some 1 \<and> expiry_count 11 (timers s') = 429496729 \<and> due s' 12 = Some 2)"
proof -
  let ?s = "demo_timers 7 9 (replicate 32 0) 0"
  have w: "xTickCount (tkern ?s) < xLastTime ?s" by simp
  note switch = prvSampleTimeNow_switches_the_lists_at_the_wrap [OF counting.timer_application_axioms demo_timers_ok TrueI w]
  show ?thesis
  proof (rule ensures_mono [OF switch], unfold case_prod_unfold, elim conjE)
    fix r :: "timer_os \<times> tick \<times> bool"
    assume b: "snd (snd r)"
      and c: "\<forall>u. past_wrap (keeps_reload_modes counting_app (\<lambda>_. True)) (timers ?s u) (due ?s u) (expiry_count u (timers ?s))
        (due (fst r) u) (expiry_count u (timers (fst r)))"
    have "past_wrap True (timers ?s 11) (Some 7) 0 (due (fst r) 11) (expiry_count 11 (timers (fst r)))"
      using c [rule_format, of 11] by (simp add: counting_keeps_modes expiry_count_def)
    then have "due (fst r) 11 = Some 1 \<and> expiry_count 11 (timers (fst r)) = 429496729"
      by (simp add: past_wrap_def)
    moreover have "due (fst r) 12 = Some 2" using c [rule_format, of 12] by (simp add: past_wrap_def)
    ultimately show "snd (snd r) \<and> due (fst r) 11 = Some 1 \<and> expiry_count 11 (timers (fst r)) = 429496729 \<and> due (fst r) 12 = Some 2"
      using b by simp
  qed
qed

text \<open>
  C39: What the commands do. Starting or resetting counts from the time \<open>v\<close> at which it was asked
  for, not from when the timer task gets to it: if the period is not over yet the timer is due when
  it is; otherwise the expiries that have gone by are made up for, each with one call, and an
  auto-reload timer goes on on its grid. Changing the period starts the timer anew from now,
  and never fires it at once. A stopped or deleted timer is not due any more, and not called. All
  this holds whether or not the counter has wrapped since the timer task last looked at it; if it
  has, the lists are switched first, and every other timer is past the wrap (as in C38), and if
  it has not, no other timer is affected. The active timers are those in the lists.
\<close>

theorem timer_commands_take_effect:
  assumes app: "timer_application app P calls" and ok: "timers_ok s" and tm: "timers s t = Some tm"
    and P: "P (tos s)" and i: "proper_command i v"
  shows "ensures (process_command app i v t s) (\<lambda>s'. timers_ok s' \<and> P (tos s') \<and>
    (let now = xTickCount (tkern s); wrapped = now < xLastTime s; p = unat (xTimerPeriodInTicks tm); late = unat (now - v) in
      (\<exists>b. (keeps_reload_modes app P \<or> \<not> wrapped \<longrightarrow> b = is_autoreload tm) \<and>
        due s' t =
          (if i \<in> start_commands then if late < p \<or> b then Some (uint now + int (p - late mod p)) else None
           else if i \<in> period_commands then Some (uint now + uint v)
           else None) \<and>
        (i \<noteq> tmrCOMMAND_DELETE \<longrightarrow> calls t (timers s') = calls t (timers s) +
          (if i \<in> start_commands then if b then late div p else min 1 (late div p) else 0))) \<and>
      (\<forall>u. u \<noteq> t \<longrightarrow>
        (if wrapped then past_wrap (keeps_reload_modes app P) (timers s u)
           (due s u) (calls u (timers s)) (due s' u) (calls u (timers s'))
         else due s' u = due s u \<and> calls u (timers s') = calls u (timers s)))))"
proof (rule timer_application.command_ensures [OF app ok tm P i])
  fix s' assume s': "timers_ok s'" "P (tos s')"
    and c: "\<exists>b. (keeps_reload_modes app P \<or> \<not> xTickCount (tkern s) < xLastTime s \<longrightarrow> b = is_autoreload tm) \<and>
      timer_application.carried_out calls b i v t tm (xTickCount (tkern s)) s s'"
    and o: "timer_application.others_done app P calls t s s'"
  show "timers_ok s' \<and> P (tos s') \<and>
    (let now = xTickCount (tkern s); wrapped = now < xLastTime s; p = unat (xTimerPeriodInTicks tm); late = unat (now - v) in
      (\<exists>b. (keeps_reload_modes app P \<or> \<not> wrapped \<longrightarrow> b = is_autoreload tm) \<and>
        due s' t =
          (if i \<in> start_commands then if late < p \<or> b then Some (uint now + int (p - late mod p)) else None
           else if i \<in> period_commands then Some (uint now + uint v)
           else None) \<and>
        (i \<noteq> tmrCOMMAND_DELETE \<longrightarrow> calls t (timers s') = calls t (timers s) +
          (if i \<in> start_commands then if b then late div p else min 1 (late div p) else 0))) \<and>
      (\<forall>u. u \<noteq> t \<longrightarrow>
        (if wrapped then past_wrap (keeps_reload_modes app P) (timers s u)
           (due s u) (calls u (timers s)) (due s' u) (calls u (timers s'))
         else due s' u = due s u \<and> calls u (timers s') = calls u (timers s))))"
    using s' c o unfolding timer_application.carried_out_def [OF app] timer_application.others_done_def [OF app]
      timer_application.called_def [OF app] Let_def by blast
qed

text \<open>
  Timer 13 is started, as asked for at tick 1: its period of 4 ticks is over at tick 5. The same
  when the counter has wrapped: timer 11 is then served for the round before.
\<close>

lemma timer_commands_take_effect_witness:
  "ensures (process_command counting_app tmrCOMMAND_START 1 13 (demo_timers 8 3 (replicate 32 0) 0)) (\<lambda>s'.
    due s' 13 = Some 5 \<and> due s' 11 = Some 8) \<and>
   ensures (process_command counting_app tmrCOMMAND_START 1 13 (demo_timers 7 9 (replicate 32 0) 0)) (\<lambda>s'.
    due s' 13 = Some 5 \<and> due s' 11 = Some 1)"
proof
  have i: "proper_command tmrCOMMAND_START 1" by (simp add: proper_command_def)
  have tm: "timers (demo_timers x y (replicate 32 0) 0) 13 = Some (demo_timer 4 2)" for x y by simp
  show "ensures (process_command counting_app tmrCOMMAND_START 1 13 (demo_timers 8 3 (replicate 32 0) 0)) (\<lambda>s'.
    due s' 13 = Some 5 \<and> due s' 11 = Some 8)"
    by (rule ensures_mono [OF timer_commands_take_effect [OF counting.timer_application_axioms demo_timers_ok tm TrueI i]])
      (auto simp: Let_def)
  show "ensures (process_command counting_app tmrCOMMAND_START 1 13 (demo_timers 7 9 (replicate 32 0) 0)) (\<lambda>s'.
    due s' 13 = Some 5 \<and> due s' 11 = Some 1)"
  proof (rule ensures_mono [OF timer_commands_take_effect [OF counting.timer_application_axioms demo_timers_ok tm TrueI i]],
      unfold Let_def, elim conjE, goal_cases)
    case (1 s')
    then have "past_wrap True (timers (demo_timers 7 9 (replicate 32 0) 0) 11) (Some 7) 0 (due s' 11) (expiry_count 11 (timers s'))"
      using 1(4) [rule_format, of 11] by (simp add: counting_keeps_modes expiry_count_def)
    then have "due s' 11 = Some 1" by (simp add: past_wrap_def)
    moreover have "due s' 13 = Some 5" using 1(3) by (auto simp: counting_keeps_modes)
    ultimately show ?case by simp
  qed
qed

text \<open>
  C40: A command that a task gives while there is room in the timer queue is accepted at once, and
  what the timer task will take out of the queue for it, after all the messages that were there
  before, is that command: the bytes of the message decode to the same number, the same value
  and the same timer. Neither the timers nor their lists have changed yet.
\<close>

theorem timer_commands_reach_the_timer_task:
  assumes "xTimerQueue s = Some h" and "holds_messages h ms (tos s)" and "has_room h (tos s)"
    and "0 \<le> i" and "i < tmrFIRST_FROM_ISR_COMMAND" and "t < 2 ^ 64"
  shows "ensures (xTimerGenericCommandFromTask es Some (Some t) i v w s) (\<lambda>(s', r). r = Some True \<and>
    timers s' = timers s \<and> tlists s' = tlists s \<and>
    (\<exists>b. holds_messages h (ms @ [b]) (tos s') \<and> message_of_bytes b = TimerMessage i v t))"
proof (rule ensures_mono [OF command_from_task [OF assms]], unfold case_prod_unfold, elim conjE)
  fix r :: "timer_os \<times> bool option"
  assume r: "snd r = Some True" "queued h ms (TimerMessage i v t) s (fst r)"
  then have e: "fst r = s\<lparr>tos := tos (fst r)\<rparr>" unfolding queued_def by blast
  have "timers (fst r) = timers s" "tlists (fst r) = tlists s" by (subst e, simp)+
  with r show "snd r = Some True \<and> timers (fst r) = timers s \<and> tlists (fst r) = tlists s \<and>
    (\<exists>b. holds_messages h (ms @ [b]) (tos (fst r)) \<and> message_of_bytes b = TimerMessage i v t)"
    by (simp add: queued_def)
qed

lemma timer_commands_reach_the_timer_task_witness:
  "ensures (xTimerGenericCommandFromTask [] Some (Some 13) tmrCOMMAND_START 3 0 (demo_timers 8 3 (replicate 64 0) 0))
    (\<lambda>(s', r). r = Some True \<and> (\<exists>b. holds_messages 7 [b] (tos s') \<and> message_of_bytes b = TimerMessage tmrCOMMAND_START 3 13))"
proof -
  let ?s = "demo_timers 8 3 (replicate 64 0) 0"
  have "holds_messages 7 [] (tos ?s)"
    using demo_timer_queue_inv [of "replicate 64 0" 2 0]
    by (simp add: holds_messages_def demo_contents_empty sizeof_DaemonTaskMessage_def)
  moreover have "has_room 7 (tos ?s)" by (simp add: has_room_def)
  ultimately show ?thesis
    using timer_commands_reach_the_timer_task [of ?s 7 "[]" tmrCOMMAND_START 13 "[]" 3 0]
    by (auto simp: timer_commands elim!: ensures_mono)
qed

text \<open>
  The timer task carries out everything in its queue: if the queue holds any sequence of
  messages, commands and pended calls, then the loop takes them out as they were put in and
  processes them one after the other, in that order; it ends with the queue empty, nothing fails,
  and the invariants of the timers and of the system hold. A timer that is deleted must not be
  used any more by the messages after that. Callbacks are assumed to send no further messages,
  since with others the loop might go on for as long as they send.
\<close>

theorem prvProcessReceivedCommands_ends_with_an_empty_queue:
  assumes "\<And>c. timer_application app (holds_messages h c) calls" and "timers_ok s" and "xTimerQueue s = Some h"
    and "holds_messages h (map message_bytes ms) (tos s)" and "\<forall>m \<in> set ms. sound_message m"
    and "proper_commands K ms" and "\<forall>t \<in> K. timers s t \<noteq> None"
  shows "ensures (prvProcessReceivedCommands app s)
    (\<lambda>s'. messages_run app ms s s' \<and> timers_ok s' \<and> os_inv (tos s') \<and> uxQueueMessagesWaiting h (tos s') = Some 0)"
  by (rule ensures_mono [OF prvProcessReceivedCommands_empties_the_queue [OF assms]])
    (auto simp: holds_messages_def uxQueueMessagesWaiting_def contents_empty)

lemma prvProcessReceivedCommands_ends_with_an_empty_queue_witness:
  "ensures (prvProcessReceivedCommands counting_app (demo_timers 8 3
      (message_bytes (TimerMessage tmrCOMMAND_START 1 13) @ message_bytes (TimerMessage tmrCOMMAND_DELETE 0 11)) 2))
    (\<lambda>s'. uxQueueMessagesWaiting 7 (tos s') = Some 0)"
proof -
  let ?a = "TimerMessage tmrCOMMAND_START 1 13" and ?b = "TimerMessage tmrCOMMAND_DELETE 0 11"
  let ?m = "message_bytes ?a @ message_bytes ?b"
  have sound: "sound_message ?a" "sound_message ?b" by (simp_all add: timer_commands)
  note l = message_round(2) [OF sound(1), unfolded sizeof_DaemonTaskMessage_def] message_round(2) [OF sound(2), unfolded sizeof_DaemonTaskMessage_def]
  have inv: "os_inv (demo_timer_queue ?m 2)" using demo_timer_queue_inv [of ?m 2 2] l by simp
  have c: "contents (demo_queue 32 ?m 2) = map message_bytes [?a, ?b]"
    using demo_contents [of ?m 2] l by (simp add: block_def upt_rec)
  have "ensures (prvProcessReceivedCommands counting_app (demo_timers 8 3 ?m 2))
    (\<lambda>s'. messages_run counting_app [?a, ?b] (demo_timers 8 3 ?m 2) s' \<and> timers_ok s' \<and> os_inv (tos s') \<and>
      uxQueueMessagesWaiting 7 (tos s') = Some 0)"
    by (rule prvProcessReceivedCommands_ends_with_an_empty_queue [OF counting.timer_application_axioms demo_timers_ok,
          where ms = "[?a, ?b]" and K = "{11, 13}"])
      (use inv c sound in \<open>simp_all add: holds_messages_def sizeof_DaemonTaskMessage_def proper_command_def\<close>)
  then show ?thesis by (auto elim!: ensures_mono)
qed

section \<open>The threads of the port\<close>

text \<open>
  C7: One thread at a time. In every state that the pthreads of the tasks, the main thread, the
  thread that makes the ticks and the host can reach, in whatever order they take their steps: no
  two tasks execute code of the kernel or of their own; the one that does is the current task of
  the kernel, or has just chosen it and is about to wake it; and from the start of the scheduler
  to its end there is always one that executes, or the current task, whose wake-up is there.
\<close>

theorem one_thread_runs_at_a_time:
  assumes "reachable s"
  shows "(\<forall>t u. executing s t \<and> executing s u \<longrightarrow> t = u) \<and>
    (\<forall>t. executing s t \<longrightarrow> current s = Some t \<or> (\<exists>f u. at_point s t (Switching f u) \<and> current s = Some u)) \<and>
    (main_at s \<noteq> Main_Setup \<and> \<not> stopped_port s \<longrightarrow>
       (\<exists>t. executing s t \<or> (current s = Some t \<and> wake_up_pending s t)))"
  using executing_unique executing_current somebody_goes_on reachable_inv [OF assms] by blast

lemma one_thread_runs_at_a_time_witness:
  "reachable demo_critical \<and> {u. executing demo_critical u} = {1}"
proof -
  have "executing demo_critical 1" by (simp add: executing_def demo_critical_def)
  then show ?thesis using one_thread_runs_at_a_time [OF demo_reachable(2)] demo_reachable(2) by blast
qed

text \<open>
  C8: Critical sections are atomic. While a task is in a critical section, whatever the other
  threads of the process do leaves the kernel, the nesting count and the place of the task as they are,
  and the task itself is not interrupted by the tick handler, however many signals are sent to it.
\<close>

theorem critical_sections_are_atomic:
  assumes "reachable s" and "in_code s c" and "0 < uxCriticalNesting s"
    and "port_run (UNIV - {Task_Thread c}) s s'"
  shows "pkern s' = pkern s \<and> uxCriticalNesting s' = uxCriticalNesting s \<and> in_code s' c \<and>
    (\<forall>s''. port_step s' (Task_Thread c) s'' \<longrightarrow> \<not> at_point s'' c In_Handler)"
proof -
  note inv = reachable_inv [OF assms(1)]
  obtain h where h: "pthreads s c = Some h" "thread_at h = In_Code" "joining h = None"
    using assms(2) by (auto simp: in_code_def)
  have "executing s c" using h by (simp add: executing_def)
  from others_run [OF assms(4) _ inv this h(1)] obtain b where s': "pkern s' = pkern s"
    "uxCriticalNesting s' = uxCriticalNesting s" "pthreads s' c = Some (h\<lparr>sigalrm_pending := b\<rparr>)" by auto
  then show ?thesis
    using masked [OF port_run_inv [OF assms(4) inv] s'(3)] h(2,3) assms(3) by (auto simp: in_code_def)
qed

lemma critical_sections_are_atomic_witness:
  "pkern demo_ticked = demo \<and> uxCriticalNesting demo_ticked = 1 \<and>
   {s. port_step demo_ticked (Task_Thread 1) s \<and> at_point s 1 In_Handler} = {}"
proof -
  have c: "in_code demo_critical 1" "0 < uxCriticalNesting demo_critical"
    by (simp_all add: in_code_def demo_critical_def)
  have k: "pkern demo_critical = demo" "uxCriticalNesting demo_critical = 1" by (simp_all add: demo_critical_def)
  show ?thesis using critical_sections_are_atomic [OF demo_reachable(2) c demo_ticked] unfolding k by blast
qed

text \<open>
  C9: A switch comes back as it went. A task that yields or is interrupted, at any depth of
  critical sections, and whatever runs meanwhile with nesting counts of its own: when it is back
  in its code the nesting count is what it was, and it is the current task.
\<close>

theorem a_switch_comes_back_as_it_went:
  assumes "reachable s" and "at_point s c In_Code" and "port_step s (Task_Thread c) s1"
    and "at_point s1 c In_Yield \<or> at_point s1 c In_Handler"
    and "away c s1 s2" and "at_point s2 c In_Code"
  shows "uxCriticalNesting s2 = uxCriticalNesting s \<and> current s2 = Some c"
  by (rule switch_returns [OF reachable_inv [OF assms(1)] assms(2-)])

lemma a_switch_comes_back_as_it_went_witness:
  "uxCriticalNesting demo_returned = 1 \<and> current demo_returned = Some 1"
proof -
  have p: "at_point demo_critical 1 In_Code" "at_point demo_yielded 1 In_Yield \<or> at_point demo_yielded 1 In_Handler"
    "at_point demo_returned 1 In_Code"
    by (simp_all add: at_point_def demo_critical_def demo_yielded_def demo_returned_def)
  have k: "uxCriticalNesting demo_critical = 1" by (simp add: demo_critical_def)
  show ?thesis
    using a_switch_comes_back_as_it_went [OF demo_reachable(2) p(1) demo_yields(1) [folded demo_yielded_def]
      p(2) demo_away p(3)] unfolding k .
qed

text \<open>
  C10: Deleting a task ends. The pthread that \<open>vPortCancelThread\<close> has cancelled and waits for in
  \<open>pthread_join\<close>: until it has ended it can take a step, every step of its own brings it
  nearer to its end, of at most three, and no step of another thread moves it or takes back its
  cancellation. None of these steps needs anything from another task.
\<close>

theorem a_cancelled_thread_ends:
  assumes "reachable s" and "pthreads s u = Some h" and "cancelled h" and "thread_at h \<noteq> Ended"
  shows "(\<exists>s'. port_step s (Task_Thread u) s') \<and> steps_left (thread_at h) \<le> 3 \<and>
    (\<forall>a s'. port_step s a s' \<longrightarrow> (\<exists>h'. pthreads s' u = Some h' \<and> cancelled h' \<and>
       (if a = Task_Thread u then steps_left (thread_at h') < steps_left (thread_at h)
        else thread_at h' = thread_at h)))"
proof (intro conjI allI impI)
  note inv = reachable_inv [OF assms(1)]
  show "\<exists>s'. port_step s (Task_Thread u) s'" by (rule cancelled_goes_on [OF inv assms(2-4)])
  show "steps_left (thread_at h) \<le> 3" by (cases "thread_at h") simp_all
  fix a s' assume st: "port_step s a s'"
  show "\<exists>h'. pthreads s' u = Some h' \<and> cancelled h' \<and>
      (if a = Task_Thread u then steps_left (thread_at h') < steps_left (thread_at h)
       else thread_at h' = thread_at h)"
  proof (cases "a = Task_Thread u")
    case True
    then show ?thesis using cancelled_own_step [OF _ inv assms(2-4)] st by simp
  next
    case False
    then show ?thesis using other_step_point [OF st False assms(2,4)] assms(3) by auto
  qed
qed

lemma a_cancelled_thread_ends_witness:
  "\<exists>s' h'. port_step demo_cancelling (Task_Thread 10) s' \<and> pthreads s' 10 = Some h' \<and>
     steps_left (thread_at h') < 2"
proof -
  let ?h = "(new_pthread True)\<lparr>cancelled := True, event_triggered := True\<rparr>"
  have h: "cancelled ?h" "thread_at ?h \<noteq> Ended" "steps_left (thread_at ?h) = 2"
    by (simp_all add: new_pthread_def)
  from a_cancelled_thread_ends [OF demo_cancelling h(1,2)] show ?thesis unfolding h(3) by fastforce
qed

text \<open>
  C11: The event of a pthread is a flag. Step by step, with its mutex, its condition variable and
  wake-ups for no reason, \<open>wait_for_event.c\<close> does what an atomic flag does: every step sets the
  flag, or lets the waiter take it, or leaves it alone, and the waiter is past the wait only
  with the flag taken. A signal is not lost, whenever it comes: with the flag set and nobody
  about to signal, the waiter returns within three steps of its own. The clean-up after a
  cancellation unlocks a mutex that its thread holds.
\<close>

theorem no_event_signal_is_lost:
  assumes "pevent_run with_time event_create e"
  shows "(\<forall>a e'. pevent_step with_time e a e' \<longrightarrow> sets_flag e a e' \<or> takes_flag e a e' \<or> leaves_flag e e') \<and>
    (triggered e \<and> waiting_in_event e \<and>
       (\<forall>i. signaller_at e i = Signal_Entry \<or> signaller_at e i = Signal_Returned) \<longrightarrow>
     (\<exists>n e'. n \<le> 3 \<and> waiter_runs n e = Some e' \<and> waiter_at e' = Wait_Returned True \<and>
        \<not> triggered e' \<and> mutex e' = None)) \<and>
    (waiter_at e = Wait_Clean_Up \<longrightarrow> mutex e = Some Waiter)"
proof -
  have inv: "pevent_inv with_time e" by (rule pevent_run_inv [OF assms pevent_create_inv])
  show ?thesis
    using flag_step [OF inv] signalled_wait_returns [OF inv] clean_up_holds_the_mutex [OF inv] by blast
qed

lemma no_event_signal_is_lost_witness:
  "\<exists>n e'. n \<le> 3 \<and> waiter_runs n demo_event = Some e' \<and> waiter_at e' = Wait_Returned True \<and> \<not> triggered e'"
proof -
  have "triggered demo_event" "waiting_in_event demo_event"
    "\<forall>i. signaller_at demo_event i = Signal_Entry \<or> signaller_at demo_event i = Signal_Returned"
    by (simp_all add: demo_event_def event_create_def waiting_in_event_def)
  with no_event_signal_is_lost [OF demo_event] show ?thesis by blast
qed

end
